(* ===== verification/Prelude.thy ===== *)
theory Prelude
  imports Main "HOL-Library.Word"
begin

text \<open>
  Shared vocabulary of the development: the machine types of the C code, results that may end
  the process, loops over index ranges, byte buffers with in-place copies, and files with
  positioned writes and truncation.

  A C buffer is a list of bytes; \<open>memcpy (buf + off, src, n)\<close> is \<open>blit\<close>. A file is the list of
  its bytes; writing past the end pads with zeros, as \<open>fseeko\<close> followed by \<open>fwrite\<close> does, and
  \<open>ftruncate\<close> cuts or pads.
\<close>

type_synonym u8 = "8 word"
type_synonym u16 = "16 word"
type_synonym u32 = "32 word"
type_synonym u64 = "64 word"
type_synonym bytes = "u8 list"

named_theorems blit_simps "reading buffers after copies"
named_theorems outcome_simps "unfolding of results that may end the process"

section \<open>Results\<close>

text \<open>
  A C function that may call \<open>exit(EXIT_FAILURE)\<close> returns a sum: \<open>Inl\<close> carries the reason for
  ending the process, \<open>Inr\<close> the result.
\<close>

definition and_then :: "'e + 'a \<Rightarrow> ('a \<Rightarrow> 'e + 'b) \<Rightarrow> 'e + 'b" where
  "and_then m f = (case m of Inl e \<Rightarrow> Inl e | Inr x \<Rightarrow> f x)"

lemma and_then_Inl [simp, outcome_simps]: "and_then (Inl e) f = Inl e"
  by (simp add: and_then_def)

lemma and_then_Inr [simp, outcome_simps]: "and_then (Inr x) f = f x"
  by (simp add: and_then_def)

lemma and_then_eq_Inr [outcome_simps]:
  "and_then m f = Inr y \<longleftrightarrow> (\<exists>x. m = Inr x \<and> f x = Inr y)"
  by (cases m) auto

lemma and_then_InrE [elim!]:
  assumes "and_then m f = Inr y"
  obtains x where "m = Inr x" and "f x = Inr y"
  using assms by (cases m) auto

lemma and_then_cong [fundef_cong]:
  "m = m' \<Longrightarrow> (\<And>x. m' = Inr x \<Longrightarrow> f x = g x) \<Longrightarrow> and_then m f = and_then m' g"
  by (cases m') auto

text \<open>A \<open>for\<close> loop whose body may end the process.\<close>

fun for_each :: "('i \<Rightarrow> 's \<Rightarrow> 'e + 's) \<Rightarrow> 'i list \<Rightarrow> 's \<Rightarrow> 'e + 's" where
  "for_each f [] s = Inr s"
| "for_each f (i # is) s = and_then (f i s) (for_each f is)"

lemma for_each_invariant:
  assumes "for_each f is s = Inr t" and "P s"
    and "\<And>i s t. i \<in> set is \<Longrightarrow> P s \<Longrightarrow> f i s = Inr t \<Longrightarrow> P t"
  shows "P t"
  using assms
proof (induction "is" arbitrary: s)
  case (Cons i "is")
  then obtain u where u: "f i s = Inr u" and t: "for_each f is u = Inr t" by auto
  have "P u" using Cons.prems(2,3) u by (meson list.set_intros(1))
  with t show ?case using Cons.IH Cons.prems(3) by (meson list.set_intros(2))
qed simp

lemma for_each_append:
  "for_each f (xs @ ys) s = and_then (for_each f xs s) (for_each f ys)"
  by (induction xs arbitrary: s) (auto simp: and_then_def split: sum.splits)

text \<open>
  A loop invariant that also knows which indices are done: \<open>P done s\<close>, with the rest of the
  list still to come.
\<close>

lemma for_each_invariant_upto:
  assumes "for_each f [0..<n] s = Inr t" and "P 0 s"
    and "\<And>i s t. i < n \<Longrightarrow> P i s \<Longrightarrow> f i s = Inr t \<Longrightarrow> P (Suc i) t"
  shows "P n t"
  using assms
proof (induction n arbitrary: t)
  case (Suc n)
  from Suc.prems(1) obtain u where u: "for_each f [0..<n] s = Inr u" and t: "f n u = Inr t"
    by (auto simp: for_each_append)
  have "P n u" using Suc.IH [OF u Suc.prems(2)] Suc.prems(3) by simp
  with t Suc.prems(3) show ?case by blast
qed simp

section \<open>Buffers\<close>

text \<open>\<open>memcpy (xs + off, bs, length bs)\<close>, for a range inside the buffer.\<close>

definition blit :: "nat \<Rightarrow> 'a list \<Rightarrow> 'a list \<Rightarrow> 'a list" where
  "blit off bs xs = take off xs @ bs @ drop (off + length bs) xs"

text \<open>The \<open>n\<close> bytes a pointer \<open>xs + off\<close> addresses.\<close>

definition slice :: "nat \<Rightarrow> nat \<Rightarrow> 'a list \<Rightarrow> 'a list" where
  "slice off n xs = take n (drop off xs)"

lemma length_blit [simp, blit_simps]:
  "off + length bs \<le> length xs \<Longrightarrow> length (blit off bs xs) = length xs"
  by (simp add: blit_def)

lemma length_slice [simp, blit_simps]:
  "off + n \<le> length xs \<Longrightarrow> length (slice off n xs) = n"
  by (simp add: slice_def)

lemma nth_blit:
  assumes "off + length bs \<le> length xs"
  shows "blit off bs xs ! i =
    (if off \<le> i \<and> i < off + length bs then bs ! (i - off) else xs ! i)"
proof (cases "i < length xs")
  case True
  then show ?thesis using assms by (auto simp: blit_def nth_append min_def)
next
  case False
  have "blit off bs xs ! i = xs ! i"
  proof -
    obtain k where k: "i = length xs + k" using False by (metis le_iff_add not_less)
    have l: "length (blit off bs xs) = length xs" using assms by simp
    have cat: "(us @ vs) ! (length us + j) = vs ! j" for us vs :: "'a list" and j
      by (simp add: nth_append)
    have "blit off bs xs ! i = ([] :: 'a list) ! k"
      using cat [of "blit off bs xs" "[]" k] l k by simp
    moreover have "xs ! i = ([] :: 'a list) ! k"
      using cat [of xs "[]" k] k by simp
    ultimately show ?thesis by simp
  qed
  with False assms show ?thesis by auto
qed

lemma nth_slice [simp]: "i < n \<Longrightarrow> off + n \<le> length xs \<Longrightarrow> slice off n xs ! i = xs ! (off + i)"
  by (simp add: slice_def)

lemma slice_blit_same [simp, blit_simps]:
  "off + length bs \<le> length xs \<Longrightarrow> n = length bs \<Longrightarrow> slice off n (blit off bs xs) = bs"
  by (simp add: slice_def blit_def)

lemma slice_blit_other [blit_simps]:
  assumes "off + length bs \<le> length xs" and "p + n \<le> off \<or> off + length bs \<le> p"
  shows "slice p n (blit off bs xs) = slice p n xs"
proof (rule nth_equalityI)
  show "length (slice p n (blit off bs xs)) = length (slice p n xs)"
    using assms(1) by (simp add: slice_def)
next
  fix i
  assume "i < length (slice p n (blit off bs xs))"
  then have i: "i < n" "p + i < length xs" using assms(1) by (auto simp: slice_def)
  have "slice p n (blit off bs xs) ! i = blit off bs xs ! (p + i)"
    using i assms(1) by (simp add: slice_def)
  also have "\<dots> = xs ! (p + i)"
    using i assms nth_blit [OF assms(1), of "p + i"] by auto
  also have "\<dots> = slice p n xs ! i" using i by (simp add: slice_def)
  finally show "slice p n (blit off bs xs) ! i = slice p n xs ! i" .
qed

lemma slice_all [simp]: "length xs = n \<Longrightarrow> slice 0 n xs = xs"
  by (simp add: slice_def)

lemma take_blit [simp]: "n \<le> off \<Longrightarrow> off \<le> length xs \<Longrightarrow> take n (blit off bs xs) = take n xs"
  by (simp add: blit_def)

section \<open>Files\<close>

definition file_write :: "nat \<Rightarrow> bytes \<Rightarrow> bytes \<Rightarrow> bytes" where
  "file_write off bs f =
     (let g = f @ replicate (off - length f) 0
      in take off g @ bs @ drop (off + length bs) g)"

definition file_truncate :: "nat \<Rightarrow> bytes \<Rightarrow> bytes" where
  "file_truncate len f = take len (f @ replicate (len - length f) 0)"

lemma length_file_write: "length (file_write off bs f) = max (length f) (off + length bs)"
  by (auto simp: file_write_def Let_def)

lemma length_file_truncate [simp]: "length (file_truncate len f) = len"
  by (simp add: file_truncate_def)

section \<open>Small list facts\<close>

lemma nth_list_update_any [simp]: "i \<noteq> j \<Longrightarrow> xs[i := x] ! j = xs ! j"
  by simp

lemma nth_append_replicate:
  "n < length xs + k \<Longrightarrow> (xs @ replicate k d) ! n = (if n < length xs then xs ! n else d)"
  by (simp add: nth_append)

end
