(* ===== verification/Bytes.thy ===== *)
theory Bytes
  imports Prelude
begin

unbundle bit_operations_syntax

text \<open>
  Integers in buffers and files. The slotted pages and the row envelopes store little-endian
  integers with explicit shifts (\<open>read_u16_le\<close> and its kin in \<open>src/slotted_leaf_v2.c\<close> and
  \<open>src/row_envelope.h\<close>); the pager copies \<open>uint32_t\<close> objects with \<open>fwrite\<close> and \<open>memcpy\<close>, which on
  the little-endian hosts the program is built for is the same four bytes. The contract of all of
  them is the locale \<open>fixed_codec\<close>: a fixed width and both round trips.
\<close>

section \<open>Reading and writing little-endian integers\<close>

definition read_u16_le :: "bytes \<Rightarrow> u16" where
  "read_u16_le bs = ucast (bs ! 0) OR push_bit 8 (ucast (bs ! 1))"

definition read_u32_le :: "bytes \<Rightarrow> u32" where
  "read_u32_le bs =
     ucast (bs ! 0) OR push_bit 8 (ucast (bs ! 1)) OR push_bit 16 (ucast (bs ! 2))
       OR push_bit 24 (ucast (bs ! 3))"

definition read_u64_le :: "bytes \<Rightarrow> u64" where
  "read_u64_le bs = fold (\<lambda>i value. value OR push_bit (8 * i) (ucast (bs ! i))) [0..<8] 0"

definition write_u16_le :: "u16 \<Rightarrow> bytes" where
  "write_u16_le value = [ucast (value AND 0xff), ucast (drop_bit 8 value AND 0xff)]"

definition write_u32_le :: "u32 \<Rightarrow> bytes" where
  "write_u32_le value =
     [ucast (value AND 0xff), ucast (drop_bit 8 value AND 0xff),
      ucast (drop_bit 16 value AND 0xff), ucast (drop_bit 24 value AND 0xff)]"

definition write_u64_le :: "u64 \<Rightarrow> bytes" where
  "write_u64_le value = map (\<lambda>i. ucast (drop_bit (8 * i) value AND 0xff)) [0..<8]"

text \<open>Page numbers and counts are naturals in the model and \<open>uint32_t\<close> in the files.\<close>

definition put_u32 :: "nat \<Rightarrow> bytes" where
  "put_u32 n = write_u32_le (of_nat n)"

definition get_u32 :: "bytes \<Rightarrow> nat" where
  "get_u32 bs = unat (read_u32_le bs)"

section \<open>The contract of a fixed-width codec\<close>

locale fixed_codec =
  fixes enc :: "'v \<Rightarrow> bytes" and dec :: "bytes \<Rightarrow> 'v" and width :: nat
    and valid :: "'v \<Rightarrow> bool"
  assumes length_enc [simp]: "length (enc v) = width"
    and dec_enc: "valid v \<Longrightarrow> dec (enc v) = v"
    and enc_dec: "length bs = width \<Longrightarrow> enc (dec bs) = bs"
    and valid_dec: "length bs = width \<Longrightarrow> valid (dec bs)"
begin

lemma read_back:
  "off + width \<le> length xs \<Longrightarrow> valid v \<Longrightarrow> dec (slice off width (blit off (enc v) xs)) = v"
  by (simp add: dec_enc)

lemma read_other:
  "off + width \<le> length xs \<Longrightarrow> p + n \<le> off \<or> off + width \<le> p \<Longrightarrow>
   slice p n (blit off (enc v) xs) = slice p n xs"
  by (simp add: slice_blit_other)

lemma enc_inject: "valid v \<Longrightarrow> valid w \<Longrightarrow> enc v = enc w \<longleftrightarrow> v = w"
  by (metis dec_enc)

lemma length_enc_all [simp]: "length (concat (map enc vs)) = width * length vs"
  by (induction vs) auto

lemma slice_enc_all: "i < length vs \<Longrightarrow> slice (width * i) width (concat (map enc vs)) = enc (vs ! i)"
proof (induction vs arbitrary: i)
  case (Cons v vs)
  show ?case
  proof (cases i)
    case 0
    then show ?thesis by (simp add: slice_def)
  next
    case (Suc j)
    then have "slice (width * i) width (concat (map enc (v # vs)))
        = slice (width * j) width (concat (map enc vs))"
      by (simp add: slice_def)
    with Suc Cons show ?thesis by simp
  qed
qed simp

lemma dec_all_enc_all:
  assumes "\<forall>v\<in>set vs. valid v" and "n = length vs"
  shows "map (\<lambda>i. dec (slice (width * i) width (concat (map enc vs)))) [0..<n] = vs"
  using assms by (intro nth_equalityI) (auto simp: slice_enc_all dec_enc)

lemma take_dec_all:
  assumes "\<forall>v\<in>set vs. valid v"
  shows "map (\<lambda>i. dec (slice (width * i) width (concat (map enc vs) @ rest))) [0..<length vs] = vs"
proof -
  have "slice (width * i) width (concat (map enc vs) @ rest) = enc (vs ! i)" if i: "i < length vs" for i
  proof -
    have "Suc i * width \<le> length vs * width" using i by (intro mult_le_mono1) simp
    then have "width * i + width \<le> length (concat (map enc vs))" by (simp add: mult.commute)
    then have "slice (width * i) width (concat (map enc vs) @ rest)
        = slice (width * i) width (concat (map enc vs))" by (simp add: slice_def)
    with i show ?thesis by (simp add: slice_enc_all)
  qed
  with assms show ?thesis by (intro nth_equalityI) (auto simp: dec_enc)
qed

end

section \<open>The codecs meet the contract\<close>

lemma length_write_u16_le [simp]: "length (write_u16_le v) = 2"
  by (simp add: write_u16_le_def)

lemma length_write_u32_le [simp]: "length (write_u32_le v) = 4"
  by (simp add: write_u32_le_def)

lemma length_write_u64_le [simp]: "length (write_u64_le v) = 8"
  by (simp add: write_u64_le_def)

lemma low_byte: "m = mask 8 \<Longrightarrow> (ucast (v AND m :: 'a::len word) :: u8) = ucast v"
  by (rule bit_word_eqI) (auto simp: bit_simps dest: bit_imp_le_length)

lemma mask8: "(0xff :: 'a::len word) = mask 8"
  by (simp add: mask_eq_exp_minus_1)

lemma write_u16_bytes: "write_u16_le v = [ucast v, ucast (drop_bit 8 v)]"
  by (simp only: write_u16_le_def low_byte [OF mask8])

lemma write_u32_bytes:
  "write_u32_le v =
     [ucast v, ucast (drop_bit 8 v), ucast (drop_bit 16 v), ucast (drop_bit 24 v)]"
  by (simp only: write_u32_le_def low_byte [OF mask8])

lemma nth_write_u64_le: "i < 8 \<Longrightarrow> write_u64_le v ! i = ucast (drop_bit (8 * i) v)"
  by (simp only: write_u64_le_def low_byte [OF mask8]) simp

lemma read_write_u16_le: "read_u16_le (write_u16_le v) = v"
proof (rule bit_word_eqI)
  fix n assume "n < LENGTH(16)"
  then consider "n < 8" | "8 \<le> n" "n - 8 < 8" "n < 16" by fastforce
  then show "bit (read_u16_le (write_u16_le v)) n = bit v n"
    by cases (auto simp: read_u16_le_def write_u16_bytes bit_simps)
qed

lemma read_write_u32_le: "read_u32_le (write_u32_le v) = v"
proof (rule bit_word_eqI)
  fix n assume "n < LENGTH(32)"
  then consider "n < 8" | "8 \<le> n" "n < 16" | "16 \<le> n" "n < 24" | "24 \<le> n" "n < 32"
    by fastforce
  then show "bit (read_u32_le (write_u32_le v)) n = bit v n"
    by cases (auto simp: read_u32_le_def write_u32_bytes bit_simps)
qed

lemma u8_list2: "length (bs :: bytes) = 2 \<Longrightarrow> bs = [bs ! 0, bs ! 1]"
  by (intro nth_equalityI) (auto simp: less_Suc_eq numeral_2_eq_2)

lemma u8_list4: "length (bs :: bytes) = 4 \<Longrightarrow> bs = [bs ! 0, bs ! 1, bs ! 2, bs ! 3]"
  by (intro nth_equalityI) (auto simp: less_Suc_eq numeral_eq_Suc)

lemma write_read_u16_bytes: "write_u16_le (read_u16_le [a, b]) = [a, b]"
  by (auto simp: write_u16_bytes read_u16_le_def intro!: bit_word_eqI simp: bit_simps)
     (auto dest: bit_imp_le_length)

lemma write_read_u32_bytes: "write_u32_le (read_u32_le [a, b, c, d]) = [a, b, c, d]"
  by (auto simp: write_u32_bytes read_u32_le_def intro!: bit_word_eqI simp: bit_simps)
     (auto dest: bit_imp_le_length)

lemma write_read_u16_le: "length bs = 2 \<Longrightarrow> write_u16_le (read_u16_le bs) = bs"
  using write_read_u16_bytes u8_list2 by metis

lemma write_read_u32_le: "length bs = 4 \<Longrightarrow> write_u32_le (read_u32_le bs) = bs"
  using write_read_u32_bytes u8_list4 by metis

text \<open>The 64-bit codec is a loop; its bits are described for any number of rounds.\<close>

lemma bit_read_u64_loop:
  "k \<le> 8 \<Longrightarrow>
   bit (fold (\<lambda>i value. value OR push_bit (8 * i) (ucast ((bs :: bytes) ! i))) [0..<k] (0 :: u64)) n
   \<longleftrightarrow> n < 8 * k \<and> bit (bs ! (n div 8)) (n mod 8)"
proof (induction k)
  case (Suc k)
  have shift: "bit (push_bit (8 * k) (ucast (b :: u8) :: u64)) n \<longleftrightarrow> n div 8 = k \<and> bit b (n mod 8)"
    for b
  proof (cases "n div 8 = k")
    case True
    then have "n - 8 * k = n mod 8" "8 * k \<le> n" by (auto simp: minus_mult_div_eq_mod)
    moreover have "n < 64" using True Suc.prems by auto
    moreover have "n mod 8 < 64" using mod_less_divisor [of 8 n] by linarith
    ultimately show ?thesis using True by (simp add: bit_simps)
  next
    case False
    then have "n < 8 * k \<or> 8 * k + 8 \<le> n" by auto
    then have "\<not> (8 * k \<le> n \<and> n - 8 * k < 8)" by auto
    then show ?thesis using False by (auto simp: bit_simps dest: bit_imp_le_length)
  qed
  have "n < 8 * Suc k \<longleftrightarrow> n < 8 * k \<or> n div 8 = k" by auto
  with Suc shift [of "bs ! k"] show ?case by (auto simp: bit_or_iff)
qed simp

lemma bit_read_u64_le: "bit (read_u64_le bs) n \<longleftrightarrow> n < 64 \<and> bit (bs ! (n div 8)) (n mod 8)"
  using bit_read_u64_loop [of 8 bs n] by (simp add: read_u64_le_def)

lemma read_write_u64_le: "read_u64_le (write_u64_le v) = v"
proof (rule bit_word_eqI)
  fix n assume "n < LENGTH(64)"
  then have n: "n < 64" by simp
  then have "n div 8 < 8" by auto
  then have "bit (write_u64_le v ! (n div 8)) (n mod 8) = bit v (8 * (n div 8) + n mod 8)"
    by (auto simp: nth_write_u64_le bit_simps)
  then show "bit (read_u64_le (write_u64_le v)) n = bit v n" using n by (simp add: bit_read_u64_le)
qed

lemma write_read_u64_le:
  assumes "length bs = 8"
  shows "write_u64_le (read_u64_le bs) = bs"
proof (rule nth_equalityI)
  show "length (write_u64_le (read_u64_le bs)) = length bs" using assms by simp
next
  fix i assume "i < length (write_u64_le (read_u64_le bs))"
  then have i: "i < 8" by simp
  show "write_u64_le (read_u64_le bs) ! i = bs ! i"
  proof (rule bit_word_eqI)
    fix n assume "n < LENGTH(8)"
    then have n: "n < 8" by simp
    then have "(8 * i + n) div 8 = i" "(8 * i + n) mod 8 = n" "8 * i + n < 64" using i by auto
    then show "bit (write_u64_le (read_u64_le bs) ! i) n = bit (bs ! i) n"
      using i n by (auto simp: nth_write_u64_le bit_simps bit_read_u64_le)
  qed
qed

interpretation u16: fixed_codec write_u16_le read_u16_le 2 "\<lambda>_. True"
  by unfold_locales (simp_all add: read_write_u16_le write_read_u16_le)

interpretation u32: fixed_codec write_u32_le read_u32_le 4 "\<lambda>_. True"
  by unfold_locales (simp_all add: read_write_u32_le write_read_u32_le)

interpretation u64: fixed_codec write_u64_le read_u64_le 8 "\<lambda>_. True"
  by unfold_locales (simp_all add: read_write_u64_le write_read_u64_le)

lemma unat_of_nat_u32: "n < 2 ^ 32 \<Longrightarrow> unat (of_nat n :: u32) = n"
  by (simp add: unat_of_nat take_bit_nat_eq_self)

lemma get_u32_less: "get_u32 bs < 2 ^ 32"
  using unsigned_less [of "read_u32_le bs"] by (simp add: get_u32_def)

interpretation n32: fixed_codec put_u32 get_u32 4 "\<lambda>n. n < 2 ^ 32"
proof unfold_locales
  show "get_u32 (put_u32 v) = v" if "v < 2 ^ 32" for v
    using that by (simp add: get_u32_def put_u32_def read_write_u32_le unat_of_nat_u32)
qed (simp_all add: put_u32_def get_u32_def write_read_u32_le get_u32_less [unfolded get_u32_def, simplified])

lemma length_put_u32 [simp]: "length (put_u32 n) = 4"
  by (rule n32.length_enc)

end
