(* ===== verification/Checksum.thy ===== *)
theory Checksum
  imports Bytes
begin

unbundle bit_operations_syntax

text \<open>
  The page size and the FNV-1a page checksum of \<open>src/pager.c\<close>: what \<open>page_write_checksum\<close> stores
  in the last four bytes of a page and what \<open>page_verify_checksum\<close> accepts. FNV-1a is a chain of
  bijections of the 32-bit state, so a change confined to one byte always changes the checksum.
\<close>

type_synonym page = bytes

definition PAGE_SIZE :: nat where "PAGE_SIZE = 4096"
definition PAGE_CHECKSUM_SIZE :: nat where "PAGE_CHECKSUM_SIZE = 4"
definition PAGE_USABLE_SIZE :: nat where "PAGE_USABLE_SIZE = PAGE_SIZE - PAGE_CHECKSUM_SIZE"
definition UINT32_MAX :: nat where "UINT32_MAX = 4294967295"
definition INVALID_PAGE_NUM :: nat where "INVALID_PAGE_NUM = 4294967295"

lemma PAGE_USABLE_SIZE_eq: "PAGE_USABLE_SIZE = 4092"
  by (simp add: PAGE_USABLE_SIZE_def PAGE_SIZE_def PAGE_CHECKSUM_SIZE_def)

lemma PAGE_SIZE_split: "PAGE_SIZE = PAGE_USABLE_SIZE + 4"
  by (simp add: PAGE_USABLE_SIZE_eq PAGE_SIZE_def)

lemma PAGE_SIZE_pos [simp]: "0 < PAGE_SIZE"
  by (simp add: PAGE_SIZE_def)

text \<open>A page-sized buffer of zeros (\<open>calloc\<close>, \<open>memset\<close>).\<close>

definition zero_page :: page where
  "zero_page = replicate PAGE_SIZE 0"

lemma length_zero_page [simp]: "length zero_page = PAGE_SIZE"
  by (simp add: zero_page_def)

section \<open>FNV-1a\<close>

definition fnv1a_step :: "u8 \<Rightarrow> u32 \<Rightarrow> u32" where
  "fnv1a_step b hash = (hash XOR ucast b) * 16777619"

definition fnv1a_extend :: "u32 \<Rightarrow> bytes \<Rightarrow> u32" where
  "fnv1a_extend hash data = fold fnv1a_step data hash"

definition fnv1a_32 :: "bytes \<Rightarrow> u32" where
  "fnv1a_32 data = fnv1a_extend 2166136261 data"

lemma fnv1a_prime_inverse: "(16777619 :: u32) * 899433627 = 1"
  by simp

lemma mult_fnv1a_prime_cancel: "(a :: u32) * 16777619 = b * 16777619 \<longleftrightarrow> a = b"
proof
  assume "a * 16777619 = b * 16777619"
  then have "a * 16777619 * 899433627 = b * 16777619 * 899433627" by simp
  then show "a = b" by (simp only: mult.assoc fnv1a_prime_inverse mult_1_right)
qed simp

lemma xor_right_cancel: "(a :: 'a::len word) XOR c = b XOR c \<longleftrightarrow> a = b"
proof
  assume "a XOR c = b XOR c"
  then have "(a XOR c) XOR c = (b XOR c) XOR c" by simp
  then show "a = b" by (simp add: xor.assoc)
qed simp

lemma fnv1a_step_inject_hash: "fnv1a_step b h = fnv1a_step b h' \<longleftrightarrow> h = h'"
  by (simp add: fnv1a_step_def mult_fnv1a_prime_cancel xor_right_cancel)

lemma fnv1a_step_inject_byte: "fnv1a_step b h = fnv1a_step b' h \<longleftrightarrow> b = b'"
proof -
  have "(ucast b :: u32) = ucast b' \<longleftrightarrow> b = b'"
  proof
    assume eq: "(ucast b :: u32) = ucast b'"
    show "b = b'"
    proof (rule bit_word_eqI)
      fix n assume "n < LENGTH(8)"
      moreover have "bit (ucast b :: u32) n = bit (ucast b' :: u32) n" by (simp only: eq)
      ultimately show "bit b n = bit b' n" by (simp add: bit_simps)
    qed
  qed simp
  then show ?thesis
    by (simp add: fnv1a_step_def mult_fnv1a_prime_cancel xor.commute [of h] xor_right_cancel)
qed

lemma fnv1a_extend_append: "fnv1a_extend h (xs @ ys) = fnv1a_extend (fnv1a_extend h xs) ys"
  by (simp add: fnv1a_extend_def)

lemma fnv1a_extend_inject_hash: "fnv1a_extend h xs = fnv1a_extend h' xs \<longleftrightarrow> h = h'"
  by (induction xs arbitrary: h h') (auto simp: fnv1a_extend_def fnv1a_step_inject_hash)

lemma fnv1a_extend_one_byte:
  assumes "i < length xs" and "b \<noteq> xs ! i"
  shows "fnv1a_extend h (xs[i := b]) \<noteq> fnv1a_extend h xs"
proof -
  let ?ys = "take i xs" and ?zs = "drop (Suc i) xs"
  have old: "xs = ?ys @ [xs ! i] @ ?zs" using assms(1) by (simp add: id_take_nth_drop)
  have new: "xs[i := b] = ?ys @ [b] @ ?zs" using assms(1) by (simp add: upd_conv_take_nth_drop)
  have "fnv1a_extend h (?ys @ [b] @ ?zs) \<noteq> fnv1a_extend h (?ys @ [xs ! i] @ ?zs)"
    using assms(2)
    by (simp only: fnv1a_extend_append fnv1a_extend_inject_hash)
      (simp add: fnv1a_extend_def fnv1a_step_inject_byte)
  with old new show ?thesis by metis
qed

section \<open>Page checksums\<close>

definition page_checksum :: "page \<Rightarrow> u32" where
  "page_checksum page = fnv1a_32 (slice 0 PAGE_USABLE_SIZE page)"

definition page_write_checksum :: "page \<Rightarrow> page" where
  "page_write_checksum page = blit PAGE_USABLE_SIZE (write_u32_le (page_checksum page)) page"

text \<open>The exits of the pager, one constructor per message printed before \<open>exit\<close>.\<close>

datatype pager_exit =
    Exit_Checksum_Mismatch nat
  | Exit_Io_Error
  | Exit_Corrupt_File_Length
  | Exit_Too_Many_Pages
  | Exit_Invalid_Page_Number
  | Exit_Pool_Exhausted
  | Exit_Page_Numbers_Exhausted
  | Exit_Free_Page_Zero
  | Exit_Free_Invalid_Page nat
  | Exit_Transaction_Active
  | Exit_Invalid_Free_List
  | Exit_Path_Too_Long

definition page_checksum_ok :: "page \<Rightarrow> bool" where
  "page_checksum_ok page \<longleftrightarrow> read_u32_le (slice PAGE_USABLE_SIZE 4 page) = page_checksum page"

definition page_verify_checksum :: "page \<Rightarrow> nat \<Rightarrow> pager_exit + unit" where
  "page_verify_checksum page page_num =
     (if page_checksum_ok page then Inr () else Inl (Exit_Checksum_Mismatch page_num))"

lemma length_page_write_checksum [simp]:
  "length page = PAGE_SIZE \<Longrightarrow> length (page_write_checksum page) = PAGE_SIZE"
  by (simp add: page_write_checksum_def PAGE_SIZE_split)

text \<open>The bytes a client may use: everything in front of the checksum.\<close>

definition usable :: "page \<Rightarrow> bytes" where
  "usable page = slice 0 PAGE_USABLE_SIZE page"

lemma usable_write_checksum [simp]:
  "length page = PAGE_SIZE \<Longrightarrow> usable (page_write_checksum page) = usable page"
  by (simp add: usable_def page_write_checksum_def slice_blit_other PAGE_SIZE_split)

lemma page_checksum_usable: "page_checksum page = fnv1a_32 (usable page)"
  by (simp add: page_checksum_def usable_def)

lemma page_checksum_ok_write [simp]:
  assumes "length page = PAGE_SIZE"
  shows "page_checksum_ok (page_write_checksum page)"
proof -
  have "slice PAGE_USABLE_SIZE 4 (page_write_checksum page) = write_u32_le (page_checksum page)"
    using assms by (simp add: page_write_checksum_def PAGE_SIZE_split)
  moreover have "page_checksum (page_write_checksum page) = page_checksum page"
    using assms by (simp add: page_checksum_usable)
  ultimately show ?thesis by (simp add: page_checksum_ok_def read_write_u32_le)
qed

text \<open>A page whose checksum has been written passes verification, and verification rejects
  the page after any change confined to one byte of its usable part.\<close>

theorem checksum_detects_one_byte:
  assumes "length page = PAGE_SIZE" and "i < PAGE_USABLE_SIZE" and "b \<noteq> page ! i"
  shows "page_verify_checksum (page_write_checksum page) n = Inr () \<and>
    page_verify_checksum ((page_write_checksum page)[i := b]) n = Inl (Exit_Checksum_Mismatch n)"
proof -
  let ?p = "page_write_checksum page"
  have ok: "page_checksum_ok ?p" using assms by simp
  have pi: "?p ! i = page ! i"
    using assms by (simp add: page_write_checksum_def nth_blit PAGE_SIZE_split)
  have same: "slice PAGE_USABLE_SIZE 4 (?p[i := b]) = slice PAGE_USABLE_SIZE 4 ?p"
    using assms(2) by (simp add: slice_def)
  have "slice 0 PAGE_USABLE_SIZE (?p[i := b]) = (slice 0 PAGE_USABLE_SIZE ?p)[i := b]"
    by (simp add: slice_def take_update_swap)
  moreover have "i < length (slice 0 PAGE_USABLE_SIZE ?p)" "slice 0 PAGE_USABLE_SIZE ?p ! i = ?p ! i"
    using assms(1,2) by (auto simp: slice_def PAGE_SIZE_split)
  ultimately have "page_checksum (?p[i := b]) \<noteq> page_checksum ?p"
    using assms(3) pi by (simp add: page_checksum_def fnv1a_32_def fnv1a_extend_one_byte)
  with ok have "\<not> page_checksum_ok (?p[i := b])" by (simp add: page_checksum_ok_def same)
  with ok show ?thesis by (simp add: page_verify_checksum_def)
qed

theorem checksum_detects_one_byte_witness:
  "page_verify_checksum (page_write_checksum zero_page) 7 = Inr () \<and>
   page_verify_checksum ((page_write_checksum zero_page)[100 := 1]) 7 = Inl (Exit_Checksum_Mismatch 7)"
  by (rule checksum_detects_one_byte)
    (simp_all add: zero_page_def PAGE_USABLE_SIZE_eq PAGE_SIZE_def)

end
