(* ===== verification/FreeList.thy ===== *)
theory FreeList
  imports Checksum
begin

text \<open>
  The files of a database and the durable free-page list of \<open>src/pager.c\<close>: its validation, its
  on-disk format (\<open>.free\<close>, staged through \<open>.free.wal\<close>), its publication by
  \<open>persist_free_list_snapshot\<close> and its recovery by \<open>load_free_list_snapshot\<close>.
  A missing file is \<open>None\<close>. The calls of the C library on these files are assumed to succeed.
\<close>

record disk =
  d_main :: bytes
  d_wal :: "bytes option"
  d_free :: "bytes option"
  d_free_wal :: "bytes option"

definition FREE_LIST_MAGIC :: nat where "FREE_LIST_MAGIC = 0x46524545"
definition FREE_LIST_VERSION :: nat where "FREE_LIST_VERSION = 1"

text \<open>\<open>snprintf\<close> of a sidecar path into a buffer of \<open>output_size\<close> bytes.\<close>

definition make_sidecar_path :: "string \<Rightarrow> string \<Rightarrow> nat \<Rightarrow> pager_exit + string" where
  "make_sidecar_path filename suffix output_size =
     (if length (filename @ suffix) \<ge> output_size then Inl Exit_Path_Too_Long
      else Inr (filename @ suffix))"

section \<open>Validation\<close>

fun validate_scan :: "nat \<Rightarrow> bool list \<Rightarrow> nat list \<Rightarrow> bool" where
  "validate_scan num_pages seen [] = True"
| "validate_scan num_pages seen (page_num # rest) =
     (if page_num = 0 \<or> page_num \<ge> num_pages \<or> seen ! page_num then False
      else validate_scan num_pages (seen[page_num := True]) rest)"

definition validate_free_page_list :: "nat \<Rightarrow> nat list \<Rightarrow> bool" where
  "validate_free_page_list num_pages free_pages =
     (if length free_pages > num_pages then False
      else if free_pages = [] then True
      else if num_pages = 0 then False
      else validate_scan num_pages (replicate num_pages False) free_pages)"

lemma validate_scan_iff:
  "length seen = n \<Longrightarrow>
   validate_scan n seen ps \<longleftrightarrow> distinct ps \<and> set ps \<subseteq> {1..<n} \<and> (\<forall>p\<in>set ps. \<not> seen ! p)"
proof (induction ps arbitrary: seen)
  case (Cons p ps)
  have upd: "(\<forall>q\<in>set ps. \<not> seen[p := True] ! q) \<longleftrightarrow> p \<notin> set ps \<and> (\<forall>q\<in>set ps. \<not> seen ! q)"
    if "p < n" using that Cons.prems by (auto simp: nth_list_update)
  show ?case
  proof (cases "p = 0 \<or> p \<ge> n \<or> seen ! p")
    case False
    with Cons.IH [of "seen[p := True]"] Cons.prems upd show ?thesis by auto
  qed auto
qed simp

lemma length_le_of_distinct_pages:
  assumes "distinct ps" and "set ps \<subseteq> {1..<n}"
  shows "length ps \<le> n"
proof -
  have "card (set ps) \<le> card {1..<n}" using assms(2) by (intro card_mono) auto
  with assms(1) show ?thesis by (simp add: distinct_card)
qed

text \<open>A free-page list is accepted exactly when its entries are pairwise distinct, none is
  the root page 0 and all lie below the logical page count.\<close>

lemma validate_free_page_list_iff:
  "validate_free_page_list n ps \<longleftrightarrow> distinct ps \<and> set ps \<subseteq> {1..<n}"
  using length_le_of_distinct_pages [of ps n]
  by (auto simp: validate_free_page_list_def validate_scan_iff)

section \<open>The file format\<close>

definition free_list_checksum :: "nat \<Rightarrow> nat list \<Rightarrow> u32" where
  "free_list_checksum num_pages free_pages =
     (let hash = 2166136261;
          hash = fnv1a_extend hash (put_u32 FREE_LIST_MAGIC);
          hash = fnv1a_extend hash (put_u32 FREE_LIST_VERSION);
          hash = fnv1a_extend hash (put_u32 num_pages);
          hash = fnv1a_extend hash (put_u32 (length free_pages))
      in if free_pages = [] then hash
         else fnv1a_extend hash (concat (map put_u32 free_pages)))"

definition encode_free_list :: "nat \<Rightarrow> nat list \<Rightarrow> bytes" where
  "encode_free_list num_pages free_pages =
     put_u32 FREE_LIST_MAGIC @ put_u32 FREE_LIST_VERSION @ put_u32 num_pages
     @ put_u32 (length free_pages) @ concat (map put_u32 free_pages)
     @ write_u32_le (free_list_checksum num_pages free_pages)"

text \<open>\<open>read_free_list_snapshot\<close> on an existing file; \<open>None\<close> is its \<open>false\<close>.\<close>

definition read_free_list_snapshot :: "bytes option \<Rightarrow> nat \<Rightarrow> nat list option" where
  "read_free_list_snapshot file expected_num_pages =
     (case file of None \<Rightarrow> None | Some f \<Rightarrow>
       if length f < 16 then None
       else
         let magic = get_u32 (slice 0 4 f);
             version = get_u32 (slice 4 4 f);
             num_pages = get_u32 (slice 8 4 f);
             free_page_count = get_u32 (slice 12 4 f);
             expected_length = 4 * 5 + free_page_count * 4
         in if magic \<noteq> FREE_LIST_MAGIC \<or> version \<noteq> FREE_LIST_VERSION
               \<or> num_pages \<noteq> expected_num_pages \<or> free_page_count > num_pages
               \<or> expected_length \<noteq> length f then None
            else
              let free_pages = map (\<lambda>i. get_u32 (slice (4 * i) 4 (drop 16 f))) [0..<free_page_count];
                  stored_checksum = read_u32_le (slice (16 + 4 * free_page_count) 4 f)
              in if stored_checksum = free_list_checksum num_pages free_pages
                    \<and> validate_free_page_list num_pages free_pages
                 then Some free_pages else None)"

lemma length_encode_free_list [simp]: "length (encode_free_list n ps) = 20 + 4 * length ps"
  by (simp add: encode_free_list_def)

lemma slice_skip [simp]:
  "length xs \<le> off \<Longrightarrow> slice off n (xs @ ys) = slice (off - length xs) n ys"
  by (simp add: slice_def)

lemma slice_here [simp]: "length xs = n \<Longrightarrow> slice 0 n (xs @ ys) = xs"
  by (simp add: slice_def)

lemma encode_free_list_fields:
  "slice 0 4 (encode_free_list n ps) = put_u32 FREE_LIST_MAGIC"
  "slice 4 4 (encode_free_list n ps) = put_u32 FREE_LIST_VERSION"
  "slice 8 4 (encode_free_list n ps) = put_u32 n"
  "slice 12 4 (encode_free_list n ps) = put_u32 (length ps)"
  "drop 16 (encode_free_list n ps)
     = concat (map put_u32 ps) @ write_u32_le (free_list_checksum n ps)"
  "slice (16 + 4 * length ps) 4 (encode_free_list n ps) = write_u32_le (free_list_checksum n ps)"
  by (simp_all add: encode_free_list_def)

lemma read_encode_free_list:
  assumes "validate_free_page_list n ps" and "n < 2 ^ 32"
  shows "read_free_list_snapshot (Some (encode_free_list n ps)) n = Some ps"
proof -
  have ps: "\<forall>p\<in>set ps. p < 2 ^ 32" "length ps \<le> n"
    using assms length_le_of_distinct_pages by (auto simp: validate_free_page_list_iff)
  then have len: "length ps < 2 ^ 32" using assms(2) by linarith
  have magics: "FREE_LIST_MAGIC < 2 ^ 32" "FREE_LIST_VERSION < 2 ^ 32"
    by (simp_all add: FREE_LIST_MAGIC_def FREE_LIST_VERSION_def)
  have "map (\<lambda>i. get_u32 (slice (4 * i) 4
      (concat (map put_u32 ps) @ write_u32_le (free_list_checksum n ps)))) [0..<length ps] = ps"
    by (rule n32.take_dec_all) (use ps in simp)
  then show ?thesis
    using assms ps(2) len magics
    by (simp add: read_free_list_snapshot_def Let_def encode_free_list_fields n32.dec_enc
        read_write_u32_le del: One_nat_def)
qed

text \<open>Every valid free-page list survives the sidecar file: what
  \<open>persist_free_list_snapshot\<close> writes, \<open>read_free_list_snapshot\<close> reads back, page for page.\<close>

theorem free_list_roundtrip:
  assumes "validate_free_page_list n ps" and "n < 2 ^ 32"
  shows "read_free_list_snapshot (Some (encode_free_list n ps)) n = Some ps"
  using assms by (rule read_encode_free_list)

theorem free_list_roundtrip_witness:
  "read_free_list_snapshot (Some (encode_free_list 9 [3, 8, 1])) 9 = Some [3, 8, 1]"
  by (rule free_list_roundtrip) (simp_all add: validate_free_page_list_iff)

text \<open>A torn sidecar is rejected: the count in its header fixes its length.\<close>

lemma read_free_list_torn:
  assumes "k < length (encode_free_list n ps)" and "length ps < 2 ^ 32"
  shows "read_free_list_snapshot (Some (take k (encode_free_list n ps))) m = None"
proof (cases "k < 16")
  case False
  then have "slice 12 4 (take k (encode_free_list n ps)) = slice 12 4 (encode_free_list n ps)"
    by (simp add: slice_def drop_take min_def)
  then have "get_u32 (slice 12 4 (take k (encode_free_list n ps))) = length ps"
    using assms(2) by (simp add: encode_free_list_fields n32.dec_enc)
  then show ?thesis using False assms(1)
    by (simp add: read_free_list_snapshot_def Let_def)
qed (simp add: read_free_list_snapshot_def)

section \<open>Publication and recovery\<close>

text \<open>
  \<open>persist_free_list_snapshot\<close> writes and syncs \<open>.free.wal\<close>, removes \<open>.free\<close> and renames. Its
  intermediate disks are what a crash can leave: a torn \<open>.free.wal\<close> (any prefix), the complete one
  beside the old \<open>.free\<close>, and the complete one alone.
\<close>

definition persist_free_list_snapshot :: "disk \<Rightarrow> nat \<Rightarrow> nat list \<Rightarrow> pager_exit + disk" where
  "persist_free_list_snapshot d num_pages free_pages =
     (if \<not> validate_free_page_list num_pages free_pages then Inl Exit_Invalid_Free_List
      else
        let d1 = d\<lparr>d_free_wal := Some (encode_free_list num_pages free_pages)\<rparr>;
            d2 = d1\<lparr>d_free := None\<rparr>
        in Inr (d2\<lparr>d_free := d_free_wal d2, d_free_wal := None\<rparr>))"

definition persist_crash_disks :: "disk \<Rightarrow> nat \<Rightarrow> nat list \<Rightarrow> disk list" where
  "persist_crash_disks d num_pages free_pages =
     (let e = encode_free_list num_pages free_pages;
          d1 = d\<lparr>d_free_wal := Some e\<rparr>
      in map (\<lambda>k. d\<lparr>d_free_wal := Some (take k e)\<rparr>) [0..<length e] @ [d1, d1\<lparr>d_free := None\<rparr>])"

text \<open>
  \<open>load_free_list_snapshot\<close>: the staged list wins when it is valid and is published; otherwise
  the published one is used; if neither is valid the staged file is discarded and the list is
  empty.
\<close>

definition load_free_list_snapshot :: "disk \<Rightarrow> nat \<Rightarrow> nat list \<times> disk" where
  "load_free_list_snapshot d num_pages =
     (case read_free_list_snapshot (d_free_wal d) num_pages of
        Some pages \<Rightarrow> (pages, d\<lparr>d_free := d_free_wal d, d_free_wal := None\<rparr>)
      | None \<Rightarrow>
          (case read_free_list_snapshot (d_free d) num_pages of
             Some pages \<Rightarrow> (pages, d)
           | None \<Rightarrow> ([], d\<lparr>d_free_wal := None\<rparr>)))"

lemma persist_then_load:
  assumes "persist_free_list_snapshot d n ps = Inr d'" and "n < 2 ^ 32"
  shows "fst (load_free_list_snapshot d' n) = ps"
  using assms read_encode_free_list
  by (auto simp: persist_free_list_snapshot_def Let_def load_free_list_snapshot_def
      read_free_list_snapshot_def [of None] split: if_splits)



end
