(* ===== verification/LruQueue.thy ===== *)
theory LruQueue
  imports FreeList
begin

text \<open>
  The buffer pool's frames and its LRU list of \<open>src/pager.c\<close> (\<open>lru_remove\<close>, \<open>lru_touch\<close> and the
  victim scan of \<open>lru_evict\<close>), with \<open>-1\<close> for a missing link as in the C code. \<open>lru_list p q\<close> says
  that the links of \<open>p\<close> spell the queue \<open>q\<close>, most recently used frame first; each operation is
  proved to implement a list operation on \<open>q\<close>.
\<close>

definition MAX_BUFFER_POOL_SIZE :: nat where "MAX_BUFFER_POOL_SIZE = 16"

record frame =
  f_page_num :: nat
  f_data :: page
  f_is_dirty :: bool
  f_pin_count :: nat
  f_lru_prev :: int
  f_lru_next :: int

record pool =
  frames :: "frame list"
  lru_head :: int
  lru_tail :: int

section \<open>The operations on the links\<close>

definition upd_frame :: "nat \<Rightarrow> (frame \<Rightarrow> frame) \<Rightarrow> 'a pool_scheme \<Rightarrow> 'a pool_scheme" where
  "upd_frame i f p = p\<lparr>frames := (frames p)[i := f (frames p ! i)]\<rparr>"

definition lru_remove :: "'a pool_scheme \<Rightarrow> int \<Rightarrow> 'a pool_scheme" where
  "lru_remove p frame_idx =
     (if frame_idx = -1 then p
      else
        let prev = f_lru_prev (frames p ! nat frame_idx);
            nxt = f_lru_next (frames p ! nat frame_idx);
            p1 = (if prev \<noteq> -1 then upd_frame (nat prev) (\<lambda>f. f\<lparr>f_lru_next := nxt\<rparr>) p
                  else if lru_head p = frame_idx then p\<lparr>lru_head := nxt\<rparr> else p);
            p2 = (if nxt \<noteq> -1 then upd_frame (nat nxt) (\<lambda>f. f\<lparr>f_lru_prev := prev\<rparr>) p1
                  else if lru_tail p1 = frame_idx then p1\<lparr>lru_tail := prev\<rparr> else p1)
        in upd_frame (nat frame_idx) (\<lambda>f. f\<lparr>f_lru_prev := -1, f_lru_next := -1\<rparr>) p2)"

definition lru_touch :: "'a pool_scheme \<Rightarrow> int \<Rightarrow> 'a pool_scheme" where
  "lru_touch p frame_idx =
     (if lru_head p = frame_idx then p
      else
        let p1 = lru_remove p frame_idx;
            p2 = upd_frame (nat frame_idx)
                   (\<lambda>f. f\<lparr>f_lru_next := lru_head p1, f_lru_prev := -1\<rparr>) p1;
            p3 = (if lru_head p2 \<noteq> -1
                  then upd_frame (nat (lru_head p2)) (\<lambda>f. f\<lparr>f_lru_prev := frame_idx\<rparr>) p2
                  else p2);
            p4 = p3\<lparr>lru_head := frame_idx\<rparr>
        in if lru_tail p4 = -1 then p4\<lparr>lru_tail := frame_idx\<rparr> else p4)"

text \<open>
  The loop of \<open>lru_evict\<close> that walks from the tail past pinned frames. The fuel bounds the walk;
  \<open>victim_scan_list\<close> shows that one more than the length of the queue is enough.
\<close>

fun victim_scan :: "nat \<Rightarrow> 'a pool_scheme \<Rightarrow> int \<Rightarrow> int" where
  "victim_scan 0 p victim = -1"
| "victim_scan (Suc fuel) p victim =
     (if victim \<noteq> -1 \<and> f_pin_count (frames p ! nat victim) \<noteq> 0
      then victim_scan fuel p (f_lru_prev (frames p ! nat victim))
      else victim)"

section \<open>Neighbours in a queue\<close>

fun succ_in :: "nat list \<Rightarrow> nat \<Rightarrow> int" where
  "succ_in (x # y # zs) i = (if x = i then int y else succ_in (y # zs) i)"
| "succ_in _ i = -1"

fun pred_in :: "nat list \<Rightarrow> nat \<Rightarrow> int" where
  "pred_in (x # y # zs) i = (if y = i then int x else pred_in (y # zs) i)"
| "pred_in _ i = -1"

definition head_of :: "nat list \<Rightarrow> int" where
  "head_of q = (if q = [] then -1 else int (hd q))"

definition tail_of :: "nat list \<Rightarrow> int" where
  "tail_of q = (if q = [] then -1 else int (last q))"

lemma head_of_simps [simp]: "head_of [] = -1" "head_of (x # q) = int x"
  by (simp_all add: head_of_def)

lemma tail_of_simps [simp]: "tail_of [] = -1" "tail_of (q @ [x]) = int x"
  by (simp_all add: tail_of_def)

lemma tail_of_append: "ys \<noteq> [] \<Longrightarrow> tail_of (xs @ ys) = tail_of ys"
  by (simp add: tail_of_def)

lemma succ_in_nonmember [simp]: "i \<notin> set q \<Longrightarrow> succ_in q i = -1"
  by (induction q i rule: succ_in.induct) auto

lemma pred_in_nonmember [simp]: "i \<notin> set q \<Longrightarrow> pred_in q i = -1"
  by (induction q i rule: pred_in.induct) auto

lemma succ_in_append:
  "distinct (xs @ ys) \<Longrightarrow> i \<in> set ys \<Longrightarrow> succ_in (xs @ ys) i = succ_in ys i"
proof (induction xs)
  case (Cons x xs)
  then have "x \<noteq> i" by auto
  with Cons show ?case by (cases "xs @ ys") auto
qed simp

lemma succ_in_front:
  "distinct (xs @ ys) \<Longrightarrow> i \<in> set xs \<Longrightarrow>
   succ_in (xs @ ys) i = (if i = last xs then head_of ys else succ_in xs i)"
proof (induction xs)
  case (Cons x xs)
  show ?case
  proof (cases xs)
    case Nil
    with Cons.prems show ?thesis by (cases ys) auto
  next
    case (Cons x' xs')
    with Cons.IH Cons.prems show ?thesis by auto
  qed
qed simp

lemma pred_in_front:
  "distinct (xs @ ys) \<Longrightarrow> i \<in> set xs \<Longrightarrow> pred_in (xs @ ys) i = pred_in xs i"
proof (induction xs rule: induct_list012)
  case (2 x)
  then show ?case by (cases ys) auto
next
  case (3 x y zs)
  then show ?case by auto
qed simp

lemma pred_in_append:
  "distinct (xs @ ys) \<Longrightarrow> i \<in> set ys \<Longrightarrow>
   pred_in (xs @ ys) i = (if i = hd ys then tail_of xs else pred_in ys i)"
proof (induction xs rule: induct_list012)
  case 1
  then show ?case by (cases ys rule: remdups_adj.cases) auto
next
  case (2 x)
  then show ?case by (cases ys) (auto simp: tail_of_def)
next
  case (3 x y zs)
  then show ?case by (auto simp: tail_of_def)
qed

section \<open>The links of a pool spell a queue\<close>

definition lru_list :: "'a pool_scheme \<Rightarrow> nat list \<Rightarrow> bool" where
  "lru_list p q \<longleftrightarrow>
     distinct q \<and> set q \<subseteq> {..<length (frames p)} \<and>
     lru_head p = head_of q \<and> lru_tail p = tail_of q \<and>
     (\<forall>i<length (frames p). f_lru_prev (frames p ! i) = pred_in q i \<and>
                             f_lru_next (frames p ! i) = succ_in q i)"

lemma lru_list_bounds: "lru_list p q \<Longrightarrow> i \<in> set q \<Longrightarrow> i < length (frames p)"
  by (auto simp: lru_list_def)

lemma frames_upd_frame [simp]: "frames (upd_frame i f p) = (frames p)[i := f (frames p ! i)]"
  by (simp add: upd_frame_def)

lemma upd_frame_links [simp]:
  "lru_head (upd_frame i f p) = lru_head p" "lru_tail (upd_frame i f p) = lru_tail p"
  "pool.more (upd_frame i f p) = pool.more p"
  by (simp_all add: upd_frame_def)

lemma lru_list_remove:
  assumes p: "lru_list p q" and i: "i < length (frames p)"
  shows "lru_list (lru_remove p (int i)) (remove1 i q)"
proof (cases "i \<in> set q")
  case False
  then have "head_of q \<noteq> int i" "tail_of q \<noteq> int i"
    by (auto simp: head_of_def tail_of_def dest: hd_in_set last_in_set)
  with p False i show ?thesis
    by (auto simp: lru_list_def lru_remove_def Let_def remove1_idem nth_list_update)
next
  case True
  then obtain xs ys where q: "q = xs @ i # ys" by (auto simp: in_set_conv_decomp)
  have d: "distinct (xs @ i # ys)" using p q by (simp add: lru_list_def)
  then have dxy: "distinct (xs @ ys)" and ni: "i \<notin> set xs" "i \<notin> set ys" by auto
  have r: "remove1 i q = xs @ ys" using q ni by (simp add: remove1_append)
  have prev_i: "f_lru_prev (frames p ! i) = tail_of xs"
    using p i q d ni pred_in_append [of xs "i # ys" i] by (simp add: lru_list_def)
  have next_i: "f_lru_next (frames p ! i) = head_of ys"
    using p i q d ni succ_in_append [of xs "i # ys" i]
    by (cases ys) (auto simp: lru_list_def)
  have links: "f_lru_prev (frames p ! j) = pred_in (xs @ i # ys) j"
    "f_lru_next (frames p ! j) = succ_in (xs @ i # ys) j" if "j < length (frames p)" for j
    using that p q by (auto simp: lru_list_def)
  have succ: "succ_in (xs @ ys) j =
      (if j = i then -1 else if xs \<noteq> [] \<and> j = last xs then head_of ys else succ_in (xs @ i # ys) j)" for j
  proof -
    consider "j = i" | "j \<noteq> i" "j \<in> set xs" | "j \<noteq> i" "j \<in> set ys" "j \<notin> set xs"
      | "j \<noteq> i" "j \<notin> set xs" "j \<notin> set ys" by blast
    then show ?thesis
    proof cases
      case 3
      then have "xs \<noteq> [] \<longrightarrow> j \<noteq> last xs" using last_in_set by fastforce
      with 3 show ?thesis
        using succ_in_append [OF dxy, of j] succ_in_append [of "xs @ [i]" ys j] d by auto
    next
      case 4
      then show ?thesis using last_in_set by fastforce
    qed (use ni d dxy succ_in_front [OF dxy, of j] succ_in_front [OF d, of j] in auto)
  qed
  have pred: "pred_in (xs @ ys) j =
      (if j = i then -1 else if ys \<noteq> [] \<and> j = hd ys then tail_of xs else pred_in (xs @ i # ys) j)" for j
  proof -
    consider "j = i" | "j \<noteq> i" "j \<in> set xs" | "j \<noteq> i" "j \<in> set ys" "j \<notin> set xs"
      | "j \<noteq> i" "j \<notin> set xs" "j \<notin> set ys" by blast
    then show ?thesis
    proof cases
      case 2
      then have "ys \<noteq> [] \<longrightarrow> j \<noteq> hd ys" using dxy by (cases ys) auto
      with 2 show ?thesis using pred_in_front [OF dxy, of j] pred_in_front [OF d, of j] by auto
    next
      case 3
      then show ?thesis
        using pred_in_append [OF dxy, of j] pred_in_append [of "xs @ [i]" ys j] d by auto
    next
      case 4
      then show ?thesis using hd_in_set by fastforce
    qed (use ni in auto)
  qed
  have bx: "xs \<noteq> [] \<Longrightarrow> last xs < length (frames p)" and by': "ys \<noteq> [] \<Longrightarrow> hd ys < length (frames p)"
    using lru_list_bounds [OF p] q by auto
  have "head_of q = int i \<longleftrightarrow> xs = []" "tail_of q = int i \<longleftrightarrow> ys = []"
    using q ni hd_in_set [of xs] last_in_set [of ys]
    by (cases "xs = []"; cases "ys = []"; force simp: head_of_def tail_of_def)+
  with p i q r prev_i next_i bx by' links succ pred ni dxy show ?thesis
    by (auto simp: lru_list_def lru_remove_def Let_def nth_list_update head_of_def tail_of_def
        hd_append last_append)
qed

lemma length_frames_lru_remove [simp]: "length (frames (lru_remove p i)) = length (frames p)"
  by (simp add: lru_remove_def Let_def)

lemma lru_list_touch:
  assumes p: "lru_list p q" and i: "i < length (frames p)"
  shows "lru_list (lru_touch p (int i)) (i # remove1 i q)"
proof (cases "lru_head p = int i")
  case True
  with p have "q \<noteq> []" "hd q = i" by (auto simp: lru_list_def head_of_def split: if_splits)
  then have "i # remove1 i q = q" by (cases q) auto
  with True p show ?thesis by (simp add: lru_touch_def)
next
  case False
  let ?r = "remove1 i q" and ?p = "lru_remove p (int i)"
  have l: "lru_list ?p ?r" using p i by (rule lru_list_remove)
  have ni: "i \<notin> set ?r" using p by (simp add: lru_list_def)
  have d: "distinct ?r" using l by (simp add: lru_list_def)
  have succ: "succ_in (i # ?r) j = (if j = i then head_of ?r else succ_in ?r j)" for j
    using ni by (cases ?r) auto
  have pred: "pred_in (i # ?r) j = (if ?r \<noteq> [] \<and> j = hd ?r then int i else pred_in ?r j)" for j
  proof (cases ?r)
    case (Cons x xs)
    moreover have "pred_in (x # xs) x = -1"
      using d Cons pred_in_front [of "[x]" xs x] by simp
    ultimately show ?thesis by auto
  qed simp
  have tail: "tail_of (i # ?r) = (if ?r = [] then int i else tail_of ?r)"
    by (simp add: tail_of_def)
  have hd_ne: "?r \<noteq> [] \<Longrightarrow> hd ?r \<noteq> i" using ni hd_in_set by metis
  have "?r \<noteq> [] \<Longrightarrow> hd ?r < length (frames ?p)"
    using lru_list_bounds [OF l] hd_in_set by blast
  with False l i ni succ pred tail hd_ne show ?thesis
    by (auto simp: lru_touch_def Let_def lru_list_def nth_list_update head_of_def tail_of_def)
qed

subsection \<open>What the link operations leave alone\<close>

text \<open>Everything in a frame but its links.\<close>

definition frame_core :: "frame \<Rightarrow> nat \<times> page \<times> bool \<times> nat" where
  "frame_core f = (f_page_num f, f_data f, f_is_dirty f, f_pin_count f)"

lemma frame_core_links [simp]:
  "frame_core (f\<lparr>f_lru_next := n\<rparr>) = frame_core f"
  "frame_core (f\<lparr>f_lru_prev := n\<rparr>) = frame_core f"
  by (simp_all add: frame_core_def)

lemma map_frame_core_upd:
  "frame_core (f (frames p ! i)) = frame_core (frames p ! i) \<Longrightarrow>
   map frame_core (frames (upd_frame i f p)) = map frame_core (frames p)"
  by (cases "i < length (frames p)")
    (auto simp: map_update list_update_same_conv list_update_beyond)

lemma lru_remove_core [simp]:
  "map frame_core (frames (lru_remove p i)) = map frame_core (frames p)"
  by (simp add: lru_remove_def Let_def map_frame_core_upd del: frames_upd_frame)

lemma lru_touch_core [simp]:
  "map frame_core (frames (lru_touch p i)) = map frame_core (frames p)"
  by (simp add: lru_touch_def Let_def map_frame_core_upd del: frames_upd_frame)

lemma lru_remove_more [simp]: "pool.more (lru_remove p i) = pool.more p"
  by (simp add: lru_remove_def Let_def)

lemma lru_touch_more [simp]: "pool.more (lru_touch p i) = pool.more p"
  by (simp add: lru_touch_def Let_def)

lemma core_nth:
  assumes "map frame_core (frames p) = map frame_core (frames p')" and "i < length (frames p)"
  shows "f_page_num (frames p ! i) = f_page_num (frames p' ! i)"
    and "f_data (frames p ! i) = f_data (frames p' ! i)"
    and "f_is_dirty (frames p ! i) = f_is_dirty (frames p' ! i)"
    and "f_pin_count (frames p ! i) = f_pin_count (frames p' ! i)"
proof -
  have len: "length (frames p) = length (frames p')" using assms(1) by (rule map_eq_imp_length_eq)
  have "map frame_core (frames p) ! i = map frame_core (frames p') ! i" using assms(1) by simp
  then have "frame_core (frames p ! i) = frame_core (frames p' ! i)" using assms(2) len by simp
  then show "f_page_num (frames p ! i) = f_page_num (frames p' ! i)"
    "f_data (frames p ! i) = f_data (frames p' ! i)"
    "f_is_dirty (frames p ! i) = f_is_dirty (frames p' ! i)"
    "f_pin_count (frames p ! i) = f_pin_count (frames p' ! i)"
    by (simp_all add: frame_core_def)
qed

subsection \<open>The victim\<close>

definition unpinned :: "'a pool_scheme \<Rightarrow> nat \<Rightarrow> bool" where
  "unpinned p i \<longleftrightarrow> f_pin_count (frames p ! i) = 0"

definition lru_victim :: "'a pool_scheme \<Rightarrow> nat list \<Rightarrow> int" where
  "lru_victim p q = tail_of (filter (unpinned p) q)"

lemma victim_scan_list:
  assumes "lru_list p q" and "q = xs @ ys" and "length xs < fuel"
  shows "victim_scan fuel p (tail_of xs) = lru_victim p xs"
  using assms(2,3)
proof (induction xs arbitrary: ys fuel rule: rev_induct)
  case Nil
  then show ?case by (cases fuel) (auto simp: lru_victim_def)
next
  case (snoc x xs)
  then obtain fuel' where fuel: "fuel = Suc fuel'" "length xs < fuel'" by (cases fuel) auto
  have d: "distinct (xs @ x # ys)" and x: "x < length (frames p)"
    using assms(1) snoc.prems(1) by (auto simp: lru_list_def)
  have "f_lru_prev (frames p ! x) = tail_of xs"
    using assms(1) x snoc.prems(1) pred_in_append [OF d, of x] by (simp add: lru_list_def)
  then show ?case
    using snoc.IH [of "x # ys" fuel'] snoc.prems(1) fuel
    by (auto simp: lru_victim_def unpinned_def)
qed

lemma victim_scan_queue:
  assumes "lru_list p q" and "length (frames p) = MAX_BUFFER_POOL_SIZE"
  shows "victim_scan (Suc MAX_BUFFER_POOL_SIZE) p (lru_tail p) =
    (if filter (unpinned p) q = [] then -1 else int (last (filter (unpinned p) q)))"
proof -
  have "length q = card (set q)" using assms(1) by (simp add: lru_list_def distinct_card)
  also have "\<dots> \<le> card {..<length (frames p)}"
    using assms(1) by (intro card_mono) (auto simp: lru_list_def)
  finally have "length q < Suc MAX_BUFFER_POOL_SIZE" using assms(2) by simp
  moreover have "lru_tail p = tail_of q" using assms(1) by (simp add: lru_list_def)
  ultimately show ?thesis
    using victim_scan_list [OF assms(1), of q "[]" "Suc MAX_BUFFER_POOL_SIZE"]
    by (simp only: lru_victim_def tail_of_def append_Nil2)
qed

text \<open>The victim scan of the buffer pool ends, and picks the least recently used frame that
  nobody has pinned; it reports an exhausted pool (\<open>-1\<close>) exactly when every cached frame is
  pinned.\<close>

theorem victim_is_least_recently_used_unpinned:
  assumes "lru_list p q" and "length (frames p) = MAX_BUFFER_POOL_SIZE"
  shows "victim_scan (Suc MAX_BUFFER_POOL_SIZE) p (lru_tail p) =
    (if filter (unpinned p) q = [] then -1 else int (last (filter (unpinned p) q)))"
  using assms by (rule victim_scan_queue)

end
