(* ===== verification/PagerState.thy ===== *)
theory PagerState
  imports LruQueue
begin

text \<open>
  The state of a \<open>Pager\<close> (\<open>src/pager.h\<close>), the growth of its per-page arrays
  (\<open>pager_reserve_capacity\<close>), the image of a page that the state determines (\<open>view\<close>), and the
  invariants every operation keeps: \<open>pager_ok\<close> (arrays, page table, frames and LRU links agree)
  and \<open>coherent\<close> (a clean frame holds what the shadows or the file hold).

  Pointers into the pool are frame indices. \<open>free_pages\<close> lists the first \<open>free_page_count\<close>
  entries of the C array; the per-page arrays are lists of length \<open>page_capacity\<close>.
\<close>

record savepoint =
  sp_name :: string
  sp_file_length :: nat
  sp_num_pages :: nat
  sp_free_pages :: "nat list"
  sp_is_dirty :: "bool list"
  sp_page_snapshots :: "page list"

record pager = pool +
  disk :: disk
  file_length :: nat
  num_pages :: nat
  page_capacity :: nat
  in_transaction :: bool
  transaction_file_length :: nat
  transaction_num_pages :: nat
  free_pages :: "nat list"
  transaction_free_pages :: "nat list"
  dirty_page_spills :: "page option list"
  committed_pages :: "page option list"
  page_table :: "int list"
  pin_barrier_active :: bool
  pin_admissions :: nat
  cache_hits :: nat
  cache_misses :: nat
  evictions :: nat
  is_dirty :: "bool list"
  savepoints :: "savepoint list"

definition PAGER_INITIAL_CAPACITY :: nat where "PAGER_INITIAL_CAPACITY = 64"

text \<open>\<open>x++\<close> on a \<open>uint32_t\<close> counter.\<close>

definition inc32 :: "nat \<Rightarrow> nat" where
  "inc32 n = (n + 1) mod 2 ^ 32"

section \<open>Growing the per-page arrays\<close>

text \<open>The \<open>while\<close> loop that picks the new capacity.\<close>

function grow_capacity :: "nat \<Rightarrow> nat \<Rightarrow> nat" where
  "grow_capacity new_capacity min_capacity =
     (if new_capacity < min_capacity then
        let doubled = new_capacity * 2
        in if doubled \<ge> min_capacity \<and> doubled \<le> UINT32_MAX
           then grow_capacity doubled min_capacity
           else grow_capacity min_capacity min_capacity
      else new_capacity)"
  by pat_completeness auto
termination
  by (relation "measure (\<lambda>(new_capacity, min_capacity). min_capacity - new_capacity)") auto

declare grow_capacity.simps [simp del]

definition pager_reserve_capacity :: "pager \<Rightarrow> nat \<Rightarrow> pager" where
  "pager_reserve_capacity p min_capacity =
     (if min_capacity \<le> page_capacity p then p
      else
        let old_capacity = page_capacity p;
            start = (if old_capacity = 0 then PAGER_INITIAL_CAPACITY else old_capacity);
            start = (if start = 0 then 1 else start);
            new_capacity = grow_capacity start min_capacity;
            extra = new_capacity - old_capacity
        in p\<lparr>page_table := page_table p @ replicate extra (-1),
              is_dirty := is_dirty p @ replicate extra False,
              dirty_page_spills := dirty_page_spills p @ replicate extra None,
              committed_pages := committed_pages p @ replicate extra None,
              page_capacity := new_capacity\<rparr>)"

lemma grow_capacity_eq:
  "grow_capacity c m =
     (if m \<le> c then c else if m \<le> 2 * c \<and> 2 * c \<le> UINT32_MAX then 2 * c else m)"
proof -
  have stop: "grow_capacity c' m = c'" if "m \<le> c'" for c'
    using that by (simp add: grow_capacity.simps [of c' m])
  show ?thesis by (simp add: grow_capacity.simps [of c m] Let_def stop mult.commute)
qed

text \<open>Growing the page metadata always reaches the requested capacity, never shrinks it and
  stays within 32-bit page numbers; it doubles when doubling is enough.\<close>

theorem reserve_capacity_bounds:
  assumes "m \<le> UINT32_MAX" and "page_capacity p \<le> UINT32_MAX"
  shows "let c = page_capacity (pager_reserve_capacity p m) in
    m \<le> c \<and> page_capacity p \<le> c \<and> c \<le> UINT32_MAX \<and>
    (0 < page_capacity p \<and> page_capacity p < m \<and> m \<le> 2 * page_capacity p \<and>
       2 * page_capacity p \<le> UINT32_MAX \<longrightarrow> c = 2 * page_capacity p)"
  using assms
  by (auto simp: pager_reserve_capacity_def Let_def grow_capacity_eq PAGER_INITIAL_CAPACITY_def
      UINT32_MAX_def)

section \<open>The image of a page\<close>

definition lookup_slot :: "'b option list \<Rightarrow> nat \<Rightarrow> 'b option" where
  "lookup_slot slots n = (if n < length slots then slots ! n else None)"

definition dirty_flag :: "pager \<Rightarrow> nat \<Rightarrow> bool" where
  "dirty_flag p n \<longleftrightarrow> n < length (is_dirty p) \<and> is_dirty p ! n"

definition table_entry :: "pager \<Rightarrow> nat \<Rightarrow> int" where
  "table_entry p n = (if n < length (page_table p) then page_table p ! n else -1)"

definition file_page :: "bytes \<Rightarrow> nat \<Rightarrow> page" where
  "file_page f n = slice (n * PAGE_SIZE) PAGE_SIZE f"

text \<open>What a clean, uncached page holds: the newest committed image, else the file, else zeros.\<close>

definition backing :: "pager \<Rightarrow> nat \<Rightarrow> page" where
  "backing p n =
     (case lookup_slot (committed_pages p) n of
        Some img \<Rightarrow> img
      | None \<Rightarrow> if n < file_length p div PAGE_SIZE then file_page (d_main (disk p)) n else zero_page)"

lemma backing_cong:
  assumes "lookup_slot (committed_pages p') n = lookup_slot (committed_pages p) n"
    and "d_main (disk p') = d_main (disk p)" and "file_length p' = file_length p"
  shows "backing p' n = backing p n"
  using assms by (simp add: backing_def cong: option.case_cong)

text \<open>What an uncached page holds.\<close>

definition source :: "pager \<Rightarrow> nat \<Rightarrow> page" where
  "source p n =
     (if dirty_flag p n \<and> lookup_slot (dirty_page_spills p) n \<noteq> None
      then the (lookup_slot (dirty_page_spills p) n) else backing p n)"

definition view :: "pager \<Rightarrow> nat \<Rightarrow> page" where
  "view p n =
     (if table_entry p n \<noteq> -1 then f_data (frames p ! nat (table_entry p n)) else source p n)"

section \<open>Invariants\<close>

definition pager_arrays :: "pager \<Rightarrow> bool" where
  "pager_arrays p \<longleftrightarrow>
     length (page_table p) = page_capacity p \<and> length (is_dirty p) = page_capacity p \<and>
     length (dirty_page_spills p) = page_capacity p \<and>
     length (committed_pages p) = page_capacity p \<and>
     page_capacity p \<le> UINT32_MAX \<and> num_pages p \<le> page_capacity p \<and>
     (in_transaction p \<longrightarrow> transaction_num_pages p \<le> page_capacity p)"

definition pager_frames :: "pager \<Rightarrow> bool" where
  "pager_frames p \<longleftrightarrow>
     length (frames p) = MAX_BUFFER_POOL_SIZE \<and>
     (\<forall>i<MAX_BUFFER_POOL_SIZE. length (f_data (frames p ! i)) = PAGE_SIZE \<and>
        (f_page_num (frames p ! i) \<noteq> INVALID_PAGE_NUM \<longrightarrow>
           f_page_num (frames p ! i) < num_pages p \<and>
           page_table p ! f_page_num (frames p ! i) = int i \<and>
           f_is_dirty (frames p ! i) = is_dirty p ! f_page_num (frames p ! i)))"

definition pager_table :: "pager \<Rightarrow> bool" where
  "pager_table p \<longleftrightarrow>
     (\<forall>n<page_capacity p. page_table p ! n = -1 \<or>
        (\<exists>i<MAX_BUFFER_POOL_SIZE. page_table p ! n = int i \<and> f_page_num (frames p ! i) = n))"

definition occupied :: "pager \<Rightarrow> nat set" where
  "occupied p = {i. i < MAX_BUFFER_POOL_SIZE \<and> f_page_num (frames p ! i) \<noteq> INVALID_PAGE_NUM}"

definition pager_lru :: "pager \<Rightarrow> bool" where
  "pager_lru p \<longleftrightarrow> (\<exists>q. lru_list p q \<and> set q = occupied p)"

definition pager_shadows :: "pager \<Rightarrow> bool" where
  "pager_shadows p \<longleftrightarrow>
     file_length p \<le> length (d_main (disk p)) \<and> PAGE_SIZE dvd file_length p \<and>
     (\<forall>n<page_capacity p.
        (\<forall>img. dirty_page_spills p ! n = Some img \<longrightarrow> length img = PAGE_SIZE) \<and>
        (\<forall>img. committed_pages p ! n = Some img \<longrightarrow> length img = PAGE_SIZE))"

definition pager_ok :: "pager \<Rightarrow> bool" where
  "pager_ok p \<longleftrightarrow>
     pager_arrays p \<and> pager_frames p \<and> pager_table p \<and> pager_lru p \<and> pager_shadows p"

text \<open>Clean frames repeat what is behind them; more generally, what a function \<open>B\<close> says.\<close>

definition coherent_to :: "(nat \<Rightarrow> page) \<Rightarrow> pager \<Rightarrow> bool" where
  "coherent_to B p \<longleftrightarrow>
     (\<forall>i<MAX_BUFFER_POOL_SIZE. f_page_num (frames p ! i) \<noteq> INVALID_PAGE_NUM \<longrightarrow>
        \<not> f_is_dirty (frames p ! i) \<longrightarrow> f_data (frames p ! i) = B (f_page_num (frames p ! i)))"

definition coherent :: "pager \<Rightarrow> bool" where
  "coherent p \<longleftrightarrow> coherent_to (backing p) p"

lemma coherent_toD:
  assumes "coherent_to B p" "i < MAX_BUFFER_POOL_SIZE" "f_page_num (frames p ! i) \<noteq> INVALID_PAGE_NUM"
    "\<not> f_is_dirty (frames p ! i)"
  shows "f_data (frames p ! i) = B (f_page_num (frames p ! i))"
  using assms by (simp add: coherent_to_def)

lemma coherentD:
  assumes "coherent p" "i < MAX_BUFFER_POOL_SIZE" "f_page_num (frames p ! i) \<noteq> INVALID_PAGE_NUM"
    "\<not> f_is_dirty (frames p ! i)"
  shows "f_data (frames p ! i) = backing p (f_page_num (frames p ! i))"
  using assms by (simp add: coherent_def coherent_to_def)

lemma coherentI:
  assumes "\<And>i. i < MAX_BUFFER_POOL_SIZE \<Longrightarrow> f_page_num (frames p ! i) \<noteq> INVALID_PAGE_NUM \<Longrightarrow>
    \<not> f_is_dirty (frames p ! i) \<Longrightarrow> f_data (frames p ! i) = backing p (f_page_num (frames p ! i))"
  shows "coherent p"
  using assms by (simp add: coherent_def coherent_to_def)

lemma pager_okI:
  "pager_arrays p \<Longrightarrow> pager_frames p \<Longrightarrow> pager_table p \<Longrightarrow> pager_lru p \<Longrightarrow> pager_shadows p \<Longrightarrow>
   pager_ok p"
  by (simp add: pager_ok_def)

lemma pager_okD:
  assumes "pager_ok p"
  shows "pager_arrays p" "pager_frames p" "pager_table p" "pager_lru p" "pager_shadows p"
  using assms by (simp_all add: pager_ok_def)

text \<open>A cached page and its frame determine each other.\<close>

lemma cached_frame:
  assumes "pager_ok p" and "table_entry p n \<noteq> -1"
  obtains i where "i < MAX_BUFFER_POOL_SIZE" "table_entry p n = int i" "f_page_num (frames p ! i) = n"
    "n < page_capacity p" "f_is_dirty (frames p ! i) = dirty_flag p n" "n \<noteq> INVALID_PAGE_NUM"
proof -
  have n: "n < page_capacity p" and t: "page_table p ! n \<noteq> -1" "table_entry p n = page_table p ! n"
    using assms by (auto simp: table_entry_def pager_ok_def pager_arrays_def split: if_splits)
  then obtain i where i: "i < MAX_BUFFER_POOL_SIZE" "page_table p ! n = int i" "f_page_num (frames p ! i) = n"
    using pager_okD(3) [OF assms(1)] by (auto simp: pager_table_def)
  have "n < UINT32_MAX" using n pager_okD(1) [OF assms(1)] by (simp add: pager_arrays_def)
  then have inv: "n \<noteq> INVALID_PAGE_NUM" by (simp add: UINT32_MAX_def INVALID_PAGE_NUM_def)
  have "f_is_dirty (frames p ! i) = dirty_flag p n"
    using i n inv pager_okD(1,2) [OF assms(1)]
    by (auto simp: pager_frames_def dirty_flag_def pager_arrays_def)
  with that i n t inv show ?thesis by simp
qed

lemma frame_cached:
  assumes "pager_ok p" and "i < MAX_BUFFER_POOL_SIZE" and "f_page_num (frames p ! i) \<noteq> INVALID_PAGE_NUM"
  shows "table_entry p (f_page_num (frames p ! i)) = int i" "f_page_num (frames p ! i) < page_capacity p"
    "f_page_num (frames p ! i) < num_pages p"
    "f_is_dirty (frames p ! i) = dirty_flag p (f_page_num (frames p ! i))"
proof -
  have "f_page_num (frames p ! i) < num_pages p" "page_table p ! f_page_num (frames p ! i) = int i"
    "f_is_dirty (frames p ! i) = is_dirty p ! f_page_num (frames p ! i)"
    using assms by (simp_all add: pager_ok_def pager_frames_def)
  moreover have "num_pages p \<le> page_capacity p" "length (page_table p) = page_capacity p"
    "length (is_dirty p) = page_capacity p"
    using assms(1) by (simp_all add: pager_ok_def pager_arrays_def)
  ultimately show "table_entry p (f_page_num (frames p ! i)) = int i"
    "f_page_num (frames p ! i) < page_capacity p" "f_page_num (frames p ! i) < num_pages p"
    "f_is_dirty (frames p ! i) = dirty_flag p (f_page_num (frames p ! i))"
    by (simp_all add: table_entry_def dirty_flag_def)
qed

lemma length_backing:
  assumes "pager_ok p"
  shows "length (backing p n) = PAGE_SIZE"
proof (cases "lookup_slot (committed_pages p) n")
  case (Some img)
  then have "n < page_capacity p" "committed_pages p ! n = Some img"
    using assms by (auto simp: lookup_slot_def pager_ok_def pager_arrays_def split: if_splits)
  with assms have "length img = PAGE_SIZE" by (auto simp: pager_ok_def pager_shadows_def)
  with Some show ?thesis by (simp add: backing_def)
next
  case None
  have "n * PAGE_SIZE + PAGE_SIZE \<le> length (d_main (disk p))" if "n < file_length p div PAGE_SIZE"
  proof -
    have "Suc n * PAGE_SIZE \<le> (file_length p div PAGE_SIZE) * PAGE_SIZE"
      using that by (intro mult_le_mono1) simp
    also have "\<dots> \<le> file_length p" by simp
    also have "\<dots> \<le> length (d_main (disk p))" using assms by (simp add: pager_ok_def pager_shadows_def)
    finally show ?thesis by simp
  qed
  with None show ?thesis by (auto simp: backing_def file_page_def)
qed

lemma length_source: "pager_ok p \<Longrightarrow> length (source p n) = PAGE_SIZE"
  by (auto simp: source_def length_backing lookup_slot_def pager_ok_def pager_shadows_def pager_arrays_def)

lemma length_view:
  assumes "pager_ok p"
  shows "length (view p n) = PAGE_SIZE"
proof (cases "table_entry p n = -1")
  case False
  with assms obtain i where "i < MAX_BUFFER_POOL_SIZE" "table_entry p n = int i"
    by (rule cached_frame)
  with assms False show ?thesis by (auto simp: view_def pager_ok_def pager_frames_def)
qed (simp add: view_def length_source assms)

lemma clean_view:
  assumes "pager_ok p" and "coherent p" and "\<not> dirty_flag p n"
  shows "view p n = backing p n"
proof (cases "table_entry p n = -1")
  case True
  with assms(3) show ?thesis by (simp add: view_def source_def)
next
  case False
  with assms(1) obtain i where "i < MAX_BUFFER_POOL_SIZE" "table_entry p n = int i"
    "f_page_num (frames p ! i) = n" "f_is_dirty (frames p ! i) = dirty_flag p n" "n \<noteq> INVALID_PAGE_NUM"
    by (rule cached_frame)
  with coherentD [OF assms(2)] assms(3) False show ?thesis by (auto simp: view_def)
qed

section \<open>Reserving capacity changes no page\<close>

lemma reserve_fields [simp]:
  "frames (pager_reserve_capacity p m) = frames p"
  "lru_head (pager_reserve_capacity p m) = lru_head p"
  "lru_tail (pager_reserve_capacity p m) = lru_tail p"
  "disk (pager_reserve_capacity p m) = disk p"
  "file_length (pager_reserve_capacity p m) = file_length p"
  "num_pages (pager_reserve_capacity p m) = num_pages p"
  "in_transaction (pager_reserve_capacity p m) = in_transaction p"
  "transaction_file_length (pager_reserve_capacity p m) = transaction_file_length p"
  "transaction_num_pages (pager_reserve_capacity p m) = transaction_num_pages p"
  "free_pages (pager_reserve_capacity p m) = free_pages p"
  "transaction_free_pages (pager_reserve_capacity p m) = transaction_free_pages p"
  "pin_barrier_active (pager_reserve_capacity p m) = pin_barrier_active p"
  "pin_admissions (pager_reserve_capacity p m) = pin_admissions p"
  "cache_hits (pager_reserve_capacity p m) = cache_hits p"
  "cache_misses (pager_reserve_capacity p m) = cache_misses p"
  "evictions (pager_reserve_capacity p m) = evictions p"
  "savepoints (pager_reserve_capacity p m) = savepoints p"
  by (simp_all add: pager_reserve_capacity_def Let_def)

lemma nth_append_default:
  "n < length xs + k \<Longrightarrow> (xs @ replicate k d) ! n = (if n < length xs then xs ! n else d)"
  by (simp add: nth_append)

lemma reserve_capacity_ge:
  "m \<le> UINT32_MAX \<Longrightarrow> page_capacity p \<le> UINT32_MAX \<Longrightarrow>
   m \<le> page_capacity (pager_reserve_capacity p m) \<and>
   page_capacity p \<le> page_capacity (pager_reserve_capacity p m) \<and>
   page_capacity (pager_reserve_capacity p m) \<le> UINT32_MAX"
  by (auto simp: pager_reserve_capacity_def Let_def grow_capacity_eq PAGER_INITIAL_CAPACITY_def
      UINT32_MAX_def)


lemma lookup_slot_grow [simp]: "lookup_slot (xs @ replicate k None) n = lookup_slot xs n"
  by (simp add: lookup_slot_def nth_append)

lemma reserve_lookups [simp]:
  "lookup_slot (committed_pages (pager_reserve_capacity p m)) n = lookup_slot (committed_pages p) n"
  "lookup_slot (dirty_page_spills (pager_reserve_capacity p m)) n
     = lookup_slot (dirty_page_spills p) n"
  "dirty_flag (pager_reserve_capacity p m) n = dirty_flag p n"
  "table_entry (pager_reserve_capacity p m) n = table_entry p n"
  by (simp_all add: pager_reserve_capacity_def Let_def dirty_flag_def table_entry_def nth_append)

lemma reserve_view [simp]:
  "backing (pager_reserve_capacity p m) = backing p"
  "source (pager_reserve_capacity p m) = source p"
  "view (pager_reserve_capacity p m) = view p"
  "coherent_to B (pager_reserve_capacity p m) = coherent_to B p"
  "coherent (pager_reserve_capacity p m) = coherent p"
  by (auto simp: fun_eq_iff backing_def source_def view_def coherent_def coherent_to_def cong: option.case_cong)

lemma reserve_ok:
  assumes p: "pager_ok p" and m: "m \<le> UINT32_MAX"
  shows "pager_ok (pager_reserve_capacity p m)"
proof (cases "m \<le> page_capacity p")
  case True
  then show ?thesis using p by (simp add: pager_reserve_capacity_def)
next
  case False
  let ?r = "pager_reserve_capacity p m" and ?c = "page_capacity (pager_reserve_capacity p m)"
  have cap: "page_capacity p \<le> ?c" "?c \<le> UINT32_MAX"
    using reserve_capacity_ge [OF m] pager_okD(1) [OF p] by (auto simp: pager_arrays_def)
  have arrays: "page_table ?r = page_table p @ replicate (?c - page_capacity p) (-1)"
    "is_dirty ?r = is_dirty p @ replicate (?c - page_capacity p) False"
    "dirty_page_spills ?r = dirty_page_spills p @ replicate (?c - page_capacity p) None"
    "committed_pages ?r = committed_pages p @ replicate (?c - page_capacity p) None"
    using False by (simp_all add: pager_reserve_capacity_def Let_def)
  have np: "num_pages p \<le> page_capacity p" using pager_okD(1) [OF p] by (simp add: pager_arrays_def)
  have old: "n < page_capacity p \<Longrightarrow> page_table ?r ! n = page_table p ! n"
    "n < page_capacity p \<Longrightarrow> is_dirty ?r ! n = is_dirty p ! n" for n
    using pager_okD(1) [OF p] by (simp_all add: arrays nth_append pager_arrays_def)
  show ?thesis
  proof (rule pager_okI)
    show "pager_arrays ?r" using pager_okD(1) [OF p] cap by (auto simp: pager_arrays_def arrays)
    show "pager_frames ?r"
      using pager_okD(2) [OF p] np old by (auto simp: pager_frames_def)
    show "pager_table ?r"
      using pager_okD(1,3) [OF p] cap by (auto simp: pager_table_def pager_arrays_def arrays nth_append)
    show "pager_lru ?r"
      using pager_okD(4) [OF p] by (simp add: pager_lru_def lru_list_def occupied_def)
    show "pager_shadows ?r"
      using pager_okD(1,5) [OF p] cap
      by (auto simp: pager_shadows_def pager_arrays_def arrays nth_append)
  qed
qed

end
