(* ===== verification/PagerCache.thy ===== *)
theory PagerCache
  imports PagerState
begin

text \<open>
  The buffer pool of \<open>src/pager.c\<close>: \<open>get_page\<close> with its cache hit, its replacement by
  \<open>lru_evict\<close> (which spills dirty frames instead of writing them to the main file) and its load
  from spill, committed shadow or file; \<open>mark_page_dirty\<close>, \<open>pager_unpin_page\<close>, \<open>pager_flush\<close>,
  \<open>get_unused_page_num\<close>, \<open>pager_free_page\<close> and \<open>pager_shrink\<close>. \<open>get_page\<close> returns the index of the
  frame whose data the C function points to.
\<close>

section \<open>Eviction\<close>

definition store_page_copy :: "page option list \<Rightarrow> nat \<Rightarrow> page \<Rightarrow> page option list" where
  "store_page_copy slots n img = slots[n := Some img]"

definition lru_evict :: "pager \<Rightarrow> pager_exit + (int \<times> pager)" where
  "lru_evict p =
     (let victim = victim_scan (Suc MAX_BUFFER_POOL_SIZE) p (lru_tail p)
      in if victim = -1 then Inl Exit_Pool_Exhausted
         else
           let v = nat victim;
               victim_page = f_page_num (frames p ! v);
               p1 = (if victim_page \<noteq> INVALID_PAGE_NUM then
                       let pa = (if f_is_dirty (frames p ! v) then
                                   upd_frame v (\<lambda>f. f\<lparr>f_is_dirty := False\<rparr>)
                                     (p\<lparr>dirty_page_spills :=
                                          store_page_copy (dirty_page_spills p) victim_page
                                            (f_data (frames p ! v))\<rparr>)
                                 else p)
                       in pa\<lparr>page_table := (page_table pa)[victim_page := -1],
                             evictions := inc32 (evictions pa)\<rparr>
                     else p);
               p2 = lru_remove p1 victim
           in Inr (victim,
                upd_frame v (\<lambda>f. f\<lparr>f_page_num := INVALID_PAGE_NUM, f_is_dirty := False,
                                   f_pin_count := 0\<rparr>) p2))"

section \<open>Loading\<close>

definition load_image :: "pager \<Rightarrow> nat \<Rightarrow> pager_exit + page" where
  "load_image p n =
     (if is_dirty p ! n \<and> dirty_page_spills p ! n \<noteq> None then Inr (the (dirty_page_spills p ! n))
      else if committed_pages p ! n \<noteq> None then Inr (the (committed_pages p ! n))
      else if n < file_length p div PAGE_SIZE then
        let img = file_page (d_main (disk p)) n
        in if length img \<noteq> PAGE_SIZE then Inl Exit_Io_Error
           else and_then (page_verify_checksum img n) (\<lambda>_. Inr img)
      else Inr zero_page)"

definition free_frame :: "pager \<Rightarrow> nat option" where
  "free_frame p =
     find (\<lambda>i. f_page_num (frames p ! i) = INVALID_PAGE_NUM) [0..<MAX_BUFFER_POOL_SIZE]"

definition choose_frame :: "pager \<Rightarrow> pager_exit + (int \<times> pager)" where
  "choose_frame p = (case free_frame p of Some i \<Rightarrow> Inr (int i, p) | None \<Rightarrow> lru_evict p)"

definition install_page :: "pager \<Rightarrow> int \<Rightarrow> nat \<Rightarrow> page \<Rightarrow> pager" where
  "install_page p frame_idx n img =
     (let p1 = upd_frame (nat frame_idx) (\<lambda>f. f\<lparr>f_data := img\<rparr>) p;
          p2 = (if n \<ge> num_pages p1 then p1\<lparr>num_pages := n + 1\<rparr> else p1);
          p3 = upd_frame (nat frame_idx)
                 (\<lambda>f. f\<lparr>f_page_num := n, f_is_dirty := is_dirty p2 ! n, f_pin_count := 0\<rparr>) p2;
          p4 = p3\<lparr>page_table := (page_table p3)[n := frame_idx]\<rparr>
      in lru_touch p4 frame_idx)"

definition get_page :: "pager \<Rightarrow> nat \<Rightarrow> pager_exit + (nat \<times> pager)" where
  "get_page p0 n =
     (if n = INVALID_PAGE_NUM then Inl Exit_Invalid_Page_Number
      else
        let p = pager_reserve_capacity p0 (n + 1);
            frame_idx = page_table p ! n
        in if frame_idx \<noteq> -1 then
             Inr (nat frame_idx, lru_touch (p\<lparr>cache_hits := inc32 (cache_hits p)\<rparr>) frame_idx)
           else
             and_then (choose_frame (p\<lparr>cache_misses := inc32 (cache_misses p)\<rparr>))
               (\<lambda>(idx, p2). and_then (load_image p2 n)
                  (\<lambda>img. Inr (nat idx, install_page p2 idx n img))))"

section \<open>Other page operations\<close>

definition mark_page_dirty :: "pager \<Rightarrow> nat \<Rightarrow> pager_exit + pager" where
  "mark_page_dirty p0 n =
     (if n = INVALID_PAGE_NUM then Inl Exit_Invalid_Page_Number
      else
        let p = pager_reserve_capacity p0 (n + 1);
            p1 = p\<lparr>is_dirty := (is_dirty p)[n := True]\<rparr>;
            frame_idx = page_table p1 ! n
        in Inr (if frame_idx \<noteq> -1
                then upd_frame (nat frame_idx) (\<lambda>f. f\<lparr>f_is_dirty := True\<rparr>) p1 else p1))"

text \<open>A client's store through the pointer \<open>get_page\<close> returned: frame \<open>i\<close> gets new bytes.\<close>

definition poke_frame :: "nat \<Rightarrow> page \<Rightarrow> pager \<Rightarrow> pager" where
  "poke_frame i img p = upd_frame i (\<lambda>f. f\<lparr>f_data := img\<rparr>) p"

definition pager_unpin_page :: "pager \<Rightarrow> nat \<Rightarrow> pager" where
  "pager_unpin_page p n =
     (if n \<ge> page_capacity p then p
      else
        let frame_idx = page_table p ! n
        in if frame_idx \<noteq> -1 \<and> f_pin_count (frames p ! nat frame_idx) > 0
           then upd_frame (nat frame_idx) (\<lambda>f. f\<lparr>f_pin_count := f_pin_count f - 1\<rparr>) p
           else p)"

definition pager_flush :: "pager \<Rightarrow> nat \<Rightarrow> nat \<Rightarrow> pager" where
  "pager_flush p n nbytes =
     (if n \<ge> page_capacity p \<or> page_table p ! n = -1 then p
      else
        let i = nat (page_table p ! n);
            p1 = upd_frame i (\<lambda>f. f\<lparr>f_data := page_write_checksum (f_data f)\<rparr>) p;
            p2 = p1\<lparr>disk := (disk p1)\<lparr>d_main :=
                   file_write (n * PAGE_SIZE) (take nbytes (f_data (frames p1 ! i))) (d_main (disk p1))\<rparr>\<rparr>;
            end_offset = n * PAGE_SIZE + nbytes
        in if end_offset > file_length p2 then p2\<lparr>file_length := end_offset\<rparr> else p2)"

definition get_unused_page_num :: "pager \<Rightarrow> pager_exit + (nat \<times> pager)" where
  "get_unused_page_num p =
     (if free_pages p \<noteq> [] then Inr (last (free_pages p), p\<lparr>free_pages := butlast (free_pages p)\<rparr>)
      else if num_pages p = INVALID_PAGE_NUM then Inl Exit_Page_Numbers_Exhausted
      else Inr (num_pages p, p))"

text \<open>Dropping the frame of a page, as \<open>pager_free_page\<close> and \<open>pager_shrink\<close> do.\<close>

definition drop_frame :: "pager \<Rightarrow> nat \<Rightarrow> pager" where
  "drop_frame p n =
     (let frame_idx = page_table p ! n
      in if frame_idx \<noteq> -1 then
           let p1 = upd_frame (nat frame_idx)
                 (\<lambda>f. f\<lparr>f_page_num := INVALID_PAGE_NUM, f_is_dirty := False, f_pin_count := 0\<rparr>) p;
               p2 = lru_remove p1 frame_idx
           in p2\<lparr>page_table := (page_table p2)[n := -1]\<rparr>
         else p)"

definition pager_free_page :: "pager \<Rightarrow> nat \<Rightarrow> pager_exit + pager" where
  "pager_free_page p0 n =
     (if n = 0 then Inl Exit_Free_Page_Zero
      else if n = INVALID_PAGE_NUM \<or> n \<ge> num_pages p0 then Inl (Exit_Free_Invalid_Page n)
      else
        let p = drop_frame (pager_reserve_capacity p0 (n + 1)) n
        in Inr (p\<lparr>dirty_page_spills := (dirty_page_spills p)[n := None],
                  is_dirty := (is_dirty p)[n := False],
                  free_pages := free_pages p @ [n]\<rparr>))"

text \<open>One round of the loop of \<open>pager_shrink\<close>, then the function.\<close>

definition shrink_page :: "nat \<Rightarrow> pager \<Rightarrow> pager" where
  "shrink_page i p =
     (if i < page_capacity p then
        let p1 = drop_frame p i
        in p1\<lparr>is_dirty := (is_dirty p1)[i := False],
              dirty_page_spills := (dirty_page_spills p1)[i := None],
              committed_pages := (committed_pages p1)[i := None]\<rparr>
      else p)"

definition pager_shrink :: "pager \<Rightarrow> nat \<Rightarrow> pager" where
  "pager_shrink p new_num_pages =
     (if new_num_pages \<ge> num_pages p then p
      else
        let p1 = fold shrink_page [new_num_pages..<num_pages p] p
        in p1\<lparr>free_pages := filter (\<lambda>q. q < new_num_pages) (free_pages p1),
              num_pages := new_num_pages\<rparr>)"

section \<open>What the link operations leave alone\<close>

lemma upd_frame_pager [simp]:
  "disk (upd_frame i f p) = disk p"
  "file_length (upd_frame i f p) = file_length p"
  "num_pages (upd_frame i f p) = num_pages p"
  "page_capacity (upd_frame i f p) = page_capacity p"
  "in_transaction (upd_frame i f p) = in_transaction p"
  "transaction_file_length (upd_frame i f p) = transaction_file_length p"
  "transaction_num_pages (upd_frame i f p) = transaction_num_pages p"
  "free_pages (upd_frame i f p) = free_pages p"
  "transaction_free_pages (upd_frame i f p) = transaction_free_pages p"
  "dirty_page_spills (upd_frame i f p) = dirty_page_spills p"
  "committed_pages (upd_frame i f p) = committed_pages p"
  "page_table (upd_frame i f p) = page_table p"
  "pin_barrier_active (upd_frame i f p) = pin_barrier_active p"
  "pin_admissions (upd_frame i f p) = pin_admissions p"
  "cache_hits (upd_frame i f p) = cache_hits p"
  "cache_misses (upd_frame i f p) = cache_misses p"
  "evictions (upd_frame i f p) = evictions p"
  "is_dirty (upd_frame i f p) = is_dirty p"
  "savepoints (upd_frame i f p) = savepoints p"
  by (simp_all add: upd_frame_def)

lemma lru_remove_pager [simp]:
  "disk (lru_remove p i) = disk p"
  "file_length (lru_remove p i) = file_length p"
  "num_pages (lru_remove p i) = num_pages p"
  "page_capacity (lru_remove p i) = page_capacity p"
  "in_transaction (lru_remove p i) = in_transaction p"
  "transaction_file_length (lru_remove p i) = transaction_file_length p"
  "transaction_num_pages (lru_remove p i) = transaction_num_pages p"
  "free_pages (lru_remove p i) = free_pages p"
  "transaction_free_pages (lru_remove p i) = transaction_free_pages p"
  "dirty_page_spills (lru_remove p i) = dirty_page_spills p"
  "committed_pages (lru_remove p i) = committed_pages p"
  "page_table (lru_remove p i) = page_table p"
  "pin_barrier_active (lru_remove p i) = pin_barrier_active p"
  "pin_admissions (lru_remove p i) = pin_admissions p"
  "cache_hits (lru_remove p i) = cache_hits p"
  "cache_misses (lru_remove p i) = cache_misses p"
  "evictions (lru_remove p i) = evictions p"
  "is_dirty (lru_remove p i) = is_dirty p"
  "savepoints (lru_remove p i) = savepoints p"
  by (simp_all add: lru_remove_def Let_def)

lemma lru_touch_pager [simp]:
  "disk (lru_touch p i) = disk p"
  "file_length (lru_touch p i) = file_length p"
  "num_pages (lru_touch p i) = num_pages p"
  "page_capacity (lru_touch p i) = page_capacity p"
  "in_transaction (lru_touch p i) = in_transaction p"
  "transaction_file_length (lru_touch p i) = transaction_file_length p"
  "transaction_num_pages (lru_touch p i) = transaction_num_pages p"
  "free_pages (lru_touch p i) = free_pages p"
  "transaction_free_pages (lru_touch p i) = transaction_free_pages p"
  "dirty_page_spills (lru_touch p i) = dirty_page_spills p"
  "committed_pages (lru_touch p i) = committed_pages p"
  "page_table (lru_touch p i) = page_table p"
  "pin_barrier_active (lru_touch p i) = pin_barrier_active p"
  "pin_admissions (lru_touch p i) = pin_admissions p"
  "cache_hits (lru_touch p i) = cache_hits p"
  "cache_misses (lru_touch p i) = cache_misses p"
  "evictions (lru_touch p i) = evictions p"
  "is_dirty (lru_touch p i) = is_dirty p"
  "savepoints (lru_touch p i) = savepoints p"
  by (simp_all add: lru_touch_def Let_def)

lemma lru_remove_frame [simp]:
  assumes "j < length (frames p)"
  shows "f_page_num (frames (lru_remove p i) ! j) = f_page_num (frames p ! j)"
    and "f_data (frames (lru_remove p i) ! j) = f_data (frames p ! j)"
    and "f_is_dirty (frames (lru_remove p i) ! j) = f_is_dirty (frames p ! j)"
    and "f_pin_count (frames (lru_remove p i) ! j) = f_pin_count (frames p ! j)"
  using assms by (simp_all add: core_nth [OF lru_remove_core])

lemma length_frames_lru_touch [simp]: "length (frames (lru_touch p i)) = length (frames p)"
  by (simp add: lru_touch_def Let_def)

lemma lru_touch_frame [simp]:
  assumes "j < length (frames p)"
  shows "f_page_num (frames (lru_touch p i) ! j) = f_page_num (frames p ! j)"
    and "f_data (frames (lru_touch p i) ! j) = f_data (frames p ! j)"
    and "f_is_dirty (frames (lru_touch p i) ! j) = f_is_dirty (frames p ! j)"
    and "f_pin_count (frames (lru_touch p i) ! j) = f_pin_count (frames p ! j)"
  using assms by (simp_all add: core_nth [OF lru_touch_core])

end
