(* ===== verification/PagerFetch.thy ===== *)
theory PagerFetch
  imports PagerCache
begin

text \<open>
  What fetching a page does to the pool. \<open>lru_evict_spec\<close>: an eviction keeps the invariants and
  every page image (a dirty frame is spilled, a clean one repeats what is behind it).
  \<open>install_page_spec\<close>: so does loading a page into the emptied frame. \<open>get_page_spec\<close> is the
  contract of \<open>get_page\<close>: the returned frame holds the image of the page asked for, and no page
  image, file, flag or allocator state changes.
\<close>

section \<open>The link operations keep everything but the LRU order\<close>

definition pager_core :: "pager \<Rightarrow> bool" where
  "pager_core p \<longleftrightarrow> pager_arrays p \<and> pager_frames p \<and> pager_table p \<and> pager_shadows p"

lemma pager_ok_core: "pager_ok p \<longleftrightarrow> pager_core p \<and> pager_lru p"
  by (auto simp: pager_ok_def pager_core_def)

lemma core_length [simp]: "pager_core p \<Longrightarrow> length (frames p) = MAX_BUFFER_POOL_SIZE"
  by (simp add: pager_core_def pager_frames_def)

lemma conjuncts_links [simp]:
  assumes "length (frames p) = MAX_BUFFER_POOL_SIZE"
  shows "pager_arrays (lru_touch p i) = pager_arrays p" "pager_arrays (lru_remove p i) = pager_arrays p"
    and "pager_shadows (lru_touch p i) = pager_shadows p" "pager_shadows (lru_remove p i) = pager_shadows p"
    and "pager_frames (lru_touch p i) = pager_frames p" "pager_frames (lru_remove p i) = pager_frames p"
    and "pager_table (lru_touch p i) = pager_table p" "pager_table (lru_remove p i) = pager_table p"
  using assms
  by (simp_all add: pager_arrays_def pager_shadows_def pager_frames_def pager_table_def
      cong: conj_cong)

lemma core_links [simp]:
  "length (frames p) = MAX_BUFFER_POOL_SIZE \<Longrightarrow> pager_core (lru_touch p i) = pager_core p"
  "length (frames p) = MAX_BUFFER_POOL_SIZE \<Longrightarrow> pager_core (lru_remove p i) = pager_core p"
  by (simp_all add: pager_core_def)

lemma lookup_links [simp]:
  "table_entry (lru_touch p i) n = table_entry p n" "table_entry (lru_remove p i) n = table_entry p n"
  "table_entry (upd_frame j f p) n = table_entry p n"
  "dirty_flag (lru_touch p i) n = dirty_flag p n" "dirty_flag (lru_remove p i) n = dirty_flag p n"
  "dirty_flag (upd_frame j f p) n = dirty_flag p n"
  by (simp_all add: table_entry_def dirty_flag_def)

lemma source_links [simp]:
  "backing (lru_touch p i) = backing p" "source (lru_touch p i) = source p"
  "backing (lru_remove p i) = backing p" "source (lru_remove p i) = source p"
  "backing (upd_frame j f p) = backing p" "source (upd_frame j f p) = source p"
  by (auto simp: fun_eq_iff backing_def source_def cong: option.case_cong)

lemma occupied_links [simp]:
  "length (frames p) = MAX_BUFFER_POOL_SIZE \<Longrightarrow> occupied (lru_touch p i) = occupied p"
  "length (frames p) = MAX_BUFFER_POOL_SIZE \<Longrightarrow> occupied (lru_remove p i) = occupied p"
  by (auto simp: occupied_def)

lemma core_table_entry:
  assumes "pager_core p" and "table_entry p n \<noteq> -1"
  shows "nat (table_entry p n) < MAX_BUFFER_POOL_SIZE" and "n < page_capacity p"
    and "f_page_num (frames p ! nat (table_entry p n)) = n"
    and "int (nat (table_entry p n)) = table_entry p n"
  using assms
  by (auto simp: pager_core_def pager_table_def table_entry_def pager_arrays_def split: if_splits)

lemma view_links [simp]:
  "pager_core p \<Longrightarrow> view (lru_touch p i) = view p" "pager_core p \<Longrightarrow> view (lru_remove p i) = view p"
  using core_table_entry(1) by (auto simp: fun_eq_iff view_def)

lemma coherent_links [simp]:
  "length (frames p) = MAX_BUFFER_POOL_SIZE \<Longrightarrow> coherent_to B (lru_touch p i) = coherent_to B p"
  "length (frames p) = MAX_BUFFER_POOL_SIZE \<Longrightarrow> coherent_to B (lru_remove p i) = coherent_to B p"
  "length (frames p) = MAX_BUFFER_POOL_SIZE \<Longrightarrow> coherent (lru_touch p i) = coherent p"
  "length (frames p) = MAX_BUFFER_POOL_SIZE \<Longrightarrow> coherent (lru_remove p i) = coherent p"
  by (auto simp: coherent_def coherent_to_def)

lemma coherent_to_view: "pager_ok p \<Longrightarrow> coherent_to (view p) p"
  by (simp add: coherent_to_def view_def frame_cached(1))

lemma lru_touch_lru:
  assumes "lru_list p q" and "length (frames p) = MAX_BUFFER_POOL_SIZE"
    and "i < MAX_BUFFER_POOL_SIZE" and "insert i (set q) = occupied p"
  shows "pager_lru (lru_touch p (int i))"
proof -
  have "lru_list (lru_touch p (int i)) (i # remove1 i q)"
    using assms(1) by (rule lru_list_touch) (use assms in simp)
  moreover have "set (i # remove1 i q) = occupied (lru_touch p (int i))"
    using assms by (auto simp: lru_list_def)
  ultimately show ?thesis unfolding pager_lru_def by blast
qed

lemma lru_remove_lru:
  assumes "lru_list p q" and "length (frames p) = MAX_BUFFER_POOL_SIZE"
    and "i < MAX_BUFFER_POOL_SIZE" and "set q - {i} = occupied p"
  shows "pager_lru (lru_remove p (int i))"
proof -
  have "lru_list (lru_remove p (int i)) (remove1 i q)"
    using assms(1) by (rule lru_list_remove) (use assms in simp)
  moreover have "set (remove1 i q) = occupied (lru_remove p (int i))"
    using assms by (auto simp: lru_list_def)
  ultimately show ?thesis unfolding pager_lru_def by blast
qed

lemma lru_list_frames_cong:
  assumes "lru_list p q" and "length (frames p') = length (frames p)"
    and "lru_head p' = lru_head p" and "lru_tail p' = lru_tail p"
    and "\<And>i. i < length (frames p) \<Longrightarrow> f_lru_prev (frames p' ! i) = f_lru_prev (frames p ! i) \<and>
      f_lru_next (frames p' ! i) = f_lru_next (frames p ! i)"
  shows "lru_list p' q"
  using assms by (auto simp: lru_list_def)

text \<open>Emptying a frame: what \<open>lru_evict\<close> and \<open>drop_frame\<close> have in common.\<close>

definition empty_frame :: "frame \<Rightarrow> frame" where
  "empty_frame f = f\<lparr>f_page_num := INVALID_PAGE_NUM, f_is_dirty := False, f_pin_count := 0\<rparr>"

lemma empty_frame_sel [simp]:
  "f_page_num (empty_frame f) = INVALID_PAGE_NUM" "f_is_dirty (empty_frame f) = False"
  "f_pin_count (empty_frame f) = 0" "f_data (empty_frame f) = f_data f"
  "f_lru_prev (empty_frame f) = f_lru_prev f" "f_lru_next (empty_frame f) = f_lru_next f"
  by (simp_all add: empty_frame_def)

text \<open>
  The state after a cached page \<open>n\<close> in frame \<open>v\<close> has left the pool, described by its fields: the
  table entry is gone, the frame is empty, no other page is touched.
\<close>

definition dropped :: "pager \<Rightarrow> nat \<Rightarrow> nat \<Rightarrow> pager \<Rightarrow> bool" where
  "dropped p v n p' \<longleftrightarrow>
     length (frames p') = length (frames p) \<and>
     (\<forall>j<MAX_BUFFER_POOL_SIZE. f_data (frames p' ! j) = f_data (frames p ! j) \<and>
        f_page_num (frames p' ! j) = (if j = v then INVALID_PAGE_NUM else f_page_num (frames p ! j)) \<and>
        (j \<noteq> v \<longrightarrow> f_is_dirty (frames p' ! j) = f_is_dirty (frames p ! j) \<and>
           f_pin_count (frames p' ! j) = f_pin_count (frames p ! j))) \<and>
     pager_lru p' \<and> page_table p' = (page_table p)[n := -1] \<and>
     page_capacity p' = page_capacity p \<and> disk p' = disk p \<and> file_length p' = file_length p \<and>
     num_pages p' = num_pages p \<and> in_transaction p' = in_transaction p \<and>
     transaction_num_pages p' = transaction_num_pages p"

lemma frame_inj:
  assumes "pager_ok p" and "i < MAX_BUFFER_POOL_SIZE" "j < MAX_BUFFER_POOL_SIZE"
    and "f_page_num (frames p ! i) = n" "f_page_num (frames p ! j) = n" "n \<noteq> INVALID_PAGE_NUM"
  shows "i = j"
proof -
  have "table_entry p n = int i" using frame_cached(1) [OF assms(1,2)] assms(4,6) by simp
  moreover have "table_entry p n = int j" using frame_cached(1) [OF assms(1,3)] assms(5,6) by simp
  ultimately show ?thesis by simp
qed

lemma pager_framesD:
  assumes "pager_ok p" and "i < MAX_BUFFER_POOL_SIZE"
  shows "length (frames p) = MAX_BUFFER_POOL_SIZE" "length (f_data (frames p ! i)) = PAGE_SIZE"
    and "f_page_num (frames p ! i) \<noteq> INVALID_PAGE_NUM \<Longrightarrow> f_page_num (frames p ! i) < num_pages p"
    and "f_page_num (frames p ! i) \<noteq> INVALID_PAGE_NUM \<Longrightarrow>
      page_table p ! f_page_num (frames p ! i) = int i"
    and "f_page_num (frames p ! i) \<noteq> INVALID_PAGE_NUM \<Longrightarrow>
      f_is_dirty (frames p ! i) = is_dirty p ! f_page_num (frames p ! i)"
  using assms by (simp_all add: pager_ok_def pager_frames_def)

lemma pager_arraysD:
  assumes "pager_ok p"
  shows "length (page_table p) = page_capacity p" "length (is_dirty p) = page_capacity p"
    and "length (dirty_page_spills p) = page_capacity p"
    and "length (committed_pages p) = page_capacity p"
    and "page_capacity p \<le> UINT32_MAX" "num_pages p \<le> page_capacity p"
  using assms by (simp_all add: pager_ok_def pager_arrays_def)

lemma droppedD:
  assumes "dropped p v n p'"
  shows "length (frames p') = length (frames p)"
    and "\<And>j. j < MAX_BUFFER_POOL_SIZE \<Longrightarrow> f_data (frames p' ! j) = f_data (frames p ! j)"
    and "\<And>j. j < MAX_BUFFER_POOL_SIZE \<Longrightarrow>
      f_page_num (frames p' ! j) = (if j = v then INVALID_PAGE_NUM else f_page_num (frames p ! j))"
    and "\<And>j. j < MAX_BUFFER_POOL_SIZE \<Longrightarrow> j \<noteq> v \<Longrightarrow>
      f_is_dirty (frames p' ! j) = f_is_dirty (frames p ! j)"
    and "\<And>j. j < MAX_BUFFER_POOL_SIZE \<Longrightarrow> j \<noteq> v \<Longrightarrow>
      f_pin_count (frames p' ! j) = f_pin_count (frames p ! j)"
    and "pager_lru p'" and "page_table p' = (page_table p)[n := -1]"
    and "page_capacity p' = page_capacity p" and "disk p' = disk p"
    and "file_length p' = file_length p" and "num_pages p' = num_pages p"
    and "in_transaction p' = in_transaction p"
    and "transaction_num_pages p' = transaction_num_pages p"
proof -
  note all = assms [unfolded dropped_def]
  then have fr: "\<forall>j<MAX_BUFFER_POOL_SIZE. f_data (frames p' ! j) = f_data (frames p ! j) \<and>
        f_page_num (frames p' ! j) = (if j = v then INVALID_PAGE_NUM else f_page_num (frames p ! j)) \<and>
        (j \<noteq> v \<longrightarrow> f_is_dirty (frames p' ! j) = f_is_dirty (frames p ! j) \<and>
           f_pin_count (frames p' ! j) = f_pin_count (frames p ! j))" by blast
  fix j assume j: "j < MAX_BUFFER_POOL_SIZE"
  show "f_data (frames p' ! j) = f_data (frames p ! j)"
    "f_page_num (frames p' ! j) = (if j = v then INVALID_PAGE_NUM else f_page_num (frames p ! j))"
    using fr j by blast+
  assume "j \<noteq> v"
  then show "f_is_dirty (frames p' ! j) = f_is_dirty (frames p ! j)"
    "f_pin_count (frames p' ! j) = f_pin_count (frames p ! j)" using fr j by blast+
qed (use assms [unfolded dropped_def] in blast)+

lemma dropped_core:
  assumes p: "pager_ok p" and v: "v < MAX_BUFFER_POOL_SIZE" "f_page_num (frames p ! v) = n" "n \<noteq> INVALID_PAGE_NUM"
    and d: "dropped p v n p'"
    and len: "length (is_dirty p') = page_capacity p" "length (dirty_page_spills p') = page_capacity p"
      "length (committed_pages p') = page_capacity p"
    and dirty: "\<And>m. m \<noteq> n \<Longrightarrow> is_dirty p' ! m = is_dirty p ! m"
    and shadows: "pager_shadows p'"
  shows "pager_ok p'"
proof (rule pager_okI)
  have nc: "n < page_capacity p" "page_table p ! n = int v"
    using frame_cached(2) [OF p v(1)] pager_framesD(4) [OF p v(1)] v by simp_all
  have uniq: "j = v" if "j < MAX_BUFFER_POOL_SIZE" "f_page_num (frames p ! j) = n" for j
    using frame_inj [OF p that(1) v(1) that(2) v(2,3)] .
  show "pager_arrays p'" using p len droppedD(7-13) [OF d] by (simp add: pager_ok_def pager_arrays_def)
  show "pager_frames p'"
  proof (unfold pager_frames_def, intro conjI allI impI)
    show "length (frames p') = MAX_BUFFER_POOL_SIZE"
      using pager_framesD(1) [OF p v(1)] droppedD(1) [OF d] by simp
  next
    fix j assume j: "j < MAX_BUFFER_POOL_SIZE"
    have fj: "length (f_data (frames p ! j)) = PAGE_SIZE" by (rule pager_framesD(2) [OF p j])
    then show "length (f_data (frames p' ! j)) = PAGE_SIZE"
      using droppedD(2) [OF d j] by simp
    assume inv: "f_page_num (frames p' ! j) \<noteq> INVALID_PAGE_NUM"
    have jd: "f_page_num (frames p' ! j) = (if j = v then INVALID_PAGE_NUM else f_page_num (frames p ! j))"
      "j \<noteq> v \<Longrightarrow> f_is_dirty (frames p' ! j) = f_is_dirty (frames p ! j)"
      using droppedD(3,4) [OF d j] by blast+
    with inv have jv: "j \<noteq> v" "f_page_num (frames p' ! j) = f_page_num (frames p ! j)"
      "f_is_dirty (frames p' ! j) = f_is_dirty (frames p ! j)" by (auto split: if_splits)
    with uniq j have ne: "f_page_num (frames p ! j) \<noteq> n" by blast
    have old: "f_page_num (frames p ! j) < num_pages p"
      "page_table p ! f_page_num (frames p ! j) = int j"
      "f_is_dirty (frames p ! j) = is_dirty p ! f_page_num (frames p ! j)"
      using pager_framesD(3-5) [OF p j] jv inv by simp_all
    show "f_page_num (frames p' ! j) < num_pages p'"
      using old jv droppedD(11) [OF d] by simp
    show "page_table p' ! f_page_num (frames p' ! j) = int j"
      using old jv ne droppedD(7) [OF d] by simp
    show "f_is_dirty (frames p' ! j) = is_dirty p' ! f_page_num (frames p' ! j)"
      using old jv ne dirty by simp
  qed
  show "pager_table p'"
  proof (unfold pager_table_def, intro allI impI)
    fix m assume m: "m < page_capacity p'"
    show "page_table p' ! m = -1 \<or>
        (\<exists>i<MAX_BUFFER_POOL_SIZE. page_table p' ! m = int i \<and> f_page_num (frames p' ! i) = m)"
    proof (cases "m = n")
      case True
      then show ?thesis using droppedD(7) [OF d] nc p by (simp add: pager_ok_def pager_arrays_def)
    next
      case False
      with m d have t: "page_table p' ! m = page_table p ! m" "m < page_capacity p"
        using droppedD(7,8) [OF d] by auto
      from p t(2) have "page_table p ! m = -1 \<or>
          (\<exists>i<MAX_BUFFER_POOL_SIZE. page_table p ! m = int i \<and> f_page_num (frames p ! i) = m)"
        by (simp add: pager_ok_def pager_table_def)
      then show ?thesis
      proof
        assume "\<exists>i<MAX_BUFFER_POOL_SIZE. page_table p ! m = int i \<and> f_page_num (frames p ! i) = m"
        then obtain i where i: "i < MAX_BUFFER_POOL_SIZE" "page_table p ! m = int i"
          "f_page_num (frames p ! i) = m" by blast
        with False v(2) have "i \<noteq> v" by blast
        with i t(1) droppedD(3) [OF d i(1)] show ?thesis by auto
      qed (use t in simp)
    qed
  qed
qed (rule droppedD(6) [OF d], rule shadows)


lemma dropped_table_entry:
  assumes "pager_ok p" and "dropped p v n p'"
  shows "table_entry p' m = (if m = n then -1 else table_entry p m)"
  using pager_arraysD(1) [OF assms(1)] droppedD(7) [OF assms(2)]
  by (auto simp: table_entry_def nth_list_update)

section \<open>Eviction loses nothing\<close>

text \<open>What no fetch changes: files, transaction state, allocator, savepoints, dirty flags,
  committed shadows and pin bookkeeping.\<close>

definition fetch_stable :: "pager \<Rightarrow> pager \<Rightarrow> bool" where
  "fetch_stable p p' \<longleftrightarrow>
     disk p' = disk p \<and> file_length p' = file_length p \<and> in_transaction p' = in_transaction p \<and>
     transaction_file_length p' = transaction_file_length p \<and>
     transaction_num_pages p' = transaction_num_pages p \<and>
     free_pages p' = free_pages p \<and> transaction_free_pages p' = transaction_free_pages p \<and>
     savepoints p' = savepoints p \<and> dirty_flag p' = dirty_flag p \<and>
     lookup_slot (committed_pages p') = lookup_slot (committed_pages p) \<and>
     pin_barrier_active p' = pin_barrier_active p \<and> pin_admissions p' = pin_admissions p \<and>
     page_capacity p \<le> page_capacity p'"

lemma fetch_stable_refl [simp]: "fetch_stable p p"
  by (simp add: fetch_stable_def)

lemma fetch_stable_trans: "fetch_stable p q \<Longrightarrow> fetch_stable q r \<Longrightarrow> fetch_stable p r"
  by (simp add: fetch_stable_def)

lemma fetch_stable_backing: "fetch_stable p p' \<Longrightarrow> backing p' = backing p"
  by (rule ext, rule backing_cong) (simp_all add: fetch_stable_def)

lemma fetch_stable_reserve:
  assumes "page_capacity p \<le> UINT32_MAX" and "m \<le> UINT32_MAX"
  shows "fetch_stable p (pager_reserve_capacity p m)"
  using reserve_capacity_ge [OF assms(2,1)] by (simp add: fetch_stable_def fun_eq_iff)

lemma fetch_stable_lru_touch [simp]: "fetch_stable p (lru_touch p' i) = fetch_stable p p'"
  by (simp add: fetch_stable_def fun_eq_iff)

lemma lru_evict_queue_cases:
  assumes p: "pager_ok p" and e: "lru_evict p = Inr (idx, p')"
    and q: "lru_list p q" "set q = occupied p"
  obtains v n where "idx = int v" "v < MAX_BUFFER_POOL_SIZE" "f_page_num (frames p ! v) = n"
    "n \<noteq> INVALID_PAGE_NUM" "f_pin_count (frames p ! v) = 0" "dropped p v n p'"
    "is_dirty p' = is_dirty p" "committed_pages p' = committed_pages p" "fetch_stable p p'"
    "dirty_page_spills p' = (if f_is_dirty (frames p ! v)
       then (dirty_page_spills p)[n := Some (f_data (frames p ! v))] else dirty_page_spills p)"
    "f_is_dirty (frames p' ! v) = False" "f_pin_count (frames p' ! v) = 0"
    "v = last (filter (unpinned p) q)" "lru_list p' (remove1 v q)"
proof -
  have len: "length (frames p) = MAX_BUFFER_POOL_SIZE" using p by (simp add: pager_ok_core)
  define u where "u = filter (unpinned p) q"
  have scan: "victim_scan (Suc MAX_BUFFER_POOL_SIZE) p (lru_tail p) = (if u = [] then -1 else int (last u))"
    unfolding u_def using q(1) len by (rule victim_scan_queue)
  with e have u: "u \<noteq> []" by (auto simp: lru_evict_def Let_def split: if_splits)
  define v where "v = last u"
  have "v \<in> set u" using u by (simp add: v_def)
  then have occ: "v \<in> occupied p" and pin: "f_pin_count (frames p ! v) = 0"
    using q(2) by (auto simp: u_def unpinned_def)
  define n where "n = f_page_num (frames p ! v)"
  have v: "v < MAX_BUFFER_POOL_SIZE" "n \<noteq> INVALID_PAGE_NUM" using occ by (auto simp: occupied_def n_def)
  define spills where "spills = (if f_is_dirty (frames p ! v)
    then (dirty_page_spills p)[n := Some (f_data (frames p ! v))] else dirty_page_spills p)"
  define p1 where "p1 = (let pa = (if f_is_dirty (frames p ! v) then
        upd_frame v (\<lambda>f. f\<lparr>f_is_dirty := False\<rparr>) (p\<lparr>dirty_page_spills := spills\<rparr>) else p)
      in pa\<lparr>page_table := (page_table pa)[n := -1], evictions := inc32 (evictions pa)\<rparr>)"
  have res: "idx = int v" "p' = upd_frame v empty_frame (lru_remove p1 (int v))"
    using e scan u v
    by (auto simp: lru_evict_def Let_def v_def [symmetric] n_def [symmetric] p1_def spills_def
        store_page_copy_def empty_frame_def split: if_splits)
  have f1: "length (frames p1) = MAX_BUFFER_POOL_SIZE" "page_table p1 = (page_table p)[n := -1]"
    "dirty_page_spills p1 = spills" "is_dirty p1 = is_dirty p" "committed_pages p1 = committed_pages p"
    "free_pages p1 = free_pages p" "savepoints p1 = savepoints p"
    "transaction_free_pages p1 = transaction_free_pages p"
    "transaction_file_length p1 = transaction_file_length p"
    "pin_barrier_active p1 = pin_barrier_active p" "pin_admissions p1 = pin_admissions p"
    "page_capacity p1 = page_capacity p" "disk p1 = disk p" "file_length p1 = file_length p"
    "num_pages p1 = num_pages p" "in_transaction p1 = in_transaction p"
    "transaction_num_pages p1 = transaction_num_pages p" "lru_head p1 = lru_head p" "lru_tail p1 = lru_tail p"
    using len by (simp_all add: p1_def Let_def spills_def)
  have f2: "f_data (frames p1 ! j) = f_data (frames p ! j)"
    "f_page_num (frames p1 ! j) = f_page_num (frames p ! j)"
    "j \<noteq> v \<Longrightarrow> f_is_dirty (frames p1 ! j) = f_is_dirty (frames p ! j)"
    "f_pin_count (frames p1 ! j) = f_pin_count (frames p ! j)"
    "f_lru_prev (frames p1 ! j) = f_lru_prev (frames p ! j)"
    "f_lru_next (frames p1 ! j) = f_lru_next (frames p ! j)" if "j < MAX_BUFFER_POOL_SIZE" for j
    using that len v by (simp_all add: p1_def Let_def nth_list_update)
  have l1: "lru_list p1 q"
    using q(1) by (rule lru_list_frames_cong) (use len f1 f2 in auto)
  have l2: "lru_list (lru_remove p1 (int v)) (remove1 v q)"
    using l1 by (rule lru_list_remove) (use f1 v in simp)
  have q': "lru_list p' (remove1 v q)"
    using l2 by (rule lru_list_frames_cong) (use res f1 v in \<open>auto simp: nth_list_update\<close>)
  have "set (remove1 v q) = occupied p'"
    using q f1 f2(2) v res by (auto simp: lru_list_def occupied_def nth_list_update)
  with q' have lru: "pager_lru p'" unfolding pager_lru_def by blast
  have "dropped p v n p'"
    unfolding dropped_def using lru res f1 f2 len v by (simp add: nth_list_update)
  moreover have "fetch_stable p p'" using res f1 by (simp add: fetch_stable_def fun_eq_iff dirty_flag_def)
  ultimately show thesis
    using that [of v n] res v pin f1 len q' by (simp add: n_def spills_def v_def u_def)
qed

lemma lru_evict_cases:
  assumes p: "pager_ok p" and e: "lru_evict p = Inr (idx, p')"
  obtains v n where "idx = int v" "v < MAX_BUFFER_POOL_SIZE" "f_page_num (frames p ! v) = n"
    "n \<noteq> INVALID_PAGE_NUM" "f_pin_count (frames p ! v) = 0" "dropped p v n p'"
    "is_dirty p' = is_dirty p" "committed_pages p' = committed_pages p" "fetch_stable p p'"
    "dirty_page_spills p' = (if f_is_dirty (frames p ! v)
       then (dirty_page_spills p)[n := Some (f_data (frames p ! v))] else dirty_page_spills p)"
    "f_is_dirty (frames p' ! v) = False" "f_pin_count (frames p' ! v) = 0"
proof -
  obtain q where "lru_list p q" "set q = occupied p"
    using p by (auto simp: pager_ok_def pager_lru_def)
  from lru_evict_queue_cases [OF p e this] that show thesis by metis
qed

lemma lru_evict_spec:
  assumes p: "pager_ok p" and e: "lru_evict p = Inr (idx, p')"
  shows "pager_ok p'" and "coherent_to B p \<Longrightarrow> coherent_to B p'"
    and "coherent_to B p \<Longrightarrow> dirty_flag p m \<or> B m = backing p m \<Longrightarrow> view p' m = view p m"
    and "fetch_stable p p'"
proof -
  show stable: "fetch_stable p p'" using lru_evict_cases [OF p e] by metis
  then have bk: "backing p' = backing p" by (rule fetch_stable_backing)
  have flag: "dirty_flag p' = dirty_flag p" using stable by (simp add: fetch_stable_def)
  obtain v n where v: "v < MAX_BUFFER_POOL_SIZE" "f_page_num (frames p ! v) = n" "n \<noteq> INVALID_PAGE_NUM"
    and d: "dropped p v n p'"
    and eq: "is_dirty p' = is_dirty p" "committed_pages p' = committed_pages p"
    and sp: "dirty_page_spills p' = (if f_is_dirty (frames p ! v)
       then (dirty_page_spills p)[n := Some (f_data (frames p ! v))] else dirty_page_spills p)"
    using lru_evict_cases [OF p e] by metis
  note arr = pager_arraysD [OF p]
  have n: "n < page_capacity p" "table_entry p n = int v" "f_is_dirty (frames p ! v) = is_dirty p ! n"
    using frame_cached(1,2) [OF p v(1)] pager_framesD(5) [OF p v(1)] v by simp_all
  have shadow: "pager_shadows p'"
    using pager_okD(5) [OF p] droppedD(8-10) [OF d] eq sp n v pager_framesD(2) [OF p v(1)] arr
    by (auto simp: pager_shadows_def nth_list_update split: if_splits)
  show "pager_ok p'"
    by (rule dropped_core [OF p v d _ _ _ _ shadow]) (use arr eq sp in \<open>auto split: if_splits\<close>)
  assume co: "coherent_to B p"
  show "coherent_to B p'"
  proof (unfold coherent_to_def, intro allI impI)
    fix i assume i: "i < MAX_BUFFER_POOL_SIZE" "f_page_num (frames p' ! i) \<noteq> INVALID_PAGE_NUM"
      "\<not> f_is_dirty (frames p' ! i)"
    with droppedD(3) [OF d i(1)] have iv: "i \<noteq> v" "f_page_num (frames p' ! i) = f_page_num (frames p ! i)"
      by (auto split: if_splits)
    with droppedD(4) [OF d i(1)] droppedD(2) [OF d i(1)] i coherent_toD [OF co i(1)]
    show "f_data (frames p' ! i) = B (f_page_num (frames p' ! i))" by simp
  qed
  assume m: "dirty_flag p m \<or> B m = backing p m"
  show "view p' m = view p m"
    proof (cases "m = n")
      case True
      have "view p n = f_data (frames p ! v)" using n by (simp add: view_def)
      moreover have "view p' n = f_data (frames p ! v)"
      proof (cases "is_dirty p ! n")
        case True
        then show ?thesis
          using n arr sp eq dropped_table_entry [OF p d, of n]
          by (simp add: view_def source_def dirty_flag_def lookup_slot_def)
      next
        case False
        then have "f_data (frames p ! v) = backing p n"
          using coherent_toD [OF co v(1)] v n m \<open>m = n\<close> arr by (simp add: dirty_flag_def)
        with False show ?thesis
          using dropped_table_entry [OF p d, of n] eq by (simp add: view_def source_def dirty_flag_def bk)
      qed
      ultimately show ?thesis using True by simp
    next
      case False
      have te: "table_entry p' m = table_entry p m" using dropped_table_entry [OF p d] False by simp
      show ?thesis
      proof (cases "table_entry p m = -1")
        case True
        have "lookup_slot (dirty_page_spills p') m = lookup_slot (dirty_page_spills p) m"
          using sp False by (simp add: lookup_slot_def)
        with True te show ?thesis by (auto simp: view_def source_def bk flag)
      next
        case cached: False
        with p obtain i where "i < MAX_BUFFER_POOL_SIZE" "table_entry p m = int i" by (rule cached_frame)
        with cached te show ?thesis using droppedD(2) [OF d] by (simp add: view_def)
      qed
    qed
qed


section \<open>Loading a page into an empty frame\<close>

lemma install_page_spec:
  assumes p: "pager_ok p" and i: "i < MAX_BUFFER_POOL_SIZE" "f_page_num (frames p ! i) = INVALID_PAGE_NUM"
    and n: "n < page_capacity p" "table_entry p n = -1" and img: "img = source p n"
  defines "p' \<equiv> install_page p (int i) n img"
  shows "pager_ok p'" and "coherent_to B p \<Longrightarrow> dirty_flag p n \<or> B n = backing p n \<Longrightarrow> coherent_to B p'"
    and "view p' = view p" and "f_page_num (frames p' ! i) = n" and "f_data (frames p' ! i) = img"
    and "table_entry p' n = int i" and "fetch_stable p p'"
    and "num_pages p' = max (num_pages p) (n + 1)"
proof -
  note arr = pager_arraysD [OF p]
  have len: "length (frames p) = MAX_BUFFER_POOL_SIZE" by (rule pager_framesD(1) [OF p i(1)])
  have ninv: "n \<noteq> INVALID_PAGE_NUM" using n arr by (simp add: INVALID_PAGE_NUM_def UINT32_MAX_def)
  define p1 where "p1 = (upd_frame i (\<lambda>f. f\<lparr>f_data := img, f_page_num := n,
      f_is_dirty := is_dirty p ! n, f_pin_count := 0\<rparr>) p)
      \<lparr>num_pages := max (num_pages p) (n + 1), page_table := (page_table p)[n := int i]\<rparr>"
  have p': "p' = lru_touch p1 (int i)"
    unfolding p'_def install_page_def p1_def Let_def
    by (rule arg_cong2 [where f = lru_touch], rule pager.equality) (use len i in \<open>auto simp: max_def\<close>)
  have len1: "length (frames p1) = MAX_BUFFER_POOL_SIZE" using len by (simp add: p1_def)
  have fj: "j \<noteq> i \<Longrightarrow> frames p1 ! j = frames p ! j" for j by (simp add: p1_def)
  have fi: "f_data (frames p1 ! i) = img" "f_page_num (frames p1 ! i) = n"
    "f_is_dirty (frames p1 ! i) = is_dirty p ! n" using i len by (simp_all add: p1_def)
  have fields: "is_dirty p1 = is_dirty p" "dirty_page_spills p1 = dirty_page_spills p"
    "committed_pages p1 = committed_pages p" "page_capacity p1 = page_capacity p" "disk p1 = disk p"
    "file_length p1 = file_length p" "in_transaction p1 = in_transaction p"
    "transaction_num_pages p1 = transaction_num_pages p"
    "page_table p1 = (page_table p)[n := int i]" "num_pages p1 = max (num_pages p) (n + 1)"
    "lru_head p1 = lru_head p" "lru_tail p1 = lru_tail p"
    by (simp_all add: p1_def)
  have ne: "f_page_num (frames p ! j) \<noteq> n" if "j < MAX_BUFFER_POOL_SIZE" for j
    using frame_cached(1) [OF p that] n(2) ninv by auto
  have bk: "backing p1 m = backing p m" for m by (rule backing_cong) (simp_all add: fields)
  have src: "source p1 m = source p m" for m by (auto simp: source_def bk dirty_flag_def fields)
  have limg: "length img = PAGE_SIZE" using img length_source [OF p] by simp
  have core: "pager_core p1"
  proof (unfold pager_core_def, intro conjI)
    show "pager_arrays p1" using pager_okD(1) [OF p] n by (simp add: pager_arrays_def fields)
    show "pager_shadows p1" using pager_okD(5) [OF p] unfolding pager_shadows_def fields by blast
    show "pager_frames p1"
    proof (unfold pager_frames_def, intro conjI allI impI)
      fix j assume j: "j < MAX_BUFFER_POOL_SIZE"
      show "length (f_data (frames p1 ! j)) = PAGE_SIZE"
        using pager_framesD(2) [OF p j] fj fi limg by (cases "j = i") auto
      assume "f_page_num (frames p1 ! j) \<noteq> INVALID_PAGE_NUM"
      then show "f_page_num (frames p1 ! j) < num_pages p1"
        "page_table p1 ! f_page_num (frames p1 ! j) = int j"
        "f_is_dirty (frames p1 ! j) = is_dirty p1 ! f_page_num (frames p1 ! j)"
        using pager_framesD(3-5) [OF p j] ne [OF j] fj fi fields n arr by (cases "j = i"; simp)+
    qed (rule len1)
    show "pager_table p1"
    proof (unfold pager_table_def, intro allI impI)
      fix m assume m: "m < page_capacity p1"
      show "page_table p1 ! m = -1 \<or>
          (\<exists>j<MAX_BUFFER_POOL_SIZE. page_table p1 ! m = int j \<and> f_page_num (frames p1 ! j) = m)"
      proof (cases "m = n")
        case True
        then show ?thesis using i fi fields n arr by auto
      next
        case False
        then have t: "page_table p1 ! m = page_table p ! m" using fields by simp
        show ?thesis
        proof (cases "page_table p ! m = -1")
          case nz: False
          then have te: "table_entry p m \<noteq> -1" using m fields arr by (simp add: table_entry_def)
          with p obtain j where j: "j < MAX_BUFFER_POOL_SIZE" "table_entry p m = int j"
            "f_page_num (frames p ! j) = m" "m \<noteq> INVALID_PAGE_NUM" by (rule cached_frame)
          then have "j \<noteq> i" using i by auto
          moreover have "page_table p ! m = int j" using j(2) te by (auto simp: table_entry_def split: if_splits)
          ultimately show ?thesis using j t fj by auto
        qed (simp add: t)
      qed
    qed
  qed
  obtain q where q: "lru_list p q" "set q = occupied p" using p by (auto simp: pager_ok_def pager_lru_def)
  have "lru_list p1 q"
    using q(1) by (rule lru_list_frames_cong) (use len i(1) fields in \<open>auto simp: p1_def nth_list_update\<close>)
  moreover have "insert i (set q) = occupied p1"
    using q(2) i fi fj ninv by (auto simp: occupied_def) metis+
  ultimately have "pager_lru p'" unfolding p' using len1 i(1) by (intro lru_touch_lru)
  with core len1 show "pager_ok p'" by (simp add: pager_ok_core p')
  show "f_page_num (frames p' ! i) = n" "f_data (frames p' ! i) = img"
    using fi i len1 by (simp_all add: p')
  show "fetch_stable p p'" unfolding p' by (simp add: fetch_stable_def p1_def fun_eq_iff dirty_flag_def)
  show "num_pages p' = max (num_pages p) (n + 1)" by (simp add: p' fields)
  show te: "table_entry p' n = int i" using n arr by (simp add: p' table_entry_def fields)
  show "coherent_to B p'" if co: "coherent_to B p" and nb: "dirty_flag p n \<or> B n = backing p n"
  proof -
    have "coherent_to B p1"
    proof (unfold coherent_to_def, intro allI impI)
      fix j assume j: "j < MAX_BUFFER_POOL_SIZE" "f_page_num (frames p1 ! j) \<noteq> INVALID_PAGE_NUM"
        "\<not> f_is_dirty (frames p1 ! j)"
      show "f_data (frames p1 ! j) = B (f_page_num (frames p1 ! j))"
      proof (cases "j = i")
        case True
        then have "\<not> dirty_flag p n" using j fi by (simp add: dirty_flag_def)
        with True nb show ?thesis using fi img by (simp add: source_def)
      next
        case False
        then show ?thesis using coherent_toD [OF co j(1)] j fj by simp
      qed
    qed
    then show ?thesis using len1 by (simp add: p')
  qed
  show "view p' = view p"
  proof
    fix m
    have "view p' m = view p1 m" using core by (simp add: p')
    also have "\<dots> = view p m"
    proof (cases "m = n")
      case True
      have "table_entry p1 n = int i" using te by (simp add: p')
      with True show ?thesis using fi n img by (simp add: view_def)
    next
      case False
      then have t: "table_entry p1 m = table_entry p m" by (simp add: table_entry_def fields)
      show ?thesis
      proof (cases "table_entry p m = -1")
        case nz: False
        with p obtain j where "j < MAX_BUFFER_POOL_SIZE" "table_entry p m = int j"
          "f_page_num (frames p ! j) = m" "m \<noteq> INVALID_PAGE_NUM" by (rule cached_frame)
        with t i fj show ?thesis by (cases "j = i") (auto simp: view_def)
      qed (simp add: t view_def src)
    qed
    finally show "view p' m = view p m" .
  qed
qed


text \<open>A page of the file whose image fails its checksum cannot be loaded, unless a committed shadow
  stands before it.\<close>

definition readable :: "pager \<Rightarrow> nat \<Rightarrow> bool" where
  "readable p n \<longleftrightarrow>
     (lookup_slot (committed_pages p) n = None \<longrightarrow> n < file_length p div PAGE_SIZE \<longrightarrow>
      page_checksum_ok (file_page (d_main (disk p)) n))"

lemma readable_stable: "fetch_stable p p' \<Longrightarrow> readable p' n = readable p n"
  by (simp add: readable_def fetch_stable_def)

lemma load_image_source:
  assumes p: "pager_ok p" and n: "n < page_capacity p"
  shows "load_image p n = Inr img \<Longrightarrow> img = source p n"
    and "load_image p n = Inl e \<Longrightarrow> e = Exit_Checksum_Mismatch n \<and> \<not> readable p n"
proof -
  note arr = pager_arraysD [OF p]
  have lk: "dirty_flag p n = is_dirty p ! n"
    "lookup_slot (dirty_page_spills p) n = dirty_page_spills p ! n"
    "lookup_slot (committed_pages p) n = committed_pages p ! n"
    using n arr by (simp_all add: dirty_flag_def lookup_slot_def)
  have len: "length (source p n) = PAGE_SIZE" using p by (rule length_source)
  show "load_image p n = Inr img \<Longrightarrow> img = source p n"
    using lk by (auto simp: load_image_def source_def backing_def Let_def split: if_splits)
  have "length (file_page (d_main (disk p)) n) = PAGE_SIZE" if "n < file_length p div PAGE_SIZE"
    "lookup_slot (committed_pages p) n = None"
    using length_backing [OF p, of n] that by (simp add: backing_def)
  then show "load_image p n = Inl e \<Longrightarrow> e = Exit_Checksum_Mismatch n \<and> \<not> readable p n"
    using lk by (auto simp: load_image_def readable_def Let_def page_verify_checksum_def split: if_splits)
qed

section \<open>The contract of \<open>get_page\<close>\<close>

lemma free_frame_Some:
  "free_frame p = Some i \<Longrightarrow> i < MAX_BUFFER_POOL_SIZE \<and> f_page_num (frames p ! i) = INVALID_PAGE_NUM"
  by (auto simp: free_frame_def find_Some_iff)

lemma choose_frame_source:
  assumes p: "pager_ok p" and c: "choose_frame p = Inr (idx, p')" and n: "table_entry p n = -1"
  shows "source p' n = source p n"
proof (cases "free_frame p")
  case None
  then have e: "lru_evict p = Inr (idx, p')" using c by (simp add: choose_frame_def)
  obtain v m where v: "v < MAX_BUFFER_POOL_SIZE" "f_page_num (frames p ! v) = m" "m \<noteq> INVALID_PAGE_NUM"
    and st: "fetch_stable p p'"
    and sp: "dirty_page_spills p' = (if f_is_dirty (frames p ! v)
       then (dirty_page_spills p)[m := Some (f_data (frames p ! v))] else dirty_page_spills p)"
    using lru_evict_cases [OF p e] by metis
  have "table_entry p m = int v" using frame_cached(1) [OF p v(1)] v by simp
  with n have "m \<noteq> n" by auto
  then have "lookup_slot (dirty_page_spills p') n = lookup_slot (dirty_page_spills p) n"
    using sp by (simp add: lookup_slot_def)
  with st fetch_stable_backing [OF st] show ?thesis by (auto simp: source_def fetch_stable_def)
qed (use c in \<open>simp add: choose_frame_def\<close>)

lemma choose_frame_spec:
  assumes p: "pager_ok p" and c: "choose_frame p = Inr (idx, p')"
  obtains i where "idx = int i" "i < MAX_BUFFER_POOL_SIZE"
    "f_page_num (frames p' ! i) = INVALID_PAGE_NUM" "pager_ok p'" "fetch_stable p p'"
    "\<And>B. coherent_to B p \<Longrightarrow> coherent_to B p'"
    "\<And>B m. coherent_to B p \<Longrightarrow> dirty_flag p m \<or> B m = backing p m \<Longrightarrow> view p' m = view p m"
    "num_pages p' = num_pages p"
    "page_capacity p' = page_capacity p" "\<And>n. table_entry p n = -1 \<Longrightarrow> table_entry p' n = -1"
proof (cases "free_frame p")
  case None
  then have e: "lru_evict p = Inr (idx, p')" using c by (simp add: choose_frame_def)
  obtain v n where v: "idx = int v" "v < MAX_BUFFER_POOL_SIZE" "f_page_num (frames p ! v) = n"
    "n \<noteq> INVALID_PAGE_NUM" and d: "dropped p v n p'"
    using lru_evict_cases [OF p e] by metis
  show thesis
    using that [of v] v d lru_evict_spec(1,4) [OF p e] lru_evict_spec(2,3) [OF p e]
      droppedD(3) [OF d v(2)] droppedD(8,11) [OF d] dropped_table_entry [OF p d] by simp
next
  case (Some i)
  then have "idx = int i" "p' = p" using c by (simp_all add: choose_frame_def)
  with that [of i] free_frame_Some [OF Some] p show thesis by simp
qed

lemma pager_ok_counters [simp]:
  "pager_ok (p\<lparr>cache_hits := h\<rparr>) = pager_ok p" "pager_ok (p\<lparr>cache_misses := h\<rparr>) = pager_ok p"
  by (simp_all add: pager_ok_def pager_arrays_def pager_frames_def pager_table_def pager_lru_def
      pager_shadows_def occupied_def lru_list_def)

lemma counters_views [simp]:
  "view (p\<lparr>cache_hits := h\<rparr>) = view p" "view (p\<lparr>cache_misses := h\<rparr>) = view p"
  "source (p\<lparr>cache_hits := h\<rparr>) = source p" "source (p\<lparr>cache_misses := h\<rparr>) = source p"
  "backing (p\<lparr>cache_hits := h\<rparr>) = backing p" "backing (p\<lparr>cache_misses := h\<rparr>) = backing p"
  "dirty_flag (p\<lparr>cache_hits := h\<rparr>) = dirty_flag p" "dirty_flag (p\<lparr>cache_misses := h\<rparr>) = dirty_flag p"
  "coherent_to B (p\<lparr>cache_hits := h\<rparr>) = coherent_to B p" "coherent_to B (p\<lparr>cache_misses := h\<rparr>) = coherent_to B p"
  "coherent (p\<lparr>cache_hits := h\<rparr>) = coherent p" "coherent (p\<lparr>cache_misses := h\<rparr>) = coherent p"
  "table_entry (p\<lparr>cache_hits := h\<rparr>) = table_entry p" "table_entry (p\<lparr>cache_misses := h\<rparr>) = table_entry p"
  "fetch_stable q (p\<lparr>cache_hits := h\<rparr>) = fetch_stable q p"
  "fetch_stable q (p\<lparr>cache_misses := h\<rparr>) = fetch_stable q p"
  by (auto simp: fun_eq_iff view_def source_def backing_def coherent_def coherent_to_def table_entry_def
      dirty_flag_def fetch_stable_def cong: option.case_cong)

lemma get_page_frames:
  assumes p0: "pager_ok p0" and n: "n \<le> UINT32_MAX" and g: "get_page p0 n = Inr (i, p')"
  shows "pager_ok p'" "fetch_stable p0 p'" "n < page_capacity p'" "n \<noteq> INVALID_PAGE_NUM"
    and "i < MAX_BUFFER_POOL_SIZE" "f_page_num (frames p' ! i) = n" "table_entry p' n = int i"
    and "num_pages p' = max (num_pages p0) (n + 1)" "f_data (frames p' ! i) = view p0 n"
    and "coherent_to B p0 \<Longrightarrow> dirty_flag p0 n \<or> table_entry p0 n \<noteq> -1 \<or> B n = backing p0 n \<Longrightarrow> coherent_to B p'"
    and "coherent_to B p0 \<Longrightarrow> dirty_flag p0 m \<or> B m = backing p0 m \<Longrightarrow> view p' m = view p0 m"
proof -
  have ninv: "n \<noteq> INVALID_PAGE_NUM" using g by (auto simp: get_page_def split: if_splits)
  then have n1: "n + 1 \<le> UINT32_MAX" using n by (simp add: INVALID_PAGE_NUM_def UINT32_MAX_def)
  define p where "p = pager_reserve_capacity p0 (n + 1)"
  have p: "pager_ok p" unfolding p_def using p0 n1 by (rule reserve_ok)
  have st0: "fetch_stable p0 p"
    unfolding p_def by (rule fetch_stable_reserve [OF pager_arraysD(5) [OF p0] n1])
  have cap: "n < page_capacity p"
    using reserve_capacity_ge [OF n1 pager_arraysD(5) [OF p0]] by (simp add: p_def)
  have te: "table_entry p n = page_table p ! n" using cap pager_arraysD(1) [OF p] by (simp add: table_entry_def)
  have same: "view p = view p0" "coherent_to B p = coherent_to B p0" "num_pages p = num_pages p0"
    "dirty_flag p = dirty_flag p0" "backing p = backing p0" "table_entry p = table_entry p0"
    by (simp_all add: p_def fun_eq_iff)
  have g': "(if page_table p ! n \<noteq> -1 then
      Inr (nat (page_table p ! n), lru_touch (p\<lparr>cache_hits := inc32 (cache_hits p)\<rparr>) (page_table p ! n))
    else and_then (choose_frame (p\<lparr>cache_misses := inc32 (cache_misses p)\<rparr>))
      (\<lambda>(idx, p2). and_then (load_image p2 n) (\<lambda>img. Inr (nat idx, install_page p2 idx n img)))) = Inr (i, p')"
    using g ninv unfolding get_page_def Let_def p_def by simp
  have "pager_ok p' \<and> fetch_stable p p' \<and> i < MAX_BUFFER_POOL_SIZE \<and> f_page_num (frames p' ! i) = n \<and>
    table_entry p' n = int i \<and> num_pages p' = max (num_pages p) (n + 1) \<and> f_data (frames p' ! i) = view p n \<and>
    (coherent_to B p \<longrightarrow> dirty_flag p n \<or> table_entry p n \<noteq> -1 \<or> B n = backing p n \<longrightarrow> coherent_to B p') \<and>
    (coherent_to B p \<longrightarrow> dirty_flag p m \<or> B m = backing p m \<longrightarrow> view p' m = view p m)"
  proof (cases "page_table p ! n = -1")
    case False
    then have hit: "i = nat (page_table p ! n)"
      "p' = lru_touch (p\<lparr>cache_hits := inc32 (cache_hits p)\<rparr>) (page_table p ! n)"
      using g' by simp_all
    from False te have "table_entry p n \<noteq> -1" by simp
    with p obtain j where j: "j < MAX_BUFFER_POOL_SIZE" "table_entry p n = int j"
      "f_page_num (frames p ! j) = n" by (rule cached_frame)
    with te hit have ij: "i = j" "p' = lru_touch (p\<lparr>cache_hits := inc32 (cache_hits p)\<rparr>) (int j)" by simp_all
    have occ: "j \<in> occupied p" using j ninv by (simp add: occupied_def)
    let ?p = "p\<lparr>cache_hits := inc32 (cache_hits p)\<rparr>"
    have okp: "pager_ok ?p" using p by simp
    then have core: "pager_core ?p" by (simp add: pager_ok_core)
    obtain q where q: "lru_list ?p q" "set q = occupied ?p" using okp by (auto simp: pager_ok_def pager_lru_def)
    have lru: "pager_lru p'" unfolding ij
      using q(1) core_length [OF core] j(1)
      by (rule lru_touch_lru) (use q(2) occ in \<open>auto simp: occupied_def\<close>)
    have ok: "pager_ok p'" using lru core core_length [OF core] by (simp add: pager_ok_core ij)
    have "n < num_pages p" using frame_cached(3) [OF p j(1)] j(3) ninv by simp
    then have np: "num_pages p' = max (num_pages p) (n + 1)" by (simp add: ij)
    have lenj: "j < length (frames p)" using j(1) core_length [of p] p by (simp add: pager_ok_core)
    have rest: "coherent_to B p' = coherent_to B p" "view p' = view p"
      using core core_length [OF core] by (simp_all add: ij)
    have data: "f_data (frames p' ! i) = view p n" "f_page_num (frames p' ! i) = n"
      using lenj j by (simp_all add: ij view_def)
    from ok np rest data j ij show ?thesis by simp
  next
    case True
    then obtain idx p2 img where c: "choose_frame (p\<lparr>cache_misses := inc32 (cache_misses p)\<rparr>) = Inr (idx, p2)"
      and l: "load_image p2 n = Inr img" and r: "i = nat idx" "p' = install_page p2 idx n img"
      using g' by auto
    let ?p = "p\<lparr>cache_misses := inc32 (cache_misses p)\<rparr>"
    have okp: "pager_ok ?p" using p by simp
    from this c obtain j where j: "idx = int j" "j < MAX_BUFFER_POOL_SIZE"
      "f_page_num (frames p2 ! j) = INVALID_PAGE_NUM" "pager_ok p2" "fetch_stable ?p p2"
      "num_pages p2 = num_pages ?p"
      "page_capacity p2 = page_capacity ?p" "\<And>n. table_entry ?p n = -1 \<Longrightarrow> table_entry p2 n = -1"
      and B: "\<And>B. coherent_to B ?p \<Longrightarrow> coherent_to B p2"
      "\<And>B m. coherent_to B ?p \<Longrightarrow> dirty_flag ?p m \<or> B m = backing ?p m \<Longrightarrow> view p2 m = view ?p m"
      by (rule choose_frame_spec) blast
    have n2: "n < page_capacity p2" "table_entry p2 n = -1" using j(7,8) cap te True by simp_all
    have img: "img = source p2 n" using load_image_source(1) [OF j(4) n2(1) l] .
    have src: "source p2 n = source p n" using choose_frame_source [OF okp c, of n] te True by simp
    note inst = install_page_spec [OF j(4) j(2,3) n2 img]
    have st: "fetch_stable p p2" using j(5) by (simp add: fetch_stable_def dirty_flag_def fun_eq_iff)
    have bk: "backing p2 = backing p" "dirty_flag p2 = dirty_flag p"
      using st fetch_stable_backing [OF st] by (simp_all add: fetch_stable_def)
    have ij: "i = j" "p' = install_page p2 (int j) n img" using r j(1) by simp_all
    have dv: "source p n = view p n" using te True by (simp add: view_def)
    have "coherent_to B p'" if "coherent_to B p" "dirty_flag p n \<or> table_entry p n \<noteq> -1 \<or> B n = backing p n"
      unfolding ij by (rule inst(2)) (use that B(1) te True bk in simp_all)
    moreover have "view p' m = view p m" if "coherent_to B p" "dirty_flag p m \<or> B m = backing p m"
      using that B(2) [of B m] inst(3) by (simp add: ij)
    moreover have "fetch_stable p p'" using fetch_stable_trans [OF st inst(7)] by (simp add: ij)
    ultimately show ?thesis using inst(1,4-6,8) j(2,6) img src dv by (simp add: ij)
  qed
  with st0 same cap ninv show "pager_ok p'" "fetch_stable p0 p'" "n < page_capacity p'" "n \<noteq> INVALID_PAGE_NUM"
    "i < MAX_BUFFER_POOL_SIZE" "f_page_num (frames p' ! i) = n" "table_entry p' n = int i"
    "num_pages p' = max (num_pages p0) (n + 1)" "f_data (frames p' ! i) = view p0 n"
    "coherent_to B p0 \<Longrightarrow> dirty_flag p0 n \<or> table_entry p0 n \<noteq> -1 \<or> B n = backing p0 n \<Longrightarrow> coherent_to B p'"
    "coherent_to B p0 \<Longrightarrow> dirty_flag p0 m \<or> B m = backing p0 m \<Longrightarrow> view p' m = view p0 m"
    by (auto intro: fetch_stable_trans) (auto simp: fetch_stable_def)
qed

lemma get_page_spec:
  assumes p0: "pager_ok p0" and n: "n \<le> UINT32_MAX" and g: "get_page p0 n = Inr (i, p')"
  shows "pager_ok p'" "fetch_stable p0 p'" "n < page_capacity p'" "n \<noteq> INVALID_PAGE_NUM"
    and "i < MAX_BUFFER_POOL_SIZE" "f_page_num (frames p' ! i) = n" "table_entry p' n = int i"
    and "num_pages p' = max (num_pages p0) (n + 1)"
    and "coherent p0 \<Longrightarrow> coherent p'" "coherent p0 \<Longrightarrow> view p' = view p0"
    and "f_data (frames p' ! i) = view p0 n"
proof -
  note gf = get_page_frames [OF p0 n g]
  show "pager_ok p'" "fetch_stable p0 p'" "n < page_capacity p'" "n \<noteq> INVALID_PAGE_NUM"
    "i < MAX_BUFFER_POOL_SIZE" "f_page_num (frames p' ! i) = n" "table_entry p' n = int i"
    "num_pages p' = max (num_pages p0) (n + 1)" "f_data (frames p' ! i) = view p0 n"
    by (rule gf(1-9))+
  assume "coherent p0"
  then have c: "coherent_to (backing p0) p0" by (simp add: coherent_def)
  show "view p' = view p0" using gf(11) [OF c] by (simp add: fun_eq_iff)
  show "coherent p'" using gf(10) [OF c] by (simp add: coherent_def fetch_stable_backing [OF gf(2)])
qed

text \<open>The image of a dirty page does not depend on what clean frames hold.\<close>

lemma get_page_dirty_view:
  assumes "pager_ok p" "n \<le> UINT32_MAX" "get_page p n = Inr (i, p')" "dirty_flag p m"
  shows "view p' m = view p m"
  using get_page_frames(11) [OF assms(1-3) coherent_to_view [OF assms(1)]] assms(4) by blast

end
