(* ===== verification/PagerPointers.thy ===== *)
theory PagerPointers
  imports PagerFetch
begin

text \<open>
  The ways \<open>get_page\<close> of \<open>src/pager.c\<close> ends the process (\<open>get_page_exits\<close>), and how long the
  pointer it returns stays usable: \<open>get_page_queue\<close> follows the LRU queue over a fetch, and
  \<open>fetched_pointer_stays_valid\<close> concludes that the frame keeps its page over fifteen further fetches.
\<close>

section \<open>When fetching ends the process\<close>

lemma choose_frame_Inl:
  assumes p: "pager_ok p" and c: "choose_frame p = Inl e"
  shows "e = Exit_Pool_Exhausted"
    and "\<forall>i<MAX_BUFFER_POOL_SIZE. f_page_num (frames p ! i) \<noteq> INVALID_PAGE_NUM \<and> f_pin_count (frames p ! i) \<noteq> 0"
proof -
  have none: "free_frame p = None" using c by (auto simp: choose_frame_def split: option.splits)
  then have "lru_evict p = Inl e" using c by (simp add: choose_frame_def)
  then have scan: "victim_scan (Suc MAX_BUFFER_POOL_SIZE) p (lru_tail p) = -1" and e: "e = Exit_Pool_Exhausted"
    by (auto simp: lru_evict_def Let_def split: if_splits)
  show "e = Exit_Pool_Exhausted" by (rule e)
  have full: "\<forall>i<MAX_BUFFER_POOL_SIZE. f_page_num (frames p ! i) \<noteq> INVALID_PAGE_NUM"
    using none by (auto simp: free_frame_def find_None_iff)
  obtain q where q: "lru_list p q" "set q = occupied p" using p by (auto simp: pager_ok_def pager_lru_def)
  have "length (frames p) = MAX_BUFFER_POOL_SIZE" using p by (simp add: pager_ok_core)
  from victim_scan_queue [OF q(1) this] scan
  have "filter (unpinned p) q = []" by (auto split: if_splits)
  with q(2) full show "\<forall>i<MAX_BUFFER_POOL_SIZE. f_page_num (frames p ! i) \<noteq> INVALID_PAGE_NUM \<and>
      f_pin_count (frames p ! i) \<noteq> 0"
    by (auto simp: filter_empty_conv occupied_def unpinned_def)
qed

lemma get_page_failure:
  assumes p0: "pager_ok p0" and n: "n \<le> UINT32_MAX" and g: "get_page p0 n = Inl e"
  shows "(e = Exit_Invalid_Page_Number \<and> n = INVALID_PAGE_NUM) \<or>
    (e = Exit_Pool_Exhausted \<and> table_entry p0 n = -1 \<and>
       (\<forall>i<MAX_BUFFER_POOL_SIZE. f_page_num (frames p0 ! i) \<noteq> INVALID_PAGE_NUM \<and>
          f_pin_count (frames p0 ! i) \<noteq> 0)) \<or>
    (e = Exit_Checksum_Mismatch n \<and> table_entry p0 n = -1 \<and> \<not> readable p0 n)"
proof (cases "n = INVALID_PAGE_NUM")
  case True
  with g show ?thesis by (simp add: get_page_def)
next
  case False
  then have n1: "n + 1 \<le> UINT32_MAX" using n by (simp add: INVALID_PAGE_NUM_def UINT32_MAX_def)
  define p where "p = pager_reserve_capacity p0 (n + 1)"
  let ?p = "p\<lparr>cache_misses := inc32 (cache_misses p)\<rparr>"
  have p: "pager_ok ?p" unfolding p_def using reserve_ok [OF p0 n1] by simp
  have cap: "n < page_capacity ?p"
    using reserve_capacity_ge [OF n1 pager_arraysD(5) [OF p0]] by (simp add: p_def)
  have g': "(if page_table p ! n \<noteq> -1 then
      Inr (nat (page_table p ! n), lru_touch (p\<lparr>cache_hits := inc32 (cache_hits p)\<rparr>) (page_table p ! n))
    else and_then (choose_frame ?p)
      (\<lambda>(idx, p2). and_then (load_image p2 n) (\<lambda>img. Inr (nat idx, install_page p2 idx n img)))) = Inl e"
    using g False unfolding get_page_def Let_def p_def by simp
  then have "page_table p ! n = -1" by (auto split: if_splits)
  then have te: "table_entry ?p n = -1" using cap by (simp add: table_entry_def)
  then have te0: "table_entry p0 n = -1" by (simp add: p_def)
  show ?thesis
  proof (cases "choose_frame ?p")
    case (Inl e')
    with g' te cap have "e' = e" by (auto split: if_splits)
    with choose_frame_Inl [OF p Inl] te0 show ?thesis by (simp add: p_def)
  next
    case (Inr r)
    obtain idx p2 where r: "r = (idx, p2)" by (cases r)
    have c: "choose_frame ?p = Inr (idx, p2)" using Inr r by simp
    obtain i where p2: "pager_ok p2" "fetch_stable ?p p2" "page_capacity p2 = page_capacity ?p"
      using choose_frame_spec [OF p c] by metis
    have "fetch_stable p0 ?p"
      using fetch_stable_reserve [OF pager_arraysD(5) [OF p0] n1] by (simp add: p_def fetch_stable_def)
    then have rd: "readable p2 n = readable p0 n" using p2(2) by (metis readable_stable)
    have "load_image p2 n = Inl e"
      using g' te c cap by (cases "load_image p2 n") (auto split: if_splits)
    with load_image_source(2) [of p2 n e] p2 cap rd te0 show ?thesis by simp
  qed
qed


text \<open>With a free pool and nothing in the file a fetch cannot fail.\<close>

section \<open>How long a fetched pointer stays valid\<close>

definition no_pins :: "pager \<Rightarrow> bool" where
  "no_pins p \<longleftrightarrow> (\<forall>i<MAX_BUFFER_POOL_SIZE. f_pin_count (frames p ! i) = 0)"

definition same_frame :: "pager \<Rightarrow> pager \<Rightarrow> nat \<Rightarrow> bool" where
  "same_frame p p' i \<longleftrightarrow> frame_core (frames p' ! i) = frame_core (frames p ! i)"

lemma frame_core_lru_touch [simp]:
  "i < length (frames p) \<Longrightarrow> frame_core (frames (lru_touch p j) ! i) = frame_core (frames p ! i)"
  by (simp add: frame_core_def)

lemma lru_list_same_set:
  assumes "lru_list p q" and "lru_list p q'"
  shows "set q = set q'"
proof -
  have "set q \<subseteq> set q'" if "lru_list p q" "lru_list p q'" for q q'
  proof
    fix i assume "i \<in> set q"
    then obtain xs ys where q: "q = xs @ i # ys" by (auto simp: in_set_conv_decomp)
    from q that(1) show "i \<in> set q'"
    proof (induction xs arbitrary: i ys rule: rev_induct)
      case Nil
      with that(2) show ?case by (auto simp: lru_list_def head_of_def split: if_splits)
    next
      case (snoc x xs)
      then have x: "x \<in> set q'" by simp
      have d: "distinct (xs @ x # i # ys)" "x < length (frames p)"
        using snoc.prems by (auto simp: lru_list_def)
      have "f_lru_next (frames p ! x) = int i"
        using snoc.prems d succ_in_append [of xs "x # i # ys" x] by (simp add: lru_list_def)
      then have "succ_in q' x = int i" using that(2) d(2) by (simp add: lru_list_def)
      then show ?case by (induction q' x rule: succ_in.induct) (auto split: if_splits)
    qed
  qed
  with assms show ?thesis by blast
qed

lemma dropped_same_frame:
  "dropped p v n p' \<Longrightarrow> i < MAX_BUFFER_POOL_SIZE \<Longrightarrow> i \<noteq> v \<Longrightarrow> same_frame p p' i"
  using droppedD(2-5) [of p v n p' i] by (simp add: same_frame_def frame_core_def)

lemma install_page_queue:
  assumes len: "length (frames p) = MAX_BUFFER_POOL_SIZE" and i: "i < MAX_BUFFER_POOL_SIZE"
    and q: "lru_list p q"
  shows "lru_list (install_page p (int i) n img) (i # remove1 i q)"
    and "f_pin_count (frames (install_page p (int i) n img) ! i) = 0"
    and "j < MAX_BUFFER_POOL_SIZE \<Longrightarrow> j \<noteq> i \<Longrightarrow> same_frame p (install_page p (int i) n img) j"
proof -
  obtain p1 where p1: "install_page p (int i) n img = lru_touch p1 (int i)"
    and f: "frames p1 = (frames p)[i := (frames p ! i)\<lparr>f_data := img, f_page_num := n,
      f_is_dirty := is_dirty p ! n, f_pin_count := 0\<rparr>]"
    and l: "lru_head p1 = lru_head p" "lru_tail p1 = lru_tail p"
    using len i by (simp add: install_page_def Let_def)
  have "lru_list p1 q"
    using q by (rule lru_list_frames_cong) (use len i f l in \<open>auto simp: nth_list_update\<close>)
  then show "lru_list (install_page p (int i) n img) (i # remove1 i q)"
    unfolding p1 by (rule lru_list_touch) (use len i f in simp)
  show "f_pin_count (frames (install_page p (int i) n img) ! i) = 0"
    using len i f by (simp add: p1)
  show "same_frame p (install_page p (int i) n img) j" if "j < MAX_BUFFER_POOL_SIZE" "j \<noteq> i"
    using that len f by (simp add: p1 same_frame_def)
qed

lemma same_frame_trans: "same_frame p q i \<Longrightarrow> same_frame q r i \<Longrightarrow> same_frame p r i"
  by (simp add: same_frame_def)

lemma same_frame_pins: "same_frame p p' i \<Longrightarrow> f_pin_count (frames p' ! i) = f_pin_count (frames p ! i)"
  by (simp add: same_frame_def frame_core_def)

lemma full_queue_length:
  assumes p: "pager_ok p" and q: "lru_list p q" "set q = occupied p" and "free_frame p = None"
  shows "length q = MAX_BUFFER_POOL_SIZE"
proof -
  have "occupied p = {..<MAX_BUFFER_POOL_SIZE}"
    using assms(4) by (auto simp: free_frame_def find_None_iff occupied_def)
  moreover have "length q = card (set q)" using q(1) by (simp add: lru_list_def distinct_card)
  ultimately show ?thesis using q(2) by simp
qed

text \<open>The effect of a fetch on the queue when nothing is pinned: the frame it returns moves to the
  front; it is a frame already in use only on a hit, or when the pool is full and it was last.\<close>

lemma choose_frame_queue:
  assumes p: "pager_ok p" and c: "choose_frame p = Inr (int j, p')" and np: "no_pins p"
    and q: "lru_list p q" "set q = occupied p"
  shows "lru_list p' (remove1 j q)" and "j < MAX_BUFFER_POOL_SIZE"
    and "\<forall>i<MAX_BUFFER_POOL_SIZE. i \<noteq> j \<longrightarrow> same_frame p p' i"
    and "j \<in> set q \<longrightarrow> length q = MAX_BUFFER_POOL_SIZE \<and> j = last q"
proof -
  have "lru_list p' (remove1 j q) \<and> j < MAX_BUFFER_POOL_SIZE \<and>
    (\<forall>i<MAX_BUFFER_POOL_SIZE. i \<noteq> j \<longrightarrow> same_frame p p' i) \<and>
    (j \<in> set q \<longrightarrow> length q = MAX_BUFFER_POOL_SIZE \<and> j = last q)"
  proof (cases "free_frame p")
    case None
    then have e: "lru_evict p = Inr (int j, p')" using c by (simp add: choose_frame_def)
    from lru_evict_queue_cases [OF p e q] obtain v n where v: "int j = int v"
      "v < MAX_BUFFER_POOL_SIZE" "dropped p v n p'" "v = last (filter (unpinned p) q)"
      "lru_list p' (remove1 v q)" by metis
    have "filter (unpinned p) q = q"
      using np q(2) by (auto simp: filter_id_conv no_pins_def unpinned_def occupied_def)
    with v full_queue_length [OF p q None] dropped_same_frame [OF v(3)] show ?thesis by auto
  next
    case (Some i)
    then have ij: "i = j" "p' = p" using c by (simp_all add: choose_frame_def)
    with free_frame_Some [OF Some] q have "j \<notin> set q" "j < MAX_BUFFER_POOL_SIZE"
      by (auto simp: occupied_def)
    with q ij show ?thesis by (auto simp: same_frame_def remove1_idem)
  qed
  then show "lru_list p' (remove1 j q)" "j < MAX_BUFFER_POOL_SIZE"
    "\<forall>i<MAX_BUFFER_POOL_SIZE. i \<noteq> j \<longrightarrow> same_frame p p' i"
    "j \<in> set q \<longrightarrow> length q = MAX_BUFFER_POOL_SIZE \<and> j = last q" by blast+
qed

lemma lru_list_counters [simp]:
  "lru_list (p\<lparr>cache_hits := h\<rparr>) q = lru_list p q" "lru_list (p\<lparr>cache_misses := h\<rparr>) q = lru_list p q"
  "occupied (p\<lparr>cache_hits := h\<rparr>) = occupied p" "occupied (p\<lparr>cache_misses := h\<rparr>) = occupied p"
  "lru_list (pager_reserve_capacity p m) q = lru_list p q"
  "occupied (pager_reserve_capacity p m) = occupied p"
  by (simp_all add: lru_list_def occupied_def)

lemma get_page_queue:
  assumes p0: "pager_ok p0" and n: "n \<le> UINT32_MAX" and np: "no_pins p0"
    and q: "lru_list p0 q" "set q = occupied p0" and g: "get_page p0 n = Inr (j, p')"
  shows "lru_list p' (j # remove1 j q)" and "no_pins p'"
    and "\<forall>i<MAX_BUFFER_POOL_SIZE. i \<noteq> j \<longrightarrow> same_frame p0 p' i"
    and "j \<in> set q \<longrightarrow> same_frame p0 p' j \<or> length q = MAX_BUFFER_POOL_SIZE \<and> j = last q"
proof -
  have ninv: "n \<noteq> INVALID_PAGE_NUM" using g by (auto simp: get_page_def split: if_splits)
  then have n1: "n + 1 \<le> UINT32_MAX" using n by (simp add: INVALID_PAGE_NUM_def UINT32_MAX_def)
  define p where "p = pager_reserve_capacity p0 (n + 1)"
  have p: "pager_ok p" unfolding p_def using p0 n1 by (rule reserve_ok)
  have g': "(if page_table p ! n \<noteq> -1 then
      Inr (nat (page_table p ! n), lru_touch (p\<lparr>cache_hits := inc32 (cache_hits p)\<rparr>) (page_table p ! n))
    else and_then (choose_frame (p\<lparr>cache_misses := inc32 (cache_misses p)\<rparr>))
      (\<lambda>(idx, p2). and_then (load_image p2 n) (\<lambda>img. Inr (nat idx, install_page p2 idx n img)))) = Inr (j, p')"
    using g ninv unfolding get_page_def Let_def p_def by simp
  have qp: "lru_list p q" "set q = occupied p" and npp: "no_pins p"
    using q np by (simp_all add: p_def no_pins_def)
  have fr: "frames p = frames p0" by (simp add: p_def)
  have len: "length (frames p) = MAX_BUFFER_POOL_SIZE" using p by (simp add: pager_ok_core)
  have cap: "n < page_capacity p"
    using reserve_capacity_ge [OF n1 pager_arraysD(5) [OF p0]] by (simp add: p_def)
  have "lru_list p' (j # remove1 j q) \<and> f_pin_count (frames p' ! j) = 0 \<and>
    (\<forall>i<MAX_BUFFER_POOL_SIZE. i \<noteq> j \<longrightarrow> same_frame p p' i) \<and>
    (j \<in> set q \<longrightarrow> same_frame p p' j \<or> length q = MAX_BUFFER_POOL_SIZE \<and> j = last q)"
  proof (cases "page_table p ! n = -1")
    case False
    then have te: "table_entry p n \<noteq> -1" using cap pager_arraysD(1) [OF p] by (simp add: table_entry_def)
    with p obtain i where i: "i < MAX_BUFFER_POOL_SIZE" "table_entry p n = int i" by (rule cached_frame)
    with te have "page_table p ! n = int i" by (auto simp: table_entry_def split: if_splits)
    with g' have j: "j = i" "p' = lru_touch (p\<lparr>cache_hits := inc32 (cache_hits p)\<rparr>) (int j)" by auto
    have "lru_list p' (j # remove1 j q)" unfolding j(2)
      by (rule lru_list_touch) (use qp len i j in simp_all)
    moreover have "same_frame p p' k" if "k < MAX_BUFFER_POOL_SIZE" for k
      using that len by (simp add: same_frame_def j(2))
    moreover have "f_pin_count (frames p' ! j) = 0"
      using i(1) j(1) npp same_frame_pins [OF calculation(2)] by (simp add: no_pins_def)
    ultimately show ?thesis using i(1) j(1) by blast
  next
    case True
    let ?p = "p\<lparr>cache_misses := inc32 (cache_misses p)\<rparr>"
    from True g' obtain idx p2 img where c: "choose_frame ?p = Inr (idx, p2)"
      and r: "j = nat idx" "p' = install_page p2 idx n img" by auto
    have okp: "pager_ok ?p" using p by simp
    obtain j' where j': "idx = int j'" "pager_ok p2" using choose_frame_spec [OF okp c] by metis
    with r have jj: "idx = int j" by simp
    note cq = choose_frame_queue [OF okp c [unfolded jj], of q]
    have c2: "lru_list p2 (remove1 j q)" "j < MAX_BUFFER_POOL_SIZE"
      "\<forall>i<MAX_BUFFER_POOL_SIZE. i \<noteq> j \<longrightarrow> same_frame ?p p2 i"
      "j \<in> set q \<longrightarrow> length q = MAX_BUFFER_POOL_SIZE \<and> j = last q"
      using cq qp npp by (simp_all add: no_pins_def)
    have len2: "length (frames p2) = MAX_BUFFER_POOL_SIZE" using j'(2) by (simp add: pager_ok_core)
    have "j \<notin> set (remove1 j q)" using qp(1) by (simp add: lru_list_def)
    then have rr: "remove1 j (remove1 j q) = remove1 j q" by (rule remove1_idem)
    have r': "p' = install_page p2 (int j) n img" using r(2) jj by simp
    note iq = install_page_queue [OF len2 c2(2) c2(1), where n = n and img = img, folded r', unfolded rr]
    have "same_frame p p' i" if "i < MAX_BUFFER_POOL_SIZE" "i \<noteq> j" for i
      using c2(3) iq(3) that by (auto simp: same_frame_def)
    with c2 iq show ?thesis by auto
  qed
  then have res: "lru_list p' (j # remove1 j q)" "f_pin_count (frames p' ! j) = 0"
    "\<forall>i<MAX_BUFFER_POOL_SIZE. i \<noteq> j \<longrightarrow> same_frame p p' i"
    "j \<in> set q \<longrightarrow> same_frame p p' j \<or> length q = MAX_BUFFER_POOL_SIZE \<and> j = last q" by blast+
  then show "lru_list p' (j # remove1 j q)"
    "\<forall>i<MAX_BUFFER_POOL_SIZE. i \<noteq> j \<longrightarrow> same_frame p0 p' i"
    "j \<in> set q \<longrightarrow> same_frame p0 p' j \<or> length q = MAX_BUFFER_POOL_SIZE \<and> j = last q"
    by (simp_all add: same_frame_def fr)
  show "no_pins p'"
  proof (unfold no_pins_def, intro allI impI)
    fix i assume "i < MAX_BUFFER_POOL_SIZE"
    then show "f_pin_count (frames p' ! i) = 0"
      using res(2,3) npp same_frame_pins by (cases "i = j") (auto simp: no_pins_def)
  qed
qed

definition fetch_all :: "nat list \<Rightarrow> pager \<Rightarrow> pager_exit + pager" where
  "fetch_all ns = for_each (\<lambda>n p. and_then (get_page p n) (\<lambda>(i, p'). Inr p')) ns"

lemma fetch_all_simps [simp]:
  "fetch_all [] p = Inr p"
  "fetch_all (n # ns) p = and_then (get_page p n) (\<lambda>(i, p'). fetch_all ns p')"
  by (auto simp: fetch_all_def and_then_def split: sum.splits)

lemma fetch_all_keeps_frame:
  assumes "pager_ok p" "no_pins p" "lru_list p (xs @ i # ys)" "set (xs @ i # ys) = occupied p"
    and "\<forall>n\<in>set ns. n \<le> UINT32_MAX" "length xs + length ns < MAX_BUFFER_POOL_SIZE"
    and "fetch_all ns p = Inr p'"
  shows "same_frame p p' i"
  using assms
proof (induction ns arbitrary: p xs ys)
  case Nil
  then show ?case by (simp add: same_frame_def)
next
  case (Cons n ns)
  from Cons.prems(7) obtain j p1 where g: "get_page p n = Inr (j, p1)" and f: "fetch_all ns p1 = Inr p'"
    by auto
  have n: "n \<le> UINT32_MAX" using Cons.prems(5) by simp
  note gq = get_page_queue [OF Cons.prems(1) n Cons.prems(2-4) g]
  note sp = get_page_spec [OF Cons.prems(1) n g]
  let ?q = "xs @ i # ys"
  have d: "distinct ?q" using Cons.prems(3) by (simp add: lru_list_def)
  have i: "i < MAX_BUFFER_POOL_SIZE" using Cons.prems(4) by (auto simp: occupied_def)
  have "j \<noteq> i \<or> same_frame p p1 j"
  proof (rule ccontr)
    assume "\<not> (j \<noteq> i \<or> same_frame p p1 j)"
    with gq(4) have l: "length ?q = MAX_BUFFER_POOL_SIZE" "i = last ?q" by auto
    then have "ys = []" using d last_in_set [of ys] by (cases "ys = []") auto
    with l(1) Cons.prems(6) show False by simp
  qed
  then have keep: "same_frame p p1 i" using gq(3) i by blast
  have occ: "set (j # remove1 j ?q) = occupied p1"
  proof -
    obtain q' where q': "lru_list p1 q'" "set q' = occupied p1"
      using sp(1) by (auto simp: pager_ok_def pager_lru_def)
    show ?thesis using lru_list_same_set [OF q'(1) gq(1)] q'(2) by simp
  qed
  obtain xs' ys' where split: "j # remove1 j ?q = xs' @ i # ys'" "length xs' \<le> Suc (length xs)"
  proof (cases "j = i")
    case True
    with that [of "[]" "remove1 j ?q"] show thesis by simp
  next
    case False
    then have "j # remove1 j ?q = (j # remove1 j xs) @ i # (if j \<in> set xs then ys else remove1 j ys)"
      using d by (auto simp: remove1_append remove1_idem)
    then show thesis using that [of "j # remove1 j xs"] by (simp add: length_remove1)
  qed
  have "same_frame p1 p' i"
    using Cons.IH [OF sp(1) gq(2) gq(1) [unfolded split(1)] occ [unfolded split(1)]] Cons.prems(5,6)
      split(2) f by simp
  with keep show ?case by (rule same_frame_trans)
qed

text \<open>The pointer \<open>get_page\<close> returns stays valid over the next fifteen fetches, whatever pages
  they ask for: its frame still holds the same page with the same bytes (no frame being pinned).
  The engine relies on this each time it uses a node pointer across further \<open>get_page\<close> calls.\<close>

theorem fetched_pointer_stays_valid:
  assumes "pager_ok p" "no_pins p" "n \<le> UINT32_MAX" "\<forall>m\<in>set ns. m \<le> UINT32_MAX"
    and "get_page p n = Inr (i, p1)" "fetch_all ns p1 = Inr p2" "length ns \<le> 15"
  shows "f_page_num (frames p2 ! i) = n \<and> f_data (frames p2 ! i) = f_data (frames p1 ! i)"
proof -
  obtain q where q: "lru_list p q" "set q = occupied p"
    using assms(1) by (auto simp: pager_ok_def pager_lru_def)
  note gq = get_page_queue [OF assms(1,3,2) q assms(5)]
  note sp = get_page_spec [OF assms(1,3,5)]
  obtain q' where q': "lru_list p1 q'" "set q' = occupied p1"
    using sp(1) by (auto simp: pager_ok_def pager_lru_def)
  have "set (i # remove1 i q) = occupied p1" using lru_list_same_set [OF q'(1) gq(1)] q'(2) by simp
  then have "same_frame p1 p2 i"
    using fetch_all_keeps_frame [of p1 "[]" i "remove1 i q" ns p2] sp(1) gq assms
    by (simp add: MAX_BUFFER_POOL_SIZE_def)
  with sp(6) show ?thesis by (simp add: same_frame_def frame_core_def)
qed

end
