(* ===== verification/PagerOps.thy ===== *)
theory PagerOps
  imports PagerPointers
begin

text \<open>
  The contracts of the page operations of \<open>src/pager.c\<close> that change pages or the allocator:
  a client's store through a fetched pointer followed by \<open>mark_page_dirty\<close> (\<open>write_page\<close>),
  \<open>pager_free_page\<close>, \<open>pager_shrink\<close>, \<open>get_unused_page_num\<close> and \<open>pager_unpin_page\<close>. Each keeps
  \<open>pager_ok\<close> and \<open>coherent\<close> and changes the images of the pages it names, of no other.
\<close>

section \<open>Storing into a page\<close>

lemma poke_fields [simp]:
  "frames (poke_frame i img p) = (frames p)[i := (frames p ! i)\<lparr>f_data := img\<rparr>]"
  "table_entry (poke_frame i img p) = table_entry p" "dirty_flag (poke_frame i img p) = dirty_flag p"
  "backing (poke_frame i img p) = backing p" "source (poke_frame i img p) = source p"
  "num_pages (poke_frame i img p) = num_pages p" "free_pages (poke_frame i img p) = free_pages p"
  "page_capacity (poke_frame i img p) = page_capacity p"
  "fetch_stable p0 (poke_frame i img p) = fetch_stable p0 p"
  by (simp_all add: poke_frame_def fun_eq_iff fetch_stable_def)

lemma poke_ok:
  assumes p: "pager_ok p" and i: "length img = PAGE_SIZE"
  shows "pager_ok (poke_frame i img p)"
proof -
  have sel: "f_page_num (frames (poke_frame i img p) ! j) = f_page_num (frames p ! j)"
    "f_is_dirty (frames (poke_frame i img p) ! j) = f_is_dirty (frames p ! j)"
    "f_lru_prev (frames (poke_frame i img p) ! j) = f_lru_prev (frames p ! j)"
    "f_lru_next (frames (poke_frame i img p) ! j) = f_lru_next (frames p ! j)"
    "f_data (frames (poke_frame i img p) ! j) =
       (if j = i \<and> i < length (frames p) then img else f_data (frames p ! j))" for j
    by (cases "i < length (frames p)"; simp add: nth_list_update list_update_beyond)+
  have rest: "page_table (poke_frame i img p) = page_table p" "is_dirty (poke_frame i img p) = is_dirty p"
    "lru_head (poke_frame i img p) = lru_head p" "lru_tail (poke_frame i img p) = lru_tail p"
    by (simp_all add: poke_frame_def)
  show ?thesis
  proof (rule pager_okI)
    show "pager_arrays (poke_frame i img p)" "pager_shadows (poke_frame i img p)"
      using pager_okD(1,5) [OF p] by (auto simp: pager_arrays_def pager_shadows_def poke_frame_def)
    show "pager_table (poke_frame i img p)"
      using pager_okD(3) [OF p] by (simp add: pager_table_def sel rest del: poke_fields(1))
    show "pager_frames (poke_frame i img p)"
      using pager_okD(2) [OF p] i by (simp add: pager_frames_def sel rest del: poke_fields(1)) simp
    show "pager_lru (poke_frame i img p)"
      using pager_okD(4) [OF p]
      by (simp add: pager_lru_def lru_list_def occupied_def sel rest del: poke_fields(1)) simp
  qed
qed

lemma poke_view:
  assumes p: "pager_ok p" and i: "i < MAX_BUFFER_POOL_SIZE" "f_page_num (frames p ! i) = n" "n \<noteq> INVALID_PAGE_NUM"
  shows "view (poke_frame i img p) = (view p)(n := img)"
proof (rule ext)
  fix m
  have len: "length (frames p) = MAX_BUFFER_POOL_SIZE" using pager_framesD(1) [OF p i(1)] .
  have n: "table_entry p n = int i" using frame_cached(1) [OF p i(1)] i by simp
  show "view (poke_frame i img p) m = ((view p)(n := img)) m"
  proof (cases "m = n")
    case True
    then show ?thesis using n len i by (simp add: view_def)
  next
    case False
    have "nat (table_entry p m) \<noteq> i" if "table_entry p m \<noteq> -1"
      using cached_frame [OF p that] i(2) False by (metis nat_int)
    with False show ?thesis by (auto simp: view_def)
  qed
qed

text \<open>\<open>coherent\<close> up to the pages of \<open>S\<close>, which are being written.\<close>

definition coherent_except :: "nat set \<Rightarrow> pager \<Rightarrow> bool" where
  "coherent_except S p \<longleftrightarrow>
     (\<forall>i<MAX_BUFFER_POOL_SIZE. f_page_num (frames p ! i) \<noteq> INVALID_PAGE_NUM \<longrightarrow>
        f_page_num (frames p ! i) \<notin> S \<longrightarrow> \<not> f_is_dirty (frames p ! i) \<longrightarrow>
        f_data (frames p ! i) = backing p (f_page_num (frames p ! i)))"

lemma coherent_except_empty: "coherent_except {} p = coherent p"
  by (simp add: coherent_except_def coherent_def coherent_to_def)

lemma coherent_exceptD:
  assumes "coherent_except S p" "i < MAX_BUFFER_POOL_SIZE" "f_page_num (frames p ! i) \<noteq> INVALID_PAGE_NUM"
    "f_page_num (frames p ! i) \<notin> S" "\<not> f_is_dirty (frames p ! i)"
  shows "f_data (frames p ! i) = backing p (f_page_num (frames p ! i))"
  using assms by (simp add: coherent_except_def)

lemma poke_coherent_except:
  assumes "coherent p" "f_page_num (frames p ! i) = n"
  shows "coherent_except {n} (poke_frame i img p)"
proof (unfold coherent_except_def, intro allI impI)
  fix j assume j: "j < MAX_BUFFER_POOL_SIZE"
    and inv: "f_page_num (frames (poke_frame i img p) ! j) \<noteq> INVALID_PAGE_NUM"
    and ne: "f_page_num (frames (poke_frame i img p) ! j) \<notin> {n}"
    and cl: "\<not> f_is_dirty (frames (poke_frame i img p) ! j)"
  have "j \<noteq> i \<or> \<not> i < length (frames p)" using ne assms(2) by auto
  then have same: "frames (poke_frame i img p) ! j = frames p ! j"
    by (auto simp: list_update_beyond)
  show "f_data (frames (poke_frame i img p) ! j) =
      backing (poke_frame i img p) (f_page_num (frames (poke_frame i img p) ! j))"
    using coherentD [OF assms(1) j] inv cl unfolding same by simp
qed


section \<open>Dirty flags\<close>

text \<open>What \<open>mark_page_dirty\<close> and the loops that clear dirty pages do to page \<open>n\<close>: the flag of the page
  and that of its frame, when it is cached, become \<open>b\<close>.\<close>

definition set_flag :: "pager \<Rightarrow> nat \<Rightarrow> bool \<Rightarrow> pager" where
  "set_flag p n b =
     (let p1 = p\<lparr>is_dirty := (is_dirty p)[n := b]\<rparr>
      in if page_table p ! n \<noteq> -1
         then upd_frame (nat (page_table p ! n)) (\<lambda>f. f\<lparr>f_is_dirty := b\<rparr>) p1 else p1)"

lemma set_flag_fields [simp]:
  "page_table (set_flag p n b) = page_table p" "is_dirty (set_flag p n b) = (is_dirty p)[n := b]"
  "dirty_page_spills (set_flag p n b) = dirty_page_spills p"
  "committed_pages (set_flag p n b) = committed_pages p" "page_capacity (set_flag p n b) = page_capacity p"
  "num_pages (set_flag p n b) = num_pages p" "disk (set_flag p n b) = disk p"
  "file_length (set_flag p n b) = file_length p" "free_pages (set_flag p n b) = free_pages p"
  "in_transaction (set_flag p n b) = in_transaction p"
  "transaction_num_pages (set_flag p n b) = transaction_num_pages p"
  "transaction_file_length (set_flag p n b) = transaction_file_length p"
  "transaction_free_pages (set_flag p n b) = transaction_free_pages p"
  "savepoints (set_flag p n b) = savepoints p" "pin_barrier_active (set_flag p n b) = pin_barrier_active p"
  "pin_admissions (set_flag p n b) = pin_admissions p"
  "lru_head (set_flag p n b) = lru_head p" "lru_tail (set_flag p n b) = lru_tail p"
  "length (frames (set_flag p n b)) = length (frames p)"
  "table_entry (set_flag p n b) = table_entry p" "backing (set_flag p n b) = backing p"
  by (simp_all add: set_flag_def Let_def table_entry_def fun_eq_iff backing_def cong: option.case_cong)

lemma nth_list_update_at: "j < length xs \<Longrightarrow> xs[i := x] ! j = (if i = j then x else xs ! j)"
  by simp

lemma set_flag_frame:
  assumes p: "pager_ok p" and n: "n < page_capacity p" and j: "j < MAX_BUFFER_POOL_SIZE"
  shows "f_page_num (frames (set_flag p n b) ! j) = f_page_num (frames p ! j)"
    and "f_data (frames (set_flag p n b) ! j) = f_data (frames p ! j)"
    and "f_pin_count (frames (set_flag p n b) ! j) = f_pin_count (frames p ! j)"
    and "f_lru_prev (frames (set_flag p n b) ! j) = f_lru_prev (frames p ! j)"
    and "f_lru_next (frames (set_flag p n b) ! j) = f_lru_next (frames p ! j)"
    and "f_page_num (frames p ! j) \<noteq> INVALID_PAGE_NUM \<Longrightarrow>
      f_is_dirty (frames (set_flag p n b) ! j) = (if f_page_num (frames p ! j) = n then b else f_is_dirty (frames p ! j))"
proof -
  have len: "length (frames p) = MAX_BUFFER_POOL_SIZE" using pager_framesD(1) [OF p j] .
  show "f_page_num (frames (set_flag p n b) ! j) = f_page_num (frames p ! j)"
    "f_data (frames (set_flag p n b) ! j) = f_data (frames p ! j)"
    "f_pin_count (frames (set_flag p n b) ! j) = f_pin_count (frames p ! j)"
    "f_lru_prev (frames (set_flag p n b) ! j) = f_lru_prev (frames p ! j)"
    "f_lru_next (frames (set_flag p n b) ! j) = f_lru_next (frames p ! j)"
    using len j by (simp_all add: set_flag_def Let_def nth_list_update_at)
  assume inv: "f_page_num (frames p ! j) \<noteq> INVALID_PAGE_NUM"
  show "f_is_dirty (frames (set_flag p n b) ! j) = (if f_page_num (frames p ! j) = n then b else f_is_dirty (frames p ! j))"
  proof (cases "f_page_num (frames p ! j) = n")
    case True
    then have "page_table p ! n = int j" using pager_framesD(4) [OF p j inv] by simp
    with True len j show ?thesis by (simp add: set_flag_def)
  next
    case False
    have "nat (page_table p ! n) \<noteq> j" if "page_table p ! n \<noteq> -1"
    proof -
      have "table_entry p n \<noteq> -1" using that n pager_arraysD(1) [OF p] by (simp add: table_entry_def)
      with p obtain i where "table_entry p n = int i" "f_page_num (frames p ! i) = n" by (rule cached_frame)
      with n pager_arraysD(1) [OF p] False show ?thesis by (auto simp: table_entry_def)
    qed
    with False show ?thesis by (auto simp: set_flag_def Let_def)
  qed
qed

lemma set_flag_ok:
  assumes p: "pager_ok p" and n: "n < page_capacity p"
  shows "pager_ok (set_flag p n b)"
proof (rule pager_okI)
  note fr = set_flag_frame [OF p n]
  show "pager_arrays (set_flag p n b)" using pager_okD(1) [OF p] by (simp add: pager_arrays_def)
  show "pager_shadows (set_flag p n b)"
    using pager_okD(5) [OF p] by (simp add: pager_shadows_def)
  show "pager_table (set_flag p n b)"
    using pager_okD(3) [OF p] fr(1) by (simp add: pager_table_def cong: conj_cong)
  show "pager_frames (set_flag p n b)"
  proof (unfold pager_frames_def, intro conjI allI impI)
    show "length (frames (set_flag p n b)) = MAX_BUFFER_POOL_SIZE"
      using pager_okD(2) [OF p] by (simp add: pager_frames_def)
  next
    fix j assume j: "j < MAX_BUFFER_POOL_SIZE"
    show "length (f_data (frames (set_flag p n b) ! j)) = PAGE_SIZE"
      using fr(2) [OF j] pager_framesD(2) [OF p j] by simp
    assume "f_page_num (frames (set_flag p n b) ! j) \<noteq> INVALID_PAGE_NUM"
    then have inv: "f_page_num (frames p ! j) \<noteq> INVALID_PAGE_NUM" using fr(1) [OF j] by simp
    note old = pager_framesD(3-5) [OF p j inv]
    show "f_page_num (frames (set_flag p n b) ! j) < num_pages (set_flag p n b)"
      "page_table (set_flag p n b) ! f_page_num (frames (set_flag p n b) ! j) = int j"
      using fr(1) [OF j] old by simp_all
    show "f_is_dirty (frames (set_flag p n b) ! j) =
        is_dirty (set_flag p n b) ! f_page_num (frames (set_flag p n b) ! j)"
      using fr(1) [OF j] fr(6) [OF j inv] old n pager_arraysD(2) [OF p] by simp
  qed
  have "lru_list (set_flag p n b) q" if "lru_list p q" for q
    using that by (rule lru_list_frames_cong) (use fr(4,5) pager_okD(2) [OF p] in \<open>simp_all add: pager_frames_def\<close>)
  moreover have "occupied (set_flag p n b) = occupied p"
    using fr(1) by (auto simp: occupied_def)
  ultimately show "pager_lru (set_flag p n b)" using pager_okD(4) [OF p] by (auto simp: pager_lru_def)
qed

lemma set_flag_dirty:
  "pager_ok p \<Longrightarrow> n < page_capacity p \<Longrightarrow> dirty_flag (set_flag p n b) = (dirty_flag p)(n := b)"
  using pager_arraysD(2) [of p] by (auto simp: dirty_flag_def fun_eq_iff nth_list_update)

lemma set_flag_view:
  assumes p: "pager_ok p" and n: "n < page_capacity p"
    and b: "m \<noteq> n \<or> table_entry p n \<noteq> -1 \<or> dirty_flag p n = b \<or> dirty_page_spills p ! n = None"
  shows "view (set_flag p n b) m = view p m"
proof (cases "table_entry p m = -1")
  case True
  then have "m \<noteq> n \<or> dirty_flag p n = b \<or> dirty_page_spills p ! n = None" using b by auto
  then have "source (set_flag p n b) m = source p m"
    using n pager_arraysD(3) [OF p] by (auto simp: source_def set_flag_dirty [OF p n] lookup_slot_def)
  with True show ?thesis by (simp add: view_def)
next
  case False
  with p obtain i where i: "i < MAX_BUFFER_POOL_SIZE" "table_entry p m = int i" by (rule cached_frame)
  with set_flag_frame(2) [OF p n i(1)] show ?thesis by (simp add: view_def)
qed

lemma set_flag_coherent_except:
  assumes p: "pager_ok p" and n: "n < page_capacity p" and c: "coherent_except S p"
    and b: "b \<or> view p n = backing p n"
  shows "coherent_except (S - {n}) (set_flag p n b)"
proof (unfold coherent_except_def, intro allI impI)
  fix j
  let ?p = "set_flag p n b"
  assume j: "j < MAX_BUFFER_POOL_SIZE" and inv': "f_page_num (frames ?p ! j) \<noteq> INVALID_PAGE_NUM"
    and s: "f_page_num (frames ?p ! j) \<notin> S - {n}" and cl: "\<not> f_is_dirty (frames ?p ! j)"
  note fr = set_flag_frame [OF p n j]
  have inv: "f_page_num (frames p ! j) \<noteq> INVALID_PAGE_NUM" using inv' fr(1) by simp
  show "f_data (frames ?p ! j) = backing ?p (f_page_num (frames ?p ! j))"
  proof (cases "f_page_num (frames p ! j) = n")
    case True
    then have "\<not> b" using cl fr(6) [OF inv] by simp
    then have "view p n = backing p n" using b by simp
    moreover have "view p n = f_data (frames p ! j)"
      using frame_cached(1) [OF p j inv] True by (simp add: view_def)
    ultimately show ?thesis using fr(1,2) True by simp
  next
    case False
    then show ?thesis using coherent_exceptD [OF c j inv] s cl fr(1,2) fr(6) [OF inv] by simp
  qed
qed


lemma mark_page_dirty_eq:
  "mark_page_dirty p0 n =
     (if n = INVALID_PAGE_NUM then Inl Exit_Invalid_Page_Number
      else Inr (set_flag (pager_reserve_capacity p0 (n + 1)) n True))"
  by (simp add: mark_page_dirty_def set_flag_def Let_def)

lemma reserve_facts:
  assumes p0: "pager_ok p0" and n: "n \<le> UINT32_MAX" "n \<noteq> INVALID_PAGE_NUM"
  shows "pager_ok (pager_reserve_capacity p0 (n + 1))" "n < page_capacity (pager_reserve_capacity p0 (n + 1))"
    and "n + 1 \<le> UINT32_MAX"
proof -
  show n1: "n + 1 \<le> UINT32_MAX" using n by (simp add: INVALID_PAGE_NUM_def UINT32_MAX_def)
  show "pager_ok (pager_reserve_capacity p0 (n + 1))" using p0 n1 by (rule reserve_ok)
  show "n < page_capacity (pager_reserve_capacity p0 (n + 1))"
    using reserve_capacity_ge [OF n1 pager_arraysD(5) [OF p0]] by simp
qed

lemma coherent_except_reserve [simp]: "coherent_except S (pager_reserve_capacity p m) = coherent_except S p"
  by (simp add: coherent_except_def)

text \<open>What every step that stores into pages leaves alone.\<close>

definition disk_stable :: "pager \<Rightarrow> pager \<Rightarrow> bool" where
  "disk_stable p p' \<longleftrightarrow>
     disk p' = disk p \<and> file_length p' = file_length p \<and> in_transaction p' = in_transaction p \<and>
     transaction_file_length p' = transaction_file_length p \<and>
     transaction_num_pages p' = transaction_num_pages p \<and>
     transaction_free_pages p' = transaction_free_pages p \<and>
     pin_barrier_active p' = pin_barrier_active p \<and> pin_admissions p' = pin_admissions p"

lemma disk_stable_refl [simp]: "disk_stable p p"
  by (simp add: disk_stable_def)

lemma disk_stable_trans: "disk_stable p q \<Longrightarrow> disk_stable q r \<Longrightarrow> disk_stable p r"
  by (simp add: disk_stable_def)

lemma fetch_disk_stable: "fetch_stable p q \<Longrightarrow> disk_stable p q"
  by (simp add: disk_stable_def fetch_stable_def)

lemma mark_page_dirty_spec:
  assumes p0: "pager_ok p0" and n: "n \<le> UINT32_MAX" and m: "mark_page_dirty p0 n = Inr p'"
  shows "pager_ok p'" "backing p' = backing p0"
    and "m \<noteq> n \<or> table_entry p0 n \<noteq> -1 \<Longrightarrow> view p' m = view p0 m"
    and "dirty_flag p' = (dirty_flag p0)(n := True)" "num_pages p' = num_pages p0"
    and "table_entry p' = table_entry p0"
    and "coherent_except S p0 \<Longrightarrow> coherent_except (S - {n}) p'"
    and "disk_stable p0 p'" "free_pages p' = free_pages p0" "savepoints p' = savepoints p0"
    and "lookup_slot (committed_pages p') = lookup_slot (committed_pages p0)"
    and "n < page_capacity p'"
proof -
  have ninv: "n \<noteq> INVALID_PAGE_NUM" and p': "p' = set_flag (pager_reserve_capacity p0 (n + 1)) n True"
    using m by (auto simp: mark_page_dirty_eq split: if_splits)
  note r = reserve_facts [OF p0 n ninv]
  show "pager_ok p'" unfolding p' using r by (simp add: set_flag_ok)
  show "view p' m = view p0 m" if "m \<noteq> n \<or> table_entry p0 n \<noteq> -1"
    unfolding p' using set_flag_view [OF r(1,2), of m True] that by auto
  show "backing p' = backing p0" "num_pages p' = num_pages p0" "table_entry p' = table_entry p0"
    "disk_stable p0 p'" "free_pages p' = free_pages p0" "savepoints p' = savepoints p0" "n < page_capacity p'"
    using r(2) by (simp_all add: p' fun_eq_iff disk_stable_def)
  show "dirty_flag p' = (dirty_flag p0)(n := True)"
    using set_flag_dirty [OF r(1,2)] by (simp add: p' fun_eq_iff)
  show "lookup_slot (committed_pages p') = lookup_slot (committed_pages p0)" by (simp add: p' fun_eq_iff)
  show "coherent_except (S - {n}) p'" if "coherent_except S p0"
    unfolding p' using that r by (intro set_flag_coherent_except) simp_all
qed

text \<open>A client's update of a page: fetch it, store into it, mark it dirty.\<close>

definition write_page :: "pager \<Rightarrow> nat \<Rightarrow> (page \<Rightarrow> page) \<Rightarrow> pager_exit + pager" where
  "write_page p n f =
     and_then (get_page p n)
       (\<lambda>(i, p1). mark_page_dirty (poke_frame i (f (f_data (frames p1 ! i))) p1) n)"

lemma write_page_spec:
  assumes p: "pager_ok p" and c: "coherent p" and n: "n \<le> UINT32_MAX"
    and f: "length (f (view p n)) = PAGE_SIZE" and w: "write_page p n f = Inr p'"
  shows "pager_ok p'" "coherent p'" "view p' = (view p)(n := f (view p n))"
    and "num_pages p' = max (num_pages p) (n + 1)" "dirty_flag p' = (dirty_flag p)(n := True)"
    and "disk_stable p p'" "free_pages p' = free_pages p" "savepoints p' = savepoints p"
    and "lookup_slot (committed_pages p') = lookup_slot (committed_pages p)"
proof -
  obtain i p1 where g: "get_page p n = Inr (i, p1)"
    and m: "mark_page_dirty (poke_frame i (f (f_data (frames p1 ! i))) p1) n = Inr p'"
    using w by (auto simp: write_page_def)
  note sp = get_page_spec [OF p n g]
  have data: "f_data (frames p1 ! i) = view p n" and co: "coherent p1" and vw: "view p1 = view p"
    using sp(9-11) c by simp_all
  let ?p = "poke_frame i (f (view p n)) p1"
  have ok: "pager_ok ?p" using sp(1) f by (rule poke_ok)
  have m': "mark_page_dirty ?p n = Inr p'" using m data by simp
  note ms = mark_page_dirty_spec [OF ok n m']
  show "pager_ok p'" by (rule ms(1))
  have "coherent_except {n} ?p" using co sp(6) by (rule poke_coherent_except)
  then have "coherent_except ({n} - {n}) p'" by (rule ms(7))
  then show "coherent p'" by (simp add: coherent_except_empty)
  show "view p' = (view p)(n := f (view p n))"
    using ms(3) poke_view [OF sp(1,5,6,4)] vw sp(7) by (simp add: fun_eq_iff)
  show "num_pages p' = max (num_pages p) (n + 1)" using ms(5) sp(8) by simp
  have st: "fetch_stable p ?p" using sp(2) by simp
  then show "dirty_flag p' = (dirty_flag p)(n := True)" "free_pages p' = free_pages p"
    "savepoints p' = savepoints p" "lookup_slot (committed_pages p') = lookup_slot (committed_pages p)"
    using ms(4,9,10,11) by (simp_all add: fetch_stable_def)
  show "disk_stable p p'" using disk_stable_trans [OF fetch_disk_stable [OF st] ms(8)] .
qed


section \<open>Forgetting a page\<close>

text \<open>What \<open>pager_free_page\<close> and the loop of \<open>pager_shrink\<close> do to a page: drop its frame, its dirty
  flag and its spill; \<open>committed\<close> is the new shadow table.\<close>

definition forget_page :: "pager \<Rightarrow> nat \<Rightarrow> page option list \<Rightarrow> pager" where
  "forget_page p n committed =
     (drop_frame p n)\<lparr>is_dirty := (is_dirty p)[n := False],
        dirty_page_spills := (dirty_page_spills p)[n := None], committed_pages := committed\<rparr>"

lemma drop_frame_fields [simp]:
  "is_dirty (drop_frame p n) = is_dirty p" "dirty_page_spills (drop_frame p n) = dirty_page_spills p"
  "committed_pages (drop_frame p n) = committed_pages p" "page_capacity (drop_frame p n) = page_capacity p"
  "num_pages (drop_frame p n) = num_pages p" "disk (drop_frame p n) = disk p"
  "file_length (drop_frame p n) = file_length p" "free_pages (drop_frame p n) = free_pages p"
  "in_transaction (drop_frame p n) = in_transaction p"
  "transaction_num_pages (drop_frame p n) = transaction_num_pages p"
  "transaction_file_length (drop_frame p n) = transaction_file_length p"
  "transaction_free_pages (drop_frame p n) = transaction_free_pages p"
  "savepoints (drop_frame p n) = savepoints p" "pin_barrier_active (drop_frame p n) = pin_barrier_active p"
  "pin_admissions (drop_frame p n) = pin_admissions p"
  by (simp_all add: drop_frame_def Let_def)

lemma drop_frame_uncached: "page_table p ! n = -1 \<Longrightarrow> drop_frame p n = p"
  by (simp add: drop_frame_def)

lemma drop_frame_dropped:
  assumes p: "pager_ok p" and n: "n < page_capacity p" and t: "page_table p ! n \<noteq> -1"
  obtains v where "v < MAX_BUFFER_POOL_SIZE" "f_page_num (frames p ! v) = n" "n \<noteq> INVALID_PAGE_NUM"
    "page_table p ! n = int v" "dropped p v n (drop_frame p n)"
proof -
  have te: "table_entry p n \<noteq> -1" using n t pager_arraysD(1) [OF p] by (simp add: table_entry_def)
  with p obtain v where v: "v < MAX_BUFFER_POOL_SIZE" "table_entry p n = int v"
    "f_page_num (frames p ! v) = n" "n \<noteq> INVALID_PAGE_NUM" by (rule cached_frame)
  have pt: "page_table p ! n = int v" using v(2) n pager_arraysD(1) [OF p] by (simp add: table_entry_def)
  have len: "length (frames p) = MAX_BUFFER_POOL_SIZE" using pager_framesD(1) [OF p v(1)] .
  obtain q where q: "lru_list p q" "set q = occupied p"
    using pager_okD(4) [OF p] by (auto simp: pager_lru_def)
  let ?p1 = "upd_frame v empty_frame p"
  have d: "drop_frame p n = (lru_remove ?p1 (int v))\<lparr>page_table := (page_table p)[n := -1]\<rparr>"
    using pt by (simp add: drop_frame_def Let_def empty_frame_def [abs_def])
  have "lru_list ?p1 q"
    using q(1) by (rule lru_list_frames_cong) (use len v(1) in \<open>simp_all add: nth_list_update_at\<close>)
  then have l: "lru_list (lru_remove ?p1 (int v)) (remove1 v q)"
    by (rule lru_list_remove) (use len v(1) in simp)
  have fr: "f_data (frames (lru_remove ?p1 (int v)) ! j) = f_data (frames p ! j)"
    "f_page_num (frames (lru_remove ?p1 (int v)) ! j) = (if j = v then INVALID_PAGE_NUM else f_page_num (frames p ! j))"
    "j \<noteq> v \<Longrightarrow> f_is_dirty (frames (lru_remove ?p1 (int v)) ! j) = f_is_dirty (frames p ! j)"
    "j \<noteq> v \<Longrightarrow> f_pin_count (frames (lru_remove ?p1 (int v)) ! j) = f_pin_count (frames p ! j)"
    if "j < MAX_BUFFER_POOL_SIZE" for j
    using that len v(1) by (simp_all add: nth_list_update_at)
  have occ: "occupied (drop_frame p n) = occupied p - {v}"
    using fr(2) by (auto simp: occupied_def d split: if_splits)
  have "distinct q" using q(1) by (simp add: lru_list_def)
  then have "lru_list (drop_frame p n) (remove1 v q)" "set (remove1 v q) = occupied (drop_frame p n)"
    using l q(2) occ by (simp_all add: d lru_list_def)
  then have lru: "pager_lru (drop_frame p n)" unfolding pager_lru_def by blast
  have "dropped p v n (drop_frame p n)"
    unfolding dropped_def using fr lru by (simp add: d)
  with that v pt show thesis by blast
qed

lemma forget_page_spec:
  assumes p: "pager_ok p" and n: "n < page_capacity p"
    and cs: "length committed = page_capacity p"
      "\<And>m. m \<noteq> n \<Longrightarrow> lookup_slot committed m = lookup_slot (committed_pages p) m"
      "\<And>img. lookup_slot committed n = Some img \<Longrightarrow> length img = PAGE_SIZE"
    and p': "p' = forget_page p n committed"
  shows "pager_ok p'" "table_entry p' n = -1" "dirty_flag p' = (dirty_flag p)(n := False)"
    and "\<And>m. m \<noteq> n \<Longrightarrow> table_entry p' m = table_entry p m"
    and "\<And>m. m \<noteq> n \<Longrightarrow> backing p' m = backing p m"
    and "view p' = (view p)(n := backing p' n)"
    and "coherent p \<Longrightarrow> coherent p'"
proof -
  have shadows: "pager_shadows p'"
  proof -
    have "(\<forall>img. dirty_page_spills p' ! m = Some img \<longrightarrow> length img = PAGE_SIZE) \<and>
        (\<forall>img. committed_pages p' ! m = Some img \<longrightarrow> length img = PAGE_SIZE)" if m: "m < page_capacity p" for m
    proof -
      have old: "(\<forall>img. dirty_page_spills p ! m = Some img \<longrightarrow> length img = PAGE_SIZE)"
        "(\<forall>img. committed_pages p ! m = Some img \<longrightarrow> length img = PAGE_SIZE)"
        using pager_okD(5) [OF p] m by (simp_all add: pager_shadows_def)
      show ?thesis
      proof (cases "m = n")
        case True
        then show ?thesis using cs(1,3) n pager_arraysD(3) [OF p]
          by (simp add: p' forget_page_def lookup_slot_def)
      next
        case False
        then have "committed ! m = committed_pages p ! m"
          using cs(1) cs(2) [OF False] m pager_arraysD(4) [OF p] by (simp add: lookup_slot_def)
        with False old show ?thesis by (simp add: p' forget_page_def)
      qed
    qed
    then show ?thesis using pager_okD(5) [OF p] by (auto simp: p' forget_page_def pager_shadows_def)
  qed
  have arrays: "length (is_dirty p') = page_capacity p" "length (dirty_page_spills p') = page_capacity p"
    "length (committed_pages p') = page_capacity p" "\<And>m. m \<noteq> n \<Longrightarrow> is_dirty p' ! m = is_dirty p ! m"
    using pager_arraysD [OF p] cs(1) by (simp_all add: p' forget_page_def)
  show df: "dirty_flag p' = (dirty_flag p)(n := False)"
    using n pager_arraysD(2) [OF p] by (auto simp: p' forget_page_def dirty_flag_def fun_eq_iff nth_list_update)
  show bk: "backing p' m = backing p m" if "m \<noteq> n" for m
    by (rule backing_cong) (simp_all add: p' forget_page_def cs(2) [OF that])
  have spill: "lookup_slot (dirty_page_spills p') m = lookup_slot (dirty_page_spills p) m" if "m \<noteq> n" for m
    using that by (simp add: p' forget_page_def lookup_slot_def)
  have src: "source p' m = source p m" if "m \<noteq> n" for m
    using that bk spill df by (auto simp: source_def)
  have srcn: "source p' n = backing p' n" using df by (simp add: source_def)
  have "pager_ok p' \<and> table_entry p' n = -1 \<and> (\<forall>m. m \<noteq> n \<longrightarrow> table_entry p' m = table_entry p m) \<and>
    view p' = (view p)(n := backing p' n) \<and> (coherent p \<longrightarrow> coherent p')"
  proof (cases "page_table p ! n = -1")
    case True
    then have eq: "p' = p\<lparr>is_dirty := (is_dirty p)[n := False],
        dirty_page_spills := (dirty_page_spills p)[n := None], committed_pages := committed\<rparr>"
      by (simp add: p' forget_page_def drop_frame_uncached)
    have nn: "f_page_num (frames p ! i) \<noteq> n \<or> n = INVALID_PAGE_NUM" if "i < MAX_BUFFER_POOL_SIZE" for i
      using pager_framesD(4) [OF p that] True by fastforce
    have te: "table_entry p' = table_entry p" by (simp add: eq table_entry_def fun_eq_iff)
    have te0: "table_entry p n = -1" using True by (simp add: table_entry_def)
    have "pager_frames p'"
    proof (unfold pager_frames_def, intro conjI allI impI)
      show "length (frames p') = MAX_BUFFER_POOL_SIZE"
        using pager_okD(2) [OF p] by (simp add: eq pager_frames_def)
    next
      fix i assume i: "i < MAX_BUFFER_POOL_SIZE"
      show "length (f_data (frames p' ! i)) = PAGE_SIZE" using pager_framesD(2) [OF p i] by (simp add: eq)
      assume "f_page_num (frames p' ! i) \<noteq> INVALID_PAGE_NUM"
      then have inv: "f_page_num (frames p ! i) \<noteq> INVALID_PAGE_NUM" by (simp add: eq)
      with nn [OF i] have "f_page_num (frames p ! i) \<noteq> n" by blast
      with pager_framesD(3-5) [OF p i inv]
      show "f_page_num (frames p' ! i) < num_pages p'"
        "page_table p' ! f_page_num (frames p' ! i) = int i"
        "f_is_dirty (frames p' ! i) = is_dirty p' ! f_page_num (frames p' ! i)" by (simp_all add: eq)
    qed
    moreover have "pager_arrays p'" "pager_table p'" "pager_lru p'"
      using pager_okD(1,3,4) [OF p] cs(1)
      by (simp_all add: eq pager_arrays_def pager_table_def pager_lru_def lru_list_def occupied_def)
    ultimately have ok: "pager_ok p'" using shadows by (simp add: pager_ok_def)
    have vw: "view p' m = ((view p)(n := backing p' n)) m" for m
      using te te0 src srcn by (simp add: view_def eq)
    have "coherent p'" if c: "coherent p"
    proof (rule coherentI)
      fix i assume i: "i < MAX_BUFFER_POOL_SIZE" "f_page_num (frames p' ! i) \<noteq> INVALID_PAGE_NUM"
        "\<not> f_is_dirty (frames p' ! i)"
      then have i': "f_page_num (frames p ! i) \<noteq> INVALID_PAGE_NUM" "\<not> f_is_dirty (frames p ! i)"
        by (simp_all add: eq)
      with nn [OF i(1)] have "f_page_num (frames p ! i) \<noteq> n" by blast
      with coherentD [OF c i(1) i'] bk show "f_data (frames p' ! i) = backing p' (f_page_num (frames p' ! i))"
        by (simp add: eq)
    qed
    with ok te te0 vw show ?thesis by (simp add: fun_eq_iff)
  next
    case False
    from p n False obtain v where v: "v < MAX_BUFFER_POOL_SIZE" "f_page_num (frames p ! v) = n"
      "n \<noteq> INVALID_PAGE_NUM" "page_table p ! n = int v" "dropped p v n (drop_frame p n)"
      by (rule drop_frame_dropped)
    have lru: "pager_lru ((drop_frame p n)\<lparr>is_dirty := a, dirty_page_spills := b, committed_pages := c\<rparr>) =
        pager_lru (drop_frame p n)" for a b c
      by (simp add: pager_lru_def lru_list_def occupied_def)
    have d: "dropped p v n p'"
      using v(5) unfolding dropped_def p' forget_page_def by (simp add: lru)
    have ok: "pager_ok p'" using p v(1-3) d arrays shadows by (rule dropped_core)
    note te = dropped_table_entry [OF p d]
    have vw: "view p' m = ((view p)(n := backing p' n)) m" for m
    proof (cases "table_entry p' m = -1")
      case True
      then show ?thesis using te src srcn by (cases "m = n") (simp_all add: view_def)
    next
      case False
      with te have mn: "m \<noteq> n" and t: "table_entry p' m = table_entry p m" "table_entry p m \<noteq> -1"
        by (auto split: if_splits)
      from p t(2) obtain i where i: "i < MAX_BUFFER_POOL_SIZE" "table_entry p m = int i"
        by (rule cached_frame)
      with mn t droppedD(2) [OF d i(1)] show ?thesis by (simp add: view_def)
    qed
    have "coherent p'" if c: "coherent p"
    proof (rule coherentI)
      fix i assume i: "i < MAX_BUFFER_POOL_SIZE" "f_page_num (frames p' ! i) \<noteq> INVALID_PAGE_NUM"
        "\<not> f_is_dirty (frames p' ! i)"
      note f = droppedD(2,3) [OF d i(1)]
      from i(2) f(2) have iv: "i \<noteq> v" "f_page_num (frames p ! i) \<noteq> INVALID_PAGE_NUM"
        "f_page_num (frames p' ! i) = f_page_num (frames p ! i)" by (auto split: if_splits)
      have "\<not> f_is_dirty (frames p ! i)" using droppedD(4) [OF d i(1) iv(1)] i(3) by simp
      moreover have "f_page_num (frames p ! i) \<noteq> n"
        using frame_inj [OF p i(1) v(1) _ v(2,3)] iv(1) by blast
      ultimately show "f_data (frames p' ! i) = backing p' (f_page_num (frames p' ! i))"
        using coherentD [OF c i(1) iv(2)] bk f(1) iv(3) by simp
    qed
    with ok te vw show ?thesis by (simp add: fun_eq_iff)
  qed
  then show "pager_ok p'" "table_entry p' n = -1" "\<And>m. m \<noteq> n \<Longrightarrow> table_entry p' m = table_entry p m"
    "view p' = (view p)(n := backing p' n)" "coherent p \<Longrightarrow> coherent p'" by blast+
qed


section \<open>Freeing, shrinking and allocating\<close>

lemma forget_page_fields [simp]:
  "page_capacity (forget_page p n cs) = page_capacity p" "num_pages (forget_page p n cs) = num_pages p"
  "free_pages (forget_page p n cs) = free_pages p" "savepoints (forget_page p n cs) = savepoints p"
  "committed_pages (forget_page p n cs) = cs" "disk_stable q (forget_page p n cs) = disk_stable q p"
  "disk (forget_page p n cs) = disk p" "file_length (forget_page p n cs) = file_length p"
  by (simp_all add: forget_page_def disk_stable_def)

lemma pager_free_page_eq:
  "pager_free_page p0 n =
     (if n = 0 then Inl Exit_Free_Page_Zero
      else if n = INVALID_PAGE_NUM \<or> n \<ge> num_pages p0 then Inl (Exit_Free_Invalid_Page n)
      else let p = pager_reserve_capacity p0 (n + 1)
           in Inr ((forget_page p n (committed_pages p))\<lparr>free_pages := free_pages p0 @ [n]\<rparr>))"
  by (simp add: pager_free_page_def forget_page_def Let_def)

lemma pager_ok_free_pages [simp]: "pager_ok (p\<lparr>free_pages := fs\<rparr>) = pager_ok p"
  by (simp add: pager_ok_def pager_arrays_def pager_frames_def pager_table_def pager_lru_def
      lru_list_def occupied_def pager_shadows_def)

lemma free_pages_views [simp]:
  "view (p\<lparr>free_pages := fs\<rparr>) = view p" "coherent (p\<lparr>free_pages := fs\<rparr>) = coherent p"
  "backing (p\<lparr>free_pages := fs\<rparr>) = backing p" "dirty_flag (p\<lparr>free_pages := fs\<rparr>) = dirty_flag p"
  "table_entry (p\<lparr>free_pages := fs\<rparr>) = table_entry p"
  "disk_stable q (p\<lparr>free_pages := fs\<rparr>) = disk_stable q p"
  by (auto simp: fun_eq_iff view_def coherent_def coherent_to_def backing_def dirty_flag_def table_entry_def source_def
      disk_stable_def cong: option.case_cong)

lemma pager_free_page_spec:
  assumes p0: "pager_ok p0" and f: "pager_free_page p0 n = Inr p'"
  shows "pager_ok p'" "n \<noteq> 0" "n < num_pages p0" "free_pages p' = free_pages p0 @ [n]"
    and "num_pages p' = num_pages p0" "dirty_flag p' = (dirty_flag p0)(n := False)"
    and "backing p' = backing p0" "view p' = (view p0)(n := backing p0 n)"
    and "coherent p0 \<Longrightarrow> coherent p'" "disk_stable p0 p'" "savepoints p' = savepoints p0"
    and "lookup_slot (committed_pages p') = lookup_slot (committed_pages p0)"
proof -
  define p where "p = pager_reserve_capacity p0 (n + 1)"
  have c: "n \<noteq> 0" "n \<noteq> INVALID_PAGE_NUM" "n < num_pages p0"
    and p': "p' = (forget_page p n (committed_pages p))\<lparr>free_pages := free_pages p0 @ [n]\<rparr>"
    using f by (auto simp: pager_free_page_eq Let_def p_def split: if_splits)
  then show "n \<noteq> 0" "n < num_pages p0" by simp_all
  have cap: "n < page_capacity p0" using c(3) pager_arraysD(6) [OF p0] by simp
  then have pp: "p = p0" by (simp add: p_def pager_reserve_capacity_def)
  let ?q = "forget_page p0 n (committed_pages p0)"
  have img: "length img = PAGE_SIZE" if "lookup_slot (committed_pages p0) n = Some img" for img
    using that pager_okD(1,5) [OF p0] by (auto simp: lookup_slot_def pager_shadows_def pager_arrays_def split: if_splits)
  note fs = forget_page_spec [OF p0 cap pager_arraysD(4) [OF p0] refl img refl]
  have bk: "backing ?q = backing p0" by (simp add: fun_eq_iff backing_def cong: option.case_cong)
  show "pager_ok p'" "free_pages p' = free_pages p0 @ [n]" "num_pages p' = num_pages p0"
    "dirty_flag p' = (dirty_flag p0)(n := False)" "backing p' = backing p0" "disk_stable p0 p'"
    "savepoints p' = savepoints p0"
    "lookup_slot (committed_pages p') = lookup_slot (committed_pages p0)"
    using fs(1,3) by (simp_all add: p' pp bk)
  show "view p' = (view p0)(n := backing p0 n)" using fs(6) by (simp add: p' pp bk)
  show "coherent p0 \<Longrightarrow> coherent p'" using fs(7) by (simp add: p' pp)
qed

text \<open>The free list holds distinct pages, never the root.\<close>

definition alloc_ok :: "pager \<Rightarrow> bool" where
  "alloc_ok p \<longleftrightarrow> distinct (free_pages p) \<and> set (free_pages p) \<subseteq> {1..<num_pages p}"

lemma get_unused_page_num_spec:
  assumes a: "alloc_ok p" and g: "get_unused_page_num p = Inr (n, p')"
  shows "alloc_ok p'" "n \<notin> set (free_pages p')" "n = num_pages p \<and> p' = p \<or> 0 < n \<and> n < num_pages p"
    and "p' = p\<lparr>free_pages := free_pages p'\<rparr>" "set (free_pages p') \<union> {n} = set (free_pages p) \<union> {n}"
proof -
  have cases: "free_pages p \<noteq> [] \<and> n = last (free_pages p) \<and> p\<lparr>free_pages := butlast (free_pages p)\<rparr> = p' \<or>
      free_pages p = [] \<and> num_pages p = n \<and> p = p'"
  proof (cases "free_pages p = []")
    case True
    with g have "num_pages p = n \<and> p = p'" unfolding get_unused_page_num_def by (auto split: if_splits)
    with True show ?thesis by blast
  next
    case False
    with g have "last (free_pages p) = n \<and> p\<lparr>free_pages := butlast (free_pages p)\<rparr> = p'"
      unfolding get_unused_page_num_def by (simp only: if_True sum.inject prod.inject simp_thms not_False_eq_True)
    with False show ?thesis by blast
  qed
  then consider "free_pages p \<noteq> []" "n = last (free_pages p)" "p' = p\<lparr>free_pages := butlast (free_pages p)\<rparr>"
    | "free_pages p = []" "n = num_pages p" "p' = p" by blast
  then have "alloc_ok p' \<and> n \<notin> set (free_pages p') \<and> (n = num_pages p \<and> p' = p \<or> 0 < n \<and> n < num_pages p) \<and>
    p' = p\<lparr>free_pages := free_pages p'\<rparr> \<and> set (free_pages p') \<union> {n} = set (free_pages p) \<union> {n}"
  proof cases
    case 1
    obtain fs where fs: "fs = free_pages p'" by simp
    have np: "num_pages p' = num_pages p" and eq: "p' = p\<lparr>free_pages := fs\<rparr>" using 1(3) fs by simp_all
    have split: "free_pages p = fs @ [n]" using 1 fs by simp
    from a have d: "distinct (fs @ [n])" "set (fs @ [n]) \<subseteq> {1..<num_pages p}"
      unfolding alloc_ok_def split by blast+
    from d have "alloc_ok p'" "n \<notin> set fs" "0 < n" "n < num_pages p"
      unfolding alloc_ok_def np fs [symmetric] by auto
    moreover have "set fs \<union> {n} = set (free_pages p) \<union> {n}" unfolding split by simp
    ultimately show ?thesis unfolding fs [symmetric] using eq by blast
  next
    case 2
    with a show ?thesis by (simp add: alloc_ok_def)
  qed
  then show "alloc_ok p'" "n \<notin> set (free_pages p')" "n = num_pages p \<and> p' = p \<or> 0 < n \<and> n < num_pages p"
    "p' = p\<lparr>free_pages := free_pages p'\<rparr>" "set (free_pages p') \<union> {n} = set (free_pages p) \<union> {n}"
    by blast+
qed


lemma shrink_page_eq:
  "shrink_page i p = (if i < page_capacity p then forget_page p i ((committed_pages p)[i := None]) else p)"
  by (simp add: shrink_page_def forget_page_def Let_def)

lemma shrink_page_spec:
  assumes p: "pager_ok p" and i: "i < page_capacity p"
  shows "pager_ok (shrink_page i p)" "table_entry (shrink_page i p) = (table_entry p)(i := -1)"
    and "dirty_flag (shrink_page i p) = (dirty_flag p)(i := False)"
    and "\<And>m. m \<noteq> i \<Longrightarrow> view (shrink_page i p) m = view p m"
    and "\<And>m. m \<noteq> i \<Longrightarrow> backing (shrink_page i p) m = backing p m"
    and "lookup_slot (committed_pages (shrink_page i p)) = (lookup_slot (committed_pages p))(i := None)"
    and "coherent p \<Longrightarrow> coherent (shrink_page i p)"
    and "page_capacity (shrink_page i p) = page_capacity p" "num_pages (shrink_page i p) = num_pages p"
    and "free_pages (shrink_page i p) = free_pages p" "savepoints (shrink_page i p) = savepoints p"
    and "disk_stable p (shrink_page i p)"
proof -
  let ?cs = "(committed_pages p)[i := None]"
  have eq: "shrink_page i p = forget_page p i ?cs" using i by (simp add: shrink_page_eq)
  have cs: "length ?cs = page_capacity p" using pager_arraysD(4) [OF p] by simp
  have lk: "lookup_slot ?cs = (lookup_slot (committed_pages p))(i := None)"
    by (simp add: lookup_slot_def fun_eq_iff nth_list_update)
  have oth: "lookup_slot ?cs m = lookup_slot (committed_pages p) m" if "m \<noteq> i" for m using that lk by simp
  have none: "length img = PAGE_SIZE" if "lookup_slot ?cs i = Some img" for img using that lk by simp
  note fs = forget_page_spec [OF p i cs oth none refl]
  show "pager_ok (shrink_page i p)" "dirty_flag (shrink_page i p) = (dirty_flag p)(i := False)"
    using fs(1,3) by (simp_all add: eq)
  show "table_entry (shrink_page i p) = (table_entry p)(i := -1)"
    using fs(2,4) by (auto simp: eq)
  show "view (shrink_page i p) m = view p m" if "m \<noteq> i" for m using fs(6) that by (simp add: eq)
  show "backing (shrink_page i p) m = backing p m" if "m \<noteq> i" for m using fs(5) that by (simp add: eq)
  show "coherent p \<Longrightarrow> coherent (shrink_page i p)" using fs(7) by (simp add: eq)
qed (use i in \<open>simp_all add: shrink_page_eq lookup_slot_def fun_eq_iff nth_list_update\<close>)

definition shrink_loop :: "nat \<Rightarrow> nat \<Rightarrow> pager \<Rightarrow> pager" where
  "shrink_loop lo hi p = fold shrink_page [lo..<hi] p"

lemma shrink_loop_spec:
  assumes p: "pager_ok p" and h: "lo \<le> hi" "hi \<le> page_capacity p"
  shows "pager_ok (shrink_loop lo hi p) \<and>
    (\<forall>m. table_entry (shrink_loop lo hi p) m = (if lo \<le> m \<and> m < hi then -1 else table_entry p m)) \<and>
    (\<forall>m. dirty_flag (shrink_loop lo hi p) m = (dirty_flag p m \<and> \<not> (lo \<le> m \<and> m < hi))) \<and>
    (\<forall>m. lookup_slot (committed_pages (shrink_loop lo hi p)) m =
       (if lo \<le> m \<and> m < hi then None else lookup_slot (committed_pages p) m)) \<and>
    (\<forall>m. \<not> (lo \<le> m \<and> m < hi) \<longrightarrow> view (shrink_loop lo hi p) m = view p m) \<and>
    (coherent p \<longrightarrow> coherent (shrink_loop lo hi p)) \<and>
    page_capacity (shrink_loop lo hi p) = page_capacity p \<and> num_pages (shrink_loop lo hi p) = num_pages p \<and>
    free_pages (shrink_loop lo hi p) = free_pages p \<and> savepoints (shrink_loop lo hi p) = savepoints p \<and>
    disk_stable p (shrink_loop lo hi p)"
  using h
proof (induction hi rule: dec_induct)
  case base
  then show ?case using p by (auto simp: shrink_loop_def)
next
  case (step n)
  let ?q = "shrink_loop lo n p"
  have eq: "shrink_loop lo (Suc n) p = shrink_page n ?q" using step.hyps by (simp add: shrink_loop_def)
  have "n \<le> page_capacity p" using step.prems by simp
  note IH = step.IH [OF this]
  then have ok: "pager_ok ?q" and n: "n < page_capacity ?q" using step.prems by simp_all
  note sp = shrink_page_spec [OF ok n]
  have rng: "(lo \<le> m \<and> m < Suc n) = (m = n \<or> lo \<le> m \<and> m < n)" for m using step.hyps by auto
  show ?case unfolding eq rng using sp(1-4,6-11) disk_stable_trans [OF _ sp(12), of p] IH by simp
qed

lemma pager_ok_num_pages:
  assumes p: "pager_ok p" and n: "n \<le> page_capacity p"
    and c: "\<And>i. i < MAX_BUFFER_POOL_SIZE \<Longrightarrow> f_page_num (frames p ! i) \<noteq> INVALID_PAGE_NUM \<Longrightarrow> f_page_num (frames p ! i) < n"
  shows "pager_ok (p\<lparr>num_pages := n\<rparr>)"
proof (rule pager_okI)
  let ?p = "p\<lparr>num_pages := n\<rparr>"
  show "pager_arrays ?p" "pager_table ?p" "pager_shadows ?p"
    using pager_okD(1,3,5) [OF p] n by (simp_all add: pager_arrays_def pager_table_def pager_shadows_def)
  show "pager_lru ?p" using pager_okD(4) [OF p] by (simp add: pager_lru_def lru_list_def occupied_def)
  show "pager_frames ?p" using pager_okD(2) [OF p] c by (simp add: pager_frames_def)
qed

lemma num_pages_views [simp]:
  "view (p\<lparr>num_pages := n\<rparr>) = view p" "coherent (p\<lparr>num_pages := n\<rparr>) = coherent p"
  "backing (p\<lparr>num_pages := n\<rparr>) = backing p" "dirty_flag (p\<lparr>num_pages := n\<rparr>) = dirty_flag p"
  "table_entry (p\<lparr>num_pages := n\<rparr>) = table_entry p"
  "disk_stable q (p\<lparr>num_pages := n\<rparr>) = disk_stable q p"
  by (auto simp: fun_eq_iff view_def coherent_def coherent_to_def backing_def dirty_flag_def table_entry_def source_def
      disk_stable_def cong: option.case_cong)

lemma pager_shrink_spec:
  assumes p: "pager_ok p" and s: "n < num_pages p" and p': "p' = pager_shrink p n"
  shows "pager_ok p'" "num_pages p' = n" "free_pages p' = filter (\<lambda>q. q < n) (free_pages p)"
    and "\<And>m. m < n \<or> num_pages p \<le> m \<Longrightarrow> view p' m = view p m"
    and "\<And>m. m < n \<or> num_pages p \<le> m \<Longrightarrow> dirty_flag p' m = dirty_flag p m"
    and "\<And>m. n \<le> m \<Longrightarrow> m < num_pages p \<Longrightarrow> \<not> dirty_flag p' m"
    and "\<And>m. lookup_slot (committed_pages p') m =
       (if n \<le> m \<and> m < num_pages p then None else lookup_slot (committed_pages p) m)"
    and "coherent p \<Longrightarrow> coherent p'" "disk_stable p p'" "savepoints p' = savepoints p"
    and "alloc_ok p \<Longrightarrow> alloc_ok p'" "page_capacity p' = page_capacity p"
proof -
  let ?q = "shrink_loop n (num_pages p) p"
  have hi: "num_pages p \<le> page_capacity p" using pager_arraysD(6) [OF p] .
  have ss: "n \<le> num_pages p" using s by simp
  note q = shrink_loop_spec [OF p ss hi]
  have eq: "p' = ?q\<lparr>free_pages := filter (\<lambda>q. q < n) (free_pages ?q), num_pages := n\<rparr>"
    using s by (simp add: p' pager_shrink_def shrink_loop_def Let_def)
  have okq: "pager_ok ?q" and npq: "num_pages ?q = num_pages p" and teq: "n \<le> m \<Longrightarrow> m < num_pages p \<Longrightarrow> table_entry ?q m = -1" for m
    using q by simp_all
  have low: "f_page_num (frames ?q ! i) < n"
    if i: "i < MAX_BUFFER_POOL_SIZE" "f_page_num (frames ?q ! i) \<noteq> INVALID_PAGE_NUM" for i
    using frame_cached(1,3) [OF okq i] teq [of "f_page_num (frames ?q ! i)"] npq by fastforce
  let ?r = "?q\<lparr>free_pages := filter (\<lambda>q. q < n) (free_pages ?q)\<rparr>"
  have "pager_ok ?r" using okq by simp
  then have "pager_ok (?r\<lparr>num_pages := n\<rparr>)" by (rule pager_ok_num_pages) (use q low s hi in simp_all)
  then show "pager_ok p'" unfolding eq .
  show "alloc_ok p \<Longrightarrow> alloc_ok p'" using q by (auto simp: eq alloc_ok_def)
  show "num_pages p' = n" "free_pages p' = filter (\<lambda>q. q < n) (free_pages p)"
    "\<And>m. m < n \<or> num_pages p \<le> m \<Longrightarrow> view p' m = view p m"
    "\<And>m. m < n \<or> num_pages p \<le> m \<Longrightarrow> dirty_flag p' m = dirty_flag p m"
    "\<And>m. n \<le> m \<Longrightarrow> m < num_pages p \<Longrightarrow> \<not> dirty_flag p' m"
    "\<And>m. lookup_slot (committed_pages p') m =
       (if n \<le> m \<and> m < num_pages p then None else lookup_slot (committed_pages p) m)"
    "coherent p \<Longrightarrow> coherent p'" "disk_stable p p'" "savepoints p' = savepoints p"
    "page_capacity p' = page_capacity p"
    using q by (auto simp: eq)
qed


section \<open>Pin counts\<close>

lemma frames_upd_pin [simp]:
  "f_page_num (frames (upd_frame i (\<lambda>f. f\<lparr>f_pin_count := k f\<rparr>) p) ! j) = f_page_num (frames p ! j)"
  "f_data (frames (upd_frame i (\<lambda>f. f\<lparr>f_pin_count := k f\<rparr>) p) ! j) = f_data (frames p ! j)"
  "f_is_dirty (frames (upd_frame i (\<lambda>f. f\<lparr>f_pin_count := k f\<rparr>) p) ! j) = f_is_dirty (frames p ! j)"
  "f_lru_prev (frames (upd_frame i (\<lambda>f. f\<lparr>f_pin_count := k f\<rparr>) p) ! j) = f_lru_prev (frames p ! j)"
  "f_lru_next (frames (upd_frame i (\<lambda>f. f\<lparr>f_pin_count := k f\<rparr>) p) ! j) = f_lru_next (frames p ! j)"
  "length (frames (upd_frame i (\<lambda>f. f\<lparr>f_pin_count := k f\<rparr>) p)) = length (frames p)"
  by (cases "i < length (frames p)"; simp add: nth_list_update list_update_beyond)+

lemma pin_update_ok [simp]:
  "pager_ok (upd_frame i (\<lambda>f. f\<lparr>f_pin_count := k f\<rparr>) p) = pager_ok p"
  "coherent (upd_frame i (\<lambda>f. f\<lparr>f_pin_count := k f\<rparr>) p) = coherent p"
  "view (upd_frame i (\<lambda>f. f\<lparr>f_pin_count := k f\<rparr>) p) = view p"
  "coherent_except S (upd_frame i (\<lambda>f. f\<lparr>f_pin_count := k f\<rparr>) p) = coherent_except S p"
  by (simp_all add: pager_ok_def pager_arrays_def pager_frames_def pager_table_def pager_lru_def
      lru_list_def occupied_def pager_shadows_def coherent_def coherent_to_def coherent_except_def view_def fun_eq_iff
      del: frames_upd_frame)

lemma unpin_cases:
  obtains "pager_unpin_page p n = p"
  | i k where "pager_unpin_page p n = upd_frame i (\<lambda>f. f\<lparr>f_pin_count := k f\<rparr>) p"
proof (cases "n \<ge> page_capacity p \<or> page_table p ! n = -1 \<or> f_pin_count (frames p ! nat (page_table p ! n)) = 0")
  case True
  then have "pager_unpin_page p n = p" unfolding pager_unpin_page_def Let_def by auto
  with that(1) show thesis .
next
  case False
  then have "pager_unpin_page p n =
      upd_frame (nat (page_table p ! n)) (\<lambda>f. f\<lparr>f_pin_count := f_pin_count f - 1\<rparr>) p"
    unfolding pager_unpin_page_def Let_def by simp
  with that(2) show thesis .
qed

lemma pager_unpin_page_conj:
  "(pager_ok (pager_unpin_page p n) = pager_ok p) \<and>
    (coherent (pager_unpin_page p n) = coherent p) \<and>
    (coherent_except S (pager_unpin_page p n) = coherent_except S p) \<and>
    (view (pager_unpin_page p n) = view p) \<and>
    (backing (pager_unpin_page p n) = backing p) \<and>
    (dirty_flag (pager_unpin_page p n) = dirty_flag p) \<and>
    (table_entry (pager_unpin_page p n) = table_entry p) \<and>
    (is_dirty (pager_unpin_page p n) = is_dirty p) \<and>
    (page_table (pager_unpin_page p n) = page_table p) \<and>
    (dirty_page_spills (pager_unpin_page p n) = dirty_page_spills p) \<and>
    (committed_pages (pager_unpin_page p n) = committed_pages p) \<and>
    (num_pages (pager_unpin_page p n) = num_pages p) \<and>
    (free_pages (pager_unpin_page p n) = free_pages p) \<and>
    (page_capacity (pager_unpin_page p n) = page_capacity p) \<and>
    (savepoints (pager_unpin_page p n) = savepoints p) \<and>
    (disk (pager_unpin_page p n) = disk p) \<and>
    (file_length (pager_unpin_page p n) = file_length p) \<and>
    (disk_stable q (pager_unpin_page p n) = disk_stable q p) \<and>
    (fetch_stable q (pager_unpin_page p n) = fetch_stable q p)"
  by (rule unpin_cases [of p n]) (simp_all add: disk_stable_def fetch_stable_def fun_eq_iff)

lemma pager_unpin_page_fields [simp]:
  "pager_ok (pager_unpin_page p n) = pager_ok p"
  "coherent (pager_unpin_page p n) = coherent p"
  "coherent_except S (pager_unpin_page p n) = coherent_except S p"
  "view (pager_unpin_page p n) = view p"
  "backing (pager_unpin_page p n) = backing p"
  "dirty_flag (pager_unpin_page p n) = dirty_flag p"
  "table_entry (pager_unpin_page p n) = table_entry p"
  "is_dirty (pager_unpin_page p n) = is_dirty p"
  "page_table (pager_unpin_page p n) = page_table p"
  "dirty_page_spills (pager_unpin_page p n) = dirty_page_spills p"
  "committed_pages (pager_unpin_page p n) = committed_pages p"
  "num_pages (pager_unpin_page p n) = num_pages p"
  "free_pages (pager_unpin_page p n) = free_pages p"
  "page_capacity (pager_unpin_page p n) = page_capacity p"
  "savepoints (pager_unpin_page p n) = savepoints p"
  "disk (pager_unpin_page p n) = disk p"
  "file_length (pager_unpin_page p n) = file_length p"
  "disk_stable q (pager_unpin_page p n) = disk_stable q p"
  "fetch_stable q (pager_unpin_page p n) = fetch_stable q p"
  using pager_unpin_page_conj [of p n] by blast+

end
