(* ===== verification/Wal.thy ===== *)
theory Wal
  imports FreeList
begin

text \<open>
  The write-ahead log of \<open>src/pager.c\<close>: the parser and the replay loop of \<open>recover_wal\<close> for its
  three formats (V2 with allocator state, V1, and the legacy one without a header), the record
  \<open>pager_commit\<close> appends, and what a crash can do to both: a torn record is ignored
  (\<open>commit_record_atomic\<close>), and an interrupted replay is repaired by the next one
  (\<open>recovery_survives_crash\<close>).
\<close>

definition WAL_TXN_MAGIC :: nat where "WAL_TXN_MAGIC = 0x57414c54"
definition WAL_TXN_V2_MAGIC :: nat where "WAL_TXN_V2_MAGIC = 0x57414c32"
definition WAL_COMMIT_MAGIC :: nat where "WAL_COMMIT_MAGIC = 0x57414c43"

section \<open>Transactions in the log\<close>

datatype wal_format = Wal_Legacy | Wal_V1 | Wal_V2

record wal_header =
  h_format :: wal_format
  h_page_count :: nat
  h_final_num_pages :: nat
  h_free_page_count :: nat

record wal_txn =
  t_format :: wal_format
  t_num_pages :: nat
  t_free_pages :: "nat list"
  t_pages :: "(nat \<times> page) list"

text \<open>\<open>read_bytes\<close> of a \<open>uint32_t\<close>; the log is the bytes from the read position on.\<close>

definition take_u32 :: "bytes \<Rightarrow> (nat \<times> bytes) option" where
  "take_u32 bs = (if length bs < 4 then None else Some (get_u32 (take 4 bs), drop 4 bs))"

definition read_header :: "bytes \<Rightarrow> (wal_header \<times> bytes) option" where
  "read_header bs =
     (case take_u32 bs of None \<Rightarrow> None | Some (first_word, r) \<Rightarrow>
       if first_word = WAL_TXN_V2_MAGIC then
         (case take_u32 r of None \<Rightarrow> None | Some (page_count, r1) \<Rightarrow>
           (case take_u32 r1 of None \<Rightarrow> None | Some (final_num_pages, r2) \<Rightarrow>
             (case take_u32 r2 of None \<Rightarrow> None | Some (free_page_count, r3) \<Rightarrow>
               Some (\<lparr>h_format = Wal_V2, h_page_count = page_count, h_final_num_pages = final_num_pages,
                      h_free_page_count = free_page_count\<rparr>, r3))))
       else if first_word = WAL_TXN_MAGIC then
         (case take_u32 r of None \<Rightarrow> None | Some (page_count, r1) \<Rightarrow>
           (case take_u32 r1 of None \<Rightarrow> None | Some (final_num_pages, r2) \<Rightarrow>
             Some (\<lparr>h_format = Wal_V1, h_page_count = page_count, h_final_num_pages = final_num_pages,
                    h_free_page_count = 0\<rparr>, r2)))
       else Some (\<lparr>h_format = Wal_Legacy, h_page_count = first_word, h_final_num_pages = 0,
                   h_free_page_count = 0\<rparr>, r))"

definition needed :: "wal_header \<Rightarrow> nat" where
  "needed h =
     h_page_count h * (4 + PAGE_SIZE) + 4 +
     (if h_format h = Wal_V2 then h_free_page_count h * 4 else 0)"

text \<open>The loop that reads page numbers and page images.\<close>

fun read_pages :: "wal_header \<Rightarrow> nat \<Rightarrow> bytes \<Rightarrow> ((nat \<times> page) list \<times> bytes) option" where
  "read_pages h 0 bs = Some ([], bs)"
| "read_pages h (Suc k) bs =
     (case take_u32 bs of None \<Rightarrow> None | Some (page_num, r) \<Rightarrow>
       if page_num = INVALID_PAGE_NUM
          \<or> (h_format h \<noteq> Wal_Legacy \<and> page_num \<ge> h_final_num_pages h)
          \<or> length r < PAGE_SIZE then None
       else (case read_pages h k (drop PAGE_SIZE r) of None \<Rightarrow> None | Some (pages, rest) \<Rightarrow>
               Some ((page_num, take PAGE_SIZE r) # pages, rest)))"

text \<open>One round of the loop of \<open>recover_wal\<close>: \<open>None\<close> is its \<open>break\<close>.\<close>

definition read_txn :: "bytes \<Rightarrow> (wal_txn \<times> bytes) option" where
  "read_txn bs =
     (case read_header bs of None \<Rightarrow> None | Some (h, r) \<Rightarrow>
       if (h_format h = Wal_Legacy \<and> h_page_count h = 0)
          \<or> (h_format h = Wal_V2 \<and> h_free_page_count h > h_final_num_pages h)
          \<or> needed h > length r then None
       else
         let free_page_count = (if h_format h = Wal_V2 then h_free_page_count h else 0);
             free_pages = map (\<lambda>i. get_u32 (slice (4 * i) 4 r)) [0..<free_page_count];
             r1 = drop (4 * free_page_count) r
         in if free_page_count > 0 \<and> \<not> validate_free_page_list (h_final_num_pages h) free_pages
            then None
            else (case read_pages h (h_page_count h) r1 of None \<Rightarrow> None | Some (pages, r2) \<Rightarrow>
                   (case take_u32 r2 of None \<Rightarrow> None | Some (commit_magic, rest) \<Rightarrow>
                     if commit_magic \<noteq> WAL_COMMIT_MAGIC then None
                     else Some (\<lparr>t_format = h_format h, t_num_pages = h_final_num_pages h,
                                 t_free_pages = free_pages, t_pages = pages\<rparr>, rest))))"

lemma take_u32_shorter: "take_u32 bs = Some (v, r) \<Longrightarrow> length bs = length r + 4"
  by (auto simp: take_u32_def split: if_splits)

lemma read_header_shorter: "read_header bs = Some (h, r) \<Longrightarrow> length r < length bs"
  by (auto simp: read_header_def split: option.splits if_splits dest!: take_u32_shorter)

lemma read_pages_shorter: "read_pages h k bs = Some (ps, r) \<Longrightarrow> length r \<le> length bs"
  by (induction h k bs arbitrary: ps rule: read_pages.induct)
    (fastforce split: option.splits if_splits prod.splits dest!: take_u32_shorter)+

lemma read_txn_shorter: "read_txn bs = Some (t, r) \<Longrightarrow> length r < length bs"
  by (auto simp: read_txn_def Let_def split: option.splits if_splits
      dest!: take_u32_shorter read_header_shorter read_pages_shorter) linarith

section \<open>Recovery\<close>

definition apply_pages :: "(nat \<times> page) list \<Rightarrow> bytes \<Rightarrow> bytes" where
  "apply_pages pages f = fold (\<lambda>(n, img) f. file_write (n * PAGE_SIZE) img f) pages f"

definition apply_txn :: "wal_txn \<Rightarrow> bytes \<Rightarrow> bytes" where
  "apply_txn t f =
     (let f1 = apply_pages (t_pages t) f
      in if t_format t \<noteq> Wal_Legacy then file_truncate (t_num_pages t * PAGE_SIZE) f1 else f1)"

text \<open>The database file, and the free-page state of the last V2 transaction.\<close>

type_synonym recovery = "bytes \<times> (nat \<times> nat list) option"

definition recover_step :: "wal_txn \<Rightarrow> recovery \<Rightarrow> recovery" where
  "recover_step t s =
     (apply_txn t (fst s),
      if t_format t = Wal_V2 then Some (t_num_pages t, t_free_pages t) else snd s)"

function recover_loop :: "bytes \<Rightarrow> recovery \<Rightarrow> recovery" where
  "recover_loop wal s =
     (if wal = [] then s
      else (case read_txn wal of None \<Rightarrow> s | Some (t, rest) \<Rightarrow> recover_loop rest (recover_step t s)))"
  by pat_completeness auto
termination
  by (relation "measure (\<lambda>(wal, s). length wal)") (auto dest: read_txn_shorter)

declare recover_loop.simps [simp del]

definition recover_wal :: "disk \<Rightarrow> pager_exit + disk" where
  "recover_wal d =
     (case d_wal d of None \<Rightarrow> Inr d | Some wal \<Rightarrow>
       let (f, free_state) = recover_loop wal (d_main d, None);
           d1 = d\<lparr>d_main := f\<rparr>
       in and_then (case free_state of None \<Rightarrow> Inr d1
                    | Some (n, free_pages) \<Rightarrow> persist_free_list_snapshot d1 n free_pages)
            (\<lambda>d2. Inr (d2\<lparr>d_wal := None\<rparr>)))"


section \<open>What a commit appends\<close>

definition page_record :: "nat \<times> page \<Rightarrow> bytes" where
  "page_record r = put_u32 (fst r) @ snd r"

definition encode_txn :: "nat \<Rightarrow> nat list \<Rightarrow> (nat \<times> page) list \<Rightarrow> bytes" where
  "encode_txn num_pages free_pages pages =
     put_u32 WAL_TXN_V2_MAGIC @ put_u32 (length pages) @ put_u32 num_pages
     @ put_u32 (length free_pages) @ concat (map put_u32 free_pages)
     @ concat (map page_record pages) @ put_u32 WAL_COMMIT_MAGIC"

definition txn_ok :: "nat \<Rightarrow> nat list \<Rightarrow> (nat \<times> page) list \<Rightarrow> bool" where
  "txn_ok num_pages free_pages pages \<longleftrightarrow>
     num_pages \<le> UINT32_MAX \<and> validate_free_page_list num_pages free_pages \<and>
     length pages \<le> num_pages \<and> (\<forall>(n, img) \<in> set pages. n < num_pages \<and> length img = PAGE_SIZE)"

definition v2_txn :: "nat \<Rightarrow> nat list \<Rightarrow> (nat \<times> page) list \<Rightarrow> wal_txn" where
  "v2_txn num_pages free_pages pages =
     \<lparr>t_format = Wal_V2, t_num_pages = num_pages, t_free_pages = free_pages, t_pages = pages\<rparr>"

lemma take_u32_put [simp]: "n < 2 ^ 32 \<Longrightarrow> take_u32 (put_u32 n @ bs) = Some (n, bs)"
  by (simp add: take_u32_def n32.dec_enc)

lemma read_pages_encode:
  assumes "\<forall>(n, img) \<in> set pages. n < h_final_num_pages h \<and> length img = PAGE_SIZE"
    and "h_final_num_pages h \<le> UINT32_MAX"
  shows "read_pages h (length pages) (concat (map page_record pages) @ rest) = Some (pages, rest)"
  using assms(1)
proof (induction pages)
  case (Cons r pages)
  obtain n img where r: "r = (n, img)" by (cases r)
  have n: "n < 2 ^ 32" "n \<noteq> INVALID_PAGE_NUM" "length img = PAGE_SIZE" "n < h_final_num_pages h"
    using Cons.prems assms(2) r by (auto simp: UINT32_MAX_def INVALID_PAGE_NUM_def)
  have "read_pages h (length pages) (concat (map page_record pages) @ rest) = Some (pages, rest)"
    using Cons by simp
  moreover have "page_record (n, img) = put_u32 n @ img" by (simp add: page_record_def)
  ultimately show ?case using n by (simp add: r)
qed simp

lemma magics [simp]:
  "WAL_TXN_V2_MAGIC < 4294967296" "WAL_TXN_MAGIC < 4294967296" "WAL_COMMIT_MAGIC < 4294967296"
  by (simp_all add: WAL_TXN_V2_MAGIC_def WAL_TXN_MAGIC_def WAL_COMMIT_MAGIC_def)

lemma length_page_records:
  "\<forall>(n, img) \<in> set pages. n < k \<and> length img = PAGE_SIZE \<Longrightarrow>
   length (concat (map page_record pages)) = length pages * (4 + PAGE_SIZE)"
  by (induction pages) (auto simp: page_record_def)

lemma txn_okD:
  assumes "txn_ok n fs ps"
  shows "n < 2 ^ 32" "length ps < 2 ^ 32" "length fs < 2 ^ 32" "length fs \<le> n" "\<forall>p\<in>set fs. p < 2 ^ 32"
    and "length (concat (map page_record ps)) = length ps * (4 + PAGE_SIZE)"
proof -
  have d: "distinct fs" "set fs \<subseteq> {1..<n}" and n: "n \<le> UINT32_MAX" "length ps \<le> n"
    using assms by (auto simp: txn_ok_def validate_free_page_list_iff)
  have l: "length fs \<le> n" using d by (rule length_le_of_distinct_pages)
  with n d show "n < 2 ^ 32" "length ps < 2 ^ 32" "length fs < 2 ^ 32" "length fs \<le> n" "\<forall>p\<in>set fs. p < 2 ^ 32"
    by (auto simp: UINT32_MAX_def)
  show "length (concat (map page_record ps)) = length ps * (4 + PAGE_SIZE)"
    using assms by (intro length_page_records [of _ n]) (simp add: txn_ok_def)
qed

abbreviation v2_header :: "nat \<Rightarrow> nat list \<Rightarrow> (nat \<times> page) list \<Rightarrow> wal_header" where
  "v2_header n fs ps \<equiv> \<lparr>h_format = Wal_V2, h_page_count = length ps, h_final_num_pages = n,
     h_free_page_count = length fs\<rparr>"

lemma read_header_v2:
  assumes "txn_ok n fs ps"
  shows "read_header (put_u32 WAL_TXN_V2_MAGIC @ put_u32 (length ps) @ put_u32 n @ put_u32 (length fs) @ r) =
    Some (v2_header n fs ps, r)"
  using txn_okD [OF assms] by (simp add: read_header_def)

lemma read_txn_encode:
  assumes t: "txn_ok n fs ps"
  shows "read_txn (encode_txn n fs ps @ rest) = Some (v2_txn n fs ps, rest)"
proof -
  note d = txn_okD [OF t]
  let ?r = "concat (map put_u32 fs) @ concat (map page_record ps) @ put_u32 WAL_COMMIT_MAGIC @ rest"
  have h: "read_header (encode_txn n fs ps @ rest) = Some (v2_header n fs ps, ?r)"
    using read_header_v2 [OF t, of ?r] by (simp add: encode_txn_def)
  have fs: "map (\<lambda>i. get_u32 (slice (4 * i) 4 ?r)) [0..<length fs] = fs"
    by (rule n32.take_dec_all) (use d in simp)
  have dr: "drop (4 * length fs) ?r = concat (map page_record ps) @ put_u32 WAL_COMMIT_MAGIC @ rest" by simp
  have ps: "read_pages (v2_header n fs ps) (length ps)
      (concat (map page_record ps) @ put_u32 WAL_COMMIT_MAGIC @ rest) = Some (ps, put_u32 WAL_COMMIT_MAGIC @ rest)"
    by (rule read_pages_encode) (use t in \<open>auto simp: txn_ok_def\<close>)
  have len: "needed (v2_header n fs ps) \<le> length ?r" using d(6) by (simp add: needed_def)
  have v: "validate_free_page_list n fs" using t by (simp add: txn_ok_def)
  show ?thesis
    unfolding read_txn_def h using fs dr ps len v d(4) by (simp add: Let_def v2_txn_def)
qed

lemma length_encode_txn:
  "txn_ok n fs ps \<Longrightarrow> length (encode_txn n fs ps) = 16 + needed (v2_header n fs ps)"
  using txn_okD(6) [of n fs ps] by (simp add: encode_txn_def needed_def)

text \<open>A log record cut anywhere is not a transaction.\<close>

lemma read_txn_torn:
  assumes t: "txn_ok n fs ps" and k: "k < length (encode_txn n fs ps)"
  shows "read_txn (take k (encode_txn n fs ps)) = None"
proof (cases "k < 16")
  case True
  let ?e = "take k (encode_txn n fs ps)"
  have len: "length ?e = k" using k by simp
  have "read_header ?e = None"
  proof (cases "k < 4")
    case True
    then show ?thesis using len by (simp add: read_header_def take_u32_def)
  next
    case False
    have "take_u32 ?e = Some (WAL_TXN_V2_MAGIC, drop 4 ?e)"
      using False len by (simp add: take_u32_def encode_txn_def n32.dec_enc)
    moreover have "length (drop 4 ?e) < 12" using True len by simp
    ultimately show ?thesis by (auto simp: read_header_def take_u32_def)
  qed
  then show ?thesis by (simp add: read_txn_def)
next
  case False
  let ?r = "concat (map put_u32 fs) @ concat (map page_record ps) @ put_u32 WAL_COMMIT_MAGIC"
  have "take k (encode_txn n fs ps) = put_u32 WAL_TXN_V2_MAGIC @ put_u32 (length ps) @ put_u32 n
      @ put_u32 (length fs) @ take (k - 16) ?r"
    using False by (simp add: encode_txn_def)
  then have h: "read_header (take k (encode_txn n fs ps)) = Some (v2_header n fs ps, take (k - 16) ?r)"
    using read_header_v2 [OF t] by simp
  have "length (take (k - 16) ?r) < needed (v2_header n fs ps)"
    using k False length_encode_txn [OF t] by (simp add: needed_def)
  then show ?thesis unfolding read_txn_def h by simp
qed


section \<open>Replaying a log\<close>

type_synonym log_txn = "nat \<times> nat list \<times> (nat \<times> page) list"

definition log_bytes :: "log_txn list \<Rightarrow> bytes" where
  "log_bytes ts = concat (map (\<lambda>(n, fs, ps). encode_txn n fs ps) ts)"

definition log_ok :: "log_txn list \<Rightarrow> bool" where
  "log_ok ts \<longleftrightarrow> (\<forall>(n, fs, ps) \<in> set ts. txn_ok n fs ps)"

definition log_txns :: "log_txn list \<Rightarrow> wal_txn list" where
  "log_txns ts = map (\<lambda>(n, fs, ps). v2_txn n fs ps) ts"

lemma encode_txn_nonempty [simp]: "encode_txn n fs ps \<noteq> []"
proof
  assume "encode_txn n fs ps = []"
  then have "length (encode_txn n fs ps) = 0" by simp
  then show False by (simp add: encode_txn_def)
qed

lemma recover_loop_Nil [simp]: "recover_loop [] s = s"
  by (simp add: recover_loop.simps)

lemma recover_loop_stop: "read_txn wal = None \<Longrightarrow> recover_loop wal s = s"
  by (simp add: recover_loop.simps)

lemma recover_loop_txn:
  "txn_ok n fs ps \<Longrightarrow>
   recover_loop (encode_txn n fs ps @ rest) s = recover_loop rest (recover_step (v2_txn n fs ps) s)"
  using read_txn_encode [of n fs ps rest] by (simp add: recover_loop.simps [of "encode_txn n fs ps @ rest"])

lemma recover_loop_log:
  "log_ok ts \<Longrightarrow>
   recover_loop (log_bytes ts @ rest) s = recover_loop rest (fold recover_step (log_txns ts) s)"
proof (induction ts arbitrary: s)
  case (Cons t ts)
  obtain n fs ps where t: "t = (n, fs, ps)" by (cases t)
  with Cons.prems have "txn_ok n fs ps" "log_ok ts" by (auto simp: log_ok_def)
  with Cons.IH show ?case by (simp add: t log_bytes_def log_txns_def recover_loop_txn)
qed (simp add: log_bytes_def log_txns_def)

text \<open>What a crash during the next commit can leave at the end of the log: a proper prefix of its
  record. It is ignored.\<close>

lemma recover_loop_torn:
  assumes "log_ok ts" and "txn_ok n fs ps" and "k < length (encode_txn n fs ps)"
  shows "recover_loop (log_bytes ts @ take k (encode_txn n fs ps)) s = fold recover_step (log_txns ts) s"
  using assms recover_loop_log [OF assms(1)]
  by (simp add: recover_loop_stop read_txn_torn)

section \<open>Recovery after a crash during recovery\<close>

text \<open>The file operations of a replay.\<close>

datatype file_op = Write_At nat bytes | Cut_To nat

fun run_op :: "file_op \<Rightarrow> bytes \<Rightarrow> bytes" where
  "run_op (Write_At off bs) f = file_write off bs f"
| "run_op (Cut_To len) f = file_truncate len f"

definition txn_ops :: "wal_txn \<Rightarrow> file_op list" where
  "txn_ops t =
     map (\<lambda>(n, img). Write_At (n * PAGE_SIZE) img) (t_pages t)
     @ (if t_format t \<noteq> Wal_Legacy then [Cut_To (t_num_pages t * PAGE_SIZE)] else [])"

function wal_txns :: "bytes \<Rightarrow> wal_txn list" where
  "wal_txns wal =
     (if wal = [] then []
      else (case read_txn wal of None \<Rightarrow> [] | Some (t, rest) \<Rightarrow> t # wal_txns rest))"
  by pat_completeness auto
termination
  by (relation "measure length") (auto dest: read_txn_shorter)

declare wal_txns.simps [simp del]

definition replay_ops :: "bytes \<Rightarrow> file_op list" where
  "replay_ops wal = concat (map txn_ops (wal_txns wal))"

definition run_ops :: "file_op list \<Rightarrow> bytes \<Rightarrow> bytes" where
  "run_ops ops f = fold run_op ops f"

lemma apply_txn_ops: "apply_txn t f = run_ops (txn_ops t) f"
proof -
  have "apply_pages ps f = run_ops (map (\<lambda>(n, img). Write_At (n * PAGE_SIZE) img) ps) f" for ps f
    by (induction ps arbitrary: f) (auto simp: apply_pages_def run_ops_def)
  then show ?thesis by (simp add: apply_txn_def txn_ops_def run_ops_def)
qed

lemma recover_loop_txns: "recover_loop wal s = fold recover_step (wal_txns wal) s"
proof (induction wal s rule: recover_loop.induct)
  case (1 wal s)
  show ?case
  proof (cases "wal = [] \<or> read_txn wal = None")
    case True
    then show ?thesis by (auto simp: recover_loop.simps [of wal] wal_txns.simps [of wal])
  next
    case False
    then obtain t rest where r: "read_txn wal = Some (t, rest)" by fastforce
    with False 1 show ?thesis by (simp add: recover_loop.simps [of wal] wal_txns.simps [of wal])
  qed
qed

lemma recover_steps_file: "fst (fold recover_step ts s) = run_ops (concat (map txn_ops ts)) (fst s)"
  by (induction ts arbitrary: s) (auto simp: recover_step_def apply_txn_ops run_ops_def)

lemma recover_steps_free: "snd s = snd s' \<Longrightarrow> snd (fold recover_step ts s) = snd (fold recover_step ts s')"
  by (induction ts arbitrary: s s') (auto simp: recover_step_def)

text \<open>The byte at an offset; a file continues with zeros behind its end.\<close>

definition byte_at :: "bytes \<Rightarrow> nat \<Rightarrow> u8" where
  "byte_at f b = (if b < length f then f ! b else 0)"

lemma file_eqI: "length f = length g \<Longrightarrow> byte_at f = byte_at g \<Longrightarrow> f = g"
  by (intro nth_equalityI) (auto simp: byte_at_def fun_eq_iff split: if_splits)

fun touches :: "file_op \<Rightarrow> nat \<Rightarrow> bool" where
  "touches (Write_At off bs) b \<longleftrightarrow> off \<le> b \<and> b < off + length bs"
| "touches (Cut_To len) b \<longleftrightarrow> len \<le> b"

fun value_of :: "file_op \<Rightarrow> nat \<Rightarrow> u8" where
  "value_of (Write_At off bs) b = bs ! (b - off)"
| "value_of (Cut_To len) b = 0"

lemma byte_at_run_op: "byte_at (run_op op f) b = (if touches op b then value_of op b else byte_at f b)"
proof (cases op)
  case (Write_At off bs)
  let ?g = "f @ replicate (off - length f) 0"
  have g: "byte_at ?g b = byte_at f b" by (auto simp: byte_at_def nth_append)
  have len: "off \<le> length ?g" by simp
  show ?thesis
  proof (cases "off \<le> b \<and> b < off + length bs")
    case True
    then show ?thesis by (auto simp: Write_At byte_at_def file_write_def Let_def nth_append min_def)
  next
    case False
    then have "byte_at (file_write off bs f) b = byte_at ?g b"
      by (auto simp: byte_at_def file_write_def Let_def nth_append min_def not_less)
    with False g show ?thesis by (auto simp: Write_At)
  qed
qed (auto simp: byte_at_def file_truncate_def nth_append)

lemma run_ops_agree:
  assumes "\<And>b. \<forall>op\<in>set ops. \<not> touches op b \<Longrightarrow> byte_at f b = byte_at g b"
  shows "byte_at (run_ops ops f) = byte_at (run_ops ops g)"
  using assms
proof (induction ops arbitrary: f g)
  case (Cons op ops)
  have "byte_at (run_ops ops (run_op op f)) = byte_at (run_ops ops (run_op op g))"
    by (rule Cons.IH) (use Cons.prems in \<open>simp add: byte_at_run_op\<close>)
  then show ?case by (simp add: run_ops_def)
qed (auto simp: run_ops_def fun_eq_iff)

fun length_after :: "file_op list \<Rightarrow> nat \<Rightarrow> nat" where
  "length_after [] l = l"
| "length_after (Write_At off bs # ops) l = length_after ops (max l (off + length bs))"
| "length_after (Cut_To len # ops) l = length_after ops len"

lemma length_run_ops: "length (run_ops ops f) = length_after ops (length f)"
  by (induction ops "length f" arbitrary: f rule: length_after.induct)
    (simp_all add: run_ops_def length_file_write)

definition cuts :: "file_op list \<Rightarrow> bool" where
  "cuts ops \<longleftrightarrow> (\<exists>len. Cut_To len \<in> set ops)"

lemma cuts_simps [simp]:
  "cuts [] = False" "cuts (Write_At off bs # ops) = cuts ops" "cuts (Cut_To len # ops) = True"
  by (auto simp: cuts_def)

lemma length_after_cuts: "cuts ops \<Longrightarrow> length_after ops l = length_after ops l'"
proof (induction ops arbitrary: l l')
  case (Cons op ops)
  show ?case
  proof (cases op)
    case (Write_At off bs)
    with Cons.prems have "cuts ops" by simp
    from Cons.IH [OF this] show ?thesis by (simp only: Write_At length_after.simps)
  qed simp
qed simp

lemma length_after_no_cut: "\<not> cuts ops \<Longrightarrow> length_after ops l = max l (length_after ops 0)"
proof (induction ops arbitrary: l)
  case (Cons op ops)
  then obtain off bs where op: "op = Write_At off bs" "\<not> cuts ops" by (cases op) auto
  have IH: "length_after ops m = max m (length_after ops 0)" for m using Cons.IH op(2) .
  show ?case unfolding op(1) length_after.simps
    using IH [of "max l (off + length bs)"] IH [of "max 0 (off + length bs)"] by linarith
qed simp

text \<open>
  A main file that the operations \<open>ops\<close> may have left when a crash interrupted them: bytes that
  no operation writes or cuts are the old ones, any of the others may be anything, and without a
  truncation the length lies between the old and the new one. It covers torn, reordered and
  repeated writes.
\<close>

definition interrupted :: "file_op list \<Rightarrow> bytes \<Rightarrow> bytes \<Rightarrow> bool" where
  "interrupted ops f g \<longleftrightarrow>
     (\<forall>b. (\<forall>op\<in>set ops. \<not> touches op b) \<longrightarrow> byte_at g b = byte_at f b) \<and>
     (cuts ops \<or> length f \<le> length g \<and> length g \<le> length (run_ops ops f))"

lemma run_ops_interrupted:
  assumes "interrupted ops f g"
  shows "run_ops ops g = run_ops ops f"
proof (rule file_eqI)
  show "byte_at (run_ops ops g) = byte_at (run_ops ops f)"
    by (rule run_ops_agree) (use assms in \<open>simp add: interrupted_def\<close>)
  show "length (run_ops ops g) = length (run_ops ops f)"
  proof (cases "cuts ops")
    case True
    then show ?thesis unfolding length_run_ops by (rule length_after_cuts)
  next
    case False
    with assms have "length f \<le> length g" "length g \<le> length_after ops (length f)"
      by (auto simp: interrupted_def length_run_ops)
    with length_after_no_cut [OF False, of "length f"] length_after_no_cut [OF False, of "length g"]
    show ?thesis unfolding length_run_ops by linarith
  qed
qed

text \<open>The files after some of the operations, the last of them torn, are such files.\<close>

lemma touches_run_ops: "\<forall>op\<in>set ops. \<not> touches op b \<Longrightarrow> byte_at (run_ops ops f) b = byte_at f b"
  by (induction ops arbitrary: f) (simp_all add: run_ops_def byte_at_run_op)

lemma interrupted_prefix:
  assumes "ops = done @ Write_At off bs # rest" and "g = run_ops (done @ [Write_At off (take k bs)]) f"
  shows "interrupted ops f g"
proof (unfold interrupted_def, intro conjI allI impI)
  fix b assume "\<forall>op\<in>set ops. \<not> touches op b"
  then have "\<forall>op\<in>set (done @ [Write_At off (take k bs)]). \<not> touches op b" using assms(1) by auto
  then show "byte_at g b = byte_at f b" unfolding assms(2) by (rule touches_run_ops)
next
  show "cuts ops \<or> length f \<le> length g \<and> length g \<le> length (run_ops ops f)"
  proof (cases "cuts ops")
    case False
    have app: "length_after (xs @ ys) l = length_after ys (length_after xs l)" for xs ys l
      by (induction xs l rule: length_after.induct) auto
    have nc: "\<not> cuts done" "\<not> cuts rest" using False by (auto simp: assms(1) cuts_def)
    have "length g = max (length_after done (length f)) (off + length (take k bs))"
      by (simp add: assms(2) length_run_ops app)
    moreover have "length (run_ops ops f) =
        max (max (length_after done (length f)) (off + length bs)) (length_after rest 0)"
      using length_after_no_cut [OF nc(2), of "max (length_after done (length f)) (off + length bs)"]
      by (simp add: assms(1) length_run_ops app)
    moreover have "length f \<le> length_after done (length f)"
      using length_after_no_cut [OF nc(1), of "length f"] by simp
    moreover have "length (take k bs) \<le> length bs" by simp
    ultimately show ?thesis by linarith
  qed simp
qed

text \<open>C28. Recovery may itself crash at any point: when the main file has been overwritten in any of
  the ways an interrupted replay can leave it, in whatever order the writes reached the disk, and
  the log is still there, the next recovery ends with exactly the files of an undisturbed one.\<close>

theorem recovery_survives_crash:
  assumes "d_wal d = Some wal" and "d_wal crash = Some wal"
    and "interrupted (replay_ops wal) (d_main d) (d_main crash)"
    and "(\<exists>t\<in>set (wal_txns wal). t_format t = Wal_V2) \<or>
      d_free crash = d_free d \<and> d_free_wal crash = d_free_wal d"
  shows "recover_wal crash = recover_wal d"
proof -
  have main: "fst (recover_loop wal (d_main crash, None)) = fst (recover_loop wal (d_main d, None))"
    using run_ops_interrupted [OF assms(3)] by (simp add: recover_loop_txns recover_steps_file replay_ops_def)
  have free: "snd (recover_loop wal (d_main crash, None)) = snd (recover_loop wal (d_main d, None))"
    unfolding recover_loop_txns by (rule recover_steps_free) simp
  obtain f fr where r: "recover_loop wal (d_main d, None) = (f, fr)"
    "recover_loop wal (d_main crash, None) = (f, fr)"
    using main free by (metis prod.collapse)
  have some: "fr \<noteq> None" if "\<exists>t\<in>set (wal_txns wal). t_format t = Wal_V2"
  proof -
    have "snd (fold recover_step ts s) \<noteq> None" if "(\<exists>t\<in>set ts. t_format t = Wal_V2) \<or> snd s \<noteq> None" for ts s
      using that
    proof (induction ts arbitrary: s)
      case (Cons t ts)
      have "(\<exists>t\<in>set ts. t_format t = Wal_V2) \<or> snd (recover_step t s) \<noteq> None"
        using Cons.prems by (auto simp: recover_step_def)
      from Cons.IH [OF this] show ?case by simp
    qed simp
    with that have "snd (fold recover_step (wal_txns wal) (d_main d, None)) \<noteq> None" by blast
    with r(1) show ?thesis by (simp add: recover_loop_txns)
  qed
  show ?thesis
  proof (cases fr)
    case (Some nf)
    obtain n fs where nf: "nf = (n, fs)" by (cases nf)
    show ?thesis
      using assms(1,2) r Some nf by (simp add: recover_wal_def persist_free_list_snapshot_def Let_def)
  next
    case None
    with some assms(4) have "d_free crash = d_free d" "d_free_wal crash = d_free_wal d" by blast+
    then show ?thesis using assms(1,2) r None by (simp add: recover_wal_def)
  qed
qed


lemma wal_txns_one:
  "txn_ok n fs ps \<Longrightarrow> wal_txns (encode_txn n fs ps) = [v2_txn n fs ps]"
  using read_txn_encode [of n fs ps "[]"]
  by (simp add: wal_txns.simps [of "encode_txn n fs ps"] wal_txns.simps [of "[]"])

theorem recovery_survives_crash_witness:
  "recover_wal \<lparr>d_main = [7, 7, 7], d_wal = Some (encode_txn 1 [] [(0, zero_page)]), d_free = Some [1],
      d_free_wal = Some [2, 3]\<rparr> =
   recover_wal \<lparr>d_main = [], d_wal = Some (encode_txn 1 [] [(0, zero_page)]), d_free = None,
      d_free_wal = None\<rparr>"
proof -
  have ok: "txn_ok 1 [] [(0, zero_page)]"
    by (simp add: txn_ok_def UINT32_MAX_def validate_free_page_list_iff)
  have ops: "replay_ops (encode_txn 1 [] [(0, zero_page)]) = [Write_At 0 zero_page, Cut_To PAGE_SIZE]"
    by (simp add: replay_ops_def wal_txns_one [OF ok] txn_ops_def v2_txn_def del: One_nat_def)
  have v2: "\<exists>t\<in>set (wal_txns (encode_txn 1 [] [(0, zero_page)])). t_format t = Wal_V2"
    by (simp add: wal_txns_one [OF ok] v2_txn_def del: One_nat_def)
  have i: "interrupted (replay_ops (encode_txn 1 [] [(0, zero_page)])) [] [7, 7, 7]"
    unfolding ops by (auto simp: interrupted_def not_less PAGE_SIZE_def)
  show ?thesis
    by (rule recovery_survives_crash [where wal = "encode_txn 1 [] [(0, zero_page)]"]) (use i v2 in simp_all)
qed

text \<open>A commit record is atomic: whatever prefix of it a crash leaves behind the complete
  records of the log, replaying the log applies exactly the complete transactions, and the new one
  as soon as its last byte is there.\<close>

theorem commit_record_atomic:
  assumes "log_ok ts" and "txn_ok n fs ps" and "k \<le> length (encode_txn n fs ps)"
  shows "recover_loop (log_bytes ts @ take k (encode_txn n fs ps)) s =
    fold recover_step (log_txns ts @ (if k = length (encode_txn n fs ps) then [v2_txn n fs ps] else [])) s"
proof (cases "k = length (encode_txn n fs ps)")
  case True
  have "log_ok (ts @ [(n, fs, ps)])" using assms by (simp add: log_ok_def)
  from recover_loop_log [OF this, of "[]" s] True show ?thesis
    by (simp add: log_bytes_def log_txns_def)
next
  case False
  with recover_loop_torn [OF assms(1,2), of k s] assms(3) show ?thesis by simp
qed

theorem commit_record_atomic_witness:
  "recover_loop (log_bytes [(1, [], [(0, zero_page)])] @ take 4500 (encode_txn 3 [2] [(1, zero_page), (0, zero_page)]))
     ([], None) = (zero_page, Some (1, []))"
proof -
  have ok: "txn_ok 1 [] [(0, zero_page)]" "txn_ok 3 [2] [(1, zero_page), (0, zero_page)]"
    by (simp_all add: txn_ok_def UINT32_MAX_def validate_free_page_list_iff)
  have len: "length (encode_txn 3 [2] [(1, zero_page), (0, zero_page)]) = 8224"
    by (simp add: length_encode_txn [OF ok(2)] needed_def PAGE_SIZE_def del: One_nat_def)
  show ?thesis
    using commit_record_atomic [of "[(1, [], [(0, zero_page)])]" 3 "[2]" "[(1, zero_page), (0, zero_page)]" 4500 "([], None)"]
      ok len
    by (simp add: log_ok_def log_txns_def v2_txn_def recover_step_def apply_txn_def apply_pages_def
        file_write_def file_truncate_def PAGE_SIZE_def del: One_nat_def)
qed

end
