(* ===== verification/PageFile.thy ===== *)
theory PageFile
  imports Wal
begin

text \<open>
  The database file as an array of pages: \<open>page_at f n\<close> is page \<open>n\<close> of the file \<open>f\<close>, zeros behind
  its end; page-sized writes and truncations update that array.
\<close>

definition page_at :: "bytes \<Rightarrow> nat \<Rightarrow> page" where
  "page_at f n = map (\<lambda>b. byte_at f (n * PAGE_SIZE + b)) [0..<PAGE_SIZE]"

lemma length_page_at [simp]: "length (page_at f n) = PAGE_SIZE"
  by (simp add: page_at_def)

lemma page_eqI:
  "length a = PAGE_SIZE \<Longrightarrow> length b = PAGE_SIZE \<Longrightarrow> (\<And>i. i < PAGE_SIZE \<Longrightarrow> a ! i = b ! i) \<Longrightarrow> a = b"
  by (simp add: nth_equalityI)

lemma page_at_nth: "i < PAGE_SIZE \<Longrightarrow> page_at f n ! i = byte_at f (n * PAGE_SIZE + i)"
  by (simp add: page_at_def)

lemma page_offset:
  assumes "i < PAGE_SIZE"
  shows "n * PAGE_SIZE \<le> m * PAGE_SIZE + i \<and> m * PAGE_SIZE + i < n * PAGE_SIZE + PAGE_SIZE \<longleftrightarrow> m = n"
    and "n * PAGE_SIZE \<le> m * PAGE_SIZE + i \<longleftrightarrow> n \<le> m"
proof -
  have div: "(m * PAGE_SIZE + i) div PAGE_SIZE = m" using assms by (simp add: PAGE_SIZE_def)
  have "n * PAGE_SIZE \<le> m * PAGE_SIZE + i \<longleftrightarrow> n \<le> (m * PAGE_SIZE + i) div PAGE_SIZE"
    by (simp only: less_eq_div_iff_mult_less_eq PAGE_SIZE_pos)
  then show le: "n * PAGE_SIZE \<le> m * PAGE_SIZE + i \<longleftrightarrow> n \<le> m" by (simp only: div)
  have "m * PAGE_SIZE + i < Suc n * PAGE_SIZE \<longleftrightarrow> (m * PAGE_SIZE + i) div PAGE_SIZE < Suc n"
    by (simp only: div_less_iff_less_mult PAGE_SIZE_pos)
  then have "m * PAGE_SIZE + i < n * PAGE_SIZE + PAGE_SIZE \<longleftrightarrow> m < Suc n"
    unfolding div by (simp add: add.commute)
  with le show "n * PAGE_SIZE \<le> m * PAGE_SIZE + i \<and> m * PAGE_SIZE + i < n * PAGE_SIZE + PAGE_SIZE \<longleftrightarrow> m = n"
    by auto
qed

lemma page_at_write:
  assumes "length img = PAGE_SIZE"
  shows "page_at (file_write (n * PAGE_SIZE) img f) m = (if m = n then img else page_at f m)"
proof (rule page_eqI)
  fix i assume i: "i < PAGE_SIZE"
  have "byte_at (file_write (n * PAGE_SIZE) img f) (m * PAGE_SIZE + i) =
      (if m = n then img ! (m * PAGE_SIZE + i - n * PAGE_SIZE) else byte_at f (m * PAGE_SIZE + i))"
    using byte_at_run_op [of "Write_At (n * PAGE_SIZE) img" f "m * PAGE_SIZE + i"] page_offset(1) [OF i, of n m] assms
    by simp
  with i show "page_at (file_write (n * PAGE_SIZE) img f) m ! i = (if m = n then img else page_at f m) ! i"
    by (simp add: page_at_nth)
qed (use assms in auto)

lemma page_at_truncate:
  "page_at (file_truncate (k * PAGE_SIZE) f) m = (if m < k then page_at f m else zero_page)"
proof (rule page_eqI)
  fix i assume i: "i < PAGE_SIZE"
  have "byte_at (file_truncate (k * PAGE_SIZE) f) (m * PAGE_SIZE + i) =
      (if k \<le> m then 0 else byte_at f (m * PAGE_SIZE + i))"
    using byte_at_run_op [of "Cut_To (k * PAGE_SIZE)" f "m * PAGE_SIZE + i"] page_offset(2) [OF i, of k m] by simp
  with i show "page_at (file_truncate (k * PAGE_SIZE) f) m ! i = (if m < k then page_at f m else zero_page) ! i"
    by (simp add: page_at_nth zero_page_def)
qed auto

lemma page_at_file_page:
  assumes "n * PAGE_SIZE + PAGE_SIZE \<le> length f"
  shows "slice (n * PAGE_SIZE) PAGE_SIZE f = page_at f n"
  by (rule page_eqI) (use assms in \<open>auto simp: page_at_nth byte_at_def\<close>)

lemma page_at_beyond: "length f \<le> n * PAGE_SIZE \<Longrightarrow> page_at f n = zero_page"
  by (rule page_eqI) (auto simp: page_at_nth byte_at_def zero_page_def)

lemma page_in_file: "n < len div PAGE_SIZE \<longleftrightarrow> n * PAGE_SIZE + PAGE_SIZE \<le> len"
  using less_eq_div_iff_mult_less_eq [of PAGE_SIZE "Suc n" len] by (simp add: Suc_le_eq add.commute)

text \<open>Files of whole pages are equal when their pages are.\<close>

lemma file_pages_eqI:
  assumes "length f = k * PAGE_SIZE" "length g = k * PAGE_SIZE" "\<And>n. n < k \<Longrightarrow> page_at f n = page_at g n"
  shows "f = g"
proof (rule nth_equalityI)
  fix b assume b: "b < length f"
  then have n: "b div PAGE_SIZE < k" using assms(1) by (simp add: less_mult_imp_div_less)
  have split: "b = b div PAGE_SIZE * PAGE_SIZE + b mod PAGE_SIZE" by simp
  have "byte_at f b = page_at f (b div PAGE_SIZE) ! (b mod PAGE_SIZE)" using split by (simp add: page_at_nth)
  also have "\<dots> = byte_at g b" using assms(3) [OF n] split by (simp add: page_at_nth)
  finally show "f ! b = g ! b" using b assms(1,2) by (simp add: byte_at_def)
qed (simp add: assms)

section \<open>Sealing a page twice\<close>

lemma write_checksum_ok: "length page = PAGE_SIZE \<Longrightarrow> page_checksum_ok page \<Longrightarrow> page_write_checksum page = page"
proof -
  assume len: "length page = PAGE_SIZE" and ok: "page_checksum_ok page"
  have "slice PAGE_USABLE_SIZE 4 page = drop PAGE_USABLE_SIZE page"
    using len by (simp add: slice_def PAGE_SIZE_split)
  moreover have "read_u32_le (slice PAGE_USABLE_SIZE 4 page) = page_checksum page"
    using ok by (simp only: page_checksum_ok_def)
  moreover have "length (drop PAGE_USABLE_SIZE page) = 4" using len by (simp add: PAGE_SIZE_split)
  ultimately have "write_u32_le (page_checksum page) = drop PAGE_USABLE_SIZE page"
    by (metis write_read_u32_le)
  with len show "page_write_checksum page = page"
    by (simp add: page_write_checksum_def blit_def PAGE_SIZE_split)
qed

end
