(* ===== verification/PagerTxn.thy ===== *)
theory PagerTxn
  imports PagerOps PageFile
begin

text \<open>
  Opening, checkpoints, transactions and savepoints of \<open>src/pager.c\<close>, and the ordered
  \<open>pager_checkpoint\<close> of \<open>src/pager_checkpoint_order.c\<close>. The build compiles the function of that name
  in \<open>pager.c\<close> as \<open>pager_checkpoint_legacy_base\<close>, so \<open>pager_begin_transaction\<close>, which is in the same
  file, calls the legacy base.
\<close>

section \<open>Opening\<close>

definition blank_frame :: frame where
  "blank_frame = \<lparr>f_page_num = INVALID_PAGE_NUM, f_data = zero_page, f_is_dirty = False,
     f_pin_count = 0, f_lru_prev = -1, f_lru_next = -1\<rparr>"

definition blank_pager :: "disk \<Rightarrow> nat \<Rightarrow> nat \<Rightarrow> pager" where
  "blank_pager d len n =
     \<lparr>frames = replicate MAX_BUFFER_POOL_SIZE blank_frame, lru_head = -1, lru_tail = -1,
      disk = d, file_length = len, num_pages = n, page_capacity = 0, in_transaction = False,
      transaction_file_length = 0, transaction_num_pages = 0, free_pages = [],
      transaction_free_pages = [], dirty_page_spills = [], committed_pages = [], page_table = [],
      pin_barrier_active = False, pin_admissions = 0, cache_hits = 0, cache_misses = 0,
      evictions = 0, is_dirty = [], savepoints = []\<rparr>"

definition pager_open :: "disk \<Rightarrow> pager_exit + pager" where
  "pager_open d0 =
     and_then (recover_wal d0) (\<lambda>d.
       let file_length = length (d_main d)
       in if file_length mod PAGE_SIZE \<noteq> 0 then Inl Exit_Corrupt_File_Length
          else
            let page_count = file_length div PAGE_SIZE
            in if page_count > INVALID_PAGE_NUM then Inl Exit_Too_Many_Pages
               else
                 let initial_capacity =
                       (if page_count > PAGER_INITIAL_CAPACITY then page_count else PAGER_INITIAL_CAPACITY);
                     p = pager_reserve_capacity (blank_pager d file_length page_count) initial_capacity;
                     (loaded, d') = load_free_list_snapshot d page_count
                 in Inr (p\<lparr>disk := d', free_pages := loaded\<rparr>))"

section \<open>Checkpoints\<close>

text \<open>A page-sized write to the main file.\<close>

definition write_main :: "nat \<Rightarrow> page \<Rightarrow> pager \<Rightarrow> pager" where
  "write_main n img p = p\<lparr>disk := (disk p)\<lparr>d_main := file_write (n * PAGE_SIZE) img (d_main (disk p))\<rparr>\<rparr>"

text \<open>The body of the first loop of \<open>pager_checkpoint\<close> in \<open>src/pager.c\<close>.\<close>

definition flush_dirty_page :: "nat \<Rightarrow> pager \<Rightarrow> pager_exit + pager" where
  "flush_dirty_page i p =
     (if \<not> is_dirty p ! i then Inr p
      else and_then (get_page p i) (\<lambda>(f, p1).
        let img = page_write_checksum (f_data (frames p1 ! f));
            p2 = write_main i img (poke_frame f img p1);
            p3 = p2\<lparr>is_dirty := (is_dirty p2)[i := False]\<rparr>;
            frame_idx = page_table p3 ! i;
            p4 = (if frame_idx \<noteq> -1
                  then upd_frame (nat frame_idx) (\<lambda>f. f\<lparr>f_is_dirty := False\<rparr>) p3 else p3)
        in Inr (p4\<lparr>dirty_page_spills := (dirty_page_spills p4)[i := None]\<rparr>)))"

text \<open>The body of the second loop.\<close>

definition apply_committed_page :: "nat \<Rightarrow> pager \<Rightarrow> pager" where
  "apply_committed_page i p =
     (case committed_pages p ! i of None \<Rightarrow> p
      | Some img \<Rightarrow>
          let p1 = (if i < num_pages p then write_main i (page_write_checksum img) p else p)
          in p1\<lparr>committed_pages := (committed_pages p1)[i := None]\<rparr>)"

definition pager_checkpoint_legacy_base :: "pager \<Rightarrow> pager_exit + pager" where
  "pager_checkpoint_legacy_base p =
     and_then (for_each flush_dirty_page [0..<num_pages p] p) (\<lambda>p1.
       let p2 = fold apply_committed_page [0..<page_capacity p1] p1;
           target_length = num_pages p2 * PAGE_SIZE;
           p3 = p2\<lparr>disk := (disk p2)\<lparr>d_main := file_truncate target_length (d_main (disk p2))\<rparr>,
                   file_length := target_length\<rparr>
       in and_then (persist_free_list_snapshot (disk p3) (num_pages p3) (free_pages p3))
            (\<lambda>d. Inr (p3\<lparr>disk := d\<lparr>d_wal := None\<rparr>\<rparr>)))"

text \<open>\<open>pager_checkpoint\<close> of \<open>src/pager_checkpoint_order.c\<close>.\<close>

definition overlaps :: "pager \<Rightarrow> nat \<Rightarrow> bool" where
  "overlaps p i \<longleftrightarrow> is_dirty p ! i \<and> committed_pages p ! i \<noteq> None"

definition hide_overlap :: "nat \<Rightarrow> pager \<times> (nat \<times> page) list \<Rightarrow> pager_exit + pager \<times> (nat \<times> page) list" where
  "hide_overlap i s =
     (let (p, saved) = s
      in if \<not> overlaps p i then Inr s
         else and_then (get_page p i) (\<lambda>(f, p1).
           let img = f_data (frames p1 ! f);
               p2 = p1\<lparr>is_dirty := (is_dirty p1)[i := False]\<rparr>;
               frame_index = page_table p2 ! i;
               p3 = (if frame_index \<noteq> -1
                     then upd_frame (nat frame_index) (\<lambda>f. f\<lparr>f_is_dirty := False\<rparr>) p2 else p2)
           in Inr (p3, saved @ [(i, img)])))"

definition restore_overlap :: "nat \<times> page \<Rightarrow> pager \<Rightarrow> pager_exit + pager" where
  "restore_overlap r p =
     and_then (get_page p (fst r)) (\<lambda>(f, p1). mark_page_dirty (poke_frame f (snd r) p1) (fst r))"

definition pager_checkpoint :: "pager \<Rightarrow> pager_exit + pager" where
  "pager_checkpoint p =
     (if \<not> (\<exists>i\<in>set [0..<num_pages p]. overlaps p i) then pager_checkpoint_legacy_base p
      else and_then (for_each hide_overlap [0..<num_pages p] (p, [])) (\<lambda>(p1, saved).
             and_then (pager_checkpoint_legacy_base p1) (\<lambda>p2.
               and_then (for_each restore_overlap saved p2) pager_checkpoint_legacy_base)))"

section \<open>Transactions\<close>

definition pager_begin_transaction :: "pager \<Rightarrow> pager_exit + pager" where
  "pager_begin_transaction p =
     (if in_transaction p then Inl Exit_Transaction_Active
      else and_then (pager_checkpoint_legacy_base p) (\<lambda>p1.
        Inr (p1\<lparr>savepoints := [], transaction_file_length := file_length p1,
                transaction_num_pages := num_pages p1, transaction_free_pages := free_pages p1,
                in_transaction := True\<rparr>)))"

text \<open>The body of the loop of \<open>pager_commit\<close> that writes pages to the log.\<close>

definition commit_page :: "nat \<Rightarrow> pager \<times> bytes \<Rightarrow> pager_exit + pager \<times> bytes" where
  "commit_page i s =
     (let (p, wal) = s
      in if \<not> is_dirty p ! i then Inr s
         else and_then (get_page p i) (\<lambda>(f, p1).
           let img = page_write_checksum (f_data (frames p1 ! f));
               p2 = poke_frame f img p1;
               p3 = p2\<lparr>committed_pages := store_page_copy (committed_pages p2) i img\<rparr>
           in Inr (pager_unpin_page p3 i, wal @ put_u32 i @ img)))"

text \<open>The body of its last loop.\<close>

definition clear_dirty_page :: "nat \<Rightarrow> pager \<Rightarrow> pager" where
  "clear_dirty_page i p =
     (if \<not> is_dirty p ! i then p
      else
        let p1 = p\<lparr>is_dirty := (is_dirty p)[i := False],
                   dirty_page_spills := (dirty_page_spills p)[i := None]\<rparr>;
            frame_idx = page_table p1 ! i
        in if frame_idx \<noteq> -1
           then upd_frame (nat frame_idx) (\<lambda>f. f\<lparr>f_is_dirty := False\<rparr>) p1 else p1)"

definition pager_commit :: "pager \<Rightarrow> pager_exit + pager" where
  "pager_commit p =
     (let dirty_count = length (filter (\<lambda>i. is_dirty p ! i) [0..<num_pages p])
      in if \<not> validate_free_page_list (num_pages p) (free_pages p) then Inl Exit_Invalid_Free_List
         else
           let wal = (case d_wal (disk p) of None \<Rightarrow> [] | Some w \<Rightarrow> w)
                 @ put_u32 WAL_TXN_V2_MAGIC @ put_u32 dirty_count @ put_u32 (num_pages p)
                 @ put_u32 (length (free_pages p)) @ concat (map put_u32 (free_pages p))
           in and_then (for_each commit_page [0..<num_pages p] (p, wal)) (\<lambda>(p1, wal1).
                let d1 = (disk p1)\<lparr>d_wal := Some (wal1 @ put_u32 WAL_COMMIT_MAGIC)\<rparr>
                in and_then (persist_free_list_snapshot d1 (num_pages p1) (free_pages p1)) (\<lambda>d2.
                     let p2 = fold clear_dirty_page [0..<num_pages p1] (p1\<lparr>disk := d2\<rparr>)
                     in Inr (p2\<lparr>savepoints := [], transaction_free_pages := [], in_transaction := False,
                                transaction_file_length := 0, transaction_num_pages := 0\<rparr>))))"

definition clear_page_cache :: "pager \<Rightarrow> pager" where
  "clear_page_cache p =
     p\<lparr>frames := map (\<lambda>f. f\<lparr>f_page_num := INVALID_PAGE_NUM, f_is_dirty := False, f_pin_count := 0,
                            f_lru_prev := -1, f_lru_next := -1\<rparr>) (frames p),
       page_table := map (\<lambda>_. -1) (page_table p), lru_head := -1, lru_tail := -1\<rparr>"

definition forget_dirty :: "pager \<Rightarrow> pager" where
  "forget_dirty p =
     clear_page_cache (p\<lparr>dirty_page_spills := map (\<lambda>_. None) (dirty_page_spills p),
                         is_dirty := map (\<lambda>_. False) (is_dirty p)\<rparr>)"

definition pager_rollback :: "pager \<Rightarrow> pager" where
  "pager_rollback p =
     (if \<not> in_transaction p then p
      else
        let p1 = forget_dirty (p\<lparr>savepoints := []\<rparr>)
        in p1\<lparr>num_pages := transaction_num_pages p1, file_length := transaction_file_length p1,
              free_pages := transaction_free_pages p1,
              disk := (disk p1)\<lparr>d_main := file_truncate (transaction_file_length p1) (d_main (disk p1))\<rparr>,
              transaction_free_pages := [], transaction_file_length := 0, transaction_num_pages := 0,
              in_transaction := False\<rparr>)"

section \<open>Savepoints\<close>

definition MAX_SAVEPOINTS :: nat where "MAX_SAVEPOINTS = 8"

text \<open>\<open>strncpy\<close> into the 64-byte name field, whose last byte stays 0.\<close>

definition savepoint_name :: "string \<Rightarrow> string" where
  "savepoint_name name = take 63 name"

definition snapshot_page :: "nat \<Rightarrow> pager \<times> page list \<Rightarrow> pager_exit + pager \<times> page list" where
  "snapshot_page i s =
     and_then (get_page (fst s) i) (\<lambda>(f, p1).
       Inr (pager_unpin_page p1 i, snd s @ [f_data (frames p1 ! f)]))"

definition pager_savepoint :: "pager \<Rightarrow> string \<Rightarrow> pager_exit + bool \<times> pager" where
  "pager_savepoint p name =
     (if length (savepoints p) \<ge> MAX_SAVEPOINTS then Inr (False, p)
      else and_then (for_each snapshot_page [0..<num_pages p] (p, [])) (\<lambda>(p1, images).
        let sp = \<lparr>sp_name = savepoint_name name, sp_file_length = file_length p,
                  sp_num_pages = num_pages p, sp_free_pages = free_pages p,
                  sp_is_dirty = take (num_pages p) (is_dirty p), sp_page_snapshots = images\<rparr>
        in Inr (True, p1\<lparr>savepoints := savepoints p1 @ [sp]\<rparr>)))"

text \<open>The search from the newest savepoint back.\<close>

definition find_savepoint :: "savepoint list \<Rightarrow> string \<Rightarrow> nat option" where
  "find_savepoint sps name = find (\<lambda>i. sp_name (sps ! i) = name) (rev [0..<length sps])"

definition restore_page :: "savepoint \<Rightarrow> nat \<Rightarrow> pager \<Rightarrow> pager_exit + pager" where
  "restore_page sp i p =
     and_then (get_page p i) (\<lambda>(f, p1).
       let p2 = poke_frame f (sp_page_snapshots sp ! i) p1
       in and_then (if sp_is_dirty sp ! i then mark_page_dirty p2 i else Inr p2)
            (\<lambda>p3. Inr (pager_unpin_page p3 i)))"

definition pager_rollback_to_savepoint :: "pager \<Rightarrow> string \<Rightarrow> pager_exit + bool \<times> pager" where
  "pager_rollback_to_savepoint p name =
     (case find_savepoint (savepoints p) name of None \<Rightarrow> Inr (False, p)
      | Some target_idx \<Rightarrow>
          let sp = savepoints p ! target_idx;
              p1 = forget_dirty (pager_reserve_capacity p (sp_num_pages sp));
              p2 = p1\<lparr>num_pages := sp_num_pages sp, free_pages := sp_free_pages sp\<rparr>
          in and_then (for_each (restore_page sp) [0..<sp_num_pages sp] p2) (\<lambda>p3.
               Inr (True, p3\<lparr>savepoints := take (target_idx + 1) (savepoints p3)\<rparr>)))"

definition pager_release_savepoint :: "pager \<Rightarrow> string \<Rightarrow> bool \<times> pager" where
  "pager_release_savepoint p name =
     (case find_savepoint (savepoints p) name of None \<Rightarrow> (False, p)
      | Some target_idx \<Rightarrow> (True, p\<lparr>savepoints := take target_idx (savepoints p)\<rparr>))"

end
