(* ===== verification/PagerCheckpoint.thy ===== *)
theory PagerCheckpoint
  imports PagerTxn
begin

text \<open>
  What the unordered checkpoint of \<open>src/pager.c\<close> does: its two loops (\<open>flush_loop_spec\<close>,
  \<open>apply_loop_spec\<close>) and the whole function (\<open>legacy_base_spec\<close>): the main file then holds
  \<open>base_image\<close>, in which a committed shadow hides a newer dirty image of the same page.
\<close>

section \<open>State the loops keep\<close>

abbreviation main_file :: "pager \<Rightarrow> bytes" where "main_file p \<equiv> d_main (disk p)"

text \<open>What the checkpoint and commit loops leave alone: all but frames, page table, dirty
  bookkeeping and the bytes of the main file.\<close>

definition steady :: "pager \<Rightarrow> pager \<Rightarrow> bool" where
  "steady p p' \<longleftrightarrow>
     d_wal (disk p') = d_wal (disk p) \<and> d_free (disk p') = d_free (disk p) \<and>
     d_free_wal (disk p') = d_free_wal (disk p) \<and> file_length p' = file_length p \<and>
     num_pages p' = num_pages p \<and> in_transaction p' = in_transaction p \<and>
     transaction_file_length p' = transaction_file_length p \<and>
     transaction_num_pages p' = transaction_num_pages p \<and>
     free_pages p' = free_pages p \<and> transaction_free_pages p' = transaction_free_pages p \<and>
     savepoints p' = savepoints p \<and> pin_barrier_active p' = pin_barrier_active p \<and>
     pin_admissions p' = pin_admissions p \<and> page_capacity p \<le> page_capacity p'"

lemma steady_refl [simp]: "steady p p"
  by (simp add: steady_def)

lemma steady_trans: "steady p q \<Longrightarrow> steady q r \<Longrightarrow> steady p r"
  by (simp add: steady_def)

lemma fetch_steady: "fetch_stable p q \<Longrightarrow> num_pages q = num_pages p \<Longrightarrow> steady p q"
  by (simp add: steady_def fetch_stable_def)

section \<open>Writing the main file\<close>

lemma write_main_fields [simp]:
  "frames (write_main n img p) = frames p" "table_entry (write_main n img p) = table_entry p"
  "page_table (write_main n img p) = page_table p" "dirty_flag (write_main n img p) = dirty_flag p"
  "is_dirty (write_main n img p) = is_dirty p" "dirty_page_spills (write_main n img p) = dirty_page_spills p"
  "committed_pages (write_main n img p) = committed_pages p" "page_capacity (write_main n img p) = page_capacity p"
  "num_pages (write_main n img p) = num_pages p" "steady q (write_main n img p) = steady q p"
  "coherent_to B (write_main n img p) = coherent_to B p" "file_length (write_main n img p) = file_length p"
  "main_file (write_main n img p) = file_write (n * PAGE_SIZE) img (main_file p)"
  "free_pages (write_main n img p) = free_pages p"
  by (simp_all add: write_main_def table_entry_def dirty_flag_def fun_eq_iff steady_def coherent_to_def)

lemma backing_page_at:
  assumes "pager_ok p"
  shows "backing p n = (case lookup_slot (committed_pages p) n of Some img \<Rightarrow> img
    | None \<Rightarrow> if n < file_length p div PAGE_SIZE then page_at (main_file p) n else zero_page)"
proof -
  have "file_page (main_file p) n = page_at (main_file p) n" if "n < file_length p div PAGE_SIZE"
    unfolding file_page_def
    by (rule page_at_file_page) (use that assms in \<open>simp add: page_in_file pager_ok_def pager_shadows_def\<close>)
  then show ?thesis by (simp add: backing_def split: option.split)
qed

lemma write_main_ok:
  assumes "pager_ok p"
  shows "pager_ok (write_main n img p)"
proof (rule pager_okI)
  show "pager_shadows (write_main n img p)"
    using pager_okD(5) [OF assms]
    by (simp add: write_main_def pager_shadows_def length_file_write max.coboundedI1)
  show "pager_arrays (write_main n img p)" "pager_frames (write_main n img p)"
    "pager_table (write_main n img p)" "pager_lru (write_main n img p)"
    using pager_okD(1-4) [OF assms]
    by (simp_all add: write_main_def pager_arrays_def pager_frames_def pager_table_def pager_lru_def
        lru_list_def occupied_def)
qed

lemma write_main_view:
  assumes p: "pager_ok p" and img: "length img = PAGE_SIZE" and m: "m \<noteq> n"
  shows "backing (write_main n img p) m = backing p m" "view (write_main n img p) m = view p m"
proof -
  show b: "backing (write_main n img p) m = backing p m"
    unfolding backing_page_at [OF write_main_ok [OF p]] backing_page_at [OF p]
    using m img by (simp add: page_at_write cong: option.case_cong)
  have "source (write_main n img p) m = source p m" by (auto simp: source_def b)
  then show "view (write_main n img p) m = view p m" by (simp add: view_def)
qed

section \<open>Dropping a spill\<close>

definition clear_spill :: "nat \<Rightarrow> pager \<Rightarrow> pager" where
  "clear_spill n p = p\<lparr>dirty_page_spills := (dirty_page_spills p)[n := None]\<rparr>"

lemma clear_spill_fields [simp]:
  "frames (clear_spill n p) = frames p" "table_entry (clear_spill n p) = table_entry p"
  "page_table (clear_spill n p) = page_table p" "dirty_flag (clear_spill n p) = dirty_flag p"
  "is_dirty (clear_spill n p) = is_dirty p" "backing (clear_spill n p) = backing p"
  "committed_pages (clear_spill n p) = committed_pages p" "page_capacity (clear_spill n p) = page_capacity p"
  "num_pages (clear_spill n p) = num_pages p" "steady q (clear_spill n p) = steady q p"
  "coherent_to B (clear_spill n p) = coherent_to B p" "file_length (clear_spill n p) = file_length p"
  "disk (clear_spill n p) = disk p"
  by (simp_all add: clear_spill_def table_entry_def dirty_flag_def fun_eq_iff steady_def coherent_to_def
      backing_def cong: option.case_cong)

lemma clear_spill_ok:
  assumes "pager_ok p"
  shows "pager_ok (clear_spill n p)"
proof (rule pager_okI)
  have len: "length (dirty_page_spills p) = page_capacity p" using pager_arraysD(3) [OF assms] .
  then show "pager_shadows (clear_spill n p)"
    using pager_okD(5) [OF assms]
    by (simp add: clear_spill_def pager_shadows_def nth_list_update_at split: if_split)
  show "pager_arrays (clear_spill n p)" "pager_frames (clear_spill n p)"
    "pager_table (clear_spill n p)" "pager_lru (clear_spill n p)"
    using pager_okD(1-4) [OF assms]
    by (simp_all add: clear_spill_def pager_arrays_def pager_frames_def pager_table_def pager_lru_def
        lru_list_def occupied_def)
qed

lemma clear_spill_view:
  assumes "table_entry p n \<noteq> -1 \<or> m \<noteq> n"
  shows "view (clear_spill n p) m = view p m"
proof (cases "table_entry p m = -1")
  case True
  with assms have "m \<noteq> n" by auto
  then have "lookup_slot (dirty_page_spills (clear_spill n p)) m = lookup_slot (dirty_page_spills p) m"
    by (simp add: clear_spill_def lookup_slot_def)
  with True show ?thesis by (auto simp: view_def source_def)
qed (simp add: view_def)

lemma set_flag_clear_view:
  assumes p: "pager_ok p" and n: "n < page_capacity p" "dirty_page_spills p ! n = None"
  shows "view (set_flag p n False) = view p"
  using set_flag_view [OF p n(1)] n(2) by (simp add: fun_eq_iff)

lemma set_flag_coherent_to:
  assumes p: "pager_ok p" and n: "n < page_capacity p" and c: "coherent_to B p"
  shows "coherent_to (B(n := view p n)) (set_flag p n False)"
proof (unfold coherent_to_def, intro allI impI)
  fix j
  let ?p = "set_flag p n False"
  assume j: "j < MAX_BUFFER_POOL_SIZE" and inv': "f_page_num (frames ?p ! j) \<noteq> INVALID_PAGE_NUM"
    and cl: "\<not> f_is_dirty (frames ?p ! j)"
  note fr = set_flag_frame [OF p n j]
  have inv: "f_page_num (frames p ! j) \<noteq> INVALID_PAGE_NUM" using inv' fr(1) by simp
  show "f_data (frames ?p ! j) = (B(n := view p n)) (f_page_num (frames ?p ! j))"
  proof (cases "f_page_num (frames p ! j) = n")
    case True
    moreover have "view p n = f_data (frames p ! j)"
      using frame_cached(1) [OF p j inv] True by (simp add: view_def)
    ultimately show ?thesis using fr(1,2) by simp
  next
    case False
    then show ?thesis using coherent_toD [OF c j inv] cl fr(1,2) fr(6) [OF inv] by simp
  qed
qed

lemma poke_coherent_to:
  assumes c: "coherent_to B p" and d: "f_is_dirty (frames p ! i)"
  shows "coherent_to B (poke_frame i img p)"
proof (unfold coherent_to_def, intro allI impI)
  fix j
  assume j: "j < MAX_BUFFER_POOL_SIZE" "f_page_num (frames (poke_frame i img p) ! j) \<noteq> INVALID_PAGE_NUM"
    "\<not> f_is_dirty (frames (poke_frame i img p) ! j)"
  have "j \<noteq> i \<or> \<not> i < length (frames p)" using j(3) d by (cases "j = i") auto
  then have same: "frames (poke_frame i img p) ! j = frames p ! j" by (auto simp: list_update_beyond)
  show "f_data (frames (poke_frame i img p) ! j) = B (f_page_num (frames (poke_frame i img p) ! j))"
    using coherent_toD [OF c j(1)] j(2,3) unfolding same by simp
qed


section \<open>The first loop of a checkpoint\<close>

lemma flush_dirty_page_eq:
  "flush_dirty_page i p =
     (if \<not> is_dirty p ! i then Inr p
      else and_then (get_page p i) (\<lambda>(f, p1).
        let img = page_write_checksum (f_data (frames p1 ! f))
        in Inr (set_flag (clear_spill i (write_main i img (poke_frame f img p1))) i False)))"
proof -
  have "(let p3 = p2\<lparr>is_dirty := (is_dirty p2)[i := False]\<rparr>;
            frame_idx = page_table p3 ! i;
            p4 = (if frame_idx \<noteq> -1
                  then upd_frame (nat frame_idx) (\<lambda>f. f\<lparr>f_is_dirty := False\<rparr>) p3 else p3)
        in p4\<lparr>dirty_page_spills := (dirty_page_spills p4)[i := None]\<rparr>) =
      set_flag (clear_spill i p2) i False" for p2
    by (simp add: set_flag_def clear_spill_def Let_def upd_frame_def)
  then show ?thesis by (simp add: flush_dirty_page_def Let_def)
qed

lemma dirty_flag_nth: "pager_ok p \<Longrightarrow> n < page_capacity p \<Longrightarrow> dirty_flag p n = is_dirty p ! n"
  using pager_arraysD(2) [of p] by (simp add: dirty_flag_def)

lemma flush_dirty_page_spec:
  assumes p: "pager_ok p" and i: "i < num_pages p" and d: "dirty_flag p i" and f: "flush_dirty_page i p = Inr p'"
  shows "pager_ok p'" "steady p p'" "dirty_flag p' = (dirty_flag p)(i := False)"
    and "lookup_slot (committed_pages p') = lookup_slot (committed_pages p)"
    and "page_at (main_file p') = (page_at (main_file p))(i := page_write_checksum (view p i))"
    and "length (main_file p') = max (length (main_file p)) (i * PAGE_SIZE + PAGE_SIZE)"
    and "coherent_to B p \<Longrightarrow> coherent_to (B(i := page_write_checksum (view p i))) p'"
    and "m \<noteq> i \<Longrightarrow> dirty_flag p m \<Longrightarrow> view p' m = view p m"
proof -
  let ?img = "page_write_checksum (view p i)"
  have cap: "i < page_capacity p" using i pager_arraysD(6) [OF p] by simp
  have n: "i \<le> UINT32_MAX" using cap pager_arraysD(5) [OF p] by simp
  obtain j p1 where g: "get_page p i = Inr (j, p1)"
    and r: "p' = set_flag (clear_spill i (write_main i (page_write_checksum (f_data (frames p1 ! j)))
       (poke_frame j (page_write_checksum (f_data (frames p1 ! j))) p1))) i False"
    using f d dirty_flag_nth [OF p cap] by (auto simp: flush_dirty_page_eq Let_def)
  note gf = get_page_frames [OF p n g]
  have img: "page_write_checksum (f_data (frames p1 ! j)) = ?img" using gf(9) by simp
  have limg: "length ?img = PAGE_SIZE" using length_view [OF p] by simp
  define p2 where "p2 = poke_frame j ?img p1"
  define p3 where "p3 = write_main i ?img p2"
  define p4 where "p4 = clear_spill i p3"
  have p': "p' = set_flag p4 i False" by (simp add: r img p2_def p3_def p4_def)
  have ok1: "pager_ok p1" by (rule gf(1))
  have ok2: "pager_ok p2" unfolding p2_def using ok1 limg by (rule poke_ok)
  have ok3: "pager_ok p3" unfolding p3_def using ok2 by (rule write_main_ok)
  have ok4: "pager_ok p4" unfolding p4_def using ok3 by (rule clear_spill_ok)
  have cap4: "i < page_capacity p4" using gf(3) by (simp add: p4_def p3_def p2_def)
  have none: "dirty_page_spills p4 ! i = None"
    using cap4 pager_arraysD(3) [OF ok3] by (simp add: p4_def clear_spill_def)
  show "pager_ok p'" unfolding p' by (rule set_flag_ok [OF ok4 cap4])
  have st: "fetch_stable p p2" using gf(2) by (simp add: p2_def)
  have np: "num_pages p2 = num_pages p" using gf(8) i by (simp add: p2_def)
  have "steady p p4" using fetch_steady [OF st np] by (simp add: p4_def p3_def)
  then show "steady p p'" by (simp add: p' steady_def)
  show "dirty_flag p' = (dirty_flag p)(i := False)"
    unfolding p' set_flag_dirty [OF ok4 cap4] using st by (simp add: p4_def p3_def fetch_stable_def)
  show "lookup_slot (committed_pages p') = lookup_slot (committed_pages p)"
    using st by (simp add: p' p4_def p3_def fetch_stable_def)
  have main: "main_file p' = file_write (i * PAGE_SIZE) ?img (main_file p)"
    using st by (simp add: p' p4_def p3_def fetch_stable_def)
  show "page_at (main_file p') = (page_at (main_file p))(i := ?img)"
    unfolding main by (rule ext) (simp add: page_at_write limg)
  show "length (main_file p') = max (length (main_file p)) (i * PAGE_SIZE + PAGE_SIZE)"
    unfolding main by (simp add: length_file_write limg)
  have te: "table_entry p4 i = int j" using gf(7) by (simp add: p4_def p3_def p2_def)
  have v4i: "view p4 i = ?img"
    using te gf(5) pager_framesD(1) [OF ok1 gf(5)] by (simp add: view_def p4_def p3_def p2_def)
  have d1: "f_is_dirty (frames p1 ! j)"
    using frame_cached(4) [OF ok1 gf(5)] gf(4,6) d st by (simp add: fetch_stable_def p2_def)
  show "coherent_to (B(i := ?img)) p'" if c: "coherent_to B p"
  proof -
    have "coherent_to B p1" using gf(10) [OF c] d by blast
    then have "coherent_to B p2" unfolding p2_def using d1 by (rule poke_coherent_to)
    then have "coherent_to B p4" by (simp add: p4_def p3_def)
    from set_flag_coherent_to [OF ok4 cap4 this] show ?thesis unfolding p' v4i .
  qed
  show "view p' m = view p m" if m: "m \<noteq> i" "dirty_flag p m"
  proof -
    have "view p' m = view p4 m" unfolding p' set_flag_clear_view [OF ok4 cap4 none] ..
    also have "\<dots> = view p3 m" unfolding p4_def by (rule clear_spill_view) (use m in simp)
    also have "\<dots> = view p2 m" unfolding p3_def by (rule write_main_view(2) [OF ok2 limg m(1)])
    also have "\<dots> = view p1 m" unfolding p2_def using poke_view [OF ok1 gf(5,6,4)] m(1) by simp
    also have "\<dots> = view p m" by (rule get_page_dirty_view [OF p n g m(2)])
    finally show ?thesis .
  qed
qed


definition flushed :: "pager \<Rightarrow> nat \<Rightarrow> nat \<Rightarrow> bool" where
  "flushed p k m \<longleftrightarrow> m < k \<and> dirty_flag p m"

lemma flush_loop_spec:
  assumes p: "pager_ok p" and f: "for_each flush_dirty_page [0..<num_pages p] p = Inr p'"
  shows "pager_ok p'" "steady p p'"
    and "dirty_flag p' = (\<lambda>m. dirty_flag p m \<and> \<not> m < num_pages p)"
    and "lookup_slot (committed_pages p') = lookup_slot (committed_pages p)"
    and "page_at (main_file p') =
      (\<lambda>m. if flushed p (num_pages p) m then page_write_checksum (view p m) else page_at (main_file p) m)"
    and "coherent_to B p \<Longrightarrow>
      coherent_to (\<lambda>m. if flushed p (num_pages p) m then page_write_checksum (view p m) else B m) p'"
proof -
  define P where "P k s \<longleftrightarrow> pager_ok s \<and> steady p s \<and>
    dirty_flag s = (\<lambda>m. dirty_flag p m \<and> \<not> m < k) \<and>
    lookup_slot (committed_pages s) = lookup_slot (committed_pages p) \<and>
    page_at (main_file s) =
      (\<lambda>m. if flushed p k m then page_write_checksum (view p m) else page_at (main_file p) m) \<and>
    (coherent_to B p \<longrightarrow>
      coherent_to (\<lambda>m. if flushed p k m then page_write_checksum (view p m) else B m) s) \<and>
    (\<forall>m. k \<le> m \<and> dirty_flag p m \<longrightarrow> view s m = view p m)" for k s
  have "P (num_pages p) p'"
  proof (rule for_each_invariant_upto [OF f])
    show "P 0 p" using p by (simp add: P_def flushed_def)
  next
    fix i s t assume i: "i < num_pages p" and inv: "P i s" and st: "flush_dirty_page i s = Inr t"
    note I = inv [unfolded P_def]
    have ok: "pager_ok s" and sd: "steady p s" and df: "dirty_flag s = (\<lambda>m. dirty_flag p m \<and> \<not> m < i)"
      using I by blast+
    have isn: "i < num_pages s" using i sd by (simp add: steady_def)
    show "P (Suc i) t"
    proof (cases "dirty_flag p i")
      case False
      have cap: "i < page_capacity s" using isn pager_arraysD(6) [OF ok] by simp
      have "\<not> is_dirty s ! i" using False df dirty_flag_nth [OF ok cap] by (simp add: fun_eq_iff)
      then have "t = s" using st by (simp add: flush_dirty_page_eq)
      moreover have "flushed p (Suc i) = flushed p i" using False by (auto simp: flushed_def fun_eq_iff less_Suc_eq)
      moreover have "(\<lambda>m. dirty_flag p m \<and> \<not> m < Suc i) = (\<lambda>m. dirty_flag p m \<and> \<not> m < i)"
        using False by (auto simp: fun_eq_iff less_Suc_eq)
      ultimately show ?thesis using I by (simp add: P_def)
    next
      case True
      then have di: "dirty_flag s i" using df by simp
      have vi: "view s i = view p i" using I True by simp
      note fs = flush_dirty_page_spec [OF ok isn di st]
      have fl: "flushed p (Suc i) = (flushed p i)(i := True)"
        using True by (auto simp: flushed_def fun_eq_iff less_Suc_eq)
      have "dirty_flag t = (\<lambda>m. dirty_flag p m \<and> \<not> m < Suc i)"
        unfolding fs(3) df by (auto simp: fun_eq_iff less_Suc_eq)
      moreover have "page_at (main_file t) =
          (\<lambda>m. if flushed p (Suc i) m then page_write_checksum (view p m) else page_at (main_file p) m)"
        using I unfolding fs(5) vi fl by (auto simp: fun_eq_iff)
      moreover have "coherent_to (\<lambda>m. if flushed p (Suc i) m then page_write_checksum (view p m) else B m) t"
        if "coherent_to B p"
      proof -
        have "coherent_to (\<lambda>m. if flushed p i m then page_write_checksum (view p m) else B m) s"
          using I that by blast
        from fs(7) [OF this] show ?thesis unfolding vi fl
          by (rule back_subst [of "\<lambda>B. coherent_to B t"]) (auto simp: fun_eq_iff)
      qed
      moreover have "view t m = view p m" if "Suc i \<le> m" "dirty_flag p m" for m
        using fs(8) [of m] that df I by simp
      moreover have "lookup_slot (committed_pages t) = lookup_slot (committed_pages p)" using I fs(4) by simp
      ultimately show ?thesis using fs(1) steady_trans [OF sd fs(2)] by (simp add: P_def)
    qed
  qed
  then show "pager_ok p'" "steady p p'" "dirty_flag p' = (\<lambda>m. dirty_flag p m \<and> \<not> m < num_pages p)"
    "lookup_slot (committed_pages p') = lookup_slot (committed_pages p)"
    "page_at (main_file p') =
      (\<lambda>m. if flushed p (num_pages p) m then page_write_checksum (view p m) else page_at (main_file p) m)"
    "coherent_to B p \<Longrightarrow>
      coherent_to (\<lambda>m. if flushed p (num_pages p) m then page_write_checksum (view p m) else B m) p'"
    by (simp_all add: P_def)
qed

section \<open>The second loop\<close>

lemma apply_committed_page_spec:
  assumes p: "pager_ok p" and i: "i < page_capacity p" and p': "p' = apply_committed_page i p"
  shows "pager_ok p'" "steady p p'" "dirty_flag p' = dirty_flag p" "frames p' = frames p"
    and "table_entry p' = table_entry p" "page_capacity p' = page_capacity p"
    and "lookup_slot (committed_pages p') = (lookup_slot (committed_pages p))(i := None)"
    and "page_at (main_file p') = (case lookup_slot (committed_pages p) i of
       Some img \<Rightarrow> if i < num_pages p then (page_at (main_file p))(i := page_write_checksum img)
                   else page_at (main_file p)
     | None \<Rightarrow> page_at (main_file p))"
proof -
  have lk: "lookup_slot (committed_pages p) i = committed_pages p ! i"
    using i pager_arraysD(4) [OF p] by (simp add: lookup_slot_def)
  have clear: "pager_ok (q\<lparr>committed_pages := (committed_pages q)[i := None]\<rparr>)" if q: "pager_ok q" for q
  proof (rule pager_okI)
    show "pager_shadows (q\<lparr>committed_pages := (committed_pages q)[i := None]\<rparr>)"
      using pager_okD(5) [OF q] pager_arraysD(4) [OF q]
      by (simp add: pager_shadows_def nth_list_update_at split: if_split)
  qed (use pager_okD [OF q] in \<open>simp_all add: pager_arrays_def pager_frames_def pager_table_def
      pager_lru_def lru_list_def occupied_def\<close>)
  have none: "lookup_slot ((committed_pages p)[i := None]) = (lookup_slot (committed_pages p))(i := None)"
    by (auto simp: lookup_slot_def fun_eq_iff nth_list_update_at)
  have id: "(lookup_slot (committed_pages p))(i := None) = lookup_slot (committed_pages p)"
    if "committed_pages p ! i = None" using that lk by (auto simp: fun_eq_iff)
  have "pager_ok p' \<and> steady p p' \<and> dirty_flag p' = dirty_flag p \<and> frames p' = frames p \<and>
    table_entry p' = table_entry p \<and> page_capacity p' = page_capacity p \<and>
    lookup_slot (committed_pages p') = (lookup_slot (committed_pages p))(i := None) \<and>
    page_at (main_file p') = (case lookup_slot (committed_pages p) i of
       Some img \<Rightarrow> if i < num_pages p then (page_at (main_file p))(i := page_write_checksum img)
                   else page_at (main_file p)
     | None \<Rightarrow> page_at (main_file p))"
  proof (cases "committed_pages p ! i")
    case None
    with p' have "p' = p" by (simp add: apply_committed_page_def)
    with p None lk id show ?thesis by simp
  next
    case (Some img)
    have limg: "length (page_write_checksum img) = PAGE_SIZE"
      using pager_okD(5) [OF p] i Some by (simp add: pager_shadows_def)
    let ?q = "if i < num_pages p then write_main i (page_write_checksum img) p else p"
    have eq: "p' = ?q\<lparr>committed_pages := (committed_pages ?q)[i := None]\<rparr>"
      using Some p' by (simp add: apply_committed_page_def Let_def)
    have "pager_ok ?q" using p write_main_ok by simp
    then have "pager_ok p'" unfolding eq by (rule clear)
    moreover have "page_at (file_write (i * PAGE_SIZE) (page_write_checksum img) (main_file p)) =
        (page_at (main_file p))(i := page_write_checksum img)"
      by (rule ext) (simp add: page_at_write limg)
    ultimately show ?thesis using Some lk none
      by (auto simp: eq steady_def write_main_def table_entry_def dirty_flag_def fun_eq_iff)
  qed
  then show "pager_ok p'" "steady p p'" "dirty_flag p' = dirty_flag p" "frames p' = frames p"
    "table_entry p' = table_entry p" "page_capacity p' = page_capacity p"
    "lookup_slot (committed_pages p') = (lookup_slot (committed_pages p))(i := None)"
    "page_at (main_file p') = (case lookup_slot (committed_pages p) i of
       Some img \<Rightarrow> if i < num_pages p then (page_at (main_file p))(i := page_write_checksum img)
                   else page_at (main_file p)
     | None \<Rightarrow> page_at (main_file p))" by blast+
qed


lemma apply_loop_spec:
  assumes p: "pager_ok p" and k: "k \<le> page_capacity p"
  defines "p' \<equiv> fold apply_committed_page [0..<k] p"
  shows "pager_ok p' \<and> steady p p' \<and> dirty_flag p' = dirty_flag p \<and> frames p' = frames p \<and>
    table_entry p' = table_entry p \<and> page_capacity p' = page_capacity p \<and>
    lookup_slot (committed_pages p') = (\<lambda>m. if m < k then None else lookup_slot (committed_pages p) m) \<and>
    page_at (main_file p') = (\<lambda>m. if m < k \<and> m < num_pages p then
       (case lookup_slot (committed_pages p) m of Some img \<Rightarrow> page_write_checksum img
        | None \<Rightarrow> page_at (main_file p) m) else page_at (main_file p) m)"
  using k unfolding p'_def
proof (induction k)
  case 0
  then show ?case using p by simp
next
  case (Suc k)
  let ?q = "fold apply_committed_page [0..<k] p"
  note IH = Suc.IH [OF Suc_leD [OF Suc.prems]]
  have ok: "pager_ok ?q" and cap: "k < page_capacity ?q" and sd: "steady p ?q"
    and ck: "lookup_slot (committed_pages ?q) k = lookup_slot (committed_pages p) k"
    using IH Suc.prems by simp_all
  note ap = apply_committed_page_spec [OF ok cap refl]
  have np: "num_pages ?q = num_pages p" using sd by (simp add: steady_def)
  have "page_at (main_file (apply_committed_page k ?q)) = (\<lambda>m. if m < Suc k \<and> m < num_pages p then
       (case lookup_slot (committed_pages p) m of Some img \<Rightarrow> page_write_checksum img
        | None \<Rightarrow> page_at (main_file p) m) else page_at (main_file p) m)"
    unfolding ap(8) ck np using IH by (auto simp: fun_eq_iff less_Suc_eq split: option.splits)
  moreover have "lookup_slot (committed_pages (apply_committed_page k ?q)) =
      (\<lambda>m. if m < Suc k then None else lookup_slot (committed_pages p) m)"
    unfolding ap(7) using IH by (auto simp: fun_eq_iff less_Suc_eq)
  ultimately show ?case using ap(1,3-6) steady_trans [OF sd ap(2)] IH by simp
qed

lemma persist_free_list_Inr:
  "persist_free_list_snapshot d n fs = Inr d' \<Longrightarrow>
   validate_free_page_list n fs \<and> d' = d\<lparr>d_free := Some (encode_free_list n fs), d_free_wal := None\<rparr>"
  by (auto simp: persist_free_list_snapshot_def Let_def split: if_splits)

section \<open>The unordered checkpoint\<close>

text \<open>What stays: page count, allocator, transaction bookkeeping, savepoints, pins.\<close>

definition kept :: "pager \<Rightarrow> pager \<Rightarrow> bool" where
  "kept p p' \<longleftrightarrow>
     num_pages p' = num_pages p \<and> in_transaction p' = in_transaction p \<and>
     transaction_file_length p' = transaction_file_length p \<and>
     transaction_num_pages p' = transaction_num_pages p \<and>
     free_pages p' = free_pages p \<and> transaction_free_pages p' = transaction_free_pages p \<and>
     savepoints p' = savepoints p \<and> pin_barrier_active p' = pin_barrier_active p \<and>
     pin_admissions p' = pin_admissions p \<and> page_capacity p \<le> page_capacity p'"

lemma steady_kept: "steady p p' \<Longrightarrow> kept p p'"
  by (simp add: steady_def kept_def)

lemma kept_refl [simp]: "kept p p"
  by (simp add: kept_def)

lemma kept_trans: "kept p q \<Longrightarrow> kept q r \<Longrightarrow> kept p r"
  by (simp add: kept_def)

text \<open>The pages the checkpoint leaves in the main file.\<close>

definition base_image :: "pager \<Rightarrow> nat \<Rightarrow> page" where
  "base_image p m =
     (if m < num_pages p then
        (case lookup_slot (committed_pages p) m of Some img \<Rightarrow> page_write_checksum img
         | None \<Rightarrow> if dirty_flag p m then page_write_checksum (view p m) else page_at (main_file p) m)
      else zero_page)"

lemma pager_ok_new_main:
  assumes "pager_ok p" and "len \<le> length (d_main d)" and "PAGE_SIZE dvd len"
  shows "pager_ok (p\<lparr>disk := d, file_length := len\<rparr>)"
proof (rule pager_okI)
  show "pager_shadows (p\<lparr>disk := d, file_length := len\<rparr>)"
    using pager_okD(5) [OF assms(1)] assms(2,3) by (simp add: pager_shadows_def)
qed (use pager_okD [OF assms(1)] in \<open>simp_all add: pager_arrays_def pager_frames_def pager_table_def
      pager_lru_def lru_list_def occupied_def\<close>)

lemma legacy_base_spec:
  assumes p: "pager_ok p" and c: "pager_checkpoint_legacy_base p = Inr p'"
  shows "pager_ok p'" "kept p p'" "validate_free_page_list (num_pages p) (free_pages p)"
    and "dirty_flag p' = (\<lambda>m. dirty_flag p m \<and> \<not> m < num_pages p)"
    and "lookup_slot (committed_pages p') = (\<lambda>m. None)"
    and "page_at (main_file p') = base_image p"
    and "length (main_file p') = num_pages p * PAGE_SIZE" "file_length p' = num_pages p * PAGE_SIZE"
    and "d_wal (disk p') = None" "d_free (disk p') = Some (encode_free_list (num_pages p) (free_pages p))"
    and "d_free_wal (disk p') = None"
    and "coherent_to B p \<Longrightarrow>
      coherent_to (\<lambda>m. if flushed p (num_pages p) m then page_write_checksum (view p m) else B m) p'"
    and "backing p' = base_image p"
proof -
  obtain p1 where f: "for_each flush_dirty_page [0..<num_pages p] p = Inr p1"
    using c by (auto simp: pager_checkpoint_legacy_base_def)
  note fl = flush_loop_spec [OF p f]
  define p2 where "p2 = fold apply_committed_page [0..<page_capacity p1] p1"
  note ap = apply_loop_spec [OF fl(1) le_refl, folded p2_def]
  define len where "len = num_pages p2 * PAGE_SIZE"
  define d3 where "d3 = (disk p2)\<lparr>d_main := file_truncate len (main_file p2)\<rparr>"
  obtain d where d: "persist_free_list_snapshot d3 (num_pages p2) (free_pages p2) = Inr d"
    and r: "p' = p2\<lparr>disk := d\<lparr>d_wal := None\<rparr>, file_length := len\<rparr>"
    using c f by (auto simp: pager_checkpoint_legacy_base_def Let_def p2_def [symmetric] len_def d3_def)
  note pf = persist_free_list_Inr [OF d]
  have ok2: "pager_ok p2" and st: "steady p p2" using ap steady_trans [OF fl(2)] by blast+
  have np: "num_pages p2 = num_pages p" "free_pages p2 = free_pages p" using st by (simp_all add: steady_def)
  have main: "main_file p' = file_truncate (num_pages p * PAGE_SIZE) (main_file p2)"
    using pf by (simp add: r d3_def len_def np)
  show fle: "file_length p' = num_pages p * PAGE_SIZE" by (simp add: r len_def np)
  show "pager_ok p'"
    unfolding r by (rule pager_ok_new_main [OF ok2]) (use pf in \<open>simp_all add: d3_def len_def\<close>)
  then have ok': "pager_ok p'" .
  show "kept p p'" using steady_kept [OF st] by (simp add: kept_def r)
  show "validate_free_page_list (num_pages p) (free_pages p)" using pf np by simp
  show "dirty_flag p' = (\<lambda>m. dirty_flag p m \<and> \<not> m < num_pages p)"
    using ap fl(3) by (simp add: r dirty_flag_def fun_eq_iff)
  have cap: "lookup_slot (committed_pages p1) m = None" if "\<not> m < page_capacity p1" for m
    using that pager_arraysD(4) [OF fl(1)] by (simp add: lookup_slot_def)
  show cm: "lookup_slot (committed_pages p') = (\<lambda>m. None)"
    using ap cap by (auto simp: r fun_eq_iff)
  have "page_at (main_file p2) m = base_image p m" if m: "m < num_pages p" for m
  proof -
    have "m < page_capacity p1"
      using m fl(2) pager_arraysD(6) [OF fl(1)] by (simp add: steady_def)
    then show ?thesis
      using ap fl(2,4,5) m by (simp add: base_image_def steady_def flushed_def split: option.split)
  qed
  then show pa: "page_at (main_file p') = base_image p"
    unfolding main by (auto simp: fun_eq_iff page_at_truncate base_image_def)
  show "length (main_file p') = num_pages p * PAGE_SIZE" unfolding main by simp
  show "d_wal (disk p') = None" "d_free (disk p') = Some (encode_free_list (num_pages p) (free_pages p))"
    "d_free_wal (disk p') = None" using pf np by (simp_all add: r)
  show "coherent_to (\<lambda>m. if flushed p (num_pages p) m then page_write_checksum (view p m) else B m) p'"
    if "coherent_to B p"
    using fl(6) [OF that] ap by (simp add: r coherent_to_def)
  show "backing p' = base_image p"
    unfolding backing_page_at [OF ok', abs_def] cm fle pa
    by (auto simp: fun_eq_iff base_image_def)
qed

end
