(* ===== verification/PagerOrder.thy ===== *)
theory PagerOrder
  imports PagerCheckpoint
begin

text \<open>
  The ordered checkpoint of \<open>src/pager_checkpoint_order.c\<close>: pages with both a committed shadow and a
  newer dirty image are hidden, the base checkpoint publishes the shadows, the newer images are
  restored and flushed by a second run (\<open>ordered_checkpoint_spec\<close>). \<open>stable\<close> is the state between
  operations.
\<close>

section \<open>Stable states\<close>

text \<open>Between operations the committed shadows carry their checksums and the main file is as long as
  the pager believes.\<close>

definition sealed :: "pager \<Rightarrow> bool" where
  "sealed p \<longleftrightarrow> (\<forall>n img. lookup_slot (committed_pages p) n = Some img \<longrightarrow> page_checksum_ok img)"

definition stable :: "pager \<Rightarrow> bool" where
  "stable p \<longleftrightarrow> pager_ok p \<and> coherent p \<and> sealed p \<and> length (main_file p) = file_length p"

lemma stableD:
  assumes "stable p"
  shows "pager_ok p" "coherent p" "sealed p" "length (main_file p) = file_length p"
  using assms by (simp_all add: stable_def)

lemma committed_length:
  "pager_ok p \<Longrightarrow> lookup_slot (committed_pages p) n = Some img \<Longrightarrow> length img = PAGE_SIZE"
  using pager_okD(1,5) [of p] by (auto simp: lookup_slot_def pager_arrays_def pager_shadows_def split: if_splits)

lemma sealed_image:
  "pager_ok p \<Longrightarrow> sealed p \<Longrightarrow> lookup_slot (committed_pages p) n = Some img \<Longrightarrow> page_write_checksum img = img"
  by (simp add: sealed_def write_checksum_ok committed_length)

lemma stable_backing:
  assumes "stable p"
  shows "backing p m = (case lookup_slot (committed_pages p) m of Some img \<Rightarrow> img | None \<Rightarrow> page_at (main_file p) m)"
proof -
  have "page_at (main_file p) m = zero_page" if "\<not> m < file_length p div PAGE_SIZE"
  proof -
    obtain k where k: "file_length p = PAGE_SIZE * k"
      using pager_okD(5) [OF stableD(1) [OF assms]] by (auto simp: pager_shadows_def dvd_def)
    with that have "k \<le> m" by simp
    then show ?thesis using stableD(4) [OF assms] k by (intro page_at_beyond) simp
  qed
  then show ?thesis unfolding backing_page_at [OF stableD(1) [OF assms]] by (simp split: option.split)
qed

text \<open>The image of a page with the checksum a checkpoint or commit writes.\<close>

definition sealed_view :: "pager \<Rightarrow> nat \<Rightarrow> page" where
  "sealed_view p m = (if dirty_flag p m then page_write_checksum (view p m) else view p m)"

definition overlapping :: "pager \<Rightarrow> nat \<Rightarrow> bool" where
  "overlapping p m \<longleftrightarrow> dirty_flag p m \<and> lookup_slot (committed_pages p) m \<noteq> None"

lemma overlaps_iff: "pager_ok p \<Longrightarrow> m < page_capacity p \<Longrightarrow> overlaps p m = overlapping p m"
  using pager_arraysD(2,4) [of p] by (simp add: overlaps_def overlapping_def dirty_flag_def lookup_slot_def)

lemma base_image_sealed:
  assumes p: "stable p" and m: "m < num_pages p" and o: "\<not> overlapping p m"
  shows "base_image p m = sealed_view p m"
proof (cases "dirty_flag p m")
  case True
  with o have "lookup_slot (committed_pages p) m = None" by (simp add: overlapping_def)
  with True m show ?thesis by (simp add: base_image_def sealed_view_def)
next
  case False
  have "view p m = backing p m" using clean_view [OF stableD(1,2) [OF p] False] .
  with False m show ?thesis
    using sealed_image [OF stableD(1,3) [OF p]] by (simp add: base_image_def sealed_view_def stable_backing [OF p] split: option.split)
qed

lemma coherent_to_cong:
  assumes p: "pager_ok p" and c: "coherent_to B p"
    and eq: "\<And>m. m < num_pages p \<Longrightarrow> \<not> dirty_flag p m \<Longrightarrow> table_entry p m \<noteq> -1 \<Longrightarrow> B m = B' m"
  shows "coherent_to B' p"
proof (unfold coherent_to_def, intro allI impI)
  fix i assume i: "i < MAX_BUFFER_POOL_SIZE" "f_page_num (frames p ! i) \<noteq> INVALID_PAGE_NUM"
    "\<not> f_is_dirty (frames p ! i)"
  note fc = frame_cached [OF p i(1,2)]
  show "f_data (frames p ! i) = B' (f_page_num (frames p ! i))"
    using coherent_toD [OF c i] eq [OF fc(3)] fc(1,4) i(3) by simp
qed

section \<open>Hiding and restoring overlapping pages\<close>

lemma hide_overlap_eq:
  "hide_overlap i (p, saved) =
     (if \<not> overlaps p i then Inr (p, saved)
      else and_then (get_page p i) (\<lambda>(f, p1). Inr (set_flag p1 i False, saved @ [(i, f_data (frames p1 ! f))])))"
  by (simp add: hide_overlap_def set_flag_def Let_def cong: if_cong)

lemma hide_step:
  assumes p: "pager_ok p" and i: "i < num_pages p" and d: "dirty_flag p i" and g: "get_page p i = Inr (f, p1)"
  defines "p' \<equiv> set_flag p1 i False"
  shows "pager_ok p'" "steady p p'" "dirty_flag p' = (dirty_flag p)(i := False)" "disk p' = disk p"
    and "lookup_slot (committed_pages p') = lookup_slot (committed_pages p)"
    and "f_data (frames p1 ! f) = view p i"
    and "coherent_to B p \<Longrightarrow> coherent_to (B(i := view p i)) p'"
    and "m \<noteq> i \<Longrightarrow> dirty_flag p m \<Longrightarrow> view p' m = view p m"
proof -
  have n: "i \<le> UINT32_MAX" using i pager_arraysD(5,6) [OF p] by simp
  note gf = get_page_frames [OF p n g]
  have v1: "view p1 i = view p i" using get_page_dirty_view [OF p n g d] .
  have st: "steady p p1" using fetch_steady [OF gf(2)] gf(8) i by simp
  show "pager_ok p'" unfolding p'_def by (rule set_flag_ok [OF gf(1,3)])
  show "steady p p'" using st by (simp add: p'_def steady_def)
  show "dirty_flag p' = (dirty_flag p)(i := False)" "disk p' = disk p"
    "lookup_slot (committed_pages p') = lookup_slot (committed_pages p)"
    using set_flag_dirty [OF gf(1,3), of False] gf(2) by (simp_all add: p'_def fetch_stable_def)
  show "f_data (frames p1 ! f) = view p i" by (rule gf(9))
  show "coherent_to (B(i := view p i)) p'" if "coherent_to B p"
    using set_flag_coherent_to [OF gf(1,3) gf(10) [OF that]] d v1 by (simp add: p'_def)
  show "view p' m = view p m" if "m \<noteq> i" "dirty_flag p m"
    using set_flag_view [OF gf(1,3), of m False] get_page_dirty_view [OF p n g that(2)] that(1) by (simp add: p'_def)
qed

definition hidden :: "pager \<Rightarrow> nat \<Rightarrow> nat \<Rightarrow> bool" where
  "hidden p k m \<longleftrightarrow> m < k \<and> overlapping p m"

lemma hide_loop_spec:
  assumes p: "pager_ok p" and h: "for_each hide_overlap [0..<num_pages p] (p, []) = Inr s'"
  defines "p' \<equiv> fst s'" and "N \<equiv> num_pages p"
  shows "pager_ok p'" "steady p p'" "disk p' = disk p"
    and "dirty_flag p' = (\<lambda>m. dirty_flag p m \<and> \<not> hidden p N m)"
    and "lookup_slot (committed_pages p') = lookup_slot (committed_pages p)"
    and "snd s' = map (\<lambda>m. (m, view p m)) (filter (overlapping p) [0..<N])"
    and "coherent_to B p \<Longrightarrow> coherent_to (\<lambda>m. if hidden p N m then view p m else B m) p'"
    and "dirty_flag p m \<Longrightarrow> \<not> hidden p N m \<Longrightarrow> view p' m = view p m"
proof -
  define P where "P k s \<longleftrightarrow> pager_ok (fst s) \<and> steady p (fst s) \<and> disk (fst s) = disk p \<and>
    dirty_flag (fst s) = (\<lambda>m. dirty_flag p m \<and> \<not> hidden p k m) \<and>
    lookup_slot (committed_pages (fst s)) = lookup_slot (committed_pages p) \<and>
    snd s = map (\<lambda>m. (m, view p m)) (filter (overlapping p) [0..<k]) \<and>
    (coherent_to B p \<longrightarrow> coherent_to (\<lambda>m. if hidden p k m then view p m else B m) (fst s)) \<and>
    (\<forall>m. dirty_flag p m \<and> \<not> hidden p k m \<longrightarrow> view (fst s) m = view p m)" for k s
  have "P (num_pages p) s'"
  proof (rule for_each_invariant_upto [OF h])
    show "P 0 (p, [])" using p by (simp add: P_def hidden_def)
  next
    fix i s t assume i: "i < num_pages p" and inv: "P i s" and st: "hide_overlap i s = Inr t"
    obtain q saved where s: "s = (q, saved)" by (cases s)
    note I = inv [unfolded P_def s fst_conv snd_conv]
    have ok: "pager_ok q" and sd: "steady p q" and df: "dirty_flag q = (\<lambda>m. dirty_flag p m \<and> \<not> hidden p i m)"
      using I by blast+
    have iq: "i < num_pages q" using i sd by (simp add: steady_def)
    have cap: "i < page_capacity q" using iq pager_arraysD(6) [OF ok] by simp
    have nh: "\<not> hidden p i i" by (simp add: hidden_def)
    have ov: "overlaps q i = overlapping p i"
      using overlaps_iff [OF ok cap] df nh I by (simp add: overlapping_def)
    show "P (Suc i) t"
    proof (cases "overlapping p i")
      case False
      then have "t = s" using st by (simp add: s hide_overlap_eq ov)
      moreover have "hidden p (Suc i) = hidden p i" using False by (auto simp: hidden_def fun_eq_iff less_Suc_eq)
      ultimately show ?thesis using inv False by (simp add: P_def)
    next
      case True
      then have di: "dirty_flag q i" using df nh by (simp add: overlapping_def)
      have vi: "view q i = view p i" using I True nh by (simp add: overlapping_def)
      obtain f p1 where g: "get_page q i = Inr (f, p1)"
        and t: "t = (set_flag p1 i False, saved @ [(i, f_data (frames p1 ! f))])"
        using st True by (auto simp: s hide_overlap_eq ov)
      note hs = hide_step [OF ok iq di g]
      have hd: "hidden p (Suc i) = (hidden p i)(i := True)"
        using True by (auto simp: hidden_def fun_eq_iff less_Suc_eq)
      have "coherent_to (\<lambda>m. if hidden p (Suc i) m then view p m else B m) (fst t)" if "coherent_to B p"
      proof -
        have "coherent_to (\<lambda>m. if hidden p i m then view p m else B m) q" using I that by blast
        from hs(7) [OF this] show ?thesis unfolding vi hd t fst_conv
          by (rule back_subst [of "\<lambda>B. coherent_to B (set_flag p1 i False)"]) (auto simp: fun_eq_iff)
      qed
      moreover have "dirty_flag (fst t) = (\<lambda>m. dirty_flag p m \<and> \<not> hidden p (Suc i) m)"
        unfolding t fst_conv hs(3) df hd by (auto simp: fun_eq_iff)
      moreover have "view (fst t) m = view p m" if "dirty_flag p m" "\<not> hidden p (Suc i) m" for m
      proof -
        have "m \<noteq> i" "\<not> hidden p i m" using that hd by (auto split: if_splits)
        then show ?thesis using hs(8) [of m] that(1) df I by (simp add: t)
      qed
      moreover have "snd t = map (\<lambda>m. (m, view p m)) (filter (overlapping p) [0..<Suc i])"
        using I hs(6) vi True by (simp add: t)
      ultimately show ?thesis
        using I hs(1,4,5) steady_trans [OF sd hs(2)] by (simp add: P_def t)
    qed
  qed
  then show "pager_ok p'" "steady p p'" "disk p' = disk p"
    "dirty_flag p' = (\<lambda>m. dirty_flag p m \<and> \<not> hidden p N m)"
    "lookup_slot (committed_pages p') = lookup_slot (committed_pages p)"
    "snd s' = map (\<lambda>m. (m, view p m)) (filter (overlapping p) [0..<N])"
    "coherent_to B p \<Longrightarrow> coherent_to (\<lambda>m. if hidden p N m then view p m else B m) p'"
    "dirty_flag p m \<Longrightarrow> \<not> hidden p N m \<Longrightarrow> view p' m = view p m"
    by (simp_all add: P_def p'_def N_def)
qed


lemma restore_overlap_step:
  assumes p: "pager_ok p" and m: "m < num_pages p" and img: "length img = PAGE_SIZE"
    and r: "restore_overlap (m, img) p = Inr p'"
  shows "pager_ok p'" "steady p p'" "disk p' = disk p" "dirty_flag p' = (dirty_flag p)(m := True)"
    and "lookup_slot (committed_pages p') = lookup_slot (committed_pages p)" "view p' m = img"
    and "coherent_to B p \<Longrightarrow> coherent_to B p'"
    and "k \<noteq> m \<Longrightarrow> dirty_flag p k \<Longrightarrow> view p' k = view p k"
proof -
  have n: "m \<le> UINT32_MAX" using m pager_arraysD(5,6) [OF p] by simp
  obtain f p1 where g: "get_page p m = Inr (f, p1)" and mk: "mark_page_dirty (poke_frame f img p1) m = Inr p'"
    using r by (auto simp: restore_overlap_def)
  note gf = get_page_frames [OF p n g]
  let ?q = "poke_frame f img p1"
  have ok: "pager_ok ?q" using gf(1) img by (rule poke_ok)
  note ms = mark_page_dirty_spec [OF ok n mk]
  have te: "table_entry ?q m = int f" using gf(7) by simp
  have pv: "view ?q = (view p1)(m := img)" by (rule poke_view [OF gf(1,5,6,4)])
  show "pager_ok p'" by (rule ms(1))
  have st: "fetch_stable p ?q" using gf(2) by simp
  show "disk p' = disk p" "dirty_flag p' = (dirty_flag p)(m := True)"
    "lookup_slot (committed_pages p') = lookup_slot (committed_pages p)"
    using ms(4,8,11) st by (simp_all add: disk_stable_def fetch_stable_def)
  have "page_capacity ?q \<le> page_capacity p'"
    using mk reserve_capacity_ge [OF reserve_facts(3) [OF ok n gf(4)] pager_arraysD(5) [OF ok]]
    by (auto simp: mark_page_dirty_eq gf(4))
  then show "steady p p'"
    using ms(5,8,9,10) st gf(8) m by (simp add: steady_def disk_stable_def fetch_stable_def)
  show "view p' m = img" using ms(3) [of m] te pv by simp
  show "view p' k = view p k" if "k \<noteq> m" "dirty_flag p k"
    using ms(3) [of k] that pv get_page_dirty_view [OF p n g that(2)] by simp
  show "coherent_to B p'" if c: "coherent_to B p"
  proof -
    define B' where "B' = (if dirty_flag p m \<or> table_entry p m \<noteq> -1 then B else B(m := backing p m))"
    have "coherent_to B' p"
      using c by (rule coherent_to_cong [OF p]) (auto simp: B'_def)
    then have "coherent_to B' p1" using gf(10) [of B'] by (simp add: B'_def)
    then have "coherent_to (\<lambda>k. if k = m then view ?q m else B k) ?q"
    proof -
      assume c1: "coherent_to B' p1"
      show ?thesis
      proof (unfold coherent_to_def, intro allI impI)
        fix i assume i: "i < MAX_BUFFER_POOL_SIZE" "f_page_num (frames ?q ! i) \<noteq> INVALID_PAGE_NUM"
          "\<not> f_is_dirty (frames ?q ! i)"
        show "f_data (frames ?q ! i) = (if f_page_num (frames ?q ! i) = m then view ?q m
            else B (f_page_num (frames ?q ! i)))"
        proof (cases "f_page_num (frames ?q ! i) = m")
          case True
          then show ?thesis using frame_cached(1) [OF ok i(1,2)] by (simp add: view_def)
        next
          case False
          then have "i \<noteq> f \<or> \<not> f < length (frames p1)" using gf(6) by auto
          then have same: "frames ?q ! i = frames p1 ! i" by (auto simp: list_update_beyond)
          show ?thesis using coherent_toD [OF c1 i(1)] i(2,3) False unfolding same by (simp add: B'_def split: if_splits)
        qed
      qed
    qed
    then have "coherent_to (\<lambda>k. if k = m then view ?q m else B k) p'"
      using mk ok reserve_facts [OF ok n gf(4)]
      by (auto simp: mark_page_dirty_eq gf(4) coherent_to_def set_flag_frame)
    then show ?thesis
      by (rule coherent_to_cong [OF ms(1)]) (use ms(4) in auto)
  qed
qed


lemma restore_loop_spec:
  assumes "pager_ok p" and "for_each restore_overlap rs p = Inr p'"
    and "\<forall>(m, img)\<in>set rs. m < num_pages p \<and> length img = PAGE_SIZE" and "distinct (map fst rs)"
  shows "pager_ok p' \<and> steady p p' \<and> disk p' = disk p \<and>
    dirty_flag p' = (\<lambda>m. dirty_flag p m \<or> m \<in> fst ` set rs) \<and>
    lookup_slot (committed_pages p') = lookup_slot (committed_pages p) \<and>
    (\<forall>(m, img)\<in>set rs. view p' m = img) \<and> (coherent_to B p \<longrightarrow> coherent_to B p') \<and>
    (\<forall>m. dirty_flag p m \<and> m \<notin> fst ` set rs \<longrightarrow> view p' m = view p m)"
  using assms
proof (induction rs arbitrary: p)
  case (Cons r rs)
  obtain m img where r: "r = (m, img)" by (cases r)
  obtain q where q: "restore_overlap (m, img) p = Inr q" and f: "for_each restore_overlap rs q = Inr p'"
    using Cons.prems(2) by (auto simp: r)
  have m: "m < num_pages p" "length img = PAGE_SIZE" "m \<notin> fst ` set rs" using Cons.prems(3,4) by (auto simp: r)
  note rs = restore_overlap_step [OF Cons.prems(1) m(1,2) q]
  have np: "num_pages q = num_pages p" using rs(2) by (simp add: steady_def)
  have "pager_ok p' \<and> steady q p' \<and> disk p' = disk q \<and>
    dirty_flag p' = (\<lambda>m. dirty_flag q m \<or> m \<in> fst ` set rs) \<and>
    lookup_slot (committed_pages p') = lookup_slot (committed_pages q) \<and>
    (\<forall>(m, img)\<in>set rs. view p' m = img) \<and> (coherent_to B q \<longrightarrow> coherent_to B p') \<and>
    (\<forall>m. dirty_flag q m \<and> m \<notin> fst ` set rs \<longrightarrow> view p' m = view q m)"
    by (rule Cons.IH [OF rs(1) f]) (use Cons.prems(3,4) np in \<open>auto simp: r\<close>)
  moreover from this have "view p' m = img" using rs(4,6) m(3) by simp
  moreover have "(\<lambda>k. dirty_flag q k \<or> k \<in> fst ` set rs) = (\<lambda>k. dirty_flag p k \<or> k \<in> fst ` set (r # rs))"
    unfolding rs(4) r by (auto simp: fun_eq_iff)
  moreover have "view p' k = view p k" if "dirty_flag p k" "k \<notin> fst ` set (r # rs)" for k
    using that calculation(1) rs(8) [of k] rs(4) by (simp add: r)
  ultimately show ?case using rs(3,5,7) steady_trans [OF rs(2)] by (simp add: r)
qed simp

section \<open>The ordered checkpoint\<close>

text \<open>What every complete checkpoint leaves: a stable state without dirty or committed pages, all
  pages in the main file, the allocator in its sidecar, no log.\<close>

definition checkpointed :: "pager \<Rightarrow> (nat \<Rightarrow> page) \<Rightarrow> pager \<Rightarrow> bool" where
  "checkpointed p img p' \<longleftrightarrow>
     stable p' \<and> kept p p' \<and>
     (\<forall>m<num_pages p. view p' m = img m \<and> page_at (main_file p') m = img m \<and> \<not> dirty_flag p' m) \<and>
     lookup_slot (committed_pages p') = (\<lambda>m. None) \<and>
     length (main_file p') = num_pages p * PAGE_SIZE \<and>
     d_wal (disk p') = None \<and> d_free (disk p') = Some (encode_free_list (num_pages p) (free_pages p)) \<and>
     d_free_wal (disk p') = None"

lemma legacy_checkpointed:
  assumes p: "pager_ok p" and c: "pager_checkpoint_legacy_base p = Inr p'"
    and B: "coherent_to B p" "\<And>m. m < num_pages p \<Longrightarrow>
      base_image p m = (if dirty_flag p m then page_write_checksum (view p m) else B m)"
  shows "checkpointed p (base_image p) p'"
proof -
  note ls = legacy_base_spec [OF p c]
  have np: "num_pages p' = num_pages p" using ls(2) by (simp add: kept_def)
  have coh: "coherent p'"
    unfolding coherent_def ls(13)
    by (rule coherent_to_cong [OF ls(1) ls(12) [OF B(1)]]) (use B(2) in \<open>simp add: np flushed_def\<close>)
  have st: "stable p'" using ls(1,5,7,8) coh by (simp add: stable_def sealed_def)
  have "view p' m = base_image p m" if "m < num_pages p" for m
    using clean_view [OF ls(1) coh] that ls(4,13) by simp
  then show ?thesis using st ls by (simp add: checkpointed_def)
qed

lemma checkpointed_cong:
  "checkpointed p img p' \<Longrightarrow> kept p0 p \<Longrightarrow> (\<And>m. m < num_pages p \<Longrightarrow> img m = img' m) \<Longrightarrow> checkpointed p0 img' p'"
  by (auto simp: checkpointed_def kept_def)

lemma legacy_checkpoint_stable:
  assumes p: "stable p" and c: "pager_checkpoint_legacy_base p = Inr p'"
    and o: "\<And>m. m < num_pages p \<Longrightarrow> \<not> overlapping p m"
  shows "checkpointed p (sealed_view p) p'"
proof -
  have "checkpointed p (base_image p) p'"
  proof (rule legacy_checkpointed [OF stableD(1) [OF p] c])
    show "coherent_to (backing p) p" using stableD(2) [OF p] by (simp add: coherent_def)
    show "base_image p m = (if dirty_flag p m then page_write_checksum (view p m) else backing p m)"
      if "m < num_pages p" for m
      using base_image_sealed [OF p that o [OF that]] clean_view [OF stableD(1,2) [OF p], of m]
      by (simp add: sealed_view_def)
  qed
  then show ?thesis
    by (rule checkpointed_cong) (use base_image_sealed [OF p _ o] in simp_all)
qed

lemma ordered_checkpoint_spec:
  assumes p: "stable p" and c: "pager_checkpoint p = Inr p'"
  shows "checkpointed p (sealed_view p) p'"
proof -
  have ok: "pager_ok p" and coh: "coherent_to (backing p) p"
    using stableD(1,2) [OF p] by (simp_all add: coherent_def)
  have ov: "overlaps p m = overlapping p m" if "m < num_pages p" for m
    using overlaps_iff [OF ok, of m] that pager_arraysD(6) [OF ok] by simp
  show ?thesis
  proof (cases "\<exists>i\<in>set [0..<num_pages p]. overlaps p i")
    case False
    then have "pager_checkpoint_legacy_base p = Inr p'" using c by (simp add: pager_checkpoint_def)
    with p show ?thesis by (rule legacy_checkpoint_stable) (use False ov in auto)
  next
    case True
    let ?N = "num_pages p"
    have c': "and_then (for_each hide_overlap [0..<?N] (p, [])) (\<lambda>(p1, saved).
             and_then (pager_checkpoint_legacy_base p1) (\<lambda>p2.
               and_then (for_each restore_overlap saved p2) pager_checkpoint_legacy_base)) = Inr p'"
      using c True unfolding pager_checkpoint_def by (simp only: not_True_eq_False if_False)
    obtain s p2 p3 where h: "for_each hide_overlap [0..<?N] (p, []) = Inr s"
      and l1: "pager_checkpoint_legacy_base (fst s) = Inr p2"
      and r: "for_each restore_overlap (snd s) p2 = Inr p3"
      and l2: "pager_checkpoint_legacy_base p3 = Inr p'"
      using c' by auto
    note hl = hide_loop_spec [OF ok h]
    let ?p1 = "fst s"
    have N1: "num_pages ?p1 = ?N" using hl(2) by (simp add: steady_def)
    note b1 = legacy_base_spec [OF hl(1) l1]
    have N2: "num_pages p2 = ?N" using b1(2) N1 by (simp add: kept_def)
    have snd: "snd s = map (\<lambda>m. (m, view p m)) (filter (overlapping p) [0..<?N])" by (rule hl(6))
    have fsts: "fst ` set (snd s) = {m. m < ?N \<and> overlapping p m}" unfolding snd by force
    have dist: "distinct (map fst (snd s))" unfolding snd by (simp add: o_def)
    have rngs: "\<forall>(m, img)\<in>set (snd s). m < num_pages p2 \<and> length img = PAGE_SIZE"
      unfolding snd by (auto simp: N2 length_view [OF ok])
    note rl = restore_loop_spec [OF b1(1) r rngs dist]
    have ok3: "pager_ok p3" and st3: "steady p2 p3" and d3: "disk p3 = disk p2" using rl by blast+
    have N3: "num_pages p3 = ?N" using st3 N2 by (simp add: steady_def)
    have df1: "dirty_flag ?p1 m = (dirty_flag p m \<and> \<not> (m < ?N \<and> overlapping p m))" for m
      using hl(4) by (simp add: hidden_def)
    have df3: "dirty_flag p3 m = overlapping p m" if "m < ?N" for m
      using rl b1(4) N1 that fsts by simp
    have v3: "view p3 m = view p m" if "m < ?N" "overlapping p m" for m
      using rl that by (auto simp: snd)
    have bi1: "base_image ?p1 m = sealed_view p m" if m: "m < ?N" "\<not> overlapping p m" for m
    proof -
      have "lookup_slot (committed_pages ?p1) m = lookup_slot (committed_pages p) m" using hl(5) by simp
      moreover have "dirty_flag ?p1 m = dirty_flag p m" using df1 m by simp
      moreover have "dirty_flag p m \<Longrightarrow> view ?p1 m = view p m" using hl(8) [of m] m by (simp add: hidden_def)
      ultimately have "base_image ?p1 m = base_image p m"
        using m N1 hl(3) by (simp add: base_image_def split: option.split)
      with base_image_sealed [OF p m] show ?thesis by simp
    qed
    define B2 where "B2 = (\<lambda>m. if flushed ?p1 ?N m then page_write_checksum (view ?p1 m)
      else if hidden p ?N m then view p m else backing p m)"
    have c1: "coherent_to (\<lambda>m. if hidden p ?N m then view p m else backing p m) ?p1" by (rule hl(7) [OF coh])
    have c2: "coherent_to B2 p2" using b1(12) [OF c1] by (simp add: B2_def N1)
    have c3: "coherent_to B2 p3" using rl c2 by blast
    have B2: "B2 m = sealed_view p m" if m: "m < ?N" "\<not> overlapping p m" for m
    proof -
      have "view ?p1 m = view p m" if "dirty_flag p m" using hl(8) [OF that] m by (simp add: hidden_def)
      then show ?thesis
        using m df1 clean_view [OF ok stableD(2) [OF p], of m]
        by (simp add: B2_def flushed_def hidden_def sealed_view_def)
    qed
    have bi3: "base_image p3 m = sealed_view p m" if m: "m < ?N" for m
    proof (cases "overlapping p m")
      case True
      then have "dirty_flag p m" by (simp add: overlapping_def)
      with True m v3 df3 rl b1(5) show ?thesis
        by (simp add: base_image_def N3 sealed_view_def)
    next
      case False
      with m df3 rl b1(5,6) d3 bi1 show ?thesis by (simp add: base_image_def N3)
    qed
    have "checkpointed p3 (base_image p3) p'"
    proof (rule legacy_checkpointed [OF ok3 l2 c3])
      fix m assume m: "m < num_pages p3"
      with N3 have mN: "m < ?N" by simp
      show "base_image p3 m = (if dirty_flag p3 m then page_write_checksum (view p3 m) else B2 m)"
      proof (cases "overlapping p m")
        case True
        then have "dirty_flag p m" by (simp add: overlapping_def)
        with True v3 df3 bi3 mN show ?thesis by (simp add: sealed_view_def)
      next
        case False
        with df3 bi3 B2 mN show ?thesis by simp
      qed
    qed
    moreover have "kept p p3"
      using kept_trans [OF kept_trans [OF steady_kept [OF hl(2)] b1(2)] steady_kept [OF st3]] .
    ultimately show ?thesis by (rule checkpointed_cong) (use bi3 N3 in simp)
  qed
qed

end
