(* ===== verification/PagerCommit.thy ===== *)
theory PagerCommit
  imports PagerOrder
begin

text \<open>
  What \<open>pager_commit\<close> of \<open>src/pager.c\<close> does: its loop over the dirty pages (\<open>commit_loop_spec\<close>), the
  loop that clears them (\<open>clear_loop_spec\<close>) and the whole function (\<open>pager_commit_spec\<close>): it appends
  exactly \<open>encode_txn\<close> of the page count, the free list and the sealed dirty pages to the log,
  shadows these pages, and changes no page image but for the checksums.
\<close>

section \<open>The log loop\<close>

lemma set_committed_ok:
  assumes p: "pager_ok p" and img: "length img = PAGE_SIZE"
  shows "pager_ok (p\<lparr>committed_pages := store_page_copy (committed_pages p) i img\<rparr>)"
proof (rule pager_okI)
  show "pager_shadows (p\<lparr>committed_pages := store_page_copy (committed_pages p) i img\<rparr>)"
    using pager_okD(5) [OF p] pager_arraysD(4) [OF p] img
    by (simp add: pager_shadows_def store_page_copy_def nth_list_update_at split: if_split)
qed (use pager_okD [OF p] in \<open>simp_all add: pager_arrays_def pager_frames_def pager_table_def
      pager_lru_def lru_list_def occupied_def store_page_copy_def\<close>)

lemma set_committed_fields [simp]:
  "frames (p\<lparr>committed_pages := cs\<rparr>) = frames p" "table_entry (p\<lparr>committed_pages := cs\<rparr>) = table_entry p"
  "dirty_flag (p\<lparr>committed_pages := cs\<rparr>) = dirty_flag p" "steady q (p\<lparr>committed_pages := cs\<rparr>) = steady q p"
  "coherent_to B (p\<lparr>committed_pages := cs\<rparr>) = coherent_to B p"
  by (simp_all add: table_entry_def dirty_flag_def steady_def coherent_to_def fun_eq_iff)

lemma steady_unpin [simp]: "steady q (pager_unpin_page p n) = steady q p"
  by (rule unpin_cases [of p n]) (simp_all add: steady_def)

lemma steady_set_flag [simp]: "steady q (set_flag p n b) = steady q p"
  by (simp add: steady_def)

lemma commit_page_step:
  assumes p: "pager_ok p" and c: "coherent p" and i: "i < num_pages p" and d: "dirty_flag p i"
    and s: "commit_page i (p, wal) = Inr (p', wal')"
  defines "img \<equiv> page_write_checksum (view p i)"
  shows "pager_ok p'" "coherent p'" "steady p p'" "disk p' = disk p" "dirty_flag p' = dirty_flag p"
    and "view p' = (view p)(i := img)"
    and "lookup_slot (committed_pages p') = (lookup_slot (committed_pages p))(i := Some img)"
    and "wal' = wal @ page_record (i, img)" "length img = PAGE_SIZE"
proof -
  have cap: "i < page_capacity p" using i pager_arraysD(6) [OF p] by simp
  have n: "i \<le> UINT32_MAX" using cap pager_arraysD(5) [OF p] by simp
  obtain f p1 where g: "get_page p i = Inr (f, p1)"
    and r: "p' = pager_unpin_page ((poke_frame f (page_write_checksum (f_data (frames p1 ! f))) p1)
        \<lparr>committed_pages := store_page_copy (committed_pages (poke_frame f (page_write_checksum (f_data (frames p1 ! f))) p1))
           i (page_write_checksum (f_data (frames p1 ! f)))\<rparr>) i"
      "wal' = wal @ put_u32 i @ page_write_checksum (f_data (frames p1 ! f))"
    using s d dirty_flag_nth [OF p cap] by (auto simp: commit_page_def Let_def)
  note sp = get_page_spec [OF p n g]
  have im: "page_write_checksum (f_data (frames p1 ! f)) = img" using sp(11) by (simp add: img_def)
  show limg: "length img = PAGE_SIZE" using length_view [OF p] by (simp add: img_def)
  define p2 where "p2 = poke_frame f img p1"
  define p3 where "p3 = p2\<lparr>committed_pages := store_page_copy (committed_pages p2) i img\<rparr>"
  have p': "p' = pager_unpin_page p3 i" by (simp add: r im p2_def p3_def)
  have ok2: "pager_ok p2" unfolding p2_def using sp(1) limg by (rule poke_ok)
  have ok3: "pager_ok p3" unfolding p3_def using ok2 limg by (rule set_committed_ok)
  then show "pager_ok p'" by (simp add: p')
  have st: "fetch_stable p p2" using sp(2) by (simp add: p2_def)
  have np: "num_pages p2 = num_pages p" using sp(8) i by (simp add: p2_def)
  show "steady p p'" "disk p' = disk p" "dirty_flag p' = dirty_flag p"
    using fetch_steady [OF st np] st by (simp_all add: p' p3_def fetch_stable_def)
  have cap2: "i < page_capacity p2" using sp(3) by (simp add: p2_def)
  have lk3: "lookup_slot (committed_pages p3) = (lookup_slot (committed_pages p))(i := Some img)"
  proof -
    have "lookup_slot (committed_pages p3) = (lookup_slot (committed_pages p2))(i := Some img)"
      using cap2 pager_arraysD(4) [OF ok2]
      by (auto simp: p3_def store_page_copy_def lookup_slot_def fun_eq_iff nth_list_update_at)
    with st show ?thesis by (simp add: fetch_stable_def)
  qed
  then show "lookup_slot (committed_pages p') = (lookup_slot (committed_pages p))(i := Some img)" by (simp add: p')
  have bk: "backing p3 m = backing p m" if "m \<noteq> i" for m
    by (rule backing_cong) (use st lk3 that in \<open>simp_all add: p3_def fetch_stable_def\<close>)
  have v1: "view p1 = view p" and c1: "coherent p1" using sp(9,10) c by blast+
  have v2: "view p2 = (view p)(i := img)" unfolding p2_def using poke_view [OF sp(1,5,6,4)] v1 by simp
  have te: "table_entry p2 i = int f" using sp(7) by (simp add: p2_def)
  have "view p3 m = view p2 m" for m
  proof (cases "table_entry p2 m = -1")
    case True
    with te have "m \<noteq> i" by auto
    then have "source p3 m = source p2 m"
      using bk fetch_stable_backing [OF st] by (auto simp: source_def p3_def)
    with True show ?thesis by (simp add: view_def p3_def)
  qed (simp add: view_def p3_def)
  then show "view p' = (view p)(i := img)" using v2 by (simp add: p' fun_eq_iff)
  have d1: "f_is_dirty (frames p1 ! f)"
    using frame_cached(4) [OF sp(1) sp(5)] sp(4,6) d sp(2) by (simp add: fetch_stable_def)
  have "coherent_to (backing p1) p2" unfolding p2_def by (rule poke_coherent_to [OF _ d1]) (use c1 in \<open>simp add: coherent_def\<close>)
  then have "coherent_to (backing p) p2" using fetch_stable_backing [OF sp(2)] by simp
  then have c3: "coherent_to (backing p) p3" by (simp add: p3_def)
  have df: "dirty_flag p3 = dirty_flag p" using st by (simp add: p3_def fetch_stable_def)
  from ok3 c3 have "coherent_to (backing p3) p3"
  proof (rule coherent_to_cong)
    fix m assume "\<not> dirty_flag p3 m"
    with d df have "m \<noteq> i" by auto
    from bk [OF this] show "backing p m = backing p3 m" by simp
  qed
  then have "coherent p3" by (simp add: coherent_def)
  then show "coherent p'" by (simp add: p')
  show "wal' = wal @ page_record (i, img)" by (simp add: r im page_record_def)
qed

definition commit_records :: "pager \<Rightarrow> nat \<Rightarrow> (nat \<times> page) list" where
  "commit_records p k = map (\<lambda>m. (m, page_write_checksum (view p m))) (filter (dirty_flag p) [0..<k])"

lemma commit_loop_spec:
  assumes p: "pager_ok p" and c: "coherent p" and h: "for_each commit_page [0..<num_pages p] (p, wal) = Inr s'"
  defines "p' \<equiv> fst s'" and "N \<equiv> num_pages p"
  shows "pager_ok p'" "coherent p'" "steady p p'" "disk p' = disk p" "dirty_flag p' = dirty_flag p"
    and "view p' = (\<lambda>m. if flushed p N m then page_write_checksum (view p m) else view p m)"
    and "lookup_slot (committed_pages p') =
      (\<lambda>m. if flushed p N m then Some (page_write_checksum (view p m)) else lookup_slot (committed_pages p) m)"
    and "snd s' = wal @ concat (map page_record (commit_records p N))"
proof -
  define P where "P k s \<longleftrightarrow> pager_ok (fst s) \<and> coherent (fst s) \<and> steady p (fst s) \<and>
    disk (fst s) = disk p \<and> dirty_flag (fst s) = dirty_flag p \<and>
    view (fst s) = (\<lambda>m. if flushed p k m then page_write_checksum (view p m) else view p m) \<and>
    lookup_slot (committed_pages (fst s)) =
      (\<lambda>m. if flushed p k m then Some (page_write_checksum (view p m)) else lookup_slot (committed_pages p) m) \<and>
    snd s = wal @ concat (map page_record (commit_records p k))" for k s
  have "P (num_pages p) s'"
  proof (rule for_each_invariant_upto [OF h])
    show "P 0 (p, wal)" using p c by (simp add: P_def flushed_def commit_records_def)
  next
    fix i s t assume i: "i < num_pages p" and inv: "P i s" and st: "commit_page i s = Inr t"
    obtain q w where s: "s = (q, w)" by (cases s)
    obtain q' w' where t: "t = (q', w')" by (cases t)
    note I = inv [unfolded P_def s fst_conv snd_conv]
    have ok: "pager_ok q" and co: "coherent q" and sd: "steady p q" and df: "dirty_flag q = dirty_flag p" using I by blast+
    have iq: "i < num_pages q" using i sd by (simp add: steady_def)
    have cap: "i < page_capacity q" using iq pager_arraysD(6) [OF ok] by simp
    show "P (Suc i) t"
    proof (cases "dirty_flag p i")
      case False
      then have "t = s" using st dirty_flag_nth [OF ok cap] df by (simp add: s commit_page_def)
      moreover have "flushed p (Suc i) = flushed p i" using False by (auto simp: flushed_def fun_eq_iff less_Suc_eq)
      ultimately show ?thesis using inv False by (simp add: P_def commit_records_def)
    next
      case True
      then have di: "dirty_flag q i" by (simp add: df)
      have vi: "view q i = view p i" using I by (simp add: flushed_def)
      note cs = commit_page_step [OF ok co iq di st [unfolded s t], unfolded vi]
      have fl: "flushed p (Suc i) = (flushed p i)(i := True)"
        using True by (auto simp: flushed_def fun_eq_iff less_Suc_eq)
      have "view q' = (\<lambda>m. if flushed p (Suc i) m then page_write_checksum (view p m) else view p m)"
        unfolding cs(6) fl using I by (auto simp: fun_eq_iff)
      moreover have "lookup_slot (committed_pages q') =
          (\<lambda>m. if flushed p (Suc i) m then Some (page_write_checksum (view p m)) else lookup_slot (committed_pages p) m)"
        unfolding cs(7) fl using I by (auto simp: fun_eq_iff)
      moreover have "w' = wal @ concat (map page_record (commit_records p (Suc i)))"
        using I cs(8) True by (simp add: commit_records_def)
      ultimately show ?thesis using I cs(1,2,4,5) steady_trans [OF sd cs(3)] by (simp add: P_def t)
    qed
  qed
  then show "pager_ok p'" "coherent p'" "steady p p'" "disk p' = disk p" "dirty_flag p' = dirty_flag p"
    "view p' = (\<lambda>m. if flushed p N m then page_write_checksum (view p m) else view p m)"
    "lookup_slot (committed_pages p') =
      (\<lambda>m. if flushed p N m then Some (page_write_checksum (view p m)) else lookup_slot (committed_pages p) m)"
    "snd s' = wal @ concat (map page_record (commit_records p N))"
    by (simp_all add: P_def p'_def N_def)
qed


section \<open>Clearing the dirty flags\<close>

lemma clear_dirty_page_eq:
  "clear_dirty_page i p = (if \<not> is_dirty p ! i then p else set_flag (clear_spill i p) i False)"
  by (simp add: clear_dirty_page_def set_flag_def clear_spill_def Let_def)

text \<open>The flag of a dirty page may go once its shadow holds its image.\<close>

lemma clear_dirty_page_step:
  assumes p: "pager_ok p" and c: "coherent p" and i: "i < num_pages p"
    and v: "dirty_flag p i \<Longrightarrow> view p i = backing p i"
  defines "p' \<equiv> clear_dirty_page i p"
  shows "pager_ok p' \<and> coherent p' \<and> steady p p' \<and> disk p' = disk p \<and> view p' = view p \<and>
    backing p' = backing p \<and> dirty_flag p' = (dirty_flag p)(i := False) \<and>
    committed_pages p' = committed_pages p"
proof -
  have cap: "i < page_capacity p" using i pager_arraysD(6) [OF p] by simp
  have dn: "dirty_flag p i = is_dirty p ! i" by (rule dirty_flag_nth [OF p cap])
  show ?thesis
  proof (cases "dirty_flag p i")
    case False
    then have "p' = p" using dn by (simp add: p'_def clear_dirty_page_eq)
    with False p c show ?thesis by (simp add: fun_upd_idem)
  next
    case True
    let ?q = "clear_spill i p"
    have p': "p' = set_flag ?q i False" using True dn by (simp add: p'_def clear_dirty_page_eq)
    have okq: "pager_ok ?q" using p by (rule clear_spill_ok)
    have capq: "i < page_capacity ?q" using cap by simp
    have none: "dirty_page_spills ?q ! i = None" using cap pager_arraysD(3) [OF p] by (simp add: clear_spill_def)
    have spill: "dirty_page_spills ?q = (dirty_page_spills p)[i := None]" by (simp add: clear_spill_def)
    have vq: "view ?q m = view p m" for m
    proof (cases "table_entry p i \<noteq> -1 \<or> m \<noteq> i")
      case True
      then show ?thesis by (rule clear_spill_view)
    next
      case False
      then have "view ?q m = backing p i" using none cap pager_arraysD(3) [OF p]
        by (simp add: view_def source_def lookup_slot_def spill)
      with False v [OF True] show ?thesis by simp
    qed
    have "coherent_to (backing p) ?q" using c by (simp add: coherent_def)
    from set_flag_coherent_to [OF okq capq this]
    have "coherent_to ((backing p)(i := view p i)) p'" by (simp add: p' vq)
    moreover have "(backing p)(i := view p i) = backing p" using v [OF True] by (simp add: fun_upd_idem)
    ultimately have "coherent p'" by (simp add: coherent_def p')
    then show ?thesis
      using set_flag_ok [OF okq capq] set_flag_clear_view [OF okq capq none] set_flag_dirty [OF okq capq] vq
      by (simp add: p' fun_eq_iff)
  qed
qed

lemma clear_loop_spec:
  assumes p: "pager_ok p" and c: "coherent p" and k: "k \<le> num_pages p"
    and v: "\<And>m. dirty_flag p m \<Longrightarrow> m < num_pages p \<Longrightarrow> view p m = backing p m"
  defines "p' \<equiv> fold clear_dirty_page [0..<k] p"
  shows "pager_ok p' \<and> coherent p' \<and> steady p p' \<and> disk p' = disk p \<and> view p' = view p \<and>
    backing p' = backing p \<and> dirty_flag p' = (\<lambda>m. dirty_flag p m \<and> \<not> m < k) \<and>
    committed_pages p' = committed_pages p"
  using k unfolding p'_def
proof (induction k)
  case 0
  then show ?case using p c by simp
next
  case (Suc k)
  let ?q = "fold clear_dirty_page [0..<k] p"
  note IH = Suc.IH [OF Suc_leD [OF Suc.prems]]
  have ok: "pager_ok ?q" "coherent ?q" and sd: "steady p ?q" and vb: "view ?q = view p" "backing ?q = backing p"
    and df: "dirty_flag ?q = (\<lambda>m. dirty_flag p m \<and> \<not> m < k)" using IH by blast+
  have kq: "k < num_pages ?q" using Suc.prems sd by (simp add: steady_def)
  have vk: "dirty_flag ?q k \<Longrightarrow> view ?q k = backing ?q k" using v [of k] Suc.prems vb df by simp
  note st = clear_dirty_page_step [OF ok kq vk]
  have "dirty_flag (clear_dirty_page k ?q) = (\<lambda>m. dirty_flag p m \<and> \<not> m < Suc k)"
    using st df by (auto simp: fun_eq_iff less_Suc_eq)
  moreover have "committed_pages ?q = committed_pages p" "disk ?q = disk p" using IH by blast+
  moreover have "fold clear_dirty_page [0..<Suc k] p = clear_dirty_page k ?q" by simp
  ultimately show ?case using st [unfolded vb] steady_trans [OF sd] by metis
qed

section \<open>Commit\<close>

definition wal_bytes :: "disk \<Rightarrow> bytes" where
  "wal_bytes d = (case d_wal d of None \<Rightarrow> [] | Some w \<Rightarrow> w)"

lemma pager_ok_transfer:
  assumes p: "pager_ok p" and same: "frames p' = frames p" "lru_head p' = lru_head p" "lru_tail p' = lru_tail p"
    "page_table p' = page_table p" "is_dirty p' = is_dirty p" "dirty_page_spills p' = dirty_page_spills p"
    "committed_pages p' = committed_pages p" "page_capacity p' = page_capacity p" "num_pages p' = num_pages p"
    and txn: "in_transaction p' \<Longrightarrow> transaction_num_pages p' \<le> page_capacity p"
    and len: "file_length p' \<le> length (main_file p')" "PAGE_SIZE dvd file_length p'"
  shows "pager_ok p'"
proof (rule pager_okI)
  have occ: "occupied p' = occupied p" "lru_list p' q = lru_list p q" for q
    by (simp_all add: occupied_def lru_list_def same)
  show "pager_lru p'" using pager_okD(4) [OF p] by (simp only: pager_lru_def occ)
  show "pager_arrays p'" using pager_okD(1) [OF p] txn unfolding pager_arrays_def same by blast
  show "pager_frames p'" using pager_okD(2) [OF p] unfolding pager_frames_def same .
  show "pager_table p'" using pager_okD(3) [OF p] unfolding pager_table_def same .
  show "pager_shadows p'" using pager_okD(5) [OF p] len unfolding pager_shadows_def same by blast
qed

lemma pager_ok_lengths:
  "pager_ok p \<Longrightarrow> file_length p \<le> length (main_file p)" "pager_ok p \<Longrightarrow> PAGE_SIZE dvd file_length p"
  "pager_ok p \<Longrightarrow> in_transaction p \<Longrightarrow> transaction_num_pages p \<le> page_capacity p"
  by (simp_all add: pager_ok_def pager_shadows_def pager_arrays_def)

lemma pager_ok_disk:
  "pager_ok p \<Longrightarrow> d_main d = main_file p \<Longrightarrow> pager_ok (p\<lparr>disk := d\<rparr>)"
  by (rule pager_ok_transfer [of p]) (simp_all add: pager_ok_lengths)

lemma disk_views:
  assumes "d_main d = main_file p"
  shows "view (p\<lparr>disk := d\<rparr>) = view p" "backing (p\<lparr>disk := d\<rparr>) = backing p"
    "dirty_flag (p\<lparr>disk := d\<rparr>) = dirty_flag p" "coherent (p\<lparr>disk := d\<rparr>) = coherent p"
  using assms
  by (auto simp: fun_eq_iff view_def coherent_def coherent_to_def backing_def dirty_flag_def table_entry_def
      source_def cong: option.case_cong)

lemma pager_ok_txn_end:
  "pager_ok p \<Longrightarrow> pager_ok (p\<lparr>savepoints := [], transaction_free_pages := [], in_transaction := False,
     transaction_file_length := 0, transaction_num_pages := 0\<rparr>)"
  by (rule pager_ok_transfer [of p]) (simp_all add: pager_ok_lengths)

lemma txn_end_views [simp]:
  fixes p :: pager
  defines "p' \<equiv> p\<lparr>savepoints := [], transaction_free_pages := [], in_transaction := False,
     transaction_file_length := 0, transaction_num_pages := 0\<rparr>"
  shows "view p' = view p" "backing p' = backing p" "dirty_flag p' = dirty_flag p" "coherent p' = coherent p"
  by (auto simp: p'_def fun_eq_iff view_def coherent_def coherent_to_def backing_def dirty_flag_def
      table_entry_def source_def cong: option.case_cong)

lemma length_commit_records: "length (commit_records p k) = length (filter (dirty_flag p) [0..<k])"
  by (simp add: commit_records_def)

lemma commit_records_ok:
  assumes "pager_ok p" "validate_free_page_list (num_pages p) (free_pages p)"
  shows "txn_ok (num_pages p) (free_pages p) (commit_records p (num_pages p))"
proof -
  have "length (commit_records p (num_pages p)) \<le> num_pages p"
    unfolding length_commit_records using length_filter_le [of "dirty_flag p" "[0..<num_pages p]"] by simp
  with assms show ?thesis
    using pager_arraysD(5,6) [OF assms(1)] length_view [OF assms(1)]
    by (auto simp: txn_ok_def commit_records_def)
qed

lemma pager_commit_spec:
  assumes p: "stable p" and c: "pager_commit p = Inr p'"
  defines "N \<equiv> num_pages p"
  shows "stable p'" "num_pages p' = N" "free_pages p' = free_pages p" "view p' = (\<lambda>m. if m < N then sealed_view p m else view p m)"
    and "dirty_flag p' = (\<lambda>m. dirty_flag p m \<and> \<not> m < N)"
    and "\<And>m. m < N \<Longrightarrow> backing p' m = view p' m" "\<And>m. N \<le> m \<Longrightarrow> backing p' m = backing p m"
    and "main_file p' = main_file p" "file_length p' = file_length p"
    and "d_wal (disk p') = Some (wal_bytes (disk p) @ encode_txn N (free_pages p) (commit_records p N))"
    and "txn_ok N (free_pages p) (commit_records p N)"
    and "\<not> in_transaction p'" "savepoints p' = []"
    and "d_free (disk p') = Some (encode_free_list N (free_pages p))" "d_free_wal (disk p') = None"
    and "lookup_slot (committed_pages p') =
      (\<lambda>m. if flushed p N m then Some (page_write_checksum (view p m)) else lookup_slot (committed_pages p) m)"
proof -
  note ok = stableD [OF p]
  have val: "validate_free_page_list (num_pages p) (free_pages p)"
    using c by (auto simp: pager_commit_def Let_def split: if_splits)
  define w0 where "w0 = wal_bytes (disk p) @ put_u32 WAL_TXN_V2_MAGIC
    @ put_u32 (length (filter (\<lambda>i. is_dirty p ! i) [0..<num_pages p])) @ put_u32 (num_pages p)
    @ put_u32 (length (free_pages p)) @ concat (map put_u32 (free_pages p))"
  obtain s d2 where l: "for_each commit_page [0..<num_pages p] (p, w0) = Inr s"
    and d2: "persist_free_list_snapshot ((disk (fst s))\<lparr>d_wal := Some (snd s @ put_u32 WAL_COMMIT_MAGIC)\<rparr>)
      (num_pages (fst s)) (free_pages (fst s)) = Inr d2"
    and r: "p' = (fold clear_dirty_page [0..<num_pages (fst s)] ((fst s)\<lparr>disk := d2\<rparr>))
      \<lparr>savepoints := [], transaction_free_pages := [], in_transaction := False,
        transaction_file_length := 0, transaction_num_pages := 0\<rparr>"
    using c val by (auto simp: pager_commit_def Let_def w0_def wal_bytes_def)
  note cl = commit_loop_spec [OF ok(1,2) l]
  let ?q = "fst s"
  have st: "num_pages ?q = N" "free_pages ?q = free_pages p" "file_length ?q = file_length p"
    using cl(3) by (simp_all add: steady_def N_def)
  note pf = persist_free_list_Inr [OF d2, unfolded st]
  have dm: "d_main d2 = main_file ?q" using pf by simp
  let ?q2 = "?q\<lparr>disk := d2\<rparr>"
  have ok2: "pager_ok ?q2" using pager_ok_disk [OF cl(1) dm] .
  have co2: "coherent ?q2" using cl(2) disk_views(4) [OF dm] by simp
  have bq: "backing ?q m = (if flushed p N m then page_write_checksum (view p m) else backing p m)" for m
  proof (cases "flushed p N m")
    case True
    then show ?thesis using cl(7) by (simp add: backing_def N_def)
  next
    case False
    then have "backing ?q m = backing p m"
      by (intro backing_cong) (use cl(4,7) st in \<open>simp_all add: N_def\<close>)
    with False show ?thesis by simp
  qed
  have vb: "view ?q2 m = backing ?q2 m" if "dirty_flag ?q2 m" "m < num_pages ?q2" for m
    using that cl(5,6) bq st disk_views [OF dm] by (simp add: flushed_def N_def)
  have kk: "num_pages ?q \<le> num_pages ?q2" by simp
  note ce = clear_loop_spec [OF ok2 co2 kk vb]
  define q3 where "q3 = fold clear_dirty_page [0..<num_pages ?q] ?q2"
  note ce = ce [folded q3_def]
  have p': "p' = q3\<lparr>savepoints := [], transaction_free_pages := [], in_transaction := False,
        transaction_file_length := 0, transaction_num_pages := 0\<rparr>" by (simp add: r q3_def)
  have st3: "num_pages q3 = N" "free_pages q3 = free_pages p" "file_length q3 = file_length p" "disk q3 = d2"
    using ce st by (simp_all add: steady_def)
  show np: "num_pages p' = N" "free_pages p' = free_pages p" "file_length p' = file_length p"
    "\<not> in_transaction p'" "savepoints p' = []"
    using st3 by (simp_all add: p')
  have dk: "disk p' = d2" using st3 by (simp add: p')
  show main: "main_file p' = main_file p" using dk dm cl(4) by simp
  have w: "snd s @ put_u32 WAL_COMMIT_MAGIC = wal_bytes (disk p) @ encode_txn N (free_pages p) (commit_records p N)"
  proof -
    have "filter (\<lambda>i. is_dirty p ! i) [0..<num_pages p] = filter (dirty_flag p) [0..<num_pages p]"
      by (rule filter_cong [OF refl]) (use dirty_flag_nth [OF ok(1)] pager_arraysD(6) [OF ok(1)] in auto)
    then show ?thesis unfolding cl(8) w0_def encode_txn_def length_commit_records by (simp add: N_def)
  qed
  show "d_wal (disk p') = Some (wal_bytes (disk p) @ encode_txn N (free_pages p) (commit_records p N))"
    using pf w by (simp add: dk)
  show "d_free (disk p') = Some (encode_free_list N (free_pages p))" "d_free_wal (disk p') = None"
    using pf by (simp_all add: dk)
  show "txn_ok N (free_pages p) (commit_records p N)" using commit_records_ok [OF ok(1) val] by (simp add: N_def)
  have vw: "view p' = view ?q" and bk: "backing p' = backing ?q"
    using ce disk_views [OF dm] by (simp_all add: p')
  show dfl: "dirty_flag p' = (\<lambda>m. dirty_flag p m \<and> \<not> m < N)"
    using ce disk_views(3) [OF dm] cl(5) st by (simp add: p')
  show "view p' = (\<lambda>m. if m < N then sealed_view p m else view p m)"
    unfolding vw cl(6) by (auto simp: sealed_view_def flushed_def N_def)
  have coh: "coherent p'" using ce by (simp add: p')
  have okp: "pager_ok p'" unfolding p' using ce by (blast intro: pager_ok_txn_end)
  show "backing p' m = view p' m" if "m < N" for m
    using clean_view [OF okp coh, of m] that dfl by simp
  show "backing p' m = backing p m" if "N \<le> m" for m
    unfolding bk bq using that by (simp add: flushed_def)
  have lk: "lookup_slot (committed_pages p') = lookup_slot (committed_pages ?q)" using ce by (simp add: p')
  show "lookup_slot (committed_pages p') =
      (\<lambda>m. if flushed p N m then Some (page_write_checksum (view p m)) else lookup_slot (committed_pages p) m)"
    unfolding lk by (simp add: cl(7) N_def)
  from lk have "sealed p'"
    using ok(3) cl(7) length_view [OF ok(1)] by (auto simp: sealed_def split: if_splits)
  with okp coh main np(3) ok(4) show "stable p'" by (simp add: stable_def)
qed

end
