(* ===== verification/PagerDurable.thy ===== *)
theory PagerDurable
  imports PagerCommit
begin

text \<open>
  Opening a database and what a restart finds: \<open>pager_open_spec\<close> describes the pager
  \<open>pager_open\<close> builds, \<open>durable\<close> relates a live pager to the files it would be rebuilt from, and the
  two theorems at the end are the durability and the crash atomicity of \<open>pager_commit\<close>
  (\<open>src/pager.c\<close>).
\<close>

section \<open>Opening a database\<close>

lemma blank_ok: "PAGE_SIZE dvd length (d_main d) \<Longrightarrow> len = length (d_main d) \<Longrightarrow>
    pager_ok ((blank_pager d len 0)\<lparr>num_pages := 0\<rparr>)"
  by (auto simp: pager_ok_def pager_arrays_def pager_frames_def pager_table_def pager_lru_def lru_list_def
      occupied_def pager_shadows_def blank_pager_def blank_frame_def INVALID_PAGE_NUM_def MAX_BUFFER_POOL_SIZE_def
      intro!: exI [of _ "[]"])

lemma reserve_num_pages: "pager_reserve_capacity (p\<lparr>num_pages := n\<rparr>) m = (pager_reserve_capacity p m)\<lparr>num_pages := n\<rparr>"
  by (simp add: pager_reserve_capacity_def Let_def)

lemma load_free_list_main [simp]: "d_main (snd (load_free_list_snapshot d n)) = d_main d"
  "d_wal (snd (load_free_list_snapshot d n)) = d_wal d"
  by (auto simp: load_free_list_snapshot_def split: option.splits)

lemma recover_wal_none: "recover_wal d = Inr d' \<Longrightarrow> d_wal d' = None"
  by (auto simp: recover_wal_def Let_def split: option.splits prod.splits)

lemma load_free_list_valid: "validate_free_page_list n (fst (load_free_list_snapshot d n))"
proof -
  have "validate_free_page_list n ps" if "read_free_list_snapshot f n = Some ps" for f ps
    using that by (auto simp: read_free_list_snapshot_def Let_def split: option.splits if_splits)
  then show ?thesis
    by (auto simp: load_free_list_snapshot_def validate_free_page_list_iff [of n "[]"] split: option.splits)
qed

lemma pager_open_spec:
  assumes o: "pager_open d0 = Inr p"
  obtains d where "recover_wal d0 = Inr d" "PAGE_SIZE dvd length (d_main d)"
    "stable p" "num_pages p = length (d_main d) div PAGE_SIZE" "main_file p = d_main d" "d_wal (disk p) = None"
    "view p = page_at (d_main d)" "backing p = page_at (d_main d)" "dirty_flag p = (\<lambda>m. False)" "lookup_slot (committed_pages p) = (\<lambda>m. None)"
    "free_pages p = fst (load_free_list_snapshot d (num_pages p))" "alloc_ok p" "no_pins p"
    "\<not> in_transaction p" "savepoints p = []" "table_entry p = (\<lambda>m. -1)"
proof -
  obtain d where r: "recover_wal d0 = Inr d" using o by (auto simp: pager_open_def)
  define n where "n = length (d_main d) div PAGE_SIZE"
  define cap where "cap = (if n > PAGER_INITIAL_CAPACITY then n else PAGER_INITIAL_CAPACITY)"
  let ?b = "blank_pager d (length (d_main d)) 0"
  let ?r = "pager_reserve_capacity ?b cap"
  have dv: "PAGE_SIZE dvd length (d_main d)" and nmax: "n \<le> INVALID_PAGE_NUM"
    and p: "p = (?r\<lparr>num_pages := n\<rparr>)
      \<lparr>disk := snd (load_free_list_snapshot d n), free_pages := fst (load_free_list_snapshot d n)\<rparr>"
  proof -
    have bn: "blank_pager d (length (d_main d)) n = ?b\<lparr>num_pages := n\<rparr>" by (simp add: blank_pager_def)
    note o' = o [unfolded pager_open_def r and_then_Inr Let_def n_def [symmetric]]
    show "PAGE_SIZE dvd length (d_main d)" "n \<le> INVALID_PAGE_NUM"
      using o' by (auto split: if_splits)
    show "p = (?r\<lparr>num_pages := n\<rparr>)
      \<lparr>disk := snd (load_free_list_snapshot d n), free_pages := fst (load_free_list_snapshot d n)\<rparr>"
      using o' by (auto simp: bn reserve_num_pages cap_def split: if_splits prod.splits)
  qed
  have capmax: "cap \<le> UINT32_MAX" using nmax by (simp add: cap_def INVALID_PAGE_NUM_def UINT32_MAX_def PAGER_INITIAL_CAPACITY_def)
  have b: "pager_ok ?b" using blank_ok [OF dv refl] by (simp add: blank_pager_def)
  have ok1: "pager_ok ?r" by (rule reserve_ok [OF b capmax])
  have ncap: "n \<le> page_capacity ?r"
    using reserve_capacity_ge [OF capmax, of ?b] by (simp add: cap_def blank_pager_def UINT32_MAX_def split: if_splits)
  have fr: "frames ?r = replicate MAX_BUFFER_POOL_SIZE blank_frame" by (simp add: blank_pager_def)
  have inv: "f_page_num (frames ?r ! i) = INVALID_PAGE_NUM" if "i < MAX_BUFFER_POOL_SIZE" for i
    using that unfolding fr by (simp add: blank_frame_def)
  have ok2: "pager_ok (?r\<lparr>num_pages := n\<rparr>)" using ok1 ncap by (rule pager_ok_num_pages) (use inv in blast)
  have ok: "pager_ok p"
    by (rule pager_ok_transfer [OF ok2]) (use dv in \<open>simp_all add: p\<close>, simp_all add: blank_pager_def)
  have te: "table_entry ?b m = -1" "dirty_flag ?b m = False" "lookup_slot (committed_pages ?b) m = None" for m
    by (simp_all add: blank_pager_def table_entry_def dirty_flag_def lookup_slot_def)
  have pr: "table_entry p = table_entry ?r" "dirty_flag p = dirty_flag ?r" "committed_pages p = committed_pages ?r"
    by (simp_all add: p table_entry_def dirty_flag_def fun_eq_iff)
  from te have "table_entry ?r m = -1" "dirty_flag ?r m = False" "lookup_slot (committed_pages ?r) m = None" for m
    by simp_all
  then have f: "table_entry p m = -1" "dirty_flag p m = False" "lookup_slot (committed_pages p) m = None" for m
    using pr by simp_all
  have main: "main_file p = d_main d" "file_length p = length (d_main d)" by (simp_all add: p) (simp add: blank_pager_def)
  have frp: "frames p = replicate MAX_BUFFER_POOL_SIZE blank_frame" by (simp add: p blank_pager_def)
  have coh: "coherent p" by (rule coherentI) (simp add: frp blank_frame_def)
  have st: "stable p" using ok coh main f by (simp add: stable_def sealed_def)
  have bk: "backing p m = page_at (d_main d) m" for m using stable_backing [OF st] f main by simp
  have vw: "view p m = page_at (d_main d) m" for m using f bk by (simp add: view_def source_def)
  have al: "alloc_ok p" using load_free_list_valid [of n d] by (simp add: alloc_ok_def p validate_free_page_list_iff)
  have np: "no_pins p" by (simp add: no_pins_def frp blank_frame_def)
  have rest: "num_pages p = n" "d_wal (disk p) = None" "free_pages p = fst (load_free_list_snapshot d (num_pages p))"
    "\<not> in_transaction p" "savepoints p = []"
    using recover_wal_none [OF r] by (simp_all add: p) (simp_all add: blank_pager_def)
  show thesis
    by (rule that [OF r dv st _ main(1)]) (use rest n_def vw bk f al np in \<open>simp_all add: fun_eq_iff\<close>)
qed


section \<open>Durable states\<close>

text \<open>The database file a restart would replay the log into.\<close>

definition recovered_file :: "disk \<Rightarrow> bytes" where
  "recovered_file d = fst (recover_loop (wal_bytes d) (d_main d, None))"

text \<open>The log holds the transactions \<open>ts\<close>, and below page \<open>K\<close> a restart finds what is behind the
  clean pages. \<open>K\<close> is the page count of the last commit, or less after a \<open>pager_shrink\<close>.\<close>

definition durable :: "log_txn list \<Rightarrow> nat \<Rightarrow> pager \<Rightarrow> bool" where
  "durable ts K p \<longleftrightarrow>
     log_ok ts \<and> wal_bytes (disk p) = log_bytes ts \<and> (d_wal (disk p) = None \<longrightarrow> ts = []) \<and>
     (\<forall>m<K. page_at (recovered_file (disk p)) m = backing p m)"

lemma page_at_apply_pages:
  assumes "\<forall>(n, img) \<in> set ps. length img = PAGE_SIZE" and "distinct (map fst ps)"
  shows "page_at (apply_pages ps f) m = (case map_of ps m of Some img \<Rightarrow> img | None \<Rightarrow> page_at f m)"
  using assms
proof (induction ps arbitrary: f)
  case (Cons r ps)
  obtain n img where r: "r = (n, img)" by (cases r)
  have "page_at (apply_pages (r # ps) f) m = page_at (apply_pages ps (file_write (n * PAGE_SIZE) img f)) m"
    by (simp add: apply_pages_def r)
  also have "\<dots> = (case map_of ps m of Some img \<Rightarrow> img | None \<Rightarrow> page_at (file_write (n * PAGE_SIZE) img f) m)"
    using Cons by (simp add: r)
  also have "\<dots> = (case map_of (r # ps) m of Some img \<Rightarrow> img | None \<Rightarrow> page_at f m)"
  proof -
    have "map_of ps n = None" using Cons.prems(2) by (simp add: r map_of_eq_None_iff)
    moreover have "length img = PAGE_SIZE" using Cons.prems(1) by (simp add: r)
    ultimately show ?thesis by (auto simp: r page_at_write split: option.splits)
  qed
  finally show ?case .
qed (simp add: apply_pages_def)

lemma map_of_commit_records:
  "map_of (commit_records p k) m = (if m < k \<and> dirty_flag p m then Some (page_write_checksum (view p m)) else None)"
  by (auto simp: commit_records_def map_of_map_restrict restrict_map_def)

lemma distinct_commit_records: "distinct (map fst (commit_records p k))"
  by (simp add: commit_records_def o_def)

lemma recover_log:
  "log_ok ts \<Longrightarrow> recover_loop (log_bytes ts) s = fold recover_step (log_txns ts) s"
  using recover_loop_log [of ts "[]" s] by simp

lemma log_bytes_snoc: "log_bytes (ts @ [(n, fs, ps)]) = log_bytes ts @ encode_txn n fs ps"
  by (simp add: log_bytes_def)

lemma log_ok_snoc: "log_ok (ts @ [(n, fs, ps)]) \<longleftrightarrow> log_ok ts \<and> txn_ok n fs ps"
  by (auto simp: log_ok_def)

lemma log_txns_snoc: "log_txns (ts @ [(n, fs, ps)]) = log_txns ts @ [v2_txn n fs ps]"
  by (simp add: log_txns_def)

lemma recover_wal_log:
  assumes "log_ok (ts @ [(n, fs, ps)])" and "d_wal d = Some (log_bytes (ts @ [(n, fs, ps)]))"
  shows "recover_wal d = Inr \<lparr>d_main = recovered_file d, d_wal = None,
    d_free = Some (encode_free_list n fs), d_free_wal = None\<rparr>"
proof -
  obtain f where f: "recover_loop (log_bytes (ts @ [(n, fs, ps)])) (d_main d, None) = (f, Some (n, fs))"
    unfolding recover_log [OF assms(1)] log_txns_snoc by (simp add: recover_step_def v2_txn_def)
  have "recovered_file d = f" using f assms(2) by (simp add: recovered_file_def wal_bytes_def)
  moreover have "validate_free_page_list n fs" using assms(1) by (simp add: log_ok_snoc txn_ok_def)
  ultimately show ?thesis
    using f assms(2) by (simp add: recover_wal_def persist_free_list_snapshot_def Let_def)
qed

lemma commit_recovered:
  assumes p: "stable p" and d: "durable ts K p"
    and new: "\<And>m. K \<le> m \<Longrightarrow> m < num_pages p \<Longrightarrow> dirty_flag p m" and c: "pager_commit p = Inr p'"
  defines "N \<equiv> num_pages p"
  shows "length (recovered_file (disk p')) = N * PAGE_SIZE"
    and "\<And>m. m < N \<Longrightarrow> page_at (recovered_file (disk p')) m = view p' m"
    and "durable (ts @ [(N, free_pages p, commit_records p N)]) N p'"
proof -
  note cs = pager_commit_spec [OF p c, folded N_def]
  let ?t = "(N, free_pages p, commit_records p N)"
  have D: "log_ok ts" "wal_bytes (disk p) = log_bytes ts"
    "\<And>m. m < K \<Longrightarrow> page_at (recovered_file (disk p)) m = backing p m"
    using d by (simp_all add: durable_def)
  have lok: "log_ok (ts @ [?t])" using D(1) cs(11) by (simp add: log_ok_snoc)
  have wb: "wal_bytes (disk p') = log_bytes (ts @ [?t])"
    using cs(10) D(2) by (simp add: wal_bytes_def [of "disk p'"] log_bytes_snoc)
  let ?f = "recovered_file (disk p)"
  have rf: "recovered_file (disk p') =
      file_truncate (N * PAGE_SIZE) (apply_pages (commit_records p N) ?f)"
    unfolding recovered_file_def wb D(2) recover_log [OF lok] recover_log [OF D(1)] log_txns_snoc cs(8)
    by (simp add: recover_step_def apply_txn_def v2_txn_def)
  show len: "length (recovered_file (disk p')) = N * PAGE_SIZE" by (simp add: rf)
  have lens: "\<forall>(n, img) \<in> set (commit_records p N). length img = PAGE_SIZE"
    using length_view [OF stableD(1) [OF p]] by (auto simp: commit_records_def)
  show pg: "page_at (recovered_file (disk p')) m = view p' m" if m: "m < N" for m
  proof (cases "dirty_flag p m")
    case True
    with m show ?thesis
      by (simp add: rf page_at_truncate page_at_apply_pages [OF lens distinct_commit_records]
          map_of_commit_records cs(4) sealed_view_def)
  next
    case False
    then have "m < K" using new [of m] m by (simp add: N_def) (meson not_le)
    with D(3) have "page_at ?f m = backing p m" by simp
    also have "\<dots> = view p m" using clean_view [OF stableD(1,2) [OF p] False] by simp
    finally show ?thesis using m False
      by (simp add: rf page_at_truncate page_at_apply_pages [OF lens distinct_commit_records]
          map_of_commit_records cs(4) sealed_view_def)
  qed
  have "d_wal (disk p') \<noteq> None" using cs(10) by simp
  with lok wb pg cs(6) show "durable (ts @ [?t]) N p'" by (simp add: durable_def)
qed

lemma usable_sealed: "pager_ok p \<Longrightarrow> usable (sealed_view p m) = usable (view p m)"
  by (simp add: sealed_view_def length_view)


text \<open>C27. Commits are atomic: a crash inside \<open>pager_commit\<close> leaves some prefix of its log record, and
  a restart then gives exactly the state the last commit left, or exactly the one this commit
  leaves, and the latter once the record is complete, whatever has become of the free-page sidecar.\<close>

theorem commit_is_atomic:
  assumes p: "stable p" and d: "durable ts K p" and c: "pager_commit p = Inr p'"
    and "r = encode_txn (num_pages p) (free_pages p) (commit_records p (num_pages p))" and "k \<le> length r"
    and crash: "d_main crash = main_file p" "d_wal crash = Some (wal_bytes (disk p) @ take k r)"
      "k < length r \<Longrightarrow> d_free crash = d_free (disk p) \<and> d_free_wal crash = d_free_wal (disk p)"
  shows "pager_open crash = (if k < length r then pager_open (disk p) else pager_open (disk p'))"
proof -
  let ?t = "(num_pages p, free_pages p, commit_records p (num_pages p))"
  note cs = pager_commit_spec [OF p c]
  have D: "log_ok ts" "wal_bytes (disk p) = log_bytes ts" "d_wal (disk p) = None \<Longrightarrow> ts = []"
    using d by (simp_all add: durable_def)
  have lok: "log_ok (ts @ [?t])" using D(1) cs(11) by (simp add: log_ok_snoc)
  have rl: "recover_loop (log_bytes ts @ take k r) s =
      fold recover_step (log_txns ts @ (if k = length r then [v2_txn (num_pages p) (free_pages p) (commit_records p (num_pages p))] else [])) s" for s
  proof (cases "k = length r")
    case True
    have "recover_loop (log_bytes (ts @ [?t])) s = fold recover_step (log_txns (ts @ [?t])) s"
      using lok by (rule recover_log)
    with True show ?thesis by (simp add: assms(4) log_bytes_snoc log_txns_snoc)
  next
    case False
    with recover_loop_torn [OF D(1) cs(11), of k s] assms(4,5) show ?thesis by simp
  qed
  have "recover_wal crash = (if k < length r then recover_wal (disk p) else recover_wal (disk p'))"
  proof (cases "k < length r")
    case True
    obtain f fr where f: "fold recover_step (log_txns ts) (main_file p, None) = (f, fr)" by (cases "fold recover_step (log_txns ts) (main_file p, None)")
    have "recover_wal (disk p) = (let d1 = (disk p)\<lparr>d_main := f\<rparr>
        in and_then (case fr of None \<Rightarrow> Inr d1 | Some (n, fs) \<Rightarrow> persist_free_list_snapshot d1 n fs)
             (\<lambda>d2. Inr (d2\<lparr>d_wal := None\<rparr>)))"
    proof (cases "d_wal (disk p)")
      case None
      with D(3) f show ?thesis by (simp add: recover_wal_def log_txns_def)
    next
      case (Some w)
      with D f show ?thesis by (simp add: recover_wal_def wal_bytes_def recover_log)
    qed
    moreover have "recover_wal crash = (let d1 = crash\<lparr>d_main := f\<rparr>
        in and_then (case fr of None \<Rightarrow> Inr d1 | Some (n, fs) \<Rightarrow> persist_free_list_snapshot d1 n fs)
             (\<lambda>d2. Inr (d2\<lparr>d_wal := None\<rparr>)))"
      using crash(1,2) rl True f D(2) by (simp add: recover_wal_def)
    ultimately show ?thesis using True crash(3)
      by (auto simp: persist_free_list_snapshot_def Let_def split: option.split prod.split intro!: disk.equality)
  next
    case False
    then have k: "k = length r" using assms(5) by simp
    have wc: "d_wal crash = Some (log_bytes (ts @ [?t]))" using crash(2) k D(2) by (simp add: assms(4) log_bytes_snoc)
    have wp: "d_wal (disk p') = Some (log_bytes (ts @ [?t]))" using cs(10) D(2) by (simp add: log_bytes_snoc)
    have "recovered_file crash = recovered_file (disk p')"
      using wc wp crash(1) cs(8) by (simp add: recovered_file_def wal_bytes_def)
    with recover_wal_log [OF lok wc] recover_wal_log [OF lok wp] False show ?thesis by simp
  qed
  then show ?thesis by (simp add: pager_open_def)
qed

end
