(* ===== verification/PagerRollback.thy ===== *)
theory PagerRollback
  imports PagerDurable
begin

text \<open>
  Transactions from begin to rollback, and savepoints (\<open>src/pager.c\<close>): \<open>txn_step\<close> is any page or
  savepoint operation of a transaction, \<open>in_txn_of\<close> the invariant they all keep, and the theorems say
  what \<open>pager_rollback\<close> and \<open>pager_rollback_to_savepoint\<close> restore.
\<close>

section \<open>Forgetting all uncommitted work\<close>

lemma forget_dirty_frames [simp]:
  "length (frames (forget_dirty p)) = length (frames p)"
  "i < length (frames p) \<Longrightarrow> f_page_num (frames (forget_dirty p) ! i) = INVALID_PAGE_NUM"
  "i < length (frames p) \<Longrightarrow> f_data (frames (forget_dirty p) ! i) = f_data (frames p ! i)"
  "i < length (frames p) \<Longrightarrow> f_pin_count (frames (forget_dirty p) ! i) = 0"
  "i < length (frames p) \<Longrightarrow> f_lru_prev (frames (forget_dirty p) ! i) = -1"
  "i < length (frames p) \<Longrightarrow> f_lru_next (frames (forget_dirty p) ! i) = -1"
  by (simp_all add: forget_dirty_def clear_page_cache_def)

lemma forget_dirty_fields [simp]:
  "disk (forget_dirty p) = disk p" "file_length (forget_dirty p) = file_length p"
  "num_pages (forget_dirty p) = num_pages p" "page_capacity (forget_dirty p) = page_capacity p"
  "free_pages (forget_dirty p) = free_pages p" "savepoints (forget_dirty p) = savepoints p"
  "committed_pages (forget_dirty p) = committed_pages p" "in_transaction (forget_dirty p) = in_transaction p"
  "transaction_num_pages (forget_dirty p) = transaction_num_pages p"
  "transaction_file_length (forget_dirty p) = transaction_file_length p"
  "transaction_free_pages (forget_dirty p) = transaction_free_pages p"
  "disk_stable q (forget_dirty p) = disk_stable q p"
  "dirty_page_spills (forget_dirty p) = map (\<lambda>_. None) (dirty_page_spills p)"
  "is_dirty (forget_dirty p) = map (\<lambda>_. False) (is_dirty p)"
  "page_table (forget_dirty p) = map (\<lambda>_. -1) (page_table p)"
  "lru_head (forget_dirty p) = -1" "lru_tail (forget_dirty p) = -1"
  "table_entry (forget_dirty p) m = -1" "dirty_flag (forget_dirty p) m = False"
  "backing (forget_dirty p) = backing p"
  by (auto simp: forget_dirty_def clear_page_cache_def disk_stable_def table_entry_def dirty_flag_def
      backing_def fun_eq_iff cong: option.case_cong)

lemma forget_dirty_view [simp]: "view (forget_dirty p) = backing p"
  by (simp add: view_def source_def fun_eq_iff)

lemma forget_dirty_coherent [simp]: "length (frames p) = MAX_BUFFER_POOL_SIZE \<Longrightarrow> coherent (forget_dirty p)"
  by (rule coherentI) simp

lemma forget_dirty_ok:
  assumes p: "pager_ok p"
  shows "pager_ok (forget_dirty p)"
proof (rule pager_okI)
  let ?p = "forget_dirty p"
  have len: "length (frames p) = MAX_BUFFER_POOL_SIZE" using pager_okD(2) [OF p] by (simp add: pager_frames_def)
  show "pager_arrays ?p" using pager_okD(1) [OF p] by (simp add: pager_arrays_def)
  show "pager_frames ?p" using pager_okD(2) [OF p] len by (simp add: pager_frames_def)
  show "pager_table ?p" using pager_okD(1) [OF p] by (simp add: pager_table_def pager_arrays_def)
  show "pager_shadows ?p" using pager_okD(1,5) [OF p] by (simp add: pager_shadows_def pager_arrays_def)
  have "lru_list ?p []" using len by (simp add: lru_list_def)
  moreover have "occupied ?p = {}" using len by (simp add: occupied_def)
  ultimately show "pager_lru ?p" unfolding pager_lru_def by (intro exI [of _ "[]"]) simp
qed

section \<open>Steps of a transaction\<close>

definition savepoint_ok :: "savepoint \<Rightarrow> bool" where
  "savepoint_ok sp \<longleftrightarrow>
     sp_num_pages sp \<le> UINT32_MAX \<and> length (sp_page_snapshots sp) = sp_num_pages sp \<and>
     (\<forall>img\<in>set (sp_page_snapshots sp). length img = PAGE_SIZE)"

text \<open>Page operations: fetching, storing, allocating, freeing and shrinking.\<close>

inductive page_step :: "pager \<Rightarrow> pager \<Rightarrow> bool" where
  Fetch: "n \<le> UINT32_MAX \<Longrightarrow> get_page p n = Inr (i, p') \<Longrightarrow> page_step p p'"
| Store: "n \<le> UINT32_MAX \<Longrightarrow> length (f (view p n)) = PAGE_SIZE \<Longrightarrow> write_page p n f = Inr p' \<Longrightarrow> page_step p p'"
| Allocate: "get_unused_page_num p = Inr (n, p') \<Longrightarrow> page_step p p'"
| Free: "pager_free_page p n = Inr p' \<Longrightarrow> page_step p p'"
| Shrink: "page_step p (pager_shrink p n)"

inductive_cases page_stepE: "page_step p p'"

text \<open>All steps of a transaction: page operations and savepoints.\<close>

inductive txn_step :: "pager \<Rightarrow> pager \<Rightarrow> bool" where
  Page: "page_step p p' \<Longrightarrow> txn_step p p'"
| Savepoint: "pager_savepoint p name = Inr (b, p') \<Longrightarrow> txn_step p p'"
| Rollback_To: "pager_rollback_to_savepoint p name = Inr (b, p') \<Longrightarrow> txn_step p p'"
| Release: "pager_release_savepoint p name = (b, p') \<Longrightarrow> txn_step p p'"

inductive_cases txn_stepE: "txn_step p p'"

text \<open>What holds throughout a transaction that began in \<open>p0\<close>: the files have not changed and there is
  no committed shadow.\<close>

definition in_txn_of :: "pager \<Rightarrow> pager \<Rightarrow> bool" where
  "in_txn_of p0 p \<longleftrightarrow>
     pager_ok p \<and> disk_stable p0 p \<and> lookup_slot (committed_pages p) = (\<lambda>m. None) \<and>
     (\<forall>sp\<in>set (savepoints p). savepoint_ok sp)"

lemma write_page_ok:
  assumes p: "pager_ok p" and n: "n \<le> UINT32_MAX" and f: "length (f (view p n)) = PAGE_SIZE"
    and w: "write_page p n f = Inr p'"
  shows "pager_ok p'" "disk_stable p p'" "lookup_slot (committed_pages p') = lookup_slot (committed_pages p)"
    "savepoints p' = savepoints p"
proof -
  obtain i p1 where g: "get_page p n = Inr (i, p1)"
    and m: "mark_page_dirty (poke_frame i (f (f_data (frames p1 ! i))) p1) n = Inr p'"
    using w by (auto simp: write_page_def)
  note sp = get_page_spec [OF p n g]
  let ?p = "poke_frame i (f (view p n)) p1"
  have ok: "pager_ok ?p" using sp(1) f by (rule poke_ok)
  have m': "mark_page_dirty ?p n = Inr p'" using m sp(11) by simp
  note ms = mark_page_dirty_spec [OF ok n m']
  have st: "fetch_stable p ?p" using sp(2) by simp
  show "pager_ok p'" "disk_stable p p'" by (rule ms(1), rule disk_stable_trans [OF fetch_disk_stable [OF st] ms(8)])
  show "lookup_slot (committed_pages p') = lookup_slot (committed_pages p)" "savepoints p' = savepoints p"
    using ms(10,11) st by (simp_all add: fetch_stable_def)
qed

lemma page_step_in_txn:
  assumes "page_step p p'" and "in_txn_of p0 p"
  shows "in_txn_of p0 p'"
proof -
  have I: "pager_ok p" "disk_stable p0 p" "lookup_slot (committed_pages p) = (\<lambda>m. None)"
    "\<forall>sp\<in>set (savepoints p). savepoint_ok sp"
    using assms(2) by (simp_all add: in_txn_of_def)
  have "pager_ok p' \<and> disk_stable p p' \<and> lookup_slot (committed_pages p') = (\<lambda>m. None) \<and> savepoints p' = savepoints p"
    using assms(1)
  proof cases
    case (Fetch n i)
    from get_page_spec(1,2) [OF I(1) Fetch] I(3) show ?thesis
      by (simp add: fetch_disk_stable) (simp add: fetch_stable_def)
  next
    case (Store n f)
    from write_page_ok [OF I(1) Store] I(3) show ?thesis by simp
  next
    case (Allocate n)
    then consider "p' = p" | "p' = p\<lparr>free_pages := butlast (free_pages p)\<rparr>"
      by (auto simp: get_unused_page_num_def split: if_splits)
    then show ?thesis using I(1,3) by cases simp_all
  next
    case (Free n)
    from pager_free_page_spec(1,10-12) [OF I(1) Free] I(3) show ?thesis by simp
  next
    case (Shrink n)
    show ?thesis
    proof (cases "n < num_pages p")
      case True
      from pager_shrink_spec(1,7,9,10) [OF I(1) True Shrink] I(3) show ?thesis by (simp add: fun_eq_iff)
    next
      case False
      with Shrink I(1,3) show ?thesis by (simp add: pager_shrink_def)
    qed
  qed
  with I disk_stable_trans show ?thesis unfolding in_txn_of_def by metis
qed


section \<open>Savepoints\<close>

lemma snapshot_loop_spec:
  assumes p: "pager_ok p" and k: "k \<le> num_pages p"
    and h: "for_each snapshot_page [0..<k] (p, []) = Inr s'"
  shows "pager_ok (fst s')" "fetch_stable p (fst s')" "num_pages (fst s') = num_pages p"
    and "length (snd s') = k" "\<forall>img\<in>set (snd s'). length img = PAGE_SIZE"
    and "coherent p \<Longrightarrow> coherent (fst s') \<and> view (fst s') = view p \<and> snd s' = map (view p) [0..<k]"
proof -
  define P where "P k s \<longleftrightarrow> pager_ok (fst s) \<and> fetch_stable p (fst s) \<and> num_pages (fst s) = num_pages p \<and>
    length (snd s) = k \<and> (\<forall>img\<in>set (snd s). length img = PAGE_SIZE) \<and>
    (coherent p \<longrightarrow> coherent (fst s) \<and> view (fst s) = view p \<and> snd s = map (view p) [0..<k])" for k s
  have "P k s'"
  proof (rule for_each_invariant_upto [OF h])
    show "P 0 (p, [])" using p by (simp add: P_def)
  next
    fix i s t assume i: "i < k" and inv: "P i s" and st: "snapshot_page i s = Inr t"
    obtain q imgs where s: "s = (q, imgs)" by (cases s)
    note I = inv [unfolded P_def s fst_conv snd_conv]
    have ok: "pager_ok q" and fs: "fetch_stable p q" using I by blast+
    have iN: "i < num_pages q" using i k I by simp
    have n: "i \<le> UINT32_MAX" using iN pager_arraysD(5,6) [OF ok] by simp
    obtain f p1 where g: "get_page q i = Inr (f, p1)"
      and t: "t = (pager_unpin_page p1 i, imgs @ [f_data (frames p1 ! f)])"
      using st by (auto simp: s snapshot_page_def)
    note sp = get_page_spec [OF ok n g]
    have np: "num_pages p1 = num_pages p" using sp(8) iN I by simp
    show "P (Suc i) t"
      unfolding P_def t using I sp(1,9-11) np fetch_stable_trans [OF fs sp(2)] length_view [OF ok]
      by simp
  qed
  then show "pager_ok (fst s')" "fetch_stable p (fst s')" "num_pages (fst s') = num_pages p"
    "length (snd s') = k" "\<forall>img\<in>set (snd s'). length img = PAGE_SIZE"
    "coherent p \<Longrightarrow> coherent (fst s') \<and> view (fst s') = view p \<and> snd s' = map (view p) [0..<k]"
    by (simp_all add: P_def)
qed

lemma savepoints_update_views [simp]:
  fixes p :: pager
  shows "view (p\<lparr>savepoints := x\<rparr>) = view p" "coherent (p\<lparr>savepoints := x\<rparr>) = coherent p"
    "backing (p\<lparr>savepoints := x\<rparr>) = backing p" "dirty_flag (p\<lparr>savepoints := x\<rparr>) = dirty_flag p"
    "table_entry (p\<lparr>savepoints := x\<rparr>) = table_entry p" "disk_stable q (p\<lparr>savepoints := x\<rparr>) = disk_stable q p"
    "pager_ok (p\<lparr>savepoints := x\<rparr>) = pager_ok p"
proof -
  show "pager_ok (p\<lparr>savepoints := x\<rparr>) = pager_ok p"
  proof
    assume "pager_ok (p\<lparr>savepoints := x\<rparr>)"
    then show "pager_ok p"
      by (rule pager_ok_transfer) (use pager_ok_lengths [OF \<open>pager_ok (p\<lparr>savepoints := x\<rparr>)\<close>] in simp_all)
  next
    assume "pager_ok p"
    then show "pager_ok (p\<lparr>savepoints := x\<rparr>)"
      by (rule pager_ok_transfer) (use pager_ok_lengths [OF \<open>pager_ok p\<close>] in simp_all)
  qed
qed (auto simp: fun_eq_iff view_def coherent_def coherent_to_def backing_def dirty_flag_def table_entry_def
    source_def disk_stable_def cong: option.case_cong)

lemma pager_savepoint_spec:
  assumes p: "pager_ok p" and s: "pager_savepoint p name = Inr (b, p')"
  obtains "b = False" "p' = p" "MAX_SAVEPOINTS \<le> length (savepoints p)"
  | sp where "b" "length (savepoints p) < MAX_SAVEPOINTS" "pager_ok p'" "disk_stable p p'"
      "lookup_slot (committed_pages p') = lookup_slot (committed_pages p)"
      "savepoints p' = savepoints p @ [sp]" "savepoint_ok sp" "sp_name sp = savepoint_name name"
      "sp_num_pages sp = num_pages p" "sp_free_pages sp = free_pages p"
      "\<And>m. m < num_pages p \<Longrightarrow> sp_is_dirty sp ! m = dirty_flag p m"
      "coherent p \<Longrightarrow> coherent p' \<and> view p' = view p \<and> sp_page_snapshots sp = map (view p) [0..<num_pages p]"
      "num_pages p' = num_pages p" "free_pages p' = free_pages p" "dirty_flag p' = dirty_flag p"
proof (cases "MAX_SAVEPOINTS \<le> length (savepoints p)")
  case True
  with s that(1) show thesis by (simp add: pager_savepoint_def)
next
  case False
  then obtain p1 images where l: "for_each snapshot_page [0..<num_pages p] (p, []) = Inr (p1, images)"
    and r: "b = True" "p' = p1\<lparr>savepoints := savepoints p1 @
      [\<lparr>sp_name = savepoint_name name, sp_file_length = file_length p,
        sp_num_pages = num_pages p, sp_free_pages = free_pages p,
        sp_is_dirty = take (num_pages p) (is_dirty p), sp_page_snapshots = images\<rparr>]\<rparr>"
    using s by (auto simp: pager_savepoint_def)
  note sl = snapshot_loop_spec [OF p le_refl l]
  have nm: "num_pages p \<le> UINT32_MAX" "num_pages p \<le> length (is_dirty p)"
    using pager_arraysD(2,5,6) [OF p] by simp_all
  have ds: "disk_stable p p1" using fetch_disk_stable [OF sl(2)] by simp
  show thesis
    by (rule that(2) [of "\<lparr>sp_name = savepoint_name name, sp_file_length = file_length p,
        sp_num_pages = num_pages p, sp_free_pages = free_pages p,
        sp_is_dirty = take (num_pages p) (is_dirty p), sp_page_snapshots = images\<rparr>"])
      (use False r sl nm ds in \<open>simp_all add: savepoint_ok_def fetch_stable_def dirty_flag_def\<close>)
qed

lemma restore_page_step:
  assumes p: "pager_ok p" and i: "i < num_pages p" and img: "length (sp_page_snapshots sp ! i) = PAGE_SIZE"
    and r: "restore_page sp i p = Inr p'"
  shows "pager_ok p'" "disk_stable p p'" "num_pages p' = num_pages p" "free_pages p' = free_pages p"
    and "lookup_slot (committed_pages p') = lookup_slot (committed_pages p)" "savepoints p' = savepoints p"
    and "dirty_flag p' = (if sp_is_dirty sp ! i then (dirty_flag p)(i := True) else dirty_flag p)"
    and "coherent p \<Longrightarrow> sp_is_dirty sp ! i \<or> dirty_flag p i \<or> sp_page_snapshots sp ! i = backing p i \<Longrightarrow>
      coherent p' \<and> view p' = (view p)(i := sp_page_snapshots sp ! i)"
proof -
  let ?img = "sp_page_snapshots sp ! i"
  have n: "i \<le> UINT32_MAX" using i pager_arraysD(5,6) [OF p] by simp
  obtain f p1 p3 where g: "get_page p i = Inr (f, p1)"
    and m: "(if sp_is_dirty sp ! i then mark_page_dirty (poke_frame f ?img p1) i else Inr (poke_frame f ?img p1)) = Inr p3"
    and p': "p' = pager_unpin_page p3 i"
    using r by (auto simp: restore_page_def Let_def)
  note sp = get_page_spec [OF p n g]
  let ?q = "poke_frame f ?img p1"
  have ok: "pager_ok ?q" using sp(1) img by (rule poke_ok)
  have st: "fetch_stable p ?q" using sp(2) by simp
  have np: "num_pages ?q = num_pages p" using sp(8) i by simp
  have te: "table_entry ?q i = int f" using sp(7) by simp
  have pv: "view ?q = (view p1)(i := ?img)" by (rule poke_view [OF sp(1,5,6,4)])
  have "pager_ok p3 \<and> disk_stable p p3 \<and> num_pages p3 = num_pages p \<and> free_pages p3 = free_pages p \<and>
    lookup_slot (committed_pages p3) = lookup_slot (committed_pages p) \<and> savepoints p3 = savepoints p \<and>
    dirty_flag p3 = (if sp_is_dirty sp ! i then (dirty_flag p)(i := True) else dirty_flag p) \<and>
    (coherent p \<longrightarrow> sp_is_dirty sp ! i \<or> dirty_flag p i \<or> ?img = backing p i \<longrightarrow>
      coherent p3 \<and> view p3 = (view p)(i := ?img))"
  proof (cases "sp_is_dirty sp ! i")
    case True
    then have mk: "mark_page_dirty ?q i = Inr p3" using m by simp
    note ms = mark_page_dirty_spec [OF ok n mk]
    have "coherent p3 \<and> view p3 = (view p)(i := ?img)" if c: "coherent p"
    proof
      have "coherent_except {i} ?q" using sp(9) [OF c] sp(6) by (rule poke_coherent_except)
      then have "coherent_except ({i} - {i}) p3" by (rule ms(7))
      then show "coherent p3" by (simp add: coherent_except_empty)
      show "view p3 = (view p)(i := ?img)" using ms(3) te pv sp(10) [OF c] by (simp add: fun_eq_iff)
    qed
    with True ms(1,4,5,8-11) st np disk_stable_trans [OF fetch_disk_stable [OF st] ms(8)]
    show ?thesis by (simp add: fetch_stable_def)
  next
    case False
    then have p3: "p3 = ?q" using m by simp
    have "coherent ?q \<and> view ?q = (view p)(i := ?img)" if c: "coherent p" and e: "dirty_flag p i \<or> ?img = backing p i"
    proof
      show "view ?q = (view p)(i := ?img)" using pv sp(10) [OF c] by simp
      have ex: "coherent_except {i} ?q" using sp(9) [OF c] sp(6) by (rule poke_coherent_except)
      have b: "backing ?q = backing p" using fetch_stable_backing [OF st] .
      have dq: "dirty_flag ?q = dirty_flag p" using st by (simp add: fetch_stable_def)
      show "coherent ?q"
      proof (rule coherentI)
        fix j assume j: "j < MAX_BUFFER_POOL_SIZE" "f_page_num (frames ?q ! j) \<noteq> INVALID_PAGE_NUM"
          "\<not> f_is_dirty (frames ?q ! j)"
        show "f_data (frames ?q ! j) = backing ?q (f_page_num (frames ?q ! j))"
        proof (cases "f_page_num (frames ?q ! j) = i")
          case True
          then have "f_data (frames ?q ! j) = view ?q i" using frame_cached(1) [OF ok j(1,2)] by (simp add: view_def)
          moreover have "\<not> dirty_flag p i" using frame_cached(4) [OF ok j(1,2)] j(3) True dq by simp
          ultimately show ?thesis using e pv True b by simp
        next
          case False
          then show ?thesis using coherent_exceptD [OF ex j(1,2) _ j(3)] by simp
        qed
      qed
    qed
    with False ok st np fetch_disk_stable [OF st] show ?thesis by (simp add: p3 fetch_stable_def)
  qed
  then show "pager_ok p'" "disk_stable p p'" "num_pages p' = num_pages p" "free_pages p' = free_pages p"
    "lookup_slot (committed_pages p') = lookup_slot (committed_pages p)" "savepoints p' = savepoints p"
    "dirty_flag p' = (if sp_is_dirty sp ! i then (dirty_flag p)(i := True) else dirty_flag p)"
    "coherent p \<Longrightarrow> sp_is_dirty sp ! i \<or> dirty_flag p i \<or> ?img = backing p i \<Longrightarrow>
      coherent p' \<and> view p' = (view p)(i := ?img)"
    by (simp_all add: p')
qed


lemma restore_pages_loop_spec:
  assumes p: "pager_ok p" and c: "coherent p" and k: "k \<le> num_pages p" "k \<le> length (sp_page_snapshots sp)"
    and imgs: "\<forall>img\<in>set (sp_page_snapshots sp). length img = PAGE_SIZE"
    and clean: "\<And>m. dirty_flag p m = False"
    and h: "for_each (restore_page sp) [0..<k] p = Inr p'"
  shows "pager_ok p'" "disk_stable p p'" "num_pages p' = num_pages p" "free_pages p' = free_pages p"
    and "lookup_slot (committed_pages p') = lookup_slot (committed_pages p)" "savepoints p' = savepoints p"
    and "dirty_flag p' = (\<lambda>m. m < k \<and> sp_is_dirty sp ! m)"
    and "(\<And>m. m < k \<Longrightarrow> \<not> sp_is_dirty sp ! m \<Longrightarrow> sp_page_snapshots sp ! m = backing p m) \<Longrightarrow>
      coherent p' \<and> view p' = (\<lambda>m. if m < k then sp_page_snapshots sp ! m else view p m)"
proof -
  define good where "good \<longleftrightarrow> (\<forall>m<k. \<not> sp_is_dirty sp ! m \<longrightarrow> sp_page_snapshots sp ! m = backing p m)"
  define P where "P k s \<longleftrightarrow> pager_ok s \<and> disk_stable p s \<and> num_pages s = num_pages p \<and> free_pages s = free_pages p \<and>
    lookup_slot (committed_pages s) = lookup_slot (committed_pages p) \<and> savepoints s = savepoints p \<and>
    dirty_flag s = (\<lambda>m. m < k \<and> sp_is_dirty sp ! m) \<and>
    (good \<longrightarrow> coherent s \<and> view s = (\<lambda>m. if m < k then sp_page_snapshots sp ! m else view p m))" for k s
  have "P k p'"
  proof (rule for_each_invariant_upto [OF h])
    show "P 0 p" using p c clean by (simp add: P_def fun_eq_iff)
  next
    fix i s t assume i: "i < k" and inv: "P i s" and st: "restore_page sp i s = Inr t"
    note I = inv [unfolded P_def]
    have ok: "pager_ok s" and ds: "disk_stable p s" and df: "dirty_flag s = (\<lambda>m. m < i \<and> sp_is_dirty sp ! m)"
      using I by blast+
    have iN: "i < num_pages s" using i k I by simp
    have img: "length (sp_page_snapshots sp ! i) = PAGE_SIZE" using imgs i k by simp
    note rs = restore_page_step [OF ok iN img st]
    have bk: "backing s i = backing p i"
      by (rule backing_cong) (use I in \<open>simp_all add: disk_stable_def\<close>)
    have "dirty_flag t = (\<lambda>m. m < Suc i \<and> sp_is_dirty sp ! m)"
      unfolding rs(7) df by (auto simp: fun_eq_iff less_Suc_eq)
    moreover have "coherent t \<and> view t = (\<lambda>m. if m < Suc i then sp_page_snapshots sp ! m else view p m)" if g: good
    proof -
      have "sp_is_dirty sp ! i \<or> dirty_flag s i \<or> sp_page_snapshots sp ! i = backing s i"
        using g i bk by (auto simp: good_def)
      from rs(8) [OF _ this] have "coherent t" "view t = (view s)(i := sp_page_snapshots sp ! i)" using I g by blast+
      then show ?thesis using I g by (auto simp: fun_eq_iff less_Suc_eq)
    qed
    ultimately show "P (Suc i) t" using I rs(1-6) disk_stable_trans [OF ds] by (simp add: P_def)
  qed
  then show "pager_ok p'" "disk_stable p p'" "num_pages p' = num_pages p" "free_pages p' = free_pages p"
    "lookup_slot (committed_pages p') = lookup_slot (committed_pages p)" "savepoints p' = savepoints p"
    "dirty_flag p' = (\<lambda>m. m < k \<and> sp_is_dirty sp ! m)"
    "(\<And>m. m < k \<Longrightarrow> \<not> sp_is_dirty sp ! m \<Longrightarrow> sp_page_snapshots sp ! m = backing p m) \<Longrightarrow>
      coherent p' \<and> view p' = (\<lambda>m. if m < k then sp_page_snapshots sp ! m else view p m)"
    by (simp_all add: P_def good_def)
qed

lemma find_savepoint_bound: "find_savepoint sps name = Some i \<Longrightarrow> i < length sps \<and> sp_name (sps ! i) = name"
  by (auto simp: find_savepoint_def find_Some_iff rev_nth)

lemma rollback_to_spec:
  assumes p: "pager_ok p" and f: "find_savepoint (savepoints p) name = Some t"
    and sp: "sp = savepoints p ! t" "savepoint_ok sp"
    and r: "pager_rollback_to_savepoint p name = Inr (b, p')"
  shows "b" "pager_ok p'" "disk_stable p p'" "num_pages p' = sp_num_pages sp" "free_pages p' = sp_free_pages sp"
    and "lookup_slot (committed_pages p') = lookup_slot (committed_pages p)"
    and "savepoints p' = take (t + 1) (savepoints p)"
    and "dirty_flag p' = (\<lambda>m. m < sp_num_pages sp \<and> sp_is_dirty sp ! m)"
    and "(\<And>m. m < sp_num_pages sp \<Longrightarrow> \<not> sp_is_dirty sp ! m \<Longrightarrow> sp_page_snapshots sp ! m = backing p m) \<Longrightarrow>
      coherent p' \<and> view p' = (\<lambda>m. if m < sp_num_pages sp then sp_page_snapshots sp ! m else backing p m)"
proof -
  let ?N = "sp_num_pages sp"
  let ?r = "forget_dirty (pager_reserve_capacity p ?N)"
  define p2 where "p2 = ?r\<lparr>num_pages := ?N, free_pages := sp_free_pages sp\<rparr>"
  obtain p3 where l: "for_each (restore_page sp) [0..<?N] p2 = Inr p3"
    and b: "b = True" "p' = p3\<lparr>savepoints := take (t + 1) (savepoints p3)\<rparr>"
    using r f by (auto simp: pager_rollback_to_savepoint_def Let_def sp p2_def)
  have nmax: "?N \<le> UINT32_MAX" using sp(2) by (simp add: savepoint_ok_def)
  have okr: "pager_ok ?r" using forget_dirty_ok [OF reserve_ok [OF p nmax]] .
  have cap: "?N \<le> page_capacity ?r"
    using reserve_capacity_ge [OF nmax pager_arraysD(5) [OF p]] by simp
  have len: "length (frames p) = MAX_BUFFER_POOL_SIZE" using pager_okD(2) [OF p] by (simp add: pager_frames_def)
  have "pager_ok (?r\<lparr>num_pages := ?N\<rparr>)" using okr cap by (rule pager_ok_num_pages) (simp add: len)
  then have "pager_ok (?r\<lparr>num_pages := ?N\<rparr>\<lparr>free_pages := sp_free_pages sp\<rparr>)" by (simp only: pager_ok_free_pages)
  then have ok2: "pager_ok p2" by (simp add: p2_def)
  have v2: "view p2 = backing p" "backing p2 = backing p" "dirty_flag p2 m = False" "coherent p2" for m
    using len by (simp_all add: p2_def fun_eq_iff)
  have f2: "num_pages p2 = ?N" "free_pages p2 = sp_free_pages sp" "savepoints p2 = savepoints p"
    "lookup_slot (committed_pages p2) = lookup_slot (committed_pages p)" "disk_stable p p2"
    by (simp_all add: p2_def fun_eq_iff disk_stable_def)
      (simp_all add: forget_dirty_def clear_page_cache_def)
  have S: "length (sp_page_snapshots sp) = ?N" "\<forall>img\<in>set (sp_page_snapshots sp). length img = PAGE_SIZE"
    using sp(2) by (simp_all add: savepoint_ok_def)
  note rl = restore_pages_loop_spec [OF ok2 v2(4) _ _ S(2) v2(3) l]
  have le: "?N \<le> num_pages p2" "?N \<le> length (sp_page_snapshots sp)" using f2(1) S(1) by simp_all
  note rl = rl [OF le]
  show "b" by (simp add: b)
  show "pager_ok p'" "num_pages p' = ?N" "free_pages p' = sp_free_pages sp"
    "lookup_slot (committed_pages p') = lookup_slot (committed_pages p)"
    "savepoints p' = take (t + 1) (savepoints p)"
    "dirty_flag p' = (\<lambda>m. m < ?N \<and> sp_is_dirty sp ! m)"
    using rl(1,3-7) f2 by (simp_all add: b)
  show "disk_stable p p'" using disk_stable_trans [OF f2(5) rl(2)] by (simp add: b)
  show "coherent p' \<and> view p' = (\<lambda>m. if m < ?N then sp_page_snapshots sp ! m else backing p m)"
    if "\<And>m. m < ?N \<Longrightarrow> \<not> sp_is_dirty sp ! m \<Longrightarrow> sp_page_snapshots sp ! m = backing p m"
    using rl(8) that v2(1,2) by (simp add: b cong: if_cong)
qed

lemma txn_step_in_txn:
  assumes "txn_step p p'" and I: "in_txn_of p0 p"
  shows "in_txn_of p0 p'"
proof -
  have J: "pager_ok p" "disk_stable p0 p" "lookup_slot (committed_pages p) = (\<lambda>m. None)"
    "\<forall>sp\<in>set (savepoints p). savepoint_ok sp"
    using I by (simp_all add: in_txn_of_def)
  show ?thesis using assms(1)
  proof cases
    case Page
    then show ?thesis using I by (rule page_step_in_txn)
  next
    case (Savepoint name b)
    with J(1) show ?thesis
    proof (rule pager_savepoint_spec)
      assume "p' = p"
      with I show ?thesis by simp
    next
      fix sp assume "pager_ok p'" "disk_stable p p'"
        "lookup_slot (committed_pages p') = lookup_slot (committed_pages p)"
        "savepoints p' = savepoints p @ [sp]" "savepoint_ok sp"
      with J disk_stable_trans [OF J(2)] show ?thesis by (auto simp: in_txn_of_def)
    qed
  next
    case (Rollback_To name b)
    show ?thesis
    proof (cases "find_savepoint (savepoints p) name")
      case None
      with Rollback_To I show ?thesis by (simp add: pager_rollback_to_savepoint_def)
    next
      case (Some t)
      then have sp: "savepoint_ok (savepoints p ! t)" using find_savepoint_bound [OF Some] J(4) by simp
      note rt = rollback_to_spec [OF J(1) Some refl sp Rollback_To]
      have "set (take (t + 1) (savepoints p)) \<subseteq> set (savepoints p)" by (rule set_take_subset)
      then show ?thesis using rt(2,3,6,7) J disk_stable_trans [OF J(2)] by (auto simp: in_txn_of_def)
    qed
  next
    case (Release name b)
    show ?thesis
    proof (cases "find_savepoint (savepoints p) name")
      case None
      with Release I show ?thesis by (simp add: pager_release_savepoint_def)
    next
      case (Some t)
      then have "p' = p\<lparr>savepoints := take t (savepoints p)\<rparr>"
        using Release by (simp add: pager_release_savepoint_def)
      moreover have "set (take t (savepoints p)) \<subseteq> set (savepoints p)" by (rule set_take_subset)
      ultimately show ?thesis using J by (auto simp: in_txn_of_def)
    qed
  qed
qed

lemma txn_steps_in_txn: "txn_step\<^sup>*\<^sup>* p p' \<Longrightarrow> in_txn_of p0 p \<Longrightarrow> in_txn_of p0 p'"
  by (induction rule: rtranclp_induct) (auto intro: txn_step_in_txn)


section \<open>Beginning and rolling back\<close>

lemma begin_spec:
  assumes p: "stable p" and b: "pager_begin_transaction p = Inr p0"
    and o: "\<And>m. m < num_pages p \<Longrightarrow> \<not> overlapping p m"
  shows "stable p0" "in_transaction p0" "num_pages p0 = num_pages p" "free_pages p0 = free_pages p"
    and "transaction_num_pages p0 = num_pages p" "transaction_free_pages p0 = free_pages p"
    and "transaction_file_length p0 = num_pages p * PAGE_SIZE" "file_length p0 = num_pages p * PAGE_SIZE"
    and "length (main_file p0) = num_pages p * PAGE_SIZE"
    and "\<And>m. m < num_pages p \<Longrightarrow> view p0 m = sealed_view p m \<and> page_at (main_file p0) m = sealed_view p m \<and> \<not> dirty_flag p0 m"
    and "savepoints p0 = []" "in_txn_of p0 p0" "d_wal (disk p0) = None"
proof -
  obtain q where q: "pager_checkpoint_legacy_base p = Inr q"
    and p0: "p0 = q\<lparr>savepoints := [], transaction_file_length := file_length q,
                transaction_num_pages := num_pages q, transaction_free_pages := free_pages q,
                in_transaction := True\<rparr>"
    using b by (auto simp: pager_begin_transaction_def split: if_splits)
  have cp: "checkpointed p (sealed_view p) q" using p q o by (rule legacy_checkpoint_stable)
  note ls = legacy_base_spec [OF stableD(1) [OF p] q]
  have C: "stable q" "kept p q" "lookup_slot (committed_pages q) = (\<lambda>m. None)"
    "\<And>m. m < num_pages p \<Longrightarrow> view q m = sealed_view p m \<and> page_at (main_file q) m = sealed_view p m \<and> \<not> dirty_flag q m"
    using cp by (simp_all add: checkpointed_def)
  have Q: "num_pages q = num_pages p" "free_pages q = free_pages p" "file_length q = num_pages p * PAGE_SIZE"
    "length (main_file q) = num_pages p * PAGE_SIZE" "d_wal (disk q) = None"
    using C(2) ls(7-9) by (simp_all add: kept_def)
  have views: "view p0 = view q" "coherent p0 = coherent q" "dirty_flag p0 = dirty_flag q" "backing p0 = backing q"
    by (auto simp: p0 fun_eq_iff view_def coherent_def coherent_to_def backing_def dirty_flag_def
        table_entry_def source_def cong: option.case_cong)
  have okq: "pager_ok q" using C(1) by (rule stableD)
  have "num_pages q \<le> page_capacity q" using pager_arraysD(6) [OF okq] .
  then have ok: "pager_ok p0"
    unfolding p0 by (intro pager_ok_transfer [OF okq]) (simp_all add: pager_ok_lengths [OF okq])
  show "stable p0" using C(1,3) ok views by (simp add: stable_def sealed_def p0)
  show "in_txn_of p0 p0" using ok C(3) by (simp add: in_txn_of_def p0)
  show "view p0 m = sealed_view p m \<and> page_at (main_file p0) m = sealed_view p m \<and> \<not> dirty_flag p0 m"
    if "m < num_pages p" for m
    using C(4) [OF that] views by (simp add: p0)
  show "in_transaction p0" "num_pages p0 = num_pages p" "free_pages p0 = free_pages p"
    "transaction_num_pages p0 = num_pages p" "transaction_free_pages p0 = free_pages p"
    "transaction_file_length p0 = num_pages p * PAGE_SIZE" "file_length p0 = num_pages p * PAGE_SIZE"
    "length (main_file p0) = num_pages p * PAGE_SIZE" "savepoints p0 = []" "d_wal (disk p0) = None"
    using Q by (simp_all add: p0)
qed

lemma rollback_spec:
  assumes p: "in_txn_of p0 p" and t: "in_transaction p" and d: "PAGE_SIZE dvd transaction_file_length p"
    "transaction_file_length p \<le> length (main_file p)" and r: "p' = pager_rollback p"
  shows "stable p'" "num_pages p' = transaction_num_pages p" "free_pages p' = transaction_free_pages p"
    and "main_file p' = take (transaction_file_length p) (main_file p)" "\<not> in_transaction p'"
    and "view p' = page_at (main_file p')" "dirty_flag p' = (\<lambda>m. False)" "savepoints p' = []"
    and "d_wal (disk p') = d_wal (disk p)"
proof -
  have ok: "pager_ok p" and cm: "lookup_slot (committed_pages p) = (\<lambda>m. None)" using p by (simp_all add: in_txn_of_def)
  let ?f = "forget_dirty (p\<lparr>savepoints := []\<rparr>)"
  have okf: "pager_ok ?f" using ok by (simp add: forget_dirty_ok)
  have eq: "p' = ?f\<lparr>num_pages := transaction_num_pages p, file_length := transaction_file_length p,
      free_pages := transaction_free_pages p,
      disk := (disk p)\<lparr>d_main := file_truncate (transaction_file_length p) (main_file p)\<rparr>,
      transaction_free_pages := [], transaction_file_length := 0, transaction_num_pages := 0,
      in_transaction := False\<rparr>"
    using r t by (simp add: pager_rollback_def Let_def)
  have len: "length (frames p) = MAX_BUFFER_POOL_SIZE" using pager_okD(2) [OF ok] by (simp add: pager_frames_def)
  have cap: "transaction_num_pages p \<le> page_capacity ?f" using pager_ok_lengths(3) [OF ok t] by simp
  have okn: "pager_ok (?f\<lparr>num_pages := transaction_num_pages p\<rparr>)"
    using okf cap by (rule pager_ok_num_pages) (simp add: len)
  have ok': "pager_ok p'" by (rule pager_ok_transfer [OF okn]) (use d in \<open>simp_all add: eq\<close>)
  have tr: "file_truncate (transaction_file_length p) (main_file p) = take (transaction_file_length p) (main_file p)"
    using d(2) by (simp add: file_truncate_def)
  show main: "main_file p' = take (transaction_file_length p) (main_file p)" using tr by (simp add: eq)
  have te: "table_entry p' m = -1" "dirty_flag p' m = False" for m
    by (simp_all add: eq table_entry_def dirty_flag_def)
  then show "dirty_flag p' = (\<lambda>m. False)" by (simp add: fun_eq_iff)
  have coh: "coherent p'" by (rule coherentI) (simp add: eq len)
  have cm': "lookup_slot (committed_pages p') = (\<lambda>m. None)" using cm by (simp add: eq)
  have fl: "file_length p' = length (main_file p')" using d(2) by (simp add: main) (simp add: eq)
  show st: "stable p'" using ok' coh cm' fl by (simp add: stable_def sealed_def)
  have "view p' m = page_at (main_file p') m" for m
    using te stable_backing [OF st] cm' by (simp add: view_def source_def)
  then show "view p' = page_at (main_file p')" by (simp add: fun_eq_iff)
qed (use r t in \<open>simp_all add: pager_rollback_def Let_def\<close>)

text \<open>C30. When no page is both dirty and committed without a checkpoint as the transaction begins, rollback undoes
  it completely: after any sequence of page operations, savepoints, savepoint rollbacks and releases,
  \<open>pager_rollback\<close> gives back the page count, the free list and the usable bytes of every page as they
  were when \<open>pager_begin_transaction\<close> was called, with nothing dirty, and the main file byte for byte as the
  transaction found it. Without the condition the newer image of such a page is lost when the transaction
  begins.\<close>

theorem rollback_undoes_transaction:
  assumes p: "stable p" and b: "pager_begin_transaction p = Inr p0"
    and o: "\<And>m. m < num_pages p \<Longrightarrow> \<not> overlapping p m"
    and s: "txn_step\<^sup>*\<^sup>* p0 p1" and r: "p2 = pager_rollback p1"
  shows "stable p2 \<and> num_pages p2 = num_pages p \<and> free_pages p2 = free_pages p \<and>
    (\<forall>m<num_pages p. usable (view p2 m) = usable (view p m)) \<and> (\<forall>m. \<not> dirty_flag p2 m) \<and>
    main_file p2 = main_file p0 \<and> \<not> in_transaction p2"
proof -
  note bs = begin_spec [OF p b]
  have v0: "view p0 m = sealed_view p m \<and> page_at (main_file p0) m = sealed_view p m" if "m < num_pages p" for m
    using bs(10) o that by blast
  have bs: "in_txn_of p0 p0" "transaction_file_length p0 = num_pages p * PAGE_SIZE" "in_transaction p0"
    "transaction_num_pages p0 = num_pages p" "transaction_free_pages p0 = free_pages p"
    "length (main_file p0) = num_pages p * PAGE_SIZE" "savepoints p0 = []"
    using bs o by blast+
  have I: "in_txn_of p0 p1" using s bs(1) by (rule txn_steps_in_txn)
  have ds: "disk_stable p0 p1" using I by (simp add: in_txn_of_def)
  then have e: "disk p1 = disk p0" "in_transaction p1" "transaction_file_length p1 = num_pages p * PAGE_SIZE"
    "transaction_num_pages p1 = num_pages p" "transaction_free_pages p1 = free_pages p"
    using bs by (simp_all add: disk_stable_def)
  have d: "PAGE_SIZE dvd transaction_file_length p1" "transaction_file_length p1 \<le> length (main_file p1)"
    using e bs(6) by simp_all
  note rs = rollback_spec [OF I e(2) d r]
  have main: "main_file p2 = main_file p0" using rs(4) e bs(6) by simp
  have "usable (view p2 m) = usable (view p m)" if "m < num_pages p" for m
    using rs(6) main v0 [OF that] usable_sealed [OF stableD(1) [OF p]] by simp
  then show ?thesis using rs main e by simp
qed

section \<open>Between a savepoint and the rollback to it\<close>

lemma page_step_savepoints:
  assumes "page_step p p'" "pager_ok p"
  shows "savepoints p' = savepoints p"
  using assms(1)
proof cases
  case (Fetch n i)
  with get_page_spec(2) [OF assms(2) Fetch] show ?thesis by (simp add: fetch_stable_def)
next
  case (Store n f)
  with write_page_ok(4) [OF assms(2) Store] show ?thesis by simp
next
  case (Allocate n)
  then show ?thesis by (auto simp: get_unused_page_num_def split: if_splits)
next
  case (Free n)
  with pager_free_page_spec(11) [OF assms(2) Free] show ?thesis by simp
next
  case (Shrink n)
  with pager_shrink_spec(10) [OF assms(2) _ Shrink] show ?thesis
    by (cases "n < num_pages p") (simp_all add: pager_shrink_def)
qed

text \<open>Steps after a savepoint at position \<open>n\<close> of the list that do not take it away: page operations, further
  savepoints of other names, rolling back to it or to a later one, and releasing a later one.\<close>

inductive nested_step :: "nat \<Rightarrow> string \<Rightarrow> pager \<Rightarrow> pager \<Rightarrow> bool" for n :: nat and name :: string where
  Page: "page_step p p' \<Longrightarrow> nested_step n name p p'"
| Savepoint: "savepoint_name other \<noteq> name \<Longrightarrow> pager_savepoint p other = Inr (b, p') \<Longrightarrow> nested_step n name p p'"
| Rollback_To: "find_savepoint (savepoints p) other = Some t \<Longrightarrow> n \<le> t \<Longrightarrow>
    pager_rollback_to_savepoint p other = Inr (b, p') \<Longrightarrow> nested_step n name p p'"
| Release: "find_savepoint (savepoints p) other = Some t \<Longrightarrow> n < t \<Longrightarrow>
    pager_release_savepoint p other = (b, p') \<Longrightarrow> nested_step n name p p'"

lemma nested_step_txn: "nested_step n name p p' \<Longrightarrow> txn_step p p'"
  by (induction rule: nested_step.induct) (auto intro: txn_step.intros)

definition saved_under :: "savepoint list \<Rightarrow> savepoint \<Rightarrow> string \<Rightarrow> pager \<Rightarrow> bool" where
  "saved_under older sv name p \<longleftrightarrow>
     (\<exists>newer. savepoints p = older @ sv # newer \<and> (\<forall>x\<in>set newer. sp_name x \<noteq> name))"

lemma saved_underI: "savepoints p = older @ sv # newer \<Longrightarrow> \<forall>x\<in>set newer. sp_name x \<noteq> name \<Longrightarrow> saved_under older sv name p"
  by (auto simp: saved_under_def)

lemma saved_under_cong: "savepoints p' = savepoints p \<Longrightarrow> saved_under older sv name p \<Longrightarrow> saved_under older sv name p'"
  by (simp add: saved_under_def)

lemma saved_under_take:
  assumes "saved_under older sv name p" "savepoints p' = take k (savepoints p)" "length older < k"
  shows "saved_under older sv name p'"
proof -
  obtain newer where N: "savepoints p = older @ sv # newer" "\<forall>x\<in>set newer. sp_name x \<noteq> name"
    using assms(1) by (auto simp: saved_under_def)
  have "take k (older @ sv # newer) = older @ sv # take (k - Suc (length older)) newer"
    using assms(3) by (simp add: take_Cons' not_less)
  with assms(2) N show ?thesis by (auto intro!: saved_underI dest: in_set_takeD)
qed

lemma nested_step_saved_under:
  assumes "nested_step (length older) name p p'" "in_txn_of p0 p" "saved_under older sv name p"
  shows "saved_under older sv name p'"
  using assms(1)
proof cases
  case Page
  with assms(2,3) show ?thesis by (auto simp: in_txn_of_def intro: saved_under_cong page_step_savepoints)
next
  case (Savepoint other b)
  have "pager_ok p" using assms(2) by (simp add: in_txn_of_def)
  then show ?thesis using Savepoint(2)
  proof (rule pager_savepoint_spec)
    assume "p' = p"
    with assms(3) show ?thesis by simp
  next
    fix sp assume S: "savepoints p' = savepoints p @ [sp]" "sp_name sp = savepoint_name other"
    obtain newer where "savepoints p = older @ sv # newer" "\<forall>x\<in>set newer. sp_name x \<noteq> name"
      using assms(3) by (auto simp: saved_under_def)
    with S Savepoint(1) show ?thesis by (auto intro!: saved_underI [of _ _ _ "newer @ [sp]"])
  qed
next
  case (Rollback_To other t b)
  have sp: "savepoint_ok (savepoints p ! t)" "pager_ok p"
    using find_savepoint_bound [OF Rollback_To(1)] assms(2) by (auto simp: in_txn_of_def)
  from rollback_to_spec(7) [OF sp(2) Rollback_To(1) refl sp(1) Rollback_To(3)] Rollback_To(2) assms(3)
  show ?thesis by (auto intro: saved_under_take)
next
  case (Release other t b)
  then have "savepoints p' = take t (savepoints p)" by (auto simp: pager_release_savepoint_def)
  with Release(2) assms(3) show ?thesis by (auto intro: saved_under_take)
qed

lemma nested_steps_saved_under:
  assumes "(nested_step (length older) name)\<^sup>*\<^sup>* p p'" "in_txn_of p0 p" "saved_under older sv name p"
  shows "in_txn_of p0 p' \<and> saved_under older sv name p'"
  using assms(1)
  by (induction rule: rtranclp_induct) (use assms(2,3) in \<open>auto intro: nested_step_saved_under txn_step_in_txn nested_step_txn\<close>)

lemma find_savepoint_saved:
  assumes "saved_under older sv name p" "sp_name sv = name"
  shows "find_savepoint (savepoints p) name = Some (length older)" "savepoints p ! length older = sv"
proof -
  obtain newer where N: "savepoints p = older @ sv # newer" "\<forall>x\<in>set newer. sp_name x \<noteq> name"
    using assms(1) by (auto simp: saved_under_def)
  have "find_savepoint (older @ sv # newer) name = Some (length older)"
    using N(2)
  proof (induction newer rule: rev_induct)
    case Nil
    then show ?case using assms(2) by (simp add: find_savepoint_def)
  next
    case (snoc x newer)
    have "find (\<lambda>i. sp_name ((older @ sv # newer @ [x]) ! i) = name) (rev [0..<length (older @ sv # newer)]) =
        find (\<lambda>i. sp_name ((older @ sv # newer) ! i) = name) (rev [0..<length (older @ sv # newer)])"
    proof (rule find_cong [OF refl])
      fix i assume "i \<in> set (rev [0..<length (older @ sv # newer)])"
      then have "i < length (older @ sv # newer)" by (simp only: set_rev atLeast_upt [symmetric] lessThan_iff)
      then have "((older @ sv # newer) @ [x]) ! i = (older @ sv # newer) ! i" by (rule nth_append_left)
      then show "(sp_name ((older @ sv # newer @ [x]) ! i) = name) = (sp_name ((older @ sv # newer) ! i) = name)" by simp
    qed
    moreover have "sp_name ((older @ sv # newer @ [x]) ! length (older @ sv # newer)) \<noteq> name"
      using snoc.prems by (simp add: nth_append)
    moreover have "[0..<length (older @ sv # newer @ [x])] = [0..<length (older @ sv # newer)] @ [length (older @ sv # newer)]"
      by simp
    ultimately have "find_savepoint (older @ sv # newer @ [x]) name = find_savepoint (older @ sv # newer) name"
      by (simp only: find_savepoint_def rev_append rev.simps append.simps find.simps if_False)
    with snoc show ?case by simp
  qed
  with N(1) show "find_savepoint (savepoints p) name = Some (length older)" "savepoints p ! length older = sv" by simp_all
qed

lemma nested_page_steps: "page_step\<^sup>*\<^sup>* p p' \<Longrightarrow> (nested_step n name)\<^sup>*\<^sup>* p p'"
  by (induction rule: rtranclp_induct) (auto intro: rtranclp.rtrancl_into_rtrancl nested_step.Page)

text \<open>C32. A savepoint keeps what it promises. Inside a transaction, let a savepoint be set under a name of at most
  the 63 characters that are stored, and let any page operations follow, further savepoints under other names, rollbacks
  to this or a later savepoint and releases of later ones (\<open>nested_step\<close>). When \<open>pager_rollback_to_savepoint\<close> then
  returns, it has found the savepoint and restored the page count, the free list, the image of every page and its
  dirty flag as they were when the savepoint was set, and the savepoints are those there were just after that.\<close>

theorem savepoint_restores:
  assumes I: "in_txn_of p0 p" and c: "coherent p" and n: "length name \<le> 63"
    and sp: "pager_savepoint p name = Inr (True, p1)" and s: "(nested_step (length (savepoints p)) name)\<^sup>*\<^sup>* p1 p2"
    and r: "pager_rollback_to_savepoint p2 name = Inr (b, p3)"
  shows "b \<and> num_pages p3 = num_pages p \<and> free_pages p3 = free_pages p \<and> coherent p3 \<and> in_txn_of p0 p3 \<and>
    savepoints p3 = savepoints p1 \<and>
    (\<forall>m<num_pages p. view p3 m = view p m \<and> dirty_flag p3 m = dirty_flag p m)"
proof -
  have ok: "pager_ok p" using I by (simp add: in_txn_of_def)
  obtain sv where S: "disk_stable p p1" "lookup_slot (committed_pages p1) = lookup_slot (committed_pages p)"
    "savepoints p1 = savepoints p @ [sv]" "savepoint_ok sv" "sp_name sv = savepoint_name name"
    "sp_num_pages sv = num_pages p" "sp_free_pages sv = free_pages p"
    "\<And>m. m < num_pages p \<Longrightarrow> sp_is_dirty sv ! m = dirty_flag p m"
    "sp_page_snapshots sv = map (view p) [0..<num_pages p]"
    using ok sp by (rule pager_savepoint_spec) (use c in auto)
  have "in_txn_of p0 p1" using txn_step_in_txn [OF txn_step.Savepoint [OF sp] I] .
  then have P2: "in_txn_of p0 p2" "saved_under (savepoints p) sv name p2"
    using nested_steps_saved_under [OF s] S(3) by (simp_all add: saved_under_def)
  have nm: "sp_name sv = name" using n S(5) by (simp add: savepoint_name_def)
  note f = find_savepoint_saved [OF P2(2) nm]
  have ok2: "pager_ok p2" using P2(1) by (simp add: in_txn_of_def)
  note rt = rollback_to_spec [OF ok2 f(1) f(2) [symmetric] S(4) r]
  have bk: "backing p2 m = backing p m" for m
    by (rule backing_cong) (use I P2(1) in \<open>simp_all add: in_txn_of_def disk_stable_def\<close>)
  have good: "sp_page_snapshots sv ! m = backing p2 m" if "m < sp_num_pages sv" "\<not> sp_is_dirty sv ! m" for m
    using that S(6,8,9) clean_view [OF ok c, of m] bk by simp
  have vw: "coherent p3" "view p3 = (\<lambda>m. if m < sp_num_pages sv then sp_page_snapshots sv ! m else backing p2 m)"
    using rt(9) [OF good] by blast+
  have "savepoints p3 = savepoints p1"
    using rt(7) P2(2) S(3) by (auto simp: saved_under_def)
  moreover have "in_txn_of p0 p3" using txn_step_in_txn [OF txn_step.Rollback_To [OF r] P2(1)] .
  ultimately show ?thesis using vw rt(1,4,5,8) S(6-9) by simp
qed

text \<open>A savepoint whose name has more than 63 characters can never be rolled back to or released:
  the stored name is cut, the name searched for is not.\<close>

theorem long_savepoint_name_is_lost:
  assumes "length name > 63" and "\<forall>sp\<in>set (savepoints p). length (sp_name sp) \<le> 63"
    and "pager_savepoint p name = Inr (True, p1)" and "pager_ok p"
  shows "pager_rollback_to_savepoint p1 name = Inr (False, p1) \<and> pager_release_savepoint p1 name = (False, p1)"
proof -
  obtain sv where S: "savepoints p1 = savepoints p @ [sv]" "sp_name sv = savepoint_name name"
    using assms(4,3) by (rule pager_savepoint_spec) auto
  have "\<forall>sp\<in>set (savepoints p1). sp_name sp \<noteq> name"
    using assms(1,2) S by (auto simp: savepoint_name_def dest: arg_cong [of _ _ length])
  then have "find_savepoint (savepoints p1) name = None"
    by (auto simp: find_savepoint_def find_None_iff)
  then show ?thesis by (simp add: pager_rollback_to_savepoint_def pager_release_savepoint_def)
qed

end
