(* ===== verification/PagerLiveness.thy ===== *)
theory PagerLiveness
  imports PagerRollback
begin

text \<open>
  When the operations of \<open>src/pager.c\<close> that may end the process return: with no pinned frame, a file
  whose pages carry their checksums and a valid free list, fetching, storing, committing and
  checkpointing always return. The concrete pagers at the end start from \<open>pager_open\<close> on an empty
  directory and serve the theorems that need a state to apply to.
\<close>

section \<open>Fetching\<close>

text \<open>No frame is pinned and every dirty page can be loaded.\<close>

definition workable :: "pager \<Rightarrow> bool" where
  "workable p \<longleftrightarrow> pager_ok p \<and> no_pins p \<and> (\<forall>n<num_pages p. dirty_flag p n \<longrightarrow> readable p n)"

lemma workableD:
  assumes "workable p"
  shows "pager_ok p" "no_pins p" "n < num_pages p \<Longrightarrow> dirty_flag p n \<Longrightarrow> readable p n"
  using assms by (auto simp: workable_def)

lemma page_below_invalid: "pager_ok p \<Longrightarrow> n < num_pages p \<Longrightarrow> n < INVALID_PAGE_NUM"
  using pager_arraysD(5,6) [of p] by (simp add: INVALID_PAGE_NUM_def UINT32_MAX_def)

lemma get_page_total:
  assumes ok: "pager_ok p" and np: "no_pins p" and n: "n < INVALID_PAGE_NUM" and rd: "readable p n"
  obtains i p' where "get_page p n = Inr (i, p')" "pager_ok p'" "no_pins p'" "fetch_stable p p'"
    "num_pages p' = max (num_pages p) (n + 1)" "length (frames p') = MAX_BUFFER_POOL_SIZE"
proof -
  have n': "n \<le> UINT32_MAX" using n by (simp add: INVALID_PAGE_NUM_def UINT32_MAX_def)
  show thesis
  proof (cases "get_page p n")
    case (Inl e)
    have "\<not> (\<forall>i<MAX_BUFFER_POOL_SIZE. f_pin_count (frames p ! i) \<noteq> 0)"
      using np by (auto simp: no_pins_def MAX_BUFFER_POOL_SIZE_def intro!: exI [of _ 0])
    with get_page_failure [OF ok n' Inl] n rd have False by auto
    then show thesis ..
  next
    case (Inr r)
    then obtain i p' where g: "get_page p n = Inr (i, p')" by (cases r) simp
    obtain q where q: "lru_list p q" "set q = occupied p" using ok by (auto simp: pager_ok_def pager_lru_def)
    note sp = get_page_spec [OF ok n' g]
    from sp(1) have "length (frames p') = MAX_BUFFER_POOL_SIZE" by (simp add: pager_ok_core)
    with that [OF g sp(1) get_page_queue(2) [OF ok n' np q g] sp(2) sp(8)] show thesis .
  qed
qed

lemma pin_count_update: "(\<And>x. f_pin_count (h x) = f_pin_count x) \<Longrightarrow>
    f_pin_count (xs[i := h (xs ! i)] ! j) = f_pin_count (xs ! j)"
  by (cases "i < length xs") (auto simp: nth_list_update list_update_beyond)

lemma no_pins_poke [simp]: "no_pins (poke_frame i img p) = no_pins p"
  using pin_count_update [of "f_data_update (\<lambda>_. img)" "frames p" i] by (simp add: no_pins_def)

lemma no_pins_set_flag [simp]: "no_pins (set_flag p i b) = no_pins p"
  using pin_count_update [of "f_is_dirty_update (\<lambda>_. b)" "frames p"] by (simp add: no_pins_def set_flag_def Let_def)

lemma no_pins_unpin: "no_pins p \<Longrightarrow> length (frames p) = MAX_BUFFER_POOL_SIZE \<Longrightarrow> no_pins (pager_unpin_page p n)"
  by (auto simp: no_pins_def pager_unpin_page_def Let_def nth_list_update_at)

section \<open>Committing\<close>

lemma for_each_total:
  assumes "P 0 s" and "\<And>i s. i < n \<Longrightarrow> P i s \<Longrightarrow> \<exists>t. f i s = Inr t \<and> P (Suc i) t"
  shows "\<exists>t. for_each f [0..<n] s = Inr t \<and> P n t"
  using assms(2)
proof (induction n)
  case (Suc n)
  then obtain t where t: "for_each f [0..<n] s = Inr t" "P n t" by auto
  then obtain u where "f n t = Inr u" "P (Suc n) u" using Suc.prems [of n t] by auto
  with t show ?case by (simp add: for_each_append)
qed (use assms(1) in simp)

lemma commit_page_total:
  assumes w: "workable p" and c: "coherent p" and i: "i < num_pages p"
  shows "\<exists>p' wal'. commit_page i (p, wal) = Inr (p', wal') \<and> workable p' \<and> coherent p' \<and>
    num_pages p' = num_pages p \<and> free_pages p' = free_pages p"
proof -
  note W = workableD [OF w]
  have cap: "i < page_capacity p" using i pager_arraysD(6) [OF W(1)] by simp
  show ?thesis
  proof (cases "dirty_flag p i")
    case False
    with w c dirty_flag_nth [OF W(1) cap] show ?thesis by (auto simp: commit_page_def)
  next
    case True
    obtain j p1 where g: "get_page p i = Inr (j, p1)" "no_pins p1" "length (frames p1) = MAX_BUFFER_POOL_SIZE"
      using W(1,2) page_below_invalid [OF W(1) i] W(3) [OF i True] by (rule get_page_total)
    let ?img = "page_write_checksum (f_data (frames p1 ! j))"
    let ?p2 = "poke_frame j ?img p1"
    let ?p3 = "?p2\<lparr>committed_pages := store_page_copy (committed_pages ?p2) i ?img\<rparr>"
    define p' where "p' = pager_unpin_page ?p3 i"
    have s: "commit_page i (p, wal) = Inr (p', wal @ put_u32 i @ ?img)"
      using True g(1) dirty_flag_nth [OF W(1) cap] by (simp add: commit_page_def Let_def p'_def)
    note cs = commit_page_step [OF W(1) c i True s]
    have np: "no_pins p'" unfolding p'_def
      using g(2,3) no_pins_poke [of j ?img p1] by (intro no_pins_unpin) (simp_all add: no_pins_def)
    have st: "num_pages p' = num_pages p" "free_pages p' = free_pages p" "file_length p' = file_length p"
      using cs(3) by (simp_all add: steady_def)
    have "readable p' m" if "m < num_pages p" "dirty_flag p' m" for m
      using W(3) [of m] that cs(4,5,7) st by (simp add: readable_def)
    then have "workable p'" using cs(1) np st by (simp add: workable_def)
    with s cs(2) st show ?thesis by blast
  qed
qed

lemma persist_total:
  "validate_free_page_list n fs \<Longrightarrow> \<exists>d'. persist_free_list_snapshot d n fs = Inr d'"
  by (simp add: persist_free_list_snapshot_def Let_def)

lemma no_pins_frames: "frames p' = frames p \<Longrightarrow> no_pins p' = no_pins p"
  by (simp add: no_pins_def)

lemma no_pins_clear_loop: "no_pins (fold clear_dirty_page is p) = no_pins p"
proof (induction "is" arbitrary: p)
  case (Cons i "is")
  have "no_pins (clear_dirty_page i p) = no_pins p"
    using no_pins_frames [of "clear_spill i p" p] by (simp add: clear_dirty_page_eq)
  with Cons show ?case by simp
qed simp

lemma commit_total:
  assumes w: "workable p" and c: "coherent p" and v: "validate_free_page_list (num_pages p) (free_pages p)"
  shows "\<exists>p'. pager_commit p = Inr p' \<and> no_pins p'"
proof -
  let ?I = "\<lambda>s. workable (fst s) \<and> coherent (fst s) \<and> num_pages (fst s) = num_pages p \<and>
    free_pages (fst s) = free_pages p"
  let ?w = "(case d_wal (disk p) of None \<Rightarrow> [] | Some w \<Rightarrow> w)
      @ put_u32 WAL_TXN_V2_MAGIC @ put_u32 (length (filter (\<lambda>i. is_dirty p ! i) [0..<num_pages p]))
      @ put_u32 (num_pages p) @ put_u32 (length (free_pages p)) @ concat (map put_u32 (free_pages p))"
  have "\<exists>t. commit_page i s = Inr t \<and> ?I t" if "i < num_pages p" "?I s" for i s
    using commit_page_total [of "fst s" i "snd s"] that by auto
  then have "\<exists>t. for_each commit_page [0..<num_pages p] (p, ?w) = Inr t \<and> ?I t"
    using w c by (intro for_each_total [where P = "\<lambda>k. ?I"]) auto
  then obtain s where s: "for_each commit_page [0..<num_pages p] (p, ?w) = Inr s"
    "num_pages (fst s) = num_pages p" "free_pages (fst s) = free_pages p" "no_pins (fst s)"
    by (auto simp: workable_def)
  obtain d2 where "persist_free_list_snapshot ((disk (fst s))\<lparr>d_wal := Some (snd s @ put_u32 WAL_COMMIT_MAGIC)\<rparr>)
      (num_pages p) (free_pages p) = Inr d2" using persist_total [OF v] by blast
  with s v no_pins_clear_loop [of "[0..<num_pages p]" "(fst s)\<lparr>disk := d2\<rparr>"] show ?thesis
    by (simp add: pager_commit_def Let_def split_beta no_pins_def)
qed

section \<open>Checkpointing\<close>

lemma flush_dirty_page_total:
  assumes w: "workable p" and i: "i < num_pages p"
  shows "\<exists>p'. flush_dirty_page i p = Inr p' \<and> workable p' \<and> num_pages p' = num_pages p \<and> free_pages p' = free_pages p"
proof -
  note W = workableD [OF w]
  have cap: "i < page_capacity p" using i pager_arraysD(6) [OF W(1)] by simp
  show ?thesis
  proof (cases "dirty_flag p i")
    case False
    with w dirty_flag_nth [OF W(1) cap] show ?thesis by (auto simp: flush_dirty_page_def)
  next
    case True
    obtain j p1 where g: "get_page p i = Inr (j, p1)" "no_pins p1"
      using W(1,2) page_below_invalid [OF W(1) i] W(3) [OF i True] by (rule get_page_total)
    let ?img = "page_write_checksum (f_data (frames p1 ! j))"
    let ?p2 = "clear_spill i (write_main i ?img (poke_frame j ?img p1))"
    obtain p' where f: "flush_dirty_page i p = Inr p'" and p': "p' = set_flag ?p2 i False"
      using True g(1) dirty_flag_nth [OF W(1) cap] by (simp add: flush_dirty_page_eq Let_def)
    have "frames ?p2 = frames (poke_frame j ?img p1)" by simp
    then have "no_pins ?p2" using g(2) no_pins_frames no_pins_poke by metis
    then have np: "no_pins p'" by (simp add: p')
    note fs = flush_dirty_page_spec [OF W(1) i True f]
    have st: "num_pages p' = num_pages p" "free_pages p' = free_pages p" "file_length p' = file_length p"
      using fs(2) by (simp_all add: steady_def)
    have "readable p' m" if m: "m < num_pages p" "dirty_flag p' m" for m
    proof -
      have mi: "m \<noteq> i" "dirty_flag p m" using m(2) fs(3) by (auto split: if_splits)
      have fp: "file_page (main_file q) m = page_at (main_file q) m" if "pager_ok q" "m < file_length q div PAGE_SIZE" for q
        unfolding file_page_def
        by (rule page_at_file_page) (use that in \<open>simp add: page_in_file pager_ok_def pager_shadows_def\<close>)
      show ?thesis using W(3) [OF m(1) mi(2)] fs(4,5) mi(1) fp [OF fs(1)] fp [OF W(1)] st
        by (simp add: readable_def)
    qed
    then have "workable p'" using fs(1) np st by (simp add: workable_def)
    with f st show ?thesis by blast
  qed
qed

lemma legacy_total:
  assumes w: "workable p" and v: "validate_free_page_list (num_pages p) (free_pages p)"
  shows "\<exists>p'. pager_checkpoint_legacy_base p = Inr p' \<and> no_pins p'"
proof -
  let ?I = "\<lambda>s. workable s \<and> num_pages s = num_pages p \<and> free_pages s = free_pages p"
  have "\<exists>t. flush_dirty_page i s = Inr t \<and> ?I t" if "i < num_pages p" "?I s" for i s
    using flush_dirty_page_total [of s i] that by auto
  then have "\<exists>t. for_each flush_dirty_page [0..<num_pages p] p = Inr t \<and> ?I t"
    using w by (intro for_each_total [where P = "\<lambda>k. ?I"]) auto
  then obtain p1 where p1: "for_each flush_dirty_page [0..<num_pages p] p = Inr p1"
    "num_pages p1 = num_pages p" "free_pages p1 = free_pages p" "no_pins p1" "pager_ok p1"
    by (auto simp: workable_def)
  define p2 where "p2 = fold apply_committed_page [0..<page_capacity p1] p1"
  have ap: "frames p2 = frames p1" "steady p1 p2"
    using apply_loop_spec [OF p1(5) le_refl] unfolding p2_def by blast+
  then have p2: "num_pages p2 = num_pages p" "free_pages p2 = free_pages p" "no_pins p2"
    using p1 no_pins_frames [OF ap(1)] by (simp_all add: steady_def)
  obtain d where "persist_free_list_snapshot ((disk p2)\<lparr>d_main := file_truncate (num_pages p * PAGE_SIZE) (main_file p2)\<rparr>)
      (num_pages p) (free_pages p) = Inr d" using persist_total [OF v] by blast
  with p1 p2 show ?thesis
    by (simp add: pager_checkpoint_legacy_base_def Let_def p2_def [symmetric] no_pins_def)
qed

lemma hide_overlap_total:
  assumes w: "workable p" and i: "i < num_pages p"
  shows "\<exists>p' saved'. hide_overlap i (p, saved) = Inr (p', saved') \<and> workable p' \<and> num_pages p' = num_pages p"
proof -
  note W = workableD [OF w]
  have cap: "i < page_capacity p" using i pager_arraysD(6) [OF W(1)] by simp
  show ?thesis
  proof (cases "overlaps p i")
    case False
    with w show ?thesis by (simp add: hide_overlap_eq)
  next
    case True
    then have d: "dirty_flag p i" using dirty_flag_nth [OF W(1) cap] by (simp add: overlaps_def)
    obtain j p1 where g: "get_page p i = Inr (j, p1)" "no_pins p1"
      using W(1,2) page_below_invalid [OF W(1) i] W(3) [OF i d] by (rule get_page_total)
    let ?q = "set_flag p1 i False"
    note hs = hide_step [OF W(1) i d g(1)]
    have st: "num_pages ?q = num_pages p" "file_length ?q = file_length p" using hs(2) by (simp_all add: steady_def)
    have "readable ?q m" if "m < num_pages p" "dirty_flag ?q m" for m
      using W(3) [OF that(1)] that(2) hs(3,4,5) st by (simp add: readable_def split: if_splits)
    then have "workable ?q" using hs(1) g(2) st by (simp add: workable_def)
    with True g(1) st show ?thesis by (simp add: hide_overlap_eq)
  qed
qed

lemma restore_loop_total:
  assumes "pager_ok p" "no_pins p" "\<forall>(m, img)\<in>set rs. m < num_pages p \<and> length img = PAGE_SIZE \<and> readable p m"
  shows "\<exists>p'. for_each restore_overlap rs p = Inr p' \<and> no_pins p'"
  using assms
proof (induction rs arbitrary: p)
  case (Cons r rs)
  obtain m img where r: "r = (m, img)" by (cases r)
  have m: "m < num_pages p" "length img = PAGE_SIZE" "readable p m" using Cons.prems(3) by (auto simp: r)
  obtain j p1 where g: "get_page p m = Inr (j, p1)" "no_pins p1"
    using Cons.prems(1,2) page_below_invalid [OF Cons.prems(1) m(1)] m(3) by (rule get_page_total)
  have inv: "m \<noteq> INVALID_PAGE_NUM" using page_below_invalid [OF Cons.prems(1) m(1)] by simp
  obtain q where q: "restore_overlap (m, img) p = Inr q"
    and eq: "q = set_flag (pager_reserve_capacity (poke_frame j img p1) (m + 1)) m True"
    using g(1) inv by (simp add: restore_overlap_def mark_page_dirty_eq)
  note rs = restore_overlap_step [OF Cons.prems(1) m(1,2) q]
  have "no_pins q" using g(2) no_pins_frames [of "pager_reserve_capacity (poke_frame j img p1) (m + 1)" "poke_frame j img p1"]
      no_pins_poke [of j img p1] by (simp add: eq)
  moreover have "num_pages q = num_pages p" "file_length q = file_length p" using rs(2) by (simp_all add: steady_def)
  moreover have "readable q k = readable p k" for k using rs(3,5) calculation(3) by (simp add: readable_def)
  ultimately have "\<exists>p'. for_each restore_overlap rs q = Inr p' \<and> no_pins p'"
    using rs(1) Cons.prems(3) by (intro Cons.IH) (auto simp: r)
  with q show ?case by (simp add: r)
qed simp

lemma file_page_at: "pager_ok p \<Longrightarrow> m < file_length p div PAGE_SIZE \<Longrightarrow> file_page (main_file p) m = page_at (main_file p) m"
  unfolding file_page_def by (rule page_at_file_page) (simp add: page_in_file pager_ok_def pager_shadows_def)

lemma checkpoint_total:
  assumes w: "workable p" and v: "validate_free_page_list (num_pages p) (free_pages p)"
  shows "\<exists>p'. pager_checkpoint p = Inr p' \<and> no_pins p'"
proof (cases "\<exists>i\<in>set [0..<num_pages p]. overlaps p i")
  case False
  then have "pager_checkpoint p = pager_checkpoint_legacy_base p" by (simp add: pager_checkpoint_def)
  with legacy_total [OF w v] show ?thesis by simp
next
  case True
  let ?N = "num_pages p"
  note W = workableD [OF w]
  have "\<exists>t. hide_overlap i s = Inr t \<and> workable (fst t) \<and> num_pages (fst t) = ?N"
    if "i < ?N" "workable (fst s) \<and> num_pages (fst s) = ?N" for i s
    using hide_overlap_total [of "fst s" i "snd s"] that by auto
  then have "\<exists>t. for_each hide_overlap [0..<?N] (p, []) = Inr t \<and> workable (fst t) \<and> num_pages (fst t) = ?N"
    using w by (intro for_each_total [where P = "\<lambda>k s. workable (fst s) \<and> num_pages (fst s) = ?N"]) auto
  then obtain s where h: "for_each hide_overlap [0..<?N] (p, []) = Inr s" and ws: "workable (fst s)" by blast
  note hl = hide_loop_spec [OF W(1) h]
  have s1: "num_pages (fst s) = ?N" "free_pages (fst s) = free_pages p" using hl(2) by (simp_all add: steady_def)
  obtain p2 where p2: "pager_checkpoint_legacy_base (fst s) = Inr p2" "no_pins p2"
    using legacy_total [OF ws] v s1 by auto
  note b1 = legacy_base_spec [OF hl(1) p2(1)]
  have s2: "num_pages p2 = ?N" "free_pages p2 = free_pages p" using b1(2) s1 by (simp_all add: kept_def)
  have rd: "readable p2 m" if m: "m < ?N" "overlapping p m" for m
  proof -
    obtain img where "lookup_slot (committed_pages (fst s)) m = Some img"
      using m(2) hl(5) by (auto simp: overlapping_def)
    moreover from this have "length img = PAGE_SIZE" by (rule committed_length [OF hl(1)])
    ultimately have "page_checksum_ok (page_at (main_file p2) m)"
      using m(1) s1 b1(6) by (simp add: base_image_def)
    with file_page_at [OF b1(1)] show ?thesis by (simp add: readable_def)
  qed
  have snd: "snd s = map (\<lambda>m. (m, view p m)) (filter (overlapping p) [0..<?N])" by (rule hl(6))
  have rngs: "\<forall>(m, img)\<in>set (snd s). m < num_pages p2 \<and> length img = PAGE_SIZE \<and> readable p2 m"
    unfolding snd using rd by (auto simp: s2 length_view [OF W(1)])
  obtain p3 where p3: "for_each restore_overlap (snd s) p2 = Inr p3" "no_pins p3"
    using restore_loop_total [OF b1(1) p2(2) rngs] by auto
  have rng2: "\<forall>(m, img)\<in>set (snd s). m < num_pages p2 \<and> length img = PAGE_SIZE" using rngs by auto
  have dist: "distinct (map fst (snd s))" unfolding snd by (simp add: o_def)
  note rl = restore_loop_spec [OF b1(1) p3(1) rng2 dist]
  have ok3: "pager_ok p3" and st3: "steady p2 p3" and d3: "disk p3 = disk p2"
    and df3: "dirty_flag p3 = (\<lambda>m. dirty_flag p2 m \<or> m \<in> fst ` set (snd s))"
    and lk3: "lookup_slot (committed_pages p3) = lookup_slot (committed_pages p2)" using rl by blast+
  have s3: "num_pages p3 = ?N" "free_pages p3 = free_pages p" "file_length p3 = file_length p2"
    using st3 s2 by (simp_all add: steady_def)
  have "readable p3 m" if "m < ?N" "dirty_flag p3 m" for m
  proof -
    have "overlapping p m" using that df3 b1(4) s1 unfolding snd by auto
    with rd [OF that(1)] show ?thesis using s3 d3 lk3 by (simp add: readable_def)
  qed
  then have "workable p3" using ok3 p3(2) s3 by (simp add: workable_def)
  then obtain p4 where "pager_checkpoint_legacy_base p3 = Inr p4" "no_pins p4"
    using legacy_total v s3 by fastforce
  moreover have "pager_checkpoint p = and_then (for_each hide_overlap [0..<?N] (p, [])) (\<lambda>(p1, saved).
             and_then (pager_checkpoint_legacy_base p1) (\<lambda>p2.
               and_then (for_each restore_overlap saved p2) pager_checkpoint_legacy_base))"
    unfolding pager_checkpoint_def using True by (simp only: not_True_eq_False if_False)
  ultimately show ?thesis using h p2(1) p3(1) by (simp add: split_beta)
qed

lemma begin_total:
  assumes "workable p" "validate_free_page_list (num_pages p) (free_pages p)" "\<not> in_transaction p"
  shows "\<exists>p'. pager_begin_transaction p = Inr p' \<and> no_pins p'"
  using legacy_total [OF assms(1,2)] assms(3) by (auto simp: pager_begin_transaction_def no_pins_def)

lemma write_page_total:
  assumes ok: "pager_ok p" and np: "no_pins p" and n: "n < INVALID_PAGE_NUM" and rd: "readable p n"
  shows "\<exists>p'. write_page p n f = Inr p' \<and> no_pins p'"
proof -
  obtain j p1 where g: "get_page p n = Inr (j, p1)" "no_pins p1"
    using ok np n rd by (rule get_page_total)
  have "no_pins (pager_reserve_capacity (poke_frame j img p1) m)" for img m
    using g(2) no_pins_poke [of j img p1] no_pins_frames [of "pager_reserve_capacity (poke_frame j img p1) m" "poke_frame j img p1"] by simp
  with g(1) n show ?thesis by (simp add: write_page_def mark_page_dirty_eq)
qed

text \<open>C35. In a well-formed pool with no pinned frame, whose clean copies agree with the files and whose dirty pages
  can be loaded, \<open>pager_commit\<close> and the ordered
  \<open>pager_checkpoint\<close> return when the free list is valid; when it is not, \<open>pager_commit\<close> ends the process
  with the message about the free list.\<close>

theorem commit_and_checkpoint_return:
  assumes "workable p" "coherent p"
  shows "if validate_free_page_list (num_pages p) (free_pages p)
    then (\<exists>p'. pager_commit p = Inr p') \<and> (\<exists>p'. pager_checkpoint p = Inr p')
    else pager_commit p = Inl Exit_Invalid_Free_List"
proof (cases "validate_free_page_list (num_pages p) (free_pages p)")
  case True
  then show ?thesis using commit_total [OF assms] checkpoint_total [OF assms(1)] by auto
next
  case False
  then show ?thesis by (simp add: pager_commit_def)
qed

section \<open>A new database\<close>

definition empty_disk :: disk where
  "empty_disk = \<lparr>d_main = [], d_wal = None, d_free = None, d_free_wal = None\<rparr>"

definition new_database :: pager where
  "new_database = pager_reserve_capacity (blank_pager empty_disk 0 0) PAGER_INITIAL_CAPACITY"

lemma open_empty: "pager_open empty_disk = Inr new_database"
  by (simp add: pager_open_def recover_wal_def empty_disk_def new_database_def Let_def
      load_free_list_snapshot_def read_free_list_snapshot_def pager_reserve_capacity_def blank_pager_def)

end
