(* ===== verification/PagerProperties.thy ===== *)
theory PagerProperties
  imports PagerLiveness
begin

text \<open>
  What the pager promises its callers, as properties of whole operations, and the witnesses of the
  theorems of the pager theories on a concrete database: created by \<open>pager_open\<close> in an empty
  directory, then given two images of page 0.
\<close>

section \<open>The contract of fetching and storing\<close>

text \<open>C34. Fetching is transparent: \<open>get_page\<close> hands out the current image of the page asked for, and
  whatever eviction, spilling or loading it takes, no page changes its image, and the invariants of
  the pool, the page table and the LRU queue hold afterwards.\<close>

theorem get_page_serves_current_image:
  assumes "pager_ok p" "coherent p" "n \<le> UINT32_MAX" "get_page p n = Inr (i, p')"
  shows "f_data (frames p' ! i) = view p n \<and> view p' = view p \<and> pager_ok p' \<and> coherent p' \<and>
    dirty_flag p' = dirty_flag p \<and> num_pages p' = max (num_pages p) (n + 1)"
  using get_page_spec [OF assms(1,3,4)] assms(2) by (simp add: fetch_stable_def)

text \<open>A stored image is read back, and storing to one page changes no other page.\<close>

theorem stored_image_is_read_back:
  assumes p: "pager_ok p" "coherent p" and n: "n \<le> UINT32_MAX" "m \<le> UINT32_MAX"
    and f: "length (f (view p n)) = PAGE_SIZE"
    and w: "write_page p n f = Inr p1" and g: "get_page p1 m = Inr (i, p2)"
  shows "f_data (frames p2 ! i) = (if m = n then f (view p n) else view p m) \<and> dirty_flag p2 n"
proof -
  note ws = write_page_spec [OF p n(1) f w]
  from get_page_spec(2,11) [OF ws(1) n(2) g] ws(3,5) show ?thesis by (simp add: fetch_stable_def)
qed

section \<open>Checkpoints\<close>

text \<open>The ordered checkpoint publishes the newest image of every page: also where an older
  committed shadow is still waiting to be written, the file ends with the usable bytes of the dirty
  image, nothing is dirty or shadowed any more, the log is gone and the sidecar holds the free list.\<close>

theorem checkpoint_publishes_newest_images:
  assumes p: "stable p" and c: "pager_checkpoint p = Inr p'"
  shows "length (main_file p') = num_pages p * PAGE_SIZE \<and>
    (\<forall>m<num_pages p. usable (page_at (main_file p') m) = usable (view p m) \<and> \<not> dirty_flag p' m \<and>
       lookup_slot (committed_pages p') m = None) \<and>
    d_wal (disk p') = None \<and> d_free (disk p') = Some (encode_free_list (num_pages p) (free_pages p)) \<and>
    stable p'"
proof -
  have "checkpointed p (sealed_view p) p'" using p c by (rule ordered_checkpoint_spec)
  with usable_sealed [OF stableD(1) [OF p]] show ?thesis by (simp add: checkpointed_def)
qed

text \<open>C37. \<open>pager_begin_transaction\<close> does not: it runs the unordered base, so a page that is dirty
  while its previous image is still a committed shadow loses the newer image. The file gets the old
  shadow and the page is no longer dirty.\<close>

theorem begin_transaction_loses_dirty_overlap:
  assumes p: "pager_ok p" and b: "pager_begin_transaction p = Inr p'" and m: "m < num_pages p"
    and o: "dirty_flag p m" "lookup_slot (committed_pages p) m = Some img"
  shows "page_at (main_file p') m = page_write_checksum img \<and> \<not> dirty_flag p' m"
proof -
  obtain q where q: "pager_checkpoint_legacy_base p = Inr q" and p': "disk p' = disk q" "dirty_flag p' = dirty_flag q"
    using b by (auto simp: pager_begin_transaction_def dirty_flag_def fun_eq_iff split: if_splits)
  note ls = legacy_base_spec [OF p q]
  with p' m o show ?thesis by (simp add: base_image_def)
qed

section \<open>The allocator\<close>

text \<open>Allocating a page, with the fetch that makes it part of the database; freeing a live page;
  fetching. The set is the pages the callers hold.\<close>

inductive alloc_step :: "pager \<times> nat set \<Rightarrow> pager \<times> nat set \<Rightarrow> bool" where
  Take: "get_unused_page_num p = Inr (n, p1) \<Longrightarrow> get_page p1 n = Inr (i, p2) \<Longrightarrow>
    alloc_step (p, live) (p2, insert n live)"
| Give: "n \<in> live \<Longrightarrow> pager_free_page p n = Inr p' \<Longrightarrow> alloc_step (p, live) (p', live - {n})"
| Use: "n < num_pages p \<Longrightarrow> get_page p n = Inr (i, p') \<Longrightarrow> alloc_step (p, live) (p', live)"

inductive_cases alloc_stepE: "alloc_step s t"

definition live_ok :: "pager \<times> nat set \<Rightarrow> bool" where
  "live_ok s \<longleftrightarrow> pager_ok (fst s) \<and> alloc_ok (fst s) \<and> snd s \<subseteq> {..<num_pages (fst s)} \<and>
     snd s \<inter> set (free_pages (fst s)) = {}"

lemma alloc_ok_cong: "free_pages p' = free_pages p \<Longrightarrow> num_pages p \<le> num_pages p' \<Longrightarrow> alloc_ok p \<Longrightarrow> alloc_ok p'"
  by (auto simp: alloc_ok_def)

lemma get_unused_keeps:
  assumes "get_unused_page_num p = Inr (n, p1)"
  shows "num_pages p1 = num_pages p" "pager_ok p1 = pager_ok p"
proof -
  from assms consider "p1 = p" | "p1 = p\<lparr>free_pages := butlast (free_pages p)\<rparr>"
    by (auto simp: get_unused_page_num_def split: if_splits)
  then show "num_pages p1 = num_pages p" "pager_ok p1 = pager_ok p" by (cases; simp)+
qed

lemma get_unused_bound: "get_unused_page_num p = Inr (n, p1) \<Longrightarrow> alloc_ok p \<Longrightarrow> n \<le> num_pages p \<and> n \<notin> set (free_pages p1) \<and>
    set (free_pages p1) \<subseteq> set (free_pages p) \<and> (n = num_pages p \<or> n \<in> set (free_pages p)) \<and> alloc_ok p1"
  using get_unused_page_num_spec(1-3) [of p n p1]
  by (auto simp: get_unused_page_num_def dest: in_set_butlastD split: if_splits)

lemma alloc_step_live_ok:
  assumes "alloc_step s t" and "live_ok s"
  shows "live_ok t"
  using assms(1)
proof cases
  case (Take p n p1 i p2 live)
  have I: "pager_ok p" "alloc_ok p" "live \<subseteq> {..<num_pages p}" "live \<inter> set (free_pages p) = {}"
    using assms(2) Take(1) by (auto simp: live_ok_def)
  note gu = get_unused_bound [OF Take(3) I(2)] and gk = get_unused_keeps [OF Take(3)]
  have n: "n \<le> UINT32_MAX" using gu pager_arraysD(5,6) [OF I(1)] by simp
  have ok1: "pager_ok p1" using gk I(1) by simp
  note sp = get_page_spec [OF ok1 n Take(4)]
  have fp: "free_pages p2 = free_pages p1" and np: "num_pages p \<le> num_pages p2" "n < num_pages p2"
    using sp(2,8) gk by (simp_all add: fetch_stable_def)
  have "alloc_ok p2" by (rule alloc_ok_cong [OF fp]) (use sp(8) gu in auto)
  with sp(1) fp np gu I(3,4) show ?thesis unfolding Take(2) live_ok_def by auto
next
  case (Give n live p p')
  have I: "pager_ok p" "alloc_ok p" "live \<subseteq> {..<num_pages p}" "live \<inter> set (free_pages p) = {}"
    using assms(2) Give(1) by (auto simp: live_ok_def)
  note pf = pager_free_page_spec [OF I(1) Give(4)]
  have "alloc_ok p'" using I(2,4) Give(3) pf(2-5) by (auto simp: alloc_ok_def)
  with pf(1,4,5) I(3,4) show ?thesis unfolding Give(2) live_ok_def by auto
next
  case (Use n p i p' live)
  have I: "pager_ok p" "alloc_ok p" "live \<subseteq> {..<num_pages p}" "live \<inter> set (free_pages p) = {}"
    using assms(2) Use(1) by (auto simp: live_ok_def)
  have n: "n \<le> UINT32_MAX" using Use(3) pager_arraysD(5,6) [OF I(1)] by simp
  note sp = get_page_spec [OF I(1) n Use(4)]
  have "free_pages p' = free_pages p" "num_pages p' = num_pages p" using sp(2,8) Use(3) by (simp_all add: fetch_stable_def)
  with sp(1) I show ?thesis unfolding Use(2) live_ok_def by (simp add: alloc_ok_def)
qed

lemma alloc_steps_live_ok: "alloc_step\<^sup>*\<^sup>* s t \<Longrightarrow> live_ok s \<Longrightarrow> live_ok t"
  by (induction rule: rtranclp_induct) (auto intro: alloc_step_live_ok)


text \<open>Freeing a page twice goes unnoticed at first and stops the next commit.\<close>

theorem double_free_stops_commit:
  assumes "pager_ok p" "pager_free_page p n = Inr p1" "pager_free_page p1 n = Inr p2"
  shows "pager_commit p2 = Inl Exit_Invalid_Free_List"
proof -
  note f1 = pager_free_page_spec [OF assms(1,2)]
  note f2 = pager_free_page_spec [OF f1(1) assms(3)]
  have "\<not> distinct (free_pages p2)" using f1(4) f2(4) by simp
  then show ?thesis by (simp add: pager_commit_def validate_free_page_list_iff Let_def)
qed

section \<open>Pages that are fetched but never stored to\<close>

lemma zero_page_not_sealed: "\<not> page_checksum_ok zero_page"
proof
  assume "page_checksum_ok zero_page"
  then have z: "fnv1a_32 (replicate PAGE_USABLE_SIZE 0) = 0"
    by (simp add: page_checksum_ok_def page_checksum_usable usable_def zero_page_def slice_def PAGE_SIZE_split
        read_u32_le_def take_Cons')
  have e: "fnv1a_extend 0 (replicate k 0) = 0" for k
    by (induction k) (simp_all add: fnv1a_extend_def fnv1a_step_def)
  from z have "fnv1a_extend 2166136261 (replicate PAGE_USABLE_SIZE 0) = fnv1a_extend 0 (replicate PAGE_USABLE_SIZE 0)"
    unfolding e by (simp add: fnv1a_32_def)
  then show False by (simp add: fnv1a_extend_inject_hash)
qed

lemma get_page_unreadable:
  assumes p0: "pager_ok p0" and np: "no_pins p0" and n: "n < INVALID_PAGE_NUM"
    and t: "table_entry p0 n = -1" and d: "\<not> dirty_flag p0 n" and r: "\<not> readable p0 n"
  shows "get_page p0 n = Inl (Exit_Checksum_Mismatch n)"
proof -
  have n1: "n + 1 \<le> UINT32_MAX" using n by (simp add: INVALID_PAGE_NUM_def UINT32_MAX_def)
  have n': "n \<le> UINT32_MAX" "n \<noteq> INVALID_PAGE_NUM" using n n1 by simp_all
  define p where "p = pager_reserve_capacity p0 (n + 1)"
  let ?p = "p\<lparr>cache_misses := inc32 (cache_misses p)\<rparr>"
  have ok: "pager_ok ?p" unfolding p_def using reserve_ok [OF p0 n1] by simp
  have cap: "n < page_capacity ?p"
    using reserve_capacity_ge [OF n1 pager_arraysD(5) [OF p0]] by (simp add: p_def)
  have "table_entry p n = -1" using t by (simp add: p_def)
  then have "page_table p ! n = -1" using cap pager_arraysD(1) [OF ok] by (simp add: table_entry_def)
  then have eq: "get_page p0 n = and_then (choose_frame ?p)
      (\<lambda>(idx, p2). and_then (load_image p2 n) (\<lambda>img. Inr (nat idx, install_page p2 idx n img)))"
    using n'(2) unfolding get_page_def Let_def p_def by simp
  show ?thesis
  proof (cases "choose_frame ?p")
    case (Inl e)
    have "\<not> (\<forall>i<MAX_BUFFER_POOL_SIZE. f_pin_count (frames p0 ! i) \<noteq> 0)"
      using np by (auto simp: no_pins_def MAX_BUFFER_POOL_SIZE_def intro!: exI [of _ 0])
    with Inl eq get_page_failure [OF p0 n'(1), of e] n'(2) show ?thesis by auto
  next
    case (Inr s)
    obtain idx p2 where s: "s = (idx, p2)" by (cases s)
    with Inr have c: "choose_frame ?p = Inr (idx, p2)" by simp
    obtain i where p2: "pager_ok p2" "fetch_stable ?p p2" "page_capacity p2 = page_capacity ?p"
      using choose_frame_spec [OF ok c] by metis
    have st: "fetch_stable p0 p2"
      using fetch_stable_reserve [OF pager_arraysD(5) [OF p0] n1] p2(2) by (simp add: p_def fetch_stable_def)
    have rd: "\<not> readable p2 n" and df: "\<not> is_dirty p2 ! n"
      using readable_stable [OF st] r d st dirty_flag_nth [OF p2(1), of n] cap p2(3) by (simp_all add: fetch_stable_def)
    have "committed_pages p2 ! n = None" using rd cap p2(3) pager_arraysD(4) [OF p2(1)]
      by (auto simp: readable_def lookup_slot_def)
    then have "load_image p2 n = Inl (Exit_Checksum_Mismatch n)"
      using rd df length_backing [OF p2(1), of n] 
      by (auto simp: load_image_def readable_def page_verify_checksum_def Let_def backing_def split: if_splits)
    with eq c show ?thesis by simp
  qed
qed

text \<open>A page behind the end of the database that is only fetched joins the database without ever
  being written: after the next checkpoint it is a page of zeros without a checksum, and once the
  database is reopened, fetching it ends the process.\<close>

theorem fetched_but_unwritten_page_is_unreadable:
  assumes p: "stable p" and n: "num_pages p \<le> n" "n \<le> UINT32_MAX" "\<not> dirty_flag p n" "backing p n = zero_page"
    and g: "get_page p n = Inr (i, p1)" and c: "pager_checkpoint p1 = Inr p2" and o: "pager_open (disk p2) = Inr q"
  shows "get_page q n = Inl (Exit_Checksum_Mismatch n)"
proof -
  note sp = get_page_spec [OF stableD(1) [OF p] n(2) g]
  have df: "dirty_flag p1 = dirty_flag p" and fs: "fetch_stable p p1" using sp(2) by (simp_all add: fetch_stable_def)
  have np: "num_pages p1 = n + 1" using sp(8) n(1) by simp
  have coh: "coherent p1" using sp(9) stableD(2) [OF p] by blast
  have st: "stable p1"
    using sp(1,2) coh stableD(3,4) [OF p] by (simp add: stable_def sealed_def fetch_stable_def)
  have vz: "view p1 n = zero_page"
    using clean_view [OF sp(1) coh, of n] df n(3,4) fetch_stable_backing [OF fs] by simp
  have "checkpointed p1 (sealed_view p1) p2" using st c by (rule ordered_checkpoint_spec)
  then have z: "page_at (main_file p2) n = zero_page" and len: "length (main_file p2) = (n + 1) * PAGE_SIZE"
    and wal: "d_wal (disk p2) = None"
    using np vz df n(3) by (auto simp: checkpointed_def sealed_view_def)
  obtain d where d: "recover_wal (disk p2) = Inr d" "stable q" "main_file q = d_main d" "dirty_flag q = (\<lambda>m. False)"
    "lookup_slot (committed_pages q) = (\<lambda>m. None)" "no_pins q" "num_pages q = length (d_main d) div PAGE_SIZE" "table_entry q = (\<lambda>m. -1)"
    using o by (rule pager_open_spec)
  have "d = disk p2" using d(1) wal by (simp add: recover_wal_def)
  then have main: "main_file q = main_file p2" and nq: "num_pages q = n + 1" using d len by simp_all
  have "file_length q = (n + 1) * PAGE_SIZE" using stableD(4) [OF d(2)] main len by simp
  then have inf: "n < file_length q div PAGE_SIZE" by simp
  have "\<not> readable q n"
    using inf file_page_at [OF stableD(1) [OF d(2)] inf] z main d(5) zero_page_not_sealed by (simp add: readable_def)
  moreover have "n < INVALID_PAGE_NUM" using sp(4) n(2) by (simp add: INVALID_PAGE_NUM_def UINT32_MAX_def)
  ultimately show ?thesis
    using get_page_unreadable [OF stableD(1) [OF d(2)] d(6)] d(4,8) by simp
qed

section \<open>A concrete database\<close>

definition payload :: "u8 \<Rightarrow> page" where
  "payload b = replicate PAGE_SIZE b"

lemma length_payload [simp]: "length (payload b) = PAGE_SIZE"
  by (simp add: payload_def)

definition db_started :: pager where "db_started = projr (pager_begin_transaction new_database)"
definition db_stored :: pager where "db_stored = projr (write_page db_started 0 (\<lambda>_. payload 7))"
definition db_committed :: pager where "db_committed = projr (pager_commit db_stored)"
definition db_overlap :: pager where "db_overlap = projr (write_page db_committed 0 (\<lambda>_. payload 9))"

lemma new_database_facts:
  "stable new_database" "num_pages new_database = 0" "no_pins new_database" "\<not> in_transaction new_database"
  "free_pages new_database = []" "savepoints new_database = []" "file_length new_database = 0"
  "lookup_slot (committed_pages new_database) = (\<lambda>m. None)" "dirty_flag new_database = (\<lambda>m. False)"
  "durable [] 0 new_database" "view new_database = (\<lambda>m. zero_page)" "backing new_database = (\<lambda>m. zero_page)"
proof -
  obtain d where d: "recover_wal empty_disk = Inr d" "stable new_database" "num_pages new_database = length (d_main d) div PAGE_SIZE"
    "main_file new_database = d_main d" "d_wal (disk new_database) = None" "no_pins new_database"
    "\<not> in_transaction new_database" "savepoints new_database = []" "dirty_flag new_database = (\<lambda>m. False)"
    "lookup_slot (committed_pages new_database) = (\<lambda>m. None)" "view new_database = page_at (d_main d)"
    "backing new_database = page_at (d_main d)"
    using open_empty by (rule pager_open_spec)
  have "d = empty_disk" using d(1) by (simp add: recover_wal_def empty_disk_def)
  then have m: "d_main d = []" by (simp add: empty_disk_def)
  have z: "page_at [] = (\<lambda>m. zero_page)" by (rule ext, rule page_at_beyond) simp
  show "stable new_database" "num_pages new_database = 0" "no_pins new_database" "\<not> in_transaction new_database"
    "savepoints new_database = []" "file_length new_database = 0"
    "lookup_slot (committed_pages new_database) = (\<lambda>m. None)" "dirty_flag new_database = (\<lambda>m. False)"
    "view new_database = (\<lambda>m. zero_page)" "backing new_database = (\<lambda>m. zero_page)"
    using d m z stableD(4) [OF d(2)] by simp_all
  show "free_pages new_database = []"
    by (simp add: new_database_def blank_pager_def)
  show "durable [] 0 new_database"
    using d(5) by (simp add: durable_def log_ok_def log_bytes_def wal_bytes_def)
qed

lemma readable_no_file: "file_length p = 0 \<Longrightarrow> readable p n"
  by (simp add: readable_def)

lemma workable_no_file: "pager_ok p \<Longrightarrow> no_pins p \<Longrightarrow> file_length p = 0 \<Longrightarrow> workable p"
  by (simp add: workable_def readable_no_file)

lemma db_started_facts:
  "pager_begin_transaction new_database = Inr db_started" "stable db_started" "no_pins db_started"
  "num_pages db_started = 0" "file_length db_started = 0" "free_pages db_started = []" "in_transaction db_started"
  "in_txn_of db_started db_started" "savepoints db_started = []"
  "lookup_slot (committed_pages db_started) = (\<lambda>m. None)" "durable [] 0 db_started"
proof -
  note N = new_database_facts
  have "\<exists>p'. pager_begin_transaction new_database = Inr p' \<and> no_pins p'"
    by (rule begin_total) (use N workable_no_file stableD(1) [OF N(1)] in \<open>simp_all add: validate_free_page_list_iff\<close>)
  then show b: "pager_begin_transaction new_database = Inr db_started" and np: "no_pins db_started"
    by (auto simp: db_started_def)
  have o: "\<not> overlapping new_database m" for m using N by (simp add: overlapping_def)
  note bs = begin_spec [OF N(1) b o, unfolded N(2,5)]
  show st: "stable db_started" "num_pages db_started = 0" "file_length db_started = 0" "free_pages db_started = []"
    "in_transaction db_started" "in_txn_of db_started db_started" "savepoints db_started = []"
    using bs by simp_all
  show "lookup_slot (committed_pages db_started) = (\<lambda>m. None)" using st(6) by (simp add: in_txn_of_def)
  have "d_wal (disk db_started) = None" by (rule bs(13))
  then show "durable [] 0 db_started"
    by (simp add: durable_def log_ok_def log_bytes_def wal_bytes_def)
qed

lemma store_facts:
  assumes p: "stable p" "no_pins p" "file_length p = 0" and n: "n < INVALID_PAGE_NUM"
    and q: "q = projr (write_page p n (\<lambda>_. payload b))"
  shows "write_page p n (\<lambda>_. payload b) = Inr q" "stable q" "no_pins q" "file_length q = 0"
    "num_pages q = max (num_pages p) (n + 1)" "free_pages q = free_pages p" "view q = (view p)(n := payload b)"
    "dirty_flag q = (dirty_flag p)(n := True)" "savepoints q = savepoints p" "disk_stable p q"
    "lookup_slot (committed_pages q) = lookup_slot (committed_pages p)"
proof -
  note P = stableD [OF p(1)]
  show w: "write_page p n (\<lambda>_. payload b) = Inr q" and np: "no_pins q"
    using write_page_total [OF P(1) p(2) n readable_no_file [OF p(3)], of "\<lambda>_. payload b"] by (auto simp: q)
  have n': "n \<le> UINT32_MAX" using n by (simp add: INVALID_PAGE_NUM_def UINT32_MAX_def)
  note ws = write_page_spec [OF P(1,2) n' length_payload w]
  show "num_pages q = max (num_pages p) (n + 1)" "free_pages q = free_pages p" "view q = (view p)(n := payload b)"
    "dirty_flag q = (dirty_flag p)(n := True)" "savepoints q = savepoints p" "disk_stable p q"
    "lookup_slot (committed_pages q) = lookup_slot (committed_pages p)" by (rule ws)+
  then show "stable q" "file_length q = 0"
    using ws(1,2) P(3,4) p(3) by (simp_all add: stable_def sealed_def disk_stable_def)
qed

lemmas db_stored_facts = store_facts [OF db_started_facts(2,3,5) _ db_stored_def]

lemma zero_below: "0 < INVALID_PAGE_NUM"
  by (simp add: INVALID_PAGE_NUM_def)

lemma db_stored_durable: "durable [] 0 db_stored"
  using db_started_facts(11) db_stored_facts(10) [OF zero_below]
  by (simp add: durable_def disk_stable_def)

lemma db_committed_facts:
  "pager_commit db_stored = Inr db_committed" "stable db_committed" "no_pins db_committed" "num_pages db_committed = 1"
  "file_length db_committed = 0" "free_pages db_committed = []" "\<not> in_transaction db_committed"
  "view db_committed 0 = page_write_checksum (payload 7)" "\<not> dirty_flag db_committed 0"
  "lookup_slot (committed_pages db_committed) 0 = Some (page_write_checksum (payload 7))"
proof -
  note S = db_stored_facts [OF zero_below]
  note P = stableD [OF S(2)]
  have v: "validate_free_page_list (num_pages db_stored) (free_pages db_stored)"
    using S(6) db_started_facts(6) by (simp add: validate_free_page_list_iff)
  show c: "pager_commit db_stored = Inr db_committed" and np: "no_pins db_committed"
    using commit_total [OF workable_no_file [OF P(1) S(3,4)] P(2) v] by (auto simp: db_committed_def)
  note cs = pager_commit_spec [OF S(2) c]
  show "stable db_committed" "num_pages db_committed = 1" "file_length db_committed = 0" "free_pages db_committed = []"
    "\<not> in_transaction db_committed" "\<not> dirty_flag db_committed 0"
    using cs(1,2,3,5,9,12) S(4,5,6) db_started_facts(4,6) by simp_all
  show v: "view db_committed 0 = page_write_checksum (payload 7)"
    using cs(4) S(5,7,8) db_started_facts(4) by (simp add: sealed_view_def)
  show "lookup_slot (committed_pages db_committed) 0 = Some (page_write_checksum (payload 7))"
    using cs(16) S(5,7,8) db_started_facts(4) by (simp add: flushed_def)
qed

lemma db_overlap_facts:
  "stable db_overlap" "no_pins db_overlap" "file_length db_overlap = 0" "num_pages db_overlap = 1"
  "free_pages db_overlap = []" "dirty_flag db_overlap 0" "view db_overlap 0 = payload 9" "\<not> in_transaction db_overlap"
  "lookup_slot (committed_pages db_overlap) 0 = Some (page_write_checksum (payload 7))"
  "workable db_overlap" "validate_free_page_list (num_pages db_overlap) (free_pages db_overlap)"
proof -
  note C = db_committed_facts
  note O = store_facts [OF C(2,3,5) zero_below db_overlap_def]
  show F: "stable db_overlap" "no_pins db_overlap" "file_length db_overlap = 0" "num_pages db_overlap = 1"
    "free_pages db_overlap = []" "dirty_flag db_overlap 0" "view db_overlap 0 = payload 9" "\<not> in_transaction db_overlap"
    "lookup_slot (committed_pages db_overlap) 0 = Some (page_write_checksum (payload 7))"
    using O C by (simp_all add: disk_stable_def)
  show "workable db_overlap" by (rule workable_no_file [OF stableD(1) [OF F(1)] F(2,3)])
  show "validate_free_page_list (num_pages db_overlap) (free_pages db_overlap)"
    using F(4,5) by (simp add: validate_free_page_list_iff)
qed

lemma get_page_without_file:
  assumes p: "stable p" "no_pins p" "file_length p = 0" and n: "n < INVALID_PAGE_NUM"
    and q: "r = projr (get_page p n)"
  shows "get_page p n = Inr (fst r, snd r)" "stable (snd r)" "no_pins (snd r)" "file_length (snd r) = 0"
    "num_pages (snd r) = max (num_pages p) (n + 1)" "free_pages (snd r) = free_pages p"
proof -
  note P = stableD [OF p(1)]
  obtain i p' where g: "get_page p n = Inr (i, p')" "no_pins p'"
    using P(1) p(2) n readable_no_file [OF p(3)] by (rule get_page_total)
  have n': "n \<le> UINT32_MAX" using n by (simp add: INVALID_PAGE_NUM_def UINT32_MAX_def)
  note sp = get_page_spec [OF P(1) n' g(1)]
  have "stable p'" using sp(1,2,9) P(2,3,4) by (simp add: stable_def sealed_def fetch_stable_def)
  then show "get_page p n = Inr (fst r, snd r)" "stable (snd r)" "no_pins (snd r)" "file_length (snd r) = 0"
    "num_pages (snd r) = max (num_pages p) (n + 1)" "free_pages (snd r) = free_pages p"
    using g q sp(2,8) p(3) by (simp_all add: fetch_stable_def)
qed

lemma open_total:
  assumes "d_wal d = None" "length (d_main d) = n * PAGE_SIZE" "n \<le> INVALID_PAGE_NUM"
  shows "\<exists>q. pager_open d = Inr q"
  using assms by (simp add: pager_open_def recover_wal_def Let_def split_beta)

section \<open>Witnesses\<close>

lemma commit_and_checkpoint_return_witness:
  "(\<exists>p'. pager_commit db_overlap = Inr p') \<and> (\<exists>p'. pager_checkpoint db_overlap = Inr p')"
  using commit_and_checkpoint_return [OF db_overlap_facts(10) stableD(2) [OF db_overlap_facts(1)]] db_overlap_facts(11)
  by simp

lemma checkpoint_publishes_newest_images_witness:
  "usable (page_at (main_file (projr (pager_checkpoint db_overlap))) 0) = usable (payload 9)"
proof -
  obtain p' where c: "pager_checkpoint db_overlap = Inr p'"
    using checkpoint_total [OF db_overlap_facts(10,11)] by blast
  from checkpoint_publishes_newest_images [OF db_overlap_facts(1) c] db_overlap_facts(4,7) show ?thesis by (simp add: c)
qed

lemma begin_transaction_loses_dirty_overlap_witness:
  "page_at (main_file (projr (pager_begin_transaction db_overlap))) 0 = page_write_checksum (payload 7) \<and>
   view db_overlap 0 = payload 9"
proof -
  obtain p' where c: "pager_begin_transaction db_overlap = Inr p'"
    using begin_total [OF db_overlap_facts(10,11,8)] by blast
  have "0 < num_pages db_overlap" using db_overlap_facts(4) by simp
  from begin_transaction_loses_dirty_overlap [OF stableD(1) [OF db_overlap_facts(1)] c this db_overlap_facts(6,9)]
  show ?thesis using db_overlap_facts(7) write_checksum_ok [of "page_write_checksum (payload 7)"] by (simp add: c)
qed


lemma commit_is_atomic_witness:
  "pager_open \<lparr>d_main = main_file db_stored, d_wal = Some (wal_bytes (disk db_stored) @ take 100
       (encode_txn (num_pages db_stored) (free_pages db_stored) (commit_records db_stored (num_pages db_stored)))),
     d_free = d_free (disk db_stored), d_free_wal = d_free_wal (disk db_stored)\<rparr> = pager_open (disk db_stored)"
proof -
  note S = db_stored_facts [OF zero_below]
  let ?r = "encode_txn (num_pages db_stored) (free_pages db_stored) (commit_records db_stored (num_pages db_stored))"
  have "commit_records db_stored (num_pages db_stored) = [(0, page_write_checksum (payload 7))]"
    using S(5,7,8) db_started_facts(4) by (simp add: commit_records_def)
  then have "100 < length ?r" using S(6) db_started_facts(6)
    by (simp add: encode_txn_def page_record_def PAGE_SIZE_def)
  with commit_is_atomic [OF S(2) db_stored_durable db_committed_facts(1) refl, of 100] show ?thesis by simp
qed

lemma rollback_undoes_transaction_witness:
  "num_pages (pager_rollback db_stored) = 0 \<and> main_file (pager_rollback db_stored) = main_file db_started \<and>
   num_pages db_stored = 1"
proof -
  note S = db_stored_facts [OF zero_below]
  have o: "\<not> overlapping new_database m" for m using new_database_facts by (simp add: overlapping_def)
  have "page_step db_started db_stored" by (rule page_step.Store [OF _ _ S(1)]) simp_all
  then have "txn_step\<^sup>*\<^sup>* db_started db_stored" by (intro r_into_rtranclp txn_step.Page)
  from rollback_undoes_transaction [OF new_database_facts(1) db_started_facts(1) o this refl] S(5)
  show ?thesis using new_database_facts(2) db_started_facts(4) by simp
qed

lemma snapshot_total:
  assumes "stable p" "no_pins p" "file_length p = 0"
  shows "\<exists>p'. pager_savepoint p name = Inr (length (savepoints p) < MAX_SAVEPOINTS, p') \<and> no_pins p'"
proof -
  let ?I = "\<lambda>s. stable (fst s) \<and> no_pins (fst s) \<and> file_length (fst s) = 0"
  have "\<exists>t. snapshot_page i s = Inr t \<and> ?I t" if "i < num_pages p" "?I s" for i s
  proof -
    have inv: "i < INVALID_PAGE_NUM" using page_below_invalid [OF stableD(1) [OF assms(1)] that(1)] .
    have s: "stable (fst s)" "no_pins (fst s)" "file_length (fst s) = 0" using that(2) by simp_all
    define r where "r = projr (get_page (fst s) i)"
    note g = get_page_without_file [OF s inv r_def]
    have len: "length (frames (snd r)) = MAX_BUFFER_POOL_SIZE" using stableD(1) [OF g(2)] by (simp add: pager_ok_core)
    have "stable (pager_unpin_page (snd r) i)" using g(2) by (simp add: stable_def sealed_def)
    moreover have "no_pins (pager_unpin_page (snd r) i)" using no_pins_unpin [OF g(3) len] .
    ultimately show ?thesis using g(1,4) by (simp add: snapshot_page_def split_beta)
  qed
  then have "\<exists>t. for_each snapshot_page [0..<num_pages p] (p, []) = Inr t \<and> ?I t"
    using assms by (intro for_each_total [where P = "\<lambda>k. ?I"]) auto
  then obtain s where s: "for_each snapshot_page [0..<num_pages p] (p, []) = Inr s" "no_pins (fst s)" by blast
  show ?thesis
  proof (cases "MAX_SAVEPOINTS \<le> length (savepoints p)")
    case True
    then have "pager_savepoint p name = Inr (False, p)" by (simp add: pager_savepoint_def)
    with True assms(2) show ?thesis by simp
  next
    case False
    then have "pager_savepoint p name = (let sp = \<lparr>sp_name = savepoint_name name, sp_file_length = file_length p,
                  sp_num_pages = num_pages p, sp_free_pages = free_pages p,
                  sp_is_dirty = take (num_pages p) (is_dirty p), sp_page_snapshots = snd s\<rparr>
        in Inr (True, (fst s)\<lparr>savepoints := savepoints (fst s) @ [sp]\<rparr>))"
      by (simp add: pager_savepoint_def s(1) split_beta)
    with False s(2) show ?thesis by (simp add: Let_def no_pins_def)
  qed
qed

lemma long_savepoint_name_is_lost_witness:
  "pager_rollback_to_savepoint (snd (projr (pager_savepoint db_stored (replicate 70 CHR ''s'')))) (replicate 70 CHR ''s'') =
   Inr (False, snd (projr (pager_savepoint db_stored (replicate 70 CHR ''s''))))"
proof -
  note S = db_stored_facts [OF zero_below]
  have sps: "savepoints db_stored = []" using S(9) db_started_facts(9) by simp
  obtain p' where p': "pager_savepoint db_stored (replicate 70 CHR ''s'') = Inr (True, p')"
    using snapshot_total [OF S(2-4), of "replicate 70 CHR ''s''"] sps by (auto simp: MAX_SAVEPOINTS_def)
  with long_savepoint_name_is_lost [OF _ _ p' stableD(1) [OF S(2)]] sps show ?thesis by simp
qed

definition db_saved :: pager where "db_saved = snd (projr (pager_savepoint db_stored ''sp''))"
definition db_changed :: pager where "db_changed = projr (write_page db_saved 0 (\<lambda>_. payload 9))"

lemma restore_total:
  assumes p: "pager_ok p" "no_pins p" "file_length p = 0"
    and r: "\<forall>i<n. i < INVALID_PAGE_NUM" "n \<le> length (sp_page_snapshots sp)" "\<forall>img\<in>set (sp_page_snapshots sp). length img = PAGE_SIZE"
  shows "\<exists>p'. for_each (restore_page sp) [0..<n] p = Inr p'"
proof -
  let ?I = "\<lambda>p. pager_ok p \<and> no_pins p \<and> file_length p = 0"
  have "\<exists>t. restore_page sp i s = Inr t \<and> ?I t" if i: "i < n" and s: "?I s" for i s
  proof -
    have inv: "i < INVALID_PAGE_NUM" using r(1) i by blast
    obtain j p1 where g: "get_page s i = Inr (j, p1)" "pager_ok p1" "no_pins p1" "fetch_stable s p1"
      using s inv readable_no_file by (metis get_page_total)
    have n: "i \<le> UINT32_MAX" using inv by (simp add: INVALID_PAGE_NUM_def UINT32_MAX_def)
    have img: "length (sp_page_snapshots sp ! i) = PAGE_SIZE" using r(2,3) i by simp
    let ?q = "poke_frame j (sp_page_snapshots sp ! i) p1"
    have q: "pager_ok ?q" "no_pins ?q" "file_length ?q = 0"
      using poke_ok [OF g(2) img] g(3,4) s by (simp_all add: fetch_stable_def) (simp add: poke_frame_def)
    obtain u where u: "(if sp_is_dirty sp ! i then mark_page_dirty ?q i else Inr ?q) = Inr u" "?I u"
    proof (cases "sp_is_dirty sp ! i")
      case True
      obtain u where m: "mark_page_dirty ?q i = Inr u" and eq: "u = set_flag (pager_reserve_capacity ?q (i + 1)) i True"
        using inv by (simp add: mark_page_dirty_eq)
      have "no_pins u" using q(2) no_pins_frames [of "pager_reserve_capacity ?q (i + 1)" ?q] by (simp add: eq)
      moreover have "file_length u = 0" using q(3) by (simp add: eq)
      moreover have "pager_ok u" by (rule mark_page_dirty_spec(1) [OF q(1) n m])
      ultimately show thesis using that [of u] True m by simp
    qed (use that [of ?q] q in simp)
    have "length (frames u) = MAX_BUFFER_POOL_SIZE" using u(2) by (simp add: pager_ok_core)
    then have "?I (pager_unpin_page u i)" using u(2) no_pins_unpin by simp
    with g(1) u(1) show ?thesis by (simp add: restore_page_def Let_def)
  qed
  then have "\<exists>t. for_each (restore_page sp) [0..<n] p = Inr t \<and> ?I t"
    using p by (intro for_each_total [where P = "\<lambda>k. ?I"]) auto
  then show ?thesis by blast
qed

lemma rollback_to_total:
  assumes p: "pager_ok p" "file_length p = 0" and f: "find_savepoint (savepoints p) name = Some t"
    and sp: "savepoint_ok (savepoints p ! t)" "sp_num_pages (savepoints p ! t) \<le> num_pages p"
  shows "\<exists>p'. pager_rollback_to_savepoint p name = Inr (True, p')"
proof -
  let ?sp = "savepoints p ! t"
  let ?N = "sp_num_pages ?sp"
  let ?p2 = "(forget_dirty (pager_reserve_capacity p ?N))\<lparr>num_pages := ?N, free_pages := sp_free_pages ?sp\<rparr>"
  have res: "pager_reserve_capacity p ?N = p"
    using sp(2) pager_arraysD(6) [OF p(1)] by (simp add: pager_reserve_capacity_def)
  have len: "length (frames p) = MAX_BUFFER_POOL_SIZE" using p(1) by (simp add: pager_ok_core)
  have ok1: "pager_ok (forget_dirty p)" using p(1) by (rule forget_dirty_ok)
  have "?N \<le> page_capacity (forget_dirty p)" using sp(2) pager_arraysD(6) [OF p(1)] by simp
  then have "pager_ok ((forget_dirty p)\<lparr>num_pages := ?N\<rparr>)"
    by (rule pager_ok_num_pages [OF ok1]) (simp add: len)
  then have ok2: "pager_ok ?p2" unfolding res using pager_ok_free_pages by blast
  have np2: "no_pins ?p2" by (simp add: no_pins_def res len)
  have "\<forall>i<?N. i < INVALID_PAGE_NUM" using page_below_invalid [OF p(1)] sp(2) by auto
  then obtain p3 where "for_each (restore_page ?sp) [0..<?N] ?p2 = Inr p3"
    using restore_total [OF ok2 np2, of ?N ?sp] p(2) sp(1) by (auto simp: res savepoint_ok_def)
  then show ?thesis by (simp add: pager_rollback_to_savepoint_def f Let_def)
qed

lemma savepoint_restores_witness:
  "view (snd (projr (pager_rollback_to_savepoint db_changed ''sp''))) 0 = payload 7 \<and> view db_changed 0 = payload 9"
proof -
  note S = db_stored_facts [OF zero_below]
  note P = stableD [OF S(2)]
  have sps: "savepoints db_stored = []" using S(9) db_started_facts(9) by simp
  have s: "pager_savepoint db_stored ''sp'' = Inr (True, db_saved)" and np: "no_pins db_saved"
    using snapshot_total [OF S(2-4), of "''sp''"] sps by (auto simp: MAX_SAVEPOINTS_def db_saved_def)
  obtain sp where V: "pager_ok db_saved" "disk_stable db_stored db_saved" "savepoints db_saved = [sp]" "savepoint_ok sp"
    "lookup_slot (committed_pages db_saved) = lookup_slot (committed_pages db_stored)"
    "sp_name sp = savepoint_name ''sp''" "sp_num_pages sp = 1" "coherent db_saved" "num_pages db_saved = 1"
    using P(1) s
  proof (rule pager_savepoint_spec)
    fix sp assume "pager_ok db_saved" "disk_stable db_stored db_saved" "savepoints db_saved = savepoints db_stored @ [sp]"
      "savepoint_ok sp" "lookup_slot (committed_pages db_saved) = lookup_slot (committed_pages db_stored)"
      "sp_name sp = savepoint_name ''sp''" "sp_num_pages sp = num_pages db_stored" "num_pages db_saved = num_pages db_stored"
      "coherent db_stored \<Longrightarrow> coherent db_saved \<and> view db_saved = view db_stored \<and>
        sp_page_snapshots sp = map (view db_stored) [0..<num_pages db_stored]"
    with that [of sp] P(2) sps S(5) db_started_facts(4) show thesis by simp
  qed simp
  have st: "stable db_saved" "file_length db_saved = 0"
    using V(1,2,5,8) P(3,4) S(4) by (simp_all add: stable_def sealed_def disk_stable_def)
  note C = store_facts [OF st(1) np st(2) zero_below db_changed_def]
  have step: "page_step\<^sup>*\<^sup>* db_saved db_changed"
    by (intro r_into_rtranclp page_step.Store [OF _ _ C(1)]) simp_all
  have f: "find_savepoint (savepoints db_changed) ''sp'' = Some 0"
    using C(9) V(3,6) by (simp add: find_savepoint_def savepoint_name_def)
  obtain p3 where r: "pager_rollback_to_savepoint db_changed ''sp'' = Inr (True, p3)"
    using rollback_to_total [OF stableD(1) [OF C(2)] C(4) f] C(5,9) V(3,4,7,9) by auto
  have "pager_ok db_stored" "disk_stable db_started db_stored" "lookup_slot (committed_pages db_stored) = (\<lambda>m. None)"
    using P(1) S(10,11) db_started_facts(10) by simp_all
  then have "in_txn_of db_started db_stored" using sps by (simp add: in_txn_of_def)
  from savepoint_restores [OF this P(2) _ s nested_page_steps [OF step] r] S(5,7) C(7) show ?thesis by (simp add: r)
qed

lemma get_page_serves_current_image_witness:
  "f_data (frames (snd (projr (get_page db_overlap 0))) ! fst (projr (get_page db_overlap 0))) = payload 9"
proof -
  note g = get_page_without_file [OF db_overlap_facts(1-3) zero_below refl]
  from get_page_serves_current_image [OF stableD(1,2) [OF db_overlap_facts(1)] _ g(1)] db_overlap_facts(7)
  show ?thesis by simp
qed

lemma stored_image_is_read_back_witness:
  "f_data (frames (snd (projr (get_page db_overlap 0))) ! fst (projr (get_page db_overlap 0))) = payload 9 \<and>
   dirty_flag (snd (projr (get_page db_overlap 0))) 0"
proof -
  note C = db_committed_facts
  note O = store_facts [OF C(2,3,5) zero_below db_overlap_def]
  note g = get_page_without_file [OF O(2-4) zero_below refl]
  from stored_image_is_read_back [OF stableD(1,2) [OF C(2)] _ _ _ O(1) g(1)] show ?thesis by simp
qed


lemma fetched_pointer_stays_valid_witness:
  "f_page_num (frames (projr (fetch_all [1, 2] (snd (projr (get_page new_database 0))))) ! fst (projr (get_page new_database 0))) = 0"
proof -
  note N = new_database_facts
  have b: "(1::nat) < INVALID_PAGE_NUM" "(2::nat) < INVALID_PAGE_NUM" by (simp_all add: INVALID_PAGE_NUM_def)
  note g0 = get_page_without_file [OF N(1,3,7) zero_below refl]
  define r1 where "r1 = projr (get_page (snd (projr (get_page new_database 0))) 1)"
  note g1 = get_page_without_file [OF g0(2-4) b(1) r1_def]
  define r2 where "r2 = projr (get_page (snd r1) 2)"
  note g2 = get_page_without_file [OF g1(2-4) b(2) r2_def]
  have q: "fetch_all [1, 2] (snd (projr (get_page new_database 0))) = Inr (snd r2)"
    unfolding fetch_all_simps g1(1) and_then_Inr prod.case g2(1) ..
  from fetched_pointer_stays_valid [OF stableD(1) [OF N(1)] N(3) _ _ g0(1) q] show ?thesis
    by (simp add: q UINT32_MAX_def del: fetch_all_simps One_nat_def)
qed


definition db_two_pages :: pager where "db_two_pages = projr (write_page db_stored 1 (\<lambda>_. payload 3))"

lemma double_free_stops_commit_witness:
  "pager_commit (projr (pager_free_page (projr (pager_free_page db_two_pages 1)) 1)) = Inl Exit_Invalid_Free_List"
proof -
  note S = db_stored_facts [OF zero_below]
  have b: "(1::nat) < INVALID_PAGE_NUM" by (simp add: INVALID_PAGE_NUM_def)
  note T = store_facts [OF S(2-4) b db_two_pages_def]
  have n: "num_pages db_two_pages = 2" using T(5) S(5) db_started_facts(4) by simp
  obtain p1 where p1: "pager_free_page db_two_pages 1 = Inr p1" using n b by (simp add: pager_free_page_eq Let_def)
  obtain p2 where p2: "pager_free_page p1 1 = Inr p2"
    using n b pager_free_page_spec(5) [OF stableD(1) [OF T(2)] p1] by (simp add: pager_free_page_eq Let_def)
  from double_free_stops_commit [OF stableD(1) [OF T(2)] p1 p2] show ?thesis by (simp only: p1 p2 sum.sel)
qed

lemma fetched_but_unwritten_page_is_unreadable_witness:
  "\<exists>p1 p2 q. get_page new_database 0 = Inr p1 \<and> pager_checkpoint (snd p1) = Inr p2 \<and> pager_open (disk p2) = Inr q \<and>
    get_page q 0 = Inl (Exit_Checksum_Mismatch 0)"
proof -
  note N = new_database_facts
  note g = get_page_without_file [OF N(1,3,7) zero_below refl]
  let ?p1 = "snd (projr (get_page new_database 0))"
  have w: "workable ?p1" by (rule workable_no_file [OF stableD(1) [OF g(2)] g(3,4)])
  have n1: "num_pages ?p1 = 1" using g(5) N(2) by simp
  have v: "validate_free_page_list (num_pages ?p1) (free_pages ?p1)"
    using g(6) N(5) by (simp add: validate_free_page_list_iff)
  obtain p2 where c: "pager_checkpoint ?p1 = Inr p2" using checkpoint_total [OF w v] by blast
  have "checkpointed ?p1 (sealed_view ?p1) p2" using g(2) c by (rule ordered_checkpoint_spec)
  then have "d_wal (disk p2) = None" "length (main_file p2) = 1 * PAGE_SIZE" using n1 by (simp_all add: checkpointed_def)
  then obtain q where o: "pager_open (disk p2) = Inr q" using open_total [of "disk p2" 1] by (auto simp: INVALID_PAGE_NUM_def)
  have "get_page q 0 = Inl (Exit_Checksum_Mismatch 0)"
    by (rule fetched_but_unwritten_page_is_unreadable [OF N(1) _ _ _ _ g(1) c o]) (simp_all add: N)
  with g(1) c o show ?thesis by (metis snd_conv)
qed

lemma reserve_capacity_bounds_witness:
  "page_capacity (pager_reserve_capacity new_database 100) = 128"
proof -
  have c: "page_capacity new_database = 64"
    by (simp add: new_database_def pager_reserve_capacity_def blank_pager_def grow_capacity_eq PAGER_INITIAL_CAPACITY_def Let_def)
  from reserve_capacity_bounds [of 100 new_database] show ?thesis by (simp add: Let_def c UINT32_MAX_def)
qed

text \<open>A pool with two cached pages, the older of which is pinned.\<close>

definition pinned_pool :: pager where
  "pinned_pool = (blank_pager empty_disk 0 2)\<lparr>
     frames := [blank_frame\<lparr>f_page_num := 0, f_lru_next := 1\<rparr>,
                blank_frame\<lparr>f_page_num := 1, f_lru_prev := 0, f_pin_count := 1\<rparr>] @ replicate 14 blank_frame,
     lru_head := 0, lru_tail := 1\<rparr>"

lemma victim_is_least_recently_used_unpinned_witness:
  "victim_scan (Suc MAX_BUFFER_POOL_SIZE) pinned_pool (lru_tail pinned_pool) = 0"
proof -
  have "lru_list pinned_pool [0, 1]"
    by (auto simp: lru_list_def pinned_pool_def blank_pager_def blank_frame_def nth_Cons' nth_append tail_of_def)
  moreover have "length (frames pinned_pool) = MAX_BUFFER_POOL_SIZE"
    by (simp add: pinned_pool_def MAX_BUFFER_POOL_SIZE_def)
  moreover have "filter (unpinned pinned_pool) [0, 1] = [0]"
    by (simp add: unpinned_def pinned_pool_def blank_frame_def)
  ultimately show ?thesis using victim_is_least_recently_used_unpinned [of pinned_pool "[0, 1]"] by simp
qed

end
