(* ===== verification/PagerRefinement.thy ===== *)
theory PagerRefinement
  imports PagerProperties
begin

text \<open>
  The pager as an array of pages. \<open>page_store\<close> is the interface the layers above the pager use: storing
  an image of a page replaces that page and no other. It is interpreted twice: on \<open>get_page\<close> plus
  \<open>mark_page_dirty\<close> (\<open>src/pager.c\<close>) and on page-sized writes to a file, which is what WAL recovery and
  checkpoints do. \<open>stores_reach_the_file\<close> is the refinement between the two.
\<close>

section \<open>The interface\<close>

locale page_store =
  fixes inv :: "'s \<Rightarrow> bool" and image :: "'s \<Rightarrow> nat \<Rightarrow> page"
    and store :: "nat \<times> page \<Rightarrow> 's \<Rightarrow> 'e + 's" and valid :: "nat \<Rightarrow> bool"
  assumes store_inv: "inv s \<Longrightarrow> valid n \<Longrightarrow> length img = PAGE_SIZE \<Longrightarrow> store (n, img) s = Inr t \<Longrightarrow> inv t"
    and store_image: "inv s \<Longrightarrow> valid n \<Longrightarrow> length img = PAGE_SIZE \<Longrightarrow> store (n, img) s = Inr t \<Longrightarrow>
      image t = (image s)(n := img)"
begin

lemma stores:
  assumes "for_each store ws s = Inr t" "inv s" "\<forall>(n, img)\<in>set ws. valid n \<and> length img = PAGE_SIZE"
  shows "inv t" "image t = (\<lambda>m. case map_of (rev ws) m of Some img \<Rightarrow> img | None \<Rightarrow> image s m)"
proof -
  have "inv t \<and> image t = (\<lambda>m. case map_of (rev ws) m of Some img \<Rightarrow> img | None \<Rightarrow> image s m)"
    using assms
  proof (induction ws arbitrary: s)
    case (Cons w ws)
    obtain n img where w: "w = (n, img)" by (cases w)
    obtain u where u: "store (n, img) s = Inr u" and r: "for_each store ws u = Inr t"
      using Cons.prems(1) by (auto simp: w)
    have v: "valid n" "length img = PAGE_SIZE" using Cons.prems(3) by (auto simp: w)
    note st = store_inv [OF Cons.prems(2) v u] store_image [OF Cons.prems(2) v u]
    have "inv t \<and> image t = (\<lambda>m. case map_of (rev ws) m of Some img \<Rightarrow> img | None \<Rightarrow> image u m)"
      by (rule Cons.IH [OF r st(1)]) (use Cons.prems(3) in auto)
    then show ?case
      by (auto simp: w st(2) fun_eq_iff map_add_def split: option.splits)
  qed simp
  then show "inv t" "image t = (\<lambda>m. case map_of (rev ws) m of Some img \<Rightarrow> img | None \<Rightarrow> image s m)" by blast+
qed

lemma last_store_wins:
  assumes "for_each store (ws @ [(n, img)]) s = Inr t" "inv s" "\<forall>(n, img)\<in>set ws. valid n \<and> length img = PAGE_SIZE"
    "valid n" "length img = PAGE_SIZE"
  shows "image t n = img"
  using stores [OF assms(1,2)] assms(3-5) by auto

end

section \<open>The pager provides it\<close>

definition store_page :: "nat \<times> page \<Rightarrow> pager \<Rightarrow> pager_exit + pager" where
  "store_page w p = write_page p (fst w) (\<lambda>_. snd w)"

definition pager_inv :: "pager \<Rightarrow> bool" where
  "pager_inv p \<longleftrightarrow> pager_ok p \<and> coherent p"

interpretation pages: page_store pager_inv view store_page "\<lambda>n. n \<le> UINT32_MAX"
proof unfold_locales
  fix s t :: pager and n img
  assume a: "pager_inv s" "n \<le> UINT32_MAX" "length img = PAGE_SIZE" "store_page (n, img) s = Inr t"
  then have p: "pager_ok s" "coherent s" and w: "write_page s n (\<lambda>_. img) = Inr t"
    by (simp_all add: pager_inv_def store_page_def)
  note ws = write_page_spec [OF p a(2,3) w]
  show "pager_inv t" using ws(1,2) by (simp add: pager_inv_def)
  show "view t = (view s)(n := img)" by (rule ws(3))
qed

section \<open>So does a file\<close>

definition file_store :: "nat \<times> page \<Rightarrow> bytes \<Rightarrow> pager_exit + bytes" where
  "file_store w f = Inr (file_write (fst w * PAGE_SIZE) (snd w) f)"

interpretation file_pages: page_store "\<lambda>f. True" page_at file_store "\<lambda>n. True"
  by unfold_locales (auto simp: file_store_def page_at_write fun_eq_iff)

lemma file_stores_total: "\<exists>g. for_each file_store ws f = Inr g"
  by (induction ws arbitrary: f) (auto simp: file_store_def)

section \<open>The refinement\<close>

lemma stores_keep:
  assumes "for_each store_page ws p = Inr q" "stable p" "\<forall>(n, img)\<in>set ws. n \<le> UINT32_MAX \<and> length img = PAGE_SIZE"
  shows "stable q \<and> num_pages p \<le> num_pages q \<and> fst ` set ws \<subseteq> {..<num_pages q} \<and> disk_stable p q"
  using assms
proof (induction ws arbitrary: p)
  case (Cons w ws)
  obtain n img where w: "w = (n, img)" by (cases w)
  obtain u where "store_page w p = Inr u" and r: "for_each store_page ws u = Inr q"
    using Cons.prems(1) by auto
  then have u: "write_page p n (\<lambda>_. img) = Inr u" by (simp add: w store_page_def)
  have v: "n \<le> UINT32_MAX" "length img = PAGE_SIZE" using Cons.prems(3) by (auto simp: w)
  note P = stableD [OF Cons.prems(2)]
  note ws = write_page_spec [OF P(1,2) v u]
  have "stable u" using ws(1,2,6,9) P(3,4) by (simp add: stable_def sealed_def disk_stable_def)
  with Cons.IH [OF r] Cons.prems(3) ws(4) disk_stable_trans [OF ws(6)] show ?case by (auto simp: w)
qed simp

text \<open>C29. Storing pages through the pager and checkpointing refines writing them into the database file:
  page for page the file ends with the same usable bytes, whatever was evicted, spilled or reloaded on
  the way.\<close>

theorem stores_reach_the_file:
  assumes p: "stable p" "\<And>m. \<not> dirty_flag p m" "\<And>m. lookup_slot (committed_pages p) m = None"
    and ws: "\<forall>(n, img)\<in>set ws. n \<le> UINT32_MAX \<and> length img = PAGE_SIZE"
    and s: "for_each store_page ws p = Inr q" and c: "pager_checkpoint q = Inr q'"
    and f: "for_each file_store ws (main_file p) = Inr g" and m: "m < num_pages q"
  shows "usable (page_at (main_file q') m) = usable (page_at g m)"
proof -
  have pi: "pager_inv p" using stableD [OF p(1)] by (simp add: pager_inv_def)
  have vw: "view q = (\<lambda>m. case map_of (rev ws) m of Some img \<Rightarrow> img | None \<Rightarrow> view p m)"
    by (rule pages.stores(2) [OF s pi ws])
  have fw: "page_at g = (\<lambda>m. case map_of (rev ws) m of Some img \<Rightarrow> img | None \<Rightarrow> page_at (main_file p) m)"
    by (rule file_pages.stores(2) [OF f]) (use ws in auto)
  have vp: "view p m = page_at (main_file p) m"
    using clean_view [OF stableD(1,2) [OF p(1)] p(2)] stable_backing [OF p(1)] p(3) by simp
  have q: "stable q" using stores_keep [OF s p(1) ws] by blast
  have "checkpointed q (sealed_view q) q'" using q c by (rule ordered_checkpoint_spec)
  then have "usable (page_at (main_file q') m) = usable (view q m)"
    using m usable_sealed [OF stableD(1) [OF q]] by (simp add: checkpointed_def)
  also have "view q m = page_at g m" unfolding vw fw using vp by (simp split: option.split)
  finally show ?thesis .
qed

lemma stores_reach_the_file_witness:
  "usable (page_at (main_file (projr (pager_checkpoint (projr (store_page (0, payload 7) new_database))))) 0) = usable (payload 7)"
proof -
  note N = new_database_facts
  note S = store_facts [OF N(1,3,7) zero_below refl, of 7]
  let ?q = "projr (write_page new_database 0 (\<lambda>_. payload 7))"
  have n: "num_pages ?q = 1" "free_pages ?q = []" using S(5,6) N(2,5) by simp_all
  obtain q' where c: "pager_checkpoint ?q = Inr q'"
    using checkpoint_total [OF workable_no_file [OF stableD(1) [OF S(2)] S(3,4)]] n
    by (auto simp: validate_free_page_list_iff)
  have st: "store_page (0, payload 7) new_database = Inr ?q" using S(1) by (simp only: store_page_def fst_conv snd_conv)
  then have s: "for_each store_page [(0, payload 7)] new_database = Inr ?q" by (simp only: for_each.simps and_then_Inr)
  have f: "for_each file_store [(0, payload 7)] (main_file new_database) = Inr (file_write 0 (payload 7) (main_file new_database))"
    by (simp add: file_store_def)
  have "usable (page_at (main_file q') 0) = usable (page_at (file_write 0 (payload 7) (main_file new_database)) 0)"
    by (rule stores_reach_the_file [OF N(1) _ _ _ s c f]) (simp_all add: N n)
  then show ?thesis unfolding st sum.sel c using page_at_write [of "payload 7" 0 "main_file new_database" 0] by simp
qed

end
