(* ===== verification/PagerPins.thy ===== *)
theory PagerPins
  imports PagerRefinement
begin

text \<open>
  Explicit page pins: the handles of \<open>src/pager.h\<close> (admission, the pin step after the fetch, release,
  the guards in front of destructive operations) and the non-fatal \<open>pager_try_pin_existing_page_handle\<close>
  and \<open>pager_try_checkpoint\<close> of \<open>src/pager_checkpoint_order.c\<close>. A handle's data pointer is the index of
  the frame that owns the buffer. The per-frame \<open>rwlock\<close>s are not part of the state: a handle records
  the lock mode it believes to hold.
\<close>

section \<open>Handles\<close>

datatype page_lock_mode = Lock_None | Lock_Read | Lock_Write

record page_handle =
  h_open :: bool
  h_page_num :: nat
  h_frame_idx :: int
  h_data :: "nat option"
  h_pinned :: bool
  h_lock_mode :: page_lock_mode

definition empty_handle :: page_handle where
  "empty_handle = \<lparr>h_open = False, h_page_num = INVALID_PAGE_NUM, h_frame_idx = -1, h_data = None,
     h_pinned = False, h_lock_mode = Lock_None\<rparr>"

definition fill_handle :: "nat \<Rightarrow> int \<Rightarrow> page_handle" where
  "fill_handle n frame_idx = \<lparr>h_open = True, h_page_num = n, h_frame_idx = frame_idx,
     h_data = Some (nat frame_idx), h_pinned = True, h_lock_mode = Lock_None\<rparr>"

definition pager_any_frame_pinned :: "pager \<Rightarrow> bool" where
  "pager_any_frame_pinned p \<longleftrightarrow>
     list_ex (\<lambda>i. f_page_num (frames p ! i) \<noteq> INVALID_PAGE_NUM \<and> f_pin_count (frames p ! i) > 0)
       [0..<MAX_BUFFER_POOL_SIZE]"

definition pager_pin_transition_busy :: "pager \<Rightarrow> bool" where
  "pager_pin_transition_busy p \<longleftrightarrow> pin_barrier_active p \<or> pin_admissions p > 0"

definition pager_begin_pin_admission :: "pager \<Rightarrow> bool \<times> pager" where
  "pager_begin_pin_admission p =
     (if pin_barrier_active p \<or> pin_admissions p = UINT32_MAX then (False, p)
      else (True, p\<lparr>pin_admissions := pin_admissions p + 1\<rparr>))"

text \<open>\<open>pin_count++\<close> and \<open>pin_count--\<close> of a frame.\<close>

definition pin_frame :: "nat \<Rightarrow> pager \<Rightarrow> pager" where
  "pin_frame i p = upd_frame i (\<lambda>f. f\<lparr>f_pin_count := f_pin_count f + 1\<rparr>) p"

definition unpin_frame :: "nat \<Rightarrow> pager \<Rightarrow> pager" where
  "unpin_frame i p = upd_frame i (\<lambda>f. f\<lparr>f_pin_count := f_pin_count f - 1\<rparr>) p"

text \<open>The locked step of \<open>pager_pin_page_handle\<close> after \<open>get_page\<close> has returned the buffer of frame \<open>data\<close>:
  the handle if it was pinned, whether a barrier is active, and the pager.\<close>

definition pin_fetched :: "pager \<Rightarrow> nat \<Rightarrow> nat \<Rightarrow> page_handle option \<times> bool \<times> pager" where
  "pin_fetched p n data =
     (let p1 = (if pin_admissions p > 0 then p\<lparr>pin_admissions := pin_admissions p - 1\<rparr> else p);
          barrier_active = pin_barrier_active p1;
          frame_idx = (if n < page_capacity p1 then page_table p1 ! n else -1)
      in if \<not> barrier_active \<and> 0 \<le> frame_idx \<and> frame_idx < int MAX_BUFFER_POOL_SIZE \<and>
            f_page_num (frames p1 ! nat frame_idx) = n \<and> nat frame_idx = data \<and>
            f_pin_count (frames p1 ! nat frame_idx) \<noteq> UINT32_MAX
         then (Some (fill_handle n frame_idx), barrier_active, pin_frame (nat frame_idx) p1)
         else (None, barrier_active, p1))"

text \<open>The attempts of \<open>pager_pin_page_handle\<close> in a process of its own.\<close>

fun pin_attempts :: "nat \<Rightarrow> pager \<Rightarrow> nat \<Rightarrow> pager_exit + page_handle option \<times> pager" where
  "pin_attempts 0 p n = Inr (None, p)"
| "pin_attempts (Suc k) p n =
     (let (admitted, p1) = pager_begin_pin_admission p
      in if \<not> admitted then Inr (None, p1)
         else and_then (get_page p1 n) (\<lambda>(data, p2).
           let (h, barrier_active, p3) = pin_fetched p2 n data
           in if h \<noteq> None \<or> barrier_active then Inr (h, p3) else pin_attempts k p3 n))"

definition pager_pin_page_handle :: "pager \<Rightarrow> nat \<Rightarrow> pager_exit + page_handle option \<times> pager" where
  "pager_pin_page_handle p n = (if n = INVALID_PAGE_NUM then Inr (None, p) else pin_attempts 64 p n)"

definition pager_release_page_handle :: "pager \<Rightarrow> page_handle \<Rightarrow> bool \<times> page_handle \<times> pager" where
  "pager_release_page_handle p h =
     (if \<not> h_pinned h \<or> \<not> h_open h \<or> h_lock_mode h \<noteq> Lock_None then (False, h, p)
      else if 0 \<le> h_frame_idx h \<and> h_frame_idx h < int MAX_BUFFER_POOL_SIZE \<and>
              f_page_num (frames p ! nat (h_frame_idx h)) = h_page_num h \<and>
              h_data h = Some (nat (h_frame_idx h)) \<and> f_pin_count (frames p ! nat (h_frame_idx h)) > 0
           then (True, h\<lparr>h_open := False, h_page_num := INVALID_PAGE_NUM, h_frame_idx := -1,
                         h_data := None, h_pinned := False\<rparr>, unpin_frame (nat (h_frame_idx h)) p)
           else (False, h, p))"

text \<open>The four lock operations on a handle.\<close>

definition handle_usable :: "page_handle \<Rightarrow> page_lock_mode \<Rightarrow> bool" where
  "handle_usable h mode \<longleftrightarrow> h_pinned h \<and> h_open h \<and> h_lock_mode h = mode \<and>
     0 \<le> h_frame_idx h \<and> h_frame_idx h < int MAX_BUFFER_POOL_SIZE"

definition pager_page_handle_acquire_read :: "page_handle \<Rightarrow> bool \<times> page_handle" where
  "pager_page_handle_acquire_read h =
     (if handle_usable h Lock_None then (True, h\<lparr>h_lock_mode := Lock_Read\<rparr>) else (False, h))"

definition pager_page_handle_release_read :: "page_handle \<Rightarrow> bool \<times> page_handle" where
  "pager_page_handle_release_read h =
     (if handle_usable h Lock_Read then (True, h\<lparr>h_lock_mode := Lock_None\<rparr>) else (False, h))"

definition pager_page_handle_acquire_write :: "page_handle \<Rightarrow> bool \<times> page_handle" where
  "pager_page_handle_acquire_write h =
     (if handle_usable h Lock_None then (True, h\<lparr>h_lock_mode := Lock_Write\<rparr>) else (False, h))"

definition pager_page_handle_release_write :: "page_handle \<Rightarrow> bool \<times> page_handle" where
  "pager_page_handle_release_write h =
     (if handle_usable h Lock_Write then (True, h\<lparr>h_lock_mode := Lock_None\<rparr>) else (False, h))"

definition pager_page_is_dirty :: "pager \<Rightarrow> nat \<Rightarrow> bool" where
  "pager_page_is_dirty p n = (if n < page_capacity p then is_dirty p ! n else False)"

definition pager_restore_page_dirty_state :: "pager \<Rightarrow> nat \<Rightarrow> bool \<Rightarrow> pager" where
  "pager_restore_page_dirty_state p n was_dirty =
     (if n \<ge> page_capacity p then p
      else
        let p1 = p\<lparr>is_dirty := (is_dirty p)[n := was_dirty]\<rparr>;
            frame_idx = page_table p1 ! n;
            p2 = (if frame_idx \<noteq> -1
                  then upd_frame (nat frame_idx) (\<lambda>f. f\<lparr>f_is_dirty := was_dirty\<rparr>) p1 else p1)
        in if \<not> was_dirty then p2\<lparr>dirty_page_spills := (dirty_page_spills p2)[n := None]\<rparr> else p2)"

section \<open>Guards\<close>

definition pager_frame_for_page_is_pinned :: "pager \<Rightarrow> nat \<Rightarrow> bool" where
  "pager_frame_for_page_is_pinned p n \<longleftrightarrow>
     n < page_capacity p \<and>
     (let frame_idx = page_table p ! n
      in 0 \<le> frame_idx \<and> frame_idx < int MAX_BUFFER_POOL_SIZE \<and>
         f_page_num (frames p ! nat frame_idx) = n \<and> f_pin_count (frames p ! nat frame_idx) > 0)"

definition pager_removed_range_pinned :: "pager \<Rightarrow> nat \<Rightarrow> bool" where
  "pager_removed_range_pinned p first_removed \<longleftrightarrow>
     list_ex (\<lambda>i. f_page_num (frames p ! i) \<noteq> INVALID_PAGE_NUM \<and> f_page_num (frames p ! i) \<ge> first_removed \<and>
         f_pin_count (frames p ! i) > 0) [0..<MAX_BUFFER_POOL_SIZE]"

definition pager_free_page_pin_guard :: "pager \<Rightarrow> nat \<Rightarrow> pager_exit + pager" where
  "pager_free_page_pin_guard p n =
     (if pager_pin_transition_busy p \<or> pager_frame_for_page_is_pinned p n then Inr p
      else pager_free_page p n)"

definition pager_shrink_pin_guard :: "pager \<Rightarrow> nat \<Rightarrow> pager" where
  "pager_shrink_pin_guard p n =
     (if pager_pin_transition_busy p \<or> pager_removed_range_pinned p n then p else pager_shrink p n)"

definition pager_rollback_pin_guard :: "pager \<Rightarrow> pager" where
  "pager_rollback_pin_guard p =
     (if in_transaction p \<and> (pager_pin_transition_busy p \<or> pager_any_frame_pinned p) then p
      else pager_rollback p)"

text \<open>\<open>pager_rollback_to_savepoint_pin_guard\<close> raises the barrier, leaves the lock, rolls back, and takes
  the barrier down again. The first two definitions are its steps, the third the whole call.\<close>

definition raise_barrier :: "pager \<Rightarrow> bool \<times> pager" where
  "raise_barrier p =
     (if pager_pin_transition_busy p \<or> pager_any_frame_pinned p then (False, p)
      else (True, p\<lparr>pin_barrier_active := True\<rparr>))"

definition lower_barrier :: "pager \<Rightarrow> pager" where
  "lower_barrier p = p\<lparr>pin_barrier_active := False\<rparr>"

definition pager_rollback_to_savepoint_pin_guard :: "pager \<Rightarrow> string \<Rightarrow> pager_exit + bool \<times> pager" where
  "pager_rollback_to_savepoint_pin_guard p name =
     (let (raised, p1) = raise_barrier p
      in if \<not> raised then Inr (False, p1)
         else and_then (pager_rollback_to_savepoint p1 name) (\<lambda>(result, p2). Inr (result, lower_barrier p2)))"

text \<open>\<open>pager_try_close\<close>: whether the pager was destroyed, and the pager otherwise left.\<close>

definition pager_try_close :: "pager \<Rightarrow> bool \<times> pager" where
  "pager_try_close p = raise_barrier p"

section \<open>Locking by page number\<close>

definition pager_page_number_lock_pin :: "pager \<Rightarrow> nat \<Rightarrow> page_lock_mode \<Rightarrow> bool \<times> pager" where
  "pager_page_number_lock_pin p n mode =
     (if n = INVALID_PAGE_NUM \<or> mode = Lock_None then (False, p)
      else if pin_barrier_active p \<or> n \<ge> page_capacity p then (False, p)
      else
        let frame_idx = page_table p ! n
        in if frame_idx < 0 \<or> frame_idx \<ge> int MAX_BUFFER_POOL_SIZE \<or>
              f_page_num (frames p ! nat frame_idx) \<noteq> n \<or> f_pin_count (frames p ! nat frame_idx) = UINT32_MAX
           then (False, p) else (True, pin_frame (nat frame_idx) p))"

definition pager_page_number_unlock_unpin :: "pager \<Rightarrow> nat \<Rightarrow> page_lock_mode \<Rightarrow> bool \<times> pager" where
  "pager_page_number_unlock_unpin p n mode =
     (if n = INVALID_PAGE_NUM \<or> mode = Lock_None \<or> n \<ge> page_capacity p then (False, p)
      else
        let frame_idx = page_table p ! n
        in if frame_idx < 0 \<or> frame_idx \<ge> int MAX_BUFFER_POOL_SIZE \<or>
              f_page_num (frames p ! nat frame_idx) \<noteq> n \<or> f_pin_count (frames p ! nat frame_idx) = 0
           then (False, p) else (True, unpin_frame (nat frame_idx) p))"

section \<open>Acquiring an existing page without ending the process\<close>

datatype try_pin_status =
    Try_Pin_Ok | Try_Pin_Busy | Try_Pin_Invalid_Page | Try_Pin_Io_Error | Try_Pin_Corrupt_Page

definition try_pin_fnv1a32 :: "bytes \<Rightarrow> u32" where
  "try_pin_fnv1a32 data = fold (\<lambda>b hash. (hash XOR ucast b) * 16777619) data 2166136261"

definition try_pin_checksum_valid :: "page \<Rightarrow> bool" where
  "try_pin_checksum_valid page \<longleftrightarrow>
     read_u32_le (slice PAGE_USABLE_SIZE PAGE_CHECKSUM_SIZE page) = try_pin_fnv1a32 (slice 0 PAGE_USABLE_SIZE page)"

definition try_pin_lru_remove :: "pager \<Rightarrow> int \<Rightarrow> pager" where
  "try_pin_lru_remove p frame_idx =
     (if frame_idx < 0 \<or> frame_idx \<ge> int MAX_BUFFER_POOL_SIZE then p
      else
        let prev = f_lru_prev (frames p ! nat frame_idx);
            nxt = f_lru_next (frames p ! nat frame_idx);
            p1 = (if prev \<noteq> -1 then upd_frame (nat prev) (\<lambda>f. f\<lparr>f_lru_next := nxt\<rparr>) p
                  else if lru_head p = frame_idx then p\<lparr>lru_head := nxt\<rparr> else p);
            p2 = (if nxt \<noteq> -1 then upd_frame (nat nxt) (\<lambda>f. f\<lparr>f_lru_prev := prev\<rparr>) p1
                  else if lru_tail p1 = frame_idx then p1\<lparr>lru_tail := prev\<rparr> else p1)
        in upd_frame (nat frame_idx) (\<lambda>f. f\<lparr>f_lru_prev := -1, f_lru_next := -1\<rparr>) p2)"

definition try_pin_lru_touch :: "pager \<Rightarrow> int \<Rightarrow> pager" where
  "try_pin_lru_touch p frame_idx =
     (if lru_head p = frame_idx then p
      else
        let p1 = try_pin_lru_remove p frame_idx;
            p2 = upd_frame (nat frame_idx) (\<lambda>f. f\<lparr>f_lru_next := lru_head p1, f_lru_prev := -1\<rparr>) p1;
            p3 = (if lru_head p2 \<noteq> -1
                  then upd_frame (nat (lru_head p2)) (\<lambda>f. f\<lparr>f_lru_prev := frame_idx\<rparr>) p2 else p2);
            p4 = p3\<lparr>lru_head := frame_idx\<rparr>
        in if lru_tail p4 = -1 then p4\<lparr>lru_tail := frame_idx\<rparr> else p4)"

definition try_pin_choose_frame :: "pager \<Rightarrow> int" where
  "try_pin_choose_frame p =
     (case find (\<lambda>i. f_page_num (frames p ! i) = INVALID_PAGE_NUM) [0..<MAX_BUFFER_POOL_SIZE] of
        Some i \<Rightarrow> int i
      | None \<Rightarrow> victim_scan (Suc MAX_BUFFER_POOL_SIZE) p (lru_tail p))"

definition try_pin_load :: "pager \<Rightarrow> nat \<Rightarrow> try_pin_status + page" where
  "try_pin_load p n =
     (if is_dirty p ! n \<and> dirty_page_spills p ! n \<noteq> None then Inr (the (dirty_page_spills p ! n))
      else if committed_pages p ! n \<noteq> None then Inr (the (committed_pages p ! n))
      else if (n + 1) * PAGE_SIZE \<le> file_length p then
        let img = file_page (d_main (disk p)) n
        in if length img \<noteq> PAGE_SIZE then Inl Try_Pin_Io_Error
           else if \<not> try_pin_checksum_valid img then Inl Try_Pin_Corrupt_Page
           else Inr img
      else Inr zero_page)"

definition try_pin_replace :: "pager \<Rightarrow> nat \<Rightarrow> int \<Rightarrow> page \<Rightarrow> pager" where
  "try_pin_replace p n frame_idx incoming =
     (let v = nat frame_idx;
          victim_page = f_page_num (frames p ! v);
          p1 = (if victim_page \<noteq> INVALID_PAGE_NUM then
                  let pa = (if f_is_dirty (frames p ! v) then
                              p\<lparr>dirty_page_spills := (dirty_page_spills p)[victim_page := Some (f_data (frames p ! v))]\<rparr>
                            else p);
                      pb = (if victim_page < page_capacity pa \<and> page_table pa ! victim_page = frame_idx
                            then pa\<lparr>page_table := (page_table pa)[victim_page := -1]\<rparr> else pa)
                  in pb\<lparr>evictions := inc32 (evictions pb)\<rparr>
                else p);
          p2 = try_pin_lru_remove p1 frame_idx;
          p3 = upd_frame v (\<lambda>f. f\<lparr>f_data := incoming, f_page_num := n, f_is_dirty := is_dirty p2 ! n,
                                  f_pin_count := 1\<rparr>) p2;
          p4 = p3\<lparr>page_table := (page_table p3)[n := frame_idx]\<rparr>
      in try_pin_lru_touch p4 frame_idx)"

definition pager_try_pin_existing_page_handle :: "pager \<Rightarrow> nat \<Rightarrow> try_pin_status \<times> page_handle \<times> pager" where
  "pager_try_pin_existing_page_handle p n =
     (if n = INVALID_PAGE_NUM then (Try_Pin_Invalid_Page, empty_handle, p)
      else if pin_barrier_active p then (Try_Pin_Busy, empty_handle, p)
      else if n \<ge> num_pages p \<or> n \<ge> page_capacity p then (Try_Pin_Invalid_Page, empty_handle, p)
      else
        let frame_idx = page_table p ! n
        in if 0 \<le> frame_idx \<and> frame_idx < int MAX_BUFFER_POOL_SIZE \<and> f_page_num (frames p ! nat frame_idx) = n
           then if f_pin_count (frames p ! nat frame_idx) = UINT32_MAX then (Try_Pin_Busy, empty_handle, p)
                else let p1 = pin_frame (nat frame_idx) (p\<lparr>cache_hits := inc32 (cache_hits p)\<rparr>)
                     in (Try_Pin_Ok, fill_handle n frame_idx, try_pin_lru_touch p1 frame_idx)
           else
             let p1 = p\<lparr>cache_misses := inc32 (cache_misses p)\<rparr>;
                 frame_idx = try_pin_choose_frame p1
             in if frame_idx = -1 then (Try_Pin_Busy, empty_handle, p1)
                else case try_pin_load p1 n of
                    Inl status \<Rightarrow> (status, empty_handle, p1)
                  | Inr incoming \<Rightarrow>
                      (Try_Pin_Ok, fill_handle n frame_idx, try_pin_replace p1 n frame_idx incoming))"

section \<open>A checkpoint that may refuse\<close>

fun checkpoint_preflight :: "nat list \<Rightarrow> pager \<Rightarrow> bool \<times> pager" where
  "checkpoint_preflight [] p = (True, p)"
| "checkpoint_preflight (n # ns) p =
     (if \<not> pager_page_is_dirty p n then checkpoint_preflight ns p
      else
        let (status, handle, p1) = pager_try_pin_existing_page_handle p n
        in if status \<noteq> Try_Pin_Ok then (False, p1)
           else
             let (released, h, p2) = pager_release_page_handle p1 handle
             in if \<not> released then (False, p2) else checkpoint_preflight ns p2)"

definition pager_try_checkpoint :: "pager \<Rightarrow> pager_exit + bool \<times> pager" where
  "pager_try_checkpoint p =
     (let (ready, p1) = checkpoint_preflight [0..<num_pages p] p
      in if \<not> ready then Inr (False, p1)
         else and_then (pager_checkpoint p1) (\<lambda>p2. Inr (True, p2)))"

section \<open>A fetch leaves pinned frames alone\<close>

definition held :: "pager \<Rightarrow> nat \<Rightarrow> bool" where
  "held p i \<longleftrightarrow> i < MAX_BUFFER_POOL_SIZE \<and> f_page_num (frames p ! i) \<noteq> INVALID_PAGE_NUM \<and>
     f_pin_count (frames p ! i) > 0"

text \<open>What an operation that respects pins does to a frame.\<close>

definition pin_safe :: "pager \<Rightarrow> pager \<Rightarrow> bool" where
  "pin_safe p p' \<longleftrightarrow>
     (\<forall>i<MAX_BUFFER_POOL_SIZE. f_pin_count (frames p ! i) = 0 \<longrightarrow> f_pin_count (frames p' ! i) = 0) \<and>
     (\<forall>i. held p i \<longrightarrow> f_page_num (frames p' ! i) = f_page_num (frames p ! i) \<and>
          f_pin_count (frames p' ! i) = f_pin_count (frames p ! i))"

lemma pin_safe_refl [simp]: "pin_safe p p"
  by (simp add: pin_safe_def)

lemma pin_safe_trans: "pin_safe p q \<Longrightarrow> pin_safe q r \<Longrightarrow> pin_safe p r"
  by (auto simp: pin_safe_def held_def)

lemma same_frame_pin_safe: "(\<And>i. i < MAX_BUFFER_POOL_SIZE \<Longrightarrow> same_frame p p' i) \<Longrightarrow> pin_safe p p'"
  by (auto simp: pin_safe_def held_def same_frame_def frame_core_def)

lemma pin_safe_except:
  assumes s: "\<And>i. i < MAX_BUFFER_POOL_SIZE \<Longrightarrow> i \<noteq> j \<Longrightarrow> same_frame p p' i" and "\<not> held p j" "f_pin_count (frames p' ! j) = 0"
  shows "pin_safe p p'"
proof -
  have "f_pin_count (frames p' ! i) = 0" if "i < MAX_BUFFER_POOL_SIZE" "f_pin_count (frames p ! i) = 0" for i
    using s [OF that(1)] assms(3) that(2) by (cases "i = j") (auto simp: same_frame_pins)
  moreover have "f_page_num (frames p' ! i) = f_page_num (frames p ! i) \<and> f_pin_count (frames p' ! i) = f_pin_count (frames p ! i)"
    if "held p i" for i
    using s [of i] assms(2) that by (cases "i = j") (auto simp: held_def same_frame_def frame_core_def)
  ultimately show ?thesis by (simp add: pin_safe_def)
qed

lemma choose_frame_frames:
  assumes p: "pager_ok p" and c: "choose_frame p = Inr (int j, p')"
  shows "j < MAX_BUFFER_POOL_SIZE \<and> (\<forall>i<MAX_BUFFER_POOL_SIZE. i \<noteq> j \<longrightarrow> same_frame p p' i) \<and> \<not> held p j"
proof (cases "free_frame p")
  case None
  then have e: "lru_evict p = Inr (int j, p')" using c by (simp add: choose_frame_def)
  from lru_evict_cases [OF p e] obtain v n where v: "int j = int v" "v < MAX_BUFFER_POOL_SIZE"
    "dropped p v n p'" "f_pin_count (frames p ! v) = 0" by metis
  with dropped_same_frame [OF v(3)] show ?thesis by (simp add: held_def)
next
  case (Some i)
  then have "i = j" "p' = p" using c by (simp_all add: choose_frame_def)
  with free_frame_Some [OF Some] show ?thesis by (simp add: same_frame_def held_def)
qed

lemma get_page_frame_cases:
  assumes p0: "pager_ok p0" and n: "n \<le> UINT32_MAX" and g: "get_page p0 n = Inr (j, p')"
  obtains (Hit) "table_entry p0 n = int j" "\<And>i. i < MAX_BUFFER_POOL_SIZE \<Longrightarrow> same_frame p0 p' i"
    | (Miss) "table_entry p0 n = -1" "\<And>i. i < MAX_BUFFER_POOL_SIZE \<Longrightarrow> i \<noteq> j \<Longrightarrow> same_frame p0 p' i"
      "\<not> held p0 j" "f_pin_count (frames p' ! j) = 0"
proof -
  have ninv: "n \<noteq> INVALID_PAGE_NUM" using g by (auto simp: get_page_def split: if_splits)
  then have n1: "n + 1 \<le> UINT32_MAX" using n by (simp add: INVALID_PAGE_NUM_def UINT32_MAX_def)
  define p where "p = pager_reserve_capacity p0 (n + 1)"
  have p: "pager_ok p" unfolding p_def using p0 n1 by (rule reserve_ok)
  have g': "(if page_table p ! n \<noteq> -1 then
      Inr (nat (page_table p ! n), lru_touch (p\<lparr>cache_hits := inc32 (cache_hits p)\<rparr>) (page_table p ! n))
    else and_then (choose_frame (p\<lparr>cache_misses := inc32 (cache_misses p)\<rparr>))
      (\<lambda>(idx, p2). and_then (load_image p2 n) (\<lambda>img. Inr (nat idx, install_page p2 idx n img)))) = Inr (j, p')"
    using g ninv unfolding get_page_def Let_def p_def by simp
  have fr: "frames p = frames p0" by (simp add: p_def)
  have len: "length (frames p) = MAX_BUFFER_POOL_SIZE" using p by (simp add: pager_ok_core)
  have cap: "n < page_capacity p"
    using reserve_capacity_ge [OF n1 pager_arraysD(5) [OF p0]] by (simp add: p_def)
  have tp: "table_entry p n = page_table p ! n" using cap pager_arraysD(1) [OF p] by (simp add: table_entry_def)
  have t0: "table_entry p0 n = table_entry p n" by (simp add: p_def)
  show thesis
  proof (cases "page_table p ! n = -1")
    case False
    with p tp obtain i where i: "i < MAX_BUFFER_POOL_SIZE" "table_entry p n = int i" by (metis cached_frame)
    with g' False tp have j: "j = i" "p' = lru_touch (p\<lparr>cache_hits := inc32 (cache_hits p)\<rparr>) (int j)" by auto
    have "same_frame p0 p' k" if "k < MAX_BUFFER_POOL_SIZE" for k
      using that len fr by (simp add: same_frame_def j(2))
    with Hit t0 i j(1) show thesis by simp
  next
    case True
    let ?p = "p\<lparr>cache_misses := inc32 (cache_misses p)\<rparr>"
    from True g' obtain idx p2 img where c: "choose_frame ?p = Inr (idx, p2)"
      and r: "j = nat idx" "p' = install_page p2 idx n img" by auto
    have okp: "pager_ok ?p" using p by simp
    obtain j' where j': "idx = int j'" "pager_ok p2" using choose_frame_spec [OF okp c] by metis
    with r have jj: "idx = int j" by simp
    note cf = choose_frame_frames [OF okp c [unfolded jj]]
    have len2: "length (frames p2) = MAX_BUFFER_POOL_SIZE" using j'(2) by (simp add: pager_ok_core)
    obtain q where q: "lru_list p2 q" using j'(2) by (auto simp: pager_ok_def pager_lru_def)
    have jb: "j < MAX_BUFFER_POOL_SIZE" using cf by blast
    note iq = install_page_queue [OF len2 jb q, where n = n and img = img]
    have "same_frame p0 p' i" if "i < MAX_BUFFER_POOL_SIZE" "i \<noteq> j" for i
      using cf iq(3) [OF that] that by (simp add: same_frame_def r(2) jj fr)
    moreover have "\<not> held p0 j" using cf by (simp add: held_def fr)
    moreover have "f_pin_count (frames p' ! j) = 0" using iq(2) by (simp add: r(2) jj)
    ultimately show thesis using Miss True tp t0 by simp
  qed
qed

lemma get_page_pin_safe:
  assumes "pager_ok p" "n \<le> UINT32_MAX" "get_page p n = Inr (j, p')"
  shows "pin_safe p p'"
  using assms
proof (rule get_page_frame_cases)
  assume "\<And>i. i < MAX_BUFFER_POOL_SIZE \<Longrightarrow> same_frame p p' i"
  then show ?thesis by (rule same_frame_pin_safe)
next
  assume "\<And>i. i < MAX_BUFFER_POOL_SIZE \<Longrightarrow> i \<noteq> j \<Longrightarrow> same_frame p p' i" "\<not> held p j" "f_pin_count (frames p' ! j) = 0"
  then show ?thesis by (rule pin_safe_except)
qed

lemma held_image:
  assumes "pager_ok p" and "held p i"
  shows "view p (f_page_num (frames p ! i)) = f_data (frames p ! i)"
  using frame_cached(1) [OF assms(1), of i] assms(2) by (simp add: held_def view_def)

text \<open>A pinned page cannot be evicted: over any fetch by anybody its frame keeps the page, the pin
  count, and the current image of that page.\<close>

theorem pinned_frame_survives_fetches:
  assumes "pager_ok p" "coherent p" "held p i" "n \<le> UINT32_MAX" "get_page p n = Inr (j, p')"
  shows "held p' i \<and> f_page_num (frames p' ! i) = f_page_num (frames p ! i) \<and>
    f_data (frames p' ! i) = f_data (frames p ! i) \<and> f_pin_count (frames p' ! i) = f_pin_count (frames p ! i)"
proof -
  note sp = get_page_spec [OF assms(1,4,5)]
  have h: "held p' i" and e: "f_page_num (frames p' ! i) = f_page_num (frames p ! i)"
    "f_pin_count (frames p' ! i) = f_pin_count (frames p ! i)"
    using get_page_pin_safe [OF assms(1,4,5)] assms(3) by (auto simp: pin_safe_def held_def)
  have "f_data (frames p' ! i) = view p' (f_page_num (frames p' ! i))" using held_image [OF sp(1) h] by simp
  also have "\<dots> = f_data (frames p ! i)" using held_image [OF assms(1,3)] sp(10) assms(2) e by simp
  finally show ?thesis using h e by simp
qed

section \<open>Acquiring a page: the two ways agree\<close>

lemma try_pin_checksum: "length img = PAGE_SIZE \<Longrightarrow> try_pin_checksum_valid img = page_checksum_ok img"
  by (simp add: try_pin_checksum_valid_def page_checksum_ok_def page_checksum_def try_pin_fnv1a32_def fnv1a_32_def
      fnv1a_extend_def fnv1a_step_def [abs_def] PAGE_CHECKSUM_SIZE_def)

lemma try_pin_lru_remove_eq: "i < MAX_BUFFER_POOL_SIZE \<Longrightarrow> try_pin_lru_remove p (int i) = lru_remove p (int i)"
  by (simp add: try_pin_lru_remove_def lru_remove_def)

lemma try_pin_lru_touch_eq: "i < MAX_BUFFER_POOL_SIZE \<Longrightarrow> try_pin_lru_touch p (int i) = lru_touch p (int i)"
  by (simp add: try_pin_lru_touch_def lru_touch_def try_pin_lru_remove_eq)

lemma try_pin_load_eq:
  assumes p: "pager_ok p" and n: "n < page_capacity p"
  shows "try_pin_load p n = (case load_image p n of Inr img \<Rightarrow> Inr img | Inl e \<Rightarrow> Inl Try_Pin_Corrupt_Page)"
proof -
  have end_iff: "(n + 1) * PAGE_SIZE \<le> file_length p \<longleftrightarrow> n < file_length p div PAGE_SIZE"
    by (simp add: page_in_file add.commute)
  have len: "length (file_page (main_file p) n) = PAGE_SIZE"
    if "n < file_length p div PAGE_SIZE" using file_page_at [OF p that] by simp
  show ?thesis
    unfolding try_pin_load_def load_image_def end_iff
    using len by (auto simp: Let_def try_pin_checksum page_verify_checksum_def)
qed

text \<open>A queue determines the links of every frame, so pools with the same queue that agree on everything
  else are equal.\<close>

lemma pool_determined:
  assumes "lru_list p q" "lru_list p' q" "length (frames p) = length (frames p')"
    and "\<And>i. i < length (frames p) \<Longrightarrow> frame_core (frames p ! i) = frame_core (frames p' ! i)"
  shows "frames p = frames p'" "lru_head p = lru_head p'" "lru_tail p = lru_tail p'"
proof -
  show "lru_head p = lru_head p'" "lru_tail p = lru_tail p'" using assms(1,2) by (simp_all add: lru_list_def)
  show "frames p = frames p'"
  proof (rule nth_equalityI [OF assms(3)])
    fix i assume i: "i < length (frames p)"
    then have "f_lru_prev (frames p ! i) = f_lru_prev (frames p' ! i)" "f_lru_next (frames p ! i) = f_lru_next (frames p' ! i)"
      using assms(1,2,3) by (simp_all add: lru_list_def)
    with assms(4) [OF i] show "frames p ! i = frames p' ! i" by (simp add: frame_core_def)
  qed
qed

definition pager_rest :: "pager \<Rightarrow> _" where
  "pager_rest p = ((disk p, file_length p, num_pages p, page_capacity p, in_transaction p, transaction_file_length p),
     (transaction_num_pages p, free_pages p, transaction_free_pages p, dirty_page_spills p, committed_pages p,
      page_table p), (pin_barrier_active p, pin_admissions p, cache_hits p, cache_misses p, evictions p),
     is_dirty p, savepoints p)"

lemma pager_eqI:
  assumes "lru_list p q" "lru_list p' q" "length (frames p) = length (frames p')"
    and "\<And>i. i < length (frames p) \<Longrightarrow> frame_core (frames p ! i) = frame_core (frames p' ! i)"
    and "pager_rest p = pager_rest p'"
  shows "p = p'"
  using pool_determined [OF assms(1-4)] assms(5) by (simp add: pager_rest_def)

lemma victim_scan_pool: "frames p = frames p' \<Longrightarrow> victim_scan k p i = victim_scan k p' i"
  by (induction k arbitrary: i) simp_all

lemma get_page_existing:
  assumes p: "pager_ok p" and n: "n < num_pages p"
  shows "get_page p n = (if page_table p ! n \<noteq> -1 then
       Inr (nat (page_table p ! n), lru_touch (p\<lparr>cache_hits := inc32 (cache_hits p)\<rparr>) (page_table p ! n))
     else and_then (choose_frame (p\<lparr>cache_misses := inc32 (cache_misses p)\<rparr>))
       (\<lambda>(idx, p2). and_then (load_image p2 n) (\<lambda>img. Inr (nat idx, install_page p2 idx n img))))"
proof -
  have "pager_reserve_capacity p (n + 1) = p"
    using n pager_arraysD(6) [OF p] by (simp add: pager_reserve_capacity_def)
  then show ?thesis using page_below_invalid [OF p n] unfolding get_page_def Let_def by simp
qed

lemma pin_frame_pool:
  assumes "lru_list p q" "i < length (frames p)"
  shows "lru_list (pin_frame i p) q" "length (frames (pin_frame i p)) = length (frames p)"
  using assms lru_list_frames_cong [of p q "pin_frame i p"] by (simp_all add: pin_frame_def nth_list_update)

lemma pin_frame_core:
  "i < length (frames p) \<Longrightarrow> j < length (frames p) \<Longrightarrow> frame_core (frames (pin_frame i p) ! j) =
    (f_page_num (frames p ! j), f_data (frames p ! j), f_is_dirty (frames p ! j),
     if j = i then f_pin_count (frames p ! j) + 1 else f_pin_count (frames p ! j))"
  by (simp add: pin_frame_def frame_core_def)

lemma pin_frame_rest: "pager_rest (pin_frame i p) = pager_rest p"
  by (simp add: pin_frame_def pager_rest_def)

lemma lru_touch_rest: "pager_rest (lru_touch p i) = pager_rest p"
  by (simp add: pager_rest_def)

text \<open>A hit.\<close>

lemma pin_touch_swap:
  assumes q: "lru_list p q" and i: "i < MAX_BUFFER_POOL_SIZE" "length (frames p) = MAX_BUFFER_POOL_SIZE"
  shows "try_pin_lru_touch (pin_frame i p) (int i) = pin_frame i (lru_touch p (int i))"
proof -
  have il: "i < length (frames p)" using i by simp
  note pf = pin_frame_pool [OF q il]
  have t1: "lru_list (lru_touch (pin_frame i p) (int i)) (i # remove1 i q)"
    by (rule lru_list_touch [OF pf(1)]) (use pf(2) il in simp)
  have t2: "lru_list (pin_frame i (lru_touch p (int i))) (i # remove1 i q)"
    by (rule pin_frame_pool(1) [OF lru_list_touch [OF q il]]) (use il in simp)
  have l2: "length (frames (lru_touch p (int i))) = length (frames p)" by simp
  have "lru_touch (pin_frame i p) (int i) = pin_frame i (lru_touch p (int i))"
  proof (rule pager_eqI [OF t1 t2])
    show "length (frames (lru_touch (pin_frame i p) (int i))) = length (frames (pin_frame i (lru_touch p (int i))))"
      using pf(2) by (simp add: pin_frame_def)
    fix j assume "j < length (frames (lru_touch (pin_frame i p) (int i)))"
    then have j: "j < length (frames p)" using pf(2) by simp
    have "frame_core (frames (lru_touch (pin_frame i p) (int i)) ! j) = frame_core (frames (pin_frame i p) ! j)"
      using j pf(2) by simp
    also have "\<dots> = frame_core (frames (pin_frame i (lru_touch p (int i))) ! j)"
      using il j pin_frame_core [of i p j] pin_frame_core [of i "lru_touch p (int i)" j] by simp
    finally show "frame_core (frames (lru_touch (pin_frame i p) (int i)) ! j) =
      frame_core (frames (pin_frame i (lru_touch p (int i))) ! j)" .
  qed (simp add: pin_frame_rest lru_touch_rest)
  then show ?thesis by (simp add: try_pin_lru_touch_eq i(1))
qed

text \<open>A miss.\<close>

lemma replace_free:
  assumes p: "pager_ok p" and v: "v < MAX_BUFFER_POOL_SIZE" "f_page_num (frames p ! v) = INVALID_PAGE_NUM"
    and n: "n < num_pages p"
  shows "try_pin_replace p n (int v) img = pin_frame v (install_page p (int v) n img)"
proof -
  have len: "length (frames p) = MAX_BUFFER_POOL_SIZE" using p by (simp add: pager_ok_core)
  obtain q where q: "lru_list p q" "set q = occupied p" using p by (auto simp: pager_ok_def pager_lru_def)
  note iq = install_page_queue [OF len v(1) q(1), where n = n and img = img]
  let ?g = "install_page p (int v) n img"
  have lg: "length (frames ?g) = MAX_BUFFER_POOL_SIZE" using len by (simp add: install_page_def Let_def)
  have vl: "v < length (frames ?g)" using v(1) lg by simp
  let ?p2 = "lru_remove p (int v)"
  let ?h = "\<lambda>f. f\<lparr>f_data := img, f_page_num := n, f_is_dirty := is_dirty p ! n, f_pin_count := 1\<rparr>"
  let ?p3 = "(upd_frame v ?h ?p2)\<lparr>page_table := (page_table p)[n := int v]\<rparr>"
  have r: "try_pin_replace p n (int v) img = lru_touch ?p3 (int v)"
    using v by (simp add: try_pin_replace_def Let_def try_pin_lru_remove_eq try_pin_lru_touch_eq)
  have q2: "lru_list ?p2 (remove1 v q)" by (rule lru_list_remove [OF q(1)]) (use v len in simp)
  have q3: "lru_list ?p3 (remove1 v q)"
    by (rule lru_list_frames_cong [OF q2]) (use len v in \<open>auto simp: nth_list_update\<close>)
  have "v # remove1 v (remove1 v q) = v # remove1 v q"
    using q(1) by (simp add: lru_list_def remove1_idem)
  then have q4: "lru_list (lru_touch ?p3 (int v)) (v # remove1 v q)"
    using lru_list_touch [OF q3, of v] v len by simp
  have qg: "lru_list (pin_frame v ?g) (v # remove1 v q)" by (rule pin_frame_pool(1) [OF iq(1) vl])
  show ?thesis unfolding r
  proof (rule pager_eqI [OF q4 qg])
    show "length (frames (lru_touch ?p3 (int v))) = length (frames (pin_frame v ?g))"
      using len lg by (simp add: pin_frame_def)
    fix j assume "j < length (frames (lru_touch ?p3 (int v)))"
    then have j: "j < length (frames p)" by simp
    have "frame_core (frames (lru_touch ?p3 (int v)) ! j) =
        (if j = v then (n, img, is_dirty p ! n, 1) else frame_core (frames p ! j))"
      using j len v by (simp add: frame_core_def nth_list_update)
    also have "\<dots> = frame_core (frames (pin_frame v ?g) ! j)"
      using j len v by (simp add: pin_frame_def install_page_def Let_def frame_core_def nth_list_update)
    finally show "frame_core (frames (lru_touch ?p3 (int v)) ! j) = frame_core (frames (pin_frame v ?g) ! j)" .
  next
    show "pager_rest (lru_touch ?p3 (int v)) = pager_rest (pin_frame v ?g)"
      using n by (simp add: pin_frame_rest lru_touch_rest install_page_def Let_def) (simp add: pager_rest_def)
  qed
qed

lemma lru_evict_rest:
  assumes e: "lru_evict p = Inr (int v, p2)" and v: "f_page_num (frames p ! v) = m" "m \<noteq> INVALID_PAGE_NUM"
  shows "pager_rest p2 = pager_rest (p\<lparr>dirty_page_spills := (if f_is_dirty (frames p ! v)
        then (dirty_page_spills p)[m := Some (f_data (frames p ! v))] else dirty_page_spills p),
      page_table := (page_table p)[m := -1], evictions := inc32 (evictions p)\<rparr>)"
proof -
  have vs: "victim_scan (Suc MAX_BUFFER_POOL_SIZE) p (lru_tail p) = int v"
    using e by (auto simp: lru_evict_def Let_def split: if_splits)
  show ?thesis
  proof (cases "f_is_dirty (frames p ! v)")
    case True
    then have "p2 = snd (projr (lru_evict p))" "f_is_dirty (frames p ! v)" using e by simp_all
    then show ?thesis using v unfolding lru_evict_def Let_def vs
      by (simp add: store_page_copy_def) (simp add: pager_rest_def)
  next
    case False
    then have "p2 = snd (projr (lru_evict p))" "\<not> f_is_dirty (frames p ! v)" using e by simp_all
    then show ?thesis using v unfolding lru_evict_def Let_def vs
      by simp (simp add: pager_rest_def)
  qed
qed

lemma replace_evict:
  assumes p: "pager_ok p" and e: "lru_evict p = Inr (int v, p2)" and n: "n < num_pages p"
  shows "try_pin_replace p n (int v) img = pin_frame v (install_page p2 (int v) n img)"
proof -
  obtain q where q: "lru_list p q" "set q = occupied p" using p by (auto simp: pager_ok_def pager_lru_def)
  obtain v' m where v': "int v = int v'" "v' < MAX_BUFFER_POOL_SIZE" "f_page_num (frames p ! v') = m" "m \<noteq> INVALID_PAGE_NUM"
    and d: "dropped p v' m p2" and eq: "is_dirty p2 = is_dirty p" and q2: "lru_list p2 (remove1 v' q)"
    using lru_evict_queue_cases [OF p e q] by metis
  from v' have v: "v < MAX_BUFFER_POOL_SIZE" "f_page_num (frames p ! v) = m" "m \<noteq> INVALID_PAGE_NUM" "v' = v" by simp_all
  have len: "length (frames p) = MAX_BUFFER_POOL_SIZE" using p by (simp add: pager_ok_core)
  have len2: "length (frames p2) = MAX_BUFFER_POOL_SIZE" using droppedD(1) [OF d] len by simp
  note fc = frame_cached [OF p v(1)]
  have m: "m < page_capacity p" "page_table p ! m = int v"
    using fc(1,2) v pager_arraysD(1) [OF p] by (simp_all add: table_entry_def)
  have fr2: "frame_core (frames p2 ! j) = frame_core (frames p ! j)" if "j < MAX_BUFFER_POOL_SIZE" "j \<noteq> v" for j
    using dropped_same_frame [OF d that(1)] that(2) v(4) by (simp add: same_frame_def)
  have rest2: "pager_rest p2 = pager_rest (p\<lparr>dirty_page_spills := (if f_is_dirty (frames p ! v)
        then (dirty_page_spills p)[m := Some (f_data (frames p ! v))] else dirty_page_spills p),
      page_table := (page_table p)[m := -1], evictions := inc32 (evictions p)\<rparr>)"
    using lru_evict_rest [OF e] v by simp
  have q2': "lru_list p2 (remove1 v q)" using q2 v(4) by simp
  note iq = install_page_queue [OF len2 v(1) q2', where n = n and img = img]
  let ?g = "install_page p2 (int v) n img"
  have lg: "length (frames ?g) = MAX_BUFFER_POOL_SIZE" using len2 by (simp add: install_page_def Let_def)
  have vl: "v < length (frames ?g)" using v(1) lg by simp
  have rr: "v # remove1 v (remove1 v q) = v # remove1 v q" using q(1) by (simp add: lru_list_def remove1_idem)
  have qg: "lru_list (pin_frame v ?g) (v # remove1 v q)"
    using pin_frame_pool(1) [OF iq(1) vl] by (simp add: rr)
  define p1 where "p1 = p\<lparr>dirty_page_spills := (if f_is_dirty (frames p ! v)
        then (dirty_page_spills p)[m := Some (f_data (frames p ! v))] else dirty_page_spills p),
      page_table := (page_table p)[m := -1], evictions := inc32 (evictions p)\<rparr>"
  have fp1: "frames p1 = frames p" "lru_head p1 = lru_head p" "lru_tail p1 = lru_tail p" "is_dirty p1 = is_dirty p"
    by (simp_all add: p1_def)
  define p3 where "p3 = (upd_frame v (\<lambda>f. f\<lparr>f_data := img, f_page_num := n, f_is_dirty := is_dirty p ! n, f_pin_count := 1\<rparr>)
      (lru_remove p1 (int v)))\<lparr>page_table := (page_table p1)[n := int v]\<rparr>"
  have r: "try_pin_replace p n (int v) img = lru_touch p3 (int v)"
    using v m by (simp add: try_pin_replace_def Let_def try_pin_lru_remove_eq try_pin_lru_touch_eq p3_def p1_def)
  have "lru_list p1 q" by (rule lru_list_frames_cong [OF q(1)]) (simp_all add: fp1)
  then have "lru_list (lru_remove p1 (int v)) (remove1 v q)" by (rule lru_list_remove) (use v len fp1 in simp)
  then have "lru_list p3 (remove1 v q)"
    by (rule lru_list_frames_cong) (use len v fp1 in \<open>auto simp: nth_list_update p3_def\<close>)
  from lru_list_touch [OF this, of v] have q4: "lru_list (lru_touch p3 (int v)) (v # remove1 v q)"
    using v len fp1 rr by (simp add: p3_def)
  show ?thesis unfolding r
  proof (rule pager_eqI [OF q4 qg])
    show "length (frames (lru_touch p3 (int v))) = length (frames (pin_frame v ?g))"
      using len lg fp1 by (simp add: pin_frame_def p3_def)
    fix j assume "j < length (frames (lru_touch p3 (int v)))"
    then have j: "j < MAX_BUFFER_POOL_SIZE" using len fp1 by (simp add: p3_def)
    have "frame_core (frames (lru_touch p3 (int v)) ! j) =
        (if j = v then (n, img, is_dirty p ! n, 1) else frame_core (frames p ! j))"
      using j len v fp1 by (simp add: frame_core_def nth_list_update p3_def)
    also have "\<dots> = frame_core (frames (pin_frame v ?g) ! j)"
      using j len2 v fr2 [OF j] eq by (simp add: pin_frame_def install_page_def Let_def frame_core_def nth_list_update)
    finally show "frame_core (frames (lru_touch p3 (int v)) ! j) = frame_core (frames (pin_frame v ?g) ! j)" .
  next
    have "pager_rest (lru_touch p3 (int v)) = pager_rest p3" by (rule lru_touch_rest)
    also have "\<dots> = pager_rest (p2\<lparr>page_table := (page_table p2)[n := int v]\<rparr>)"
      using rest2 by (simp add: p3_def p1_def pager_rest_def)
    also have "\<dots> = pager_rest (pin_frame v ?g)"
      using n droppedD(8-12) [OF d]
      by (simp add: pin_frame_rest install_page_def Let_def lru_touch_rest) (simp add: pager_rest_def)
    finally show "pager_rest (lru_touch p3 (int v)) = pager_rest (pin_frame v ?g)" .
  qed
qed

lemma load_image_evict:
  assumes p: "pager_ok p" and e: "lru_evict p = Inr (idx, p2)" and t: "table_entry p n = -1"
  shows "load_image p2 n = load_image p n"
proof -
  obtain v m where v: "v < MAX_BUFFER_POOL_SIZE" "f_page_num (frames p ! v) = m" "m \<noteq> INVALID_PAGE_NUM"
    and eq: "is_dirty p2 = is_dirty p" "committed_pages p2 = committed_pages p" "fetch_stable p p2"
    "dirty_page_spills p2 = (if f_is_dirty (frames p ! v)
       then (dirty_page_spills p)[m := Some (f_data (frames p ! v))] else dirty_page_spills p)"
    using lru_evict_cases [OF p e] by metis
  have "m \<noteq> n" using frame_cached(1) [OF p v(1)] v t by auto
  then have s: "dirty_page_spills p2 ! n = dirty_page_spills p ! n" using eq(4) by simp
  have f: "disk p2 = disk p" "file_length p2 = file_length p" using eq(3) by (simp_all add: fetch_stable_def)
  show ?thesis unfolding load_image_def s eq(1,2) f by (rule refl)
qed

lemma try_pin_eq:
  assumes p: "pager_ok p" and n: "n < num_pages p" and b: "\<not> pin_barrier_active p"
    and m: "page_table p ! n \<noteq> -1 \<Longrightarrow> f_pin_count (frames p ! nat (page_table p ! n)) \<noteq> UINT32_MAX"
  shows "pager_try_pin_existing_page_handle p n =
    (case get_page p n of
       Inr (i, q) \<Rightarrow> (Try_Pin_Ok, fill_handle n (int i), pin_frame i q)
     | Inl e \<Rightarrow> (if e = Exit_Pool_Exhausted then Try_Pin_Busy else Try_Pin_Corrupt_Page, empty_handle,
                p\<lparr>cache_misses := inc32 (cache_misses p)\<rparr>))"
proof -
  have inv: "n \<noteq> INVALID_PAGE_NUM" using page_below_invalid [OF p n] by simp
  have cap: "n < page_capacity p" using n pager_arraysD(6) [OF p] by simp
  have te: "table_entry p n = page_table p ! n" using cap pager_arraysD(1) [OF p] by (simp add: table_entry_def)
  have len: "length (frames p) = MAX_BUFFER_POOL_SIZE" using p by (simp add: pager_ok_core)
  show ?thesis
  proof (cases "page_table p ! n = -1")
    case False
    with p te obtain i where i: "i < MAX_BUFFER_POOL_SIZE" "page_table p ! n = int i" "f_page_num (frames p ! i) = n"
      by (metis cached_frame)
    let ?p = "p\<lparr>cache_hits := inc32 (cache_hits p)\<rparr>"
    obtain q where q: "lru_list ?p q" using p by (auto simp: pager_ok_def pager_lru_def)
    have "try_pin_lru_touch (pin_frame i ?p) (int i) = pin_frame i (lru_touch ?p (int i))"
      by (rule pin_touch_swap [OF q i(1)]) (simp add: len)
    moreover have "f_pin_count (frames p ! i) \<noteq> UINT32_MAX" using m i by simp
    ultimately show ?thesis using i inv b n cap
      by (simp add: get_page_existing [OF p n] pager_try_pin_existing_page_handle_def Let_def)
  next
    case True
    let ?p = "p\<lparr>cache_misses := inc32 (cache_misses p)\<rparr>"
    have okp: "pager_ok ?p" using p by simp
    have np: "n < num_pages ?p" "n < page_capacity ?p" using n cap by simp_all
    have tp: "table_entry ?p n = -1" using te True by (simp add: table_entry_def)
    have ch: "try_pin_choose_frame ?p = (case free_frame ?p of Some i \<Rightarrow> int i
        | None \<Rightarrow> victim_scan (Suc MAX_BUFFER_POOL_SIZE) ?p (lru_tail ?p))"
      by (simp add: try_pin_choose_frame_def free_frame_def)
    have tr: "pager_try_pin_existing_page_handle p n = (let frame_idx = try_pin_choose_frame ?p
        in if frame_idx = -1 then (Try_Pin_Busy, empty_handle, ?p)
           else case try_pin_load ?p n of Inl status \<Rightarrow> (status, empty_handle, ?p)
             | Inr incoming \<Rightarrow> (Try_Pin_Ok, fill_handle n frame_idx, try_pin_replace ?p n frame_idx incoming))"
      using True inv b n cap by (simp add: pager_try_pin_existing_page_handle_def Let_def)
    have gp: "get_page p n = and_then (choose_frame ?p)
       (\<lambda>(idx, p2). and_then (load_image p2 n) (\<lambda>img. Inr (nat idx, install_page p2 idx n img)))"
      using True by (simp add: get_page_existing [OF p n])
    note ld = try_pin_load_eq [OF okp np(2)]
    have le: "e \<noteq> Exit_Pool_Exhausted" if "load_image ?p n = Inl e" for e
      using load_image_source(2) [OF okp np(2) that] by simp
    show ?thesis
    proof (cases "free_frame ?p")
      case (Some i)
      note fi = free_frame_Some [OF Some]
      from replace_free [OF okp _ _ np(1)] fi
      have "try_pin_replace ?p n (int i) img = pin_frame i (install_page ?p (int i) n img)" for img by blast
      then show ?thesis
        using Some le unfolding tr gp ch Let_def
        by (cases "load_image ?p n") (simp_all add: choose_frame_def ld)
    next
      case None
      show ?thesis
      proof (cases "lru_evict ?p")
        case (Inl e)
        have "victim_scan (Suc MAX_BUFFER_POOL_SIZE) ?p (lru_tail ?p) = -1 \<and> e = Exit_Pool_Exhausted"
          using Inl by (auto simp: lru_evict_def Let_def split: if_splits)
        with None Inl show ?thesis by (simp add: tr gp ch choose_frame_def)
      next
        case (Inr r)
        obtain idx p2 where r: "r = (idx, p2)" by (cases r)
        have e: "lru_evict ?p = Inr (idx, p2)" using Inr r by simp
        have vs: "victim_scan (Suc MAX_BUFFER_POOL_SIZE) ?p (lru_tail ?p) = idx" "idx \<noteq> -1"
          using e by (auto simp: lru_evict_def Let_def split: if_splits)
        obtain v where v: "idx = int v" using lru_evict_cases [OF okp e] by metis
        note rp = replace_evict [OF okp e [unfolded v] np(1)]
        note li = load_image_evict [OF okp e tp]
        show ?thesis
          using None e vs le v rp
          unfolding tr gp ch Let_def
          by (cases "load_image ?p n") (simp_all add: choose_frame_def ld li)
      qed
    qed
  qed
qed

text \<open>The non-fatal acquisition does exactly what a fetch followed by a pin does: the same frame,
  the same pool, page table, spills and queue, with one more pin; where the fetch would end the process
  it reports a busy pool or a corrupt page and changes nothing but the miss counter.\<close>

theorem try_pin_is_fetch_and_pin:
  assumes p: "pager_ok p" and n: "n < num_pages p" and b: "\<not> pin_barrier_active p"
    and m: "\<forall>i<MAX_BUFFER_POOL_SIZE. f_pin_count (frames p ! i) < UINT32_MAX"
  shows "pager_try_pin_existing_page_handle p n =
    (case get_page p n of
       Inr (i, q) \<Rightarrow> (Try_Pin_Ok, fill_handle n (int i), pin_frame i q)
     | Inl e \<Rightarrow> (if e = Exit_Pool_Exhausted then Try_Pin_Busy else Try_Pin_Corrupt_Page, empty_handle,
                p\<lparr>cache_misses := inc32 (cache_misses p)\<rparr>))"
proof (rule try_pin_eq [OF p n b])
  have cap: "n < page_capacity p" using n pager_arraysD(6) [OF p] by simp
  assume "page_table p ! n \<noteq> -1"
  with cap pager_arraysD(1) [OF p] have "table_entry p n \<noteq> -1" by (simp add: table_entry_def)
  with p obtain i where "i < MAX_BUFFER_POOL_SIZE" "table_entry p n = int i" by (metis cached_frame)
  with m cap pager_arraysD(1) [OF p] show "f_pin_count (frames p ! nat (page_table p ! n)) \<noteq> UINT32_MAX"
    by (auto simp: table_entry_def)
qed

end
