(* ===== verification/PagerHandles.thy ===== *)
theory PagerHandles
  imports PagerPins
begin

text \<open>
  The life of page handles: an interleaving of fetches, pins, non-fatal pins, lock changes, releases,
  guarded frees and barriers, each step one critical section of \<open>src/pager.h\<close>, and the invariant
  that the pin count of a frame is the number of live handles on it.
\<close>

section \<open>Steps\<close>

type_synonym pin_state = "pager \<times> page_handle list"

inductive pin_step :: "pin_state \<Rightarrow> pin_state \<Rightarrow> bool" where
  Fetch: "n \<le> UINT32_MAX \<Longrightarrow> get_page p n = Inr (i, p') \<Longrightarrow> pin_step (p, hs) (p', hs)"
| Admit: "pager_begin_pin_admission p = (ok, p') \<Longrightarrow> pin_step (p, hs) (p', hs)"
| Pin: "n \<noteq> INVALID_PAGE_NUM \<Longrightarrow> pin_fetched p n data = (Some h, b, p') \<Longrightarrow> pin_step (p, hs) (p', h # hs)"
| Pin_Fails: "n \<noteq> INVALID_PAGE_NUM \<Longrightarrow> pin_fetched p n data = (None, b, p') \<Longrightarrow> pin_step (p, hs) (p', hs)"
| Try_Pin: "pager_try_pin_existing_page_handle p n = (Try_Pin_Ok, h, p') \<Longrightarrow> pin_step (p, hs) (p', h # hs)"
| Try_Pin_Fails: "pager_try_pin_existing_page_handle p n = (status, h, p') \<Longrightarrow> status \<noteq> Try_Pin_Ok \<Longrightarrow>
    pin_step (p, hs) (p', hs)"
| Lock_Page: "f \<in> {pager_page_handle_acquire_read, pager_page_handle_release_read,
      pager_page_handle_acquire_write, pager_page_handle_release_write} \<Longrightarrow>
    f h = (ok, h') \<Longrightarrow> pin_step (p, hs @ h # hs') (p, hs @ h' # hs')"
| Release: "pager_release_page_handle p h = (True, h', p') \<Longrightarrow> pin_step (p, hs @ h # hs') (p', hs @ hs')"
| Free: "pager_free_page_pin_guard p n = Inr p' \<Longrightarrow> pin_step (p, hs) (p', hs)"
| Raise: "raise_barrier p = (ok, p') \<Longrightarrow> pin_step (p, hs) (p', hs)"
| Lower: "pin_step (p, hs) (lower_barrier p, hs)"

abbreviation pin_steps :: "pin_state \<Rightarrow> pin_state \<Rightarrow> bool" where
  "pin_steps \<equiv> pin_step\<^sup>*\<^sup>*"

inductive_cases pin_stepE: "pin_step s s'"

definition handle_count :: "page_handle list \<Rightarrow> nat \<Rightarrow> nat" where
  "handle_count hs i = length (filter (\<lambda>h. h_frame_idx h = int i) hs)"

definition live_handle :: "pager \<Rightarrow> page_handle \<Rightarrow> bool" where
  "live_handle p h \<longleftrightarrow>
     (\<exists>i<MAX_BUFFER_POOL_SIZE. h_frame_idx h = int i \<and> h_data h = Some i \<and> h_open h \<and> h_pinned h \<and>
        h_page_num h \<noteq> INVALID_PAGE_NUM \<and> f_page_num (frames p ! i) = h_page_num h)"

definition pins_ok :: "pin_state \<Rightarrow> bool" where
  "pins_ok s \<longleftrightarrow>
     pager_ok (fst s) \<and> (\<forall>h\<in>set (snd s). live_handle (fst s) h) \<and>
     (\<forall>i<MAX_BUFFER_POOL_SIZE. f_pin_count (frames (fst s) ! i) = handle_count (snd s) i)"

lemma handle_count_simps [simp]:
  "handle_count [] i = 0"
  "handle_count (h # hs) i = (if h_frame_idx h = int i then 1 else 0) + handle_count hs i"
  "handle_count (hs @ hs') i = handle_count hs i + handle_count hs' i"
  by (simp_all add: handle_count_def)

lemma live_handle_counted: "h \<in> set hs \<Longrightarrow> h_frame_idx h = int i \<Longrightarrow> handle_count hs i > 0"
  by (induction hs) auto

lemma pins_okD:
  assumes "pins_ok (p, hs)"
  shows "pager_ok p" "\<And>h. h \<in> set hs \<Longrightarrow> live_handle p h"
    "\<And>i. i < MAX_BUFFER_POOL_SIZE \<Longrightarrow> f_pin_count (frames p ! i) = handle_count hs i"
  using assms by (simp_all add: pins_ok_def)

lemma live_handle_held:
  assumes "pins_ok (p, hs)" "h \<in> set hs"
  obtains i where "h_frame_idx h = int i" "held p i" "f_page_num (frames p ! i) = h_page_num h" "h_data h = Some i"
    "h_open h" "h_pinned h"
proof -
  from pins_okD(2) [OF assms] obtain i where i: "i < MAX_BUFFER_POOL_SIZE" "h_frame_idx h = int i" "h_data h = Some i"
    "h_open h" "h_pinned h" "h_page_num h \<noteq> INVALID_PAGE_NUM" "f_page_num (frames p ! i) = h_page_num h"
    by (auto simp: live_handle_def)
  with live_handle_counted [OF assms(2) i(2)] pins_okD(3) [OF assms(1) i(1)] that show thesis
    by (simp add: held_def)
qed

text \<open>A step that respects pins keeps the invariant.\<close>

lemma pins_ok_pin_safe:
  assumes s: "pins_ok (p, hs)" and p': "pager_ok p'" and safe: "pin_safe p p'"
  shows "pins_ok (p', hs)"
proof -
  have "live_handle p' h" if "h \<in> set hs" for h
    using s that
  proof (rule live_handle_held)
    fix i assume "h_frame_idx h = int i" "held p i" "f_page_num (frames p ! i) = h_page_num h" "h_data h = Some i"
      "h_open h" "h_pinned h"
    with safe show ?thesis by (auto simp: pin_safe_def held_def live_handle_def)
  qed
  moreover have "f_pin_count (frames p' ! i) = handle_count hs i" if i: "i < MAX_BUFFER_POOL_SIZE" for i
  proof (cases "f_pin_count (frames p ! i) = 0")
    case True
    with safe i pins_okD(3) [OF s i] show ?thesis by (simp add: pin_safe_def)
  next
    case False
    then obtain h where h: "h \<in> set hs" "h_frame_idx h = int i"
      using pins_okD(3) [OF s i] by (auto simp: handle_count_def filter_empty_conv)
    from s h(1) have "held p i" by (rule live_handle_held) (use h(2) in auto)
    with safe pins_okD(3) [OF s i] show ?thesis by (simp add: pin_safe_def)
  qed
  ultimately show ?thesis using p' by (simp add: pins_ok_def)
qed

lemma pins_ok_pin:
  assumes s: "pins_ok (p, hs)" and i: "i < MAX_BUFFER_POOL_SIZE" "f_page_num (frames p ! i) = n" "n \<noteq> INVALID_PAGE_NUM"
  shows "pins_ok (pin_frame i p, fill_handle n (int i) # hs)"
proof -
  have len: "length (frames p) = MAX_BUFFER_POOL_SIZE" using pins_okD(1) [OF s] by (simp add: pager_ok_core)
  have pn: "f_page_num (frames (pin_frame i p) ! j) = f_page_num (frames p ! j)" for j
    by (simp add: pin_frame_def del: frames_upd_frame)
  have pc: "f_pin_count (frames (pin_frame i p) ! j) = f_pin_count (frames p ! j) + (if j = i then 1 else 0)"
    if "j < MAX_BUFFER_POOL_SIZE" for j
    using that i(1) len by (simp add: pin_frame_def nth_list_update)
  have "live_handle (pin_frame i p) h" if "h \<in> set (fill_handle n (int i) # hs)" for h
  proof (cases "h \<in> set hs")
    case True
    with pins_okD(2) [OF s] show ?thesis by (auto simp: live_handle_def pn)
  next
    case False
    with that have "h = fill_handle n (int i)" by simp
    with i show ?thesis by (simp add: live_handle_def fill_handle_def pn)
  qed
  moreover have "f_pin_count (frames (pin_frame i p) ! j) = handle_count (fill_handle n (int i) # hs) j"
    if "j < MAX_BUFFER_POOL_SIZE" for j
    using pc [OF that] pins_okD(3) [OF s that] by (simp add: fill_handle_def)
  moreover have "pager_ok (pin_frame i p)" using pins_okD(1) [OF s] by (simp add: pin_frame_def del: frames_upd_frame)
  ultimately show ?thesis by (simp add: pins_ok_def)
qed

lemma pins_ok_release:
  assumes s: "pins_ok (p, hs @ h # hs')" and i: "i < MAX_BUFFER_POOL_SIZE" "h_frame_idx h = int i"
  shows "pins_ok (unpin_frame i p, hs @ hs')"
proof -
  have len: "length (frames p) = MAX_BUFFER_POOL_SIZE" using pins_okD(1) [OF s] by (simp add: pager_ok_core)
  have pn: "f_page_num (frames (unpin_frame i p) ! j) = f_page_num (frames p ! j)" for j
    by (simp add: unpin_frame_def del: frames_upd_frame)
  have pc: "f_pin_count (frames (unpin_frame i p) ! j) = f_pin_count (frames p ! j) - (if j = i then 1 else 0)"
    if "j < MAX_BUFFER_POOL_SIZE" for j
    using that i(1) len by (simp add: unpin_frame_def nth_list_update)
  have "live_handle (unpin_frame i p) h'" if "h' \<in> set (hs @ hs')" for h'
    using pins_okD(2) [OF s, of h'] that by (auto simp: live_handle_def pn)
  moreover have "f_pin_count (frames (unpin_frame i p) ! j) = handle_count (hs @ hs') j"
    if "j < MAX_BUFFER_POOL_SIZE" for j
    using pc [OF that] pins_okD(3) [OF s that] i(2) by auto
  moreover have "pager_ok (unpin_frame i p)" using pins_okD(1) [OF s] by (simp add: unpin_frame_def del: frames_upd_frame)
  ultimately show ?thesis by (simp add: pins_ok_def)
qed

lemma pins_ok_cong:
  assumes "pins_ok (p, hs)" "frames p' = frames p" "pager_ok p'"
  shows "pins_ok (p', hs)"
  using assms by (simp add: pins_ok_def live_handle_def)

lemma pager_ok_pin_bookkeeping [simp]:
  "pager_ok (p\<lparr>pin_barrier_active := b\<rparr>) = pager_ok p" "pager_ok (p\<lparr>pin_admissions := a\<rparr>) = pager_ok p"
  by (simp_all add: pager_ok_def pager_arrays_def pager_frames_def pager_table_def pager_lru_def
      lru_list_def occupied_def pager_shadows_def)

lemma pins_ok_bookkeeping [simp]:
  "pins_ok (p\<lparr>pin_barrier_active := b\<rparr>, hs) = pins_ok (p, hs)" "pins_ok (p\<lparr>pin_admissions := a\<rparr>, hs) = pins_ok (p, hs)"
  "pins_ok (p\<lparr>cache_misses := m\<rparr>, hs) = pins_ok (p, hs)"
  by (simp_all add: pins_ok_def live_handle_def)

section \<open>Every step keeps the invariant\<close>

lemma pin_fetched_pins_ok:
  assumes s: "pins_ok (p, hs)" and f: "pin_fetched p n data = (r, b, p')" and n: "n \<noteq> INVALID_PAGE_NUM"
  shows "pins_ok (p', (case r of Some h \<Rightarrow> h # hs | None \<Rightarrow> hs))"
proof -
  define q where "q = (if pin_admissions p > 0 then p\<lparr>pin_admissions := pin_admissions p - 1\<rparr> else p)"
  define x where "x = (if n < page_capacity q then page_table q ! n else -1)"
  have sq: "pins_ok (q, hs)" using s by (simp add: q_def)
  show ?thesis
  proof (cases r)
    case None
    then have "p' = q" using f by (auto simp: pin_fetched_def Let_def q_def split: if_splits)
    with None sq show ?thesis by simp
  next
    case (Some h)
    then have "h = fill_handle n x" "p' = pin_frame (nat x) q" "0 \<le> x" "x < int MAX_BUFFER_POOL_SIZE"
      "f_page_num (frames q ! nat x) = n"
      using f unfolding pin_fetched_def Let_def q_def [symmetric] x_def [symmetric] by (auto split: if_splits)
    with pins_ok_pin [OF sq, of "nat x" n] n Some show ?thesis by simp
  qed
qed

lemma try_pin_pins_ok:
  assumes s: "pins_ok (p, hs)" and t: "pager_try_pin_existing_page_handle p n = (status, h, p')"
  shows "pins_ok (p', (if status = Try_Pin_Ok then h # hs else hs))"
proof -
  note p = pins_okD(1) [OF s]
  consider (refused) "status \<noteq> Try_Pin_Ok" "p' = p"
    | (tried) "n < num_pages p" "n \<noteq> INVALID_PAGE_NUM" "\<not> pin_barrier_active p"
      "page_table p ! n \<noteq> -1 \<longrightarrow> f_pin_count (frames p ! nat (page_table p ! n)) \<noteq> UINT32_MAX"
  proof (cases "n = INVALID_PAGE_NUM \<or> pin_barrier_active p \<or> n \<ge> num_pages p")
    case True
    then have "pager_try_pin_existing_page_handle p n \<in>
        {(Try_Pin_Invalid_Page, empty_handle, p), (Try_Pin_Busy, empty_handle, p)}"
      unfolding pager_try_pin_existing_page_handle_def
      by (cases "n = INVALID_PAGE_NUM"; cases "pin_barrier_active p"; simp)
    with t have "status \<noteq> Try_Pin_Ok \<and> p' = p" by auto
    with refused show thesis by simp
  next
    case False
    then have cap: "n < page_capacity p" using pager_arraysD(6) [OF p] by simp
    show thesis
    proof (cases "page_table p ! n \<noteq> -1 \<and> f_pin_count (frames p ! nat (page_table p ! n)) = UINT32_MAX")
      case True
      with cap pager_arraysD(1) [OF p] have "table_entry p n \<noteq> -1" by (simp add: table_entry_def)
      with p obtain i where "i < MAX_BUFFER_POOL_SIZE" "table_entry p n = int i" "f_page_num (frames p ! i) = n"
        by (metis cached_frame)
      with True cap pager_arraysD(1) [OF p] False
      have "pager_try_pin_existing_page_handle p n = (Try_Pin_Busy, empty_handle, p)"
        unfolding pager_try_pin_existing_page_handle_def Let_def by (simp add: table_entry_def)
      with t have "status \<noteq> Try_Pin_Ok \<and> p' = p" by auto
      with refused show thesis by simp
    next
      case no: False
      show thesis by (rule tried) (use False no in auto)
    qed
  qed
  then show ?thesis
  proof cases
    case refused
    with s show ?thesis by simp
  next
    case tried
    note eq = try_pin_eq [OF p tried(1,3)]
    have n: "n \<le> UINT32_MAX" using page_below_invalid [OF p tried(1)] by (simp add: INVALID_PAGE_NUM_def UINT32_MAX_def)
    show ?thesis
    proof (cases "get_page p n")
      case (Inl e)
      with eq tried(4) t have "status \<noteq> Try_Pin_Ok" "p' = p\<lparr>cache_misses := inc32 (cache_misses p)\<rparr>"
        by (auto split: if_splits)
      with s show ?thesis by simp
    next
      case (Inr r)
      obtain i q where r: "r = (i, q)" by (cases r)
      have g: "get_page p n = Inr (i, q)" using Inr r by simp
      note sp = get_page_spec [OF p n g]
      have sq: "pins_ok (q, hs)" by (rule pins_ok_pin_safe [OF s sp(1) get_page_pin_safe [OF p n g]])
      from g eq tried(4) t have "status = Try_Pin_Ok" "h = fill_handle n (int i)" "p' = pin_frame i q" by auto
      with pins_ok_pin [OF sq sp(5,6) sp(4)] show ?thesis by simp
    qed
  qed
qed

lemma drop_frame_pin_safe:
  assumes p: "pager_ok p" and n: "n < page_capacity p" and free: "\<not> pager_frame_for_page_is_pinned p n"
  shows "pin_safe p (drop_frame p n)"
proof (cases "page_table p ! n = -1")
  case True
  then show ?thesis by (simp add: drop_frame_uncached)
next
  case False
  obtain v where v: "v < MAX_BUFFER_POOL_SIZE" "f_page_num (frames p ! v) = n" "n \<noteq> INVALID_PAGE_NUM"
    "page_table p ! n = int v" "dropped p v n (drop_frame p n)"
    using drop_frame_dropped [OF p n False] .
  have len: "length (frames p) = MAX_BUFFER_POOL_SIZE" using p by (simp add: pager_ok_core)
  show ?thesis
  proof (rule pin_safe_except)
    show "same_frame p (drop_frame p n) i" if "i < MAX_BUFFER_POOL_SIZE" "i \<noteq> v" for i
      using dropped_same_frame [OF v(5) that] .
    show "\<not> held p v" using free v n by (auto simp: pager_frame_for_page_is_pinned_def Let_def held_def)
    show "f_pin_count (frames (drop_frame p n) ! v) = 0"
      using v len by (simp add: drop_frame_def Let_def nth_list_update)
  qed
qed

lemma pin_safe_frames: "frames q = frames p' \<Longrightarrow> pin_safe p p' \<Longrightarrow> pin_safe p q"
  by (simp add: pin_safe_def)

lemma free_guard_pins_ok:
  assumes s: "pins_ok (p, hs)" and f: "pager_free_page_pin_guard p n = Inr p'"
  shows "pins_ok (p', hs)"
proof (cases "pager_pin_transition_busy p \<or> pager_frame_for_page_is_pinned p n")
  case True
  with f s show ?thesis by (simp add: pager_free_page_pin_guard_def)
next
  case False
  with f have fp: "pager_free_page p n = Inr p'" by (simp add: pager_free_page_pin_guard_def)
  note p = pins_okD(1) [OF s]
  note sp = pager_free_page_spec [OF p fp]
  have n: "n < page_capacity p" using sp(3) pager_arraysD(6) [OF p] by simp
  then have r: "pager_reserve_capacity p (Suc n) = p" by (simp add: pager_reserve_capacity_def)
  have "frames p' = frames (drop_frame p n)"
    using fp sp(2,3) by (auto simp: pager_free_page_def Let_def r split: if_splits)
  with drop_frame_pin_safe [OF p n] False have "pin_safe p p'" by (blast intro: pin_safe_frames)
  with s sp(1) show ?thesis by (blast intro: pins_ok_pin_safe)
qed

lemma lock_step_live:
  assumes "f \<in> {pager_page_handle_acquire_read, pager_page_handle_release_read,
      pager_page_handle_acquire_write, pager_page_handle_release_write}" and "f h = (ok, h')"
  shows "h_frame_idx h' = h_frame_idx h" "live_handle p h' = live_handle p h"
  using assms by (auto simp: pager_page_handle_acquire_read_def pager_page_handle_release_read_def
      pager_page_handle_acquire_write_def pager_page_handle_release_write_def live_handle_def split: if_splits)

lemma pin_step_pins_ok: "pin_step s s' \<Longrightarrow> pins_ok s \<Longrightarrow> pins_ok s'"
proof (induction rule: pin_step.induct)
  case (Fetch n p i p' hs)
  note p = pins_okD(1) [OF Fetch(3)]
  show ?case
    by (rule pins_ok_pin_safe [OF Fetch(3) get_page_spec(1) [OF p Fetch(1,2)] get_page_pin_safe [OF p Fetch(1,2)]])
next
  case (Admit p ok p' hs)
  then show ?case by (auto simp: pager_begin_pin_admission_def split: if_splits)
next
  case (Pin n p data h b p' hs)
  from pin_fetched_pins_ok [OF Pin(3,2,1)] show ?case by simp
next
  case (Pin_Fails n p data b p' hs)
  from pin_fetched_pins_ok [OF Pin_Fails(3,2,1)] show ?case by simp
next
  case (Try_Pin p n h p' hs)
  from try_pin_pins_ok [OF Try_Pin(2,1)] show ?case by simp
next
  case (Try_Pin_Fails p n status h p' hs)
  from try_pin_pins_ok [OF Try_Pin_Fails(3,1)] Try_Pin_Fails(2) show ?case by simp
next
  case (Lock_Page f h ok h' p hs hs')
  from lock_step_live [OF Lock_Page(1,2)] Lock_Page(3) show ?case by (auto simp: pins_ok_def)
next
  case (Release p h h' p' hs hs')
  then have c: "0 \<le> h_frame_idx h" "h_frame_idx h < int MAX_BUFFER_POOL_SIZE" "p' = unpin_frame (nat (h_frame_idx h)) p"
    by (auto simp: pager_release_page_handle_def split: if_splits)
  then have "pins_ok (unpin_frame (nat (h_frame_idx h)) p, hs @ hs')"
    by (intro pins_ok_release [OF Release(2)]) simp_all
  with c(3) show ?case by simp
next
  case (Free p n p' hs)
  from free_guard_pins_ok [OF Free(2,1)] show ?case .
next
  case (Raise p ok p' hs)
  then show ?case by (auto simp: raise_barrier_def split: if_splits)
next
  case (Lower p hs)
  then show ?case by (simp add: lower_barrier_def)
qed

lemma pin_steps_pins_ok: "pin_steps s s' \<Longrightarrow> pins_ok s \<Longrightarrow> pins_ok s'"
  by (induction rule: rtranclp_induct) (auto intro: pin_step_pins_ok)

lemma no_handles_pins_ok: "pager_ok p \<Longrightarrow> no_pins p \<Longrightarrow> pins_ok (p, [])"
  by (simp add: pins_ok_def no_pins_def)

lemma live_handles:
  assumes "pager_ok p" "no_pins p" and steps: "pin_steps (p, []) (p', hs)"
  shows "h \<in> set hs \<Longrightarrow> f_page_num (frames p' ! nat (h_frame_idx h)) = h_page_num h \<and>
      (h_lock_mode h = Lock_None \<longrightarrow> fst (pager_release_page_handle p' h)) \<and>
      pager_free_page_pin_guard p' (h_page_num h) = Inr p' \<and> \<not> fst (raise_barrier p')"
    and "hs = [] \<Longrightarrow> no_pins p'"
proof -
  have s: "pins_ok (p', hs)"
    using pin_steps_pins_ok [OF steps no_handles_pins_ok [OF assms(1,2)]] .
  show "no_pins p'" if "hs = []"
    using pins_okD(3) [OF s] that by (simp add: no_pins_def)
  assume h: "h \<in> set hs"
  obtain i where i: "h_frame_idx h = int i" "held p' i" "f_page_num (frames p' ! i) = h_page_num h" "h_data h = Some i"
    "h_open h" "h_pinned h" using live_handle_held [OF s h] .
  note fc = frame_cached [OF pins_okD(1) [OF s], of i]
  have "page_table p' ! h_page_num h = int i" "h_page_num h < page_capacity p'"
    using pager_framesD(4) [OF pins_okD(1) [OF s], of i] frame_cached(2) [OF pins_okD(1) [OF s], of i] i(2,3)
    by (auto simp: held_def)
  with i have "pager_frame_for_page_is_pinned p' (h_page_num h)"
    by (simp add: pager_frame_for_page_is_pinned_def held_def)
  moreover have "pager_any_frame_pinned p'"
    using i by (auto simp: pager_any_frame_pinned_def list_ex_iff held_def intro!: bexI [of _ i])
  ultimately show "f_page_num (frames p' ! nat (h_frame_idx h)) = h_page_num h \<and>
      (h_lock_mode h = Lock_None \<longrightarrow> fst (pager_release_page_handle p' h)) \<and>
      pager_free_page_pin_guard p' (h_page_num h) = Inr p' \<and> \<not> fst (raise_barrier p')"
    using i by (simp add: pager_release_page_handle_def held_def pager_free_page_pin_guard_def raise_barrier_def)
qed

lemma pin_counts:
  assumes "pager_ok p" "no_pins p" and steps: "pin_steps (p, []) (p', hs)" and i: "i < MAX_BUFFER_POOL_SIZE"
  shows "f_pin_count (frames p' ! i) = handle_count hs i"
  by (rule pins_okD(3) [OF pin_steps_pins_ok [OF steps no_handles_pins_ok [OF assms(1,2)]] i])

text \<open>C31. However fetches, pins, lock changes, releases, frees and barriers of several threads interleave,
  starting with no pins, the pin count of every frame is the number of handles given out for it and not yet
  released. Each such handle is good: its frame still holds its page, the release
  succeeds once the lock is dropped, the page cannot be freed, and no barrier goes up; and when the
  last handle is gone nothing is pinned.\<close>

theorem live_handles_stay_valid:
  assumes "pager_ok p" "no_pins p" and steps: "pin_steps (p, []) (p', hs)"
  shows "(\<forall>i<MAX_BUFFER_POOL_SIZE. f_pin_count (frames p' ! i) = length (filter (\<lambda>h. h_frame_idx h = int i) hs)) \<and>
    (\<forall>h\<in>set hs. f_page_num (frames p' ! nat (h_frame_idx h)) = h_page_num h \<and>
      (h_lock_mode h = Lock_None \<longrightarrow> fst (pager_release_page_handle p' h)) \<and>
      pager_free_page_pin_guard p' (h_page_num h) = Inr p' \<and> \<not> fst (raise_barrier p')) \<and>
    (hs = [] \<longrightarrow> no_pins p')"
  using live_handles [OF assms] pin_counts [OF assms] unfolding handle_count_def by blast

section \<open>A handle taken, used and given back\<close>

definition pin_demo :: pager where "pin_demo = lower_barrier db_committed"

lemma pin_demo_facts:
  "stable pin_demo" "no_pins pin_demo" "num_pages pin_demo = 1" "file_length pin_demo = 0"
  "\<not> pin_barrier_active pin_demo" "view pin_demo 0 = page_write_checksum (payload 7)"
proof -
  note C = db_committed_facts
  have v: "view (p\<lparr>pin_barrier_active := b\<rparr>) = view p" "coherent (p\<lparr>pin_barrier_active := b\<rparr>) = coherent p"
    "sealed (p\<lparr>pin_barrier_active := b\<rparr>) = sealed p" for p :: pager and b
    by (auto simp: fun_eq_iff view_def coherent_def coherent_to_def backing_def dirty_flag_def table_entry_def source_def
        sealed_def cong: option.case_cong)
  show "stable pin_demo" "view pin_demo 0 = page_write_checksum (payload 7)"
    "no_pins pin_demo" "num_pages pin_demo = 1" "file_length pin_demo = 0" "\<not> pin_barrier_active pin_demo"
    using C stableD [OF C(2)] by (simp_all add: pin_demo_def lower_barrier_def v no_pins_def stable_def)
qed

lemma pin_demo_fetch:
  obtains i q where "get_page pin_demo 0 = Inr (i, q)" "pager_ok q" "coherent q" "no_pins q" "i < MAX_BUFFER_POOL_SIZE"
    "f_page_num (frames q ! i) = 0" "f_data (frames q ! i) = page_write_checksum (payload 7)" "num_pages q = 1"
proof -
  note F = pin_demo_facts
  have b: "(0::nat) < INVALID_PAGE_NUM" by (simp add: INVALID_PAGE_NUM_def)
  define r where "r = projr (get_page pin_demo 0)"
  note G = get_page_without_file [OF F(1,2,4) b r_def]
  have "(0::nat) \<le> UINT32_MAX" by simp
  note sp = get_page_spec [OF stableD(1) [OF F(1)] this G(1)]
  from that [OF G(1) sp(1) sp(9) [OF stableD(2) [OF F(1)]] G(3) sp(5,6)] sp(11) G(5) F(3,6) show thesis by simp
qed

lemma pin_demo_try:
  assumes "get_page pin_demo 0 = Inr (i, q)"
  shows "pager_try_pin_existing_page_handle pin_demo 0 = (Try_Pin_Ok, fill_handle 0 (int i), pin_frame i q)"
proof -
  note F = pin_demo_facts
  have "i < MAX_BUFFER_POOL_SIZE \<Longrightarrow> f_pin_count (frames pin_demo ! i) \<noteq> UINT32_MAX" for i
    using F(2) by (simp add: no_pins_def UINT32_MAX_def)
  moreover have "page_table pin_demo ! 0 \<noteq> -1 \<Longrightarrow> nat (page_table pin_demo ! 0) < MAX_BUFFER_POOL_SIZE"
  proof -
    assume t: "page_table pin_demo ! 0 \<noteq> -1"
    have ok: "pager_ok pin_demo" using stableD(1) [OF F(1)] .
    have c: "0 < page_capacity pin_demo" using pager_arraysD(6) [OF ok] F(3) by simp
    with t pager_arraysD(1) [OF ok] have "table_entry pin_demo 0 \<noteq> -1" by (simp add: table_entry_def)
    with ok obtain i where "i < MAX_BUFFER_POOL_SIZE" "table_entry pin_demo 0 = int i" by (metis cached_frame)
    with c pager_arraysD(1) [OF ok] show ?thesis by (simp add: table_entry_def)
  qed
  ultimately show ?thesis
    using try_pin_eq [OF stableD(1) [OF F(1)], of 0] F(3,5) assms by simp
qed

lemma try_pin_is_fetch_and_pin_witness:
  "\<exists>i q. get_page pin_demo 0 = Inr (i, q) \<and>
     pager_try_pin_existing_page_handle pin_demo 0 = (Try_Pin_Ok, fill_handle 0 (int i), pin_frame i q)"
proof -
  note F = pin_demo_facts
  obtain i q where g: "get_page pin_demo 0 = Inr (i, q)" by (rule pin_demo_fetch)
  have "\<forall>i<MAX_BUFFER_POOL_SIZE. f_pin_count (frames pin_demo ! i) < UINT32_MAX"
    using F(2) by (simp add: no_pins_def UINT32_MAX_def)
  from try_pin_is_fetch_and_pin [OF stableD(1) [OF F(1)] _ F(5) this, of 0] F(3) g show ?thesis by simp
qed

lemma live_handles_stay_valid_witness:
  "\<exists>h p. pager_try_pin_existing_page_handle pin_demo 0 = (Try_Pin_Ok, h, p) \<and>
     f_page_num (frames p ! nat (h_frame_idx h)) = 0 \<and> f_pin_count (frames p ! nat (h_frame_idx h)) = 1 \<and>
     fst (pager_release_page_handle p h) \<and> pager_free_page_pin_guard p 0 = Inr p \<and> \<not> fst (raise_barrier p)"
proof -
  obtain i q where g: "get_page pin_demo 0 = Inr (i, q)" "i < MAX_BUFFER_POOL_SIZE" by (rule pin_demo_fetch)
  note t = pin_demo_try [OF g(1)]
  have "pin_steps (pin_demo, []) (pin_frame i q, [fill_handle 0 (int i)])"
    using pin_step.Try_Pin [OF t] by blast
  from live_handles_stay_valid [OF stableD(1) [OF pin_demo_facts(1)] pin_demo_facts(2) this] g(2) t
  show ?thesis by (simp add: fill_handle_def)
qed

lemma pinned_frame_survives_fetches_witness:
  "\<exists>i p j p'. pager_try_pin_existing_page_handle pin_demo 0 = (Try_Pin_Ok, fill_handle 0 (int i), p) \<and>
     get_page p 0 = Inr (j, p') \<and> f_data (frames p' ! i) = page_write_checksum (payload 7) \<and>
     f_pin_count (frames p' ! i) = 1"
proof -
  obtain i q where g: "get_page pin_demo 0 = Inr (i, q)" and Q: "pager_ok q" "coherent q" "no_pins q"
    "i < MAX_BUFFER_POOL_SIZE" "f_page_num (frames q ! i) = 0" "f_data (frames q ! i) = page_write_checksum (payload 7)"
    "num_pages q = 1" by (rule pin_demo_fetch)
  let ?p = "pin_frame i q"
  have P: "pager_ok ?p" "coherent ?p" "num_pages ?p = 1" "f_page_num (frames ?p ! i) = 0"
    "f_data (frames ?p ! i) = page_write_checksum (payload 7)"
    using Q by (simp_all add: pin_frame_def del: frames_upd_frame)
  have len: "length (frames q) = MAX_BUFFER_POOL_SIZE" using Q(1) by (simp add: pager_ok_core)
  have c: "f_pin_count (frames ?p ! i) = 1" using Q(3,4) len by (simp add: pin_frame_def no_pins_def)
  have h: "held ?p i" using Q(4) P(4) c by (simp add: held_def INVALID_PAGE_NUM_def)
  have "page_table ?p ! 0 = int i" using pager_framesD(4) [OF P(1) Q(4)] P(4) by (simp add: INVALID_PAGE_NUM_def)
  then have e: "get_page ?p 0 = Inr (i, lru_touch (?p\<lparr>cache_hits := inc32 (cache_hits ?p)\<rparr>) (int i))"
    using get_page_existing [OF P(1), of 0] P(3) by simp
  have "(0::nat) \<le> UINT32_MAX" by simp
  from pinned_frame_survives_fetches [OF P(1,2) h this e] c P(5) pin_demo_try [OF g] e show ?thesis by metis
qed

end
