(* ===== verification/CText.thy ===== *)
theory CText
  imports Bytes
begin

text \<open>
  NUL-terminated text and the functions of the C library the SQL front end uses on it, in the "C" locale.

  A \<open>const char*\<close> into a string is the list of the characters from there up to the terminating NUL, so
  \<open>*p\<close> is \<open>peek p\<close>, which is NUL at the end, and \<open>p++\<close> drops the head. A \<open>char\<close> array holding a string is
  the list of its characters without the NUL.
\<close>

definition ascii :: "string \<Rightarrow> bytes" where
  "ascii s = map of_char s"

definition c_string :: "bytes \<Rightarrow> bool" where
  "c_string s \<longleftrightarrow> 0 \<notin> set s"

definition peek :: "bytes \<Rightarrow> u8" where
  "peek s = (case s of [] \<Rightarrow> 0 | c # _ \<Rightarrow> c)"

section \<open>Character classes\<close>

definition isspace :: "u8 \<Rightarrow> bool" where
  "isspace c \<longleftrightarrow> unat c = 32 \<or> 9 \<le> unat c \<and> unat c \<le> 13"

definition isdigit :: "u8 \<Rightarrow> bool" where
  "isdigit c \<longleftrightarrow> 48 \<le> unat c \<and> unat c \<le> 57"

definition isupper :: "u8 \<Rightarrow> bool" where
  "isupper c \<longleftrightarrow> 65 \<le> unat c \<and> unat c \<le> 90"

definition islower :: "u8 \<Rightarrow> bool" where
  "islower c \<longleftrightarrow> 97 \<le> unat c \<and> unat c \<le> 122"

definition isalpha :: "u8 \<Rightarrow> bool" where
  "isalpha c \<longleftrightarrow> isupper c \<or> islower c"

definition isalnum :: "u8 \<Rightarrow> bool" where
  "isalnum c \<longleftrightarrow> isalpha c \<or> isdigit c"

definition tolower :: "u8 \<Rightarrow> u8" where
  "tolower c = (if isupper c then c + 32 else c)"

lemmas char_class = isspace_def isdigit_def isupper_def islower_def isalpha_def isalnum_def

lemma unat_tolower: "unat (tolower c) = (if isupper c then unat c + 32 else unat c)"
  by (auto simp: tolower_def isupper_def unat_word_ariths)

lemma tolower_idem [simp]: "tolower (tolower c) = tolower c"
  by (auto simp: word_unat_eq_iff unat_tolower char_class)

lemma tolower_0 [simp]: "tolower 0 = 0"
  by (simp add: tolower_def isupper_def)

lemma tolower_eq_0 [simp]: "tolower c = 0 \<longleftrightarrow> c = 0"
proof -
  have "unat (tolower c) = 0 \<longleftrightarrow> unat c = 0" by (simp add: unat_tolower isupper_def)
  then show ?thesis by (simp add: unat_eq_0)
qed

lemma isalnum_tolower [simp]: "isalnum (tolower c) = isalnum c" "isalpha (tolower c) = isalpha c" "isdigit (tolower c) = isdigit c"
  by (auto simp: char_class unat_tolower)

section \<open>Strings\<close>

fun skip_spaces :: "bytes \<Rightarrow> bytes" where
  "skip_spaces [] = []"
| "skip_spaces (c # s) = (if isspace c then skip_spaces s else c # s)"

lemma length_skip_spaces: "length (skip_spaces s) \<le> length s"
  by (induction s) auto

lemma skip_spaces_peek: "\<not> isspace (peek s) \<Longrightarrow> skip_spaces s = s"
  by (cases s) (auto simp: peek_def)

lemma not_space_after_skip [simp]: "\<not> isspace (peek (skip_spaces s))"
  by (induction s) (auto simp: peek_def isspace_def)

lemma skip_spaces_idem [simp]: "skip_spaces (skip_spaces s) = skip_spaces s"
  by (simp add: skip_spaces_peek)

text \<open>Case-insensitive equality of two strings.\<close>

fun ci_equal :: "bytes \<Rightarrow> bytes \<Rightarrow> bool" where
  "ci_equal (a # left) (b # right) = (if tolower a \<noteq> tolower b then False else ci_equal left right)"
| "ci_equal left right \<longleftrightarrow> left = [] \<and> right = []"

lemma ci_equal_iff: "ci_equal left right \<longleftrightarrow> map tolower left = map tolower right"
  by (induction left right rule: ci_equal.induct) auto

text \<open>\<open>strcmp\<close> compares the characters as \<open>unsigned char\<close>; only the sign of its result is used.\<close>

fun strcmp :: "bytes \<Rightarrow> bytes \<Rightarrow> int" where
  "strcmp (a # left) (b # right) = (if a = b then strcmp left right else int (unat a) - int (unat b))"
| "strcmp left right = int (unat (peek left)) - int (unat (peek right))"

lemma strcmp_nil:
  "c_string left \<Longrightarrow> strcmp left [] = 0 \<longleftrightarrow> left = []" "c_string right \<Longrightarrow> strcmp [] right = 0 \<longleftrightarrow> right = []"
  by (cases left; simp add: peek_def c_string_def word_uint_eq_iff) (cases right; simp add: peek_def c_string_def word_uint_eq_iff)

lemma strcmp_0:
  assumes "c_string left" "c_string right"
  shows "strcmp left right = 0 \<longleftrightarrow> left = right"
  using assms
proof (induction left arbitrary: right)
  case Nil
  then show ?case using strcmp_nil(2) by metis
next
  case (Cons a left)
  show ?case
  proof (cases right)
    case Nil
    then show ?thesis using Cons.prems(1) strcmp_nil(1) by metis
  next
    case right: (Cons b right')
    then show ?thesis using Cons by (cases "a = b") (auto simp: c_string_def word_uint_eq_iff)
  qed
qed

lemma strcmp_antisym: "strcmp right left = - strcmp left right"
  by (induction left right rule: strcmp.induct) auto

section \<open>Decimal numbers\<close>

definition digit_value :: "u8 \<Rightarrow> nat" where
  "digit_value c = unat c - 48"

definition decimal :: "bytes \<Rightarrow> nat" where
  "decimal ds = fold (\<lambda>d v. 10 * v + digit_value d) ds 0"

text \<open>\<open>strtoull (s, &end, 10)\<close> at a digit: the value, whether it is out of range, and the rest of the text.\<close>

definition strtoull :: "bytes \<Rightarrow> nat \<times> bool \<times> bytes" where
  "strtoull s = (let v = decimal (takeWhile isdigit s)
     in (min v (2 ^ 64 - 1), v > 2 ^ 64 - 1, dropWhile isdigit s))"

text \<open>What \<open>printf\<close> writes for \<open>%u\<close>.\<close>

fun format_uint :: "nat \<Rightarrow> bytes" where
  "format_uint n = (if n < 10 then [of_nat (48 + n)] else format_uint (n div 10) @ [of_nat (48 + n mod 10)])"

declare format_uint.simps [simp del]

lemma digit_char:
  assumes "d < 10"
  shows "isdigit (of_nat (48 + d))" "digit_value (of_nat (48 + d)) = d"
proof -
  have "unat (of_nat (48 + d) :: u8) = 48 + d"
    using assms by (simp add: unat_of_nat take_bit_nat_eq_self del: of_nat_add)
  then show "isdigit (of_nat (48 + d))" "digit_value (of_nat (48 + d)) = d"
    using assms by (simp_all add: isdigit_def digit_value_def)
qed

lemma format_uint_digits: "\<forall>c \<in> set (format_uint n). isdigit c"
proof (induction n rule: format_uint.induct)
  case (1 n)
  then show ?case
    using digit_char(1) [of n] digit_char(1) [of "n mod 10"] by (subst format_uint.simps) auto
qed

lemma format_uint_not_Nil [simp]: "format_uint n \<noteq> []"
  by (subst format_uint.simps) simp

lemma decimal_append: "decimal (ds @ [d]) = 10 * decimal ds + digit_value d"
  by (simp add: decimal_def)

lemma decimal_format [simp]: "decimal (format_uint n) = n"
proof (induction n rule: format_uint.induct)
  case (1 n)
  show ?case
  proof (cases "n < 10")
    case True
    then show ?thesis using digit_char(2) [OF True] by (subst format_uint.simps) (simp add: decimal_def)
  next
    case False
    then have "format_uint n = format_uint (n div 10) @ [of_nat (48 + n mod 10)]" by (subst format_uint.simps) simp
    then show ?thesis using 1 [OF False] digit_char(2) [of "n mod 10"] by (simp add: decimal_append)
  qed
qed

lemma takeWhile_digits:
  assumes "\<forall>c \<in> set ds. isdigit c" "\<not> isdigit (peek rest)"
  shows "takeWhile isdigit (ds @ rest) = ds" "dropWhile isdigit (ds @ rest) = rest"
  using assms by (cases rest; simp add: peek_def takeWhile_append2 dropWhile_append2)+

lemma strtoull_format:
  assumes "n < 2 ^ 32" "\<not> isdigit (peek rest)"
  shows "strtoull (format_uint n @ rest) = (n, False, rest)"
  using assms takeWhile_digits [OF format_uint_digits assms(2)] by (simp add: strtoull_def Let_def)

end
