(* ===== verification/Schema.thy ===== *)
theory Schema
  imports CText
begin

text \<open>
  Table schemas and column values: the records of \<open>src/table.h\<close> and \<open>src/record.h\<close> that the record codecs and
  the SQL front end share. A \<open>char\<close> array that holds a name or a text is the list of its characters without the
  NUL; a byte of the enum \<open>ColumnType\<close> that is neither of its two constants, as it can come from a damaged
  catalog, is \<open>COL_TYPE_OTHER\<close>. The foreign key fields of a schema take no part in the code modelled here.
\<close>

definition MAX_COLUMNS_PER_TABLE :: nat where "MAX_COLUMNS_PER_TABLE = 16"
definition MAX_NAME_SIZE :: nat where "MAX_NAME_SIZE = 32"
definition RECORD_TEXT_MAX :: nat where "RECORD_TEXT_MAX = 256"

datatype column_type = COL_TYPE_INT | COL_TYPE_VARCHAR | COL_TYPE_OTHER nat

record table_column =
  col_name :: bytes
  col_type :: column_type
  col_size :: nat
  col_offset :: nat

record table_schema =
  schema_name :: bytes
  schema_root :: nat
  num_columns :: nat
  columns :: "table_column list"
  row_size :: nat

text \<open>The columns in use are the first \<open>num_columns\<close> of the array.\<close>

definition cols :: "table_schema \<Rightarrow> table_column list" where
  "cols schema = take (num_columns schema) (columns schema)"

definition schema_array_ok :: "table_schema \<Rightarrow> bool" where
  "schema_array_ok schema \<longleftrightarrow> length (columns schema) = MAX_COLUMNS_PER_TABLE \<and> num_columns schema \<le> MAX_COLUMNS_PER_TABLE"

record tval =
  v_type :: column_type
  v_int :: nat
  v_text :: bytes

text \<open>What a \<open>TinyDBValue\<close> can hold: a \<open>uint32_t\<close> and a string of at most 256 characters.\<close>

definition tval_ok :: "tval \<Rightarrow> bool" where
  "tval_ok v \<longleftrightarrow> v_int v < 2 ^ 32 \<and> c_string (v_text v) \<and> length (v_text v) \<le> RECORD_TEXT_MAX"

lemma length_cols [simp]: "schema_array_ok schema \<Longrightarrow> length (cols schema) = num_columns schema"
  by (simp add: cols_def schema_array_ok_def)

lemma nth_cols [simp]: "i < num_columns schema \<Longrightarrow> cols schema ! i = columns schema ! i"
  by (simp add: cols_def)

end
