(* ===== verification/SqlPredicate.thy ===== *)
theory SqlPredicate
  imports Schema
begin

text \<open>
  Comparisons of the generic SQL layer, after \<open>src/generic_predicate.c\<close>: the scanner, the parser of one
  comparison \<open>column op value\<close>, and its evaluation on a value, with the \<open>LIKE\<close> matcher.

  A parser is the text still to be read. Where a function fails and its callers give up with it, the text that is
  left is not kept; \<open>consume_word\<close> restores it, and \<open>consume_char\<close> leaves it behind the blanks.
\<close>

section \<open>Scanner\<close>

definition is_identifier_char :: "u8 \<Rightarrow> bool" where
  "is_identifier_char c \<longleftrightarrow> isalnum c \<or> c = 95"

fun match_word :: "bytes \<Rightarrow> bytes \<Rightarrow> bytes \<times> bytes" where
  "match_word current [] = (current, [])"
| "match_word current (e # expected) =
     (if tolower (peek current) = tolower e then match_word (tl current) expected else (current, e # expected))"

definition consume_word :: "bytes \<Rightarrow> bytes \<Rightarrow> bytes option" where
  "consume_word word current =
     (let (rest, expected) = match_word (skip_spaces current) word
      in if expected \<noteq> [] \<or> is_identifier_char (peek rest) then None else Some rest)"

definition consume_char :: "u8 \<Rightarrow> bytes \<Rightarrow> bool \<times> bytes" where
  "consume_char expected current =
     (let s = skip_spaces current in if peek s \<noteq> expected then (False, s) else (True, tl s))"

definition parse_identifier :: "nat \<Rightarrow> bytes \<Rightarrow> (bytes \<times> bytes) option" where
  "parse_identifier output_size current =
     (let s = skip_spaces current
      in if \<not> isalpha (peek s) \<and> peek s \<noteq> 95 then None
         else let name = takeWhile is_identifier_char s
              in if length name = 0 \<or> length name \<ge> output_size then None
                 else Some (name, dropWhile is_identifier_char s))"

definition parse_uint32 :: "bytes \<Rightarrow> (nat \<times> bytes) option" where
  "parse_uint32 current =
     (let s = skip_spaces current
      in if \<not> isdigit (peek s) then None
         else let (parsed, erange, rest) = strtoull s
              in if erange \<or> parsed > 2 ^ 32 - 1 \<or> rest = s then None else Some (parsed, rest))"

text \<open>A quote inside a string literal is written twice.\<close>

fun string_loop :: "nat \<Rightarrow> bytes \<Rightarrow> bytes \<Rightarrow> (bytes \<times> bytes) option" where
  "string_loop output_size [] out = None"
| "string_loop output_size (c # s) out =
     (if c = 39 \<and> peek s \<noteq> 39 then (if length out \<ge> output_size then None else Some (out, s))
      else if length out + 1 \<ge> output_size then None
      else string_loop output_size (if c = 39 then tl s else s) (out @ [c]))"

definition parse_string :: "nat \<Rightarrow> bytes \<Rightarrow> (bytes \<times> bytes) option" where
  "parse_string output_size current =
     (let s = skip_spaces current in if peek s \<noteq> 39 then None else string_loop output_size (tl s) [])"

definition consume_end :: "bytes \<Rightarrow> bool" where
  "consume_end current =
     (let s = skip_spaces current; s1 = (if peek s = 59 then tl s else s) in peek (skip_spaces s1) = 0)"

section \<open>One comparison\<close>

definition find_column_index :: "table_schema \<Rightarrow> bytes \<Rightarrow> nat option" where
  "find_column_index schema name = find (\<lambda>i. ci_equal (col_name (columns schema ! i)) name) [0..<num_columns schema]"

definition parse_value_for_column :: "table_column \<Rightarrow> bytes \<Rightarrow> (tval \<times> bytes) option" where
  "parse_value_for_column column current =
     (case col_type column of
        COL_TYPE_INT \<Rightarrow> map_option (\<lambda>(n, s). (\<lparr>v_type = COL_TYPE_INT, v_int = n, v_text = []\<rparr>, s)) (parse_uint32 current)
      | COL_TYPE_VARCHAR \<Rightarrow>
          map_option (\<lambda>(t, s). (\<lparr>v_type = COL_TYPE_VARCHAR, v_int = 0, v_text = t\<rparr>, s)) (parse_string (RECORD_TEXT_MAX + 1) current)
      | COL_TYPE_OTHER _ \<Rightarrow> None)"

datatype compare_op = COMPARE_EQ | COMPARE_GT | COMPARE_GTE | COMPARE_LT | COMPARE_LTE | COMPARE_LIKE

definition parse_compare_op :: "bytes \<Rightarrow> (compare_op \<times> bytes) option" where
  "parse_compare_op current =
     (case consume_word (ascii ''like'') current of
        Some s \<Rightarrow> Some (COMPARE_LIKE, s)
      | None \<Rightarrow>
          let s = skip_spaces current; s1 = tl s
          in if peek s = 61 then Some (COMPARE_EQ, s1)
             else if peek s = 62 then (if peek s1 = 61 then Some (COMPARE_GTE, tl s1) else Some (COMPARE_GT, s1))
             else if peek s = 60 then (if peek s1 = 61 then Some (COMPARE_LTE, tl s1) else Some (COMPARE_LT, s1))
             else None)"

record predicate =
  column_index :: nat
  p_op :: compare_op
  p_value :: tval

definition parse_predicate :: "table_schema \<Rightarrow> bytes \<Rightarrow> (predicate \<times> bytes) option" where
  "parse_predicate schema current =
     (case parse_identifier MAX_NAME_SIZE current of None \<Rightarrow> None
      | Some (column, s) \<Rightarrow>
          (case find_column_index schema column of None \<Rightarrow> None
           | Some i \<Rightarrow>
               (case parse_compare_op s of None \<Rightarrow> None
                | Some (cmp, s1) \<Rightarrow>
                    if cmp = COMPARE_LIKE \<and> col_type (columns schema ! i) \<noteq> COL_TYPE_VARCHAR then None
                    else map_option (\<lambda>(v, s2). (\<lparr>column_index = i, p_op = cmp, p_value = v\<rparr>, s2))
                           (parse_value_for_column (columns schema ! i) s1))))"

section \<open>Evaluation\<close>

definition compare_values :: "tval \<Rightarrow> tval \<Rightarrow> int" where
  "compare_values left right =
     (if v_type left = COL_TYPE_INT then
        if v_int left < v_int right then -1 else if v_int left > v_int right then 1 else 0
      else sgn (strcmp (v_text left) (v_text right)))"

text \<open>\<open>like_any\<close> is the loop that tries the rest of the pattern at every position of the text.\<close>

function like_match :: "bytes \<Rightarrow> bytes \<Rightarrow> bool" and like_any :: "bytes \<Rightarrow> bytes \<Rightarrow> bool" where
  "like_match [] text = (text = [])"
| "like_match (p # pattern) text =
     (if p = 37 then
        let rest = dropWhile (\<lambda>c. c = 37) pattern in if rest = [] then True else like_any rest text
      else if text = [] then False
      else if p = 95 \<or> p = hd text then like_match pattern (tl text)
      else False)"
| "like_any pattern [] = like_match pattern []"
| "like_any pattern (c # text) = (if like_match pattern (c # text) then True else like_any pattern text)"
  by pat_completeness auto
termination
  by (relation "inv_image (less_than <*lex*> less_than <*lex*> less_than)
      (\<lambda>x. case x of Inl (p, t) \<Rightarrow> (length p, length t, 0) | Inr (p, t) \<Rightarrow> (length p, length t, 1 :: nat))")
    (auto simp: le_imp_less_Suc length_dropWhile_le)

definition predicate_matches :: "predicate \<Rightarrow> tval \<Rightarrow> bool" where
  "predicate_matches p value =
     (if v_type value \<noteq> v_type (p_value p) then False
      else let compared = compare_values value (p_value p)
           in case p_op p of
                COMPARE_LIKE \<Rightarrow> v_type value = COL_TYPE_VARCHAR \<and> like_match (v_text (p_value p)) (v_text value)
              | COMPARE_EQ \<Rightarrow> compared = 0
              | COMPARE_GT \<Rightarrow> compared > 0
              | COMPARE_GTE \<Rightarrow> compared \<ge> 0
              | COMPARE_LT \<Rightarrow> compared < 0
              | COMPARE_LTE \<Rightarrow> compared \<le> 0)"

definition compare_op_text :: "compare_op \<Rightarrow> bytes" where
  "compare_op_text cmp = (case cmp of COMPARE_LIKE \<Rightarrow> ascii ''LIKE'' | COMPARE_EQ \<Rightarrow> ascii ''=''
     | COMPARE_GT \<Rightarrow> ascii ''>'' | COMPARE_GTE \<Rightarrow> ascii ''>='' | COMPARE_LT \<Rightarrow> ascii ''<'' | COMPARE_LTE \<Rightarrow> ascii ''<='')"

section \<open>The \<open>LIKE\<close> matcher decides the language of the pattern\<close>

text \<open>The texts a pattern stands for: \<open>%\<close> is any text, \<open>_\<close> any one character, another character itself.\<close>

fun like_lang :: "bytes \<Rightarrow> bytes set" where
  "like_lang [] = {[]}"
| "like_lang (p # pattern) =
     (if p = 37 then {u @ v | u v. v \<in> like_lang pattern}
      else if p = 95 then {c # v | c v. v \<in> like_lang pattern}
      else {p # v | v. v \<in> like_lang pattern})"

lemma like_lang_percents:
  "{u @ v | u v. v \<in> like_lang pattern} = {u @ v | u v. v \<in> like_lang (dropWhile (\<lambda>c. c = 37) pattern)}"
proof (induction pattern)
  case (Cons p pattern)
  show ?case
  proof (cases "p = 37")
    case True
    have "{u @ v | u v. v \<in> like_lang (37 # pattern)} = {u @ v | u v. v \<in> like_lang pattern}"
    proof (intro equalityI subsetI)
      fix x assume "x \<in> {u @ v | u v. v \<in> like_lang (37 # pattern)}"
      then obtain u w v where "x = u @ w @ v" "v \<in> like_lang pattern" by auto
      then have "x = (u @ w) @ v \<and> v \<in> like_lang pattern" by simp
      then show "x \<in> {u @ v | u v. v \<in> like_lang pattern}" by blast
    next
      fix x assume "x \<in> {u @ v | u v. v \<in> like_lang pattern}"
      then obtain u v where "x = u @ v" "v \<in> like_lang pattern" by blast
      then have "x = u @ ([] @ v) \<and> [] @ v \<in> like_lang (37 # pattern)" by auto
      then show "x \<in> {u @ v | u v. v \<in> like_lang (37 # pattern)}" by blast
    qed
    with True Cons.IH show ?thesis by simp
  qed simp
qed simp

lemma like_lang_any: "{u @ v | u v. v \<in> like_lang []} = UNIV"
  by simp

lemma like_match_iff: "like_match pattern s \<longleftrightarrow> s \<in> like_lang pattern"
  and like_any_iff: "like_any pattern s \<longleftrightarrow> (\<exists>u v. s = u @ v \<and> v \<in> like_lang pattern)"
proof (induction pattern s and pattern s rule: like_match_like_any.induct)
  case (2 p pattern s)
  show ?case
  proof (cases "p = 37")
    case True
    let ?rest = "dropWhile (\<lambda>c. c = 37) pattern"
    have "s \<in> like_lang (p # pattern) \<longleftrightarrow> s \<in> {u @ v | u v. v \<in> like_lang ?rest}"
      using like_lang_percents [of pattern] True by simp
    then show ?thesis using 2(1) [OF True] True by (cases "?rest = []") (auto simp: Let_def)
  next
    case False
    then show ?thesis using 2(2) [OF False] by (cases s) auto
  qed
next
  case (4 pattern c s)
  have "(\<exists>u v. c # s = u @ v \<and> v \<in> like_lang pattern) \<longleftrightarrow>
      c # s \<in> like_lang pattern \<or> (\<exists>u v. s = u @ v \<and> v \<in> like_lang pattern)"
    by (auto simp: Cons_eq_append_conv)
  then show ?case using 4 by auto
qed auto

text \<open>C9. \<open>LIKE\<close> is decided correctly: the matcher accepts exactly the texts the pattern stands for.\<close>

theorem like_match_decides: "like_match pattern text \<longleftrightarrow> text \<in> like_lang pattern"
  by (rule like_match_iff)

text \<open>
  What the parser of one comparison accepts, and that it reads back what \<open>append_predicate\<close> of
  \<open>src/generic_boolean.c\<close> writes.
\<close>

section \<open>Writing a comparison\<close>

definition quote_text :: "bytes \<Rightarrow> bytes" where
  "quote_text t = concat (map (\<lambda>c. if c = 39 then [39, 39] else [c]) t)"

definition render_value :: "tval \<Rightarrow> bytes" where
  "render_value v = (if v_type v = COL_TYPE_INT then format_uint (v_int v) else 39 # quote_text (v_text v) @ [39])"

definition render_predicate :: "table_schema \<Rightarrow> predicate \<Rightarrow> bytes" where
  "render_predicate schema p =
     col_name (columns schema ! column_index p) @ 32 # compare_op_text (p_op p) @ 32 # render_value (p_value p)"

section \<open>Words and identifiers\<close>

definition ident_name :: "bytes \<Rightarrow> bool" where
  "ident_name s \<longleftrightarrow> s \<noteq> [] \<and> (isalpha (hd s) \<or> hd s = 95) \<and> (\<forall>c \<in> set s. is_identifier_char c) \<and> length s < MAX_NAME_SIZE"

lemma peek_simps [simp]: "peek [] = 0" "peek (c # s) = c"
  by (simp_all add: peek_def)

lemma not_identifier_char [simp]: "\<not> is_identifier_char 0" "\<not> is_identifier_char 32" "\<not> is_identifier_char 41" "\<not> is_identifier_char 40"
  by (simp_all add: is_identifier_char_def char_class)

lemma is_identifier_char_tolower [simp]: "is_identifier_char (tolower c) = is_identifier_char c"
proof -
  have "tolower c = 95 \<longleftrightarrow> c = 95" by (auto simp: word_unat_eq_iff unat_tolower isupper_def)
  then show ?thesis by (simp add: is_identifier_char_def)
qed

lemma tolower_95: "tolower c = 95 \<longleftrightarrow> c = 95"
  by (auto simp: word_unat_eq_iff unat_tolower isupper_def)

lemma ident_name_tolower: "ident_name (map tolower s) = ident_name s"
  by (cases s) (simp_all add: ident_name_def tolower_95)

lemma ident_name_ci:
  assumes "map tolower a = map tolower b"
  shows "ident_name a = ident_name b"
  using ident_name_tolower [of a] ident_name_tolower [of b] assms by simp

lemma takeWhile_name:
  assumes "\<forall>c \<in> set name. is_identifier_char c" "\<not> is_identifier_char (peek rest)"
  shows "takeWhile is_identifier_char (name @ rest) = name" "dropWhile is_identifier_char (name @ rest) = rest"
  using assms by (cases rest; simp add: takeWhile_append2 dropWhile_append2)+

lemma not_space_identifier: "isalpha c \<or> c = 95 \<Longrightarrow> \<not> isspace c"
  by (auto simp: char_class)

lemma parse_identifier_word:
  assumes "ident_name name" "\<not> is_identifier_char (peek rest)"
  shows "parse_identifier MAX_NAME_SIZE (name @ rest) = Some (name, rest)"
proof -
  obtain c cs where n: "name = c # cs" using assms(1) by (cases name) (auto simp: ident_name_def)
  have c: "isalpha c \<or> c = 95" using assms(1) by (simp add: ident_name_def n)
  then have "skip_spaces (name @ rest) = name @ rest" using not_space_identifier [OF c] by (simp add: n)
  with assms c takeWhile_name [of name rest] show ?thesis
    unfolding parse_identifier_def by (auto simp: ident_name_def n Let_def)
qed

lemma parse_identifier_accepts:
  assumes "parse_identifier MAX_NAME_SIZE s = Some (name, rest)"
  shows "ident_name name" "length rest < length s" "\<exists>pre. s = pre @ rest"
proof -
  let ?s = "skip_spaces s"
  have s: "isalpha (peek ?s) \<or> peek ?s = 95" "name = takeWhile is_identifier_char ?s" "rest = dropWhile is_identifier_char ?s"
    "name \<noteq> []" "length name < MAX_NAME_SIZE"
    using assms by (auto simp: parse_identifier_def Let_def split: if_splits)
  obtain c cs where e: "?s = c # cs" using s(2,4) by (cases ?s) auto
  have "hd name = c" using s(2,4) e by (cases "is_identifier_char c") auto
  moreover have "\<forall>x \<in> set name. is_identifier_char x" using s(2) by (auto dest: set_takeWhileD)
  ultimately show "ident_name name" using s(1,4,5) e by (simp add: ident_name_def)
  have cat: "?s = name @ rest" using s(2,3) by simp
  then show "length rest < length s" using s(4) length_skip_spaces [of s] by (cases name) auto
  have "\<exists>pre. s = pre @ ?s" by (induction s) (auto, metis append_Cons)
  then show "\<exists>pre. s = pre @ rest" using cat by (metis append_assoc)
qed

lemma find_column_index_ci:
  assumes "map tolower a = map tolower b"
  shows "find_column_index schema a = find_column_index schema b"
  using assms by (simp add: find_column_index_def ci_equal_iff)

lemma find_column_index_name:
  assumes "find_column_index schema name = Some i"
  shows "i < num_columns schema" "find_column_index schema (col_name (columns schema ! i)) = Some i"
    "map tolower (col_name (columns schema ! i)) = map tolower name"
proof -
  have f: "find (\<lambda>i. ci_equal (col_name (columns schema ! i)) name) [0..<num_columns schema] = Some i"
    using assms by (simp add: find_column_index_def)
  then obtain j where "j < num_columns schema" "[0..<num_columns schema] ! j = i" "ci_equal (col_name (columns schema ! i)) name"
    by (auto simp: find_Some_iff)
  then show i: "i < num_columns schema" and e: "map tolower (col_name (columns schema ! i)) = map tolower name"
    by (auto simp: ci_equal_iff)
  show "find_column_index schema (col_name (columns schema ! i)) = Some i"
    using find_column_index_ci [OF e] assms by simp
qed

section \<open>Operators and values\<close>

lemma match_word_self:
  assumes "map tolower w = map tolower u"
  shows "match_word (w @ s) u = (s, [])"
  using assms
proof (induction u arbitrary: w)
  case (Cons e u)
  then show ?case by (cases w) auto
qed simp

lemma consume_word_hit:
  assumes "map tolower w = map tolower word" "\<not> isspace (peek (w @ s))" "\<not> is_identifier_char (peek s)"
  shows "consume_word word (32 # w @ s) = Some s"
proof -
  have "isspace 32" by (simp add: isspace_def)
  then have "skip_spaces (32 # w @ s) = w @ s" using skip_spaces_peek [OF assms(2)] by simp
  then show ?thesis using match_word_self [OF assms(1)] assms(3) by (simp add: consume_word_def)
qed

lemma consume_word_miss:
  assumes "tolower (peek (skip_spaces s)) \<noteq> tolower e"
  shows "consume_word (e # word) s = None"
  using assms by (simp add: consume_word_def)

lemma parse_compare_op_text:
  "parse_compare_op (32 # compare_op_text cmp @ 32 # s) = Some (cmp, 32 # s)"
proof -
  have sp: "isspace 32" "\<not> isspace 61" "\<not> isspace 62" "\<not> isspace 60" "\<not> isspace 76" by (simp_all add: isspace_def)
  have like: "map tolower (ascii ''LIKE'') = map tolower (ascii ''like'')" by (simp add: ascii_def tolower_def isupper_def)
  have hit: "consume_word (ascii ''like'') (32 # ascii ''LIKE'' @ 32 # s) = Some (32 # s)"
    by (rule consume_word_hit [OF like]) (simp_all add: ascii_def sp)
  have no: "c \<in> {61, 62, 60} \<Longrightarrow> consume_word (ascii ''like'') (32 # c # s') = None" for c s'
    unfolding ascii_def list.map by (rule consume_word_miss) (use sp in \<open>auto simp: tolower_def isupper_def\<close>)
  show ?thesis
    by (cases cmp) (use hit no sp in \<open>simp_all add: parse_compare_op_def compare_op_text_def ascii_def Let_def\<close>)
qed

lemma string_loop_quoted:
  assumes "length out + length t < output_size" "peek rest \<noteq> 39"
  shows "string_loop output_size (quote_text t @ 39 # rest) out = Some (out @ t, rest)"
  using assms(1)
proof (induction t arbitrary: out)
  case Nil
  then show ?case using assms(2) by (simp add: quote_text_def)
next
  case (Cons c t)
  then show ?case by (simp add: quote_text_def)
qed

text \<open>What may follow a comparison: the end, a blank or a closing parenthesis.\<close>

definition follows :: "bytes \<Rightarrow> bool" where
  "follows rest \<longleftrightarrow> peek rest = 0 \<or> peek rest = 32 \<or> peek rest = 41"

definition value_ok :: "table_column \<Rightarrow> tval \<Rightarrow> bool" where
  "value_ok column v \<longleftrightarrow> v_type v = col_type column \<and>
     (case col_type column of
        COL_TYPE_INT \<Rightarrow> v_int v < 2 ^ 32 \<and> v_text v = []
      | COL_TYPE_VARCHAR \<Rightarrow> v_int v = 0 \<and> length (v_text v) \<le> RECORD_TEXT_MAX
      | COL_TYPE_OTHER _ \<Rightarrow> False)"

lemma parse_value_rendered:
  assumes "value_ok column v" "follows rest"
  shows "parse_value_for_column column (32 # render_value v @ rest) = Some (v, rest)"
proof (cases "col_type column")
  case COL_TYPE_INT
  have v: "v = \<lparr>v_type = COL_TYPE_INT, v_int = v_int v, v_text = []\<rparr>" "v_int v < 2 ^ 32"
    using assms(1) COL_TYPE_INT by (auto simp: value_ok_def)
  have nd: "\<not> isdigit (peek rest)" using assms(2) by (auto simp: follows_def char_class)
  obtain d ds where ds: "format_uint (v_int v) = d # ds" by (cases "format_uint (v_int v)") auto
  have d: "isdigit d" using format_uint_digits [of "v_int v"] by (simp add: ds)
  have sk: "skip_spaces (32 # format_uint (v_int v) @ rest) = format_uint (v_int v) @ rest"
    using d by (simp add: ds) (simp add: char_class)
  have "parse_uint32 (32 # format_uint (v_int v) @ rest) = Some (v_int v, rest)"
    unfolding parse_uint32_def sk Let_def strtoull_format [OF v(2) nd] using v(2) d ds by auto
  moreover have "v_type v = COL_TYPE_INT" using assms(1) COL_TYPE_INT by (simp add: value_ok_def)
  ultimately show ?thesis using COL_TYPE_INT v(1) by (simp add: parse_value_for_column_def render_value_def)
next
  case COL_TYPE_VARCHAR
  have v: "v = \<lparr>v_type = COL_TYPE_VARCHAR, v_int = 0, v_text = v_text v\<rparr>" "length (v_text v) \<le> RECORD_TEXT_MAX"
    using assms(1) COL_TYPE_VARCHAR by (auto simp: value_ok_def)
  have "isspace 32" "\<not> isspace 39" by (simp_all add: isspace_def)
  then have "parse_string (RECORD_TEXT_MAX + 1) (32 # 39 # quote_text (v_text v) @ 39 # rest) = Some (v_text v, rest)"
    using string_loop_quoted [of "[]" "v_text v" "RECORD_TEXT_MAX + 1" rest] v(2) assms(2)
    by (auto simp: parse_string_def follows_def)
  moreover have "v_type v = COL_TYPE_VARCHAR" using assms(1) COL_TYPE_VARCHAR by (simp add: value_ok_def)
  ultimately show ?thesis using COL_TYPE_VARCHAR v(1) by (simp add: parse_value_for_column_def render_value_def)
qed (use assms(1) in \<open>simp add: value_ok_def\<close>)

section \<open>The parser and the writer\<close>

definition predicate_ok :: "table_schema \<Rightarrow> predicate \<Rightarrow> bool" where
  "predicate_ok schema p \<longleftrightarrow>
     (let i = column_index p; column = columns schema ! i
      in i < num_columns schema \<and> ident_name (col_name column) \<and> find_column_index schema (col_name column) = Some i \<and>
         (p_op p = COMPARE_LIKE \<longrightarrow> col_type column = COL_TYPE_VARCHAR) \<and> value_ok column (p_value p))"

lemma parse_predicate_rendered:
  assumes "predicate_ok schema p" "follows rest"
  shows "parse_predicate schema (render_predicate schema p @ rest) = Some (p, rest)"
proof -
  let ?c = "columns schema ! column_index p"
  have ok: "ident_name (col_name ?c)" "find_column_index schema (col_name ?c) = Some (column_index p)"
    "p_op p = COMPARE_LIKE \<longrightarrow> col_type ?c = COL_TYPE_VARCHAR" "value_ok ?c (p_value p)"
    using assms(1) by (simp_all add: predicate_ok_def Let_def)
  have "parse_identifier MAX_NAME_SIZE (render_predicate schema p @ rest) =
      Some (col_name ?c, 32 # compare_op_text (p_op p) @ 32 # render_value (p_value p) @ rest)"
    using parse_identifier_word [OF ok(1), of "32 # compare_op_text (p_op p) @ 32 # render_value (p_value p) @ rest"]
    by (simp add: render_predicate_def)
  then show ?thesis
    using ok(2,3) parse_compare_op_text parse_value_rendered [OF ok(4) assms(2)] by (simp add: parse_predicate_def)
qed

lemma render_predicate_head:
  assumes "predicate_ok schema p"
  shows "\<not> isspace (peek (render_predicate schema p @ rest))" "peek (render_predicate schema p @ rest) \<noteq> 40"
proof -
  have "ident_name (col_name (columns schema ! column_index p))" using assms by (simp add: predicate_ok_def Let_def)
  then show "\<not> isspace (peek (render_predicate schema p @ rest))" "peek (render_predicate schema p @ rest) \<noteq> 40"
    by (cases "col_name (columns schema ! column_index p)"; auto simp: ident_name_def render_predicate_def char_class)+
qed

text \<open>What is left of the text after a parser is its tail.\<close>

lemma skip_spaces_suffix: "\<exists>pre. s = pre @ skip_spaces s"
  by (induction s) (auto, metis append_Cons)

lemma tl_suffix: "\<exists>pre. s = pre @ tl s"
  by (cases s) (auto intro: exI [of _ "[_]"])

lemma match_word_length: "length (fst (match_word s w)) \<le> length s"
proof (induction w arbitrary: s)
  case (Cons e w)
  have "length (fst (match_word (tl s) w)) \<le> length s" using Cons.IH [of "tl s"] by (cases s) auto
  then show ?case by simp
qed simp

lemma string_loop_accepts:
  assumes "string_loop output_size s out = Some (r, rest)"
  shows "length r \<le> max (length out) (output_size - 1) \<and> length rest < length s"
  using assms
proof (induction output_size s out rule: string_loop.induct)
  case (2 output_size c s out)
  show ?case
  proof (cases "c = 39 \<and> peek s \<noteq> 39")
    case True
    then show ?thesis using 2(2) by (auto split: if_splits)
  next
    case False
    then have "length out + 1 < output_size" "string_loop output_size (if c = 39 then tl s else s) (out @ [c]) = Some (r, rest)"
      using 2(2) by (auto split: if_splits)
    with 2(1) [OF False] have "length r \<le> max (length out + 1) (output_size - 1)" "length rest < length (if c = 39 then tl s else s)" by auto
    with \<open>length out + 1 < output_size\<close> show ?thesis by (auto split: if_splits)
  qed
qed simp

lemma parse_string_accepts:
  assumes "parse_string (Suc n) s = Some (t, rest)"
  shows "length t \<le> n" "length rest < length s"
proof -
  have "string_loop (Suc n) (tl (skip_spaces s)) [] = Some (t, rest)"
    using assms by (auto simp: parse_string_def Let_def split: if_splits)
  note L = string_loop_accepts [OF this]
  show "length t \<le> n" using L by simp
  show "length rest < length s" using L length_skip_spaces [of s] by simp linarith
qed

lemma parse_uint32_accepts:
  assumes "parse_uint32 s = Some (n, rest)"
  shows "n < 2 ^ 32" "length rest < length s"
proof -
  let ?s = "skip_spaces s"
  have a: "isdigit (peek ?s)" "n \<le> 2 ^ 32 - 1" "rest = dropWhile isdigit ?s"
    using assms by (auto simp: parse_uint32_def strtoull_def Let_def split: if_splits)
  show "n < 2 ^ 32" using a(2) by simp
  have "\<not> isdigit 0" by (simp add: isdigit_def)
  then obtain c cs where "?s = c # cs" "isdigit c" using a(1) by (cases ?s) auto
  then show "length rest < length s" using a(3) length_skip_spaces [of s] length_dropWhile_le [of isdigit cs] by simp
qed

lemma parse_value_accepts:
  assumes "parse_value_for_column column s = Some (v, rest)"
  shows "value_ok column v" "length rest < length s"
  using assms parse_uint32_accepts parse_string_accepts [of RECORD_TEXT_MAX]
  by (fastforce simp: parse_value_for_column_def value_ok_def split: column_type.splits)+

lemma parse_compare_op_length:
  assumes "parse_compare_op s = Some (cmp, rest)"
  shows "length rest \<le> length s"
proof (cases "consume_word (ascii ''like'') s")
  case None
  then have "length rest \<le> length (skip_spaces s)"
    using assms by (auto simp: parse_compare_op_def Let_def split: if_splits)
  then show ?thesis using length_skip_spaces [of s] by simp
next
  case (Some r)
  then have "rest = r" using assms by (simp add: parse_compare_op_def)
  with Some have "rest = fst (match_word (skip_spaces s) (ascii ''like''))"
    by (auto simp: consume_word_def Let_def case_prod_beta split: if_splits)
  then show ?thesis using match_word_length [of "skip_spaces s" "ascii ''like''"] length_skip_spaces [of s] by simp
qed

lemma parse_predicate_accepts:
  assumes "parse_predicate schema s = Some (p, rest)"
  shows "predicate_ok schema p" "length rest < length s"
proof -
  obtain name s1 i cmp s2 v where P: "parse_identifier MAX_NAME_SIZE s = Some (name, s1)" "find_column_index schema name = Some i"
    "parse_compare_op s1 = Some (cmp, s2)" "cmp = COMPARE_LIKE \<longrightarrow> col_type (columns schema ! i) = COL_TYPE_VARCHAR"
    "parse_value_for_column (columns schema ! i) s2 = Some (v, rest)" "p = \<lparr>column_index = i, p_op = cmp, p_value = v\<rparr>"
    using assms by (auto simp: parse_predicate_def split: option.splits if_splits)
  note F = find_column_index_name [OF P(2)]
  have "ident_name (col_name (columns schema ! i))"
    using parse_identifier_accepts(1) [OF P(1)] ident_name_ci [OF F(3)] by simp
  then show "predicate_ok schema p"
    using F(1,2) P(4,6) parse_value_accepts(1) [OF P(5)] by (simp add: predicate_ok_def Let_def)
  show "length rest < length s"
    using parse_identifier_accepts(2) [OF P(1)] parse_compare_op_length [OF P(3)] parse_value_accepts(2) [OF P(5)] by simp
qed

end
