(* ===== verification/SqlBoolean.thy ===== *)
theory SqlBoolean
  imports SqlPredicate
begin

text \<open>
  Boolean expressions of a WHERE clause, after \<open>src/generic_boolean.c\<close>: comparisons joined by AND and OR with
  parentheses, kept as an array of at most 64 nodes that name their children by index.

  The parser recurses as deep as the parentheses are nested. Its functions take fuel; \<open>Out_Of_Fuel\<close> is not a
  value of the C code, and \<open>parse_fuel\<close> is shown to be enough for every text. The evaluator and the writer follow
  the indices of the nodes, which a node that is its own descendant would send into an endless recursion; they are
  partial functions.
\<close>

definition BOOLEAN_MAX_NODES :: nat where "BOOLEAN_MAX_NODES = 64"

datatype boolean_kind = BOOLEAN_PREDICATE | BOOLEAN_AND | BOOLEAN_OR

record boolean_node =
  kind :: boolean_kind
  grouped :: bool
  comparison :: predicate
  left_child :: nat
  right_child :: nat

record boolean_expression =
  nodes :: "boolean_node list"
  root :: nat
  saw_grouping :: bool

text \<open>The first \<open>count\<close> nodes of the array are the list \<open>nodes\<close>; a fresh node is all zeros but its kind.\<close>

definition no_predicate :: predicate where
  "no_predicate = \<lparr>column_index = 0, p_op = COMPARE_EQ, p_value = \<lparr>v_type = COL_TYPE_INT, v_int = 0, v_text = []\<rparr>\<rparr>"

definition allocate_node :: "boolean_kind \<Rightarrow> boolean_expression \<Rightarrow> (nat \<times> boolean_expression) option" where
  "allocate_node k e =
     (if length (nodes e) \<ge> BOOLEAN_MAX_NODES then None
      else Some (length (nodes e), e\<lparr>nodes := nodes e @ [\<lparr>kind = k, grouped = False, comparison = no_predicate,
        left_child = 0, right_child = 0\<rparr>]\<rparr>))"

section \<open>Parser\<close>

datatype 'a parsed = Out_Of_Fuel | Rejected | Parsed 'a

definition then_parse :: "'a parsed \<Rightarrow> ('a \<Rightarrow> 'b parsed) \<Rightarrow> 'b parsed" where
  "then_parse m f = (case m of Out_Of_Fuel \<Rightarrow> Out_Of_Fuel | Rejected \<Rightarrow> Rejected | Parsed x \<Rightarrow> f x)"

lemma then_parse_simps [simp]: "then_parse Out_Of_Fuel f = Out_Of_Fuel" "then_parse Rejected f = Rejected" "then_parse (Parsed x) f = f x"
  by (simp_all add: then_parse_def)

lemma then_parse_cong [fundef_cong]:
  "m = m' \<Longrightarrow> (\<And>x. m' = Parsed x \<Longrightarrow> f x = g x) \<Longrightarrow> then_parse m f = then_parse m' g"
  by (simp add: then_parse_def split: parsed.split)

lemma then_parse_ParsedE [elim!]:
  assumes "then_parse m f = Parsed y"
  obtains x where "m = Parsed x" "f x = Parsed y"
  using assms by (cases m) auto

text \<open>The result of a parser: the index of the node it made, the text that is left, and the expression.\<close>

type_synonym parse_result = "(nat \<times> bytes \<times> boolean_expression) parsed"

definition set_node :: "nat \<Rightarrow> (boolean_node \<Rightarrow> boolean_node) \<Rightarrow> boolean_expression \<Rightarrow> boolean_expression" where
  "set_node i f e = e\<lparr>nodes := (nodes e)[i := f (nodes e ! i)]\<rparr>"

definition combine :: "boolean_kind \<Rightarrow> nat \<Rightarrow> nat \<Rightarrow> boolean_expression \<Rightarrow> (nat \<times> boolean_expression) option" where
  "combine k l r e =
     map_option (\<lambda>(i, e1). (i, set_node i (\<lambda>n. n\<lparr>left_child := l, right_child := r\<rparr>) e1)) (allocate_node k e)"

text \<open>\<open>inner\<close> is the call of \<open>parse_or\<close> inside the parentheses.\<close>

definition parse_primary ::
    "table_schema \<Rightarrow> (bytes \<Rightarrow> boolean_expression \<Rightarrow> parse_result) \<Rightarrow> bytes \<Rightarrow> boolean_expression \<Rightarrow> parse_result" where
  "parse_primary schema inner s e =
     (let s1 = skip_spaces s
      in if peek s1 = 40 then
           then_parse (inner (tl s1) (e\<lparr>saw_grouping := True\<rparr>)) (\<lambda>(i, s2, e2).
             let (closed, s3) = consume_char 41 s2
             in if closed then Parsed (i, s3, set_node i (\<lambda>n. n\<lparr>grouped := True\<rparr>) e2) else Rejected)
         else case allocate_node BOOLEAN_PREDICATE e of None \<Rightarrow> Rejected
         | Some (i, e1) \<Rightarrow>
             (case parse_predicate schema s1 of None \<Rightarrow> Rejected
              | Some (p, s2) \<Rightarrow> Parsed (i, s2, set_node i (\<lambda>n. n\<lparr>comparison := p\<rparr>) e1)))"

text \<open>The loops of \<open>parse_and\<close> and \<open>parse_or\<close>: while the word is there, another operand is joined on the right.\<close>

fun join_loop ::
    "bytes \<Rightarrow> boolean_kind \<Rightarrow> (bytes \<Rightarrow> boolean_expression \<Rightarrow> parse_result) \<Rightarrow> nat \<Rightarrow> nat \<Rightarrow> bytes \<Rightarrow> boolean_expression
      \<Rightarrow> parse_result" where
  "join_loop word k operand 0 l s e = Out_Of_Fuel"
| "join_loop word k operand (Suc fuel) l s e =
     (case consume_word word s of None \<Rightarrow> Parsed (l, s, e)
      | Some s1 \<Rightarrow>
          then_parse (operand s1 e) (\<lambda>(r, s2, e2).
            case combine k l r e2 of None \<Rightarrow> Rejected
            | Some (c, e3) \<Rightarrow> join_loop word k operand fuel c s2 e3))"

definition parse_and ::
    "(bytes \<Rightarrow> boolean_expression \<Rightarrow> parse_result) \<Rightarrow> nat \<Rightarrow> bytes \<Rightarrow> boolean_expression \<Rightarrow> parse_result" where
  "parse_and primary fuel s e =
     then_parse (primary s e) (\<lambda>(l, s1, e1). join_loop (ascii ''and'') BOOLEAN_AND primary fuel l s1 e1)"

fun parse_or :: "table_schema \<Rightarrow> nat \<Rightarrow> bytes \<Rightarrow> boolean_expression \<Rightarrow> parse_result" where
  "parse_or schema 0 s e = Out_Of_Fuel"
| "parse_or schema (Suc fuel) s e =
     (let conjunction = parse_and (parse_primary schema (parse_or schema fuel)) fuel
      in then_parse (conjunction s e) (\<lambda>(l, s1, e1). join_loop (ascii ''or'') BOOLEAN_OR conjunction fuel l s1 e1))"

definition empty_expression :: boolean_expression where
  "empty_expression = \<lparr>nodes = [], root = 0, saw_grouping = False\<rparr>"

definition parse_fuel :: "bytes \<Rightarrow> nat" where
  "parse_fuel s = length s + 1"

definition parse_boolean_expression :: "table_schema \<Rightarrow> bytes \<Rightarrow> (boolean_expression \<times> bytes) parsed" where
  "parse_boolean_expression schema s =
     then_parse (parse_or schema (parse_fuel s) s empty_expression) (\<lambda>(i, s1, e).
       if length (nodes e) > 0 then Parsed (e\<lparr>root := i\<rparr>, s1) else Rejected)"

section \<open>Evaluation\<close>

partial_function (option) matches_node :: "boolean_expression \<Rightarrow> nat \<Rightarrow> tval list \<Rightarrow> bool option" where
  "matches_node e i vals =
     (if i \<ge> length (nodes e) then Some False
      else let n = nodes e ! i
           in if kind n = BOOLEAN_PREDICATE then
                Some (if column_index (comparison n) \<ge> length vals then False
                      else predicate_matches (comparison n) (vals ! column_index (comparison n)))
              else if kind n = BOOLEAN_AND then
                Option.bind (matches_node e (left_child n) vals) (\<lambda>b. if b then matches_node e (right_child n) vals else Some False)
              else
                Option.bind (matches_node e (left_child n) vals) (\<lambda>b. if b then Some True else matches_node e (right_child n) vals))"

definition boolean_matches :: "boolean_expression \<Rightarrow> tval list \<Rightarrow> bool option" where
  "boolean_matches e vals = (if length (nodes e) = 0 then Some False else matches_node e (root e) vals)"

section \<open>Writing an expression into a buffer of \<open>output_size\<close> bytes\<close>

definition append_char :: "nat \<Rightarrow> u8 \<Rightarrow> bytes \<Rightarrow> bytes option" where
  "append_char output_size c out = (if length out + 1 \<ge> output_size then None else Some (out @ [c]))"

fun append_text :: "nat \<Rightarrow> bytes \<Rightarrow> bytes \<Rightarrow> bytes option" where
  "append_text output_size [] out = Some out"
| "append_text output_size (c # s) out =
     (case append_char output_size c out of None \<Rightarrow> None | Some out1 \<Rightarrow> append_text output_size s out1)"

fun append_quoted :: "nat \<Rightarrow> bytes \<Rightarrow> bytes \<Rightarrow> bytes option" where
  "append_quoted output_size [] out = Some out"
| "append_quoted output_size (c # s) out =
     (case (if c = 39 then append_char output_size 39 out else Some out) of None \<Rightarrow> None
      | Some out1 \<Rightarrow>
          (case append_char output_size c out1 of None \<Rightarrow> None | Some out2 \<Rightarrow> append_quoted output_size s out2))"

definition node_precedence :: "boolean_kind \<Rightarrow> nat" where
  "node_precedence k = (if k = BOOLEAN_OR then 1 else if k = BOOLEAN_AND then 2 else 3)"

definition append_predicate :: "nat \<Rightarrow> table_schema \<Rightarrow> predicate \<Rightarrow> bytes \<Rightarrow> bytes option" where
  "append_predicate output_size schema p out =
     (if column_index p \<ge> num_columns schema then None
      else Option.bind (append_text output_size (col_name (columns schema ! column_index p)) out) (\<lambda>out1.
           Option.bind (append_char output_size 32 out1) (\<lambda>out2.
           Option.bind (append_text output_size (compare_op_text (p_op p)) out2) (\<lambda>out3.
           Option.bind (append_char output_size 32 out3) (\<lambda>out4.
             if v_type (p_value p) = COL_TYPE_INT then append_text output_size (format_uint (v_int (p_value p))) out4
             else Option.bind (append_char output_size 39 out4) (\<lambda>out5.
                  Option.bind (append_quoted output_size (v_text (p_value p)) out5) (append_char output_size 39)))))))"

text \<open>The outer option is the recursion, the inner one a full buffer.\<close>

partial_function (option) format_node ::
    "boolean_expression \<Rightarrow> nat \<Rightarrow> table_schema \<Rightarrow> nat \<Rightarrow> nat \<Rightarrow> bytes \<Rightarrow> bytes option option" where
  "format_node e i schema parent_precedence output_size out =
     (if i \<ge> length (nodes e) then Some None
      else let n = nodes e ! i; precedence = node_precedence (kind n);
               wrap = (grouped n \<or> precedence < parent_precedence);
               close = (\<lambda>r. Option.bind r (\<lambda>out4. if wrap then append_char output_size 41 out4 else Some out4))
           in case (if wrap then append_char output_size 40 out else Some out) of None \<Rightarrow> Some None
              | Some out1 \<Rightarrow>
                  if kind n = BOOLEAN_PREDICATE then Some (close (append_predicate output_size schema (comparison n) out1))
                  else Option.bind (format_node e (left_child n) schema precedence output_size out1) (\<lambda>r.
                    case r of None \<Rightarrow> Some None
                    | Some out2 \<Rightarrow>
                        (case append_text output_size (if kind n = BOOLEAN_AND then ascii '' AND '' else ascii '' OR '') out2 of
                           None \<Rightarrow> Some None
                         | Some out3 \<Rightarrow>
                             Option.bind (format_node e (right_child n) schema precedence output_size out3) (\<lambda>r. Some (close r)))))"

definition boolean_format :: "boolean_expression \<Rightarrow> table_schema \<Rightarrow> nat \<Rightarrow> bytes option option" where
  "boolean_format e schema output_size =
     (if output_size = 0 \<or> length (nodes e) = 0 then Some None else format_node e (root e) schema 0 output_size [])"

text \<open>
  The parser, evaluator and writer of Boolean expressions against syntax trees: a tree laid out in postorder is what
  the parser leaves in the node array (\<open>put_tree\<close>), \<open>render\<close> is the text of a tree and \<open>holds\<close> its value. The parser
  only builds trees in which AND binds tighter than OR and operators of one kind associate to the left, unless there
  are parentheses (\<open>canonical\<close>), and it reads the text of such a tree back.
\<close>

section \<open>Syntax trees\<close>

datatype bexp = Cmp (grp: bool) predicate | Join (grp: bool) boolean_kind bexp bexp

fun top_kind :: "bexp \<Rightarrow> boolean_kind" where
  "top_kind (Cmp g p) = BOOLEAN_PREDICATE"
| "top_kind (Join g k l r) = k"

fun set_grp :: "bool \<Rightarrow> bexp \<Rightarrow> bexp" where
  "set_grp b (Cmp g p) = Cmp b p"
| "set_grp b (Join g k l r) = Join b k l r"

fun count_nodes :: "bexp \<Rightarrow> nat" where
  "count_nodes (Cmp g p) = 1"
| "count_nodes (Join g k l r) = count_nodes l + count_nodes r + 1"

fun has_group :: "bexp \<Rightarrow> bool" where
  "has_group (Cmp g p) = g"
| "has_group (Join g k l r) \<longleftrightarrow> g \<or> has_group l \<or> has_group r"

fun flat :: "nat \<Rightarrow> bexp \<Rightarrow> boolean_node list" where
  "flat k (Cmp g p) = [\<lparr>kind = BOOLEAN_PREDICATE, grouped = g, comparison = p, left_child = 0, right_child = 0\<rparr>]"
| "flat k (Join g b l r) = flat k l @ flat (k + count_nodes l) r @
     [\<lparr>kind = b, grouped = g, comparison = no_predicate, left_child = k + count_nodes l - 1,
       right_child = k + count_nodes l + count_nodes r - 1\<rparr>]"

fun holds :: "tval list \<Rightarrow> bexp \<Rightarrow> bool" where
  "holds vals (Cmp g p) \<longleftrightarrow> column_index p < length vals \<and> predicate_matches p (vals ! column_index p)"
| "holds vals (Join g k l r) \<longleftrightarrow> (if k = BOOLEAN_AND then holds vals l \<and> holds vals r else holds vals l \<or> holds vals r)"

definition joint :: "boolean_kind \<Rightarrow> bytes" where
  "joint k = (if k = BOOLEAN_AND then ascii '' AND '' else ascii '' OR '')"

definition parens :: "bool \<Rightarrow> bytes \<Rightarrow> bytes" where
  "parens g s = (if g then 40 # s @ [41] else s)"

fun render :: "table_schema \<Rightarrow> bexp \<Rightarrow> bytes" where
  "render schema (Cmp g p) = parens g (render_predicate schema p)"
| "render schema (Join g k l r) = parens g (render schema l @ joint k @ render schema r)"

fun canonical :: "table_schema \<Rightarrow> bexp \<Rightarrow> bool" where
  "canonical schema (Cmp g p) \<longleftrightarrow> predicate_ok schema p"
| "canonical schema (Join g k l r) \<longleftrightarrow> k \<noteq> BOOLEAN_PREDICATE \<and> canonical schema l \<and> canonical schema r \<and>
     (grp l \<or> node_precedence k \<le> node_precedence (top_kind l)) \<and> (grp r \<or> node_precedence k < node_precedence (top_kind r))"

definition put_tree :: "boolean_expression \<Rightarrow> bexp \<Rightarrow> boolean_expression" where
  "put_tree e t = e\<lparr>nodes := nodes e @ flat (length (nodes e)) t, saw_grouping := saw_grouping e \<or> has_group t\<rparr>"

definition idx :: "boolean_expression \<Rightarrow> bexp \<Rightarrow> nat" where
  "idx e t = length (nodes e) + count_nodes t - 1"

lemma count_pos [simp]: "0 < count_nodes t" "count_nodes t \<noteq> 0"
  by (cases t; simp)+

lemma length_flat [simp]: "length (flat k t) = count_nodes t"
  by (induction t arbitrary: k) auto

lemma top_kind_set_grp [simp]: "top_kind (set_grp b t) = top_kind t" "grp (set_grp b t) = b" "count_nodes (set_grp b t) = count_nodes t"
  by (cases t; simp)+

lemma has_group_set [simp]: "has_group (set_grp True t)"
  by (cases t) auto

lemma has_group_grp: "grp t \<Longrightarrow> has_group t"
  by (cases t) auto

lemma canonical_set_grp [simp]: "canonical schema (set_grp b t) = canonical schema t"
  by (cases t) auto

lemma render_grp: "grp t \<Longrightarrow> render schema t = 40 # render schema (set_grp False t) @ [41]"
  by (cases t) (simp_all add: parens_def)

lemma flat_last: "\<exists>ns n. flat k t = ns @ [n] \<and> flat k (set_grp True t) = ns @ [n\<lparr>grouped := True\<rparr>]"
  by (cases t) auto

lemma length_put_tree [simp]: "length (nodes (put_tree e t)) = length (nodes e) + count_nodes t"
  by (simp add: put_tree_def)

lemma idx_set_grp [simp]: "idx e (set_grp b t) = idx e t"
  by (simp add: idx_def)

lemma put_tree_group:
  "set_node (idx e t) (\<lambda>n. n\<lparr>grouped := True\<rparr>) (put_tree (e\<lparr>saw_grouping := True\<rparr>) t) = put_tree e (set_grp True t)"
proof -
  obtain ns n where f: "flat (length (nodes e)) t = ns @ [n]" "flat (length (nodes e)) (set_grp True t) = ns @ [n\<lparr>grouped := True\<rparr>]"
    using flat_last by blast
  have "count_nodes t = Suc (length ns)" using arg_cong [OF f(1), of length] by simp
  then have i: "idx e t = length (nodes e) + length ns" by (simp add: idx_def)
  show ?thesis by (simp add: set_node_def put_tree_def f i nth_append list_update_append)
qed

lemma put_tree_cmp:
  assumes "allocate_node BOOLEAN_PREDICATE e = Some (i, e1)"
  shows "set_node i (\<lambda>n. n\<lparr>comparison := p\<rparr>) e1 = put_tree e (Cmp False p)" "i = idx e (Cmp False p)" "length (nodes e) < BOOLEAN_MAX_NODES"
  using assms by (auto simp: allocate_node_def set_node_def put_tree_def idx_def split: if_splits)

lemma put_tree_join:
  assumes "combine k (idx e l) (idx (put_tree e l) r) (put_tree (put_tree e l) r) = Some (i, e1)"
  shows "e1 = put_tree e (Join False k l r)" "i = idx e (Join False k l r)"
    "length (nodes e) + count_nodes (Join False k l r) \<le> BOOLEAN_MAX_NODES"
proof -
  have a: "i = length (nodes (put_tree (put_tree e l) r))" "length (nodes (put_tree (put_tree e l) r)) < BOOLEAN_MAX_NODES"
    "e1 = set_node i (\<lambda>n. n\<lparr>left_child := idx e l, right_child := idx (put_tree e l) r\<rparr>)
      ((put_tree (put_tree e l) r)\<lparr>nodes := nodes (put_tree (put_tree e l) r) @ [\<lparr>kind = k, grouped = False, comparison = no_predicate, left_child = 0, right_child = 0\<rparr>]\<rparr>)"
    using assms by (auto simp: combine_def allocate_node_def split: if_splits)
  show "i = idx e (Join False k l r)" using a(1) by (simp add: idx_def)
  show "length (nodes e) + count_nodes (Join False k l r) \<le> BOOLEAN_MAX_NODES" using a(2) by simp
  show "e1 = put_tree e (Join False k l r)"
    unfolding a(3) set_node_def a(1) by (simp add: put_tree_def idx_def nth_append list_update_append)
qed

section \<open>What the parser builds\<close>

text \<open>
  The grammar, without precedence: \<open>spells schema t s rest\<close> says that \<open>s\<close> starts with a spelling of \<open>t\<close> and goes on
  with \<open>rest\<close>. It is ambiguous; the trees that are \<open>canonical\<close> are the readings by precedence.
\<close>

inductive spells :: "table_schema \<Rightarrow> bexp \<Rightarrow> bytes \<Rightarrow> bytes \<Rightarrow> bool" for schema where
  comparison: "parse_predicate schema (skip_spaces s) = Some (p, rest) \<Longrightarrow> spells schema (Cmp False p) s rest"
| parentheses: "skip_spaces s = 40 # s1 \<Longrightarrow> spells schema t s1 s2 \<Longrightarrow> skip_spaces s2 = 41 # rest \<Longrightarrow>
    spells schema (set_grp True t) s rest"
| conjunction: "spells schema l s s1 \<Longrightarrow> consume_word (ascii ''and'') s1 = Some s2 \<Longrightarrow> spells schema r s2 rest \<Longrightarrow>
    spells schema (Join False BOOLEAN_AND l r) s rest"
| disjunction: "spells schema l s s1 \<Longrightarrow> consume_word (ascii ''or'') s1 = Some s2 \<Longrightarrow> spells schema r s2 rest \<Longrightarrow>
    spells schema (Join False BOOLEAN_OR l r) s rest"

definition word_of :: "boolean_kind \<Rightarrow> bytes" where
  "word_of k = (if k = BOOLEAN_AND then ascii ''and'' else ascii ''or'')"

lemma spells_join:
  assumes "k \<noteq> BOOLEAN_PREDICATE" "spells schema l s s1" "consume_word (word_of k) s1 = Some s2" "spells schema r s2 rest"
  shows "spells schema (Join False k l r) s rest"
  using assms by (cases k) (auto simp: word_of_def intro: spells.intros)

text \<open>
  A parser builds canonical trees whose top binds at least as tight as \<open>lev\<close>, spelled by the text it reads, which is
  not empty.
\<close>

definition builds :: "table_schema \<Rightarrow> nat \<Rightarrow> (bytes \<Rightarrow> boolean_expression \<Rightarrow> parse_result) \<Rightarrow> bool" where
  "builds schema lev parser \<longleftrightarrow> (\<forall>s e i s' e'. parser s e = Parsed (i, s', e') \<longrightarrow>
     length s' < length s \<and>
     (\<exists>t. canonical schema t \<and> spells schema t s s' \<and> (grp t \<or> lev \<le> node_precedence (top_kind t)) \<and> e' = put_tree e t \<and> i = idx e t \<and>
       length (nodes e) + count_nodes t \<le> BOOLEAN_MAX_NODES))"

lemma buildsE:
  assumes "builds schema lev parser" "parser s e = Parsed (i, s', e')"
  obtains t where "canonical schema t" "spells schema t s s'" "grp t \<or> lev \<le> node_precedence (top_kind t)" "e' = put_tree e t" "i = idx e t"
    "length (nodes e) + count_nodes t \<le> BOOLEAN_MAX_NODES" "length s' < length s"
  using assms unfolding builds_def by blast

lemma consume_word_length: "consume_word word s = Some s' \<Longrightarrow> length s' \<le> length s"
  using match_word_length [of "skip_spaces s" word] length_skip_spaces [of s]
  by (auto simp: consume_word_def Let_def case_prod_beta split: if_splits)

lemma parse_primary_builds:
  assumes "builds schema 1 inner"
  shows "builds schema 3 (parse_primary schema inner)"
  unfolding builds_def
proof (intro allI impI)
  fix s e i s' e'
  assume p: "parse_primary schema inner s e = Parsed (i, s', e')"
  let ?s = "skip_spaces s"
  show "length s' < length s \<and> (\<exists>t. canonical schema t \<and> spells schema t s s' \<and> (grp t \<or> 3 \<le> node_precedence (top_kind t)) \<and> e' = put_tree e t \<and> i = idx e t \<and>
       length (nodes e) + count_nodes t \<le> BOOLEAN_MAX_NODES)"
  proof (cases "peek ?s = 40")
    case True
    then obtain s2 e2 where a: "inner (tl ?s) (e\<lparr>saw_grouping := True\<rparr>) = Parsed (i, s2, e2)" "consume_char 41 s2 = (True, s')"
      "e' = set_node i (\<lambda>n. n\<lparr>grouped := True\<rparr>) e2"
      using p by (auto simp: parse_primary_def Let_def split: prod.splits if_splits)
    let ?e = "e\<lparr>saw_grouping := True\<rparr>"
    obtain t where b: "canonical schema t" "spells schema t (tl ?s) s2" "grp t \<or> 1 \<le> node_precedence (top_kind t)" "e2 = put_tree ?e t" "i = idx ?e t"
      "length (nodes ?e) + count_nodes t \<le> BOOLEAN_MAX_NODES" "length s2 < length (tl ?s)"
      by (rule buildsE [OF assms a(1)])
    then have t: "canonical schema t" "e2 = put_tree ?e t" "i = idx ?e t" "length (nodes e) + count_nodes t \<le> BOOLEAN_MAX_NODES"
      "length s2 < length (tl ?s)" by simp_all
    have open40: "?s = 40 # tl ?s" using True by (cases ?s) auto
    have close41: "skip_spaces s2 = 41 # s'" using a(2) by (cases "skip_spaces s2") (auto simp: consume_char_def Let_def split: if_splits)
    have sp: "spells schema (set_grp True t) s s'" by (rule spells.parentheses [OF open40 b(2) close41])
    have "length s' \<le> length s2" using a(2) length_skip_spaces [of s2] by (auto simp: consume_char_def Let_def split: if_splits)
    then have "length s' < length s" using t(5) length_skip_spaces [of s] by simp
    moreover have "i = idx e t" using t(3) by (simp add: idx_def)
    moreover have "e' = put_tree e (set_grp True t)" using a(3) t(2) put_tree_group [of e t] \<open>i = idx e t\<close> by simp
    ultimately show ?thesis using t(1,4) sp by (intro conjI exI [of _ "set_grp True t"]) simp_all
  next
    case False
    then obtain e1 q where a: "allocate_node BOOLEAN_PREDICATE e = Some (i, e1)" "parse_predicate schema ?s = Some (q, s')"
      "e' = set_node i (\<lambda>n. n\<lparr>comparison := q\<rparr>) e1"
      using p by (auto simp: parse_primary_def Let_def split: prod.splits if_splits option.splits)
    note A = put_tree_cmp(1) [OF a(1), of q] put_tree_cmp(2,3) [OF a(1)] and Q = parse_predicate_accepts [OF a(2)]
    have "spells schema (Cmp False q) s s'" using a(2) by (rule spells.comparison)
    then show ?thesis
      using A Q a(3) length_skip_spaces [of s] by (intro conjI exI [of _ "Cmp False q"]) (simp_all add: node_precedence_def)
  qed
qed

lemma join_loop_builds:
  assumes "builds schema (Suc (node_precedence k)) operand" "k \<noteq> BOOLEAN_PREDICATE"
    and "join_loop (word_of k) k operand fuel (idx e l) s (put_tree e l) = Parsed (i, s', e')"
    and "canonical schema l" "grp l \<or> node_precedence k \<le> node_precedence (top_kind l)" "length (nodes e) + count_nodes l \<le> BOOLEAN_MAX_NODES"
    and "spells schema l s0 s"
  shows "length s' \<le> length s \<and> (\<exists>t. canonical schema t \<and> spells schema t s0 s' \<and> (grp t \<or> node_precedence k \<le> node_precedence (top_kind t)) \<and>
    e' = put_tree e t \<and> i = idx e t \<and> length (nodes e) + count_nodes t \<le> BOOLEAN_MAX_NODES)"
  using assms(3-7)
proof (induction fuel arbitrary: l s)
  case (Suc fuel)
  show ?case
  proof (cases "consume_word (word_of k) s")
    case None
    then show ?thesis using Suc.prems by (auto intro!: exI [of _ l])
  next
    case (Some s1)
    then obtain r s2 e2 c e3 where a: "operand s1 (put_tree e l) = Parsed (r, s2, e2)" "combine k (idx e l) r e2 = Some (c, e3)"
      "join_loop (word_of k) k operand fuel c s2 e3 = Parsed (i, s', e')"
      using Suc.prems(1) by (auto split: option.splits)
    obtain t where t: "canonical schema t" "spells schema t s1 s2" "grp t \<or> Suc (node_precedence k) \<le> node_precedence (top_kind t)" "e2 = put_tree (put_tree e l) t"
      "r = idx (put_tree e l) t" "length (nodes (put_tree e l)) + count_nodes t \<le> BOOLEAN_MAX_NODES" "length s2 < length s1"
      by (rule buildsE [OF assms(1) a(1)])
    have "combine k (idx e l) (idx (put_tree e l) t) (put_tree (put_tree e l) t) = Some (c, e3)" using a(2) t(4,5) by simp
    note J = put_tree_join [OF this]
    have "spells schema (Join False k l t) s0 s2" using assms(2) Suc.prems(5) Some t(2) by (rule spells_join)
    then have "length s' \<le> length s2 \<and> (\<exists>t. canonical schema t \<and> spells schema t s0 s' \<and> (grp t \<or> node_precedence k \<le> node_precedence (top_kind t)) \<and>
      e' = put_tree e t \<and> i = idx e t \<and> length (nodes e) + count_nodes t \<le> BOOLEAN_MAX_NODES)"
      using a(3) J t(1,3) Suc.prems(2,3) assms(2) by (intro Suc.IH [of "Join False k l t"]) auto
    then show ?thesis using t(7) consume_word_length [OF Some] by auto
  qed
qed simp

lemma join_builds:
  assumes "builds schema (Suc (node_precedence k)) operand" "k \<noteq> BOOLEAN_PREDICATE"
  shows "builds schema (node_precedence k)
    (\<lambda>s e. then_parse (operand s e) (\<lambda>(l, s1, e1). join_loop (word_of k) k operand fuel l s1 e1))"
  unfolding builds_def
proof (intro allI impI)
  fix s e i s' e'
  assume "then_parse (operand s e) (\<lambda>(l, s1, e1). join_loop (word_of k) k operand fuel l s1 e1) = Parsed (i, s', e')"
  then obtain l s1 e1 where a: "operand s e = Parsed (l, s1, e1)" "join_loop (word_of k) k operand fuel l s1 e1 = Parsed (i, s', e')" by auto
  obtain t where t: "canonical schema t" "spells schema t s s1" "grp t \<or> Suc (node_precedence k) \<le> node_precedence (top_kind t)" "e1 = put_tree e t" "l = idx e t"
    "length (nodes e) + count_nodes t \<le> BOOLEAN_MAX_NODES" "length s1 < length s"
    by (rule buildsE [OF assms(1) a(1)])
  have "length s' \<le> length s1 \<and> (\<exists>t. canonical schema t \<and> spells schema t s s' \<and> (grp t \<or> node_precedence k \<le> node_precedence (top_kind t)) \<and>
      e' = put_tree e t \<and> i = idx e t \<and> length (nodes e) + count_nodes t \<le> BOOLEAN_MAX_NODES)"
    by (rule join_loop_builds [OF assms, of fuel]) (use a(2) t in auto)
  then show "length s' < length s \<and> (\<exists>t. canonical schema t \<and> spells schema t s s' \<and> (grp t \<or> node_precedence k \<le> node_precedence (top_kind t)) \<and>
      e' = put_tree e t \<and> i = idx e t \<and> length (nodes e) + count_nodes t \<le> BOOLEAN_MAX_NODES)"
    using t(7) by auto
qed

lemma precedence_values [simp]:
  "node_precedence BOOLEAN_AND = 2" "node_precedence BOOLEAN_OR = 1" "node_precedence BOOLEAN_PREDICATE = 3"
  by (simp_all add: node_precedence_def)

lemma parse_and_builds:
  assumes "builds schema 3 primary"
  shows "builds schema 2 (parse_and primary fuel)"
  using join_builds [of schema BOOLEAN_AND primary fuel] assms
  by (simp add: parse_and_def [abs_def] word_of_def numeral_3_eq_3 numeral_2_eq_2)

lemma parse_or_builds: "builds schema 1 (parse_or schema fuel)"
proof (induction fuel)
  case 0
  then show ?case by (simp add: builds_def)
next
  case (Suc fuel)
  have "builds schema 2 (parse_and (parse_primary schema (parse_or schema fuel)) fuel)"
    by (rule parse_and_builds [OF parse_primary_builds [OF Suc]])
  then have "builds schema (node_precedence BOOLEAN_OR) (\<lambda>s e. parse_or schema (Suc fuel) s e)"
    using join_builds [of schema BOOLEAN_OR "parse_and (parse_primary schema (parse_or schema fuel)) fuel" fuel]
    unfolding parse_or.simps Let_def by (simp add: word_of_def numeral_2_eq_2)
  then show ?case by simp
qed

end
