(* ===== verification/SqlBooleanRead.thy ===== *)
theory SqlBooleanRead
  imports SqlBoolean
begin

text \<open>The parser of WHERE clauses always ends; writing an expression and parsing the text gives it back; evaluation.\<close>

section \<open>The fuel is enough\<close>

lemma builds_shorter: "builds schema lev parser \<Longrightarrow> parser s e = Parsed (i, s', e') \<Longrightarrow> length s' < length s"
  unfolding builds_def by blast

lemma join_loop_ends:
  assumes "\<And>s e. length s < n \<Longrightarrow> operand s e \<noteq> Out_Of_Fuel" "builds schema lev operand"
    and "length s < n" "length s < fuel"
  shows "join_loop word k operand fuel l s e \<noteq> Out_Of_Fuel"
  using assms(3,4)
proof (induction fuel arbitrary: l s e)
  case (Suc fuel)
  show ?case
  proof (cases "consume_word word s")
    case (Some s1)
    have s1: "length s1 \<le> length s" by (rule consume_word_length [OF Some])
    then have "operand s1 e \<noteq> Out_Of_Fuel" using assms(1) Suc.prems(1) by simp
    moreover have "join_loop word k operand fuel c s2 e3 \<noteq> Out_Of_Fuel" if "operand s1 e = Parsed (r, s2, e2)" for r s2 e2 c e3
      using builds_shorter [OF assms(2) that] s1 Suc.prems by (intro Suc.IH) simp_all
    ultimately show ?thesis using Some by (cases "operand s1 e") (auto split: option.splits)
  qed simp
qed simp

lemma join_ends:
  assumes "\<And>s e. length s < n \<Longrightarrow> operand s e \<noteq> Out_Of_Fuel" "builds schema lev operand"
    and "length s < n" "length s \<le> fuel"
  shows "then_parse (operand s e) (\<lambda>(l, s1, e1). join_loop word k operand fuel l s1 e1) \<noteq> Out_Of_Fuel"
proof -
  have "join_loop word k operand fuel l s1 e1 \<noteq> Out_Of_Fuel" if "operand s e = Parsed (l, s1, e1)" for l s1 e1
    using builds_shorter [OF assms(2) that] assms(3,4) by (intro join_loop_ends [OF assms(1,2)]) simp_all
  then show ?thesis using assms(1) [OF assms(3), of e] by (cases "operand s e") auto
qed

lemma parse_or_ends: "length s < fuel \<Longrightarrow> parse_or schema fuel s e \<noteq> Out_Of_Fuel"
proof (induction fuel arbitrary: s e)
  case (Suc fuel)
  let ?prim = "parse_primary schema (parse_or schema fuel)"
  have prim: "?prim s e \<noteq> Out_Of_Fuel" if s: "length s < Suc fuel" for s e
  proof (cases "peek (skip_spaces s) = 40")
    case True
    then have "skip_spaces s \<noteq> []" by auto
    then have "length (tl (skip_spaces s)) < fuel" using s length_skip_spaces [of s] by (cases "skip_spaces s") auto
    then have "parse_or schema fuel (tl (skip_spaces s)) (e\<lparr>saw_grouping := True\<rparr>) \<noteq> Out_Of_Fuel" by (rule Suc.IH)
    with True show ?thesis
      by (cases "parse_or schema fuel (tl (skip_spaces s)) (e\<lparr>saw_grouping := True\<rparr>)") (auto simp: parse_primary_def Let_def split: prod.split)
  next
    case False
    then show ?thesis by (auto simp: parse_primary_def Let_def split: option.split)
  qed
  have bp: "builds schema 3 ?prim" by (rule parse_primary_builds [OF parse_or_builds])
  have conj: "parse_and ?prim fuel s e \<noteq> Out_Of_Fuel" if "length s < Suc fuel" for s e
    unfolding parse_and_def by (rule join_ends [OF prim bp]) (use that in auto)
  have "then_parse (parse_and ?prim fuel s e) (\<lambda>(l, s1, e1). join_loop (ascii ''or'') BOOLEAN_OR (parse_and ?prim fuel) fuel l s1 e1)
      \<noteq> Out_Of_Fuel"
    by (rule join_ends [OF conj parse_and_builds [OF bp]]) (use Suc.prems in auto)
  then show ?case unfolding parse_or.simps Let_def .
qed simp

lemma parse_boolean_expression_ends: "parse_boolean_expression schema s \<noteq> Out_Of_Fuel"
  using parse_or_ends [of s "parse_fuel s" schema empty_expression]
  by (cases "parse_or schema (parse_fuel s) s empty_expression")
    (simp_all add: parse_boolean_expression_def parse_fuel_def case_prod_beta del: parse_or.simps)

lemma parse_boolean_expression_builds:
  assumes "parse_boolean_expression schema s = Parsed (e, rest)"
  obtains t where "canonical schema t" "spells schema t s rest" "nodes e = flat 0 t" "saw_grouping e = has_group t" "root e = count_nodes t - 1"
    "count_nodes t \<le> BOOLEAN_MAX_NODES"
proof -
  obtain i e1 where p: "parse_or schema (parse_fuel s) s empty_expression = Parsed (i, rest, e1)" "e = e1\<lparr>root := i\<rparr>"
    using assms by (auto simp: parse_boolean_expression_def split: if_splits)
  obtain t where "canonical schema t" "spells schema t s rest" "e1 = put_tree empty_expression t" "i = idx empty_expression t"
    "length (nodes empty_expression) + count_nodes t \<le> BOOLEAN_MAX_NODES"
    using buildsE [OF parse_or_builds p(1)] by blast
  with p(2) show thesis by (intro that [of t]) (simp_all add: put_tree_def idx_def empty_expression_def)
qed

section \<open>Evaluation\<close>

text \<open>The nodes of a tree within a larger array.\<close>

definition laid_out :: "boolean_node list \<Rightarrow> nat \<Rightarrow> bexp \<Rightarrow> bool" where
  "laid_out ns k t \<longleftrightarrow> (\<exists>as bs. ns = as @ flat k t @ bs \<and> length as = k)"

lemma laid_out_Join:
  assumes "laid_out ns k (Join g b l r)"
  shows "laid_out ns k l" "laid_out ns (k + count_nodes l) r"
    "ns ! (k + count_nodes l + count_nodes r) = \<lparr>kind = b, grouped = g, comparison = no_predicate,
      left_child = k + count_nodes l - 1, right_child = k + count_nodes l + count_nodes r - 1\<rparr>"
    "k + count_nodes l + count_nodes r < length ns"
proof -
  let ?n = "\<lparr>kind = b, grouped = g, comparison = no_predicate, left_child = k + count_nodes l - 1,
      right_child = k + count_nodes l + count_nodes r - 1\<rparr>"
  obtain as bs where n: "ns = as @ (flat k l @ flat (k + count_nodes l) r @ [?n]) @ bs" "length as = k"
    using assms by (auto simp: laid_out_def)
  have "ns = as @ flat k l @ (flat (k + count_nodes l) r @ [?n] @ bs)" using n(1) by simp
  then show "laid_out ns k l" using n(2) unfolding laid_out_def by blast
  have "ns = (as @ flat k l) @ flat (k + count_nodes l) r @ ([?n] @ bs)" "length (as @ flat k l) = k + count_nodes l" using n by simp_all
  then show "laid_out ns (k + count_nodes l) r" unfolding laid_out_def by blast
  show "ns ! (k + count_nodes l + count_nodes r) = ?n" "k + count_nodes l + count_nodes r < length ns"
    using n by (simp_all add: nth_append)
qed

lemma laid_out_Cmp:
  assumes "laid_out ns k (Cmp g p)"
  shows "ns ! k = \<lparr>kind = BOOLEAN_PREDICATE, grouped = g, comparison = p, left_child = 0, right_child = 0\<rparr>" "k < length ns"
  using assms by (auto simp: laid_out_def nth_append)

lemma laid_out_whole: "nodes e = flat 0 t \<Longrightarrow> laid_out (nodes e) 0 t"
  by (auto simp: laid_out_def)

lemma matches_node_holds:
  assumes "laid_out (nodes e) k t" "canonical schema t"
  shows "matches_node e (k + count_nodes t - 1) vals = Some (holds vals t)"
  using assms
proof (induction t arbitrary: k)
  case (Cmp g p)
  note L = laid_out_Cmp [OF Cmp(1)]
  show ?case using L by (subst matches_node.simps) (simp add: Let_def not_le)
next
  case (Join g b l r)
  note L = laid_out_Join [OF Join.prems(1)]
  have l: "matches_node e (k + count_nodes l - 1) vals = Some (holds vals l)" using Join.IH(1) [OF L(1)] Join.prems(2) by simp
  have r: "matches_node e (k + count_nodes l + count_nodes r - 1) vals = Some (holds vals r)" using Join.IH(2) [OF L(2)] Join.prems(2) by simp
  have b: "b \<noteq> BOOLEAN_PREDICATE" using Join.prems(2) by simp
  have i: "k + count_nodes (Join g b l r) - 1 = k + count_nodes l + count_nodes r" by simp
  show ?case unfolding i using L(4) b l r by (subst matches_node.simps) (simp add: Let_def L(3))
qed

section \<open>Parsing what was written\<close>

lemma joint_hit:
  assumes "k = BOOLEAN_AND \<or> k = BOOLEAN_OR"
  shows "consume_word (word_of k) (joint k @ s) = Some (32 # s)"
proof -
  have sp: "\<not> isspace 65" "\<not> isspace 79" by (simp_all add: isspace_def)
  have "map tolower (ascii ''AND'') = map tolower (ascii ''and'')" "map tolower (ascii ''OR'') = map tolower (ascii ''or'')"
    by (simp_all add: ascii_def tolower_def isupper_def)
  from consume_word_hit [OF this(1), of "32 # s"] consume_word_hit [OF this(2), of "32 # s"] assms show ?thesis
    by (auto simp: joint_def word_of_def ascii_def sp)
qed

lemma and_misses_or: "consume_word (ascii ''and'') (joint BOOLEAN_OR @ s) = None"
  unfolding ascii_def list.map
  by (rule consume_word_miss) (simp add: joint_def ascii_def isspace_def tolower_def isupper_def)

lemma follows_joint [simp]: "follows (joint k @ s)"
  by (simp add: follows_def joint_def ascii_def)

text \<open>A parser reads back the trees of a level, in front of a text that satisfies \<open>Q\<close>.\<close>

definition reads :: "table_schema \<Rightarrow> nat \<Rightarrow> (bytes \<Rightarrow> bool) \<Rightarrow> nat \<Rightarrow> (bytes \<Rightarrow> boolean_expression \<Rightarrow> parse_result) \<Rightarrow> bool" where
  "reads schema lev Q n parser \<longleftrightarrow> (\<forall>t rest e. canonical schema t \<longrightarrow> (grp t \<or> lev \<le> node_precedence (top_kind t)) \<longrightarrow> Q rest \<longrightarrow>
     length (nodes e) + count_nodes t \<le> BOOLEAN_MAX_NODES \<longrightarrow> length (render schema t @ rest) < n \<longrightarrow>
     parser (render schema t @ rest) e = Parsed (idx e t, rest, put_tree e t))"

lemma readsD:
  assumes "reads schema lev Q n parser" "canonical schema t" "grp t \<or> lev \<le> node_precedence (top_kind t)" "Q rest"
    "length (nodes e) + count_nodes t \<le> BOOLEAN_MAX_NODES" "length (render schema t @ rest) < n"
  shows "parser (render schema t @ rest) e = Parsed (idx e t, rest, put_tree e t)"
  using assms unfolding reads_def by blast

lemma set_grp_same: "set_grp (grp t) t = t"
  by (cases t) auto

lemma put_tree_ungroup:
  assumes "grp t"
  shows "set_node (idx e t) (\<lambda>n. n\<lparr>grouped := True\<rparr>) (put_tree (e\<lparr>saw_grouping := True\<rparr>) (set_grp False t)) = put_tree e t"
proof -
  have "set_grp True (set_grp False t) = t" using assms by (cases t) auto
  with put_tree_group [of e "set_grp False t"] show ?thesis by simp
qed

lemma parse_primary_reads:
  assumes "reads schema 1 (\<lambda>rest. follows rest \<and> consume_word (ascii ''and'') rest = None \<and> consume_word (ascii ''or'') rest = None) n inner"
  shows "reads schema 3 follows (Suc n) (parse_primary schema inner)"
  unfolding reads_def
proof (intro allI impI)
  fix t rest and e :: boolean_expression
  assume A: "canonical schema t" "grp t \<or> 3 \<le> node_precedence (top_kind t)" "follows rest"
    "length (nodes e) + count_nodes t \<le> BOOLEAN_MAX_NODES" "length (render schema t @ rest) < Suc n"
  show "parse_primary schema inner (render schema t @ rest) e = Parsed (idx e t, rest, put_tree e t)"
  proof (cases "grp t")
    case True
    let ?u = "set_grp False t" and ?e = "e\<lparr>saw_grouping := True\<rparr>"
    have r: "render schema t @ rest = 40 # render schema ?u @ 41 # rest" using render_grp [OF True] by simp
    have "tolower 41 = 41" "tolower 97 = 97" "tolower 111 = 111" "\<not> isspace 41" "\<not> isspace 40" by (simp_all add: tolower_def isupper_def isspace_def)
    then have stop: "follows (41 # rest)" "consume_word (ascii ''and'') (41 # rest) = None" "consume_word (ascii ''or'') (41 # rest) = None"
      "skip_spaces (41 # rest) = 41 # rest" "skip_spaces (40 # s) = 40 # s" for s
      unfolding ascii_def list.map by (simp_all add: follows_def consume_word_miss)
    have "node_precedence (top_kind ?u) \<ge> 1" by (simp add: node_precedence_def)
    then have "inner (render schema ?u @ 41 # rest) ?e = Parsed (idx ?e ?u, 41 # rest, put_tree ?e ?u)"
      using A(1,4,5) stop r by (intro readsD [OF assms]) simp_all
    moreover have "idx ?e ?u = idx e t" by (simp add: idx_def)
    ultimately show ?thesis
      unfolding r using stop put_tree_ungroup [OF True, of e] by (simp add: parse_primary_def consume_char_def Let_def)
  next
    case False
    then obtain p where t: "t = Cmp False p" using A(1,2) False by (cases t; cases "top_kind t") auto
    have ok: "predicate_ok schema p" using A(1) t by simp
    note H = render_predicate_head [OF ok, of rest]
    obtain e1 where e1: "allocate_node BOOLEAN_PREDICATE e = Some (length (nodes e), e1)"
      using A(4) t by (auto simp: allocate_node_def)
    show ?thesis
      using H skip_spaces_peek [OF H(1)] parse_predicate_rendered [OF ok A(3)] e1 put_tree_cmp [OF e1]
      by (simp add: parse_primary_def t parens_def Let_def)
  qed
qed

text \<open>How many operators of one kind a tree joins at its top.\<close>

fun spine :: "boolean_kind \<Rightarrow> bexp \<Rightarrow> nat" where
  "spine k (Cmp g p) = 0"
| "spine k (Join g b l r) = (if \<not> g \<and> b = k then Suc (spine k l) else 0)"

lemma spine_length: "spine k t < length (render schema t)"
  by (induction t) (auto simp: parens_def joint_def ascii_def render_predicate_def)

lemma combine_some:
  assumes "length (nodes e) + count_nodes (Join False k l r) \<le> BOOLEAN_MAX_NODES"
  shows "combine k (idx e l) (idx (put_tree e l) r) (put_tree (put_tree e l) r) = Some (idx e (Join False k l r), put_tree e (Join False k l r))"
proof -
  obtain i e1 where c: "combine k (idx e l) (idx (put_tree e l) r) (put_tree (put_tree e l) r) = Some (i, e1)"
    using assms by (auto simp: combine_def allocate_node_def)
  then show ?thesis using put_tree_join [OF c] by simp
qed

lemma join_reads_spine:
  assumes "k = BOOLEAN_AND \<or> k = BOOLEAN_OR" "word = word_of k"
    and "reads schema (Suc (node_precedence k)) Q n operand" "\<And>s. Q (joint k @ s)" "\<And>s e. operand (32 # s) e = operand s e"
    and "canonical schema t" "grp t \<or> node_precedence k \<le> node_precedence (top_kind t)" "Q rest"
    and "length (nodes e) + count_nodes t \<le> BOOLEAN_MAX_NODES" "length (render schema t @ rest) < n" "spine k t < fuel"
  shows "then_parse (operand (render schema t @ rest) e) (\<lambda>(l, s1, e1). join_loop word k operand fuel l s1 e1) =
    join_loop word k operand (fuel - spine k t) (idx e t) rest (put_tree e t)"
  using assms(6-)
proof (induction t arbitrary: rest fuel)
  case (Cmp g p)
  have "Suc (node_precedence k) \<le> node_precedence (top_kind (Cmp g p))" using assms(1) by (auto simp: node_precedence_def)
  then show ?case using readsD [OF assms(3) Cmp(1) _ Cmp(3-5)] by simp
next
  case (Join g b l r)
  show ?case
  proof (cases "\<not> g \<and> b = k")
    case False
    have "b \<noteq> BOOLEAN_PREDICATE" using Join.prems(1) by simp
    then have "grp (Join g b l r) \<or> Suc (node_precedence k) \<le> node_precedence (top_kind (Join g b l r))"
      using False Join.prems(2) assms(1) by (cases b) auto
    then show ?thesis using readsD [OF assms(3) Join.prems(1) _ Join.prems(3-5)] False by auto
  next
    case True
    let ?rest = "joint k @ render schema r @ rest"
    have whole: "render schema (Join g b l r) @ rest = render schema l @ ?rest" using True by (simp add: parens_def)
    obtain f where f: "fuel - spine k l = Suc f" "fuel - spine k (Join g b l r) = f"
      using Join.prems(6) True by (cases "fuel - spine k l") auto
    have c: "canonical schema l" "canonical schema r" "grp l \<or> node_precedence k \<le> node_precedence (top_kind l)"
      "grp r \<or> Suc (node_precedence k) \<le> node_precedence (top_kind r)" using Join.prems(1) True by auto
    have "then_parse (operand (render schema l @ ?rest) e) (\<lambda>(l, s1, e1). join_loop word k operand fuel l s1 e1) =
        join_loop word k operand (fuel - spine k l) (idx e l) ?rest (put_tree e l)"
      by (rule Join.IH(1)) (use c Join.prems(4-6) True whole assms(4) in auto)
    also have "\<dots> = then_parse (operand (render schema r @ rest) (put_tree e l)) (\<lambda>(r, s2, e2).
            case combine k (idx e l) r e2 of None \<Rightarrow> Rejected
            | Some (c, e3) \<Rightarrow> join_loop word k operand f c s2 e3)"
      unfolding f join_loop.simps using joint_hit [OF assms(1), of "render schema r @ rest"] assms(2,5) by simp
    also have "\<dots> = join_loop word k operand f (idx e (Join False k l r)) rest (put_tree e (Join False k l r))"
    proof -
      have "operand (render schema r @ rest) (put_tree e l) = Parsed (idx (put_tree e l) r, rest, put_tree (put_tree e l) r)"
        by (rule readsD [OF assms(3) c(2,4)]) (use Join.prems(3-5) whole in auto)
      moreover have "combine k (idx e l) (idx (put_tree e l) r) (put_tree (put_tree e l) r) =
          Some (idx e (Join False k l r), put_tree e (Join False k l r))"
        by (rule combine_some) (use Join.prems(4) in simp)
      ultimately show ?thesis by simp
    qed
    finally show ?thesis unfolding whole using f True by simp
  qed
qed

lemma join_reads:
  assumes "k = BOOLEAN_AND \<or> k = BOOLEAN_OR" "word = word_of k"
    and "reads schema (Suc (node_precedence k)) Q n operand" "\<And>s. Q (joint k @ s)" "\<And>s e. operand (32 # s) e = operand s e"
    and "n \<le> Suc fuel"
  shows "reads schema (node_precedence k) (\<lambda>rest. Q rest \<and> consume_word word rest = None) n
    (\<lambda>s e. then_parse (operand s e) (\<lambda>(l, s1, e1). join_loop word k operand fuel l s1 e1))"
  unfolding reads_def
proof (intro allI impI)
  fix t rest and e :: boolean_expression
  assume A: "canonical schema t" "grp t \<or> node_precedence k \<le> node_precedence (top_kind t)" "Q rest \<and> consume_word word rest = None"
    "length (nodes e) + count_nodes t \<le> BOOLEAN_MAX_NODES" "length (render schema t @ rest) < n"
  have sp: "spine k t < fuel" using spine_length [of k t schema] A(5) assms(6) by simp
  then obtain f where "fuel - spine k t = Suc f" by (cases "fuel - spine k t") auto
  then show "then_parse (operand (render schema t @ rest) e) (\<lambda>(l, s1, e1). join_loop word k operand fuel l s1 e1) =
      Parsed (idx e t, rest, put_tree e t)"
    using join_reads_spine [OF assms(1-5) A(1,2) _ A(4,5) sp] A(3) by simp
qed

end
