(* ===== verification/SqlWhere.thy ===== *)
theory SqlWhere
  imports SqlBooleanRead
begin

text \<open>Writing an expression, and the properties of WHERE clauses.\<close>

section \<open>The parser reads the text of a canonical tree\<close>

lemma parse_primary_blank: "parse_primary schema inner (32 # s) e = parse_primary schema inner s e"
proof -
  have "skip_spaces (32 # s) = skip_spaces s" by (simp add: isspace_def)
  then show ?thesis by (simp add: parse_primary_def)
qed

lemma parse_or_reads:
  "reads schema 1 (\<lambda>rest. follows rest \<and> consume_word (ascii ''and'') rest = None \<and> consume_word (ascii ''or'') rest = None)
     n (parse_or schema n)"
proof (induction n)
  case 0
  then show ?case by (simp add: reads_def)
next
  case (Suc n)
  let ?prim = "parse_primary schema (parse_or schema n)"
  have prim: "reads schema (Suc (node_precedence BOOLEAN_AND)) follows (Suc n) ?prim"
    using parse_primary_reads [OF Suc] by (simp add: numeral_3_eq_3 numeral_2_eq_2)
  have conj: "reads schema (Suc (node_precedence BOOLEAN_OR)) (\<lambda>rest. follows rest \<and> consume_word (ascii ''and'') rest = None) (Suc n)
      (parse_and ?prim n)"
    using join_reads [where k = BOOLEAN_AND and word = "ascii ''and''", OF _ _ prim, of n] parse_primary_blank
    by (simp add: parse_and_def [abs_def] word_of_def numeral_2_eq_2)
  have "reads schema (node_precedence BOOLEAN_OR) (\<lambda>rest. (follows rest \<and> consume_word (ascii ''and'') rest = None) \<and> consume_word (ascii ''or'') rest = None)
      (Suc n) (\<lambda>s e. parse_or schema (Suc n) s e)"
    unfolding parse_or.simps Let_def
    by (rule join_reads [where k = BOOLEAN_OR, OF _ _ conj]) (simp_all add: and_misses_or parse_and_def parse_primary_blank word_of_def)
  then show ?case by (simp add: conj_assoc)
qed

lemma flat_not_Nil: "flat k t \<noteq> []"
  by (cases t) auto

lemma parse_rendered:
  assumes "canonical schema t" "count_nodes t \<le> BOOLEAN_MAX_NODES"
  shows "parse_boolean_expression schema (render schema t) =
    Parsed (\<lparr>nodes = flat 0 t, root = count_nodes t - 1, saw_grouping = has_group t\<rparr>, [])"
proof -
  have stop: "follows []" "consume_word (ascii ''and'') [] = None" "consume_word (ascii ''or'') [] = None"
    by (simp_all add: follows_def consume_word_def ascii_def)
  have "node_precedence (top_kind t) \<ge> 1" by (simp add: node_precedence_def)
  then have "parse_or schema (parse_fuel (render schema t)) (render schema t @ []) empty_expression =
      Parsed (idx empty_expression t, [], put_tree empty_expression t)"
    using assms stop by (intro readsD [OF parse_or_reads]) (simp_all add: parse_fuel_def empty_expression_def)
  then show ?thesis by (simp add: parse_boolean_expression_def flat_not_Nil put_tree_def idx_def empty_expression_def del: parse_or.simps)
qed

section \<open>The buffer\<close>

definition fit :: "nat \<Rightarrow> bytes \<Rightarrow> bytes option" where
  "fit cap s = (if length s < cap then Some s else None)"

lemma append_char_fit: "append_char cap c out = fit cap (out @ [c])"
  by (simp add: append_char_def fit_def)

lemma append_text_fit: "length out < cap \<Longrightarrow> append_text cap s out = fit cap (out @ s)"
  by (induction s arbitrary: out) (auto simp: append_char_fit fit_def)

lemma append_quoted_fit: "length out < cap \<Longrightarrow> append_quoted cap s out = fit cap (out @ quote_text s)"
  by (induction s arbitrary: out) (auto simp: append_char_fit fit_def quote_text_def)

lemma fit_bind:
  assumes "\<And>out. length out < cap \<Longrightarrow> f out = fit cap (out @ s)"
  shows "Option.bind (fit cap out) f = fit cap (out @ s)"
  using assms by (simp add: fit_def)

lemma append_predicate_fit:
  assumes "length out < cap" "column_index p < num_columns schema"
  shows "append_predicate cap schema p out = fit cap (out @ render_predicate schema p)"
  using assms
  by (simp add: append_predicate_def render_predicate_def render_value_def append_text_fit append_quoted_fit append_char_fit fit_bind
      split: if_split)

lemma format_node_fit:
  assumes "laid_out (nodes e) k t" "canonical schema t" "grp t \<or> pp \<le> node_precedence (top_kind t)" "length out < cap"
  shows "format_node e (k + count_nodes t - 1) schema pp cap out = Some (fit cap (out @ render schema t))"
  using assms
proof (induction t arbitrary: k pp out)
  case (Cmp g p)
  note L = laid_out_Cmp [OF Cmp(1)]
  have c: "column_index p < num_columns schema" using Cmp(2) by (simp add: predicate_ok_def Let_def)
  show ?case
    using L Cmp(3,4) append_predicate_fit [OF _ c]
    by (subst format_node.simps) (auto simp: Let_def not_le parens_def append_char_fit fit_def split: option.splits)
next
  case (Join g b l r)
  note L = laid_out_Join [OF Join.prems(1)]
  have b: "b \<noteq> BOOLEAN_PREDICATE" "canonical schema l" "canonical schema r" "grp l \<or> node_precedence b \<le> node_precedence (top_kind l)"
    "grp r \<or> node_precedence b \<le> node_precedence (top_kind r)" using Join.prems(2) by auto
  have i: "k + count_nodes (Join g b l r) - 1 = k + count_nodes l + count_nodes r" by simp
  have l: "length out < cap \<Longrightarrow> format_node e (k + count_nodes l - 1) schema (node_precedence b) cap out = Some (fit cap (out @ render schema l))" for out
    by (rule Join.IH(1) [OF L(1) b(2,4)])
  have r: "length out < cap \<Longrightarrow> format_node e (k + count_nodes l + count_nodes r - 1) schema (node_precedence b) cap out = Some (fit cap (out @ render schema r))" for out
    by (rule Join.IH(2) [OF L(2) b(3,5)])
  have wrap: "(g \<or> node_precedence b < pp) = g" using Join.prems(3) by auto
  show ?case
    unfolding i using L(4) b(1) l r wrap Join.prems(4)
    by (subst format_node.simps)
      (auto simp: Let_def L(3) parens_def append_char_fit append_text_fit fit_def joint_def split: option.splits)
qed

section \<open>The properties\<close>

text \<open>C8. Reading a WHERE clause always ends, and what it accepts it evaluates as written: the part of the text that was
  read spells a Boolean formula, read with AND binding tighter than OR, and the evaluation of the node array ends with
  the value of this formula.\<close>

theorem where_clause_means_its_formula:
  "parse_boolean_expression schema s \<noteq> Out_Of_Fuel \<and>
   (\<forall>e rest. parse_boolean_expression schema s = Parsed (e, rest) \<longrightarrow>
     (\<exists>t. spells schema t s rest \<and> canonical schema t \<and> (\<forall>vals. boolean_matches e vals = Some (holds vals t))))"
proof (intro conjI allI impI)
  show "parse_boolean_expression schema s \<noteq> Out_Of_Fuel" by (rule parse_boolean_expression_ends)
next
  fix e rest
  assume "parse_boolean_expression schema s = Parsed (e, rest)"
  then obtain t where t: "canonical schema t" "nodes e = flat 0 t" "root e = count_nodes t - 1" "spells schema t s rest"
    by (rule parse_boolean_expression_builds)
  have "boolean_matches e vals = Some (holds vals t)" for vals
    using matches_node_holds [OF laid_out_whole [OF t(2)] t(1), of vals] t(2,3) by (simp add: boolean_matches_def)
  then show "\<exists>t. spells schema t s rest \<and> canonical schema t \<and> (\<forall>vals. boolean_matches e vals = Some (holds vals t))"
    using t(1,4) by blast
qed

text \<open>C7. Writing a WHERE clause and reading it again gives the same expression, node by node, whenever it fits the buffer.\<close>

theorem where_clause_roundtrip:
  assumes "parse_boolean_expression schema s = Parsed (e, rest)" and "boolean_format e schema output_size = Some (Some s')"
  shows "parse_boolean_expression schema s' = Parsed (e, [])"
proof -
  obtain t where t: "canonical schema t" "nodes e = flat 0 t" "saw_grouping e = has_group t" "root e = count_nodes t - 1"
    "count_nodes t \<le> BOOLEAN_MAX_NODES"
    by (rule parse_boolean_expression_builds [OF assms(1)])
  have "0 < output_size" "format_node e (0 + count_nodes t - 1) schema 0 output_size [] = Some (Some s')"
    using assms(2) t(4) by (auto simp: boolean_format_def split: if_splits)
  then have "s' = render schema t"
    using format_node_fit [OF laid_out_whole [OF t(2)] t(1), of 0 "[]" output_size] by (simp add: fit_def split: if_splits)
  then show ?thesis using parse_rendered [OF t(1,5)] t(2-4) by simp
qed

section \<open>An example\<close>

text \<open>A table \<open>people (id INT, name VARCHAR(20))\<close> and the clause \<open>id = 1 OR (name LIKE 'a%' AND id <= 30)\<close>.\<close>

definition people :: table_schema where
  "people = \<lparr>schema_name = ascii ''people'', schema_root = 5, num_columns = 2,
     columns = [\<lparr>col_name = ascii ''id'', col_type = COL_TYPE_INT, col_size = 4, col_offset = 0\<rparr>,
                \<lparr>col_name = ascii ''name'', col_type = COL_TYPE_VARCHAR, col_size = 21, col_offset = 4\<rparr>] @
       replicate 14 \<lparr>col_name = [], col_type = COL_TYPE_INT, col_size = 0, col_offset = 0\<rparr>,
     row_size = 25\<rparr>"

definition int_value :: "nat \<Rightarrow> tval" where
  "int_value n = \<lparr>v_type = COL_TYPE_INT, v_int = n, v_text = []\<rparr>"

definition text_value :: "string \<Rightarrow> tval" where
  "text_value s = \<lparr>v_type = COL_TYPE_VARCHAR, v_int = 0, v_text = ascii s\<rparr>"

definition clause :: bexp where
  "clause = Join False BOOLEAN_OR (Cmp False \<lparr>column_index = 0, p_op = COMPARE_EQ, p_value = int_value 1\<rparr>)
     (Join True BOOLEAN_AND (Cmp False \<lparr>column_index = 1, p_op = COMPARE_LIKE, p_value = text_value ''a%''\<rparr>)
       (Cmp False \<lparr>column_index = 0, p_op = COMPARE_LTE, p_value = int_value 30\<rparr>))"

lemma people_columns:
  "num_columns people = 2"
  "columns people ! 0 = \<lparr>col_name = ascii ''id'', col_type = COL_TYPE_INT, col_size = 4, col_offset = 0\<rparr>"
  "columns people ! 1 = \<lparr>col_name = ascii ''name'', col_type = COL_TYPE_VARCHAR, col_size = 21, col_offset = 4\<rparr>"
  by (simp_all add: people_def)

lemma people_names:
  "ident_name (ascii ''id'')" "ident_name (ascii ''name'')"
  "find_column_index people (ascii ''id'') = Some 0" "find_column_index people (ascii ''name'') = Some 1"
proof -
  show "ident_name (ascii ''id'')" "ident_name (ascii ''name'')"
    by (simp_all add: ident_name_def ascii_def is_identifier_char_def char_class MAX_NAME_SIZE_def)
  have "[0..<2] = [0, 1 :: nat]" by (simp add: upt_rec)
  then show "find_column_index people (ascii ''id'') = Some 0" "find_column_index people (ascii ''name'') = Some 1"
    using people_columns by (simp_all add: find_column_index_def ascii_def tolower_def isupper_def)
qed

lemma clause_canonical: "canonical people clause"
  using people_columns people_names
  by (simp add: clause_def predicate_ok_def value_ok_def int_value_def text_value_def RECORD_TEXT_MAX_def ascii_def)

lemma clause_nodes: "count_nodes clause = 5"
  by (simp add: clause_def)

lemma clause_length: "length (render people clause) < 100"
proof -
  have "format_uint 1 = [49]" "format_uint 30 = [51, 48]" by (simp_all add: format_uint.simps)
  then show ?thesis
    using people_columns
    by (simp add: clause_def render_predicate_def render_value_def int_value_def text_value_def parens_def joint_def
        compare_op_text_def ascii_def quote_text_def)
qed

definition clause_expression :: boolean_expression where
  "clause_expression = \<lparr>nodes = flat 0 clause, root = 4, saw_grouping = True\<rparr>"

lemma clause_parsed: "parse_boolean_expression people (render people clause) = Parsed (clause_expression, [])"
  using parse_rendered [OF clause_canonical] clause_nodes
  by (simp add: clause_expression_def BOOLEAN_MAX_NODES_def clause_def)

lemma clause_formatted: "boolean_format clause_expression people 100 = Some (Some (render people clause))"
proof -
  have "format_node clause_expression (0 + count_nodes clause - 1) people 0 100 [] = Some (fit 100 ([] @ render people clause))"
    by (rule format_node_fit [OF laid_out_whole clause_canonical]) (simp_all add: clause_expression_def)
  then show ?thesis
    using clause_nodes clause_length flat_not_Nil by (simp add: boolean_format_def clause_expression_def fit_def)
qed

theorem where_clause_means_its_formula_witness:
  "\<exists>t. spells people t (render people clause) [] \<and> boolean_matches clause_expression [int_value 7, text_value ''ada''] = Some (holds [int_value 7, text_value ''ada''] t)"
  using where_clause_means_its_formula [of people "render people clause"] clause_parsed by blast

theorem where_clause_roundtrip_witness:
  "boolean_format clause_expression people 100 = Some (Some (render people clause)) \<and>
   parse_boolean_expression people (render people clause) = Parsed (clause_expression, [])"
  using where_clause_roundtrip [OF clause_parsed clause_formatted] clause_formatted by blast

text \<open>The row \<open>(7, 'ada')\<close> satisfies the clause, and \<open>(31, 'ada')\<close> does not.\<close>

lemma clause_value:
  "boolean_matches clause_expression [int_value 7, text_value ''ada''] = Some True"
  "boolean_matches clause_expression [int_value 31, text_value ''ada''] = Some False"
proof -
  have m: "boolean_matches clause_expression vals = Some (holds vals clause)" for vals
    using matches_node_holds [OF laid_out_whole clause_canonical, of clause_expression vals] clause_nodes flat_not_Nil
    by (simp add: boolean_matches_def clause_expression_def)
  show "boolean_matches clause_expression [int_value 7, text_value ''ada''] = Some True"
    "boolean_matches clause_expression [int_value 31, text_value ''ada''] = Some False"
    unfolding m
    by (simp_all add: clause_def predicate_matches_def int_value_def text_value_def compare_values_def ascii_def)
qed

end
