(* ===== verification/ColumnTypes.thy ===== *)
theory ColumnTypes
  imports SqlPredicate
begin

text \<open>Column types in SQL, after \<open>src/column_type.c\<close>: parsing of INT, INTEGER, VARCHAR and VARCHAR(n), and the text of a stored type.\<close>

record column_type_spec =
  cs_type :: column_type
  cs_storage_size :: nat
  cs_declared_capacity :: nat
  cs_explicitly_sized :: bool

definition type_word :: "bytes \<Rightarrow> bytes \<Rightarrow> bytes option" where
  "type_word word input =
     (let (rest, expected) = match_word (skip_spaces input) word
      in if expected \<noteq> [] then None else if isalnum (peek rest) \<or> peek rest = 95 then None else Some rest)"

fun capacity_loop :: "bytes \<Rightarrow> nat \<Rightarrow> (nat \<times> bytes) option" where
  "capacity_loop [] declared = Some (declared, [])"
| "capacity_loop (c # s) declared =
     (if isdigit c then (let d = 10 * declared + digit_value c in if d > 255 then None else capacity_loop s d)
      else Some (declared, c # s))"

definition column_type_parse_prefix :: "bytes \<Rightarrow> (column_type_spec \<times> bytes) option" where
  "column_type_parse_prefix s =
     (case (case type_word (ascii ''INT'') s of Some rest \<Rightarrow> Some rest | None \<Rightarrow> type_word (ascii ''INTEGER'') s) of
        Some rest \<Rightarrow>
          Some (\<lparr>cs_type = COL_TYPE_INT, cs_storage_size = 4, cs_declared_capacity = 0, cs_explicitly_sized = False\<rparr>, rest)
      | None \<Rightarrow>
          (case type_word (ascii ''VARCHAR'') s of None \<Rightarrow> None
           | Some after_word \<Rightarrow>
               if peek (skip_spaces after_word) \<noteq> 40 then
                 Some (\<lparr>cs_type = COL_TYPE_VARCHAR, cs_storage_size = 256, cs_declared_capacity = 255, cs_explicitly_sized = False\<rparr>, after_word)
               else
                 let digits = skip_spaces (tl (skip_spaces after_word))
                 in if \<not> isdigit (peek digits) then None
                    else (case capacity_loop digits 0 of None \<Rightarrow> None
                    | Some (declared, rest) \<Rightarrow>
                        if peek (skip_spaces rest) \<noteq> 41 \<or> declared = 0 then None
                        else Some (\<lparr>cs_type = COL_TYPE_VARCHAR, cs_storage_size = declared + 1, cs_declared_capacity = declared,
                               cs_explicitly_sized = True\<rparr>, tl (skip_spaces rest)))))"

definition column_type_parse :: "bytes \<Rightarrow> column_type_spec option" where
  "column_type_parse s =
     (case column_type_parse_prefix s of None \<Rightarrow> None
      | Some (spec, rest) \<Rightarrow> if skip_spaces rest = [] then Some spec else None)"

definition column_type_is_int :: "bytes \<Rightarrow> bool" where
  "column_type_is_int s \<longleftrightarrow> (case column_type_parse s of None \<Rightarrow> False | Some spec \<Rightarrow> cs_type spec = COL_TYPE_INT)"

definition column_type_is_varchar :: "bytes \<Rightarrow> bool" where
  "column_type_is_varchar s \<longleftrightarrow> (case column_type_parse s of None \<Rightarrow> False | Some spec \<Rightarrow> cs_type spec = COL_TYPE_VARCHAR)"

text \<open>\<open>snprintf\<close> returns the length of the whole text, which must fit with its NUL.\<close>

definition column_type_format :: "table_column \<Rightarrow> nat \<Rightarrow> bytes option" where
  "column_type_format column output_size =
     (if output_size = 0 then None
      else if col_type column = COL_TYPE_INT then
        if col_size column \<noteq> 4 then None else if length (ascii ''INT'') < output_size then Some (ascii ''INT'') else None
      else if col_type column = COL_TYPE_VARCHAR then
        if col_size column = 0 then None
        else let s = ascii ''VARCHAR('' @ format_uint (col_size column - 1) @ ascii '')''
             in if length s < output_size then Some s else None
      else None)"

section \<open>Round trip\<close>

lemma capacity_loop_bound: "capacity_loop s d = Some (n, rest) \<Longrightarrow> d \<le> 255 \<Longrightarrow> n \<le> 255"
  by (induction s d rule: capacity_loop.induct) (auto simp: Let_def split: if_splits)

lemma parse_prefix_spec:
  assumes "column_type_parse_prefix s = Some (spec, rest)"
  shows "cs_type spec = COL_TYPE_INT \<and> cs_storage_size spec = 4 \<and> cs_declared_capacity spec = 0 \<or>
    cs_type spec = COL_TYPE_VARCHAR \<and> cs_storage_size spec = cs_declared_capacity spec + 1 \<and>
    1 \<le> cs_declared_capacity spec \<and> cs_declared_capacity spec \<le> 255"
  using assms capacity_loop_bound by (fastforce simp: column_type_parse_prefix_def Let_def split: option.splits if_splits)

lemma decimal_fold: "fold (\<lambda>d v. 10 * v + digit_value d) ds v \<ge> v"
proof (induction ds arbitrary: v)
  case (Cons d ds)
  have "v \<le> 10 * v + digit_value d" by simp
  then show ?case using Cons [of "10 * v + digit_value d"] by simp
qed simp

lemma capacity_loop_digits:
  assumes "\<forall>c \<in> set ds. isdigit c" "fold (\<lambda>d v. 10 * v + digit_value d) ds v \<le> 255" "\<not> isdigit (peek rest)"
  shows "capacity_loop (ds @ rest) v = Some (fold (\<lambda>d v. 10 * v + digit_value d) ds v, rest)"
  using assms
proof (induction ds arbitrary: v)
  case Nil
  then show ?case by (cases rest) simp_all
next
  case (Cons d ds)
  have "10 * v + digit_value d \<le> 255" using Cons.prems(2) decimal_fold [of "10 * v + digit_value d" ds] by simp
  then show ?case using Cons by (simp add: Let_def)
qed

lemma format_parse_int: "column_type_parse (ascii ''INT'') =
    Some \<lparr>cs_type = COL_TYPE_INT, cs_storage_size = 4, cs_declared_capacity = 0, cs_explicitly_sized = False\<rparr>"
  by (simp add: column_type_parse_def column_type_parse_prefix_def type_word_def ascii_def isspace_def isalnum_def isalpha_def isupper_def
      islower_def isdigit_def)

lemma format_parse_varchar:
  assumes "1 \<le> n" "n \<le> 255"
  shows "column_type_parse (ascii ''VARCHAR('' @ format_uint n @ ascii '')'') =
    Some \<lparr>cs_type = COL_TYPE_VARCHAR, cs_storage_size = n + 1, cs_declared_capacity = n, cs_explicitly_sized = True\<rparr>"
proof -
  have cl: "\<not> isspace 86" "\<not> isspace 40" "\<not> isspace 41" "\<not> isdigit 41" "\<not> isalnum 40" by (simp_all add: char_class)
  have word: "type_word (ascii ''VARCHAR'') (ascii ''VARCHAR('' @ r) = Some (40 # r)"
    "type_word (ascii ''INT'') (ascii ''VARCHAR('' @ r) = None" "type_word (ascii ''INTEGER'') (ascii ''VARCHAR('' @ r) = None" for r
    using cl by (simp_all add: type_word_def ascii_def tolower_def isupper_def)
  obtain d ds where ds: "format_uint n = d # ds" by (cases "format_uint n") auto
  have d: "isdigit d" "\<not> isspace d" using format_uint_digits [of n] by (auto simp: ds char_class)
  have "capacity_loop (format_uint n @ [41]) 0 = Some (n, [41])"
    using capacity_loop_digits [OF format_uint_digits, of n 0 "[41]"] assms(2) decimal_format [of n] cl
    by (simp add: decimal_def)
  moreover have "skip_spaces (format_uint n @ [41]) = format_uint n @ [41]" "peek (format_uint n @ [41]) = d" using d by (simp_all add: ds)
  ultimately show ?thesis
    using word [of "format_uint n @ [41]"] cl d assms(1)
    by (simp add: column_type_parse_def column_type_parse_prefix_def Let_def ascii_def)
qed

text \<open>A declared column type survives the catalog: the text written for a column of a parsed type parses to the same
  type, storage size and capacity.\<close>

theorem column_type_roundtrip:
  assumes "column_type_parse s = Some spec" and "col_type column = cs_type spec" and "col_size column = cs_storage_size spec"
    and "column_type_format column output_size = Some s'"
  shows "\<exists>spec'. column_type_parse s' = Some spec' \<and> cs_type spec' = cs_type spec \<and>
    cs_storage_size spec' = cs_storage_size spec \<and> cs_declared_capacity spec' = cs_declared_capacity spec"
proof -
  obtain rest where "column_type_parse_prefix s = Some (spec, rest)"
    using assms(1) by (auto simp: column_type_parse_def split: option.splits if_splits)
  from parse_prefix_spec [OF this] show ?thesis
  proof
    assume "cs_type spec = COL_TYPE_INT \<and> cs_storage_size spec = 4 \<and> cs_declared_capacity spec = 0"
    then show ?thesis using assms(2-4) format_parse_int by (auto simp: column_type_format_def split: if_splits)
  next
    assume v: "cs_type spec = COL_TYPE_VARCHAR \<and> cs_storage_size spec = cs_declared_capacity spec + 1 \<and>
      1 \<le> cs_declared_capacity spec \<and> cs_declared_capacity spec \<le> 255"
    then have "s' = ascii ''VARCHAR('' @ format_uint (cs_declared_capacity spec) @ ascii '')''"
      using assms(2-4) by (auto simp: column_type_format_def Let_def split: if_splits)
    then show ?thesis using format_parse_varchar [of "cs_declared_capacity spec"] v by auto
  qed
qed

lemma parse_varchar_20: "column_type_parse (ascii '' varchar ( 20 ) '') =
  Some \<lparr>cs_type = COL_TYPE_VARCHAR, cs_storage_size = 21, cs_declared_capacity = 20, cs_explicitly_sized = True\<rparr>"
  by (simp add: column_type_parse_def column_type_parse_prefix_def type_word_def ascii_def char_class tolower_def digit_value_def Let_def)

theorem column_type_roundtrip_witness:
  "\<exists>spec'. column_type_parse (ascii ''VARCHAR('' @ format_uint 20 @ ascii '')'') = Some spec' \<and> cs_storage_size spec' = 21"
proof -
  let ?c = "\<lparr>col_name = [], col_type = COL_TYPE_VARCHAR, col_size = 21, col_offset = 0\<rparr>"
  have "column_type_format ?c 64 = Some (ascii ''VARCHAR('' @ format_uint 20 @ ascii '')'')"
    by (simp add: column_type_format_def Let_def ascii_def format_uint.simps)
  from column_type_roundtrip [OF parse_varchar_20 _ _ this] show ?thesis by auto
qed

end
