(* ===== verification/NodeLayout.thy ===== *)
theory NodeLayout
  imports Checksum
begin

text \<open>
  The header every tree page of \<open>src/table.h\<close> starts with, sixteen-bit fields, and facts on slices of
  copied buffers that the page formats share.
\<close>

text \<open>The common header of every tree page.\<close>

definition NODE_TYPE_OFFSET :: nat where "NODE_TYPE_OFFSET = 0"
definition IS_ROOT_OFFSET :: nat where "IS_ROOT_OFFSET = NODE_TYPE_OFFSET + 1"
definition PARENT_POINTER_OFFSET :: nat where "PARENT_POINTER_OFFSET = 1 + IS_ROOT_OFFSET"
definition PARENT_POINTER_SIZE :: nat where "PARENT_POINTER_SIZE = 4"
definition COMMON_NODE_HEADER_SIZE :: nat where "COMMON_NODE_HEADER_SIZE = 1 + 1 + 4"
definition NODE_INTERNAL :: u8 where "NODE_INTERNAL = 0"
definition NODE_LEAF :: u8 where "NODE_LEAF = 1"

lemmas node_layout = NODE_TYPE_OFFSET_def IS_ROOT_OFFSET_def PARENT_POINTER_OFFSET_def PARENT_POINTER_SIZE_def
  COMMON_NODE_HEADER_SIZE_def

section \<open>Slices of slices and copies\<close>

lemma slice_slice: "a + n \<le> m \<Longrightarrow> slice a n (slice b m xs) = slice (b + a) n xs"
  by (simp add: slice_def drop_take add.commute min_def)

lemma slice_blit_inside:
  assumes "off \<le> a" "a + n \<le> off + length bs" "off + length bs \<le> length xs"
  shows "slice a n (blit off bs xs) = slice (a - off) n bs"
proof -
  have "slice (a - off) n (slice off (length bs) (blit off bs xs)) = slice (off + (a - off)) n (blit off bs xs)"
    by (rule slice_slice) (use assms in simp)
  with assms show ?thesis by simp
qed

lemma blit_blit_adjacent:
  "off + length bs + length cs \<le> length xs \<Longrightarrow> blit (off + length bs) cs (blit off bs xs) = blit off (bs @ cs) xs"
  by (cases bs) (auto simp: blit_def min_def add_ac)

lemma nth_blit_before [simp]: "i < off \<Longrightarrow> off + length bs \<le> length xs \<Longrightarrow> blit off bs xs ! i = xs ! i"
  by (simp add: nth_blit)

lemma slice_update_other: "i < a \<or> a + n \<le> i \<Longrightarrow> slice a n (xs[i := x]) = slice a n xs"
  by (auto simp: slice_def drop_update_swap take_update_cancel)

lemma drop_blit: "off + length bs \<le> n \<Longrightarrow> n \<le> length xs \<Longrightarrow> drop n (blit off bs xs) = drop n xs"
  by (simp add: blit_def drop_append)

section \<open>Sixteen-bit fields\<close>

definition put_u16 :: "nat \<Rightarrow> bytes" where
  "put_u16 n = write_u16_le (of_nat n)"

definition get_u16 :: "bytes \<Rightarrow> nat" where
  "get_u16 bs = unat (read_u16_le bs)"

lemma get_u16_less: "get_u16 bs < 65536"
  using unsigned_less [of "read_u16_le bs"] by (simp add: get_u16_def)

lemma unat_of_nat_u16: "n < 65536 \<Longrightarrow> unat (of_nat n :: u16) = n"
  by (simp add: unat_of_nat take_bit_nat_eq_self)

interpretation n16: fixed_codec put_u16 get_u16 2 "\<lambda>n. n < 65536"
proof unfold_locales
  show "get_u16 (put_u16 v) = v" if "v < 65536" for v
    using that by (simp add: get_u16_def put_u16_def read_write_u16_le unat_of_nat_u16)
qed (simp_all add: put_u16_def get_u16_def write_read_u16_le get_u16_less [unfolded get_u16_def, simplified])

lemma length_put_u16 [simp]: "length (put_u16 n) = 2"
  by (rule n16.length_enc)

end
