(* ===== verification/SlottedLeaf.thy ===== *)
theory SlottedLeaf
  imports NodeLayout
begin

text \<open>
  The slotted leaf page of \<open>src/slotted_leaf_v2.c\<close>: a header, a directory of 8-byte slots that grows
  upwards in key order, and payload bytes that grow downwards from the end of the usable page. The
  model works on the bytes of the page. A pointer and its capacity are one list of bytes; keys,
  offsets and lengths are naturals, cut to their width where the code stores them.
\<close>

section \<open>Layout\<close>

definition SLOTTED_LEAF_V2_MAGIC :: u32 where "SLOTTED_LEAF_V2_MAGIC = 0x32464C54"
definition SLOTTED_LEAF_V2_VERSION :: u16 where "SLOTTED_LEAF_V2_VERSION = 2"

definition V2_MAGIC_OFFSET :: nat where "V2_MAGIC_OFFSET = COMMON_NODE_HEADER_SIZE"
definition V2_VERSION_OFFSET :: nat where "V2_VERSION_OFFSET = V2_MAGIC_OFFSET + 4"
definition V2_NUM_SLOTS_OFFSET :: nat where "V2_NUM_SLOTS_OFFSET = V2_VERSION_OFFSET + 2"
definition V2_FREE_START_OFFSET :: nat where "V2_FREE_START_OFFSET = V2_NUM_SLOTS_OFFSET + 2"
definition V2_FREE_END_OFFSET :: nat where "V2_FREE_END_OFFSET = V2_FREE_START_OFFSET + 2"
definition V2_NEXT_LEAF_OFFSET :: nat where "V2_NEXT_LEAF_OFFSET = V2_FREE_END_OFFSET + 2"
definition V2_PREV_LEAF_OFFSET :: nat where "V2_PREV_LEAF_OFFSET = V2_NEXT_LEAF_OFFSET + 4"
definition V2_FLAGS_OFFSET :: nat where "V2_FLAGS_OFFSET = V2_PREV_LEAF_OFFSET + 4"
definition V2_HEADER_SIZE :: nat where "V2_HEADER_SIZE = V2_FLAGS_OFFSET + 2"
definition V2_SLOT_SIZE :: nat where "V2_SLOT_SIZE = 8"

lemmas v2_layout = node_layout V2_MAGIC_OFFSET_def V2_VERSION_OFFSET_def V2_NUM_SLOTS_OFFSET_def V2_FREE_START_OFFSET_def
  V2_FREE_END_OFFSET_def V2_NEXT_LEAF_OFFSET_def V2_PREV_LEAF_OFFSET_def V2_FLAGS_OFFSET_def V2_HEADER_SIZE_def
  V2_SLOT_SIZE_def

record v2_slot =
  s_key :: nat
  s_value_offset :: nat
  s_value_length :: nat

section \<open>Reading and writing the page\<close>

definition valid_page :: "bytes \<Rightarrow> bool" where
  "valid_page page \<longleftrightarrow> length page \<ge> PAGE_SIZE"

definition slot_ptr :: "nat \<Rightarrow> nat" where
  "slot_ptr slot_index = V2_HEADER_SIZE + slot_index * V2_SLOT_SIZE"

definition raw_count :: "bytes \<Rightarrow> nat" where
  "raw_count page = get_u16 (slice V2_NUM_SLOTS_OFFSET 2 page)"

definition raw_free_start :: "bytes \<Rightarrow> nat" where
  "raw_free_start page = get_u16 (slice V2_FREE_START_OFFSET 2 page)"

definition raw_free_end :: "bytes \<Rightarrow> nat" where
  "raw_free_end page = get_u16 (slice V2_FREE_END_OFFSET 2 page)"

definition set_count :: "nat \<Rightarrow> bytes \<Rightarrow> bytes" where
  "set_count value page = blit V2_NUM_SLOTS_OFFSET (put_u16 value) page"

definition set_free_start :: "nat \<Rightarrow> bytes \<Rightarrow> bytes" where
  "set_free_start value page = blit V2_FREE_START_OFFSET (put_u16 value) page"

definition set_free_end :: "nat \<Rightarrow> bytes \<Rightarrow> bytes" where
  "set_free_end value page = blit V2_FREE_END_OFFSET (put_u16 value) page"

definition read_slot :: "bytes \<Rightarrow> nat \<Rightarrow> v2_slot" where
  "read_slot page slot_index =
     \<lparr>s_key = get_u32 (slice (slot_ptr slot_index) 4 page),
      s_value_offset = get_u16 (slice (slot_ptr slot_index + 4) 2 page),
      s_value_length = get_u16 (slice (slot_ptr slot_index + 6) 2 page)\<rparr>"

definition write_slot :: "nat \<Rightarrow> v2_slot \<Rightarrow> bytes \<Rightarrow> bytes" where
  "write_slot slot_index slot page =
     blit (slot_ptr slot_index + 6) (put_u16 (s_value_length slot))
       (blit (slot_ptr slot_index + 4) (put_u16 (s_value_offset slot))
         (blit (slot_ptr slot_index) (put_u32 (s_key slot)) page))"

definition slotted_init :: "bytes \<Rightarrow> bool \<times> bytes" where
  "slotted_init page =
     (if \<not> valid_page page then (False, page)
      else
        let p1 = blit 0 (replicate PAGE_USABLE_SIZE 0) page;
            p2 = p1[NODE_TYPE_OFFSET := NODE_LEAF, IS_ROOT_OFFSET := 0];
            p3 = blit PARENT_POINTER_OFFSET (put_u32 0) p2;
            p4 = blit V2_MAGIC_OFFSET (write_u32_le SLOTTED_LEAF_V2_MAGIC) p3;
            p5 = blit V2_VERSION_OFFSET (write_u16_le SLOTTED_LEAF_V2_VERSION) p4
        in (True, set_free_end PAGE_USABLE_SIZE (set_free_start V2_HEADER_SIZE (set_count 0 p5))))"

text \<open>The two loops of the validation: for every slot the bounds of its payload and the key order, and
  against every earlier slot that the payloads do not overlap. The result is the sum of the lengths.\<close>

definition slots_overlap :: "v2_slot \<Rightarrow> v2_slot \<Rightarrow> bool" where
  "slots_overlap current earlier \<longleftrightarrow>
     s_value_offset current < s_value_offset earlier + s_value_length earlier \<and>
     s_value_offset earlier < s_value_offset current + s_value_length current"

fun validate_slots :: "bytes \<Rightarrow> nat \<Rightarrow> nat list \<Rightarrow> nat \<Rightarrow> nat \<Rightarrow> nat option" where
  "validate_slots page free_end [] previous_key total_payload = Some total_payload"
| "validate_slots page free_end (i # is) previous_key total_payload =
     (let current = read_slot page i
      in if s_value_length current = 0 \<or> s_value_offset current < free_end \<or>
            s_value_offset current > PAGE_USABLE_SIZE \<or>
            s_value_length current > PAGE_USABLE_SIZE - s_value_offset current then None
         else if i > 0 \<and> s_key current \<le> previous_key then None
         else if list_ex (\<lambda>j. slots_overlap current (read_slot page j)) [0..<i] then None
         else validate_slots page free_end is (s_key current) (total_payload + s_value_length current))"

definition slotted_validate :: "bytes \<Rightarrow> bool" where
  "slotted_validate page =
     (if \<not> valid_page page then False
      else if page ! NODE_TYPE_OFFSET \<noteq> NODE_LEAF \<or>
        read_u32_le (slice V2_MAGIC_OFFSET 4 page) \<noteq> SLOTTED_LEAF_V2_MAGIC \<or>
        read_u16_le (slice V2_VERSION_OFFSET 2 page) \<noteq> SLOTTED_LEAF_V2_VERSION then False
      else
        let count = raw_count page;
            expected_free_start = V2_HEADER_SIZE + count * V2_SLOT_SIZE;
            free_start = raw_free_start page;
            free_end = raw_free_end page
        in if expected_free_start > PAGE_USABLE_SIZE \<or> free_start \<noteq> expected_free_start \<or>
              free_start > free_end \<or> free_end > PAGE_USABLE_SIZE then False
           else validate_slots page free_end [0..<count] 0 0 = Some (PAGE_USABLE_SIZE - free_end))"

definition slotted_count :: "bytes \<Rightarrow> nat" where
  "slotted_count page = (if \<not> slotted_validate page then 0 else raw_count page)"

definition slotted_free_bytes :: "bytes \<Rightarrow> nat" where
  "slotted_free_bytes page = (if \<not> slotted_validate page then 0 else raw_free_end page - raw_free_start page)"

section \<open>Searching\<close>

function lower_bound_loop :: "bytes \<Rightarrow> nat \<Rightarrow> nat \<Rightarrow> nat \<Rightarrow> nat" where
  "lower_bound_loop page key low high =
     (if low < high then
        let middle = low + (high - low) div 2
        in if s_key (read_slot page middle) < key then lower_bound_loop page key (middle + 1) high
           else lower_bound_loop page key low middle
      else low)"
  by pat_completeness auto
termination
  by (relation "measure (\<lambda>(page, key, low, high). high - low)") auto

declare lower_bound_loop.simps [simp del]

definition lower_bound_key :: "bytes \<Rightarrow> nat \<Rightarrow> nat \<Rightarrow> nat" where
  "lower_bound_key page count key = lower_bound_loop page key 0 count"

definition slotted_find :: "bytes \<Rightarrow> nat \<Rightarrow> (v2_slot \<times> nat) option" where
  "slotted_find page key =
     (if \<not> slotted_validate page then None
      else
        let count = raw_count page; index = lower_bound_key page count key
        in if index \<ge> count then None
           else if s_key (read_slot page index) \<noteq> key then None
           else Some (read_slot page index, index))"

definition slotted_read :: "bytes \<Rightarrow> nat \<Rightarrow> nat \<Rightarrow> bytes option" where
  "slotted_read page key output_capacity =
     (case slotted_find page key of None \<Rightarrow> None
      | Some (slot, _) \<Rightarrow>
          if output_capacity < s_value_length slot then None
          else Some (slice (s_value_offset slot) (s_value_length slot) page))"

section \<open>Changing the page\<close>

definition slotted_insert :: "bytes \<Rightarrow> nat \<Rightarrow> bytes \<Rightarrow> bool \<times> bytes" where
  "slotted_insert page key value =
     (if length value = 0 \<or> \<not> slotted_validate page then (False, page)
      else
        let count = raw_count page; index = lower_bound_key page count key
        in if index < count \<and> s_key (read_slot page index) = key then (False, page)
           else if V2_SLOT_SIZE + length value > slotted_free_bytes page then (False, page)
           else
             let value_offset = raw_free_end page - length value;
                 p1 = blit (slot_ptr index + V2_SLOT_SIZE)
                        (slice (slot_ptr index) ((count - index) * V2_SLOT_SIZE) page) page;
                 p2 = blit value_offset value p1;
                 p3 = write_slot index \<lparr>s_key = key, s_value_offset = value_offset,
                        s_value_length = length value\<rparr> p2;
                 p4 = set_free_end value_offset
                        (set_free_start (V2_HEADER_SIZE + (count + 1) * V2_SLOT_SIZE) (set_count (count + 1) p3))
             in (slotted_validate p4, p4))"

definition copy_page_identity :: "bytes \<Rightarrow> bytes \<Rightarrow> bytes" where
  "copy_page_identity dst src =
     blit V2_FLAGS_OFFSET (slice V2_FLAGS_OFFSET 2 src)
       (blit V2_PREV_LEAF_OFFSET (slice V2_PREV_LEAF_OFFSET 4 src)
         (blit V2_NEXT_LEAF_OFFSET (slice V2_NEXT_LEAF_OFFSET 4 src)
           (blit PARENT_POINTER_OFFSET (slice PARENT_POINTER_OFFSET PARENT_POINTER_SIZE src)
             (dst[IS_ROOT_OFFSET := src ! IS_ROOT_OFFSET]))))"

text \<open>The loop of \<open>rebuild_page\<close> over the slots: whether all inserts succeeded, whether the replaced and
  the omitted key were met, and the scratch page.\<close>

fun rebuild_loop :: "bytes \<Rightarrow> (nat \<times> bytes) option \<Rightarrow> nat option \<Rightarrow> nat list \<Rightarrow> bool \<times> bool \<times> bytes \<Rightarrow>
    bool \<times> bool \<times> bool \<times> bytes" where
  "rebuild_loop page replacement omit_key [] (replaced, omitted, scratch) = (True, replaced, omitted, scratch)"
| "rebuild_loop page replacement omit_key (i # is) (replaced, omitted, scratch) =
     (let slot = read_slot page i
      in if omit_key = Some (s_key slot) then rebuild_loop page replacement omit_key is (replaced, True, scratch)
         else
           let (value, replaced') =
                 (case replacement of
                    Some (replace_key, new_value) \<Rightarrow>
                      if s_key slot = replace_key then (new_value, True)
                      else (slice (s_value_offset slot) (s_value_length slot) page, replaced)
                  | None \<Rightarrow> (slice (s_value_offset slot) (s_value_length slot) page, replaced));
               (ok, scratch') = slotted_insert scratch (s_key slot) value
           in if \<not> ok then (False, replaced', omitted, scratch')
              else rebuild_loop page replacement omit_key is (replaced', omitted, scratch'))"

definition rebuild_page :: "bytes \<Rightarrow> (nat \<times> bytes) option \<Rightarrow> nat option \<Rightarrow> bool \<times> bytes" where
  "rebuild_page page replacement omit_key =
     (if \<not> slotted_validate page then (False, page)
      else
        let (inited, scratch) = slotted_init (replicate PAGE_SIZE 0)
        in if \<not> inited then (False, page)
           else
             let (ok, replaced, omitted, scratch') = rebuild_loop page replacement omit_key
                   [0..<raw_count page] (False, False, copy_page_identity scratch page);
                 ok = (ok \<and> \<not> (replacement \<noteq> None \<and> \<not> replaced) \<and> \<not> (omit_key \<noteq> None \<and> \<not> omitted))
             in if ok then
                  let page' = blit 0 (slice 0 PAGE_USABLE_SIZE scratch') page
                  in (slotted_validate page', page')
                else (False, page))"

definition slotted_update :: "bytes \<Rightarrow> nat \<Rightarrow> bytes \<Rightarrow> bool \<times> bytes" where
  "slotted_update page key value =
     (if length value = 0 \<or> \<not> slotted_validate page then (False, page)
      else case slotted_find page key of None \<Rightarrow> (False, page)
        | Some (old_slot, _) \<Rightarrow>
            if length value > slotted_free_bytes page + s_value_length old_slot then (False, page)
            else rebuild_page page (Some (key, value)) None)"

definition slotted_delete :: "bytes \<Rightarrow> nat \<Rightarrow> bool \<times> bytes" where
  "slotted_delete page key =
     (if \<not> slotted_validate page then (False, page) else rebuild_page page None (Some key))"

definition slotted_compact :: "bytes \<Rightarrow> bool \<times> bytes" where
  "slotted_compact page = rebuild_page page None None"

end
