(* ===== verification/SlottedLeafValid.thy ===== *)
theory SlottedLeafValid
  imports SlottedLeaf
begin

text \<open>
  Correctness of the slotted leaf: what the validation says about a page, the binary search, and that
  every operation acts on the entries of a valid page as on a sorted association list with a bound on
  its size.
\<close>

declare v2_layout [simp] PAGE_USABLE_SIZE_eq [simp]

section \<open>The slot codec\<close>

definition enc_slot :: "v2_slot \<Rightarrow> bytes" where
  "enc_slot s = put_u32 (s_key s) @ put_u16 (s_value_offset s) @ put_u16 (s_value_length s)"

definition dec_slot :: "bytes \<Rightarrow> v2_slot" where
  "dec_slot bs = \<lparr>s_key = get_u32 (slice 0 4 bs), s_value_offset = get_u16 (slice 4 2 bs),
     s_value_length = get_u16 (slice 6 2 bs)\<rparr>"

definition slot_fits_fields :: "v2_slot \<Rightarrow> bool" where
  "slot_fits_fields s \<longleftrightarrow> s_key s < 2 ^ 32 \<and> s_value_offset s < 65536 \<and> s_value_length s < 65536"

lemma slices_of_slot: "length bs = 8 \<Longrightarrow> slice 0 4 bs @ slice 4 2 bs @ slice 6 2 bs = bs"
proof -
  assume l: "length bs = 8"
  have "slice 6 2 bs = drop 6 bs" using l by (simp add: slice_def)
  moreover have "slice 4 2 bs @ drop 6 bs = drop 4 bs"
    using append_take_drop_id [of 2 "drop 4 bs"] by (simp add: slice_def)
  ultimately show ?thesis using append_take_drop_id [of 4 bs] by (simp add: slice_def)
qed

interpretation slot: fixed_codec enc_slot dec_slot 8 slot_fits_fields
proof unfold_locales
  fix v assume "slot_fits_fields v"
  moreover have "slice 0 4 (enc_slot v) = put_u32 (s_key v)" "slice 4 2 (enc_slot v) = put_u16 (s_value_offset v)"
    "slice 6 2 (enc_slot v) = put_u16 (s_value_length v)"
    by (simp_all add: enc_slot_def slice_def)
  ultimately show "dec_slot (enc_slot v) = v"
    by (simp add: dec_slot_def slot_fits_fields_def n32.dec_enc n16.dec_enc)
next
  fix bs :: bytes assume "length bs = 8"
  then show "enc_slot (dec_slot bs) = bs"
    using slices_of_slot [of bs] by (simp add: enc_slot_def dec_slot_def n32.enc_dec n16.enc_dec)
  show "slot_fits_fields (dec_slot bs)"
    using get_u32_less by (simp add: slot_fits_fields_def dec_slot_def get_u16_less)
qed (simp add: enc_slot_def)

lemma slot_ptr_eq [simp]: "slot_ptr i = 28 + 8 * i"
  by (simp add: slot_ptr_def)

lemma read_slot_dec: "read_slot page i = dec_slot (slice (28 + 8 * i) 8 page)"
  by (simp add: read_slot_def dec_slot_def slice_slice)

lemma write_slot_enc:
  assumes "28 + 8 * i + 8 \<le> length page"
  shows "write_slot i s page = blit (28 + 8 * i) (enc_slot s) page"
proof -
  have "blit (28 + 8 * i + 4) (put_u16 (s_value_offset s)) (blit (28 + 8 * i) (put_u32 (s_key s)) page)
      = blit (28 + 8 * i) (put_u32 (s_key s) @ put_u16 (s_value_offset s)) page" (is "?a = ?b")
    using blit_blit_adjacent [of "28 + 8 * i" "put_u32 (s_key s)" "put_u16 (s_value_offset s)" page] assms by simp
  moreover have "blit (28 + 8 * i + 6) (put_u16 (s_value_length s)) ?b = blit (28 + 8 * i) (enc_slot s) page"
    using blit_blit_adjacent [of "28 + 8 * i" "put_u32 (s_key s) @ put_u16 (s_value_offset s)" "put_u16 (s_value_length s)" page]
      assms by (simp add: enc_slot_def)
  ultimately show ?thesis by (simp add: write_slot_def)
qed

section \<open>What the validation checks\<close>

definition slots :: "bytes \<Rightarrow> v2_slot list" where
  "slots page = map (read_slot page) [0..<raw_count page]"

definition payload_size :: "v2_slot list \<Rightarrow> nat" where
  "payload_size ss = sum_list (map s_value_length ss)"

definition slots_ok :: "nat \<Rightarrow> v2_slot list \<Rightarrow> bool" where
  "slots_ok free_end ss \<longleftrightarrow>
     (\<forall>s\<in>set ss. 0 < s_value_length s \<and> free_end \<le> s_value_offset s \<and>
        s_value_offset s + s_value_length s \<le> PAGE_USABLE_SIZE) \<and>
     sorted_wrt (\<lambda>s t. s_key s < s_key t) ss \<and>
     sorted_wrt (\<lambda>s t. \<not> slots_overlap t s) ss"

definition header_ok :: "bytes \<Rightarrow> bool" where
  "header_ok page \<longleftrightarrow> valid_page page \<and> page ! 0 = NODE_LEAF \<and>
     read_u32_le (slice 6 4 page) = SLOTTED_LEAF_V2_MAGIC \<and> read_u16_le (slice 10 2 page) = SLOTTED_LEAF_V2_VERSION"

definition slot_valid :: "bytes \<Rightarrow> nat \<Rightarrow> nat \<Rightarrow> bool" where
  "slot_valid page free_end k \<longleftrightarrow>
     (let s = read_slot page k
      in 0 < s_value_length s \<and> free_end \<le> s_value_offset s \<and> s_value_offset s + s_value_length s \<le> PAGE_USABLE_SIZE) \<and>
     (k > 0 \<longrightarrow> s_key (read_slot page (k - 1)) < s_key (read_slot page k)) \<and>
     (\<forall>j<k. \<not> slots_overlap (read_slot page k) (read_slot page j))"

lemma validate_slots_Cons:
  assumes "i > 0 \<Longrightarrow> prev = s_key (read_slot page (i - 1))"
  shows "validate_slots page fe (i # is) prev tot = (if slot_valid page fe i then
    validate_slots page fe is (s_key (read_slot page i)) (tot + s_value_length (read_slot page i)) else None)"
proof -
  let ?s = "read_slot page i"
  have fits: "(s_value_length ?s = 0 \<or> s_value_offset ?s < fe \<or> s_value_offset ?s > PAGE_USABLE_SIZE \<or>
      s_value_length ?s > PAGE_USABLE_SIZE - s_value_offset ?s) \<longleftrightarrow>
      \<not> (0 < s_value_length ?s \<and> fe \<le> s_value_offset ?s \<and> s_value_offset ?s + s_value_length ?s \<le> PAGE_USABLE_SIZE)"
    by auto
  have keys: "(i > 0 \<and> s_key ?s \<le> prev) \<longleftrightarrow> \<not> (i > 0 \<longrightarrow> s_key (read_slot page (i - 1)) < s_key ?s)"
    using assms by auto
  have free: "list_ex (\<lambda>j. slots_overlap ?s (read_slot page j)) [0..<i] \<longleftrightarrow>
      \<not> (\<forall>j<i. \<not> slots_overlap ?s (read_slot page j))"
    by (auto simp: list_ex_iff)
  show ?thesis
    unfolding validate_slots.simps Let_def fits keys free slot_valid_def by simp
qed

lemma validate_slots_iff:
  assumes "i \<le> n" and "i > 0 \<Longrightarrow> prev = s_key (read_slot page (i - 1))"
  shows "validate_slots page fe [i..<n] prev tot = Some t \<longleftrightarrow>
    (\<forall>k. i \<le> k \<and> k < n \<longrightarrow> slot_valid page fe k) \<and> t = tot + payload_size (map (read_slot page) [i..<n])"
  using assms
proof (induction "n - i" arbitrary: i prev tot)
  case 0
  then show ?case by (auto simp: payload_size_def)
next
  case (Suc d)
  then have i: "i < n" by simp
  have up: "[i..<n] = i # [Suc i..<n]" using i by (rule upt_conv_Cons)
  have IH: "validate_slots page fe [Suc i..<n] (s_key (read_slot page i)) (tot + s_value_length (read_slot page i)) = Some t \<longleftrightarrow>
    (\<forall>k. Suc i \<le> k \<and> k < n \<longrightarrow> slot_valid page fe k) \<and>
    t = tot + s_value_length (read_slot page i) + payload_size (map (read_slot page) [Suc i..<n])"
    by (rule Suc.hyps(1)) (use Suc.hyps(2) i in auto)
  have split: "(\<forall>k. i \<le> k \<and> k < n \<longrightarrow> Q k) \<longleftrightarrow> Q i \<and> (\<forall>k. Suc i \<le> k \<and> k < n \<longrightarrow> Q k)" for Q
  proof (intro iffI conjI allI impI)
    fix k assume a: "Q i \<and> (\<forall>k. Suc i \<le> k \<and> k < n \<longrightarrow> Q k)" "i \<le> k \<and> k < n"
    then show "Q k" by (cases "k = i") simp_all
  qed (use i in simp_all)
  have pay: "payload_size (map (read_slot page) [i..<n])
      = s_value_length (read_slot page i) + payload_size (map (read_slot page) [Suc i..<n])"
    by (simp add: up payload_size_def)
  have e: "validate_slots page fe [i..<n] prev tot = (if slot_valid page fe i then
      validate_slots page fe [Suc i..<n] (s_key (read_slot page i)) (tot + s_value_length (read_slot page i)) else None)"
    unfolding up by (rule validate_slots_Cons) (rule Suc.prems(2))
  show ?case
  proof (cases "slot_valid page fe i")
    case True
    then show ?thesis unfolding e pay split using IH by (simp only: if_True add.assoc simp_thms)
  next
    case False
    then show ?thesis unfolding e split by (simp only: if_False) simp
  qed
qed

lemma sorted_keys_nth:
  "sorted_wrt (\<lambda>s t. s_key s < s_key t) ss \<longleftrightarrow> (\<forall>k. Suc k < length ss \<longrightarrow> s_key (ss ! k) < s_key (ss ! Suc k))"
  by (rule sorted_wrt_iff_nth_Suc_transp) (auto intro: transpI)

lemma slot_valid_slots_ok: "(\<forall>k<raw_count page. slot_valid page fe k) \<longleftrightarrow> slots_ok fe (slots page)"
proof -
  let ?n = "raw_count page"
  have k: "(\<forall>k<?n. k > 0 \<longrightarrow> s_key (read_slot page (k - 1)) < s_key (read_slot page k)) \<longleftrightarrow>
      sorted_wrt (\<lambda>s t. s_key s < s_key t) (slots page)"
    unfolding sorted_keys_nth
  proof (intro iffI allI impI)
    fix k assume "\<forall>k<?n. 0 < k \<longrightarrow> s_key (read_slot page (k - 1)) < s_key (read_slot page k)" "Suc k < length (slots page)"
    then show "s_key (slots page ! k) < s_key (slots page ! Suc k)" by (auto simp: slots_def)
  next
    fix k assume a: "\<forall>k. Suc k < length (slots page) \<longrightarrow> s_key (slots page ! k) < s_key (slots page ! Suc k)" "k < ?n" "0 < k"
    then show "s_key (read_slot page (k - 1)) < s_key (read_slot page k)" using spec [OF a(1), of "k - 1"] by (simp add: slots_def)
  qed
  have d: "(\<forall>k<?n. \<forall>j<k. \<not> slots_overlap (read_slot page k) (read_slot page j)) \<longleftrightarrow>
      sorted_wrt (\<lambda>s t. \<not> slots_overlap t s) (slots page)"
    by (auto simp: sorted_wrt_iff_nth_less slots_def)
  have g: "(\<forall>k<?n. let s = read_slot page k
      in 0 < s_value_length s \<and> fe \<le> s_value_offset s \<and> s_value_offset s + s_value_length s \<le> PAGE_USABLE_SIZE) \<longleftrightarrow>
      (\<forall>s\<in>set (slots page). 0 < s_value_length s \<and> fe \<le> s_value_offset s \<and>
        s_value_offset s + s_value_length s \<le> PAGE_USABLE_SIZE)"
    by (auto simp: slots_def Let_def)
  show ?thesis
    unfolding slot_valid_def slots_ok_def using g k d by blast
qed

lemma slotted_validate_iff:
  "slotted_validate page \<longleftrightarrow>
     header_ok page \<and> raw_free_start page = 28 + 8 * raw_count page \<and>
     raw_free_start page \<le> raw_free_end page \<and> slots_ok (raw_free_end page) (slots page) \<and>
     raw_free_end page + payload_size (slots page) = PAGE_USABLE_SIZE"
proof -
  have v: "validate_slots page fe [0..<raw_count page] 0 0 = Some t \<longleftrightarrow>
      slots_ok fe (slots page) \<and> t = payload_size (slots page)" for fe t
    using validate_slots_iff [of 0 "raw_count page" 0 page fe 0 t] slot_valid_slots_ok [of page fe] by (simp add: slots_def)
  show ?thesis
    unfolding slotted_validate_def Let_def v header_ok_def by auto
qed

text \<open>
  The binary search over the slots, the entries of a valid page, and the bytes an insertion writes.
\<close>

section \<open>The binary search\<close>

lemma lower_bound_loop_spec:
  assumes "low \<le> high" "high \<le> n"
    and "\<And>i j. i < j \<Longrightarrow> j < n \<Longrightarrow> s_key (read_slot page i) < s_key (read_slot page j)"
    and "\<And>i. i < low \<Longrightarrow> s_key (read_slot page i) < key" "\<And>i. high \<le> i \<Longrightarrow> i < n \<Longrightarrow> key \<le> s_key (read_slot page i)"
    and "r = lower_bound_loop page key low high"
  shows "r \<le> n \<and> (\<forall>i<r. s_key (read_slot page i) < key) \<and> (\<forall>i. r \<le> i \<and> i < n \<longrightarrow> key \<le> s_key (read_slot page i))"
  using assms
proof (induction "high - low" arbitrary: low high rule: less_induct)
  case less
  show ?case
  proof (cases "low < high")
    case False
    then have "r = low" using less.prems(6) by (simp add: lower_bound_loop.simps)
    with less.prems(1,2,4,5) False show ?thesis by simp
  next
    case True
    define middle where "middle = low + (high - low) div 2"
    have m: "low \<le> middle" "middle < high" using True by (auto simp: middle_def)
    show ?thesis
    proof (cases "s_key (read_slot page middle) < key")
      case lt: True
      then have r: "r = lower_bound_loop page key (middle + 1) high"
        using less.prems(6) True by (subst (asm) lower_bound_loop.simps) (simp add: middle_def Let_def)
      have "s_key (read_slot page i) < key" if "i < middle + 1" for i
        using that lt less.prems(3) [of i middle] m less.prems(2) by (cases "i = middle") auto
      from less.hyps [OF _ _ less.prems(2) less.prems(3) this less.prems(5) r] m show ?thesis by simp
    next
      case ge: False
      then have r: "r = lower_bound_loop page key low middle"
        using less.prems(6) True by (subst (asm) lower_bound_loop.simps) (simp add: middle_def Let_def)
      have "key \<le> s_key (read_slot page i)" if "middle \<le> i" "i < n" for i
        using that ge less.prems(3) [of middle i] by (cases "i = middle") auto
      from less.hyps [OF _ _ _ less.prems(3) less.prems(4) this r] m less.prems(2) show ?thesis by simp
    qed
  qed
qed

lemma validD:
  assumes "slotted_validate page"
  shows "PAGE_SIZE \<le> length page" "4092 < length page" "header_ok page" "raw_free_start page = 28 + 8 * raw_count page"
    "28 + 8 * raw_count page \<le> raw_free_end page" "slots_ok (raw_free_end page) (slots page)"
    "raw_free_end page + payload_size (slots page) = 4092" "length (slots page) = raw_count page"
    "slotted_free_bytes page = raw_free_end page - (28 + 8 * raw_count page)"
proof -
  show "PAGE_SIZE \<le> length page" using assms by (simp add: slotted_validate_iff header_ok_def valid_page_def)
  then show "4092 < length page" by (simp add: PAGE_SIZE_def)
  show "header_ok page" "raw_free_start page = 28 + 8 * raw_count page"
    "28 + 8 * raw_count page \<le> raw_free_end page" "slots_ok (raw_free_end page) (slots page)"
    "raw_free_end page + payload_size (slots page) = 4092" "length (slots page) = raw_count page"
    "slotted_free_bytes page = raw_free_end page - (28 + 8 * raw_count page)"
    using assms by (simp_all add: slotted_validate_iff slots_def slotted_free_bytes_def)
qed

lemma nth_slots [simp]: "i < raw_count page \<Longrightarrow> slots page ! i = read_slot page i"
  by (simp add: slots_def)

lemma valid_slot:
  assumes "slotted_validate page" and "i < raw_count page"
  shows "0 < s_value_length (read_slot page i)" "raw_free_end page \<le> s_value_offset (read_slot page i)"
    "s_value_offset (read_slot page i) + s_value_length (read_slot page i) \<le> 4092"
    "\<And>j. i < j \<Longrightarrow> j < raw_count page \<Longrightarrow> s_key (read_slot page i) < s_key (read_slot page j)"
proof -
  have m: "read_slot page i \<in> set (slots page)" using assms(2) by (simp add: slots_def)
  then show "0 < s_value_length (read_slot page i)" "raw_free_end page \<le> s_value_offset (read_slot page i)"
    "s_value_offset (read_slot page i) + s_value_length (read_slot page i) \<le> 4092"
    using validD(6) [OF assms(1)] by (auto simp: slots_ok_def)
  fix j assume "i < j" "j < raw_count page"
  then show "s_key (read_slot page i) < s_key (read_slot page j)"
    using validD(6,8) [OF assms(1)] assms(2) by (auto simp: slots_ok_def sorted_wrt_iff_nth_less)
qed

lemma lower_bound_spec:
  assumes "slotted_validate page" and "r = lower_bound_key page (raw_count page) key"
  shows "r \<le> raw_count page" "\<And>i. i < r \<Longrightarrow> s_key (read_slot page i) < key"
    "\<And>i. r \<le> i \<Longrightarrow> i < raw_count page \<Longrightarrow> key \<le> s_key (read_slot page i)"
  using lower_bound_loop_spec [of 0 "raw_count page" "raw_count page" page key r] valid_slot(4) [OF assms(1)] assms(2)
  by (simp_all add: lower_bound_key_def)

section \<open>The entries of a page\<close>

definition entries :: "bytes \<Rightarrow> (nat \<times> bytes) list" where
  "entries page = map (\<lambda>s. (s_key s, slice (s_value_offset s) (s_value_length s) page)) (slots page)"

definition used_bytes :: "(nat \<times> bytes) list \<Rightarrow> nat" where
  "used_bytes es = sum_list (map (\<lambda>(k, v). 8 + length v) es)"

definition entries_ok :: "(nat \<times> bytes) list \<Rightarrow> bool" where
  "entries_ok es \<longleftrightarrow> sorted_wrt (<) (map fst es) \<and> (\<forall>(k, v)\<in>set es. k < 2 ^ 32 \<and> v \<noteq> []) \<and> used_bytes es \<le> 4064"

lemma length_entries [simp]: "length (entries page) = raw_count page"
  by (simp add: entries_def slots_def)

lemma nth_entries:
  "i < raw_count page \<Longrightarrow> entries page ! i =
    (s_key (read_slot page i), slice (s_value_offset (read_slot page i)) (s_value_length (read_slot page i)) page)"
  by (simp add: entries_def slots_def)

lemma slot_value_length:
  assumes "slotted_validate page" "i < raw_count page"
  shows "length (slice (s_value_offset (read_slot page i)) (s_value_length (read_slot page i)) page) = s_value_length (read_slot page i)"
  using valid_slot(3) [OF assms] validD(2) [OF assms(1)] by simp

lemma used_entries:
  assumes "slotted_validate page"
  shows "used_bytes (entries page) = 8 * raw_count page + payload_size (slots page)"
proof -
  have "sum_list (map (\<lambda>s. 8 + length (slice (s_value_offset s) (s_value_length s) page)) (slots page))
      = sum_list (map (\<lambda>s. 8 + s_value_length s) (slots page))"
    by (rule arg_cong [where f = sum_list]) (auto simp: slots_def slot_value_length [OF assms])
  also have "\<dots> = 8 * raw_count page + payload_size (slots page)"
    using validD(8) [OF assms] by (simp add: sum_list_addf sum_list_triv payload_size_def)
  finally show ?thesis by (simp add: used_bytes_def entries_def o_def)
qed

lemma valid_entries:
  assumes "slotted_validate page"
  shows "entries_ok (entries page)" "slotted_free_bytes page + used_bytes (entries page) = 4064"
proof -
  note V = validD [OF assms]
  show f: "slotted_free_bytes page + used_bytes (entries page) = 4064"
    using V(5,7,9) used_entries [OF assms] by simp
  have "sorted_wrt (<) (map fst (entries page))"
    using V(6) by (simp add: entries_def slots_ok_def sorted_wrt_map o_def)
  moreover have "k < 2 ^ 32 \<and> v \<noteq> []" if "(k, v) \<in> set (entries page)" for k v
  proof -
    from that obtain i where i: "i < raw_count page" "(k, v) = entries page ! i" by (metis in_set_conv_nth length_entries)
    then have "k = get_u32 (slice (28 + 8 * i) 4 page)" "length v = s_value_length (read_slot page i)"
      using slot_value_length [OF assms i(1)] by (auto simp: nth_entries read_slot_def)
    with valid_slot(1) [OF assms i(1)] get_u32_less show ?thesis by auto
  qed
  ultimately show "entries_ok (entries page)" using f by (auto simp: entries_ok_def)
qed

text \<open>The bytes that identify a page and the checksum, which no operation on entries changes.\<close>

definition identity_fields :: "bytes \<Rightarrow> u8 \<times> bytes \<times> bytes" where
  "identity_fields page = (page ! 1, slice 2 4 page, slice 18 10 page)"

definition same_leaf :: "bytes \<Rightarrow> bytes \<Rightarrow> bool" where
  "same_leaf page page' \<longleftrightarrow> length page' = length page \<and> identity_fields page' = identity_fields page \<and>
     drop 4092 page' = drop 4092 page"

lemma same_leaf_refl [simp]: "same_leaf page page"
  by (simp add: same_leaf_def)

lemma same_leaf_trans: "same_leaf p q \<Longrightarrow> same_leaf q r \<Longrightarrow> same_leaf p r"
  by (simp add: same_leaf_def)

section \<open>The bytes an insertion writes\<close>

definition insert_bytes :: "bytes \<Rightarrow> nat \<Rightarrow> nat \<Rightarrow> bytes \<Rightarrow> bytes" where
  "insert_bytes page index key value =
     (let count = raw_count page; value_offset = raw_free_end page - length value;
          p1 = blit (slot_ptr index + V2_SLOT_SIZE) (slice (slot_ptr index) ((count - index) * V2_SLOT_SIZE) page) page;
          p2 = blit value_offset value p1;
          p3 = write_slot index \<lparr>s_key = key, s_value_offset = value_offset, s_value_length = length value\<rparr> p2
      in set_free_end value_offset
           (set_free_start (V2_HEADER_SIZE + (count + 1) * V2_SLOT_SIZE) (set_count (count + 1) p3)))"

text \<open>The state before the header is rewritten, in terms of the page.\<close>

lemma insert_body:
  assumes len: "4092 < length page" and r: "r \<le> c" and vo: "28 + 8 * c + 8 \<le> vo" "vo + length value \<le> 4092"
    and p1: "p1 = blit (28 + 8 * r + 8) (slice (28 + 8 * r) ((c - r) * 8) page) page"
    and p2: "p2 = blit vo value p1" and p3: "p3 = blit (28 + 8 * r) (enc_slot s) p2"
  shows "length p3 = length page"
    and "\<And>i. i < 28 \<Longrightarrow> p3 ! i = page ! i" and "\<And>a n. a + n \<le> 28 \<Longrightarrow> slice a n p3 = slice a n page"
    and "\<And>i. i < r \<Longrightarrow> slice (28 + 8 * i) 8 p3 = slice (28 + 8 * i) 8 page"
    and "slice (28 + 8 * r) 8 p3 = enc_slot s"
    and "\<And>i. r < i \<Longrightarrow> i \<le> c \<Longrightarrow> slice (28 + 8 * i) 8 p3 = slice (28 + 8 * (i - 1)) 8 page"
    and "slice vo (length value) p3 = value"
    and "\<And>a n. vo + length value \<le> a \<Longrightarrow> slice a n p3 = slice a n page"
    and "drop 4092 p3 = drop 4092 page" and "length p2 = length page"
proof -
  let ?m = "slice (28 + 8 * r) ((c - r) * 8) page"
  have b: "28 + 8 * r + (c - r) * 8 = 28 + 8 * c" using r by simp
  have lm: "length ?m = (c - r) * 8" using len vo b by simp
  have f1: "28 + 8 * r + 8 + length ?m \<le> length page" using lm b vo len by simp
  have l1: "length p1 = length page" unfolding p1 by (rule length_blit [OF f1])
  have f2: "vo + length value \<le> length p1" using vo len l1 by simp
  show l2: "length p2 = length page" unfolding p2 using length_blit [OF f2] l1 by simp
  have f3: "28 + 8 * r + length (enc_slot s) \<le> length p2" using vo len l2 r by (simp add: slot.length_enc)
  show l3: "length p3 = length page" unfolding p3 using length_blit [OF f3] l2 by simp
  have e8: "length (enc_slot s) = 8" by (rule slot.length_enc)
  have s1: "slice a n p1 = slice a n page" if "a + n \<le> 28 + 8 * r + 8 \<or> 28 + 8 * c + 8 \<le> a" for a n
    unfolding p1 by (rule slice_blit_other [OF f1]) (use that lm b in auto)
  have s2: "slice a n p2 = slice a n p1" if "a + n \<le> vo \<or> vo + length value \<le> a" for a n
    unfolding p2 by (rule slice_blit_other [OF f2]) (use that in auto)
  have s3: "slice a n p3 = slice a n p2" if "a + n \<le> 28 + 8 * r \<or> 28 + 8 * r + 8 \<le> a" for a n
    unfolding p3 by (rule slice_blit_other [OF f3]) (use that e8 in auto)
  have body: "28 + 8 * r + 8 \<le> vo" using r vo(1) by simp
  show lo: "slice a n p3 = slice a n page" if "a + n \<le> 28" for a n
    using s1 [of a n] s2 [of a n] s3 [of a n] that body by simp
  show "p3 ! i = page ! i" if "i < 28" for i
  proof -
    have "slice i 1 p3 = slice i 1 page" using lo that by simp
    then have "slice i 1 p3 ! 0 = slice i 1 page ! 0" by simp
    then show ?thesis using that len l3 by simp
  qed
  show "slice (28 + 8 * i) 8 p3 = slice (28 + 8 * i) 8 page" if "i < r" for i
    using s1 [of "28 + 8 * i" 8] s2 [of "28 + 8 * i" 8] s3 [of "28 + 8 * i" 8] that body by simp
  show "slice (28 + 8 * r) 8 p3 = enc_slot s"
    unfolding p3 by (rule slice_blit_same [OF f3]) (simp add: e8)
  show "slice (28 + 8 * i) 8 p3 = slice (28 + 8 * (i - 1)) 8 page" if "r < i" "i \<le> c" for i
  proof -
    have "slice (28 + 8 * i) 8 p3 = slice (28 + 8 * i) 8 p1"
      using s2 [of "28 + 8 * i" 8] s3 [of "28 + 8 * i" 8] that vo(1) by simp
    also have "\<dots> = slice (28 + 8 * i - (28 + 8 * r + 8)) 8 ?m"
      unfolding p1 by (rule slice_blit_inside) (use that f1 lm b in auto)
    also have "\<dots> = slice (28 + 8 * r + (28 + 8 * i - (28 + 8 * r + 8))) 8 page"
      by (rule slice_slice) (use that in auto)
    also have "28 + 8 * r + (28 + 8 * i - (28 + 8 * r + 8)) = 28 + 8 * (i - 1)" using that by auto
    finally show ?thesis .
  qed
  show "slice vo (length value) p3 = value"
    using s3 [of vo "length value"] body slice_blit_same [OF f2 refl] by (simp add: p2)
  show "slice a n p3 = slice a n page" if "vo + length value \<le> a" for a n
    using s1 [of a n] s2 [of a n] s3 [of a n] that vo body by simp
  have "drop 4092 p3 = drop 4092 p2" unfolding p3 by (rule drop_blit) (use body vo l2 len e8 in simp_all)
  also have "\<dots> = drop 4092 p1" unfolding p2 by (rule drop_blit) (use vo l1 len in simp_all)
  also have "\<dots> = drop 4092 page" unfolding p1 by (rule drop_blit) (use lm b vo len in simp_all)
  finally show "drop 4092 p3 = drop 4092 page" .
qed

text \<open>Rewriting the three header fields.\<close>

lemma set_header:
  assumes len: "28 \<le> length p" and f: "cnt < 65536" "fs < 65536" "fe < 65536"
    and q: "q = set_free_end fe (set_free_start fs (set_count cnt p))"
  shows "length q = length p" "raw_count q = cnt" "raw_free_start q = fs" "raw_free_end q = fe"
    and "\<And>i. i < 12 \<Longrightarrow> q ! i = p ! i"
    and "\<And>a n. a + n \<le> 12 \<or> 18 \<le> a \<Longrightarrow> slice a n q = slice a n p"
    and "\<And>k. 18 \<le> k \<Longrightarrow> k \<le> length p \<Longrightarrow> drop k q = drop k p"
proof -
  let ?a = "set_count cnt p" and ?b = "set_free_start fs (set_count cnt p)"
  have la: "length ?a = length p" and lb: "length ?b = length p" using len by (simp_all add: set_count_def set_free_start_def)
  show lq: "length q = length p" using len by (simp add: q set_free_end_def lb)
  have fb: "12 + 2 \<le> length p" "14 + 2 \<le> length ?a" "16 + 2 \<le> length ?b" using len la lb by simp_all
  have sa: "slice a n ?a = slice a n p" if "a + n \<le> 12 \<or> 14 \<le> a" for a n
    unfolding set_count_def by (rule slice_blit_other) (use that fb in auto)
  have sb: "slice a n ?b = slice a n ?a" if "a + n \<le> 14 \<or> 16 \<le> a" for a n
    unfolding set_free_start_def by (rule slice_blit_other) (use that fb in \<open>auto simp: set_count_def\<close>)
  have sq: "slice a n q = slice a n ?b" if "a + n \<le> 16 \<or> 18 \<le> a" for a n
    unfolding q set_free_end_def by (rule slice_blit_other) (use that fb in \<open>auto simp: set_count_def set_free_start_def\<close>)
  have c0: "slice 12 2 ?a = put_u16 cnt" unfolding set_count_def by (simp add: fb(1)[simplified])
  have c1: "slice 14 2 ?b = put_u16 fs" unfolding set_free_start_def using fb(2) by simp
  have c2: "slice 16 2 q = put_u16 fe" unfolding q set_free_end_def using fb(3) by simp
  have "slice 12 2 q = put_u16 cnt" "slice 14 2 q = put_u16 fs" "slice 16 2 q = put_u16 fe"
    using c0 c1 c2 sb [of 12 2] sq [of 12 2] sq [of 14 2] by simp_all
  then show "raw_count q = cnt" "raw_free_start q = fs" "raw_free_end q = fe"
    using f by (simp_all add: raw_count_def raw_free_start_def raw_free_end_def n16.dec_enc)
  show s: "slice a n q = slice a n p" if "a + n \<le> 12 \<or> 18 \<le> a" for a n
    using sa [of a n] sb [of a n] sq [of a n] that by auto
  show "q ! i = p ! i" if "i < 12" for i
  proof -
    have "slice i 1 q = slice i 1 p" using s that by simp
    then have "slice i 1 q ! 0 = slice i 1 p ! 0" by simp
    then show ?thesis using that len lq by simp
  qed
  show "drop k q = drop k p" if "18 \<le> k" "k \<le> length p" for k
    using s [of k "length p - k"] lq by (simp add: slice_def that)
qed

end
