(* ===== verification/SlottedLeafInsert.thy ===== *)
theory SlottedLeafInsert
  imports SlottedLeafValid
begin

text \<open>
  Insertion into a valid page: it stays valid, and its entries change as a sorted list does.
\<close>

section \<open>Insertion\<close>

definition put_at :: "nat \<Rightarrow> 'a \<Rightarrow> 'a list \<Rightarrow> 'a list" where
  "put_at r x xs = take r xs @ x # drop r xs"

lemma nth_put_at:
  "r \<le> length xs \<Longrightarrow> i \<le> length xs \<Longrightarrow> put_at r x xs ! i = (if i < r then xs ! i else if i = r then x else xs ! (i - 1))"
proof -
  assume a: "r \<le> length xs" "i \<le> length xs"
  have "r + (i - Suc r) = i - 1" if "r < i" using that by simp
  with a show ?thesis by (cases "i < r"; cases "i = r") (simp_all add: put_at_def nth_append min_def nth_Cons')
qed

lemma length_put_at [simp]: "length (put_at r x xs) = Suc (length xs)"
  by (simp add: put_at_def)

lemma map_put_at: "map f (put_at r x xs) = put_at r (f x) (map f xs)"
  by (simp add: put_at_def take_map drop_map)

lemma set_put_at: "r \<le> length xs \<Longrightarrow> set (put_at r x xs) = insert x (set xs)"
  unfolding put_at_def by (metis append_take_drop_id list.simps(15) set_append Un_insert_right)

lemma sorted_wrt_put_at:
  assumes "sorted_wrt P xs" and "\<And>i. i < r \<Longrightarrow> i < length xs \<Longrightarrow> P (xs ! i) x"
    and "\<And>i. r \<le> i \<Longrightarrow> i < length xs \<Longrightarrow> P x (xs ! i)"
  shows "sorted_wrt P (put_at r x xs)"
proof -
  have "sorted_wrt P (take r xs @ drop r xs)" using assms(1) by simp
  then have s: "sorted_wrt P (take r xs)" "sorted_wrt P (drop r xs)" "\<forall>a\<in>set (take r xs). \<forall>b\<in>set (drop r xs). P a b"
    unfolding sorted_wrt_append by blast+
  have "P a x" if "a \<in> set (take r xs)" for a
    using that assms(2) by (auto simp: in_set_conv_nth)
  moreover have "P x b" if "b \<in> set (drop r xs)" for b
    using that assms(3) by (auto simp: in_set_conv_nth)
  ultimately show ?thesis using s unfolding put_at_def by (auto simp: sorted_wrt_append)
qed

lemma payload_size_put_at: "payload_size (put_at r s ss) = s_value_length s + payload_size ss"
proof -
  have "payload_size ss = payload_size (take r ss) + payload_size (drop r ss)"
    unfolding payload_size_def by (metis append_take_drop_id map_append sum_list_append)
  then show ?thesis by (simp add: put_at_def payload_size_def)
qed

lemma insert_bytes_spec:
  assumes valid: "slotted_validate page" and r: "r \<le> raw_count page" and key: "key < 2 ^ 32"
    and space: "8 + length value \<le> slotted_free_bytes page" "value \<noteq> []"
    and lo: "\<And>i. i < r \<Longrightarrow> s_key (read_slot page i) < key"
    and hi: "\<And>i. r \<le> i \<Longrightarrow> i < raw_count page \<Longrightarrow> key < s_key (read_slot page i)"
  shows "slotted_validate (insert_bytes page r key value) \<and> same_leaf page (insert_bytes page r key value) \<and>
    entries (insert_bytes page r key value) = put_at r (key, value) (entries page)"
proof -
  note V = validD [OF valid]
  let ?c = "raw_count page" and ?fe = "raw_free_end page"
  define vo where "vo = ?fe - length value"
  define s where "s = \<lparr>s_key = key, s_value_offset = vo, s_value_length = length value\<rparr>"
  define p1 where "p1 = blit (28 + 8 * r + 8) (slice (28 + 8 * r) ((?c - r) * 8) page) page"
  define p2 where "p2 = blit vo value p1"
  define p3 where "p3 = blit (28 + 8 * r) (enc_slot s) p2"
  have vo: "28 + 8 * ?c + 8 \<le> vo" "vo + length value = ?fe" "vo + length value \<le> 4092" "?fe \<le> 4092"
    using space(1) V(5,7,9) by (auto simp: vo_def)
  note B = insert_body [OF V(2) r vo(1,3) p1_def p2_def p3_def]
  have sf: "slot_fits_fields s" using key vo by (simp add: slot_fits_fields_def s_def)
  define p4 where "p4 = set_free_end vo (set_free_start (28 + 8 * (?c + 1)) (set_count (?c + 1) p3))"
  have l28: "28 \<le> length p3" and small: "?c + 1 < 65536" "28 + 8 * (?c + 1) < 65536" "vo < 65536" using B(1) V(2) vo by simp_all
  note H = set_header [OF l28 small p4_def]
  note l2 = B(10)
  have w: "write_slot r s p2 = p3"
    unfolding p3_def by (rule write_slot_enc) (use r vo V(2) l2 in simp)
  have "insert_bytes page r key value = p4"
    using w by (simp add: insert_bytes_def Let_def p4_def p2_def p1_def vo_def s_def mult.commute)
  moreover have rs: "read_slot p4 i = put_at r s (slots page) ! i" if i: "i < ?c + 1" for i
  proof -
    have "slice (28 + 8 * i) 8 p4 = slice (28 + 8 * i) 8 p3" by (rule H(6)) simp
    moreover have "slots page ! j = dec_slot (slice (28 + 8 * j) 8 page)" if "j < ?c" for j
      using that by (simp add: read_slot_dec)
    ultimately show ?thesis
      using i r B(4) [of i] B(5) B(6) [of i] V(8) slot.dec_enc [OF sf]
      by (auto simp: read_slot_dec [of p4] nth_put_at)
  qed
  have sl: "slots p4 = put_at r s (slots page)"
  proof (rule nth_equalityI)
    show l: "length (slots p4) = length (put_at r s (slots page))" using V(8) H(2) by (simp add: slots_def [of p4])
    fix i assume "i < length (slots p4)"
    then have "i < ?c + 1" using l V(8) by simp
    then show "slots p4 ! i = put_at r s (slots page) ! i" using rs H(2) by (simp del: upt_Suc)
  qed
  have off: "slice a n p4 = slice a n page" if "?fe \<le> a" for a n
    using H(6) [of a n] B(8) [of a n] that vo by simp
  have val: "slice vo (length value) p4 = value" using H(6) [of vo "length value"] B(7) vo by simp
  have len: "length p4 = length page" using H(1) B(1) by simp
  have ok: "slots_ok ?fe (slots page)" by (rule V(6))
  have so: "slots_ok vo (put_at r s (slots page))"
    unfolding slots_ok_def
  proof (intro conjI)
    have "r \<le> length (slots page)" using r V(8) by simp
    then show "\<forall>t\<in>set (put_at r s (slots page)). 0 < s_value_length t \<and> vo \<le> s_value_offset t \<and>
        s_value_offset t + s_value_length t \<le> PAGE_USABLE_SIZE"
      using ok vo space(2) by (auto simp: set_put_at slots_ok_def s_def)
    show "sorted_wrt (\<lambda>a b. s_key a < s_key b) (put_at r s (slots page))"
      by (rule sorted_wrt_put_at) (use ok lo hi V(8) in \<open>auto simp: slots_ok_def s_def\<close>)
    have bound: "?fe \<le> s_value_offset (read_slot page i)" if "i < ?c" for i
      using valid_slot(2) [OF valid that] .
    have d: "\<not> slots_overlap s t \<and> \<not> slots_overlap t s" if "?fe \<le> s_value_offset t" for t
      using that vo by (simp add: slots_overlap_def s_def)
    show "sorted_wrt (\<lambda>a b. \<not> slots_overlap b a) (put_at r s (slots page))"
      by (rule sorted_wrt_put_at) (use ok d bound V(8) in \<open>auto simp: slots_ok_def\<close>)
  qed
  have h: "header_ok p4"
  proof -
    have "p4 ! 0 = page ! 0" "slice 6 4 p4 = slice 6 4 page" "slice 10 2 p4 = slice 10 2 page"
      using H(5) [of 0] H(6) [of 6 4] H(6) [of 10 2] B(2) [of 0] B(3) [of 6 4] B(3) [of 10 2] by simp_all
    then show ?thesis using V(3) len by (simp add: header_ok_def valid_page_def)
  qed
  moreover have "slotted_validate p4"
    unfolding slotted_validate_iff sl H(2-4)
    using h so vo V(7) by (simp add: payload_size_put_at s_def)
  moreover have "same_leaf page p4"
    using len H(5) [of 1] B(2) [of 1] H(6) [of 2 4] B(3) [of 2 4] H(6) [of 18 10] B(3) [of 18 10]
      H(7) [of 4092] B(9) B(1) V(2) by (simp add: same_leaf_def identity_fields_def)
  moreover have "entries p4 = put_at r (key, value) (entries page)"
  proof -
    have "map (\<lambda>t. (s_key t, slice (s_value_offset t) (s_value_length t) p4)) (slots page) = entries page"
      unfolding entries_def by (rule map_cong [OF refl]) (use ok off in \<open>auto simp: slots_ok_def\<close>)
    then show ?thesis unfolding entries_def [of p4] sl map_put_at using val by (simp add: s_def)
  qed
  ultimately show ?thesis by simp
qed

text \<open>The abstract operations.\<close>

definition spec_put :: "nat \<Rightarrow> bytes \<Rightarrow> (nat \<times> bytes) list \<Rightarrow> (nat \<times> bytes) list" where
  "spec_put k v es = filter (\<lambda>e. fst e < k) es @ (k, v) # filter (\<lambda>e. k < fst e) es"

definition spec_insert :: "(nat \<times> bytes) list \<Rightarrow> nat \<Rightarrow> bytes \<Rightarrow> bool \<times> (nat \<times> bytes) list" where
  "spec_insert es k v =
     (if v = [] \<or> k \<in> fst ` set es \<or> used_bytes es + 8 + length v > 4064 then (False, es) else (True, spec_put k v es))"

lemma put_at_spec_put:
  assumes "r \<le> length es" "\<And>i. i < r \<Longrightarrow> fst (es ! i) < k" "\<And>i. r \<le> i \<Longrightarrow> i < length es \<Longrightarrow> k < fst (es ! i)"
  shows "put_at r (k, v) es = spec_put k v es"
proof -
  have lo: "fst e < k" if "e \<in> set (take r es)" for e
  proof -
    from that obtain i where "i < r" "e = es ! i" unfolding in_set_conv_nth by auto
    with assms(2) show ?thesis by simp
  qed
  have hi: "k < fst e" if "e \<in> set (drop r es)" for e
  proof -
    from that obtain i where "i < length es - r" "e = es ! (r + i)" unfolding in_set_conv_nth by auto
    then have "r + i < length es" "e = es ! (r + i)" by simp_all
    with assms(3) [of "r + i"] show ?thesis by simp
  qed
  have "filter (\<lambda>e. fst e < k) (take r es) = take r es" "filter (\<lambda>e. k < fst e) (drop r es) = drop r es"
    using lo hi by (simp_all add: filter_id_conv)
  moreover have "filter (\<lambda>e. k < fst e) (take r es) = []" "filter (\<lambda>e. fst e < k) (drop r es) = []"
    using lo hi by (fastforce simp: filter_empty_conv)+
  moreover have "filter P es = filter P (take r es) @ filter P (drop r es)" for P
    by (metis append_take_drop_id filter_append)
  ultimately show ?thesis by (simp add: spec_put_def put_at_def)
qed

text \<open>Where the binary search lands.\<close>

lemma search_cases:
  assumes valid: "slotted_validate page" and r: "r = lower_bound_key page (raw_count page) key"
  shows "key \<in> fst ` set (entries page) \<longleftrightarrow> r < raw_count page \<and> s_key (read_slot page r) = key"
proof
  assume "key \<in> fst ` set (entries page)"
  then obtain i where i: "i < raw_count page" "s_key (read_slot page i) = key"
    by (auto simp: in_set_conv_nth nth_entries)
  note L = lower_bound_spec [OF valid r]
  have "r \<le> i" using L(2) [of i] i by (meson less_irrefl not_le)
  then show "r < raw_count page \<and> s_key (read_slot page r) = key"
    using L(3) [of r] valid_slot(4) [OF valid, of r i] i by (cases "r = i") auto
next
  assume "r < raw_count page \<and> s_key (read_slot page r) = key"
  then have "fst (entries page ! r) = key" "r < length (entries page)" by (simp_all add: nth_entries)
  then have "entries page ! r \<in> set (entries page)" "fst (entries page ! r) = key" using nth_mem by blast+
  then show "key \<in> fst ` set (entries page)" by force
qed

lemma slotted_insert_spec:
  assumes valid: "slotted_validate page" and key: "key < 2 ^ 32"
  obtains page' where "slotted_insert page key value = (fst (spec_insert (entries page) key value), page')"
    "slotted_validate page'" "same_leaf page page'" "entries page' = snd (spec_insert (entries page) key value)"
proof -
  define r where "r = lower_bound_key page (raw_count page) key"
  note L = lower_bound_spec [OF valid r_def] and S = search_cases [OF valid r_def] and U = valid_entries(2) [OF valid]
  show thesis
  proof (cases "value = [] \<or> key \<in> fst ` set (entries page) \<or> used_bytes (entries page) + 8 + length value > 4064")
    case True
    then have "slotted_insert page key value = (False, page)"
      using valid S U by (auto simp: slotted_insert_def Let_def r_def)
    with True that [of page] valid show thesis by (simp add: spec_insert_def)
  next
    case False
    then have sp: "8 + length value \<le> slotted_free_bytes page" "value \<noteq> []" using U by auto
    have hi: "key < s_key (read_slot page i)" if "r \<le> i" "i < raw_count page" for i
      using L(3) [OF that] L(3) [of r] False S valid_slot(4) [OF valid, of r i] that by (cases "r = i") auto
    note I = insert_bytes_spec [OF valid L(1) key sp L(2) hi]
    have "slotted_insert page key value = (True, insert_bytes page r key value)"
      using valid S False sp I unfolding slotted_insert_def Let_def r_def [symmetric] insert_bytes_def
      by auto
    moreover have "put_at r (key, value) (entries page) = spec_put key value (entries page)"
      by (rule put_at_spec_put) (use L(1,2) hi in \<open>simp_all add: nth_entries\<close>)
    ultimately show thesis using that [of "insert_bytes page r key value"] I False by (simp add: spec_insert_def)
  qed
qed

end
