(* ===== verification/SlottedLeafRebuild.thy ===== *)
theory SlottedLeafRebuild
  imports SlottedLeafInsert
begin

text \<open>
  Fresh pages and the rebuilding behind update, delete and compaction: the loop over the slots re-inserts
  every kept entry and cannot fail when the result fits.
\<close>

section \<open>Fresh pages\<close>

lemma empty_valid:
  assumes "header_ok p" "raw_count p = 0" "raw_free_start p = 28" "raw_free_end p = 4092"
  shows "slotted_validate p" "entries p = []"
  using assms by (simp_all add: slotted_validate_iff slots_def entries_def slots_ok_def payload_size_def)

lemma slice_one: "i < length p \<Longrightarrow> slice i 1 p = [p ! i]"
  by (simp add: slice_def take_Suc_conv_app_nth [of 0, simplified] Cons_nth_drop_Suc [symmetric])

lemma slotted_init_spec:
  assumes "valid_page page"
  obtains p where "slotted_init page = (True, p)" "slotted_validate p" "entries p = []" "length p = length page"
    "header_ok p" "raw_count p = 0" "raw_free_start p = 28" "raw_free_end p = 4092" "drop 4092 p = drop 4092 page"
proof -
  have len: "4096 \<le> length page" using assms by (simp add: valid_page_def PAGE_SIZE_def)
  define p1 where "p1 = blit 0 (replicate 4092 0) page"
  define p2 where "p2 = p1[0 := NODE_LEAF, 1 := 0]"
  define p3 where "p3 = blit 2 (put_u32 0) p2"
  define p4 where "p4 = blit 6 (write_u32_le SLOTTED_LEAF_V2_MAGIC) p3"
  define p5 where "p5 = blit 10 (write_u16_le SLOTTED_LEAF_V2_VERSION) p4"
  define p where "p = set_free_end 4092 (set_free_start 28 (set_count 0 p5))"
  have l: "length p1 = length page" "length p2 = length page" "length p3 = length page" "length p4 = length page"
    "length p5 = length page"
    using len by (simp_all add: p1_def p2_def p3_def p4_def p5_def)
  have "28 \<le> length p5" using l len by simp
  note H = set_header [OF this _ _ _ p_def, simplified]
  have "p ! 0 = p5 ! 0" using H(5) [of 0] by simp
  also have "\<dots> = p2 ! 0" using l len by (simp add: p5_def p4_def p3_def)
  also have "\<dots> = NODE_LEAF"
  proof -
    have "p1 \<noteq> []" using l(1) len by auto
    then show ?thesis by (simp add: p2_def)
  qed
  finally have t: "p ! 0 = NODE_LEAF" .
  have "slice 6 4 p = slice 6 4 p4" using H(6) [of 6 4] l len by (simp add: p5_def slice_blit_other)
  then have m: "slice 6 4 p = write_u32_le SLOTTED_LEAF_V2_MAGIC" using l len by (simp add: p4_def)
  have v: "slice 10 2 p = write_u16_le SLOTTED_LEAF_V2_VERSION" using H(6) [of 10 2] l len by (simp add: p5_def)
  have "length p = length page" using H(1) l by simp
  then have h: "header_ok p"
    using t m v assms by (simp add: header_ok_def valid_page_def u32.dec_enc u16.dec_enc)
  have "drop 4092 p = drop 4092 p5" using H(7) [of 4092] l len by simp
  also have "\<dots> = drop 4092 p2" using l len by (simp add: p5_def p4_def p3_def drop_blit)
  also have "\<dots> = drop 4092 page" using len by (simp add: p2_def p1_def drop_blit)
  finally have d: "drop 4092 p = drop 4092 page" .
  have "slotted_init page = (True, p)"
    using assms by (simp add: slotted_init_def Let_def p1_def p2_def p3_def p4_def p5_def p_def numeral_2_eq_2)
  with that [of p] h H(2-4) empty_valid [of p] \<open>length p = length page\<close> d show thesis by simp
qed

lemma copy_page_identity_spec:
  assumes d: "header_ok dst" "raw_count dst = 0" "raw_free_start dst = 28" "raw_free_end dst = 4092"
    and s: "28 \<le> length src" and q: "q = copy_page_identity dst src"
  shows "slotted_validate q" "entries q = []" "identity_fields q = identity_fields src" "length q = length dst"
proof -
  have len: "4096 \<le> length dst" using d(1) by (simp add: header_ok_def valid_page_def PAGE_SIZE_def)
  define p1 where "p1 = dst[1 := src ! 1]"
  define p2 where "p2 = blit 2 (slice 2 4 src) p1"
  define p3 where "p3 = blit 18 (slice 18 4 src) p2"
  define p4 where "p4 = blit 22 (slice 22 4 src) p3"
  have q4: "q = blit 26 (slice 26 2 src) p4" by (simp add: q copy_page_identity_def p1_def p2_def p3_def p4_def numeral_2_eq_2)
  have ls: "length (slice 2 4 src) = 4" "length (slice 18 4 src) = 4" "length (slice 22 4 src) = 4" "length (slice 26 2 src) = 2"
    using s by simp_all
  have l: "length p1 = length dst" "length p2 = length dst" "length p3 = length dst" "length p4 = length dst"
    using len ls by (simp_all add: p1_def p2_def p3_def p4_def)
  show lq: "length q = length dst" using len ls l by (simp add: q4)
  have keep: "slice a n q = slice a n dst" if "6 \<le> a" "a + n \<le> 18" for a n
    using that len ls l by (simp add: q4 p4_def p3_def p2_def p1_def slice_blit_other slice_update_other)
  have "slice 18 10 q = slice 18 4 q @ slice 22 4 q @ slice 26 2 q"
    using take_add [of 4 6 "drop 18 q"] take_add [of 4 2 "drop 22 q"] by (simp add: slice_def)
  also have "\<dots> = slice 18 4 src @ slice 22 4 src @ slice 26 2 src"
    using len ls l by (simp add: q4 p4_def p3_def slice_blit_other)
  also have "\<dots> = slice 18 10 src"
    using take_add [of 4 6 "drop 18 src"] take_add [of 4 2 "drop 22 src"] by (simp add: slice_def)
  finally have id: "slice 18 10 q = slice 18 10 src" .
  have p: "slice 2 4 q = slice 2 4 src" using len ls l by (simp add: q4 p4_def p3_def p2_def slice_blit_other)
  have one: "q ! 1 = src ! 1" "q ! 0 = dst ! 0" using len ls l by (simp_all add: q4 p4_def p3_def p2_def p1_def)
  show "identity_fields q = identity_fields src" using id p one by (simp add: identity_fields_def)
  have "header_ok q"
    using d(1) one(2) keep [of 6 4] keep [of 10 2] lq by (simp add: header_ok_def valid_page_def)
  moreover have "raw_count q = 0" "raw_free_start q = 28" "raw_free_end q = 4092"
    using d keep [of 12 2] keep [of 14 2] keep [of 16 2] by (simp_all add: raw_count_def raw_free_start_def raw_free_end_def)
  ultimately show "slotted_validate q" "entries q = []" using empty_valid by blast+
qed

section \<open>Rebuilding\<close>

definition keep_entry :: "nat option \<Rightarrow> nat \<times> bytes \<Rightarrow> bool" where
  "keep_entry omit e \<longleftrightarrow> omit \<noteq> Some (fst e)"

definition swap_entry :: "(nat \<times> bytes) option \<Rightarrow> nat \<times> bytes \<Rightarrow> nat \<times> bytes" where
  "swap_entry rep e = (fst e, case rep of Some (rk, nv) \<Rightarrow> if fst e = rk then nv else snd e | None \<Rightarrow> snd e)"

definition rebuilt :: "(nat \<times> bytes) option \<Rightarrow> nat option \<Rightarrow> (nat \<times> bytes) list \<Rightarrow> (nat \<times> bytes) list" where
  "rebuilt rep omit es = map (swap_entry rep) (filter (keep_entry omit) es)"

lemma fst_swap_entry [simp]: "fst (swap_entry rep e) = fst e"
  by (simp add: swap_entry_def)

lemma rebuilt_simps [simp]:
  "rebuilt rep omit [] = []"
  "rebuilt rep omit (e # es) = (if keep_entry omit e then swap_entry rep e # rebuilt rep omit es else rebuilt rep omit es)"
  "rebuilt rep omit (es @ fs) = rebuilt rep omit es @ rebuilt rep omit fs"
  by (simp_all add: rebuilt_def)

lemma used_bytes_simps [simp]:
  "used_bytes [] = 0" "used_bytes (e # es) = 8 + length (snd e) + used_bytes es"
  "used_bytes (es @ fs) = used_bytes es + used_bytes fs"
  by (simp_all add: used_bytes_def split: prod.split)

lemma keys_rebuilt: "fst ` set (rebuilt rep omit es) \<subseteq> fst ` set es"
  unfolding rebuilt_def set_map image_image fst_swap_entry by auto

lemma spec_insert_last:
  assumes "\<forall>e\<in>set es. fst e < k" "v \<noteq> []" "used_bytes es + 8 + length v \<le> 4064"
  shows "spec_insert es k v = (True, es @ [(k, v)])"
proof -
  have "filter (\<lambda>e. fst e < k) es = es" using assms(1) by simp
  moreover have "filter (\<lambda>e. k < fst e) es = []" using assms(1) by (fastforce simp: filter_empty_conv)
  ultimately show ?thesis using assms by (auto simp: spec_insert_def spec_put_def)
qed

lemma rebuild_loop_spec:
  assumes valid: "slotted_validate page" and i: "i \<le> raw_count page"
    and rep: "\<forall>rk nv. rep = Some (rk, nv) \<longrightarrow> nv \<noteq> []" and used: "used_bytes (rebuilt rep omit (entries page)) \<le> 4064"
    and scratch: "slotted_validate scratch" "entries scratch = rebuilt rep omit (take i (entries page))"
  shows "\<exists>scratch'. rebuild_loop page rep omit [i..<raw_count page] (replaced, omitted, scratch) =
      (True, replaced \<or> (\<exists>e\<in>set (drop i (entries page)). keep_entry omit e \<and> (\<exists>nv. rep = Some (fst e, nv))),
       omitted \<or> (\<exists>e\<in>set (drop i (entries page)). \<not> keep_entry omit e), scratch') \<and>
    slotted_validate scratch' \<and> same_leaf scratch scratch' \<and> entries scratch' = rebuilt rep omit (entries page)"
  using i scratch
proof (induction "raw_count page - i" arbitrary: i replaced omitted scratch)
  case 0
  then show ?case by (intro exI [of _ scratch]) simp
next
  case (Suc d)
  let ?es = "entries page"
  from Suc.hyps(2) have i: "i < raw_count page" by simp
  define e where "e = ?es ! i"
  have e: "s_key (read_slot page i) = fst e"
    "slice (s_value_offset (read_slot page i)) (s_value_length (read_slot page i)) page = snd e"
    using i by (simp_all add: e_def nth_entries)
  have up: "[i..<raw_count page] = i # [Suc i..<raw_count page]" using i by (rule upt_conv_Cons)
  have tk: "take (Suc i) ?es = take i ?es @ [e]" and dr: "drop i ?es = e # drop (Suc i) ?es"
    using i by (simp_all add: e_def take_Suc_conv_app_nth Cons_nth_drop_Suc)
  have d: "d = raw_count page - Suc i" "Suc i \<le> raw_count page" using Suc.hyps(2) by simp_all
  show ?case
  proof (cases "keep_entry omit e")
    case False
    then have "rebuild_loop page rep omit [i..<raw_count page] (replaced, omitted, scratch) =
        rebuild_loop page rep omit [Suc i..<raw_count page] (replaced, True, scratch)"
      using up e by (simp add: keep_entry_def Let_def)
    moreover have "entries scratch = rebuilt rep omit (take (Suc i) ?es)" using Suc.prems(3) False by (simp add: tk)
    ultimately show ?thesis using Suc.hyps(1) [OF d Suc.prems(2), of replaced True] False by (auto simp: dr)
  next
    case True
    define v where "v = snd (swap_entry rep e)"
    have "entries_ok ?es" by (rule valid_entries(1) [OF valid])
    then have sorted: "sorted_wrt (<) (map fst ?es)" and all: "\<forall>(k, v)\<in>set ?es. k < 2 ^ 32 \<and> v \<noteq> []"
      by (simp_all add: entries_ok_def)
    have "e \<in> set ?es" using i nth_mem [of i ?es] by (simp add: e_def)
    with all have "case e of (k, v) \<Rightarrow> k < 2 ^ 32 \<and> v \<noteq> []" by blast
    then have ne: "snd e \<noteq> []" and ke: "fst e < 2 ^ 32" by (cases e; simp)+
    have lt: "fst a < fst e" if "a \<in> set (take i ?es)" for a
    proof -
      from that obtain j where "j < i" "a = ?es ! j" unfolding in_set_conv_nth by auto
      with sorted i show ?thesis by (auto simp: sorted_wrt_iff_nth_less e_def)
    qed
    have "\<forall>a\<in>set (entries scratch). fst a < fst e"
      using lt keys_rebuilt [of rep omit "take i ?es"] Suc.prems(3) by fastforce
    moreover have vne: "v \<noteq> []" using ne rep by (auto simp: v_def swap_entry_def split: option.split)
    moreover have "used_bytes (entries scratch) + 8 + length v \<le> 4064"
    proof -
      have "rebuilt rep omit ?es = rebuilt rep omit (take i ?es) @ rebuilt rep omit (drop i ?es)"
        by (metis append_take_drop_id rebuilt_simps(3))
      with used True Suc.prems(3) show ?thesis by (simp add: dr v_def)
    qed
    ultimately have sp: "spec_insert (entries scratch) (fst e) v = (True, entries scratch @ [(fst e, v)])"
      by (rule spec_insert_last)
    obtain s' where s': "slotted_insert scratch (fst e) v = (True, s')" "slotted_validate s'" "same_leaf scratch s'"
      "entries s' = entries scratch @ [(fst e, v)]"
      using slotted_insert_spec [OF Suc.prems(2) ke, of v] sp by auto
    define replaced' where "replaced' = (replaced \<or> (\<exists>nv. rep = Some (fst e, nv)))"
    have "(case rep of Some (rk, nv) \<Rightarrow> if fst e = rk then (nv, True) else (snd e, replaced) | None \<Rightarrow> (snd e, replaced)) = (v, replaced')"
      by (auto simp: v_def replaced'_def swap_entry_def split: option.split)
    then have "rebuild_loop page rep omit [i..<raw_count page] (replaced, omitted, scratch) =
        rebuild_loop page rep omit [Suc i..<raw_count page] (replaced', omitted, s')"
      using True s'(1) unfolding up rebuild_loop.simps Let_def e keep_entry_def by simp
    moreover have "entries s' = rebuilt rep omit (take (Suc i) ?es)"
      using s'(4) Suc.prems(3) True by (simp add: tk v_def swap_entry_def)
    ultimately show ?thesis
      using Suc.hyps(1) [OF d s'(2), of replaced' omitted] same_leaf_trans [OF s'(3)] True by (auto simp: dr replaced'_def)
  qed
qed

section \<open>Rebuilding a page\<close>

lemma validate_copy_usable:
  assumes v: "slotted_validate p" and l: "length p = 4096" "4096 \<le> length q" and r: "r = blit 0 (slice 0 4092 p) q"
  shows "slotted_validate r" "entries r = entries p" "identity_fields r = identity_fields p"
    "length r = length q" "drop 4092 r = drop 4092 q"
proof -
  note V = validD [OF v]
  have l4: "length (slice 0 4092 p) = 4092" using l by simp
  show lr: "length r = length q" using l l4 by (simp add: r)
  have sl: "slice a n r = slice a n p" if "a + n \<le> 4092" for a n
  proof -
    have "slice a n r = slice (a - 0) n (slice 0 4092 p)" unfolding r by (rule slice_blit_inside) (use that l l4 in simp_all)
    also have "\<dots> = slice a n p" using slice_slice [of a n 4092 0 p] that by simp
    finally show ?thesis .
  qed
  have nt: "r ! i = p ! i" if "i < 4092" for i
  proof -
    have "slice i 1 r ! 0 = slice i 1 p ! 0" using sl [of i 1] that by simp
    then show ?thesis using that l lr by simp
  qed
  have c: "raw_count r = raw_count p" "raw_free_start r = raw_free_start p" "raw_free_end r = raw_free_end p"
    using sl [of 12 2] sl [of 14 2] sl [of 16 2] by (simp_all add: raw_count_def raw_free_start_def raw_free_end_def)
  have rs: "read_slot r i = read_slot p i" if "i < raw_count p" for i
    using sl [of "28 + 8 * i" 8] V(5,7) that by (simp add: read_slot_dec)
  then have ss: "slots r = slots p" by (simp add: slots_def c)
  have h: "header_ok r"
    using V(3) nt [of 0] sl [of 6 4] sl [of 10 2] l lr by (simp add: header_ok_def valid_page_def PAGE_SIZE_def)
  with v show "slotted_validate r" by (simp add: slotted_validate_iff c ss)
  show "entries r = entries p"
    unfolding entries_def ss by (rule map_cong [OF refl]) (use V(6) sl in \<open>auto simp: slots_ok_def\<close>)
  show "identity_fields r = identity_fields p"
    using nt [of 1] sl [of 2 4] sl [of 18 10] by (simp add: identity_fields_def)
  show "drop 4092 r = drop 4092 q" using l l4 by (simp add: r drop_blit)
qed

lemma rebuild_page_spec:
  assumes valid: "slotted_validate page" and rep: "\<And>rk nv. rep = Some (rk, nv) \<Longrightarrow> nv \<noteq> [] \<and> omit = None \<and> rk \<in> fst ` set (entries page)"
    and used: "used_bytes (rebuilt rep omit (entries page)) \<le> 4064"
    and met: "met \<longleftrightarrow> omit = None \<or> (\<exists>k\<in>fst ` set (entries page). omit = Some k)"
  obtains page' where "rebuild_page page rep omit = (met, page')" "slotted_validate page'" "same_leaf page page'"
    "entries page' = (if met then rebuilt rep omit (entries page) else entries page)"
proof -
  note V = validD [OF valid]
  let ?es = "entries page"
  have vp: "valid_page (replicate PAGE_SIZE (0::u8))" by (simp add: valid_page_def)
  obtain s0 where s0: "slotted_init (replicate PAGE_SIZE 0) = (True, s0)" "slotted_validate s0" "entries s0 = []"
    "length s0 = length (replicate PAGE_SIZE (0::u8))" "header_ok s0" "raw_count s0 = 0" "raw_free_start s0 = 28"
    "raw_free_end s0 = 4092" using slotted_init_spec [OF vp] by metis
  define s1 where "s1 = copy_page_identity s0 page"
  have l28: "28 \<le> length page" using V(2) by simp
  note C = copy_page_identity_spec [OF s0(5-8) l28 s1_def]
  have e1: "entries s1 = rebuilt rep omit (take 0 ?es)" using C(2) by simp
  have rp: "\<forall>rk nv. rep = Some (rk, nv) \<longrightarrow> nv \<noteq> []" using rep by blast
  obtain s2 where s2: "rebuild_loop page rep omit [0..<raw_count page] (False, False, s1) =
      (True, \<exists>e\<in>set ?es. keep_entry omit e \<and> (\<exists>nv. rep = Some (fst e, nv)), \<exists>e\<in>set ?es. \<not> keep_entry omit e, s2)"
    "slotted_validate s2" "same_leaf s1 s2" "entries s2 = rebuilt rep omit ?es"
    using rebuild_loop_spec [OF valid _ rp used C(1) e1, where replaced = False and omitted = False] by auto
  define r where "r = blit 0 (slice 0 4092 s2) page"
  have l2: "length s2 = 4096" using s2(3) C(4) s0(4) by (simp add: same_leaf_def PAGE_SIZE_def)
  have l4: "4096 \<le> length page" using V(1) by (simp add: PAGE_SIZE_def)
  note R = validate_copy_usable [OF s2(2) l2 l4 r_def]
  have rep_met: "rep = None \<or> (\<exists>e\<in>set ?es. keep_entry omit e \<and> (\<exists>nv. rep = Some (fst e, nv)))"
  proof (cases rep)
    case (Some r)
    obtain rk nv where "r = (rk, nv)" by (cases r)
    with rep [of rk nv] Some show ?thesis by (force simp: keep_entry_def)
  qed simp
  have omit_met: "(omit \<noteq> None \<and> \<not> (\<exists>e\<in>set ?es. \<not> keep_entry omit e)) = (\<not> met)"
    unfolding met by (force simp: keep_entry_def)
  have rb: "rebuild_page page rep omit = (if met then (slotted_validate r, r) else (False, page))"
    using valid s0(1) s2(1) rep_met omit_met by (auto simp: rebuild_page_def Let_def s1_def [symmetric] r_def)
  show thesis
  proof (cases met)
    case True
    have "same_leaf page r"
      using R(3-5) s2(3) C(3) by (simp add: same_leaf_def)
    with True rb R(1,2) s2(4) that [of r] show thesis by simp
  next
    case False
    with rb valid that [of page] show thesis by simp
  qed
qed

section \<open>The operations on entries\<close>

definition spec_find :: "(nat \<times> bytes) list \<Rightarrow> nat \<Rightarrow> bytes option" where
  "spec_find es k = map_of es k"

definition spec_read :: "(nat \<times> bytes) list \<Rightarrow> nat \<Rightarrow> nat \<Rightarrow> bytes option" where
  "spec_read es k capacity =
     (case map_of es k of None \<Rightarrow> None | Some v \<Rightarrow> if capacity < length v then None else Some v)"

definition spec_update :: "(nat \<times> bytes) list \<Rightarrow> nat \<Rightarrow> bytes \<Rightarrow> bool \<times> (nat \<times> bytes) list" where
  "spec_update es k v =
     (case map_of es k of None \<Rightarrow> (False, es)
      | Some old \<Rightarrow>
          if v = [] \<or> used_bytes es + length v > 4064 + length old then (False, es)
          else (True, map (\<lambda>(k', v'). (k', if k' = k then v else v')) es))"

definition spec_delete :: "(nat \<times> bytes) list \<Rightarrow> nat \<Rightarrow> bool \<times> (nat \<times> bytes) list" where
  "spec_delete es k = (k \<in> fst ` set es, filter (\<lambda>(k', _). k' \<noteq> k) es)"

lemma map_of_nth_sorted:
  fixes es :: "(nat \<times> 'v) list"
  assumes "sorted_wrt (<) (map fst es)" "i < length es"
  shows "map_of es (fst (es ! i)) = Some (snd (es ! i))"
proof -
  have "distinct (map fst es)" using strict_sorted_iff [of "map fst es"] assms(1) by blast
  with assms(2) show ?thesis by (metis map_of_is_SomeI nth_mem prod.collapse)
qed

lemma slotted_find_spec:
  assumes valid: "slotted_validate page"
  shows "(case slotted_find page key of None \<Rightarrow> None | Some (s, _) \<Rightarrow> Some (slice (s_value_offset s) (s_value_length s) page))
    = map_of (entries page) key"
    and "slotted_find page key = Some (s, i) \<Longrightarrow>
      s_value_length s = length (the (map_of (entries page) key)) \<and> i < raw_count page \<and> s = read_slot page i \<and> s_key s = key"
proof -
  define r where "r = lower_bound_key page (raw_count page) key"
  note S = search_cases [OF valid r_def]
  have sorted: "sorted_wrt (<) (map fst (entries page))" using valid_entries(1) [OF valid] by (simp add: entries_ok_def)
  have f: "slotted_find page key = (if r < raw_count page \<and> s_key (read_slot page r) = key then Some (read_slot page r, r) else None)"
    using valid by (auto simp: slotted_find_def Let_def r_def)
  have m: "map_of (entries page) key = Some (slice (s_value_offset (read_slot page r)) (s_value_length (read_slot page r)) page)"
    if "r < raw_count page" "s_key (read_slot page r) = key"
    using map_of_nth_sorted [OF sorted, of r] that by (simp add: nth_entries)
  have n: "map_of (entries page) key = None" if "\<not> (r < raw_count page \<and> s_key (read_slot page r) = key)"
    using S that by (simp add: map_of_eq_None_iff)
  show "(case slotted_find page key of None \<Rightarrow> None | Some (s, _) \<Rightarrow> Some (slice (s_value_offset s) (s_value_length s) page))
    = map_of (entries page) key"
    using m n by (auto simp: f)
  assume "slotted_find page key = Some (s, i)"
  then have "r < raw_count page" "s_key (read_slot page r) = key" "s = read_slot page r" "i = r" by (auto simp: f split: if_splits)
  with m slot_value_length [OF valid, of r] show "s_value_length s = length (the (map_of (entries page) key)) \<and> i < raw_count page \<and>
    s = read_slot page i \<and> s_key s = key" by simp
qed

lemma slotted_read_spec:
  assumes "slotted_validate page"
  shows "slotted_read page key capacity = spec_read (entries page) key capacity"
proof (cases "slotted_find page key")
  case None
  with slotted_find_spec(1) [OF assms, of key] have "map_of (entries page) key = None" by simp
  with None show ?thesis by (simp add: slotted_read_def spec_read_def)
next
  case (Some r)
  obtain s i where r: "r = (s, i)" by (cases r)
  then have f: "slotted_find page key = Some (s, i)" using Some by simp
  define v where "v = slice (s_value_offset s) (s_value_length s) page"
  have m: "map_of (entries page) key = Some v" using slotted_find_spec(1) [OF assms, of key] f by (simp add: v_def)
  have "s_value_length s = length (the (map_of (entries page) key))"
    using slotted_find_spec(2) [OF assms f] by (rule conjunct1)
  then have l: "s_value_length s = length v" unfolding m by simp
  have "slotted_read page key capacity = (if capacity < length v then None else Some v)"
    unfolding slotted_read_def f by (simp add: v_def [symmetric] l [symmetric])
  then show ?thesis unfolding spec_read_def m by simp
qed

end
