(* ===== verification/Simulation.thy ===== *)
theory Simulation
  imports Prelude
begin

text \<open>
  Refinement of an abstract operation by a concrete one, step by step: the interface \<open>step_refinement\<close>
  and what it gives for sequences of operations.
\<close>

fun run_ops :: "('op \<Rightarrow> 's \<Rightarrow> 'r \<times> 's) \<Rightarrow> 'op list \<Rightarrow> 's \<Rightarrow> 'r list \<times> 's" where
  "run_ops step [] s = ([], s)"
| "run_ops step (a # as) s =
     (let (r, s') = step a s; (rs, s'') = run_ops step as s' in (r # rs, s''))"

text \<open>\<open>keeps\<close> relates a state to the states it may become: what no operation touches.\<close>

locale step_refinement =
  fixes step :: "'op \<Rightarrow> 's \<Rightarrow> 'r \<times> 's" and spec :: "'op \<Rightarrow> 'a \<Rightarrow> 'r \<times> 'a" and abst :: "'s \<Rightarrow> 'a"
    and inv :: "'s \<Rightarrow> bool" and okay :: "'op \<Rightarrow> bool" and keeps :: "'s \<Rightarrow> 's \<Rightarrow> bool"
  assumes one_step: "inv s \<Longrightarrow> okay a \<Longrightarrow> \<exists>s'. step a s = (fst (spec a (abst s)), s') \<and> inv s' \<and> keeps s s' \<and>
      abst s' = snd (spec a (abst s))"
    and keeps_refl: "keeps s s" and keeps_trans: "keeps s t \<Longrightarrow> keeps t u \<Longrightarrow> keeps s u"
begin

lemma run_refines:
  assumes "inv s" and "\<forall>a\<in>set as. okay a" and "run_ops step as s = (rs, s')" and "run_ops spec as (abst s) = (rs', t')"
  shows "rs = rs' \<and> abst s' = t' \<and> inv s' \<and> keeps s s'"
  using assms
proof (induction as arbitrary: s rs rs')
  case Nil
  then show ?case by (simp add: keeps_refl)
next
  case (Cons a as)
  obtain u where u: "step a s = (fst (spec a (abst s)), u)" "inv u" "keeps s u" "abst u = snd (spec a (abst s))"
    using one_step [OF Cons.prems(1), of a] Cons.prems(2) by auto
  obtain qs where qs: "run_ops step as u = (qs, s')" "rs = fst (spec a (abst s)) # qs"
    using Cons.prems(3) u(1) by (auto split: prod.splits)
  obtain qs' where qs': "run_ops spec as (abst u) = (qs', t')" "rs' = fst (spec a (abst s)) # qs'"
    using Cons.prems(4) u(4) by (auto split: prod.splits)
  from Cons.IH [OF u(2) _ qs(1) qs'(1)] Cons.prems(2) qs(2) qs'(2) keeps_trans [OF u(3)] show ?case by simp
qed

end

end
