(* ===== verification/SlottedLeafMap.thy ===== *)
theory SlottedLeafMap
  imports SlottedLeafRebuild Simulation
begin

text \<open>
  Update, delete and compaction on entries, and the refinement of a bounded sorted map by any sequence of
  operations on the page.
\<close>

lemma used_bytes_filter: "used_bytes (filter P es) \<le> used_bytes es"
  by (induction es) auto

lemma rebuilt_update:
  "rebuilt (Some (k, v)) None es = map (\<lambda>(k', v'). (k', if k' = k then v else v')) es"
  by (auto simp: rebuilt_def keep_entry_def swap_entry_def)

lemma swap_entry_None [simp]: "map (swap_entry None) es = es"
  by (rule map_idI) (simp add: swap_entry_def)

lemma rebuilt_delete: "rebuilt None (Some k) es = filter (\<lambda>(k', _). k' \<noteq> k) es"
proof -
  have "keep_entry (Some k) = (\<lambda>(k', _). k' \<noteq> k)" by (auto simp: keep_entry_def fun_eq_iff)
  then show ?thesis by (simp add: rebuilt_def)
qed

lemma rebuilt_all: "rebuilt None None es = es"
  by (simp add: rebuilt_def keep_entry_def)

text \<open>Replacing one value changes the size by the difference.\<close>

lemma used_bytes_update:
  assumes "sorted_wrt (<) (map fst es)" "map_of es k = Some old"
  shows "used_bytes (map (\<lambda>(k', v'). (k', if k' = k then v else v')) es) + length old = used_bytes es + length v"
  using assms
proof (induction es)
  case (Cons e es)
  obtain k' v' where e: "e = (k', v')" by (cases e)
  show ?case
  proof (cases "k' = k")
    case True
    have "\<forall>x\<in>set es. fst x \<noteq> k" using Cons.prems(1) True e by auto
    then have "map (\<lambda>(k', v'). (k', if k' = k then v else v')) es = es" by (intro map_idI) auto
    with True e Cons.prems(2) show ?thesis by simp
  next
    case False
    with Cons e show ?thesis by simp
  qed
qed simp

lemma slotted_update_spec:
  assumes valid: "slotted_validate page"
  obtains page' where "slotted_update page key value = (fst (spec_update (entries page) key value), page')"
    "slotted_validate page'" "same_leaf page page'" "entries page' = snd (spec_update (entries page) key value)"
proof (cases "map_of (entries page) key")
  case None
  with slotted_find_spec(1) [OF valid, of key] have "slotted_find page key = None" by (auto split: option.splits prod.splits)
  then have "slotted_update page key value = (False, page)" by (simp add: slotted_update_def)
  with that [of page] valid None show thesis by (simp add: spec_update_def)
next
  case (Some old)
  with slotted_find_spec(1) [OF valid, of key] obtain s i where f: "slotted_find page key = Some (s, i)"
    by (auto split: option.splits prod.splits)
  have l: "s_value_length s = length old" using conjunct1 [OF slotted_find_spec(2) [OF valid f]] unfolding Some by simp
  note U = valid_entries [OF valid]
  have c: "(length value > slotted_free_bytes page + length old) \<longleftrightarrow> used_bytes (entries page) + length value > 4064 + length old"
    using U(2) by auto
  show thesis
  proof (cases "value = [] \<or> used_bytes (entries page) + length value > 4064 + length old")
    case True
    then have "slotted_update page key value = (False, page)"
      using f l c by (auto simp: slotted_update_def)
    with that [of page] valid Some True show thesis by (simp add: spec_update_def)
  next
    case False
    have sorted: "sorted_wrt (<) (map fst (entries page))" using U(1) by (simp add: entries_ok_def)
    have used: "used_bytes (rebuilt (Some (key, value)) None (entries page)) \<le> 4064"
      using used_bytes_update [OF sorted Some, of "value"] False by (simp add: rebuilt_update)
    have mem: "key \<in> fst ` set (entries page)" using Some by (metis map_of_eq_None_iff option.distinct(1))
    obtain page' where p': "rebuild_page page (Some (key, value)) None = (True, page')" "slotted_validate page'"
      "same_leaf page page'" "entries page' = rebuilt (Some (key, value)) None (entries page)"
      using rebuild_page_spec [OF valid _ used, of True] mem False by (metis option.inject prod.inject)
    have "slotted_update page key value = (True, page')"
      using valid f l c False p'(1) by (simp add: slotted_update_def)
    with that [of page'] p' Some False show thesis by (simp add: spec_update_def rebuilt_update)
  qed
qed

lemma slotted_delete_spec:
  assumes valid: "slotted_validate page"
  obtains page' where "slotted_delete page key = (fst (spec_delete (entries page) key), page')"
    "slotted_validate page'" "same_leaf page page'" "entries page' = snd (spec_delete (entries page) key)"
proof -
  let ?met = "key \<in> fst ` set (entries page)"
  have "used_bytes (entries page) \<le> 4064" using valid_entries(1) [OF valid] by (simp add: entries_ok_def)
  then have used: "used_bytes (rebuilt None (Some key) (entries page)) \<le> 4064"
    using used_bytes_filter [of "\<lambda>(k', _). k' \<noteq> key" "entries page"] by (simp add: rebuilt_delete)
  have met: "?met \<longleftrightarrow> Some key = None \<or> (\<exists>k\<in>fst ` set (entries page). Some key = Some k)" by auto
  obtain page' where p': "rebuild_page page None (Some key) = (?met, page')" "slotted_validate page'"
    "same_leaf page page'" "entries page' = (if ?met then rebuilt None (Some key) (entries page) else entries page)"
    using rebuild_page_spec [OF valid _ used met] by (metis option.distinct(1))
  have "\<not> ?met \<Longrightarrow> filter (\<lambda>(k', _). k' \<noteq> key) (entries page) = entries page"
    by (auto simp: filter_id_conv image_iff split: prod.splits)
  then show thesis
    using that [of page'] p' valid by (simp add: slotted_delete_def spec_delete_def rebuilt_delete split: if_splits)
qed

lemma slotted_compact_spec:
  assumes valid: "slotted_validate page"
  obtains page' where "slotted_compact page = (True, page')" "slotted_validate page'" "same_leaf page page'"
    "entries page' = entries page"
proof -
  have used: "used_bytes (rebuilt None None (entries page)) \<le> 4064"
    using valid_entries(1) [OF valid] by (simp add: entries_ok_def rebuilt_all)
  have met: "True \<longleftrightarrow> None = None \<or> (\<exists>k\<in>fst ` set (entries page). None = Some k)" by simp
  obtain page' where "rebuild_page page None None = (True, page')" "slotted_validate page'"
    "same_leaf page page'" "entries page' = rebuilt None None (entries page)"
    using rebuild_page_spec [OF valid _ used met] by (metis option.distinct(1))
  with that [of page'] show thesis by (simp add: slotted_compact_def rebuilt_all)
qed

section \<open>Sequences of operations\<close>

datatype leaf_op = Leaf_Insert nat bytes | Leaf_Update nat bytes | Leaf_Delete nat | Leaf_Compact | Leaf_Read nat nat

datatype leaf_result = Done bool | Value "bytes option"

fun slotted_step :: "leaf_op \<Rightarrow> bytes \<Rightarrow> leaf_result \<times> bytes" where
  "slotted_step (Leaf_Insert k v) page = (let (ok, page') = slotted_insert page k v in (Done ok, page'))"
| "slotted_step (Leaf_Update k v) page = (let (ok, page') = slotted_update page k v in (Done ok, page'))"
| "slotted_step (Leaf_Delete k) page = (let (ok, page') = slotted_delete page k in (Done ok, page'))"
| "slotted_step Leaf_Compact page = (let (ok, page') = slotted_compact page in (Done ok, page'))"
| "slotted_step (Leaf_Read k capacity) page = (Value (slotted_read page k capacity), page)"

fun spec_step :: "leaf_op \<Rightarrow> (nat \<times> bytes) list \<Rightarrow> leaf_result \<times> (nat \<times> bytes) list" where
  "spec_step (Leaf_Insert k v) es = (let (ok, es') = spec_insert es k v in (Done ok, es'))"
| "spec_step (Leaf_Update k v) es = (let (ok, es') = spec_update es k v in (Done ok, es'))"
| "spec_step (Leaf_Delete k) es = (let (ok, es') = spec_delete es k in (Done ok, es'))"
| "spec_step Leaf_Compact es = (Done True, es)"
| "spec_step (Leaf_Read k capacity) es = (Value (spec_read es k capacity), es)"

fun leaf_op_ok :: "leaf_op \<Rightarrow> bool" where
  "leaf_op_ok (Leaf_Insert k v) = (k < 2 ^ 32)"
| "leaf_op_ok _ = True"

lemma slotted_step_spec:
  assumes "slotted_validate page" "leaf_op_ok a"
  obtains page' where "slotted_step a page = (fst (spec_step a (entries page)), page')" "slotted_validate page'"
    "same_leaf page page'" "entries page' = snd (spec_step a (entries page))"
proof (cases a)
  case (Leaf_Insert k v)
  with assms(2) have k: "k < 2 ^ 32" by simp
  obtain page' where "slotted_insert page k v = (fst (spec_insert (entries page) k v), page')"
    "slotted_validate page'" "same_leaf page page'" "entries page' = snd (spec_insert (entries page) k v)"
    using slotted_insert_spec [OF assms(1) k] .
  with that [of page'] Leaf_Insert show thesis by (simp add: split_beta)
next
  case (Leaf_Update k v)
  obtain page' where "slotted_update page k v = (fst (spec_update (entries page) k v), page')"
    "slotted_validate page'" "same_leaf page page'" "entries page' = snd (spec_update (entries page) k v)"
    using slotted_update_spec [OF assms(1)] .
  with that [of page'] Leaf_Update show thesis by (simp add: split_beta)
next
  case (Leaf_Delete k)
  obtain page' where "slotted_delete page k = (fst (spec_delete (entries page) k), page')"
    "slotted_validate page'" "same_leaf page page'" "entries page' = snd (spec_delete (entries page) k)"
    using slotted_delete_spec [OF assms(1)] .
  with that [of page'] Leaf_Delete show thesis by (simp add: split_beta)
next
  case Leaf_Compact
  obtain page' where "slotted_compact page = (True, page')" "slotted_validate page'" "same_leaf page page'"
    "entries page' = entries page" using slotted_compact_spec [OF assms(1)] .
  with that [of page'] Leaf_Compact show thesis by simp
next
  case (Leaf_Read k capacity)
  with that [of page] assms slotted_read_spec [OF assms(1)] show thesis by simp
qed

interpretation leaf: step_refinement slotted_step spec_step entries slotted_validate leaf_op_ok same_leaf
proof unfold_locales
  fix page a assume "slotted_validate page" "leaf_op_ok a"
  then show "\<exists>page'. slotted_step a page = (fst (spec_step a (entries page)), page') \<and> slotted_validate page' \<and>
      same_leaf page page' \<and> entries page' = snd (spec_step a (entries page))"
    by (rule slotted_step_spec) blast
qed (auto intro: same_leaf_trans)

text \<open>C39. The slotted leaf refines a bounded sorted map: any sequence of inserts, updates, deletes,
  compactions and reads on the bytes of a valid page returns what the same sequence returns on the list
  of its entries, where an insert or update is refused exactly when the entries would need more than
  4064 bytes; the page stays valid and its tree links, flags and checksum bytes are not touched.\<close>

theorem slotted_leaf_refines_map:
  assumes "slotted_validate page" and "\<forall>a\<in>set ops. leaf_op_ok a"
    and "run_ops slotted_step ops page = (rs, page')" and "run_ops spec_step ops (entries page) = (rs', es')"
  shows "rs = rs' \<and> entries page' = es' \<and> slotted_validate page' \<and> same_leaf page page'"
  using assms by (rule leaf.run_refines)

lemma fresh_leaf:
  assumes "valid_page page"
  shows "fst (slotted_init page)" "slotted_validate (snd (slotted_init page))" "entries (snd (slotted_init page)) = []"
  using slotted_init_spec [OF assms] by (metis fst_conv snd_conv)+

text \<open>A page filled, changed and read: an insert in front, a refused duplicate, an update that grows a value,
  a delete, and reads.\<close>

definition leaf_demo :: "leaf_op list" where
  "leaf_demo = [Leaf_Insert 7 [1, 2], Leaf_Insert 3 [9], Leaf_Insert 7 [5], Leaf_Update 7 [4, 4, 4], Leaf_Delete 3,
     Leaf_Delete 8, Leaf_Compact, Leaf_Read 7 10, Leaf_Read 7 2, Leaf_Read 3 10]"

lemma leaf_demo_spec:
  "run_ops spec_step leaf_demo [] =
     ([Done True, Done True, Done False, Done True, Done True, Done False, Done True,
       Value (Some [4, 4, 4]), Value None, Value None], [(7, [4, 4, 4])])"
  by (simp add: leaf_demo_def spec_insert_def spec_put_def spec_update_def spec_delete_def spec_read_def image_iff)

lemma slotted_leaf_refines_map_witness:
  "fst (run_ops slotted_step leaf_demo (snd (slotted_init (replicate PAGE_SIZE 0)))) =
     [Done True, Done True, Done False, Done True, Done True, Done False, Done True,
      Value (Some [4, 4, 4]), Value None, Value None]"
proof -
  define page where "page = snd (slotted_init (replicate PAGE_SIZE 0))"
  have v: "slotted_validate page" "entries page = []"
    using fresh_leaf [of "replicate PAGE_SIZE 0"] by (simp_all add: page_def valid_page_def)
  have ok: "\<forall>a\<in>set leaf_demo. leaf_op_ok a" by (simp add: leaf_demo_def)
  obtain rs page' where r: "run_ops slotted_step leaf_demo page = (rs, page')" by (cases "run_ops slotted_step leaf_demo page")
  from slotted_leaf_refines_map [OF v(1) ok r] leaf_demo_spec v(2) r show ?thesis by (simp add: page_def)
qed

text \<open>C40. What the validation admits is safe to read: every payload lies between the free space and the
  checksum, no two payloads share a byte, the keys are strictly ascending, and there are at most 451 of
  them.\<close>

theorem validated_leaf_is_safe:
  assumes "slotted_validate page"
  shows "slotted_count page \<le> 451 \<and>
    (\<forall>i < slotted_count page. V2_HEADER_SIZE + V2_SLOT_SIZE * slotted_count page \<le> s_value_offset (read_slot page i) \<and>
       s_value_offset (read_slot page i) + s_value_length (read_slot page i) \<le> PAGE_USABLE_SIZE \<and>
       PAGE_USABLE_SIZE < length page \<and>
       (\<forall>j<i. s_key (read_slot page j) < s_key (read_slot page i) \<and>
          {s_value_offset (read_slot page i)..<s_value_offset (read_slot page i) + s_value_length (read_slot page i)} \<inter>
          {s_value_offset (read_slot page j)..<s_value_offset (read_slot page j) + s_value_length (read_slot page j)} = {}))"
proof -
  note V = validD [OF assms]
  have c: "slotted_count page = raw_count page" using assms by (simp add: slotted_count_def)
  have "sum_list (map s_value_length (slots page)) \<ge> length (slots page)"
  proof -
    have "length ss \<le> sum_list (map s_value_length ss)" if "\<forall>s\<in>set ss. 0 < s_value_length s" for ss
      using that by (induction ss) auto
    from this [of "slots page"] show ?thesis using V(6) unfolding slots_ok_def by blast
  qed
  then have "raw_count page \<le> 451" using V(5,7,8) by (simp add: payload_size_def)
  moreover have "\<not> slots_overlap (read_slot page i) (read_slot page j)" if "j < i" "i < raw_count page" for i j
    using V(6,8) that by (auto simp: slots_ok_def sorted_wrt_iff_nth_less)
  then have "{s_value_offset (read_slot page i)..<s_value_offset (read_slot page i) + s_value_length (read_slot page i)} \<inter>
      {s_value_offset (read_slot page j)..<s_value_offset (read_slot page j) + s_value_length (read_slot page j)} = {}"
    if "j < i" "i < raw_count page" for i j
    using that by (auto simp: slots_overlap_def)
  moreover have "28 + 8 * raw_count page \<le> s_value_offset (read_slot page i)" if "i < raw_count page" for i
    using V(5) valid_slot(2) [OF assms that] by simp
  ultimately show ?thesis
    using V(2) valid_slot(3,4) [OF assms] by (simp add: c)
qed

lemma validated_leaf_is_safe_witness:
  "\<exists>page. slotted_insert (snd (slotted_init (replicate PAGE_SIZE 0))) 7 [1, 2] = (True, page) \<and> slotted_count page = 1 \<and>
     V2_HEADER_SIZE + V2_SLOT_SIZE * 1 \<le> s_value_offset (read_slot page 0) \<and>
     s_value_offset (read_slot page 0) + s_value_length (read_slot page 0) \<le> PAGE_USABLE_SIZE"
proof -
  have "valid_page (replicate PAGE_SIZE (0::u8))" by (simp add: valid_page_def)
  note F = fresh_leaf [OF this]
  obtain page where page: "slotted_insert (snd (slotted_init (replicate PAGE_SIZE 0))) 7 [1, 2] = (True, page)"
    "slotted_validate page" "entries page = [(7, [1, 2])]"
    using slotted_insert_spec [OF F(2), of 7 "[1, 2]"] by (auto simp: F(3) spec_insert_def spec_put_def)
  have "slotted_count page = 1" using page(2,3) length_entries [of page] by (simp add: slotted_count_def)
  with validated_leaf_is_safe [OF page(2)] page(1) show ?thesis by simp
qed

end
