(* ===== verification/BTreeNode.thy ===== *)
theory BTreeNode
  imports NodeLayout
begin

text \<open>
  The bytes of a B+ tree page of \<open>src/table.c\<close> and \<open>src/table.h\<close>: the accessors of leaf and internal
  nodes and the searches inside one node. An accessor that returns a pointer into the page is a pair of
  a read and a write; a \<open>uint32_t\<close> in a page is a natural cut to 32 bits when it is stored.
\<close>

section \<open>Rows\<close>

definition ID_SIZE :: nat where "ID_SIZE = 4"
definition USERNAME_SIZE :: nat where "USERNAME_SIZE = 32 + 1"
definition EMAIL_SIZE :: nat where "EMAIL_SIZE = 255 + 1"
definition ID_OFFSET :: nat where "ID_OFFSET = 0"
definition USERNAME_OFFSET :: nat where "USERNAME_OFFSET = ID_OFFSET + ID_SIZE"
definition EMAIL_OFFSET :: nat where "EMAIL_OFFSET = USERNAME_OFFSET + USERNAME_SIZE"
definition ROW_SIZE :: nat where "ROW_SIZE = ID_SIZE + USERNAME_SIZE + EMAIL_SIZE"

record row =
  id_of :: nat
  username :: bytes
  email :: bytes

definition row_ok :: "row \<Rightarrow> bool" where
  "row_ok r \<longleftrightarrow> id_of r < 2 ^ 32 \<and> length (username r) = USERNAME_SIZE \<and> length (email r) = EMAIL_SIZE"

definition serialize_row :: "row \<Rightarrow> nat \<Rightarrow> bytes \<Rightarrow> bytes" where
  "serialize_row source destination page =
     blit (destination + EMAIL_OFFSET) (email source)
       (blit (destination + USERNAME_OFFSET) (username source)
         (blit (destination + ID_OFFSET) (put_u32 (id_of source)) page))"

definition deserialize_row :: "bytes \<Rightarrow> nat \<Rightarrow> row" where
  "deserialize_row page source =
     \<lparr>id_of = get_u32 (slice (source + ID_OFFSET) ID_SIZE page),
      username = slice (source + USERNAME_OFFSET) USERNAME_SIZE page,
      email = slice (source + EMAIL_OFFSET) EMAIL_SIZE page\<rparr>"

section \<open>Layout\<close>

definition LEAF_NODE_NUM_CELLS_OFFSET :: nat where "LEAF_NODE_NUM_CELLS_OFFSET = COMMON_NODE_HEADER_SIZE"
definition LEAF_NODE_NEXT_LEAF_OFFSET :: nat where "LEAF_NODE_NEXT_LEAF_OFFSET = LEAF_NODE_NUM_CELLS_OFFSET + 4"
definition LEAF_NODE_PREV_LEAF_OFFSET :: nat where "LEAF_NODE_PREV_LEAF_OFFSET = LEAF_NODE_NEXT_LEAF_OFFSET + 4"
definition LEAF_NODE_HEADER_SIZE :: nat where "LEAF_NODE_HEADER_SIZE = COMMON_NODE_HEADER_SIZE + 4 + 4 + 4"
definition LEAF_NODE_KEY_SIZE :: nat where "LEAF_NODE_KEY_SIZE = 4"
definition LEAF_NODE_CELL_SIZE :: nat where "LEAF_NODE_CELL_SIZE = LEAF_NODE_KEY_SIZE + ROW_SIZE"
definition LEAF_NODE_SPACE_FOR_CELLS :: nat where "LEAF_NODE_SPACE_FOR_CELLS = PAGE_USABLE_SIZE - LEAF_NODE_HEADER_SIZE"
definition LEAF_NODE_MAX_CELLS :: nat where "LEAF_NODE_MAX_CELLS = LEAF_NODE_SPACE_FOR_CELLS div LEAF_NODE_CELL_SIZE"
definition LEAF_NODE_RIGHT_SPLIT_COUNT :: nat where "LEAF_NODE_RIGHT_SPLIT_COUNT = (LEAF_NODE_MAX_CELLS + 1) div 2"
definition LEAF_NODE_LEFT_SPLIT_COUNT :: nat where
  "LEAF_NODE_LEFT_SPLIT_COUNT = (LEAF_NODE_MAX_CELLS + 1) - LEAF_NODE_RIGHT_SPLIT_COUNT"

definition INTERNAL_NODE_NUM_KEYS_OFFSET :: nat where "INTERNAL_NODE_NUM_KEYS_OFFSET = COMMON_NODE_HEADER_SIZE"
definition INTERNAL_NODE_RIGHT_CHILD_OFFSET :: nat where "INTERNAL_NODE_RIGHT_CHILD_OFFSET = INTERNAL_NODE_NUM_KEYS_OFFSET + 4"
definition INTERNAL_NODE_HEADER_SIZE :: nat where "INTERNAL_NODE_HEADER_SIZE = COMMON_NODE_HEADER_SIZE + 4 + 4"
definition INTERNAL_NODE_CHILD_SIZE :: nat where "INTERNAL_NODE_CHILD_SIZE = 4"
definition INTERNAL_NODE_CELL_SIZE :: nat where "INTERNAL_NODE_CELL_SIZE = INTERNAL_NODE_CHILD_SIZE + 4"
definition INTERNAL_NODE_MAX_KEYS :: nat where
  "INTERNAL_NODE_MAX_KEYS = (PAGE_USABLE_SIZE - INTERNAL_NODE_HEADER_SIZE) div INTERNAL_NODE_CELL_SIZE"
definition INTERNAL_NODE_RIGHT_SPLIT_COUNT :: nat where "INTERNAL_NODE_RIGHT_SPLIT_COUNT = (INTERNAL_NODE_MAX_KEYS + 1) div 2"
definition INTERNAL_NODE_LEFT_SPLIT_COUNT :: nat where
  "INTERNAL_NODE_LEFT_SPLIT_COUNT = (INTERNAL_NODE_MAX_KEYS + 1) - INTERNAL_NODE_RIGHT_SPLIT_COUNT"

section \<open>Accessors\<close>

definition rd32 :: "nat \<Rightarrow> bytes \<Rightarrow> nat" where
  "rd32 off node = get_u32 (slice off 4 node)"

definition wr32 :: "nat \<Rightarrow> nat \<Rightarrow> bytes \<Rightarrow> bytes" where
  "wr32 off v node = blit off (put_u32 v) node"

definition get_node_type :: "bytes \<Rightarrow> u8" where
  "get_node_type node = node ! NODE_TYPE_OFFSET"

definition set_node_type :: "u8 \<Rightarrow> bytes \<Rightarrow> bytes" where
  "set_node_type t node = node[NODE_TYPE_OFFSET := t]"

definition is_node_root :: "bytes \<Rightarrow> bool" where
  "is_node_root node \<longleftrightarrow> node ! IS_ROOT_OFFSET \<noteq> 0"

definition set_node_root :: "bool \<Rightarrow> bytes \<Rightarrow> bytes" where
  "set_node_root is_root node = node[IS_ROOT_OFFSET := (if is_root then 1 else 0)]"

definition node_parent :: "bytes \<Rightarrow> nat" where "node_parent node = rd32 PARENT_POINTER_OFFSET node"
definition set_node_parent :: "nat \<Rightarrow> bytes \<Rightarrow> bytes" where "set_node_parent v node = wr32 PARENT_POINTER_OFFSET v node"

definition leaf_node_num_cells :: "bytes \<Rightarrow> nat" where "leaf_node_num_cells node = rd32 LEAF_NODE_NUM_CELLS_OFFSET node"
definition set_num_cells :: "nat \<Rightarrow> bytes \<Rightarrow> bytes" where "set_num_cells v node = wr32 LEAF_NODE_NUM_CELLS_OFFSET v node"
definition leaf_node_next_leaf :: "bytes \<Rightarrow> nat" where "leaf_node_next_leaf node = rd32 LEAF_NODE_NEXT_LEAF_OFFSET node"
definition set_next_leaf :: "nat \<Rightarrow> bytes \<Rightarrow> bytes" where "set_next_leaf v node = wr32 LEAF_NODE_NEXT_LEAF_OFFSET v node"
definition leaf_node_prev_leaf :: "bytes \<Rightarrow> nat" where "leaf_node_prev_leaf node = rd32 LEAF_NODE_PREV_LEAF_OFFSET node"
definition set_prev_leaf :: "nat \<Rightarrow> bytes \<Rightarrow> bytes" where "set_prev_leaf v node = wr32 LEAF_NODE_PREV_LEAF_OFFSET v node"

text \<open>\<open>leaf_node_cell\<close> and \<open>leaf_node_value\<close> are offsets in the page.\<close>

definition leaf_node_cell :: "nat \<Rightarrow> nat" where
  "leaf_node_cell cell_num = LEAF_NODE_HEADER_SIZE + cell_num * LEAF_NODE_CELL_SIZE"

definition leaf_node_key :: "bytes \<Rightarrow> nat \<Rightarrow> nat" where
  "leaf_node_key node cell_num = rd32 (leaf_node_cell cell_num) node"

definition set_leaf_key :: "nat \<Rightarrow> nat \<Rightarrow> bytes \<Rightarrow> bytes" where
  "set_leaf_key cell_num v node = wr32 (leaf_node_cell cell_num) v node"

definition leaf_node_value :: "nat \<Rightarrow> nat" where
  "leaf_node_value cell_num = leaf_node_cell cell_num + LEAF_NODE_KEY_SIZE"

definition internal_node_num_keys :: "bytes \<Rightarrow> nat" where "internal_node_num_keys node = rd32 INTERNAL_NODE_NUM_KEYS_OFFSET node"
definition set_num_keys :: "nat \<Rightarrow> bytes \<Rightarrow> bytes" where "set_num_keys v node = wr32 INTERNAL_NODE_NUM_KEYS_OFFSET v node"
definition internal_node_right_child :: "bytes \<Rightarrow> nat" where
  "internal_node_right_child node = rd32 INTERNAL_NODE_RIGHT_CHILD_OFFSET node"
definition set_right_child :: "nat \<Rightarrow> bytes \<Rightarrow> bytes" where
  "set_right_child v node = wr32 INTERNAL_NODE_RIGHT_CHILD_OFFSET v node"

definition internal_node_cell :: "nat \<Rightarrow> nat" where
  "internal_node_cell cell_num = INTERNAL_NODE_HEADER_SIZE + cell_num * INTERNAL_NODE_CELL_SIZE"

definition internal_node_key :: "bytes \<Rightarrow> nat \<Rightarrow> nat" where
  "internal_node_key node key_num = rd32 (internal_node_cell key_num + INTERNAL_NODE_CHILD_SIZE) node"

definition set_internal_key :: "nat \<Rightarrow> nat \<Rightarrow> bytes \<Rightarrow> bytes" where
  "set_internal_key key_num v node = wr32 (internal_node_cell key_num + INTERNAL_NODE_CHILD_SIZE) v node"

text \<open>\<open>internal_node_child\<close> ends the process for a child behind the right child; otherwise it is the offset
  of the pointer.\<close>

datatype tree_exit = Exit_Child_Out_Of_Range nat nat | Exit_Pages_Exhausted | Exit_Free_Page nat

definition internal_node_child :: "bytes \<Rightarrow> nat \<Rightarrow> tree_exit + nat" where
  "internal_node_child node child_num =
     (let num_keys = internal_node_num_keys node
      in if child_num > num_keys then Inl (Exit_Child_Out_Of_Range child_num num_keys)
         else Inr (if child_num = num_keys then INTERNAL_NODE_RIGHT_CHILD_OFFSET else internal_node_cell child_num))"

section \<open>Searching inside a node\<close>

function find_child_loop :: "bytes \<Rightarrow> nat \<Rightarrow> nat \<Rightarrow> nat \<Rightarrow> nat" where
  "find_child_loop node key min_index max_index =
     (if min_index < max_index then
        let index = (min_index + max_index) div 2;
            key_to_right = internal_node_key node index
        in if key_to_right \<ge> key then find_child_loop node key min_index index
           else find_child_loop node key (index + 1) max_index
      else min_index)"
  by pat_completeness auto
termination
  by (relation "measure (\<lambda>(node, key, min_index, max_index). max_index - min_index)") auto

definition internal_node_find_child :: "bytes \<Rightarrow> nat \<Rightarrow> tree_exit + nat" where
  "internal_node_find_child node key =
     internal_node_child node (find_child_loop node key 0 (internal_node_num_keys node))"

function leaf_find_loop :: "bytes \<Rightarrow> nat \<Rightarrow> nat \<Rightarrow> nat \<Rightarrow> nat" where
  "leaf_find_loop node key min_index one_past_max_index =
     (if min_index < one_past_max_index then
        let index = (min_index + one_past_max_index) div 2;
            key_at_index = leaf_node_key node index
        in if key = key_at_index then index
           else if key < key_at_index then leaf_find_loop node key min_index index
           else leaf_find_loop node key (index + 1) one_past_max_index
      else min_index)"
  by pat_completeness auto
termination
  by (relation "measure (\<lambda>(node, key, min_index, one_past). one_past - min_index)") auto

declare find_child_loop.simps [simp del] leaf_find_loop.simps [simp del]

text \<open>The last key. On an empty node the index wraps below zero and the C code reads far outside the page;
  the model reads the first cell there, and no caller passes an empty node of a well-formed tree.\<close>

definition get_node_max_key :: "bytes \<Rightarrow> nat" where
  "get_node_max_key node =
     (if get_node_type node = NODE_LEAF then leaf_node_key node (leaf_node_num_cells node - 1)
      else if get_node_type node = NODE_INTERNAL then internal_node_key node (internal_node_num_keys node - 1)
      else 0)"

section \<open>Fresh nodes\<close>

definition initialize_leaf_node :: "bytes \<Rightarrow> bytes" where
  "initialize_leaf_node node =
     set_prev_leaf 0 (set_next_leaf 0 (set_num_cells 0 (set_node_root False (set_node_type NODE_LEAF node))))"

definition initialize_internal_node :: "bytes \<Rightarrow> bytes" where
  "initialize_internal_node node =
     set_right_child 0 (set_num_keys 0 (set_node_root False (set_node_type NODE_INTERNAL node)))"

definition update_internal_node_key :: "nat \<Rightarrow> nat \<Rightarrow> bytes \<Rightarrow> bytes" where
  "update_internal_node_key old_key new_key node =
     (case find (\<lambda>i. internal_node_key node i = old_key) [0..<internal_node_num_keys node] of
        Some i \<Rightarrow> set_internal_key i new_key node
      | None \<Rightarrow> node)"

end
