(* ===== verification/BTree.thy ===== *)
theory BTree
  imports BTreeNode
begin

text \<open>
  The B+ tree of \<open>src/table.c\<close> on the pages the pager shows it: search, cursors, insertion with leaf and
  root splits, deletion with the removal of empty leaves. A pointer from \<open>get_page\<close> is the number of its
  page: it is read and written in the current state, which is what the pager gives as long as the frame
  is not evicted in between.
\<close>

section \<open>Pages as the tree sees them\<close>

text \<open>\<open>t_backing\<close> is what a page reads as when its uncommitted content is thrown away, which happens when
  it is freed.\<close>

record tree =
  t_pages :: "nat \<Rightarrow> bytes"
  t_backing :: "nat \<Rightarrow> bytes"
  t_num_pages :: nat
  t_free_pages :: "nat list"
  t_dirty :: "nat \<Rightarrow> bool"
  t_root :: nat

definition fetch :: "nat \<Rightarrow> tree \<Rightarrow> tree" where
  "fetch n s = s\<lparr>t_num_pages := max (t_num_pages s) (n + 1)\<rparr>"

definition poke :: "nat \<Rightarrow> (bytes \<Rightarrow> bytes) \<Rightarrow> tree \<Rightarrow> tree" where
  "poke n f s = s\<lparr>t_pages := (t_pages s)(n := f (t_pages s n))\<rparr>"

definition mark :: "nat \<Rightarrow> tree \<Rightarrow> tree" where
  "mark n s = s\<lparr>t_dirty := (t_dirty s)(n := True)\<rparr>"

definition alloc :: "tree \<Rightarrow> tree_exit + nat \<times> tree" where
  "alloc s =
     (if t_free_pages s \<noteq> [] then Inr (last (t_free_pages s), s\<lparr>t_free_pages := butlast (t_free_pages s)\<rparr>)
      else if t_num_pages s = INVALID_PAGE_NUM then Inl Exit_Pages_Exhausted
      else Inr (t_num_pages s, s))"

definition free_page :: "nat \<Rightarrow> tree \<Rightarrow> tree_exit + tree" where
  "free_page n s =
     (if n = 0 \<or> n = INVALID_PAGE_NUM \<or> n \<ge> t_num_pages s then Inl (Exit_Free_Page n)
      else Inr (s\<lparr>t_free_pages := t_free_pages s @ [n], t_dirty := (t_dirty s)(n := False),
                  t_pages := (t_pages s)(n := t_backing s n)\<rparr>))"

section \<open>Cursors\<close>

record cursor =
  c_page :: nat
  c_cell :: nat
  c_end :: bool

definition leaf_node_find :: "nat \<Rightarrow> nat \<Rightarrow> tree \<Rightarrow> cursor \<times> tree" where
  "leaf_node_find page_num key s =
     (let s1 = fetch page_num s; node = t_pages s1 page_num
      in (\<lparr>c_page = page_num, c_cell = leaf_find_loop node key 0 (leaf_node_num_cells node), c_end = False\<rparr>, s1))"

text \<open>\<open>None\<close> for the cursor is the null pointer the C code returns at a page of neither kind; the outer
  \<open>None\<close> is a descent that does not end.\<close>

partial_function (option) internal_node_find :: "nat \<Rightarrow> nat \<Rightarrow> tree \<Rightarrow> (tree_exit + cursor option \<times> tree) option" where
  "internal_node_find page_num key s =
     (let s1 = fetch page_num s; node = t_pages s1 page_num
      in case internal_node_find_child node key of
          Inl e \<Rightarrow> Some (Inl e)
        | Inr off \<Rightarrow>
            let child_num = rd32 off node; s2 = fetch child_num s1; child = t_pages s2 child_num
            in if get_node_type child = NODE_LEAF then
                 (case leaf_node_find child_num key s2 of (c, s3) \<Rightarrow> Some (Inr (Some c, s3)))
               else if get_node_type child = NODE_INTERNAL then internal_node_find child_num key s2
               else Some (Inr (None, s2)))"

definition table_find :: "nat \<Rightarrow> tree \<Rightarrow> (tree_exit + cursor option \<times> tree) option" where
  "table_find key s =
     (let s1 = fetch (t_root s) s
      in if get_node_type (t_pages s1 (t_root s)) = NODE_LEAF
         then (case leaf_node_find (t_root s) key s1 of (c, s2) \<Rightarrow> Some (Inr (Some c, s2)))
         else internal_node_find (t_root s) key s1)"

definition table_start :: "tree \<Rightarrow> (tree_exit + cursor option \<times> tree) option" where
  "table_start s =
     (case table_find 0 s of None \<Rightarrow> None
      | Some (Inl e) \<Rightarrow> Some (Inl e)
      | Some (Inr (None, s1)) \<Rightarrow> Some (Inr (None, s1))
      | Some (Inr (Some c, s1)) \<Rightarrow>
          let s2 = fetch (c_page c) s1
          in Some (Inr (Some (c\<lparr>c_end := leaf_node_num_cells (t_pages s2 (c_page c)) = 0\<rparr>), s2)))"

definition cursor_value :: "cursor \<Rightarrow> tree \<Rightarrow> row \<times> tree" where
  "cursor_value c s =
     (let s1 = fetch (c_page c) s
      in (deserialize_row (t_pages s1 (c_page c)) (leaf_node_value (c_cell c)), s1))"

partial_function (option) advance_loop :: "cursor \<Rightarrow> tree \<Rightarrow> (cursor \<times> tree) option" where
  "advance_loop c s =
     (let node = t_pages s (c_page c)
      in if c_cell c < leaf_node_num_cells node then Some (c, s)
         else if leaf_node_next_leaf node = 0 then Some (c\<lparr>c_end := True\<rparr>, s)
         else advance_loop (c\<lparr>c_page := leaf_node_next_leaf node, c_cell := 0\<rparr>) (fetch (leaf_node_next_leaf node) s))"

definition cursor_advance :: "cursor \<Rightarrow> tree \<Rightarrow> (cursor \<times> tree) option" where
  "cursor_advance c s = advance_loop (c\<lparr>c_cell := c_cell c + 1\<rparr>) (fetch (c_page c) s)"

partial_function (option) rightmost_loop :: "nat \<Rightarrow> tree \<Rightarrow> (nat \<times> tree) option" where
  "rightmost_loop page_num s =
     (let node = t_pages s page_num
      in if get_node_type node = NODE_INTERNAL
         then rightmost_loop (internal_node_right_child node) (fetch (internal_node_right_child node) s)
         else Some (page_num, s))"

definition table_end :: "tree \<Rightarrow> (cursor \<times> tree) option" where
  "table_end s =
     (case rightmost_loop (t_root s) (fetch (t_root s) s) of None \<Rightarrow> None
      | Some (page_num, s1) \<Rightarrow>
          let num_cells = leaf_node_num_cells (t_pages s1 page_num)
          in Some (\<lparr>c_page = page_num, c_cell = (if num_cells > 0 then num_cells - 1 else 0), c_end = (num_cells = 0)\<rparr>, s1))"

text \<open>The loop over empty leaves on the way back; the page it starts on has been fetched.\<close>

partial_function (option) retreat_loop :: "cursor \<Rightarrow> tree \<Rightarrow> (cursor \<times> tree) option" where
  "retreat_loop c s =
     (let node = t_pages s (c_page c); prev_page = leaf_node_prev_leaf node
      in if leaf_node_num_cells node \<noteq> 0 then Some (c\<lparr>c_cell := leaf_node_num_cells node - 1\<rparr>, s)
         else if prev_page = 0 then Some (c\<lparr>c_end := True\<rparr>, s)
         else retreat_loop (c\<lparr>c_page := prev_page\<rparr>) (fetch prev_page s))"

definition cursor_retreat :: "cursor \<Rightarrow> tree \<Rightarrow> (cursor \<times> tree) option" where
  "cursor_retreat c s =
     (if c_cell c > 0 then Some (c\<lparr>c_cell := c_cell c - 1\<rparr>, s)
      else
        let s1 = fetch (c_page c) s; prev_page = leaf_node_prev_leaf (t_pages s1 (c_page c))
        in if prev_page = 0 then Some (c\<lparr>c_end := True\<rparr>, s1)
           else retreat_loop (c\<lparr>c_page := prev_page\<rparr>) (fetch prev_page s1))"

section \<open>Internal nodes: insertion\<close>

definition copy_internal_cell :: "nat \<Rightarrow> nat \<Rightarrow> bytes \<Rightarrow> bytes" where
  "copy_internal_cell dst src node =
     blit (internal_node_cell dst) (slice (internal_node_cell src) INTERNAL_NODE_CELL_SIZE node) node"

definition set_internal_cell :: "nat \<Rightarrow> nat \<Rightarrow> bytes \<Rightarrow> bytes" where
  "set_internal_cell i v node = wr32 (internal_node_cell i) v node"

text \<open>The two ways \<open>internal_node_insert\<close> changes a parent with room: behind the right child, or in front of
  the first separator that is not smaller.\<close>

definition insert_behind_right :: "nat \<Rightarrow> nat \<Rightarrow> bytes \<Rightarrow> bytes" where
  "insert_behind_right right_max child_page_num parent =
     (let num_keys = internal_node_num_keys parent
      in set_right_child child_page_num
           (set_internal_key num_keys right_max
             (set_internal_cell num_keys (internal_node_right_child parent) parent)))"

fun first_not_less :: "bytes \<Rightarrow> nat \<Rightarrow> nat list \<Rightarrow> nat \<Rightarrow> nat" where
  "first_not_less parent key [] num_keys = num_keys"
| "first_not_less parent key (i # is) num_keys =
     (if internal_node_key parent i < key then first_not_less parent key is num_keys else i)"

definition insert_in_front :: "nat \<Rightarrow> nat \<Rightarrow> bytes \<Rightarrow> bytes" where
  "insert_in_front child_max_key child_page_num parent =
     (let num_keys = internal_node_num_keys parent;
          index = first_not_less parent child_max_key [0..<num_keys] num_keys;
          shifted = fold (\<lambda>i. copy_internal_cell i (i - 1)) (rev [index + 1..<num_keys + 1]) parent
      in set_internal_key index child_max_key (set_internal_cell index child_page_num shifted))"

text \<open>Shifting keys and children of an over-full node to the right, as the split does: \<open>idx\<close> counts down while
  the key before it is greater. The position reached and the node, or the exit of
  \<open>internal_node_child\<close>.\<close>

fun overfull_shift :: "nat \<Rightarrow> nat \<Rightarrow> bytes \<Rightarrow> tree_exit + nat \<times> bytes" where
  "overfull_shift new_separator 0 node = Inr (0, node)"
| "overfull_shift new_separator (Suc i) node =
     (if internal_node_key node i > new_separator then
        let node1 = set_internal_key (Suc i) (internal_node_key node i) node
        in and_then (internal_node_child node1 (Suc i + 1)) (\<lambda>dst.
           and_then (internal_node_child node1 (Suc i)) (\<lambda>src.
             overfull_shift new_separator i (wr32 dst (rd32 src node1) node1)))
      else Inr (Suc i, node))"

definition overfull_insert :: "nat \<Rightarrow> nat \<Rightarrow> bytes \<Rightarrow> tree_exit + bytes" where
  "overfull_insert new_separator child_page_num node =
     (let cur_num_keys = internal_node_num_keys node
      in and_then (overfull_shift new_separator cur_num_keys node) (\<lambda>(idx, node1).
           let node2 = set_internal_key idx new_separator node1
           in and_then (internal_node_child node2 (idx + 1)) (\<lambda>dst.
                Inr (set_num_keys (cur_num_keys + 1)
                      (set_right_child child_page_num (wr32 dst (internal_node_right_child node2) node2))))))"

text \<open>Copying the upper half of an over-full node.\<close>

definition copy_upper :: "nat \<Rightarrow> bytes \<Rightarrow> nat \<Rightarrow> bytes \<Rightarrow> tree_exit + bytes" where
  "copy_upper left_count old_node i new_node =
     and_then (internal_node_child new_node i) (\<lambda>dst.
     and_then (internal_node_child old_node (left_count + 1 + i)) (\<lambda>src.
       Inr (set_internal_key i (internal_node_key old_node (left_count + 1 + i)) (wr32 dst (rd32 src old_node) new_node))))"

definition adopt_child :: "nat \<Rightarrow> nat \<Rightarrow> tree \<Rightarrow> tree_exit + tree" where
  "adopt_child new_page_num i s =
     and_then (internal_node_child (t_pages s new_page_num) i) (\<lambda>off.
       let moved = rd32 off (t_pages s new_page_num)
       in Inr (mark moved (poke moved (set_node_parent new_page_num) (fetch moved s))))"

text \<open>The search for the position in the split only fetches pages; the arrays it fills are thrown away.\<close>

fun probe_children :: "nat \<Rightarrow> nat \<Rightarrow> nat list \<Rightarrow> tree \<Rightarrow> tree_exit + tree" where
  "probe_children page_num child_max_key [] s = Inr s"
| "probe_children page_num child_max_key (i # is) s =
     and_then (internal_node_child (t_pages s page_num) i) (\<lambda>off.
       let child = rd32 off (t_pages s page_num); s1 = fetch child s
       in if child_max_key < get_node_max_key (t_pages s1 child) then Inr s1
          else probe_children page_num child_max_key is s1)"

definition split_bytes :: "nat \<Rightarrow> nat \<Rightarrow> nat \<Rightarrow> nat \<Rightarrow> tree \<Rightarrow> tree_exit + nat \<times> tree" where
  "split_bytes page_num child_page_num child_max_key new_page_num s =
     and_then (probe_children page_num child_max_key [0..<internal_node_num_keys (t_pages s page_num) + 1] s) (\<lambda>s1.
     and_then (overfull_insert child_max_key child_page_num (t_pages s1 page_num)) (\<lambda>old_node.
       let s2 = poke page_num (\<lambda>_. old_node) s1;
           left_count = INTERNAL_NODE_LEFT_SPLIT_COUNT;
           right_count = internal_node_num_keys old_node - left_count - 1;
           mid_key = internal_node_key old_node left_count;
           new_node = set_right_child (internal_node_right_child old_node) (set_num_keys right_count (t_pages s2 new_page_num))
       in and_then (for_each (copy_upper left_count old_node) [0..<right_count] new_node) (\<lambda>new_node.
          and_then (internal_node_child old_node left_count) (\<lambda>off.
            let left_node = set_num_keys left_count (set_right_child (rd32 off old_node) old_node);
                s3 = poke page_num (\<lambda>_. left_node) (poke new_page_num (\<lambda>_. new_node) s2)
            in and_then (for_each (adopt_child new_page_num) [0..<right_count + 1] s3) (\<lambda>s4. Inr (mid_key, s4))))))"

definition split_root :: "nat \<Rightarrow> nat \<Rightarrow> nat \<Rightarrow> tree \<Rightarrow> tree_exit + tree" where
  "split_root page_num new_page_num mid_key s =
     and_then (alloc s) (\<lambda>(left_page_num, s1).
       let s2 = mark left_page_num (poke left_page_num (\<lambda>_. set_node_root False (t_pages s1 page_num)) (fetch left_page_num s1));
           s3 = poke page_num (\<lambda>node. set_right_child new_page_num (set_internal_key 0 mid_key
                  (set_internal_cell 0 left_page_num (set_num_keys 1 (set_node_root True (initialize_internal_node node)))))) s2
       in Inr (poke new_page_num (set_node_parent (t_root s)) (poke left_page_num (set_node_parent (t_root s)) s3)))"

text \<open>The split; \<open>ins\<close> stands for the recursive call of \<open>internal_node_insert\<close> on the parent.\<close>

definition internal_node_split_and_insert ::
    "(nat \<Rightarrow> nat \<Rightarrow> tree \<Rightarrow> (tree_exit + tree) option) \<Rightarrow> nat \<Rightarrow> nat \<Rightarrow> tree \<Rightarrow> (tree_exit + tree) option" where
  "internal_node_split_and_insert ins page_num child_page_num s =
     (let s1 = fetch page_num s;
          old_max = get_node_max_key (t_pages s1 page_num);
          s2 = fetch child_page_num (mark page_num s1);
          child_max_key = get_node_max_key (t_pages s2 child_page_num)
      in case alloc s2 of
          Inl e \<Rightarrow> Some (Inl e)
        | Inr (new_page_num, s3) \<Rightarrow>
            let s4 = mark new_page_num (poke new_page_num initialize_internal_node (fetch new_page_num s3));
                splitting_root = is_node_root (t_pages s4 page_num)
            in case split_bytes page_num child_page_num child_max_key new_page_num s4 of
                Inl e \<Rightarrow> Some (Inl e)
              | Inr (mid_key, s5) \<Rightarrow>
                  if splitting_root then Some (split_root page_num new_page_num mid_key s5)
                  else
                    let parent_page_num = node_parent (t_pages s5 page_num);
                        new_max = get_node_max_key (t_pages s5 page_num);
                        s6 = poke parent_page_num (update_internal_node_key old_max new_max) (fetch parent_page_num s5);
                        s7 = mark parent_page_num (poke new_page_num (set_node_parent parent_page_num) s6)
                    in ins parent_page_num new_page_num s7)"

text \<open>The recursion goes up the tree; \<open>fuel\<close> bounds its depth, and \<open>None\<close> is running out of it.\<close>

fun internal_node_insert :: "nat \<Rightarrow> nat \<Rightarrow> nat \<Rightarrow> tree \<Rightarrow> (tree_exit + tree) option" where
  "internal_node_insert 0 parent_page_num child_page_num s = None"
| "internal_node_insert (Suc fuel) parent_page_num child_page_num s =
     (let s1 = fetch child_page_num (fetch parent_page_num s);
          parent = t_pages s1 parent_page_num;
          child_max_key = get_node_max_key (t_pages s1 child_page_num);
          num_keys = internal_node_num_keys parent
      in if num_keys \<ge> INTERNAL_NODE_MAX_KEYS
         then internal_node_split_and_insert (internal_node_insert fuel) parent_page_num child_page_num s1
         else
           let right_child_page_num = internal_node_right_child parent;
               s2 = fetch right_child_page_num s1;
               right_max = get_node_max_key (t_pages s2 right_child_page_num);
               s3 = poke parent_page_num
                      (if child_max_key > right_max then insert_behind_right right_max child_page_num
                       else insert_in_front child_max_key child_page_num) s2;
               s4 = poke parent_page_num (set_num_keys (num_keys + 1)) s3;
               s5 = poke child_page_num (set_node_parent parent_page_num) s4
           in Some (Inr (mark parent_page_num (mark child_page_num s5))))"

section \<open>Leaves: insertion\<close>

definition create_new_root :: "nat \<Rightarrow> tree \<Rightarrow> tree_exit + tree" where
  "create_new_root right_child_page_num s =
     (let root = t_root s; s1 = mark root (fetch right_child_page_num (fetch root s))
      in and_then (alloc s1) (\<lambda>(left_child_page_num, s2).
        let s3 = mark left_child_page_num (fetch left_child_page_num s2);
            s4 = poke left_child_page_num (\<lambda>_. set_node_parent root (set_node_root False (t_pages s3 root))) s3;
            s5 = (if get_node_type (t_pages s4 left_child_page_num) = NODE_LEAF
                  then mark right_child_page_num (poke right_child_page_num (set_prev_leaf left_child_page_num) s4) else s4);
            left_max = get_node_max_key (t_pages s5 left_child_page_num);
            s6 = poke root (\<lambda>node. set_right_child right_child_page_num (set_internal_key 0 left_max
                   (set_internal_cell 0 left_child_page_num (set_num_keys 1 (set_node_root True (initialize_internal_node node)))))) s5
        in Inr (mark right_child_page_num (poke right_child_page_num (set_node_parent root) s6))))"

definition copy_leaf_cell :: "nat \<Rightarrow> nat \<Rightarrow> bytes \<Rightarrow> bytes" where
  "copy_leaf_cell dst src node = blit (leaf_node_cell dst) (slice (leaf_node_cell src) LEAF_NODE_CELL_SIZE node) node"

text \<open>One round of the redistribution: position \<open>i\<close> of the cells with the new one among them goes to its place
  in the old or the new node.\<close>

definition place_cell :: "nat \<Rightarrow> nat \<Rightarrow> row \<Rightarrow> nat \<Rightarrow> bytes \<times> bytes \<Rightarrow> bytes \<times> bytes" where
  "place_cell cell_num key value i nodes =
     (let (old_node, new_node) = nodes;
          index_within_node = i mod LEAF_NODE_LEFT_SPLIT_COUNT;
          write = (\<lambda>destination_node.
            if i = cell_num then
              set_leaf_key index_within_node key (serialize_row value (leaf_node_value index_within_node) destination_node)
            else
              blit (leaf_node_cell index_within_node)
                (slice (leaf_node_cell (if i > cell_num then i - 1 else i)) LEAF_NODE_CELL_SIZE old_node) destination_node)
      in if i \<ge> LEAF_NODE_LEFT_SPLIT_COUNT then (old_node, write new_node) else (write old_node, new_node))"

definition redistribute :: "nat \<Rightarrow> nat \<Rightarrow> row \<Rightarrow> bytes \<times> bytes \<Rightarrow> bytes \<times> bytes" where
  "redistribute cell_num key value nodes =
     (let (old_node, new_node) = fold (place_cell cell_num key value) (rev [0..<LEAF_NODE_MAX_CELLS + 1]) nodes
      in (set_num_cells LEAF_NODE_LEFT_SPLIT_COUNT old_node, set_num_cells LEAF_NODE_RIGHT_SPLIT_COUNT new_node))"

text \<open>The split up to the shared-out cells: the old maximum, the new page and the state.\<close>

definition split_leaf :: "cursor \<Rightarrow> nat \<Rightarrow> row \<Rightarrow> tree \<Rightarrow> tree_exit + nat \<times> nat \<times> tree" where
  "split_leaf c key value s =
     (let page_num = c_page c;
          s1 = fetch page_num s;
          old_max = get_node_max_key (t_pages s1 page_num)
      in and_then (alloc (mark page_num s1)) (\<lambda>(new_page_num, s2).
           let s3 = mark new_page_num (poke new_page_num initialize_leaf_node (fetch new_page_num s2));
               old_right = leaf_node_next_leaf (t_pages s3 page_num);
               s4 = poke page_num (set_next_leaf new_page_num)
                      (poke new_page_num (\<lambda>node. set_prev_leaf page_num (set_next_leaf old_right node)) s3);
               s5 = (if old_right \<noteq> 0
                     then mark old_right (poke old_right (set_prev_leaf new_page_num) (fetch old_right s4)) else s4);
               s6 = poke new_page_num (set_node_parent (node_parent (t_pages s5 page_num))) s5;
               (old_node, new_node) = redistribute (c_cell c) key value (t_pages s6 page_num, t_pages s6 new_page_num)
           in Inr (old_max, new_page_num, poke new_page_num (\<lambda>_. new_node) (poke page_num (\<lambda>_. old_node) s6))))"

definition leaf_node_split_and_insert :: "nat \<Rightarrow> cursor \<Rightarrow> nat \<Rightarrow> row \<Rightarrow> tree \<Rightarrow> (tree_exit + tree) option" where
  "leaf_node_split_and_insert fuel c key value s =
     (case split_leaf c key value s of
        Inl e \<Rightarrow> Some (Inl e)
      | Inr (old_max, new_page_num, s1) \<Rightarrow>
          let page_num = c_page c
          in if is_node_root (t_pages s1 page_num) then Some (create_new_root new_page_num s1)
             else
               let parent_page_num = node_parent (t_pages s1 page_num);
                   s2 = fetch parent_page_num s1;
                   new_max = get_node_max_key (t_pages s2 page_num);
                   s3 = poke parent_page_num (update_internal_node_key old_max new_max) s2;
                   s4 = poke new_page_num (set_node_parent parent_page_num) s3
               in internal_node_insert fuel parent_page_num new_page_num s4)"

definition leaf_insert_bytes :: "nat \<Rightarrow> nat \<Rightarrow> row \<Rightarrow> bytes \<Rightarrow> bytes" where
  "leaf_insert_bytes cell_num key value node =
     (let num_cells = leaf_node_num_cells node;
          node1 = fold (\<lambda>i. copy_leaf_cell i (i - 1)) (rev [cell_num + 1..<num_cells + 1]) node
      in serialize_row value (leaf_node_value cell_num) (set_leaf_key cell_num key (set_num_cells (num_cells + 1) node1)))"

definition leaf_node_insert :: "nat \<Rightarrow> cursor \<Rightarrow> nat \<Rightarrow> row \<Rightarrow> tree \<Rightarrow> (tree_exit + tree) option" where
  "leaf_node_insert fuel c key value s =
     (let s1 = mark (c_page c) (fetch (c_page c) s);
          num_cells = leaf_node_num_cells (t_pages s1 (c_page c))
      in if num_cells \<ge> LEAF_NODE_MAX_CELLS then leaf_node_split_and_insert fuel c key value s1
         else Some (Inr (poke (c_page c) (leaf_insert_bytes (c_cell c) key value) s1)))"

section \<open>Deletion\<close>

definition unlink_from_leaf_chain :: "nat \<Rightarrow> tree \<Rightarrow> tree" where
  "unlink_from_leaf_chain empty_page s =
     (let s1 = fetch empty_page s;
          predecessor = leaf_node_prev_leaf (t_pages s1 empty_page);
          successor = leaf_node_next_leaf (t_pages s1 empty_page);
          s2 = (if predecessor \<noteq> 0
                then mark predecessor (poke predecessor (set_next_leaf successor) (fetch predecessor s1)) else s1)
      in if successor \<noteq> 0 then mark successor (poke successor (set_prev_leaf predecessor) (fetch successor s2)) else s2)"

text \<open>The child at a position of an internal node, for positions the loops keep in range.\<close>

definition child_at :: "bytes \<Rightarrow> nat \<Rightarrow> nat" where
  "child_at node i =
     rd32 (if i = internal_node_num_keys node then INTERNAL_NODE_RIGHT_CHILD_OFFSET else internal_node_cell i) node"

definition child_position :: "bytes \<Rightarrow> nat \<Rightarrow> nat" where
  "child_position parent child_page =
     (case find (\<lambda>i. child_at parent i = child_page) [0..<internal_node_num_keys parent + 1] of
        Some i \<Rightarrow> i | None \<Rightarrow> internal_node_num_keys parent)"

definition remove_child_bytes :: "nat \<Rightarrow> bytes \<Rightarrow> bytes" where
  "remove_child_bytes child_idx parent =
     (let num_keys = internal_node_num_keys parent;
          parent1 = (if child_idx = num_keys then set_right_child (child_at parent (num_keys - 1)) parent
                     else fold (\<lambda>i. copy_internal_cell i (i + 1)) [child_idx..<num_keys - 1] parent)
      in set_num_keys (num_keys - 1) parent1)"

definition collapse_root :: "nat \<Rightarrow> tree \<Rightarrow> tree_exit + tree" where
  "collapse_root parent_page s =
     (let sole_child_page = internal_node_right_child (t_pages s parent_page);
          s1 = fetch sole_child_page s;
          s2 = mark parent_page (poke parent_page (\<lambda>_. set_node_root True (t_pages s1 sole_child_page)) s1)
      in and_then (free_page sole_child_page s2) (\<lambda>s3.
           Inr (if get_node_type (t_pages s3 parent_page) = NODE_INTERNAL
                then fold (\<lambda>i s. let child_p = child_at (t_pages s parent_page) i
                                  in mark child_p (poke child_p (set_node_parent (t_root s)) (fetch child_p s)))
                       [0..<internal_node_num_keys (t_pages s3 parent_page) + 1] s3
                else s3)))"

definition remove_child_from_parent :: "nat \<Rightarrow> nat \<Rightarrow> tree \<Rightarrow> tree_exit + tree" where
  "remove_child_from_parent parent_page child_page s =
     (let s1 = fetch parent_page s; parent = t_pages s1 parent_page; num_keys = internal_node_num_keys parent;
          child_idx = child_position parent child_page
      in if child_idx = num_keys \<and> num_keys = 0 then Inr s1
         else
           let s2 = mark parent_page (poke parent_page (remove_child_bytes child_idx) s1)
           in if internal_node_num_keys (t_pages s2 parent_page) = 0 \<and> is_node_root (t_pages s2 parent_page)
              then collapse_root parent_page s2 else Inr s2)"

definition remove_empty_leaf :: "nat \<Rightarrow> tree \<Rightarrow> tree_exit + tree" where
  "remove_empty_leaf leaf_page s =
     (let s1 = fetch leaf_page s
      in if is_node_root (t_pages s1 leaf_page) then Inr s1
         else
           let s2 = unlink_from_leaf_chain leaf_page s1
           in and_then (remove_child_from_parent (node_parent (t_pages s2 leaf_page)) leaf_page s2) (free_page leaf_page))"

definition leaf_delete_bytes :: "nat \<Rightarrow> bytes \<Rightarrow> bytes" where
  "leaf_delete_bytes cell_num node =
     (let num_cells = leaf_node_num_cells node
      in set_num_cells (num_cells - 1) (fold (\<lambda>i. copy_leaf_cell i (i + 1)) [cell_num..<num_cells - 1] node))"

definition leaf_node_delete :: "cursor \<Rightarrow> tree \<Rightarrow> tree_exit + tree" where
  "leaf_node_delete c s =
     (let s1 = fetch (c_page c) s; num_cells = leaf_node_num_cells (t_pages s1 (c_page c));
          s2 = mark (c_page c) (poke (c_page c) (leaf_delete_bytes (c_cell c)) s1)
      in if num_cells - 1 = 0 then remove_empty_leaf (c_page c) s2 else Inr s2)"

end
