(* ===== verification/BTreeCells.thy ===== *)
theory BTreeCells
  imports BTree SlottedLeafInsert
begin

text \<open>
  Pages as arrays of equally wide cells: the interface \<open>cell_array\<close> with the copying loops of insertion and
  deletion, interpreted for the cells of leaves and of internal nodes, and what the byte operations of
  \<open>src/table.c\<close> do to the cells of a leaf.
\<close>

lemma INTERNAL_NODE_MAX_KEYS_eq: "INTERNAL_NODE_MAX_KEYS = 509"
  by (simp add: INTERNAL_NODE_MAX_KEYS_def INTERNAL_NODE_HEADER_SIZE_def INTERNAL_NODE_CELL_SIZE_def INTERNAL_NODE_CHILD_SIZE_def)

section \<open>Arrays of cells\<close>

locale cell_array =
  fixes base width cap :: nat
  assumes width: "0 < width" and fits: "base + cap * width \<le> 4096"
begin

definition cell :: "nat \<Rightarrow> bytes \<Rightarrow> bytes" where
  "cell i p = slice (base + i * width) width p"

definition copy_cell :: "nat \<Rightarrow> nat \<Rightarrow> bytes \<Rightarrow> bytes" where
  "copy_cell dst src p = blit (base + dst * width) (cell src p) p"

lemma cell_end: "i < cap \<Longrightarrow> base + i * width + width \<le> 4096"
proof -
  assume "i < cap"
  then have "Suc i * width \<le> cap * width" by (intro mult_le_mono1) simp
  then show ?thesis using fits by simp
qed

lemma cell_apart: "i \<noteq> j \<Longrightarrow> base + i * width + width \<le> base + j * width \<or> base + j * width + width \<le> base + i * width"
proof -
  have "Suc a * width \<le> b * width" if "a < b" for a b :: nat using that by (intro mult_le_mono1) simp
  then show "i \<noteq> j \<Longrightarrow> ?thesis" by (cases "i < j") (auto simp: add.commute not_less)
qed

lemma length_cell [simp]: "length p = 4096 \<Longrightarrow> i < cap \<Longrightarrow> length (cell i p) = width"
  using cell_end [of i] by (simp add: cell_def)

lemma write_cell:
  assumes "length p = 4096" "i < cap" "j < cap" "length bs = width"
  shows "cell i (blit (base + j * width) bs p) = (if i = j then bs else cell i p)" "length (blit (base + j * width) bs p) = 4096"
proof -
  have b: "base + j * width + length bs \<le> length p" using cell_end [OF assms(3)] assms(1,4) by simp
  show "length (blit (base + j * width) bs p) = 4096" using b assms(1) by simp
  show "cell i (blit (base + j * width) bs p) = (if i = j then bs else cell i p)"
  proof (cases "i = j")
    case True
    then show ?thesis using b assms(4) by (simp add: cell_def)
  next
    case False
    then show ?thesis unfolding cell_def using slice_blit_other [OF b] cell_apart [OF False] assms(4) by auto
  qed
qed

lemma write_before: "length p = 4096 \<Longrightarrow> j < cap \<Longrightarrow> length bs = width \<Longrightarrow> a + n \<le> base \<Longrightarrow>
    slice a n (blit (base + j * width) bs p) = slice a n p"
  using cell_end [of j] by (intro slice_blit_other) auto

lemma write_elsewhere:
  assumes "length p = 4096" "off + length bs \<le> base" "i < cap"
  shows "cell i (blit off bs p) = cell i p"
  unfolding cell_def by (rule slice_blit_other) (use assms fits in \<open>auto intro: order_trans\<close>)

lemma copy_cell_spec:
  assumes "length p = 4096" "i < cap" "dst < cap" "src < cap"
  shows "cell i (copy_cell dst src p) = (if i = dst then cell src p else cell i p)" "length (copy_cell dst src p) = 4096"
  using write_cell [OF assms(1,2,3)] assms by (simp_all add: copy_cell_def)

lemma shift_right:
  assumes "length p = 4096" "n < cap" "c \<le> n"
  shows "length (fold (\<lambda>i. copy_cell i (i - 1)) (rev [c + 1..<n + 1]) p) = 4096 \<and>
    (\<forall>i<cap. cell i (fold (\<lambda>i. copy_cell i (i - 1)) (rev [c + 1..<n + 1]) p) =
       (if c < i \<and> i \<le> n then cell (i - 1) p else cell i p)) \<and>
    (\<forall>a m. a + m \<le> base \<longrightarrow> slice a m (fold (\<lambda>i. copy_cell i (i - 1)) (rev [c + 1..<n + 1]) p) = slice a m p)"
  using assms
proof (induction n arbitrary: p)
  case (Suc n)
  show ?case
  proof (cases "c = Suc n")
    case True
    with Suc.prems show ?thesis by auto
  next
    case False
    then have c: "c \<le> n" using Suc.prems by simp
    have n: "n < cap" using Suc.prems by simp
    define q where "q = copy_cell (Suc n) n p"
    note W = copy_cell_spec [OF Suc.prems(1) _ Suc.prems(2) n, folded q_def]
    have q: "length q = 4096" using W(2) n by simp
    have up: "fold (\<lambda>i. copy_cell i (i - 1)) (rev [c + 1..<Suc n + 1]) p = fold (\<lambda>i. copy_cell i (i - 1)) (rev [c + 1..<n + 1]) q"
      using c by (simp add: q_def)
    note I = Suc.IH [OF q n c]
    have before: "slice a m q = slice a m p" if "a + m \<le> base" for a m
      unfolding q_def copy_cell_def using Suc.prems n that by (intro write_before) simp_all
    show ?thesis unfolding up
    proof (intro conjI allI impI)
      fix i assume i: "i < cap"
      then have "cell (i - 1) q = cell (i - 1) p" if "c < i" "i \<le> n"
      proof -
        have "i - 1 < cap" "i - 1 \<noteq> Suc n" using that i by auto
        then show ?thesis using W(1) [of "i - 1"] by simp
      qed
      moreover have "cell i q = (if i = Suc n then cell n p else cell i p)" by (rule W(1) [OF i])
      ultimately show "cell i (fold (\<lambda>i. copy_cell i (i - 1)) (rev [c + 1..<n + 1]) q) =
          (if c < i \<and> i \<le> Suc n then cell (i - 1) p else cell i p)"
        using I i c by (cases "i = Suc n") (simp_all only: if_True if_False simp_thms diff_Suc_1, auto)
    qed (use I before in simp_all)
  qed
qed auto

lemma shift_left:
  assumes "length p = 4096" "n \<le> cap" "c < n"
  shows "length (fold (\<lambda>i. copy_cell i (i + 1)) [c..<n - 1] p) = 4096 \<and>
    (\<forall>i<cap. cell i (fold (\<lambda>i. copy_cell i (i + 1)) [c..<n - 1] p) =
       (if c \<le> i \<and> i < n - 1 then cell (i + 1) p else cell i p)) \<and>
    (\<forall>a m. a + m \<le> base \<longrightarrow> slice a m (fold (\<lambda>i. copy_cell i (i + 1)) [c..<n - 1] p) = slice a m p)"
  using assms
proof (induction "n - 1 - c" arbitrary: c p)
  case 0
  then have "[c..<n - 1] = []" by simp
  with 0 show ?case by auto
next
  case (Suc d)
  then have c: "c < n - 1" by simp
  have lt: "c < cap" "c + 1 < cap" using c Suc.prems by simp_all
  define q where "q = copy_cell c (c + 1) p"
  note W = copy_cell_spec [OF Suc.prems(1) _ lt, folded q_def]
  have q: "length q = 4096" by (rule W(2) [OF lt(1)])
  have up: "fold (\<lambda>i. copy_cell i (i + 1)) [c..<n - 1] p = fold (\<lambda>i. copy_cell i (i + 1)) [c + 1..<n - 1] q"
    using c by (simp add: upt_conv_Cons q_def)
  have d: "d = n - 1 - (c + 1)" "c + 1 < n" using Suc.hyps(2) c by simp_all
  note I = Suc.hyps(1) [OF d(1) q Suc.prems(2) d(2)]
  have before: "slice a m q = slice a m p" if "a + m \<le> base" for a m
    unfolding q_def copy_cell_def using Suc.prems lt that by (intro write_before) simp_all
  show ?case unfolding up
  proof (intro conjI allI impI)
    fix i assume i: "i < cap"
    have "cell (i + 1) q = cell (i + 1) p" if "c + 1 \<le> i" "i < n - 1" using W(1) [of "i + 1"] that Suc.prems(2) by simp
    moreover have "cell i q = (if i = c then cell (c + 1) p else cell i p)" by (rule W(1) [OF i])
    ultimately show "cell i (fold (\<lambda>i. copy_cell i (i + 1)) [c + 1..<n - 1] q) =
        (if c \<le> i \<and> i < n - 1 then cell (i + 1) p else cell i p)"
      using I i c by (cases "i = c") auto
  qed (use I before in simp_all)
qed

end

interpretation lcells: cell_array 18 297 13
  by unfold_locales simp_all

interpretation icells: cell_array 14 8 510
  by unfold_locales simp_all

section \<open>Cells of a leaf\<close>

lemma leaf_layout [simp]:
  "ROW_SIZE = 293" "LEAF_NODE_CELL_SIZE = 297" "LEAF_NODE_MAX_CELLS = 13" "LEAF_NODE_LEFT_SPLIT_COUNT = 7"
  "LEAF_NODE_RIGHT_SPLIT_COUNT = 7" "LEAF_NODE_NUM_CELLS_OFFSET = 6" "LEAF_NODE_NEXT_LEAF_OFFSET = 10"
  "LEAF_NODE_PREV_LEAF_OFFSET = 14" "leaf_node_cell i = 18 + i * 297" "leaf_node_value i = 22 + i * 297"
  by (simp_all add: ROW_SIZE_def ID_SIZE_def USERNAME_SIZE_def EMAIL_SIZE_def LEAF_NODE_CELL_SIZE_def LEAF_NODE_KEY_SIZE_def
      LEAF_NODE_MAX_CELLS_def LEAF_NODE_SPACE_FOR_CELLS_def LEAF_NODE_HEADER_SIZE_def LEAF_NODE_LEFT_SPLIT_COUNT_def
      LEAF_NODE_RIGHT_SPLIT_COUNT_def LEAF_NODE_NUM_CELLS_OFFSET_def LEAF_NODE_NEXT_LEAF_OFFSET_def
      LEAF_NODE_PREV_LEAF_OFFSET_def leaf_node_cell_def leaf_node_value_def)

definition row_bytes :: "row \<Rightarrow> bytes" where
  "row_bytes r = put_u32 (id_of r) @ username r @ email r"

definition cell_bytes :: "nat \<Rightarrow> row \<Rightarrow> bytes" where
  "cell_bytes key r = put_u32 key @ row_bytes r"

definition cell_key :: "bytes \<Rightarrow> nat" where
  "cell_key cell = get_u32 (slice 0 4 cell)"

definition leaf_cells :: "bytes \<Rightarrow> bytes list" where
  "leaf_cells node = map (\<lambda>i. lcells.cell i node) [0..<leaf_node_num_cells node]"

lemma row_okD [simp]: "row_ok r \<Longrightarrow> length (username r) = 33" "row_ok r \<Longrightarrow> length (email r) = 256"
  by (simp_all add: row_ok_def USERNAME_SIZE_def EMAIL_SIZE_def)

lemma length_row_bytes [simp]: "row_ok r \<Longrightarrow> length (row_bytes r) = 293"
  by (simp add: row_bytes_def)

lemma length_cell_bytes [simp]: "row_ok r \<Longrightarrow> length (cell_bytes k r) = 297"
  by (simp add: cell_bytes_def)

lemma cell_key_bytes: "k < 2 ^ 32 \<Longrightarrow> cell_key (cell_bytes k r) = k"
  by (simp add: cell_key_def cell_bytes_def slice_def n32.dec_enc)

lemma leaf_key_cell: "leaf_node_key node i = cell_key (lcells.cell i node)"
  by (simp add: leaf_node_key_def rd32_def cell_key_def lcells.cell_def slice_slice)

lemma serialize_row_blit:
  assumes "row_ok r" "d + 293 \<le> length p"
  shows "serialize_row r d p = blit d (row_bytes r) p"
proof -
  have "blit (d + 4) (username r) (blit d (put_u32 (id_of r)) p) = blit d (put_u32 (id_of r) @ username r) p" (is "?a = ?b")
    using blit_blit_adjacent [of d "put_u32 (id_of r)" "username r" p] assms by simp
  moreover have "blit (d + 37) (email r) ?b = blit d (row_bytes r) p"
    using blit_blit_adjacent [of d "put_u32 (id_of r) @ username r" "email r" p] assms by (simp add: row_bytes_def)
  ultimately show ?thesis
    by (simp add: serialize_row_def EMAIL_OFFSET_def USERNAME_OFFSET_def ID_OFFSET_def ID_SIZE_def USERNAME_SIZE_def)
qed

text \<open>Writing key and row is writing a cell.\<close>

lemma write_key_then_row:
  assumes "row_ok r" "length p = 4096" "i < 13"
  shows "serialize_row r (leaf_node_value i) (set_leaf_key i k p) = blit (18 + i * 297) (cell_bytes k r) p"
proof -
  have e: "18 + i * 297 + 297 \<le> 4096" using lcells.cell_end [OF assms(3)] by simp
  then have "serialize_row r (22 + i * 297) (set_leaf_key i k p) = blit (22 + i * 297) (row_bytes r) (blit (18 + i * 297) (put_u32 k) p)"
    using assms by (subst serialize_row_blit) (simp_all add: set_leaf_key_def wr32_def)
  also have "\<dots> = blit (18 + i * 297) (cell_bytes k r) p"
    using blit_blit_adjacent [of "18 + i * 297" "put_u32 k" "row_bytes r" p] e assms
    by (simp add: cell_bytes_def add.commute add.left_commute)
  finally show ?thesis by simp
qed

lemma write_row_then_key:
  assumes "row_ok r" "length p = 4096" "i < 13"
  shows "set_leaf_key i k (serialize_row r (leaf_node_value i) p) = blit (18 + i * 297) (cell_bytes k r) p"
proof -
  have e: "18 + i * 297 + 297 \<le> 4096" using lcells.cell_end [OF assms(3)] by simp
  then have "serialize_row r (22 + i * 297) p = blit (22 + i * 297) (row_bytes r) p"
    using assms by (subst serialize_row_blit) simp_all
  moreover have "blit o1 (put_u32 k) (blit o2 bs p) = blit o1 (put_u32 k @ bs) p"
    if "o2 = o1 + 4" "o1 + 4 + length bs \<le> length p" for o1 o2 bs
    using that by (simp add: blit_def min_def drop_append add.commute add.left_commute)
  from this [of "22 + i * 297" "18 + i * 297" "row_bytes r"]
  have "blit (18 + i * 297) (put_u32 k) (blit (22 + i * 297) (row_bytes r) p) = blit (18 + i * 297) (put_u32 k @ row_bytes r) p"
    using e assms by simp
  ultimately show ?thesis
    by (simp add: set_leaf_key_def wr32_def cell_bytes_def)
qed

text \<open>Header fields and cells do not meet.\<close>

lemma wr32_fields:
  assumes "length p = 4096" "off + 4 \<le> 18"
  shows "length (wr32 off v p) = 4096" "i < 13 \<Longrightarrow> lcells.cell i (wr32 off v p) = lcells.cell i p"
    and "v < 2 ^ 32 \<Longrightarrow> rd32 off (wr32 off v p) = v"
    and "off' + 4 \<le> off \<or> off + 4 \<le> off' \<Longrightarrow> rd32 off' (wr32 off v p) = rd32 off' p"
    and "a + n \<le> off \<or> off + 4 \<le> a \<Longrightarrow> slice a n (wr32 off v p) = slice a n p"
    and "j < off \<Longrightarrow> wr32 off v p ! j = p ! j"
proof -
  have b: "off + length (put_u32 v) \<le> length p" using assms by simp
  show "length (wr32 off v p) = 4096" using b assms by (simp add: wr32_def)
  show "i < 13 \<Longrightarrow> lcells.cell i (wr32 off v p) = lcells.cell i p"
    unfolding wr32_def by (rule lcells.write_elsewhere) (use assms in simp_all)
  show "v < 2 ^ 32 \<Longrightarrow> rd32 off (wr32 off v p) = v" using b by (simp add: rd32_def wr32_def n32.dec_enc)
  show s: "a + n \<le> off \<or> off + 4 \<le> a \<Longrightarrow> slice a n (wr32 off v p) = slice a n p" for a n
    unfolding wr32_def by (rule slice_blit_other [OF b]) simp
  show "off' + 4 \<le> off \<or> off + 4 \<le> off' \<Longrightarrow> rd32 off' (wr32 off v p) = rd32 off' p"
    unfolding rd32_def using s [of off' 4] by simp
  show "j < off \<Longrightarrow> wr32 off v p ! j = p ! j" using b by (simp add: wr32_def)
qed

text \<open>The header of a leaf but for the cell count.\<close>

definition leaf_header :: "bytes \<Rightarrow> bytes \<times> bytes" where
  "leaf_header node = (slice 0 6 node, slice 10 8 node)"

lemma leaf_cells_eqI:
  assumes "leaf_node_num_cells node = length cs" "\<And>i. i < length cs \<Longrightarrow> lcells.cell i node = cs ! i"
  shows "leaf_cells node = cs"
  using assms by (intro nth_equalityI) (simp_all add: leaf_cells_def)

lemma length_leaf_cells [simp]: "length (leaf_cells node) = leaf_node_num_cells node"
  by (simp add: leaf_cells_def)

lemma nth_leaf_cells [simp]: "i < leaf_node_num_cells node \<Longrightarrow> leaf_cells node ! i = lcells.cell i node"
  by (simp add: leaf_cells_def)

lemma leaf_insert_spec:
  assumes len: "length node = 4096" and n: "leaf_node_num_cells node < 13" "c \<le> leaf_node_num_cells node" and r: "row_ok r"
    and q: "q = leaf_insert_bytes c k r node"
  shows "length q = 4096" "leaf_cells q = put_at c (cell_bytes k r) (leaf_cells node)" "leaf_header q = leaf_header node"
proof -
  let ?n = "leaf_node_num_cells node"
  define p1 where "p1 = fold (\<lambda>i. copy_leaf_cell i (i - 1)) (rev [c + 1..<?n + 1]) node"
  define p2 where "p2 = set_num_cells (?n + 1) p1"
  have cp: "copy_leaf_cell = lcells.copy_cell"
    by (simp add: fun_eq_iff copy_leaf_cell_def lcells.copy_cell_def lcells.cell_def)
  note S = lcells.shift_right [OF len n, folded cp, folded p1_def]
  have l1: "length p1 = 4096" using S by blast
  have c13: "c < 13" using n by simp
  have p2w: "p2 = wr32 6 (?n + 1) p1" by (simp add: p2_def set_num_cells_def)
  have six: "(6::nat) + 4 \<le> 18" by simp
  note F = wr32_fields [OF l1 six, where v = "?n + 1", folded p2w]
  have qe: "q = blit (18 + c * 297) (cell_bytes k r) p2"
    unfolding q leaf_insert_bytes_def Let_def p1_def [symmetric] p2_def [symmetric]
    by (rule write_key_then_row [OF r F(1) c13])
  have lc: "length (cell_bytes k r) = 297" using r by simp
  note W = lcells.write_cell [OF F(1) _ c13 lc, folded qe]
  have hd: "slice a m q = slice a m p2" if "a + m \<le> 18" for a m
    unfolding qe by (rule lcells.write_before [OF F(1) c13 lc that])
  show "length q = 4096" using W(2) c13 by blast
  have num: "leaf_node_num_cells q = ?n + 1"
    using hd [of 6 4] F(3) n by (simp add: leaf_node_num_cells_def rd32_def)
  show "leaf_cells q = put_at c (cell_bytes k r) (leaf_cells node)"
  proof (rule leaf_cells_eqI)
    fix i assume "i < length (put_at c (cell_bytes k r) (leaf_cells node))"
    then have i: "i \<le> ?n" "i < 13" using n by simp_all
    have "lcells.cell i q = (if i = c then cell_bytes k r else lcells.cell i p1)"
      using W(1) [OF i(2)] F(2) [OF i(2)] by simp
    moreover have "lcells.cell i p1 = (if c < i \<and> i \<le> ?n then lcells.cell (i - 1) node else lcells.cell i node)"
      using S i(2) by blast
    ultimately show "lcells.cell i q = put_at c (cell_bytes k r) (leaf_cells node) ! i"
      using i n by (auto simp: nth_put_at)
  qed (simp add: num)
  have "slice 0 6 q = slice 0 6 node" "slice 10 8 q = slice 10 8 node"
    using hd [of 0 6] hd [of 10 8] F(5) [of 0 6] F(5) [of 10 8] S by simp_all
  then show "leaf_header q = leaf_header node" by (simp add: leaf_header_def)
qed

lemma leaf_delete_spec:
  assumes len: "length node = 4096" and n: "leaf_node_num_cells node \<le> 13" "c < leaf_node_num_cells node"
    and q: "q = leaf_delete_bytes c node"
  shows "length q = 4096" "leaf_cells q = take c (leaf_cells node) @ drop (Suc c) (leaf_cells node)"
    "leaf_header q = leaf_header node"
proof -
  let ?n = "leaf_node_num_cells node"
  define p1 where "p1 = fold (\<lambda>i. copy_leaf_cell i (i + 1)) [c..<?n - 1] node"
  have cp: "copy_leaf_cell = lcells.copy_cell"
    by (simp add: fun_eq_iff copy_leaf_cell_def lcells.copy_cell_def lcells.cell_def)
  note S = lcells.shift_left [OF len n, folded cp, folded p1_def]
  have l1: "length p1 = 4096" using S by blast
  have qe: "q = wr32 6 (?n - 1) p1" by (simp add: q leaf_delete_bytes_def Let_def p1_def set_num_cells_def)
  have six: "(6::nat) + 4 \<le> 18" by simp
  note F = wr32_fields [OF l1 six, where v = "?n - 1", folded qe]
  show "length q = 4096" by (rule F(1))
  have num: "leaf_node_num_cells q = ?n - 1" using F(3) n by (simp add: leaf_node_num_cells_def)
  show "leaf_cells q = take c (leaf_cells node) @ drop (Suc c) (leaf_cells node)"
  proof (rule leaf_cells_eqI)
    show "leaf_node_num_cells q = length (take c (leaf_cells node) @ drop (Suc c) (leaf_cells node))"
      using num n by simp
    fix i assume "i < length (take c (leaf_cells node) @ drop (Suc c) (leaf_cells node))"
    then have i: "i < ?n - 1" "i < 13" using n by simp_all
    have "lcells.cell i q = lcells.cell i p1" by (rule F(2) [OF i(2)])
    also have "\<dots> = (if c \<le> i \<and> i < ?n - 1 then lcells.cell (i + 1) node else lcells.cell i node)"
      using S i(2) by blast
    finally show "lcells.cell i q = (take c (leaf_cells node) @ drop (Suc c) (leaf_cells node)) ! i"
      using i n by (auto simp: nth_append min_def)
  qed
  have "slice 0 6 q = slice 0 6 node" "slice 10 8 q = slice 10 8 node"
    using F(5) [of 0 6] F(5) [of 10 8] S by simp_all
  then show "leaf_header q = leaf_header node" by (simp add: leaf_header_def)
qed

end
