(* ===== verification/BTreeSearch.thy ===== *)
theory BTreeSearch
  imports BTreeCells
begin

text \<open>
  Search in the B+ tree: which trees are well formed, and that \<open>table_find\<close> ends at the leaf and the
  place where a key is or belongs. A tree is described by its shape, the pages of its leaves and nodes;
  the separators route a set of keys to every child, and a leaf holds only keys routed to it. A
  separator may be greater than every key left of it, as it is after a deletion.
\<close>

section \<open>Shapes\<close>

datatype shape = Leaf_At nat | Node_At nat "shape list"

primrec page_of :: "shape \<Rightarrow> nat" where
  "page_of (Leaf_At n) = n"
| "page_of (Node_At n cs) = n"

fun leaf_pages :: "shape \<Rightarrow> nat list" where
  "leaf_pages (Leaf_At n) = [n]"
| "leaf_pages (Node_At n cs) = concat (map leaf_pages cs)"

fun node_pages :: "shape \<Rightarrow> nat list" where
  "node_pages (Leaf_At n) = []"
| "node_pages (Node_At n cs) = n # concat (map node_pages cs)"

abbreviation leaf_keys :: "bytes \<Rightarrow> nat list" where
  "leaf_keys q \<equiv> map cell_key (leaf_cells q)"

definition leaf_ok :: "bytes \<Rightarrow> bool" where
  "leaf_ok q \<longleftrightarrow> length q = 4096 \<and> get_node_type q = NODE_LEAF \<and> leaf_node_num_cells q \<le> LEAF_NODE_MAX_CELLS \<and>
     sorted_wrt (<) (leaf_keys q)"

definition node_ok :: "bytes \<Rightarrow> bool" where
  "node_ok q \<longleftrightarrow> length q = 4096 \<and> get_node_type q = NODE_INTERNAL \<and> internal_node_num_keys q \<le> INTERNAL_NODE_MAX_KEYS \<and>
     (\<forall>i j. i \<le> j \<longrightarrow> j < internal_node_num_keys q \<longrightarrow> internal_node_key q i \<le> internal_node_key q j)"

text \<open>The keys an internal node sends to its child \<open>i\<close>.\<close>

definition route :: "bytes \<Rightarrow> nat \<Rightarrow> nat set" where
  "route q i = {k. (\<forall>j<i. internal_node_key q j < k) \<and>
     (\<forall>j. i \<le> j \<and> j < internal_node_num_keys q \<longrightarrow> k \<le> internal_node_key q j)}"

inductive well_formed :: "(nat \<Rightarrow> bytes) \<Rightarrow> nat set \<Rightarrow> shape \<Rightarrow> bool" for P where
  leaf: "leaf_ok (P n) \<Longrightarrow> set (leaf_keys (P n)) \<subseteq> K \<Longrightarrow> well_formed P K (Leaf_At n)"
| node: "node_ok (P n) \<Longrightarrow> length cs = internal_node_num_keys (P n) + 1 \<Longrightarrow>
    (\<And>i. i < length cs \<Longrightarrow> child_at (P n) i = page_of (cs ! i)) \<Longrightarrow>
    (\<And>i. i < length cs \<Longrightarrow> well_formed P (K \<inter> route (P n) i) (cs ! i)) \<Longrightarrow> well_formed P K (Node_At n cs)"

inductive_cases well_formed_leafE [elim]: "well_formed P K (Leaf_At n)"
inductive_cases well_formed_nodeE [elim]: "well_formed P K (Node_At n cs)"

inductive leads_to :: "(nat \<Rightarrow> bytes) \<Rightarrow> nat \<Rightarrow> shape \<Rightarrow> nat \<Rightarrow> bool" for P k where
  here: "leads_to P k (Leaf_At n) n"
| below: "i < length cs \<Longrightarrow> k \<in> route (P n) i \<Longrightarrow> leads_to P k (cs ! i) m \<Longrightarrow> leads_to P k (Node_At n cs) m"

inductive_cases leads_to_leafE: "leads_to P k (Leaf_At n) m"
inductive_cases leads_to_nodeE: "leads_to P k (Node_At n cs) m"

lemma leads_to_leaf: "leads_to P k sh m \<Longrightarrow> m \<in> set (leaf_pages sh)"
  by (induction rule: leads_to.induct) auto

section \<open>Binary searches\<close>

lemma leaf_find_loop_spec:
  assumes "sorted_wrt (<) (leaf_keys q)" "lo \<le> hi" "hi \<le> leaf_node_num_cells q"
    "\<forall>i<lo. leaf_node_key q i < k" "\<forall>i. hi \<le> i \<and> i < leaf_node_num_cells q \<longrightarrow> k \<le> leaf_node_key q i"
  shows "leaf_find_loop q k lo hi \<le> leaf_node_num_cells q \<and>
    (\<forall>i<leaf_find_loop q k lo hi. leaf_node_key q i < k) \<and>
    (\<forall>i. leaf_find_loop q k lo hi \<le> i \<and> i < leaf_node_num_cells q \<longrightarrow> k \<le> leaf_node_key q i)"
  using assms
proof (induction q k lo hi rule: leaf_find_loop.induct)
  case (1 q k lo hi)
  let ?m = "(lo + hi) div 2"
  have mono: "leaf_node_key q i < leaf_node_key q j" if "i < j" "j < leaf_node_num_cells q" for i j
    using sorted_wrt_nth_less [OF 1(3), of i j] that by (simp add: leaf_key_cell)
  show ?case
  proof (cases "lo < hi")
    case True
    then have m: "lo \<le> ?m" "?m < hi" "?m < leaf_node_num_cells q" using "1.prems" by auto
    have below: "leaf_node_key q i < leaf_node_key q ?m" if "i < ?m" for i using mono that m by simp
    have above: "leaf_node_key q ?m < leaf_node_key q i" if "?m < i" "i < leaf_node_num_cells q" for i using mono that by simp
    consider "k = leaf_node_key q ?m" | "k < leaf_node_key q ?m" | "leaf_node_key q ?m < k" by linarith
    then show ?thesis
    proof cases
      case a: 1
      then have "leaf_find_loop q k lo hi = ?m" using True by (subst leaf_find_loop.simps) simp
      then show ?thesis using a m below above by (auto simp: le_less)
    next
      case b: 2
      then have e: "leaf_find_loop q k lo hi = leaf_find_loop q k lo ?m" using True by (subst leaf_find_loop.simps) simp
      have "k \<le> leaf_node_key q i" if "?m \<le> i" "i < leaf_node_num_cells q" for i
      proof (cases "i = ?m")
        case False
        then have "leaf_node_key q ?m < leaf_node_key q i" using above that by simp
        then show ?thesis using b by simp
      qed (use b in simp)
      then have hi: "\<forall>i. ?m \<le> i \<and> i < leaf_node_num_cells q \<longrightarrow> k \<le> leaf_node_key q i" by blast
      have "\<not> k = leaf_node_key q ?m" using b by simp
      from "1.IH"(1) [OF True refl refl this b "1.prems"(1) m(1) less_imp_le [OF m(3)] "1.prems"(4) hi]
      show ?thesis unfolding e .
    next
      case c: 3
      then have e: "leaf_find_loop q k lo hi = leaf_find_loop q k (?m + 1) hi" using True by (subst leaf_find_loop.simps) simp
      have "leaf_node_key q i < k" if "i < ?m + 1" for i
      proof (cases "i = ?m")
        case False
        then have "leaf_node_key q i < leaf_node_key q ?m" using below that by simp
        then show ?thesis using c by simp
      qed (use c in simp)
      then have lo: "\<forall>i<?m + 1. leaf_node_key q i < k" by blast
      have n: "\<not> k = leaf_node_key q ?m" "\<not> k < leaf_node_key q ?m" "?m + 1 \<le> hi" using c m by simp_all
      from "1.IH"(2) [OF True refl refl n(1,2) "1.prems"(1) n(3) "1.prems"(3) lo "1.prems"(5)]
      show ?thesis unfolding e .
    qed
  next
    case False
    then have "leaf_find_loop q k lo hi = lo" by (subst leaf_find_loop.simps) simp
    with False "1.prems" show ?thesis by simp
  qed
qed

text \<open>The place of a key in a leaf: where it is, or where it belongs.\<close>

definition place_in_leaf :: "bytes \<Rightarrow> nat \<Rightarrow> nat \<Rightarrow> bool" where
  "place_in_leaf q k c \<longleftrightarrow> c \<le> leaf_node_num_cells q \<and> (\<forall>x \<in> set (take c (leaf_keys q)). x < k) \<and>
     (\<forall>x \<in> set (drop c (leaf_keys q)). k \<le> x)"

lemma place_in_leafI:
  assumes "c \<le> leaf_node_num_cells q" "\<forall>i<c. leaf_node_key q i < k"
    "\<forall>i. c \<le> i \<and> i < leaf_node_num_cells q \<longrightarrow> k \<le> leaf_node_key q i"
  shows "place_in_leaf q k c"
  using assms by (auto simp: place_in_leaf_def in_set_conv_nth leaf_key_cell)

lemma leaf_find_place: "leaf_ok q \<Longrightarrow> place_in_leaf q k (leaf_find_loop q k 0 (leaf_node_num_cells q))"
  using leaf_find_loop_spec [of q 0 "leaf_node_num_cells q" k] by (intro place_in_leafI) (auto simp: leaf_ok_def)

lemma key_at_place:
  assumes "leaf_ok q" "place_in_leaf q k c"
  shows "k \<in> set (leaf_keys q) \<longleftrightarrow> c < leaf_node_num_cells q \<and> leaf_node_key q c = k"
proof
  assume k: "k \<in> set (leaf_keys q)"
  have e: "leaf_keys q = take c (leaf_keys q) @ drop c (leaf_keys q)" by simp
  have d: "k \<in> set (drop c (leaf_keys q))" using k assms(2) unfolding place_in_leaf_def
    by (metis append_take_drop_id Un_iff less_irrefl set_append)
  then have c: "c < leaf_node_num_cells q" by (cases "c < leaf_node_num_cells q") auto
  then have dc: "drop c (leaf_keys q) = leaf_keys q ! c # drop (Suc c) (leaf_keys q)" by (intro Cons_nth_drop_Suc [symmetric]) simp
  have "sorted_wrt (<) (drop c (leaf_keys q))" using assms(1) by (simp add: leaf_ok_def sorted_wrt_drop)
  then have "leaf_keys q ! c = k" using d assms(2) dc unfolding place_in_leaf_def by (force simp del: nth_map)
  then show "c < leaf_node_num_cells q \<and> leaf_node_key q c = k" using c by (simp add: leaf_key_cell)
next
  assume c: "c < leaf_node_num_cells q \<and> leaf_node_key q c = k"
  then have "leaf_keys q ! c = k" by (simp add: leaf_key_cell)
  then show "k \<in> set (leaf_keys q)" using c nth_mem [of c "leaf_keys q"] by simp
qed

lemma find_child_loop_spec:
  assumes "node_ok q" "lo \<le> hi" "hi \<le> internal_node_num_keys q"
    "\<forall>i<lo. internal_node_key q i < k" "\<forall>i. hi \<le> i \<and> i < internal_node_num_keys q \<longrightarrow> k \<le> internal_node_key q i"
  shows "find_child_loop q k lo hi \<le> internal_node_num_keys q \<and> k \<in> route q (find_child_loop q k lo hi)"
  using assms
proof (induction q k lo hi rule: find_child_loop.induct)
  case (1 q k lo hi)
  let ?m = "(lo + hi) div 2"
  have mono: "internal_node_key q i \<le> internal_node_key q j" if "i \<le> j" "j < internal_node_num_keys q" for i j
    using 1(3) that unfolding node_ok_def by blast
  show ?case
  proof (cases "lo < hi")
    case True
    then have m: "lo \<le> ?m" "?m < hi" "?m < internal_node_num_keys q" using "1.prems" by auto
    show ?thesis
    proof (cases "k \<le> internal_node_key q ?m")
      case a: True
      then have e: "find_child_loop q k lo hi = find_child_loop q k lo ?m" using True by (subst find_child_loop.simps) simp
      have "k \<le> internal_node_key q i" if "?m \<le> i" "i < internal_node_num_keys q" for i using a mono [OF that] by simp
      then show ?thesis unfolding e
        by (intro "1.IH"(1) [OF True refl refl]) (use a m "1.prems" in auto)
    next
      case b: False
      then have e: "find_child_loop q k lo hi = find_child_loop q k (?m + 1) hi" using True by (subst find_child_loop.simps) simp
      have "internal_node_key q i < k" if "i < ?m + 1" for i
        using b mono [of i ?m] that m by simp
      then show ?thesis unfolding e
        by (intro "1.IH"(2) [OF True refl refl]) (use b m "1.prems" in auto)
    qed
  next
    case False
    then have "find_child_loop q k lo hi = lo" by (subst find_child_loop.simps) simp
    with False "1.prems" show ?thesis by (auto simp: route_def)
  qed
qed

lemma find_child_routes:
  assumes "node_ok q"
  shows "find_child_loop q k 0 (internal_node_num_keys q) \<le> internal_node_num_keys q"
    "k \<in> route q (find_child_loop q k 0 (internal_node_num_keys q))"
  using find_child_loop_spec [OF assms, of 0 "internal_node_num_keys q" k] by auto

lemma route_unique: "k \<in> route q i \<Longrightarrow> k \<in> route q j \<Longrightarrow> i \<le> internal_node_num_keys q \<Longrightarrow> j \<le> internal_node_num_keys q \<Longrightarrow> i = j"
proof -
  have apart: "\<not> i < j" if "k \<in> route q i" "k \<in> route q j" "j \<le> internal_node_num_keys q" for i j
  proof
    assume "i < j"
    then have "k \<le> internal_node_key q i" "internal_node_key q i < k" using that by (auto simp: route_def)
    then show False by simp
  qed
  from apart [of i j] apart [of j i] show "k \<in> route q i \<Longrightarrow> k \<in> route q j \<Longrightarrow> i \<le> internal_node_num_keys q \<Longrightarrow> j \<le> internal_node_num_keys q \<Longrightarrow> i = j"
    by linarith
qed

lemma leads_to_exists:
  assumes "well_formed P K sh" "k \<in> K"
  shows "\<exists>m. leads_to P k sh m"
  using assms
proof (induction rule: well_formed.induct)
  case (node n cs K)
  let ?i = "find_child_loop (P n) k 0 (internal_node_num_keys (P n))"
  have i: "?i < length cs" "k \<in> route (P n) ?i" using find_child_routes [OF node(1), of k] node(2) by auto
  obtain m where "leads_to P k (cs ! ?i) m" using node(5) [OF i(1)] i(2) node.prems by blast
  then have "leads_to P k (Node_At n cs) m" by (rule leads_to.below [where i = ?i, rotated 2]) (use i in simp_all)
  then show ?case by blast
qed (auto intro: leads_to.here)

lemma leads_to_unique:
  assumes "well_formed P K sh" "leads_to P k sh m" "leads_to P k sh m'"
  shows "m = m'"
  using assms
proof (induction arbitrary: m m' rule: well_formed.induct)
  case (leaf n K)
  then show ?case by (auto elim!: leads_to_leafE)
next
  case (node n cs K)
  from node.prems(1) obtain i where i: "i < length cs" "k \<in> route (P n) i" "leads_to P k (cs ! i) m" by (rule leads_to_nodeE)
  from node.prems(2) obtain j where j: "j < length cs" "k \<in> route (P n) j" "leads_to P k (cs ! j) m'" by (rule leads_to_nodeE)
  note ij = i j
  have "i = j" by (rule route_unique [OF ij(2,5)]) (use ij node(2) in simp_all)
  with node(5) [OF ij(1) ij(3)] ij(6) show ?case by simp
qed

lemma leaf_pages_child:
  assumes "m \<in> set (leaf_pages (Node_At n cs))"
  obtains i where "i < length cs" "m \<in> set (leaf_pages (cs ! i))"
proof -
  from assms obtain c where "c \<in> set cs" "m \<in> set (leaf_pages c)" by auto
  then show thesis using that by (metis in_set_conv_nth)
qed

text \<open>A key in the tree is in the leaf it leads to.\<close>

lemma key_in_its_leaf:
  assumes "well_formed P K sh" "m \<in> set (leaf_pages sh)" "k \<in> set (leaf_keys (P m))"
  shows "leads_to P k sh m \<and> k \<in> K"
  using assms
proof (induction rule: well_formed.induct)
  case (node n cs K)
  from node.prems(1) obtain i where i: "i < length cs" "m \<in> set (leaf_pages (cs ! i))" by (rule leaf_pages_child)
  from node(5) [OF i node.prems(2)] have to: "leads_to P k (cs ! i) m" "k \<in> K" "k \<in> route (P n) i" by auto
  then show ?case using leads_to.below [OF i(1) to(3) to(1)] by blast
qed (auto intro: leads_to.here)

section \<open>Descent\<close>

lemma fetch_pages [simp]: "t_pages (fetch n s) = t_pages s" "t_root (fetch n s) = t_root s"
  "t_dirty (fetch n s) = t_dirty s" "t_free_pages (fetch n s) = t_free_pages s" "t_backing (fetch n s) = t_backing s"
  by (simp_all add: fetch_def)

lemma find_child_child_at:
  assumes "node_ok q"
  shows "\<exists>off. internal_node_find_child q k = Inr off \<and> rd32 off q = child_at q (find_child_loop q k 0 (internal_node_num_keys q))"
  using find_child_routes(1) [OF assms, of k]
  by (simp add: internal_node_find_child_def internal_node_child_def child_at_def Let_def)

text \<open>A descent from a well-formed subtree gives a cursor at the leaf the key leads to; it changes nothing
  but the number of pages the pager has handed out.\<close>

definition found :: "(nat \<Rightarrow> bytes) \<Rightarrow> nat \<Rightarrow> shape \<Rightarrow> tree \<Rightarrow> cursor \<Rightarrow> tree \<Rightarrow> bool" where
  "found P k sh s c s' \<longleftrightarrow> t_pages s' = P \<and> t_root s' = t_root s \<and> t_dirty s' = t_dirty s \<and>
     t_free_pages s' = t_free_pages s \<and> t_backing s' = t_backing s \<and>
     leads_to P k sh (c_page c) \<and> c_cell c = leaf_find_loop (P (c_page c)) k 0 (leaf_node_num_cells (P (c_page c))) \<and> \<not> c_end c"

lemma internal_node_find_spec:
  assumes "well_formed P K sh" "k \<in> K" "sh = Node_At n cs" "t_pages s = P"
  shows "\<exists>c s'. internal_node_find n k s = Some (Inr (Some c, s')) \<and> found P k sh s c s'"
  using assms
proof (induction arbitrary: n cs s rule: well_formed.induct)
  case (node m ds K)
  have nm: "m = n" "ds = cs" using node.prems(2) by simp_all
  let ?i = "find_child_loop (P n) k 0 (internal_node_num_keys (P n))"
  have ok: "node_ok (P n)" using node(1) nm by simp
  have i: "?i < length cs" "k \<in> route (P n) ?i" using find_child_routes [OF ok, of k] node(2) nm by auto
  obtain off where off: "internal_node_find_child (P n) k = Inr off" "rd32 off (P n) = page_of (cs ! ?i)"
    using find_child_child_at [OF ok, of k] node(3) [of ?i] i nm by auto
  have wf: "well_formed P (K \<inter> route (P n) ?i) (cs ! ?i)" using node(4) [of ?i] i nm by simp
  have kin: "k \<in> K \<inter> route (P n) ?i" using node.prems(1) i by simp
  define s2 where "s2 = fetch (page_of (cs ! ?i)) (fetch n s)"
  have s2: "t_pages s2 = P" "t_root s2 = t_root s" "t_dirty s2 = t_dirty s" "t_free_pages s2 = t_free_pages s" "t_backing s2 = t_backing s"
    using node.prems(3) by (simp_all add: s2_def)
  show ?case
  proof (cases "cs ! ?i")
    case (Leaf_At l)
    then have ty: "get_node_type (P l) = NODE_LEAF" using wf by (auto simp: leaf_ok_def)
    let ?c = "\<lparr>c_page = l, c_cell = leaf_find_loop (P l) k 0 (leaf_node_num_cells (P l)), c_end = False\<rparr>"
    have "internal_node_find n k s = Some (Inr (Some ?c, fetch l s2))"
      using off Leaf_At s2 ty node.prems(3)
      by (subst internal_node_find.simps) (simp add: Let_def leaf_node_find_def s2_def)
    moreover have "found P k (Node_At m ds) s ?c (fetch l s2)"
      using i Leaf_At s2 nm by (auto simp: found_def intro!: leads_to.below [of ?i] leads_to.here)
    ultimately show ?thesis by blast
  next
    case (Node_At l es)
    then have ty: "get_node_type (P l) = NODE_INTERNAL" using wf by (auto simp: node_ok_def)
    have "internal_node_find n k s = internal_node_find l k s2"
      using off Node_At s2 ty node.prems(3)
      by (subst internal_node_find.simps) (simp add: Let_def s2_def NODE_LEAF_def NODE_INTERNAL_def)
    moreover obtain c s' where "internal_node_find l k s2 = Some (Inr (Some c, s'))" "found P k (cs ! ?i) s2 c s'"
      using node(5) [of ?i, OF _ _ _ s2(1)] i kin Node_At nm by auto
    ultimately show ?thesis using i s2 nm by (auto simp: found_def intro: leads_to.below)
  qed
qed simp

lemma table_find_spec:
  assumes wf: "well_formed (t_pages s) UNIV sh" and root: "t_root s = page_of sh"
  shows "\<exists>c s'. table_find k s = Some (Inr (Some c, s')) \<and> found (t_pages s) k sh s c s'"
proof (cases sh)
  case (Leaf_At n)
  then have ty: "get_node_type (t_pages s n) = NODE_LEAF" using wf by (auto simp: leaf_ok_def)
  then show ?thesis using root Leaf_At
    by (auto simp: table_find_def Let_def leaf_node_find_def found_def intro: leads_to.here)
next
  case (Node_At n cs)
  then have ty: "get_node_type (t_pages s n) \<noteq> NODE_LEAF"
    using wf by (auto simp: node_ok_def NODE_LEAF_def NODE_INTERNAL_def)
  obtain c s' where "internal_node_find n k (fetch n s) = Some (Inr (Some c, s'))" "found (t_pages s) k sh (fetch n s) c s'"
    using internal_node_find_spec [OF wf UNIV_I Node_At, of "fetch n s" k] by auto
  then show ?thesis using ty root Node_At by (auto simp: table_find_def Let_def found_def)
qed

section \<open>Contents\<close>

text \<open>What a table holds: the rows, as the bytes of their cells behind the key, of all its leaves.\<close>

definition leaf_rows :: "bytes \<Rightarrow> (nat \<times> bytes) set" where
  "leaf_rows q = (\<lambda>c. (cell_key c, drop 4 c)) ` set (leaf_cells q)"

definition rows :: "(nat \<Rightarrow> bytes) \<Rightarrow> shape \<Rightarrow> (nat \<times> bytes) set" where
  "rows P sh = (\<Union>n \<in> set (leaf_pages sh). leaf_rows (P n))"

lemma leaf_rows_keys: "fst ` leaf_rows q = set (leaf_keys q)"
  by (auto simp: leaf_rows_def image_iff)

lemma row_in_leaf:
  assumes wf: "well_formed P K sh" and to: "leads_to P k sh m"
  shows "(k, b) \<in> rows P sh \<longleftrightarrow> (k, b) \<in> leaf_rows (P m)"
proof
  assume "(k, b) \<in> rows P sh"
  then obtain n where n: "n \<in> set (leaf_pages sh)" "(k, b) \<in> leaf_rows (P n)" by (auto simp: rows_def)
  then have "k \<in> set (leaf_keys (P n))" using leaf_rows_keys [of "P n"] by force
  then have "leads_to P k sh n" using key_in_its_leaf [OF wf n(1)] by blast
  then show "(k, b) \<in> leaf_rows (P m)" using leads_to_unique [OF wf to] n(2) by blast
qed (use leads_to_leaf [OF to] in \<open>auto simp: rows_def\<close>)

lemma well_formed_leaf_ok: "well_formed P K sh \<Longrightarrow> m \<in> set (leaf_pages sh) \<Longrightarrow> leaf_ok (P m)"
proof (induction rule: well_formed.induct)
  case (node n cs K)
  from node.prems obtain i where "i < length cs" "m \<in> set (leaf_pages (cs ! i))" by (rule leaf_pages_child)
  then show ?case by (rule node(5))
qed auto

lemma leaf_row_at:
  assumes ok: "leaf_ok q" and at: "place_in_leaf q k c"
  shows "(k, b) \<in> leaf_rows q \<longleftrightarrow> c < leaf_node_num_cells q \<and> leaf_node_key q c = k \<and> b = drop 4 (leaf_cells q ! c)"
proof
  assume b: "(k, b) \<in> leaf_rows q"
  then obtain i where i: "i < leaf_node_num_cells q" "cell_key (leaf_cells q ! i) = k" "b = drop 4 (leaf_cells q ! i)"
    by (auto simp: leaf_rows_def in_set_conv_nth)
  then have "k \<in> set (leaf_keys q)" using nth_mem [of i "leaf_keys q"] by simp
  then have c: "c < leaf_node_num_cells q" "leaf_node_key q c = k" using key_at_place [OF ok at] by auto
  moreover have "i = c"
  proof (rule ccontr)
    assume "i \<noteq> c"
    then show False using sorted_wrt_nth_less [of "(<)" "leaf_keys q" i c] sorted_wrt_nth_less [of "(<)" "leaf_keys q" c i] ok i c
      by (cases "i < c") (auto simp: leaf_ok_def leaf_key_cell)
  qed
  ultimately show "c < leaf_node_num_cells q \<and> leaf_node_key q c = k \<and> b = drop 4 (leaf_cells q ! c)" using i by simp
next
  assume "c < leaf_node_num_cells q \<and> leaf_node_key q c = k \<and> b = drop 4 (leaf_cells q ! c)"
  then show "(k, b) \<in> leaf_rows q" using nth_mem [of c "leaf_cells q"] by (force simp: leaf_rows_def leaf_key_cell image_iff)
qed

end
