(* ===== verification/LeafPages.thy ===== *)
theory LeafPages
  imports SlottedLeafMap BTreeSearch
begin

text \<open>
  Leaf pages of both formats, after \<open>src/leaf_format.c\<close> and \<open>src/leaf_page_access.c\<close>: telling a fixed V1 page from
  a slotted V2 page, and the accessors that read either. A pointer to a page and its capacity are one list of
  bytes; a pointer to a value and its length are the bytes of the value.
\<close>

section \<open>The format of V1 leaves\<close>

definition LEAF_FORMAT_FIXED_V1 :: nat where "LEAF_FORMAT_FIXED_V1 = 1"

record leaf_format_descriptor =
  f_format_version :: nat
  f_variable_length_values :: bool
  f_page_size :: nat
  f_usable_size :: nat
  f_header_size :: nat
  f_key_size :: nat
  f_value_capacity :: nat
  f_cell_size :: nat
  f_max_cells :: nat

datatype leaf_page_format = PAGE_FORMAT_UNKNOWN | PAGE_FORMAT_FIXED_V1 | PAGE_FORMAT_SLOTTED_V2

definition leaf_format_current :: leaf_format_descriptor where
  "leaf_format_current =
     \<lparr>f_format_version = LEAF_FORMAT_FIXED_V1, f_variable_length_values = False, f_page_size = PAGE_SIZE,
      f_usable_size = PAGE_USABLE_SIZE, f_header_size = LEAF_NODE_HEADER_SIZE, f_key_size = LEAF_NODE_KEY_SIZE,
      f_value_capacity = ROW_SIZE, f_cell_size = LEAF_NODE_CELL_SIZE, f_max_cells = LEAF_NODE_MAX_CELLS\<rparr>"

definition leaf_format_validate_current :: bool where
  "leaf_format_validate_current \<longleftrightarrow>
     (let format = leaf_format_current
      in if f_format_version format \<noteq> LEAF_FORMAT_FIXED_V1 \<or> f_variable_length_values format \<or> f_page_size format \<noteq> PAGE_SIZE \<or>
           f_usable_size format \<noteq> PAGE_USABLE_SIZE \<or> f_header_size format \<noteq> LEAF_NODE_HEADER_SIZE \<or>
           f_key_size format \<noteq> LEAF_NODE_KEY_SIZE \<or> f_value_capacity format \<noteq> ROW_SIZE \<or>
           f_cell_size format \<noteq> LEAF_NODE_CELL_SIZE \<or> f_max_cells format \<noteq> LEAF_NODE_MAX_CELLS then False
         else if f_usable_size format < f_header_size format \<or> f_cell_size format \<noteq> f_key_size format + f_value_capacity format \<or>
           f_cell_size format = 0 then False
         else f_max_cells format = (f_usable_size format - f_header_size format) div f_cell_size format)"

definition leaf_format_can_store_value :: "nat \<Rightarrow> bool" where
  "leaf_format_can_store_value len \<longleftrightarrow> leaf_format_validate_current \<and> len > 0 \<and> len \<le> f_value_capacity leaf_format_current"

section \<open>Telling the formats apart\<close>

text \<open>No count a V1 leaf can have is spelled like the magic number of V2, which lies at the same offset.\<close>

definition v2_marker_disjoint_from_v1 :: bool where
  "v2_marker_disjoint_from_v1 \<longleftrightarrow>
     V2_MAGIC_OFFSET = LEAF_NODE_NUM_CELLS_OFFSET \<and>
     list_all (\<lambda>count. put_u32 count \<noteq> write_u32_le SLOTTED_LEAF_V2_MAGIC) [0..<LEAF_NODE_MAX_CELLS + 1]"

definition detect_page :: "bytes \<Rightarrow> leaf_page_format" where
  "detect_page page =
     (if length page < PAGE_SIZE \<or> \<not> v2_marker_disjoint_from_v1 then PAGE_FORMAT_UNKNOWN
      else if page ! NODE_TYPE_OFFSET \<noteq> NODE_LEAF then PAGE_FORMAT_UNKNOWN
      else if read_u32_le (slice V2_MAGIC_OFFSET 4 page) = SLOTTED_LEAF_V2_MAGIC then
        (if slotted_validate page then PAGE_FORMAT_SLOTTED_V2 else PAGE_FORMAT_UNKNOWN)
      else let legacy_count = rd32 LEAF_NODE_NUM_CELLS_OFFSET page
           in if \<not> leaf_format_validate_current \<or> legacy_count > LEAF_NODE_MAX_CELLS \<or>
                LEAF_NODE_HEADER_SIZE + legacy_count * LEAF_NODE_CELL_SIZE > PAGE_USABLE_SIZE then PAGE_FORMAT_UNKNOWN
              else PAGE_FORMAT_FIXED_V1)"

section \<open>Reading a page of either format\<close>

definition v1_count :: "bytes \<Rightarrow> nat option" where
  "v1_count page =
     (let n = rd32 LEAF_NODE_NUM_CELLS_OFFSET page in if n > LEAF_NODE_MAX_CELLS then None else Some n)"

definition v2_slot_at :: "bytes \<Rightarrow> nat \<Rightarrow> v2_slot option" where
  "v2_slot_at page cell_index =
     (if \<not> slotted_validate page then None
      else if cell_index \<ge> slotted_count page \<or> cell_index > 2 ^ 16 - 1 then None
      else Some (read_slot page cell_index))"

definition page_count :: "bytes \<Rightarrow> nat option" where
  "page_count page =
     (case detect_page page of
        PAGE_FORMAT_FIXED_V1 \<Rightarrow> v1_count page
      | PAGE_FORMAT_SLOTTED_V2 \<Rightarrow> Some (slotted_count page)
      | PAGE_FORMAT_UNKNOWN \<Rightarrow> None)"

definition page_key_at :: "bytes \<Rightarrow> nat \<Rightarrow> nat option" where
  "page_key_at page cell_index =
     (case detect_page page of
        PAGE_FORMAT_FIXED_V1 \<Rightarrow>
          (case v1_count page of None \<Rightarrow> None
           | Some count \<Rightarrow> if cell_index \<ge> count then None else Some (rd32 (leaf_node_cell cell_index) page))
      | PAGE_FORMAT_SLOTTED_V2 \<Rightarrow> map_option s_key (v2_slot_at page cell_index)
      | PAGE_FORMAT_UNKNOWN \<Rightarrow> None)"

definition page_value_at :: "bytes \<Rightarrow> nat \<Rightarrow> bytes option" where
  "page_value_at page cell_index =
     (case detect_page page of
        PAGE_FORMAT_FIXED_V1 \<Rightarrow>
          (case v1_count page of None \<Rightarrow> None
           | Some count \<Rightarrow> if cell_index \<ge> count then None else Some (slice (leaf_node_value cell_index) ROW_SIZE page))
      | PAGE_FORMAT_SLOTTED_V2 \<Rightarrow>
          map_option (\<lambda>slot. slice (s_value_offset slot) (s_value_length slot) page) (v2_slot_at page cell_index)
      | PAGE_FORMAT_UNKNOWN \<Rightarrow> None)"

text \<open>The search fails where a key cannot be read.\<close>

function page_lower_bound_loop :: "bytes \<Rightarrow> nat \<Rightarrow> nat \<Rightarrow> nat \<Rightarrow> nat option" where
  "page_lower_bound_loop page key low high =
     (if low < high then
        let middle = low + (high - low) div 2
        in case page_key_at page middle of None \<Rightarrow> None
           | Some middle_key \<Rightarrow>
               if middle_key < key then page_lower_bound_loop page key (middle + 1) high
               else page_lower_bound_loop page key low middle
      else Some low)"
  by pat_completeness auto
termination
  by (relation "measure (\<lambda>(page, key, low, high). high - low)") auto

declare page_lower_bound_loop.simps [simp del]

definition page_lower_bound :: "bytes \<Rightarrow> nat \<Rightarrow> (nat \<times> bool) option" where
  "page_lower_bound page key =
     (case page_count page of None \<Rightarrow> None
      | Some count \<Rightarrow>
          (case page_lower_bound_loop page key 0 count of None \<Rightarrow> None
           | Some low \<Rightarrow>
               if low < count then
                 (case page_key_at page low of None \<Rightarrow> None | Some found_key \<Rightarrow> Some (low, found_key = key))
               else Some (low, False)))"

definition sibling_page :: "bytes \<Rightarrow> bool \<Rightarrow> nat option" where
  "sibling_page page forward =
     (case detect_page page of
        PAGE_FORMAT_FIXED_V1 \<Rightarrow> Some (rd32 (if forward then LEAF_NODE_NEXT_LEAF_OFFSET else LEAF_NODE_PREV_LEAF_OFFSET) page)
      | PAGE_FORMAT_SLOTTED_V2 \<Rightarrow> Some (rd32 (if forward then V2_NEXT_LEAF_OFFSET else V2_PREV_LEAF_OFFSET) page)
      | PAGE_FORMAT_UNKNOWN \<Rightarrow> None)"

definition page_next :: "bytes \<Rightarrow> nat option" where "page_next page = sibling_page page True"
definition page_prev :: "bytes \<Rightarrow> nat option" where "page_prev page = sibling_page page False"

definition page_is_fixed_v1 :: "bytes \<Rightarrow> bool" where
  "page_is_fixed_v1 page \<longleftrightarrow> detect_page page = PAGE_FORMAT_FIXED_V1"

section \<open>The rows of a page of either format\<close>

text \<open>What the accessors read, as one list of keys and values.\<close>

definition page_rows :: "bytes \<Rightarrow> (nat \<times> bytes) list" where
  "page_rows page =
     (if detect_page page = PAGE_FORMAT_SLOTTED_V2 then entries page
      else map (\<lambda>c. (cell_key c, drop 4 c)) (leaf_cells page))"

lemma current_format_valid [simp]: "leaf_format_validate_current"
  by (simp add: leaf_format_validate_current_def leaf_format_current_def LEAF_NODE_KEY_SIZE_def LEAF_NODE_HEADER_SIZE_def
      COMMON_NODE_HEADER_SIZE_def)

lemma can_store_value [simp]: "leaf_format_can_store_value n \<longleftrightarrow> 0 < n \<and> n \<le> 293"
  by (auto simp: leaf_format_can_store_value_def leaf_format_current_def)

lemma marker_disjoint [simp]: "v2_marker_disjoint_from_v1"
  by code_simp

lemma leaf_header_offsets: "LEAF_NODE_HEADER_SIZE = 18" "V2_MAGIC_OFFSET = 6" "V2_NEXT_LEAF_OFFSET = 18" "V2_PREV_LEAF_OFFSET = 22"
  "NODE_TYPE_OFFSET = 0"
  by (simp_all add: v2_layout LEAF_NODE_HEADER_SIZE_def)

lemma v1_magic: "rd32 6 page \<le> 13 \<Longrightarrow> read_u32_le (slice 6 4 page) \<noteq> SLOTTED_LEAF_V2_MAGIC"
  by (auto simp: rd32_def get_u32_def SLOTTED_LEAF_V2_MAGIC_def)

lemma detect_v2: "detect_page page = PAGE_FORMAT_SLOTTED_V2 \<longleftrightarrow> slotted_validate page"
proof
  assume "slotted_validate page"
  moreover from validD(3) [OF this] have "PAGE_SIZE \<le> length page" "page ! 0 = NODE_LEAF"
    "read_u32_le (slice 6 4 page) = SLOTTED_LEAF_V2_MAGIC" by (simp_all add: header_ok_def valid_page_def)
  ultimately show "detect_page page = PAGE_FORMAT_SLOTTED_V2" by (simp add: detect_page_def leaf_header_offsets)
qed (simp add: detect_page_def Let_def split: if_splits)

lemma detect_v1: "detect_page page = PAGE_FORMAT_FIXED_V1 \<longleftrightarrow>
    4096 \<le> length page \<and> get_node_type page = NODE_LEAF \<and> leaf_node_num_cells page \<le> 13"
  using v1_magic [of page]
  by (auto simp: detect_page_def Let_def leaf_header_offsets get_node_type_def leaf_node_num_cells_def PAGE_SIZE_def)

lemma leaf_ok_v1: "leaf_ok page \<Longrightarrow> detect_page page = PAGE_FORMAT_FIXED_V1"
  by (simp add: detect_v1 leaf_ok_def)

text \<open>What detection finds.\<close>

lemma page_rows_v1:
  assumes "detect_page page = PAGE_FORMAT_FIXED_V1"
  shows "page_rows page = map (\<lambda>i. (leaf_node_key page i, slice (leaf_node_value i) 293 page)) [0..<leaf_node_num_cells page]"
    "page_count page = Some (leaf_node_num_cells page)"
proof -
  have "drop 4 (lcells.cell i page) = slice (22 + i * 297) 293 page" for i
    by (simp add: lcells.cell_def slice_def drop_take add.commute)
  then show "page_rows page = map (\<lambda>i. (leaf_node_key page i, slice (leaf_node_value i) 293 page)) [0..<leaf_node_num_cells page]"
    using assms by (simp add: page_rows_def leaf_cells_def leaf_key_cell)
  show "page_count page = Some (leaf_node_num_cells page)"
    using assms detect_v1 [of page] by (simp add: page_count_def v1_count_def leaf_node_num_cells_def Let_def)
qed

lemma page_rows_v2:
  assumes "slotted_validate page"
  shows "page_rows page = entries page" "page_count page = Some (raw_count page)"
  using assms detect_v2 [of page] by (simp_all add: page_rows_def page_count_def slotted_count_def)

lemma detect_cases:
  assumes "detect_page page \<noteq> PAGE_FORMAT_UNKNOWN"
  obtains "detect_page page = PAGE_FORMAT_FIXED_V1" | "slotted_validate page"
  using assms detect_v2 by (cases "detect_page page") auto

lemma raw_count_small: "slotted_validate page \<Longrightarrow> raw_count page \<le> 65535"
  using get_u16_less [of "slice V2_NUM_SLOTS_OFFSET 2 page"] by (simp add: raw_count_def)

lemma page_access:
  assumes "detect_page page \<noteq> PAGE_FORMAT_UNKNOWN"
  shows "page_count page = Some (length (page_rows page))"
    and "page_key_at page i = (if i < length (page_rows page) then Some (fst (page_rows page ! i)) else None)"
    and "page_value_at page i = (if i < length (page_rows page) then Some (snd (page_rows page ! i)) else None)"
proof -
  have "page_count page = Some (length (page_rows page)) \<and>
    page_key_at page i = (if i < length (page_rows page) then Some (fst (page_rows page ! i)) else None) \<and>
    page_value_at page i = (if i < length (page_rows page) then Some (snd (page_rows page ! i)) else None)"
    using assms
  proof (cases rule: detect_cases)
    case 1
    note R = page_rows_v1 [OF 1]
    have "v1_count page = Some (leaf_node_num_cells page)" using R(2) 1 by (simp add: page_count_def)
    then show ?thesis using 1 R
      by (simp add: page_key_at_def page_value_at_def leaf_node_key_def)
  next
    case 2
    note R = page_rows_v2 [OF 2]
    have "v2_slot_at page i = (if i < raw_count page then Some (read_slot page i) else None)"
      using 2 raw_count_small [OF 2] by (simp add: v2_slot_at_def slotted_count_def)
    moreover have "detect_page page = PAGE_FORMAT_SLOTTED_V2" using 2 by (simp add: detect_v2)
    ultimately show ?thesis using R by (simp add: page_key_at_def page_value_at_def nth_entries)
  qed
  then show "page_count page = Some (length (page_rows page))"
    "page_key_at page i = (if i < length (page_rows page) then Some (fst (page_rows page ! i)) else None)"
    "page_value_at page i = (if i < length (page_rows page) then Some (snd (page_rows page ! i)) else None)" by simp_all
qed

lemma page_unknown:
  assumes "detect_page page = PAGE_FORMAT_UNKNOWN"
  shows "page_count page = None" "page_key_at page i = None" "page_value_at page i = None" "page_lower_bound page k = None"
    "page_next page = None" "page_prev page = None"
  using assms by (simp_all add: page_count_def page_key_at_def page_value_at_def page_lower_bound_def page_next_def page_prev_def sibling_page_def)

section \<open>The search\<close>

lemma page_lower_bound_loop_spec:
  assumes "\<And>i. i < n \<Longrightarrow> page_key_at page i = Some (ks ! i)" "length ks = n" "low \<le> high" "high \<le> n"
  shows "\<exists>r. page_lower_bound_loop page key low high = Some r \<and> low \<le> r \<and> r \<le> high \<and>
    (sorted_wrt (<) ks \<longrightarrow> (\<forall>i<low. ks ! i < key) \<longrightarrow> (\<forall>i. high \<le> i \<and> i < n \<longrightarrow> key \<le> ks ! i) \<longrightarrow>
      (\<forall>i<r. ks ! i < key) \<and> (\<forall>i. r \<le> i \<and> i < n \<longrightarrow> key \<le> ks ! i))"
  using assms(3,4)
proof (induction "high - low" arbitrary: low high rule: less_induct)
  case less
  show ?case
  proof (cases "low < high")
    case False
    then show ?thesis using less.prems by (simp add: page_lower_bound_loop.simps)
  next
    case True
    define middle where "middle = low + (high - low) div 2"
    have m: "low \<le> middle" "middle < high" using True by (auto simp: middle_def)
    have k: "page_key_at page middle = Some (ks ! middle)" using assms(1) m less.prems by simp
    show ?thesis
    proof (cases "ks ! middle < key")
      case lt: True
      have e: "page_lower_bound_loop page key low high = page_lower_bound_loop page key (middle + 1) high"
        using True k lt by (subst page_lower_bound_loop.simps) (simp add: middle_def Let_def)
      have "sorted_wrt (<) ks \<Longrightarrow> ks ! i < key" if "i < middle + 1" for i
        using that lt m less.prems(2) assms(2) by (cases "i = middle") (auto dest: sorted_wrt_nth_less [of "(<)" ks i middle])
      then show ?thesis unfolding e using less.hyps [of high "middle + 1"] m less.prems by fastforce
    next
      case ge: False
      have e: "page_lower_bound_loop page key low high = page_lower_bound_loop page key low middle"
        using True k ge by (subst page_lower_bound_loop.simps) (simp add: middle_def Let_def)
      have "sorted_wrt (<) ks \<Longrightarrow> key \<le> ks ! i" if "middle \<le> i" "i < n" for i
        using that ge assms(2) by (cases "i = middle") (auto dest: sorted_wrt_nth_less [of "(<)" ks middle i])
      then show ?thesis unfolding e using less.hyps [of middle low] m less.prems by fastforce
    qed
  qed
qed

text \<open>In an ascending list the elements below a bound are a prefix, and its length is their number.\<close>

lemma count_below:
  fixes ks :: "nat list"
  assumes "r \<le> length ks" "\<forall>i<r. ks ! i < key" "\<forall>i. r \<le> i \<and> i < length ks \<longrightarrow> key \<le> ks ! i"
  shows "length (filter (\<lambda>k. k < key) ks) = r"
proof -
  have "filter (\<lambda>k. k < key) (take r ks) = take r ks" using assms(1,2) by (auto simp: filter_id_conv in_set_conv_nth)
  moreover have "\<forall>x \<in> set (drop r ks). key \<le> x"
  proof
    fix x assume "x \<in> set (drop r ks)"
    then obtain i where "i < length ks - r" "x = ks ! (r + i)" by (auto simp: in_set_conv_nth)
    then show "key \<le> x" using assms(3) by simp
  qed
  then have "filter (\<lambda>k. k < key) (drop r ks) = []" by (auto simp: filter_empty_conv not_less)
  ultimately have "filter (\<lambda>k. k < key) ks = take r ks"
    using filter_append [of "\<lambda>k. k < key" "take r ks" "drop r ks"] by simp
  then show ?thesis using assms(1) by simp
qed

lemma page_lower_bound_spec:
  assumes "detect_page page \<noteq> PAGE_FORMAT_UNKNOWN"
  shows "\<exists>r exact. page_lower_bound page key = Some (r, exact) \<and> r \<le> length (page_rows page)"
    and "sorted_wrt (<) (map fst (page_rows page)) \<Longrightarrow> page_lower_bound page key =
      Some (length (filter (\<lambda>k. k < key) (map fst (page_rows page))), key \<in> fst ` set (page_rows page))"
proof -
  let ?ks = "map fst (page_rows page)"
  note A = page_access [OF assms]
  have "\<And>i. i < length (page_rows page) \<Longrightarrow> page_key_at page i = Some (?ks ! i)" using A(2) by simp
  from page_lower_bound_loop_spec [OF this, where low = 0 and high = "length (page_rows page)" and key = key]
  have "\<exists>r. page_lower_bound_loop page key 0 (length (page_rows page)) = Some r \<and> r \<le> length (page_rows page) \<and>
    (sorted_wrt (<) ?ks \<longrightarrow> (\<forall>i<r. ?ks ! i < key) \<and> (\<forall>i. r \<le> i \<and> i < length (page_rows page) \<longrightarrow> key \<le> ?ks ! i))" by simp
  then obtain r where
    r: "page_lower_bound_loop page key 0 (length (page_rows page)) = Some r" "r \<le> length (page_rows page)"
    "sorted_wrt (<) ?ks \<Longrightarrow> (\<forall>i<r. ?ks ! i < key) \<and> (\<forall>i. r \<le> i \<and> i < length (page_rows page) \<longrightarrow> key \<le> ?ks ! i)"
    by blast
  have e: "page_lower_bound page key = Some (r, r < length (page_rows page) \<and> ?ks ! r = key)"
    using r(1) A by (simp add: page_lower_bound_def)
  then show "\<exists>r exact. page_lower_bound page key = Some (r, exact) \<and> r \<le> length (page_rows page)" using r(2) by simp
  assume s: "sorted_wrt (<) ?ks"
  have "length (filter (\<lambda>k. k < key) ?ks) = r" by (rule count_below) (use r(2) r(3) [OF s] in simp_all)
  moreover have "(r < length (page_rows page) \<and> ?ks ! r = key) \<longleftrightarrow> key \<in> set ?ks"
  proof
    assume "key \<in> set ?ks"
    then obtain i where i: "i < length ?ks" "?ks ! i = key" unfolding in_set_conv_nth by blast
    have "r \<le> i" using r(3) [OF s] i by (metis linorder_not_le nat_less_le)
    moreover have "\<not> r < i" using r(3) [OF s] i r(2) sorted_wrt_nth_less [OF s, of r i] by (metis leD le_eq_less_or_eq length_map)
    ultimately show "r < length (page_rows page) \<and> ?ks ! r = key" using i by simp
  qed (metis length_map nth_mem)
  ultimately show "page_lower_bound page key = Some (length (filter (\<lambda>k. k < key) ?ks), key \<in> fst ` set (page_rows page))"
    using e by simp
qed

end
