(* ===== verification/BTreeUpdate.thy ===== *)
theory BTreeUpdate
  imports BTreeSearch
begin

text \<open>
  Insertion into a leaf with room and deletion that leaves a row behind, against the set of rows of the
  tree; and the split of a full internal node, which ends the process.
\<close>

section \<open>Changing one leaf\<close>

lemma well_formed_cong:
  assumes "well_formed P K sh" "\<And>n. n \<in> set (leaf_pages sh) \<union> set (node_pages sh) \<Longrightarrow> P' n = P n"
  shows "well_formed P' K sh"
  using assms
proof (induction rule: well_formed.induct)
  case (leaf n K)
  then show ?case by (auto intro!: well_formed.leaf)
next
  case (node n cs K)
  have n: "P' n = P n" using node.prems by simp
  have sub: "P' m = P m" if "i < length cs" "m \<in> set (leaf_pages (cs ! i)) \<union> set (node_pages (cs ! i))" for i m
  proof -
    have "cs ! i \<in> set cs" using that(1) by simp
    then show ?thesis using that(2) node.prems [of m] by auto
  qed
  show ?case
  proof (rule well_formed.node)
    show "node_ok (P' n)" "length cs = internal_node_num_keys (P' n) + 1" using node(1,2) n by simp_all
    show "child_at (P' n) i = page_of (cs ! i)" if "i < length cs" for i using node(3) [OF that] n by simp
    show "well_formed P' (K \<inter> route (P' n) i) (cs ! i)" if "i < length cs" for i
      using node(5) [OF that] sub [OF that] n by simp
  qed
qed

text \<open>The pages of the children of a node do not meet.\<close>

lemma distinct_concat_nth:
  assumes "distinct (concat xss)" "i < length xss" "j < length xss" "x \<in> set (xss ! i)" "x \<in> set (xss ! j)"
  shows "i = j"
  using assms
proof (induction xss arbitrary: i j)
  case (Cons xs xss)
  have d: "distinct (concat xss)" "set xs \<inter> set (concat xss) = {}" using Cons.prems(1) by auto
  have out: "x \<notin> set xs" if "x \<in> set (xss ! l)" "l < length xss" for l
  proof -
    have "x \<in> set (concat xss)" using that nth_mem [OF that(2)] by auto
    then show ?thesis using d(2) by blast
  qed
  show ?case
  proof (cases i)
    case 0
    then have "x \<in> set xs" using Cons.prems by simp
    then have "j = 0" using out [of "j - 1"] Cons.prems by (cases j) auto
    then show ?thesis using 0 by simp
  next
    case (Suc i')
    then have "x \<notin> set xs" using out [of i'] Cons.prems by simp
    then obtain j' where "j = Suc j'" using Cons.prems by (cases j) auto
    then show ?thesis using Cons.IH [OF d(1), of i' j'] Suc Cons.prems by simp
  qed
qed simp

lemma well_formed_update:
  assumes "well_formed P K sh" "k \<in> K" "leads_to P k sh m" "distinct (leaf_pages sh)" "m \<notin> set (node_pages sh)"
    "leaf_ok q" "set (leaf_keys q) \<subseteq> insert k (set (leaf_keys (P m)))"
  shows "well_formed (P(m := q)) K sh"
  using assms
proof (induction rule: well_formed.induct)
  case (leaf n K)
  from leaf.prems(2) have "m = n" by (auto elim!: leads_to_leafE)
  moreover from this have "set (leaf_keys q) \<subseteq> K" using leaf(2) leaf.prems(1,6) by blast
  ultimately show ?case using leaf.prems(5) by (intro well_formed.leaf) simp_all
next
  case (node n cs K)
  from node.prems(2) obtain i where i: "i < length cs" "k \<in> route (P n) i" "leads_to P k (cs ! i) m" by (rule leads_to_nodeE)
  have n: "(P(m := q)) n = P n" using node.prems(4) by auto
  show ?case
  proof (rule well_formed.node)
    show "node_ok ((P(m := q)) n)" "length cs = internal_node_num_keys ((P(m := q)) n) + 1" using node(1,2) n by simp_all
    show "child_at ((P(m := q)) n) j = page_of (cs ! j)" if "j < length cs" for j using node(3) [OF that] n by simp
    show "well_formed (P(m := q)) (K \<inter> route ((P(m := q)) n) j) (cs ! j)" if j: "j < length cs" for j
    proof (cases "j = i")
      case True
      have "distinct (leaf_pages (cs ! i))" using node.prems(3) nth_mem [OF i(1)] by (simp add: distinct_concat_iff)
      moreover have "m \<notin> set (node_pages (cs ! i))" using node.prems(4) nth_mem [OF i(1)] by auto
      moreover have "k \<in> K \<inter> route (P n) i" using i(2) node.prems(1) by simp
      ultimately have "well_formed (P(m := q)) (K \<inter> route (P n) i) (cs ! i)"
        using node(5) [OF i(1)] i(3) node.prems(5,6) by blast
      then show ?thesis unfolding True n .
    next
      case False
      have "m \<in> set (leaf_pages (cs ! i))" by (rule leads_to_leaf [OF i(3)])
      then have "m \<notin> set (leaf_pages (cs ! j))"
        using distinct_concat_nth [of "map leaf_pages cs" i j m] node.prems(3) i j False by auto
      moreover have "m \<notin> set (node_pages (cs ! j))" using node.prems(4) nth_mem [OF j] by auto
      ultimately have "(P(m := q)) l = P l" if "l \<in> set (leaf_pages (cs ! j)) \<union> set (node_pages (cs ! j))" for l
        using that by auto
      from well_formed_cong [OF node(4) [OF j] this] show ?thesis unfolding n .
    qed
  qed
qed

lemma leads_to_cong:
  assumes "leads_to P k sh m" "\<And>n. n \<in> set (node_pages sh) \<Longrightarrow> P' n = P n"
  shows "leads_to P' k sh m"
  using assms
proof (induction rule: leads_to.induct)
  case (below i cs n m)
  have "leads_to P' k (cs ! i) m" using below.IH below.prems nth_mem [OF below.hyps(1)] by auto
  then show ?case using below.hyps below.prems [of n] by (intro leads_to.below [of i]) simp_all
qed (auto intro: leads_to.here)

lemma rows_update:
  assumes "m \<in> set (leaf_pages sh)" "\<And>n. n \<in> set (leaf_pages sh) \<Longrightarrow> n \<noteq> m \<Longrightarrow> leaf_rows (P n) \<inter> X = {}"
    "leaf_rows q = leaf_rows (P m) \<union> A - X"
  shows "rows (P(m := q)) sh = rows P sh \<union> A - X"
  using assms by (auto simp: rows_def split: if_splits) blast+

section \<open>Trees\<close>

definition tree_ok :: "tree \<Rightarrow> shape \<Rightarrow> bool" where
  "tree_ok s sh \<longleftrightarrow> well_formed (t_pages s) UNIV sh \<and> distinct (leaf_pages sh @ node_pages sh) \<and> t_root s = page_of sh"

definition table_rows :: "tree \<Rightarrow> shape \<Rightarrow> (nat \<times> bytes) set" where
  "table_rows s sh = rows (t_pages s) sh"

lemma leaf_ok_header:
  assumes "leaf_header q = leaf_header p" "length p = 4096" "length q = 4096"
  shows "get_node_type q = get_node_type p" "is_node_root q = is_node_root p"
    "node_parent q = node_parent p" "leaf_node_next_leaf q = leaf_node_next_leaf p" "leaf_node_prev_leaf q = leaf_node_prev_leaf p"
proof -
  have h: "slice 0 6 q = slice 0 6 p" "slice 10 8 q = slice 10 8 p" using assms(1) by (simp_all add: leaf_header_def)
  have "slice 0 6 q ! i = slice 0 6 p ! i" for i using h by simp
  from this [of 0] this [of 1] show "get_node_type q = get_node_type p" "is_node_root q = is_node_root p"
    using assms(2,3) by (simp_all add: get_node_type_def is_node_root_def node_layout)
  have "slice a n (slice 0 6 q) = slice a n (slice 0 6 p)" "slice a n (slice 10 8 q) = slice a n (slice 10 8 p)" for a n
    using h by simp_all
  from this(1) [of 2 4] this(2) [of 0 4] this(2) [of 4 4]
  show "node_parent q = node_parent p" "leaf_node_next_leaf q = leaf_node_next_leaf p" "leaf_node_prev_leaf q = leaf_node_prev_leaf p"
    by (simp_all add: slice_slice node_parent_def rd32_def leaf_node_next_leaf_def leaf_node_prev_leaf_def node_layout)
qed

lemma place_in_leafD:
  assumes "place_in_leaf q k c"
  shows "i < c \<Longrightarrow> leaf_node_key q i < k" "c \<le> i \<Longrightarrow> i < leaf_node_num_cells q \<Longrightarrow> k \<le> leaf_node_key q i"
proof -
  let ?ks = "leaf_keys q"
  have c: "c \<le> length ?ks" and before: "\<forall>x\<in>set (take c ?ks). x < k" and after: "\<forall>x\<in>set (drop c ?ks). k \<le> x"
    using assms by (simp_all add: place_in_leaf_def)
  show "leaf_node_key q i < k" if i: "i < c"
  proof -
    have "take c ?ks ! i \<in> set (take c ?ks)" using i c by (intro nth_mem) simp
    then show ?thesis using before i c by (force simp: leaf_key_cell)
  qed
  show "k \<le> leaf_node_key q i" if i: "c \<le> i" "i < leaf_node_num_cells q"
  proof -
    have "drop c ?ks ! (i - c) \<in> set (drop c ?ks)" using i by (intro nth_mem) simp
    moreover have "drop c ?ks ! (i - c) = leaf_node_key q i" using i by (simp add: leaf_key_cell)
    ultimately show ?thesis using after by metis
  qed
qed

lemma leaf_rows_put:
  "c \<le> leaf_node_num_cells q \<Longrightarrow> row_ok r \<Longrightarrow> k < 2 ^ 32 \<Longrightarrow> leaf_cells q' = put_at c (cell_bytes k r) (leaf_cells q) \<Longrightarrow>
     leaf_rows q' = leaf_rows q \<union> {(k, row_bytes r)}"
  by (simp add: leaf_rows_def set_put_at cell_key_bytes) (simp add: cell_bytes_def)

lemma leaf_insert_ok:
  assumes ok: "leaf_ok p" and room: "leaf_node_num_cells p < LEAF_NODE_MAX_CELLS" and at: "place_in_leaf p k c"
    and new: "k \<notin> set (leaf_keys p)" and k: "k < 2 ^ 32" and r: "row_ok r" and q: "q = leaf_insert_bytes c k r p"
  shows "leaf_ok q" "set (leaf_keys q) = insert k (set (leaf_keys p))" "leaf_rows q = leaf_rows p \<union> {(k, row_bytes r)}"
proof -
  have len: "length p = 4096" and ty: "get_node_type p = NODE_LEAF" and s: "sorted_wrt (<) (leaf_keys p)"
    using ok by (simp_all add: leaf_ok_def)
  have c: "c \<le> leaf_node_num_cells p" using at by (simp add: place_in_leaf_def)
  have n: "leaf_node_num_cells p < 13" using room by simp
  note S = leaf_insert_spec [OF len n c r q]
  have keys: "leaf_keys q = put_at c k (leaf_keys p)" by (simp only: S(2) map_put_at cell_key_bytes [OF k])
  then show "set (leaf_keys q) = insert k (set (leaf_keys p))" using c by (simp only: keys) (simp add: set_put_at)
  have "sorted_wrt (<) (put_at c k (leaf_keys p))"
  proof (rule sorted_wrt_put_at [OF s])
    show "leaf_keys p ! i < k" if "i < c" "i < length (leaf_keys p)" for i
      using place_in_leafD(1) [OF at that(1)] that by (simp add: leaf_key_cell)
    show "k < leaf_keys p ! i" if i: "c \<le> i" "i < length (leaf_keys p)" for i
    proof -
      have "k \<le> leaf_keys p ! i" using place_in_leafD(2) [OF at i(1)] i(2) by (simp add: leaf_key_cell)
      moreover have "leaf_keys p ! i \<noteq> k" using new nth_mem [OF i(2)] by metis
      ultimately show ?thesis by simp
    qed
  qed
  moreover have "leaf_node_num_cells q = Suc (leaf_node_num_cells p)"
    using arg_cong [OF S(2), of length] by simp
  ultimately show "leaf_ok q"
    unfolding leaf_ok_def keys using S(1) leaf_ok_header(1) [OF S(3) len S(1)] ty n by simp
  show "leaf_rows q = leaf_rows p \<union> {(k, row_bytes r)}" by (rule leaf_rows_put [OF c r k S(2)])
qed

lemma poke_pages [simp]: "t_pages (poke n f s) = (t_pages s)(n := f (t_pages s n))" "t_root (poke n f s) = t_root s"
  "t_dirty (poke n f s) = t_dirty s" "t_free_pages (poke n f s) = t_free_pages s" "t_backing (poke n f s) = t_backing s"
  "t_num_pages (poke n f s) = t_num_pages s"
  by (simp_all add: poke_def)

lemma mark_pages [simp]: "t_pages (mark n s) = t_pages s" "t_root (mark n s) = t_root s"
  "t_dirty (mark n s) = (t_dirty s)(n := True)" "t_free_pages (mark n s) = t_free_pages s" "t_backing (mark n s) = t_backing s"
  "t_num_pages (mark n s) = t_num_pages s"
  by (simp_all add: mark_def)


lemma tree_ok_update:
  assumes ok: "tree_ok s sh" and to: "leads_to (t_pages s) k sh m" and q: "leaf_ok q"
    and keys: "set (leaf_keys q) \<subseteq> insert k (set (leaf_keys (t_pages s m)))"
    and s': "t_pages s' = (t_pages s)(m := q)" "t_root s' = t_root s"
  shows "tree_ok s' sh"
proof -
  have "m \<in> set (leaf_pages sh)" by (rule leads_to_leaf [OF to])
  then have m: "m \<notin> set (node_pages sh)" "distinct (leaf_pages sh)" using ok by (auto simp: tree_ok_def)
  have "well_formed (t_pages s) UNIV sh" using ok by (simp add: tree_ok_def)
  from well_formed_update [OF this UNIV_I to m(2,1) q keys] show ?thesis using ok s' by (simp add: tree_ok_def)
qed

text \<open>Where \<open>table_find\<close> ends.\<close>

lemma table_find_place:
  assumes ok: "tree_ok s sh" and find: "table_find k s = Some (Inr (Some c, s'))"
  shows "leads_to (t_pages s) k sh (c_page c)" "place_in_leaf (t_pages s (c_page c)) k (c_cell c)"
    "t_pages s' = t_pages s" "t_root s' = t_root s" "t_dirty s' = t_dirty s" "leaf_ok (t_pages s (c_page c))"
proof -
  have wf: "well_formed (t_pages s) UNIV sh" and root: "t_root s = page_of sh" using ok by (simp_all add: tree_ok_def)
  from table_find_spec [OF wf root, of k] find have f: "found (t_pages s) k sh s c s'" by auto
  then show to: "leads_to (t_pages s) k sh (c_page c)" and "t_pages s' = t_pages s" "t_root s' = t_root s" "t_dirty s' = t_dirty s"
    by (simp_all add: found_def)
  show l: "leaf_ok (t_pages s (c_page c))" by (rule well_formed_leaf_ok [OF wf leads_to_leaf [OF to]])
  show "place_in_leaf (t_pages s (c_page c)) k (c_cell c)" using f leaf_find_place [OF l] by (simp add: found_def)
qed

section \<open>Deletion that leaves a row\<close>

lemma leaf_delete_ok:
  assumes ok: "leaf_ok p" and c: "c < leaf_node_num_cells p" and q: "q = leaf_delete_bytes c p"
  shows "leaf_ok q" "set (leaf_keys q) \<subseteq> set (leaf_keys p)"
    "leaf_rows q = leaf_rows p - {(leaf_node_key p c, b) |b. True}"
proof -
  have len: "length p = 4096" and ty: "get_node_type p = NODE_LEAF" and s: "sorted_wrt (<) (leaf_keys p)"
    and n: "leaf_node_num_cells p \<le> 13" using ok by (simp_all add: leaf_ok_def)
  note S = leaf_delete_spec [OF len n c q]
  let ?cs = "leaf_cells p"
  have cs: "?cs = take c ?cs @ ?cs ! c # drop (Suc c) ?cs" using c by (intro id_take_nth_drop) simp
  have keys: "leaf_keys q = take c (leaf_keys p) @ drop (Suc c) (leaf_keys p)" by (simp add: S(2) take_map drop_map)
  have kp: "leaf_keys p = take c (leaf_keys p) @ cell_key (?cs ! c) # drop (Suc c) (leaf_keys p)"
    by (subst cs) (simp add: take_map drop_map)
  from s have s': "sorted_wrt (<) (take c (leaf_keys p) @ cell_key (?cs ! c) # drop (Suc c) (leaf_keys p))" by (subst (asm) kp)
  then show "set (leaf_keys q) \<subseteq> set (leaf_keys p)" unfolding keys by (auto dest: in_set_takeD in_set_dropD)
  have "leaf_node_num_cells q = leaf_node_num_cells p - 1" using arg_cong [OF S(2), of length] c by simp
  then show "leaf_ok q"
    unfolding leaf_ok_def using S(1) leaf_ok_header(1) [OF S(3) len S(1)] ty n keys s' by (auto simp: sorted_wrt_append)
  have other: "cell_key x \<noteq> cell_key (?cs ! c)" if "x \<in> set (take c ?cs) \<union> set (drop (Suc c) ?cs)" for x
    using s' that by (fastforce simp: sorted_wrt_append take_map drop_map)
  have lk: "leaf_node_key p c = cell_key (?cs ! c)" using c by (simp add: leaf_key_cell)
  have "set ?cs = insert (?cs ! c) (set (leaf_cells q))" by (subst cs) (simp add: S(2))
  then show "leaf_rows q = leaf_rows p - {(leaf_node_key p c, b) |b. True}"
    using other lk by (auto simp: leaf_rows_def S(2))
qed

section \<open>A full internal node\<close>

lemma wr32_num_keys:
  assumes "length q = 4096" "14 \<le> off" "off + 4 \<le> 4096"
  shows "internal_node_num_keys (wr32 off v q) = internal_node_num_keys q" "length (wr32 off v q) = 4096"
proof -
  have b: "off + length (put_u32 v) \<le> length q" using assms by simp
  show "length (wr32 off v q) = 4096" using b assms by (simp add: wr32_def)
  show "internal_node_num_keys (wr32 off v q) = internal_node_num_keys q"
    using slice_blit_other [OF b, of 6 4] assms(2)
    by (simp add: internal_node_num_keys_def rd32_def wr32_def INTERNAL_NODE_NUM_KEYS_OFFSET_def COMMON_NODE_HEADER_SIZE_def)
qed

lemma internal_layout [simp]:
  "internal_node_cell i = 14 + i * 8" "INTERNAL_NODE_CHILD_SIZE = 4" "INTERNAL_NODE_MAX_KEYS = 509"
  by (simp_all add: internal_node_cell_def INTERNAL_NODE_HEADER_SIZE_def COMMON_NODE_HEADER_SIZE_def
      INTERNAL_NODE_CELL_SIZE_def INTERNAL_NODE_CHILD_SIZE_def INTERNAL_NODE_MAX_KEYS_eq)

text \<open>Making room in the over-full node asks for the child behind the right child, before the key count is
  raised.\<close>

lemma overfull_insert_exits:
  assumes len: "length q = 4096" and n: "internal_node_num_keys q \<le> INTERNAL_NODE_MAX_KEYS"
  shows "\<exists>e. overfull_insert sep child q = Inl e"
proof -
  let ?n = "internal_node_num_keys q"
  have key: "internal_node_num_keys (set_internal_key i v q) = ?n" "length (set_internal_key i v q) = 4096" if "i \<le> 509" for i v
    using wr32_num_keys [OF len, of "14 + i * 8 + 4" v] that by (simp_all add: set_internal_key_def)
  have stop: "overfull_insert sep child q = Inl (Exit_Child_Out_Of_Range (?n + 1) ?n)" if "overfull_shift sep ?n q = Inr (?n, q)"
    using key(1) [of ?n sep] n that by (simp add: overfull_insert_def Let_def internal_node_child_def)
  show ?thesis
  proof (cases ?n)
    case 0
    then show ?thesis using stop by simp
  next
    case (Suc i)
    show ?thesis
    proof (cases "internal_node_key q i > sep")
      case True
      then have "overfull_shift sep ?n q = Inl (Exit_Child_Out_Of_Range (?n + 1) ?n)"
        using Suc n key(1) [of "Suc i" "internal_node_key q i"] by (simp add: Let_def internal_node_child_def)
      then show ?thesis by (simp add: overfull_insert_def Let_def)
    next
      case False
      then show ?thesis using stop Suc by simp
    qed
  qed
qed


lemma probe_children_no_exit:
  assumes "\<forall>i \<in> set is. i \<le> internal_node_num_keys (t_pages s p)"
  shows "\<exists>s'. probe_children p k is s = Inr s' \<and> t_pages s' = t_pages s"
  using assms
proof (induction "is" arbitrary: s)
  case (Cons i "is")
  have "\<exists>s'. probe_children p k is (fetch n s) = Inr s' \<and> t_pages s' = t_pages s" for n
    using Cons.IH [of "fetch n s"] Cons.prems by simp
  then show ?case using Cons.prems by (simp add: internal_node_child_def Let_def)
qed simp

lemma node_pages_after_initialize:
  assumes "length q = 4096"
  shows "length (initialize_internal_node q) = 4096" "internal_node_num_keys (initialize_internal_node q) = 0"
proof -
  define r where "r = set_node_root False (set_node_type NODE_INTERNAL q)"
  have r: "length r = 4096" using assms by (simp add: r_def set_node_root_def set_node_type_def)
  have l: "length (wr32 6 0 r) = 4096" by (rule wr32_fields(1) [OF r]) simp
  have i: "initialize_internal_node q = wr32 10 0 (wr32 6 0 r)"
    by (simp add: initialize_internal_node_def r_def set_right_child_def set_num_keys_def
        INTERNAL_NODE_RIGHT_CHILD_OFFSET_def INTERNAL_NODE_NUM_KEYS_OFFSET_def node_layout)
  show "length (initialize_internal_node q) = 4096" unfolding i by (rule wr32_fields(1) [OF l]) simp
  have "rd32 6 (wr32 10 0 (wr32 6 0 r)) = rd32 6 (wr32 6 0 r)" by (rule wr32_fields(4) [OF l]) simp_all
  also have "\<dots> = 0" by (rule wr32_fields(3) [OF r]) simp_all
  finally show "internal_node_num_keys (initialize_internal_node q) = 0"
    by (simp add: i internal_node_num_keys_def INTERNAL_NODE_NUM_KEYS_OFFSET_def node_layout)
qed

lemma alloc_pages: "alloc s = Inr (n, s') \<Longrightarrow> t_pages s' = t_pages s \<and> t_root s' = t_root s \<and> t_dirty s' = t_dirty s"
  by (auto simp: alloc_def split: if_splits)

lemma internal_node_split_exits:
  assumes pages: "\<And>n. length (t_pages s n) = 4096"
    and n: "internal_node_num_keys (t_pages s page_num) \<le> INTERNAL_NODE_MAX_KEYS"
  shows "\<exists>e. internal_node_split_and_insert ins page_num child_page_num s = Some (Inl e)"
proof -
  define s2 where "s2 = fetch child_page_num (mark page_num (fetch page_num s))"
  define k where "k = get_node_max_key (t_pages s2 child_page_num)"
  show ?thesis
  proof (cases "alloc s2")
    case (Inl e)
    then show ?thesis by (simp add: internal_node_split_and_insert_def Let_def s2_def [symmetric])
  next
    case (Inr x)
    then obtain new s3 where a: "alloc s2 = Inr (new, s3)" by (cases x) auto
    define s4 where "s4 = mark new (poke new initialize_internal_node (fetch new s3))"
    have s4: "t_pages s4 = (t_pages s)(new := initialize_internal_node (t_pages s new))"
      using alloc_pages [OF a] by (simp add: s4_def s2_def)
    have len: "length (t_pages s4 page_num) = 4096" and keys: "internal_node_num_keys (t_pages s4 page_num) \<le> INTERNAL_NODE_MAX_KEYS"
      using node_pages_after_initialize [OF pages [of new]] pages n by (auto simp: s4)
    obtain s5 where s5: "probe_children page_num k [0..<internal_node_num_keys (t_pages s4 page_num) + 1] s4 = Inr s5" "t_pages s5 = t_pages s4"
      using probe_children_no_exit [of "[0..<internal_node_num_keys (t_pages s4 page_num) + 1]" s4 page_num k] by auto
    obtain e where "overfull_insert k child_page_num (t_pages s4 page_num) = Inl e" using overfull_insert_exits [OF len keys] by blast
    then have "split_bytes page_num child_page_num k new s4 = Inl e" using s5 by (simp add: split_bytes_def)
    then show ?thesis using a
      by (simp add: internal_node_split_and_insert_def Let_def s2_def [symmetric] s4_def [symmetric] k_def [symmetric])
  qed
qed

end
