(* ===== verification/BTreeScan.thy ===== *)
theory BTreeScan
  imports BTreeUpdate
begin

text \<open>
  Scans: the leaves are linked in key order, a cursor walks over the cells of all of them in both
  directions, and the loop that reads a whole table returns every row once, in ascending order of the keys.
\<close>

section \<open>The chain of the leaves\<close>

fun chain :: "(nat \<Rightarrow> bytes) \<Rightarrow> nat \<Rightarrow> nat list \<Rightarrow> bool" where
  "chain P p [] = True"
| "chain P p (n # ns) \<longleftrightarrow> leaf_node_prev_leaf (P n) = p \<and>
     leaf_node_next_leaf (P n) = (case ns of [] \<Rightarrow> 0 | m # _ \<Rightarrow> m) \<and> chain P n ns"

text \<open>Page 0 ends the chain, so only a single leaf may lie there; a leaf that is not alone is not empty.\<close>

definition linked :: "tree \<Rightarrow> shape \<Rightarrow> bool" where
  "linked s sh \<longleftrightarrow> chain (t_pages s) 0 (leaf_pages sh) \<and>
     (1 < length (leaf_pages sh) \<longrightarrow>
        0 \<notin> set (leaf_pages sh) \<and> (\<forall>n \<in> set (leaf_pages sh). 0 < leaf_node_num_cells (t_pages s n)))"

definition all_cells :: "(nat \<Rightarrow> bytes) \<Rightarrow> nat list \<Rightarrow> bytes list" where
  "all_cells P ns = concat (map (\<lambda>n. leaf_cells (P n)) ns)"

lemma all_cells_simps [simp]:
  "all_cells P [] = []" "all_cells P (n # ns) = leaf_cells (P n) @ all_cells P ns"
  "all_cells P (as @ bs) = all_cells P as @ all_cells P bs"
  by (simp_all add: all_cells_def)

lemma all_cells_rows: "rows P sh = (\<lambda>c. (cell_key c, drop 4 c)) ` set (all_cells P (leaf_pages sh))"
  by (auto simp: rows_def leaf_rows_def all_cells_def)

text \<open>The cells of a well-formed tree are sorted by key over all its leaves.\<close>

lemma sorted_concat:
  assumes "\<And>i. i < length xss \<Longrightarrow> sorted_wrt R (xss ! i)"
    and "\<And>i j x y. i < j \<Longrightarrow> j < length xss \<Longrightarrow> x \<in> set (xss ! i) \<Longrightarrow> y \<in> set (xss ! j) \<Longrightarrow> R x y"
  shows "sorted_wrt R (concat xss)"
  using assms
proof (induction xss)
  case (Cons xs xss)
  have "sorted_wrt R (concat xss)"
    by (rule Cons.IH) (use Cons.prems(1) [of "Suc _"] Cons.prems(2) [of "Suc _" "Suc _"] in auto)
  moreover have "R x y" if "x \<in> set xs" "y \<in> set (concat xss)" for x y
  proof -
    from that(2) obtain ys where "ys \<in> set xss" "y \<in> set ys" by auto
    then obtain j where "j < length xss" "y \<in> set (xss ! j)" by (metis in_set_conv_nth)
    then show ?thesis using Cons.prems(2) [of 0 "Suc j" x y] that(1) by simp
  qed
  ultimately show ?case using Cons.prems(1) [of 0] by (auto simp: sorted_wrt_append)
qed simp

lemma all_cells_concat: "all_cells P (concat nss) = concat (map (all_cells P) nss)"
  by (induction nss) simp_all

lemma keys_in_set:
  assumes "well_formed P K sh" "x \<in> set (map cell_key (all_cells P (leaf_pages sh)))"
  shows "x \<in> K"
proof -
  from assms(2) obtain n where "n \<in> set (leaf_pages sh)" "x \<in> set (leaf_keys (P n))" by (auto simp: all_cells_def)
  then show ?thesis using key_in_its_leaf [OF assms(1)] by blast
qed

lemma all_cells_sorted:
  "well_formed P K sh \<Longrightarrow> sorted_wrt (<) (map cell_key (all_cells P (leaf_pages sh)))"
proof (induction rule: well_formed.induct)
  case (node n cs K)
  have "map cell_key (all_cells P (leaf_pages (Node_At n cs))) = concat (map (\<lambda>c. map cell_key (all_cells P (leaf_pages c))) cs)"
    by (simp add: all_cells_concat map_concat comp_def)
  also have "sorted_wrt (<) \<dots>"
  proof (rule sorted_concat)
    show "sorted_wrt (<) (map (\<lambda>c. map cell_key (all_cells P (leaf_pages c))) cs ! i)"
      if "i < length (map (\<lambda>c. map cell_key (all_cells P (leaf_pages c))) cs)" for i
      using node(5) [of i] that by simp
    fix i j x y
    assume ij: "i < j" "j < length (map (\<lambda>c. map cell_key (all_cells P (leaf_pages c))) cs)"
      and x: "x \<in> set (map (\<lambda>c. map cell_key (all_cells P (leaf_pages c))) cs ! i)"
      and y: "y \<in> set (map (\<lambda>c. map cell_key (all_cells P (leaf_pages c))) cs ! j)"
    have il: "i < length cs" "j < length cs" using ij by simp_all
    have "x \<in> route (P n) i" using keys_in_set [OF node(4) [OF il(1)], of x] x il by simp
    moreover have "y \<in> route (P n) j" using keys_in_set [OF node(4) [OF il(2)], of y] y il by simp
    ultimately have "x \<le> internal_node_key (P n) i" "internal_node_key (P n) i < y"
      using ij node(2) by (auto simp: route_def)
    then show "x < y" by simp
  qed
  finally show ?case .
qed (auto simp: leaf_ok_def)

section \<open>Positions\<close>

definition row_of :: "bytes \<Rightarrow> row" where
  "row_of bs = deserialize_row bs 0"

lemma deserialize_row_slice:
  "deserialize_row p off = row_of (slice off 293 p)"
  by (simp add: row_of_def deserialize_row_def ID_OFFSET_def ID_SIZE_def USERNAME_OFFSET_def USERNAME_SIZE_def
      EMAIL_OFFSET_def EMAIL_SIZE_def slice_slice)

lemma row_of_row_bytes:
  assumes r: "row_ok r"
  shows "row_of (row_bytes r) = r"
proof -
  have "slice 0 4 (row_bytes r) = put_u32 (id_of r)" by (simp add: row_bytes_def slice_def)
  moreover have "id_of r < 2 ^ 32" using r unfolding row_ok_def by blast
  ultimately have "id_of (row_of (row_bytes r)) = id_of r"
    by (simp add: row_of_def deserialize_row_def ID_OFFSET_def ID_SIZE_def n32.dec_enc)
  moreover have "username (row_of (row_bytes r)) = username r" "email (row_of (row_bytes r)) = email r"
    using r by (simp_all add: row_of_def deserialize_row_def ID_OFFSET_def ID_SIZE_def USERNAME_OFFSET_def USERNAME_SIZE_def
        EMAIL_OFFSET_def EMAIL_SIZE_def row_bytes_def slice_def)
  ultimately show ?thesis by simp
qed

definition at_position :: "(nat \<Rightarrow> bytes) \<Rightarrow> nat list \<Rightarrow> nat \<Rightarrow> cursor \<Rightarrow> bool" where
  "at_position P ns i c \<longleftrightarrow> (\<exists>as bs. ns = as @ c_page c # bs \<and> c_cell c < leaf_node_num_cells (P (c_page c)) \<and>
     i = length (all_cells P as) + c_cell c) \<and> \<not> c_end c"

lemma at_positionI:
  "ns = as @ c_page c # bs \<Longrightarrow> c_cell c < leaf_node_num_cells (P (c_page c)) \<Longrightarrow> i = length (all_cells P as) + c_cell c \<Longrightarrow>
     \<not> c_end c \<Longrightarrow> at_position P ns i c"
  by (auto simp: at_position_def)

lemma chain_append:
  "chain P p (as @ n # bs) \<Longrightarrow> leaf_node_next_leaf (P n) = (case bs of [] \<Rightarrow> 0 | m # _ \<Rightarrow> m) \<and>
     leaf_node_prev_leaf (P n) = (if as = [] then p else last as)"
  by (induction as arbitrary: p) auto

lemma linked_one: "1 \<ge> length (leaf_pages sh) \<Longrightarrow> leaf_pages sh = as @ n # bs \<Longrightarrow> as = [] \<and> bs = []"
  by (cases as; cases bs) auto

lemma cursor_value_at:
  assumes "at_position (t_pages s) ns i c" "leaf_ok (t_pages s (c_page c))"
  shows "fst (cursor_value c s) = row_of (drop 4 (all_cells (t_pages s) ns ! i))" "i < length (all_cells (t_pages s) ns)"
    "t_pages (snd (cursor_value c s)) = t_pages s"
proof -
  let ?p = "t_pages s (c_page c)"
  from assms(1) obtain as bs where ns: "ns = as @ c_page c # bs" and c: "c_cell c < leaf_node_num_cells ?p"
    and i: "i = length (all_cells (t_pages s) as) + c_cell c" by (auto simp: at_position_def)
  show "i < length (all_cells (t_pages s) ns)" using ns c i by simp
  have cell: "all_cells (t_pages s) ns ! i = lcells.cell (c_cell c) ?p" using ns c i by (simp add: nth_append)
  have n: "c_cell c < 13" using c assms(2) by (simp add: leaf_ok_def)
  have "slice 4 293 (lcells.cell (c_cell c) ?p) = drop 4 (lcells.cell (c_cell c) ?p)"
    using lcells.length_cell [OF _ n, of ?p] assms(2) by (simp add: slice_def leaf_ok_def)
  moreover have "slice (22 + c_cell c * 297) 293 ?p = slice 4 293 (lcells.cell (c_cell c) ?p)"
    by (simp add: lcells.cell_def slice_slice)
  ultimately show "fst (cursor_value c s) = row_of (drop 4 (all_cells (t_pages s) ns ! i))"
    by (simp add: cursor_value_def Let_def cell deserialize_row_slice)
  show "t_pages (snd (cursor_value c s)) = t_pages s" by (simp add: cursor_value_def Let_def)
qed

lemma cursor_advance_at:
  assumes link: "linked s sh" and at: "at_position (t_pages s) (leaf_pages sh) i c"
  shows "\<exists>c' s'. cursor_advance c s = Some (c', s') \<and> t_pages s' = t_pages s \<and>
    (if Suc i < length (all_cells (t_pages s) (leaf_pages sh)) then at_position (t_pages s) (leaf_pages sh) (Suc i) c' else c_end c')"
proof -
  let ?P = "t_pages s" and ?n = "c_page c" and ?ns = "leaf_pages sh"
  from at obtain as bs where ns: "?ns = as @ ?n # bs" and c: "c_cell c < leaf_node_num_cells (?P ?n)"
    and i: "i = length (all_cells ?P as) + c_cell c" and e: "\<not> c_end c" by (auto simp: at_position_def)
  have ch: "chain ?P 0 (as @ ?n # bs)" using link ns by (simp add: linked_def)
  note step = advance_loop.simps [of "c\<lparr>c_cell := c_cell c + 1\<rparr>" "fetch ?n s"]
  show ?thesis
  proof (cases "Suc (c_cell c) < leaf_node_num_cells (?P ?n)")
    case True
    then have "at_position ?P ?ns (Suc i) (c\<lparr>c_cell := c_cell c + 1\<rparr>)" using ns i e True by (intro at_positionI [of _ as _ bs]) simp_all
    moreover have "Suc i < length (all_cells ?P ?ns)" using True ns i by simp
    moreover have "cursor_advance c s = Some (c\<lparr>c_cell := c_cell c + 1\<rparr>, fetch ?n s)"
      using True step by (simp add: cursor_advance_def)
    ultimately show ?thesis by simp
  next
    case False
    then have last: "leaf_node_num_cells (?P ?n) = Suc (c_cell c)" using c by simp
    show ?thesis
    proof (cases bs)
      case Nil
      then have "cursor_advance c s = Some (c\<lparr>c_cell := c_cell c + 1, c_end := True\<rparr>, fetch ?n s)"
        using chain_append [OF ch] last step by (simp add: cursor_advance_def Let_def)
      moreover have "\<not> Suc i < length (all_cells ?P ?ns)" using ns i last Nil by simp
      ultimately show ?thesis by simp
    next
      case (Cons m cs)
      have "1 < length ?ns" using ns Cons by simp
      then have "0 \<notin> set ?ns" "0 < leaf_node_num_cells (?P m)" using link ns Cons by (auto simp: linked_def)
      then have m: "m \<noteq> 0" "0 < leaf_node_num_cells (?P m)" using ns Cons by auto
      let ?c = "c\<lparr>c_page := m, c_cell := 0\<rparr>"
      have "advance_loop ?c (fetch m (fetch ?n s)) = Some (?c, fetch m (fetch ?n s))"
        using m by (subst advance_loop.simps) simp
      then have "cursor_advance c s = Some (?c, fetch m (fetch ?n s))"
        using chain_append [OF ch] last step m Cons by (simp add: cursor_advance_def Let_def)
      moreover have "at_position ?P ?ns (Suc i) ?c"
        using ns Cons m i e last by (intro at_positionI [of _ "as @ [?n]" _ cs]) simp_all
      moreover have "Suc i < length (all_cells ?P ?ns)" using ns i last Cons m by simp
      ultimately show ?thesis by simp
    qed
  qed
qed

lemma cursor_retreat_at:
  assumes link: "linked s sh" and at: "at_position (t_pages s) (leaf_pages sh) i c"
  shows "\<exists>c' s'. cursor_retreat c s = Some (c', s') \<and> t_pages s' = t_pages s \<and>
    (if 0 < i then at_position (t_pages s) (leaf_pages sh) (i - 1) c' else c_end c')"
proof -
  let ?P = "t_pages s" and ?n = "c_page c" and ?ns = "leaf_pages sh"
  from at obtain as bs where ns: "?ns = as @ ?n # bs" and c: "c_cell c < leaf_node_num_cells (?P ?n)"
    and i: "i = length (all_cells ?P as) + c_cell c" and e: "\<not> c_end c" by (auto simp: at_position_def)
  have ch: "chain ?P 0 (as @ ?n # bs)" using link ns by (simp add: linked_def)
  show ?thesis
  proof (cases "c_cell c > 0")
    case True
    then have "at_position ?P ?ns (i - 1) (c\<lparr>c_cell := c_cell c - 1\<rparr>)"
      using ns i e c by (intro at_positionI [of _ as _ bs]) simp_all
    then show ?thesis using True i by (simp add: cursor_retreat_def)
  next
    case False
    show ?thesis
    proof (cases as rule: rev_cases)
      case Nil
      then show ?thesis using chain_append [OF ch] False i by (simp add: cursor_retreat_def Let_def)
    next
      case (snoc ds m)
      have "1 < length ?ns" using ns snoc by simp
      then have "0 \<notin> set ?ns" "0 < leaf_node_num_cells (?P m)" using link ns snoc by (auto simp: linked_def)
      then have m: "m \<noteq> 0" "0 < leaf_node_num_cells (?P m)" using ns snoc by auto
      let ?c = "c\<lparr>c_page := m, c_cell := leaf_node_num_cells (?P m) - 1\<rparr>"
      have "retreat_loop (c\<lparr>c_page := m\<rparr>) (fetch m (fetch ?n s)) = Some (?c, fetch m (fetch ?n s))"
        using m by (subst retreat_loop.simps) simp
      then have "cursor_retreat c s = Some (?c, fetch m (fetch ?n s))"
        using chain_append [OF ch] m snoc False by (simp add: cursor_retreat_def Let_def)
      moreover have "at_position ?P ?ns (i - 1) ?c"
        using ns snoc m i e False by (intro at_positionI [of _ ds _ "?n # bs"]) simp_all
      moreover have "0 < i" using i snoc m by simp
      ultimately show ?thesis by simp
    qed
  qed
qed


section \<open>Both ends\<close>

lemma find_first_key:
  assumes "leaf_ok q"
  shows "leaf_find_loop q 0 0 (leaf_node_num_cells q) = 0"
proof (rule ccontr)
  assume "leaf_find_loop q 0 0 (leaf_node_num_cells q) \<noteq> 0"
  then show False using place_in_leafD(1) [OF leaf_find_place [OF assms, of 0], of 0] by simp
qed

lemma zero_leads_first:
  assumes "well_formed P K sh" "leads_to P 0 sh m"
  shows "\<exists>ns. leaf_pages sh = m # ns"
  using assms
proof (induction rule: well_formed.induct)
  case (leaf n K)
  then show ?case by (auto elim: leads_to_leafE)
next
  case (node n cs K)
  from node.prems obtain i where i: "i < length cs" "0 \<in> route (P n) i" "leads_to P 0 (cs ! i) m" by (rule leads_to_nodeE)
  have "i = 0" using i(2) by (cases i) (auto simp: route_def)
  moreover from this obtain ds where "cs = cs ! 0 # ds" using i(1) by (cases cs) auto
  ultimately show ?case using node(5) [OF i(1) i(3)] by (metis append_Cons concat.simps(2) leaf_pages.simps(2) list.simps(9))
qed

lemma table_start_at:
  assumes ok: "tree_ok s sh" and link: "linked s sh"
  shows "\<exists>c s'. table_start s = Some (Inr (Some c, s')) \<and> t_pages s' = t_pages s \<and>
    (if all_cells (t_pages s) (leaf_pages sh) = [] then c_end c else at_position (t_pages s) (leaf_pages sh) 0 c)"
proof -
  have wf: "well_formed (t_pages s) UNIV sh" and root: "t_root s = page_of sh" using ok by (simp_all add: tree_ok_def)
  let ?P = "t_pages s"
  obtain c s1 where f: "table_find 0 s = Some (Inr (Some c, s1))" "found ?P 0 sh s c s1" using table_find_spec [OF wf root] by blast
  let ?c = "c\<lparr>c_end := leaf_node_num_cells (?P (c_page c)) = 0\<rparr>" and ?s = "fetch (c_page c) s1"
  have to: "leads_to ?P 0 sh (c_page c)" and p1: "t_pages s1 = ?P" using f(2) by (simp_all add: found_def)
  obtain ns where ns: "leaf_pages sh = c_page c # ns" using zero_leads_first [OF wf to] by blast
  have "leaf_ok (?P (c_page c))" by (rule well_formed_leaf_ok [OF wf leads_to_leaf [OF to]])
  then have cell: "c_cell c = 0" using f(2) find_first_key by (simp add: found_def)
  have run: "table_start s = Some (Inr (Some ?c, ?s))" using f(1) p1 by (simp add: table_start_def Let_def)
  have "if all_cells ?P (leaf_pages sh) = [] then c_end ?c else at_position ?P (leaf_pages sh) 0 ?c"
  proof (cases "leaf_node_num_cells (?P (c_page c)) = 0")
    case True
    then have "ns = []" using link ns by (cases ns) (auto simp: linked_def)
    then show ?thesis using ns True by (simp add: leaf_cells_def)
  next
    case False
    then have "leaf_cells (?P (c_page c)) \<noteq> []" by (simp add: leaf_cells_def)
    then show ?thesis using ns False cell by (auto intro!: at_positionI [of _ "[]" _ ns])
  qed
  then show ?thesis using run p1 by auto
qed

lemma last_child:
  assumes "length cs = internal_node_num_keys q + 1"
  shows "child_at q (length cs - 1) = internal_node_right_child q" "last cs = cs ! (length cs - 1)"
proof -
  have "cs \<noteq> []" using assms by auto
  then show "last cs = cs ! (length cs - 1)" by (simp add: last_conv_nth)
qed (use assms in \<open>simp add: child_at_def internal_node_right_child_def\<close>)

lemma rightmost_loop_spec:
  assumes "well_formed P K sh" "t_pages s = P"
  shows "\<exists>m ns s'. rightmost_loop (page_of sh) s = Some (m, s') \<and> t_pages s' = P \<and> leaf_pages sh = ns @ [m]"
  using assms
proof (induction arbitrary: s rule: well_formed.induct)
  case (leaf n K)
  then show ?case by (subst rightmost_loop.simps) (auto simp: leaf_ok_def NODE_LEAF_def NODE_INTERNAL_def)
next
  case (node n cs K)
  let ?i = "length cs - 1"
  have i: "?i < length cs" using node(2) by simp
  have r: "internal_node_right_child (P n) = page_of (cs ! ?i)" using node(3) [OF i] last_child(1) [OF node(2)] by simp
  obtain m ns s' where IH: "rightmost_loop (page_of (cs ! ?i)) (fetch (page_of (cs ! ?i)) s) = Some (m, s')" "t_pages s' = P"
    "leaf_pages (cs ! ?i) = ns @ [m]" using node(5) [OF i, of "fetch (page_of (cs ! ?i)) s"] node.prems by auto
  have run: "rightmost_loop (page_of (Node_At n cs)) s = Some (m, s')"
    using IH(1) r node(1) node.prems by (subst rightmost_loop.simps) (simp add: node_ok_def Let_def)
  define d where "d = cs ! ?i"
  have "cs = butlast cs @ [d]" using i last_child(2) [OF node(2)] unfolding d_def
    by (cases cs rule: rev_cases) simp_all
  then obtain ds where cs: "cs = ds @ [d]" by blast
  have "leaf_pages (Node_At n cs) = (concat (map leaf_pages ds) @ ns) @ [m]"
    unfolding cs using IH(3) [folded d_def] by simp
  with run IH(2) show ?case by blast
qed

lemma table_end_at:
  assumes ok: "tree_ok s sh" and link: "linked s sh"
  shows "\<exists>c s'. table_end s = Some (c, s') \<and> t_pages s' = t_pages s \<and>
    (if all_cells (t_pages s) (leaf_pages sh) = [] then c_end c
     else at_position (t_pages s) (leaf_pages sh) (length (all_cells (t_pages s) (leaf_pages sh)) - 1) c)"
proof -
  let ?P = "t_pages s"
  have wf: "well_formed ?P UNIV sh" and root: "t_root s = page_of sh" using ok by (simp_all add: tree_ok_def)
  obtain m ns s1 where r: "rightmost_loop (t_root s) (fetch (t_root s) s) = Some (m, s1)" "t_pages s1 = ?P" "leaf_pages sh = ns @ [m]"
    using rightmost_loop_spec [OF wf, of "fetch (t_root s) s"] root by auto
  let ?n = "leaf_node_num_cells (?P m)"
  let ?c = "\<lparr>c_page = m, c_cell = (if ?n > 0 then ?n - 1 else 0), c_end = (?n = 0)\<rparr>"
  have run: "table_end s = Some (?c, s1)" using r by (simp add: table_end_def Let_def)
  have "if all_cells ?P (leaf_pages sh) = [] then c_end ?c
     else at_position ?P (leaf_pages sh) (length (all_cells ?P (leaf_pages sh)) - 1) ?c"
  proof (cases "?n = 0")
    case True
    then have "ns = []" using link r(3) by (cases ns) (auto simp: linked_def)
    then show ?thesis using r(3) True by (simp add: leaf_cells_def)
  next
    case False
    then have "leaf_cells (?P m) \<noteq> []" by (simp add: leaf_cells_def)
    then show ?thesis using r(3) False by (auto intro!: at_positionI [of _ ns _ "[]"])
  qed
  then show ?thesis using run r(2) by auto
qed

section \<open>Reading the whole table\<close>

partial_function (option) collect_rows :: "cursor \<Rightarrow> tree \<Rightarrow> (row list \<times> tree) option" where
  "collect_rows c s =
     (if c_end c then Some ([], s)
      else
        case cursor_value c s of (r, s1) \<Rightarrow>
          Option.bind (cursor_advance c s1) (\<lambda>(c', s2).
            Option.bind (collect_rows c' s2) (\<lambda>(rs, s3). Some (r # rs, s3))))"

lemma linked_cong: "t_pages s' = t_pages s \<Longrightarrow> linked s' sh = linked s sh"
  by (simp add: linked_def)

lemma collect_rows_from:
  assumes "linked s sh" "at_position (t_pages s) (leaf_pages sh) i c" "well_formed (t_pages s) K sh"
  shows "\<exists>s'. collect_rows c s = Some (map (\<lambda>b. row_of (drop 4 b)) (drop i (all_cells (t_pages s) (leaf_pages sh))), s') \<and>
    t_pages s' = t_pages s"
  using assms
proof (induction "length (all_cells (t_pages s) (leaf_pages sh)) - i" arbitrary: i c s)
  case 0
  from 0(3) have "c_page c \<in> set (leaf_pages sh)" by (auto simp: at_position_def)
  then show ?case using cursor_value_at(2) [OF 0(3) well_formed_leaf_ok [OF 0(4)]] 0(1) by simp
next
  case (Suc d)
  let ?cells = "all_cells (t_pages s) (leaf_pages sh)"
  from Suc(4) have "c_page c \<in> set (leaf_pages sh)" by (auto simp: at_position_def)
  note V = cursor_value_at [OF Suc(4) well_formed_leaf_ok [OF Suc(5) this]]
  obtain r s1 where v: "cursor_value c s = (r, s1)" by (cases "cursor_value c s") auto
  have r: "r = row_of (drop 4 (?cells ! i))" "t_pages s1 = t_pages s" using V v by simp_all
  have link1: "linked s1 sh" using Suc(3) linked_cong r(2) by blast
  obtain c' s2 where a: "cursor_advance c s1 = Some (c', s2)" "t_pages s2 = t_pages s"
    "if Suc i < length ?cells then at_position (t_pages s) (leaf_pages sh) (Suc i) c' else c_end c'"
    using cursor_advance_at [OF link1, unfolded r(2), OF Suc(4)] by blast
  have e: "\<not> c_end c" using Suc(4) by (simp add: at_position_def)
  have dr: "drop i ?cells = ?cells ! i # drop (Suc i) ?cells" by (rule Cons_nth_drop_Suc [symmetric]) (rule V(2))
  obtain rs s3 where rest: "collect_rows c' s2 = Some (rs, s3)" "rs = map (\<lambda>b. row_of (drop 4 b)) (drop (Suc i) ?cells)"
    "t_pages s3 = t_pages s"
  proof (cases "Suc i < length ?cells")
    case True
    have link2: "linked s2 sh" using Suc(3) linked_cong a(2) by blast
    have "d = length (all_cells (t_pages s2) (leaf_pages sh)) - Suc i" using Suc(2) a(2) by simp
    from Suc(1) [OF this link2] show thesis using True a Suc(5) that by auto
  next
    case False
    then have "c_end c'" using a by simp
    then have "collect_rows c' s2 = Some ([], s2)" by (subst collect_rows.simps) simp
    then show thesis using False a(2) that by simp
  qed
  have "collect_rows c s = Some (r # rs, s3)"
    using e v a(1) rest(1) by (subst collect_rows.simps) simp
  then show ?case using r rest dr by simp
qed

end
