(* ===== verification/BTreeInternal.thy ===== *)
theory BTreeInternal
  imports BTreeScan
begin

text \<open>
  An internal node as its separators and children: what inserting a child does to them, and the keys its
  children then get.
\<close>

definition node_seps :: "bytes \<Rightarrow> nat list" where
  "node_seps q = map (internal_node_key q) [0..<internal_node_num_keys q]"

definition node_kids :: "bytes \<Rightarrow> nat list" where
  "node_kids q = map (child_at q) [0..<internal_node_num_keys q + 1]"

lemma length_node_lists [simp]: "length (node_seps q) = internal_node_num_keys q" "length (node_kids q) = internal_node_num_keys q + 1"
  by (simp_all add: node_seps_def node_kids_def)

lemma nth_node_lists [simp]:
  "i < internal_node_num_keys q \<Longrightarrow> node_seps q ! i = internal_node_key q i"
  "i \<le> internal_node_num_keys q \<Longrightarrow> node_kids q ! i = child_at q i"
  by (simp_all add: node_seps_def node_kids_def nth_append del: upt_Suc)

section \<open>Cells of an internal node\<close>

lemma icell_parts:
  "rd32 (14 + i * 8) q = get_u32 (slice 0 4 (icells.cell i q))" "internal_node_key q i = get_u32 (slice 4 4 (icells.cell i q))"
  by (simp_all add: rd32_def internal_node_key_def icells.cell_def slice_slice)

lemma write_icell:
  assumes len: "length q = 4096" and i: "i < 510" and q': "q' = set_internal_key i k (set_internal_cell i v q)"
  shows "q' = blit (14 + i * 8) (put_u32 v @ put_u32 k) q"
proof -
  have "14 + i * 8 + length (put_u32 v) + length (put_u32 k) \<le> length q" using icells.cell_end [OF i] len by simp
  from blit_blit_adjacent [OF this] show ?thesis
    by (simp add: q' set_internal_key_def set_internal_cell_def wr32_def)
qed

lemma write_icell_spec:
  assumes len: "length q = 4096" and i: "i < 510" and k: "k < 2 ^ 32" and v: "v < 2 ^ 32"
    and q': "q' = set_internal_key i k (set_internal_cell i v q)"
  shows "length q' = 4096" "j < 510 \<Longrightarrow> internal_node_key q' j = (if j = i then k else internal_node_key q j)"
    "j < 510 \<Longrightarrow> rd32 (14 + j * 8) q' = (if j = i then v else rd32 (14 + j * 8) q)"
    "a + n \<le> 14 \<Longrightarrow> slice a n q' = slice a n q"
proof -
  note e = write_icell [OF len i q']
  have l: "length (put_u32 v @ put_u32 k) = 8" by simp
  note W = icells.write_cell [OF len _ i l, folded e]
  show "length q' = 4096" using W(2) i by blast
  have "slice 0 4 (put_u32 v @ put_u32 k) = put_u32 v" "slice 4 4 (put_u32 v @ put_u32 k) = put_u32 k"
    by (simp_all add: slice_def)
  then show "j < 510 \<Longrightarrow> internal_node_key q' j = (if j = i then k else internal_node_key q j)"
    "j < 510 \<Longrightarrow> rd32 (14 + j * 8) q' = (if j = i then v else rd32 (14 + j * 8) q)"
    using W(1) [of j] k v by (simp_all add: icell_parts n32.dec_enc)
  show "a + n \<le> 14 \<Longrightarrow> slice a n q' = slice a n q"
    unfolding e by (rule icells.write_before [OF len i l])
qed

lemma internal_fields:
  assumes len: "length q = 4096" and off: "off = 2 \<or> off = 6 \<or> off = 10"
  shows "length (wr32 off v q) = 4096" "j < 510 \<Longrightarrow> internal_node_key (wr32 off v q) j = internal_node_key q j"
    "j < 510 \<Longrightarrow> rd32 (14 + j * 8) (wr32 off v q) = rd32 (14 + j * 8) q"
proof -
  have b: "off + length (put_u32 v) \<le> length q" using assms by auto
  show "length (wr32 off v q) = 4096" using b len by (simp add: wr32_def)
  have o: "off + length (put_u32 v) \<le> 14" using off by auto
  show "j < 510 \<Longrightarrow> internal_node_key (wr32 off v q) j = internal_node_key q j"
    "j < 510 \<Longrightarrow> rd32 (14 + j * 8) (wr32 off v q) = rd32 (14 + j * 8) q"
    using icells.write_elsewhere [OF len o, of j] by (simp_all add: icell_parts wr32_def)
qed

lemma internal_offsets [simp]:
  "INTERNAL_NODE_NUM_KEYS_OFFSET = 6" "INTERNAL_NODE_RIGHT_CHILD_OFFSET = 10" "PARENT_POINTER_OFFSET = 2"
  by (simp_all add: INTERNAL_NODE_NUM_KEYS_OFFSET_def INTERNAL_NODE_RIGHT_CHILD_OFFSET_def node_layout)

text \<open>A list is a node's separators and children once every position agrees.\<close>

lemma node_lists_eqI:
  assumes "internal_node_num_keys q = length ss" "length vs = length ss + 1"
    "\<And>j. j < length ss \<Longrightarrow> internal_node_key q j = ss ! j"
    "\<And>j. j < length ss \<Longrightarrow> rd32 (14 + j * 8) q = vs ! j" "rd32 10 q = vs ! length ss"
  shows "node_seps q = ss \<and> node_kids q = vs"
proof (intro conjI)
  show "node_seps q = ss" by (rule nth_equalityI) (use assms in simp_all)
  show "node_kids q = vs"
  proof (rule nth_equalityI)
    show "node_kids q ! j = vs ! j" if "j < length (node_kids q)" for j
      using that assms by (cases "j = length ss") (simp_all add: child_at_def)
  qed (use assms in simp)
qed

lemma child_at_cell: "i < internal_node_num_keys q \<Longrightarrow> rd32 (14 + i * 8) q = node_kids q ! i"
  by (simp add: child_at_def)

lemma right_child_kid: "rd32 10 q = node_kids q ! internal_node_num_keys q"
  by (simp add: child_at_def)

lemma num_keys_rd: "internal_node_num_keys q = rd32 6 q" "internal_node_right_child q = rd32 10 q"
  by (simp_all add: internal_node_num_keys_def internal_node_right_child_def)

section \<open>Changing a separator\<close>

lemma update_key_spec:
  assumes len: "length q = 4096" and n: "internal_node_num_keys q \<le> 509" and new: "new < 2 ^ 32"
    and i: "i < internal_node_num_keys q" "internal_node_key q i = old" "\<And>j. j < i \<Longrightarrow> internal_node_key q j \<noteq> old"
    and q': "q' = update_internal_node_key old new q"
  shows "length q' = 4096" "node_seps q' = (node_seps q)[i := new]" "node_kids q' = node_kids q" "slice 0 6 q' = slice 0 6 q"
proof -
  have "find (\<lambda>i. internal_node_key q i = old) [0..<internal_node_num_keys q] = Some i"
    using i by (auto simp: find_Some_iff)
  then have e: "q' = wr32 (14 + i * 8 + 4) new q" by (simp add: q' update_internal_node_key_def set_internal_key_def)
  have i510: "i < 510" using i n by simp
  have b: "14 + i * 8 + 4 + length (put_u32 new) \<le> length q" using icells.cell_end [OF i510] len by simp
  show l: "length q' = 4096" unfolding e wr32_def using b len by simp
  have hd: "slice a m q' = slice a m q" if "a + m \<le> 14" for a m
    unfolding e wr32_def by (rule slice_blit_other [OF b]) (use that in simp)
  show "slice 0 6 q' = slice 0 6 q" by (rule hd) simp
  have fields: "rd32 6 q' = rd32 6 q" "rd32 10 q' = rd32 10 q" unfolding rd32_def using hd by simp_all
  have key: "internal_node_key q' j = (if j = i then new else internal_node_key q j)" for j
  proof (cases "j = i")
    case True
    then show ?thesis using b new by (simp add: e internal_node_key_def rd32_def wr32_def n32.dec_enc)
  next
    case False
    then have "14 + j * 8 + 4 + 4 \<le> 14 + i * 8 + 4 \<or> 14 + i * 8 + 4 + length (put_u32 new) \<le> 14 + j * 8 + 4" by auto
    from slice_blit_other [OF b this] show ?thesis using False by (simp add: e internal_node_key_def rd32_def wr32_def)
  qed
  have kid: "rd32 (14 + j * 8) q' = rd32 (14 + j * 8) q" for j
  proof -
    have "14 + j * 8 + 4 \<le> 14 + i * 8 + 4 \<or> 14 + i * 8 + 4 + length (put_u32 new) \<le> 14 + j * 8" by auto
    from slice_blit_other [OF b this] show ?thesis by (simp add: e rd32_def wr32_def)
  qed
  have num: "internal_node_num_keys q' = internal_node_num_keys q" using fields by (simp add: num_keys_rd)
  have "node_seps q' = (node_seps q)[i := new] \<and> node_kids q' = node_kids q"
  proof (rule node_lists_eqI)
    show "internal_node_key q' j = (node_seps q)[i := new] ! j" if "j < length ((node_seps q)[i := new])" for j
      using that key [of j] i by (simp add: nth_list_update)
    show "rd32 (14 + j * 8) q' = node_kids q ! j" if "j < length ((node_seps q)[i := new])" for j
      using that by (simp add: kid child_at_cell)
  qed (use num fields right_child_kid [of q] in simp_all)
  then show "node_seps q' = (node_seps q)[i := new]" "node_kids q' = node_kids q" by simp_all
qed

lemma update_key_none:
  assumes "\<And>j. j < internal_node_num_keys q \<Longrightarrow> internal_node_key q j \<noteq> old"
  shows "update_internal_node_key old new q = q"
proof -
  have "find (\<lambda>i. internal_node_key q i = old) [0..<internal_node_num_keys q] = None"
    using assms by (auto simp: find_None_iff)
  then show ?thesis by (simp add: update_internal_node_key_def)
qed

section \<open>Inserting a child\<close>

lemma insert_behind_right_spec:
  assumes len: "length q = 4096" and n: "internal_node_num_keys q < 509" and k: "k < 2 ^ 32" and v: "v < 2 ^ 32"
    and q': "q' = set_num_keys (internal_node_num_keys q + 1) (insert_behind_right k v q)"
  shows "length q' = 4096" "node_seps q' = node_seps q @ [k]" "node_kids q' = node_kids q @ [v]" "slice 0 6 q' = slice 0 6 q"
proof -
  let ?n = "internal_node_num_keys q"
  have n510: "?n < 510" using n by simp
  have r: "rd32 10 q < 2 ^ 32" unfolding rd32_def by (rule get_u32_less)
  define q1 where "q1 = set_internal_key ?n k (set_internal_cell ?n (rd32 10 q) q)"
  note C = write_icell_spec [OF len n510 k r q1_def]
  define q2 where "q2 = wr32 10 v q1"
  have e: "q' = wr32 6 (?n + 1) q2"
    by (simp add: q' insert_behind_right_def Let_def q1_def q2_def set_num_keys_def set_right_child_def num_keys_rd)
  have six: "(6::nat) + 4 \<le> 18" and ten: "(10::nat) + 4 \<le> 18" by simp_all
  have i6: "(6::nat) = 2 \<or> (6::nat) = 6 \<or> (6::nat) = 10" and i10: "(10::nat) = 2 \<or> (10::nat) = 6 \<or> (10::nat) = 10" by simp_all
  note A = wr32_fields [OF C(1) ten, where v = v, folded q2_def]
  note A' = internal_fields [OF C(1) i10, where v = v, folded q2_def]
  note B = wr32_fields [OF A(1) six, where v = "?n + 1", folded e]
  note B' = internal_fields [OF A(1) i6, where v = "?n + 1", folded e]
  show "length q' = 4096" by (rule B(1))
  have num: "internal_node_num_keys q' = ?n + 1" using B(3) n by (simp add: num_keys_rd)
  have right: "rd32 10 q' = v" using B(4) [of 10] A(3) v by simp
  have "node_seps q' = node_seps q @ [k] \<and> node_kids q' = node_kids q @ [v]"
  proof (rule node_lists_eqI)
    fix j assume "j < length (node_seps q @ [k])"
    then have j: "j \<le> ?n" "j < 510" using n by simp_all
    show "internal_node_key q' j = (node_seps q @ [k]) ! j" using B'(2) A'(2) C(2) j by (simp add: nth_append)
    show "rd32 (14 + j * 8) q' = (node_kids q @ [v]) ! j"
      using B'(3) A'(3) C(3) j child_at_cell [of j q] right_child_kid [of q] by (simp add: nth_append)
  qed (use num right in \<open>simp_all add: nth_append\<close>)
  then show "node_seps q' = node_seps q @ [k]" "node_kids q' = node_kids q @ [v]" by simp_all
  show "slice 0 6 q' = slice 0 6 q" using B(5) [of 0 6] A(5) [of 0 6] C(4) [of 0 6] by simp
qed

lemma first_not_less_spec:
  assumes "is = [l..<num]" "l \<le> num"
  shows "l \<le> first_not_less q k is num \<and> first_not_less q k is num \<le> num \<and>
    (\<forall>j. l \<le> j \<and> j < first_not_less q k is num \<longrightarrow> internal_node_key q j < k) \<and>
    (first_not_less q k is num < num \<longrightarrow> k \<le> internal_node_key q (first_not_less q k is num))"
  using assms
proof (induction q k "is" num arbitrary: l rule: first_not_less.induct)
  case (1 q k num)
  have "\<not> l < num" using arg_cong [OF "1.prems"(1), of length] by simp
  with "1.prems"(2) show ?case by simp
next
  case (2 q k i "is" num)
  have "l < num" using "2.prems" by (cases "l < num") auto
  then have l: "l = i" "l < num" "is = [Suc l..<num]" using "2.prems"(1) by (simp_all add: upt_conv_Cons)
  show ?case
  proof (cases "internal_node_key q i < k")
    case True
    let ?r = "first_not_less q k is num"
    have IH: "Suc i \<le> ?r" "?r \<le> num" "\<forall>j. Suc i \<le> j \<and> j < ?r \<longrightarrow> internal_node_key q j < k"
      "?r < num \<longrightarrow> k \<le> internal_node_key q ?r"
      using "2.IH" [OF True, of "Suc i"] l by simp_all
    have "internal_node_key q j < k" if "i \<le> j" "j < ?r" for j
      using IH(3) that True by (cases "j = i") auto
    then show ?thesis using IH True l(1) by auto
  next
    case False
    then show ?thesis using l by auto
  qed
qed

lemma insert_in_front_spec:
  assumes len: "length q = 4096" and n: "internal_node_num_keys q < 509" and k: "k < 2 ^ 32" and v: "v < 2 ^ 32"
    and idx: "idx = first_not_less q k [0..<internal_node_num_keys q] (internal_node_num_keys q)"
    and q': "q' = set_num_keys (internal_node_num_keys q + 1) (insert_in_front k v q)"
  shows "length q' = 4096" "node_seps q' = put_at idx k (node_seps q)" "node_kids q' = put_at idx v (node_kids q)" "slice 0 6 q' = slice 0 6 q"
proof -
  let ?n = "internal_node_num_keys q"
  have i: "idx \<le> ?n" using first_not_less_spec [of "[0..<?n]" 0 ?n q k] by (simp add: idx)
  have n510: "?n < 510" and i510: "idx < 510" using n i by simp_all
  define q0 where "q0 = fold (\<lambda>i. copy_internal_cell i (i - 1)) (rev [idx + 1..<?n + 1]) q"
  have cp: "copy_internal_cell = icells.copy_cell"
    by (simp add: fun_eq_iff copy_internal_cell_def icells.copy_cell_def icells.cell_def INTERNAL_NODE_CELL_SIZE_def)
  note S = icells.shift_right [OF len n510 i, folded cp, folded q0_def]
  have l0: "length q0 = 4096" using S by blast
  define q1 where "q1 = set_internal_key idx k (set_internal_cell idx v q0)"
  note C = write_icell_spec [OF l0 i510 k v q1_def]
  have e: "q' = wr32 6 (?n + 1) q1"
    by (simp add: q' insert_in_front_def Let_def q1_def q0_def set_num_keys_def idx)
  have six: "(6::nat) + 4 \<le> 18" by simp
  have i6: "(6::nat) = 2 \<or> (6::nat) = 6 \<or> (6::nat) = 10" by simp
  note B = wr32_fields [OF C(1) six, where v = "?n + 1", folded e]
  note B' = internal_fields [OF C(1) i6, where v = "?n + 1", folded e]
  show "length q' = 4096" by (rule B(1))
  have num: "internal_node_num_keys q' = ?n + 1" using B(3) n by (simp add: num_keys_rd)
  have hd: "slice a m q' = slice a m q" if "a + m \<le> 6 \<or> 10 \<le> a" "a + m \<le> 14" for a m
  proof -
    have "slice a m q' = slice a m q1" by (rule B(5)) (use that in auto)
    also have "\<dots> = slice a m q0" by (rule C(4)) (rule that(2))
    also have "\<dots> = slice a m q" using S that(2) by blast
    finally show ?thesis .
  qed
  have right: "rd32 10 q' = rd32 10 q" using hd [of 10 4] by (simp add: rd32_def)
  have shifted: "icells.cell j q0 = (if idx < j \<and> j \<le> ?n then icells.cell (j - 1) q else icells.cell j q)" if "j < 510" for j
    using S that by blast
  have "node_seps q' = put_at idx k (node_seps q) \<and> node_kids q' = put_at idx v (node_kids q)"
  proof (rule node_lists_eqI)
    fix j assume "j < length (put_at idx k (node_seps q))"
    then have j: "j \<le> ?n" "j < 510" using n by simp_all
    have "internal_node_key q' j = (if j = idx then k else internal_node_key q0 j)" using B'(2) C(2) j by simp
    also have "\<dots> = (if j < idx then internal_node_key q j else if j = idx then k else internal_node_key q (j - 1))"
      using shifted [OF j(2)] j by (auto simp: icell_parts)
    also have "\<dots> = put_at idx k (node_seps q) ! j" using i j by (subst nth_put_at) auto
    finally show "internal_node_key q' j = put_at idx k (node_seps q) ! j" .
    have "rd32 (14 + j * 8) q' = (if j = idx then v else rd32 (14 + j * 8) q0)" using B'(3) C(3) j by simp
    also have "\<dots> = (if j < idx then rd32 (14 + j * 8) q else if j = idx then v else rd32 (14 + (j - 1) * 8) q)"
      using shifted [OF j(2)] j by (auto simp: icell_parts)
    also have "\<dots> = put_at idx v (node_kids q) ! j"
      using i j child_at_cell [of j q] child_at_cell [of "j - 1" q] by (subst nth_put_at) auto
    finally show "rd32 (14 + j * 8) q' = put_at idx v (node_kids q) ! j" .
  next
    have "put_at idx v (node_kids q) ! (?n + 1) = node_kids q ! ?n" using i by (subst nth_put_at) auto
    then show "rd32 10 q' = put_at idx v (node_kids q) ! length (put_at idx k (node_seps q))"
      using right right_child_kid [of q] by simp
  qed (use num in simp_all)
  then show "node_seps q' = put_at idx k (node_seps q)" "node_kids q' = put_at idx v (node_kids q)" by simp_all
  show "slice 0 6 q' = slice 0 6 q" by (rule hd) simp_all
qed

section \<open>Routing after the insertion\<close>

lemma route_iff:
  assumes "node_ok q" "j \<le> internal_node_num_keys q"
  shows "k \<in> route q j \<longleftrightarrow> (j = 0 \<or> node_seps q ! (j - 1) < k) \<and> (j = internal_node_num_keys q \<or> k \<le> node_seps q ! j)"
proof -
  have mono: "internal_node_key q a \<le> internal_node_key q b" if "a \<le> b" "b < internal_node_num_keys q" for a b
    using assms(1) that unfolding node_ok_def by blast
  have "(\<forall>i<j. internal_node_key q i < k) \<longleftrightarrow> j = 0 \<or> internal_node_key q (j - 1) < k"
  proof (cases j)
    case (Suc j')
    have "internal_node_key q i < k" if "internal_node_key q j' < k" "i < Suc j'" for i
      using mono [of i j'] that assms(2) Suc by simp
    then show ?thesis using Suc by auto
  qed simp
  moreover have "(\<forall>i. j \<le> i \<and> i < internal_node_num_keys q \<longrightarrow> k \<le> internal_node_key q i) \<longleftrightarrow>
      j = internal_node_num_keys q \<or> k \<le> internal_node_key q j"
  proof (cases "j < internal_node_num_keys q")
    case True
    then show ?thesis using mono [of j] by (force intro: order_trans)
  qed (use assms(2) in auto)
  moreover have "j = 0 \<or> node_seps q ! (j - 1) = internal_node_key q (j - 1)" using assms(2) by (cases j) simp_all
  moreover have "j = internal_node_num_keys q \<or> node_seps q ! j = internal_node_key q j"
    using assms(2) by (cases "j < internal_node_num_keys q") auto
  ultimately show ?thesis unfolding route_def mem_Collect_eq by auto
qed

lemma node_ok_seps:
  "node_ok q \<longleftrightarrow> length q = 4096 \<and> get_node_type q = NODE_INTERNAL \<and> internal_node_num_keys q \<le> 509 \<and> sorted (node_seps q)"
  by (auto simp: node_ok_def sorted_iff_nth_mono)

end
