(* ===== verification/BTreeSplitBytes.thy ===== *)
theory BTreeSplitBytes
  imports BTreeInternal
begin

text \<open>
  What the split of a full leaf does to bytes: the fourteen cells, the new one among them, are shared out
  between the old and the new node without losing any.
\<close>

section \<open>One round\<close>

text \<open>The state of the loop before position \<open>i\<close> is treated: the positions from \<open>i\<close> on are in place, the cells
  in front of them are untouched.\<close>

definition shared_from :: "nat \<Rightarrow> bytes list \<Rightarrow> bytes \<Rightarrow> bytes \<Rightarrow> bytes \<times> bytes \<Rightarrow> bool" where
  "shared_from i vs old_node new_node nodes \<longleftrightarrow>
     (case nodes of (p, q) \<Rightarrow> length p = 4096 \<and> length q = 4096 \<and>
        (\<forall>j<13. lcells.cell j p = (if i \<le> j \<and> j < 7 then vs ! j else lcells.cell j old_node)) \<and>
        (\<forall>j<7. i \<le> j + 7 \<longrightarrow> lcells.cell j q = vs ! (j + 7)) \<and>
        (\<forall>a m. a + m \<le> 18 \<longrightarrow> slice a m p = slice a m old_node \<and> slice a m q = slice a m new_node))"

lemma place_cell_shared:
  assumes sh: "shared_from (Suc i) (put_at c (cell_bytes k r) cs) old_node new_node nodes"
    and i: "i < 14" and c: "c \<le> 13" and r: "row_ok r"
    and cs: "length cs = 13" "\<And>j. j < 13 \<Longrightarrow> cs ! j = lcells.cell j old_node \<and> length (cs ! j) = 297"
  shows "shared_from i (put_at c (cell_bytes k r) cs) old_node new_node (place_cell c k r i nodes)"
proof -
  let ?vs = "put_at c (cell_bytes k r) cs"
  obtain p q where n: "nodes = (p, q)" by (cases nodes)
  from sh n have lp: "length p = 4096" and lq: "length q = 4096"
    and P: "\<And>j. j < 13 \<Longrightarrow> lcells.cell j p = (if Suc i \<le> j \<and> j < 7 then ?vs ! j else lcells.cell j old_node)"
    and Q: "\<And>j. j < 7 \<Longrightarrow> Suc i \<le> j + 7 \<Longrightarrow> lcells.cell j q = ?vs ! (j + 7)"
    and H: "\<And>a m. a + m \<le> 18 \<Longrightarrow> slice a m p = slice a m old_node \<and> slice a m q = slice a m new_node"
    by (simp_all add: shared_from_def)
  have vi: "?vs ! i = (if i < c then cs ! i else if i = c then cell_bytes k r else cs ! (i - 1))"
    using c i cs(1) by (simp add: nth_put_at)
  have l297: "length (cs ! j) = 297" if "j < 13" for j using cs(2) [OF that] by blast
  have len: "length (?vs ! i) = 297" unfolding vi using l297 [of i] l297 [of "i - 1"] i c r
    by (cases "i < c"; cases "i = c") simp_all
  have w: "i mod 7 < 13" by (rule less_trans [of _ 7]) simp_all
  have dst: "(if i = c then set_leaf_key (i mod 7) k (serialize_row r (leaf_node_value (i mod 7)) d)
      else blit (leaf_node_cell (i mod 7)) (slice (leaf_node_cell (if i > c then i - 1 else i)) 297 p) d) =
    blit (18 + i mod 7 * 297) (?vs ! i) d" if "length d = 4096" for d
  proof (cases "i = c")
    case True
    then show ?thesis using write_row_then_key [OF r that w, of k] vi by simp
  next
    case False
    let ?j = "if i > c then i - 1 else i"
    have j: "?j < 13" "\<not> Suc i \<le> ?j" using i c False by auto
    have "slice (18 + ?j * 297) 297 p = lcells.cell ?j p" by (simp add: lcells.cell_def)
    also have "\<dots> = ?vs ! i" using P [OF j(1)] j(2) vi cs(2) [OF j(1)] False by auto
    finally show ?thesis using False by simp
  qed
  show ?thesis
  proof (cases "i \<ge> 7")
    case True
    have m: "i mod 7 = i - 7" using True i by (simp add: mod_if)
    have e: "place_cell c k r i nodes = (p, blit (18 + i mod 7 * 297) (?vs ! i) q)"
      unfolding place_cell_def n Let_def prod.case using True dst [OF lq] by (simp only: leaf_layout(2,4) if_True)
    note W = lcells.write_cell [OF lq _ w len]
    note B = lcells.write_before [OF lq w len]
    show ?thesis unfolding e shared_from_def prod.case
    proof (intro conjI allI impI)
      show "length (blit (18 + i mod 7 * 297) (?vs ! i) q) = 4096" using W(2) w by blast
      fix j assume j: "j < 7" "i \<le> j + 7"
      show "lcells.cell j (blit (18 + i mod 7 * 297) (?vs ! i) q) = ?vs ! (j + 7)"
        using W(1) [of j] Q [OF j(1)] j m True by (cases "j + 7 = i") auto
    next
      fix j :: nat assume "j < 13"
      then show "lcells.cell j p = (if i \<le> j \<and> j < 7 then ?vs ! j else lcells.cell j old_node)" using P [of j] True by auto
    qed (use lp H B in simp_all)
  next
    case False
    have m: "i mod 7 = i" using False by simp
    have e: "place_cell c k r i nodes = (blit (18 + i * 297) (?vs ! i) p, q)"
      unfolding place_cell_def n Let_def prod.case using False dst [OF lp] by (simp only: leaf_layout(2,4) if_False m)
    have i13: "i < 13" using False by simp
    note W = lcells.write_cell [OF lp _ i13 len]
    note B = lcells.write_before [OF lp i13 len]
    show ?thesis unfolding e shared_from_def prod.case
    proof (intro conjI allI impI)
      show "length (blit (18 + i * 297) (?vs ! i) p) = 4096" using W(2) i13 by blast
      fix j :: nat assume "j < 13"
      then show "lcells.cell j (blit (18 + i * 297) (?vs ! i) p) = (if i \<le> j \<and> j < 7 then ?vs ! j else lcells.cell j old_node)"
        using W(1) [of j] P [of j] False by auto
    next
      fix j assume j: "j < 7" "i \<le> j + 7"
      show "lcells.cell j q = ?vs ! (j + 7)" using Q [OF j(1)] False by simp
    qed (use lq H B in simp_all)
  qed
qed

lemma place_cells_shared:
  assumes "n \<le> 14" and start: "shared_from 14 (put_at c (cell_bytes k r) cs) old_node new_node nodes"
    and c: "c \<le> 13" and r: "row_ok r"
    and cs: "length cs = 13" "\<And>j. j < 13 \<Longrightarrow> cs ! j = lcells.cell j old_node \<and> length (cs ! j) = 297"
  shows "shared_from n (put_at c (cell_bytes k r) cs) old_node new_node (fold (place_cell c k r) (rev [n..<14]) nodes)"
  using assms(1)
proof (induction n rule: inc_induct)
  case (step n)
  have "rev [n..<14] = rev [Suc n..<14] @ [n]" using step.hyps by (simp add: upt_conv_Cons)
  then have "fold (place_cell c k r) (rev [n..<14]) nodes = place_cell c k r n (fold (place_cell c k r) (rev [Suc n..<14]) nodes)"
    by (simp only: fold_append fold.simps comp_apply id_apply)
  then show ?case using place_cell_shared [OF step.IH step.hyps(2) c r cs] by simp
qed (use start in simp)

section \<open>The redistribution\<close>

lemma redistribute_spec:
  assumes len: "length p = 4096" "length q = 4096" and full: "leaf_node_num_cells p = LEAF_NODE_MAX_CELLS"
    and c: "c \<le> LEAF_NODE_MAX_CELLS" and r: "row_ok r" and run: "redistribute c k r (p, q) = (p', q')"
  shows "length p' = 4096" "length q' = 4096" "leaf_cells p' = take 7 (put_at c (cell_bytes k r) (leaf_cells p))"
    "leaf_cells q' = drop 7 (put_at c (cell_bytes k r) (leaf_cells p))" "leaf_header p' = leaf_header p" "leaf_header q' = leaf_header q"
proof -
  let ?cs = "leaf_cells p" and ?vs = "put_at c (cell_bytes k r) (leaf_cells p)"
  have f13: "leaf_node_num_cells p = 13" using full by simp
  have cs: "length ?cs = 13" "\<And>j. j < 13 \<Longrightarrow> ?cs ! j = lcells.cell j p \<and> length (?cs ! j) = 297"
    using f13 len(1) by simp_all
  have start: "shared_from 14 ?vs p q (p, q)" using len by (simp add: shared_from_def)
  obtain p1 q1 where f: "fold (place_cell c k r) (rev [0..<14]) (p, q) = (p1, q1)" by (cases "fold (place_cell c k r) (rev [0..<14]) (p, q)")
  have c13: "c \<le> 13" using c by simp
  have S: "shared_from 0 ?vs p q (p1, q1)"
    using place_cells_shared [OF _ start c13 r cs, of 0] unfolding f by simp
  have fr: "redistribute c k r (p, q) = (set_num_cells 7 p1, set_num_cells 7 q1)"
    using f unfolding redistribute_def Let_def by (simp only: leaf_layout prod.case) simp
  then have e: "p' = wr32 6 7 p1" "q' = wr32 6 7 q1" using run by (simp_all add: set_num_cells_def)
  from S have l: "length p1 = 4096" "length q1 = 4096"
    and P: "\<And>j. j < 7 \<Longrightarrow> lcells.cell j p1 = ?vs ! j" and Q: "\<And>j. j < 7 \<Longrightarrow> lcells.cell j q1 = ?vs ! (j + 7)"
    and H: "\<And>a m. a + m \<le> 18 \<Longrightarrow> slice a m p1 = slice a m p \<and> slice a m q1 = slice a m q"
    by (simp_all add: shared_from_def)
  have six: "(6::nat) + 4 \<le> 18" by simp
  note A = wr32_fields [OF l(1) six, where v = 7, folded e] and B = wr32_fields [OF l(2) six, where v = 7, folded e]
  show "length p' = 4096" "length q' = 4096" using A(1) B(1) by simp_all
  have lv: "length ?vs = 14" using f13 by simp
  show "leaf_cells p' = take 7 ?vs"
    by (rule leaf_cells_eqI) (use lv A(2,3) P in \<open>simp_all add: leaf_node_num_cells_def\<close>)
  show "leaf_cells q' = drop 7 ?vs"
    by (rule leaf_cells_eqI) (use lv B(2,3) Q in \<open>simp_all add: leaf_node_num_cells_def add.commute\<close>)
  show "leaf_header p' = leaf_header p" "leaf_header q' = leaf_header q"
    using A(5) [of 0 6] A(5) [of 10 8] B(5) [of 0 6] B(5) [of 10 8] H by (simp_all add: leaf_header_def)
qed

section \<open>Header fields of leaves\<close>

lemma leaf_header_write:
  assumes len: "length q = 4096" and off: "off = 2 \<or> off = 10 \<or> off = 14"
  shows "length (wr32 off v q) = 4096" "leaf_cells (wr32 off v q) = leaf_cells q" "get_node_type (wr32 off v q) = get_node_type q"
    "is_node_root (wr32 off v q) = is_node_root q" "leaf_ok (wr32 off v q) = leaf_ok q" "leaf_node_num_cells (wr32 off v q) = leaf_node_num_cells q"
proof -
  have o: "off + 4 \<le> 18" "1 < off" "6 + 4 \<le> off \<or> off + 4 \<le> 6" using off by auto
  note F = wr32_fields [OF len o(1), where v = v]
  show l: "length (wr32 off v q) = 4096" by (rule F(1))
  show n: "leaf_node_num_cells (wr32 off v q) = leaf_node_num_cells q" using F(4) [of 6] o(3) by (simp add: leaf_node_num_cells_def)
  have cell: "lcells.cell i (wr32 off v q) = lcells.cell i q" for i
  proof -
    have "off + length (put_u32 v) \<le> length q" using o len by simp
    then show ?thesis unfolding wr32_def lcells.cell_def by (rule slice_blit_other) (use o in simp)
  qed
  show c: "leaf_cells (wr32 off v q) = leaf_cells q" by (simp add: leaf_cells_def n cell)
  show t: "get_node_type (wr32 off v q) = get_node_type q" "is_node_root (wr32 off v q) = is_node_root q"
    using F(6) [of 0] F(6) [of 1] o(2) by (simp_all add: get_node_type_def is_node_root_def node_layout)
  show "leaf_ok (wr32 off v q) = leaf_ok q" using l len n c t by (simp add: leaf_ok_def)
qed

lemma rows_of_cells: "leaf_cells q = leaf_cells p \<Longrightarrow> leaf_rows q = leaf_rows p"
  by (simp add: leaf_rows_def)

lemma initialize_leaf_spec:
  assumes len: "length q = 4096"
  shows "length (initialize_leaf_node q) = 4096" "get_node_type (initialize_leaf_node q) = NODE_LEAF"
    "\<not> is_node_root (initialize_leaf_node q)"
proof -
  define r where "r = set_node_root False (set_node_type NODE_LEAF q)"
  have r: "length r = 4096" "r ! 0 = NODE_LEAF" "r ! 1 = 0"
    using len by (simp_all add: r_def set_node_root_def set_node_type_def node_layout)
  define r1 where "r1 = wr32 6 0 r"
  have six: "(6::nat) + 4 \<le> 18" and ten: "(10::nat) + 4 \<le> 18" and ft: "(14::nat) + 4 \<le> 18" by simp_all
  note A = wr32_fields [OF r(1) six, where v = 0, folded r1_def]
  define r2 where "r2 = wr32 10 0 r1"
  note B = wr32_fields [OF A(1) ten, where v = 0, folded r2_def]
  define r3 where "r3 = wr32 14 0 r2"
  note C = wr32_fields [OF B(1) ft, where v = 0, folded r3_def]
  have e: "initialize_leaf_node q = r3"
    by (simp add: initialize_leaf_node_def r_def r1_def r2_def r3_def set_prev_leaf_def set_next_leaf_def set_num_cells_def)
  show "length (initialize_leaf_node q) = 4096" unfolding e by (rule C(1))
  show "get_node_type (initialize_leaf_node q) = NODE_LEAF" "\<not> is_node_root (initialize_leaf_node q)"
    using A(6) [of 0] A(6) [of 1] B(6) [of 0] B(6) [of 1] C(6) [of 0] C(6) [of 1] r
    by (simp_all add: e get_node_type_def is_node_root_def node_layout)
qed

section \<open>Halves\<close>

lemma drop_cell_bytes: "drop 4 (cell_bytes k r) = row_bytes r"
  by (simp add: cell_bytes_def)

text \<open>The halves of a split leaf: valid leaves with the cells shared out.\<close>

lemma halves_ok:
  assumes ok: "leaf_ok p" and full: "leaf_node_num_cells p = LEAF_NODE_MAX_CELLS" and at: "place_in_leaf p k c"
    and new: "k \<notin> set (leaf_keys p)" and k: "k < 2 ^ 32" and r: "row_ok r"
    and p': "length p' = 4096" "get_node_type p' = NODE_LEAF" "leaf_cells p' = take 7 (put_at c (cell_bytes k r) (leaf_cells p))"
    and q': "length q' = 4096" "get_node_type q' = NODE_LEAF" "leaf_cells q' = drop 7 (put_at c (cell_bytes k r) (leaf_cells p))"
  shows "leaf_ok p'" "leaf_ok q'" "leaf_keys p' = take 7 (put_at c k (leaf_keys p))" "leaf_keys q' = drop 7 (put_at c k (leaf_keys p))"
    "sorted_wrt (<) (put_at c k (leaf_keys p))" "leaf_rows p' \<union> leaf_rows q' = insert (k, row_bytes r) (leaf_rows p)"
    "leaf_node_num_cells p' = 7" "leaf_node_num_cells q' = 7"
proof -
  let ?vs = "put_at c (cell_bytes k r) (leaf_cells p)"
  have s: "sorted_wrt (<) (leaf_keys p)" using ok by (simp add: leaf_ok_def)
  have c: "c \<le> leaf_node_num_cells p" using at by (simp add: place_in_leaf_def)
  have f13: "leaf_node_num_cells p = 13" using full by simp
  have keys: "map cell_key ?vs = put_at c k (leaf_keys p)" by (simp only: map_put_at cell_key_bytes [OF k])
  show sv: "sorted_wrt (<) (put_at c k (leaf_keys p))"
  proof (rule sorted_wrt_put_at [OF s])
    show "leaf_keys p ! i < k" if "i < c" "i < length (leaf_keys p)" for i
      using place_in_leafD(1) [OF at that(1)] that by (simp add: leaf_key_cell)
    show "k < leaf_keys p ! i" if i: "c \<le> i" "i < length (leaf_keys p)" for i
    proof -
      have "k \<le> leaf_keys p ! i" using place_in_leafD(2) [OF at i(1)] i(2) by (simp add: leaf_key_cell)
      moreover have "leaf_keys p ! i \<noteq> k" using new nth_mem [OF i(2)] by metis
      ultimately show ?thesis by simp
    qed
  qed
  show pk: "leaf_keys p' = take 7 (put_at c k (leaf_keys p))" and qk: "leaf_keys q' = drop 7 (put_at c k (leaf_keys p))"
    by (simp_all only: p'(3) q'(3) keys [symmetric] take_map drop_map)
  show np: "leaf_node_num_cells p' = 7" and nq: "leaf_node_num_cells q' = 7"
    using arg_cong [OF p'(3), of length] arg_cong [OF q'(3), of length] f13 by simp_all
  show "leaf_ok p'" "leaf_ok q'"
    unfolding leaf_ok_def pk qk using p' q' np nq sv by (simp_all add: sorted_wrt_take sorted_wrt_drop)
  have "leaf_rows p' \<union> leaf_rows q' = (\<lambda>c. (cell_key c, drop 4 c)) ` set (take 7 ?vs @ drop 7 ?vs)"
    by (simp only: leaf_rows_def p'(3) q'(3) set_append image_Un)
  also have "\<dots> = (\<lambda>c. (cell_key c, drop 4 c)) ` insert (cell_bytes k r) (set (leaf_cells p))"
    using c by (simp add: set_put_at)
  also have "\<dots> = insert (k, row_bytes r) (leaf_rows p)"
    by (simp add: leaf_rows_def cell_key_bytes [OF k] drop_cell_bytes)
  finally show "leaf_rows p' \<union> leaf_rows q' = insert (k, row_bytes r) (leaf_rows p)" .
qed

lemma max_key_last:
  assumes "leaf_ok q" "0 < leaf_node_num_cells q"
  shows "get_node_max_key q = last (leaf_keys q)" "last (leaf_keys q) \<in> set (leaf_keys q)"
    "\<And>x. x \<in> set (leaf_keys q) \<Longrightarrow> x \<le> last (leaf_keys q)"
proof -
  have ne: "leaf_keys q \<noteq> []" using assms(2) by (auto simp: leaf_cells_def)
  then show "last (leaf_keys q) \<in> set (leaf_keys q)" by (rule last_in_set)
  from ne show "get_node_max_key q = last (leaf_keys q)"
    using assms by (simp add: get_node_max_key_def leaf_ok_def last_conv_nth leaf_key_cell)
  have "\<And>ks x. sorted_wrt (<) ks \<Longrightarrow> x \<in> set ks \<Longrightarrow> (x :: nat) \<le> last ks"
  proof -
    fix ks and x :: nat
    show "sorted_wrt (<) ks \<Longrightarrow> x \<in> set ks \<Longrightarrow> x \<le> last ks" by (induction ks) (auto intro: less_imp_le)
  qed
  then show "\<And>x. x \<in> set (leaf_keys q) \<Longrightarrow> x \<le> last (leaf_keys q)" using assms(1) by (auto simp: leaf_ok_def)
qed

text \<open>
  Splitting a full leaf of a tree of at most two levels, which are the trees the code can build: the tree
  stays well formed, the leaves stay linked, and the rows gain the new one.
\<close>

section \<open>Pages a tree may take\<close>

text \<open>\<open>U\<close> are the pages in use: the pager hands out none of them.\<close>

definition space :: "tree \<Rightarrow> nat set \<Rightarrow> bool" where
  "space s U \<longleftrightarrow> distinct (t_free_pages s) \<and> set (t_free_pages s) \<inter> U = {} \<and> (\<forall>n \<in> U \<union> set (t_free_pages s). n < t_num_pages s)"

lemma space_cong: "space s U \<Longrightarrow> t_free_pages s' = t_free_pages s \<Longrightarrow> t_num_pages s' = t_num_pages s \<Longrightarrow> space s' U"
  by (simp add: space_def)

lemma fetch_below: "n < t_num_pages s \<Longrightarrow> fetch n s = s"
  by (simp add: fetch_def max_def)

lemma fetch_used: "space s U \<Longrightarrow> n \<in> U \<Longrightarrow> fetch n s = s"
  by (rule fetch_below) (simp add: space_def)

lemma alloc_space:
  assumes sp: "space s U" and n: "t_num_pages s < INVALID_PAGE_NUM"
  obtains new s' where "alloc s = Inr (new, s')" "new \<notin> U" "new \<le> t_num_pages s" "space (fetch new s') (insert new U)"
    "t_num_pages (fetch new s') \<le> t_num_pages s + 1" "t_pages s' = t_pages s" "t_root s' = t_root s" "t_dirty s' = t_dirty s"
proof (cases "t_free_pages s" rule: rev_cases)
  case Nil
  have e: "fetch (t_num_pages s) s = s\<lparr>t_num_pages := t_num_pages s + 1\<rparr>" by (simp add: fetch_def max_def)
  show thesis
  proof (rule that [of "t_num_pages s" s])
    show "alloc s = Inr (t_num_pages s, s)" using n Nil by (simp add: alloc_def)
    show "t_num_pages s \<notin> U" using sp by (auto simp: space_def)
    show "space (fetch (t_num_pages s) s) (insert (t_num_pages s) U)" unfolding e using sp Nil by (auto simp: space_def)
  qed (simp_all add: e)
next
  case (snoc fs new)
  let ?s = "s\<lparr>t_free_pages := fs\<rparr>"
  have m: "new < t_num_pages s" "new \<notin> U" using sp snoc by (auto simp: space_def)
  have e: "fetch new ?s = ?s" by (rule fetch_below) (use m in simp)
  show thesis
  proof (rule that [of new ?s])
    show "alloc s = Inr (new, ?s)" using snoc by (simp add: alloc_def)
    show "space (fetch new ?s) (insert new U)" unfolding e using sp snoc by (auto simp: space_def)
  qed (use m in \<open>simp_all add: e\<close>)
qed

lemma wr32_reads:
  assumes "length q = 4096" "off + 4 \<le> 18" "v < 2 ^ 32"
  shows "rd32 off' (wr32 off v q) = (if off' = off then v else rd32 off' (wr32 off v q))"
  using wr32_fields(3) [OF assms] by simp

section \<open>The split of a leaf\<close>

definition half_links :: "bytes \<Rightarrow> bytes \<Rightarrow> bytes \<Rightarrow> nat \<Rightarrow> nat \<Rightarrow> bool" where
  "half_links p p' q' m new \<longleftrightarrow> is_node_root p' = is_node_root p \<and> node_parent p' = node_parent p \<and>
     leaf_node_next_leaf p' = new \<and> leaf_node_prev_leaf p' = leaf_node_prev_leaf p \<and>
     \<not> is_node_root q' \<and> node_parent q' = node_parent p \<and> leaf_node_next_leaf q' = leaf_node_next_leaf p \<and> leaf_node_prev_leaf q' = m"

lemma rd32_less: "rd32 off q < 2 ^ 32"
  unfolding rd32_def by (rule get_u32_less)

lemma header_reads:
  assumes "length q = 4096" "off = 2 \<or> off = 10 \<or> off = 14" "off' = 2 \<or> off' = 10 \<or> off' = 14" "v < 2 ^ 32"
  shows "rd32 off' (wr32 off v q) = (if off' = off then v else rd32 off' q)"
proof -
  have o: "off + 4 \<le> 18" "off' = off \<or> off' + 4 \<le> off \<or> off + 4 \<le> off'" using assms(2,3) by auto
  show ?thesis using wr32_fields(3) [OF assms(1) o(1) assms(4)] wr32_fields(4) [OF assms(1) o(1), of off' v] o(2) by auto
qed

lemma split_leaf_spec:
  assumes pages: "\<And>n. length (t_pages s n) = 4096" and ok: "leaf_ok (t_pages s m)"
    and full: "leaf_node_num_cells (t_pages s m) = LEAF_NODE_MAX_CELLS" and at: "place_in_leaf (t_pages s m) k (c_cell c)"
    and new: "k \<notin> set (leaf_keys (t_pages s m))" and k: "k < 2 ^ 32" and r: "row_ok r" and m: "c_page c = m"
    and sp: "space s U" "m \<in> U" "t_num_pages s < INVALID_PAGE_NUM"
    and right: "right = leaf_node_next_leaf (t_pages s m)" "right \<noteq> 0 \<Longrightarrow> right \<in> U \<and> right \<noteq> m"
  obtains new s' where "split_leaf c k r s = Inr (get_node_max_key (t_pages s m), new, s')" "new \<notin> U" "new < 2 ^ 32 - 1"
    "t_root s' = t_root s" "space s' (insert new U)" "t_num_pages s' \<le> t_num_pages s + 1"
    "\<And>n. n \<noteq> m \<Longrightarrow> n \<noteq> new \<Longrightarrow> t_pages s' n = (if n = right \<and> right \<noteq> 0 then set_prev_leaf new (t_pages s n) else t_pages s n)"
    "length (t_pages s' m) = 4096" "get_node_type (t_pages s' m) = NODE_LEAF"
    "leaf_cells (t_pages s' m) = take 7 (put_at (c_cell c) (cell_bytes k r) (leaf_cells (t_pages s m)))"
    "length (t_pages s' new) = 4096" "get_node_type (t_pages s' new) = NODE_LEAF"
    "leaf_cells (t_pages s' new) = drop 7 (put_at (c_cell c) (cell_bytes k r) (leaf_cells (t_pages s m)))"
    "half_links (t_pages s m) (t_pages s' m) (t_pages s' new) m new"
    "t_dirty s' m" "t_dirty s' new"
proof -
  let ?p = "t_pages s m"
  have f: "fetch m s = s" by (rule fetch_used [OF sp(1,2)])
  have spm: "space (mark m s) U" by (rule space_cong [OF sp(1)]) simp_all
  obtain new s2 where a: "alloc (mark m s) = Inr (new, s2)" "new \<notin> U" "new \<le> t_num_pages (mark m s)" "space (fetch new s2) (insert new U)"
    "t_num_pages (fetch new s2) \<le> t_num_pages (mark m s) + 1" "t_pages s2 = t_pages (mark m s)" "t_root s2 = t_root (mark m s)"
    "t_dirty s2 = t_dirty (mark m s)"
    by (rule alloc_space [OF spm]) (use sp(3) in simp_all)
  have nm: "new \<noteq> m" using a(2) sp(2) by blast
  have n32: "new < 2 ^ 32 - 1" using a(3) sp(3) by (simp add: INVALID_PAGE_NUM_def)
  have "m < t_num_pages s" using sp(1,2) by (simp add: space_def)
  then have m32: "m < 2 ^ 32" using sp(3) by (simp add: INVALID_PAGE_NUM_def)
  have r32: "right < 2 ^ 32" unfolding right(1) leaf_node_next_leaf_def by (rule rd32_less)
  define s3 where "s3 = mark new (poke new initialize_leaf_node (fetch new s2))"
  define s4 where "s4 = poke m (set_next_leaf new) (poke new (\<lambda>node. set_prev_leaf m (set_next_leaf right node)) s3)"
  define s5 where "s5 = (if right \<noteq> 0 then mark right (poke right (set_prev_leaf new) (fetch right s4)) else s4)"
  define s6 where "s6 = poke new (set_node_parent (node_parent (t_pages s5 m))) s5"
  define q0 where "q0 = initialize_leaf_node (t_pages s new)"
  define q1 where "q1 = wr32 10 right q0"
  define q2 where "q2 = wr32 14 m q1"
  define q3 where "q3 = set_node_parent (node_parent ?p) q2"
  have q3_wr: "q3 = wr32 2 (node_parent ?p) q2" by (simp only: q3_def set_node_parent_def internal_offsets)
  define p1 where "p1 = wr32 10 new ?p"
  have next3: "leaf_node_next_leaf (t_pages s3 m) = right" using nm a(6) right(1) by (simp add: s3_def)
  have s4p: "t_pages s4 = (t_pages s)(new := q2, m := p1)"
    using a(6) nm by (simp add: s4_def s3_def q0_def q1_def q2_def p1_def set_next_leaf_def set_prev_leaf_def fun_eq_iff)
  have rn: "right \<noteq> 0 \<Longrightarrow> right \<noteq> m \<and> right \<noteq> new" using right(2) a(2) by auto
  have s5p: "t_pages s5 n = (if n = m then p1 else if n = new then q2 else if n = right \<and> right \<noteq> 0 then set_prev_leaf new (t_pages s n) else t_pages s n)" for n
    using rn nm by (cases "right = 0") (auto simp: s5_def s4p)
  have two: "(2::nat) = 2 \<or> (2::nat) = 10 \<or> (2::nat) = 14" and ten: "(10::nat) = 2 \<or> (10::nat) = 10 \<or> (10::nat) = 14"
    and ft: "(14::nat) = 2 \<or> (14::nat) = 10 \<or> (14::nat) = 14" by simp_all
  have n32': "new < 2 ^ 32" using n32 by simp
  note H0 = initialize_leaf_spec [OF pages [of new], folded q0_def]
  note H1 = leaf_header_write [OF H0(1) ten, where v = right, folded q1_def]
  note H2 = leaf_header_write [OF H1(1) ft, where v = m, folded q2_def]
  note H3 = leaf_header_write [OF H2(1) two, where v = "node_parent ?p", folded q3_wr]
  note G1 = leaf_header_write [OF pages [of m] ten, where v = new, folded p1_def]
  have p32: "node_parent ?p < 2 ^ 32" unfolding node_parent_def by (rule rd32_less)
  have q3r: "rd32 2 q3 = node_parent ?p" "rd32 10 q3 = right" "rd32 14 q3 = m"
  proof -
    have q2: "rd32 14 q2 = m" unfolding q2_def by (subst header_reads [OF H1(1) ft ft m32]) simp
    have "rd32 10 q2 = rd32 10 q1" unfolding q2_def by (subst header_reads [OF H1(1) ft ten m32]) simp
    also have "\<dots> = right" unfolding q1_def by (subst header_reads [OF H0(1) ten ten r32]) simp
    finally have q2': "rd32 10 q2 = right" .
    show "rd32 2 q3 = node_parent ?p" unfolding q3_wr by (subst header_reads [OF H2(1) two two p32]) simp
    show "rd32 10 q3 = right" unfolding q3_wr by (subst header_reads [OF H2(1) two ten p32]) (simp add: q2')
    show "rd32 14 q3 = m" unfolding q3_wr by (subst header_reads [OF H2(1) two ft p32]) (simp add: q2)
  qed
  have p1r: "rd32 2 p1 = rd32 2 ?p" "rd32 10 p1 = new" "rd32 14 p1 = rd32 14 ?p"
  proof -
    show "rd32 2 p1 = rd32 2 ?p" unfolding p1_def by (subst header_reads [OF pages ten two n32']) simp
    show "rd32 10 p1 = new" unfolding p1_def by (subst header_reads [OF pages ten ten n32']) simp
    show "rd32 14 p1 = rd32 14 ?p" unfolding p1_def by (subst header_reads [OF pages ten ft n32']) simp
  qed
  have par: "node_parent (t_pages s5 m) = node_parent ?p"
    unfolding node_parent_def internal_offsets using s5p [of m] p1r(1) by (simp only: if_True simp_thms)
  have "s6 = poke new (set_node_parent (node_parent ?p)) s5" by (simp only: s6_def par)
  then have s6p: "t_pages s6 n = (if n = m then p1 else if n = new then q3 else if n = right \<and> right \<noteq> 0 then set_prev_leaf new (t_pages s n) else t_pages s n)" for n
    using nm by (simp add: s5p q3_def)
  obtain p' q' where rd: "redistribute (c_cell c) k r (p1, q3) = (p', q')" by (cases "redistribute (c_cell c) k r (p1, q3)")
  have cc: "c_cell c \<le> LEAF_NODE_MAX_CELLS" using at full by (simp add: place_in_leaf_def)
  have f1: "leaf_node_num_cells p1 = LEAF_NODE_MAX_CELLS" using G1(6) full by simp
  note R = redistribute_spec [OF G1(1) H3(1) f1 cc r rd]
  note hp = leaf_ok_header [OF R(5) G1(1) R(1)] and hq = leaf_ok_header [OF R(6) H3(1) R(2)]
  define s7 where "s7 = poke new (\<lambda>_. q') (poke m (\<lambda>_. p') s6)"
  have run: "split_leaf c k r s = Inr (get_node_max_key ?p, new, s7)"
    unfolding split_leaf_def Let_def m f a(1) and_then_Inr prod.case s3_def [symmetric] next3 s4_def [symmetric] s5_def [symmetric]
      s6_def [symmetric] s7_def using rd nm by (simp add: s6p)
  have sp3: "space s3 (insert new U)" by (rule space_cong [OF a(4)]) (simp_all add: s3_def)
  have sp4: "space s4 (insert new U)" by (rule space_cong [OF sp3]) (simp_all add: s4_def)
  have f4: "right \<noteq> 0 \<Longrightarrow> fetch right s4 = s4" by (rule fetch_used [OF sp4]) (use right(2) in simp)
  have sp7: "space s7 (insert new U)" by (rule space_cong [OF sp4]) (use f4 in \<open>simp_all add: s7_def s6_def s5_def\<close>)
  have num: "t_num_pages s7 = t_num_pages (fetch new s2)" using f4 by (simp add: s7_def s6_def s5_def s4_def s3_def)
  show thesis
  proof (rule that [OF run a(2) n32 _ sp7])
    show "t_root s7 = t_root s" using a(7) by (simp add: s7_def s6_def s5_def s4_def s3_def)
    show "t_num_pages s7 \<le> t_num_pages s + 1" using num a(5) by simp
    show "t_pages s7 n = (if n = right \<and> right \<noteq> 0 then set_prev_leaf new (t_pages s n) else t_pages s n)"
      if "n \<noteq> m" "n \<noteq> new" for n using that by (simp add: s7_def s6p)
    show "t_dirty s7 m" "t_dirty s7 new" using a(8) by (simp_all add: s7_def s6_def s5_def s4_def s3_def)
    show "half_links ?p (t_pages s7 m) (t_pages s7 new) m new"
      using nm hp hq G1(4) H0(3) H1(4) H2(4) H3(4) q3r p1r right(1)
      by (simp add: half_links_def s7_def node_parent_def leaf_node_next_leaf_def leaf_node_prev_leaf_def numeral_2_eq_2)
    show "get_node_type (t_pages s7 m) = NODE_LEAF" using nm hp(1) G1(3) ok by (simp add: s7_def leaf_ok_def)
    show "get_node_type (t_pages s7 new) = NODE_LEAF" using hq(1) H0(2) H1(3) H2(3) H3(3) by (simp add: s7_def)
  qed (use nm R G1(2) in \<open>simp_all add: s7_def\<close>)
qed

end
