(* ===== verification/BTreeRootSplit.thy ===== *)
theory BTreeRootSplit
  imports BTreeSplitBytes
begin

text \<open>
  The invariant of a table whose tree has at most two levels, and the split of its root leaf: the root
  page becomes an internal node over two fresh leaves.
\<close>

section \<open>The invariant\<close>

definition headers_ok :: "(nat \<Rightarrow> bytes) \<Rightarrow> shape \<Rightarrow> bool" where
  "headers_ok P sh \<longleftrightarrow> is_node_root (P (page_of sh)) \<and>
     (\<forall>n \<in> set (leaf_pages sh). n \<noteq> page_of sh \<longrightarrow> \<not> is_node_root (P n) \<and> node_parent (P n) = page_of sh)"

definition two_levels :: "shape \<Rightarrow> bool" where
  "two_levels sh \<longleftrightarrow> (\<exists>n. sh = Leaf_At n) \<or> (\<exists>p ns. sh = Node_At p (map Leaf_At ns) \<and> 1 < length ns)"

definition used_pages :: "shape \<Rightarrow> nat set" where
  "used_pages sh = insert 0 (set (leaf_pages sh) \<union> set (node_pages sh))"

definition table_ok :: "tree \<Rightarrow> shape \<Rightarrow> bool" where
  "table_ok s sh \<longleftrightarrow> tree_ok s sh \<and> linked s sh \<and> two_levels sh \<and> headers_ok (t_pages s) sh \<and>
     (\<forall>n. length (t_pages s n) = 4096) \<and> space s (used_pages sh)"

text \<open>The same for a root with leaves below it, spelled out.\<close>

definition two_level_ok :: "tree \<Rightarrow> nat \<Rightarrow> nat list \<Rightarrow> bool" where
  "two_level_ok s p ns \<longleftrightarrow> t_root s = p \<and> 1 < length ns \<and> distinct ns \<and> p \<notin> set ns \<and> 0 \<notin> set ns \<and>
     node_ok (t_pages s p) \<and> node_kids (t_pages s p) = ns \<and> is_node_root (t_pages s p) \<and>
     (\<forall>j<length ns. leaf_ok (t_pages s (ns ! j)) \<and> set (leaf_keys (t_pages s (ns ! j))) \<subseteq> route (t_pages s p) j) \<and>
     (\<forall>n \<in> set ns. \<not> is_node_root (t_pages s n) \<and> node_parent (t_pages s n) = p \<and> 0 < leaf_node_num_cells (t_pages s n)) \<and>
     chain (t_pages s) 0 ns \<and> (\<forall>n. length (t_pages s n) = 4096) \<and> space s (insert 0 (insert p (set ns)))"

lemma leaf_pages_leaves [simp]: "concat (map leaf_pages (map Leaf_At ns)) = ns" "concat (map node_pages (map Leaf_At ns)) = []"
  by (induction ns) simp_all

lemma leaf_pages_flat [simp]: "leaf_pages (Node_At p (map Leaf_At ns)) = ns" "node_pages (Node_At p (map Leaf_At ns)) = [p]"
  by (simp_all del: map_map)

lemma used_pages_flat: "used_pages (Node_At p (map Leaf_At ns)) = insert 0 (insert p (set ns))"
  unfolding used_pages_def leaf_pages_flat by auto

lemma table_ok_two_level: "table_ok s (Node_At p (map Leaf_At ns)) \<longleftrightarrow> two_level_ok s p ns"
proof
  assume T: "table_ok s (Node_At p (map Leaf_At ns))"
  then have t: "tree_ok s (Node_At p (map Leaf_At ns))" and l: "linked s (Node_At p (map Leaf_At ns))" and len: "1 < length ns"
    and h: "headers_ok (t_pages s) (Node_At p (map Leaf_At ns))" and pg: "\<forall>n. length (t_pages s n) = 4096"
    and sp: "space s (insert 0 (insert p (set ns)))"
    unfolding table_ok_def used_pages_flat by (auto simp: two_levels_def dest: map_eq_imp_length_eq)
  from t have wf: "well_formed (t_pages s) UNIV (Node_At p (map Leaf_At ns))" and d: "distinct ns" "p \<notin> set ns" and root: "t_root s = p"
    unfolding tree_ok_def leaf_pages_flat by auto
  from wf have ok: "node_ok (t_pages s p)" and n: "length ns = internal_node_num_keys (t_pages s p) + 1"
    and kid: "\<And>i. i < length ns \<Longrightarrow> child_at (t_pages s p) i = ns ! i"
    and sub: "\<And>i. i < length ns \<Longrightarrow> well_formed (t_pages s) (UNIV \<inter> route (t_pages s p) i) (Leaf_At (ns ! i))"
    by (auto elim!: well_formed_nodeE)
  have kids: "node_kids (t_pages s p) = ns" by (rule nth_equalityI) (use n kid in simp_all)
  have "\<forall>j<length ns. leaf_ok (t_pages s (ns ! j)) \<and> set (leaf_keys (t_pages s (ns ! j))) \<subseteq> route (t_pages s p) j"
    using sub by (auto elim!: well_formed_leafE)
  then show "two_level_ok s p ns"
    using root len d ok kids h l pg sp unfolding two_level_ok_def headers_ok_def linked_def leaf_pages_flat page_of.simps by auto
next
  assume T: "two_level_ok s p ns"
  then have n: "length ns = internal_node_num_keys (t_pages s p) + 1" unfolding two_level_ok_def by (metis length_node_lists(2))
  have "well_formed (t_pages s) UNIV (Node_At p (map Leaf_At ns))"
  proof (rule well_formed.node)
    show "length (map Leaf_At ns) = internal_node_num_keys (t_pages s p) + 1" using n by simp
    show "child_at (t_pages s p) i = page_of (map Leaf_At ns ! i)" if i: "i < length (map Leaf_At ns)" for i
    proof -
      have "node_kids (t_pages s p) ! i = ns ! i" using T unfolding two_level_ok_def by simp
      then show ?thesis using i n by simp
    qed
    show "well_formed (t_pages s) (UNIV \<inter> route (t_pages s p) i) (map Leaf_At ns ! i)" if i: "i < length (map Leaf_At ns)" for i
    proof -
      have "leaf_ok (t_pages s (ns ! i))" "set (leaf_keys (t_pages s (ns ! i))) \<subseteq> UNIV \<inter> route (t_pages s p) i"
        using T i unfolding two_level_ok_def length_map by blast+
      then have "well_formed (t_pages s) (UNIV \<inter> route (t_pages s p) i) (Leaf_At (ns ! i))" by (rule well_formed.leaf)
      then show ?thesis using i by simp
    qed
  qed (use T in \<open>simp add: two_level_ok_def\<close>)
  then have "tree_ok s (Node_At p (map Leaf_At ns))" using T unfolding tree_ok_def two_level_ok_def leaf_pages_flat by auto
  moreover have "linked s (Node_At p (map Leaf_At ns))" using T unfolding linked_def two_level_ok_def leaf_pages_flat by auto
  moreover have "two_levels (Node_At p (map Leaf_At ns))" using T unfolding two_levels_def two_level_ok_def by blast
  moreover have "headers_ok (t_pages s) (Node_At p (map Leaf_At ns))"
    using T unfolding headers_ok_def two_level_ok_def leaf_pages_flat page_of.simps by auto
  ultimately show "table_ok s (Node_At p (map Leaf_At ns))"
    using T unfolding table_ok_def two_level_ok_def used_pages_flat by blast
qed

section \<open>Bytes of the root split\<close>

lemma leaf_root_flag:
  assumes len: "length q = 4096"
  shows "length (set_node_root b q) = 4096" "leaf_cells (set_node_root b q) = leaf_cells q"
    "get_node_type (set_node_root b q) = get_node_type q" "is_node_root (set_node_root b q) = b"
    "rd32 off q = rd32 off (set_node_root b q) \<or> off \<le> 1" "leaf_ok (set_node_root b q) = leaf_ok q"
    "leaf_node_num_cells (set_node_root b q) = leaf_node_num_cells q"
proof -
  have sl: "slice a n (set_node_root b q) = slice a n q" if "1 < a" for a n
    unfolding set_node_root_def node_layout using that by (intro slice_update_other) simp
  show l: "length (set_node_root b q) = 4096" using len by (simp add: set_node_root_def)
  show "is_node_root (set_node_root b q) = b" using len by (simp add: is_node_root_def set_node_root_def node_layout)
  show t: "get_node_type (set_node_root b q) = get_node_type q" by (simp add: get_node_type_def set_node_root_def node_layout)
  show "rd32 off q = rd32 off (set_node_root b q) \<or> off \<le> 1" using sl [of off 4] by (cases "off \<le> 1") (simp_all add: rd32_def)
  show n: "leaf_node_num_cells (set_node_root b q) = leaf_node_num_cells q" using sl [of 6 4] by (simp add: leaf_node_num_cells_def rd32_def)
  show c: "leaf_cells (set_node_root b q) = leaf_cells q" by (simp add: leaf_cells_def n lcells.cell_def sl)
  show "leaf_ok (set_node_root b q) = leaf_ok q" using l len n c t by (simp add: leaf_ok_def)
qed

lemma new_root_spec:
  assumes len: "length q = 4096" and l: "left < 2 ^ 32" and k: "k < 2 ^ 32" and r: "right < 2 ^ 32"
    and q': "q' = set_right_child right (set_internal_key 0 k (set_internal_cell 0 left (set_num_keys 1 (set_node_root True (initialize_internal_node q)))))"
  shows "length q' = 4096" "get_node_type q' = NODE_INTERNAL" "is_node_root q'" "node_seps q' = [k]" "node_kids q' = [left, right]" "node_ok q'"
proof -
  define a where "a = set_node_root False (set_node_type NODE_INTERNAL q)"
  have a: "length a = 4096" "a ! 0 = NODE_INTERNAL" using len by (simp_all add: a_def set_node_root_def set_node_type_def node_layout)
  have six: "(6::nat) + 4 \<le> 18" and ten: "(10::nat) + 4 \<le> 18" by simp_all
  define b where "b = wr32 10 0 (wr32 6 0 a)"
  have b1: "length (wr32 6 0 a) = 4096" "wr32 6 0 a ! 0 = NODE_INTERNAL" using wr32_fields(1,6) [OF a(1) six, where v = 0] a(2) by simp_all
  have b: "length b = 4096" "b ! 0 = NODE_INTERNAL"
    using wr32_fields(1,6) [OF b1(1) ten, where v = 0] b1(2) by (simp_all add: b_def)
  define c where "c = set_node_root True b"
  have c: "length c = 4096" "c ! 0 = NODE_INTERNAL" "is_node_root c"
    using b by (simp_all add: c_def set_node_root_def is_node_root_def node_layout)
  define d where "d = wr32 6 1 c"
  note D = wr32_fields [OF c(1) six, where v = 1, folded d_def]
  define e where "e = set_internal_key 0 k (set_internal_cell 0 left d)"
  have zero: "(0::nat) < 510" by simp
  note E = write_icell_spec [OF D(1) zero k l e_def]
  have q'e: "q' = wr32 10 right e"
    by (simp add: q' e_def d_def c_def b_def a_def initialize_internal_node_def set_right_child_def set_num_keys_def)
  note F = wr32_fields [OF E(1) ten, where v = right, folded q'e]
  have i10: "(10::nat) = 2 \<or> (10::nat) = 6 \<or> (10::nat) = 10" by simp
  note G = internal_fields [OF E(1) i10, where v = right, folded q'e]
  show len': "length q' = 4096" by (rule F(1))
  have head: "slice 0 2 q' = slice 0 2 c" using F(5) [of 0 2] E(4) [of 0 2] D(5) [of 0 2] by simp
  have "q' ! i = c ! i" if "i < 2" for i
    using arg_cong [OF head, of "\<lambda>s. s ! i"] that c(1) len' by simp
  from this [of 0] this [of 1] show t: "get_node_type q' = NODE_INTERNAL" "is_node_root q'"
    using c by (simp_all add: get_node_type_def is_node_root_def node_layout)
  have num: "rd32 6 q' = 1"
  proof -
    have "rd32 6 q' = rd32 6 e" using F(4) [of 6] by simp
    also have "\<dots> = rd32 6 d" using E(4) [of 6 4] by (simp add: rd32_def)
    also have "\<dots> = 1" using D(3) by simp
    finally show ?thesis .
  qed
  have key: "internal_node_key q' 0 = k" and kid: "rd32 14 q' = left" using G(2) [of 0] G(3) [of 0] E(2) [of 0] E(3) [of 0] by simp_all
  have "node_seps q' = [k] \<and> node_kids q' = [left, right]"
    by (rule node_lists_eqI) (use num key kid F(3) r in \<open>simp_all add: num_keys_rd\<close>)
  then show s: "node_seps q' = [k]" and "node_kids q' = [left, right]" by simp_all
  show "node_ok q'" unfolding node_ok_seps using len' t(1) s num by (simp add: num_keys_rd)
qed


section \<open>The root leaf splits\<close>

lemma root_split_spec:
  assumes T: "table_ok s (Leaf_At m)" and find: "table_find k s = Some (Inr (Some c, s1))"
    and full: "leaf_node_num_cells (t_pages s m) = LEAF_NODE_MAX_CELLS"
    and new: "k \<notin> fst ` table_rows s (Leaf_At m)" and k: "k < 2 ^ 32" and r: "row_ok r"
    and room: "t_num_pages s + 2 \<le> INVALID_PAGE_NUM"
  shows "\<exists>s2 sh. leaf_node_insert fuel c k r s1 = Some (Inr s2) \<and> table_ok s2 sh \<and>
    table_rows s2 sh = insert (k, row_bytes r) (table_rows s (Leaf_At m))"
proof -
  let ?P = "t_pages s" and ?p = "t_pages s m"
  have ok: "tree_ok s (Leaf_At m)" and link: "linked s (Leaf_At m)" and hd: "is_node_root ?p" and pages: "\<And>n. length (?P n) = 4096"
    and sp: "space s (insert 0 {m})" and root: "t_root s = m"
    using T by (simp_all add: table_ok_def headers_ok_def tree_ok_def used_pages_def)
  note F = table_find_place [OF ok find]
  have cm: "c_page c = m" using F(1) by (auto elim: leads_to_leafE)
  have sz: "t_num_pages s1 = t_num_pages s \<and> t_free_pages s1 = t_free_pages s"
  proof -
    have "fetch m s = s" by (rule fetch_used [OF sp]) simp
    moreover have "get_node_type ?p = NODE_LEAF" using F(6) cm by (simp add: leaf_ok_def)
    ultimately show ?thesis using find root by (simp add: table_find_def Let_def leaf_node_find_def)
  qed
  define t where "t = mark m (fetch m s1)"
  have sp1: "space s1 (insert 0 {m})" by (rule space_cong [OF sp]) (use sz in simp_all)
  have f1: "fetch m s1 = s1" by (rule fetch_used [OF sp1]) simp
  have tp: "t_pages t = ?P" "t_root t = m" "t_num_pages t = t_num_pages s" using F(3,4) root sz f1 by (simp_all add: t_def)
  have spt: "space t (insert 0 {m})" by (rule space_cong [OF sp1]) (simp_all add: t_def f1)
  have keys: "k \<notin> set (leaf_keys ?p)" using new leaf_rows_keys [of ?p] by (simp add: table_rows_def rows_def)
  have nx: "leaf_node_next_leaf ?p = 0" "leaf_node_prev_leaf ?p = 0" using link by (simp_all add: linked_def)
  have pk: "leaf_ok (t_pages t m)" "place_in_leaf (t_pages t m) k (c_cell c)" using F(2,6) cm tp by simp_all
  obtain nw s' where S: "split_leaf c k r t = Inr (get_node_max_key (t_pages t m), nw, s')" "nw \<notin> insert 0 {m}" "nw < 2 ^ 32 - 1"
    "t_root s' = t_root t" "space s' (insert nw (insert 0 {m}))" "t_num_pages s' \<le> t_num_pages t + 1"
    "\<And>n. n \<noteq> m \<Longrightarrow> n \<noteq> nw \<Longrightarrow> t_pages s' n = (if n = 0 \<and> (0::nat) \<noteq> 0 then set_prev_leaf nw (t_pages t n) else t_pages t n)"
    "length (t_pages s' m) = 4096" "get_node_type (t_pages s' m) = NODE_LEAF"
    "leaf_cells (t_pages s' m) = take 7 (put_at (c_cell c) (cell_bytes k r) (leaf_cells (t_pages t m)))"
    "length (t_pages s' nw) = 4096" "get_node_type (t_pages s' nw) = NODE_LEAF"
    "leaf_cells (t_pages s' nw) = drop 7 (put_at (c_cell c) (cell_bytes k r) (leaf_cells (t_pages t m)))"
    "half_links (t_pages t m) (t_pages s' m) (t_pages s' nw) m nw"
    by (rule split_leaf_spec [of t m k c r "insert 0 {m}" 0]) (use pages tp full pk keys k r cm spt room nx in simp_all)
  let ?a = "t_pages s' m" and ?b = "t_pages s' nw"
  note H = halves_ok [OF pk(1) _ pk(2) _ k r S(8,9,10) S(11,12,13)]
  have full': "leaf_node_num_cells (t_pages t m) = LEAF_NODE_MAX_CELLS" using full tp by simp
  have keys': "k \<notin> set (leaf_keys (t_pages t m))" using keys tp by simp
  note H = H [OF full' keys']
  have nwm: "nw \<noteq> m" "nw \<noteq> 0" using S(2) by simp_all
  have rt: "t_root s' = m" using S(4) tp by simp
  have sp': "space (mark m s') (insert nw (insert 0 {m}))" by (rule space_cong [OF S(5)]) simp_all
  obtain left s3 where A: "alloc (mark m s') = Inr (left, s3)" "left \<notin> insert nw (insert 0 {m})" "left \<le> t_num_pages (mark m s')"
    "space (fetch left s3) (insert left (insert nw (insert 0 {m})))" "t_num_pages (fetch left s3) \<le> t_num_pages (mark m s') + 1"
    "t_pages s3 = t_pages (mark m s')" "t_root s3 = t_root (mark m s')" "t_dirty s3 = t_dirty (mark m s')"
    by (rule alloc_space [OF sp']) (use S(6) tp room in simp)
  have ne: "left \<noteq> nw" "left \<noteq> m" "left \<noteq> 0" using A(2) by simp_all
  have l32: "left < 2 ^ 32" "m < 2 ^ 32" using A(3) S(6) tp room spt by (auto simp: INVALID_PAGE_NUM_def space_def)
  have fe: "fetch m s' = s'" "fetch nw s' = s'" using fetch_used [OF S(5)] by simp_all
  define L where "L = set_node_parent m (set_node_root False ?a)"
  define B where "B = set_node_parent m (set_prev_leaf left ?b)"
  define mx where "mx = get_node_max_key L"
  define R where "R = set_right_child nw (set_internal_key 0 mx (set_internal_cell 0 left (set_num_keys 1 (set_node_root True (initialize_internal_node ?a)))))"
  note La = leaf_root_flag [OF S(8), where b = False]
  have two: "(2::nat) = 2 \<or> (2::nat) = 10 \<or> (2::nat) = 14" and ft: "(14::nat) = 2 \<or> (14::nat) = 10 \<or> (14::nat) = 14"
    and ten: "(10::nat) = 2 \<or> (10::nat) = 10 \<or> (10::nat) = 14" by simp_all
  have Lw: "L = wr32 2 m (set_node_root False ?a)" by (simp only: L_def set_node_parent_def internal_offsets)
  note Lb = leaf_header_write [OF La(1) two, where v = m, folded Lw]
  define b1 where "b1 = wr32 14 left ?b"
  note Ba = leaf_header_write [OF S(11) ft, where v = left, folded b1_def]
  have Bw: "B = wr32 2 m b1" by (simp add: B_def b1_def set_node_parent_def set_prev_leaf_def numeral_2_eq_2)
  note Bb = leaf_header_write [OF Ba(1) two, where v = m, folded Bw]
  have half: "leaf_node_next_leaf ?a = nw" "leaf_node_prev_leaf ?a = 0" "leaf_node_next_leaf ?b = 0"
    using S(14) nx tp by (simp_all add: half_links_def)
  have Lr: "node_parent L = m" "leaf_node_next_leaf L = nw" "leaf_node_prev_leaf L = 0"
  proof -
    show "node_parent L = m" unfolding node_parent_def internal_offsets Lw by (subst header_reads [OF La(1) two two l32(2)]) simp
    show "leaf_node_next_leaf L = nw" using La(5) [of 10] half(1)
      unfolding leaf_node_next_leaf_def leaf_layout Lw by (subst header_reads [OF La(1) two ten l32(2)]) simp
    show "leaf_node_prev_leaf L = 0" using La(5) [of 14] half(2)
      unfolding leaf_node_prev_leaf_def leaf_layout Lw by (subst header_reads [OF La(1) two ft l32(2)]) simp
  qed
  have Br: "node_parent B = m" "leaf_node_next_leaf B = 0" "leaf_node_prev_leaf B = left"
  proof -
    show "node_parent B = m" unfolding node_parent_def internal_offsets Bw by (subst header_reads [OF Ba(1) two two l32(2)]) simp
    have "rd32 10 b1 = 0" using half(3) unfolding b1_def leaf_node_next_leaf_def leaf_layout by (subst header_reads [OF S(11) ft ten l32(1)]) simp
    then show "leaf_node_next_leaf B = 0"
      unfolding leaf_node_next_leaf_def leaf_layout Bw by (subst header_reads [OF Ba(1) two ten l32(2)]) simp
    have "rd32 14 b1 = left" unfolding b1_def by (subst header_reads [OF S(11) ft ft l32(1)]) simp
    then show "leaf_node_prev_leaf B = left"
      unfolding leaf_node_prev_leaf_def leaf_layout Bw by (subst header_reads [OF Ba(1) two ft l32(2)]) simp
  qed
  have cells: "leaf_cells L = leaf_cells ?a" "leaf_cells B = leaf_cells ?b" using La(2) Lb(2) Ba(2) Bb(2) by simp_all
  have Lok: "leaf_ok L" "leaf_keys L = take 7 (put_at (c_cell c) k (leaf_keys ?p))" "leaf_rows L = leaf_rows ?a" "leaf_node_num_cells L = 7"
  proof -
    show "leaf_ok L" using H(1) La(6) Lb(5) by simp
    show "leaf_keys L = take 7 (put_at (c_cell c) k (leaf_keys ?p))" unfolding cells by (rule H(3) [unfolded tp(1)])
    show "leaf_rows L = leaf_rows ?a" by (rule rows_of_cells [OF cells(1)])
    show "leaf_node_num_cells L = 7" using H(7) La(7) Lb(6) by simp
  qed
  have Bok: "leaf_ok B" "leaf_keys B = drop 7 (put_at (c_cell c) k (leaf_keys ?p))" "leaf_rows B = leaf_rows ?b" "leaf_node_num_cells B = 7"
  proof -
    show "leaf_ok B" using H(2) Ba(5) Bb(5) by simp
    show "leaf_keys B = drop 7 (put_at (c_cell c) k (leaf_keys ?p))" unfolding cells by (rule H(4) [unfolded tp(1)])
    show "leaf_rows B = leaf_rows ?b" by (rule rows_of_cells [OF cells(2)])
    show "leaf_node_num_cells B = 7" using H(8) Ba(6) Bb(6) by simp
  qed
  have mx: "mx = last (leaf_keys L)" "mx \<in> set (leaf_keys L)" "\<And>x. x \<in> set (leaf_keys L) \<Longrightarrow> x \<le> mx"
    using max_key_last [OF Lok(1)] Lok(4) by (simp_all add: mx_def)
  have m32: "mx < 2 ^ 32" using mx(2) get_u32_less by (auto simp: cell_key_def)
  have n32: "nw < 2 ^ 32" using S(3) by simp
  note RS = new_root_spec [OF S(8) l32(1) m32 n32 R_def]
  have above: "mx < x" if "x \<in> set (leaf_keys B)" for x
    using H(5) mx(2) that tp unfolding Lok(2) Bok(2) by (metis append_take_drop_id sorted_wrt_append)
  define e where "e = poke m (\<lambda>_. R) (mark nw (poke nw (set_prev_leaf left) (poke left (\<lambda>_. L) (mark left (fetch left s3)))))"
  define s2 where "s2 = mark nw (poke nw (set_node_parent m) e)"
  have ty: "get_node_type L = NODE_LEAF" using Lok(1) by (simp add: leaf_ok_def)
  have create: "create_new_root nw s' = Inr s2"
    unfolding create_new_root_def Let_def rt fe A(1) and_then_Inr prod.case s2_def e_def R_def mx_def
    using A(6) ne nwm ty by (simp add: L_def [symmetric])
  have run: "leaf_node_insert fuel c k r s1 = Some (Inr s2)"
    using create S(1,14) full hd tp F(3) cm
    by (simp add: leaf_node_insert_def Let_def t_def [symmetric] leaf_node_split_and_insert_def half_links_def)
  have pg: "t_pages s2 = (t_pages s')(left := L, nw := B, m := R)"
    using A(6) ne nwm by (simp add: s2_def e_def B_def fun_eq_iff)
  have lens: "length (t_pages s2 n) = 4096" for n
    using S(7) [of n] S(8,11) pages [of n] Lok(1) Bok(1) RS(1) tp unfolding pg
    by (cases "n = m"; cases "n = nw"; cases "n = left") (simp_all add: leaf_ok_def)
  have "two_level_ok s2 m [left, nw]"
    unfolding two_level_ok_def
  proof (intro conjI)
    show "\<forall>j<length [left, nw]. leaf_ok (t_pages s2 ([left, nw] ! j)) \<and>
        set (leaf_keys (t_pages s2 ([left, nw] ! j))) \<subseteq> route (t_pages s2 m) j"
    proof (intro allI impI)
      fix j assume "j < length [left, nw]"
      moreover have "internal_node_num_keys R = 1" "internal_node_key R 0 = mx"
        using arg_cong [OF RS(4), of length] arg_cong [OF RS(4), of hd] by (simp_all add: node_seps_def)
      ultimately show "leaf_ok (t_pages s2 ([left, nw] ! j)) \<and> set (leaf_keys (t_pages s2 ([left, nw] ! j))) \<subseteq> route (t_pages s2 m) j"
        using Lok(1) Bok(1) mx(3) above ne nwm by (cases j) (auto simp: pg route_def)
    qed
    show "chain (t_pages s2) 0 [left, nw]" using Lr Br ne nwm by (simp add: pg)
    show "\<forall>n\<in>set [left, nw]. \<not> is_node_root (t_pages s2 n) \<and> node_parent (t_pages s2 n) = m \<and> 0 < leaf_node_num_cells (t_pages s2 n)"
      using Lr Br ne nwm La(4) Lb(4) Ba(4) Bb(4) S(14) Lok(4) Bok(4) by (simp add: pg half_links_def)
    show "space s2 (insert 0 (insert m (set [left, nw])))"
      by (rule space_cong [of "fetch left s3"])
        (use A(4) in \<open>simp_all add: s2_def e_def insert_commute\<close>)
    show "t_root s2 = m" using A(7) rt by (simp add: s2_def e_def)
  qed (use RS ne nwm lens in \<open>simp_all add: pg\<close>)
  then have "table_ok s2 (Node_At m (map Leaf_At [left, nw]))" by (simp only: table_ok_two_level)
  moreover have "table_rows s2 (Node_At m (map Leaf_At [left, nw])) = leaf_rows L \<union> leaf_rows B"
    using ne nwm unfolding table_rows_def rows_def leaf_pages_flat by (simp add: pg)
  then have "table_rows s2 (Node_At m (map Leaf_At [left, nw])) = insert (k, row_bytes r) (table_rows s (Leaf_At m))"
    using H(6) Lok(3) Bok(3) tp by (simp add: table_rows_def rows_def)
  ultimately show ?thesis using run by blast
qed

end
