(* ===== verification/BTreeParent.thy ===== *)
theory BTreeParent
  imports BTreeRootSplit
begin

text \<open>
  The split of a leaf below the root: the parent gains the new leaf behind the old one, with the largest
  key of the old half as the separator between them.
\<close>

section \<open>The parent\<close>

lemma put_at_after_update: "i < length xs \<Longrightarrow> put_at (Suc i) (xs ! i) (xs[i := y]) = put_at i y xs"
  by (rule nth_equalityI) (auto simp: nth_put_at nth_list_update less_Suc_eq)

lemma put_at_end: "put_at (length xs) x xs = xs @ [x]"
  by (simp add: put_at_def)

lemma head_bytes:
  assumes "slice 0 6 q' = slice 0 6 q" "length q = 4096" "length q' = 4096"
  shows "get_node_type q' = get_node_type q" "is_node_root q' = is_node_root q"
proof -
  have "slice 0 6 q' ! i = slice 0 6 q ! i" for i using assms(1) by simp
  from this [of 0] this [of 1] show "get_node_type q' = get_node_type q" "is_node_root q' = is_node_root q"
    using assms(2,3) by (simp_all add: get_node_type_def is_node_root_def node_layout)
qed

lemma parent_gains_child:
  assumes ok: "node_ok q" and n: "internal_node_num_keys q < 509" "i \<le> internal_node_num_keys q"
    and bound: "mx < 2 ^ 32" "cm < 2 ^ 32" "new < 2 ^ 32" and mc: "mx < cm"
    and below: "\<And>j. j < i \<Longrightarrow> node_seps q ! j < mx"
    and inner: "i < internal_node_num_keys q \<Longrightarrow> node_seps q ! i = cm \<and> old = cm \<and> cm < right_max"
    and outer: "i = internal_node_num_keys q \<Longrightarrow> right_max = mx \<and> mx \<le> old"
    and q1: "q1 = update_internal_node_key old mx q"
    and q2: "q2 = set_num_keys (internal_node_num_keys q + 1)
      (if cm > right_max then insert_behind_right right_max new q1 else insert_in_front cm new q1)"
  shows "internal_node_num_keys q1 = internal_node_num_keys q" "node_kids q1 = node_kids q"
    "node_seps q2 = put_at i mx (node_seps q)" "node_kids q2 = put_at (Suc i) new (node_kids q)"
    "node_ok q2" "is_node_root q2 = is_node_root q" "length q2 = 4096"
proof -
  let ?n = "internal_node_num_keys q" and ?ss = "node_seps q"
  have len: "length q = 4096" and srt: "sorted ?ss" and ty: "get_node_type q = NODE_INTERNAL" using ok by (simp_all add: node_ok_seps)
  have n509: "?n \<le> 509" using n by simp
  have "(internal_node_num_keys q1 = ?n \<and> node_kids q1 = node_kids q) \<and> node_seps q2 = put_at i mx ?ss \<and>
      node_kids q2 = put_at (Suc i) new (node_kids q) \<and> slice 0 6 q2 = slice 0 6 q \<and> length q2 = 4096"
  proof (cases "i < ?n")
    case True
    have at: "internal_node_key q i = old" using inner True by auto
    have before: "internal_node_key q j \<noteq> old" if "j < i" for j
      using below [OF that] inner [OF True] mc that True by auto
    note U = update_key_spec [OF len n509 bound(1) True at before q1]
    have n1: "internal_node_num_keys q1 = ?n" using arg_cong [OF U(2), of length] by simp
    have n1': "internal_node_num_keys q1 < 509" using n1 n by simp
    have cr: "\<not> cm > right_max" using inner [OF True] by simp
    have q2': "q2 = set_num_keys (internal_node_num_keys q1 + 1) (insert_in_front cm new q1)" using q2 n1 cr by simp
    define idx where "idx = first_not_less q1 cm [0..<internal_node_num_keys q1] (internal_node_num_keys q1)"
    note I = insert_in_front_spec [OF U(1) n1' bound(2,3) idx_def q2']
    have X: "idx \<le> ?n" "\<And>j. j < idx \<Longrightarrow> internal_node_key q1 j < cm" "idx < ?n \<Longrightarrow> cm \<le> internal_node_key q1 idx"
      using first_not_less_spec [of "[0..<internal_node_num_keys q1]" 0 "internal_node_num_keys q1" q1 cm] n1 by (auto simp: idx_def)
    have key1: "internal_node_key q1 j = ?ss[i := mx] ! j" if "j < ?n" for j
      using nth_node_lists(1) [of j q1] U(2) n1 that by simp
    have small: "internal_node_key q1 j < cm" if "j \<le> i" for j
      using key1 [of j] that True below [of j] mc by (cases "j = i") auto
    have "i < idx"
    proof (rule ccontr)
      assume "\<not> i < idx"
      then show False using small [of idx] X(3) True by simp
    qed
    moreover have "\<not> Suc i < idx"
    proof
      assume a: "Suc i < idx"
      then have "internal_node_key q1 (Suc i) < cm" "Suc i < ?n" using X by auto
      then have "?ss ! Suc i < ?ss ! i" using key1 [of "Suc i"] inner [OF True] by simp
      then show False using sorted_nth_mono [OF srt, of i "Suc i"] \<open>Suc i < ?n\<close> by simp
    qed
    ultimately have idx: "idx = Suc i" by simp
    have "put_at idx cm (node_seps q1) = put_at i mx ?ss"
      using put_at_after_update [of i ?ss mx] inner [OF True] True by (simp add: idx U(2))
    then show ?thesis using I U n1 idx by simp
  next
    case False
    then have i: "i = ?n" using n by simp
    have "q1 = q" unfolding q1
    proof (rule update_key_none)
      show "internal_node_key q j \<noteq> old" if "j < ?n" for j using below [of j] outer [OF i] that i by auto
    qed
    have q2': "q2 = set_num_keys (?n + 1) (insert_behind_right mx new q)" using q2 outer [OF i] mc \<open>q1 = q\<close> by simp
    note B = insert_behind_right_spec [OF len n(1) bound(1,3) q2']
    show ?thesis using B \<open>q1 = q\<close> i put_at_end [of ?ss mx] put_at_end [of "node_kids q" new] by simp
  qed
  then have r: "internal_node_num_keys q1 = ?n" "node_kids q1 = node_kids q" "node_seps q2 = put_at i mx ?ss"
    "node_kids q2 = put_at (Suc i) new (node_kids q)" "slice 0 6 q2 = slice 0 6 q" "length q2 = 4096" by blast+
  then show "internal_node_num_keys q1 = ?n" "node_kids q1 = node_kids q" "node_seps q2 = put_at i mx ?ss"
    "node_kids q2 = put_at (Suc i) new (node_kids q)" "length q2 = 4096" by blast+
  note hd = head_bytes [OF r(5) len r(6)]
  show "is_node_root q2 = is_node_root q" by (rule hd(2))
  have "sorted (put_at i mx ?ss)"
  proof (rule sorted_wrt_put_at [OF srt])
    show "?ss ! j \<le> mx" if "j < i" "j < length ?ss" for j using below [OF that(1)] by simp
    show "mx \<le> ?ss ! j" if "i \<le> j" "j < length ?ss" for j
    proof -
      have "?ss ! i \<le> ?ss ! j" using sorted_nth_mono [OF srt that] .
      moreover have "?ss ! i = cm" using inner that by simp
      ultimately show ?thesis using mc by simp
    qed
  qed
  moreover have "internal_node_num_keys q2 = Suc ?n" using arg_cong [OF r(3), of length] by simp
  ultimately show "node_ok q2" unfolding node_ok_seps using r(3,6) hd(1) ty n(1) by simp
qed

section \<open>The chain by position\<close>

lemma chain_iff:
  "chain P p ns \<longleftrightarrow> (\<forall>j<length ns. leaf_node_prev_leaf (P (ns ! j)) = (if j = 0 then p else ns ! (j - 1)) \<and>
     leaf_node_next_leaf (P (ns ! j)) = (if Suc j < length ns then ns ! Suc j else 0))"
proof (induction ns arbitrary: p)
  case (Cons n ns)
  have "chain P p (n # ns) \<longleftrightarrow> leaf_node_prev_leaf (P n) = p \<and> leaf_node_next_leaf (P n) = (if 0 < length ns then ns ! 0 else 0) \<and> chain P n ns"
    by (cases ns) simp_all
  also have "\<dots> \<longleftrightarrow> (\<forall>j<length (n # ns). leaf_node_prev_leaf (P ((n # ns) ! j)) = (if j = 0 then p else (n # ns) ! (j - 1)) \<and>
     leaf_node_next_leaf (P ((n # ns) ! j)) = (if Suc j < length (n # ns) then (n # ns) ! Suc j else 0))"
    unfolding Cons.IH All_less_Suc2 length_Cons by (auto simp: nth_Cons')
  finally show ?case .
qed simp

end
