(* ===== verification/BTreeLeafSplit.thy ===== *)
theory BTreeLeafSplit
  imports BTreeParent
begin

text \<open>
  A leaf below the root splits, and the three cases of an insertion together.
\<close>

lemma in_set_put_at: "i \<le> length xs \<Longrightarrow> set (put_at i x xs) = insert x (set xs)"
  by (rule set_put_at)

lemma distinct_put_at: "i \<le> length xs \<Longrightarrow> distinct (put_at i x xs) \<longleftrightarrow> distinct xs \<and> x \<notin> set xs"
proof -
  assume i: "i \<le> length xs"
  have "distinct (as @ x # bs) \<longleftrightarrow> distinct (as @ bs) \<and> x \<notin> set (as @ bs)" for as bs by auto
  from this [of "take i xs" "drop i xs"] show ?thesis by (simp add: put_at_def)
qed

lemma leaf_key_less: "x \<in> set (leaf_keys q) \<Longrightarrow> x < 2 ^ 32"
proof -
  assume "x \<in> set (leaf_keys q)"
  then obtain c where "x = get_u32 (slice 0 4 c)" by (auto simp: cell_key_def)
  then show "x < 2 ^ 32" by (simp only: get_u32_less)
qed

text \<open>The state before the parent is changed and after: what a split below the root amounts to.\<close>

definition exact_separator :: "tree \<Rightarrow> nat \<Rightarrow> nat \<Rightarrow> bool" where
  "exact_separator s p m \<longleftrightarrow> (\<forall>i<internal_node_num_keys (t_pages s p).
     child_at (t_pages s p) i = m \<longrightarrow> internal_node_key (t_pages s p) i = get_node_max_key (t_pages s m))"

lemma routes_after_split:
  assumes ok: "node_ok q" "node_ok q2" and seps: "node_seps q2 = put_at i mx (node_seps q)" and i: "i \<le> internal_node_num_keys q"
    and n2: "internal_node_num_keys q2 = Suc (internal_node_num_keys q)" and j: "j \<le> internal_node_num_keys q2" and jj: "j' \<le> internal_node_num_keys q"
    and x: "x \<in> route q j'" and cases: "j < i \<and> j' = j \<or> j = i \<and> j' = i \<and> x \<le> mx \<or> j = Suc i \<and> j' = i \<and> mx < x \<or> Suc i < j \<and> j' = j - 1"
  shows "x \<in> route q2 j"
proof -
  let ?n = "internal_node_num_keys q" and ?ss = "node_seps q"
  have X: "j' = 0 \<or> ?ss ! (j' - 1) < x" "j' = ?n \<or> x \<le> ?ss ! j'" using x route_iff [OF ok(1) jj] by simp_all
  have nth: "put_at i mx ?ss ! l = (if l < i then ?ss ! l else if l = i then mx else ?ss ! (l - 1))" if "l \<le> ?n" for l
    using nth_put_at [of i ?ss l mx] i that by simp
  have "j = 0 \<or> put_at i mx ?ss ! (j - 1) < x"
    using X(1) nth [of "j - 1"] j n2 cases by (cases j) auto
  moreover have "j = Suc ?n \<or> x \<le> put_at i mx ?ss ! j"
    using X(2) nth [of j] j n2 cases i by (cases "j = Suc ?n") auto
  ultimately show ?thesis using route_iff [OF ok(2) j] seps n2 by simp
qed

lemma chain_after_split:
  assumes ch: "chain P 0 ns" and d: "distinct ns" "0 \<notin> set ns" and i: "i < length ns" "m = ns ! i" and new: "new \<notin> set ns" "new \<noteq> 0"
    and right: "right = leaf_node_next_leaf (P m)"
    and other: "\<And>n. n \<in> set ns \<Longrightarrow> n \<noteq> m \<Longrightarrow> leaf_node_next_leaf (P' n) = leaf_node_next_leaf (P n) \<and>
      leaf_node_prev_leaf (P' n) = (if n = right then new else leaf_node_prev_leaf (P n))"
    and m': "leaf_node_next_leaf (P' m) = new" "leaf_node_prev_leaf (P' m) = leaf_node_prev_leaf (P m)"
    and n': "leaf_node_next_leaf (P' new) = right" "leaf_node_prev_leaf (P' new) = m"
  shows "chain P' 0 (put_at (Suc i) new ns)"
proof -
  have C: "leaf_node_prev_leaf (P (ns ! j)) = (if j = 0 then 0 else ns ! (j - 1))"
    "leaf_node_next_leaf (P (ns ! j)) = (if Suc j < length ns then ns ! Suc j else 0)" if "j < length ns" for j
    using ch that unfolding chain_iff by blast+
  have r: "right = (if Suc i < length ns then ns ! Suc i else 0)" using C(2) [OF i(1)] right i(2) by simp
  have nth: "put_at (Suc i) new ns ! j = (if j \<le> i then ns ! j else if j = Suc i then new else ns ! (j - 1))" if "j \<le> length ns" for j
    using nth_put_at [of "Suc i" ns j new] i that by (auto simp: less_Suc_eq_le)
  have eq: "ns ! a = ns ! b \<longleftrightarrow> a = b" if "a < length ns" "b < length ns" for a b using nth_eq_iff_index_eq [OF d(1) that] .
  have isr: "ns ! j = right \<longleftrightarrow> j = Suc i" if "j < length ns" for j
  proof (cases "Suc i < length ns")
    case True
    then show ?thesis using r eq [OF that True] by simp
  next
    case False
    then have "j \<noteq> Suc i" "right = 0" using that r by simp_all
    then show ?thesis using d(2) nth_mem [OF that] by metis
  qed
  show ?thesis unfolding chain_iff
  proof (intro allI impI)
    fix j assume "j < length (put_at (Suc i) new ns)"
    then have j: "j \<le> length ns" by simp
    consider "j < i" | "j = i" | "j = Suc i" | "Suc i < j" by linarith
    then show "leaf_node_prev_leaf (P' (put_at (Suc i) new ns ! j)) = (if j = 0 then 0 else put_at (Suc i) new ns ! (j - 1)) \<and>
      leaf_node_next_leaf (P' (put_at (Suc i) new ns ! j)) = (if Suc j < length (put_at (Suc i) new ns) then put_at (Suc i) new ns ! Suc j else 0)"
    proof cases
      case 1
      then have jl: "j < length ns" "ns ! j \<noteq> m" "ns ! j \<noteq> right" using i eq [of j i] isr [of j] by auto
      then show ?thesis using other [OF nth_mem [OF jl(1)] jl(2)] C [OF jl(1)] nth [OF j] nth [of "j - 1"] nth [of "Suc j"] 1 i by auto
    next
      case 2
      then show ?thesis using m' C(1) [OF i(1)] i nth [OF j] nth [of "j - 1"] nth [of "Suc j"] by auto
    next
      case 3
      then show ?thesis using n' r i nth [OF j] nth [of "j - 1"] nth [of "Suc j"] by auto
    next
      case 4
      then have jl: "j - 1 < length ns" "ns ! (j - 1) \<noteq> m" using i eq [of "j - 1" i] j by auto
      have rj: "ns ! (j - 1) = right \<longleftrightarrow> j = Suc (Suc i)" using isr [OF jl(1)] 4 by auto
      show ?thesis using other [OF nth_mem [OF jl(1)] jl(2)] C [OF jl(1)] nth [OF j] nth [of "j - 1"] nth [of "Suc j"] 4 i j rj
        by auto
    qed
  qed
qed


lemma two_level_find_state:
  assumes two: "two_level_ok s p ns" and find: "table_find k s = Some (Inr (x, s1))"
  shows "s1 = s"
proof -
  have root: "t_root s = p" and qok: "node_ok (t_pages s p)" and kids: "node_kids (t_pages s p) = ns"
    and leaves: "\<And>j. j < length ns \<Longrightarrow> leaf_ok (t_pages s (ns ! j))" and sp: "space s (insert 0 (insert p (set ns)))"
    using two unfolding two_level_ok_def by blast+
  let ?q = "t_pages s p" let ?j = "find_child_loop ?q k 0 (internal_node_num_keys ?q)"
  have n: "length ns = Suc (internal_node_num_keys ?q)" using arg_cong [OF kids, of length] by simp
  have j: "?j < length ns" using find_child_routes(1) [OF qok, of k] n by simp
  obtain off where off: "internal_node_find_child ?q k = Inr off" "rd32 off ?q = ns ! ?j"
    using find_child_child_at [OF qok, of k] kids find_child_routes(1) [OF qok, of k] nth_node_lists(2) [of ?j ?q] by auto
  have f: "fetch p s = s" "fetch (ns ! ?j) s = s" using fetch_used [OF sp] nth_mem [OF j] by simp_all
  have ty: "get_node_type ?q \<noteq> NODE_LEAF" "get_node_type (t_pages s (ns ! ?j)) = NODE_LEAF"
    using qok leaves [OF j] by (auto simp: node_ok_def leaf_ok_def NODE_LEAF_def NODE_INTERNAL_def)
  have "table_find k s = internal_node_find p k s" using root ty f by (simp add: table_find_def Let_def)
  also have "\<dots> = (case leaf_node_find (ns ! ?j) k s of (c, s3) \<Rightarrow> Some (Inr (Some c, s3)))"
    using off ty f by (subst internal_node_find.simps) (simp add: Let_def)
  finally show ?thesis using find f by (simp add: leaf_node_find_def Let_def)
qed

text \<open>How the keys of the halves lie: \<open>old\<close> is the largest key before, \<open>mx\<close> and \<open>cm\<close> are the largest keys of
  the left and the right half.\<close>

definition halves_order :: "nat \<Rightarrow> bytes \<Rightarrow> bytes \<Rightarrow> bytes \<Rightarrow> bool" where
  "halves_order k p a b \<longleftrightarrow> (let mx = get_node_max_key a; cm = get_node_max_key b; old = get_node_max_key p in
     set (leaf_keys a) \<union> set (leaf_keys b) = insert k (set (leaf_keys p)) \<and> mx \<in> set (leaf_keys a) \<and> cm \<in> set (leaf_keys b) \<and>
     (\<forall>x\<in>set (leaf_keys a). x \<le> mx) \<and> (\<forall>x\<in>set (leaf_keys b). mx < x) \<and> mx < cm \<and> mx \<le> old \<and> (k \<le> old \<longrightarrow> cm = old))"

lemma halves_order:
  assumes ok: "leaf_ok p" "leaf_ok a" "leaf_ok b" and num: "0 < leaf_node_num_cells p" "0 < leaf_node_num_cells a" "0 < leaf_node_num_cells b"
    and c: "c \<le> leaf_node_num_cells p" and keys: "leaf_keys a = take 7 (put_at c k (leaf_keys p))" "leaf_keys b = drop 7 (put_at c k (leaf_keys p))"
    and srt: "sorted_wrt (<) (put_at c k (leaf_keys p))"
  shows "halves_order k p a b"
proof -
  let ?vs = "put_at c k (leaf_keys p)"
  let ?old = "get_node_max_key p" and ?mx = "get_node_max_key a" and ?cm = "get_node_max_key b"
  note MA = max_key_last [OF ok(2) num(2)] and MB = max_key_last [OF ok(3) num(3)] and MP = max_key_last [OF ok(1) num(1)]
  have vset: "set ?vs = insert k (set (leaf_keys p))" by (rule in_set_put_at) (use c in simp)
  have parts: "set ?vs = set (leaf_keys a) \<union> set (leaf_keys b)" unfolding keys by (metis append_take_drop_id set_append)
  have cross: "x < y" if "x \<in> set (leaf_keys a)" "y \<in> set (leaf_keys b)" for x y
    using srt that unfolding keys by (metis append_take_drop_id sorted_wrt_append)
  have mx: "?mx \<in> set (leaf_keys a)" "\<And>x. x \<in> set (leaf_keys a) \<Longrightarrow> x \<le> ?mx" using MA by simp_all
  have cm: "?cm \<in> set (leaf_keys b)" "\<And>x. x \<in> set (leaf_keys b) \<Longrightarrow> x \<le> ?cm" using MB by simp_all
  have old: "?old \<in> set (leaf_keys p)" "\<And>x. x \<in> set (leaf_keys p) \<Longrightarrow> x \<le> ?old" using MP by simp_all
  have mc: "?mx < ?cm" by (rule cross [OF mx(1) cm(1)])
  have top: "x \<le> ?cm" if "x \<in> set ?vs" for x using that parts cm(2) cross [OF _ cm(1)] by (auto intro: less_imp_le)
  have mxv: "?mx \<in> set ?vs" "?cm \<in> set ?vs" using mx(1) cm(1) parts by auto
  have "?mx \<le> ?old"
  proof (cases "?cm = k")
    case True
    then have "?mx \<in> set (leaf_keys p)" using mc mxv(1) vset by auto
    then show ?thesis by (rule old(2))
  next
    case False
    then have "?cm \<le> ?old" using mxv(2) vset old(2) by auto
    then show ?thesis using mc by simp
  qed
  moreover have "?cm = ?old" if "k \<le> ?old"
  proof -
    have "?cm \<le> ?old" using mxv(2) vset old(2) that by auto
    moreover have "?old \<le> ?cm" using top old(1) vset by blast
    ultimately show ?thesis by simp
  qed
  ultimately show ?thesis unfolding halves_order_def Let_def using parts vset mx cm cross [OF mx(1)] mc by blast
qed

lemma set_prev_leaf_spec:
  assumes len: "length q = 4096" and v: "v < 2 ^ 32" and q': "q' = set_prev_leaf v q"
  shows "length q' = 4096" "leaf_cells q' = leaf_cells q" "is_node_root q' = is_node_root q" "leaf_ok q' = leaf_ok q"
    "leaf_node_num_cells q' = leaf_node_num_cells q" "node_parent q' = node_parent q" "leaf_node_next_leaf q' = leaf_node_next_leaf q"
    "leaf_node_prev_leaf q' = v"
proof -
  have e: "q' = wr32 14 v q" by (simp add: q' set_prev_leaf_def)
  have ft: "(14::nat) = 2 \<or> (14::nat) = 10 \<or> (14::nat) = 14" and ten: "(10::nat) = 2 \<or> (10::nat) = 10 \<or> (10::nat) = 14"
    and tw: "(2::nat) = 2 \<or> (2::nat) = 10 \<or> (2::nat) = 14" by simp_all
  note W = leaf_header_write [OF len ft, where v = v, folded e]
  show "length q' = 4096" "leaf_cells q' = leaf_cells q" "is_node_root q' = is_node_root q" "leaf_ok q' = leaf_ok q"
    "leaf_node_num_cells q' = leaf_node_num_cells q" using W by simp_all
  show "node_parent q' = node_parent q" unfolding node_parent_def internal_offsets e by (subst header_reads [OF len ft tw v]) simp
  show "leaf_node_next_leaf q' = leaf_node_next_leaf q"
    unfolding leaf_node_next_leaf_def leaf_layout e by (subst header_reads [OF len ft ten v]) simp
  show "leaf_node_prev_leaf q' = v" unfolding leaf_node_prev_leaf_def leaf_layout e by (subst header_reads [OF len ft ft v]) simp
qed

lemma set_node_parent_spec:
  assumes len: "length q = 4096" and v: "v < 2 ^ 32" and q': "q' = set_node_parent v q"
  shows "length q' = 4096" "leaf_cells q' = leaf_cells q" "is_node_root q' = is_node_root q" "leaf_ok q' = leaf_ok q"
    "leaf_node_num_cells q' = leaf_node_num_cells q" "node_parent q' = v" "leaf_node_next_leaf q' = leaf_node_next_leaf q"
    "leaf_node_prev_leaf q' = leaf_node_prev_leaf q"
proof -
  have e: "q' = wr32 2 v q" by (simp only: q' set_node_parent_def internal_offsets)
  have ft: "(14::nat) = 2 \<or> (14::nat) = 10 \<or> (14::nat) = 14" and ten: "(10::nat) = 2 \<or> (10::nat) = 10 \<or> (10::nat) = 14"
    and tw: "(2::nat) = 2 \<or> (2::nat) = 10 \<or> (2::nat) = 14" by simp_all
  note W = leaf_header_write [OF len tw, where v = v, folded e]
  show "length q' = 4096" "leaf_cells q' = leaf_cells q" "is_node_root q' = is_node_root q" "leaf_ok q' = leaf_ok q"
    "leaf_node_num_cells q' = leaf_node_num_cells q" using W by simp_all
  show "node_parent q' = v" unfolding node_parent_def internal_offsets e by (subst header_reads [OF len tw tw v]) simp
  show "leaf_node_next_leaf q' = leaf_node_next_leaf q"
    unfolding leaf_node_next_leaf_def leaf_layout e by (subst header_reads [OF len tw ten v]) simp
  show "leaf_node_prev_leaf q' = leaf_node_prev_leaf q"
    unfolding leaf_node_prev_leaf_def leaf_layout e by (subst header_reads [OF len tw ft v]) simp
qed

section \<open>A leaf below the root\<close>

text \<open>What holds once the cells of the full leaf \<open>m\<close> are shared out with the new leaf \<open>nw\<close>.\<close>

definition split_done :: "tree \<Rightarrow> nat \<Rightarrow> nat list \<Rightarrow> nat \<Rightarrow> nat \<Rightarrow> row \<Rightarrow> nat \<Rightarrow> tree \<Rightarrow> bool" where
  "split_done s p ns m k r nw s' \<longleftrightarrow>
     nw \<notin> insert 0 (insert p (set ns)) \<and> nw < 2 ^ 32 \<and> t_root s' = p \<and> space s' (insert nw (insert 0 (insert p (set ns)))) \<and>
     t_pages s' p = t_pages s p \<and> (\<forall>n. length (t_pages s' n) = 4096) \<and>
     leaf_ok (t_pages s' m) \<and> leaf_ok (t_pages s' nw) \<and>
     leaf_node_num_cells (t_pages s' m) = 7 \<and> leaf_node_num_cells (t_pages s' nw) = 7 \<and>
     halves_order k (t_pages s m) (t_pages s' m) (t_pages s' nw) \<and>
     leaf_rows (t_pages s' m) \<union> leaf_rows (t_pages s' nw) = insert (k, row_bytes r) (leaf_rows (t_pages s m)) \<and>
     half_links (t_pages s m) (t_pages s' m) (t_pages s' nw) m nw \<and>
     (\<forall>l\<in>set ns. l \<noteq> m \<longrightarrow> leaf_ok (t_pages s' l) \<and> leaf_cells (t_pages s' l) = leaf_cells (t_pages s l) \<and>
        leaf_node_num_cells (t_pages s' l) = leaf_node_num_cells (t_pages s l) \<and>
        \<not> is_node_root (t_pages s' l) \<and> node_parent (t_pages s' l) = p \<and>
        leaf_node_next_leaf (t_pages s' l) = leaf_node_next_leaf (t_pages s l) \<and>
        leaf_node_prev_leaf (t_pages s' l) =
          (if l = leaf_node_next_leaf (t_pages s m) then nw else leaf_node_prev_leaf (t_pages s l)))"

lemma split_leaf_done:
  assumes two: "two_level_ok s p ns" and m: "m \<in> set ns" "c_page c = m"
    and full: "leaf_node_num_cells (t_pages s m) = LEAF_NODE_MAX_CELLS" and at: "place_in_leaf (t_pages s m) k (c_cell c)"
    and keys: "k \<notin> set (leaf_keys (t_pages s m))" and k: "k < 2 ^ 32" and r: "row_ok r" and room: "t_num_pages s < INVALID_PAGE_NUM"
  shows "\<exists>nw s'. split_leaf c k r (mark m s) = Inr (get_node_max_key (t_pages s m), nw, s') \<and> split_done s p ns m k r nw s'"
proof -
  let ?P = "t_pages s" and ?p = "t_pages s m" and ?U = "insert 0 (insert p (set ns))"
  from two have root: "t_root s = p" and d: "distinct ns" "p \<notin> set ns" "0 \<notin> set ns"
    and leaves: "\<And>j. j < length ns \<Longrightarrow> leaf_ok (?P (ns ! j))"
    and heads: "\<And>n. n \<in> set ns \<Longrightarrow> \<not> is_node_root (?P n) \<and> node_parent (?P n) = p"
    and ch: "chain ?P 0 ns" and pages: "\<And>n. length (?P n) = 4096" and sp: "space s ?U"
    unfolding two_level_ok_def by blast+
  have lok: "leaf_ok (?P l)" if "l \<in> set ns" for l using that leaves by (metis in_set_conv_nth)
  define t where "t = mark m s"
  have tp: "t_pages t = ?P" "t_root t = p" "t_num_pages t = t_num_pages s" using root by (simp_all add: t_def)
  have spt: "space t ?U" by (rule space_cong [OF sp]) (simp_all add: t_def)
  define right where "right = leaf_node_next_leaf ?p"
  obtain i where i: "i < length ns" "m = ns ! i" using m(1) by (metis in_set_conv_nth)
  have nxt: "right = (if Suc i < length ns then ns ! Suc i else 0)" using ch i unfolding chain_iff right_def by blast
  have right: "right \<noteq> 0 \<Longrightarrow> right \<in> set ns \<and> right \<noteq> m"
    using nxt i nth_eq_iff_index_eq [OF d(1), of "Suc i" i] by (auto split: if_splits)
  obtain nw s' where S: "split_leaf c k r t = Inr (get_node_max_key (t_pages t m), nw, s')" "nw \<notin> ?U" "nw < 2 ^ 32 - 1"
    "t_root s' = t_root t" "space s' (insert nw ?U)" "t_num_pages s' \<le> t_num_pages t + 1"
    "\<And>n. n \<noteq> m \<Longrightarrow> n \<noteq> nw \<Longrightarrow> t_pages s' n = (if n = right \<and> right \<noteq> 0 then set_prev_leaf nw (t_pages t n) else t_pages t n)"
    "length (t_pages s' m) = 4096" "get_node_type (t_pages s' m) = NODE_LEAF"
    "leaf_cells (t_pages s' m) = take 7 (put_at (c_cell c) (cell_bytes k r) (leaf_cells (t_pages t m)))"
    "length (t_pages s' nw) = 4096" "get_node_type (t_pages s' nw) = NODE_LEAF"
    "leaf_cells (t_pages s' nw) = drop 7 (put_at (c_cell c) (cell_bytes k r) (leaf_cells (t_pages t m)))"
    "half_links (t_pages t m) (t_pages s' m) (t_pages s' nw) m nw"
    by (rule split_leaf_spec [of t m k c r ?U right])
      (use pages tp full at keys k r spt room m right lok [OF m(1)] in \<open>auto simp: right_def\<close>)
  let ?X = "t_pages s'"
  note H = halves_ok [OF lok [OF m(1)] full at keys k r S(8,9) S(10) [unfolded tp(1)] S(11,12) S(13) [unfolded tp(1)]]
  have cle: "c_cell c \<le> leaf_node_num_cells ?p" using at by (simp add: place_in_leaf_def)
  have ord: "halves_order k ?p (?X m) (?X nw)"
    by (rule halves_order [OF lok [OF m(1)] H(1,2) _ _ _ cle H(3,4,5)]) (use H(7,8) full in simp_all)
  have nw32: "nw < 2 ^ 32" using S(3) by simp
  have lens: "length (?X n) = 4096" for n
    using S(7) [of n] S(8,11) set_prev_leaf_spec(1) [OF pages [of n] nw32 refl] pages [of n] tp
    by (cases "n = m"; cases "n = nw") (auto split: if_splits)
  have other: "leaf_ok (?X l) \<and> leaf_cells (?X l) = leaf_cells (?P l) \<and> leaf_node_num_cells (?X l) = leaf_node_num_cells (?P l) \<and>
      \<not> is_node_root (?X l) \<and> node_parent (?X l) = p \<and> leaf_node_next_leaf (?X l) = leaf_node_next_leaf (?P l) \<and>
      leaf_node_prev_leaf (?X l) = (if l = right then nw else leaf_node_prev_leaf (?P l))" if l: "l \<in> set ns" "l \<noteq> m" for l
  proof (cases "l = right")
    case True
    have "l \<noteq> nw" using l(1) S(2) by blast
    moreover have "l \<noteq> 0" using l(1) d(3) by metis
    ultimately have "?X l = set_prev_leaf nw (?P l)" using S(7) [OF l(2)] True tp by simp
    from set_prev_leaf_spec [OF pages [of l] nw32 this] show ?thesis using lok [OF l(1)] heads [OF l(1)] True by simp
  next
    case False
    have "l \<noteq> nw" using l(1) S(2) by blast
    then have "?X l = ?P l" using S(7) [OF l(2)] False tp by simp
    then show ?thesis using lok [OF l(1)] heads [OF l(1)] False by simp
  qed
  have "p \<noteq> m" "p \<noteq> nw" "right \<noteq> 0 \<longrightarrow> p \<noteq> right" using m(1) d S(2) right by auto
  then have "?X p = ?P p" using S(7) [of p] tp by (cases "p = right") auto
  then have "split_done s p ns m k r nw s'"
    unfolding split_done_def using S(2,4,5,14) nw32 lens H ord other tp right_def by simp
  then show ?thesis using S(1) tp by (auto simp: t_def)
qed


text \<open>The parent is told of the new leaf: the run of \<open>internal_node_insert\<close> with room in the parent.\<close>

lemma parent_run:
  assumes two: "two_level_ok s p ns" and m: "m \<in> set ns" and sd: "split_done s p ns m k r nw s'"
    and parent: "internal_node_num_keys (t_pages s p) < INTERNAL_NODE_MAX_KEYS"
    and q1: "q1 = update_internal_node_key old mx (t_pages s p)"
      "internal_node_num_keys q1 = internal_node_num_keys (t_pages s p)" "node_kids q1 = ns"
    and rm: "rm = get_node_max_key (t_pages s' (last ns))" and cm: "cm = get_node_max_key (t_pages s' nw)"
    and q2: "q2 = set_num_keys (internal_node_num_keys (t_pages s p) + 1)
      (if cm > rm then insert_behind_right rm nw q1 else insert_in_front cm nw q1)"
    and s3: "s3 = poke nw (set_node_parent p) (poke p (update_internal_node_key old mx) s')"
  shows "\<exists>s2. internal_node_insert (Suc fuel) p nw s3 = Some (Inr s2) \<and>
    t_pages s2 = (t_pages s')(p := q2, nw := set_node_parent p (set_node_parent p (t_pages s' nw))) \<and>
    t_root s2 = p \<and> t_free_pages s2 = t_free_pages s' \<and> t_num_pages s2 = t_num_pages s'"
proof -
  let ?P = "t_pages s" and ?q = "t_pages s p" and ?X = "t_pages s'" and ?U = "insert nw (insert 0 (insert p (set ns)))"
  let ?n = "internal_node_num_keys ?q"
  from two have pn: "p \<notin> set ns" and kids: "node_kids ?q = ns" and par: "node_parent (?P m) = p"
    using m unfolding two_level_ok_def by blast+
  from sd have nw: "nw \<notin> insert 0 (insert p (set ns))" and rt: "t_root s' = p" and sp': "space s' ?U" and Xp: "?X p = ?q"
    and lens: "\<And>n. length (?X n) = 4096" and okb: "leaf_ok (?X nw)" and seven: "leaf_node_num_cells (?X nw) = 7"
    unfolding split_done_def by blast+
  have p32: "p < 2 ^ 32" using rd32_less [of PARENT_POINTER_OFFSET "?P m"] par by (simp only: node_parent_def)
  define B1 where "B1 = set_node_parent p (?X nw)"
  note B1 = set_node_parent_spec [OF lens p32 B1_def]
  have np: "nw \<noteq> p" "nw \<noteq> m" "p \<noteq> m" using nw m pn by auto
  have p3: "t_pages s3 = ?X(p := q1, nw := B1)" using np Xp by (simp add: s3 q1(1) B1_def fun_eq_iff)
  have sp3: "space s3 ?U" by (rule space_cong [OF sp']) (simp_all add: s3)
  have f: "fetch l s3 = s3" if "l \<in> ?U" for l by (rule fetch_used [OF sp3 that])
  have ne: "ns \<noteq> []" using m by auto
  define right where "right = last ns"
  have rin: "right \<in> set ns" "right \<noteq> p" "right \<noteq> nw" using pn nw last_in_set [OF ne] by (auto simp: right_def)
  have cm1: "get_node_max_key B1 = cm" using max_key_last(1) [of B1] max_key_last(1) [OF okb] B1 okb seven cm by simp
  have "length ns = Suc ?n" using arg_cong [OF kids, of length] by simp
  then have "last ns = ns ! ?n" using last_conv_nth [OF ne] by simp
  then have rc: "internal_node_right_child q1 = right"
    by (simp only: num_keys_rd(2) right_child_kid q1(2,3) right_def)
  define s2 where "s2 = mark p (mark nw (poke nw (set_node_parent p) (poke p (set_num_keys (?n + 1))
     (poke p (if cm > rm then insert_behind_right rm nw else insert_in_front cm nw) s3))))"
  have rmX: "get_node_max_key (?X right) = rm" by (simp add: rm right_def)
  have full: "\<not> internal_node_num_keys q1 \<ge> INTERNAL_NODE_MAX_KEYS" using q1(2) parent by simp
  have "internal_node_insert (Suc fuel) p nw s3 = Some (Inr s2)"
    unfolding internal_node_insert.simps Let_def using f [of nw] f [of p] f [of right] rin np full rc cm1 q1(2)
    by (simp add: p3 rmX s2_def)
  moreover have "t_pages s2 = ?X(p := q2, nw := set_node_parent p B1)" using np by (simp add: s2_def p3 q2 fun_eq_iff)
  moreover have "t_root s2 = p" "t_free_pages s2 = t_free_pages s'" "t_num_pages s2 = t_num_pages s'"
    using rt by (simp_all add: s2_def s3)
  ultimately show ?thesis by (auto simp: B1_def)
qed

text \<open>With a separator that is exact, the new leaf lands behind the old one.\<close>

lemma parent_step:
  assumes two: "two_level_ok s p ns" and i: "i < length ns" "m = ns ! i" "k \<in> route (t_pages s p) i"
    and keys: "set (leaf_keys (t_pages s m)) \<subseteq> route (t_pages s p) i"
    and sd: "split_done s p ns m k r nw s'" and exact: "exact_separator s p m"
    and parent: "internal_node_num_keys (t_pages s p) < INTERNAL_NODE_MAX_KEYS"
    and old: "old = get_node_max_key (t_pages s m)" and mx: "mx = get_node_max_key (t_pages s' m)"
    and s3: "s3 = poke nw (set_node_parent p) (poke p (update_internal_node_key old mx) s')"
  shows "\<exists>s2 q2. internal_node_insert (Suc fuel) p nw s3 = Some (Inr s2) \<and>
    t_pages s2 = (t_pages s')(p := q2, nw := set_node_parent p (set_node_parent p (t_pages s' nw))) \<and>
    node_ok q2 \<and> is_node_root q2 \<and> node_seps q2 = put_at i mx (node_seps (t_pages s p)) \<and> node_kids q2 = put_at (Suc i) nw ns \<and>
    t_root s2 = p \<and> t_free_pages s2 = t_free_pages s' \<and> t_num_pages s2 = t_num_pages s'"
proof -
  let ?P = "t_pages s" and ?q = "t_pages s p" and ?X = "t_pages s'"
  let ?n = "internal_node_num_keys ?q" and ?cm = "get_node_max_key (?X nw)"
  from two have d: "distinct ns" and qok: "node_ok ?q" and kids: "node_kids ?q = ns" and qr: "is_node_root ?q"
    and leaves: "\<And>j. j < length ns \<Longrightarrow> leaf_ok (?P (ns ! j)) \<and> set (leaf_keys (?P (ns ! j))) \<subseteq> route ?q j"
    and ne: "\<And>l. l \<in> set ns \<Longrightarrow> 0 < leaf_node_num_cells (?P l)"
    unfolding two_level_ok_def by blast+
  from sd have nw: "nw < 2 ^ 32" and ord: "halves_order k (?P m) (?X m) (?X nw)"
    and other: "\<And>l. l \<in> set ns \<Longrightarrow> l \<noteq> m \<Longrightarrow> leaf_ok (?X l) \<and> leaf_cells (?X l) = leaf_cells (?P l) \<and>
      leaf_node_num_cells (?X l) = leaf_node_num_cells (?P l)"
    unfolding split_done_def by blast+
  have n: "length ns = Suc ?n" using arg_cong [OF kids, of length] by simp
  then have "ns \<noteq> []" by auto
  then have last: "last ns = ns ! ?n" using last_conv_nth [of ns] n by simp
  have O: "mx \<in> insert k (set (leaf_keys (?P m)))" "mx < ?cm" "mx \<le> old" "k \<le> old \<Longrightarrow> ?cm = old" "mx \<in> set (leaf_keys (?X m))"
    "?cm \<in> set (leaf_keys (?X nw))" using ord unfolding halves_order_def Let_def mx old by blast+
  have rmx: "mx \<in> route ?q i" using O(1) i(3) keys by blast
  have in_n: "i \<le> ?n" using i(1) n by simp
  have below: "node_seps ?q ! j < mx" if "j < i" for j using rmx that in_n by (simp add: route_def)
  have b32: "mx < 2 ^ 32" "?cm < 2 ^ 32" using leaf_key_less O(5,6) by blast+
  define rm where "rm = get_node_max_key (?X (last ns))"
  have inner: "node_seps ?q ! i = ?cm \<and> old = ?cm \<and> ?cm < rm" if il: "i < ?n"
  proof -
    have e: "internal_node_key ?q i = old"
      using exact il i(2) kids nth_node_lists(2) [of i ?q] unfolding exact_separator_def old by simp
    then have "k \<le> old" using i(3) il by (auto simp: route_def)
    then have co: "?cm = old" by (rule O(4))
    have l: "last ns \<in> set ns" "last ns \<noteq> m" using il i n nth_eq_iff_index_eq [OF d, of ?n i] by (simp_all add: last)
    have "leaf_ok (?X (last ns))" "0 < leaf_node_num_cells (?X (last ns))" using other [OF l] ne [OF l(1)] by simp_all
    from max_key_last(1,2) [OF this] have "rm \<in> set (leaf_keys (?X (last ns)))" by (simp add: rm_def)
    then have "rm \<in> route ?q ?n" using other [OF l] leaves [of ?n] n by (auto simp: last)
    then have "internal_node_key ?q i < rm" using il by (simp add: route_def)
    then show ?thesis using e co il by simp
  qed
  have outer: "rm = mx \<and> mx \<le> old" if "i = ?n" using that i(2) O(3) by (simp add: rm_def last mx)
  have nn: "?n < 509" using parent by simp
  define q1 where "q1 = update_internal_node_key old mx ?q"
  define q2 where "q2 = set_num_keys (?n + 1) (if ?cm > rm then insert_behind_right rm nw q1 else insert_in_front ?cm nw q1)"
  note G = parent_gains_child [OF qok nn in_n b32 nw O(2) below inner outer q1_def q2_def]
  have m: "m \<in> set ns" using i by simp
  have q2: "node_kids q2 = put_at (Suc i) nw ns" "is_node_root q2" using G(4,6) kids qr by simp_all
  from parent_run [OF two m sd parent q1_def G(1) G(2) [unfolded kids] rm_def refl q2_def s3]
  show ?thesis using G(3,5) q2 by blast
qed

lemma leaf_split_assembled:
  assumes two: "two_level_ok s p ns" and i: "i < length ns" "m = ns ! i" "k \<in> route (t_pages s p) i"
    and sd: "split_done s p ns m k r nw s'" and mx: "mx = get_node_max_key (t_pages s' m)"
    and pg: "t_pages s2 = (t_pages s')(p := q2, nw := set_node_parent p (set_node_parent p (t_pages s' nw)))"
    and q2: "node_ok q2" "is_node_root q2" "node_seps q2 = put_at i mx (node_seps (t_pages s p))" "node_kids q2 = put_at (Suc i) nw ns"
    and st: "t_root s2 = p" "t_free_pages s2 = t_free_pages s'" "t_num_pages s2 = t_num_pages s'"
  shows "two_level_ok s2 p (put_at (Suc i) nw ns)"
    "table_rows s2 (Node_At p (map Leaf_At (put_at (Suc i) nw ns))) = insert (k, row_bytes r) (table_rows s (Node_At p (map Leaf_At ns)))"
proof -
  let ?P = "t_pages s" and ?q = "t_pages s p" and ?X = "t_pages s'" and ?ns = "put_at (Suc i) nw ns" and ?Y = "t_pages s2"
  let ?n = "internal_node_num_keys ?q"
  from two have d: "distinct ns" "p \<notin> set ns" "0 \<notin> set ns" and qok: "node_ok ?q" and kids: "node_kids ?q = ns"
    and leaves: "\<And>j. j < length ns \<Longrightarrow> leaf_ok (?P (ns ! j)) \<and> set (leaf_keys (?P (ns ! j))) \<subseteq> route ?q j"
    and heads: "\<And>l. l \<in> set ns \<Longrightarrow> \<not> is_node_root (?P l) \<and> node_parent (?P l) = p \<and> 0 < leaf_node_num_cells (?P l)"
    and ch: "chain ?P 0 ns" and len1: "1 < length ns"
    unfolding two_level_ok_def by blast+
  from sd have nw: "nw \<notin> insert 0 (insert p (set ns))" "nw < 2 ^ 32" and sp': "space s' (insert nw (insert 0 (insert p (set ns))))"
    and lens: "\<And>n. length (?X n) = 4096" and oka: "leaf_ok (?X m)" and okb: "leaf_ok (?X nw)"
    and seven: "leaf_node_num_cells (?X m) = 7" "leaf_node_num_cells (?X nw) = 7" and ord: "halves_order k (?P m) (?X m) (?X nw)"
    and rws: "leaf_rows (?X m) \<union> leaf_rows (?X nw) = insert (k, row_bytes r) (leaf_rows (?P m))"
    and links: "half_links (?P m) (?X m) (?X nw) m nw"
    and other: "\<And>l. l \<in> set ns \<Longrightarrow> l \<noteq> m \<Longrightarrow> leaf_ok (?X l) \<and> leaf_cells (?X l) = leaf_cells (?P l) \<and>
      leaf_node_num_cells (?X l) = leaf_node_num_cells (?P l) \<and> \<not> is_node_root (?X l) \<and> node_parent (?X l) = p \<and>
      leaf_node_next_leaf (?X l) = leaf_node_next_leaf (?P l) \<and>
      leaf_node_prev_leaf (?X l) = (if l = leaf_node_next_leaf (?P m) then nw else leaf_node_prev_leaf (?P l))"
    unfolding split_done_def by blast+
  have n: "length ns = Suc ?n" using arg_cong [OF kids, of length] by simp
  have m: "m \<in> set ns" using i by simp
  have p32: "p < 2 ^ 32" using rd32_less [of PARENT_POINTER_OFFSET "?P m"] heads [OF m] by (simp add: node_parent_def)
  define B1 where "B1 = set_node_parent p (?X nw)"
  define B where "B = set_node_parent p B1"
  note B1 = set_node_parent_spec [OF lens p32 B1_def]
  note B = set_node_parent_spec [OF B1(1) p32 B_def]
  have np: "nw \<noteq> p" "nw \<noteq> m" "p \<noteq> m" "nw \<noteq> 0" "nw \<notin> set ns" using nw(1) m d by auto
  have Y: "?Y p = q2" "?Y nw = B" "\<And>l. l \<noteq> p \<Longrightarrow> l \<noteq> nw \<Longrightarrow> ?Y l = ?X l" using np by (simp_all add: pg B_def B1_def)
  have Yl: "?Y l = ?X l" if "l \<in> set ns" for l using Y(3) [of l] that d(2) np(5) by metis
  have sns: "set ?ns = insert nw (set ns)" by (rule in_set_put_at) (use i in simp)
  have keyset: "set (leaf_keys (?X m)) \<union> set (leaf_keys (?X nw)) \<subseteq> route ?q i"
  proof -
    have "set (leaf_keys (?X m)) \<union> set (leaf_keys (?X nw)) = insert k (set (leaf_keys (?P m)))"
      using ord unfolding halves_order_def Let_def by blast
    moreover have "set (leaf_keys (?P m)) \<subseteq> route ?q i" using leaves [OF i(1)] i(2) by simp
    ultimately show ?thesis using i(3) by simp
  qed
  have lo: "x \<le> mx" if "x \<in> set (leaf_keys (?X m))" for x using ord that unfolding halves_order_def Let_def mx by blast
  have hi: "mx < x" if "x \<in> set (leaf_keys (?X nw))" for x using ord that unfolding halves_order_def Let_def mx by blast
  have keysB: "leaf_keys B = leaf_keys (?X nw)" using B(2) B1(2) by simp
  have n2: "internal_node_num_keys q2 = Suc ?n" using arg_cong [OF q2(3), of length] by simp
  have in_n: "i \<le> ?n" using i n by simp
  have nth: "?ns ! j = (if j \<le> i then ns ! j else if j = Suc i then nw else ns ! (j - 1))" if "j \<le> length ns" for j
    using nth_put_at [of "Suc i" ns j nw] i that by (auto simp: less_Suc_eq_le)
  have eq: "ns ! a = ns ! b \<longleftrightarrow> a = b" if "a < length ns" "b < length ns" for a b using nth_eq_iff_index_eq [OF d(1) that] .
  note R = routes_after_split [OF qok q2(1,3) in_n n2]
  have leaf: "leaf_ok (?Y (?ns ! j)) \<and> set (leaf_keys (?Y (?ns ! j))) \<subseteq> route (?Y p) j" if "j < length ?ns" for j
  proof -
    have j: "j \<le> length ns" "j \<le> internal_node_num_keys q2" using that n n2 by simp_all
    consider "j < i" | "j = i" | "j = Suc i" | "Suc i < j" by linarith
    then show ?thesis
    proof cases
      case 1
      then have jl: "j < length ns" "ns ! j \<noteq> m" using i eq [of j i] by auto
      have "x \<in> route q2 j" if "x \<in> set (leaf_keys (?P (ns ! j)))" for x
        by (rule R [OF j(2), of j]) (use 1 that leaves [OF jl(1)] jl n in auto)
      then show ?thesis using other [OF nth_mem [OF jl(1)] jl(2)] Yl [OF nth_mem [OF jl(1)]] nth [OF j(1)] 1 Y(1) by auto
    next
      case 2
      have "x \<in> route q2 j" if "x \<in> set (leaf_keys (?X m))" for x
        by (rule R [OF j(2) in_n]) (use 2 that keyset lo in auto)
      then show ?thesis using oka Yl [OF m] nth [OF j(1)] 2 Y(1) i(2) by auto
    next
      case 3
      have "x \<in> route q2 j" if "x \<in> set (leaf_keys (?X nw))" for x
        by (rule R [OF j(2) in_n]) (use 3 that keyset hi in auto)
      then show ?thesis using okb B(4) B1(4) keysB nth [OF j(1)] 3 Y(1,2) by (auto simp del: set_map)
    next
      case 4
      then have jl: "j - 1 < length ns" "ns ! (j - 1) \<noteq> m" using i eq [of "j - 1" i] j by auto
      have "x \<in> route q2 j" if "x \<in> set (leaf_keys (?P (ns ! (j - 1))))" for x
        by (rule R [OF j(2), of "j - 1"]) (use 4 that leaves [OF jl(1)] jl n in auto)
      then show ?thesis using other [OF nth_mem [OF jl(1)] jl(2)] Yl [OF nth_mem [OF jl(1)]] nth [OF j(1)] 4 Y(1) by auto
    qed
  qed
  have chain2: "chain ?Y 0 ?ns"
  proof (rule chain_after_split [OF ch d(1,3) i(1,2) np(5,4) refl])
    show "leaf_node_next_leaf (?Y l) = leaf_node_next_leaf (?P l) \<and>
      leaf_node_prev_leaf (?Y l) = (if l = leaf_node_next_leaf (?P m) then nw else leaf_node_prev_leaf (?P l))"
      if "l \<in> set ns" "l \<noteq> m" for l using other [OF that] Yl [OF that(1)] by simp
  qed (use links Yl [OF m] Y(2) B(7,8) B1(7,8) in \<open>simp_all add: half_links_def\<close>)
  have heads2: "\<not> is_node_root (?Y l) \<and> node_parent (?Y l) = p \<and> 0 < leaf_node_num_cells (?Y l)" if "l \<in> set ?ns" for l
  proof (cases "l = nw")
    case True
    then show ?thesis using Y(2) B B1 links seven by (simp add: half_links_def)
  next
    case False
    then have l: "l \<in> set ns" using that sns by simp
    then show ?thesis using Yl [OF l] other [OF l] heads [OF l] heads [OF m] links seven by (cases "l = m") (simp_all add: half_links_def)
  qed
  have len2: "length (?Y l) = 4096" for l
    using Y lens [of l] B(1) q2(1) by (cases "l = p"; cases "l = nw") (simp_all add: node_ok_def)
  have space2: "space s2 (insert 0 (insert p (set ?ns)))"
    by (rule space_cong [of s']) (use sp' st sns in \<open>simp_all add: insert_commute\<close>)
  have dist2: "distinct ?ns" using i d(1) np(5) by (simp add: distinct_put_at)
  show "two_level_ok s2 p ?ns"
    unfolding two_level_ok_def using st(1) len1 dist2 sns d np leaf chain2 heads2 len2 space2 q2 Y(1) by auto
  have "rows ?Y (Node_At p (map Leaf_At ?ns)) = leaf_rows (?Y m) \<union> leaf_rows (?Y nw) \<union> (\<Union>l\<in>set ns - {m}. leaf_rows (?Y l))"
    unfolding rows_def leaf_pages_flat sns using m by auto
  also have "\<dots> = insert (k, row_bytes r) (leaf_rows (?P m)) \<union> (\<Union>l\<in>set ns - {m}. leaf_rows (?P l))"
  proof -
    have "leaf_rows (?Y nw) = leaf_rows (?X nw)" using Y(2) B(2) B1(2) by (intro rows_of_cells) simp
    moreover have "leaf_rows (?Y l) = leaf_rows (?P l)" if "l \<in> set ns - {m}" for l
      using Yl [of l] other [of l] that by (intro rows_of_cells) simp
    ultimately show ?thesis using rws Yl [OF m] by simp
  qed
  also have "\<dots> = insert (k, row_bytes r) (rows ?P (Node_At p (map Leaf_At ns)))"
    unfolding rows_def leaf_pages_flat using m by auto
  finally show "table_rows s2 (Node_At p (map Leaf_At ?ns)) = insert (k, row_bytes r) (table_rows s (Node_At p (map Leaf_At ns)))"
    by (simp add: table_rows_def)
qed

lemma split_below_root:
  assumes two: "two_level_ok s p ns" and m: "m \<in> set ns" "c_page c = m" and full: "leaf_node_num_cells (t_pages s m) = LEAF_NODE_MAX_CELLS"
    and split: "split_leaf c k r (mark m s) = Inr (old, nw, s')" and sd: "split_done s p ns m k r nw s'"
  shows "leaf_node_insert fuel c k r s = internal_node_insert fuel p nw
    (poke nw (set_node_parent p) (poke p (update_internal_node_key old (get_node_max_key (t_pages s' m))) s'))"
proof -
  have heads: "\<not> is_node_root (t_pages s m) \<and> node_parent (t_pages s m) = p" and sp: "space s (insert 0 (insert p (set ns)))"
    using two m(1) unfolding two_level_ok_def by blast+
  have links: "\<not> is_node_root (t_pages s' m)" "node_parent (t_pages s' m) = p" and sp': "space s' (insert nw (insert 0 (insert p (set ns))))"
    using sd heads unfolding split_done_def half_links_def by simp_all
  have f: "fetch m s = s" "fetch p s' = s'" using fetch_used [OF sp] fetch_used [OF sp'] m by simp_all
  show ?thesis using full split links f
    unfolding leaf_node_insert_def m(2) leaf_node_split_and_insert_def Let_def by simp
qed

lemma leaf_split_spec:
  assumes T: "table_ok s (Node_At p (map Leaf_At ns))" and find: "table_find k s = Some (Inr (Some c, s1))"
    and full: "leaf_node_num_cells (t_pages s (c_page c)) = LEAF_NODE_MAX_CELLS"
    and new: "k \<notin> fst ` table_rows s (Node_At p (map Leaf_At ns))" and k: "k < 2 ^ 32" and r: "row_ok r"
    and room: "t_num_pages s < INVALID_PAGE_NUM" and parent: "internal_node_num_keys (t_pages s p) < INTERNAL_NODE_MAX_KEYS"
    and exact: "exact_separator s p (c_page c)"
  shows "\<exists>s2 sh. leaf_node_insert (Suc fuel) c k r s1 = Some (Inr s2) \<and> table_ok s2 sh \<and>
    table_rows s2 sh = insert (k, row_bytes r) (table_rows s (Node_At p (map Leaf_At ns)))"
proof -
  define m where "m = c_page c"
  let ?sh = "Node_At p (map Leaf_At ns)"
  have ok: "tree_ok s ?sh" using T by (simp add: table_ok_def)
  have two: "two_level_ok s p ns" using T by (simp only: table_ok_two_level)
  then have root: "t_root s = p" and leaves: "\<And>j. j < length ns \<Longrightarrow> set (leaf_keys (t_pages s (ns ! j))) \<subseteq> route (t_pages s p) j"
    unfolding two_level_ok_def by blast+
  note F = table_find_place [OF ok find, folded m_def]
  obtain i where i: "i < length ns" "k \<in> route (t_pages s p) i" "m = ns ! i"
    using F(1) by (auto elim!: leads_to_nodeE leads_to_leafE)
  have m: "m \<in> set ns" using i by simp
  have s1: "s1 = s" by (rule two_level_find_state [OF two find])
  have keys: "k \<notin> set (leaf_keys (t_pages s m))"
    using new m leaf_rows_keys [of "t_pages s m"] unfolding table_rows_def rows_def leaf_pages_flat by force
  have fullm: "leaf_node_num_cells (t_pages s m) = LEAF_NODE_MAX_CELLS" using full by (simp only: m_def)
  obtain nw s' where S: "split_leaf c k r (mark m s) = Inr (get_node_max_key (t_pages s m), nw, s')" "split_done s p ns m k r nw s'"
    using split_leaf_done [OF two m m_def [symmetric] fullm F(2) keys k r room] by blast
  define mx where "mx = get_node_max_key (t_pages s' m)"
  define s3 where "s3 = poke nw (set_node_parent p) (poke p (update_internal_node_key (get_node_max_key (t_pages s m)) mx) s')"
  obtain s2 q2 where G: "internal_node_insert (Suc fuel) p nw s3 = Some (Inr s2)"
    "t_pages s2 = (t_pages s')(p := q2, nw := set_node_parent p (set_node_parent p (t_pages s' nw)))"
    "node_ok q2" "is_node_root q2" "node_seps q2 = put_at i mx (node_seps (t_pages s p))" "node_kids q2 = put_at (Suc i) nw ns"
    "t_root s2 = p" "t_free_pages s2 = t_free_pages s'" "t_num_pages s2 = t_num_pages s'"
    using parent_step [OF two i(1,3,2) leaves [OF i(1), folded i(3)] S(2) exact [folded m_def] parent refl mx_def s3_def] by blast
  note A = leaf_split_assembled [OF two i(1,3,2) S(2) mx_def G(2-9)]
  have "leaf_node_insert (Suc fuel) c k r s1 = Some (Inr s2)"
    using split_below_root [OF two m m_def [symmetric] fullm S] G(1) by (simp add: s1 s3_def mx_def)
  then show ?thesis using A two by (auto simp del: leaf_pages_flat simp: table_ok_two_level [symmetric])
qed

end
