(* ===== verification/BTreeTable.thy ===== *)
theory BTreeTable
  imports BTreeLeafSplit
begin

text \<open>
  The operations of a table keep its invariant: insertion in every case, deletion that leaves a row
  behind; and the insertion behind a stale separator, which loses rows.
\<close>

section \<open>Insertion and deletion inside one leaf\<close>

lemma chain_cong:
  assumes "chain P p ns" "\<And>n. n \<in> set ns \<Longrightarrow> leaf_node_next_leaf (P' n) = leaf_node_next_leaf (P n) \<and>
    leaf_node_prev_leaf (P' n) = leaf_node_prev_leaf (P n)"
  shows "chain P' p ns"
  using assms by (induction ns arbitrary: p) auto

lemma table_ok_update:
  assumes T: "table_ok s sh" and to: "leads_to (t_pages s) k sh m" and q: "leaf_ok q" "leaf_header q = leaf_header (t_pages s m)"
    and keys: "set (leaf_keys q) \<subseteq> insert k (set (leaf_keys (t_pages s m)))"
    and ne: "1 < length (leaf_pages sh) \<Longrightarrow> 0 < leaf_node_num_cells q"
    and s': "t_pages s' = (t_pages s)(m := q)" "t_root s' = t_root s" "t_free_pages s' = t_free_pages s" "t_num_pages s' = t_num_pages s"
  shows "table_ok s' sh"
proof -
  have len: "length (t_pages s n) = 4096" for n using T by (simp add: table_ok_def)
  have lq: "length q = 4096" using q(1) by (simp add: leaf_ok_def)
  note H = leaf_ok_header [OF q(2) len lq]
  have same: "is_node_root (t_pages s' n) = is_node_root (t_pages s n) \<and> leaf_node_next_leaf (t_pages s' n) = leaf_node_next_leaf (t_pages s n) \<and>
      leaf_node_prev_leaf (t_pages s' n) = leaf_node_prev_leaf (t_pages s n) \<and> node_parent (t_pages s' n) = node_parent (t_pages s n)" for n
    using H by (simp add: s'(1))
  have tree: "tree_ok s' sh" by (rule tree_ok_update [OF _ to q(1) keys s'(1,2)]) (use T in \<open>simp add: table_ok_def\<close>)
  have "chain (t_pages s) 0 (leaf_pages sh)" using T by (simp add: table_ok_def linked_def)
  from chain_cong [OF this] same have "chain (t_pages s') 0 (leaf_pages sh)" by blast
  moreover have "0 < leaf_node_num_cells (t_pages s' n)" if "1 < length (leaf_pages sh)" "n \<in> set (leaf_pages sh)" for n
    using T ne [OF that(1)] that unfolding table_ok_def linked_def s'(1) by (cases "n = m") auto
  ultimately have "linked s' sh" using T unfolding table_ok_def linked_def by blast
  moreover have "headers_ok (t_pages s) sh" using T by (simp add: table_ok_def)
  then have "headers_ok (t_pages s') sh" unfolding headers_ok_def using same by simp
  moreover have "\<forall>n. length (t_pages s' n) = 4096" using len lq by (simp add: s'(1))
  moreover have "space s' (used_pages sh)" by (rule space_cong [of s]) (use T s' in \<open>simp_all add: table_ok_def\<close>)
  ultimately show ?thesis using T tree by (simp add: table_ok_def)
qed

lemma leaf_find_state:
  assumes "t_root s = m" "get_node_type (t_pages s m) = NODE_LEAF" "m < t_num_pages s" "table_find k s = Some (Inr (x, s1))"
  shows "s1 = s"
  using assms by (simp add: table_find_def Let_def leaf_node_find_def fetch_below)

lemma table_find_state:
  assumes T: "table_ok s sh" and find: "table_find k s = Some (Inr (x, s1))"
  shows "s1 = s"
proof -
  from T consider n where "sh = Leaf_At n" | p ns where "sh = Node_At p (map Leaf_At ns)" by (auto simp: table_ok_def two_levels_def)
  then show ?thesis
  proof cases
    case 1
    have "get_node_type (t_pages s n) = NODE_LEAF" "t_root s = n" "n < t_num_pages s"
      using T 1 by (auto simp: table_ok_def tree_ok_def leaf_ok_def space_def used_pages_def)
    then show ?thesis using leaf_find_state find by blast
  next
    case 2
    then show ?thesis using two_level_find_state find T by (simp add: table_ok_two_level)
  qed
qed

lemma leaf_in_use: "table_ok s sh \<Longrightarrow> n \<in> set (leaf_pages sh) \<Longrightarrow> fetch n s = s"
  by (rule fetch_used [of _ "used_pages sh"]) (auto simp: table_ok_def used_pages_def)

lemma insert_in_leaf:
  assumes T: "table_ok s sh" and find: "table_find k s = Some (Inr (Some c, s1))"
    and room: "leaf_node_num_cells (t_pages s (c_page c)) < LEAF_NODE_MAX_CELLS"
    and new: "k \<notin> fst ` table_rows s sh" and k: "k < 2 ^ 32" and r: "row_ok r"
  shows "\<exists>s2. leaf_node_insert fuel c k r s1 = Some (Inr s2) \<and> table_ok s2 sh \<and>
    table_rows s2 sh = insert (k, row_bytes r) (table_rows s sh)"
proof -
  have ok: "tree_ok s sh" using T by (simp add: table_ok_def)
  note F = table_find_place [OF ok find] and s1 = table_find_state [OF T find]
  let ?m = "c_page c" let ?p = "t_pages s ?m"
  define q where "q = leaf_insert_bytes (c_cell c) k r ?p"
  have m: "?m \<in> set (leaf_pages sh)" by (rule leads_to_leaf [OF F(1)])
  have "set (leaf_keys ?p) \<subseteq> fst ` table_rows s sh" using m leaf_rows_keys [of ?p] by (force simp: table_rows_def rows_def)
  then have new': "k \<notin> set (leaf_keys ?p)" using new by blast
  note I = leaf_insert_ok [OF F(6) room F(2) new' k r q_def]
  have len: "length ?p = 4096" and n: "leaf_node_num_cells ?p < 13" "c_cell c \<le> leaf_node_num_cells ?p"
    using F(2,6) room by (simp_all add: leaf_ok_def place_in_leaf_def)
  note S = leaf_insert_spec [OF len n r q_def]
  define s2 where "s2 = poke ?m (leaf_insert_bytes (c_cell c) k r) (mark ?m s)"
  have run: "leaf_node_insert fuel c k r s1 = Some (Inr s2)"
    using room leaf_in_use [OF T m] by (simp add: leaf_node_insert_def Let_def s2_def s1)
  have s2: "t_pages s2 = (t_pages s)(?m := q)" "t_root s2 = t_root s" "t_free_pages s2 = t_free_pages s" "t_num_pages s2 = t_num_pages s"
    by (simp_all add: s2_def q_def)
  have "leaf_node_num_cells q = Suc (leaf_node_num_cells ?p)" using arg_cong [OF S(2), of length] by simp
  then have "table_ok s2 sh" using I(2) by (intro table_ok_update [OF T F(1) I(1) S(3) _ _ s2]) simp_all
  moreover have "table_rows s2 sh = table_rows s sh \<union> {(k, row_bytes r)} - {}"
    unfolding table_rows_def s2(1) by (rule rows_update [OF m]) (use I(3) in simp_all)
  ultimately show ?thesis using run by auto
qed

lemma delete_in_leaf:
  assumes T: "table_ok s sh" and find: "table_find k s = Some (Inr (Some c, s1))"
    and old: "k \<in> fst ` table_rows s sh" and stays: "leaf_node_num_cells (t_pages s (c_page c)) > 1 \<or> leaf_pages sh = [c_page c]"
  shows "\<exists>s2. leaf_node_delete c s1 = Inr s2 \<and> table_ok s2 sh \<and> table_rows s2 sh = {(j, b) \<in> table_rows s sh. j \<noteq> k}"
proof -
  have ok: "tree_ok s sh" and wf: "well_formed (t_pages s) UNIV sh" using T by (simp_all add: table_ok_def tree_ok_def)
  note F = table_find_place [OF ok find] and s1 = table_find_state [OF T find]
  let ?m = "c_page c" let ?p = "t_pages s ?m"
  have m: "?m \<in> set (leaf_pages sh)" by (rule leads_to_leaf [OF F(1)])
  obtain b where "(k, b) \<in> leaf_rows ?p" using old row_in_leaf [OF wf F(1)] by (auto simp: table_rows_def)
  then have c: "c_cell c < leaf_node_num_cells ?p" "leaf_node_key ?p (c_cell c) = k" using leaf_row_at [OF F(6,2)] by simp_all
  define q where "q = leaf_delete_bytes (c_cell c) ?p"
  note D = leaf_delete_ok [OF F(6) c(1) q_def, unfolded c(2)]
  have len: "length ?p = 4096" and n: "leaf_node_num_cells ?p \<le> 13" using F(6) by (simp_all add: leaf_ok_def)
  note S = leaf_delete_spec [OF len n c(1) q_def]
  define s2 where "s2 = mark ?m (poke ?m (leaf_delete_bytes (c_cell c)) s)"
  have s2: "t_pages s2 = (t_pages s)(?m := q)" "t_root s2 = t_root s" "t_free_pages s2 = t_free_pages s" "t_num_pages s2 = t_num_pages s"
    by (simp_all add: s2_def q_def)
  have num: "leaf_node_num_cells q = leaf_node_num_cells ?p - 1" using arg_cong [OF S(2), of length] c(1) by simp
  have "set (leaf_keys q) \<subseteq> insert k (set (leaf_keys ?p))" using D(2) by blast
  then have T2: "table_ok s2 sh"
    using num stays by (intro table_ok_update [OF T F(1) D(1) S(3) _ _ s2]) auto
  have run: "leaf_node_delete c s1 = Inr s2"
  proof (cases "leaf_node_num_cells ?p - 1 = 0")
    case True
    then have "leaf_pages sh = [?m]" using stays by simp
    then have "sh = Leaf_At ?m" using T by (auto simp: table_ok_def two_levels_def simp del: leaf_pages.simps(2))
    then have "is_node_root (t_pages s2 ?m)" using T2 by (simp add: table_ok_def headers_ok_def)
    moreover have "fetch ?m s2 = s2" by (rule leaf_in_use [OF T2 m])
    ultimately show ?thesis using True leaf_in_use [OF T m]
      by (simp add: leaf_node_delete_def Let_def s1 s2_def [symmetric] remove_empty_leaf_def)
  next
    case False
    then show ?thesis using leaf_in_use [OF T m] by (simp add: leaf_node_delete_def Let_def s1 s2_def)
  qed
  have "table_rows s2 sh = table_rows s sh \<union> {} - {(k, b) |b. True}"
    unfolding table_rows_def s2(1)
  proof (rule rows_update [OF m])
    show "leaf_rows (t_pages s n) \<inter> {(k, b) |b. True} = {}" if n: "n \<in> set (leaf_pages sh)" "n \<noteq> ?m" for n
    proof -
      have "k \<notin> set (leaf_keys (t_pages s n))"
        using key_in_its_leaf [OF wf n(1), of k] leads_to_unique [OF wf F(1), of n] n(2) by blast
      then show ?thesis using leaf_rows_keys [of "t_pages s n"] by force
    qed
  qed (use D(3) in simp)
  then show ?thesis using run T2 by auto
qed

section \<open>Insertion\<close>

text \<open>A full leaf below the root can be split while the parent has room and its separator for the leaf is the
  leaf's largest key.\<close>

definition splittable :: "tree \<Rightarrow> shape \<Rightarrow> nat \<Rightarrow> bool" where
  "splittable s sh m \<longleftrightarrow> leaf_node_num_cells (t_pages s m) < LEAF_NODE_MAX_CELLS \<or> sh = Leaf_At m \<or>
     internal_node_num_keys (t_pages s (page_of sh)) < INTERNAL_NODE_MAX_KEYS \<and> exact_separator s (page_of sh) m"

lemma insert_any:
  assumes T: "table_ok s sh" and find: "table_find k s = Some (Inr (Some c, s1))"
    and new: "k \<notin> fst ` table_rows s sh" and k: "k < 2 ^ 32" and r: "row_ok r"
    and room: "t_num_pages s + 2 \<le> INVALID_PAGE_NUM" and split: "splittable s sh (c_page c)"
  shows "\<exists>s2 sh'. leaf_node_insert (Suc fuel) c k r s1 = Some (Inr s2) \<and> table_ok s2 sh' \<and>
    table_rows s2 sh' = insert (k, row_bytes r) (table_rows s sh)"
proof (cases "leaf_node_num_cells (t_pages s (c_page c)) < LEAF_NODE_MAX_CELLS")
  case True
  from insert_in_leaf [OF T find True new k r] show ?thesis by blast
next
  case False
  have ok: "tree_ok s sh" using T by (simp add: table_ok_def)
  note F = table_find_place [OF ok find]
  have full: "leaf_node_num_cells (t_pages s (c_page c)) = LEAF_NODE_MAX_CELLS" using False F(6) by (simp add: leaf_ok_def)
  from T consider n where "sh = Leaf_At n" | p ns where "sh = Node_At p (map Leaf_At ns)" by (auto simp: table_ok_def two_levels_def)
  then show ?thesis
  proof cases
    case 1
    then have "c_page c = n" using F(1) by (auto elim: leads_to_leafE)
    then show ?thesis using root_split_spec [of s n k c s1] T find full new k r room 1 by simp
  next
    case 2
    have "internal_node_num_keys (t_pages s p) < INTERNAL_NODE_MAX_KEYS" "exact_separator s p (c_page c)"
      using split False 2 by (auto simp: splittable_def)
    then show ?thesis using leaf_split_spec [OF T [unfolded 2] find full new [unfolded 2] k r] room 2 by simp
  qed
qed

text \<open>Insertion of a row never moves the root of the tree to another page.\<close>

named_theorems root_kept

lemma alloc_root [root_kept]: "alloc s = Inr (n, s') \<Longrightarrow> t_root s' = t_root s"
  using alloc_pages by blast

lemma probe_children_root [root_kept]: "probe_children p k xs s = Inr s' \<Longrightarrow> t_root s' = t_root s"
proof (induction xs arbitrary: s)
  case (Cons i xs)
  from Cons.prems obtain off where "internal_node_child (t_pages s p) i = Inr off" by (auto simp only: probe_children.simps)
  then show ?case using Cons.prems Cons.IH [of "fetch (rd32 off (t_pages s p)) s"] by (auto simp: Let_def split: if_splits)
qed simp

lemma adopt_child_root: "adopt_child p i s = Inr s' \<Longrightarrow> t_root s' = t_root s"
  by (auto simp: adopt_child_def Let_def)

lemma adopt_children_root [root_kept]: "for_each (adopt_child p) xs s = Inr s' \<Longrightarrow> t_root s' = t_root s"
  by (rule for_each_invariant [where P = "\<lambda>u. t_root u = t_root s" and s = s]) (auto dest: adopt_child_root)

lemma split_bytes_root [root_kept]: "split_bytes p c k n s = Inr (m, s') \<Longrightarrow> t_root s' = t_root s"
  by (auto simp: split_bytes_def Let_def dest!: root_kept)

lemma split_root_root [root_kept]: "split_root p n m s = Inr s' \<Longrightarrow> t_root s' = t_root s"
  by (auto simp: split_root_def Let_def dest!: root_kept)

lemma internal_split_root:
  assumes "internal_node_split_and_insert ins p c s = Some (Inr s')"
    and "\<And>q n u u'. ins q n u = Some (Inr u') \<Longrightarrow> t_root u' = t_root u"
  shows "t_root s' = t_root s"
  using assms by (fastforce simp: internal_node_split_and_insert_def Let_def split: sum.splits if_splits prod.splits dest!: root_kept)

lemma internal_insert_root [root_kept]: "internal_node_insert fuel p c s = Some (Inr s') \<Longrightarrow> t_root s' = t_root s"
proof (induction fuel arbitrary: p c s s')
  case (Suc fuel)
  show ?case
  proof (cases "internal_node_num_keys (t_pages s p) \<ge> INTERNAL_NODE_MAX_KEYS")
    case True
    then have "internal_node_split_and_insert (internal_node_insert fuel) p c (fetch c (fetch p s)) = Some (Inr s')"
      using Suc.prems by (simp add: Let_def)
    from internal_split_root [OF this Suc.IH] show ?thesis by simp
  qed (use Suc.prems in \<open>auto simp: Let_def\<close>)
qed simp

lemma create_new_root_root [root_kept]: "create_new_root r s = Inr s' \<Longrightarrow> t_root s' = t_root s"
  by (auto simp: create_new_root_def Let_def dest!: root_kept split: if_splits)

lemma split_leaf_root [root_kept]: "split_leaf c k r s = Inr (m, n, s') \<Longrightarrow> t_root s' = t_root s"
  by (auto simp: split_leaf_def Let_def dest!: root_kept split: if_splits prod.splits)

lemma leaf_insert_root [root_kept]: "leaf_node_insert fuel c k r s = Some (Inr s') \<Longrightarrow> t_root s' = t_root s"
  by (fastforce simp: leaf_node_insert_def leaf_node_split_and_insert_def Let_def dest!: root_kept split: if_splits prod.splits sum.splits)

end
