(* ===== verification/LeafPolicy.thy ===== *)
theory LeafPolicy
  imports LeafPages BTreeTable
begin

text \<open>
  The check before a tree is changed, after \<open>src/leaf_mutation_policy.c\<close>: every node and every leaf below the root
  is visited, the leaves are walked along their links, and anything but a tree of fixed V1 leaves in ascending
  key order is refused. A function that refuses writes its reason; the reason is the \<open>Inl\<close> of the result. Every
  page number is checked before \<open>get_page\<close>, which then changes nothing, so the state is only read.
\<close>

definition valid_page_num :: "tree \<Rightarrow> nat \<Rightarrow> bool" where
  "valid_page_num s page_num \<longleftrightarrow> page_num \<noteq> INVALID_PAGE_NUM \<and> page_num < t_num_pages s"

definition V2_READ_ONLY :: string where
  "V2_READ_ONLY = ''slotted leaf V2 pages are read-only until V2 mutation and split recovery are enabled''"

definition validate_leaf_for_mutation :: "tree \<Rightarrow> nat \<Rightarrow> string + unit" where
  "validate_leaf_for_mutation s page_num =
     (let page = t_pages s page_num
      in if detect_page page = PAGE_FORMAT_SLOTTED_V2 then Inl V2_READ_ONLY
         else if detect_page page \<noteq> PAGE_FORMAT_FIXED_V1 then Inl ''unknown or corrupt leaf format blocks mutation''
         else case page_next page of None \<Rightarrow> Inl ''unable to validate leaf sibling metadata before mutation''
         | Some next_page \<Rightarrow>
             (case page_prev page of None \<Rightarrow> Inl ''unable to validate leaf sibling metadata before mutation''
              | Some prev_page \<Rightarrow>
                  if next_page \<noteq> 0 \<and> (\<not> valid_page_num s next_page \<or> next_page = page_num) \<or>
                     prev_page \<noteq> 0 \<and> (\<not> valid_page_num s prev_page \<or> prev_page = page_num)
                  then Inl ''corrupt leaf sibling metadata blocks mutation'' else Inr ()))"

text \<open>The loops that follow pointers count their steps and stop after as many as there are pages.\<close>

function page_descends_from_root :: "tree \<Rightarrow> nat \<Rightarrow> nat \<Rightarrow> nat \<Rightarrow> bool" where
  "page_descends_from_root s page_num root_page_num traversed =
     (if valid_page_num s page_num \<and> traversed \<le> t_num_pages s then
        if page_num = root_page_num then True
        else let page = t_pages s page_num
             in if is_node_root page then False
                else let parent = node_parent page
                     in if \<not> valid_page_num s parent \<or> parent = page_num then False
                        else page_descends_from_root s parent root_page_num (traversed + 1)
      else False)"
  by pat_completeness auto
termination
  by (relation "measure (\<lambda>(s, page_num, root, traversed). Suc (t_num_pages s) - traversed)") auto

declare page_descends_from_root.simps [simp del]

definition reject_v2_page :: "tree \<Rightarrow> nat \<Rightarrow> nat \<Rightarrow> unit \<Rightarrow> string + unit" where
  "reject_v2_page s root_page_num page_num u =
     (let page = t_pages s page_num
      in if get_node_type page \<noteq> NODE_LEAF then Inr ()
         else if detect_page page \<noteq> PAGE_FORMAT_SLOTTED_V2 then Inr ()
         else if page_descends_from_root s page_num root_page_num 0 then Inl V2_READ_ONLY else Inr ())"

definition reject_descendant_v2_pages :: "tree \<Rightarrow> nat \<Rightarrow> string + unit" where
  "reject_descendant_v2_pages s root_page_num = for_each (reject_v2_page s root_page_num) [0..<t_num_pages s] ()"

function find_leftmost_leaf :: "tree \<Rightarrow> nat \<Rightarrow> nat \<Rightarrow> string + nat" where
  "find_leftmost_leaf s page_num depth =
     (if \<not> valid_page_num s page_num \<or> depth > t_num_pages s then Inl ''corrupt B+ tree path blocks mutation''
      else
        let node = t_pages s page_num
        in if get_node_type node = NODE_LEAF then Inr page_num
           else if get_node_type node \<noteq> NODE_INTERNAL then Inl ''unknown B+ tree node type blocks mutation''
           else if internal_node_num_keys node > INTERNAL_NODE_MAX_KEYS then
             Inl ''corrupt internal-node key count blocks mutation''
           else let child = child_at node 0
                in if \<not> valid_page_num s child \<or> child = page_num then Inl ''corrupt internal child pointer blocks mutation''
                   else find_leftmost_leaf s child (depth + 1))"
  by pat_completeness auto
termination
  by (relation "measure (\<lambda>(s, page_num, depth). Suc (t_num_pages s) - depth)") auto

declare find_leftmost_leaf.simps [simp del]

text \<open>Visiting a page leaves fewer pages to visit.\<close>

lemma fewer_unvisited:
  "page_num < (n :: nat) \<Longrightarrow> page_num \<notin> set visited \<Longrightarrow> card ({..<n} - set (page_num # visited)) < card ({..<n} - set visited)"
  using card_Diff1_less [of "{..<n} - set visited" page_num] by (simp add: Diff_insert [symmetric])

section \<open>The chain of the leaves\<close>

text \<open>Walking over the keys of one leaf: the first and the previous key.\<close>

definition check_leaf_key :: "bytes \<Rightarrow> nat \<Rightarrow> nat \<times> nat \<Rightarrow> string + nat \<times> nat" where
  "check_leaf_key page i st =
     (let (first_key, previous_key) = st
      in case page_key_at page i of None \<Rightarrow> Inl ''non-monotonic leaf key order blocks mutation''
         | Some current_key \<Rightarrow>
             if i > 0 \<and> previous_key \<ge> current_key then Inl ''non-monotonic leaf key order blocks mutation''
             else Inr (if i = 0 then current_key else first_key, current_key))"

text \<open>The check of one leaf of the chain, behind the check for a cycle: its next page and the last key so far.\<close>

definition check_chain_leaf :: "tree \<Rightarrow> nat \<Rightarrow> nat \<Rightarrow> nat option \<Rightarrow> string + nat \<times> nat option" where
  "check_chain_leaf s page_num expected_prev previous_last_key =
     (let page = t_pages s page_num
      in if detect_page page = PAGE_FORMAT_SLOTTED_V2 then Inl V2_READ_ONLY
         else if detect_page page \<noteq> PAGE_FORMAT_FIXED_V1 then Inl ''unknown or corrupt leaf format blocks mutation''
         else case (page_prev page, page_next page, page_count page) of
           (Some prev_page, Some next_page, Some count) \<Rightarrow>
             if prev_page \<noteq> expected_prev then Inl ''inconsistent leaf sibling chain blocks mutation''
             else if count > 0 then
               and_then (for_each (check_leaf_key page) [0..<count] (0, 0)) (\<lambda>(first_key, last_key).
                 case previous_last_key of
                   Some previous \<Rightarrow>
                     if previous \<ge> first_key then Inl ''non-monotonic leaf key order blocks mutation''
                     else Inr (next_page, Some last_key)
                 | None \<Rightarrow> Inr (next_page, Some last_key))
             else Inr (next_page, previous_last_key)
         | _ \<Rightarrow> Inl ''inconsistent leaf sibling chain blocks mutation'')"

function chain_loop :: "tree \<Rightarrow> nat list \<Rightarrow> nat \<Rightarrow> nat \<Rightarrow> nat option \<Rightarrow> string + unit" where
  "chain_loop s visited page_num expected_prev previous_last_key =
     (if \<not> valid_page_num s page_num \<or> page_num \<in> set visited then Inl ''corrupt or cyclic leaf chain blocks mutation''
      else case check_chain_leaf s page_num expected_prev previous_last_key of Inl e \<Rightarrow> Inl e
      | Inr (next_page, last_key) \<Rightarrow>
          if next_page = 0 then Inr ()
          else if \<not> valid_page_num s next_page \<or> next_page = page_num then
            Inl ''corrupt leaf sibling metadata blocks mutation''
          else chain_loop s (page_num # visited) next_page page_num last_key)"
  by pat_completeness auto
termination
proof (relation "measure (\<lambda>(s, visited, page_num, p, k). card ({..<t_num_pages s} - set visited))")
  fix s visited page_num expected_prev previous_last_key x next_page last_key
  assume "\<not> (\<not> valid_page_num s page_num \<or> page_num \<in> set visited)"
  then show "((s, page_num # visited, next_page, page_num, last_key), s, visited, page_num, expected_prev, previous_last_key)
      \<in> measure (\<lambda>(s, visited, page_num, p, k). card ({..<t_num_pages s} - set visited))"
    using fewer_unvisited [of page_num "t_num_pages s" visited] by (simp add: valid_page_num_def)
qed simp

declare chain_loop.simps [simp del]

definition validate_leaf_chain :: "tree \<Rightarrow> nat \<Rightarrow> string + unit" where
  "validate_leaf_chain s root_page_num =
     and_then (find_leftmost_leaf s root_page_num 0) (\<lambda>page_num. chain_loop s [] page_num 0 None)"

section \<open>The nodes below the root\<close>

text \<open>The stack of pages to visit has its top in front.\<close>

definition push_child :: "tree \<Rightarrow> nat \<Rightarrow> bytes \<Rightarrow> nat \<Rightarrow> nat list \<Rightarrow> string + nat list" where
  "push_child s page_num node i stack =
     (let child = child_at node i
      in if \<not> valid_page_num s child \<or> child = page_num then Inl ''corrupt internal child pointer blocks mutation''
         else Inr (child # stack))"

function structure_loop :: "tree \<Rightarrow> nat list \<Rightarrow> nat list \<Rightarrow> string + unit" where
  "structure_loop s visited [] = Inr ()"
| "structure_loop s visited (page_num # stack) =
     (if \<not> valid_page_num s page_num \<or> page_num \<in> set visited then Inl ''corrupt or cyclic B+ tree blocks mutation''
      else
        let node = t_pages s page_num
        in if get_node_type node = NODE_LEAF then
             (case validate_leaf_for_mutation s page_num of Inl e \<Rightarrow> Inl e
              | Inr _ \<Rightarrow> structure_loop s (page_num # visited) stack)
           else if get_node_type node \<noteq> NODE_INTERNAL then Inl ''unknown B+ tree node type blocks mutation''
           else if internal_node_num_keys node > INTERNAL_NODE_MAX_KEYS then
             Inl ''corrupt internal-node key count blocks mutation''
           else if length stack + internal_node_num_keys node + 1 > t_num_pages s then
             Inl ''B+ tree fanout exceeds mutation-policy traversal capacity''
           else case for_each (push_child s page_num node) [0..<internal_node_num_keys node] stack of Inl e \<Rightarrow> Inl e
           | Inr stack' \<Rightarrow>
               let right_child = internal_node_right_child node
               in if \<not> valid_page_num s right_child \<or> right_child = page_num then
                    Inl ''corrupt internal right-child pointer blocks mutation''
                  else structure_loop s (page_num # visited) (right_child # stack'))"
  by pat_completeness auto
termination
proof (relation "measure (\<lambda>(s, visited, stack). card ({..<t_num_pages s} - set visited))")
  fix s visited page_num and stack stack' :: "nat list" and r
  assume "\<not> (\<not> valid_page_num s page_num \<or> page_num \<in> set visited)"
  then have "card ({..<t_num_pages s} - set (page_num # visited)) < card ({..<t_num_pages s} - set visited)"
    using fewer_unvisited by (simp only: valid_page_num_def) blast
  then show "((s, page_num # visited, stack), s, visited, page_num # stack)
      \<in> measure (\<lambda>(s, visited, stack). card ({..<t_num_pages s} - set visited))"
    "((s, page_num # visited, r # stack'), s, visited, page_num # stack)
      \<in> measure (\<lambda>(s, visited, stack). card ({..<t_num_pages s} - set visited))" by simp_all
qed simp

declare structure_loop.simps [simp del]

definition validate_tree_structure :: "tree \<Rightarrow> nat \<Rightarrow> string + unit" where
  "validate_tree_structure s root_page_num = structure_loop s [] [root_page_num]"

definition tree_mutation_supported :: "tree \<Rightarrow> nat \<Rightarrow> string + unit" where
  "tree_mutation_supported s root_page_num =
     (if \<not> valid_page_num s root_page_num then Inl ''table and a valid root are required before leaf mutation''
      else and_then (reject_descendant_v2_pages s root_page_num) (\<lambda>_.
           and_then (validate_tree_structure s root_page_num) (\<lambda>_. validate_leaf_chain s root_page_num)))"

text \<open>
  What the check before a change decides: a tree it accepts has an ascending chain of fixed V1 leaves, and every
  well-formed table without V2 pages is accepted.
\<close>

section \<open>The keys of one leaf\<close>

lemma ascending_take_Suc:
  fixes ks :: "nat list"
  assumes "m < length ks"
  shows "sorted_wrt (<) (take (Suc m) ks) \<longleftrightarrow> sorted_wrt (<) (take m ks) \<and> (m > 0 \<longrightarrow> ks ! (m - 1) < ks ! m)"
proof -
  have "sorted_wrt (<) (take (Suc m) ks) \<longleftrightarrow> sorted_wrt (<) (take m ks) \<and> (\<forall>x \<in> set (take m ks). x < ks ! m)"
    using assms by (simp add: take_Suc_conv_app_nth sorted_wrt_append)
  moreover have "(\<forall>x \<in> set (take m ks). x < ks ! m) \<longleftrightarrow> (m > 0 \<longrightarrow> ks ! (m - 1) < ks ! m)" if s: "sorted_wrt (<) (take m ks)"
  proof
    assume "\<forall>x \<in> set (take m ks). x < ks ! m"
    moreover have "ks ! (m - 1) \<in> set (take m ks)" if "m > 0" using nth_mem [of "m - 1" "take m ks"] assms that by simp
    ultimately show "m > 0 \<longrightarrow> ks ! (m - 1) < ks ! m" by blast
  next
    assume l: "m > 0 \<longrightarrow> ks ! (m - 1) < ks ! m"
    show "\<forall>x \<in> set (take m ks). x < ks ! m"
    proof
      fix x assume "x \<in> set (take m ks)"
      then obtain i where i: "i < m" "x = ks ! i" using assms by (auto simp: in_set_conv_nth)
      have "x \<le> ks ! (m - 1)"
      proof (cases "i = m - 1")
        case False
        then have "take m ks ! i < take m ks ! (m - 1)" using i assms by (intro sorted_wrt_nth_less [OF s]) auto
        then show ?thesis using i assms by simp
      qed (use i in simp)
      then show "x < ks ! m" using l i by simp
    qed
  qed
  ultimately show ?thesis by blast
qed

lemma check_leaf_keys:
  assumes "detect_page page \<noteq> PAGE_FORMAT_UNKNOWN" and ks: "ks = map fst (page_rows page)" and "m \<le> length ks"
  shows "for_each (check_leaf_key page) [0..<m] (0, 0) =
    (if sorted_wrt (<) (take m ks) then Inr (if m = 0 then (0, 0) else (ks ! 0, ks ! (m - 1)))
     else Inl ''non-monotonic leaf key order blocks mutation'')"
  using assms(3)
proof (induction m)
  case (Suc m)
  then have m: "m < length ks" by simp
  have "page_key_at page m = Some (ks ! m)" using page_access(2) [OF assms(1)] m by (simp add: ks)
  then show ?case using Suc ascending_take_Suc [OF m] by (auto simp: for_each_append check_leaf_key_def)
qed simp

lemma v1_keys: "detect_page page = PAGE_FORMAT_FIXED_V1 \<Longrightarrow> map fst (page_rows page) = leaf_keys page"
  by (simp add: page_rows_def)

lemma v1_siblings:
  "detect_page page = PAGE_FORMAT_FIXED_V1 \<Longrightarrow> page_next page = Some (leaf_node_next_leaf page) \<and> page_prev page = Some (leaf_node_prev_leaf page)"
  by (simp add: page_next_def page_prev_def sibling_page_def leaf_node_next_leaf_def leaf_node_prev_leaf_def)

definition last_key_after :: "nat list \<Rightarrow> nat option \<Rightarrow> nat option" where
  "last_key_after ks previous = (if ks = [] then previous else Some (last ks))"

definition above :: "nat option \<Rightarrow> nat list \<Rightarrow> bool" where
  "above previous ks \<longleftrightarrow> (\<forall>p \<in> set_option previous. \<forall>k \<in> set ks. p < k)"

lemma above_ascending:
  "sorted_wrt (<) ks \<Longrightarrow> ks \<noteq> [] \<Longrightarrow> above (Some p) ks \<longleftrightarrow> p < ks ! 0"
  by (cases ks) (auto simp: above_def)

lemma check_chain_leaf_spec:
  "check_chain_leaf s n p previous = Inr (nxt, l) \<longleftrightarrow>
    detect_page (t_pages s n) = PAGE_FORMAT_FIXED_V1 \<and> leaf_node_prev_leaf (t_pages s n) = p \<and>
    nxt = leaf_node_next_leaf (t_pages s n) \<and> sorted_wrt (<) (leaf_keys (t_pages s n)) \<and> above previous (leaf_keys (t_pages s n)) \<and>
    l = last_key_after (leaf_keys (t_pages s n)) previous"
proof (cases "detect_page (t_pages s n) = PAGE_FORMAT_FIXED_V1")
  case v1: True
  let ?page = "t_pages s n"
  define ks where "ks = leaf_keys (t_pages s n)"
  have A: "page_count ?page = Some (length ks)" using page_rows_v1(2) [OF v1] by (simp add: ks_def)
  note S = v1_siblings [OF v1]
  show ?thesis
  proof (cases "ks = []")
    case True
    then show ?thesis unfolding ks_def [symmetric] using v1 A S by (auto simp: check_chain_leaf_def last_key_after_def above_def Let_def split: if_splits)
  next
    case False
    have pos: "0 < length ks" "length ks \<noteq> 0" using False by blast+
    have loop: "for_each (check_leaf_key ?page) [0..<length ks] (0, 0) =
      (if sorted_wrt (<) ks then Inr (ks ! 0, ks ! (length ks - 1)) else Inl ''non-monotonic leaf key order blocks mutation'')"
      using check_leaf_keys [of ?page ks "length ks"] v1 v1_keys [OF v1] pos by (simp add: ks_def [symmetric])
    have e: "check_chain_leaf s n p previous =
      (if leaf_node_prev_leaf ?page \<noteq> p then Inl ''inconsistent leaf sibling chain blocks mutation''
       else if \<not> sorted_wrt (<) ks then Inl ''non-monotonic leaf key order blocks mutation''
       else case previous of Some previous \<Rightarrow>
              if previous \<ge> ks ! 0 then Inl ''non-monotonic leaf key order blocks mutation''
              else Inr (leaf_node_next_leaf ?page, Some (ks ! (length ks - 1)))
          | None \<Rightarrow> Inr (leaf_node_next_leaf ?page, Some (ks ! (length ks - 1))))"
      unfolding check_chain_leaf_def Let_def A conjunct1 [OF S] conjunct2 [OF S] v1 using pos(1) by (simp add: loop split: option.split)
    have "above previous ks \<longleftrightarrow> (case previous of Some q \<Rightarrow> q < ks ! 0 | None \<Rightarrow> True)" if "sorted_wrt (<) ks"
      using above_ascending [OF that False] by (cases previous) (simp_all add: above_def)
    moreover have "last_key_after ks previous = Some (ks ! (length ks - 1))"
      unfolding last_key_after_def using False by (simp add: last_conv_nth)
    ultimately show ?thesis unfolding e ks_def [symmetric] using v1 by (cases previous) auto
  qed
qed (auto simp: check_chain_leaf_def Let_def split: if_splits)

section \<open>The chain of the leaves\<close>

definition chain_keys :: "(nat \<Rightarrow> bytes) \<Rightarrow> nat list \<Rightarrow> nat list" where
  "chain_keys P ns = concat (map (\<lambda>n. leaf_keys (P n)) ns)"

lemma ascending_append:
  "sorted_wrt (<) (ks @ ks') \<and> above previous (ks @ ks') \<longleftrightarrow>
    sorted_wrt (<) ks \<and> above previous ks \<and> sorted_wrt (<) ks' \<and> above (last_key_after ks previous) ks'"
proof (cases "ks = []")
  case True
  then show ?thesis by (simp add: last_key_after_def above_def)
next
  case False
  then obtain xs x where ks: "ks = xs @ [x]" by (metis append_butlast_last_id)
  show ?thesis
    unfolding ks by (cases previous) (auto simp: last_key_after_def above_def sorted_wrt_append intro: less_trans [of _ x])
qed

definition leaf_chain :: "tree \<Rightarrow> nat list \<Rightarrow> nat \<Rightarrow> nat option \<Rightarrow> nat list \<Rightarrow> bool" where
  "leaf_chain s visited p previous ns \<longleftrightarrow> chain (t_pages s) p ns \<and> distinct ns \<and> set ns \<inter> set visited = {} \<and>
     (\<forall>m \<in> set ns. valid_page_num s m \<and> detect_page (t_pages s m) = PAGE_FORMAT_FIXED_V1) \<and> 0 \<notin> set (tl ns) \<and>
     sorted_wrt (<) (chain_keys (t_pages s) ns) \<and> above previous (chain_keys (t_pages s) ns)"

lemma leaf_chain_Cons:
  "leaf_chain s visited p previous (n # ns) \<longleftrightarrow> valid_page_num s n \<and> n \<notin> set visited \<and> 0 \<notin> set ns \<and> n \<notin> set ns \<and>
     leaf_node_next_leaf (t_pages s n) = (case ns of [] \<Rightarrow> 0 | m # _ \<Rightarrow> m) \<and>
     check_chain_leaf s n p previous = Inr (leaf_node_next_leaf (t_pages s n), last_key_after (leaf_keys (t_pages s n)) previous) \<and>
     leaf_chain s (n # visited) n (last_key_after (leaf_keys (t_pages s n)) previous) ns"
proof -
  have e: "chain_keys (t_pages s) (n # ns) = leaf_keys (t_pages s n) @ chain_keys (t_pages s) ns" by (simp add: chain_keys_def)
  have "0 \<notin> set ns \<Longrightarrow> 0 \<notin> set (tl ns)" by (cases ns) auto
  then show ?thesis
    unfolding leaf_chain_def check_chain_leaf_spec e chain.simps ascending_append by auto
qed

lemma chain_loop_spec:
  "chain_loop s visited n p previous = Inr () \<longleftrightarrow> (\<exists>ns. leaf_chain s visited p previous (n # ns))"
proof (induction s visited n p previous rule: chain_loop.induct)
  case (1 s visited n p previous)
  let ?next = "leaf_node_next_leaf (t_pages s n)" and ?last = "last_key_after (leaf_keys (t_pages s n)) previous"
  show ?case
  proof (cases "valid_page_num s n \<and> n \<notin> set visited \<and> check_chain_leaf s n p previous = Inr (?next, ?last)")
    case False
    have "chain_loop s visited n p previous \<noteq> Inr ()"
      using False check_chain_leaf_spec by (subst chain_loop.simps) (auto split: sum.splits)
    then show ?thesis using False by (auto simp: leaf_chain_Cons)
  next
    case ok: True
    have e: "chain_loop s visited n p previous = (if ?next = 0 then Inr ()
        else if \<not> valid_page_num s ?next \<or> ?next = n then Inl ''corrupt leaf sibling metadata blocks mutation''
        else chain_loop s (n # visited) ?next n ?last)"
      using ok by (subst chain_loop.simps) simp
    consider "?next = 0" | "?next \<noteq> 0" "\<not> valid_page_num s ?next \<or> ?next = n" | "?next \<noteq> 0" "valid_page_num s ?next" "?next \<noteq> n" by blast
    then show ?thesis
    proof cases
      case 1
      have "leaf_chain s visited p previous [n]" using ok 1 by (simp add: leaf_chain_Cons) (simp add: leaf_chain_def above_def chain_keys_def)
      then show ?thesis unfolding e using 1 by auto
    next
      case 2
      have "\<not> leaf_chain s visited p previous (n # ns)" for ns
        using 2 by (cases ns) (auto simp: leaf_chain_Cons)
      then show ?thesis unfolding e using 2 by auto
    next
      case 3
      have "(\<exists>ns. leaf_chain s visited p previous (n # ns)) \<longleftrightarrow> (\<exists>ns. leaf_chain s (n # visited) n ?last (?next # ns))"
      proof
        assume "\<exists>ns. leaf_chain s visited p previous (n # ns)"
        then obtain ns where ns: "leaf_chain s visited p previous (n # ns)" by blast
        then show "\<exists>ns. leaf_chain s (n # visited) n ?last (?next # ns)"
          using 3(1) by (cases ns) (auto simp: leaf_chain_Cons [of s visited])
      next
        assume "\<exists>ns. leaf_chain s (n # visited) n ?last (?next # ns)"
        then obtain ns where ns: "leaf_chain s (n # visited) n ?last (?next # ns)" by blast
        have "leaf_chain s visited p previous (n # ?next # ns)"
          unfolding leaf_chain_Cons [of s visited] using ok ns 3 by (auto simp: leaf_chain_def)
        then show "\<exists>ns. leaf_chain s visited p previous (n # ns)" by blast
      qed
      moreover have "chain_loop s (n # visited) ?next n ?last = Inr () \<longleftrightarrow> (\<exists>ns. leaf_chain s (n # visited) n ?last (?next # ns))"
        by (rule "1.IH") (use ok 3 in auto)
      ultimately show ?thesis unfolding e using 3 by simp
    qed
  qed
qed

section \<open>Well-formed tables are accepted\<close>

lemma leaf_validated:
  assumes "chain (t_pages s) 0 ns" "distinct ns" "n \<in> set ns"
    and ok: "\<And>m. m \<in> set ns \<Longrightarrow> valid_page_num s m \<and> detect_page (t_pages s m) = PAGE_FORMAT_FIXED_V1"
  shows "validate_leaf_for_mutation s n = Inr ()"
proof -
  from split_list [OF assms(3)] obtain as bs where ns: "ns = as @ n # bs" by blast
  note C = chain_append [OF assms(1) [unfolded ns]]
  have "detect_page (t_pages s n) = PAGE_FORMAT_FIXED_V1" using ok assms(3) by blast
  note S = v1_siblings [OF this] and V = this
  have "leaf_node_next_leaf (t_pages s n) = 0 \<or> leaf_node_next_leaf (t_pages s n) \<in> set ns \<and> leaf_node_next_leaf (t_pages s n) \<noteq> n"
    using C assms(2) by (cases bs) (auto simp: ns)
  moreover have "leaf_node_prev_leaf (t_pages s n) = 0 \<or> leaf_node_prev_leaf (t_pages s n) \<in> set ns \<and> leaf_node_prev_leaf (t_pages s n) \<noteq> n"
  proof (cases "as = []")
    case False
    then have "last as \<in> set as" by simp
    then show ?thesis using C assms(2) False by (auto simp: ns)
  qed (use C in simp)
  ultimately show ?thesis using S V ok by (auto simp: validate_leaf_for_mutation_def)
qed

lemma structure_loop_leaves:
  assumes "distinct ns" "set ns \<inter> set visited = {}"
    and "\<And>n. n \<in> set ns \<Longrightarrow> valid_page_num s n \<and> get_node_type (t_pages s n) = NODE_LEAF \<and> validate_leaf_for_mutation s n = Inr ()"
  shows "structure_loop s visited ns = Inr ()"
  using assms
proof (induction ns arbitrary: visited)
  case Nil
  then show ?case by (simp add: structure_loop.simps)
next
  case (Cons n ns)
  have "structure_loop s (n # visited) ns = Inr ()" by (rule Cons.IH) (use Cons.prems in auto)
  then show ?case using Cons.prems by (simp add: structure_loop.simps)
qed

lemma push_children:
  assumes "\<And>i. i < n \<Longrightarrow> valid_page_num s (child_at node i) \<and> child_at node i \<noteq> p"
  shows "for_each (push_child s p node) [0..<n] stack = Inr (rev (map (child_at node) [0..<n]) @ stack)"
  using assms by (induction n) (simp_all add: for_each_append push_child_def)

lemma no_v2_descendants:
  assumes "\<And>n. n < t_num_pages s \<Longrightarrow> \<not> slotted_validate (t_pages s n)"
  shows "reject_descendant_v2_pages s r = Inr ()"
proof -
  have "for_each (reject_v2_page s r) xs () = Inr ()" if "\<forall>n \<in> set xs. n < t_num_pages s" for xs
    using that assms by (induction xs) (auto simp: reject_v2_page_def Let_def detect_v2)
  then show ?thesis by (simp add: reject_descendant_v2_pages_def)
qed

lemma table_leaves:
  assumes T: "table_ok s sh" and few: "t_num_pages s \<le> INVALID_PAGE_NUM" and n: "n \<in> set (leaf_pages sh)"
  shows "valid_page_num s n \<and> detect_page (t_pages s n) = PAGE_FORMAT_FIXED_V1 \<and> get_node_type (t_pages s n) = NODE_LEAF"
proof -
  have "well_formed (t_pages s) UNIV sh" "n < t_num_pages s"
    using T n by (auto simp: table_ok_def tree_ok_def space_def used_pages_def)
  then have "leaf_ok (t_pages s n)" "n < t_num_pages s" using n well_formed_leaf_ok by blast+
  then show ?thesis using few leaf_ok_v1 by (auto simp: valid_page_num_def leaf_ok_def)
qed

lemma table_leaf_chain:
  assumes T: "table_ok s sh" and few: "t_num_pages s \<le> INVALID_PAGE_NUM"
  shows "leaf_chain s [] 0 None (leaf_pages sh)"
proof -
  have wf: "well_formed (t_pages s) UNIV sh" and link: "linked s sh" and d: "distinct (leaf_pages sh)"
    using T by (auto simp: table_ok_def tree_ok_def)
  have "chain_keys (t_pages s) (leaf_pages sh) = map cell_key (all_cells (t_pages s) (leaf_pages sh))"
    by (simp add: chain_keys_def all_cells_def map_concat comp_def)
  then have "sorted_wrt (<) (chain_keys (t_pages s) (leaf_pages sh))" using all_cells_sorted [OF wf] by simp
  moreover have "0 \<notin> set (tl (leaf_pages sh))"
    using link by (cases "leaf_pages sh"; cases "tl (leaf_pages sh)") (auto simp: linked_def)
  ultimately show ?thesis
    using table_leaves [OF T few] link d by (auto simp: leaf_chain_def linked_def above_def)
qed

lemma table_accepted:
  assumes T: "table_ok s sh" and few: "t_num_pages s \<le> INVALID_PAGE_NUM"
    and v1: "\<And>n. n < t_num_pages s \<Longrightarrow> \<not> slotted_validate (t_pages s n)"
  shows "tree_mutation_supported s (t_root s) = Inr ()"
proof -
  note L = table_leaves [OF T few] and C = table_leaf_chain [OF T few]
  have ch: "chain (t_pages s) 0 (leaf_pages sh)" and d: "distinct (leaf_pages sh)" using C by (auto simp: leaf_chain_def)
  have ok: "validate_leaf_for_mutation s n = Inr ()" if "n \<in> set (leaf_pages sh)" for n
    by (rule leaf_validated [OF ch d that]) (use L in blast)
  from T consider n where "sh = Leaf_At n" | p ns where "sh = Node_At p (map Leaf_At ns)" by (auto simp: table_ok_def two_levels_def)
  then have "valid_page_num s (t_root s) \<and> validate_tree_structure s (t_root s) = Inr () \<and>
      (\<exists>n ns. find_leftmost_leaf s (t_root s) 0 = Inr n \<and> leaf_pages sh = n # ns)"
  proof cases
    case 1
    then have "t_root s = n" using T by (simp add: table_ok_def tree_ok_def)
    then show ?thesis using 1 L [of n] ok [of n] structure_loop_leaves [of "[n]" "[]" s]
      by (simp add: validate_tree_structure_def find_leftmost_leaf.simps)
  next
    case 2
    then have two: "two_level_ok s p ns" using T by (simp add: table_ok_two_level)
    have root: "t_root s = p" and len: "1 < length ns" and pn: "p \<notin> set ns" and q: "node_ok (t_pages s p)"
      and kids: "node_kids (t_pages s p) = ns" and sp: "space s (insert 0 (insert p (set ns)))"
      using two by (simp_all add: two_level_ok_def)
    let ?q = "t_pages s p"
    have lp: "leaf_pages sh = ns" using 2 by (simp only: leaf_pages_flat)
    have num: "length ns = Suc (internal_node_num_keys ?q)" using kids by auto
    have kid: "child_at ?q i = ns ! i" if "i < length ns" for i
      using that num kids [symmetric] by (simp add: node_kids_def del: upt_Suc)
    have vp: "valid_page_num s p" using sp few by (auto simp: valid_page_num_def space_def)
    have vk: "valid_page_num s (ns ! i) \<and> ns ! i \<noteq> p" if "i < length ns" for i
      using L [unfolded lp, of "ns ! i"] pn nth_mem [OF that] by auto
    have ty: "get_node_type ?q = NODE_INTERNAL" "NODE_INTERNAL \<noteq> NODE_LEAF" "internal_node_num_keys ?q \<le> INTERNAL_NODE_MAX_KEYS"
      using q by (simp_all add: node_ok_def NODE_INTERNAL_def NODE_LEAF_def)
    have room: "length ns \<le> t_num_pages s"
    proof -
      have "card (set ns) \<le> card {..<t_num_pages s}" using sp by (intro card_mono) (auto simp: space_def)
      then show ?thesis using d by (simp add: lp distinct_card)
    qed
    have push: "for_each (push_child s p ?q) [0..<internal_node_num_keys ?q] [] = Inr (rev (butlast ns))"
    proof -
      have "map (child_at ?q) [0..<internal_node_num_keys ?q] = butlast ns"
        by (rule nth_equalityI) (use num kid in \<open>simp_all add: nth_butlast\<close>)
      then show ?thesis using push_children [of "internal_node_num_keys ?q" s ?q p "[]"] vk kid num by simp
    qed
    have right: "internal_node_right_child ?q = last ns"
    proof -
      have "last ns = ns ! internal_node_num_keys ?q" using num by (subst last_conv_nth) auto
      then show ?thesis using kid [of "internal_node_num_keys ?q"] num by (simp add: child_at_def internal_node_right_child_def)
    qed
    have rest: "last ns # rev (butlast ns) = rev ns" using len by (cases ns rule: rev_cases) auto
    have "structure_loop s [p] (rev ns) = Inr ()"
      by (rule structure_loop_leaves) (use d pn L ok in \<open>auto simp: lp\<close>)
    moreover have "ns \<noteq> []" using len by auto
    then have "valid_page_num s (last ns)" "last ns \<noteq> p" using vk [of "length ns - 1"] len last_conv_nth [of ns] by auto
    ultimately have "structure_loop s [] [p] = Inr ()"
      using vp ty push right rest room num by (simp add: structure_loop.simps Let_def)
    moreover have "find_leftmost_leaf s p 0 = Inr (ns ! 0)"
    proof -
      have z: "ns ! 0 \<in> set ns" "0 < length ns" using len by (cases ns; simp)+
      have "find_leftmost_leaf s (ns ! 0) 1 = Inr (ns ! 0)"
        using L [unfolded lp, OF z(1)] room len by (subst find_leftmost_leaf.simps) simp
      then show ?thesis using vp ty kid [OF z(2)] vk [OF z(2)] by (subst find_leftmost_leaf.simps) (simp add: Let_def)
    qed
    moreover have "ns = ns ! 0 # tl ns" using len by (cases ns) auto
    ultimately show ?thesis using vp root lp by (auto simp: validate_tree_structure_def)
  qed
  then obtain n ns where R: "valid_page_num s (t_root s)" "validate_tree_structure s (t_root s) = Inr ()"
    "find_leftmost_leaf s (t_root s) 0 = Inr n" "leaf_pages sh = n # ns" by blast
  have "chain_loop s [] n 0 None = Inr ()" unfolding chain_loop_spec using C R(4) by auto
  then show ?thesis using R no_v2_descendants [OF v1] by (simp add: tree_mutation_supported_def validate_leaf_chain_def)
qed

end
