(* ===== verification/BTreeStale.thy ===== *)
theory BTreeStale
  imports BTreeTable
begin

text \<open>
  The separator above a leaf is not lowered when the leaf loses its largest key. A later split of that leaf
  then finds no separator to correct and puts the new leaf in front of the old one: the rows left in the old
  leaf are no longer found.
\<close>

lemma two_level_lookup:
  assumes root: "t_root s = p" and ok: "node_ok (t_pages s p)" and j: "j \<le> internal_node_num_keys (t_pages s p)" "x \<in> route (t_pages s p) j"
    and l: "child_at (t_pages s p) j = l" "get_node_type (t_pages s l) = NODE_LEAF"
  shows "\<exists>c s3. table_find x s = Some (Inr (Some c, s3)) \<and> c_page c = l \<and> t_pages s3 = t_pages s"
proof -
  let ?q = "t_pages s p" let ?j = "find_child_loop ?q x 0 (internal_node_num_keys ?q)"
  have "?j = j" by (rule route_unique [OF find_child_routes(2) [OF ok] j(2) find_child_routes(1) [OF ok] j(1)])
  then obtain off where off: "internal_node_find_child ?q x = Inr off" "rd32 off ?q = l"
    using find_child_child_at [OF ok, of x] l(1) by auto
  have ty: "get_node_type ?q \<noteq> NODE_LEAF" using ok by (auto simp: node_ok_def NODE_LEAF_def NODE_INTERNAL_def)
  have "table_find x s = internal_node_find p x (fetch p s)" using root ty by (simp add: table_find_def Let_def)
  also have "\<dots> = (case leaf_node_find l x (fetch l (fetch p (fetch p s))) of (c, s3) \<Rightarrow> Some (Inr (Some c, s3)))"
    using off l(2) by (subst internal_node_find.simps) (simp add: Let_def)
  finally show ?thesis by (simp add: leaf_node_find_def Let_def)
qed

text \<open>The parent when no separator is the old maximum.\<close>

lemma parent_misled:
  assumes ok: "node_ok q" and n: "internal_node_num_keys q < 509" "i < internal_node_num_keys q"
    and bound: "cm < 2 ^ 32" "new < 2 ^ 32" and below: "\<And>j. j < i \<Longrightarrow> node_seps q ! j < cm \<and> node_seps q ! j \<noteq> old"
    and above: "cm \<le> node_seps q ! i" "old < node_seps q ! i" and rm: "\<not> cm > rm"
    and q1: "q1 = update_internal_node_key old mx q"
    and q2: "q2 = set_num_keys (internal_node_num_keys q + 1)
      (if cm > rm then insert_behind_right rm new q1 else insert_in_front cm new q1)"
  shows "q1 = q" "node_seps q2 = put_at i cm (node_seps q)" "node_kids q2 = put_at i new (node_kids q)" "node_ok q2"
proof -
  let ?n = "internal_node_num_keys q" and ?ss = "node_seps q"
  have len: "length q = 4096" and srt: "sorted ?ss" and ty: "get_node_type q = NODE_INTERNAL" using ok by (simp_all add: node_ok_seps)
  have up: "?ss ! i \<le> ?ss ! j" if "i \<le> j" "j < ?n" for j using sorted_nth_mono [OF srt that(1)] that(2) by simp
  show q1q: "q1 = q" unfolding q1
  proof (rule update_key_none)
    show "internal_node_key q j \<noteq> old" if "j < ?n" for j
      using below [of j] up [of j] above(2) that nth_node_lists(1) [OF that] by (cases "j < i") auto
  qed
  define idx where "idx = first_not_less q cm [0..<?n] ?n"
  have q2': "q2 = set_num_keys (?n + 1) (insert_in_front cm new q)" using q2 rm q1q by simp
  note I = insert_in_front_spec [OF len n(1) bound idx_def q2']
  have X: "idx \<le> ?n" "\<And>j. j < idx \<Longrightarrow> internal_node_key q j < cm" "idx < ?n \<Longrightarrow> cm \<le> internal_node_key q idx"
    using first_not_less_spec [of "[0..<?n]" 0 ?n q cm] by (auto simp: idx_def)
  have "idx = i"
  proof (rule linorder_cases [of idx i])
    assume "idx < i"
    then show "idx = i" using X(3) below [of idx] n(2) by simp
  next
    assume "i < idx"
    then show "idx = i" using X(2) [of i] above(1) n(2) by simp
  qed
  then show s: "node_seps q2 = put_at i cm ?ss" and "node_kids q2 = put_at i new (node_kids q)" using I(2,3) by simp_all
  have "sorted (put_at i cm ?ss)"
  proof (rule sorted_wrt_put_at [OF srt])
    show "?ss ! j \<le> cm" if "j < i" "j < length ?ss" for j using below [OF that(1)] by simp
    show "cm \<le> ?ss ! j" if "i \<le> j" "j < length ?ss" for j using up [of j] that above(1) by simp
  qed
  moreover have "internal_node_num_keys q2 = Suc ?n" using arg_cong [OF s, of length] by simp
  ultimately show "node_ok q2" unfolding node_ok_seps using s I(1) head_bytes(1) [OF I(4) len I(1)] ty n(1) by simp
qed

text \<open>The keys of the old half now lead to the new leaf.\<close>

lemma misled_route:
  assumes q2: "node_ok q2" "node_seps q2 = put_at i cm (node_seps q)" and i: "i < internal_node_num_keys q"
    and x: "x \<in> route q i" "x \<le> cm"
  shows "x \<in> route q2 i"
proof -
  have n2: "internal_node_num_keys q2 = Suc (internal_node_num_keys q)" using arg_cong [OF q2(2), of length] by simp
  have "i = 0 \<or> node_seps q ! (i - 1) < x" using x(1) i by (cases i) (auto simp: route_def)
  then show ?thesis using route_iff [OF q2(1), of i x] n2 i x(2) by (auto simp: q2(2) nth_put_at)
qed

lemma stale_split:
  assumes T: "table_ok s (Node_At p (map Leaf_At ns))" and find: "table_find k s = Some (Inr (Some c, s1))"
    and full: "leaf_node_num_cells (t_pages s (c_page c)) = LEAF_NODE_MAX_CELLS"
    and new: "k \<notin> fst ` table_rows s (Node_At p (map Leaf_At ns))" and k: "k < 2 ^ 32" and r: "row_ok r"
    and room: "t_num_pages s < INVALID_PAGE_NUM" and parent: "internal_node_num_keys (t_pages s p) < INTERNAL_NODE_MAX_KEYS"
    and stale: "i < internal_node_num_keys (t_pages s p)" "child_at (t_pages s p) i = c_page c"
      "get_node_max_key (t_pages s (c_page c)) < internal_node_key (t_pages s p) i"
  shows "\<exists>s2. leaf_node_insert (Suc fuel) c k r s1 = Some (Inr s2) \<and>
    (\<exists>x \<in> fst ` table_rows s (Node_At p (map Leaf_At ns)). \<exists>c' s3. table_find x s2 = Some (Inr (Some c', s3)) \<and>
      x \<notin> set (leaf_keys (t_pages s3 (c_page c'))))"
proof -
  define m where "m = c_page c"
  let ?sh = "Node_At p (map Leaf_At ns)" and ?q = "t_pages s p" and ?P = "t_pages s" and ?n = "internal_node_num_keys (t_pages s p)"
  have ok: "tree_ok s ?sh" using T by (simp add: table_ok_def)
  have two: "two_level_ok s p ns" using T by (simp only: table_ok_two_level)
  then have d: "distinct ns" and qok: "node_ok ?q" and kids: "node_kids ?q = ns" and pn: "p \<notin> set ns"
    and leaves: "\<And>j. j < length ns \<Longrightarrow> leaf_ok (?P (ns ! j)) \<and> set (leaf_keys (?P (ns ! j))) \<subseteq> route ?q j"
    and ne: "\<And>l. l \<in> set ns \<Longrightarrow> 0 < leaf_node_num_cells (?P l)"
    unfolding two_level_ok_def by blast+
  note F = table_find_place [OF ok find, folded m_def]
  have s1: "s1 = s" by (rule table_find_state [OF T find])
  have n: "length ns = Suc ?n" using arg_cong [OF kids, of length] by simp
  have im: "ns ! i = m" "i < length ns" using stale(1,2) kids nth_node_lists(2) [of i ?q] n by (simp_all add: m_def)
  obtain i' where i': "i' < length ns" "k \<in> route ?q i'" "m = ns ! i'" using F(1) by (auto elim!: leads_to_nodeE leads_to_leafE)
  have "i' = i" using nth_eq_iff_index_eq [OF d i'(1) im(2)] i'(3) im(1) by simp
  then have ki: "k \<in> route ?q i" using i'(2) by simp
  have m: "m \<in> set ns" using im by auto
  have krows: "set (leaf_keys (?P m)) \<subseteq> fst ` table_rows s ?sh"
    using m leaf_rows_keys [of "?P m"] unfolding table_rows_def rows_def leaf_pages_flat by force
  then have keys: "k \<notin> set (leaf_keys (?P m))" using new by blast
  have fullm: "leaf_node_num_cells (?P m) = LEAF_NODE_MAX_CELLS" using full by (simp only: m_def)
  obtain nw s' where S: "split_leaf c k r (mark m s) = Inr (get_node_max_key (?P m), nw, s')" "split_done s p ns m k r nw s'"
    using split_leaf_done [OF two m m_def [symmetric] fullm F(2) keys k r room] by blast
  let ?X = "t_pages s'" and ?cm = "get_node_max_key (t_pages s' nw)" and ?old = "get_node_max_key (?P m)"
  from S(2) have nw: "nw < 2 ^ 32" "nw \<notin> insert 0 (insert p (set ns))" and lens: "\<And>n. length (?X n) = 4096" and oka: "leaf_ok (?X m)" and okb: "leaf_ok (?X nw)"
    and seven: "leaf_node_num_cells (?X m) = 7" and ord: "halves_order k (?P m) (?X m) (?X nw)"
    and other: "\<And>l. l \<in> set ns \<Longrightarrow> l \<noteq> m \<Longrightarrow> leaf_ok (?X l) \<and> leaf_cells (?X l) = leaf_cells (?P l) \<and>
      leaf_node_num_cells (?X l) = leaf_node_num_cells (?P l)"
    unfolding split_done_def by blast+
  define mx where "mx = get_node_max_key (?X m)"
  have O: "set (leaf_keys (?X m)) \<union> set (leaf_keys (?X nw)) = insert k (set (leaf_keys (?P m)))" "mx < ?cm"
    "?cm \<in> set (leaf_keys (?X nw))" "mx \<in> set (leaf_keys (?X m))" "\<And>x. x \<in> set (leaf_keys (?X m)) \<Longrightarrow> x \<le> mx"
    "\<And>x. x \<in> set (leaf_keys (?X nw)) \<Longrightarrow> mx < x"
    using ord unfolding halves_order_def Let_def mx_def by blast+
  have routed: "x \<in> route ?q i" if "x \<in> insert k (set (leaf_keys (?P m)))" for x using that ki leaves [OF im(2)] im(1) by auto
  have mxr: "mx \<in> route ?q i" and cmr: "?cm \<in> route ?q i" using routed O(1,3,4) by blast+
  have oldr: "?old \<in> route ?q i" using max_key_last(1,2) [of "?P m"] leaves [OF im(2)] im(1) ne [OF m] by (intro routed) simp
  have lowseps: "node_seps ?q ! j < ?cm \<and> node_seps ?q ! j \<noteq> ?old" if "j < i" for j
    using cmr oldr that stale(1) by (auto simp: route_def)
  have up: "?cm \<le> node_seps ?q ! i" "?old < node_seps ?q ! i" using cmr stale by (auto simp: m_def route_def)
  define rm where "rm = get_node_max_key (?X (last ns))"
  have "ns \<noteq> []" using m by auto
  then have last: "last ns = ns ! ?n" using last_conv_nth [of ns] n by simp
  have l: "last ns \<in> set ns" "last ns \<noteq> m" using stale(1) im n nth_eq_iff_index_eq [OF d, of ?n i] by (simp_all add: last)
  have "rm \<in> set (leaf_keys (?X (last ns)))"
    using max_key_last(1,2) [of "?X (last ns)"] other [OF l] ne [OF l(1)] by (simp add: rm_def)
  then have "rm \<in> route ?q ?n" using other [OF l] leaves [of ?n] n by (auto simp: last)
  then have rmb: "\<not> ?cm > rm" using stale(1) up(1) by (auto simp: route_def)
  have nn: "?n < 509" and cm32: "?cm < 2 ^ 32" using parent leaf_key_less O(3) by simp_all
  define q1 where "q1 = update_internal_node_key ?old mx ?q"
  define q2 where "q2 = set_num_keys (?n + 1) (if ?cm > rm then insert_behind_right rm nw q1 else insert_in_front ?cm nw q1)"
  note G = parent_misled [OF qok nn stale(1) cm32 nw(1) lowseps up rmb q1_def q2_def]
  have n1: "internal_node_num_keys q1 = ?n" "node_kids q1 = ns" using G(1) kids by simp_all
  obtain s2 where R: "leaf_node_insert (Suc fuel) c k r s1 = Some (Inr s2)"
    "t_pages s2 = ?X(p := q2, nw := set_node_parent p (set_node_parent p (?X nw)))" "t_root s2 = p"
    using parent_run [OF two m S(2) parent q1_def n1 rm_def refl q2_def refl] split_below_root [OF two m m_def [symmetric] fullm S]
    by (metis s1 mx_def)
  have p32: "p < 2 ^ 32" using rd32_less [of PARENT_POINTER_OFFSET "?P m"] two m unfolding two_level_ok_def node_parent_def by metis
  note B = set_node_parent_spec [OF set_node_parent_spec(1) [OF lens p32 refl] p32 refl]
    and B1 = set_node_parent_spec [OF lens p32 refl]
  have okB: "leaf_ok (t_pages s2 nw)" and cells: "leaf_cells (t_pages s2 nw) = leaf_cells (?X nw)"
    using R(2) B B1 okb by simp_all
  have pq: "t_pages s2 p = q2" using R(2) nw(2) by simp
  have "card (set (leaf_keys (?X m))) = 7"
    using distinct_card [of "leaf_keys (?X m)"] oka seven by (simp add: leaf_ok_def strict_sorted_iff del: set_map)
  then have "\<not> set (leaf_keys (?X m)) \<subseteq> {k}" using card_mono [of "{k}" "set (leaf_keys (?X m))"] by auto
  then obtain x where x: "x \<in> set (leaf_keys (?X m))" "x \<noteq> k" by blast
  have xP: "x \<in> set (leaf_keys (?P m))" using x O(1) by blast
  have xr: "x \<in> route q2 i" by (rule misled_route [OF G(4,2) stale(1) routed]) (use xP O(2) O(5) [OF x(1)] in auto)
  have n2: "i \<le> internal_node_num_keys q2" using arg_cong [OF G(2), of length] stale(1) by simp
  have kid: "child_at q2 i = nw" using nth_node_lists(2) [OF n2] G(3) stale(1) by (simp add: nth_put_at)
  obtain c' s3 where L: "table_find x s2 = Some (Inr (Some c', s3))" "c_page c' = nw" "t_pages s3 = t_pages s2"
    using two_level_lookup [of s2 p i x nw] R(3) G(4) n2 xr kid okB pq by (auto simp: leaf_ok_def)
  have "x \<notin> set (leaf_keys (t_pages s3 nw))" using O(5) [OF x(1)] O(6) [of x] cells L(3) by auto
  then show ?thesis using R(1) L krows xP by blast
qed

end
