(* ===== verification/BTreeDemo.thy ===== *)
theory BTreeDemo
  imports BTreeStale
begin

text \<open>
  The properties of the B+ tree of \<open>src/table.c\<close>, with the tables they are tried on: a root leaf, and a root
  over two leaves whose separator is stale.
\<close>

section \<open>Tables to try the properties on\<close>

definition demo_row :: "nat \<Rightarrow> row" where
  "demo_row k = \<lparr>id_of = k, username = replicate 33 (of_nat k), email = replicate 256 7\<rparr>"

fun fill :: "bytes \<Rightarrow> nat list \<Rightarrow> bytes" where
  "fill q [] = q"
| "fill q (k # ks) = fill (leaf_insert_bytes (leaf_node_num_cells q) k (demo_row k) q) ks"

definition fresh_leaf :: "bool \<Rightarrow> nat \<Rightarrow> nat \<Rightarrow> nat \<Rightarrow> bytes" where
  "fresh_leaf root parent next prev =
     set_prev_leaf prev (set_next_leaf next (set_node_parent parent (set_node_root root (initialize_leaf_node (replicate 4096 0)))))"

definition root_table :: tree where
  "root_table = \<lparr>t_pages = (\<lambda>_. fill (fresh_leaf True 0 0 0) [10, 20, 30, 40, 50, 60, 70, 80, 90, 100, 110, 120, 130]),
     t_backing = (\<lambda>_. replicate 4096 0), t_num_pages = 1, t_free_pages = [], t_dirty = (\<lambda>_. False), t_root = 0\<rparr>"

definition root_page :: bytes where
  "root_page = set_right_child 2 (set_internal_key 0 200 (set_internal_cell 0 1 (set_num_keys 1
     (set_node_root True (initialize_internal_node (replicate 4096 0))))))"

definition stale_table :: tree where
  "stale_table = \<lparr>t_pages = (\<lambda>n. if n = 0 then root_page
       else if n = 1 then fill (fresh_leaf False 0 2 0) [10, 20, 30, 40, 50, 60, 70, 80, 90, 100, 110, 120, 130]
       else fill (fresh_leaf False 0 0 1) [300, 310]),
     t_backing = (\<lambda>_. replicate 4096 0), t_num_pages = 3, t_free_pages = [], t_dirty = (\<lambda>_. False), t_root = 0\<rparr>"

lemma demo_row_ok: "k < 2 ^ 32 \<Longrightarrow> row_ok (demo_row k)"
  by (simp add: row_ok_def demo_row_def USERNAME_SIZE_def EMAIL_SIZE_def)

lemma place_at_end: "leaf_ok q \<Longrightarrow> \<forall>x\<in>set (leaf_keys q). x < k \<Longrightarrow> place_in_leaf q k (leaf_node_num_cells q)"
  by (simp add: place_in_leaf_def)

lemma fill_spec:
  assumes "leaf_ok q" "sorted_wrt (<) (leaf_keys q @ ks)" "leaf_node_num_cells q + length ks \<le> LEAF_NODE_MAX_CELLS" "\<forall>k\<in>set ks. k < 2 ^ 32"
  shows "leaf_ok (fill q ks) \<and> leaf_keys (fill q ks) = leaf_keys q @ ks \<and> leaf_header (fill q ks) = leaf_header q"
  using assms
proof (induction ks arbitrary: q)
  case (Cons k ks)
  let ?n = "leaf_node_num_cells q"
  define q' where "q' = leaf_insert_bytes ?n k (demo_row k) q"
  have k: "k < 2 ^ 32" "row_ok (demo_row k)" using Cons.prems(4) by (simp_all add: demo_row_ok)
  have n: "?n < LEAF_NODE_MAX_CELLS" "?n < 13" using Cons.prems(3) by simp_all
  have below: "\<forall>x\<in>set (leaf_keys q). x < k" using Cons.prems(2) unfolding sorted_wrt_append by auto
  then have new: "k \<notin> set (leaf_keys q)" by blast
  note I = leaf_insert_ok [OF Cons.prems(1) n(1) place_at_end [OF Cons.prems(1) below] new k q'_def]
  have len: "length q = 4096" using Cons.prems(1) by (simp add: leaf_ok_def)
  note S = leaf_insert_spec [OF len n(2) order_refl k(2) q'_def]
  have "put_at ?n (cell_bytes k (demo_row k)) (leaf_cells q) = leaf_cells q @ [cell_bytes k (demo_row k)]"
    using put_at_end [of "leaf_cells q"] by simp
  then have keys: "leaf_keys q' = leaf_keys q @ [k]" using cell_key_bytes [OF k(1)] by (simp add: S(2))
  have num: "leaf_node_num_cells q' = Suc ?n" using arg_cong [OF keys, of length] by simp
  have IH: "leaf_ok (fill q' ks) \<and> leaf_keys (fill q' ks) = leaf_keys q' @ ks \<and> leaf_header (fill q' ks) = leaf_header q'"
    by (rule Cons.IH [OF I(1)]) (use Cons.prems keys num in simp_all)
  show ?case using IH S(3) keys by (simp add: q'_def)
qed simp

lemma fresh_leaf_spec:
  assumes "parent < 2 ^ 32" "next < 2 ^ 32" "prev < 2 ^ 32" "q = fresh_leaf root parent next prev"
  shows "leaf_ok q" "leaf_cells q = []" "is_node_root q = root" "node_parent q = parent" "leaf_node_next_leaf q = next"
    "leaf_node_prev_leaf q = prev"
proof -
  define z where "z = initialize_leaf_node (replicate 4096 0)"
  have z: "length z = 4096" "get_node_type z = NODE_LEAF"
    using initialize_leaf_spec [of "replicate 4096 0"] by (simp_all add: z_def)
  have num: "leaf_node_num_cells z = 0"
    by (simp add: z_def initialize_leaf_node_def leaf_node_num_cells_def set_prev_leaf_def set_next_leaf_def set_num_cells_def
        set_node_root_def set_node_type_def node_layout wr32_fields)
  have zc: "leaf_cells z = []" and zok: "leaf_ok z" using z num by (simp_all add: leaf_cells_def leaf_ok_def)
  define a where "a = set_node_root root z"
  note A = leaf_root_flag [OF z(1), where b = root, folded a_def]
  define b where "b = set_node_parent parent a"
  note B = set_node_parent_spec [OF A(1) assms(1) b_def]
  define c where "c = wr32 10 next b"
  have ten: "(10::nat) = 2 \<or> (10::nat) = 10 \<or> (10::nat) = 14" and tw: "(2::nat) = 2 \<or> (2::nat) = 10 \<or> (2::nat) = 14" by simp_all
  note C = leaf_header_write [OF B(1) ten, where v = "next", folded c_def]
  have qe: "q = set_prev_leaf prev c" by (simp add: assms(4) fresh_leaf_def c_def b_def a_def z_def set_next_leaf_def)
  note D = set_prev_leaf_spec [OF C(1) assms(3) qe]
  have cn: "leaf_node_next_leaf c = next"
    unfolding leaf_node_next_leaf_def leaf_layout c_def by (subst header_reads [OF B(1) ten ten assms(2)]) simp
  have cp: "node_parent c = parent"
    using B(6) unfolding node_parent_def internal_offsets c_def by (subst header_reads [OF B(1) ten tw assms(2)]) simp
  show "leaf_ok q" "leaf_cells q = []" "is_node_root q = root" "node_parent q = parent" "leaf_node_next_leaf q = next"
    "leaf_node_prev_leaf q = prev" using A B C D zok zc cn cp by simp_all
qed

lemma filled_leaf:
  assumes "parent < 2 ^ 32" "next < 2 ^ 32" "prev < 2 ^ 32" "sorted_wrt (<) ks" "length ks \<le> LEAF_NODE_MAX_CELLS" "\<forall>k\<in>set ks. k < 2 ^ 32"
    "q = fill (fresh_leaf root parent next prev) ks"
  shows "leaf_ok q" "leaf_keys q = ks" "leaf_node_num_cells q = length ks" "is_node_root q = root" "node_parent q = parent"
    "leaf_node_next_leaf q = next" "leaf_node_prev_leaf q = prev" "length q = 4096"
proof -
  note F = fresh_leaf_spec [OF assms(1,2,3) refl, of root]
  have z: "leaf_node_num_cells (fresh_leaf root parent next prev) = 0" using arg_cong [OF F(2), of length] by simp
  have S: "leaf_ok q \<and> leaf_keys q = leaf_keys (fresh_leaf root parent next prev) @ ks \<and> leaf_header q = leaf_header (fresh_leaf root parent next prev)"
    unfolding assms(7) by (rule fill_spec [OF F(1)]) (use assms F(2) z in simp_all)
  then show ok: "leaf_ok q" and "leaf_keys q = ks" using F(2) by simp_all
  from arg_cong [OF this(2), of length] show "leaf_node_num_cells q = length ks" by simp
  show len: "length q = 4096" using ok by (simp add: leaf_ok_def)
  have "length (fresh_leaf root parent next prev) = 4096" using F(1) by (simp add: leaf_ok_def)
  from leaf_ok_header [OF _ this len] S F(3-6)
  show "is_node_root q = root" "node_parent q = parent" "leaf_node_next_leaf q = next" "leaf_node_prev_leaf q = prev" by simp_all
qed

lemma root_table:
  shows "table_ok root_table (Leaf_At 0)" "leaf_node_num_cells (t_pages root_table 0) = 13"
    "leaf_keys (t_pages root_table n) = [10, 20, 30, 40, 50, 60, 70, 80, 90, 100, 110, 120, 130]"
proof -
  define q where "q = fill (fresh_leaf True 0 0 0) [10, 20, 30, 40, 50, 60, 70, 80, 90, 100, 110, 120, 130]"
  have p: "t_pages root_table n = q" for n by (simp add: root_table_def q_def)
  note F = filled_leaf [OF _ _ _ _ _ _ q_def]
  have ok: "leaf_ok q" "is_node_root q" "leaf_node_next_leaf q = 0" "leaf_node_prev_leaf q = 0" "length q = 4096" by (use F in simp_all)
  show "leaf_node_num_cells (t_pages root_table 0) = 13" unfolding p by (subst F(3)) simp_all
  show "leaf_keys (t_pages root_table n) = [10, 20, 30, 40, 50, 60, 70, 80, 90, 100, 110, 120, 130]" unfolding p by (rule F(2)) simp_all
  have st: "t_root root_table = 0" "t_free_pages root_table = []" "t_num_pages root_table = 1" by (simp_all add: root_table_def)
  have "well_formed (t_pages root_table) UNIV (Leaf_At 0)" by (rule well_formed.leaf) (use ok p in simp_all)
  then have "tree_ok root_table (Leaf_At 0)" using st by (simp add: tree_ok_def)
  moreover have "linked root_table (Leaf_At 0)" using ok p by (simp add: linked_def)
  moreover have "headers_ok (t_pages root_table) (Leaf_At 0)" using ok p by (simp add: headers_ok_def)
  moreover have "space root_table (used_pages (Leaf_At 0))" using st by (simp add: space_def used_pages_def)
  ultimately show "table_ok root_table (Leaf_At 0)" using ok p by (simp add: table_ok_def two_levels_def)
qed

lemma stale_pages:
  shows "node_ok (t_pages stale_table 0)" "node_seps (t_pages stale_table 0) = [200]" "node_kids (t_pages stale_table 0) = [1, 2]"
    "leaf_keys (t_pages stale_table 1) = [10, 20, 30, 40, 50, 60, 70, 80, 90, 100, 110, 120, 130]"
    "leaf_keys (t_pages stale_table 2) = [300, 310]" "two_level_ok stale_table 0 [1, 2]"
proof -
  define a where "a = fill (fresh_leaf False 0 2 0) [10, 20, 30, 40, 50, 60, 70, 80, 90, 100, 110, 120, 130]"
  define b where "b = fill (fresh_leaf False 0 0 1) [300, 310]"
  have p: "t_pages stale_table n = (if n = 0 then root_page else if n = 1 then a else b)" for n
    by (simp add: stale_table_def a_def b_def)
  note A = filled_leaf [OF _ _ _ _ _ _ a_def] and B = filled_leaf [OF _ _ _ _ _ _ b_def]
  have a: "leaf_ok a" "leaf_keys a = [10, 20, 30, 40, 50, 60, 70, 80, 90, 100, 110, 120, 130]" "\<not> is_node_root a" "node_parent a = 0"
    "leaf_node_next_leaf a = 2" "leaf_node_prev_leaf a = 0" "length a = 4096" by (use A in simp_all)
  have b: "leaf_ok b" "leaf_keys b = [300, 310]" "\<not> is_node_root b" "node_parent b = 0"
    "leaf_node_next_leaf b = 0" "leaf_node_prev_leaf b = 1" "length b = 4096" by (use B in simp_all)
  note R = new_root_spec [of "replicate 4096 0" 1 200 2 root_page, OF _ _ _ _ root_page_def]
  have r: "length root_page = 4096" "is_node_root root_page" "node_seps root_page = [200]" "node_kids root_page = [1, 2]" "node_ok root_page"
    by (use R in simp_all)
  show "node_ok (t_pages stale_table 0)" "node_seps (t_pages stale_table 0) = [200]" "node_kids (t_pages stale_table 0) = [1, 2]"
    "leaf_keys (t_pages stale_table 1) = [10, 20, 30, 40, 50, 60, 70, 80, 90, 100, 110, 120, 130]"
    "leaf_keys (t_pages stale_table 2) = [300, 310]" using r a(2) b(2) by (simp_all add: p)
  have nums: "leaf_node_num_cells a = 13" "leaf_node_num_cells b = 2" "internal_node_num_keys root_page = 1" "internal_node_key root_page 0 = 200"
    using arg_cong [OF a(2), of length] arg_cong [OF b(2), of length] arg_cong [OF r(3), of length] arg_cong [OF r(3), of hd]
    by (simp_all add: node_seps_def)
  have st: "t_root stale_table = 0" "t_free_pages stale_table = []" "t_num_pages stale_table = 3" by (simp_all add: stale_table_def)
  have ra: "set (leaf_keys a) \<subseteq> route root_page 0" and rb: "set (leaf_keys b) \<subseteq> route root_page 1"
    unfolding a(2) b(2) using nums by (auto simp: route_def)
  show "two_level_ok stale_table 0 [1, 2]"
    unfolding two_level_ok_def
  proof (intro conjI)
    show "\<forall>j<length [1, 2 :: nat]. leaf_ok (t_pages stale_table ([1, 2] ! j)) \<and> set (leaf_keys (t_pages stale_table ([1, 2] ! j))) \<subseteq> route (t_pages stale_table 0) j"
    proof (intro allI impI)
      fix j :: nat assume "j < length [1::nat, 2]"
      then consider "j = 0" | "j = 1" by fastforce
      then show "leaf_ok (t_pages stale_table ([1, 2] ! j)) \<and> set (leaf_keys (t_pages stale_table ([1, 2] ! j))) \<subseteq> route (t_pages stale_table 0) j"
        using a(1) b(1) ra rb by cases (simp_all add: p del: set_map)
    qed
    show "space stale_table (insert 0 (insert 0 (set [1, 2])))" using st by (simp add: space_def)
  qed (use r a b nums st in \<open>simp_all add: p\<close>)
qed

end
