(* ===== verification/BTreeProperties.thy ===== *)
theory BTreeProperties
  imports BTreeDemo
begin

text \<open>The properties of the B+ tree of \<open>src/table.c\<close>, each with a table it is tried on.\<close>

section \<open>Search\<close>

lemma table_find_returns:
  assumes "tree_ok s sh"
  obtains c s' where "table_find k s = Some (Inr (Some c, s'))"
  using table_find_spec [of s sh k] assms by (auto simp: tree_ok_def)

text \<open>C2. \<open>table_find\<close> always ends on a well-formed tree, at a leaf of it, and its cursor tells whether the key is
  in the table: a row with the key is there if and only if it is the cell the cursor points to.\<close>

theorem table_find_locates_the_key:
  assumes "tree_ok s sh"
  shows "\<exists>c s'. table_find k s = Some (Inr (Some c, s')) \<and> t_pages s' = t_pages s \<and> c_page c \<in> set (leaf_pages sh) \<and>
    (\<forall>b. (k, b) \<in> table_rows s sh \<longleftrightarrow> c_cell c < leaf_node_num_cells (t_pages s (c_page c)) \<and>
      leaf_node_key (t_pages s (c_page c)) (c_cell c) = k \<and> b = drop 4 (leaf_cells (t_pages s (c_page c)) ! c_cell c))"
proof -
  obtain c s' where f: "table_find k s = Some (Inr (Some c, s'))" by (rule table_find_returns [OF assms])
  note F = table_find_place [OF assms f]
  have "well_formed (t_pages s) UNIV sh" using assms by (simp add: tree_ok_def)
  from row_in_leaf [OF this F(1)] leaf_row_at [OF F(6,2)] leads_to_leaf [OF F(1)] f F(3)
  show ?thesis unfolding table_rows_def by blast
qed

lemma stale_tree_ok: "tree_ok stale_table (Node_At 0 (map Leaf_At [1, 2]))"
  using stale_pages(6) unfolding table_ok_two_level [symmetric] table_ok_def by blast

theorem table_find_locates_the_key_witness:
  "\<exists>c s'. table_find 130 stale_table = Some (Inr (Some c, s')) \<and> c_page c \<in> {1, 2}"
  using table_find_locates_the_key [OF stale_tree_ok, of 130] unfolding leaf_pages_flat by auto

section \<open>Insertion\<close>

text \<open>C1. Inserting a row with a new key where \<open>table_find\<close> points keeps the table well formed and adds exactly
  this row in each of three cases: the leaf has room; it is a full root, which splits under a new root; or it is a
  full leaf below a parent that has room and whose separator for the leaf is its greatest key, where it splits below
  the parent. Full leaves outside these cases lose rows or end the process (C3, C5).\<close>

theorem insert_adds_the_row:
  assumes "table_ok s sh" and "table_find k s = Some (Inr (Some c, s1))" and "k \<notin> fst ` table_rows s sh"
    and "k < 2 ^ 32" and "row_ok r" and "t_num_pages s + 2 \<le> INVALID_PAGE_NUM" and "splittable s sh (c_page c)"
  shows "\<exists>s2 sh'. leaf_node_insert (Suc fuel) c k r s1 = Some (Inr s2) \<and> table_ok s2 sh' \<and>
    table_rows s2 sh' = insert (k, row_bytes r) (table_rows s sh)"
  by (rule insert_any [OF assms])

lemma demo_65: "row_ok (demo_row 65)"
  by (rule demo_row_ok) simp

lemma root_table_facts:
  "t_num_pages root_table + 2 \<le> INVALID_PAGE_NUM" "fst ` table_rows root_table (Leaf_At 0) = {10, 20, 30, 40, 50, 60, 70, 80, 90, 100, 110, 120, 130}"
proof -
  show "t_num_pages root_table + 2 \<le> INVALID_PAGE_NUM" by (simp add: root_table_def INVALID_PAGE_NUM_def)
  have "fst ` table_rows root_table (Leaf_At 0) = set (leaf_keys (t_pages root_table 0))"
    by (simp add: table_rows_def rows_def leaf_rows_keys del: set_map)
  then show "fst ` table_rows root_table (Leaf_At 0) = {10, 20, 30, 40, 50, 60, 70, 80, 90, 100, 110, 120, 130}"
    by (simp only: root_table(3)) auto
qed

lemma root_table_find:
  obtains c s1 where "table_find k root_table = Some (Inr (Some c, s1))" "c_page c = 0"
proof -
  have ok: "tree_ok root_table (Leaf_At 0)" using root_table(1) by (simp add: table_ok_def)
  obtain c s1 where f: "table_find k root_table = Some (Inr (Some c, s1))" by (rule table_find_returns [OF ok])
  moreover have "c_page c = 0" using table_find_place(1) [OF ok f] by (auto elim: leads_to_leafE)
  ultimately show thesis by (rule that)
qed

theorem insert_adds_the_row_witness:
  "\<exists>c s1 s2 sh'. table_find 65 root_table = Some (Inr (Some c, s1)) \<and> leaf_node_insert 1 c 65 (demo_row 65) s1 = Some (Inr s2) \<and>
    table_ok s2 sh' \<and> fst ` table_rows s2 sh' = {10, 20, 30, 40, 50, 60, 65, 70, 80, 90, 100, 110, 120, 130}"
proof -
  obtain c s1 where f: "table_find 65 root_table = Some (Inr (Some c, s1))" "c_page c = 0" by (rule root_table_find)
  have new: "65 \<notin> fst ` table_rows root_table (Leaf_At 0)" unfolding root_table_facts(2) by simp
  have "splittable root_table (Leaf_At 0) (c_page c)" using f(2) by (simp add: splittable_def)
  with insert_adds_the_row [OF root_table(1) f(1) new _ demo_65 root_table_facts(1), where fuel = 0]
  obtain s2 sh' where "leaf_node_insert 1 c 65 (demo_row 65) s1 = Some (Inr s2)" "table_ok s2 sh'"
    "table_rows s2 sh' = insert (65, row_bytes (demo_row 65)) (table_rows root_table (Leaf_At 0))" by auto
  moreover from this(3) have "fst ` table_rows s2 sh' = {10, 20, 30, 40, 50, 60, 65, 70, 80, 90, 100, 110, 120, 130}"
    by (simp add: root_table_facts(2)) auto
  ultimately show ?thesis using f(1) by blast
qed

text \<open>Reading the row a cursor points to.\<close>

lemma cursor_value_leaf:
  assumes "leaf_ok (t_pages s (c_page c))" "c_cell c < leaf_node_num_cells (t_pages s (c_page c))"
  shows "fst (cursor_value c s) = row_of (drop 4 (leaf_cells (t_pages s (c_page c)) ! c_cell c))"
proof -
  have "at_position (t_pages s) [c_page c] (c_cell c) (c\<lparr>c_end := False\<rparr>)"
    by (rule at_positionI [of _ "[]" _ "[]"]) (use assms in simp_all)
  from cursor_value_at(1) [OF this] assms show ?thesis by (simp add: cursor_value_def Let_def)
qed

text \<open>What was inserted is read back: after the insertion of a row under a new key, searching for the key and
  reading the cursor gives this row.\<close>

theorem inserted_row_is_read_back:
  assumes "table_ok s sh" and "table_find k s = Some (Inr (Some c, s1))" and "k \<notin> fst ` table_rows s sh"
    and "k < 2 ^ 32" and "row_ok r" and "t_num_pages s + 2 \<le> INVALID_PAGE_NUM" and "splittable s sh (c_page c)"
  shows "\<exists>s2 c' s3. leaf_node_insert (Suc fuel) c k r s1 = Some (Inr s2) \<and> table_find k s2 = Some (Inr (Some c', s3)) \<and>
    fst (cursor_value c' s3) = r"
proof -
  obtain s2 sh' where I: "leaf_node_insert (Suc fuel) c k r s1 = Some (Inr s2)" "table_ok s2 sh'"
    "table_rows s2 sh' = insert (k, row_bytes r) (table_rows s sh)" using insert_any [OF assms] by blast
  have ok: "tree_ok s2 sh'" and wf: "well_formed (t_pages s2) UNIV sh'" using I(2) by (simp_all add: table_ok_def tree_ok_def)
  obtain c' s3 where f: "table_find k s2 = Some (Inr (Some c', s3))" by (rule table_find_returns [OF ok])
  note F = table_find_place [OF ok f]
  let ?q = "t_pages s2 (c_page c')"
  have "(k, row_bytes r) \<in> leaf_rows ?q" using row_in_leaf [OF wf F(1)] I(3) unfolding table_rows_def by blast
  then have "c_cell c' < leaf_node_num_cells ?q" "row_bytes r = drop 4 (leaf_cells ?q ! c_cell c')"
    using leaf_row_at [OF F(6,2)] by blast+
  then have "fst (cursor_value c' s3) = r"
    using cursor_value_leaf [of s3 c'] F(3,6) row_of_row_bytes [OF assms(5)] by simp
  then show ?thesis using I(1) f by blast
qed

theorem inserted_row_is_read_back_witness:
  "\<exists>c s1 s2 c' s3. table_find 65 root_table = Some (Inr (Some c, s1)) \<and> leaf_node_insert 1 c 65 (demo_row 65) s1 = Some (Inr s2) \<and>
    table_find 65 s2 = Some (Inr (Some c', s3)) \<and> fst (cursor_value c' s3) = demo_row 65"
proof -
  obtain c s1 where f: "table_find 65 root_table = Some (Inr (Some c, s1))" "c_page c = 0" by (rule root_table_find)
  have new: "65 \<notin> fst ` table_rows root_table (Leaf_At 0)" unfolding root_table_facts(2) by simp
  have "splittable root_table (Leaf_At 0) (c_page c)" using f(2) by (simp add: splittable_def)
  with inserted_row_is_read_back [OF root_table(1) f(1) new _ demo_65 root_table_facts(1), where fuel = 0] f(1) show ?thesis by auto
qed

text \<open>The split of a full leaf loses no cell and invents none: the cells of the left half followed by those of the
  right half are the thirteen old cells with the new one at its place, seven and seven.\<close>

theorem split_keeps_every_cell:
  assumes "length old_node = 4096" and "length new_node = 4096" and "leaf_node_num_cells old_node = LEAF_NODE_MAX_CELLS"
    and "c \<le> LEAF_NODE_MAX_CELLS" and "row_ok r"
  shows "\<exists>p q. redistribute c k r (old_node, new_node) = (p, q) \<and>
    leaf_cells p @ leaf_cells q = put_at c (cell_bytes k r) (leaf_cells old_node) \<and> length (leaf_cells p) = 7 \<and> length (leaf_cells q) = 7"
proof -
  obtain p q where e: "redistribute c k r (old_node, new_node) = (p, q)" by (cases "redistribute c k r (old_node, new_node)")
  note R = redistribute_spec [OF assms e]
  have "length (put_at c (cell_bytes k r) (leaf_cells old_node)) = 14" using assms(3) by simp
  then have "length (leaf_cells p) = min 14 7" "length (leaf_cells q) = 14 - 7" by (simp_all only: R(3,4) length_take length_drop)
  then have "length (leaf_cells p) = 7" "length (leaf_cells q) = 7" by simp_all
  moreover have "leaf_cells p @ leaf_cells q = put_at c (cell_bytes k r) (leaf_cells old_node)" by (simp only: R(3,4) append_take_drop_id)
  ultimately show ?thesis using e by blast
qed

theorem split_keeps_every_cell_witness:
  "\<exists>p q. redistribute 13 140 (demo_row 140) (t_pages root_table 0, replicate 4096 0) = (p, q) \<and> length (leaf_cells p) = 7 \<and> length (leaf_cells q) = 7"
  using split_keeps_every_cell [of "t_pages root_table 0" "replicate 4096 0" 13 "demo_row 140" 140] root_table(1) root_table(2) demo_row_ok [of 140]
  by (auto simp: table_ok_def)

section \<open>Deletion\<close>

text \<open>C6. Deleting a key where \<open>table_find\<close> points keeps the table well formed and removes exactly the row with this
  key, as long as its leaf does not become empty below the root.\<close>

theorem delete_removes_the_row:
  assumes "table_ok s sh" and "table_find k s = Some (Inr (Some c, s1))" and "k \<in> fst ` table_rows s sh"
    and "leaf_node_num_cells (t_pages s (c_page c)) > 1 \<or> leaf_pages sh = [c_page c]"
  shows "\<exists>s2. leaf_node_delete c s1 = Inr s2 \<and> table_ok s2 sh \<and> table_rows s2 sh = {(j, b) \<in> table_rows s sh. j \<noteq> k}"
  by (rule delete_in_leaf [OF assms])

theorem delete_removes_the_row_witness:
  "\<exists>c s1 s2. table_find 70 root_table = Some (Inr (Some c, s1)) \<and> leaf_node_delete c s1 = Inr s2 \<and> table_ok s2 (Leaf_At 0) \<and>
    70 \<notin> fst ` table_rows s2 (Leaf_At 0)"
proof -
  obtain c s1 where f: "table_find 70 root_table = Some (Inr (Some c, s1))" "c_page c = 0" by (rule root_table_find)
  have old: "70 \<in> fst ` table_rows root_table (Leaf_At 0)" unfolding root_table_facts(2) by simp
  from delete_removes_the_row [OF root_table(1) f(1) old] f show ?thesis by fastforce
qed

section \<open>Scans\<close>

text \<open>C4. A full scan from \<open>table_start\<close> with \<open>cursor_advance\<close> ends and returns every row of the table exactly once, in
  strictly ascending order of the keys.\<close>

theorem scan_returns_all_rows_in_key_order:
  assumes "tree_ok s sh" and "linked s sh"
  shows "\<exists>c s1 rs s2 ks. table_start s = Some (Inr (Some c, s1)) \<and> collect_rows c s1 = Some (rs, s2) \<and>
    length ks = length rs \<and> sorted_wrt (<) ks \<and> set (zip ks rs) = (\<lambda>(k, b). (k, row_of b)) ` table_rows s sh"
proof -
  let ?cells = "all_cells (t_pages s) (leaf_pages sh)"
  have wf: "well_formed (t_pages s) UNIV sh" using assms(1) by (simp add: tree_ok_def)
  obtain c s1 where st: "table_start s = Some (Inr (Some c, s1))" "t_pages s1 = t_pages s"
    "if ?cells = [] then c_end c else at_position (t_pages s) (leaf_pages sh) 0 c" using table_start_at [OF assms] by blast
  have "\<exists>s2. collect_rows c s1 = Some (map (\<lambda>b. row_of (drop 4 b)) ?cells, s2)"
  proof (cases "?cells = []")
    case True
    then show ?thesis using st(3) by (subst collect_rows.simps) simp
  next
    case False
    have "linked s1 sh" using assms(2) linked_cong st(2) by blast
    from collect_rows_from [OF this, of 0 c UNIV] show ?thesis using st False wf by auto
  qed
  then obtain s2 where run: "collect_rows c s1 = Some (map (\<lambda>b. row_of (drop 4 b)) ?cells, s2)" by blast
  have "set (zip (map cell_key ?cells) (map (\<lambda>b. row_of (drop 4 b)) ?cells)) = (\<lambda>(k, b). (k, row_of b)) ` table_rows s sh"
    unfolding table_rows_def all_cells_rows zip_map_map by (auto simp: zip_same_conv_map image_iff)
  with st(1) run all_cells_sorted [OF wf] show ?thesis by (metis length_map)
qed

theorem scan_returns_all_rows_in_key_order_witness:
  "\<exists>c s1 rs s2. table_start stale_table = Some (Inr (Some c, s1)) \<and> collect_rows c s1 = Some (rs, s2)"
proof -
  have "linked stale_table (Node_At 0 (map Leaf_At [1, 2]))"
    using stale_pages(6) unfolding table_ok_two_level [symmetric] table_ok_def by blast
  from scan_returns_all_rows_in_key_order [OF stale_tree_ok this] show ?thesis by blast
qed

text \<open>A position has one cursor.\<close>

lemma position_append:
  assumes "as @ n # bs = as' @ n' # bs'" "length (all_cells P as) + c = length (all_cells P as') + c'"
    "c < leaf_node_num_cells (P n)" "c' < leaf_node_num_cells (P n')"
  shows "as = as' \<and> n = n'"
  using assms
proof (induction as arbitrary: as' c c')
  case Nil
  then show ?case by (cases as') auto
next
  case (Cons a as)
  then show ?case by (cases as') auto
qed

lemma position_unique:
  assumes "at_position P ns i c" "at_position P ns i c'"
  shows "c = c'"
proof -
  from assms(1) obtain as bs where A: "ns = as @ c_page c # bs" "c_cell c < leaf_node_num_cells (P (c_page c))"
    "i = length (all_cells P as) + c_cell c" "\<not> c_end c" by (auto simp: at_position_def)
  from assms(2) obtain as' bs' where B: "ns = as' @ c_page c' # bs'" "c_cell c' < leaf_node_num_cells (P (c_page c'))"
    "i = length (all_cells P as') + c_cell c'" "\<not> c_end c'" by (auto simp: at_position_def)
  have "as = as' \<and> c_page c = c_page c'" by (rule position_append [where P = P and bs = bs and bs' = bs']) (use A B in simp_all)
  then show ?thesis using A B by simp
qed

text \<open>\<open>cursor_retreat\<close> undoes \<open>cursor_advance\<close>: from every row but the last one, also across the border of two
  leaves, stepping forward and back gives the cursor again.\<close>

theorem retreat_undoes_advance:
  assumes "linked s sh" and "at_position (t_pages s) (leaf_pages sh) i c" and "Suc i < length (all_cells (t_pages s) (leaf_pages sh))"
  shows "\<exists>c1 s1 s2. cursor_advance c s = Some (c1, s1) \<and> \<not> c_end c1 \<and> cursor_retreat c1 s1 = Some (c, s2)"
proof -
  obtain c1 s1 where A: "cursor_advance c s = Some (c1, s1)" "t_pages s1 = t_pages s" "at_position (t_pages s) (leaf_pages sh) (Suc i) c1"
    using cursor_advance_at [OF assms(1,2)] assms(3) by auto
  have "linked s1 sh" using assms(1) linked_cong A(2) by blast
  from cursor_retreat_at [OF this] A(2,3) obtain c2 s2 where "cursor_retreat c1 s1 = Some (c2, s2)"
    "at_position (t_pages s) (leaf_pages sh) i c2" by fastforce
  moreover from this(2) have "c2 = c" by (rule position_unique) (rule assms(2))
  moreover have "\<not> c_end c1" using A(3) by (simp add: at_position_def)
  ultimately show ?thesis using A(1) by blast
qed

theorem retreat_undoes_advance_witness:
  "\<exists>c1 s1 s2. cursor_advance \<lparr>c_page = 1, c_cell = 12, c_end = False\<rparr> stale_table = Some (c1, s1) \<and> \<not> c_end c1 \<and>
    cursor_retreat c1 s1 = Some (\<lparr>c_page = 1, c_cell = 12, c_end = False\<rparr>, s2)"
proof -
  let ?sh = "Node_At 0 (map Leaf_At [1, 2])" and ?c = "\<lparr>c_page = 1, c_cell = 12, c_end = False\<rparr>"
  have link: "linked stale_table ?sh" using stale_pages(6) unfolding table_ok_two_level [symmetric] table_ok_def by blast
  have n: "leaf_node_num_cells (t_pages stale_table 1) = 13" "leaf_node_num_cells (t_pages stale_table 2) = 2"
    using arg_cong [OF stale_pages(4), of length] arg_cong [OF stale_pages(5), of length] by simp_all
  have at: "at_position (t_pages stale_table) (leaf_pages ?sh) 12 ?c"
    unfolding leaf_pages_flat by (rule at_positionI [of _ "[]" _ "[2]"]) (use n in simp_all)
  have "Suc 12 < length (all_cells (t_pages stale_table) (leaf_pages ?sh))"
    unfolding leaf_pages_flat by (use n in simp)
  from retreat_undoes_advance [OF link at this] show ?thesis .
qed

section \<open>What goes wrong\<close>

text \<open>C5. A full internal node cannot take another child: making room in it asks for a child position behind its right
  child, and the process ends. So a table never has more than 510 leaves.\<close>

theorem full_internal_node_ends_the_process:
  assumes "\<forall>n. length (t_pages s n) = 4096" and "internal_node_num_keys (t_pages s p) = INTERNAL_NODE_MAX_KEYS"
  shows "\<exists>e. internal_node_insert (Suc fuel) p child s = Some (Inl e)"
proof -
  define s1 where "s1 = fetch child (fetch p s)"
  have "\<exists>e. internal_node_split_and_insert (internal_node_insert fuel) p child s1 = Some (Inl e)"
    by (rule internal_node_split_exits) (use assms in \<open>simp_all add: s1_def\<close>)
  then show ?thesis using assms(2) by (simp add: Let_def s1_def)
qed

definition full_node :: bytes where
  "full_node = wr32 6 509 (replicate 4096 0)"

theorem full_internal_node_ends_the_process_witness:
  "\<exists>e. internal_node_insert 1 0 7
    \<lparr>t_pages = (\<lambda>_. full_node), t_backing = (\<lambda>_. full_node), t_num_pages = 600, t_free_pages = [], t_dirty = (\<lambda>_. False), t_root = 0\<rparr> = Some (Inl e)"
proof -
  have "length full_node = 4096" "rd32 6 full_node = 509"
    unfolding full_node_def by (rule wr32_fields; simp)+
  then show ?thesis
    using full_internal_node_ends_the_process [of "\<lparr>t_pages = (\<lambda>_. full_node), t_backing = (\<lambda>_. full_node), t_num_pages = 600,
      t_free_pages = [], t_dirty = (\<lambda>_. False), t_root = 0\<rparr>" 0 0 7] by (simp add: num_keys_rd)
qed

text \<open>C3. Rows are lost behind a stale separator: when a full leaf below the root holds no key as great as its separator
  any more, as after its largest key was deleted, an insertion that splits it succeeds, but a row that was stored
  before is no longer found.\<close>

theorem stale_separator_loses_rows:
  assumes "table_ok s (Node_At p (map Leaf_At ns))" and "table_find k s = Some (Inr (Some c, s1))"
    and "leaf_node_num_cells (t_pages s (c_page c)) = LEAF_NODE_MAX_CELLS"
    and "k \<notin> fst ` table_rows s (Node_At p (map Leaf_At ns))" and "k < 2 ^ 32" and "row_ok r"
    and "t_num_pages s < INVALID_PAGE_NUM" and "internal_node_num_keys (t_pages s p) < INTERNAL_NODE_MAX_KEYS"
    and "i < internal_node_num_keys (t_pages s p)" and "child_at (t_pages s p) i = c_page c"
    and "get_node_max_key (t_pages s (c_page c)) < internal_node_key (t_pages s p) i"
  shows "\<exists>s2. leaf_node_insert (Suc fuel) c k r s1 = Some (Inr s2) \<and>
    (\<exists>x \<in> fst ` table_rows s (Node_At p (map Leaf_At ns)). \<exists>c' s3. table_find x s2 = Some (Inr (Some c', s3)) \<and>
      x \<notin> set (leaf_keys (t_pages s3 (c_page c'))))"
  by (rule stale_split [OF assms])

theorem stale_separator_loses_rows_witness:
  "\<exists>c s1 s2. table_find 65 stale_table = Some (Inr (Some c, s1)) \<and> leaf_node_insert 1 c 65 (demo_row 65) s1 = Some (Inr s2) \<and>
    (\<exists>x \<in> fst ` table_rows stale_table (Node_At 0 (map Leaf_At [1, 2])). \<exists>c' s3. table_find x s2 = Some (Inr (Some c', s3)) \<and>
      x \<notin> set (leaf_keys (t_pages s3 (c_page c'))))"
proof -
  let ?sh = "Node_At 0 (map Leaf_At [1, 2])"
  have T: "table_ok stale_table ?sh" using stale_pages(6) by (simp only: table_ok_two_level)
  obtain c s1 where f: "table_find 65 stale_table = Some (Inr (Some c, s1))" by (rule table_find_returns [OF stale_tree_ok])
  have n: "leaf_node_num_cells (t_pages stale_table 1) = 13" "internal_node_num_keys (t_pages stale_table 0) = 1"
    using arg_cong [OF stale_pages(4), of length] arg_cong [OF stale_pages(2), of length] by simp_all
  have key: "internal_node_key (t_pages stale_table 0) 0 = 200" "child_at (t_pages stale_table 0) 0 = 1" "child_at (t_pages stale_table 0) 1 = 2"
    using arg_cong [OF stale_pages(2), of hd] arg_cong [OF stale_pages(3), of "\<lambda>l. l ! 0"] arg_cong [OF stale_pages(3), of "\<lambda>l. l ! 1"] n(2)
    by (simp_all add: node_seps_def)
  have "65 \<in> route (t_pages stale_table 0) 0" using key n by (simp add: route_def)
  then have "leads_to (t_pages stale_table) 65 ?sh 1"
    by (intro leads_to.below [of 0]) (auto intro: leads_to.here)
  then have c: "c_page c = 1"
    using table_find_place(1) [OF stale_tree_ok f] leads_to_unique stale_tree_ok unfolding tree_ok_def by blast
  have rows: "fst ` table_rows stale_table ?sh = {10, 20, 30, 40, 50, 60, 70, 80, 90, 100, 110, 120, 130} \<union> {300, 310}"
  proof -
    have "fst ` table_rows stale_table ?sh = set (leaf_keys (t_pages stale_table 1)) \<union> set (leaf_keys (t_pages stale_table 2))"
      unfolding table_rows_def rows_def leaf_pages_flat by (simp add: image_Un leaf_rows_keys del: set_map)
    then show ?thesis unfolding stale_pages(4,5) by auto
  qed
  have new: "65 \<notin> fst ` table_rows stale_table ?sh" unfolding rows by simp
  have ok1: "leaf_ok (t_pages stale_table 1)" using stale_pages(6) unfolding two_level_ok_def by (metis length_Cons list.size(3) nth_Cons_0 zero_less_Suc)
  have mx: "get_node_max_key (t_pages stale_table 1) = 130" using max_key_last(1) [OF ok1] n(1) stale_pages(4) by simp
  have num: "t_num_pages stale_table < INVALID_PAGE_NUM" by (simp add: stale_table_def INVALID_PAGE_NUM_def)
  from stale_separator_loses_rows [OF T f _ new _ demo_65 num, where i = 0 and fuel = 0] c n key mx f
  show ?thesis by auto
qed

end
