(* ===== verification/LeafProperties.thy ===== *)
theory LeafProperties
  imports LeafPolicy BTreeProperties
begin

text \<open>The properties of leaf pages of both formats and of the check before a change, each tried on a demo table.\<close>

lemma root_table_leaf: "leaf_ok (t_pages root_table 0)" "detect_page (t_pages root_table 0) = PAGE_FORMAT_FIXED_V1"
proof -
  have "well_formed (t_pages root_table) UNIV (Leaf_At 0)" using root_table(1) by (simp add: table_ok_def tree_ok_def)
  then show "leaf_ok (t_pages root_table 0)" by (auto elim: well_formed.cases)
  then show "detect_page (t_pages root_table 0) = PAGE_FORMAT_FIXED_V1" by (rule leaf_ok_v1)
qed

lemma demo_tables_not_slotted: "\<not> slotted_validate (t_pages root_table n)" "\<not> slotted_validate (t_pages stale_table n)"
proof -
  have "\<not> slotted_validate (t_pages root_table 0)" using root_table_leaf(2) detect_v2 by (metis leaf_page_format.distinct(5))
  then show "\<not> slotted_validate (t_pages root_table n)" by (simp add: root_table_def)
  have L: "\<not> slotted_validate p" if "get_node_type p = NODE_LEAF" "leaf_node_num_cells p \<le> 13" "length p = 4096" for p
    using that detect_v1 [of p] detect_v2 [of p] by (metis leaf_page_format.distinct(5) order_refl)
  have "\<not> slotted_validate (t_pages stale_table 0)"
  proof
    assume "slotted_validate (t_pages stale_table 0)"
    then have "t_pages stale_table 0 ! 0 = NODE_LEAF" using validD(3) by (simp add: header_ok_def)
    moreover have "get_node_type (t_pages stale_table 0) = NODE_INTERNAL" using stale_pages(1) by (simp add: node_ok_def)
    ultimately show False by (simp add: get_node_type_def node_layout NODE_LEAF_def NODE_INTERNAL_def)
  qed
  moreover have "leaf_ok (t_pages stale_table m)" if "m = 1 \<or> m = 2" for m
  proof -
    have "\<forall>j < length [1, 2 :: nat]. leaf_ok (t_pages stale_table ([1, 2] ! j))" using stale_pages(6) unfolding two_level_ok_def by blast
    from spec [OF this, of "m - 1"] that show ?thesis by auto
  qed
  then have "\<not> slotted_validate (t_pages stale_table 1)" "\<not> slotted_validate (t_pages stale_table 2)"
    using L by (simp_all add: leaf_ok_def)
  ultimately show "\<not> slotted_validate (t_pages stale_table n)" by (simp add: stale_table_def split: if_splits)
qed

text \<open>Searching a leaf page of either format gives the number of its keys below the one searched for, and whether
  that key is on the page.\<close>

theorem page_search_counts_smaller_keys:
  assumes "detect_page page \<noteq> PAGE_FORMAT_UNKNOWN" and "sorted_wrt (<) (map fst (page_rows page))"
  shows "page_lower_bound page key = Some (length (filter (\<lambda>k. k < key) (map fst (page_rows page))), key \<in> fst ` set (page_rows page))"
  by (rule page_lower_bound_spec(2) [OF assms])

theorem page_search_counts_smaller_keys_witness:
  "page_lower_bound (t_pages root_table 0) 65 = Some (6, False)"
proof -
  have k: "map fst (page_rows (t_pages root_table 0)) = [10, 20, 30, 40, 50, 60, 70, 80, 90, 100, 110, 120, 130]"
    using v1_keys [OF root_table_leaf(2)] root_table(3) by (simp only:)
  define rs where "rs = page_rows (t_pages root_table 0)"
  have k': "map fst rs = [10, 20, 30, 40, 50, 60, 70, 80, 90, 100, 110, 120, 130]" using k unfolding rs_def .
  from arg_cong [OF k', of set] have "fst ` set rs = {10, 20, 30, 40, 50, 60, 70, 80, 90, 100, 110, 120, 130}" by (simp only: set_map list.set)
  then have out: "65 \<notin> fst ` set rs" by (simp only:) simp
  from page_search_counts_smaller_keys [of "t_pages root_table 0" 65, folded rs_def, unfolded k'] root_table_leaf(2) out
  show ?thesis by simp
qed

text \<open>C14. A tree whose change is allowed has a first leaf below its root from which the links give distinct pages in
  use, all of the fixed V1 format, linked back as they are linked forward, whose keys ascend across the whole chain.\<close>

theorem allowed_change_meets_a_v1_chain:
  assumes "tree_mutation_supported s r = Inr ()"
  shows "\<exists>n ns. find_leftmost_leaf s r 0 = Inr n \<and> chain (t_pages s) 0 (n # ns) \<and> distinct (n # ns) \<and>
    (\<forall>m \<in> set (n # ns). m < t_num_pages s \<and> detect_page (t_pages s m) = PAGE_FORMAT_FIXED_V1) \<and>
    sorted_wrt (<) (chain_keys (t_pages s) (n # ns))"
proof -
  from assms obtain n where "find_leftmost_leaf s r 0 = Inr n" "chain_loop s [] n 0 None = Inr ()"
    by (auto simp: tree_mutation_supported_def validate_leaf_chain_def split: if_splits)
  then show ?thesis unfolding chain_loop_spec leaf_chain_def by (auto simp: valid_page_num_def)
qed

theorem allowed_change_meets_a_v1_chain_witness:
  "tree_mutation_supported root_table 0 = Inr () \<and> (\<exists>n ns. chain (t_pages root_table) 0 (n # ns) \<and> distinct (n # ns))"
proof -
  have "t_root root_table = 0" "t_num_pages root_table \<le> INVALID_PAGE_NUM" by (simp_all add: root_table_def INVALID_PAGE_NUM_def)
  then have "tree_mutation_supported root_table 0 = Inr ()"
    using table_accepted [OF root_table(1)] demo_tables_not_slotted(1) by simp
  with allowed_change_meets_a_v1_chain [OF this] show ?thesis by blast
qed

text \<open>Every well-formed table without slotted pages passes the check before a change: no page is called corrupt,
  no chain cyclic and no traversal too wide.\<close>

theorem well_formed_table_may_be_changed:
  assumes "table_ok s sh" and "t_num_pages s \<le> INVALID_PAGE_NUM" and "\<And>n. n < t_num_pages s \<Longrightarrow> \<not> slotted_validate (t_pages s n)"
  shows "tree_mutation_supported s (t_root s) = Inr ()"
  by (rule table_accepted [OF assms])

theorem well_formed_table_may_be_changed_witness: "tree_mutation_supported stale_table 0 = Inr ()"
proof -
  have "table_ok stale_table (Node_At 0 (map Leaf_At [1, 2]))" using stale_pages(6) unfolding table_ok_two_level .
  moreover have "t_root stale_table = 0" "t_num_pages stale_table \<le> INVALID_PAGE_NUM" by (simp_all add: stale_table_def INVALID_PAGE_NUM_def)
  ultimately show ?thesis using well_formed_table_may_be_changed [of stale_table] demo_tables_not_slotted(2) by simp
qed

end
