(* ===== verification/LeafCursor.thy ===== *)
theory LeafCursor
  imports LeafPolicy
begin

text \<open>
  Cursors over leaves of both formats, after \<open>src/leaf_cursor_read.c\<close>. They check what they read: page numbers, the
  keys and children of every node on the way, the links between leaves in both directions and the order of the
  keys across them. Every page number is checked before \<open>get_page\<close>, so the state is only read. A null cursor is
  \<open>None\<close>; running out of memory for a cursor is not modelled.
\<close>

section \<open>Checks\<close>

definition leaf_key_at :: "tree \<Rightarrow> nat \<Rightarrow> nat \<Rightarrow> nat option" where
  "leaf_key_at s page_num cell_num =
     (if \<not> valid_page_num s page_num then None
      else let page = t_pages s page_num
           in if get_node_type page = NODE_LEAF then page_key_at page cell_num else None)"

definition ordered_forward_transition :: "tree \<Rightarrow> nat \<Rightarrow> nat \<Rightarrow> nat \<Rightarrow> nat \<Rightarrow> bool" where
  "ordered_forward_transition s current_page current_count next_page next_count =
     (if current_count = 0 \<or> next_count = 0 then True
      else case (leaf_key_at s current_page (current_count - 1), leaf_key_at s next_page 0) of
        (Some current_last, Some next_first) \<Rightarrow> current_last < next_first | _ \<Rightarrow> False)"

definition ordered_backward_transition :: "tree \<Rightarrow> nat \<Rightarrow> nat \<Rightarrow> nat \<Rightarrow> nat \<Rightarrow> bool" where
  "ordered_backward_transition s current_page current_count prev_page prev_count =
     (if current_count = 0 \<or> prev_count = 0 then True
      else case (leaf_key_at s current_page 0, leaf_key_at s prev_page (prev_count - 1)) of
        (Some current_first, Some prev_last) \<Rightarrow> prev_last < current_first | _ \<Rightarrow> False)"

definition reciprocal_forward_transition :: "nat \<Rightarrow> bytes \<Rightarrow> bool" where
  "reciprocal_forward_transition current_page next_page \<longleftrightarrow> page_prev next_page = Some current_page"

definition reciprocal_backward_transition :: "nat \<Rightarrow> bytes \<Rightarrow> bool" where
  "reciprocal_backward_transition current_page prev_page \<longleftrightarrow> page_next prev_page = Some current_page"

definition internal_routing_valid :: "tree \<Rightarrow> nat \<Rightarrow> bytes \<Rightarrow> bool" where
  "internal_routing_valid s page_num node \<longleftrightarrow>
     (if get_node_type node \<noteq> NODE_INTERNAL then False
      else
        let num_keys = internal_node_num_keys node; right_child = internal_node_right_child node
        in if num_keys = 0 \<or> num_keys > INTERNAL_NODE_MAX_KEYS then False
           else if \<not> valid_page_num s right_child \<or> right_child = page_num then False
           else list_all (\<lambda>i.
             (i > 0 \<longrightarrow> internal_node_key node (i - 1) < internal_node_key node i) \<and>
             valid_page_num s (child_at node i) \<and> child_at node i \<noteq> page_num \<and> child_at node i \<noteq> right_child \<and>
             list_all (\<lambda>j. child_at node j \<noteq> child_at node i) [0..<i]) [0..<num_keys])"

section \<open>From leaf to leaf\<close>

text \<open>One round of the loops that look for a leaf with rows: \<open>None\<close> when the links are damaged, else the next leaf and
  its number of rows, or that the chain ends here.\<close>

definition forward_step :: "tree \<Rightarrow> nat \<Rightarrow> nat \<Rightarrow> nat \<Rightarrow> (nat \<times> nat) option option" where
  "forward_step s current_page current_count traversed =
     (case page_next (t_pages s current_page) of None \<Rightarrow> None
      | Some next_page \<Rightarrow>
          if next_page = 0 then Some None
          else if \<not> valid_page_num s next_page \<or> next_page = current_page \<or> traversed \<ge> t_num_pages s then None
          else let next = t_pages s next_page
               in if get_node_type next \<noteq> NODE_LEAF then None
                  else case page_count next of None \<Rightarrow> None
                  | Some next_count \<Rightarrow>
                      if reciprocal_forward_transition current_page next \<and>
                         ordered_forward_transition s current_page current_count next_page next_count
                      then Some (Some (next_page, next_count)) else None)"

definition backward_step :: "tree \<Rightarrow> nat \<Rightarrow> nat \<Rightarrow> nat \<Rightarrow> (nat \<times> nat) option option" where
  "backward_step s current_page current_count traversed =
     (case page_prev (t_pages s current_page) of None \<Rightarrow> None
      | Some prev_page \<Rightarrow>
          if prev_page = 0 then Some None
          else if \<not> valid_page_num s prev_page \<or> prev_page = current_page \<or> traversed \<ge> t_num_pages s then None
          else let prev = t_pages s prev_page
               in if get_node_type prev \<noteq> NODE_LEAF then None
                  else case page_count prev of None \<Rightarrow> None
                  | Some prev_count \<Rightarrow>
                      if reciprocal_backward_transition current_page prev \<and>
                         ordered_backward_transition s current_page current_count prev_page prev_count
                      then Some (Some (prev_page, prev_count)) else None)"

text \<open>Where a loop ends: the leaf and its number of rows, at rows, at the end of the chain, or at damage.\<close>

datatype walk = At_Rows nat nat | At_End nat nat | At_Damage nat

lemma step_bound: "forward_step s p n traversed = Some (Some x) \<Longrightarrow> traversed < t_num_pages s"
  "backward_step s p n traversed = Some (Some x) \<Longrightarrow> traversed < t_num_pages s"
  by (auto simp: forward_step_def backward_step_def Let_def split: option.splits if_splits)

function forward_loop :: "tree \<Rightarrow> nat \<Rightarrow> nat \<Rightarrow> nat \<Rightarrow> walk" where
  "forward_loop s current_page current_count traversed =
     (case forward_step s current_page current_count traversed of
        None \<Rightarrow> At_Damage current_page
      | Some None \<Rightarrow> At_End current_page current_count
      | Some (Some (next_page, next_count)) \<Rightarrow>
          if next_count > 0 then At_Rows next_page next_count else forward_loop s next_page next_count (traversed + 1))"
  by pat_completeness auto
termination
  by (relation "measure (\<lambda>(s, p, n, traversed). t_num_pages s - traversed)") (auto dest: step_bound intro: diff_less_mono2)

function backward_loop :: "tree \<Rightarrow> nat \<Rightarrow> nat \<Rightarrow> nat \<Rightarrow> walk" where
  "backward_loop s current_page current_count traversed =
     (case backward_step s current_page current_count traversed of
        None \<Rightarrow> At_Damage current_page
      | Some None \<Rightarrow> At_End current_page current_count
      | Some (Some (prev_page, prev_count)) \<Rightarrow>
          if prev_count > 0 then At_Rows prev_page prev_count else backward_loop s prev_page prev_count (traversed + 1))"
  by pat_completeness auto
termination
  by (relation "measure (\<lambda>(s, p, n, traversed). t_num_pages s - traversed)") (auto dest: step_bound intro: diff_less_mono2)

declare forward_loop.simps [simp del] backward_loop.simps [simp del]

section \<open>Finding a key\<close>

definition read_leaf_find :: "tree \<Rightarrow> nat \<Rightarrow> nat \<Rightarrow> cursor option" where
  "read_leaf_find s page_num key =
     (if \<not> valid_page_num s page_num then None
      else let page = t_pages s page_num
           in if get_node_type page \<noteq> NODE_LEAF then None
              else case (page_count page, page_lower_bound page key) of
                (Some count, Some (cell_index, exact_match)) \<Rightarrow>
                  if cell_index > count then None
                  else if cell_index < count then Some \<lparr>c_page = page_num, c_cell = cell_index, c_end = False\<rparr>
                  else (case forward_loop s page_num count 0 of
                          At_Damage _ \<Rightarrow> None
                        | At_End p n \<Rightarrow> Some \<lparr>c_page = p, c_cell = n, c_end = True\<rparr>
                        | At_Rows p n \<Rightarrow> Some \<lparr>c_page = p, c_cell = 0, c_end = False\<rparr>)
              | _ \<Rightarrow> None)"

text \<open>The child position \<open>internal_node_find_child\<close> finds is never behind the right child.\<close>

function read_internal_find :: "tree \<Rightarrow> nat \<Rightarrow> nat \<Rightarrow> nat \<Rightarrow> cursor option" where
  "read_internal_find s page_num key depth =
     (if \<not> valid_page_num s page_num \<or> depth > t_num_pages s then None
      else let node = t_pages s page_num
           in if \<not> internal_routing_valid s page_num node then None
              else case internal_node_find_child node key of Inl e \<Rightarrow> None
              | Inr off \<Rightarrow>
                  let child_page = rd32 off node
                  in if \<not> valid_page_num s child_page \<or> child_page = page_num then None
                     else let child = t_pages s child_page
                          in if get_node_type child = NODE_LEAF then read_leaf_find s child_page key
                             else if get_node_type child = NODE_INTERNAL then read_internal_find s child_page key (depth + 1)
                             else None)"
  by pat_completeness auto
termination
  by (relation "measure (\<lambda>(s, p, k, depth). Suc (t_num_pages s) - depth)") auto

declare read_internal_find.simps [simp del]

definition leaf_read_find :: "tree \<Rightarrow> nat \<Rightarrow> cursor option" where
  "leaf_read_find s key =
     (if \<not> valid_page_num s (t_root s) then None
      else let root = t_pages s (t_root s)
           in if get_node_type root = NODE_LEAF then read_leaf_find s (t_root s) key
              else if get_node_type root = NODE_INTERNAL then read_internal_find s (t_root s) key 0
              else None)"

definition leaf_read_start :: "tree \<Rightarrow> cursor option" where
  "leaf_read_start s =
     (case leaf_read_find s 0 of None \<Rightarrow> None
      | Some c \<Rightarrow>
          if c_end c then Some c
          else case page_count (t_pages s (c_page c)) of None \<Rightarrow> None
          | Some count \<Rightarrow> Some (c\<lparr>c_end := count = 0\<rparr>))"

definition leaf_read_value :: "tree \<Rightarrow> cursor \<Rightarrow> bytes option" where
  "leaf_read_value s c =
     (if \<not> valid_page_num s (c_page c) then None
      else let page = t_pages s (c_page c)
           in if get_node_type page \<noteq> NODE_LEAF then None else page_value_at page (c_cell c))"

section \<open>Moving\<close>

text \<open>What both directions check first: the number of rows of the leaf the cursor is in.\<close>

definition cursor_count :: "tree \<Rightarrow> cursor \<Rightarrow> nat option" where
  "cursor_count s c =
     (if \<not> valid_page_num s (c_page c) then None
      else let page = t_pages s (c_page c)
           in if get_node_type page \<noteq> NODE_LEAF then None
              else case page_count page of None \<Rightarrow> None
              | Some count \<Rightarrow> if c_cell c \<ge> count then None else Some count)"

definition leaf_read_advance_checked :: "tree \<Rightarrow> cursor \<Rightarrow> bool \<times> cursor" where
  "leaf_read_advance_checked s c =
     (if c_end c then (True, c)
      else case cursor_count s c of None \<Rightarrow> (False, c\<lparr>c_end := True\<rparr>)
      | Some count \<Rightarrow>
          if c_cell c + 1 < count then (True, c\<lparr>c_cell := c_cell c + 1\<rparr>)
          else (case forward_loop s (c_page c) count 0 of
                  At_Damage p \<Rightarrow> (False, c\<lparr>c_page := p, c_end := True\<rparr>)
                | At_End p n \<Rightarrow> (True, c\<lparr>c_page := p, c_end := True\<rparr>)
                | At_Rows p n \<Rightarrow> (True, c\<lparr>c_page := p, c_cell := 0\<rparr>)))"

definition leaf_read_retreat_checked :: "tree \<Rightarrow> cursor \<Rightarrow> bool \<times> cursor" where
  "leaf_read_retreat_checked s c =
     (if c_end c then (True, c)
      else case cursor_count s c of None \<Rightarrow> (False, c\<lparr>c_end := True\<rparr>)
      | Some count \<Rightarrow>
          if c_cell c > 0 then (True, c\<lparr>c_cell := c_cell c - 1\<rparr>)
          else (case backward_loop s (c_page c) count 0 of
                  At_Damage p \<Rightarrow> (False, c\<lparr>c_page := p, c_end := True\<rparr>)
                | At_End p n \<Rightarrow> (True, c\<lparr>c_page := p, c_end := True\<rparr>)
                | At_Rows p n \<Rightarrow> (True, c\<lparr>c_page := p, c_cell := n - 1\<rparr>)))"

definition leaf_read_advance :: "tree \<Rightarrow> cursor \<Rightarrow> cursor" where
  "leaf_read_advance s c = snd (leaf_read_advance_checked s c)"

definition leaf_read_retreat :: "tree \<Rightarrow> cursor \<Rightarrow> cursor" where
  "leaf_read_retreat s c = snd (leaf_read_retreat_checked s c)"

text \<open>The descent to the last leaf.\<close>

function rightmost_leaf :: "tree \<Rightarrow> nat \<Rightarrow> nat \<Rightarrow> nat option" where
  "rightmost_leaf s page_num depth =
     (let node = t_pages s page_num
      in if get_node_type node = NODE_INTERNAL then
           if \<not> internal_routing_valid s page_num node then None
           else let child_page = internal_node_right_child node
                in if \<not> valid_page_num s child_page \<or> child_page = page_num \<or> depth \<ge> t_num_pages s then None
                   else rightmost_leaf s child_page (depth + 1)
         else if get_node_type node \<noteq> NODE_LEAF then None else Some page_num)"
  by pat_completeness auto
termination
  by (relation "measure (\<lambda>(s, p, depth). t_num_pages s - depth)") auto

declare rightmost_leaf.simps [simp del]

definition leaf_read_end :: "tree \<Rightarrow> cursor option" where
  "leaf_read_end s =
     (if \<not> valid_page_num s (t_root s) then None
      else case rightmost_leaf s (t_root s) 0 of None \<Rightarrow> None
      | Some page_num \<Rightarrow>
          (case page_count (t_pages s page_num) of None \<Rightarrow> None
           | Some count \<Rightarrow> Some \<lparr>c_page = page_num, c_cell = (if count > 0 then count - 1 else 0), c_end = (count = 0)\<rparr>))"

text \<open>
  The checking cursors on well-formed tables: none of their checks fails, a search ends at the first row whose key is
  not below the one sought, and each move goes to the neighbouring row.
\<close>

section \<open>Neighbouring leaves\<close>

lemma leaf_key_at_table:
  assumes T: "table_ok s sh" and few: "t_num_pages s \<le> INVALID_PAGE_NUM" and n: "n \<in> set (leaf_pages sh)"
    and i: "i < leaf_node_num_cells (t_pages s n)"
  shows "leaf_key_at s n i = Some (leaf_keys (t_pages s n) ! i)"
proof -
  note L = table_leaves [OF T few n]
  have v1: "detect_page (t_pages s n) = PAGE_FORMAT_FIXED_V1" using L by blast
  have "page_key_at (t_pages s n) i = Some (map fst (page_rows (t_pages s n)) ! i)"
    using page_access(2) [of "t_pages s n" i] v1 i by (simp add: page_rows_def)
  then show ?thesis using L v1_keys [OF v1] by (simp add: leaf_key_at_def Let_def)
qed

lemma neighbours_ordered:
  assumes T: "table_ok s sh" and ns: "leaf_pages sh = as @ n # m # bs"
    and x: "x \<in> set (leaf_keys (t_pages s n))" and y: "y \<in> set (leaf_keys (t_pages s m))"
  shows "x < y"
proof -
  have "well_formed (t_pages s) UNIV sh" using T by (simp add: table_ok_def tree_ok_def)
  from all_cells_sorted [OF this] show ?thesis unfolding ns using x y by (auto simp: sorted_wrt_append)
qed

lemma table_links:
  assumes T: "table_ok s sh" and ns: "leaf_pages sh = as @ n # bs"
  shows "leaf_node_next_leaf (t_pages s n) = (case bs of [] \<Rightarrow> 0 | m # _ \<Rightarrow> m)"
    "leaf_node_prev_leaf (t_pages s n) = (if as = [] then 0 else last as)"
    "1 < length (leaf_pages sh) \<Longrightarrow> 0 \<notin> set (leaf_pages sh) \<and> (\<forall>m \<in> set (leaf_pages sh). 0 < leaf_node_num_cells (t_pages s m))"
    "distinct (leaf_pages sh)"
proof -
  have "chain (t_pages s) 0 (as @ n # bs)" using T ns by (simp add: table_ok_def linked_def)
  from chain_append [OF this] show "leaf_node_next_leaf (t_pages s n) = (case bs of [] \<Rightarrow> 0 | m # _ \<Rightarrow> m)"
    "leaf_node_prev_leaf (t_pages s n) = (if as = [] then 0 else last as)" by simp_all
  show "1 < length (leaf_pages sh) \<Longrightarrow> 0 \<notin> set (leaf_pages sh) \<and> (\<forall>m \<in> set (leaf_pages sh). 0 < leaf_node_num_cells (t_pages s m))"
    using T by (simp add: table_ok_def linked_def)
  show "distinct (leaf_pages sh)" using T by (simp add: table_ok_def tree_ok_def)
qed

lemma transitions:
  assumes T: "table_ok s sh" and few: "t_num_pages s \<le> INVALID_PAGE_NUM" and ns: "leaf_pages sh = as @ n # m # bs"
  shows "ordered_forward_transition s n (leaf_node_num_cells (t_pages s n)) m (leaf_node_num_cells (t_pages s m))"
    "ordered_backward_transition s m (leaf_node_num_cells (t_pages s m)) n (leaf_node_num_cells (t_pages s n))"
    "reciprocal_forward_transition n (t_pages s m)" "reciprocal_backward_transition m (t_pages s n)"
proof -
  have nm: "n \<in> set (leaf_pages sh)" "m \<in> set (leaf_pages sh)" by (simp_all add: ns)
  let ?kn = "leaf_keys (t_pages s n)" and ?km = "leaf_keys (t_pages s m)"
  note K = leaf_key_at_table [OF T few nm(1)] leaf_key_at_table [OF T few nm(2)]
  have lt: "?kn ! i < ?km ! j" if "i < length ?kn" "j < length ?km" for i j
    using neighbours_ordered [OF T ns nth_mem [OF that(1)] nth_mem [OF that(2)]] .
  show "ordered_forward_transition s n (leaf_node_num_cells (t_pages s n)) m (leaf_node_num_cells (t_pages s m))"
    using K(1) [of "leaf_node_num_cells (t_pages s n) - 1"] K(2) [of 0] lt [of "leaf_node_num_cells (t_pages s n) - 1" 0]
    by (auto simp: ordered_forward_transition_def)
  show "ordered_backward_transition s m (leaf_node_num_cells (t_pages s m)) n (leaf_node_num_cells (t_pages s n))"
    using K(1) [of "leaf_node_num_cells (t_pages s n) - 1"] K(2) [of 0] lt [of "leaf_node_num_cells (t_pages s n) - 1" 0]
    by (auto simp: ordered_backward_transition_def)
  have ns': "leaf_pages sh = (as @ [n]) @ m # bs" by (simp add: ns)
  have v1: "detect_page (t_pages s n) = PAGE_FORMAT_FIXED_V1" "detect_page (t_pages s m) = PAGE_FORMAT_FIXED_V1"
    using table_leaves [OF T few nm(1)] table_leaves [OF T few nm(2)] by blast+
  show "reciprocal_forward_transition n (t_pages s m)"
    using table_links(2) [OF T ns'] v1_siblings [OF v1(2)] by (simp add: reciprocal_forward_transition_def)
  show "reciprocal_backward_transition m (t_pages s n)"
    using table_links(1) [OF T ns] v1_siblings [OF v1(1)] by (simp add: reciprocal_backward_transition_def)
qed

lemma forward_loop_table:
  assumes T: "table_ok s sh" and few: "t_num_pages s \<le> INVALID_PAGE_NUM" and ns: "leaf_pages sh = as @ n # bs"
  shows "forward_loop s n (leaf_node_num_cells (t_pages s n)) 0 = (case bs of [] \<Rightarrow> At_End n (leaf_node_num_cells (t_pages s n))
    | m # _ \<Rightarrow> At_Rows m (leaf_node_num_cells (t_pages s m)))"
proof -
  have n: "n \<in> set (leaf_pages sh)" by (simp add: ns)
  note L = table_leaves [OF T few] and K = table_links [OF T ns]
  have v1: "detect_page (t_pages s n) = PAGE_FORMAT_FIXED_V1" using L [OF n] by blast
  note S = v1_siblings [OF v1]
  show ?thesis
  proof (cases bs)
    case Nil
    then show ?thesis using S K(1) by (subst forward_loop.simps) (simp add: forward_step_def)
  next
    case (Cons m cs)
    then have ns': "leaf_pages sh = as @ n # m # cs" and m: "m \<in> set (leaf_pages sh)" by (simp_all add: ns)
    have pos: "m \<noteq> 0" "0 < leaf_node_num_cells (t_pages s m)" "m \<noteq> n" "0 < t_num_pages s"
      using K(3,4) m L [OF m] ns' by (auto simp: valid_page_num_def)
    have "page_count (t_pages s m) = Some (leaf_node_num_cells (t_pages s m))" using page_rows_v1(2) L [OF m] by blast
    then have "forward_step s n (leaf_node_num_cells (t_pages s n)) 0 = Some (Some (m, leaf_node_num_cells (t_pages s m)))"
      using S K(1) Cons pos L [OF m] transitions [OF T few ns'] by (simp add: forward_step_def Let_def)
    then show ?thesis using pos Cons by (subst forward_loop.simps) simp
  qed
qed

lemma backward_loop_table:
  assumes T: "table_ok s sh" and few: "t_num_pages s \<le> INVALID_PAGE_NUM" and ns: "leaf_pages sh = as @ n # bs"
  shows "backward_loop s n (leaf_node_num_cells (t_pages s n)) 0 = (if as = [] then At_End n (leaf_node_num_cells (t_pages s n))
    else At_Rows (last as) (leaf_node_num_cells (t_pages s (last as))))"
proof -
  have n: "n \<in> set (leaf_pages sh)" by (simp add: ns)
  note L = table_leaves [OF T few] and K = table_links [OF T ns]
  have v1: "detect_page (t_pages s n) = PAGE_FORMAT_FIXED_V1" using L [OF n] by blast
  note S = v1_siblings [OF v1]
  show ?thesis
  proof (cases "as = []")
    case True
    then show ?thesis using S K(2) by (subst backward_loop.simps) (simp add: backward_step_def)
  next
    case False
    let ?m = "last as"
    from False have "as = butlast as @ [?m]" by simp
    then have ns': "leaf_pages sh = butlast as @ ?m # n # bs" using ns by (metis append.assoc append_Cons append_Nil)
    have m: "?m \<in> set (leaf_pages sh)" using False by (simp add: ns)
    have pos: "?m \<noteq> 0" "0 < leaf_node_num_cells (t_pages s ?m)" "?m \<noteq> n" "0 < t_num_pages s"
      using K(3,4) m L [OF m] ns' by (auto simp: valid_page_num_def)
    have "page_count (t_pages s ?m) = Some (leaf_node_num_cells (t_pages s ?m))" using page_rows_v1(2) L [OF m] by blast
    then have "backward_step s n (leaf_node_num_cells (t_pages s n)) 0 = Some (Some (?m, leaf_node_num_cells (t_pages s ?m)))"
      using S K(2) False pos L [OF m] transitions [OF T few ns'] by (simp add: backward_step_def Let_def)
    then show ?thesis using pos False by (subst backward_loop.simps) simp
  qed
qed

section \<open>Moving\<close>

lemma cursor_count_table:
  assumes T: "table_ok s sh" and few: "t_num_pages s \<le> INVALID_PAGE_NUM" and n: "c_page c \<in> set (leaf_pages sh)"
    and c: "c_cell c < leaf_node_num_cells (t_pages s (c_page c))"
  shows "cursor_count s c = Some (leaf_node_num_cells (t_pages s (c_page c)))"
proof -
  note L = table_leaves [OF T few n]
  then have "page_count (t_pages s (c_page c)) = Some (leaf_node_num_cells (t_pages s (c_page c)))" using page_rows_v1(2) by blast
  then show ?thesis using L c by (simp add: cursor_count_def Let_def)
qed

lemma read_advance_at:
  assumes T: "table_ok s sh" and few: "t_num_pages s \<le> INVALID_PAGE_NUM" and at: "at_position (t_pages s) (leaf_pages sh) i c"
  shows "\<exists>c'. leaf_read_advance_checked s c = (True, c') \<and>
    (if Suc i < length (all_cells (t_pages s) (leaf_pages sh)) then at_position (t_pages s) (leaf_pages sh) (Suc i) c' else c_end c')"
proof -
  let ?P = "t_pages s" and ?n = "c_page c"
  from at obtain as bs where ns: "leaf_pages sh = as @ ?n # bs" and c: "c_cell c < leaf_node_num_cells (?P ?n)"
    and i: "i = length (all_cells ?P as) + c_cell c" and e: "\<not> c_end c" by (auto simp: at_position_def)
  have n: "?n \<in> set (leaf_pages sh)" by (simp add: ns)
  have run: "leaf_read_advance_checked s c =
      (if Suc (c_cell c) < leaf_node_num_cells (?P ?n) then (True, c\<lparr>c_cell := Suc (c_cell c)\<rparr>)
       else case bs of [] \<Rightarrow> (True, c\<lparr>c_end := True\<rparr>) | m # _ \<Rightarrow> (True, c\<lparr>c_page := m, c_cell := 0\<rparr>))"
    using e cursor_count_table [OF T few n c] forward_loop_table [OF T few ns]
    by (simp add: leaf_read_advance_checked_def split: list.split)
  show ?thesis
  proof (cases "Suc (c_cell c) < leaf_node_num_cells (?P ?n)")
    case True
    then have "at_position ?P (leaf_pages sh) (Suc i) (c\<lparr>c_cell := c_cell c + 1\<rparr>)" using ns i e by (intro at_positionI [of _ as _ bs]) simp_all
    moreover have "Suc i < length (all_cells ?P (leaf_pages sh))" using True ns i by simp
    ultimately show ?thesis using run True by simp
  next
    case False
    then have last: "leaf_node_num_cells (?P ?n) = Suc (c_cell c)" using c by simp
    show ?thesis
    proof (cases bs)
      case Nil
      then show ?thesis using run last e ns i by simp
    next
      case (Cons m cs)
      have "0 < leaf_node_num_cells (?P m)" using table_links(3) [OF T ns] ns Cons by simp
      then have "at_position ?P (leaf_pages sh) (Suc i) (c\<lparr>c_page := m, c_cell := 0\<rparr>)" "Suc i < length (all_cells ?P (leaf_pages sh))"
        using ns Cons i e last by (auto intro!: at_positionI [of _ "as @ [?n]" _ cs])
      then show ?thesis using run last e Cons by simp
    qed
  qed
qed

lemma read_retreat_at:
  assumes T: "table_ok s sh" and few: "t_num_pages s \<le> INVALID_PAGE_NUM" and at: "at_position (t_pages s) (leaf_pages sh) i c"
  shows "\<exists>c'. leaf_read_retreat_checked s c = (True, c') \<and>
    (if 0 < i then at_position (t_pages s) (leaf_pages sh) (i - 1) c' else c_end c')"
proof -
  let ?P = "t_pages s" and ?n = "c_page c"
  from at obtain as bs where ns: "leaf_pages sh = as @ ?n # bs" and c: "c_cell c < leaf_node_num_cells (?P ?n)"
    and i: "i = length (all_cells ?P as) + c_cell c" and e: "\<not> c_end c" by (auto simp: at_position_def)
  have n: "?n \<in> set (leaf_pages sh)" by (simp add: ns)
  have run: "leaf_read_retreat_checked s c =
      (if 0 < c_cell c then (True, c\<lparr>c_cell := c_cell c - 1\<rparr>)
       else if as = [] then (True, c\<lparr>c_end := True\<rparr>)
       else (True, c\<lparr>c_page := last as, c_cell := leaf_node_num_cells (?P (last as)) - 1\<rparr>))"
    using e cursor_count_table [OF T few n c] backward_loop_table [OF T few ns] by (simp add: leaf_read_retreat_checked_def)
  show ?thesis
  proof (cases "0 < c_cell c")
    case True
    then have "at_position ?P (leaf_pages sh) (i - 1) (c\<lparr>c_cell := c_cell c - 1\<rparr>)" using ns i e c by (intro at_positionI [of _ as _ bs]) simp_all
    then show ?thesis using run True e i by simp
  next
    case False
    show ?thesis
    proof (cases "as = []")
      case True
      then show ?thesis using run False e i by simp
    next
      case ne: False
      let ?m = "last as"
      have as: "as = butlast as @ [?m]" using ne by simp
      have num: "0 < leaf_node_num_cells (?P ?m)" using table_links(3) [OF T ns] ns ne by (cases as) auto
      have len: "length (all_cells ?P as) = length (all_cells ?P (butlast as)) + leaf_node_num_cells (?P ?m)"
        by (subst as) simp
      have "leaf_pages sh = butlast as @ ?m # ?n # bs" unfolding ns by (subst as) simp
      then have "at_position ?P (leaf_pages sh) (i - 1) (c\<lparr>c_page := ?m, c_cell := leaf_node_num_cells (?P ?m) - 1\<rparr>)"
        using i False e num len by (intro at_positionI [of _ "butlast as" _ "?n # bs"]) simp_all
      then show ?thesis using run False e ne i num len by simp
    qed
  qed
qed

text \<open>Where the search of the checking cursors ends.\<close>

lemma keys_around:
  assumes T: "table_ok s sh" and to: "leads_to (t_pages s) k sh m" and ns: "leaf_pages sh = as @ m # bs"
  shows "\<forall>x \<in> set (map cell_key (all_cells (t_pages s) as)). x < k" "\<forall>x \<in> set (map cell_key (all_cells (t_pages s) bs)). k < x"
proof -
  let ?P = "t_pages s"
  have "(\<forall>x \<in> set (map cell_key (all_cells ?P as)). x < k) \<and> (\<forall>x \<in> set (map cell_key (all_cells ?P bs)). k < x)"
  proof -
    from T consider n where "sh = Leaf_At n" | p ls where "sh = Node_At p (map Leaf_At ls)" by (auto simp: table_ok_def two_levels_def)
    then show ?thesis
    proof cases
      case 1
      then show ?thesis using ns by (cases as) (auto simp: Cons_eq_append_conv)
    next
      case 2
      have lp: "ls = as @ m # bs" using ns unfolding 2 leaf_pages_flat .
      have two: "two_level_ok s p ls" using T unfolding 2 table_ok_two_level .
      have d: "distinct ls" and num: "length ls = Suc (internal_node_num_keys (?P p))"
        and r: "\<And>j. j < length ls \<Longrightarrow> set (leaf_keys (?P (ls ! j))) \<subseteq> route (?P p) j"
        using two unfolding two_level_ok_def by auto
      obtain i where i: "i < length ls" "k \<in> route (?P p) i" "ls ! i = m"
        using to unfolding 2 by (auto elim!: leads_to_nodeE leads_to_leafE)
      have "ls ! length as = m" "length as < length ls" by (simp_all add: lp)
      then have ie: "i = length as" using nth_eq_iff_index_eq [OF d i(1)] i(3) by auto
      have before: "x < k" if a: "a \<in> set as" "x \<in> set (leaf_keys (?P a))" for a x
      proof -
        obtain j where j: "j < length as" "as ! j = a" using a(1) by (auto simp: in_set_conv_nth)
        then have "ls ! j = a" "j < length ls" by (simp_all add: lp nth_append)
        then have "x \<in> route (?P p) j" using r [of j] a(2) by blast
        then have "x \<le> internal_node_key (?P p) j" using j num lp by (auto simp: route_def)
        moreover have "internal_node_key (?P p) j < k" using i(2) j ie by (auto simp: route_def)
        ultimately show ?thesis by simp
      qed
      have after: "k < x" if b: "b \<in> set bs" "x \<in> set (leaf_keys (?P b))" for b x
      proof -
        obtain j where j: "j < length bs" "bs ! j = b" using b(1) by (auto simp: in_set_conv_nth)
        then have "ls ! (Suc (length as) + j) = b" "Suc (length as) + j < length ls" by (simp_all add: lp nth_append)
        then have "x \<in> route (?P p) (Suc (length as) + j)" using r [of "Suc (length as) + j"] b(2) by auto
        then have "internal_node_key (?P p) (length as) < x" by (auto simp: route_def)
        moreover have "k \<le> internal_node_key (?P p) (length as)" using i(2) j ie num lp by (auto simp: route_def)
        ultimately show ?thesis by simp
      qed
      show ?thesis using before after by (auto simp: all_cells_def)
    qed
  qed
  then show "\<forall>x \<in> set (map cell_key (all_cells ?P as)). x < k" "\<forall>x \<in> set (map cell_key (all_cells ?P bs)). k < x" by blast+
qed

definition table_keys :: "tree \<Rightarrow> shape \<Rightarrow> nat list" where
  "table_keys s sh = map cell_key (all_cells (t_pages s) (leaf_pages sh))"

text \<open>A cursor at row \<open>i\<close> of the table, or at its end.\<close>

definition cursor_at :: "tree \<Rightarrow> shape \<Rightarrow> nat \<Rightarrow> cursor \<Rightarrow> bool" where
  "cursor_at s sh i c \<longleftrightarrow>
     (if i < length (all_cells (t_pages s) (leaf_pages sh)) then at_position (t_pages s) (leaf_pages sh) i c else c_end c)"

lemma read_leaf_find_table:
  assumes T: "table_ok s sh" and few: "t_num_pages s \<le> INVALID_PAGE_NUM" and to: "leads_to (t_pages s) k sh m"
  shows "\<exists>c. read_leaf_find s m k = Some c \<and> cursor_at s sh (length (filter (\<lambda>x. x < k) (table_keys s sh))) c \<and>
    (c_end c \<longrightarrow> page_key_at (t_pages s (c_page c)) (c_cell c) = None)"
proof -
  let ?P = "t_pages s" and ?n = "leaf_node_num_cells (t_pages s m)"
  have m: "m \<in> set (leaf_pages sh)" by (rule leads_to_leaf [OF to])
  from split_list [OF m] obtain as bs where ns: "leaf_pages sh = as @ m # bs" by blast
  note A = keys_around [OF T to ns] and L = table_leaves [OF T few m]
  have v1: "detect_page (?P m) = PAGE_FORMAT_FIXED_V1" using L by blast
  have "well_formed ?P UNIV sh" using T by (simp add: table_ok_def tree_ok_def)
  then have ok: "leaf_ok (?P m)" using m well_formed_leaf_ok by blast
  define r where "r = length (filter (\<lambda>x. x < k) (leaf_keys (?P m)))"
  have lb: "page_lower_bound (?P m) k = Some (r, k \<in> fst ` set (page_rows (?P m)))"
    using page_lower_bound_spec(2) [of "?P m" k] v1 v1_keys [OF v1] ok by (simp add: r_def leaf_ok_def)
  have rn: "r \<le> ?n" unfolding r_def by (rule order_trans [OF length_filter_le]) simp
  have cnt: "page_count (?P m) = Some ?n" by (rule page_rows_v1(2) [OF v1])
  have "filter (\<lambda>x. x < k) (map cell_key (all_cells ?P as)) = map cell_key (all_cells ?P as)" using A(1) by (simp add: filter_id_conv)
  moreover have "filter (\<lambda>x. x < k) (map cell_key (all_cells ?P bs)) = []" using A(2) by (auto simp: filter_empty_conv)
  ultimately have pos: "length (filter (\<lambda>x. x < k) (table_keys s sh)) = length (all_cells ?P as) + r"
    unfolding table_keys_def ns r_def by (simp only: all_cells_simps map_append filter_append length_append length_map) simp
  have tot: "length (all_cells ?P (leaf_pages sh)) = length (all_cells ?P as) + ?n + length (all_cells ?P bs)" by (simp add: ns)
  note run = read_leaf_find_def [of s m k]
  show ?thesis
  proof (cases "r < ?n")
    case True
    then have "read_leaf_find s m k = Some \<lparr>c_page = m, c_cell = r, c_end = False\<rparr>" using L cnt lb by (simp add: run Let_def)
    moreover have "at_position ?P (leaf_pages sh) (length (all_cells ?P as) + r) \<lparr>c_page = m, c_cell = r, c_end = False\<rparr>"
      by (rule at_positionI [of _ as _ bs]) (use ns True in simp_all)
    ultimately show ?thesis using True tot by (simp add: cursor_at_def pos)
  next
    case False
    then have r: "r = ?n" using rn by simp
    then have e: "read_leaf_find s m k = (case bs of [] \<Rightarrow> Some \<lparr>c_page = m, c_cell = ?n, c_end = True\<rparr>
        | b # _ \<Rightarrow> Some \<lparr>c_page = b, c_cell = 0, c_end = False\<rparr>)"
      using L cnt lb forward_loop_table [OF T few ns] by (simp add: run Let_def split: list.split)
    show ?thesis
    proof (cases bs)
      case Nil
      moreover have "page_key_at (?P m) ?n = None" using page_access(2) [of "?P m" ?n] v1 by (simp add: page_rows_def)
      ultimately show ?thesis unfolding e cursor_at_def pos tot using r by simp
    next
      case (Cons b cs)
      have "0 < leaf_node_num_cells (?P b)" using table_links(3) [OF T ns] ns Cons by simp
      then have "at_position ?P (leaf_pages sh) (length (all_cells ?P as) + r) \<lparr>c_page = b, c_cell = 0, c_end = False\<rparr>"
        "length (all_cells ?P as) + r < length (all_cells ?P (leaf_pages sh))"
        using ns Cons r tot by (auto intro!: at_positionI [of _ "as @ [m]" _ cs])
      then show ?thesis unfolding e cursor_at_def pos using Cons by simp
    qed
  qed
qed

lemma routing_valid_table:
  assumes two: "two_level_ok s p ns" and few: "t_num_pages s \<le> INVALID_PAGE_NUM"
  shows "internal_routing_valid s p (t_pages s p)"
proof -
  let ?q = "t_pages s p"
  have q: "node_ok ?q" and kids: "node_kids ?q = ns" and d: "distinct ns" and pn: "p \<notin> set ns" and len: "1 < length ns"
    and sp: "space s (insert 0 (insert p (set ns)))"
    and keys: "\<And>j. j < length ns \<Longrightarrow> set (leaf_keys (t_pages s (ns ! j))) \<subseteq> route ?q j"
    and ne: "\<And>n. n \<in> set ns \<Longrightarrow> 0 < leaf_node_num_cells (t_pages s n)"
    using two unfolding two_level_ok_def by blast+
  have num: "length ns = Suc (internal_node_num_keys ?q)" using kids by auto
  have kid: "child_at ?q i = ns ! i" if "i \<le> internal_node_num_keys ?q" for i
    using that num kids [symmetric] by (simp add: node_kids_def del: upt_Suc)
  have right: "internal_node_right_child ?q = ns ! internal_node_num_keys ?q"
    using kid [of "internal_node_num_keys ?q"] by (simp add: child_at_def internal_node_right_child_def)
  have v: "valid_page_num s (ns ! i) \<and> ns ! i \<noteq> p" if "i \<le> internal_node_num_keys ?q" for i
  proof -
    have i: "ns ! i \<in> set ns" using that num by simp
    then have "ns ! i < t_num_pages s" using sp by (auto simp: space_def)
    then show ?thesis using i few pn by (metis not_less valid_page_num_def)
  qed
  have diff: "ns ! i \<noteq> ns ! j" if "i < j" "j \<le> internal_node_num_keys ?q" for i j
    using nth_eq_iff_index_eq [OF d, of i j] that num by simp
  have asc: "internal_node_key ?q (i - 1) < internal_node_key ?q i" if i: "0 < i" "i < internal_node_num_keys ?q" for i
  proof -
    have "ns ! i \<in> set ns" using i num by simp
    then have "leaf_keys (t_pages s (ns ! i)) \<noteq> []" using ne by (force simp: leaf_cells_def)
    then obtain x where "x \<in> set (leaf_keys (t_pages s (ns ! i)))" by (meson list.set_sel(1))
    then have "x \<in> route ?q i" using keys [of i] i num by auto
    then have "internal_node_key ?q (i - 1) < x" "x \<le> internal_node_key ?q i" using i by (auto simp: route_def)
    then show ?thesis by simp
  qed
  have "get_node_type ?q = NODE_INTERNAL" "internal_node_num_keys ?q \<le> INTERNAL_NODE_MAX_KEYS" using q by (simp_all add: node_ok_def)
  moreover have "internal_node_num_keys ?q \<noteq> 0" using num len by simp
  ultimately show ?thesis
    using v [of "internal_node_num_keys ?q"] asc
    by (auto simp: internal_routing_valid_def Let_def right list_all_iff kid v diff intro: diff [THEN not_sym])
qed

lemma leaf_read_find_table:
  assumes T: "table_ok s sh" and few: "t_num_pages s \<le> INVALID_PAGE_NUM"
  shows "\<exists>c. leaf_read_find s k = Some c \<and> cursor_at s sh (length (filter (\<lambda>x. x < k) (table_keys s sh))) c \<and>
    (c_end c \<longrightarrow> page_key_at (t_pages s (c_page c)) (c_cell c) = None)"
proof -
  have wf: "well_formed (t_pages s) UNIV sh" using T by (simp add: table_ok_def tree_ok_def)
  obtain m where to: "leads_to (t_pages s) k sh m" using leads_to_exists [OF wf UNIV_I] by blast
  have "leaf_read_find s k = read_leaf_find s m k"
  proof -
    from T consider n where "sh = Leaf_At n" | p ns where "sh = Node_At p (map Leaf_At ns)" by (auto simp: table_ok_def two_levels_def)
    then show ?thesis
    proof cases
      case 1
      then have "t_root s = n" "m = n" using T to by (auto simp: table_ok_def tree_ok_def elim: leads_to_leafE)
      then show ?thesis using table_leaves [OF T few, of n] 1 by (simp add: leaf_read_find_def)
    next
      case 2
      have two: "two_level_ok s p ns" using T unfolding 2 table_ok_two_level .
      have root: "t_root s = p" and q: "node_ok (t_pages s p)" and kids: "node_kids (t_pages s p) = ns"
        and sp: "space s (insert 0 (insert p (set ns)))" and pn: "p \<notin> set ns" using two unfolding two_level_ok_def by blast+
      let ?q = "t_pages s p" let ?j = "find_child_loop ?q k 0 (internal_node_num_keys ?q)"
      have num: "length ns = Suc (internal_node_num_keys ?q)" using kids by auto
      note R = find_child_routes [OF q, of k]
      obtain off where off: "internal_node_find_child ?q k = Inr off" "rd32 off ?q = ns ! ?j"
        using find_child_child_at [OF q, of k] kids R(1) nth_node_lists(2) [of ?j ?q] by auto
      have "leads_to (t_pages s) k sh (ns ! ?j)" unfolding 2
        by (rule leads_to.below [of ?j]) (use R num in \<open>auto intro: leads_to.here\<close>)
      then have mj: "m = ns ! ?j" using leads_to_unique [OF wf to] by blast
      have j: "ns ! ?j \<in> set ns" using R(1) num by simp
      have vp: "valid_page_num s p" using sp few by (auto simp: valid_page_num_def space_def)
      have lp: "leaf_pages sh = ns" unfolding 2 leaf_pages_flat ..
      note L = table_leaves [OF T few, unfolded lp, OF j]
      have ty: "get_node_type ?q = NODE_INTERNAL" "NODE_INTERNAL \<noteq> NODE_LEAF" using q by (simp_all add: node_ok_def NODE_INTERNAL_def NODE_LEAF_def)
      have "ns ! ?j \<noteq> p" using j pn by metis
      then have "read_internal_find s p k 0 = read_leaf_find s (ns ! ?j) k"
        using vp routing_valid_table [OF two few] off L by (subst read_internal_find.simps) (simp add: Let_def)
      then show ?thesis unfolding mj using vp ty root by (simp add: leaf_read_find_def Let_def)
    qed
  qed
  then show ?thesis using read_leaf_find_table [OF T few to] by simp
qed

end
