(* ===== verification/RecordCodec.thy ===== *)
theory RecordCodec
  imports Schema BTreeNode
begin

text \<open>
  Rows as bytes, after \<open>src/record.c\<close> and \<open>src/record_payload.c\<close>: a row of a table is the concatenation of its columns
  at the offsets of the schema, an INT as four bytes and a VARCHAR as its characters, a NUL and padding. A record is
  the fixed slot of \<open>ROW_SIZE\<close> bytes of a V1 leaf; a payload is a wider buffer with a length.

  A function that fails writes its reason into a message buffer; the message is the \<open>Inl\<close> of the result.
\<close>

definition RECORD_PAYLOAD_MAX :: nat where "RECORD_PAYLOAD_MAX = MAX_COLUMNS_PER_TABLE * (RECORD_TEXT_MAX + 1)"

record record_payload =
  p_length :: nat
  p_bytes :: bytes

section \<open>Schemas that can hold records\<close>

definition record_column_check :: "table_schema \<Rightarrow> nat \<Rightarrow> nat \<Rightarrow> string + nat" where
  "record_column_check schema i expected_offset =
     (let column = columns schema ! i
      in if col_size column = 0 \<or> col_offset column > row_size schema \<or> col_size column > row_size schema - col_offset column then
           Inl ''schema contains a column outside its serialized row bounds''
         else if col_offset column \<noteq> expected_offset then
           Inl ''schema columns must form a contiguous non-overlapping serialized row layout''
         else if col_type column = COL_TYPE_INT \<and> col_size column \<noteq> 4 then
           Inl ''INT columns must use a 4-byte serialized representation''
         else if col_type column \<noteq> COL_TYPE_INT \<and> col_type column \<noteq> COL_TYPE_VARCHAR then
           Inl ''schema contains an unsupported column type''
         else Inr (expected_offset + col_size column))"

definition schema_supports_records :: "table_schema \<Rightarrow> string + unit" where
  "schema_supports_records schema =
     (if num_columns schema = 0 \<or> num_columns schema > MAX_COLUMNS_PER_TABLE then Inl ''schema has an invalid column count''
      else if row_size schema = 0 \<or> row_size schema > ROW_SIZE then
        Inl ''schema row does not fit the current fixed B+ tree value slot''
      else if \<not> ci_equal (col_name (columns schema ! 0)) (ascii ''id'') \<or> col_type (columns schema ! 0) \<noteq> COL_TYPE_INT \<or>
          col_offset (columns schema ! 0) \<noteq> 0 \<or> col_size (columns schema ! 0) \<noteq> 4 then
        Inl ''generic records currently require the first column to be id INT''
      else and_then (for_each (record_column_check schema) [0..<num_columns schema] 0) (\<lambda>expected_offset.
        if expected_offset \<noteq> row_size schema then Inl ''schema row size must match the serialized column layout''
        else Inr ()))"

definition payload_column_check :: "table_schema \<Rightarrow> nat \<Rightarrow> nat \<Rightarrow> string + nat" where
  "payload_column_check schema i expected_offset =
     (let column = columns schema ! i
      in if col_size column = 0 \<or> col_offset column \<noteq> expected_offset \<or> col_offset column > row_size schema \<or>
           col_size column > row_size schema - col_offset column then
           Inl ''schema columns must form a contiguous serialized payload layout''
         else if col_type column = COL_TYPE_INT \<and> col_size column \<noteq> 4 then
           Inl ''INT columns must use a 4-byte serialized representation''
         else if col_type column \<noteq> COL_TYPE_INT \<and> col_type column \<noteq> COL_TYPE_VARCHAR then
           Inl ''schema contains an unsupported column type''
         else if expected_offset > 2 ^ 32 - 1 - col_size column then Inl ''schema serialized offsets overflow''
         else Inr (expected_offset + col_size column))"

definition payload_schema_supported :: "table_schema \<Rightarrow> string + unit" where
  "payload_schema_supported schema =
     (if num_columns schema = 0 \<or> num_columns schema > MAX_COLUMNS_PER_TABLE then Inl ''schema has an invalid column count''
      else if row_size schema = 0 \<or> row_size schema > RECORD_PAYLOAD_MAX then
        Inl ''schema row exceeds the schema-aware logical payload capacity''
      else if col_type (columns schema ! 0) \<noteq> COL_TYPE_INT \<or> col_offset (columns schema ! 0) \<noteq> 0 \<or> col_size (columns schema ! 0) \<noteq> 4 then
        Inl ''generic payload records require an INT primary key as the first column''
      else and_then (for_each (payload_column_check schema) [0..<num_columns schema] 0) (\<lambda>expected_offset.
        if expected_offset \<noteq> row_size schema then Inl ''schema row size must match the serialized payload layout''
        else Inr ()))"

section \<open>Writing a row\<close>

text \<open>The body of the loop of both encoders; they differ in the messages.\<close>

definition encode_column :: "string \<Rightarrow> table_schema \<Rightarrow> tval list \<Rightarrow> nat \<Rightarrow> bytes \<Rightarrow> string + bytes" where
  "encode_column type_message schema vals i buffer =
     (let column = columns schema ! i; val = vals ! i
      in if v_type val \<noteq> col_type column then Inl type_message
         else if col_type column = COL_TYPE_INT then Inr (blit (col_offset column) (put_u32 (v_int val)) buffer)
         else if length (v_text val) \<ge> col_size column then Inl ''VARCHAR value exceeds its serialized column capacity''
         else Inr (blit (col_offset column) (v_text val @ [0]) buffer))"

definition record_encode :: "table_schema \<Rightarrow> tval list \<Rightarrow> string + bytes" where
  "record_encode schema vals =
     and_then (schema_supports_records schema) (\<lambda>_.
       if length vals \<noteq> num_columns schema then Inl ''record value count does not match the table schema''
       else for_each (encode_column ''record value type does not match column schema'' schema vals)
         [0..<num_columns schema] (replicate ROW_SIZE 0))"

definition payload_encode_values :: "table_schema \<Rightarrow> tval list \<Rightarrow> string + record_payload" where
  "payload_encode_values schema vals =
     and_then (payload_schema_supported schema) (\<lambda>_.
       if length vals \<noteq> num_columns schema then Inl ''record value count does not match the payload schema''
       else and_then (for_each (encode_column ''record value type does not match payload column schema'' schema vals)
           [0..<num_columns schema] (replicate RECORD_PAYLOAD_MAX 0))
         (\<lambda>buffer. Inr \<lparr>p_length = row_size schema, p_bytes = buffer\<rparr>))"

section \<open>Reading a row\<close>

text \<open>The characters in front of the first NUL of a field, or of the whole field.\<close>

definition field_text :: "table_column \<Rightarrow> bytes \<Rightarrow> bytes" where
  "field_text column buffer = takeWhile (\<lambda>c. c \<noteq> 0) (slice (col_offset column) (col_size column) buffer)"

definition record_decode_column :: "table_schema \<Rightarrow> bytes \<Rightarrow> nat \<Rightarrow> tval list \<Rightarrow> string + tval list" where
  "record_decode_column schema buffer i vals =
     (let column = columns schema ! i
      in if col_type column = COL_TYPE_INT then
           Inr (vals @ [\<lparr>v_type = col_type column, v_int = get_u32 (slice (col_offset column) 4 buffer), v_text = []\<rparr>])
         else if length (field_text column buffer) = col_size column then
           Inl ''serialized VARCHAR field is not NUL-terminated within its column capacity''
         else Inr (vals @ [\<lparr>v_type = col_type column, v_int = 0, v_text = take RECORD_TEXT_MAX (field_text column buffer)\<rparr>]))"

definition record_decode :: "table_schema \<Rightarrow> bytes \<Rightarrow> nat \<Rightarrow> string + tval list" where
  "record_decode schema buffer value_capacity =
     and_then (schema_supports_records schema) (\<lambda>_.
       if value_capacity < num_columns schema then Inl ''record decode buffer is too small''
       else for_each (record_decode_column schema buffer) [0..<num_columns schema] [])"

definition payload_decode_column :: "table_schema \<Rightarrow> bytes \<Rightarrow> nat \<Rightarrow> tval list \<Rightarrow> string + tval list" where
  "payload_decode_column schema buffer i vals =
     (let column = columns schema ! i
      in if col_type column = COL_TYPE_INT then
           Inr (vals @ [\<lparr>v_type = col_type column, v_int = get_u32 (slice (col_offset column) 4 buffer), v_text = []\<rparr>])
         else if length (field_text column buffer) = col_size column \<or> length (field_text column buffer) > RECORD_TEXT_MAX then
           Inl ''serialized VARCHAR does not fit the logical value carrier''
         else Inr (vals @ [\<lparr>v_type = col_type column, v_int = 0, v_text = field_text column buffer\<rparr>]))"

definition payload_decode_values :: "table_schema \<Rightarrow> record_payload \<Rightarrow> nat \<Rightarrow> string + tval list" where
  "payload_decode_values schema p value_capacity =
     and_then (payload_schema_supported schema) (\<lambda>_.
       if value_capacity < num_columns schema \<or> p_length p \<noteq> row_size schema then Inl ''payload decode buffer or length is invalid''
       else for_each (payload_decode_column schema (p_bytes p)) [0..<num_columns schema] [])"

section \<open>Records and payloads\<close>

definition validate_legacy_schema :: "table_schema \<Rightarrow> string + unit" where
  "validate_legacy_schema schema =
     and_then (schema_supports_records schema) (\<lambda>_.
       if row_size schema > ROW_SIZE then Inl ''logical record does not fit the legacy fixed record carrier'' else Inr ())"

definition payload_from_record :: "table_schema \<Rightarrow> bytes \<Rightarrow> string + record_payload" where
  "payload_from_record schema record =
     and_then (validate_legacy_schema schema) (\<lambda>_.
       Inr \<lparr>p_length = row_size schema, p_bytes = blit 0 (take (row_size schema) record) (replicate RECORD_PAYLOAD_MAX 0)\<rparr>)"

definition payload_to_record :: "table_schema \<Rightarrow> record_payload \<Rightarrow> string + bytes" where
  "payload_to_record schema p =
     and_then (validate_legacy_schema schema) (\<lambda>_.
       if p_length p \<noteq> row_size schema \<or> p_length p > ROW_SIZE then Inl ''payload length does not match the legacy schema row size''
       else Inr (blit 0 (take (p_length p) (p_bytes p)) (replicate ROW_SIZE 0)))"

definition pack_fixed_slot :: "record_payload \<Rightarrow> nat \<Rightarrow> string + bytes" where
  "pack_fixed_slot p slot_size =
     (if slot_size \<noteq> ROW_SIZE then Inl ''legacy fixed leaf slot must be exactly ROW_SIZE bytes''
      else if p_length p = 0 \<or> p_length p > ROW_SIZE then Inl ''payload length is outside fixed-slot bounds''
      else Inr (blit 0 (take (p_length p) (p_bytes p)) (replicate slot_size 0)))"

definition unpack_fixed_slot :: "table_schema \<Rightarrow> bytes \<Rightarrow> nat \<Rightarrow> string + record_payload" where
  "unpack_fixed_slot schema slot slot_size =
     and_then (validate_legacy_schema schema) (\<lambda>_.
       if slot_size \<noteq> ROW_SIZE then Inl ''legacy fixed leaf slot must be exactly ROW_SIZE bytes''
       else Inr \<lparr>p_length = row_size schema, p_bytes = blit 0 (take (row_size schema) slot) (replicate RECORD_PAYLOAD_MAX 0)\<rparr>)"

text \<open>Encoding and decoding of rows are inverse: the layout of an accepted schema, the image of a row, and the round trips.\<close>

section \<open>The layout of a schema\<close>

definition column_ok :: "table_column \<Rightarrow> bool" where
  "column_ok c \<longleftrightarrow> 0 < col_size c \<and> (col_type c = COL_TYPE_INT \<and> col_size c = 4 \<or> col_type c = COL_TYPE_VARCHAR)"

definition width :: "table_column list \<Rightarrow> nat" where
  "width cs = sum_list (map col_size cs)"

text \<open>The columns lie one behind the other.\<close>

definition contiguous :: "table_column list \<Rightarrow> bool" where
  "contiguous cs \<longleftrightarrow> (\<forall>i < length cs. column_ok (cs ! i) \<and> col_offset (cs ! i) = width (take i cs))"

lemma width_simps [simp]: "width [] = 0" "width (c # cs) = col_size c + width cs" "width (cs @ ds) = width cs + width ds"
  by (simp_all add: width_def)

lemma width_take_le: "width (take i cs) \<le> width cs"
  using width_simps(3) [of "take i cs" "drop i cs"] by simp

lemma width_take_Suc: "i < length cs \<Longrightarrow> width (take (Suc i) cs) = width (take i cs) + col_size (cs ! i)"
  by (simp add: take_Suc_conv_app_nth)

lemma column_inside: "i < length cs \<Longrightarrow> width (take i cs) + col_size (cs ! i) \<le> width cs"
  using width_take_Suc [of i cs] width_take_le [of "Suc i" cs] by simp

text \<open>Both checks of a schema establish the same layout.\<close>

lemma column_loop_layout:
  assumes "for_each f [0..<num_columns schema] 0 = Inr w" "schema_array_ok schema"
    and "\<And>i e e'. i < num_columns schema \<Longrightarrow> f i e = Inr e' \<Longrightarrow>
      column_ok (columns schema ! i) \<and> col_offset (columns schema ! i) = e \<and> e' = e + col_size (columns schema ! i)"
  shows "contiguous (cols schema) \<and> w = width (cols schema)"
proof -
  let ?cs = "cols schema"
  let ?P = "\<lambda>i e. e = width (take i ?cs) \<and> (\<forall>j < i. column_ok (?cs ! j) \<and> col_offset (?cs ! j) = width (take j ?cs))"
  have n: "length ?cs = num_columns schema" using assms(2) by simp
  have "?P (num_columns schema) w"
  proof (rule for_each_invariant_upto [OF assms(1)])
    fix i e e' assume a: "i < num_columns schema" "?P i e" "f i e = Inr e'"
    from assms(3) [OF a(1,3)] a(1) have "column_ok (?cs ! i)" "col_offset (?cs ! i) = e" "e' = e + col_size (?cs ! i)" by simp_all
    with a(1,2) show "?P (Suc i) e'" by (auto simp: width_take_Suc n less_Suc_eq)
  qed simp
  with n show ?thesis by (simp add: contiguous_def)
qed

lemma schema_supports_recordsD:
  assumes "schema_supports_records schema = Inr ()" "schema_array_ok schema"
  shows "contiguous (cols schema)" "width (cols schema) = row_size schema" "row_size schema \<le> ROW_SIZE" "0 < num_columns schema"
    "col_type (columns schema ! 0) = COL_TYPE_INT" "col_offset (columns schema ! 0) = 0"
proof -
  have a: "0 < num_columns schema" "row_size schema \<le> ROW_SIZE"
    "for_each (record_column_check schema) [0..<num_columns schema] 0 = Inr (row_size schema)"
    "col_type (columns schema ! 0) = COL_TYPE_INT" "col_offset (columns schema ! 0) = 0"
    using assms(1) by (auto simp: schema_supports_records_def split: if_splits)
  have "contiguous (cols schema) \<and> row_size schema = width (cols schema)"
    by (rule column_loop_layout [OF a(3) assms(2)])
      (auto simp: record_column_check_def column_ok_def Let_def split: if_splits)
  with a show "contiguous (cols schema)" "width (cols schema) = row_size schema" "row_size schema \<le> ROW_SIZE" "0 < num_columns schema"
    "col_type (columns schema ! 0) = COL_TYPE_INT" "col_offset (columns schema ! 0) = 0" by simp_all
qed

lemma payload_schema_supportedD:
  assumes "payload_schema_supported schema = Inr ()" "schema_array_ok schema"
  shows "contiguous (cols schema)" "width (cols schema) = row_size schema" "row_size schema \<le> RECORD_PAYLOAD_MAX" "0 < num_columns schema"
    "col_type (columns schema ! 0) = COL_TYPE_INT" "col_offset (columns schema ! 0) = 0"
proof -
  have a: "0 < num_columns schema" "row_size schema \<le> RECORD_PAYLOAD_MAX"
    "for_each (payload_column_check schema) [0..<num_columns schema] 0 = Inr (row_size schema)"
    "col_type (columns schema ! 0) = COL_TYPE_INT" "col_offset (columns schema ! 0) = 0"
    using assms(1) by (auto simp: payload_schema_supported_def split: if_splits)
  have "contiguous (cols schema) \<and> row_size schema = width (cols schema)"
    by (rule column_loop_layout [OF a(3) assms(2)])
      (auto simp: payload_column_check_def column_ok_def Let_def split: if_splits)
  with a show "contiguous (cols schema)" "width (cols schema) = row_size schema" "row_size schema \<le> RECORD_PAYLOAD_MAX" "0 < num_columns schema"
    "col_type (columns schema ! 0) = COL_TYPE_INT" "col_offset (columns schema ! 0) = 0" by simp_all
qed

section \<open>The image of a row\<close>

definition value_fits :: "table_column \<Rightarrow> tval \<Rightarrow> bool" where
  "value_fits c v \<longleftrightarrow> v_type v = col_type c \<and> (col_type c \<noteq> COL_TYPE_INT \<longrightarrow> length (v_text v) < col_size c)"

definition field_image :: "table_column \<Rightarrow> tval \<Rightarrow> bytes" where
  "field_image c v = (if col_type c = COL_TYPE_INT then put_u32 (v_int v)
     else v_text v @ 0 # replicate (col_size c - length (v_text v) - 1) 0)"

definition row_image :: "table_column list \<Rightarrow> tval list \<Rightarrow> bytes" where
  "row_image cs vals = concat (map2 field_image cs vals)"

text \<open>What a value comes back as: the member the column does not use is zero.\<close>

definition clean :: "tval \<Rightarrow> tval" where
  "clean v = (if v_type v = COL_TYPE_INT then v\<lparr>v_text := []\<rparr> else v\<lparr>v_int := 0\<rparr>)"

lemma length_field_image [simp]: "column_ok c \<Longrightarrow> value_fits c v \<Longrightarrow> length (field_image c v) = col_size c"
  by (auto simp: field_image_def column_ok_def value_fits_def)

lemma row_image_simps [simp]:
  "row_image [] vals = []" "row_image (c # cs) (v # vals) = field_image c v @ row_image cs vals"
  by (simp_all add: row_image_def)

lemma row_image_append:
  "length cs = length vs \<Longrightarrow> row_image (cs @ cs') (vs @ vs') = row_image cs vs @ row_image cs' vs'"
  by (simp add: row_image_def)

lemma length_row_image:
  "list_all2 (\<lambda>c v. column_ok c \<and> value_fits c v) cs vals \<Longrightarrow> length (row_image cs vals) = width cs"
  by (induction rule: list_all2_induct) simp_all

lemma slice_row_image:
  assumes "list_all2 (\<lambda>c v. column_ok c \<and> value_fits c v) cs vals" "i < length cs"
  shows "slice (width (take i cs)) (col_size (cs ! i)) (row_image cs vals @ rest) = field_image (cs ! i) (vals ! i)"
  using assms
proof (induction arbitrary: i rule: list_all2_induct)
  case (Cons c cs v vals)
  then show ?case by (cases i) (simp_all add: slice_def)
qed simp

section \<open>Encoding\<close>

lemma blit_into_zeros:
  assumes "length bs \<le> n"
  shows "blit (length xs) bs (xs @ replicate n 0) = xs @ bs @ replicate (n - length bs) 0"
  using assms by (simp add: blit_def)

lemma encode_column_step:
  assumes "encode_column m schema vals i (xs @ replicate n 0) = Inr buffer"
    and "column_ok (columns schema ! i)" "col_offset (columns schema ! i) = length xs" "col_size (columns schema ! i) \<le> n"
  shows "value_fits (columns schema ! i) (vals ! i)"
    "buffer = (xs @ field_image (columns schema ! i) (vals ! i)) @ replicate (n - col_size (columns schema ! i)) 0"
proof -
  let ?c = "columns schema ! i" and ?v = "vals ! i"
  show f: "value_fits ?c ?v" using assms(1) by (auto simp: encode_column_def value_fits_def Let_def split: if_splits)
  show "buffer = (xs @ field_image ?c ?v) @ replicate (n - col_size ?c) 0"
  proof (cases "col_type ?c = COL_TYPE_INT")
    case True
    then have "col_size ?c = 4" using assms(2) by (simp add: column_ok_def)
    with True assms f blit_into_zeros [of "put_u32 (v_int ?v)" n xs] show ?thesis
      by (simp add: encode_column_def field_image_def value_fits_def Let_def)
  next
    case False
    then have l: "length (v_text ?v) < col_size ?c" using f by (simp add: value_fits_def)
    have "replicate (n - (length (v_text ?v) + 1)) (0 :: u8) =
        replicate (col_size ?c - length (v_text ?v) - 1) 0 @ replicate (n - col_size ?c) 0"
      using l assms(4) by (simp flip: replicate_add)
    with False assms f l blit_into_zeros [of "v_text ?v @ [0]" n xs] show ?thesis
      by (simp add: encode_column_def field_image_def value_fits_def Let_def)
  qed
qed

lemma encode_loop:
  assumes "for_each (encode_column m schema vals) [0..<num_columns schema] (replicate n 0) = Inr buffer"
    and "schema_array_ok schema" "contiguous (cols schema)" "width (cols schema) \<le> n" "length vals = num_columns schema"
  shows "list_all2 (\<lambda>c v. column_ok c \<and> value_fits c v) (cols schema) vals"
    "buffer = row_image (cols schema) vals @ replicate (n - width (cols schema)) 0"
proof -
  let ?cs = "cols schema" and ?fit = "\<lambda>c v. column_ok c \<and> value_fits c v"
  let ?P = "\<lambda>i b. list_all2 ?fit (take i ?cs) (take i vals) \<and>
    b = row_image (take i ?cs) (take i vals) @ replicate (n - width (take i ?cs)) 0"
  have len: "length ?cs = num_columns schema" using assms(2) by simp
  have "?P (num_columns schema) buffer"
  proof (rule for_each_invariant_upto [OF assms(1)])
    fix i b b' assume a: "i < num_columns schema" "?P i b" "encode_column m schema vals i b = Inr b'"
    let ?x = "row_image (take i ?cs) (take i vals)"
    have lx: "length ?x = width (take i ?cs)" using a(2) length_row_image by blast
    have c: "column_ok (columns schema ! i)" "col_offset (columns schema ! i) = length ?x" "columns schema ! i = ?cs ! i"
      using assms(3) a(1) lx by (simp_all add: contiguous_def len)
    have room: "col_size (columns schema ! i) \<le> n - width (take i ?cs)"
      using column_inside [of i ?cs] assms(4) a(1) by (simp add: len)
    have "encode_column m schema vals i (?x @ replicate (n - width (take i ?cs)) 0) = Inr b'" using a(2,3) by simp
    note E = encode_column_step [OF this c(1,2) room]
    have ts: "take (Suc i) ?cs = take i ?cs @ [?cs ! i]" "take (Suc i) vals = take i vals @ [vals ! i]"
      using a(1) len assms(5) by (simp_all add: take_Suc_conv_app_nth)
    have "row_image (take (Suc i) ?cs) (take (Suc i) vals) = ?x @ field_image (?cs ! i) (vals ! i)"
      unfolding ts using a(1) len assms(5) by (subst row_image_append) simp_all
    moreover have "n - width (take (Suc i) ?cs) = n - width (take i ?cs) - col_size (?cs ! i)" unfolding ts by simp
    ultimately show "?P (Suc i) b'" using E a(2) c unfolding ts by (simp add: list_all2_appendI)
  qed simp
  then show "list_all2 ?fit ?cs vals" "buffer = row_image ?cs vals @ replicate (n - width ?cs) 0" using len assms(5) by simp_all
qed

lemma encode_column_total:
  "value_fits (columns schema ! i) (vals ! i) \<Longrightarrow> \<exists>buffer. encode_column msg schema vals i b = Inr buffer"
  by (auto simp: encode_column_def value_fits_def Let_def)

lemma encode_loop_total:
  assumes "\<forall>i < m. value_fits (columns schema ! i) (vals ! i)"
  shows "\<exists>buffer. for_each (encode_column msg schema vals) [0..<m] b = Inr buffer"
  using assms
proof (induction m)
  case (Suc m)
  then obtain buffer where "for_each (encode_column msg schema vals) [0..<m] b = Inr buffer" by auto
  moreover obtain b' where "encode_column msg schema vals m buffer = Inr b'" using encode_column_total Suc.prems by blast
  ultimately show ?case by (simp add: for_each_append)
qed simp

section \<open>Decoding\<close>

lemma field_text_image:
  assumes "column_ok c" "value_fits c v" "col_type c \<noteq> COL_TYPE_INT" "c_string (v_text v)"
    and "slice (col_offset c) (col_size c) buffer = field_image c v"
  shows "field_text c buffer = v_text v"
proof -
  have "\<forall>x \<in> set (v_text v). x \<noteq> 0" using assms(4) by (auto simp: c_string_def)
  then have "takeWhile (\<lambda>x. x \<noteq> 0) (v_text v @ 0 # zs) = v_text v" for zs by (simp add: takeWhile_append2)
  then show ?thesis using assms(3,5) by (simp add: field_text_def field_image_def)
qed

text \<open>Both decoders read a row image back.\<close>

definition decodes :: "(nat \<Rightarrow> tval list \<Rightarrow> string + tval list) \<Rightarrow> table_schema \<Rightarrow> bytes \<Rightarrow> bool" where
  "decodes f schema buffer \<longleftrightarrow> (\<forall>i vs v. i < num_columns schema \<longrightarrow> tval_ok v \<longrightarrow> value_fits (columns schema ! i) v \<longrightarrow>
     column_ok (columns schema ! i) \<longrightarrow>
     slice (col_offset (columns schema ! i)) (col_size (columns schema ! i)) buffer = field_image (columns schema ! i) v \<longrightarrow>
     f i vs = Inr (vs @ [clean v]))"

lemma int_column_read:
  assumes "col_type c = COL_TYPE_INT" "column_ok c" "tval_ok v" "slice (col_offset c) (col_size c) buffer = field_image c v"
  shows "get_u32 (slice (col_offset c) 4 buffer) = v_int v"
proof -
  have "slice (col_offset c) 4 buffer = put_u32 (v_int v)" using assms by (simp add: column_ok_def field_image_def)
  then show ?thesis using assms(3) by (simp add: tval_ok_def n32.dec_enc)
qed

lemma record_decodes: "decodes (record_decode_column schema buffer) schema buffer"
  unfolding decodes_def
proof (intro allI impI)
  fix i vs v
  let ?c = "columns schema ! i"
  assume a: "i < num_columns schema" "tval_ok v" "value_fits ?c v" "column_ok ?c"
    "slice (col_offset ?c) (col_size ?c) buffer = field_image ?c v"
  show "record_decode_column schema buffer i vs = Inr (vs @ [clean v])"
  proof (cases "col_type ?c = COL_TYPE_INT")
    case True
    then show ?thesis using int_column_read [OF True a(4,2,5)] a(3)
      by (simp add: record_decode_column_def clean_def value_fits_def Let_def)
  next
    case False
    have "field_text ?c buffer = v_text v" by (rule field_text_image [OF a(4,3) False _ a(5)]) (use a(2) in \<open>simp add: tval_ok_def\<close>)
    then show ?thesis using False a(2,3) by (simp add: record_decode_column_def clean_def value_fits_def tval_ok_def Let_def)
  qed
qed

lemma payload_decodes: "decodes (payload_decode_column schema buffer) schema buffer"
  unfolding decodes_def
proof (intro allI impI)
  fix i vs v
  let ?c = "columns schema ! i"
  assume a: "i < num_columns schema" "tval_ok v" "value_fits ?c v" "column_ok ?c"
    "slice (col_offset ?c) (col_size ?c) buffer = field_image ?c v"
  show "payload_decode_column schema buffer i vs = Inr (vs @ [clean v])"
  proof (cases "col_type ?c = COL_TYPE_INT")
    case True
    then show ?thesis using int_column_read [OF True a(4,2,5)] a(3)
      by (simp add: payload_decode_column_def clean_def value_fits_def Let_def)
  next
    case False
    have "field_text ?c buffer = v_text v" by (rule field_text_image [OF a(4,3) False _ a(5)]) (use a(2) in \<open>simp add: tval_ok_def\<close>)
    then show ?thesis using False a(2,3) by (simp add: payload_decode_column_def clean_def value_fits_def tval_ok_def Let_def)
  qed
qed

lemma decode_loop:
  assumes "decodes f schema buffer" "schema_array_ok schema" "contiguous (cols schema)" "\<forall>v \<in> set vals. tval_ok v"
    and "list_all2 (\<lambda>c v. column_ok c \<and> value_fits c v) (cols schema) vals" "buffer = row_image (cols schema) vals @ rest"
  shows "for_each f [0..<num_columns schema] [] = Inr (map clean vals)"
proof -
  let ?cs = "cols schema"
  have len: "length ?cs = num_columns schema" "length vals = num_columns schema"
    using assms(2) list_all2_lengthD [OF assms(5)] by simp_all
  have step: "f i vs = Inr (vs @ [clean (vals ! i)])" if i: "i < num_columns schema" for i vs
  proof -
    have c: "column_ok (columns schema ! i)" "value_fits (columns schema ! i) (vals ! i)"
      using list_all2_nthD [OF assms(5), of i] i len by simp_all
    have "slice (col_offset (columns schema ! i)) (col_size (columns schema ! i)) buffer = field_image (columns schema ! i) (vals ! i)"
      using slice_row_image [OF assms(5), of i rest] assms(3,6) i len by (simp add: contiguous_def)
    with c i assms(1,4) len show ?thesis unfolding decodes_def by simp
  qed
  have "m \<le> num_columns schema \<Longrightarrow> for_each f [0..<m] [] = Inr (map clean (take m vals))" for m
  proof (induction m)
    case (Suc m)
    then show ?case using step [of m] len by (simp add: for_each_append take_Suc_conv_app_nth)
  qed simp
  from this [of "num_columns schema"] show ?thesis using len by simp
qed

section \<open>Round trips\<close>

lemma record_encode_image:
  assumes "record_encode schema vals = Inr record" "schema_array_ok schema"
  shows "schema_supports_records schema = Inr ()" "list_all2 (\<lambda>c v. column_ok c \<and> value_fits c v) (cols schema) vals"
    "record = row_image (cols schema) vals @ replicate (ROW_SIZE - row_size schema) 0" "length record = ROW_SIZE"
    "length vals = num_columns schema"
proof -
  have a: "schema_supports_records schema = Inr ()" "length vals = num_columns schema"
    "for_each (encode_column ''record value type does not match column schema'' schema vals) [0..<num_columns schema] (replicate ROW_SIZE 0) = Inr record"
    using assms(1) by (auto simp: record_encode_def split: if_splits)
  note S = schema_supports_recordsD [OF a(1) assms(2)]
  note E = encode_loop [OF a(3) assms(2) S(1) _ a(2)]
  show "schema_supports_records schema = Inr ()" "length vals = num_columns schema" by (rule a)+
  show L: "list_all2 (\<lambda>c v. column_ok c \<and> value_fits c v) (cols schema) vals" using E(1) S(2,3) by simp
  show r: "record = row_image (cols schema) vals @ replicate (ROW_SIZE - row_size schema) 0" using E(2) S(2,3) by simp
  show "length record = ROW_SIZE" using r length_row_image [OF L] S(2,3) by simp
qed

lemma record_decode_image:
  assumes "schema_supports_records schema = Inr ()" "schema_array_ok schema" "\<forall>v \<in> set vals. tval_ok v"
    "list_all2 (\<lambda>c v. column_ok c \<and> value_fits c v) (cols schema) vals" "num_columns schema \<le> capacity"
    "record = row_image (cols schema) vals @ rest"
  shows "record_decode schema record capacity = Inr (map clean vals)"
  using decode_loop [OF record_decodes assms(2) schema_supports_recordsD(1) [OF assms(1,2)] assms(3,4,6)] assms(1,5)
  by (simp add: record_decode_def)

lemma record_codec:
  assumes "record_encode schema vals = Inr record" "schema_array_ok schema" "\<forall>v \<in> set vals. tval_ok v" "num_columns schema \<le> capacity"
  shows "record_decode schema record capacity = Inr (map clean vals)"
  using record_decode_image [OF record_encode_image(1) [OF assms(1,2)] assms(2,3) record_encode_image(2) [OF assms(1,2)] assms(4)
      record_encode_image(3) [OF assms(1,2)]] .

lemma payload_encode_image:
  assumes "payload_encode_values schema vals = Inr p" "schema_array_ok schema"
  shows "payload_schema_supported schema = Inr ()" "list_all2 (\<lambda>c v. column_ok c \<and> value_fits c v) (cols schema) vals"
    "p_bytes p = row_image (cols schema) vals @ replicate (RECORD_PAYLOAD_MAX - row_size schema) 0" "p_length p = row_size schema"
    "length (p_bytes p) = RECORD_PAYLOAD_MAX"
proof -
  obtain buffer where a: "payload_schema_supported schema = Inr ()" "length vals = num_columns schema"
    "for_each (encode_column ''record value type does not match payload column schema'' schema vals) [0..<num_columns schema]
       (replicate RECORD_PAYLOAD_MAX 0) = Inr buffer" "p = \<lparr>p_length = row_size schema, p_bytes = buffer\<rparr>"
    using assms(1) by (auto simp: payload_encode_values_def split: if_splits)
  note S = payload_schema_supportedD [OF a(1) assms(2)]
  note E = encode_loop [OF a(3) assms(2) S(1) _ a(2)]
  show "payload_schema_supported schema = Inr ()" by (rule a)
  show L: "list_all2 (\<lambda>c v. column_ok c \<and> value_fits c v) (cols schema) vals" using E(1) S(2,3) by simp
  show r: "p_bytes p = row_image (cols schema) vals @ replicate (RECORD_PAYLOAD_MAX - row_size schema) 0" "p_length p = row_size schema"
    using E(2) S(2,3) a(4) by simp_all
  show "length (p_bytes p) = RECORD_PAYLOAD_MAX" using r length_row_image [OF L] S(2,3) by simp
qed

lemma payload_decode_image:
  assumes "payload_schema_supported schema = Inr ()" "schema_array_ok schema" "\<forall>v \<in> set vals. tval_ok v"
    "list_all2 (\<lambda>c v. column_ok c \<and> value_fits c v) (cols schema) vals" "num_columns schema \<le> capacity"
    "p_bytes p = row_image (cols schema) vals @ rest" "p_length p = row_size schema"
  shows "payload_decode_values schema p capacity = Inr (map clean vals)"
  using decode_loop [OF payload_decodes assms(2) payload_schema_supportedD(1) [OF assms(1,2)] assms(3,4,6)] assms(1,5,7)
  by (simp add: payload_decode_values_def)

text \<open>A record that becomes a payload and a record again is unchanged behind its padding.\<close>

lemma record_payload_record:
  assumes "record_encode schema vals = Inr record" "schema_array_ok schema"
  shows "\<exists>p. payload_from_record schema record = Inr p \<and> p_length p = row_size schema \<and>
    take (row_size schema) (p_bytes p) = row_image (cols schema) vals \<and> length (p_bytes p) = RECORD_PAYLOAD_MAX \<and>
    payload_to_record schema p = Inr record"
proof -
  note R = record_encode_image [OF assms]
  note S = schema_supports_recordsD [OF R(1) assms(2)]
  have w: "length (row_image (cols schema) vals) = row_size schema" using length_row_image [OF R(2)] S(2) by simp
  have ok: "validate_legacy_schema schema = Inr ()" using R(1) S(3) by (simp add: validate_legacy_schema_def)
  have m: "row_size schema \<le> RECORD_PAYLOAD_MAX"
    using S(3) by (simp add: RECORD_PAYLOAD_MAX_def MAX_COLUMNS_PER_TABLE_def RECORD_TEXT_MAX_def ROW_SIZE_def ID_SIZE_def USERNAME_SIZE_def EMAIL_SIZE_def)
  have t: "take (row_size schema) record = row_image (cols schema) vals" using R(3) w by simp
  let ?p = "\<lparr>p_length = row_size schema, p_bytes = row_image (cols schema) vals @ replicate (RECORD_PAYLOAD_MAX - row_size schema) 0\<rparr>"
  have "payload_from_record schema record = Inr ?p"
    using ok t w by (simp add: payload_from_record_def blit_def)
  moreover have "payload_to_record schema ?p = Inr record"
    using ok w S(3) R(3) by (simp add: payload_to_record_def blit_def)
  ultimately show ?thesis using w m by (intro exI [of _ ?p]) simp
qed

end
