(* ===== verification/RecordTable.thy ===== *)
theory RecordTable
  imports LeafPolicy RecordCodec
begin

text \<open>
  Values in the leaves of a tree, after \<open>src/leaf_value.c\<close>, and the rows of a table, after \<open>src/record.c\<close>: insertion,
  update, deletion, search and scan of rows with a schema, each in the scope of the root page of its schema.

  A call gives \<open>None\<close> when the code does not return or uses the null pointer \<open>table_find\<close> gives for a page of
  neither kind; \<open>Some (Inl e)\<close> when it ends the process; and a result with the new state otherwise. A refused
  operation writes its reason into a message buffer: the \<open>Inl\<close> of the result.
\<close>

section \<open>Values of leaf cells\<close>

text \<open>The struct \<open>Row\<close> as the C compiler lays it out: an aligned \<open>uint32_t\<close> and two \<open>char\<close> arrays.\<close>

definition ROW_OFFSETOF_ID :: nat where "ROW_OFFSETOF_ID = 0"
definition ROW_OFFSETOF_USERNAME :: nat where "ROW_OFFSETOF_USERNAME = 4"
definition ROW_OFFSETOF_EMAIL :: nat where "ROW_OFFSETOF_EMAIL = 4 + 33"
definition ROW_SIZEOF :: nat where "ROW_SIZEOF = 296"

definition legacy_layout_compatible :: bool where
  "legacy_layout_compatible \<longleftrightarrow>
     leaf_format_validate_current \<and> f_format_version leaf_format_current = LEAF_FORMAT_FIXED_V1 \<and>
     f_value_capacity leaf_format_current = ROW_SIZE \<and> ROW_OFFSETOF_ID = ID_OFFSET \<and> ROW_OFFSETOF_USERNAME = USERNAME_OFFSET \<and>
     ROW_OFFSETOF_EMAIL = EMAIL_OFFSET \<and> ROW_SIZEOF \<ge> f_value_capacity leaf_format_current"

definition valid_cursor :: "cursor \<Rightarrow> tree \<Rightarrow> bool" where
  "valid_cursor c s \<longleftrightarrow> c_page c < t_num_pages s"

definition valid_args :: "cursor \<Rightarrow> nat \<Rightarrow> tree \<Rightarrow> bool" where
  "valid_args c len s \<longleftrightarrow> valid_cursor c s \<and> leaf_format_can_store_value len"

definition cursor_is_fixed_v1 :: "cursor \<Rightarrow> tree \<Rightarrow> bool" where
  "cursor_is_fixed_v1 c s \<longleftrightarrow> valid_cursor c s \<and> page_is_fixed_v1 (t_pages s (c_page c))"

definition tree_is_mutable_v1 :: "cursor \<Rightarrow> tree \<Rightarrow> bool" where
  "tree_is_mutable_v1 c s \<longleftrightarrow> valid_cursor c s \<and> tree_mutation_supported s (t_root s) = Inr ()"

text \<open>The bytes are copied over a zeroed \<open>Row\<close>.\<close>

definition row_carrier :: "bytes \<Rightarrow> row" where
  "row_carrier bs =
     (let carrier = blit 0 bs (replicate ROW_SIZEOF 0)
      in \<lparr>id_of = get_u32 (slice ROW_OFFSETOF_ID ID_SIZE carrier), username = slice ROW_OFFSETOF_USERNAME USERNAME_SIZE carrier,
          email = slice ROW_OFFSETOF_EMAIL EMAIL_SIZE carrier\<rparr>)"

definition leaf_value_insert :: "nat \<Rightarrow> cursor \<Rightarrow> nat \<Rightarrow> bytes \<Rightarrow> tree \<Rightarrow> (tree_exit + bool \<times> tree) option" where
  "leaf_value_insert fuel c key bs s =
     (if \<not> valid_args c (length bs) s \<or> \<not> legacy_layout_compatible \<or> \<not> tree_is_mutable_v1 c s \<or> \<not> cursor_is_fixed_v1 c s
      then Some (Inr (False, s))
      else case leaf_node_insert fuel c key (row_carrier bs) s of None \<Rightarrow> None
      | Some (Inl e) \<Rightarrow> Some (Inl e)
      | Some (Inr s1) \<Rightarrow> Some (Inr (True, s1)))"

definition leaf_value_write :: "cursor \<Rightarrow> bytes \<Rightarrow> tree \<Rightarrow> bool \<times> tree" where
  "leaf_value_write c bs s =
     (if \<not> valid_args c (length bs) s \<or> \<not> tree_is_mutable_v1 c s \<or> \<not> cursor_is_fixed_v1 c s then (False, s)
      else let slot = leaf_node_value (c_cell c); capacity = f_value_capacity leaf_format_current
           in (True, mark (c_page c) (poke (c_page c) (\<lambda>page. blit slot bs (blit slot (replicate capacity 0) page)) s)))"

definition leaf_value_read :: "cursor \<Rightarrow> nat \<Rightarrow> nat \<Rightarrow> tree \<Rightarrow> bytes option" where
  "leaf_value_read c output_capacity len s =
     (if \<not> valid_cursor c s \<or> len = 0 \<or> output_capacity < len then None
      else case page_value_at (t_pages s (c_page c)) (c_cell c) of None \<Rightarrow> None
      | Some stored \<Rightarrow> if length stored < len then None else Some (take len stored))"

section \<open>Tables\<close>

text \<open>What the record functions use of a \<open>Table\<close>: its tree, whether a transaction is open, and, for what is
  observed, how often \<open>pager_commit\<close> was called. A commit makes the content of every dirty page the committed one.\<close>

record table_handle =
  tb_tree :: tree
  tb_in_transaction :: bool
  tb_commits :: nat

definition tree_commit :: "tree \<Rightarrow> tree" where
  "tree_commit s =
     s\<lparr>t_dirty := (\<lambda>_. False), t_backing := (\<lambda>n. if t_dirty s n then t_pages s n else t_backing s n)\<rparr>"

definition commit_if_autocommit :: "table_handle \<Rightarrow> table_handle" where
  "commit_if_autocommit t =
     (if \<not> tb_in_transaction t then t\<lparr>tb_tree := tree_commit (tb_tree t), tb_commits := tb_commits t + 1\<rparr> else t)"

definition in_root_scope :: "table_schema \<Rightarrow> (tree \<Rightarrow> (tree_exit + 'a \<times> tree) option) \<Rightarrow> tree \<Rightarrow> (tree_exit + 'a \<times> tree) option" where
  "in_root_scope schema body s =
     (case body (s\<lparr>t_root := schema_root schema\<rparr>) of None \<Rightarrow> None
      | Some (Inl e) \<Rightarrow> Some (Inl e)
      | Some (Inr (x, s1)) \<Rightarrow> Some (Inr (x, s1\<lparr>t_root := t_root s\<rparr>)))"

definition mutation_target_supported :: "table_schema \<Rightarrow> string + unit" where
  "mutation_target_supported schema =
     and_then (schema_supports_records schema) (\<lambda>_.
       if ci_equal (schema_name schema) (ascii ''users'') then
         Inl ''use the legacy users execution path so its secondary indexes stay synchronized''
       else Inr ())"

definition cursor_matches_key :: "cursor \<Rightarrow> nat \<Rightarrow> tree \<Rightarrow> bool \<times> tree" where
  "cursor_matches_key c key s =
     (let s1 = fetch (c_page c) s; node = t_pages s1 (c_page c)
      in (c_cell c < leaf_node_num_cells node \<and> leaf_node_key node (c_cell c) = key, s1))"

text \<open>The search at the start of every operation: the cursor and whether it is at the key.\<close>

definition find_row :: "nat \<Rightarrow> (cursor \<Rightarrow> bool \<Rightarrow> tree \<Rightarrow> (tree_exit + 'a \<times> tree) option) \<Rightarrow> tree \<Rightarrow> (tree_exit + 'a \<times> tree) option" where
  "find_row key body s =
     (case table_find key s of None \<Rightarrow> None
      | Some (Inl e) \<Rightarrow> Some (Inl e)
      | Some (Inr (None, s1)) \<Rightarrow> None
      | Some (Inr (Some c, s1)) \<Rightarrow> (case cursor_matches_key c key s1 of (matches, s2) \<Rightarrow> body c matches s2))"

definition cursor_to_record :: "table_schema \<Rightarrow> cursor \<Rightarrow> tree \<Rightarrow> string + bytes" where
  "cursor_to_record schema c s =
     (case leaf_value_read c RECORD_PAYLOAD_MAX (row_size schema) s of None \<Rightarrow> Inl ''unable to read logical leaf value''
      | Some bs \<Rightarrow> payload_to_record schema \<lparr>p_length = row_size schema, p_bytes = blit 0 bs (replicate RECORD_PAYLOAD_MAX 0)\<rparr>)"

text \<open>The end of a change: a refusal leaves without a commit.\<close>

definition finish_change :: "table_handle \<Rightarrow> (tree_exit + (string + unit) \<times> tree) option \<Rightarrow>
    (tree_exit + (string + unit) \<times> table_handle) option" where
  "finish_change t outcome =
     (case outcome of None \<Rightarrow> None
      | Some (Inl e) \<Rightarrow> Some (Inl e)
      | Some (Inr (Inl message, s)) \<Rightarrow> Some (Inr (Inl message, t\<lparr>tb_tree := s\<rparr>))
      | Some (Inr (Inr _, s)) \<Rightarrow> Some (Inr (Inr (), commit_if_autocommit (t\<lparr>tb_tree := s\<rparr>))))"

definition encode_target :: "table_schema \<Rightarrow> tval list \<Rightarrow> string + record_payload" where
  "encode_target schema vals =
     and_then (mutation_target_supported schema) (\<lambda>_.
     and_then (record_encode schema vals) (\<lambda>record. payload_from_record schema record))"

section \<open>Changes\<close>

definition record_insert :: "nat \<Rightarrow> table_schema \<Rightarrow> tval list \<Rightarrow> table_handle \<Rightarrow>
    (tree_exit + (string + unit) \<times> table_handle) option" where
  "record_insert fuel schema vals t =
     (case encode_target schema vals of Inl message \<Rightarrow> Some (Inr (Inl message, t))
      | Inr p \<Rightarrow>
          let key = get_u32 (slice 0 4 (p_bytes p)); bs = take (p_length p) (p_bytes p)
          in finish_change t (in_root_scope schema (find_row key (\<lambda>c matches s.
               if matches then Some (Inr (Inl ''duplicate primary key'', s))
               else case leaf_value_insert fuel c key bs s of None \<Rightarrow> None
               | Some (Inl e) \<Rightarrow> Some (Inl e)
               | Some (Inr (stored, s1)) \<Rightarrow>
                   Some (Inr (if stored then Inr () else Inl ''unable to insert logical leaf value'', s1)))) (tb_tree t)))"

definition record_update :: "table_schema \<Rightarrow> nat \<Rightarrow> tval list \<Rightarrow> table_handle \<Rightarrow>
    (tree_exit + (string + unit) \<times> table_handle) option" where
  "record_update schema row_id vals t =
     (case encode_target schema vals of Inl message \<Rightarrow> Some (Inr (Inl message, t))
      | Inr p \<Rightarrow>
          let encoded_id = get_u32 (slice 0 4 (p_bytes p)); bs = take (p_length p) (p_bytes p)
          in if encoded_id \<noteq> row_id then Some (Inr (Inl ''generic UPDATE cannot change the primary-key id'', t))
             else finish_change t (in_root_scope schema (find_row row_id (\<lambda>c matches s.
               if \<not> matches then Some (Inr (Inl ''primary key not found'', s))
               else case leaf_value_write c bs s of (stored, s1) \<Rightarrow>
                   Some (Inr (if stored then Inr () else Inl ''unable to update logical leaf value'', s1)))) (tb_tree t)))"

definition record_delete :: "table_schema \<Rightarrow> nat \<Rightarrow> table_handle \<Rightarrow> (tree_exit + (string + unit) \<times> table_handle) option" where
  "record_delete schema row_id t =
     (case mutation_target_supported schema of Inl message \<Rightarrow> Some (Inr (Inl message, t))
      | Inr _ \<Rightarrow>
          finish_change t (in_root_scope schema (find_row row_id (\<lambda>c matches s.
            if \<not> matches then Some (Inr (Inl ''primary key not found'', s))
            else case leaf_node_delete c s of Inl e \<Rightarrow> Some (Inl e) | Inr s1 \<Rightarrow> Some (Inr (Inr (), s1)))) (tb_tree t)))"

text \<open>Deleting the first row until there is none; the number of deleted rows.\<close>

partial_function (option) delete_all_loop :: "nat \<Rightarrow> tree \<Rightarrow> (tree_exit + nat \<times> tree) option" where
  "delete_all_loop deleted s =
     Option.bind (table_start s) (\<lambda>r. case r of Inl e \<Rightarrow> Some (Inl e) | Inr (cursor, s1) \<Rightarrow>
       if cursor = None then None
       else if c_end (the cursor) then Some (Inr (deleted, s1))
       else case leaf_node_delete (the cursor) s1 of Inl e \<Rightarrow> Some (Inl e) | Inr s2 \<Rightarrow> delete_all_loop (deleted + 1) s2)"

definition record_delete_all :: "table_schema \<Rightarrow> table_handle \<Rightarrow> (tree_exit + (string + nat) \<times> table_handle) option" where
  "record_delete_all schema t =
     (case mutation_target_supported schema of Inl message \<Rightarrow> Some (Inr (Inl message, t))
      | Inr _ \<Rightarrow>
          (case in_root_scope schema (delete_all_loop 0) (tb_tree t) of None \<Rightarrow> None
           | Some (Inl e) \<Rightarrow> Some (Inl e)
           | Some (Inr (deleted, s)) \<Rightarrow> Some (Inr (Inr deleted, commit_if_autocommit (t\<lparr>tb_tree := s\<rparr>)))))"

section \<open>Reading\<close>

definition record_find :: "table_schema \<Rightarrow> nat \<Rightarrow> table_handle \<Rightarrow> (tree_exit + bytes option \<times> table_handle) option" where
  "record_find schema row_id t =
     (case schema_supports_records schema of Inl _ \<Rightarrow> Some (Inr (None, t))
      | Inr _ \<Rightarrow>
          (case in_root_scope schema (find_row row_id (\<lambda>c matches s.
              Some (Inr (if matches then (case cursor_to_record schema c s of Inl _ \<Rightarrow> None | Inr record \<Rightarrow> Some record) else None, s))))
              (tb_tree t) of None \<Rightarrow> None
           | Some (Inl e) \<Rightarrow> Some (Inl e)
           | Some (Inr (record, s)) \<Rightarrow> Some (Inr (record, t\<lparr>tb_tree := s\<rparr>))))"

text \<open>The visitor is a function of the caller: it gets the record and its own state, and says whether to go on. A
  missing visitor is one that always goes on.\<close>

partial_function (option) scan_loop :: "table_schema \<Rightarrow> (bytes \<Rightarrow> 'v \<Rightarrow> bool \<times> 'v) \<Rightarrow> cursor \<Rightarrow> nat \<Rightarrow> 'v \<Rightarrow> tree \<Rightarrow>
    ((nat \<times> 'v) \<times> tree) option" where
  "scan_loop schema visitor c count v s =
     (if c_end c then Some ((count, v), s)
      else case cursor_to_record schema c s of Inl _ \<Rightarrow> Some ((count, v), s)
      | Inr record \<Rightarrow>
          let (go_on, v1) = visitor record v
          in if \<not> go_on then Some ((count + 1, v1), s)
             else Option.bind (cursor_advance c s) (\<lambda>(c1, s1). scan_loop schema visitor c1 (count + 1) v1 s1))"

definition record_scan :: "table_schema \<Rightarrow> (bytes \<Rightarrow> 'v \<Rightarrow> bool \<times> 'v) \<Rightarrow> 'v \<Rightarrow> table_handle \<Rightarrow>
    (tree_exit + (nat \<times> 'v) \<times> table_handle) option" where
  "record_scan schema visitor v t =
     (case schema_supports_records schema of Inl _ \<Rightarrow> Some (Inr ((0, v), t))
      | Inr _ \<Rightarrow>
          (case in_root_scope schema (\<lambda>s. case table_start s of None \<Rightarrow> None
              | Some (Inl e) \<Rightarrow> Some (Inl e)
              | Some (Inr (None, s1)) \<Rightarrow> None
              | Some (Inr (Some c, s1)) \<Rightarrow> map_option Inr (scan_loop schema visitor c 0 v s1)) (tb_tree t) of None \<Rightarrow> None
           | Some (Inl e) \<Rightarrow> Some (Inl e)
           | Some (Inr (r, s)) \<Rightarrow> Some (Inr (r, t\<lparr>tb_tree := s\<rparr>))))"

end
