(* ===== verification/RowEnvelope.thy ===== *)
theory RowEnvelope
  imports RecordCodec
begin

unbundle bit_operations_syntax

text \<open>
  Row envelopes, after \<open>src/row_envelope.h\<close>: what a slotted V2 leaf stores for a row. A header names the format, the
  length of the row and a fingerprint of its schema; version 1 is followed by the raw row, version 2 by a directory of
  offsets and lengths and the columns without their padding. A version 2 envelope written before a table got more
  columns is read with the longer schema.
\<close>

definition ENVELOPE_MAGIC :: u32 where "ENVELOPE_MAGIC = 0x31575254"
definition ENVELOPE_VERSION :: u16 where "ENVELOPE_VERSION = 1"
definition ENVELOPE_VERSION_COMPACT_V2 :: u16 where "ENVELOPE_VERSION_COMPACT_V2 = 2"
definition ENVELOPE_HEADER_SIZE :: nat where "ENVELOPE_HEADER_SIZE = 20"
definition ENVELOPE_V2_HEADER_SIZE :: nat where "ENVELOPE_V2_HEADER_SIZE = 24"
definition ENVELOPE_V2_DIRECTORY_ENTRY_SIZE :: nat where "ENVELOPE_V2_DIRECTORY_ENTRY_SIZE = 8"
definition ENVELOPE_MAGIC_OFFSET :: nat where "ENVELOPE_MAGIC_OFFSET = 0"
definition ENVELOPE_VERSION_OFFSET :: nat where "ENVELOPE_VERSION_OFFSET = 4"
definition ENVELOPE_HEADER_SIZE_OFFSET :: nat where "ENVELOPE_HEADER_SIZE_OFFSET = 6"
definition ENVELOPE_LOGICAL_LENGTH_OFFSET :: nat where "ENVELOPE_LOGICAL_LENGTH_OFFSET = 8"
definition ENVELOPE_SCHEMA_FINGERPRINT_OFFSET :: nat where "ENVELOPE_SCHEMA_FINGERPRINT_OFFSET = 12"
definition ENVELOPE_V2_FIELD_COUNT_OFFSET :: nat where "ENVELOPE_V2_FIELD_COUNT_OFFSET = 20"
definition ENVELOPE_V2_DIRECTORY_ENTRY_SIZE_OFFSET :: nat where "ENVELOPE_V2_DIRECTORY_ENTRY_SIZE_OFFSET = 22"

lemmas envelope_constants = ENVELOPE_HEADER_SIZE_def ENVELOPE_V2_HEADER_SIZE_def ENVELOPE_V2_DIRECTORY_ENTRY_SIZE_def
  ENVELOPE_MAGIC_OFFSET_def ENVELOPE_VERSION_OFFSET_def ENVELOPE_HEADER_SIZE_OFFSET_def ENVELOPE_LOGICAL_LENGTH_OFFSET_def
  ENVELOPE_SCHEMA_FINGERPRINT_OFFSET_def ENVELOPE_V2_FIELD_COUNT_OFFSET_def ENVELOPE_V2_DIRECTORY_ENTRY_SIZE_OFFSET_def

section \<open>Fingerprint of a schema\<close>

definition hash_byte :: "u64 \<Rightarrow> u8 \<Rightarrow> u64" where
  "hash_byte hash b = (hash XOR ucast b) * 1099511628211"

definition hash_u32 :: "u64 \<Rightarrow> nat \<Rightarrow> u64" where
  "hash_u32 hash v = fold (\<lambda>i h. hash_byte h (ucast (drop_bit (8 * i) (of_nat v :: u32) AND 0xff))) [0..<4] hash"

definition hash_text :: "u64 \<Rightarrow> bytes \<Rightarrow> u64" where
  "hash_text hash s = hash_byte (fold (\<lambda>c h. hash_byte h c) s hash) 0"

definition type_code :: "column_type \<Rightarrow> nat" where
  "type_code t = (case t of COL_TYPE_INT \<Rightarrow> 0 | COL_TYPE_VARCHAR \<Rightarrow> 1 | COL_TYPE_OTHER n \<Rightarrow> n)"

definition schema_fingerprint :: "table_schema \<Rightarrow> u64" where
  "schema_fingerprint schema =
     fold (\<lambda>i hash. let column = columns schema ! i
        in hash_u32 (hash_u32 (hash_u32 (hash_text hash (col_name column)) (type_code (col_type column))) (col_offset column)) (col_size column))
       [0..<num_columns schema]
       (hash_u32 (hash_u32 (hash_text 1469598103934665603 (schema_name schema)) (num_columns schema)) (row_size schema))"

section \<open>Writing\<close>

text \<open>The stored length is the length of the output.\<close>

definition envelope_encode :: "table_schema \<Rightarrow> record_payload \<Rightarrow> nat \<Rightarrow> bytes option" where
  "envelope_encode schema p output_capacity =
     (if p_length p = 0 \<or> p_length p \<noteq> row_size schema then None
      else let full_length = ENVELOPE_HEADER_SIZE + p_length p
           in if full_length > output_capacity \<or> full_length > 2 ^ 16 - 1 then None
              else Some (blit ENVELOPE_HEADER_SIZE (take (p_length p) (p_bytes p))
                (blit ENVELOPE_SCHEMA_FINGERPRINT_OFFSET (write_u64_le (schema_fingerprint schema))
                (blit ENVELOPE_LOGICAL_LENGTH_OFFSET (put_u32 (p_length p))
                (blit ENVELOPE_HEADER_SIZE_OFFSET (write_u16_le (of_nat ENVELOPE_HEADER_SIZE))
                (blit ENVELOPE_VERSION_OFFSET (write_u16_le ENVELOPE_VERSION)
                (blit ENVELOPE_MAGIC_OFFSET (write_u32_le ENVELOPE_MAGIC) (replicate full_length 0))))))))"

definition v2_column_length :: "table_column \<Rightarrow> record_payload \<Rightarrow> nat option" where
  "v2_column_length column p =
     (if col_offset column > p_length p \<or> col_size column > p_length p - col_offset column then None
      else if col_type column = COL_TYPE_INT then (if col_size column \<noteq> 4 then None else Some 4)
      else if col_type column = COL_TYPE_VARCHAR then
        let field = slice (col_offset column) (col_size column) (p_bytes p)
        in map_option (\<lambda>i. i + 1) (find (\<lambda>i. field ! i = 0) [0..<col_size column])
      else None)"

text \<open>First the lengths and the total, then the directory and the columns.\<close>

definition measure_column :: "table_schema \<Rightarrow> record_payload \<Rightarrow> nat \<Rightarrow> nat \<times> nat list \<Rightarrow> unit + nat \<times> nat list" where
  "measure_column schema p i st =
     (let (full_length, lengths) = st
      in case v2_column_length (columns schema ! i) p of None \<Rightarrow> Inl ()
         | Some len \<Rightarrow> if len > 2 ^ 16 - 1 \<or> full_length > 2 ^ 16 - 1 - len then Inl () else Inr (full_length + len, lengths @ [len]))"

definition write_column :: "table_schema \<Rightarrow> record_payload \<Rightarrow> nat list \<Rightarrow> nat \<Rightarrow> nat \<times> bytes \<Rightarrow> nat \<times> bytes" where
  "write_column schema p lengths i st =
     (let (cursor, buffer) = st; entry = ENVELOPE_V2_HEADER_SIZE + i * ENVELOPE_V2_DIRECTORY_ENTRY_SIZE
      in (cursor + lengths ! i,
          blit cursor (slice (col_offset (columns schema ! i)) (lengths ! i) (p_bytes p))
            (blit (entry + 4) (put_u32 (lengths ! i)) (blit entry (put_u32 cursor) buffer))))"

definition encode_compact_v2 :: "table_schema \<Rightarrow> record_payload \<Rightarrow> nat \<Rightarrow> bytes option" where
  "encode_compact_v2 schema p output_capacity =
     (if num_columns schema = 0 \<or> num_columns schema > MAX_COLUMNS_PER_TABLE \<or> p_length p = 0 \<or> p_length p \<noteq> row_size schema then None
      else let body_offset = ENVELOPE_V2_HEADER_SIZE + num_columns schema * ENVELOPE_V2_DIRECTORY_ENTRY_SIZE
           in case for_each (measure_column schema p) [0..<num_columns schema] (body_offset, []) of Inl _ \<Rightarrow> None
              | Inr (full_length, lengths) \<Rightarrow>
                  if full_length > output_capacity \<or> full_length > 2 ^ 16 - 1 then None
                  else let header = blit ENVELOPE_V2_DIRECTORY_ENTRY_SIZE_OFFSET (write_u16_le (of_nat ENVELOPE_V2_DIRECTORY_ENTRY_SIZE))
                             (blit ENVELOPE_V2_FIELD_COUNT_OFFSET (write_u16_le (of_nat (num_columns schema)))
                             (blit ENVELOPE_SCHEMA_FINGERPRINT_OFFSET (write_u64_le (schema_fingerprint schema))
                             (blit ENVELOPE_LOGICAL_LENGTH_OFFSET (put_u32 (p_length p))
                             (blit ENVELOPE_HEADER_SIZE_OFFSET (write_u16_le (of_nat ENVELOPE_V2_HEADER_SIZE))
                             (blit ENVELOPE_VERSION_OFFSET (write_u16_le ENVELOPE_VERSION_COMPACT_V2)
                             (blit ENVELOPE_MAGIC_OFFSET (write_u32_le ENVELOPE_MAGIC) (replicate full_length 0)))))));
                           (cursor, buffer) = fold (write_column schema p lengths) [0..<num_columns schema] (body_offset, header)
                       in if cursor \<noteq> full_length then None else Some buffer)"

section \<open>Reading\<close>

definition decode_v1 :: "table_schema \<Rightarrow> bytes \<Rightarrow> record_payload option" where
  "decode_v1 schema stored =
     (if read_u16_le (drop ENVELOPE_HEADER_SIZE_OFFSET stored) \<noteq> of_nat ENVELOPE_HEADER_SIZE then None
      else let logical_length = get_u32 (drop ENVELOPE_LOGICAL_LENGTH_OFFSET stored)
           in if logical_length = 0 \<or> logical_length \<noteq> row_size schema \<or> logical_length > ROW_SIZE \<or>
                length stored \<noteq> ENVELOPE_HEADER_SIZE + logical_length \<or>
                read_u64_le (drop ENVELOPE_SCHEMA_FINGERPRINT_OFFSET stored) \<noteq> schema_fingerprint schema then None
              else Some \<lparr>p_length = logical_length,
                p_bytes = blit 0 (slice ENVELOPE_HEADER_SIZE logical_length stored) (replicate RECORD_PAYLOAD_MAX 0)\<rparr>)"

definition prefix_step :: "table_schema \<Rightarrow> nat \<Rightarrow> nat \<Rightarrow> unit + nat" where
  "prefix_step schema i expected_length =
     (let column = columns schema ! i
      in if col_offset column \<noteq> expected_length \<or> col_size column = 0 \<or> expected_length > 2 ^ 32 - 1 - col_size column then Inl ()
         else Inr (expected_length + col_size column))"

definition prefix_schema :: "table_schema \<Rightarrow> nat \<Rightarrow> nat \<Rightarrow> table_schema option" where
  "prefix_schema schema field_count logical_length =
     (if field_count = 0 \<or> field_count > num_columns schema then None
      else case for_each (prefix_step schema) [0..<field_count] 0 of Inl _ \<Rightarrow> None
           | Inr expected_length \<Rightarrow>
               if expected_length \<noteq> logical_length then None
               else Some (schema\<lparr>num_columns := field_count, row_size := logical_length\<rparr>))"

definition read_column :: "table_schema \<Rightarrow> bytes \<Rightarrow> nat \<Rightarrow> nat \<times> bytes \<Rightarrow> unit + nat \<times> bytes" where
  "read_column schema stored i st =
     (let (expected_offset, buffer) = st; column = columns schema ! i;
          entry = drop (ENVELOPE_V2_HEADER_SIZE + i * ENVELOPE_V2_DIRECTORY_ENTRY_SIZE) stored;
          offset = get_u32 entry; len = get_u32 (drop 4 entry)
      in if offset \<noteq> expected_offset \<or> len = 0 \<or> offset > length stored \<or> len > length stored - offset \<or>
           col_offset column > row_size schema \<or> col_size column > row_size schema - col_offset column then Inl ()
         else if (case col_type column of
                    COL_TYPE_INT \<Rightarrow> col_size column \<noteq> 4 \<or> len \<noteq> 4
                  | COL_TYPE_VARCHAR \<Rightarrow> len > col_size column \<or> stored ! (offset + len - 1) \<noteq> 0 \<or>
                      (len > 1 \<and> 0 \<in> set (slice offset (len - 1) stored))
                  | COL_TYPE_OTHER _ \<Rightarrow> True) then Inl ()
         else Inr (expected_offset + len, blit (col_offset column) (slice offset len stored) buffer))"

definition decode_compact_v2 :: "table_schema \<Rightarrow> bytes \<Rightarrow> record_payload option" where
  "decode_compact_v2 schema stored =
     (if length stored < ENVELOPE_V2_HEADER_SIZE \<or>
        read_u16_le (drop ENVELOPE_HEADER_SIZE_OFFSET stored) \<noteq> of_nat ENVELOPE_V2_HEADER_SIZE \<or>
        read_u16_le (drop ENVELOPE_V2_DIRECTORY_ENTRY_SIZE_OFFSET stored) \<noteq> of_nat ENVELOPE_V2_DIRECTORY_ENTRY_SIZE then None
      else let logical_length = get_u32 (drop ENVELOPE_LOGICAL_LENGTH_OFFSET stored);
               field_count = unat (read_u16_le (drop ENVELOPE_V2_FIELD_COUNT_OFFSET stored))
           in if field_count = 0 \<or> field_count > num_columns schema \<or> logical_length = 0 \<or> logical_length > row_size schema then None
              else case prefix_schema schema field_count logical_length of None \<Rightarrow> None
              | Some stored_schema \<Rightarrow>
                  if read_u64_le (drop ENVELOPE_SCHEMA_FINGERPRINT_OFFSET stored) \<noteq> schema_fingerprint stored_schema then None
                  else let expected_offset = ENVELOPE_V2_HEADER_SIZE + field_count * ENVELOPE_V2_DIRECTORY_ENTRY_SIZE
                       in if expected_offset > length stored then None
                          else case for_each (read_column schema stored) [0..<field_count] (expected_offset, replicate RECORD_PAYLOAD_MAX 0) of
                            Inl _ \<Rightarrow> None
                          | Inr (end_offset, buffer) \<Rightarrow>
                              if end_offset = length stored then Some \<lparr>p_length = row_size schema, p_bytes = buffer\<rparr> else None)"

definition envelope_decode :: "table_schema \<Rightarrow> bytes \<Rightarrow> record_payload option" where
  "envelope_decode schema stored =
     (if length stored < ENVELOPE_HEADER_SIZE then None
      else if read_u32_le (drop ENVELOPE_MAGIC_OFFSET stored) \<noteq> ENVELOPE_MAGIC then None
      else let version = read_u16_le (drop ENVELOPE_VERSION_OFFSET stored)
           in if version = ENVELOPE_VERSION then decode_v1 schema stored
              else if version = ENVELOPE_VERSION_COMPACT_V2 then decode_compact_v2 schema stored
              else None)"

text \<open>A compact envelope gives the row back, also to a reader whose schema has got more columns since.\<close>

section \<open>The bytes of a compact envelope\<close>

definition stored_field :: "table_column \<Rightarrow> tval \<Rightarrow> bytes" where
  "stored_field c v = (if col_type c = COL_TYPE_INT then put_u32 (v_int v) else v_text v @ [0])"

fun directory :: "nat \<Rightarrow> nat list \<Rightarrow> bytes" where
  "directory cursor [] = []"
| "directory cursor (len # lens) = put_u32 cursor @ put_u32 len @ directory (cursor + len) lens"

definition envelope_header :: "nat \<Rightarrow> u64 \<Rightarrow> nat \<Rightarrow> bytes" where
  "envelope_header logical_length fp n = write_u32_le ENVELOPE_MAGIC @ write_u16_le ENVELOPE_VERSION_COMPACT_V2 @
     write_u16_le (of_nat ENVELOPE_V2_HEADER_SIZE) @ put_u32 logical_length @ write_u64_le fp @ write_u16_le (of_nat n) @
     write_u16_le (of_nat ENVELOPE_V2_DIRECTORY_ENTRY_SIZE)"

definition stored_body :: "table_column list \<Rightarrow> tval list \<Rightarrow> bytes" where
  "stored_body cs vals = concat (map2 stored_field cs vals)"

definition stored_lengths :: "table_column list \<Rightarrow> tval list \<Rightarrow> nat list" where
  "stored_lengths cs vals = map2 (\<lambda>c v. length (stored_field c v)) cs vals"

abbreviation row_fits :: "table_column list \<Rightarrow> tval list \<Rightarrow> bool" where
  "row_fits cs vals \<equiv> list_all2 (\<lambda>c v. column_ok c \<and> value_fits c v) cs vals"

lemma length_envelope_header [simp]: "length (envelope_header l fp n) = 24"
  by (simp add: envelope_header_def)

lemma length_directory [simp]: "length (directory k lens) = 8 * length lens"
  by (induction lens arbitrary: k) simp_all

lemma directory_snoc: "directory k (lens @ [len]) = directory k lens @ put_u32 (k + sum_list lens) @ put_u32 len"
  by (induction lens arbitrary: k) (simp_all add: add.assoc)

lemma directory_entry:
  "i < length lens \<Longrightarrow> \<exists>rest'. drop (8 * i) (directory k lens @ rest) = put_u32 (k + sum_list (take i lens)) @ put_u32 (lens ! i) @ rest'"
proof (induction lens arbitrary: k i)
  case (Cons len lens)
  show ?case
  proof (cases i)
    case (Suc j)
    then obtain rest' where "drop (8 * j) (directory (k + len) lens @ rest) = put_u32 (k + len + sum_list (take j lens)) @ put_u32 (lens ! j) @ rest'"
      using Cons by (metis Suc_less_eq length_Cons)
    then show ?thesis using Suc by (simp add: add.assoc)
  qed auto
qed simp

lemma length_stored_lengths [simp]: "length (stored_lengths cs vals) = min (length cs) (length vals)"
  by (simp add: stored_lengths_def)

lemma nth_stored_lengths [simp]:
  "i < length cs \<Longrightarrow> i < length vals \<Longrightarrow> stored_lengths cs vals ! i = length (stored_field (cs ! i) (vals ! i))"
  by (simp add: stored_lengths_def)

lemma take_stored_lengths: "take i (stored_lengths cs vals) = stored_lengths (take i cs) (take i vals)"
  by (simp add: stored_lengths_def take_map take_zip)

lemma length_stored_body [simp]: "length (stored_body cs vals) = sum_list (stored_lengths cs vals)"
  by (simp add: stored_body_def stored_lengths_def length_concat comp_def case_prod_unfold)

lemma stored_snoc:
  assumes "i < length cs" "length vals = length cs"
  shows "stored_body (take (Suc i) cs) (take (Suc i) vals) = stored_body (take i cs) (take i vals) @ stored_field (cs ! i) (vals ! i)"
    "stored_lengths (take (Suc i) cs) (take (Suc i) vals) = stored_lengths (take i cs) (take i vals) @ [length (stored_field (cs ! i) (vals ! i))]"
  using assms by (simp_all add: take_Suc_conv_app_nth stored_body_def stored_lengths_def)

lemma stored_body_split:
  assumes "i < length cs" "length vals = length cs"
  shows "stored_body cs vals = stored_body (take i cs) (take i vals) @ stored_field (cs ! i) (vals ! i) @
    stored_body (drop (Suc i) cs) (drop (Suc i) vals)"
proof -
  have "cs = take i cs @ cs ! i # drop (Suc i) cs" "vals = take i vals @ vals ! i # drop (Suc i) vals"
    using assms by (simp_all add: id_take_nth_drop)
  then have "stored_body cs vals = stored_body (take i cs @ cs ! i # drop (Suc i) cs) (take i vals @ vals ! i # drop (Suc i) vals)" by simp
  then show ?thesis using assms by (simp add: stored_body_def)
qed

lemma field_image_stored:
  assumes "column_ok c" "value_fits c v"
  shows "field_image c v = stored_field c v @ replicate (col_size c - length (stored_field c v)) 0"
    "length (stored_field c v) \<le> col_size c" "0 < length (stored_field c v)"
proof -
  have "put_u32 (v_int v) \<noteq> []" using length_put_u32 [of "v_int v"] by (metis list.size(3) zero_neq_numeral)
  then show "field_image c v = stored_field c v @ replicate (col_size c - length (stored_field c v)) 0"
    "length (stored_field c v) \<le> col_size c" "0 < length (stored_field c v)"
    using assms by (auto simp: field_image_def stored_field_def column_ok_def value_fits_def)
qed

section \<open>Writing\<close>

lemma blit_inner_zeros:
  assumes "length bs \<le> n" "k = length xs"
  shows "blit k bs (xs @ replicate n 0 @ ys) = xs @ bs @ replicate (n - length bs) 0 @ ys"
  using assms by (simp add: blit_def)

lemma v2_column_length_stored:
  assumes "column_ok c" "value_fits c v" "c_string (v_text v)" "col_offset c + col_size c \<le> p_length p"
    and "slice (col_offset c) (col_size c) (p_bytes p) = field_image c v"
  shows "v2_column_length c p = Some (length (stored_field c v))"
proof (cases "col_type c = COL_TYPE_INT")
  case True
  then show ?thesis using assms by (auto simp: v2_column_length_def stored_field_def column_ok_def)
next
  case False
  then have vc: "col_type c = COL_TYPE_VARCHAR" "length (v_text v) < col_size c" using assms(1,2) by (auto simp: column_ok_def value_fits_def)
  let ?f = "field_image c v" and ?n = "length (v_text v)"
  have "?f ! ?n = 0" "\<And>j. j < ?n \<Longrightarrow> ?f ! j \<noteq> 0"
    using False assms(3) by (auto simp: field_image_def nth_append c_string_def in_set_conv_nth)
  then have "find (\<lambda>i. ?f ! i = 0) [0..<col_size c] = Some ?n"
    using vc(2) by (auto simp: find_Some_iff)
  then show ?thesis using vc assms(4,5) by (simp add: v2_column_length_def stored_field_def Let_def)
qed

lemma measure_loop:
  assumes "for_each (measure_column schema p) [0..<n] (b, []) = Inr (full_length, lengths)"
    and "n \<le> length cs" "length vals = length cs"
    and "\<And>i. i < n \<Longrightarrow> v2_column_length (columns schema ! i) p = Some (length (stored_field (cs ! i) (vals ! i)))"
  shows "lengths = stored_lengths (take n cs) (take n vals) \<and> full_length = b + sum_list lengths"
proof -
  let ?P = "\<lambda>i st. snd st = stored_lengths (take i cs) (take i vals) \<and> fst st = b + sum_list (snd st)"
  have "?P n (full_length, lengths)"
  proof (rule for_each_invariant_upto [OF assms(1)])
    fix i st st' assume a: "i < n" "?P i st" "measure_column schema p i st = Inr st'"
    then have "st' = (fst st + length (stored_field (cs ! i) (vals ! i)), snd st @ [length (stored_field (cs ! i) (vals ! i))])"
      using assms(4) [of i] by (auto simp: measure_column_def Let_def split: prod.splits if_splits)
    then show "?P (Suc i) st'" using a(1,2) stored_snoc(2) [of i cs vals] assms(2,3) by simp
  qed (simp add: stored_lengths_def)
  then show ?thesis by simp
qed

lemma blit_next:
  assumes "length bs \<le> n" "k = length xs" "m = n - length bs"
  shows "blit k bs (xs @ replicate n 0) = (xs @ bs) @ replicate m 0"
  using blit_into_zeros [OF assms(1), of xs] assms(2,3) by simp

lemma header_written:
  assumes "24 \<le> m"
  shows "blit ENVELOPE_V2_DIRECTORY_ENTRY_SIZE_OFFSET (write_u16_le (of_nat ENVELOPE_V2_DIRECTORY_ENTRY_SIZE))
     (blit ENVELOPE_V2_FIELD_COUNT_OFFSET (write_u16_le (of_nat n))
     (blit ENVELOPE_SCHEMA_FINGERPRINT_OFFSET (write_u64_le fp)
     (blit ENVELOPE_LOGICAL_LENGTH_OFFSET (put_u32 l)
     (blit ENVELOPE_HEADER_SIZE_OFFSET (write_u16_le (of_nat ENVELOPE_V2_HEADER_SIZE))
     (blit ENVELOPE_VERSION_OFFSET (write_u16_le ENVELOPE_VERSION_COMPACT_V2)
     (blit ENVELOPE_MAGIC_OFFSET (write_u32_le ENVELOPE_MAGIC) (replicate m 0))))))) =
   envelope_header l fp n @ replicate (m - 24) 0"
proof -
  let ?a = "write_u32_le ENVELOPE_MAGIC" and ?b = "write_u16_le ENVELOPE_VERSION_COMPACT_V2"
    and ?c = "write_u16_le (of_nat ENVELOPE_V2_HEADER_SIZE)" and ?d = "put_u32 l" and ?e = "write_u64_le fp"
    and ?f = "write_u16_le (of_nat n)" and ?g = "write_u16_le (of_nat ENVELOPE_V2_DIRECTORY_ENTRY_SIZE)"
  have "blit 0 ?a (replicate m 0) = ?a @ replicate (m - 4) 0"
    using blit_next [of ?a m 0 "[]" "m - 4"] assms by simp
  moreover have "blit 4 ?b (?a @ replicate (m - 4) 0) = (?a @ ?b) @ replicate (m - 6) 0"
    by (rule blit_next) (use assms in simp_all)
  moreover have "blit 6 ?c ((?a @ ?b) @ replicate (m - 6) 0) = ((?a @ ?b) @ ?c) @ replicate (m - 8) 0"
    by (rule blit_next) (use assms in simp_all)
  moreover have "blit 8 ?d (((?a @ ?b) @ ?c) @ replicate (m - 8) 0) = (((?a @ ?b) @ ?c) @ ?d) @ replicate (m - 12) 0"
    by (rule blit_next) (use assms in simp_all)
  moreover have "blit 12 ?e ((((?a @ ?b) @ ?c) @ ?d) @ replicate (m - 12) 0) = ((((?a @ ?b) @ ?c) @ ?d) @ ?e) @ replicate (m - 20) 0"
    by (rule blit_next) (use assms in simp_all)
  moreover have "blit 20 ?f (((((?a @ ?b) @ ?c) @ ?d) @ ?e) @ replicate (m - 20) 0) = (((((?a @ ?b) @ ?c) @ ?d) @ ?e) @ ?f) @ replicate (m - 22) 0"
    by (rule blit_next) (use assms in simp_all)
  moreover have "blit 22 ?g ((((((?a @ ?b) @ ?c) @ ?d) @ ?e) @ ?f) @ replicate (m - 22) 0) =
      ((((((?a @ ?b) @ ?c) @ ?d) @ ?e) @ ?f) @ ?g) @ replicate (m - 24) 0"
    by (rule blit_next) (use assms in simp_all)
  ultimately have "blit 22 ?g (blit 20 ?f (blit 12 ?e (blit 8 ?d (blit 6 ?c (blit 4 ?b (blit 0 ?a (replicate m 0))))))) =
      ((((((?a @ ?b) @ ?c) @ ?d) @ ?e) @ ?f) @ ?g) @ replicate (m - 24) 0" by (simp only:)
  then show ?thesis
    unfolding envelope_header_def ENVELOPE_MAGIC_OFFSET_def ENVELOPE_VERSION_OFFSET_def ENVELOPE_HEADER_SIZE_OFFSET_def
      ENVELOPE_LOGICAL_LENGTH_OFFSET_def ENVELOPE_SCHEMA_FINGERPRINT_OFFSET_def ENVELOPE_V2_FIELD_COUNT_OFFSET_def
      ENVELOPE_V2_DIRECTORY_ENTRY_SIZE_OFFSET_def append_assoc .
qed

lemma write_loop:
  assumes "length vals = length cs" "n = length cs" "\<And>i. i < n \<Longrightarrow> columns schema ! i = cs ! i"
    and "\<And>i. i < n \<Longrightarrow> slice (col_offset (cs ! i)) (length (stored_field (cs ! i) (vals ! i))) (p_bytes p) = stored_field (cs ! i) (vals ! i)"
    and "length h = 24" "lens = stored_lengths cs vals" "b = 24 + 8 * n"
  shows "fold (write_column schema p lens) [0..<n] (b, h @ replicate (8 * n + sum_list lens) 0) =
    (b + sum_list lens, h @ directory b lens @ stored_body cs vals)"
proof -
  let ?l = "\<lambda>i. stored_lengths (take i cs) (take i vals)" and ?f = "\<lambda>i. stored_field (cs ! i) (vals ! i)"
  have "m \<le> n \<Longrightarrow> fold (write_column schema p lens) [0..<m] (b, h @ replicate (8 * n + sum_list lens) 0) =
    (b + sum_list (?l m), h @ directory b (?l m) @ replicate (8 * (n - m)) 0 @ stored_body (take m cs) (take m vals) @
       replicate (sum_list lens - sum_list (?l m)) 0)" for m
  proof (induction m)
    case 0
    then show ?case by (simp add: stored_lengths_def stored_body_def replicate_add)
  next
    case (Suc m)
    then have m: "m < n" "m < length cs" using assms(2) by simp_all
    have le: "lens ! m = length (?f m)" using m assms(1,2,6) by simp
    have ll: "length (?l m) = m" using m assms(1,2) by simp
    have sum: "sum_list lens = sum_list (?l m) + length (?f m) + sum_list (stored_lengths (drop (Suc m) cs) (drop (Suc m) vals))"
      using arg_cong [OF stored_body_split [OF m(2) assms(1)], of length] assms(6) by (simp only: length_append length_stored_body)
    let ?x = "h @ directory b (?l m)" and ?tail = "stored_body (take m cs) (take m vals) @ replicate (sum_list lens - sum_list (?l m)) 0"
    have lx: "length ?x = 24 + m * 8" using assms(5) ll by simp
    have step1: "blit (24 + m * 8) (put_u32 (b + sum_list (?l m))) (?x @ replicate (8 * (n - m)) 0 @ ?tail) =
        ?x @ put_u32 (b + sum_list (?l m)) @ replicate (8 * (n - m) - 4) 0 @ ?tail"
      using m lx by (subst blit_inner_zeros) simp_all
    have step2: "blit (24 + m * 8 + 4) (put_u32 (length (?f m)))
        ((?x @ put_u32 (b + sum_list (?l m))) @ replicate (8 * (n - m) - 4) 0 @ ?tail) =
        (?x @ put_u32 (b + sum_list (?l m))) @ put_u32 (length (?f m)) @ replicate (8 * (n - Suc m)) 0 @ ?tail"
      using m lx by (subst blit_inner_zeros) (simp_all add: diff_mult_distrib2)
    let ?y = "?x @ put_u32 (b + sum_list (?l m)) @ put_u32 (length (?f m)) @ replicate (8 * (n - Suc m)) 0 @ stored_body (take m cs) (take m vals)"
    have ly: "length ?y = b + sum_list (?l m)" using m lx assms(7) by simp
    have step3: "blit (b + sum_list (?l m)) (?f m) (?y @ replicate (sum_list lens - sum_list (?l m)) 0) =
        (?y @ ?f m) @ replicate (sum_list lens - sum_list (?l (Suc m))) 0"
      by (rule blit_next) (use ly sum stored_snoc(2) [OF m(2) assms(1)] in simp_all)
    have dir: "directory b (?l (Suc m)) = directory b (?l m) @ put_u32 (b + sum_list (?l m)) @ put_u32 (length (?f m))"
      using stored_snoc(2) [OF m(2) assms(1)] directory_snoc by simp
    have body: "stored_body (take (Suc m) cs) (take (Suc m) vals) = stored_body (take m cs) (take m vals) @ ?f m"
      by (rule stored_snoc(1) [OF m(2) assms(1)])
    have "write_column schema p lens m (b + sum_list (?l m), ?x @ replicate (8 * (n - m)) 0 @ ?tail) =
        (b + sum_list (?l m) + length (?f m), (?y @ ?f m) @ replicate (sum_list lens - sum_list (?l (Suc m))) 0)"
      using step1 step2 step3 le assms(3) [OF m(1)] assms(4) [OF m(1)]
      by (simp add: write_column_def Let_def ENVELOPE_V2_HEADER_SIZE_def ENVELOPE_V2_DIRECTORY_ENTRY_SIZE_def)
    then show ?case using Suc m stored_snoc(2) [OF m(2) assms(1)] dir body by simp
  qed
  from this [of n] assms(1,2,6) show ?thesis by simp
qed

end
