(* ===== verification/RecordReads.thy ===== *)
theory RecordReads
  imports LeafCursor RecordTable RowEnvelope
begin

text \<open>
  Reading rows over leaves of both formats, after \<open>src/record_read_v2.c\<close>: search, full scan and scan of a range of
  keys, as payloads and as records. The build renames the functions of the same name in \<open>src/record.c\<close> to
  \<open>..._v1_base\<close>; the ones here are the ones the rest of the program calls.

  Every page number is checked before it is used, so a read gives only its result. The root page of the schema is
  the scope of a read. A scan hands every row to the caller's visitor, which has a state of its own and says whether
  to go on; its outcome is the number of rows, \<open>Inl\<close> a message when the scan could not be completed, and the
  visitor's state. Row counts are below \<open>2 ^ 32\<close> and do not wrap.
\<close>

section \<open>One row\<close>

definition read_cursor_key :: "tree \<Rightarrow> cursor \<Rightarrow> nat option" where
  "read_cursor_key s c =
     (if \<not> valid_page_num s (c_page c) then None
      else let page = t_pages s (c_page c)
           in if get_node_type page \<noteq> NODE_LEAF then None else page_key_at page (c_cell c))"

definition cursor_key_equals :: "tree \<Rightarrow> cursor option \<Rightarrow> nat \<Rightarrow> bool" where
  "cursor_key_equals s c key \<longleftrightarrow> Option.bind c (read_cursor_key s) = Some key"

definition raw_value_to_payload :: "table_schema \<Rightarrow> bytes \<Rightarrow> leaf_page_format \<Rightarrow> record_payload option" where
  "raw_value_to_payload schema stored format =
     (if row_size schema = 0 \<or> row_size schema > RECORD_PAYLOAD_MAX then None
      else if format = PAGE_FORMAT_FIXED_V1 then
        if length stored < row_size schema then None
        else Some \<lparr>p_length = row_size schema, p_bytes = blit 0 (take (row_size schema) stored) (replicate RECORD_PAYLOAD_MAX 0)\<rparr>
      else if format \<noteq> PAGE_FORMAT_SLOTTED_V2 then None
      else if length stored = row_size schema then
        Some \<lparr>p_length = length stored, p_bytes = blit 0 stored (replicate RECORD_PAYLOAD_MAX 0)\<rparr>
      else envelope_decode schema stored)"

definition cursor_to_payload :: "table_schema \<Rightarrow> tree \<Rightarrow> cursor \<Rightarrow> record_payload option" where
  "cursor_to_payload schema s c =
     (if \<not> valid_page_num s (c_page c) then None
      else let page = t_pages s (c_page c)
           in if get_node_type page \<noteq> NODE_LEAF then None
              else case page_value_at page (c_cell c) of None \<Rightarrow> None
              | Some stored \<Rightarrow> raw_value_to_payload schema stored (detect_page page))"

definition read_cursor_to_record :: "table_schema \<Rightarrow> tree \<Rightarrow> cursor \<Rightarrow> bytes option" where
  "read_cursor_to_record schema s c =
     (case cursor_to_payload schema s c of None \<Rightarrow> None
      | Some p \<Rightarrow> (case payload_to_record schema p of Inl _ \<Rightarrow> None | Inr record \<Rightarrow> Some record))"

definition root_scope :: "table_schema \<Rightarrow> tree \<Rightarrow> tree" where
  "root_scope schema s = s\<lparr>t_root := schema_root schema\<rparr>"

section \<open>Payloads\<close>

definition payload_find :: "table_schema \<Rightarrow> nat \<Rightarrow> tree \<Rightarrow> string + record_payload" where
  "payload_find schema i s =
     (case payload_schema_supported schema of Inl message \<Rightarrow> Inl message
      | Inr _ \<Rightarrow>
          let s = root_scope schema s; c = leaf_read_find s i
          in case (if cursor_key_equals s c i then Option.bind c (cursor_to_payload schema s) else None) of
               Some p \<Rightarrow> Inr p
             | None \<Rightarrow> Inl ''primary key not found or row payload is invalid'')"

type_synonym 'v scan_outcome = "nat \<times> (string + unit) \<times> 'v"

text \<open>An incomplete scan reports no rows.\<close>

definition finish_scan :: "'v scan_outcome \<Rightarrow> 'v scan_outcome" where
  "finish_scan r = (case r of (count, outcome, v) \<Rightarrow> (case outcome of Inl message \<Rightarrow> 0 | Inr _ \<Rightarrow> count, outcome, v))"

partial_function (option) payload_scan_loop ::
  "table_schema \<Rightarrow> (record_payload \<Rightarrow> 'v \<Rightarrow> bool \<times> 'v) \<Rightarrow> tree \<Rightarrow> cursor \<Rightarrow> nat \<Rightarrow> 'v \<Rightarrow> 'v scan_outcome option" where
  "payload_scan_loop schema visitor s c count v =
     (if c_end c then Some (count, Inr (), v)
      else case cursor_to_payload schema s c of
        None \<Rightarrow> Some (count, Inl ''unable to decode logical row payload during scan'', v)
      | Some p \<Rightarrow>
          (case visitor p v of (go_on, v1) \<Rightarrow>
            if \<not> go_on then Some (count + 1, Inr (), v1)
            else (case leaf_read_advance_checked s c of (ok, c1) \<Rightarrow>
              if ok then payload_scan_loop schema visitor s c1 (count + 1) v1
              else Some (count + 1, Inl ''leaf scan encountered corrupt traversal metadata'', v1))))"

definition payload_scan :: "table_schema \<Rightarrow> (record_payload \<Rightarrow> 'v \<Rightarrow> bool \<times> 'v) \<Rightarrow> 'v \<Rightarrow> tree \<Rightarrow> 'v scan_outcome option" where
  "payload_scan schema visitor v s =
     (case payload_schema_supported schema of Inl message \<Rightarrow> Some (0, Inl message, v)
      | Inr _ \<Rightarrow>
          let s = root_scope schema s
          in case leaf_read_start s of None \<Rightarrow> Some (0, Inl ''unable to start leaf scan'', v)
             | Some c \<Rightarrow> map_option finish_scan (payload_scan_loop schema visitor s c 0 v))"

partial_function (option) range_scan_loop ::
  "table_schema \<Rightarrow> nat \<Rightarrow> nat \<Rightarrow> (record_payload \<Rightarrow> 'v \<Rightarrow> bool \<times> 'v) \<Rightarrow> tree \<Rightarrow> cursor \<Rightarrow> nat \<Rightarrow> 'v \<Rightarrow> 'v scan_outcome option" where
  "range_scan_loop schema min_id max_id visitor s c count v =
     (if c_end c then Some (count, Inr (), v)
      else case read_cursor_key s c of
        None \<Rightarrow> Some (count, Inl ''unable to read primary key during payload range scan'', v)
      | Some key \<Rightarrow>
          if key > max_id then Some (count, Inr (), v)
          else if key < min_id then Some (count, Inl ''payload range cursor moved before its lower bound'', v)
          else (case cursor_to_payload schema s c of
            None \<Rightarrow> Some (count, Inl ''unable to decode logical row payload during range scan'', v)
          | Some p \<Rightarrow>
              (case visitor p v of (go_on, v1) \<Rightarrow>
                if \<not> go_on then Some (count + 1, Inr (), v1)
                else (case leaf_read_advance_checked s c of (ok, c1) \<Rightarrow>
                  if ok then range_scan_loop schema min_id max_id visitor s c1 (count + 1) v1
                  else Some (count + 1, Inl ''payload range scan encountered corrupt traversal metadata'', v1)))))"

definition payload_scan_range ::
  "table_schema \<Rightarrow> nat \<Rightarrow> nat \<Rightarrow> (record_payload \<Rightarrow> 'v \<Rightarrow> bool \<times> 'v) \<Rightarrow> 'v \<Rightarrow> tree \<Rightarrow> 'v scan_outcome option" where
  "payload_scan_range schema min_id max_id visitor v s =
     (case payload_schema_supported schema of Inl message \<Rightarrow> Some (0, Inl message, v)
      | Inr _ \<Rightarrow>
          if min_id > max_id then Some (0, Inr (), v)
          else let s = root_scope schema s
               in case leaf_read_find s min_id of None \<Rightarrow> Some (0, Inl ''unable to seek to payload range start'', v)
                  | Some c \<Rightarrow> map_option finish_scan (range_scan_loop schema min_id max_id visitor s c 0 v))"

section \<open>Records\<close>

definition record_read_find :: "table_schema \<Rightarrow> nat \<Rightarrow> tree \<Rightarrow> bytes option" where
  "record_read_find schema i s =
     (case schema_supports_records schema of Inl _ \<Rightarrow> None
      | Inr _ \<Rightarrow>
          let s = root_scope schema s; c = leaf_read_find s i
          in if cursor_key_equals s c i then Option.bind c (read_cursor_to_record schema s) else None)"

text \<open>A corrupt scan of records gives no number of rows.\<close>

partial_function (option) record_read_scan_loop ::
  "table_schema \<Rightarrow> (bytes \<Rightarrow> 'v \<Rightarrow> bool \<times> 'v) \<Rightarrow> tree \<Rightarrow> cursor \<Rightarrow> nat \<Rightarrow> 'v \<Rightarrow> (nat \<times> bool \<times> 'v) option" where
  "record_read_scan_loop schema visitor s c count v =
     (if c_end c then Some (count, False, v)
      else case read_cursor_to_record schema s c of None \<Rightarrow> Some (count, True, v)
      | Some record \<Rightarrow>
          (case visitor record v of (go_on, v1) \<Rightarrow>
            if \<not> go_on then Some (count + 1, False, v1)
            else (case leaf_read_advance_checked s c of (ok, c1) \<Rightarrow>
              if ok then record_read_scan_loop schema visitor s c1 (count + 1) v1 else Some (count + 1, True, v1))))"

definition record_read_scan :: "table_schema \<Rightarrow> (bytes \<Rightarrow> 'v \<Rightarrow> bool \<times> 'v) \<Rightarrow> 'v \<Rightarrow> tree \<Rightarrow> (nat \<times> 'v) option" where
  "record_read_scan schema visitor v s =
     (case schema_supports_records schema of Inl _ \<Rightarrow> Some (0, v)
      | Inr _ \<Rightarrow>
          let s = root_scope schema s
          in case leaf_read_start s of None \<Rightarrow> Some (0, v)
             | Some c \<Rightarrow> map_option (\<lambda>(count, corrupt, v). (if corrupt then 0 else count, v)) (record_read_scan_loop schema visitor s c 0 v))"

end
