(* ===== verification/RecordMap.thy ===== *)
theory RecordMap
  imports LeafPolicy RecordTable BTreeTable RecordCodec
begin

text \<open>
  A table of rows is a map from keys to records: each operation of \<open>src/record.c\<close> on a well-formed tree gives the
  result and the table of the same operation on a finite map.
\<close>

section \<open>The specification\<close>

datatype record_op = Op_Insert "tval list" | Op_Update nat "tval list" | Op_Delete nat | Op_Find nat

datatype record_result = Refused string | Applied | Row "bytes option"

definition change_result :: "string + unit \<Rightarrow> record_result" where
  "change_result r = (case r of Inl message \<Rightarrow> Refused message | Inr _ \<Rightarrow> Applied)"

fun run_record_op :: "nat \<Rightarrow> table_schema \<Rightarrow> record_op \<Rightarrow> table_handle \<Rightarrow> (tree_exit + record_result \<times> table_handle) option" where
  "run_record_op fuel schema (Op_Insert vals) t = map_option (map_sum id (map_prod change_result id)) (record_insert fuel schema vals t)"
| "run_record_op fuel schema (Op_Update i vals) t = map_option (map_sum id (map_prod change_result id)) (record_update schema i vals t)"
| "run_record_op fuel schema (Op_Delete i) t = map_option (map_sum id (map_prod change_result id)) (record_delete schema i t)"
| "run_record_op fuel schema (Op_Find i) t = map_option (map_sum id (map_prod Row id)) (record_find schema i t)"

text \<open>A record fills the value of a V1 cell; a reader takes the bytes of its schema and pads them again.\<close>

definition padded :: "bytes \<Rightarrow> bytes" where
  "padded bs = bs @ replicate (ROW_SIZE - length bs) 0"

definition record_key :: "bytes \<Rightarrow> nat" where
  "record_key record = get_u32 (slice 0 4 record)"

definition encode_record :: "table_schema \<Rightarrow> tval list \<Rightarrow> string + bytes" where
  "encode_record schema vals = and_then (mutation_target_supported schema) (\<lambda>_. record_encode schema vals)"

fun spec_record_step :: "table_schema \<Rightarrow> record_op \<Rightarrow> (nat \<Rightarrow> bytes option) \<Rightarrow> record_result \<times> (nat \<Rightarrow> bytes option)" where
  "spec_record_step schema (Op_Insert vals) M =
     (case encode_record schema vals of Inl message \<Rightarrow> (Refused message, M)
      | Inr record \<Rightarrow>
          if record_key record \<in> dom M then (Refused ''duplicate primary key'', M)
          else (Applied, M(record_key record \<mapsto> record)))"
| "spec_record_step schema (Op_Update i vals) M =
     (case encode_record schema vals of Inl message \<Rightarrow> (Refused message, M)
      | Inr record \<Rightarrow>
          if record_key record \<noteq> i then (Refused ''generic UPDATE cannot change the primary-key id'', M)
          else if i \<notin> dom M then (Refused ''primary key not found'', M)
          else (Applied, M(i \<mapsto> record)))"
| "spec_record_step schema (Op_Delete i) M =
     (case mutation_target_supported schema of Inl message \<Rightarrow> (Refused message, M)
      | Inr _ \<Rightarrow> if i \<notin> dom M then (Refused ''primary key not found'', M) else (Applied, M(i := None)))"
| "spec_record_step schema (Op_Find i) M =
     (case schema_supports_records schema of Inl _ \<Rightarrow> (Row None, M)
      | Inr _ \<Rightarrow> (Row (map_option (\<lambda>record. padded (take (row_size schema) record)) (M i)), M))"

section \<open>Records in cells\<close>

lemma row_carrier_bytes:
  assumes "length bs \<le> 293"
  shows "row_ok (row_carrier bs)" "row_bytes (row_carrier bs) = padded bs"
proof -
  define z where "z = blit 0 bs (replicate 296 (0 :: u8))"
  have len: "length z = 296" and z: "take 293 z = padded bs"
    using assms by (simp_all add: z_def blit_def padded_def take_append)
  have e: "row_carrier bs = \<lparr>id_of = get_u32 (slice 0 4 z), username = slice 4 33 z, email = slice 37 256 z\<rparr>"
    by (simp add: row_carrier_def Let_def z_def ROW_SIZEOF_def ROW_OFFSETOF_ID_def ROW_OFFSETOF_USERNAME_def ROW_OFFSETOF_EMAIL_def
        ID_SIZE_def USERNAME_SIZE_def EMAIL_SIZE_def)
  show "row_ok (row_carrier bs)"
    using len get_u32_less by (simp add: e row_ok_def USERNAME_SIZE_def EMAIL_SIZE_def)
  have "slice 0 4 z @ slice 4 33 z @ slice 37 256 z = take 293 z"
  proof -
    have "take 293 z = take 4 z @ take 33 (drop 4 z) @ take 256 (drop 37 z)"
      using take_add [of 4 289 z] take_add [of 33 256 "drop 4 z"] by simp
    then show ?thesis by (simp add: slice_def)
  qed
  moreover have "put_u32 (get_u32 (slice 0 4 z)) = slice 0 4 z" using len by (simp add: n32.enc_dec)
  ultimately show "row_bytes (row_carrier bs) = padded bs" by (simp add: row_bytes_def e z)
qed

lemma padded_take: "length record = ROW_SIZE \<Longrightarrow> w \<le> ROW_SIZE \<Longrightarrow> record = take w record @ replicate (ROW_SIZE - w) 0 \<Longrightarrow>
    padded (take w record) = record"
  by (simp add: padded_def)

lemma mutation_target_supportedD: "mutation_target_supported schema = Inr () \<Longrightarrow> schema_supports_records schema = Inr ()"
  by (auto simp: mutation_target_supported_def)

lemma record_layout:
  assumes "record_encode schema vals = Inr record" "schema_array_ok schema"
  shows "length record = 293" "4 \<le> row_size schema" "row_size schema \<le> 293" "padded (take (row_size schema) record) = record"
proof -
  note E = record_encode_image [OF assms]
  note S = schema_supports_recordsD [OF E(1) assms(2)]
  show l: "length record = 293" and w: "row_size schema \<le> 293" using E(4) S(3) by simp_all
  have "length (row_image (cols schema) vals) = row_size schema" using length_row_image [OF E(2)] S(2) by simp
  then have "record = take (row_size schema) record @ replicate (ROW_SIZE - row_size schema) 0" unfolding E(3) by simp
  then show "padded (take (row_size schema) record) = record" using l w by (intro padded_take) simp_all
  have "column_ok (cols schema ! 0)" using S(1,4) assms(2) by (simp add: contiguous_def)
  then have "col_size (cols schema ! 0) = 4" using S(4,5) assms(2) by (simp add: column_ok_def)
  moreover have "col_size (cols schema ! 0) \<le> width (cols schema)" using column_inside [of 0 "cols schema"] S(4) assms(2) by simp
  ultimately show "4 \<le> row_size schema" using S(2) by simp
qed

lemma encode_target_record:
  assumes "schema_array_ok schema"
  shows "encode_target schema vals = (case encode_record schema vals of Inl message \<Rightarrow> Inl message
    | Inr record \<Rightarrow> Inr \<lparr>p_length = row_size schema, p_bytes = blit 0 (take (row_size schema) record) (replicate RECORD_PAYLOAD_MAX 0)\<rparr>)"
proof (cases "encode_record schema vals")
  case (Inr r)
  then have a: "mutation_target_supported schema = Inr ()" "record_encode schema vals = Inr r" by (auto simp: encode_record_def)
  have "validate_legacy_schema schema = Inr ()"
    using mutation_target_supportedD [OF a(1)] record_layout(3) [OF a(2) assms] by (simp add: validate_legacy_schema_def)
  then show ?thesis using a Inr by (simp add: encode_target_def payload_from_record_def)
qed (auto simp: encode_target_def encode_record_def and_then_def split: sum.splits)

lemma payload_image:
  assumes "length record = 293" "4 \<le> w" "w \<le> 293"
  shows "take w (blit 0 (take w record) (replicate RECORD_PAYLOAD_MAX 0)) = take w record"
    "get_u32 (slice 0 4 (blit 0 (take w record) (replicate RECORD_PAYLOAD_MAX 0))) = record_key record"
proof -
  have m: "RECORD_PAYLOAD_MAX = 4112" by (simp add: RECORD_PAYLOAD_MAX_def MAX_COLUMNS_PER_TABLE_def RECORD_TEXT_MAX_def)
  show t: "take w (blit 0 (take w record) (replicate RECORD_PAYLOAD_MAX 0)) = take w record"
    using assms by (simp add: blit_def m)
  have "slice 0 4 (blit 0 (take w record) (replicate RECORD_PAYLOAD_MAX 0)) = slice 0 4 record"
    using assms arg_cong [OF t, of "take 4"] by (simp add: slice_def min_def)
  then show "get_u32 (slice 0 4 (blit 0 (take w record) (replicate RECORD_PAYLOAD_MAX 0))) = record_key record"
    by (simp add: record_key_def)
qed

section \<open>The scope of a root\<close>

abbreviation scoped :: "table_schema \<Rightarrow> table_handle \<Rightarrow> tree" where
  "scoped schema t \<equiv> tb_tree t\<lparr>t_root := schema_root schema\<rparr>"

lemma table_ok_cong:
  assumes "t_pages s' = t_pages s" "t_root s' = t_root s" "t_free_pages s' = t_free_pages s" "t_num_pages s' = t_num_pages s"
  shows "table_ok s' sh \<longleftrightarrow> table_ok s sh" "table_rows s' sh = table_rows s sh"
  using assms by (simp_all add: table_ok_def tree_ok_def linked_def space_def table_rows_def)

lemma tree_commit_same [simp]: "t_pages (tree_commit s) = t_pages s" "t_root (tree_commit s) = t_root s"
  "t_free_pages (tree_commit s) = t_free_pages s" "t_num_pages (tree_commit s) = t_num_pages s"
  by (simp_all add: tree_commit_def)

lemma scoped_commit:
  "t_root s = schema_root schema \<Longrightarrow>
    table_ok (scoped schema (commit_if_autocommit (t\<lparr>tb_tree := s\<lparr>t_root := r\<rparr>\<rparr>))) sh \<longleftrightarrow> table_ok s sh"
  "t_root s = schema_root schema \<Longrightarrow>
    table_rows (scoped schema (commit_if_autocommit (t\<lparr>tb_tree := s\<lparr>t_root := r\<rparr>\<rparr>))) sh = table_rows s sh"
  by (rule table_ok_cong; simp add: commit_if_autocommit_def)+

text \<open>The search on a well-formed table changes nothing and tells whether the key is there.\<close>

lemma find_row_spec:
  assumes T: "table_ok s sh"
  obtains c where "table_find k s = Some (Inr (Some c, s))" "\<And>body. find_row k body s = body c (k \<in> fst ` table_rows s sh) s"
    "leads_to (t_pages s) k sh (c_page c)" "c_page c \<in> set (leaf_pages sh)" "leaf_ok (t_pages s (c_page c))"
    "\<And>b. (k, b) \<in> table_rows s sh \<longleftrightarrow> c_cell c < leaf_node_num_cells (t_pages s (c_page c)) \<and>
      leaf_node_key (t_pages s (c_page c)) (c_cell c) = k \<and> b = drop 4 (leaf_cells (t_pages s (c_page c)) ! c_cell c)"
proof -
  have ok: "tree_ok s sh" and wf: "well_formed (t_pages s) UNIV sh" using T by (simp_all add: table_ok_def tree_ok_def)
  obtain c s1 where f: "table_find k s = Some (Inr (Some c, s1))"
    using table_find_spec [of s sh k] ok by (auto simp: tree_ok_def)
  note F = table_find_place [OF ok f] and s1 = table_find_state [OF T f]
  have m: "c_page c \<in> set (leaf_pages sh)" by (rule leads_to_leaf [OF F(1)])
  have R: "(k, b) \<in> table_rows s sh \<longleftrightarrow> c_cell c < leaf_node_num_cells (t_pages s (c_page c)) \<and>
      leaf_node_key (t_pages s (c_page c)) (c_cell c) = k \<and> b = drop 4 (leaf_cells (t_pages s (c_page c)) ! c_cell c)" for b
    unfolding table_rows_def row_in_leaf [OF wf F(1)] by (rule leaf_row_at [OF F(6,2)])
  have "k \<in> fst ` table_rows s sh \<longleftrightarrow> c_cell c < leaf_node_num_cells (t_pages s (c_page c)) \<and>
      leaf_node_key (t_pages s (c_page c)) (c_cell c) = k"
  proof -
    have "k \<in> fst ` table_rows s sh \<longleftrightarrow> (\<exists>b. (k, b) \<in> table_rows s sh)" by force
    then show ?thesis unfolding R by blast
  qed
  then have "find_row k body s = body c (k \<in> fst ` table_rows s sh) s" for body :: "cursor \<Rightarrow> bool \<Rightarrow> tree \<Rightarrow> (tree_exit + 'b \<times> tree) option"
    using f leaf_in_use [OF T m] by (simp add: find_row_def cursor_matches_key_def s1 Let_def)
  then show thesis using that f F(1,6) m R s1 by blast
qed

text \<open>The operations on records one by one, and their composition as steps of the map.\<close>

section \<open>Overwriting a value\<close>

lemma blit_own_slice:
  assumes "off + n \<le> length xs"
  shows "blit off (slice off n xs) xs = xs"
proof -
  have "blit off (slice off n xs) xs = (take off xs @ take n (drop off xs)) @ drop (off + n) xs"
    using assms by (simp add: blit_def slice_def min_def)
  also have "take off xs @ take n (drop off xs) = take (off + n) xs" by (rule take_add [symmetric])
  finally show ?thesis by (simp only: append_take_drop_id)
qed

lemma write_value_ok:
  assumes ok: "leaf_ok p" and c: "c < leaf_node_num_cells p" and bs: "length bs \<le> 293"
    and q: "q = blit (leaf_node_value c) bs (blit (leaf_node_value c) (replicate 293 0) p)"
  shows "leaf_ok q" "leaf_header q = leaf_header p" "leaf_keys q = leaf_keys p" "leaf_node_num_cells q = leaf_node_num_cells p"
    "leaf_rows q = leaf_rows p \<union> {(leaf_node_key p c, padded bs)} - {(leaf_node_key p c, b) |b. b \<noteq> padded bs}"
proof -
  have len: "length p = 4096" and n: "leaf_node_num_cells p \<le> 13" and s: "sorted_wrt (<) (leaf_keys p)"
    and ty: "get_node_type p = NODE_LEAF" using ok by (simp_all add: leaf_ok_def)
  have c13: "c < 13" using c n by simp
  have e: "22 + c * 297 + 293 \<le> 4096" using lcells.cell_end [OF c13] by simp
  define cell where "cell = put_u32 (leaf_node_key p c) @ padded bs"
  have lc: "length cell = 297" using bs by (simp add: cell_def padded_def)
  have head: "slice (18 + c * 297) 4 p = put_u32 (leaf_node_key p c)"
    using len e by (simp add: leaf_node_key_def rd32_def n32.enc_dec)
  have "q = blit (22 + c * 297) (padded bs) p"
    using q bs len e by (simp add: blit_def padded_def min_def take_drop)
  also have "\<dots> = blit (18 + c * 297) cell p"
  proof -
    have "p = blit (18 + c * 297) (put_u32 (leaf_node_key p c)) p"
      unfolding head [symmetric] using len e by (intro blit_own_slice [symmetric]) simp
    then show ?thesis
      using blit_blit_adjacent [of "18 + c * 297" "put_u32 (leaf_node_key p c)" "padded bs" p] len lc e
      by (simp add: cell_def)
  qed
  finally have q': "q = blit (18 + c * 297) cell p" .
  have lq: "length q = 4096" using lcells.write_cell(2) [OF len c13 c13 lc] q' by simp
  have hd: "slice a m q = slice a m p" if "a + m \<le> 18" for a m
    unfolding q' by (rule lcells.write_before [OF len c13 lc that])
  show h: "leaf_header q = leaf_header p" by (simp add: leaf_header_def hd)
  show nq: "leaf_node_num_cells q = leaf_node_num_cells p" by (simp add: leaf_node_num_cells_def rd32_def hd)
  have cells: "leaf_cells q = (leaf_cells p)[c := cell]"
  proof (rule nth_equalityI)
    fix i assume i: "i < length (leaf_cells q)"
    then have "i < 13" using nq n by simp
    from lcells.write_cell(1) [OF len this c13 lc] show "leaf_cells q ! i = (leaf_cells p)[c := cell] ! i"
      using i nq c by (simp add: nth_list_update q')
  qed (simp add: nq)
  have key: "cell_key cell = leaf_node_key p c"
    using get_u32_less by (simp add: cell_key_def cell_def slice_def leaf_node_key_def rd32_def n32.dec_enc)
  then show keys: "leaf_keys q = leaf_keys p"
    using c by (simp add: cells map_update leaf_key_cell) (metis leaf_key_cell length_leaf_cells length_map list_update_id nth_leaf_cells nth_map)
  show "leaf_ok q" using s n nq lq keys leaf_ok_header(1) [OF h len lq] ty by (simp add: leaf_ok_def)
  define f where "f = (\<lambda>c. (cell_key c, drop 4 c))"
  have dk: "distinct (leaf_keys p)" using s unfolding strict_sorted_iff by blast
  have "map fst (map f (leaf_cells p)) = leaf_keys p" by (simp add: f_def)
  then have "distinct (map fst (map f (leaf_cells p)))" using dk by (simp only:)
  then have d: "distinct (map f (leaf_cells p))" unfolding distinct_map [of fst] by blast
  have "leaf_rows q = set ((map f (leaf_cells p))[c := f cell])" by (simp add: leaf_rows_def cells f_def map_update flip: set_map)
  also have "\<dots> = insert (f cell) (set (map f (leaf_cells p)) - {map f (leaf_cells p) ! c})"
    using c by (intro set_update_distinct [OF d]) simp
  also have "set (map f (leaf_cells p)) = leaf_rows p" by (simp add: leaf_rows_def f_def)
  also have "f cell = (leaf_node_key p c, padded bs)" using key by (simp add: f_def) (simp add: cell_def)
  finally have rows: "leaf_rows q = insert (leaf_node_key p c, padded bs) (leaf_rows p - {map f (leaf_cells p) ! c})" .
  obtain v where at: "map f (leaf_cells p) ! c = (leaf_node_key p c, v)"
    using c by (simp add: f_def leaf_key_cell)
  have uniq: "b = v" if "(leaf_node_key p c, b) \<in> leaf_rows p" for b
  proof -
    from that obtain i where i: "i < leaf_node_num_cells p" "map f (leaf_cells p) ! i = (leaf_node_key p c, b)"
      by (auto simp: leaf_rows_def f_def in_set_conv_nth)
    have "leaf_keys p ! i = leaf_keys p ! c" using i c by (simp add: f_def leaf_key_cell)
    then have "i = c" using i(1) c nth_eq_iff_index_eq [OF dk, of i c] by simp
    then show ?thesis using i(2) at by simp
  qed
  show "leaf_rows q = leaf_rows p \<union> {(leaf_node_key p c, padded bs)} - {(leaf_node_key p c, b) |b. b \<noteq> padded bs}"
    unfolding rows at using uniq by auto
qed

section \<open>Steps\<close>

text \<open>What the operations need of a table: it is well formed, holds the map, has no V2 pages and room for two more
  pages, and its root is the one of the schema.\<close>

definition holds_map :: "table_schema \<Rightarrow> table_handle \<Rightarrow> shape \<Rightarrow> (nat \<Rightarrow> bytes option) \<Rightarrow> bool" where
  "holds_map schema t sh M \<longleftrightarrow> table_ok (scoped schema t) sh \<and> Map.graph M = table_rows (scoped schema t) sh"

definition v1_only :: "tree \<Rightarrow> bool" where
  "v1_only s \<longleftrightarrow> t_num_pages s + 2 \<le> INVALID_PAGE_NUM \<and> (\<forall>n < t_num_pages s. \<not> slotted_validate (t_pages s n))"

fun op_fits :: "table_schema \<Rightarrow> record_op \<Rightarrow> tree \<Rightarrow> shape \<Rightarrow> bool" where
  "op_fits schema (Op_Insert vals) s sh \<longleftrightarrow>
     (\<forall>r m. encode_record schema vals = Inr r \<longrightarrow> leads_to (t_pages s) (record_key r) sh m \<longrightarrow> splittable s sh m)"
| "op_fits schema (Op_Update i vals) s sh \<longleftrightarrow> True"
| "op_fits schema (Op_Delete i) s sh \<longleftrightarrow>
     (\<forall>m. leads_to (t_pages s) i sh m \<longrightarrow> leaf_node_num_cells (t_pages s m) > 1 \<or> leaf_pages sh = [m])"
| "op_fits schema (Op_Find i) s sh \<longleftrightarrow> True"

lemma legacy_layout [simp]: "legacy_layout_compatible"
  by (simp add: legacy_layout_compatible_def leaf_format_current_def ROW_OFFSETOF_ID_def ROW_OFFSETOF_USERNAME_def
      ROW_OFFSETOF_EMAIL_def ROW_SIZEOF_def ID_OFFSET_def USERNAME_OFFSET_def EMAIL_OFFSET_def ID_SIZE_def USERNAME_SIZE_def)

lemma cursor_writable:
  assumes T: "table_ok s sh" and v1: "v1_only s" and m: "c_page c \<in> set (leaf_pages sh)"
  shows "valid_cursor c s" "tree_is_mutable_v1 c s" "cursor_is_fixed_v1 c s"
proof -
  have few: "t_num_pages s \<le> INVALID_PAGE_NUM" and no: "\<And>n. n < t_num_pages s \<Longrightarrow> \<not> slotted_validate (t_pages s n)"
    using v1 by (simp_all add: v1_only_def)
  note L = table_leaves [OF T few m]
  show v: "valid_cursor c s" using L by (simp add: valid_cursor_def valid_page_num_def)
  show "tree_is_mutable_v1 c s" using v table_accepted [OF T few no] by (simp add: tree_is_mutable_v1_def)
  show "cursor_is_fixed_v1 c s" using v L by (simp add: cursor_is_fixed_v1_def page_is_fixed_v1_def)
qed

lemma graph_dom: "Map.graph M = R \<Longrightarrow> k \<in> fst ` R \<longleftrightarrow> k \<in> dom M"
  using fst_graph_eq_dom [of M] by auto

lemma graph_pair: "(k, b) \<in> Map.graph M \<longleftrightarrow> M k = Some b"
  unfolding graph_def by blast

lemma graph_update: "Map.graph (M(k \<mapsto> b)) = Map.graph M \<union> {(k, b)} - {(k, c) |c. c \<noteq> b}"
proof (rule set_eqI)
  fix x show "x \<in> Map.graph (M(k \<mapsto> b)) \<longleftrightarrow> x \<in> Map.graph M \<union> {(k, b)} - {(k, c) |c. c \<noteq> b}"
    by (cases x; cases "fst x = k") (auto simp: graph_pair)
qed

lemma graph_remove: "Map.graph (M(k := None)) = {(j, b) \<in> Map.graph M. j \<noteq> k}"
proof (rule set_eqI)
  fix x show "x \<in> Map.graph (M(k := None)) \<longleftrightarrow> x \<in> {(j, b) \<in> Map.graph M. j \<noteq> k}" by (cases x) (auto simp: graph_pair)
qed

text \<open>The rows after an overwritten value.\<close>

lemma update_in_leaf:
  assumes T: "table_ok s sh" and find: "table_find k s = Some (Inr (Some c, s))"
    and old: "k \<in> fst ` table_rows s sh" and bs: "length bs \<le> 293" "bs \<noteq> []" and v1: "v1_only s"
  shows "\<exists>s2. leaf_value_write c bs s = (True, s2) \<and> table_ok s2 sh \<and> t_root s2 = t_root s \<and>
    table_rows s2 sh = table_rows s sh \<union> {(k, padded bs)} - {(k, b) |b. b \<noteq> padded bs}"
proof -
  have ok: "tree_ok s sh" and wf: "well_formed (t_pages s) UNIV sh" using T by (simp_all add: table_ok_def tree_ok_def)
  note F = table_find_place [OF ok find]
  let ?m = "c_page c" let ?p = "t_pages s ?m"
  have m: "?m \<in> set (leaf_pages sh)" by (rule leads_to_leaf [OF F(1)])
  obtain b where "(k, b) \<in> leaf_rows ?p" using old row_in_leaf [OF wf F(1)] by (auto simp: table_rows_def)
  then have c: "c_cell c < leaf_node_num_cells ?p" "leaf_node_key ?p (c_cell c) = k" using leaf_row_at [OF F(6,2)] by simp_all
  define q where "q = blit (leaf_node_value (c_cell c)) bs (blit (leaf_node_value (c_cell c)) (replicate 293 0) ?p)"
  note W = write_value_ok [OF F(6) c(1) bs(1) q_def, unfolded c(2)]
  define s2 where "s2 = mark ?m (poke ?m (\<lambda>page. blit (leaf_node_value (c_cell c)) bs (blit (leaf_node_value (c_cell c)) (replicate 293 0) page)) s)"
  have s2: "t_pages s2 = (t_pages s)(?m := q)" "t_root s2 = t_root s" "t_free_pages s2 = t_free_pages s" "t_num_pages s2 = t_num_pages s"
    by (simp_all add: s2_def q_def)
  have "leaf_value_write c bs s = (True, s2)"
    using cursor_writable [OF T v1 m] bs by (simp add: leaf_value_write_def valid_args_def s2_def Let_def leaf_format_current_def)
  moreover have "table_ok s2 sh"
  proof (rule table_ok_update [OF T F(1) W(1,2) _ _ s2])
    show "set (leaf_keys q) \<subseteq> insert k (set (leaf_keys ?p))" unfolding W(3) by blast
    show "0 < leaf_node_num_cells q" using W(4) c(1) by simp
  qed
  moreover have "table_rows s2 sh = table_rows s sh \<union> {(k, padded bs)} - {(k, b) |b. b \<noteq> padded bs}"
    unfolding table_rows_def s2(1)
  proof (rule rows_update [OF m])
    show "leaf_rows (t_pages s n) \<inter> {(k, b) |b. b \<noteq> padded bs} = {}" if n: "n \<in> set (leaf_pages sh)" "n \<noteq> ?m" for n
    proof -
      have "k \<notin> set (leaf_keys (t_pages s n))"
        using key_in_its_leaf [OF wf n(1), of k] leads_to_unique [OF wf F(1), of n] n(2) by blast
      then show ?thesis using leaf_rows_keys [of "t_pages s n"] by force
    qed
  qed (rule W(5))
  ultimately show ?thesis using s2(2) by blast
qed

end
