(* ===== verification/RecordRefinement.thy ===== *)
theory RecordRefinement
  imports RecordMap
begin

text \<open>Every operation on records is the step of the map.\<close>

lemma finish_ok:
  assumes "body (scoped schema t) = Some (Inr (Inr (), s2))" "table_ok s2 sh'" "t_root s2 = schema_root schema"
    and "Map.graph M' = table_rows s2 sh'"
  shows "\<exists>t'. finish_change t (in_root_scope schema body (tb_tree t)) = Some (Inr (Inr (), t')) \<and> holds_map schema t' sh' M' \<and>
    t_root (tb_tree t') = t_root (tb_tree t)"
proof -
  let ?t = "commit_if_autocommit (t\<lparr>tb_tree := s2\<lparr>t_root := t_root (tb_tree t)\<rparr>\<rparr>)"
  have "finish_change t (in_root_scope schema body (tb_tree t)) = Some (Inr (Inr (), ?t))"
    using assms(1) by (simp add: finish_change_def in_root_scope_def)
  moreover have "holds_map schema ?t sh' M'" using assms(2,4) by (simp add: holds_map_def scoped_commit [OF assms(3)])
  moreover have "t_root (tb_tree ?t) = t_root (tb_tree t)" by (simp add: commit_if_autocommit_def)
  ultimately show ?thesis by blast
qed

lemma scope_unchanged: "tb_tree_update (\<lambda>_. (scoped schema t)\<lparr>t_root := t_root (tb_tree t)\<rparr>) t = t"
  by simp

lemma finish_refused:
  "body (scoped schema t) = Some (Inr (Inl message, scoped schema t)) \<Longrightarrow>
    finish_change t (in_root_scope schema body (tb_tree t)) = Some (Inr (Inl message, t))"
  by (simp add: finish_change_def in_root_scope_def)

lemma insert_step:
  assumes sch: "schema_array_ok schema" and H: "holds_map schema t sh M" and v1: "v1_only (scoped schema t)"
    and fit: "op_fits schema (Op_Insert vals) (scoped schema t) sh"
  shows "\<exists>r t' sh'. record_insert (Suc fuel) schema vals t = Some (Inr (r, t')) \<and> holds_map schema t' sh' (snd (spec_record_step schema (Op_Insert vals) M)) \<and>
    change_result r = fst (spec_record_step schema (Op_Insert vals) M) \<and> t_root (tb_tree t') = t_root (tb_tree t)"
proof (cases "encode_record schema vals")
  case (Inl e)
  then show ?thesis using H encode_target_record [OF sch, of vals] by (auto simp: record_insert_def change_result_def)
next
  case (Inr rec)
  then have enc: "record_encode schema vals = Inr rec" by (auto simp: encode_record_def)
  note L = record_layout [OF enc sch]
  let ?s = "scoped schema t" and ?w = "row_size schema"
  define key where "key = record_key rec"
  note P = payload_image [OF L(1-3)]
  have T: "table_ok ?s sh" and G: "Map.graph M = table_rows ?s sh" using H by (simp_all add: holds_map_def)
  obtain c where f: "table_find key ?s = Some (Inr (Some c, ?s))"
    and run: "\<And>body :: cursor \<Rightarrow> bool \<Rightarrow> tree \<Rightarrow> (tree_exit + (string + unit) \<times> tree) option. find_row key body ?s = body c (key \<in> fst ` table_rows ?s sh) ?s"
    and to: "leads_to (t_pages ?s) key sh (c_page c)" "c_page c \<in> set (leaf_pages sh)" by (rule find_row_spec [OF T, where k = key]) (rule that)
  let ?body = "find_row key (\<lambda>c matches s. if matches then Some (Inr (Inl ''duplicate primary key'', s))
    else case leaf_value_insert (Suc fuel) c key (take ?w rec) s of None \<Rightarrow> None | Some (Inl e) \<Rightarrow> Some (Inl e)
    | Some (Inr (stored, s1)) \<Rightarrow> Some (Inr (if stored then Inr () else Inl ''unable to insert logical leaf value'', s1)))"
  have e: "record_insert (Suc fuel) schema vals t = finish_change t (in_root_scope schema ?body (tb_tree t))"
    unfolding record_insert_def encode_target_record [OF sch] Inr by (simp add: P key_def Let_def cong del: if_weak_cong)
  have spec: "spec_record_step schema (Op_Insert vals) M =
      (if key \<in> dom M then (Refused ''duplicate primary key'', M) else (Applied, M(key \<mapsto> rec)))"
    using Inr by (simp add: key_def)
  show ?thesis
  proof (cases "key \<in> fst ` table_rows ?s sh")
    case True
    have "?body ?s = Some (Inr (Inl ''duplicate primary key'', ?s))" unfolding run using True by simp
    from finish_refused [where body = ?body, OF this] H True show ?thesis unfolding e spec graph_dom [OF G] by (auto simp: change_result_def)
  next
    case False
    let ?row = "row_carrier (take ?w rec)"
    have C: "row_ok ?row" "row_bytes ?row = rec" using row_carrier_bytes [of "take ?w rec"] L by simp_all
    have k32: "key < 2 ^ 32" unfolding key_def record_key_def by (rule get_u32_less)
    have split: "splittable ?s sh (c_page c)" using fit Inr to(1) by (simp add: key_def)
    have room: "t_num_pages ?s + 2 \<le> INVALID_PAGE_NUM" using v1 by (simp add: v1_only_def)
    obtain s2 sh' where I: "leaf_node_insert (Suc fuel) c key ?row ?s = Some (Inr s2)" "table_ok s2 sh'"
      "table_rows s2 sh' = insert (key, rec) (table_rows ?s sh)"
      using insert_any [OF T f False k32 C(1) room split, where fuel = fuel] unfolding C(2) by blast
    have root: "t_root s2 = schema_root schema" using leaf_insert_root [OF I(1)] by simp
    have w: "valid_args c (length (take ?w rec)) ?s" using cursor_writable(1) [OF T v1 to(2)] L by (simp add: valid_args_def)
    have "leaf_value_insert (Suc fuel) c key (take ?w rec) ?s = Some (Inr (True, s2))"
      unfolding leaf_value_insert_def using w cursor_writable [OF T v1 to(2)] I(1) by simp
    then have b: "?body ?s = Some (Inr (Inr (), s2))" unfolding run using False by simp
    have "key \<notin> dom M" using False graph_dom [OF G] by blast
    moreover have "Map.graph (M(key \<mapsto> rec)) = table_rows s2 sh'"
    proof -
      have "(key, c) \<notin> Map.graph M" for c using \<open>key \<notin> dom M\<close> by (auto simp: graph_pair)
      then show ?thesis unfolding I(3) G [symmetric] graph_update by blast
    qed
    moreover from finish_ok [where body = ?body, OF b I(2) root this] obtain t' where
      "finish_change t (in_root_scope schema ?body (tb_tree t)) = Some (Inr (Inr (), t'))" "holds_map schema t' sh' (M(key \<mapsto> rec))"
      "t_root (tb_tree t') = t_root (tb_tree t)" by blast
    ultimately show ?thesis unfolding e spec
      by (intro exI [of _ "Inr ()"] exI [of _ t'] exI [of _ sh']) (simp add: change_result_def)
  qed
qed

lemma update_step:
  assumes sch: "schema_array_ok schema" and H: "holds_map schema t sh M" and v1: "v1_only (scoped schema t)"
  shows "\<exists>r t'. record_update schema i vals t = Some (Inr (r, t')) \<and> holds_map schema t' sh (snd (spec_record_step schema (Op_Update i vals) M)) \<and>
    change_result r = fst (spec_record_step schema (Op_Update i vals) M) \<and> t_root (tb_tree t') = t_root (tb_tree t)"
proof (cases "encode_record schema vals")
  case (Inl e)
  then show ?thesis using H encode_target_record [OF sch, of vals] by (auto simp: record_update_def change_result_def)
next
  case (Inr rec)
  then have enc: "record_encode schema vals = Inr rec" by (auto simp: encode_record_def)
  note L = record_layout [OF enc sch]
  let ?s = "scoped schema t" and ?w = "row_size schema"
  note P = payload_image [OF L(1-3)]
  have T: "table_ok ?s sh" and G: "Map.graph M = table_rows ?s sh" using H by (simp_all add: holds_map_def)
  obtain c where f: "table_find i ?s = Some (Inr (Some c, ?s))"
    and run: "\<And>body :: cursor \<Rightarrow> bool \<Rightarrow> tree \<Rightarrow> (tree_exit + (string + unit) \<times> tree) option. find_row i body ?s = body c (i \<in> fst ` table_rows ?s sh) ?s" by (rule find_row_spec [OF T, where k = i]) (rule that)
  let ?body = "find_row i (\<lambda>c matches s. if \<not> matches then Some (Inr (Inl ''primary key not found'', s))
    else case leaf_value_write c (take ?w rec) s of (stored, s1) \<Rightarrow>
      Some (Inr (if stored then Inr () else Inl ''unable to update logical leaf value'', s1)))"
  have e: "record_update schema i vals t = (if record_key rec \<noteq> i then Some (Inr (Inl ''generic UPDATE cannot change the primary-key id'', t))
      else finish_change t (in_root_scope schema ?body (tb_tree t)))"
    unfolding record_update_def encode_target_record [OF sch] Inr by (simp add: P)
  have spec: "spec_record_step schema (Op_Update i vals) M =
      (if record_key rec \<noteq> i then (Refused ''generic UPDATE cannot change the primary-key id'', M)
       else if i \<notin> dom M then (Refused ''primary key not found'', M) else (Applied, M(i \<mapsto> rec)))"
    using Inr by simp
  consider "record_key rec \<noteq> i" | "record_key rec = i" "i \<notin> fst ` table_rows ?s sh" | "record_key rec = i" "i \<in> fst ` table_rows ?s sh" by blast
  then show ?thesis
  proof cases
    case 1
    then show ?thesis unfolding e spec using H by (simp add: change_result_def)
  next
    case 2
    have "?body ?s = Some (Inr (Inl ''primary key not found'', ?s))" unfolding run using 2 by simp
    from finish_refused [where body = ?body, OF this] H 2 show ?thesis unfolding e spec graph_dom [OF G] by (auto simp: change_result_def)
  next
    case 3
    have "length (take ?w rec) \<le> 293" "take ?w rec \<noteq> []" using L by auto
    from update_in_leaf [OF T f 3(2) this v1] obtain s2 where U: "leaf_value_write c (take ?w rec) ?s = (True, s2)" "table_ok s2 sh"
      "t_root s2 = t_root ?s" "table_rows s2 sh = table_rows ?s sh \<union> {(i, rec)} - {(i, b) |b. b \<noteq> rec}" using L(4) by auto
    have b: "?body ?s = Some (Inr (Inr (), s2))" unfolding run using 3 U(1) by simp
    have root: "t_root s2 = schema_root schema" using U(3) by simp
    have "Map.graph (M(i \<mapsto> rec)) = table_rows s2 sh" unfolding graph_update U(4) G ..
    from finish_ok [where body = ?body, OF b U(2) root this] show ?thesis
      unfolding e spec using 3 graph_dom [OF G, of i] by (auto simp: change_result_def)
  qed
qed

lemma delete_step:
  assumes H: "holds_map schema t sh M" and fit: "op_fits schema (Op_Delete i) (scoped schema t) sh"
  shows "\<exists>r t'. record_delete schema i t = Some (Inr (r, t')) \<and> holds_map schema t' sh (snd (spec_record_step schema (Op_Delete i) M)) \<and>
    change_result r = fst (spec_record_step schema (Op_Delete i) M) \<and> t_root (tb_tree t') = t_root (tb_tree t)"
proof (cases "mutation_target_supported schema")
  case (Inl e)
  then show ?thesis using H by (simp add: record_delete_def change_result_def)
next
  case (Inr u)
  let ?s = "scoped schema t"
  have T: "table_ok ?s sh" and G: "Map.graph M = table_rows ?s sh" using H by (simp_all add: holds_map_def)
  obtain c where f: "table_find i ?s = Some (Inr (Some c, ?s))"
    and run: "\<And>body :: cursor \<Rightarrow> bool \<Rightarrow> tree \<Rightarrow> (tree_exit + (string + unit) \<times> tree) option. find_row i body ?s = body c (i \<in> fst ` table_rows ?s sh) ?s"
    and to: "leads_to (t_pages ?s) i sh (c_page c)" by (rule find_row_spec [OF T, where k = i]) (rule that)
  let ?body = "find_row i (\<lambda>c matches s. if \<not> matches then Some (Inr (Inl ''primary key not found'', s))
    else case leaf_node_delete c s of Inl e \<Rightarrow> Some (Inl e) | Inr s1 \<Rightarrow> Some (Inr (Inr (), s1)))"
  have e: "record_delete schema i t = finish_change t (in_root_scope schema ?body (tb_tree t))"
    unfolding record_delete_def Inr by simp
  show ?thesis
  proof (cases "i \<in> fst ` table_rows ?s sh")
    case False
    have "?body ?s = Some (Inr (Inl ''primary key not found'', ?s))" unfolding run using False by simp
    from finish_refused [where body = ?body, OF this] H False Inr show ?thesis unfolding e graph_dom [OF G] by (auto simp: change_result_def)
  next
    case True
    have stays: "leaf_node_num_cells (t_pages ?s (c_page c)) > 1 \<or> leaf_pages sh = [c_page c]" using fit to by simp
    obtain s2 where D: "leaf_node_delete c ?s = Inr s2" "table_ok s2 sh" "table_rows s2 sh = {(j, b) \<in> table_rows ?s sh. j \<noteq> i}"
      using delete_in_leaf [OF T f True stays] by blast
    have root: "t_root s2 = schema_root schema" using D(2) T by (simp add: table_ok_def tree_ok_def)
    have b: "?body ?s = Some (Inr (Inr (), s2))" unfolding run using True D(1) by simp
    have "Map.graph (M(i := None)) = table_rows s2 sh" unfolding graph_remove D(3) G ..
    from finish_ok [where body = ?body, OF b D(2) root this] show ?thesis
      unfolding e using True Inr graph_dom [OF G, of i] by (auto simp: change_result_def)
  qed
qed

lemma find_step:
  assumes sch: "schema_array_ok schema" and H: "holds_map schema t sh M" and few: "t_num_pages (tb_tree t) \<le> INVALID_PAGE_NUM"
  shows "record_find schema i t = Some (Inr (case fst (spec_record_step schema (Op_Find i) M) of Row r \<Rightarrow> r | _ \<Rightarrow> None, t))"
proof (cases "schema_supports_records schema")
  case (Inl e)
  then show ?thesis by (simp add: record_find_def)
next
  case (Inr u)
  then have ok: "schema_supports_records schema = Inr ()" by simp
  let ?s = "scoped schema t" and ?w = "row_size schema"
  have w: "0 < ?w" "?w \<le> 293" using ok by (auto simp: schema_supports_records_def split: if_splits)
  have T: "table_ok ?s sh" and G: "Map.graph M = table_rows ?s sh" using H by (simp_all add: holds_map_def)
  obtain c where f: "table_find i ?s = Some (Inr (Some c, ?s))"
    and run: "\<And>body :: cursor \<Rightarrow> bool \<Rightarrow> tree \<Rightarrow> (tree_exit + bytes option \<times> tree) option. find_row i body ?s = body c (i \<in> fst ` table_rows ?s sh) ?s"
    and m: "c_page c \<in> set (leaf_pages sh)" "leaf_ok (t_pages ?s (c_page c))"
    and at: "\<And>b. (i, b) \<in> table_rows ?s sh \<longleftrightarrow> c_cell c < leaf_node_num_cells (t_pages ?s (c_page c)) \<and>
      leaf_node_key (t_pages ?s (c_page c)) (c_cell c) = i \<and> b = drop 4 (leaf_cells (t_pages ?s (c_page c)) ! c_cell c)"
    by (rule find_row_spec [OF T, where k = i]) (rule that)
  let ?p = "t_pages ?s (c_page c)"
  have rd: "cursor_to_record schema c ?s = Inr (padded (take ?w b))" if b: "(i, b) \<in> table_rows ?s sh" for b
  proof -
    have v1: "detect_page ?p = PAGE_FORMAT_FIXED_V1" by (rule leaf_ok_v1 [OF m(2)])
    have c: "c_cell c < leaf_node_num_cells ?p" "b = drop 4 (leaf_cells ?p ! c_cell c)" using at b by blast+
    have n: "length ?p = 4096" "leaf_node_num_cells ?p \<le> 13" using m(2) by (simp_all add: leaf_ok_def)
    have lb: "length b = 293" using c n by simp
    have "page_value_at ?p (c_cell c) = Some b"
      using page_access(3) [of ?p "c_cell c"] v1 c by (simp add: page_rows_def)
    moreover have "valid_cursor c ?s" using table_leaves [OF T _ m(1)] few by (simp add: valid_cursor_def valid_page_num_def)
    moreover have big: "RECORD_PAYLOAD_MAX = 4112" by (simp add: RECORD_PAYLOAD_MAX_def MAX_COLUMNS_PER_TABLE_def RECORD_TEXT_MAX_def)
    ultimately have "leaf_value_read c RECORD_PAYLOAD_MAX ?w ?s = Some (take ?w b)"
      using w lb by (simp add: leaf_value_read_def)
    moreover have "validate_legacy_schema schema = Inr ()" using ok w by (simp add: validate_legacy_schema_def)
    moreover have "take ?w (blit 0 (take ?w b) (replicate RECORD_PAYLOAD_MAX 0)) = take ?w b" using lb w big by (simp add: blit_def)
    moreover have "blit 0 (take ?w b) (replicate ROW_SIZE 0) = padded (take ?w b)" using lb w by (simp add: blit_def padded_def)
    ultimately show ?thesis using w by (simp add: cursor_to_record_def payload_to_record_def)
  qed
  have "record_find schema i t = Some (Inr (map_option (\<lambda>b. padded (take ?w b)) (M i), t))"
  proof (cases "M i")
    case None
    then have "i \<notin> fst ` table_rows ?s sh" using graph_dom [OF G] by blast
    then show ?thesis using None by (simp add: record_find_def ok in_root_scope_def run)
  next
    case (Some b)
    then have b: "(i, b) \<in> table_rows ?s sh" using graph_pair [of i b M] G by simp
    then have "i \<in> fst ` table_rows ?s sh" by force
    then show ?thesis using rd [OF b] Some by (simp add: record_find_def ok in_root_scope_def run)
  qed
  then show ?thesis using ok by simp
qed

text \<open>C12. A table whose leaves are all fixed V1 leaves is a map from keys to records: inserting, updating, deleting
  and finding a row give the result and the table that the operation on a finite map gives, refusals with their
  messages and a duplicate key among them, and leave the root page of the handle as it was. Insertion needs a leaf
  with room or one that can be split (its parent has room and its separator is exact), deletion a leaf
  that does not become empty below the root.\<close>

theorem record_operations_refine_a_map:
  assumes "schema_array_ok schema" and "holds_map schema t sh M" and "v1_only (scoped schema t)"
    and "op_fits schema op (scoped schema t) sh"
  shows "\<exists>res t' sh' M'. spec_record_step schema op M = (res, M') \<and> run_record_op (Suc fuel) schema op t = Some (Inr (res, t')) \<and>
    holds_map schema t' sh' M' \<and> t_root (tb_tree t') = t_root (tb_tree t)"
proof (cases op)
  case (Op_Insert vals)
  from insert_step [OF assms(1-3) assms(4) [unfolded Op_Insert]] show ?thesis unfolding Op_Insert
    by (cases "spec_record_step schema (Op_Insert vals) M") fastforce
next
  case (Op_Update i vals)
  from update_step [OF assms(1-3)] show ?thesis unfolding Op_Update
    by (cases "spec_record_step schema (Op_Update i vals) M") fastforce
next
  case (Op_Delete i)
  from delete_step [OF assms(2) assms(4) [unfolded Op_Delete]] show ?thesis unfolding Op_Delete
    by (cases "spec_record_step schema (Op_Delete i) M") fastforce
next
  case (Op_Find i)
  have few: "t_num_pages (tb_tree t) \<le> INVALID_PAGE_NUM" using assms(3) by (simp add: v1_only_def)
  show ?thesis unfolding Op_Find using find_step [OF assms(1,2) few] assms(2) by (auto split: sum.splits)
qed

end
