(* ===== verification/RecordReadSpec.thy ===== *)
theory RecordReadSpec
  imports RecordReads LeafCursor RecordCodec RecordRefinement
begin

text \<open>What the reads give on a well-formed table: the row with the key, and the rows of a range in ascending order.\<close>

section \<open>The specification\<close>

text \<open>The payload a reader makes of the value of a fixed V1 cell.\<close>

definition payload_of :: "table_schema \<Rightarrow> bytes \<Rightarrow> record_payload" where
  "payload_of schema stored =
     \<lparr>p_length = row_size schema, p_bytes = blit 0 (take (row_size schema) stored) (replicate RECORD_PAYLOAD_MAX 0)\<rparr>"

definition ordered_rows :: "tree \<Rightarrow> shape \<Rightarrow> (nat \<times> bytes) list" where
  "ordered_rows s sh = map (\<lambda>c. (cell_key c, drop 4 c)) (all_cells (t_pages s) (leaf_pages sh))"

definition range_of :: "nat \<Rightarrow> nat \<Rightarrow> (nat \<times> bytes) list \<Rightarrow> (nat \<times> bytes) list" where
  "range_of min_id max_id rs = filter (\<lambda>(k, b). min_id \<le> k \<and> k \<le> max_id) rs"

text \<open>Handing a list of items to a visitor, up to the one it stops at: their number and the visitor's state.\<close>

fun visit :: "('a \<Rightarrow> 'v \<Rightarrow> bool \<times> 'v) \<Rightarrow> 'a list \<Rightarrow> 'v \<Rightarrow> nat \<times> 'v" where
  "visit visitor [] v = (0, v)"
| "visit visitor (x # xs) v =
     (case visitor x v of (go_on, v1) \<Rightarrow> if go_on then (case visit visitor xs v1 of (n, v2) \<Rightarrow> (Suc n, v2)) else (1, v1))"

lemma ordered_rows_sorted:
  assumes "table_ok s sh"
  shows "sorted_wrt (<) (map fst (ordered_rows s sh))"
proof -
  have "well_formed (t_pages s) UNIV sh" using assms by (simp add: table_ok_def tree_ok_def)
  from all_cells_sorted [OF this] show ?thesis by (simp add: ordered_rows_def comp_def)
qed

lemma ordered_rows_keys: "map fst (ordered_rows s sh) = table_keys s sh"
  by (simp add: ordered_rows_def table_keys_def comp_def)

lemma ordered_rows_set: "set (ordered_rows s sh) = table_rows s sh"
  by (simp add: ordered_rows_def table_rows_def all_cells_rows)

lemma length_ordered_rows: "length (ordered_rows s sh) = length (all_cells (t_pages s) (leaf_pages sh))"
  by (simp add: ordered_rows_def)

section \<open>Reading at a position\<close>

lemma read_row_at:
  assumes T: "table_ok s sh" and few: "t_num_pages s \<le> INVALID_PAGE_NUM" and i: "i < length (ordered_rows s sh)" and at: "cursor_at s sh i c"
    and w: "0 < row_size schema" "row_size schema \<le> 293"
  shows "\<not> c_end c" "read_cursor_key s c = Some (fst (ordered_rows s sh ! i))"
    "cursor_to_payload schema s c = Some (payload_of schema (snd (ordered_rows s sh ! i)))"
    "\<exists>c'. leaf_read_advance_checked s c = (True, c') \<and> cursor_at s sh (Suc i) c'"
proof -
  let ?p = "t_pages s (c_page c)"
  have at: "at_position (t_pages s) (leaf_pages sh) i c" using at i by (simp add: cursor_at_def length_ordered_rows)
  then obtain as bs where ns: "leaf_pages sh = as @ c_page c # bs" and c: "c_cell c < leaf_node_num_cells ?p"
    and ia: "i = length (all_cells (t_pages s) as) + c_cell c" and e: "\<not> c_end c" by (auto simp: at_position_def)
  have m: "c_page c \<in> set (leaf_pages sh)" using ns by simp
  note L = table_leaves [OF T few m]
  have ok: "leaf_ok ?p" using T m well_formed_leaf_ok by (auto simp: table_ok_def tree_ok_def)
  have row: "ordered_rows s sh ! i = (cell_key (leaf_cells ?p ! c_cell c), drop 4 (leaf_cells ?p ! c_cell c))"
    using ns c ia by (simp add: ordered_rows_def nth_append)
  note A = page_access(2,3) [of ?p "c_cell c"]
  have v1: "detect_page ?p = PAGE_FORMAT_FIXED_V1" "detect_page ?p \<noteq> PAGE_FORMAT_UNKNOWN" using L by simp_all
  have len: "length (drop 4 (leaf_cells ?p ! c_cell c)) = 293" using ok c by (simp add: leaf_ok_def)
  have big: "293 \<le> RECORD_PAYLOAD_MAX" by (simp add: RECORD_PAYLOAD_MAX_def MAX_COLUMNS_PER_TABLE_def RECORD_TEXT_MAX_def)
  show "\<not> c_end c" by (rule e)
  show "read_cursor_key s c = Some (fst (ordered_rows s sh ! i))"
    using L A v1 c by (simp add: read_cursor_key_def Let_def row page_rows_def)
  have "page_value_at ?p (c_cell c) = Some (snd (ordered_rows s sh ! i))"
    using A v1 c by (simp add: row page_rows_def)
  then show "cursor_to_payload schema s c = Some (payload_of schema (snd (ordered_rows s sh ! i)))"
    using L w len big v1 by (simp add: cursor_to_payload_def Let_def raw_value_to_payload_def payload_of_def row)
  show "\<exists>c'. leaf_read_advance_checked s c = (True, c') \<and> cursor_at s sh (Suc i) c'"
    using read_advance_at [OF T few at] by (auto simp: cursor_at_def)
qed

section \<open>Scans\<close>

lemma range_scan_loop_spec:
  assumes T: "table_ok s sh" and few: "t_num_pages s \<le> INVALID_PAGE_NUM" and w: "0 < row_size schema" "row_size schema \<le> 293"
    and i: "i \<le> length (ordered_rows s sh)" and at: "cursor_at s sh i c"
    and low: "\<And>j. i \<le> j \<Longrightarrow> j < length (ordered_rows s sh) \<Longrightarrow> min_id \<le> fst (ordered_rows s sh ! j)"
  shows "range_scan_loop schema min_id max_id visitor s c count v =
    (case visit visitor (map (payload_of schema \<circ> snd) (range_of min_id max_id (drop i (ordered_rows s sh)))) v of
      (n, v') \<Rightarrow> Some (count + n, Inr (), v'))"
  using i at low
proof (induction "length (ordered_rows s sh) - i" arbitrary: i c count v)
  case 0
  then have "i = length (ordered_rows s sh)" by simp
  moreover from this 0 have "c_end c" by (simp add: cursor_at_def length_ordered_rows)
  ultimately show ?case by (subst range_scan_loop.simps) (simp add: range_of_def)
next
  case (Suc d)
  let ?rs = "ordered_rows s sh"
  have i: "i < length ?rs" using Suc(2) by simp
  obtain k b where kb: "?rs ! i = (k, b)" by (cases "?rs ! i")
  note R = read_row_at [OF T few i Suc.prems(2) w, unfolded kb fst_conv snd_conv]
  from R(4) obtain c' where c': "leaf_read_advance_checked s c = (True, c')" "cursor_at s sh (Suc i) c'" by blast
  have low: "min_id \<le> k" using Suc.prems(3) [OF order_refl i] kb by simp
  have dr: "drop i ?rs = (k, b) # drop (Suc i) ?rs" using Cons_nth_drop_Suc [OF i] kb by simp
  have IH: "range_scan_loop schema min_id max_id visitor s c' count v =
      (case visit visitor (map (payload_of schema \<circ> snd) (range_of min_id max_id (drop (Suc i) ?rs))) v of
        (n, v') \<Rightarrow> Some (count + n, Inr (), v'))" for count v
    by (rule Suc(1)) (use Suc.prems(3) i Suc(2) c'(2) in auto)
  show ?case
  proof (cases "max_id < k")
    case True
    have "x > max_id" if "(x, y) \<in> set (drop i ?rs)" for x y
    proof -
      have "sorted_wrt (<) (map fst (drop i ?rs))" using ordered_rows_sorted [OF T] by (simp add: drop_map [symmetric] sorted_wrt_drop)
      then have "x = k \<or> k < x" using that unfolding dr by force
      then show ?thesis using True by auto
    qed
    then have "range_of min_id max_id (drop i ?rs) = []" unfolding range_of_def filter_empty_conv by fastforce
    then show ?thesis using R True by (subst range_scan_loop.simps) simp
  next
    case False
    then show ?thesis
      unfolding dr using low R(1-3) c'(1) IH
      by (subst range_scan_loop.simps) (auto simp: range_of_def split: prod.splits)
  qed
qed

lemma payload_scan_loop_spec:
  assumes T: "table_ok s sh" and few: "t_num_pages s \<le> INVALID_PAGE_NUM" and w: "0 < row_size schema" "row_size schema \<le> 293"
    and i: "i \<le> length (ordered_rows s sh)" and at: "cursor_at s sh i c"
  shows "payload_scan_loop schema visitor s c count v =
    (case visit visitor (map (payload_of schema \<circ> snd) (drop i (ordered_rows s sh))) v of (n, v') \<Rightarrow> Some (count + n, Inr (), v'))"
  using i at
proof (induction "length (ordered_rows s sh) - i" arbitrary: i c count v)
  case 0
  then have "i = length (ordered_rows s sh)" by simp
  moreover from this 0 have "c_end c" by (simp add: cursor_at_def length_ordered_rows)
  ultimately show ?case by (subst payload_scan_loop.simps) simp
next
  case (Suc d)
  let ?rs = "ordered_rows s sh"
  have i: "i < length ?rs" using Suc(2) by simp
  note R = read_row_at [OF T few i Suc.prems(2) w]
  from R(4) obtain c' where c': "leaf_read_advance_checked s c = (True, c')" "cursor_at s sh (Suc i) c'" by blast
  have dr: "drop i ?rs = ?rs ! i # drop (Suc i) ?rs" using Cons_nth_drop_Suc [OF i] by simp
  have IH: "payload_scan_loop schema visitor s c' count v =
      (case visit visitor (map (payload_of schema \<circ> snd) (drop (Suc i) ?rs)) v of (n, v') \<Rightarrow> Some (count + n, Inr (), v'))" for count v
    by (rule Suc(1)) (use i Suc(2) c'(2) in auto)
  show ?case
    unfolding dr using R(1,3) c'(1) IH by (subst payload_scan_loop.simps) (auto split: prod.splits)
qed

lemma root_scope_same: "t_root s = schema_root schema \<Longrightarrow> root_scope schema s = s"
  by (simp add: root_scope_def)

lemma range_scan_table:
  assumes T: "table_ok (root_scope schema s) sh" and few: "t_num_pages s \<le> INVALID_PAGE_NUM"
    and schema: "payload_schema_supported schema = Inr ()" "row_size schema \<le> ROW_SIZE"
  shows "payload_scan_range schema min_id max_id visitor v s =
    (case visit visitor (map (payload_of schema \<circ> snd) (range_of min_id max_id (ordered_rows (root_scope schema s) sh))) v of
      (n, v') \<Rightarrow> Some (n, Inr (), v'))"
proof (cases "min_id > max_id")
  case True
  then have "range_of min_id max_id (ordered_rows (root_scope schema s) sh) = []"
    unfolding range_of_def filter_empty_conv by fastforce
  then show ?thesis using True schema by (simp add: payload_scan_range_def)
next
  case False
  let ?s = "root_scope schema s"
  let ?rs = "ordered_rows ?s sh" let ?ks = "table_keys ?s sh"
  let ?r = "length (filter (\<lambda>x. x < min_id) ?ks)"
  have few': "t_num_pages ?s \<le> INVALID_PAGE_NUM" using few by (simp add: root_scope_def)
  have w: "0 < row_size schema" "row_size schema \<le> 293"
    using schema by (auto simp: payload_schema_supported_def split: if_splits)
  obtain c where c: "leaf_read_find ?s min_id = Some c" "cursor_at ?s sh ?r c"
    using leaf_read_find_table [OF T few'] by blast
  have s: "sorted_wrt (<) ?ks" using ordered_rows_sorted [OF T] by (simp add: ordered_rows_keys)
  have split: "filter (\<lambda>x. x < min_id) ?ks = take ?r ?ks" "filter (\<lambda>x. \<not> x < min_id) ?ks = drop ?r ?ks"
  proof -
    have "filter (\<lambda>x. x < min_id) ks @ filter (\<lambda>x. \<not> x < min_id) ks = ks" if "sorted_wrt (<) ks" for ks :: "nat list"
      using that
    proof (induction ks)
      case (Cons k ks)
      have "filter (\<lambda>x. x < min_id) ks = []" if "\<not> k < min_id" using that Cons.prems by (fastforce simp: filter_empty_conv)
      then show ?case using Cons by (cases "k < min_id") auto
    qed simp
    from this [OF s] have e: "?ks = filter (\<lambda>x. x < min_id) ?ks @ filter (\<lambda>x. \<not> x < min_id) ?ks" by simp
    from arg_cong [OF e, of "take ?r"] arg_cong [OF e, of "drop ?r"]
    show "filter (\<lambda>x. x < min_id) ?ks = take ?r ?ks" "filter (\<lambda>x. \<not> x < min_id) ?ks = drop ?r ?ks" by simp_all
  qed
  have len: "length ?ks = length ?rs" by (simp flip: ordered_rows_keys)
  have low: "min_id \<le> fst (?rs ! j)" if "?r \<le> j" "j < length ?rs" for j
  proof -
    have "?ks ! j \<in> set (drop ?r ?ks)" using that len by (auto simp: in_set_conv_nth intro!: exI [of _ "j - ?r"])
    then have "\<not> ?ks ! j < min_id" unfolding split(2) [symmetric] by simp
    then show ?thesis using that len by (simp flip: ordered_rows_keys)
  qed
  have none: "range_of min_id max_id (take ?r ?rs) = []"
  proof -
    have "fst x < min_id" if "x \<in> set (take ?r ?rs)" for x
    proof -
      have "fst x \<in> set (take ?r ?ks)" using that by (simp add: take_map flip: ordered_rows_keys)
      then show ?thesis unfolding split(1) [symmetric] by simp
    qed
    then have "\<not> (case x of (k, b) \<Rightarrow> min_id \<le> k \<and> k \<le> max_id)" if "x \<in> set (take ?r ?rs)" for x
      using that by (cases x) (force simp only: fst_conv prod.case not_le [symmetric])
    then show ?thesis unfolding range_of_def by (intro filter_False ballI)
  qed
  have rest: "range_of min_id max_id (drop ?r ?rs) = range_of min_id max_id ?rs"
  proof -
    have "range_of min_id max_id ?rs = range_of min_id max_id (take ?r ?rs @ drop ?r ?rs)" by (simp only: append_take_drop_id)
    also have "\<dots> = range_of min_id max_id (take ?r ?rs) @ range_of min_id max_id (drop ?r ?rs)" by (simp only: range_of_def filter_append)
    finally show ?thesis using none by simp
  qed
  have le: "?r \<le> length ?rs" using length_filter_le [of "\<lambda>x. x < min_id" ?ks] len by simp
  have L: "range_scan_loop schema min_id max_id visitor ?s c 0 v =
      (case visit visitor (map (payload_of schema \<circ> snd) (range_of min_id max_id ?rs)) v of (n, v') \<Rightarrow> Some (0 + n, Inr (), v'))"
    unfolding rest [symmetric] by (rule range_scan_loop_spec [OF T few' w le c(2) low])
  have "payload_scan_range schema min_id max_id visitor v s = map_option finish_scan (range_scan_loop schema min_id max_id visitor ?s c 0 v)"
    using False schema(1) c(1) by (simp add: payload_scan_range_def Let_def)
  then show ?thesis unfolding L by (simp add: finish_scan_def split: prod.split)
qed

text \<open>The search over leaves of both formats and the search of the base agree on tables of fixed V1 leaves.\<close>

lemma count_below_nth:
  fixes ks :: "nat list"
  assumes "sorted_wrt (<) ks" "r = length (filter (\<lambda>x. x < k) ks)"
  shows "k \<in> set ks \<longleftrightarrow> r < length ks \<and> ks ! r = k"
  using assms
proof (induction ks arbitrary: r)
  case (Cons x xs)
  show ?case
  proof (cases "x < k")
    case True
    then show ?thesis using Cons.IH [OF _ refl] Cons.prems by auto
  next
    case False
    then have "filter (\<lambda>x. x < k) (x # xs) = []" using Cons.prems(1) by (fastforce simp: filter_empty_conv)
    then have "r = 0" using Cons.prems(2) by (simp only: list.size)
    then show ?thesis using False Cons.prems(1) by auto
  qed
qed simp

text \<open>The cursor of the search is at the row of the key, or the key is not in the table.\<close>

lemma search_row:
  assumes T: "table_ok s sh" and few: "t_num_pages s \<le> INVALID_PAGE_NUM" and w: "0 < row_size schema" "row_size schema \<le> 293"
  shows "(if cursor_key_equals s (leaf_read_find s k) k then Option.bind (leaf_read_find s k) (cursor_to_payload schema s) else None) =
    map_option (payload_of schema) (map_of (ordered_rows s sh) k)"
proof -
  let ?rs = "ordered_rows s sh" let ?ks = "table_keys s sh" let ?r = "length (filter (\<lambda>x. x < k) ?ks)"
  obtain c where c: "leaf_read_find s k = Some c" "cursor_at s sh ?r c"
    "c_end c \<Longrightarrow> page_key_at (t_pages s (c_page c)) (c_cell c) = None"
    using leaf_read_find_table [OF T few] by blast
  have s: "sorted_wrt (<) (map fst ?rs)" by (rule ordered_rows_sorted [OF T])
  have len: "length ?ks = length ?rs" by (simp flip: ordered_rows_keys)
  have key: "k \<in> set ?ks \<longleftrightarrow> ?r < length ?rs \<and> fst (?rs ! ?r) = k"
    using count_below_nth [OF s refl, of k] by (simp add: ordered_rows_keys [symmetric] cong: conj_cong)
  show ?thesis
  proof (cases "?r < length ?rs")
    case False
    then have "c_end c" using c(2) by (simp add: cursor_at_def length_ordered_rows)
    then have "\<not> cursor_key_equals s (Some c) k" using c(3) by (simp add: cursor_key_equals_def read_cursor_key_def Let_def)
    moreover have "map_of ?rs k = None" using key False by (simp add: map_of_eq_None_iff flip: ordered_rows_keys)
    ultimately show ?thesis using c(1) by simp
  next
    case True
    note R = read_row_at [OF T few True c(2) w]
    have k: "cursor_key_equals s (Some c) k \<longleftrightarrow> fst (?rs ! ?r) = k" using R(2) by (simp add: cursor_key_equals_def)
    show ?thesis
    proof (cases "fst (?rs ! ?r) = k")
      case False
      then have "map_of ?rs k = None" using key by (simp add: map_of_eq_None_iff flip: ordered_rows_keys)
      then show ?thesis using k False c(1) by simp
    next
      case at: True
      have "distinct (map fst ?rs)" using s unfolding strict_sorted_iff by blast
      then have "map_of ?rs k = Some (snd (?rs ! ?r))" using at True by (metis map_of_eq_Some_iff nth_mem prod.collapse)
      then show ?thesis using k at c(1) R(3) by simp
    qed
  qed
qed

text \<open>On a well-formed table of fixed V1 leaves the search over leaves of both formats finds a row when the search of
  the base does and gives the same record, although it takes its path through cursors that check every page; and
  the base leaves the table as it was.\<close>

theorem both_searches_agree:
  assumes "schema_array_ok schema" and "table_ok (root_scope schema (tb_tree t)) sh" and "t_num_pages (tb_tree t) \<le> INVALID_PAGE_NUM"
  shows "record_find schema i t = Some (Inr (record_read_find schema i (tb_tree t), t))"
proof (cases "schema_supports_records schema")
  case (Inl e)
  then show ?thesis by (simp add: record_find_def record_read_find_def)
next
  case (Inr u)
  then have ok: "schema_supports_records schema = Inr ()" by simp
  let ?s = "root_scope schema (tb_tree t)" let ?M = "map_of (ordered_rows ?s sh)" let ?c = "leaf_read_find ?s i"
  have w: "0 < row_size schema" "row_size schema \<le> 293" using ok by (auto simp: schema_supports_records_def split: if_splits)
  have few: "t_num_pages ?s \<le> INVALID_PAGE_NUM" using assms(3) by (simp add: root_scope_def)
  have "distinct (map fst (ordered_rows ?s sh))" using ordered_rows_sorted [OF assms(2)] unfolding strict_sorted_iff by blast
  then have "Map.graph ?M = table_rows ?s sh" by (simp add: graph_map_of_if_distinct_dom ordered_rows_set)
  then have "holds_map schema t sh ?M" using assms(2) by (simp add: holds_map_def root_scope_def)
  from find_step [OF assms(1) this assms(3), of i]
  have base: "record_find schema i t = Some (Inr (map_option (\<lambda>b. padded (take (row_size schema) b)) (?M i), t))" using ok by simp
  have big: "293 \<le> RECORD_PAYLOAD_MAX" by (simp add: RECORD_PAYLOAD_MAX_def MAX_COLUMNS_PER_TABLE_def RECORD_TEXT_MAX_def)
  have pr: "payload_to_record schema (payload_of schema b) = Inr (padded (take (row_size schema) b))" if "(i, b) \<in> table_rows ?s sh" for b
  proof -
    have "length b = 293"
    proof -
      from that obtain n where n: "n \<in> set (leaf_pages sh)" "(i, b) \<in> leaf_rows (t_pages ?s n)" by (auto simp: table_rows_def rows_def)
      then have "leaf_ok (t_pages ?s n)" using assms(2) well_formed_leaf_ok by (auto simp: table_ok_def tree_ok_def)
      then show ?thesis using n(2) by (auto simp: leaf_rows_def in_set_conv_nth leaf_ok_def)
    qed
    then show ?thesis using ok w big
      by (simp add: payload_to_record_def validate_legacy_schema_def payload_of_def blit_def padded_def min_def)
  qed
  have S: "(if cursor_key_equals ?s ?c i then Option.bind ?c (cursor_to_payload schema ?s) else None) = map_option (payload_of schema) (?M i)"
    by (rule search_row [OF assms(2) few w])
  have "record_read_find schema i (tb_tree t) = Option.bind (if cursor_key_equals ?s ?c i then Option.bind ?c (cursor_to_payload schema ?s) else None)
      (\<lambda>p. case payload_to_record schema p of Inl _ \<Rightarrow> None | Inr record \<Rightarrow> Some record)"
    using ok by (cases ?c) (auto simp: record_read_find_def Let_def read_cursor_to_record_def split: option.splits)
  also have "\<dots> = map_option (\<lambda>b. padded (take (row_size schema) b)) (?M i)"
  proof (cases "?M i")
    case (Some b)
    then have "(i, b) \<in> table_rows ?s sh" using map_of_SomeD ordered_rows_set by metis
    then show ?thesis unfolding S using Some pr by simp
  qed (simp add: S)
  finally show ?thesis using base by simp
qed

end
