(* ===== verification/RowEnvelopeRead.thy ===== *)
theory RowEnvelopeRead
  imports RowEnvelope
begin

text \<open>Reading a compact envelope, and the round trip of a row through codec, envelope and a schema that has grown.\<close>

section \<open>What the writer produces\<close>

lemma column_in_row:
  assumes "contiguous cs" "row_fits cs vals" "i < length cs"
  shows "column_ok (cs ! i)" "value_fits (cs ! i) (vals ! i)" "col_offset (cs ! i) = width (take i cs)"
    "col_offset (cs ! i) + col_size (cs ! i) \<le> width cs"
    "slice (col_offset (cs ! i)) (col_size (cs ! i)) (row_image cs vals @ rest) = field_image (cs ! i) (vals ! i)"
  using assms column_inside [of i cs] slice_row_image [OF assms(2,3), of rest] list_all2_nthD [OF assms(2,3)]
  by (simp_all add: contiguous_def)

lemma slice_stored_field:
  assumes "column_ok c" "value_fits c v" "slice off (col_size c) buffer = field_image c v"
  shows "slice off (length (stored_field c v)) buffer = stored_field c v"
proof -
  note F = field_image_stored [OF assms(1,2)]
  have "slice off (length (stored_field c v)) buffer = take (length (stored_field c v)) (slice off (col_size c) buffer)"
    using F(2) by (simp add: slice_def min_def)
  also have "\<dots> = stored_field c v" unfolding assms(3) F(1) by simp
  finally show ?thesis .
qed

lemma encode_compact_v2_image:
  assumes "encode_compact_v2 schema p capacity = Some stored" "schema_array_ok schema" "contiguous (cols schema)"
    and "width (cols schema) = row_size schema" "row_fits (cols schema) vals" "\<forall>v \<in> set vals. c_string (v_text v)"
    and "p_bytes p = row_image (cols schema) vals @ rest"
  shows "stored = envelope_header (row_size schema) (schema_fingerprint schema) (num_columns schema) @
      directory (24 + 8 * num_columns schema) (stored_lengths (cols schema) vals) @ stored_body (cols schema) vals"
    "length stored < 2 ^ 16" "0 < num_columns schema" "num_columns schema \<le> 16" "0 < row_size schema"
proof -
  let ?cs = "cols schema" and ?n = "num_columns schema" and ?lens = "stored_lengths (cols schema) vals"
  have len: "length ?cs = ?n" "length vals = ?n" using assms(2) list_all2_lengthD [OF assms(5)] by simp_all
  note C = column_in_row [OF assms(3,5)]
  obtain full lengths where a: "0 < ?n" "?n \<le> MAX_COLUMNS_PER_TABLE" "p_length p \<noteq> 0" "p_length p = row_size schema"
    "for_each (measure_column schema p) [0..<?n] (24 + ?n * 8, []) = Inr (full, lengths)" "full \<le> 2 ^ 16 - 1"
    using assms(1)
    by (auto simp: encode_compact_v2_def Let_def ENVELOPE_V2_HEADER_SIZE_def ENVELOPE_V2_DIRECTORY_ENTRY_SIZE_def
        split: if_splits sum.splits prod.splits)
  have col: "v2_column_length (columns schema ! i) p = Some (length (stored_field (?cs ! i) (vals ! i)))" if i: "i < ?n" for i
    using v2_column_length_stored [of "?cs ! i" "vals ! i" p] C [of i] assms(4,6,7) a(4) i len by simp
  have M: "lengths = ?lens" "full = 24 + ?n * 8 + sum_list ?lens"
    using measure_loop [OF a(5), of ?cs vals] col len by simp_all
  let ?h = "envelope_header (row_size schema) (schema_fingerprint schema) ?n"
  have "fold (write_column schema p ?lens) [0..<?n] (24 + 8 * ?n, ?h @ replicate (8 * ?n + sum_list ?lens) 0) =
      (24 + 8 * ?n + sum_list ?lens, ?h @ directory (24 + 8 * ?n) ?lens @ stored_body ?cs vals)"
  proof (rule write_loop)
    fix i assume i: "i < ?n"
    show "slice (col_offset (?cs ! i)) (length (stored_field (?cs ! i) (vals ! i))) (p_bytes p) = stored_field (?cs ! i) (vals ! i)"
      using slice_stored_field C [of i] i len assms(7) by simp
  qed (simp_all add: len)
  moreover have "24 \<le> full" "full - 24 = 8 * ?n + sum_list ?lens" using M(2) by simp_all
  ultimately show "stored = ?h @ directory (24 + 8 * ?n) ?lens @ stored_body ?cs vals"
    using assms(1) a(1-5) M header_written [of full ?n "schema_fingerprint schema" "row_size schema"]
    by (simp add: encode_compact_v2_def Let_def ENVELOPE_V2_HEADER_SIZE_def ENVELOPE_V2_DIRECTORY_ENTRY_SIZE_def mult.commute split: if_splits)
  then have "length stored = full" using M(2) len by simp
  then show "length stored < 2 ^ 16" using a(6) by simp
  show "0 < ?n" "?n \<le> 16" "0 < row_size schema" using a(1-4) by (simp_all add: MAX_COLUMNS_PER_TABLE_def)
qed

section \<open>Reading\<close>

lemma read_u16_prefix: "length bs = 2 \<Longrightarrow> read_u16_le (bs @ rest) = read_u16_le bs"
  by (simp add: read_u16_le_def nth_append)

lemma read_u32_prefix: "length bs = 4 \<Longrightarrow> read_u32_le (bs @ rest) = read_u32_le bs"
  by (simp add: read_u32_le_def nth_append)

lemma read_u64_prefix: "length bs = 8 \<Longrightarrow> read_u64_le (bs @ rest) = read_u64_le bs"
  by (simp add: read_u64_le_def nth_append upt_rec)

lemma get_u32_prefix: "n < 2 ^ 32 \<Longrightarrow> get_u32 (put_u32 n @ rest) = n"
  using n32.dec_enc [of n] by (simp add: get_u32_def read_u32_prefix)

lemma header_fields:
  assumes "stored = envelope_header l fp n @ rest" "l < 2 ^ 32" "n < 2 ^ 16"
  shows "read_u32_le (drop ENVELOPE_MAGIC_OFFSET stored) = ENVELOPE_MAGIC"
    "read_u16_le (drop ENVELOPE_VERSION_OFFSET stored) = ENVELOPE_VERSION_COMPACT_V2"
    "read_u16_le (drop ENVELOPE_HEADER_SIZE_OFFSET stored) = of_nat ENVELOPE_V2_HEADER_SIZE"
    "get_u32 (drop ENVELOPE_LOGICAL_LENGTH_OFFSET stored) = l"
    "read_u64_le (drop ENVELOPE_SCHEMA_FINGERPRINT_OFFSET stored) = fp"
    "unat (read_u16_le (drop ENVELOPE_V2_FIELD_COUNT_OFFSET stored)) = n"
    "read_u16_le (drop ENVELOPE_V2_DIRECTORY_ENTRY_SIZE_OFFSET stored) = of_nat ENVELOPE_V2_DIRECTORY_ENTRY_SIZE"
proof -
  have "unat (of_nat n :: u16) = n" using assms(3) by (simp add: unat_of_nat take_bit_nat_eq_self)
  then show "read_u32_le (drop ENVELOPE_MAGIC_OFFSET stored) = ENVELOPE_MAGIC"
    "read_u16_le (drop ENVELOPE_VERSION_OFFSET stored) = ENVELOPE_VERSION_COMPACT_V2"
    "read_u16_le (drop ENVELOPE_HEADER_SIZE_OFFSET stored) = of_nat ENVELOPE_V2_HEADER_SIZE"
    "get_u32 (drop ENVELOPE_LOGICAL_LENGTH_OFFSET stored) = l"
    "read_u64_le (drop ENVELOPE_SCHEMA_FINGERPRINT_OFFSET stored) = fp"
    "unat (read_u16_le (drop ENVELOPE_V2_FIELD_COUNT_OFFSET stored)) = n"
    "read_u16_le (drop ENVELOPE_V2_DIRECTORY_ENTRY_SIZE_OFFSET stored) = of_nat ENVELOPE_V2_DIRECTORY_ENTRY_SIZE"
    using assms(2) unfolding assms(1) envelope_header_def
    by (simp_all add: ENVELOPE_MAGIC_OFFSET_def ENVELOPE_VERSION_OFFSET_def ENVELOPE_HEADER_SIZE_OFFSET_def
        ENVELOPE_LOGICAL_LENGTH_OFFSET_def ENVELOPE_SCHEMA_FINGERPRINT_OFFSET_def ENVELOPE_V2_FIELD_COUNT_OFFSET_def
        ENVELOPE_V2_DIRECTORY_ENTRY_SIZE_OFFSET_def read_u16_prefix read_u32_prefix read_u64_prefix get_u32_prefix
        read_write_u16_le read_write_u32_le read_write_u64_le)
qed

text \<open>A schema that has got columns appended.\<close>

definition extends :: "table_schema \<Rightarrow> table_schema \<Rightarrow> bool" where
  "extends schema schema' \<longleftrightarrow> schema_name schema' = schema_name schema \<and> num_columns schema \<le> num_columns schema' \<and>
     cols schema = take (num_columns schema) (cols schema')"

lemma extends_columns:
  assumes "extends schema schema'" "i < num_columns schema"
  shows "columns schema' ! i = columns schema ! i"
proof -
  have "cols schema ! i = cols schema' ! i" using assms by (simp add: extends_def)
  then show ?thesis using assms by (simp add: extends_def)
qed

lemma fingerprint_prefix:
  assumes "extends schema schema'"
  shows "schema_fingerprint (schema'\<lparr>num_columns := num_columns schema, row_size := row_size schema\<rparr>) = schema_fingerprint schema"
  using assms extends_columns [OF assms] unfolding schema_fingerprint_def
  by (auto simp: extends_def intro!: fold_cong)

lemma prefix_loop:
  assumes "contiguous cs" "\<And>i. i < n \<Longrightarrow> columns schema ! i = cs ! i" "n \<le> length cs" "width cs < 2 ^ 32"
  shows "for_each (prefix_step schema) [0..<n] 0 = Inr (width (take n cs))"
  using assms(2,3)
proof (induction n)
  case (Suc n)
  then have n: "n < length cs" "columns schema ! n = cs ! n" by simp_all
  have "col_offset (cs ! n) = width (take n cs)" "0 < col_size (cs ! n)"
    using assms(1) n(1) by (auto simp: contiguous_def column_ok_def)
  moreover have "width (take n cs) + col_size (cs ! n) < 2 ^ 32" using column_inside [OF n(1)] assms(4) by simp
  ultimately show ?case using Suc n width_take_Suc [OF n(1)] by (simp add: for_each_append prefix_step_def Let_def)
qed simp

lemma stored_field_read:
  assumes "column_ok c" "value_fits c v" "c_string (v_text v)"
  shows "\<not> (case col_type c of
            COL_TYPE_INT \<Rightarrow> col_size c \<noteq> 4 \<or> length (stored_field c v) \<noteq> 4
          | COL_TYPE_VARCHAR \<Rightarrow> length (stored_field c v) > col_size c \<or> (xs @ stored_field c v @ ys) ! (length xs + length (stored_field c v) - 1) \<noteq> 0 \<or>
              (length (stored_field c v) > 1 \<and> 0 \<in> set (slice (length xs) (length (stored_field c v) - 1) (xs @ stored_field c v @ ys)))
          | COL_TYPE_OTHER _ \<Rightarrow> True)"
  using assms by (auto simp: column_ok_def value_fits_def stored_field_def slice_def nth_append c_string_def)

lemma read_loop:
  assumes "contiguous cs" "row_fits cs vals" "\<forall>v \<in> set vals. c_string (v_text v)" "n = length cs"
    and "\<And>i. i < n \<Longrightarrow> columns schema ! i = cs ! i" "width cs \<le> row_size schema" "width cs \<le> cap"
    and "stored = h @ directory (24 + 8 * n) (stored_lengths cs vals) @ stored_body cs vals" "length h = 24" "length stored < 2 ^ 32"
  shows "for_each (read_column schema stored) [0..<n] (24 + n * 8, replicate cap 0) =
    Inr (length stored, row_image cs vals @ replicate (cap - width cs) 0)"
proof -
  have lv: "length vals = length cs" using list_all2_lengthD [OF assms(2)] by simp
  let ?lens = "stored_lengths cs vals" and ?f = "\<lambda>i. stored_field (cs ! i) (vals ! i)"
  let ?s = "\<lambda>i. sum_list (stored_lengths (take i cs) (take i vals))"
  have total: "length stored = 24 + n * 8 + sum_list ?lens" using assms(4,8,9) lv by simp
  have "m \<le> n \<Longrightarrow> for_each (read_column schema stored) [0..<m] (24 + n * 8, replicate cap 0) =
      Inr (24 + n * 8 + ?s m, row_image (take m cs) (take m vals) @ replicate (cap - width (take m cs)) 0)" for m
  proof (induction m)
    case 0
    then show ?case by (simp add: stored_lengths_def)
  next
    case (Suc m)
    then have m: "m < n" "m < length cs" using assms(4) by simp_all
    note C = column_in_row [OF assms(1,2) m(2)]
    have cs: "c_string (v_text (vals ! m))" using assms(3) m lv by simp
    note F = field_image_stored [OF C(1,2)]
    have sum: "sum_list ?lens = ?s m + length (?f m) + sum_list (stored_lengths (drop (Suc m) cs) (drop (Suc m) vals))"
      using arg_cong [OF stored_body_split [OF m(2) lv], of length] by (simp only: length_append length_stored_body)
    obtain rest where e: "drop (8 * m) (directory (24 + 8 * n) ?lens @ stored_body cs vals) =
        put_u32 (24 + 8 * n + sum_list (take m ?lens)) @ put_u32 (?lens ! m) @ rest"
      using directory_entry [of m ?lens "24 + 8 * n" "stored_body cs vals"] m lv by auto
    have entry: "drop (24 + m * 8) stored = put_u32 (24 + n * 8 + ?s m) @ put_u32 (length (?f m)) @ rest"
      using e m lv assms(9) by (simp add: assms(8) take_stored_lengths mult.commute)
    have small: "24 + n * 8 + ?s m < 2 ^ 32" "length (?f m) < 2 ^ 32" using total sum assms(10) by simp_all
    let ?x = "h @ directory (24 + 8 * n) ?lens @ stored_body (take m cs) (take m vals)"
      and ?y = "stored_body (drop (Suc m) cs) (drop (Suc m) vals)"
    have st: "stored = ?x @ ?f m @ ?y" using assms(8) stored_body_split [OF m(2) lv] by simp
    have lx: "length ?x = 24 + n * 8 + ?s m" using assms(4,9) lv by simp
    have sl: "slice (24 + n * 8 + ?s m) (length (?f m)) stored = ?f m"
      unfolding st lx [symmetric] by (simp add: slice_def)
    have ok: "\<not> (case col_type (cs ! m) of
            COL_TYPE_INT \<Rightarrow> col_size (cs ! m) \<noteq> 4 \<or> length (?f m) \<noteq> 4
          | COL_TYPE_VARCHAR \<Rightarrow> length (?f m) > col_size (cs ! m) \<or> stored ! (24 + n * 8 + ?s m + length (?f m) - 1) \<noteq> 0 \<or>
              (length (?f m) > 1 \<and> 0 \<in> set (slice (24 + n * 8 + ?s m) (length (?f m) - 1) stored))
          | COL_TYPE_OTHER _ \<Rightarrow> True)"
      using stored_field_read [OF C(1,2) cs, of ?x ?y] unfolding st [symmetric] lx .
    have inside: "24 + n * 8 + ?s m \<le> length stored" "length (?f m) \<le> length stored - (24 + n * 8 + ?s m)" using total sum by simp_all
    have room: "col_offset (cs ! m) \<le> row_size schema" "col_size (cs ! m) \<le> row_size schema - col_offset (cs ! m)"
      using C(4) assms(6) by simp_all
    let ?r = "row_image (take m cs) (take m vals)"
    have lr: "length ?r = width (take m cs)"
      by (rule length_row_image) (use assms(2) in \<open>simp add: list_all2_takeI\<close>)
    have "blit (col_offset (cs ! m)) (?f m) (?r @ replicate (cap - width (take m cs)) 0) =
        (?r @ ?f m) @ replicate (cap - width (take m cs) - length (?f m)) 0"
      by (rule blit_next) (use lr C(3,4) F(2) assms(7) in simp_all)
    also have "\<dots> = row_image (take (Suc m) cs) (take (Suc m) vals) @ replicate (cap - width (take (Suc m) cs)) 0"
    proof -
      have "row_image (take (Suc m) cs) (take (Suc m) vals) = ?r @ field_image (cs ! m) (vals ! m)"
        using m lv by (simp add: take_Suc_conv_app_nth row_image_append)
      moreover have "cap - width (take m cs) - length (?f m) = (col_size (cs ! m) - length (?f m)) + (cap - width (take (Suc m) cs))"
        using C(3,4) F(2) assms(7) width_take_Suc [OF m(2)] by simp
      ultimately show ?thesis using F(1) by (simp add: replicate_add)
    qed
    finally have buf: "blit (col_offset (cs ! m)) (?f m) (?r @ replicate (cap - width (take m cs)) 0) =
        row_image (take (Suc m) cs) (take (Suc m) vals) @ replicate (cap - width (take (Suc m) cs)) 0" .
    have "read_column schema stored m (24 + n * 8 + ?s m, ?r @ replicate (cap - width (take m cs)) 0) =
        Inr (24 + n * 8 + ?s m + length (?f m), row_image (take (Suc m) cs) (take (Suc m) vals) @ replicate (cap - width (take (Suc m) cs)) 0)"
    proof -
      have o: "get_u32 (drop (24 + m * 8) stored) = 24 + n * 8 + ?s m" "get_u32 (drop 4 (drop (24 + m * 8) stored)) = length (?f m)"
        unfolding entry using small by (simp_all add: get_u32_prefix)
      show ?thesis
        unfolding read_column_def Let_def split ENVELOPE_V2_HEADER_SIZE_def ENVELOPE_V2_DIRECTORY_ENTRY_SIZE_def o assms(5) [OF m(1)]
        using ok inside room sl buf F(3) by simp
    qed
    moreover have "?s (Suc m) = ?s m + length (?f m)" using stored_snoc(2) [OF m(2) lv] by simp
    ultimately show ?case using Suc m by (simp add: for_each_append add.assoc)
  qed
  from this [of n] show ?thesis using assms(4) lv total by simp
qed

section \<open>Reading with a longer schema\<close>

text \<open>What a reader finds in a column the row was written without.\<close>

definition default_value :: "table_column \<Rightarrow> tval" where
  "default_value c = \<lparr>v_type = col_type c, v_int = 0, v_text = []\<rparr>"

lemma default_image: "column_ok c \<Longrightarrow> field_image c (default_value c) = replicate (col_size c) 0"
proof -
  assume c: "column_ok c"
  have z: "put_u32 0 = replicate 4 0" by (simp add: put_u32_def write_u32_le_def numeral_eq_Suc)
  show ?thesis
  proof (cases "col_type c = COL_TYPE_INT")
    case True
    then show ?thesis using c z by (simp add: field_image_def default_value_def column_ok_def)
  next
    case False
    then show ?thesis using c by (cases "col_size c") (simp_all add: field_image_def default_value_def column_ok_def)
  qed
qed

lemma default_fits: "column_ok c \<Longrightarrow> value_fits c (default_value c)"
  by (auto simp: value_fits_def default_value_def column_ok_def)

lemma default_row:
  assumes "\<forall>c \<in> set cs. column_ok c"
  shows "row_fits cs (map default_value cs)" "row_image cs (map default_value cs) = replicate (width cs) 0"
  using assms by (induction cs) (simp_all add: default_image default_fits replicate_add)

lemma default_tval_ok: "tval_ok (default_value c)" "clean (default_value c) = default_value c"
  by (simp_all add: tval_ok_def default_value_def c_string_def clean_def)

lemma contiguous_columns: "contiguous cs \<Longrightarrow> \<forall>c \<in> set cs. column_ok c"
  by (auto simp: contiguous_def in_set_conv_nth)

lemma contiguous_take: "contiguous cs \<Longrightarrow> contiguous (take n cs)"
  by (simp add: contiguous_def)

lemma envelope_decode_grown:
  assumes "encode_compact_v2 schema p capacity = Some stored" "schema_array_ok schema"
    and "width (cols schema) = row_size schema" "row_fits (cols schema) vals" "\<forall>v \<in> set vals. c_string (v_text v)"
    and "p_bytes p = row_image (cols schema) vals @ rest"
    and "extends schema schema'" "schema_array_ok schema'" "payload_schema_supported schema' = Inr ()"
  shows "envelope_decode schema' stored = Some \<lparr>p_length = row_size schema',
    p_bytes = row_image (cols schema) vals @ replicate (RECORD_PAYLOAD_MAX - row_size schema) 0\<rparr>"
proof -
  let ?n = "num_columns schema"
  note S' = payload_schema_supportedD [OF assms(9,8)]
  have cs: "cols schema = take ?n (cols schema')" using assms(7) by (simp add: extends_def)
  have cont: "contiguous (cols schema)" using contiguous_take [OF S'(1), of ?n] cs by simp
  note I = encode_compact_v2_image [OF assms(1,2) cont assms(3-6)]
  have len: "length (cols schema) = ?n" using assms(2) by simp
  have w: "width (cols schema) \<le> row_size schema'" using width_take_le [of ?n "cols schema'"] cs S'(2) by simp
  have cap: "row_size schema' \<le> RECORD_PAYLOAD_MAX" "RECORD_PAYLOAD_MAX < 2 ^ 32"
    using S'(3) by (simp_all add: RECORD_PAYLOAD_MAX_def MAX_COLUMNS_PER_TABLE_def RECORD_TEXT_MAX_def)
  have col: "columns schema' ! i = cols schema ! i" if "i < ?n" for i using extends_columns [OF assms(7) that] that by simp
  have small: "row_size schema < 2 ^ 32" "?n < 2 ^ 16" using w cap assms(3) I(4) by simp_all
  note H = header_fields [OF I(1) small]
  have long: "length stored \<ge> 24 + ?n * 8" unfolding I(1) using len list_all2_lengthD [OF assms(4)] by simp
  have pre: "prefix_schema schema' ?n (row_size schema) = Some (schema'\<lparr>num_columns := ?n, row_size := row_size schema\<rparr>)"
    using prefix_loop [OF cont, of ?n schema'] col len assms(3,7) small I(3) by (simp add: prefix_schema_def extends_def)
  have loop: "for_each (read_column schema' stored) [0..<?n] (24 + ?n * 8, replicate RECORD_PAYLOAD_MAX 0) =
      Inr (length stored, row_image (cols schema) vals @ replicate (RECORD_PAYLOAD_MAX - width (cols schema)) 0)"
    by (rule read_loop [OF cont assms(4,5) _ _ w _ I(1)]) (use len col w cap I(2) in simp_all)
  have "?n \<le> num_columns schema'" using assms(7) by (simp add: extends_def)
  then have "decode_compact_v2 schema' stored = Some \<lparr>p_length = row_size schema',
      p_bytes = row_image (cols schema) vals @ replicate (RECORD_PAYLOAD_MAX - row_size schema) 0\<rparr>"
    using H(3-7) long pre loop fingerprint_prefix [OF assms(7)] I(3,5) w assms(3)
    by (simp add: decode_compact_v2_def Let_def ENVELOPE_V2_HEADER_SIZE_def ENVELOPE_V2_DIRECTORY_ENTRY_SIZE_def)
  then show ?thesis
    using H(1,2) long by (simp add: envelope_decode_def Let_def ENVELOPE_HEADER_SIZE_def ENVELOPE_VERSION_def ENVELOPE_VERSION_COMPACT_V2_def)
qed

section \<open>The properties\<close>

text \<open>C10. A row that the V1 record codec accepts is read back value by value, only the member of a value that its column
  does not use comes back as zero.\<close>

theorem record_roundtrip:
  assumes "record_encode schema vals = Inr record" and "schema_array_ok schema" and "\<forall>v \<in> set vals. tval_ok v"
    and "num_columns schema \<le> capacity"
  shows "record_decode schema record capacity = Inr (map clean vals)"
  by (rule record_codec [OF assms])

text \<open>C11. A row that was encoded, put into a compact V2 envelope and stored is read back value by value, also when its
  table has got columns appended in between, which then read as 0 or the empty text.\<close>

theorem stored_row_survives_new_columns:
  assumes "payload_encode_values schema vals = Inr p" and "encode_compact_v2 schema p capacity = Some stored"
    and "schema_array_ok schema" and "\<forall>v \<in> set vals. tval_ok v"
    and "extends schema schema'" and "schema_array_ok schema'" and "payload_schema_supported schema' = Inr ()"
  shows "\<exists>p'. envelope_decode schema' stored = Some p' \<and>
    payload_decode_values schema' p' (num_columns schema') =
      Inr (map clean vals @ map default_value (drop (num_columns schema) (cols schema')))"
proof -
  note P = payload_encode_image [OF assms(1,3)]
  note S = payload_schema_supportedD [OF P(1) assms(3)]
  note S' = payload_schema_supportedD [OF assms(7,6)]
  define new where "new = drop (num_columns schema) (cols schema')"
  have cs: "cols schema' = cols schema @ new" using assms(5) unfolding new_def extends_def by (metis append_take_drop_id)
  have str: "\<forall>v \<in> set vals. c_string (v_text v)" using assms(4) by (auto simp: tval_ok_def)
  let ?p = "\<lparr>p_length = row_size schema', p_bytes = row_image (cols schema) vals @ replicate (RECORD_PAYLOAD_MAX - row_size schema) 0\<rparr>"
  have dec: "envelope_decode schema' stored = Some ?p"
    by (rule envelope_decode_grown [OF assms(2,3) S(2) P(2) str P(3) assms(5-7)])
  have newok: "\<forall>c \<in> set new. column_ok c" using contiguous_columns [OF S'(1)] by (simp add: cs)
  note D = default_row [OF newok]
  have lv: "length (cols schema) = length vals" by (rule list_all2_lengthD [OF P(2)])
  have wn: "width new \<le> RECORD_PAYLOAD_MAX - row_size schema"
    using arg_cong [OF cs, of width] S(2) S'(2,3) by simp
  have img: "p_bytes ?p = row_image (cols schema') (vals @ map default_value new) @
      replicate (RECORD_PAYLOAD_MAX - row_size schema - width new) 0"
  proof -
    have "row_image (cols schema') (vals @ map default_value new) = row_image (cols schema) vals @ replicate (width new) 0"
      using row_image_append [OF lv, of new "map default_value new"] D(2) cs by simp
    moreover have "replicate (RECORD_PAYLOAD_MAX - row_size schema) (0 :: u8) =
        replicate (width new) 0 @ replicate (RECORD_PAYLOAD_MAX - row_size schema - width new) 0"
      using wn by (simp flip: replicate_add)
    ultimately show ?thesis by simp
  qed
  have fits: "row_fits (cols schema') (vals @ map default_value new)"
    unfolding cs using P(2) D(1) by (rule list_all2_appendI)
  have "payload_decode_values schema' ?p (num_columns schema') = Inr (map clean (vals @ map default_value new))"
    by (rule payload_decode_image [OF assms(7,6) _ fits _ img]) (use assms(4) default_tval_ok in auto)
  then show ?thesis using dec default_tval_ok by (simp add: comp_def new_def)
qed

end
