(* ===== verification/RecordDemo.thy ===== *)
theory RecordDemo
  imports RowEnvelopeRead SqlWhere
begin

text \<open>The codecs on a table of people, before and after it gets a column \<open>age INT\<close>.\<close>

section \<open>A row that fits is stored\<close>

lemma measure_loop_total:
  assumes "n \<le> length cs" "length vals = length cs" "b + sum_list (stored_lengths cs vals) < 2 ^ 16"
    and "\<And>i. i < n \<Longrightarrow> v2_column_length (columns schema ! i) p = Some (length (stored_field (cs ! i) (vals ! i)))"
  shows "for_each (measure_column schema p) [0..<n] (b, []) =
    Inr (b + sum_list (stored_lengths (take n cs) (take n vals)), stored_lengths (take n cs) (take n vals))"
  using assms(1,4)
proof (induction n)
  case 0
  then show ?case by (simp add: stored_lengths_def)
next
  case (Suc n)
  then have n: "n < length cs" by simp
  have "sum_list (stored_lengths cs vals) = sum_list (stored_lengths (take n cs) (take n vals)) + length (stored_field (cs ! n) (vals ! n)) +
      sum_list (stored_lengths (drop (Suc n) cs) (drop (Suc n) vals))"
    using arg_cong [OF stored_body_split [OF n assms(2)], of length] by (simp only: length_append length_stored_body)
  then have "b + sum_list (stored_lengths (take n cs) (take n vals)) + length (stored_field (cs ! n) (vals ! n)) < 2 ^ 16"
    using assms(3) by simp
  then show ?case
    using Suc stored_snoc(2) [OF n assms(2)] by (simp add: for_each_append measure_column_def Let_def add.assoc)
qed

lemma encode_compact_v2_total:
  assumes "schema_array_ok schema" "contiguous (cols schema)" "width (cols schema) = row_size schema" "row_fits (cols schema) vals"
    and "\<forall>v \<in> set vals. c_string (v_text v)" "p_bytes p = row_image (cols schema) vals @ rest" "p_length p = row_size schema"
    and "0 < num_columns schema" "num_columns schema \<le> MAX_COLUMNS_PER_TABLE" "0 < row_size schema"
    and "24 + num_columns schema * 8 + sum_list (stored_lengths (cols schema) vals) \<le> capacity" "capacity < 2 ^ 16"
  shows "\<exists>stored. encode_compact_v2 schema p capacity = Some stored"
proof -
  let ?cs = "cols schema" and ?n = "num_columns schema" and ?lens = "stored_lengths (cols schema) vals"
  have len: "length ?cs = ?n" "length vals = ?n" using assms(1) list_all2_lengthD [OF assms(4)] by simp_all
  note C = column_in_row [OF assms(2,4)]
  have col: "v2_column_length (columns schema ! i) p = Some (length (stored_field (?cs ! i) (vals ! i)))" if i: "i < ?n" for i
    using v2_column_length_stored [of "?cs ! i" "vals ! i" p] C [of i] assms(3,5-7) i len by simp
  have M: "for_each (measure_column schema p) [0..<?n] (24 + ?n * 8, []) = Inr (24 + ?n * 8 + sum_list ?lens, ?lens)"
    using measure_loop_total [of ?n ?cs vals "24 + ?n * 8" schema p] col len assms(11,12) by simp
  let ?h = "envelope_header (row_size schema) (schema_fingerprint schema) ?n"
  have W: "fold (write_column schema p ?lens) [0..<?n] (24 + 8 * ?n, ?h @ replicate (8 * ?n + sum_list ?lens) 0) =
      (24 + 8 * ?n + sum_list ?lens, ?h @ directory (24 + 8 * ?n) ?lens @ stored_body ?cs vals)"
  proof (rule write_loop)
    fix i assume i: "i < ?n"
    show "slice (col_offset (?cs ! i)) (length (stored_field (?cs ! i) (vals ! i))) (p_bytes p) = stored_field (?cs ! i) (vals ! i)"
      using slice_stored_field C [of i] i len assms(6) by simp
  qed (simp_all add: len)
  show ?thesis
    using assms(7-12) M W header_written [of "24 + ?n * 8 + sum_list ?lens" ?n "schema_fingerprint schema" "row_size schema"]
    by (simp add: encode_compact_v2_def Let_def ENVELOPE_V2_HEADER_SIZE_def ENVELOPE_V2_DIRECTORY_ENTRY_SIZE_def mult.commute)
qed

lemma encode_total:
  assumes "schema_array_ok schema" "row_fits (cols schema) vals"
  shows "schema_supports_records schema = Inr () \<Longrightarrow> \<exists>b. record_encode schema vals = Inr b"
    "payload_schema_supported schema = Inr () \<Longrightarrow> \<exists>p. payload_encode_values schema vals = Inr p"
proof -
  have l: "length vals = num_columns schema" using list_all2_lengthD [OF assms(2)] assms(1) by simp
  have f: "\<forall>i < num_columns schema. value_fits (columns schema ! i) (vals ! i)"
    using list_all2_nthD [OF assms(2)] assms(1) by (metis length_cols nth_cols)
  obtain b where "for_each (encode_column ''record value type does not match column schema'' schema vals)
      [0..<num_columns schema] (replicate ROW_SIZE 0) = Inr b" using encode_loop_total [OF f] by blast
  with l show "schema_supports_records schema = Inr () \<Longrightarrow> \<exists>b. record_encode schema vals = Inr b" by (simp add: record_encode_def)
  obtain b where "for_each (encode_column ''record value type does not match payload column schema'' schema vals)
      [0..<num_columns schema] (replicate RECORD_PAYLOAD_MAX 0) = Inr b" using encode_loop_total [OF f] by blast
  with l show "payload_schema_supported schema = Inr () \<Longrightarrow> \<exists>p. payload_encode_values schema vals = Inr p"
    by (simp add: payload_encode_values_def)
qed

section \<open>The example\<close>

definition people_with_age :: table_schema where
  "people_with_age = people\<lparr>num_columns := 3, row_size := 29,
     columns := (columns people)[2 := \<lparr>col_name = ascii ''age'', col_type = COL_TYPE_INT, col_size = 4, col_offset = 25\<rparr>]\<rparr>"

definition ada :: "tval list" where
  "ada = [int_value 7, text_value ''ada'']"

lemma people_cols:
  "cols people = [\<lparr>col_name = ascii ''id'', col_type = COL_TYPE_INT, col_size = 4, col_offset = 0\<rparr>,
     \<lparr>col_name = ascii ''name'', col_type = COL_TYPE_VARCHAR, col_size = 21, col_offset = 4\<rparr>]"
  "cols people_with_age = cols people @ [\<lparr>col_name = ascii ''age'', col_type = COL_TYPE_INT, col_size = 4, col_offset = 25\<rparr>]"
  by (simp_all add: cols_def people_def people_with_age_def take_Cons' numeral_eq_Suc)

lemma people_ok: "schema_array_ok people" "schema_array_ok people_with_age" "extends people people_with_age"
  using people_cols
  by (simp_all add: schema_array_ok_def people_def people_with_age_def extends_def MAX_COLUMNS_PER_TABLE_def)

lemma people_supported:
  "payload_schema_supported people = Inr ()" "schema_supports_records people = Inr ()" "payload_schema_supported people_with_age = Inr ()"
proof -
  have r: "[0..<2] = [0, 1 :: nat]" "[0..<3] = [0, 1, 2 :: nat]" by (simp_all add: upt_rec)
  have n: "num_columns people_with_age = 3" "row_size people_with_age = 29" "row_size people = 25"
    "columns people_with_age ! 0 = columns people ! 0" "columns people_with_age ! 1 = columns people ! 1"
    "columns people_with_age ! 2 = \<lparr>col_name = ascii ''age'', col_type = COL_TYPE_INT, col_size = 4, col_offset = 25\<rparr>"
    by (simp_all add: people_with_age_def people_def)
  show "payload_schema_supported people = Inr ()" "schema_supports_records people = Inr ()" "payload_schema_supported people_with_age = Inr ()"
    using people_columns n
    by (simp_all add: payload_schema_supported_def schema_supports_records_def payload_column_check_def record_column_check_def r
        MAX_COLUMNS_PER_TABLE_def RECORD_PAYLOAD_MAX_def RECORD_TEXT_MAX_def ROW_SIZE_def ID_SIZE_def USERNAME_SIZE_def EMAIL_SIZE_def ci_equal_iff)
qed

lemma ada_fits: "row_fits (cols people) ada" "length ada = num_columns people" "\<forall>v \<in> set ada. tval_ok v"
  using people_columns
  by (simp_all add: people_cols ada_def column_ok_def value_fits_def int_value_def text_value_def tval_ok_def c_string_def ascii_def RECORD_TEXT_MAX_def)

lemma ada_encoded:
  obtains p where "payload_encode_values people ada = Inr p" "p_bytes p = row_image (cols people) ada @ replicate (RECORD_PAYLOAD_MAX - 25) 0"
    "p_length p = 25"
proof -
  obtain p where p: "payload_encode_values people ada = Inr p"
    using encode_total(2) [OF people_ok(1) ada_fits(1) people_supported(1)] by blast
  have "row_size people = 25" by (simp add: people_def)
  with payload_encode_image(3,4) [OF p people_ok(1)] show thesis using p by (intro that) simp_all
qed

lemma ada_stored:
  assumes "p_bytes p = row_image (cols people) ada @ rest" "p_length p = 25"
  obtains stored where "encode_compact_v2 people p 100 = Some stored"
proof -
  have n: "num_columns people = 2" "row_size people = 25" by (simp_all add: people_def)
  have S: "contiguous (cols people)" "width (cols people) = row_size people"
    using payload_schema_supportedD [OF people_supported(1) people_ok(1)] by simp_all
  have "sum_list (stored_lengths (cols people) ada) = 8"
    by (simp add: people_cols ada_def stored_lengths_def stored_field_def int_value_def text_value_def ascii_def)
  then have "\<exists>stored. encode_compact_v2 people p 100 = Some stored"
    using encode_compact_v2_total [OF people_ok(1) S ada_fits(1) _ assms(1)] assms(2) n ada_fits(3)
    by (auto simp: tval_ok_def MAX_COLUMNS_PER_TABLE_def)
  then show thesis using that by blast
qed

theorem stored_row_survives_new_columns_witness:
  "\<exists>p stored p'. payload_encode_values people ada = Inr p \<and> encode_compact_v2 people p 100 = Some stored \<and>
    envelope_decode people_with_age stored = Some p' \<and>
    payload_decode_values people_with_age p' 3 = Inr [int_value 7, text_value ''ada'', int_value 0]"
proof -
  obtain p where p: "payload_encode_values people ada = Inr p" "p_bytes p = row_image (cols people) ada @ replicate (RECORD_PAYLOAD_MAX - 25) 0"
    "p_length p = 25" by (rule ada_encoded)
  obtain stored where s: "encode_compact_v2 people p 100 = Some stored" by (rule ada_stored [OF p(2,3)])
  have "num_columns people_with_age = 3" "num_columns people = 2" by (simp_all add: people_with_age_def people_def)
  with stored_row_survives_new_columns [OF p(1) s people_ok(1) ada_fits(3) people_ok(3,2) people_supported(3)] p(1) s show ?thesis
    by (simp add: people_cols ada_def clean_def int_value_def text_value_def default_value_def)
qed

theorem record_roundtrip_witness:
  "\<exists>b. record_encode people ada = Inr b \<and> record_decode people b 16 = Inr ada"
proof -
  obtain b where r: "record_encode people ada = Inr b"
    using encode_total(1) [OF people_ok(1) ada_fits(1) people_supported(2)] by blast
  have "num_columns people \<le> 16" by (simp add: people_def)
  from record_roundtrip [OF r people_ok(1) ada_fits(3) this] r show ?thesis
    by (simp add: ada_def clean_def int_value_def text_value_def)
qed

end
