(* ===== verification/RecordTableDemo.thy ===== *)
theory RecordTableDemo
  imports RecordRefinement RecordDemo BTreeProperties
begin

text \<open>The operations on rows tried on a root leaf of thirteen rows, and what the policy and the map say of it.\<close>

definition people_at_root :: table_schema where
  "people_at_root = people\<lparr>schema_root := 0\<rparr>"

definition root_handle :: table_handle where
  "root_handle = \<lparr>tb_tree = root_table, tb_in_transaction = False, tb_commits = 0\<rparr>"

definition root_map :: "nat \<Rightarrow> bytes option" where
  "root_map = map_of (map (\<lambda>c. (cell_key c, drop 4 c)) (leaf_cells (t_pages root_table 0)))"

lemma people_at_root:
  "schema_array_ok people_at_root" "schema_root people_at_root = 0" "cols people_at_root = cols people" "row_size people_at_root = 25"
  "mutation_target_supported people_at_root = Inr ()"
proof -
  show "schema_array_ok people_at_root" "schema_root people_at_root = 0" "cols people_at_root = cols people" "row_size people_at_root = 25"
    using people_ok(1) by (simp_all add: people_at_root_def schema_array_ok_def cols_def) (simp add: people_def)
  have "schema_supports_records people_at_root = Inr ()"
  proof -
    have "record_column_check people_at_root = record_column_check people"
      by (intro ext) (simp add: record_column_check_def people_at_root_def)
    then have "schema_supports_records people_at_root = schema_supports_records people"
      unfolding schema_supports_records_def by (simp only:) (simp add: people_at_root_def cong: if_cong)
    then show ?thesis using people_supported(2) by simp
  qed
  then show "mutation_target_supported people_at_root = Inr ()"
    by (simp add: mutation_target_supported_def ci_equal_iff people_at_root_def people_def ascii_def tolower_def isupper_def)
qed

lemma root_table_v1: "v1_only root_table"
proof -
  have "well_formed (t_pages root_table) UNIV (Leaf_At 0)" using root_table(1) by (simp add: table_ok_def tree_ok_def)
  then have "leaf_ok (t_pages root_table 0)" by (auto elim: well_formed.cases)
  then have "\<not> slotted_validate (t_pages root_table 0)" using leaf_ok_v1 detect_v2 by (metis leaf_page_format.distinct(5))
  then show ?thesis by (simp add: v1_only_def root_table_def INVALID_PAGE_NUM_def)
qed

lemma root_map: "Map.graph root_map = table_rows root_table (Leaf_At 0)" "7 \<notin> dom root_map"
proof -
  let ?cs = "leaf_cells (t_pages root_table 0)"
  have "map fst (map (\<lambda>c. (cell_key c, drop 4 c)) ?cs) = leaf_keys (t_pages root_table 0)" by (simp add: comp_def)
  then have f: "map fst (map (\<lambda>c. (cell_key c, drop 4 c)) ?cs) = [10, 20, 30, 40, 50, 60, 70, 80, 90, 100, 110, 120, 130]"
    unfolding root_table(3) .
  then have "distinct (map fst (map (\<lambda>c. (cell_key c, drop 4 c)) ?cs))" by (simp only:) simp
  from graph_map_of_if_distinct_dom [OF this] show "Map.graph root_map = table_rows root_table (Leaf_At 0)"
    by (simp add: root_map_def table_rows_def rows_def leaf_rows_def)
  have "dom root_map = set (map fst (map (\<lambda>c. (cell_key c, drop 4 c)) ?cs))" unfolding root_map_def dom_map_of_conv_image_fst by (simp only: set_map)
  then show "7 \<notin> dom root_map" unfolding f by simp
qed

theorem record_operations_refine_a_map_witness:
  "\<exists>b t' sh'. record_encode people_at_root ada = Inr b \<and>
    run_record_op 1 people_at_root (Op_Insert ada) root_handle = Some (Inr (Applied, t')) \<and>
    holds_map people_at_root t' sh' (root_map(7 \<mapsto> b))"
proof -
  have fits: "row_fits (cols people_at_root) ada" using ada_fits(1) people_at_root(3) by simp
  have ok: "schema_supports_records people_at_root = Inr ()" using mutation_target_supportedD [OF people_at_root(5)] .
  obtain b where b: "record_encode people_at_root ada = Inr b" using encode_total(1) [OF people_at_root(1) fits ok] by blast
  then have e: "encode_record people_at_root ada = Inr b" using people_at_root(5) by (simp add: encode_record_def)
  have k: "record_key b = 7"
    unfolding record_key_def using record_encode_image(3) [OF b people_at_root(1)]
    by (simp add: people_at_root(3) people_cols ada_def row_image_def field_image_def int_value_def slice_def n32.dec_enc)
  have sc: "scoped people_at_root root_handle = root_table" by (simp add: people_at_root(2) root_handle_def root_table_def)
  have H: "holds_map people_at_root root_handle (Leaf_At 0) root_map"
    using root_map(1) root_table(1) unfolding holds_map_def sc by blast
  have F: "op_fits people_at_root (Op_Insert ada) root_table (Leaf_At 0)"
    by (auto simp: splittable_def elim: leads_to_leafE)
  have S: "spec_record_step people_at_root (Op_Insert ada) root_map = (Applied, root_map(7 \<mapsto> b))"
    using root_map(2) by (simp add: e k)
  from record_operations_refine_a_map [OF people_at_root(1) H, of "Op_Insert ada" 0] root_table_v1 F S b show ?thesis
    unfolding sc by fastforce
qed

end
