(* ===== verification/RecordReadProperties.thy ===== *)
theory RecordReadProperties
  imports RecordReadSpec RecordTableDemo
begin

text \<open>The properties of the reads, tried on the root leaf with the keys 10, 20, ..., 130.\<close>

lemma root_scope_people: "root_scope people_at_root root_table = root_table"
  by (simp add: root_scope_def people_at_root(2) root_table_def)

lemma root_table_small: "t_num_pages root_table \<le> INVALID_PAGE_NUM"
  by (simp add: root_table_def INVALID_PAGE_NUM_def)

lemma people_at_root_payload: "payload_schema_supported people_at_root = Inr ()" "row_size people_at_root \<le> ROW_SIZE"
proof -
  have "payload_column_check people_at_root = payload_column_check people"
    by (intro ext) (simp add: payload_column_check_def people_at_root_def)
  then have "payload_schema_supported people_at_root = payload_schema_supported people"
    unfolding payload_schema_supported_def by (simp only:) (simp add: people_at_root_def cong: if_cong)
  then show "payload_schema_supported people_at_root = Inr ()" using people_supported(1) by simp
  show "row_size people_at_root \<le> ROW_SIZE" by (simp add: people_at_root(4) ROW_SIZE_def ID_SIZE_def)
qed

text \<open>C13. The scan of a range of keys ends on every well-formed table of fixed V1 leaves whose schema fits the fixed
  rows. It hands the rows with keys in the range, all of them and only those, in ascending order to the visitor
  until that stops, counts what it handed over and never reports damage.\<close>

theorem range_scan_visits_the_range:
  assumes "table_ok (root_scope schema s) sh" and "t_num_pages s \<le> INVALID_PAGE_NUM"
    and "payload_schema_supported schema = Inr ()" and "row_size schema \<le> ROW_SIZE"
  shows "sorted_wrt (<) (map fst (ordered_rows (root_scope schema s) sh)) \<and>
    set (ordered_rows (root_scope schema s) sh) = table_rows (root_scope schema s) sh \<and>
    payload_scan_range schema min_id max_id visitor v s =
     (case visit visitor (map (payload_of schema \<circ> snd) (range_of min_id max_id (ordered_rows (root_scope schema s) sh))) v of
        (n, v') \<Rightarrow> Some (n, Inr (), v'))"
  by (intro conjI ordered_rows_sorted [OF assms(1)] ordered_rows_set range_scan_table [OF assms])

lemma visit_counter: "visit (\<lambda>x n. (True, Suc n)) xs v = (length xs, v + length xs)"
  by (induction xs arbitrary: v) simp_all

theorem range_scan_visits_the_range_witness:
  "payload_scan_range people_at_root 25 60 (\<lambda>p n. (True, Suc n)) 0 root_table = Some (4, Inr (), 4)"
proof -
  let ?rs = "ordered_rows root_table (Leaf_At 0)"
  have k: "map fst ?rs = [10, 20, 30, 40, 50, 60, 70, 80, 90, 100, 110, 120, 130]"
    using root_table(3) [of 0] by (simp add: ordered_rows_def comp_def)
  have "length (range_of 25 60 ?rs) = length (filter (\<lambda>k. 25 \<le> k \<and> k \<le> 60) (map fst ?rs))"
    by (simp add: range_of_def filter_map comp_def case_prod_unfold)
  then have "length (range_of 25 60 ?rs) = 4" unfolding k by simp
  moreover have "table_ok (root_scope people_at_root root_table) (Leaf_At 0)" unfolding root_scope_people by (rule root_table(1))
  ultimately show ?thesis
    using range_scan_visits_the_range [OF _ root_table_small people_at_root_payload, of "Leaf_At 0" 25 60 "\<lambda>p n. (True, Suc n)" 0]
    unfolding root_scope_people visit_counter by simp
qed

theorem both_searches_agree_witness:
  "record_find people_at_root 65 root_handle = Some (Inr (record_read_find people_at_root 65 root_table, root_handle))"
proof -
  have e: "tb_tree root_handle = root_table" by (simp add: root_handle_def)
  show ?thesis
    using both_searches_agree [of people_at_root root_handle "Leaf_At 0" 65] people_at_root(1) root_table(1) root_table_small
    unfolding e root_scope_people by blast
qed

end
