(* ===== verification/StoredValues.thy ===== *)
theory StoredValues
  imports RecordReads RecordDemo
begin

text \<open>
  The values of V2 leaves: a reader takes a value whose length is the row size of the schema for an uncompressed
  row, whatever its bytes are, and every other value for an envelope. What decoders give has the types of the
  columns, whatever the bytes are.
\<close>

section \<open>Compact rows of the length of an uncompressed one\<close>

lemma compact_row_starts_with_magic:
  assumes "payload_encode_values schema vals = Inr p" "encode_compact_v2 schema p capacity = Some stored" "schema_array_ok schema"
    and "\<forall>v \<in> set vals. tval_ok v"
  shows "slice 0 4 stored = write_u32_le ENVELOPE_MAGIC" "24 \<le> length stored"
proof -
  have ok: "payload_schema_supported schema = Inr ()" using assms(1) by (auto simp: payload_encode_values_def)
  note S = payload_schema_supportedD [OF ok assms(3)]
  note P = payload_encode_image [OF assms(1,3)]
  have c: "\<forall>v \<in> set vals. c_string (v_text v)" using assms(4) by (simp add: tval_ok_def)
  note I = encode_compact_v2_image [OF assms(2,3) S(1,2) P(2) c P(3)]
  show "slice 0 4 stored = write_u32_le ENVELOPE_MAGIC" by (simp add: I(1) envelope_header_def slice_def)
  show "24 \<le> length stored" by (simp add: I(1))
qed

text \<open>C16. A compact row whose envelope happens to be as long as an uncompressed row of its schema is not decoded: on a V2
  leaf the reader gives the bytes of the envelope as the row, so that the primary key reads as the envelope's magic
  number, although the decoder of envelopes gives the row that was stored.\<close>

theorem compact_row_of_row_length_is_misread:
  assumes "payload_encode_values schema vals = Inr p" and "encode_compact_v2 schema p capacity = Some stored" and "schema_array_ok schema"
    and "\<forall>v \<in> set vals. tval_ok v" and "length stored = row_size schema"
  shows "\<exists>q. raw_value_to_payload schema stored PAGE_FORMAT_SLOTTED_V2 = Some q \<and> take (p_length q) (p_bytes q) = stored \<and>
    get_u32 (slice 0 4 (p_bytes q)) = unat ENVELOPE_MAGIC \<and>
    (\<exists>p'. envelope_decode schema stored = Some p' \<and> payload_decode_values schema p' (num_columns schema) = Inr (map clean vals))"
proof -
  have ok: "payload_schema_supported schema = Inr ()" using assms(1) by (auto simp: payload_encode_values_def)
  note S = payload_schema_supportedD [OF ok assms(3)] and M = compact_row_starts_with_magic [OF assms(1-4)]
  note P = payload_encode_image [OF assms(1,3)]
  have c: "\<forall>v \<in> set vals. c_string (v_text v)" using assms(4) by (simp add: tval_ok_def)
  have x: "extends schema schema" using assms(3) by (simp add: extends_def)
  note D = envelope_decode_grown [OF assms(2,3) S(2) P(2) c P(3) x assms(3) ok]
  have "\<exists>p'. envelope_decode schema stored = Some p' \<and> payload_decode_values schema p' (num_columns schema) = Inr (map clean vals)"
    using D payload_decode_image [OF ok assms(3,4) P(2) order_refl] by simp
  moreover have "slice 0 4 (blit 0 stored (replicate RECORD_PAYLOAD_MAX 0)) = slice 0 4 stored"
    using M(2) assms(5) S(3) by (simp add: blit_def slice_def)
  ultimately show ?thesis
    using assms(5) S(3) M by (simp add: raw_value_to_payload_def blit_def get_u32_def read_write_u32_le)
qed

definition memos :: table_schema where
  "memos = people\<lparr>row_size := 260,
     columns := (columns people)[1 := \<lparr>col_name = ascii ''name'', col_type = COL_TYPE_VARCHAR, col_size = 256, col_offset = 4\<rparr>]\<rparr>"

definition long_memo :: "tval list" where
  "long_memo = [int_value 7, text_value (replicate 215 CHR ''x'')]"

lemma memos:
  "schema_array_ok memos" "num_columns memos = 2" "row_size memos = 260"
  "cols memos = [\<lparr>col_name = ascii ''id'', col_type = COL_TYPE_INT, col_size = 4, col_offset = 0\<rparr>,
     \<lparr>col_name = ascii ''name'', col_type = COL_TYPE_VARCHAR, col_size = 256, col_offset = 4\<rparr>]"
  "payload_schema_supported memos = Inr ()"
proof -
  have r: "[0..<2] = [0, 1 :: nat]" by (simp add: upt_rec)
  show n: "num_columns memos = 2" "row_size memos = 260" by (simp_all add: memos_def people_def)
  have c: "columns memos ! 0 = \<lparr>col_name = ascii ''id'', col_type = COL_TYPE_INT, col_size = 4, col_offset = 0\<rparr>"
    "columns memos ! 1 = \<lparr>col_name = ascii ''name'', col_type = COL_TYPE_VARCHAR, col_size = 256, col_offset = 4\<rparr>"
    by (simp_all add: memos_def people_def)
  show "schema_array_ok memos" by (simp add: memos_def schema_array_ok_def people_def MAX_COLUMNS_PER_TABLE_def)
  show "cols memos = [\<lparr>col_name = ascii ''id'', col_type = COL_TYPE_INT, col_size = 4, col_offset = 0\<rparr>,
     \<lparr>col_name = ascii ''name'', col_type = COL_TYPE_VARCHAR, col_size = 256, col_offset = 4\<rparr>]"
    by (simp add: cols_def memos_def people_def take_Cons' numeral_eq_Suc)
  show "payload_schema_supported memos = Inr ()"
    using n c by (simp add: payload_schema_supported_def payload_column_check_def r MAX_COLUMNS_PER_TABLE_def RECORD_PAYLOAD_MAX_def
        RECORD_TEXT_MAX_def)
qed

lemma long_memo: "row_fits (cols memos) long_memo" "\<forall>v \<in> set long_memo. tval_ok v" "sum_list (stored_lengths (cols memos) long_memo) = 220"
  by (simp_all add: memos(4) long_memo_def column_ok_def value_fits_def int_value_def text_value_def tval_ok_def c_string_def ascii_def
      RECORD_TEXT_MAX_def stored_lengths_def stored_field_def)

theorem compact_row_of_row_length_is_misread_witness:
  "\<exists>p stored q. payload_encode_values memos long_memo = Inr p \<and> encode_compact_v2 memos p 1000 = Some stored \<and>
    raw_value_to_payload memos stored PAGE_FORMAT_SLOTTED_V2 = Some q \<and> get_u32 (slice 0 4 (p_bytes q)) = unat ENVELOPE_MAGIC"
proof -
  obtain p where p: "payload_encode_values memos long_memo = Inr p"
    using encode_total(2) [OF memos(1) long_memo(1) memos(5)] by blast
  note P = payload_encode_image [OF p memos(1)] and S = payload_schema_supportedD [OF memos(5,1)]
  have str: "\<forall>v \<in> set long_memo. c_string (v_text v)" using long_memo(2) by (auto simp: tval_ok_def)
  obtain stored where s: "encode_compact_v2 memos p 1000 = Some stored"
    using encode_compact_v2_total [OF memos(1) S(1,2) long_memo(1) str P(3,4), of 1000] memos(2,3) long_memo(3)
    by (auto simp: MAX_COLUMNS_PER_TABLE_def)
  note I = encode_compact_v2_image [OF s memos(1) S(1,2) P(2) str P(3)]
  have "length stored = row_size memos"
    using memos(2,3,4) long_memo(3) by (simp add: I(1)) (simp add: long_memo_def)
  from compact_row_of_row_length_is_misread [OF p s memos(1) long_memo(2) this] p s show ?thesis by blast
qed

section \<open>Types of decoded values\<close>

lemma appending_loop:
  assumes "for_each f [0..<n] [] = Inr vals" "\<And>i vs vs'. i < n \<Longrightarrow> f i vs = Inr vs' \<Longrightarrow> \<exists>v. vs' = vs @ [v] \<and> Q i v"
  shows "length vals = n \<and> (\<forall>i < n. Q i (vals ! i))"
  using assms
proof (induction n arbitrary: vals)
  case (Suc n)
  then obtain vs where vs: "for_each f [0..<n] [] = Inr vs" "f n vs = Inr vals" by (auto simp: for_each_append split: sum.splits)
  from Suc.IH [OF vs(1)] Suc.prems(2) have "length vs = n \<and> (\<forall>i < n. Q i (vs ! i))" by simp
  moreover obtain v where "vals = vs @ [v]" "Q n v" using Suc.prems(2) [OF _ vs(2)] by auto
  ultimately show ?case by (auto simp: nth_append less_Suc_eq)
qed simp

lemma field_text_text: "c_string (field_text c buffer)" "length (field_text c buffer) \<le> col_size c"
proof -
  show "c_string (field_text c buffer)" by (auto simp: field_text_def c_string_def dest: set_takeWhileD)
  have "length (field_text c buffer) \<le> length (slice (col_offset c) (col_size c) buffer)"
    unfolding field_text_def by (rule length_takeWhile_le)
  then show "length (field_text c buffer) \<le> col_size c" by (simp add: slice_def)
qed

lemma decoded_column:
  assumes "column_ok c" "c = columns schema ! i"
  shows "payload_decode_column schema buffer i vs = Inr vs' \<Longrightarrow> \<exists>v. vs' = vs @ [v] \<and> value_fits c v \<and> tval_ok v"
    "record_decode_column schema buffer i vs = Inr vs' \<Longrightarrow> \<exists>v. vs' = vs @ [v] \<and> value_fits c v \<and> tval_ok v"
proof -
  note F = field_text_text [of c buffer]
  have "c_string (take RECORD_TEXT_MAX (field_text c buffer))" using F(1) by (auto simp: c_string_def dest: in_set_takeD)
  moreover have "field_text c buffer \<noteq> [] \<or> 0 < col_size c" using assms(1) by (auto simp: column_ok_def)
  ultimately show "payload_decode_column schema buffer i vs = Inr vs' \<Longrightarrow> \<exists>v. vs' = vs @ [v] \<and> value_fits c v \<and> tval_ok v"
    "record_decode_column schema buffer i vs = Inr vs' \<Longrightarrow> \<exists>v. vs' = vs @ [v] \<and> value_fits c v \<and> tval_ok v"
    using F get_u32_less assms
    by (auto simp: payload_decode_column_def record_decode_column_def Let_def value_fits_def tval_ok_def c_string_def split: if_splits)
qed

text \<open>C15. Whatever the bytes are, the values a decoder gives are as many as the schema has columns, each of the type of its
  column, an integer of 32 bits or a text without NUL that fits its column and the value carrier: the row could be
  encoded again.\<close>

theorem decoded_values_have_column_types:
  assumes "payload_decode_values schema p capacity = Inr vals \<or> record_decode schema buffer capacity = Inr vals" and "schema_array_ok schema"
  shows "list_all2 (\<lambda>column v. v_type v = col_type column \<and> tval_ok v) (cols schema) vals \<and> row_fits (cols schema) vals"
proof -
  have c: "contiguous (cols schema)"
    using assms(1) payload_schema_supportedD(1) [OF _ assms(2)] schema_supports_recordsD(1) [OF _ assms(2)]
    by (auto simp: payload_decode_values_def record_decode_def)
  have ok: "column_ok (columns schema ! i)" if "i < num_columns schema" for i
    using c that assms(2) by (auto simp: contiguous_def)
  have "length vals = num_columns schema \<and> (\<forall>i < num_columns schema. value_fits (columns schema ! i) (vals ! i) \<and> tval_ok (vals ! i))"
    using assms(1)
  proof
    assume "payload_decode_values schema p capacity = Inr vals"
    then have "for_each (payload_decode_column schema (p_bytes p)) [0..<num_columns schema] [] = Inr vals"
      by (auto simp: payload_decode_values_def split: if_splits)
    then show ?thesis by (rule appending_loop) (use decoded_column(1) [OF ok refl] in blast)
  next
    assume "record_decode schema buffer capacity = Inr vals"
    then have "for_each (record_decode_column schema buffer) [0..<num_columns schema] [] = Inr vals"
      by (auto simp: record_decode_def split: if_splits)
    then show ?thesis by (rule appending_loop) (use decoded_column(2) [OF ok refl] in blast)
  qed
  then show ?thesis
    using ok assms(2) by (auto simp: list_all2_conv_all_nth value_fits_def)
qed

theorem decoded_values_have_column_types_witness:
  "\<exists>b. record_encode people ada = Inr b \<and> record_decode people b 16 = Inr ada \<and> list_all2 (\<lambda>column v. v_type v = col_type column \<and> tval_ok v) (cols people) ada"
proof -
  obtain b where b: "record_encode people ada = Inr b"
    using encode_total(1) [OF people_ok(1) ada_fits(1) people_supported(2)] by blast
  have "record_decode people b 16 = Inr (map clean ada)"
    by (rule record_codec [OF b people_ok(1) ada_fits(3)]) (simp add: people_def)
  then have "record_decode people b 16 = Inr ada" by (simp add: ada_def clean_def int_value_def text_value_def)
  with decoded_values_have_column_types [of people _ 16 ada b] people_ok(1) b show ?thesis by blast
qed

end
