(* ===== verification/StagedNodes.thy ===== *)
theory StagedNodes
  imports BTreeInternal LeafPages
begin

text \<open>
  Changes of internal nodes on copies of pages, after \<open>src/slotted_leaf_v2_parent_stage.h\<close>,
  \<open>src/slotted_v2_parent_max_stage.h\<close> and \<open>src/internal_child_remove_stage.h\<close>. A stage works on a scratch
  copy and copies its usable part back when all its checks hold; \<open>None\<close> is the return of false, after which
  the page of the caller is as before. A pointer to a page and its capacity are one list of bytes.
\<close>

section \<open>Reading a node\<close>

definition parent_stage_cell :: "nat \<Rightarrow> nat" where
  "parent_stage_cell index = INTERNAL_NODE_HEADER_SIZE + index * INTERNAL_NODE_CELL_SIZE"

definition stage_child_at :: "bytes \<Rightarrow> nat \<Rightarrow> nat" where
  "stage_child_at page index =
     (if index = rd32 INTERNAL_NODE_NUM_KEYS_OFFSET page then rd32 INTERNAL_NODE_RIGHT_CHILD_OFFSET page
      else rd32 (parent_stage_cell index) page)"

definition stage_key_at :: "bytes \<Rightarrow> nat \<Rightarrow> nat" where
  "stage_key_at page index = rd32 (parent_stage_cell index + INTERNAL_NODE_CHILD_SIZE) page"

fun validate_cells :: "bytes \<Rightarrow> nat list \<Rightarrow> nat \<Rightarrow> bool" where
  "validate_cells page [] previous_key = True"
| "validate_cells page (i # is) previous_key =
     (let child = stage_child_at page i; key = stage_key_at page i
      in if child = 0 \<or> (i > 0 \<and> key \<le> previous_key) then False
         else if list_ex (\<lambda>j. child = stage_child_at page j) [0..<i] then False
         else validate_cells page is key)"

definition parent_stage_validate :: "bytes \<Rightarrow> bool" where
  "parent_stage_validate page =
     (if length page < PAGE_SIZE \<or> page ! NODE_TYPE_OFFSET \<noteq> NODE_INTERNAL then False
      else
        let num_keys = rd32 INTERNAL_NODE_NUM_KEYS_OFFSET page
        in if num_keys = 0 \<or> num_keys > INTERNAL_NODE_MAX_KEYS then False
           else if \<not> validate_cells page [0..<num_keys] 0 then False
           else
             let right_child = stage_child_at page num_keys
             in if right_child = 0 then False
                else \<not> list_ex (\<lambda>i. right_child = stage_child_at page i) [0..<num_keys])"

text \<open>The loop that looks for a child and refuses a second one and, when a split is staged, the page that is to
  become a new child.\<close>

fun locate_child :: "bytes \<Rightarrow> nat option \<Rightarrow> nat \<Rightarrow> nat \<Rightarrow> nat list \<Rightarrow> nat \<Rightarrow> nat option" where
  "locate_child page avoid wanted unset [] index = Some index"
| "locate_child page avoid wanted unset (i # is) index =
     (let child = stage_child_at page i
      in if avoid = Some child then None
         else if child = wanted then
           (if index \<noteq> unset then None else locate_child page avoid wanted unset is i)
         else locate_child page avoid wanted unset is index)"

section \<open>A child splits\<close>

text \<open>The scratch copy before its validation.\<close>

definition split_parent_bytes :: "bytes \<Rightarrow> nat \<Rightarrow> nat \<Rightarrow> nat \<Rightarrow> nat \<Rightarrow> nat \<Rightarrow> bytes" where
  "split_parent_bytes original left_index left_page_num right_page_num new_left_max new_right_max =
     (let num_keys = rd32 INTERNAL_NODE_NUM_KEYS_OFFSET original;
          scratch = slice 0 PAGE_SIZE original;
          scratch1 =
            (if left_index = num_keys then
               wr32 INTERNAL_NODE_RIGHT_CHILD_OFFSET right_page_num
                 (wr32 (parent_stage_cell num_keys + INTERNAL_NODE_CHILD_SIZE) new_left_max
                   (wr32 (parent_stage_cell num_keys) left_page_num scratch))
             else
               let moved = fold (\<lambda>i page. blit (parent_stage_cell i) (slice (parent_stage_cell (i - 1)) INTERNAL_NODE_CELL_SIZE page) page)
                     (rev [left_index + 2..<num_keys + 1]) scratch;
                   keyed = wr32 (parent_stage_cell left_index + INTERNAL_NODE_CHILD_SIZE) new_left_max moved
               in wr32 (parent_stage_cell (left_index + 1) + INTERNAL_NODE_CHILD_SIZE) new_right_max
                    (wr32 (parent_stage_cell (left_index + 1)) right_page_num keyed))
      in wr32 INTERNAL_NODE_NUM_KEYS_OFFSET (num_keys + 1) scratch1)"

definition stage_parent_split :: "bytes \<Rightarrow> nat \<Rightarrow> nat \<Rightarrow> nat \<Rightarrow> nat \<Rightarrow> nat \<Rightarrow> (bytes \<times> nat) option" where
  "stage_parent_split parent_page left_page_num right_page_num old_left_max new_left_max new_right_max =
     (if length parent_page < PAGE_SIZE \<or> left_page_num = 0 \<or> right_page_num = 0 \<or> left_page_num = right_page_num \<or>
         new_left_max \<ge> new_right_max \<or> \<not> parent_stage_validate parent_page then None
      else
        let num_keys = rd32 INTERNAL_NODE_NUM_KEYS_OFFSET parent_page
        in if num_keys \<ge> INTERNAL_NODE_MAX_KEYS then None
           else case locate_child parent_page (Some right_page_num) left_page_num (num_keys + 1) [0..<num_keys + 1] (num_keys + 1) of
             None \<Rightarrow> None
           | Some left_index \<Rightarrow>
               if left_index = num_keys + 1 then None
               else
                 let left_was_rightmost = (left_index = num_keys)
                 in if \<not> left_was_rightmost \<and>
                       (stage_key_at parent_page left_index \<noteq> old_left_max \<or> new_right_max \<noteq> old_left_max) then None
                    else
                      let inserted_index = (if left_was_rightmost then num_keys + 1 else left_index + 1);
                          scratch = split_parent_bytes parent_page left_index left_page_num right_page_num new_left_max new_right_max;
                          ok = (parent_stage_validate scratch \<and> stage_child_at scratch left_index = left_page_num \<and>
                                stage_key_at scratch left_index = new_left_max \<and>
                                stage_child_at scratch inserted_index = right_page_num);
                          ok = (if ok \<and> \<not> left_was_rightmost then stage_key_at scratch inserted_index = new_right_max else ok)
                      in if ok then Some (blit 0 (slice 0 PAGE_USABLE_SIZE scratch) parent_page, inserted_index) else None)"

section \<open>The greatest key of a child decreases\<close>

text \<open>The index of the child, and the new page when a separator was changed.\<close>

definition stage_child_max_decrease :: "bytes \<Rightarrow> nat \<Rightarrow> nat \<Rightarrow> nat \<Rightarrow> (nat \<times> bytes \<times> bool) option" where
  "stage_child_max_decrease parent_page child_page_num old_child_max new_child_max =
     (if length parent_page < PAGE_SIZE \<or> child_page_num = 0 \<or> new_child_max \<ge> old_child_max \<or>
         \<not> parent_stage_validate parent_page then None
      else
        let num_keys = rd32 INTERNAL_NODE_NUM_KEYS_OFFSET parent_page
        in case locate_child parent_page None child_page_num (num_keys + 1) [0..<num_keys + 1] (num_keys + 1) of
             None \<Rightarrow> None
           | Some child_index \<Rightarrow>
               if child_index = num_keys + 1 then None
               else if child_index = num_keys then Some (child_index, parent_page, False)
               else if stage_key_at parent_page child_index \<noteq> old_child_max then None
               else if child_index > 0 \<and> new_child_max \<le> stage_key_at parent_page (child_index - 1) then None
               else if child_index + 1 < num_keys \<and> new_child_max \<ge> stage_key_at parent_page (child_index + 1) then None
               else
                 let scratch = wr32 (parent_stage_cell child_index + INTERNAL_NODE_CHILD_SIZE) new_child_max
                       (slice 0 PAGE_SIZE parent_page)
                 in if \<not> parent_stage_validate scratch \<or> stage_child_at scratch child_index \<noteq> child_page_num \<or>
                       stage_key_at scratch child_index \<noteq> new_child_max then None
                    else Some (child_index, blit 0 (slice 0 PAGE_USABLE_SIZE scratch) parent_page, True))"

section \<open>Building a node from lists\<close>

text \<open>The cells are written in a loop over the arrays of the children and of the keys; the right child of the
  node is the last child.\<close>

definition write_cells :: "nat list \<Rightarrow> nat list \<Rightarrow> bytes \<Rightarrow> bytes" where
  "write_cells children keys page =
     fold (\<lambda>i page. wr32 (parent_stage_cell i + INTERNAL_NODE_CHILD_SIZE) (keys ! i)
       (wr32 (parent_stage_cell i) (children ! i) page)) [0..<length children - 1] page"

definition node_header :: "u8 \<Rightarrow> nat \<Rightarrow> nat \<Rightarrow> nat \<Rightarrow> bytes \<Rightarrow> bytes" where
  "node_header is_root parent_page_num key_count right_child page =
     wr32 INTERNAL_NODE_RIGHT_CHILD_OFFSET right_child
       (wr32 INTERNAL_NODE_NUM_KEYS_OFFSET key_count
         (wr32 PARENT_POINTER_OFFSET parent_page_num
           ((blit 0 (replicate PAGE_USABLE_SIZE 0) page)[NODE_TYPE_OFFSET := NODE_INTERNAL, IS_ROOT_OFFSET := is_root])))"

definition node_bytes :: "u8 \<Rightarrow> nat \<Rightarrow> nat list \<Rightarrow> nat list \<Rightarrow> bytes \<Rightarrow> bytes" where
  "node_bytes is_root parent_page_num children keys page =
     write_cells children keys
       (node_header is_root parent_page_num (length children - 1) (children ! (length children - 1)) page)"

section \<open>A child is removed\<close>

text \<open>The index of the removed child, and the new greatest key of the node when its right child was removed.\<close>

definition stage_child_remove :: "bytes \<Rightarrow> nat \<Rightarrow> nat \<Rightarrow> (bytes \<times> nat \<times> nat option) option" where
  "stage_child_remove parent_page removed_child_page_num removed_child_max =
     (if length parent_page < PAGE_SIZE \<or> removed_child_page_num = 0 \<or> removed_child_page_num = INVALID_PAGE_NUM \<or>
         \<not> parent_stage_validate parent_page then None
      else
        let old_key_count = rd32 INTERNAL_NODE_NUM_KEYS_OFFSET parent_page
        in if old_key_count < 2 \<or> old_key_count > INTERNAL_NODE_MAX_KEYS then None
           else case locate_child parent_page None removed_child_page_num (old_key_count + 1) [0..<old_key_count + 1] (old_key_count + 1) of
             None \<Rightarrow> None
           | Some remove_index \<Rightarrow>
               if remove_index = old_key_count + 1 then None
               else
                 let removed_rightmost = (remove_index = old_key_count)
                 in if \<not> removed_rightmost \<and> stage_key_at parent_page remove_index \<noteq> removed_child_max then None
                    else
                      let children = map (stage_child_at parent_page) (filter (\<lambda>i. i \<noteq> remove_index) [0..<old_key_count + 1]);
                          keys = map (stage_key_at parent_page)
                            (filter (\<lambda>i. \<not> (\<not> removed_rightmost \<and> i = remove_index \<or> removed_rightmost \<and> i + 1 = old_key_count))
                              [0..<old_key_count]);
                          scratch = node_bytes (parent_page ! IS_ROOT_OFFSET) (rd32 PARENT_POINTER_OFFSET parent_page)
                            children keys (slice 0 PAGE_SIZE parent_page)
                      in if length children \<noteq> old_key_count \<or> length keys \<noteq> old_key_count - 1 \<or> \<not> parent_stage_validate scratch
                         then None
                         else
                           let new_parent_max = (if removed_rightmost then stage_key_at parent_page (old_key_count - 1) else 0)
                           in if removed_rightmost \<and> (new_parent_max = 0 \<or> new_parent_max \<ge> removed_child_max) then None
                              else Some (blit 0 (slice 0 PAGE_USABLE_SIZE scratch) parent_page, remove_index,
                                     if removed_rightmost then Some new_parent_max else None))"

text \<open>What the stages of internal nodes do to the children and separators of a node.\<close>

lemma node_offsets [simp]:
  "parent_stage_cell i = 14 + i * 8" "INTERNAL_NODE_CELL_SIZE = 8" "INTERNAL_NODE_CHILD_SIZE = 4" "NODE_TYPE_OFFSET = 0"
  "IS_ROOT_OFFSET = 1"
  by (simp_all add: parent_stage_cell_def INTERNAL_NODE_HEADER_SIZE_def INTERNAL_NODE_CELL_SIZE_def INTERNAL_NODE_CHILD_SIZE_def
      node_layout)

lemma stage_child_at_eq: "stage_child_at = child_at"
  by (simp add: fun_eq_iff stage_child_at_def child_at_def internal_node_num_keys_def internal_node_cell_def
      INTERNAL_NODE_HEADER_SIZE_def node_layout)

lemma stage_key_at_eq: "stage_key_at = internal_node_key"
  by (simp add: fun_eq_iff stage_key_at_def internal_node_key_def internal_node_cell_def INTERNAL_NODE_HEADER_SIZE_def node_layout)

section \<open>Valid nodes\<close>

lemma all_from:
  fixes m n :: nat
  assumes "m < n"
  shows "(\<forall>j. m \<le> j \<and> j < n \<longrightarrow> P j) \<longleftrightarrow> P m \<and> (\<forall>j. Suc m \<le> j \<and> j < n \<longrightarrow> P j)"
  using assms by (metis Suc_le_eq le_eq_less_or_eq)

lemma validate_cells_iff:
  assumes "i \<le> n"
  shows "validate_cells p [i..<n] prev \<longleftrightarrow>
    (\<forall>j. i \<le> j \<and> j < n \<longrightarrow> child_at p j \<noteq> 0 \<and> (\<forall>l<j. child_at p j \<noteq> child_at p l) \<and>
       (0 < j \<longrightarrow> (if j = i then prev else internal_node_key p (j - 1)) < internal_node_key p j))"
  using assms
proof (induction "n - i" arbitrary: i prev)
  case 0
  then show ?case by simp
next
  case (Suc d)
  then have i: "i < n" and d: "d = n - Suc i" "Suc i \<le> n" by simp_all
  note IH = Suc.hyps(1) [OF d]
  have one: "validate_cells p [i..<n] prev \<longleftrightarrow> child_at p i \<noteq> 0 \<and> (\<forall>l<i. child_at p i \<noteq> child_at p l) \<and>
      (0 < i \<longrightarrow> prev < internal_node_key p i) \<and> validate_cells p [Suc i..<n] (internal_node_key p i)"
    using i by (auto simp: upt_conv_Cons stage_child_at_eq stage_key_at_eq list_ex_iff Let_def)
  have "(if j = Suc i then internal_node_key p i else internal_node_key p (j - 1)) = (if j = i then prev else internal_node_key p (j - 1))"
    if "Suc i \<le> j" for j using that by simp
  then show ?case unfolding one IH all_from [OF i, of "\<lambda>j. child_at p j \<noteq> 0 \<and> (\<forall>l<j. child_at p j \<noteq> child_at p l) \<and>
       (0 < j \<longrightarrow> (if j = i then prev else internal_node_key p (j - 1)) < internal_node_key p j)"] by auto
qed

lemma parent_stage_validate_iff:
  "parent_stage_validate p \<longleftrightarrow> 4096 \<le> length p \<and> p ! 0 = NODE_INTERNAL \<and> 0 < internal_node_num_keys p \<and>
     internal_node_num_keys p \<le> 509 \<and> 0 \<notin> set (node_kids p) \<and> distinct (node_kids p) \<and> sorted_wrt (<) (node_seps p)"
proof -
  let ?n = "internal_node_num_keys p"
  have set: "set (node_kids p) = child_at p ` {..?n}" unfolding node_kids_def set_map set_upt by auto
  have kids: "0 \<notin> set (node_kids p) \<and> distinct (node_kids p) \<longleftrightarrow>
      (\<forall>j\<le>?n. child_at p j \<noteq> 0 \<and> (\<forall>l<j. child_at p j \<noteq> child_at p l))"
  proof -
    have "distinct (node_kids p) \<longleftrightarrow> inj_on (child_at p) {..?n}"
    proof -
      have "set [0..<?n + 1] = {..?n}" by auto
      then show ?thesis unfolding node_kids_def distinct_map by simp
    qed
    also have "\<dots> \<longleftrightarrow> (\<forall>j\<le>?n. \<forall>l<j. child_at p j \<noteq> child_at p l)"
      unfolding inj_on_def
    proof (intro iffI ballI allI impI)
      fix j l assume "\<forall>x\<in>{..?n}. \<forall>y\<in>{..?n}. child_at p x = child_at p y \<longrightarrow> x = y" "j \<le> ?n" "l < j"
      then show "child_at p j \<noteq> child_at p l" by fastforce
    next
      fix x y assume A: "\<forall>j\<le>?n. \<forall>l<j. child_at p j \<noteq> child_at p l" "x \<in> {..?n}" "y \<in> {..?n}" "child_at p x = child_at p y"
      then show "x = y" by (metis atMost_iff linorder_neqE_nat)
    qed
    finally show ?thesis unfolding set by (auto simp: image_iff)
  qed
  have seps: "sorted_wrt (<) (node_seps p) \<longleftrightarrow> (\<forall>j. 0 < j \<and> j < ?n \<longrightarrow> internal_node_key p (j - 1) < internal_node_key p j)"
  proof -
    have "sorted_wrt (<) (node_seps p) \<longleftrightarrow> (\<forall>k. Suc k < ?n \<longrightarrow> internal_node_key p k < internal_node_key p (Suc k))"
      unfolding sorted_wrt_iff_nth_Suc_transp [OF transp_on_less] by simp
    also have "\<dots> \<longleftrightarrow> (\<forall>j. 0 < j \<and> j < ?n \<longrightarrow> internal_node_key p (j - 1) < internal_node_key p j)"
      by (metis Suc_diff_1 diff_Suc_1 zero_less_Suc)
    finally show ?thesis .
  qed
  have cells: "validate_cells p [0..<?n] 0 \<longleftrightarrow> (\<forall>j<?n. child_at p j \<noteq> 0 \<and> (\<forall>l<j. child_at p j \<noteq> child_at p l)) \<and>
      (\<forall>j. 0 < j \<and> j < ?n \<longrightarrow> internal_node_key p (j - 1) < internal_node_key p j)"
    unfolding validate_cells_iff [OF le0] by auto
  have kids': "(\<forall>j\<le>?n. child_at p j \<noteq> 0 \<and> (\<forall>l<j. child_at p j \<noteq> child_at p l)) \<longleftrightarrow>
      (\<forall>j<?n. child_at p j \<noteq> 0 \<and> (\<forall>l<j. child_at p j \<noteq> child_at p l)) \<and> child_at p ?n \<noteq> 0 \<and> (\<forall>l<?n. child_at p ?n \<noteq> child_at p l)"
    by (metis le_eq_less_or_eq)
  have ex: "list_ex (\<lambda>i. child_at p ?n = child_at p i) [0..<?n] \<longleftrightarrow> \<not> (\<forall>l<?n. child_at p ?n \<noteq> child_at p l)"
    by (auto simp: list_ex_iff)
  have "parent_stage_validate p \<longleftrightarrow> 4096 \<le> length p \<and> p ! 0 = NODE_INTERNAL \<and> 0 < ?n \<and> ?n \<le> 509 \<and> validate_cells p [0..<?n] 0 \<and>
      child_at p ?n \<noteq> 0 \<and> \<not> list_ex (\<lambda>i. child_at p ?n = child_at p i) [0..<?n]"
    unfolding parent_stage_validate_def INTERNAL_NODE_MAX_KEYS_eq stage_child_at_eq Let_def num_keys_rd
    by (simp add: PAGE_SIZE_def not_less)
  then show ?thesis unfolding cells ex seps using kids [unfolded kids'] by argo
qed

lemma valid_nodeD:
  assumes "parent_stage_validate p"
  shows "4096 \<le> length p" "p ! 0 = NODE_INTERNAL" "0 < internal_node_num_keys p" "internal_node_num_keys p \<le> 509"
    "0 \<notin> set (node_kids p)" "distinct (node_kids p)" "sorted_wrt (<) (node_seps p)"
  using assms unfolding parent_stage_validate_iff by simp_all

section \<open>The usable part of a page\<close>

lemma rd32_usable: "off + 4 \<le> 4092 \<Longrightarrow> rd32 off (slice 0 4092 p) = rd32 off p"
  using slice_slice [of off 4 4092 0 p] by (simp add: rd32_def)

lemma rd32_cong_usable: "slice 0 4092 p = slice 0 4092 q \<Longrightarrow> off + 4 \<le> 4092 \<Longrightarrow> rd32 off p = rd32 off q"
  by (metis rd32_usable)

lemma same_usable_node:
  assumes s: "slice 0 4092 p = slice 0 4092 q" and n: "internal_node_num_keys q \<le> 509"
  shows "internal_node_num_keys p = internal_node_num_keys q" "node_seps p = node_seps q" "node_kids p = node_kids q"
proof -
  show num: "internal_node_num_keys p = internal_node_num_keys q"
    unfolding num_keys_rd by (rule rd32_cong_usable [OF s]) simp
  have "node_seps p = node_seps q \<and> node_kids p = node_kids q"
  proof (rule node_lists_eqI)
    fix j assume "j < length (node_seps q)"
    then have j: "j < internal_node_num_keys q" by simp
    then have e: "14 + j * 8 + 8 \<le> 4092" using n by simp
    have "internal_node_key p j = internal_node_key q j"
      unfolding stage_key_at_eq [symmetric] stage_key_at_def node_offsets by (rule rd32_cong_usable [OF s]) (use e in simp)
    then show "internal_node_key p j = node_seps q ! j" using j by simp
    have "rd32 (14 + j * 8) p = rd32 (14 + j * 8) q" by (rule rd32_cong_usable [OF s]) (use e in simp)
    then show "rd32 (14 + j * 8) p = node_kids q ! j" using child_at_cell [OF j] by simp
  next
    have "rd32 10 p = rd32 10 q" by (rule rd32_cong_usable [OF s]) simp
    then show "rd32 10 p = node_kids q ! length (node_seps q)" using right_child_kid [of q] by simp
  qed (use num in simp_all)
  then show "node_seps p = node_seps q" "node_kids p = node_kids q" by simp_all
qed

lemma nth_usable: "slice 0 4092 p = slice 0 4092 q \<Longrightarrow> i < 4092 \<Longrightarrow> 4092 \<le> length p \<Longrightarrow> 4092 \<le> length q \<Longrightarrow> p ! i = q ! i"
  by (metis add_0 nth_slice)

lemma parent_stage_validate_cong:
  assumes "slice 0 4092 p = slice 0 4092 q" "4096 \<le> length p" "4096 \<le> length q"
  shows "parent_stage_validate p = parent_stage_validate q"
proof -
  have num: "internal_node_num_keys p = internal_node_num_keys q"
    unfolding num_keys_rd by (rule rd32_cong_usable [OF assms(1)]) simp
  have "p ! 0 = q ! 0" by (rule nth_usable) (use assms in simp_all)
  with num assms same_usable_node [OF assms(1)] show ?thesis unfolding parent_stage_validate_iff by metis
qed

text \<open>The scratch copy, and copying it back.\<close>

lemma scratch_usable: "4096 \<le> length p \<Longrightarrow> length (slice 0 4096 p) = 4096 \<and> slice 0 4092 (slice 0 4096 p) = slice 0 4092 p"
  by (simp add: slice_slice)

definition published :: "bytes \<Rightarrow> bytes \<Rightarrow> bytes" where
  "published scratch page = blit 0 (slice 0 4092 scratch) page"

lemma published_spec:
  assumes "length scratch = 4096" "4096 \<le> length p"
  shows "length (published scratch p) = length p" "slice 0 4092 (published scratch p) = slice 0 4092 scratch"
    "drop 4092 (published scratch p) = drop 4092 p"
  using assms by (simp_all add: published_def drop_blit)

text \<open>A child of an internal node splits: what the stage does to children and separators, and when it succeeds.\<close>

section \<open>Looking for a child\<close>

lemma locate_child_Some:
  assumes "locate_child p av w unset is idx = Some i"
  shows "(i = idx \<or> i \<in> set is \<and> child_at p i = w) \<and> (\<forall>j\<in>set is. av \<noteq> Some (child_at p j))"
  using assms
proof (induction p av w unset "is" idx rule: locate_child.induct)
  case (2 p av w unset j "is" idx)
  have a: "av \<noteq> Some (child_at p j)" using "2.prems" by (auto simp: stage_child_at_eq)
  show ?case
  proof (cases "child_at p j = w")
    case True
    with "2.prems" a have "idx = unset" "locate_child p av w unset is j = Some i"
      by (simp_all add: stage_child_at_eq split: if_splits)
    with "2.IH"(1) [OF refl] a True have "(i = j \<or> i \<in> set is \<and> child_at p i = w) \<and> (\<forall>j\<in>set is. av \<noteq> Some (child_at p j))"
      by (simp add: stage_child_at_eq)
    with a True show ?thesis by auto
  next
    case False
    with "2.prems" a have "locate_child p av w unset is idx = Some i" by (simp add: stage_child_at_eq)
    with "2.IH"(2) [OF refl] a False have "(i = idx \<or> i \<in> set is \<and> child_at p i = w) \<and> (\<forall>j\<in>set is. av \<noteq> Some (child_at p j))"
      by (simp add: stage_child_at_eq)
    with a show ?thesis by auto
  qed
qed simp

lemma locate_child_skip:
  assumes "\<forall>j\<in>set is. av \<noteq> Some (child_at p j) \<and> child_at p j \<noteq> w"
  shows "locate_child p av w unset (is @ js) idx = locate_child p av w unset js idx"
  using assms by (induction "is") (simp_all add: stage_child_at_eq)

lemma locate_child_found:
  assumes d: "distinct (node_kids p)" and i: "i \<le> internal_node_num_keys p" "node_kids p ! i = w"
    and av: "\<And>r. av = Some r \<Longrightarrow> r \<notin> set (node_kids p)" and u: "unset = internal_node_num_keys p + 1"
  shows "locate_child p av w unset [0..<internal_node_num_keys p + 1] unset = Some i"
proof -
  let ?n = "internal_node_num_keys p"
  have split: "[0..<?n + 1] = [0..<i] @ i # [i + 1..<?n + 1]"
    using i(1) upt_add_eq_append [of 0 i "?n + 1 - i"] upt_conv_Cons [of i "?n + 1"] by simp
  have kid: "child_at p j = node_kids p ! j" "child_at p j \<in> set (node_kids p)" if "j \<le> ?n" for j
    using that nth_mem [of j "node_kids p"] by (simp_all del: nth_node_lists add: nth_node_lists(2) [symmetric])
  have no_av: "av \<noteq> Some (child_at p j)" if "j \<le> ?n" for j using av kid(2) [OF that] by blast
  have other: "child_at p j \<noteq> w" if "j \<le> ?n" "j \<noteq> i" for j
    unfolding kid(1) [OF that(1)] i(2) [symmetric] using that i(1) nth_eq_iff_index_eq [OF d, of j i] by (simp del: nth_node_lists)
  have tail: "locate_child p av w unset [i + 1..<?n + 1] i = Some i"
  proof -
    have "locate_child p av w unset ([i + 1..<?n + 1] @ []) i = locate_child p av w unset [] i"
      by (rule locate_child_skip) (simp add: no_av other less_Suc_eq_le del: upt_Suc)
    then show ?thesis by (simp del: upt_Suc)
  qed
  have "locate_child p av w unset [0..<?n + 1] unset = locate_child p av w unset (i # [i + 1..<?n + 1]) unset"
    unfolding split by (rule locate_child_skip) (use no_av other i(1) in auto)
  also have "\<dots> = locate_child p av w unset [i + 1..<?n + 1] i"
    using no_av [OF i(1)] trans [OF kid(1) [OF i(1)] i(2)] u by (simp add: stage_child_at_eq del: upt_Suc)
  finally show ?thesis using tail by simp
qed

lemma locate_child_iff:
  assumes d: "distinct (node_kids p)" and u: "unset = internal_node_num_keys p + 1" and n: "n = internal_node_num_keys p"
  shows "locate_child p av w unset [0..<n + 1] unset = Some i \<and> i \<noteq> unset \<longleftrightarrow>
    i \<le> n \<and> node_kids p ! i = w \<and> (\<forall>r. av = Some r \<longrightarrow> r \<notin> set (node_kids p))"
proof
  assume A: "locate_child p av w unset [0..<n + 1] unset = Some i \<and> i \<noteq> unset"
  with locate_child_Some [of p av w unset "[0..<n + 1]" unset i] have
    B: "i \<in> set [0..<n + 1]" "child_at p i = w" "\<forall>j\<in>set [0..<n + 1]. av \<noteq> Some (child_at p j)" by auto
  then show "i \<le> n \<and> node_kids p ! i = w \<and> (\<forall>r. av = Some r \<longrightarrow> r \<notin> set (node_kids p))"
    using n by (auto simp: node_kids_def simp del: upt_Suc)
next
  assume "i \<le> n \<and> node_kids p ! i = w \<and> (\<forall>r. av = Some r \<longrightarrow> r \<notin> set (node_kids p))"
  then show "locate_child p av w unset [0..<n + 1] unset = Some i \<and> i \<noteq> unset"
    using locate_child_found [OF d, of i w av unset] u n by simp
qed

section \<open>The scratch copy\<close>

lemma split_parent_bytes_spec:
  assumes len: "4096 \<le> length p" and n: "internal_node_num_keys p < 509" and i: "i \<le> internal_node_num_keys p"
    and left: "node_kids p ! i = l" and b: "r < 2 ^ 32" "nl < 2 ^ 32"
    and nr: "i < internal_node_num_keys p \<longrightarrow> node_seps p ! i = nr"
    and q: "q = split_parent_bytes p i l r nl nr"
  shows "length q = 4096" "node_seps q = put_at i nl (node_seps p)" "node_kids q = put_at (i + 1) r (node_kids p)"
    "slice 0 6 q = slice 0 6 p"
proof -
  let ?n = "internal_node_num_keys p"
  define p0 where "p0 = slice 0 4096 p"
  have p0: "length p0 = 4096" "slice 0 4092 p0 = slice 0 4092 p" using scratch_usable [OF len] by (simp_all add: p0_def)
  note U = same_usable_node [OF p0(2)]
  have N: "internal_node_num_keys p0 = ?n" "node_seps p0 = node_seps p" "node_kids p0 = node_kids p" using U n by simp_all
  have hd: "slice 0 6 p0 = slice 0 6 p" using slice_slice [of 0 6 4096 0 p] by (simp add: p0_def)
  have l32: "l < 2 ^ 32"
    using left i child_at_def get_u32_less by (metis nth_node_lists(2) rd32_def)
  have r6: "rd32 6 p = ?n" by (simp add: num_keys_rd)
  have "length q = 4096 \<and> node_seps q = put_at i nl (node_seps p) \<and> node_kids q = put_at (i + 1) r (node_kids p) \<and>
    slice 0 6 q = slice 0 6 p"
  proof (cases "i = ?n")
    case True
    have right: "rd32 10 p0 = l" using left True right_child_kid [of p0] N by simp
    have e: "q = set_num_keys (internal_node_num_keys p0 + 1) (insert_behind_right nl r p0)"
      using True by (simp add: q split_parent_bytes_def Let_def r6 N insert_behind_right_def set_num_keys_def set_right_child_def
          set_internal_key_def set_internal_cell_def num_keys_rd(2) right PAGE_SIZE_def p0_def [symmetric] 
          internal_node_cell_def INTERNAL_NODE_HEADER_SIZE_def node_layout add.assoc)
    have n0: "internal_node_num_keys p0 < 509" using N n by simp
    have "put_at (?n + 1) r (node_kids p) = node_kids p @ [r]" "put_at ?n nl (node_seps p) = node_seps p @ [nl]"
      by (simp_all add: put_at_def)
    then show "length q = 4096 \<and> node_seps q = put_at i nl (node_seps p) \<and> node_kids q = put_at (i + 1) r (node_kids p) \<and>
        slice 0 6 q = slice 0 6 p"
      using insert_behind_right_spec [OF p0(1) n0 b(2,1) e] N True hd by simp
  next
    case False
    then have i: "i < ?n" using i by simp
    then have "nr = internal_node_key p i" using nr by simp
    then have b2: "nr < 2 ^ 32" unfolding internal_node_key_def rd32_def using get_u32_less by blast
    define q0 where "q0 = fold (\<lambda>i. icells.copy_cell i (i - 1)) (rev [i + 1 + 1..<?n + 1]) p0"
    have n510: "?n < 510" "i < 510" "i + 1 < 510" "i + 1 \<le> ?n" using n i by simp_all
    note S = icells.shift_right [OF p0(1) n510(1,4), folded q0_def]
    have cp: "blit (14 + d * 8) (slice (14 + s * 8) 8 page) page = icells.copy_cell d s page" for d s page
      by (simp add: icells.copy_cell_def icells.cell_def)
    define q1 where "q1 = wr32 (14 + i * 8 + 4) nl q0"
    define q2 where "q2 = set_internal_key (i + 1) nr (set_internal_cell (i + 1) r q1)"
    have e: "q = wr32 6 (?n + 1) q2"
      using False by (simp add: q split_parent_bytes_def Let_def r6 PAGE_SIZE_def p0_def [symmetric] cp q0_def q1_def q2_def
          set_internal_key_def set_internal_cell_def internal_node_cell_def INTERNAL_NODE_HEADER_SIZE_def node_layout add.assoc
          del: upt_Suc)
    have l0: "length q0 = 4096" using S by blast
    have b1: "14 + i * 8 + 4 + length (put_u32 nl) \<le> length q0" using icells.cell_end [OF n510(2)] l0 by simp
    have l1: "length q1 = 4096" using b1 l0 by (simp add: q1_def wr32_def)
    have c1: "internal_node_key q1 j = (if j = i then nl else internal_node_key q0 j)" "rd32 (14 + j * 8) q1 = rd32 (14 + j * 8) q0" for j
    proof -
      show "internal_node_key q1 j = (if j = i then nl else internal_node_key q0 j)"
      proof (cases "j = i")
        case True
        then show ?thesis using b1 b by (simp add: q1_def internal_node_key_def rd32_def wr32_def n32.dec_enc)
      next
        case False
        then have "14 + j * 8 + 4 + 4 \<le> 14 + i * 8 + 4 \<or> 14 + i * 8 + 4 + length (put_u32 nl) \<le> 14 + j * 8 + 4" by auto
        from slice_blit_other [OF b1 this] show ?thesis using False by (simp add: q1_def internal_node_key_def rd32_def wr32_def)
      qed
      have "14 + j * 8 + 4 \<le> 14 + i * 8 + 4 \<or> 14 + i * 8 + 4 + length (put_u32 nl) \<le> 14 + j * 8" by auto
      from slice_blit_other [OF b1 this] show "rd32 (14 + j * 8) q1 = rd32 (14 + j * 8) q0" by (simp add: q1_def rd32_def wr32_def)
    qed
    note C = write_icell_spec [OF l1 n510(3) b2 b(1) q2_def]
    have six: "(6::nat) + 4 \<le> 18" and i6: "(6::nat) = 2 \<or> (6::nat) = 6 \<or> (6::nat) = 10" by simp_all
    note B = wr32_fields [OF C(1) six, where v = "?n + 1", folded e]
    note B' = internal_fields [OF C(1) i6, where v = "?n + 1", folded e]
    have before: "slice a m q = slice a m p0" if "a + m \<le> 6 \<or> 10 \<le> a" "a + m \<le> 14" for a m
    proof -
      have "slice a m q = slice a m q2" by (rule B(5)) (use that in auto)
      also have "\<dots> = slice a m q1" by (rule C(4)) (rule that(2))
      also have "\<dots> = slice a m q0" unfolding q1_def wr32_def by (rule slice_blit_other [OF b1]) (use that in simp)
      also have "\<dots> = slice a m p0" using S that(2) by blast
      finally show ?thesis .
    qed
    have num: "internal_node_num_keys q = ?n + 1" using B(3) n by (simp add: num_keys_rd)
    have right: "rd32 10 q = rd32 10 p0" using before [of 10 4] by (simp add: rd32_def)
    have shifted: "icells.cell j q0 = (if i + 1 < j \<and> j \<le> ?n then icells.cell (j - 1) p0 else icells.cell j p0)" if "j < 510" for j
      using S that by blast
    have "node_seps q = put_at i nl (node_seps p) \<and> node_kids q = put_at (i + 1) r (node_kids p)"
    proof (rule node_lists_eqI)
      fix j assume "j < length (put_at i nl (node_seps p))"
      then have j: "j \<le> ?n" "j < 510" using n by simp_all
      have "internal_node_key q j = (if j = i + 1 then nr else if j = i then nl else internal_node_key q0 j)"
        using B'(2) C(2) j c1 by simp
      also have "\<dots> = (if j < i then internal_node_key p0 j else if j = i then nl else if j = i + 1 then nr else internal_node_key p0 (j - 1))"
        using shifted [OF j(2)] j by (auto simp: icell_parts)
      also have "\<dots> = put_at i nl (node_seps p) ! j"
        using i j nr N(1) nth_node_lists(1) [of j p0] nth_node_lists(1) [of "j - 1" p0] unfolding N(2)
        by (subst nth_put_at) auto
      finally show "internal_node_key q j = put_at i nl (node_seps p) ! j" .
      have "rd32 (14 + j * 8) q = (if j = i + 1 then r else rd32 (14 + j * 8) q0)" using B'(3) C(3) j c1 by simp
      also have "\<dots> = (if j < i + 1 then rd32 (14 + j * 8) p0 else if j = i + 1 then r else rd32 (14 + (j - 1) * 8) p0)"
        using shifted [OF j(2)] j by (auto simp: icell_parts)
      also have "\<dots> = put_at (i + 1) r (node_kids p) ! j"
        using i j N(1) child_at_cell [of j p0] child_at_cell [of "j - 1" p0] unfolding N(3) by (subst nth_put_at) auto
      finally show "rd32 (14 + j * 8) q = put_at (i + 1) r (node_kids p) ! j" .
    next
      have "put_at (i + 1) r (node_kids p) ! (?n + 1) = node_kids p ! ?n" using i by (subst nth_put_at) auto
      then show "rd32 10 q = put_at (i + 1) r (node_kids p) ! length (put_at i nl (node_seps p))"
        using right right_child_kid [of p0] N by simp
    qed (use num in simp_all)
    moreover have "slice 0 6 q = slice 0 6 p" using before [of 0 6] hd by simp
    ultimately show "length q = 4096 \<and> node_seps q = put_at i nl (node_seps p) \<and> node_kids q = put_at (i + 1) r (node_kids p) \<and>
        slice 0 6 q = slice 0 6 p" using B(1) by simp
  qed
  then show "length q = 4096" "node_seps q = put_at i nl (node_seps p)" "node_kids q = put_at (i + 1) r (node_kids p)"
    "slice 0 6 q = slice 0 6 p" by simp_all
qed

text \<open>The stages of internal nodes as changes of lists: the split of a child, a smaller greatest key, the removal of a
  child, and the building of a node.\<close>

section \<open>Splitting a child\<close>

lemma sorted_put_at_iff:
  fixes ss :: "nat list"
  assumes "sorted_wrt (<) ss" "i \<le> length ss"
  shows "sorted_wrt (<) (put_at i x ss) \<longleftrightarrow> (0 < i \<longrightarrow> ss ! (i - 1) < x) \<and> (i < length ss \<longrightarrow> x < ss ! i)"
proof
  assume s: "sorted_wrt (<) (put_at i x ss)"
  have "ss ! (i - 1) < x" if "0 < i"
    using sorted_wrt_nth_less [OF s, of "i - 1" i] that assms(2) by (simp add: nth_put_at)
  moreover have "x < ss ! i" if "i < length ss"
    using sorted_wrt_nth_less [OF s, of i "i + 1"] that assms(2) by (simp add: nth_put_at)
  ultimately show "(0 < i \<longrightarrow> ss ! (i - 1) < x) \<and> (i < length ss \<longrightarrow> x < ss ! i)" by blast
next
  assume A: "(0 < i \<longrightarrow> ss ! (i - 1) < x) \<and> (i < length ss \<longrightarrow> x < ss ! i)"
  show "sorted_wrt (<) (put_at i x ss)"
  proof (rule sorted_wrt_put_at [OF assms(1)])
    fix j assume j: "j < i" "j < length ss"
    have "j < i - 1 \<or> j = i - 1" using j(1) by linarith
    then have "ss ! j \<le> ss ! (i - 1)"
    proof
      assume "j < i - 1"
      moreover from this have "i - 1 < length ss" using assms(2) by linarith
      ultimately show ?thesis using sorted_wrt_nth_less [OF assms(1), of j "i - 1"] by simp
    qed simp
    then show "ss ! j < x" using A j by (simp add: order_le_less_trans)
  next
    fix j assume j: "i \<le> j" "j < length ss"
    have "ss ! i \<le> ss ! j" using sorted_wrt_nth_less [OF assms(1), of i j] j by (cases "j = i") auto
    then show "x < ss ! j" using A j by simp
  qed
qed

lemma distinct_put_at_iff: "distinct (put_at i x xs) \<longleftrightarrow> x \<notin> set xs \<and> distinct xs"
proof -
  have "set xs = set (take i xs) \<union> set (drop i xs)" using set_append [of "take i xs" "drop i xs"] by simp
  moreover have "distinct xs \<longleftrightarrow> distinct (take i xs) \<and> distinct (drop i xs) \<and> set (take i xs) \<inter> set (drop i xs) = {}"
    by (metis append_take_drop_id distinct_append)
  ultimately show ?thesis unfolding put_at_def distinct_append distinct.simps list.set by blast
qed

text \<open>The node is as the caller claims it to be.\<close>

definition splits_at :: "bytes \<Rightarrow> nat \<Rightarrow> nat \<Rightarrow> nat \<Rightarrow> nat \<Rightarrow> nat \<Rightarrow> nat \<Rightarrow> bool" where
  "splits_at p i l r old nl nr \<longleftrightarrow>
     parent_stage_validate p \<and> i \<le> internal_node_num_keys p \<and> node_kids p ! i = l \<and> r \<notin> set (node_kids p) \<and> r \<noteq> 0 \<and> nl < nr \<and>
     (i < internal_node_num_keys p \<longrightarrow> node_seps p ! i = old \<and> nr = old) \<and> sorted_wrt (<) (put_at i nl (node_seps p))"

lemma stage_parent_split_iff:
  assumes b: "r < 2 ^ 32" "nl < 2 ^ 32"
  shows "stage_parent_split p l r old nl nr = Some (p', j) \<longleftrightarrow>
    (\<exists>i. splits_at p i l r old nl nr \<and> internal_node_num_keys p < 509 \<and> j = i + 1 \<and>
       p' = published (split_parent_bytes p i l r nl nr) p)"
proof -
  let ?n = "internal_node_num_keys p" and ?q = "\<lambda>i. split_parent_bytes p i l r nl nr"
  have n6: "rd32 6 p = ?n" by (simp add: num_keys_rd)
  have body: "parent_stage_validate (?q i) \<and> child_at (?q i) i = l \<and> internal_node_key (?q i) i = nl \<and> child_at (?q i) (i + 1) = r \<and>
      (i < ?n \<longrightarrow> internal_node_key (?q i) (i + 1) = nr) \<longleftrightarrow> sorted_wrt (<) (put_at i nl (node_seps p))"
    if v: "parent_stage_validate p" and n: "?n < 509" and i: "i \<le> ?n" "node_kids p ! i = l" and r: "r \<notin> set (node_kids p)" "r \<noteq> 0"
      and nr: "i < ?n \<longrightarrow> node_seps p ! i = nr" for i
  proof -
    note V = valid_nodeD [OF v]
    note S = split_parent_bytes_spec [OF V(1) n i b nr refl]
    have num: "internal_node_num_keys (?q i) = ?n + 1" using arg_cong [OF S(2), of length] by simp
    have "?q i ! 0 = p ! 0" using arg_cong [OF S(4), of "\<lambda>x. x ! 0"] S(1) V(1) by simp
    then have "?q i ! 0 = NODE_INTERNAL" using V by simp
    then have valid: "parent_stage_validate (?q i) \<longleftrightarrow> sorted_wrt (<) (put_at i nl (node_seps p))"
      unfolding parent_stage_validate_iff unfolding S(2,3) num distinct_put_at_iff using V(5,6) n i(1) r S(1) by (simp add: set_put_at)
    have c: "child_at (?q i) j = put_at (i + 1) r (node_kids p) ! j" if "j \<le> ?n + 1" for j
      using nth_node_lists(2) [of j "?q i"] that unfolding num S(3) by simp
    have k: "internal_node_key (?q i) j = put_at i nl (node_seps p) ! j" if "j < ?n + 1" for j
      using nth_node_lists(1) [of j "?q i"] that unfolding num S(2) by simp
    show ?thesis
      unfolding valid using c [of i] c [of "i + 1"] k [of i] k [of "i + 1"] i nr by (auto simp: nth_put_at)
  qed
  show ?thesis
  proof (cases "parent_stage_validate p \<and> ?n < 509 \<and> l \<noteq> 0 \<and> r \<noteq> 0 \<and> l \<noteq> r \<and> nl < nr")
    case True
    then have v: "parent_stage_validate p" and n: "?n < 509" and r0: "r \<noteq> 0" by simp_all
    note V = valid_nodeD [OF v]
    let ?loc = "locate_child p (Some r) l (?n + 1) [0..<?n + 1] (?n + 1)"
    have ii: "(if i = ?n then ?n + 1 else i + 1) = i + 1" for i by simp
    have e: "stage_parent_split p l r old nl nr = (case ?loc of None \<Rightarrow> None | Some i \<Rightarrow>
        if i = ?n + 1 then None
        else if i \<noteq> ?n \<and> (internal_node_key p i \<noteq> old \<or> nr \<noteq> old) then None
        else let ok = parent_stage_validate (?q i) \<and> child_at (?q i) i = l \<and> internal_node_key (?q i) i = nl \<and> child_at (?q i) (i + 1) = r
          in if (if ok \<and> i \<noteq> ?n then internal_node_key (?q i) (i + 1) = nr else ok) then Some (published (?q i) p, i + 1) else None)"
      (is "_ = ?R")
    proof -
      have g: "\<not> (length p < PAGE_SIZE \<or> l = 0 \<or> r = 0 \<or> l = r \<or> nl \<ge> nr \<or> \<not> parent_stage_validate p)"
        using True V(1) by (simp add: PAGE_SIZE_def)
      have g2: "\<not> 509 \<le> ?n" using n by simp
      show ?thesis
        unfolding stage_parent_split_def if_not_P [OF g] Let_def internal_offsets n6 INTERNAL_NODE_MAX_KEYS_eq if_not_P [OF g2]
          stage_child_at_eq stage_key_at_eq published_def PAGE_USABLE_SIZE_eq ii by (rule refl)
    qed
    note L = locate_child_iff [OF V(6) refl refl, of "Some r" l]
    have "stage_parent_split p l r old nl nr = Some (p', j) \<longleftrightarrow> (\<exists>i. (?loc = Some i \<and> i \<noteq> ?n + 1) \<and>
        (i < ?n \<longrightarrow> node_seps p ! i = old \<and> nr = old) \<and> sorted_wrt (<) (put_at i nl (node_seps p)) \<and>
        j = i + 1 \<and> p' = published (?q i) p)"
    proof (cases "\<exists>i. ?loc = Some i \<and> i \<noteq> ?n + 1")
      case True
      then obtain i where i: "?loc = Some i" "i \<noteq> ?n + 1" by blast
      then have k: "i \<le> ?n" "node_kids p ! i = l" "r \<notin> set (node_kids p)" using L [of i] by simp_all
      let ?g = "i < ?n \<longrightarrow> node_seps p ! i = old \<and> nr = old"
      have g: "?g \<longleftrightarrow> \<not> (i \<noteq> ?n \<and> (internal_node_key p i \<noteq> old \<or> nr \<noteq> old))" using k(1) by auto
      show ?thesis
      proof (cases ?g)
        case True
        have nr: "i < ?n \<longrightarrow> node_seps p ! i = nr" using True by simp
        let ?ok = "parent_stage_validate (?q i) \<and> child_at (?q i) i = l \<and> internal_node_key (?q i) i = nl \<and> child_at (?q i) (i + 1) = r"
        have okk: "(if ?ok \<and> i \<noteq> ?n then internal_node_key (?q i) (i + 1) = nr else ?ok) \<longleftrightarrow>
            sorted_wrt (<) (put_at i nl (node_seps p))"
          using body [OF v n k(1,2,3) r0 nr] k(1) by (cases "i = ?n") auto
        have "stage_parent_split p l r old nl nr =
            (if sorted_wrt (<) (put_at i nl (node_seps p)) then Some (published (?q i) p, i + 1) else None)"
          unfolding e i(1) option.case Let_def if_not_P [OF i(2)] if_not_P [OF True [unfolded g]] okk by (rule refl)
        then show ?thesis using i True by auto
      next
        case False
        then have "stage_parent_split p l r old nl nr = None" unfolding e i(1) option.case using g i(2) by simp
        then show ?thesis using i False by auto
      qed
    next
      case False
      then have "stage_parent_split p l r old nl nr = None" unfolding e by (auto split: option.splits)
      then show ?thesis using False by auto
    qed
    then show ?thesis unfolding L splits_at_def using True by auto
  next
    case False
    have "l \<noteq> 0 \<and> l \<noteq> r" if "splits_at p i l r old nl nr" for i
    proof -
      have "0 \<notin> set (node_kids p)" "i \<le> ?n" "node_kids p ! i = l" "r \<notin> set (node_kids p)"
        using that valid_nodeD(5) unfolding splits_at_def by blast+
      moreover have "node_kids p ! i \<in> set (node_kids p)" by (rule nth_mem) (use \<open>i \<le> ?n\<close> in simp)
      ultimately show ?thesis by metis
    qed
    then have "\<not> (splits_at p i l r old nl nr \<and> ?n < 509)" for i using False unfolding splits_at_def by blast
    moreover have "stage_parent_split p l r old nl nr = None"
      using False unfolding stage_parent_split_def Let_def internal_offsets n6 INTERNAL_NODE_MAX_KEYS_eq by (auto simp: PAGE_SIZE_def)
    ultimately show ?thesis by auto
  qed
qed

lemma stage_parent_split_Some:
  assumes s: "stage_parent_split p l r old nl nr = Some (p', j)" and b: "r < 2 ^ 32" "nl < 2 ^ 32"
  obtains i where "splits_at p i l r old nl nr" "internal_node_num_keys p < 509" "j = i + 1" "parent_stage_validate p'"
    "node_seps p' = put_at i nl (node_seps p)" "node_kids p' = put_at (i + 1) r (node_kids p)" "length p' = length p"
    "slice 0 6 p' = slice 0 6 p" "drop 4092 p' = drop 4092 p"
proof -
  from s obtain i where i: "splits_at p i l r old nl nr" "internal_node_num_keys p < 509" "j = i + 1"
    and p': "p' = published (split_parent_bytes p i l r nl nr) p"
    unfolding stage_parent_split_iff [OF b] by blast
  let ?q = "split_parent_bytes p i l r nl nr"
  have A: "parent_stage_validate p" "i \<le> internal_node_num_keys p" "node_kids p ! i = l"
    "i < internal_node_num_keys p \<longrightarrow> node_seps p ! i = nr" "r \<notin> set (node_kids p)" "r \<noteq> 0"
    "sorted_wrt (<) (put_at i nl (node_seps p))"
    using i(1) unfolding splits_at_def by blast+
  note V = valid_nodeD [OF A(1)]
  note S = split_parent_bytes_spec [OF V(1) i(2) A(2,3) b A(4) refl]
  note P = published_spec [OF S(1) V(1), folded p']
  have num: "internal_node_num_keys ?q = internal_node_num_keys p + 1" using arg_cong [OF S(2), of length] by simp
  have n: "internal_node_num_keys ?q \<le> 509" using num i(2) by simp
  note U = same_usable_node [OF P(2) n, unfolded S num]
  have hd: "slice 0 6 p' = slice 0 6 p"
    using arg_cong [OF P(2), of "slice 0 6"] S(4) by (simp add: slice_slice)
  have "p' ! 0 = p ! 0" using arg_cong [OF hd, of "\<lambda>x. x ! 0"] V(1) P(1) by simp
  then have "parent_stage_validate p'"
    unfolding parent_stage_validate_iff U distinct_put_at_iff using V A i(2) P(1) by (simp add: set_put_at)
  then show thesis using that i U P hd by blast
qed

lemma stage_parent_split_succeeds:
  assumes "splits_at p i l r old nl nr" "internal_node_num_keys p < 509" "r < 2 ^ 32" "nl < 2 ^ 32"
  shows "\<exists>p'. stage_parent_split p l r old nl nr = Some (p', i + 1)"
  using assms stage_parent_split_iff [OF assms(3,4)] by blast

end
