(* ===== verification/StagedNodeShrink.thy ===== *)
theory StagedNodeShrink
  imports StagedNodes
begin

text \<open>The other stages of internal nodes: a smaller greatest key of a child, nodes built from lists, the removal of a child.\<close>

section \<open>A separator is lowered\<close>

lemma lower_sep_spec:
  assumes len: "4096 \<le> length p" and n: "internal_node_num_keys p \<le> 509" and i: "i < internal_node_num_keys p" and new: "new < 2 ^ 32"
    and seps: "sorted_wrt (<) (node_seps p)"
    and q: "q = wr32 (14 + i * 8 + 4) new (slice 0 4096 p)"
  shows "length q = 4096" "node_seps q = (node_seps p)[i := new]" "node_kids q = node_kids p" "slice 0 6 q = slice 0 6 p"
proof -
  define p0 where "p0 = slice 0 4096 p"
  have p0: "length p0 = 4096" "slice 0 4092 p0 = slice 0 4092 p" using scratch_usable [OF len] by (simp_all add: p0_def)
  note U = same_usable_node [OF p0(2) n]
  have hd: "slice 0 6 p0 = slice 0 6 p" using slice_slice [of 0 6 4096 0 p] by (simp add: p0_def)
  have ne: "internal_node_key p0 j \<noteq> internal_node_key p0 i" if "j < i" for j
    using sorted_wrt_nth_less [OF seps, of j i] that i U(1) unfolding U(2) [symmetric] by simp
  have "find (\<lambda>j. internal_node_key p0 j = internal_node_key p0 i) [0..<internal_node_num_keys p0] = Some i"
    using ne i U(1) by (auto simp: find_Some_iff)
  then have e: "q = update_internal_node_key (internal_node_key p0 i) new p0"
    by (simp add: q update_internal_node_key_def p0_def [symmetric] set_internal_key_def internal_node_cell_def
        INTERNAL_NODE_HEADER_SIZE_def node_layout)
  have n0: "internal_node_num_keys p0 \<le> 509" "i < internal_node_num_keys p0" using n i U(1) by simp_all
  show "length q = 4096" "node_seps q = (node_seps p)[i := new]" "node_kids q = node_kids p" "slice 0 6 q = slice 0 6 p"
    using update_key_spec [OF p0(1) n0(1) new n0(2) refl ne e] U hd by simp_all
qed

lemma sorted_list_update:
  fixes ss :: "nat list"
  assumes "sorted_wrt (<) ss" "i < length ss" "x \<le> ss ! i" "0 < i \<Longrightarrow> ss ! (i - 1) < x"
  shows "sorted_wrt (<) (ss[i := x])"
proof -
  have "\<forall>k. Suc k < length ss \<longrightarrow> ss[i := x] ! k < ss[i := x] ! Suc k"
  proof (intro allI impI)
    fix k assume k: "Suc k < length ss"
    have s: "ss ! k < ss ! Suc k" using sorted_wrt_nth_less [OF assms(1), of k "Suc k"] k by simp
    consider "k = i" | "Suc k = i" | "k \<noteq> i" "Suc k \<noteq> i" by blast
    then show "ss[i := x] ! k < ss[i := x] ! Suc k"
      by cases (use s assms k in \<open>auto simp: nth_list_update\<close>)
  qed
  then show ?thesis unfolding sorted_wrt_iff_nth_Suc_transp [OF transp_on_less] by simp
qed

definition decreases_at :: "bytes \<Rightarrow> nat \<Rightarrow> nat \<Rightarrow> nat \<Rightarrow> nat \<Rightarrow> bool" where
  "decreases_at p i c old new \<longleftrightarrow> parent_stage_validate p \<and> i \<le> internal_node_num_keys p \<and> node_kids p ! i = c \<and> new < old \<and>
     (i < internal_node_num_keys p \<longrightarrow> node_seps p ! i = old \<and> (0 < i \<longrightarrow> node_seps p ! (i - 1) < new))"

lemma stage_child_max_decrease_spec:
  assumes new: "new < 2 ^ 32"
  shows "stage_child_max_decrease p c old new = Some (i, p', ch) \<longleftrightarrow> decreases_at p i c old new \<and> (ch \<longleftrightarrow> i < internal_node_num_keys p) \<and>
    p' = (if i < internal_node_num_keys p then published (wr32 (14 + i * 8 + 4) new (slice 0 4096 p)) p else p)"
proof (cases "parent_stage_validate p \<and> c \<noteq> 0 \<and> new < old")
  case False
  have "c \<noteq> 0" if "decreases_at p i c old new"
  proof -
    have "0 \<notin> set (node_kids p)" "node_kids p ! i = c" "i \<le> internal_node_num_keys p"
      using that valid_nodeD(5) unfolding decreases_at_def by blast+
    moreover have "node_kids p ! i \<in> set (node_kids p)" by (rule nth_mem) (use \<open>i \<le> internal_node_num_keys p\<close> in simp)
    ultimately show ?thesis by metis
  qed
  then have "\<not> decreases_at p i c old new" using False unfolding decreases_at_def by blast
  moreover have "stage_child_max_decrease p c old new = None"
    using False by (auto simp: stage_child_max_decrease_def)
  ultimately show ?thesis by simp
next
  case True
  let ?n = "internal_node_num_keys p" and ?q = "\<lambda>i. wr32 (14 + i * 8 + 4) new (slice 0 4096 p)"
  let ?loc = "locate_child p None c (?n + 1) [0..<?n + 1] (?n + 1)"
  have n6: "rd32 6 p = ?n" by (simp add: num_keys_rd)
  note V = valid_nodeD [OF conjunct1 [OF True]]
  have L: "?loc = Some i \<and> i \<noteq> ?n + 1 \<longleftrightarrow> i \<le> ?n \<and> node_kids p ! i = c" for i
    using locate_child_iff [OF V(6) refl refl, of None c] by simp
  have guard: "\<not> (length p < PAGE_SIZE \<or> c = 0 \<or> new \<ge> old \<or> \<not> parent_stage_validate p)"
    using True V(1) by (simp add: PAGE_SIZE_def)
  have e: "stage_child_max_decrease p c old new = (case ?loc of None \<Rightarrow> None | Some i \<Rightarrow>
      if i = ?n + 1 then None else if i = ?n then Some (i, p, False) else if internal_node_key p i \<noteq> old then None
      else if i > 0 \<and> new \<le> internal_node_key p (i - 1) then None
      else if i + 1 < ?n \<and> new \<ge> internal_node_key p (i + 1) then None
      else if \<not> parent_stage_validate (?q i) \<or> child_at (?q i) i \<noteq> c \<or> internal_node_key (?q i) i \<noteq> new then None
      else Some (i, published (?q i) p, True))"
    unfolding stage_child_max_decrease_def if_not_P [OF guard] Let_def internal_offsets node_offsets n6 stage_child_at_eq stage_key_at_eq published_def
      PAGE_USABLE_SIZE_eq unfolding PAGE_SIZE_def by (rule refl)
  have inner: "\<not> (internal_node_key p i \<noteq> old) \<Longrightarrow> \<not> (i > 0 \<and> new \<le> internal_node_key p (i - 1)) \<Longrightarrow>
      \<not> (i + 1 < ?n \<and> new \<ge> internal_node_key p (i + 1)) \<and> parent_stage_validate (?q i) \<and> child_at (?q i) i = c \<and> internal_node_key (?q i) i = new"
    if i: "i < ?n" "node_kids p ! i = c" for i
  proof -
    assume old: "\<not> (internal_node_key p i \<noteq> old)" and lo: "\<not> (i > 0 \<and> new \<le> internal_node_key p (i - 1))"
    note S = lower_sep_spec [OF V(1,4) i(1) new V(7) refl]
    have num: "internal_node_num_keys (?q i) = ?n" using arg_cong [OF S(2), of length] by simp
    have hi: "new < internal_node_key p (i + 1)" if "i + 1 < ?n"
      using sorted_wrt_nth_less [OF V(7), of i "i + 1"] that i old True by simp
    have "?q i ! 0 = p ! 0" using arg_cong [OF S(4), of "\<lambda>x. x ! 0"] S(1) V(1) by simp
    moreover have "sorted_wrt (<) ((node_seps p)[i := new])"
      by (rule sorted_list_update [OF V(7)]) (use i old lo True in auto)
    ultimately have "parent_stage_validate (?q i)"
      unfolding parent_stage_validate_iff unfolding S(2,3) num using V S(1) by simp
    moreover have "child_at (?q i) i = c"
      using nth_node_lists(2) [of i "?q i"] i unfolding num S(3) by simp
    moreover have "internal_node_key (?q i) i = new"
      using nth_node_lists(1) [of i "?q i"] i unfolding num S(2) by simp
    ultimately show ?thesis using hi by auto
  qed
  show ?thesis
  proof (cases "?loc = Some i \<and> i \<noteq> ?n + 1")
    case found: True
    then have i: "i \<le> ?n" "node_kids p ! i = c" using L by blast+
    have e': "stage_child_max_decrease p c old new =
      (if i = ?n then Some (i, p, False) else if internal_node_key p i \<noteq> old then None
      else if i > 0 \<and> new \<le> internal_node_key p (i - 1) then None else Some (i, published (?q i) p, True))"
    proof (cases "i = ?n \<or> internal_node_key p i \<noteq> old \<or> (i > 0 \<and> new \<le> internal_node_key p (i - 1))")
      case True
      then show ?thesis
        unfolding e conjunct1 [OF found] option.case if_not_P [OF conjunct2 [OF found]] by (elim disjE) simp_all
    next
      case False
      then have "i < ?n" using i(1) by simp
      with False inner [of i] i(2) have "\<not> (i + 1 < ?n \<and> new \<ge> internal_node_key p (i + 1))"
        "\<not> (\<not> parent_stage_validate (?q i) \<or> child_at (?q i) i \<noteq> c \<or> internal_node_key (?q i) i \<noteq> new)" by blast+
      note g = if_not_P [OF this(1)] if_not_P [OF this(2)]
      show ?thesis unfolding e conjunct1 [OF found] option.case if_not_P [OF conjunct2 [OF found]] g by (rule refl)
    qed
    have "decreases_at p i c old new \<longleftrightarrow> (i < ?n \<longrightarrow> internal_node_key p i = old \<and> (0 < i \<longrightarrow> internal_node_key p (i - 1) < new))"
      unfolding decreases_at_def using i True by auto
    then show ?thesis unfolding e' using i(1) by (cases "i = ?n") (auto simp: not_le)
  next
    case False
    then have "\<not> decreases_at p i c old new" unfolding decreases_at_def using L by blast
    moreover have "stage_child_max_decrease p c old new \<noteq> Some (i, p', ch)"
    proof (cases ?loc)
      case None
      show ?thesis unfolding e None by simp
    next
      case (Some j)
      then have "j = ?n + 1 \<or> j \<noteq> i" using False by blast
      then show ?thesis unfolding e Some option.case by (elim disjE) simp_all
    qed
    ultimately show ?thesis by simp
  qed
qed

lemma decreased_node:
  assumes d: "decreases_at p i c old new" and i: "i < internal_node_num_keys p" and new: "new < 2 ^ 32"
    and p': "p' = published (wr32 (14 + i * 8 + 4) new (slice 0 4096 p)) p"
  shows "parent_stage_validate p'" "node_seps p' = (node_seps p)[i := new]" "node_kids p' = node_kids p" "length p' = length p"
    "slice 0 6 p' = slice 0 6 p" "drop 4092 p' = drop 4092 p"
proof -
  let ?q = "wr32 (14 + i * 8 + 4) new (slice 0 4096 p)"
  have D: "parent_stage_validate p" "new < old" "node_seps p ! i = old" "0 < i \<longrightarrow> node_seps p ! (i - 1) < new"
    using d i unfolding decreases_at_def by blast+
  note V = valid_nodeD [OF D(1)]
  note S = lower_sep_spec [OF V(1,4) i new V(7) refl]
  note P = published_spec [OF S(1) V(1), folded p']
  have num: "internal_node_num_keys ?q = internal_node_num_keys p" using arg_cong [OF S(2), of length] by simp
  have n: "internal_node_num_keys ?q \<le> 509" using num V(4) by simp
  note U = same_usable_node [OF P(2) n, unfolded S num]
  show "node_seps p' = (node_seps p)[i := new]" "node_kids p' = node_kids p" by (rule U(2), rule U(3))
  show "length p' = length p" "drop 4092 p' = drop 4092 p" by (rule P(1), rule P(3))
  show hd: "slice 0 6 p' = slice 0 6 p" using arg_cong [OF P(2), of "slice 0 6"] S(4) by (simp add: slice_slice)
  have "p' ! 0 = p ! 0" using arg_cong [OF hd, of "\<lambda>x. x ! 0"] V(1) P(1) by simp
  moreover have "sorted_wrt (<) ((node_seps p)[i := new])"
    by (rule sorted_list_update [OF V(7)]) (use i D in auto)
  ultimately show "parent_stage_validate p'" unfolding parent_stage_validate_iff U using V P(1) by simp
qed

text \<open>Nodes built from the lists of their children and keys.\<close>

lemma write_cells_spec:
  assumes len: "length q = 4096" and m: "m \<le> 510" and b: "\<And>i. i < m \<Longrightarrow> keys ! i < 2 ^ 32" "\<And>i. i < m \<Longrightarrow> children ! i < 2 ^ 32"
    and q': "q' = fold (\<lambda>i page. wr32 (parent_stage_cell i + INTERNAL_NODE_CHILD_SIZE) (keys ! i)
       (wr32 (parent_stage_cell i) (children ! i) page)) [0..<m] q"
  shows "length q' = 4096 \<and> (\<forall>j<510. internal_node_key q' j = (if j < m then keys ! j else internal_node_key q j)) \<and>
    (\<forall>j<510. rd32 (14 + j * 8) q' = (if j < m then children ! j else rd32 (14 + j * 8) q)) \<and>
    (\<forall>a n. a + n \<le> 14 \<longrightarrow> slice a n q' = slice a n q)"
  using m b q'
proof (induction m arbitrary: q')
  case 0
  then show ?case using len by simp
next
  case (Suc m)
  define q1 where "q1 = fold (\<lambda>i page. wr32 (parent_stage_cell i + INTERNAL_NODE_CHILD_SIZE) (keys ! i)
       (wr32 (parent_stage_cell i) (children ! i) page)) [0..<m] q"
  have I: "length q1 = 4096" "\<And>j. j < 510 \<Longrightarrow> internal_node_key q1 j = (if j < m then keys ! j else internal_node_key q j)"
    "\<And>j. j < 510 \<Longrightarrow> rd32 (14 + j * 8) q1 = (if j < m then children ! j else rd32 (14 + j * 8) q)"
    "\<And>a n. a + n \<le> 14 \<Longrightarrow> slice a n q1 = slice a n q"
    using Suc.IH [OF _ _ _ q1_def] Suc.prems by auto
  have m: "m < 510" and b: "keys ! m < 2 ^ 32" "children ! m < 2 ^ 32" using Suc.prems by simp_all
  have e: "q' = set_internal_key m (keys ! m) (set_internal_cell m (children ! m) q1)"
    by (simp add: Suc.prems(4) q1_def set_internal_key_def set_internal_cell_def internal_node_cell_def
        INTERNAL_NODE_HEADER_SIZE_def node_layout)
  note C = write_icell_spec [OF I(1) m b e]
  show ?case
  proof (intro conjI allI impI)
    fix j :: nat assume j: "j < 510"
    show "internal_node_key q' j = (if j < Suc m then keys ! j else internal_node_key q j)"
      using C(2) [OF j] I(2) [OF j] by (simp add: less_Suc_eq)
    show "rd32 (14 + j * 8) q' = (if j < Suc m then children ! j else rd32 (14 + j * 8) q)"
      using C(3) [OF j] I(3) [OF j] by (simp add: less_Suc_eq)
  qed (use C(1,4) I(4) in simp_all)
qed

lemma node_bytes_spec:
  assumes len: "length page = 4096" and n: "length vs = length ss + 1" "length ss \<le> 509"
    and b: "\<forall>k\<in>set ss. k < 2 ^ 32" "\<forall>v\<in>set vs. v < 2 ^ 32" and par: "par < 2 ^ 32"
    and q: "q = node_bytes root par vs ss page"
  shows "length q = 4096" "node_seps q = ss" "node_kids q = vs" "q ! 0 = NODE_INTERNAL" "q ! 1 = root" "rd32 2 q = par"
proof -
  define q0 where "q0 = (blit 0 (replicate PAGE_USABLE_SIZE 0) page)[0 := NODE_INTERNAL, 1 := root]"
  have l0: "length q0 = 4096" using len by (simp add: q0_def PAGE_USABLE_SIZE_eq)
  define q1 where "q1 = wr32 2 par q0"
  define q2 where "q2 = wr32 6 (length ss) q1"
  define q3 where "q3 = wr32 10 (vs ! length ss) q2"
  have o: "(2::nat) + 4 \<le> 18" "(6::nat) + 4 \<le> 18" "(10::nat) + 4 \<le> 18" by simp_all
  note A1 = wr32_fields [OF l0 o(1), where v = par, folded q1_def]
  note A2 = wr32_fields [OF A1(1) o(2), where v = "length ss", folded q2_def]
  note A3 = wr32_fields [OF A2(1) o(3), where v = "vs ! length ss", folded q3_def]
  have e: "q = fold (\<lambda>i page. wr32 (parent_stage_cell i + INTERNAL_NODE_CHILD_SIZE) (ss ! i)
       (wr32 (parent_stage_cell i) (vs ! i) page)) [0..<length ss] q3"
    unfolding q node_bytes_def node_header_def write_cells_def n(1) q3_def q2_def q1_def q0_def internal_offsets node_offsets by simp
  have bs: "ss ! i < 2 ^ 32" "vs ! i < 2 ^ 32" if "i < length ss" for i using b that n by simp_all
  have m: "length ss \<le> 510" using n by simp
  note C = write_cells_spec [OF A3(1) m bs e]
  show lq: "length q = 4096" using C by blast
  have hd: "slice a k q = slice a k q3" if "a + k \<le> 14" for a k using C that by blast
  have r: "vs ! length ss < 2 ^ 32" using b(2) n(1) by simp
  have f: "rd32 6 q = length ss" "rd32 10 q = vs ! length ss" "rd32 2 q = par"
    unfolding rd32_def using hd [of 6 4] hd [of 10 4] hd [of 2 4] A3(3) [OF r] A3(4) [of 6] A3(4) [of 2] A2(3) A2(4) [of 2] A1(3) [OF par] n(2)
    by (simp_all add: rd32_def)
  show "rd32 2 q = par" by (rule f(3))
  have "node_seps q = ss \<and> node_kids q = vs"
  proof (rule node_lists_eqI)
    fix j assume j: "j < length ss"
    then show "internal_node_key q j = ss ! j" "rd32 (14 + j * 8) q = vs ! j" using C n(2) by simp_all
  qed (use f n in \<open>simp_all add: num_keys_rd\<close>)
  then show "node_seps q = ss" "node_kids q = vs" by simp_all
  have "q ! i = q3 ! i" if "i < 2" for i
    using arg_cong [OF hd [of 0 2], of "\<lambda>x. x ! i"] that lq A3(1) by simp
  moreover have "q3 ! i = q0 ! i" if "i < 2" for i
    using A3(6) [of i] A2(6) [of i] A1(6) [of i] that by simp
  moreover have "q0 ! 0 = NODE_INTERNAL" "q0 ! 1 = root" using len by (simp_all add: q0_def PAGE_USABLE_SIZE_eq)
  ultimately show "q ! 0 = NODE_INTERNAL" "q ! 1 = root" by simp_all
qed

lemma node_list_bounds: "\<forall>k\<in>set (node_seps p). k < 2 ^ 32" "\<forall>v\<in>set (node_kids p). v < 2 ^ 32"
proof -
  have r: "rd32 a p < 2 ^ 32" for a unfolding rd32_def by (rule get_u32_less)
  then show "\<forall>k\<in>set (node_seps p). k < 2 ^ 32" by (simp add: node_seps_def internal_node_key_def)
  have "child_at p i < 2 ^ 32" for i unfolding child_at_def by (rule r)
  then show "\<forall>v\<in>set (node_kids p). v < 2 ^ 32" unfolding node_kids_def by auto
qed

lemma node_bytes_valid:
  assumes len: "length page = 4096" and n: "length vs = length ss + 1" "length ss \<le> 509" "ss \<noteq> []"
    and b: "\<forall>k\<in>set ss. k < 2 ^ 32" "\<forall>v\<in>set vs. v < 2 ^ 32" and par: "par < 2 ^ 32"
  shows "parent_stage_validate (node_bytes root par vs ss page) \<longleftrightarrow> 0 \<notin> set vs \<and> distinct vs \<and> sorted_wrt (<) ss"
proof -
  note S = node_bytes_spec [OF len n(1,2) b par refl, of root]
  have "internal_node_num_keys (node_bytes root par vs ss page) = length ss" using arg_cong [OF S(2), of length] by simp
  then show ?thesis unfolding parent_stage_validate_iff using S n by simp
qed

section \<open>Removing a child\<close>

definition drop_at :: "nat \<Rightarrow> 'a list \<Rightarrow> 'a list" where
  "drop_at i xs = take i xs @ drop (Suc i) xs"

lemma drop_at_filter:
  assumes "i < n"
  shows "map f (filter (\<lambda>j. j \<noteq> i) [0..<n]) = drop_at i (map f [0..<n])"
proof -
  have "[0..<n] = [0..<i] @ i # [Suc i..<n]"
    using assms upt_add_eq_append [of 0 i "n - i"] upt_conv_Cons [of i n] by simp
  moreover have "filter (\<lambda>j. j \<noteq> i) [0..<i] = [0..<i]" "filter (\<lambda>j. j \<noteq> i) [Suc i..<n] = [Suc i..<n]"
    by (rule filter_True; simp)+
  ultimately have "filter (\<lambda>j. j \<noteq> i) [0..<n] = [0..<i] @ [Suc i..<n]" by simp
  moreover have "drop_at i [0..<n] = [0..<i] @ [Suc i..<n]" using assms by (simp add: drop_at_def min_def)
  ultimately show ?thesis by (simp add: drop_at_def take_map drop_map flip: map_append)
qed

lemma length_drop_at: "i < length xs \<Longrightarrow> length (drop_at i xs) = length xs - 1"
  by (simp add: drop_at_def)

lemma set_drop_at: "set (drop_at i xs) \<subseteq> set xs"
  by (auto simp: drop_at_def dest: in_set_takeD in_set_dropD)

lemma distinct_drop_at: "distinct xs \<Longrightarrow> distinct (drop_at i xs)"
  using set_take_disj_set_drop_if_distinct [of xs i "Suc i"] by (simp add: drop_at_def)

lemma sorted_drop_at:
  assumes "sorted_wrt P xs"
  shows "sorted_wrt P (drop_at i xs)"
proof -
  have s: "sorted_wrt P (take i xs @ drop i xs)" using assms by simp
  have "set (drop (Suc i) xs) \<subseteq> set (drop i xs)" using set_drop_subset_set_drop [of i "Suc i" xs] by simp
  then show ?thesis
    using s sorted_wrt_drop [OF assms, of "Suc i"] unfolding drop_at_def sorted_wrt_append by blast
qed

definition removes_at :: "bytes \<Rightarrow> nat \<Rightarrow> nat \<Rightarrow> nat \<Rightarrow> bool" where
  "removes_at p i c max_key \<longleftrightarrow> parent_stage_validate p \<and> c \<noteq> INVALID_PAGE_NUM \<and> 2 \<le> internal_node_num_keys p \<and>
     i \<le> internal_node_num_keys p \<and> node_kids p ! i = c \<and>
     (if i < internal_node_num_keys p then node_seps p ! i = max_key
      else 0 < node_seps p ! (i - 1) \<and> node_seps p ! (i - 1) < max_key)"

lemma removed_node:
  assumes r: "removes_at p i c max_key"
    and q: "q = node_bytes (p ! IS_ROOT_OFFSET) (rd32 PARENT_POINTER_OFFSET p) (drop_at i (node_kids p))
      (drop_at (min i (internal_node_num_keys p - 1)) (node_seps p)) (slice 0 4096 p)"
  shows "parent_stage_validate q" "length q = 4096" "node_kids q = drop_at i (node_kids p)"
    "node_seps q = drop_at (min i (internal_node_num_keys p - 1)) (node_seps p)" "q ! 1 = p ! 1" "rd32 2 q = rd32 2 p"
proof -
  let ?n = "internal_node_num_keys p"
  have R: "parent_stage_validate p" "2 \<le> ?n" "i \<le> ?n" using r unfolding removes_at_def by blast+
  note V = valid_nodeD [OF R(1)]
  let ?ss = "drop_at (min i (?n - 1)) (node_seps p)" and ?vs = "drop_at i (node_kids p)"
  have l: "length ?ss = ?n - 1" "length ?vs = ?n" using R by (simp_all add: length_drop_at)
  then have n: "length ?vs = length ?ss + 1" "length ?ss \<le> 509" "?ss \<noteq> []" using R(2) V(4) by auto
  have len: "length (slice 0 4096 p) = 4096" using scratch_usable [OF V(1)] by blast
  have b: "\<forall>k\<in>set ?ss. k < 2 ^ 32" "\<forall>v\<in>set ?vs. v < 2 ^ 32"
    using node_list_bounds [of p] set_drop_at [of _ "node_seps p"] set_drop_at [of _ "node_kids p"] by blast+
  have par: "rd32 2 p < 2 ^ 32" unfolding rd32_def by (rule get_u32_less)
  note S = node_bytes_spec [OF len n(1,2) b par refl, of "p ! 1"]
  show "length q = 4096" "node_kids q = ?vs" "node_seps q = ?ss" "q ! 1 = p ! 1" "rd32 2 q = rd32 2 p"
    unfolding q internal_offsets node_offsets using S by simp_all
  show "parent_stage_validate q"
    unfolding q internal_offsets node_offsets node_bytes_valid [OF len n b par]
    using V(5,6,7) set_drop_at [of i "node_kids p"] distinct_drop_at sorted_drop_at by blast
qed

lemma stage_child_remove_spec:
  "stage_child_remove p c max_key = Some (p', i, mx) \<longleftrightarrow> removes_at p i c max_key \<and>
    p' = published (node_bytes (p ! IS_ROOT_OFFSET) (rd32 PARENT_POINTER_OFFSET p) (drop_at i (node_kids p))
      (drop_at (min i (internal_node_num_keys p - 1)) (node_seps p)) (slice 0 4096 p)) p \<and>
    mx = (if i < internal_node_num_keys p then None else Some (node_seps p ! (i - 1)))"
proof (cases "parent_stage_validate p \<and> c \<noteq> 0 \<and> c \<noteq> INVALID_PAGE_NUM \<and> 2 \<le> internal_node_num_keys p")
  case False
  have "c \<noteq> 0" if "removes_at p i c max_key"
  proof -
    have "0 \<notin> set (node_kids p)" "node_kids p ! i = c" "i \<le> internal_node_num_keys p"
      using that valid_nodeD(5) unfolding removes_at_def by blast+
    moreover have "node_kids p ! i \<in> set (node_kids p)" by (rule nth_mem) (use \<open>i \<le> internal_node_num_keys p\<close> in simp)
    ultimately show ?thesis by metis
  qed
  then have "\<not> removes_at p i c max_key" using False unfolding removes_at_def by blast
  moreover have "stage_child_remove p c max_key = None"
    using False by (auto simp: stage_child_remove_def num_keys_rd)
  ultimately show ?thesis by simp
next
  case True
  let ?n = "internal_node_num_keys p"
  let ?q = "\<lambda>i. node_bytes (p ! IS_ROOT_OFFSET) (rd32 PARENT_POINTER_OFFSET p) (drop_at i (node_kids p))
      (drop_at (min i (?n - 1)) (node_seps p)) (slice 0 4096 p)"
  let ?loc = "locate_child p None c (?n + 1) [0..<?n + 1] (?n + 1)"
  have n6: "rd32 6 p = ?n" by (simp add: num_keys_rd)
  note V = valid_nodeD [OF conjunct1 [OF True]]
  have L: "?loc = Some i \<and> i \<noteq> ?n + 1 \<longleftrightarrow> i \<le> ?n \<and> node_kids p ! i = c" for i
    using locate_child_iff [OF V(6) refl refl, of None c] by simp
  have guard: "\<not> (length p < PAGE_SIZE \<or> c = 0 \<or> c = INVALID_PAGE_NUM \<or> \<not> parent_stage_validate p)"
    "\<not> (?n < 2 \<or> ?n > 509)"
    using True V(1,4) by (simp_all add: PAGE_SIZE_def)
  have kids: "map (child_at p) (filter (\<lambda>j. j \<noteq> i) [0..<?n + 1]) = drop_at i (node_kids p)" if "i \<le> ?n" for i
    using drop_at_filter [of i "?n + 1" "child_at p"] that unfolding node_kids_def by simp
  have keys: "map (internal_node_key p) (filter (\<lambda>j. \<not> (\<not> i = ?n \<and> j = i \<or> i = ?n \<and> j + 1 = ?n)) [0..<?n]) =
      drop_at (min i (?n - 1)) (node_seps p)" if "i \<le> ?n" for i
  proof -
    have "(\<lambda>j. \<not> (\<not> i = ?n \<and> j = i \<or> i = ?n \<and> j + 1 = ?n)) = (\<lambda>j. j \<noteq> min i (?n - 1))"
      using that V(3) by (auto simp: fun_eq_iff)
    then show ?thesis using drop_at_filter [of "min i (?n - 1)" ?n "internal_node_key p"] V(3) unfolding node_seps_def by simp
  qed
  have e: "stage_child_remove p c max_key = (case ?loc of None \<Rightarrow> None | Some i \<Rightarrow>
      if i = ?n + 1 then None
      else if i \<noteq> ?n \<and> internal_node_key p i \<noteq> max_key then None
      else let children = map (child_at p) (filter (\<lambda>j. j \<noteq> i) [0..<?n + 1]);
               keys = map (internal_node_key p) (filter (\<lambda>j. \<not> (\<not> i = ?n \<and> j = i \<or> i = ?n \<and> j + 1 = ?n)) [0..<?n]);
               scratch = node_bytes (p ! IS_ROOT_OFFSET) (rd32 PARENT_POINTER_OFFSET p) children keys (slice 0 4096 p)
           in if length children \<noteq> ?n \<or> length keys \<noteq> ?n - 1 \<or> \<not> parent_stage_validate scratch then None
              else let new_max = (if i = ?n then internal_node_key p (?n - 1) else 0)
                in if i = ?n \<and> (new_max = 0 \<or> new_max \<ge> max_key) then None
                   else Some (published scratch p, i, if i = ?n then Some new_max else None))"
    unfolding stage_child_remove_def if_not_P [OF guard(1)] internal_offsets n6 INTERNAL_NODE_MAX_KEYS_eq
      stage_child_at_eq stage_key_at_eq published_def PAGE_USABLE_SIZE_eq Let_def if_not_P [OF guard(2)] unfolding PAGE_SIZE_def by (rule refl)
  show ?thesis
  proof (cases "?loc = Some i \<and> i \<noteq> ?n + 1")
    case found: True
    then have i: "i \<le> ?n" "node_kids p ! i = c" using L by blast+
    have rm: "removes_at p i c max_key \<longleftrightarrow>
        (if i < ?n then internal_node_key p i = max_key else 0 < internal_node_key p (i - 1) \<and> internal_node_key p (i - 1) < max_key)"
    proof (cases "i < ?n")
      case True
      then show ?thesis unfolding removes_at_def using \<open>parent_stage_validate p \<and> _\<close> i by simp
    next
      case False
      then have "i = ?n" "node_seps p ! (i - 1) = internal_node_key p (i - 1)" using i V(3) by simp_all
      then show ?thesis unfolding removes_at_def using \<open>parent_stage_validate p \<and> _\<close> i by simp
    qed
    let ?s = "?q i"
    have size: "length (drop_at i (node_kids p)) = ?n" "length (drop_at (min i (?n - 1)) (node_seps p)) = ?n - 1"
      using i(1) V(3) by (simp_all add: length_drop_at)
    have e1: "stage_child_remove p c max_key = (if i \<noteq> ?n \<and> internal_node_key p i \<noteq> max_key then None
        else if \<not> parent_stage_validate ?s then None
        else if i = ?n \<and> ((if i = ?n then internal_node_key p (?n - 1) else 0) = 0 \<or>
          (if i = ?n then internal_node_key p (?n - 1) else 0) \<ge> max_key) then None
        else Some (published ?s p, i, if i = ?n then Some (if i = ?n then internal_node_key p (?n - 1) else 0) else None))"
      unfolding e conjunct1 [OF found] option.case if_not_P [OF conjunct2 [OF found]] Let_def kids [OF i(1)] keys [OF i(1)] size
      by simp
    show ?thesis
    proof (cases "removes_at p i c max_key")
      case r: True
      have v: "parent_stage_validate ?s" using removed_node(1) [OF r refl] .
      show ?thesis unfolding e1 using v r rm i(1) V(3) by (cases "i = ?n") auto
    next
      case False
      then have "stage_child_remove p c max_key = None" unfolding e1 using rm i(1) by (cases "i = ?n") auto
      with False show ?thesis by simp
    qed
  next
    case False
    then have "\<not> removes_at p i c max_key" unfolding removes_at_def using L by blast
    moreover have "stage_child_remove p c max_key \<noteq> Some (p', i, mx)"
    proof (cases ?loc)
      case None
      show ?thesis unfolding e None by simp
    next
      case (Some j)
      then have "j = ?n + 1 \<or> j \<noteq> i" using False by blast
      then show ?thesis unfolding e Some option.case Let_def by (elim disjE) simp_all
    qed
    ultimately show ?thesis by simp
  qed
qed

lemma stage_child_remove_Some:
  assumes "stage_child_remove p c max_key = Some (p', i, mx)"
  shows "removes_at p i c max_key" "parent_stage_validate p'" "node_kids p' = drop_at i (node_kids p)"
    "node_seps p' = drop_at (min i (internal_node_num_keys p - 1)) (node_seps p)"
    "mx = (if i < internal_node_num_keys p then None else Some (node_seps p ! (i - 1)))"
    "length p' = length p" "p' ! 1 = p ! 1" "rd32 2 p' = rd32 2 p" "drop 4092 p' = drop 4092 p"
proof -
  let ?q = "node_bytes (p ! IS_ROOT_OFFSET) (rd32 PARENT_POINTER_OFFSET p) (drop_at i (node_kids p))
      (drop_at (min i (internal_node_num_keys p - 1)) (node_seps p)) (slice 0 4096 p)"
  have r: "removes_at p i c max_key" and p': "p' = published ?q p"
    and mx: "mx = (if i < internal_node_num_keys p then None else Some (node_seps p ! (i - 1)))"
    using assms unfolding stage_child_remove_spec by blast+
  show "removes_at p i c max_key" "mx = (if i < internal_node_num_keys p then None else Some (node_seps p ! (i - 1)))"
    by (rule r, rule mx)
  note R = removed_node [OF r refl]
  have len: "4096 \<le> length p" using r valid_nodeD(1) unfolding removes_at_def by blast
  note P = published_spec [OF R(2) len, folded p']
  show "length p' = length p" "drop 4092 p' = drop 4092 p" by (rule P(1), rule P(3))
  have l4: "4096 \<le> length p'" "4096 \<le> length ?q" using P(1) len R(2) by simp_all
  show "parent_stage_validate p'" using parent_stage_validate_cong [OF P(2) l4] R(1) by blast
  note U = same_usable_node [OF P(2) valid_nodeD(4) [OF R(1)]]
  show "node_kids p' = drop_at i (node_kids p)" "node_seps p' = drop_at (min i (internal_node_num_keys p - 1)) (node_seps p)"
    using U R(3,4) by simp_all
  show "p' ! 1 = p ! 1" using nth_usable [OF P(2), of 1] l4 R(5) by simp
  show "rd32 2 p' = rd32 2 p" using rd32_cong_usable [OF P(2), of 2] R(6) by simp
qed

end
