(* ===== verification/StagedOverflow.thy ===== *)
theory StagedOverflow
  imports StagedNodeShrink
begin

text \<open>
  Splits of full internal nodes, after \<open>src/internal_root_split_stage.h\<close> and \<open>src/internal_nonroot_split_stage.h\<close>:
  children and keys of the node with the new child are merged in arrays, halved, and written to two pages.
\<close>

fun build_cells :: "nat list \<Rightarrow> nat list \<Rightarrow> nat list \<Rightarrow> nat \<Rightarrow> bytes \<Rightarrow> bytes option" where
  "build_cells children keys [] previous_key page = Some page"
| "build_cells children keys (i # is) previous_key page =
     (if children ! i = 0 \<or> keys ! i = 0 \<or> (i > 0 \<and> keys ! i \<le> previous_key) then None
      else build_cells children keys is (keys ! i)
             (wr32 (INTERNAL_NODE_HEADER_SIZE + i * INTERNAL_NODE_CELL_SIZE + INTERNAL_NODE_CHILD_SIZE) (keys ! i)
               (wr32 (INTERNAL_NODE_HEADER_SIZE + i * INTERNAL_NODE_CELL_SIZE) (children ! i) page)))"

definition build_node :: "bytes \<Rightarrow> nat \<Rightarrow> nat \<Rightarrow> nat list \<Rightarrow> nat list \<Rightarrow> nat \<Rightarrow> bytes option" where
  "build_node page page_num parent_page_num children keys child_count =
     (if page_num = 0 \<or> parent_page_num = page_num \<or> child_count < 2 \<or> child_count - 1 > INTERNAL_NODE_MAX_KEYS then None
      else case build_cells children keys [0..<child_count - 1] 0
                  (node_header 0 parent_page_num (child_count - 1) (children ! (child_count - 1)) page) of
             None \<Rightarrow> None
           | Some page' \<Rightarrow>
               if children ! (child_count - 1) = 0 then None
               else if parent_stage_validate page' then Some page' else None)"

definition merged_children :: "bytes \<Rightarrow> nat \<Rightarrow> nat \<Rightarrow> nat \<Rightarrow> nat \<Rightarrow> nat list" where
  "merged_children original left_index split_left split_right merged_child_count =
     (map (\<lambda>i. if i \<le> left_index then stage_child_at original i
               else if i = left_index + 1 then split_right
               else stage_child_at original (i - 1)) [0..<merged_child_count])[left_index := split_left]"

definition merged_keys :: "bytes \<Rightarrow> nat \<Rightarrow> nat \<Rightarrow> nat \<Rightarrow> nat \<Rightarrow> nat list" where
  "merged_keys original left_index new_left_max new_right_max merged_key_count =
     map (\<lambda>i. if i < left_index then stage_key_at original i
              else if i = left_index then new_left_max
              else if i = left_index + 1 then new_right_max
              else stage_key_at original (i - 1)) [0..<merged_key_count]"

definition increasing_keys :: "nat list \<Rightarrow> bool" where
  "increasing_keys keys \<longleftrightarrow> \<not> list_ex (\<lambda>i. keys ! i \<le> keys ! (i - 1)) [1..<length keys]"

definition stage_full_root :: "bytes \<Rightarrow> nat \<Rightarrow> bytes \<Rightarrow> nat \<Rightarrow> bytes \<Rightarrow> nat \<Rightarrow> nat \<Rightarrow> nat \<Rightarrow> nat \<Rightarrow> nat \<Rightarrow> nat \<Rightarrow>
    (bytes \<times> bytes \<times> bytes \<times> nat) option" where
  "stage_full_root root_page root_page_num left_page left_page_num right_page right_page_num split_left split_right
     old_left_max new_left_max new_right_max =
     (if length root_page < PAGE_SIZE \<or> length left_page < PAGE_SIZE \<or> length right_page < PAGE_SIZE \<or>
         left_page_num = 0 \<or> right_page_num = 0 \<or> root_page_num = left_page_num \<or> root_page_num = right_page_num \<or>
         left_page_num = right_page_num \<or> split_left = 0 \<or> split_right = 0 \<or> split_left = split_right \<or>
         new_left_max \<ge> new_right_max then None
      else if root_page ! NODE_TYPE_OFFSET \<noteq> NODE_INTERNAL \<or> root_page ! IS_ROOT_OFFSET = 0 \<or>
         rd32 INTERNAL_NODE_NUM_KEYS_OFFSET root_page \<noteq> INTERNAL_NODE_MAX_KEYS \<or> \<not> parent_stage_validate root_page then None
      else
        let old_key_count = INTERNAL_NODE_MAX_KEYS; old_child_count = old_key_count + 1;
            merged_child_count = old_child_count + 1; merged_key_count = merged_child_count - 1
        in case locate_child root_page (Some split_right) split_left old_child_count [0..<old_child_count] old_child_count of
             None \<Rightarrow> None
           | Some left_index \<Rightarrow>
               if left_index = old_child_count then None
               else if left_index \<noteq> old_key_count \<and>
                       (stage_key_at root_page left_index \<noteq> old_left_max \<or> new_right_max \<noteq> old_left_max) then None
               else
                 let children = merged_children root_page left_index split_left split_right merged_child_count;
                     keys = merged_keys root_page left_index new_left_max new_right_max merged_key_count
                 in if \<not> increasing_keys keys then None
                    else
                      let left_child_count = merged_child_count div 2;
                          right_child_count = merged_child_count - left_child_count
                      in if left_child_count < 2 \<or> right_child_count < 2 \<or> left_child_count - 1 > INTERNAL_NODE_MAX_KEYS \<or>
                            right_child_count - 1 > INTERNAL_NODE_MAX_KEYS then None
                         else case build_node (slice 0 PAGE_SIZE left_page) left_page_num root_page_num children keys left_child_count of
                                None \<Rightarrow> None
                              | Some scratch_left \<Rightarrow>
                                  (case build_node (slice 0 PAGE_SIZE right_page) right_page_num root_page_num
                                      (drop left_child_count children) (drop left_child_count keys) right_child_count of
                                    None \<Rightarrow> None
                                  | Some scratch_right \<Rightarrow>
                                      let root_separator = keys ! (left_child_count - 1);
                                          scratch_root = node_bytes 1 0 [left_page_num, right_page_num] [root_separator] (slice 0 PAGE_SIZE root_page)
                                      in if \<not> parent_stage_validate scratch_root \<or> stage_child_at scratch_root 0 \<noteq> left_page_num \<or>
                                            stage_child_at scratch_root 1 \<noteq> right_page_num \<or> stage_key_at scratch_root 0 \<noteq> root_separator then None
                                         else Some (blit 0 (slice 0 PAGE_USABLE_SIZE scratch_root) root_page,
                                                blit 0 (slice 0 PAGE_USABLE_SIZE scratch_left) left_page,
                                                blit 0 (slice 0 PAGE_USABLE_SIZE scratch_right) right_page, left_child_count)))"

definition stage_full_nonroot :: "bytes \<Rightarrow> nat \<Rightarrow> bytes \<Rightarrow> nat \<Rightarrow> nat \<Rightarrow> nat \<Rightarrow> nat \<Rightarrow> nat \<Rightarrow> nat \<Rightarrow>
    (bytes \<times> bytes \<times> nat \<times> nat) option" where
  "stage_full_nonroot full_page full_page_num right_page right_page_num split_left split_right
     old_left_max new_left_max new_right_max =
     (if length full_page < PAGE_SIZE \<or> length right_page < PAGE_SIZE \<or> full_page_num = 0 \<or> right_page_num = 0 \<or>
         full_page_num = right_page_num \<or> split_left = 0 \<or> split_right = 0 \<or> split_left = split_right \<or>
         new_left_max \<ge> new_right_max then None
      else
        let grandparent_page_num = rd32 PARENT_POINTER_OFFSET full_page
        in if full_page ! NODE_TYPE_OFFSET \<noteq> NODE_INTERNAL \<or> full_page ! IS_ROOT_OFFSET \<noteq> 0 \<or> grandparent_page_num = full_page_num \<or>
              rd32 INTERNAL_NODE_NUM_KEYS_OFFSET full_page \<noteq> INTERNAL_NODE_MAX_KEYS \<or> \<not> parent_stage_validate full_page then None
           else
             let old_key_count = INTERNAL_NODE_MAX_KEYS; old_child_count = old_key_count + 1;
                 merged_child_count = old_child_count + 1; merged_key_count = merged_child_count - 1
             in case locate_child full_page (Some split_right) split_left old_child_count [0..<old_child_count] old_child_count of
                  None \<Rightarrow> None
                | Some left_index \<Rightarrow>
                    if left_index = old_child_count then None
                    else if left_index \<noteq> old_key_count \<and>
                            (stage_key_at full_page left_index \<noteq> old_left_max \<or> new_right_max \<noteq> old_left_max) then None
                    else
                      let children = merged_children full_page left_index split_left split_right merged_child_count;
                          keys = merged_keys full_page left_index new_left_max new_right_max merged_key_count
                      in if \<not> increasing_keys keys then None
                         else
                           let left_child_count = merged_child_count div 2;
                               right_child_count = merged_child_count - left_child_count
                           in if left_child_count < 2 \<or> right_child_count < 2 \<or> left_child_count - 1 > INTERNAL_NODE_MAX_KEYS \<or>
                                 right_child_count - 1 > INTERNAL_NODE_MAX_KEYS then None
                              else
                                let promoted_left_max = keys ! (left_child_count - 1)
                                in case build_node (slice 0 PAGE_SIZE full_page) full_page_num grandparent_page_num children keys left_child_count of
                                     None \<Rightarrow> None
                                   | Some scratch_left \<Rightarrow>
                                       (case build_node (slice 0 PAGE_SIZE right_page) right_page_num grandparent_page_num
                                           (drop left_child_count children) (drop left_child_count keys) right_child_count of
                                         None \<Rightarrow> None
                                       | Some scratch_right \<Rightarrow>
                                           Some (blit 0 (slice 0 PAGE_USABLE_SIZE scratch_left) full_page,
                                             blit 0 (slice 0 PAGE_USABLE_SIZE scratch_right) right_page, promoted_left_max, left_child_count)))"

section \<open>Merging and building\<close>

lemma increasing_keys_iff: "increasing_keys ks \<longleftrightarrow> sorted_wrt (<) ks"
proof -
  have "sorted_wrt (<) ks \<longleftrightarrow> (\<forall>k. Suc k < length ks \<longrightarrow> ks ! k < ks ! Suc k)"
    unfolding sorted_wrt_iff_nth_Suc_transp [OF transp_on_less] ..
  also have "\<dots> \<longleftrightarrow> (\<forall>j\<in>set [1..<length ks]. ks ! (j - 1) < ks ! j)"
  proof (intro iffI ballI allI impI)
    fix j assume A: "\<forall>k. Suc k < length ks \<longrightarrow> ks ! k < ks ! Suc k" "j \<in> set [1..<length ks]"
    then show "ks ! (j - 1) < ks ! j" using A(1) [rule_format, of "j - 1"] by simp
  next
    fix k assume A: "\<forall>j\<in>set [1..<length ks]. ks ! (j - 1) < ks ! j" "Suc k < length ks"
    then show "ks ! k < ks ! Suc k" using A(1) [rule_format, of "Suc k"] by simp
  qed
  finally show ?thesis by (auto simp: increasing_keys_def list_ex_iff not_le)
qed

lemma merged_children_eq:
  assumes "i \<le> internal_node_num_keys p" "node_kids p ! i = l"
  shows "merged_children p i l r (internal_node_num_keys p + 2) = put_at (i + 1) r (node_kids p)"
proof (rule nth_equalityI)
  fix j assume "j < length (merged_children p i l r (internal_node_num_keys p + 2))"
  then have j: "j < internal_node_num_keys p + 2" by (simp add: merged_children_def)
  then have "merged_children p i l r (internal_node_num_keys p + 2) ! j =
      (if j = i then l else if j \<le> i then child_at p j else if j = i + 1 then r else child_at p (j - 1))"
    using assms(1) by (simp add: merged_children_def stage_child_at_eq nth_list_update del: upt_Suc)
  also have "\<dots> = put_at (i + 1) r (node_kids p) ! j"
    using assms j nth_node_lists(2) [of j p] nth_node_lists(2) [of "j - 1" p] by (subst nth_put_at) auto
  finally show "merged_children p i l r (internal_node_num_keys p + 2) ! j = put_at (i + 1) r (node_kids p) ! j" .
qed (simp add: merged_children_def)

lemma merged_keys_eq:
  assumes "i \<le> internal_node_num_keys p" "i < internal_node_num_keys p \<longrightarrow> node_seps p ! i = nr"
  shows "merged_keys p i nl nr (internal_node_num_keys p + 1) = put_at i nl (node_seps p)"
proof (rule nth_equalityI)
  fix j assume "j < length (merged_keys p i nl nr (internal_node_num_keys p + 1))"
  then have j: "j < internal_node_num_keys p + 1" by (simp add: merged_keys_def)
  then have "merged_keys p i nl nr (internal_node_num_keys p + 1) ! j =
      (if j < i then internal_node_key p j else if j = i then nl else if j = i + 1 then nr else internal_node_key p (j - 1))"
    by (simp add: merged_keys_def stage_key_at_eq del: upt_Suc)
  also have "\<dots> = put_at i nl (node_seps p) ! j"
    using assms j nth_node_lists(1) [of j p] nth_node_lists(1) [of "j - 1" p] by (subst nth_put_at) auto
  finally show "merged_keys p i nl nr (internal_node_num_keys p + 1) ! j = put_at i nl (node_seps p) ! j" .
qed (simp add: merged_keys_def)

lemma build_cells_iff:
  assumes "m \<le> n" "n \<le> length vs" "n \<le> length ss"
  shows "build_cells vs ss [m..<n] prev page = Some q \<longleftrightarrow>
    (\<forall>j. m \<le> j \<and> j < n \<longrightarrow> vs ! j \<noteq> 0 \<and> ss ! j \<noteq> 0 \<and> (0 < j \<longrightarrow> (if j = m then prev else ss ! (j - 1)) < ss ! j)) \<and>
    q = fold (\<lambda>i page. wr32 (parent_stage_cell i + INTERNAL_NODE_CHILD_SIZE) (ss ! i) (wr32 (parent_stage_cell i) (vs ! i) page)) [m..<n] page"
  using assms
proof (induction "n - m" arbitrary: m prev page)
  case 0
  then show ?case by auto
next
  case (Suc d)
  then have m: "m < n" and d: "d = n - Suc m" "Suc m \<le> n" by simp_all
  note IH = Suc.hyps(1) [OF d Suc.prems(2,3)]
  let ?P = "\<lambda>j. vs ! j \<noteq> 0 \<and> ss ! j \<noteq> 0 \<and> (0 < j \<longrightarrow> (if j = m then prev else ss ! (j - 1)) < ss ! j)"
  let ?w = "\<lambda>i page. wr32 (parent_stage_cell i + INTERNAL_NODE_CHILD_SIZE) (ss ! i) (wr32 (parent_stage_cell i) (vs ! i) page)"
  have from_m: "(\<forall>j. m \<le> j \<and> j < n \<longrightarrow> ?P j) \<longleftrightarrow> ?P m \<and> (\<forall>j. Suc m \<le> j \<and> j < n \<longrightarrow> ?P j)"
    by (rule all_from [OF m])
  have same: "(\<forall>j. Suc m \<le> j \<and> j < n \<longrightarrow> vs ! j \<noteq> 0 \<and> ss ! j \<noteq> 0 \<and> (0 < j \<longrightarrow> (if j = Suc m then ss ! m else ss ! (j - 1)) < ss ! j)) \<longleftrightarrow>
      (\<forall>j. Suc m \<le> j \<and> j < n \<longrightarrow> ?P j)"
    by (intro all_cong1 imp_cong refl; elim conjE; simp)
  have step: "build_cells vs ss [m..<n] prev page = (if \<not> ?P m then None else build_cells vs ss [Suc m..<n] (ss ! m) (?w m page))"
    using m by (simp add: upt_conv_Cons INTERNAL_NODE_HEADER_SIZE_def node_layout not_le)
  have folded: "fold ?w [m..<n] page = fold ?w [Suc m..<n] (?w m page)" using m by (simp add: upt_conv_Cons)
  show ?case
  proof (cases "?P m")
    case True
    then have nn: "\<not> \<not> ?P m" by blast
    show ?thesis unfolding step if_not_P [OF nn] IH same from_m folded using True by blast
  next
    case False
    show ?thesis unfolding step if_P [OF False] from_m using False by blast
  qed
qed

lemma build_node_iff:
  assumes len: "length page = 4096" and b: "\<forall>k\<in>set ss. k < 2 ^ 32" "\<forall>v\<in>set vs. v < 2 ^ 32" and par: "par < 2 ^ 32"
    and cc: "cc \<le> length vs" "cc - 1 \<le> length ss"
  shows "build_node page n par vs ss cc = Some q \<longleftrightarrow> n \<noteq> 0 \<and> par \<noteq> n \<and> 2 \<le> cc \<and> cc \<le> 510 \<and> 0 \<notin> set (take cc vs) \<and>
    distinct (take cc vs) \<and> 0 \<notin> set (take (cc - 1) ss) \<and> sorted_wrt (<) (take (cc - 1) ss) \<and>
    q = node_bytes 0 par (take cc vs) (take (cc - 1) ss) page"
proof (cases "n \<noteq> 0 \<and> par \<noteq> n \<and> 2 \<le> cc \<and> cc \<le> 510")
  case False
  then have "build_node page n par vs ss cc = None"
    unfolding build_node_def INTERNAL_NODE_MAX_KEYS_eq by auto
  then show ?thesis using False by auto
next
  case True
  let ?m = "cc - 1" and ?vs = "take cc vs" and ?ss = "take (cc - 1) ss"
  let ?q = "node_bytes 0 par ?vs ?ss page"
  have m: "?m \<le> length vs" "?m \<le> length ss" using cc True by auto
  have l: "length ?vs = cc" "length ?ss = ?m" using cc True by simp_all
  have n: "length ?vs = length ?ss + 1" "length ?ss \<le> 509" "?ss \<noteq> []" using l True by (auto simp flip: length_0_conv)
  have b': "\<forall>k\<in>set ?ss. k < 2 ^ 32" "\<forall>v\<in>set ?vs. v < 2 ^ 32" using b by (auto dest: in_set_takeD)
  note valid = node_bytes_valid [OF len n b' par, of 0]
  have w: "fold (\<lambda>i page. wr32 (parent_stage_cell i + INTERNAL_NODE_CHILD_SIZE) (ss ! i) (wr32 (parent_stage_cell i) (vs ! i) page)) [0..<?m]
      (node_header 0 par ?m (vs ! ?m) page) = ?q"
  proof -
    have "?vs ! ?m = vs ! ?m" using True by simp
    moreover have "fold (\<lambda>i page. wr32 (parent_stage_cell i + INTERNAL_NODE_CHILD_SIZE) (?ss ! i) (wr32 (parent_stage_cell i) (?vs ! i) page)) [0..<?m] x =
        fold (\<lambda>i page. wr32 (parent_stage_cell i + INTERNAL_NODE_CHILD_SIZE) (ss ! i) (wr32 (parent_stage_cell i) (vs ! i) page)) [0..<?m] x" for x
      by (rule fold_cong) simp_all
    ultimately show ?thesis unfolding node_bytes_def write_cells_def l by simp
  qed
  have cells: "build_cells vs ss [0..<?m] 0 (node_header 0 par ?m (vs ! ?m) page) = Some q' \<longleftrightarrow>
      0 \<notin> set (take ?m vs) \<and> 0 \<notin> set ?ss \<and> sorted_wrt (<) ?ss \<and> q' = ?q" for q'
  proof -
    have "0 \<notin> set (take ?m vs) \<longleftrightarrow> (\<forall>j<?m. vs ! j \<noteq> 0)" using m by (auto simp: in_set_conv_nth)
    moreover have "0 \<notin> set ?ss \<longleftrightarrow> (\<forall>j<?m. ss ! j \<noteq> 0)" using m by (auto simp: in_set_conv_nth)
    moreover have "sorted_wrt (<) ?ss \<longleftrightarrow> (\<forall>j. 0 < j \<and> j < ?m \<longrightarrow> ss ! (j - 1) < ss ! j)"
    proof -
      have "(\<forall>j\<in>{1..<?m}. ?ss ! (j - 1) < ?ss ! j) \<longleftrightarrow> (\<forall>j\<in>{1..<?m}. ss ! (j - 1) < ss ! j)"
        by (rule ball_cong) (simp_all add: less_imp_diff_less)
      moreover have "length ?ss = ?m" using m by simp
      then have "sorted_wrt (<) ?ss \<longleftrightarrow> (\<forall>j\<in>{1..<?m}. ?ss ! (j - 1) < ?ss ! j)"
        unfolding increasing_keys_iff [symmetric] increasing_keys_def by (auto simp: list_ex_iff not_le)
      ultimately show ?thesis by auto
    qed
    ultimately show ?thesis unfolding build_cells_iff [OF le0 m] w by auto
  qed
  have last: "set ?vs = insert (vs ! ?m) (set (take ?m vs))"
  proof -
    have "cc = Suc ?m" "?m < length vs" using True cc by auto
    then have "?vs = take ?m vs @ [vs ! ?m]" by (metis take_Suc_conv_app_nth)
    then show ?thesis by simp
  qed
  have e: "build_node page n par vs ss cc = (case build_cells vs ss [0..<?m] 0 (node_header 0 par ?m (vs ! ?m) page) of None \<Rightarrow> None
      | Some q' \<Rightarrow> if vs ! ?m = 0 then None else if parent_stage_validate q' then Some q' else None)"
    using True unfolding build_node_def INTERNAL_NODE_MAX_KEYS_eq by auto
  show ?thesis
  proof (cases "build_cells vs ss [0..<?m] 0 (node_header 0 par ?m (vs ! ?m) page)")
    case None
    then have "\<not> (0 \<notin> set (take ?m vs) \<and> 0 \<notin> set ?ss \<and> sorted_wrt (<) ?ss)" using cells [of ?q] by simp
    then show ?thesis unfolding e None using last by auto
  next
    case (Some q')
    then have C: "0 \<notin> set (take ?m vs)" "0 \<notin> set ?ss" "sorted_wrt (<) ?ss" "q' = ?q" using cells [of q'] by simp_all
    show ?thesis unfolding e Some option.case C(4) valid using C(1,2,3) last True by auto
  qed
qed

text \<open>The splits of full internal nodes as the halving of the merged lists, and when they succeed.\<close>

lemma put_at_sizes: "length (put_at i x xs) = length xs + 1"
  by simp

lemma if_either_None: "P \<or> Q \<Longrightarrow> (if P then None else if Q then None else x) = None"
  by auto

text \<open>The common part of both stages: finding the child and merging.\<close>

lemma locate_split:
  assumes v: "parent_stage_validate p" and n: "internal_node_num_keys p = 509"
  shows "locate_child p (Some r) l (509 + 1) [0..<509 + 1] (509 + 1) = Some i \<and> i \<noteq> 509 + 1 \<longleftrightarrow>
    i \<le> 509 \<and> node_kids p ! i = l \<and> r \<notin> set (node_kids p)"
proof -
  have "(\<forall>x. Some r = Some x \<longrightarrow> x \<notin> S) \<longleftrightarrow> r \<notin> S" for S by simp
  from locate_child_iff [OF valid_nodeD(6) [OF v] refl refl, of "Some r" l i, unfolded this n] show ?thesis .
qed

lemma merged_bounds:
  assumes "r < 2 ^ 32" "nl < 2 ^ 32" "i \<le> internal_node_num_keys p"
  shows "\<forall>k\<in>set (put_at i nl (node_seps p)). k < 2 ^ 32" "\<forall>v\<in>set (put_at (i + 1) r (node_kids p)). v < 2 ^ 32"
  using node_list_bounds [of p] assms by (simp_all add: set_put_at)

lemma set_drop_sub: "set (drop n xs) \<subseteq> set xs" "set (take n xs) \<subseteq> set xs"
  by (auto dest: in_set_dropD in_set_takeD)

lemma sorted_zero:
  fixes ss :: "nat list"
  assumes "sorted_wrt (<) ss" "0 < n" "n < length ss"
  shows "0 \<notin> set (take n ss) \<and> 0 \<notin> set (drop (n + 1) ss) \<longleftrightarrow> 0 \<notin> set ss"
proof -
  have "0 \<notin> set (drop 1 ss)"
  proof
    assume "0 \<in> set (drop 1 ss)"
    then obtain j where "j + 1 < length ss" "ss ! (j + 1) = 0" by (auto simp: in_set_conv_nth less_diff_conv)
    then show False using sorted_wrt_nth_less [OF assms(1), of 0 "j + 1"] by simp
  qed
  moreover have "set ss = insert (ss ! 0) (set (drop 1 ss))" using assms(3) by (cases ss) auto
  moreover have "ss ! 0 \<in> set (take n ss)" using assms(2,3) by (auto simp: in_set_conv_nth intro: exI [of _ 0])
  ultimately show ?thesis using set_drop_sub [where 'a = nat] by (metis insertE subsetD)
qed

lemma splits_at_pages:
  assumes "splits_at p i l r old nl nr"
  shows "parent_stage_validate p" "l \<noteq> 0" "l \<noteq> r" "r \<noteq> 0" "nl < nr"
proof -
  have "0 \<notin> set (node_kids p)" "i \<le> internal_node_num_keys p" "node_kids p ! i = l" "r \<notin> set (node_kids p)"
    using assms valid_nodeD(5) unfolding splits_at_def by blast+
  moreover have "node_kids p ! i \<in> set (node_kids p)" by (rule nth_mem) (use \<open>i \<le> internal_node_num_keys p\<close> in simp)
  ultimately show "l \<noteq> 0" "l \<noteq> r" by metis+
  show "parent_stage_validate p" "r \<noteq> 0" "nl < nr" using assms unfolding splits_at_def by blast+
qed

text \<open>The search for the child, the comparison of its separator and the check of the merged keys together ask for
  \<open>splits_at\<close>.\<close>

lemma locate_and_merge:
  fixes F :: "nat \<Rightarrow> 'a option"
  assumes v: "parent_stage_validate p" and n: "internal_node_num_keys p = 509" and r: "r \<noteq> 0" "nl < nr"
  shows "(case locate_child p (Some r) l (509 + 1) [0..<509 + 1] (509 + 1) of None \<Rightarrow> None | Some i \<Rightarrow>
      if i = 509 + 1 then None else if i \<noteq> 509 \<and> (internal_node_key p i \<noteq> old \<or> nr \<noteq> old) then None
      else if \<not> increasing_keys (merged_keys p i nl nr (509 + 1 + 1 - 1)) then None else F i) = Some x \<longleftrightarrow>
    (\<exists>i. splits_at p i l r old nl nr \<and> F i = Some x)"
  (is "(case ?loc of None \<Rightarrow> None | Some i \<Rightarrow> ?body i) = Some x \<longleftrightarrow> _")
proof -
  note L = locate_split [OF v n, of r l]
  have one: "?body i = Some x \<longleftrightarrow> splits_at p i l r old nl nr \<and> F i = Some x" if "?loc = Some i \<and> i \<noteq> 509 + 1" for i
  proof -
    have k: "i \<le> 509" "node_kids p ! i = l" "r \<notin> set (node_kids p)" using L that by blast+
    have sp: "splits_at p i l r old nl nr \<longleftrightarrow> (i < 509 \<longrightarrow> internal_node_key p i = old \<and> nr = old) \<and>
        sorted_wrt (<) (put_at i nl (node_seps p))"
      unfolding splits_at_def n using v n k r by auto
    show ?thesis
    proof (cases "i < 509 \<longrightarrow> internal_node_key p i = old \<and> nr = old")
      case True
      then have "merged_keys p i nl nr 510 = put_at i nl (node_seps p)" using merged_keys_eq [of i p nr nl] n k(1) by simp
      moreover have "\<not> (i \<noteq> 509 \<and> (internal_node_key p i \<noteq> old \<or> nr \<noteq> old))" using True k(1) by auto
      moreover have "509 + 1 + 1 - 1 = (510::nat)" by simp
      ultimately show ?thesis unfolding sp if_not_P [OF conjunct2 [OF that]] increasing_keys_iff using True by auto
    next
      case False
      then show ?thesis unfolding sp if_not_P [OF conjunct2 [OF that]] by auto
    qed
  qed
  have sp: "?loc = Some i \<and> i \<noteq> 509 + 1" if "splits_at p i l r old nl nr" for i
    unfolding L using that unfolding splits_at_def n by blast
  show ?thesis
  proof (cases "\<exists>i. ?loc = Some i \<and> i \<noteq> 509 + 1")
    case True
    then obtain i where i: "?loc = Some i \<and> i \<noteq> 509 + 1" by blast
    have only: "i' = i" if "splits_at p i' l r old nl nr" for i' using sp [OF that] i by simp
    show ?thesis unfolding conjunct1 [OF i] option.case one [OF i] using only by blast
  next
    case False
    then have "(case ?loc of None \<Rightarrow> None | Some i \<Rightarrow> ?body i) = None" by (auto split: option.splits)
    then show ?thesis using False sp by auto
  qed
qed

lemma merged_lists:
  assumes s: "splits_at p i l r old nl nr" and n: "internal_node_num_keys p = 509" and b: "r < 2 ^ 32" "nl < 2 ^ 32"
  shows "merged_children p i l r 511 = put_at (i + 1) r (node_kids p)" "merged_keys p i nl nr 510 = put_at i nl (node_seps p)"
    "length (put_at (i + 1) r (node_kids p)) = 511" "length (put_at i nl (node_seps p)) = 510"
    "distinct (put_at (i + 1) r (node_kids p))" "0 \<notin> set (put_at (i + 1) r (node_kids p))"
    "\<forall>k\<in>set (put_at i nl (node_seps p)). k < 2 ^ 32" "\<forall>v\<in>set (put_at (i + 1) r (node_kids p)). v < 2 ^ 32"
    "sorted_wrt (<) (put_at i nl (node_seps p))"
proof -
  have A: "parent_stage_validate p" "i \<le> 509" "node_kids p ! i = l" "r \<notin> set (node_kids p)" "r \<noteq> 0"
    "i < 509 \<longrightarrow> node_seps p ! i = nr" "sorted_wrt (<) (put_at i nl (node_seps p))"
    using s n unfolding splits_at_def by auto
  note V = valid_nodeD [OF A(1)]
  show "merged_children p i l r 511 = put_at (i + 1) r (node_kids p)" using merged_children_eq [of i p l r] n A by simp
  show "merged_keys p i nl nr 510 = put_at i nl (node_seps p)" using merged_keys_eq [of i p nr nl] n A by simp
  show "length (put_at (i + 1) r (node_kids p)) = 511" "length (put_at i nl (node_seps p)) = 510" using n by simp_all
  show "distinct (put_at (i + 1) r (node_kids p))" "0 \<notin> set (put_at (i + 1) r (node_kids p))"
    unfolding distinct_put_at_iff using V(5,6) A n by (simp_all add: set_put_at)
  show "\<forall>k\<in>set (put_at i nl (node_seps p)). k < 2 ^ 32" "\<forall>v\<in>set (put_at (i + 1) r (node_kids p)). v < 2 ^ 32"
    using merged_bounds [OF b, of i p] A(2) n by simp_all
  show "sorted_wrt (<) (put_at i nl (node_seps p))" by (rule A(7))
qed

lemma build_halves:
  assumes l: "length vs = 511" "length ss = 510" and vs: "distinct vs" "0 \<notin> set vs" "\<forall>v\<in>set vs. v < 2 ^ 32"
    and ss: "\<forall>k\<in>set ss. k < 2 ^ 32" "sorted_wrt (<) ss" and g: "g < 2 ^ 32" and page: "length page = 4096"
  shows "build_node page a g vs ss 255 = Some x \<longleftrightarrow> a \<noteq> 0 \<and> g \<noteq> a \<and> 0 \<notin> set (take 254 ss) \<and>
      x = node_bytes 0 g (take 255 vs) (take 254 ss) page"
    "build_node page a g (drop 255 vs) (drop 255 ss) 256 = Some x \<longleftrightarrow> a \<noteq> 0 \<and> g \<noteq> a \<and> 0 \<notin> set (drop 255 ss) \<and>
      x = node_bytes 0 g (drop 255 vs) (drop 255 ss) page"
    "0 \<notin> set (take 254 ss) \<and> 0 \<notin> set (drop 255 ss) \<longleftrightarrow> 0 \<notin> set ss"
proof -
  have c: "255 \<le> length vs" "255 - 1 \<le> length ss" using l by simp_all
  have h: "255 - 1 = (254::nat)" by simp
  show "build_node page a g vs ss 255 = Some x \<longleftrightarrow> a \<noteq> 0 \<and> g \<noteq> a \<and> 0 \<notin> set (take 254 ss) \<and>
      x = node_bytes 0 g (take 255 vs) (take 254 ss) page"
    unfolding build_node_iff [OF page ss(1) vs(3) g c] h
    using vs ss(2) set_drop_sub(2) [of 255 vs] by (auto intro: sorted_wrt_take)
  have d: "256 \<le> length (drop 255 vs)" "256 - 1 \<le> length (drop 255 ss)" using l by simp_all
  have bd: "\<forall>k\<in>set (drop 255 ss). k < 2 ^ 32" "\<forall>v\<in>set (drop 255 vs). v < 2 ^ 32" using vs(3) ss(1) by (auto dest: in_set_dropD)
  have tk: "take 256 (drop 255 vs) = drop 255 vs" "take (256 - 1) (drop 255 ss) = drop 255 ss" using l by simp_all
  show "build_node page a g (drop 255 vs) (drop 255 ss) 256 = Some x \<longleftrightarrow> a \<noteq> 0 \<and> g \<noteq> a \<and> 0 \<notin> set (drop 255 ss) \<and>
      x = node_bytes 0 g (drop 255 vs) (drop 255 ss) page"
    unfolding build_node_iff [OF page bd g d] tk
    using vs ss(2) set_drop_sub(1) [of 255 vs] by (auto intro: sorted_wrt_drop distinct_drop)
  show "0 \<notin> set (take 254 ss) \<and> 0 \<notin> set (drop 255 ss) \<longleftrightarrow> 0 \<notin> set ss"
    using sorted_zero [OF ss(2), of 254] l by simp
qed

lemma stage_full_nonroot_iff:
  assumes b: "r < 2 ^ 32" "nl < 2 ^ 32"
  shows "stage_full_nonroot p pn q qn l r old nl nr = Some (p', q', m, cc) \<longleftrightarrow>
    (\<exists>i. splits_at p i l r old nl nr \<and> internal_node_num_keys p = 509 \<and> p ! 1 = 0 \<and> 4096 \<le> length q \<and>
       pn \<noteq> 0 \<and> qn \<noteq> 0 \<and> pn \<noteq> qn \<and> rd32 2 p \<noteq> pn \<and> rd32 2 p \<noteq> qn \<and> 0 \<notin> set (put_at i nl (node_seps p)) \<and>
       (let vs = put_at (i + 1) r (node_kids p); ss = put_at i nl (node_seps p)
        in m = ss ! 254 \<and> cc = 255 \<and>
           p' = published (node_bytes 0 (rd32 2 p) (take 255 vs) (take 254 ss) (slice 0 4096 p)) p \<and>
           q' = published (node_bytes 0 (rd32 2 p) (drop 255 vs) (drop 255 ss) (slice 0 4096 q)) q))"
  (is "?L \<longleftrightarrow> (\<exists>i. ?R i)")
proof (cases "parent_stage_validate p \<and> 4096 \<le> length q \<and> pn \<noteq> 0 \<and> qn \<noteq> 0 \<and> pn \<noteq> qn \<and> l \<noteq> 0 \<and> r \<noteq> 0 \<and> l \<noteq> r \<and> nl < nr \<and>
    p ! 1 = 0 \<and> rd32 2 p \<noteq> pn \<and> internal_node_num_keys p = 509")
  case False
  then have "\<not> ?R i" for i using splits_at_pages [of p i l r old nl nr] by blast
  moreover have "stage_full_nonroot p pn q qn l r old nl nr = None"
  proof (cases "parent_stage_validate p")
    case v: True
    have g: "length p < PAGE_SIZE \<or> length q < PAGE_SIZE \<or> pn = 0 \<or> qn = 0 \<or> pn = qn \<or> l = 0 \<or> r = 0 \<or> l = r \<or> nr \<le> nl \<or>
        (p ! NODE_TYPE_OFFSET \<noteq> NODE_INTERNAL \<or> p ! IS_ROOT_OFFSET \<noteq> 0 \<or> rd32 PARENT_POINTER_OFFSET p = pn \<or>
          rd32 INTERNAL_NODE_NUM_KEYS_OFFSET p \<noteq> INTERNAL_NODE_MAX_KEYS \<or> \<not> parent_stage_validate p)"
      unfolding internal_offsets node_offsets INTERNAL_NODE_MAX_KEYS_eq num_keys_rd [symmetric] PAGE_SIZE_def not_less [symmetric]
      using False by linarith
    then show ?thesis unfolding stage_full_nonroot_def Let_def by (simp only: if_True split: if_split) blast
  qed (simp add: stage_full_nonroot_def Let_def)
  ultimately show ?thesis by simp
next
  case True
  then have v: "parent_stage_validate p" and n: "internal_node_num_keys p = 509" and lq: "4096 \<le> length q" and r0: "r \<noteq> 0" "nl < nr"
    by simp_all
  note V = valid_nodeD [OF v]
  let ?g = "rd32 2 p"
  have g1: "\<not> (length p < PAGE_SIZE \<or> length q < PAGE_SIZE \<or> pn = 0 \<or> qn = 0 \<or> pn = qn \<or> l = 0 \<or> r = 0 \<or> l = r \<or> nl \<ge> nr)"
    using True V(1) by (simp add: PAGE_SIZE_def)
  have g2: "\<not> (p ! 0 \<noteq> NODE_INTERNAL \<or> p ! 1 \<noteq> 0 \<or> rd32 2 p = pn \<or> rd32 6 p \<noteq> 509 \<or> \<not> parent_stage_validate p)"
    using True V(2) n by (simp add: num_keys_rd)
  have g3: "\<not> ((509 + 1 + 1) div 2 < (2::nat) \<or> 509 + 1 + 1 - (509 + 1 + 1) div 2 < (2::nat) \<or> (509 + 1 + 1) div 2 - 1 > (509::nat) \<or>
      509 + 1 + 1 - (509 + 1 + 1) div 2 - 1 > (509::nat))" by simp
  have halves: "509 + 1 + 1 = (511::nat)" "511 div 2 = (255::nat)" "511 - 255 = (256::nat)" "511 - 1 = (510::nat)" "255 - 1 = (254::nat)"
    by simp_all
  let ?F = "\<lambda>i. case build_node (slice 0 4096 p) pn ?g (merged_children p i l r 511) (merged_keys p i nl nr 510) 255 of None \<Rightarrow> None
      | Some sl \<Rightarrow> (case build_node (slice 0 4096 q) qn ?g (drop 255 (merged_children p i l r 511)) (drop 255 (merged_keys p i nl nr 510)) 256 of
          None \<Rightarrow> None | Some sr \<Rightarrow> Some (published sl p, published sr q, merged_keys p i nl nr 510 ! 254, 255::nat))"
  have e: "stage_full_nonroot p pn q qn l r old nl nr = (case locate_child p (Some r) l (509 + 1) [0..<509 + 1] (509 + 1) of
      None \<Rightarrow> None | Some i \<Rightarrow>
      if i = 509 + 1 then None else if i \<noteq> 509 \<and> (internal_node_key p i \<noteq> old \<or> nr \<noteq> old) then None
      else if \<not> increasing_keys (merged_keys p i nl nr (509 + 1 + 1 - 1)) then None else ?F i)"
    unfolding stage_full_nonroot_def if_not_P [OF g1] Let_def internal_offsets node_offsets INTERNAL_NODE_MAX_KEYS_eq if_not_P [OF g2]
      if_not_P [OF g3] stage_key_at_eq published_def PAGE_USABLE_SIZE_eq unfolding PAGE_SIZE_def halves by (rule refl)
  have F: "?F i = Some (p', q', m, cc) \<longleftrightarrow> ?R i" if s: "splits_at p i l r old nl nr" for i
  proof -
    note M = merged_lists [OF s n b]
    have ls: "length (slice 0 4096 p) = 4096" "length (slice 0 4096 q) = 4096" using scratch_usable V(1) lq by blast+
    have gb: "?g < 2 ^ 32" unfolding rd32_def by (rule get_u32_less)
    note B = build_halves [OF M(3,4,5,6,8,7,9) gb]
    have "?F i = Some (p', q', m, cc) \<longleftrightarrow>
        (\<exists>sl sr. build_node (slice 0 4096 p) pn ?g (put_at (i + 1) r (node_kids p)) (put_at i nl (node_seps p)) 255 = Some sl \<and>
          build_node (slice 0 4096 q) qn ?g (drop 255 (put_at (i + 1) r (node_kids p))) (drop 255 (put_at i nl (node_seps p))) 256 = Some sr \<and>
          (p', q', m, cc) = (published sl p, published sr q, put_at i nl (node_seps p) ! 254, 255))"
      unfolding M(1,2) by (auto split: option.splits)
    then show ?thesis unfolding B(1) [OF ls(1)] B(2) [OF ls(2)] Let_def using B(3) [OF ls(1)] True s by auto
  qed
  show ?thesis unfolding e locate_and_merge [OF v n r0] using F by blast
qed

lemma stage_full_root_iff:
  assumes b: "r < 2 ^ 32" "nl < 2 ^ 32" "an < 2 ^ 32" "bn < 2 ^ 32" "pn < 2 ^ 32"
  shows "stage_full_root p pn a an c bn l r old nl nr = Some (p', a', c', cc) \<longleftrightarrow>
    (\<exists>i. splits_at p i l r old nl nr \<and> internal_node_num_keys p = 509 \<and> p ! 1 \<noteq> 0 \<and> 4096 \<le> length a \<and> 4096 \<le> length c \<and>
       an \<noteq> 0 \<and> bn \<noteq> 0 \<and> an \<noteq> bn \<and> pn \<noteq> an \<and> pn \<noteq> bn \<and> 0 \<notin> set (put_at i nl (node_seps p)) \<and>
       (let vs = put_at (i + 1) r (node_kids p); ss = put_at i nl (node_seps p)
        in cc = 255 \<and> p' = published (node_bytes 1 0 [an, bn] [ss ! 254] (slice 0 4096 p)) p \<and>
           a' = published (node_bytes 0 pn (take 255 vs) (take 254 ss) (slice 0 4096 a)) a \<and>
           c' = published (node_bytes 0 pn (drop 255 vs) (drop 255 ss) (slice 0 4096 c)) c))"
  (is "?L \<longleftrightarrow> (\<exists>i. ?R i)")
proof (cases "parent_stage_validate p \<and> 4096 \<le> length a \<and> 4096 \<le> length c \<and> an \<noteq> 0 \<and> bn \<noteq> 0 \<and> an \<noteq> bn \<and> pn \<noteq> an \<and> pn \<noteq> bn \<and>
    l \<noteq> 0 \<and> r \<noteq> 0 \<and> l \<noteq> r \<and> nl < nr \<and> p ! 1 \<noteq> 0 \<and> internal_node_num_keys p = 509")
  case False
  then have "\<not> ?R i" for i using splits_at_pages [of p i l r old nl nr] by blast
  moreover have "stage_full_root p pn a an c bn l r old nl nr = None"
  proof (cases "parent_stage_validate p")
    case v: True
    have g: "length p < PAGE_SIZE \<or> length a < PAGE_SIZE \<or> length c < PAGE_SIZE \<or> an = 0 \<or> bn = 0 \<or> pn = an \<or> pn = bn \<or> an = bn \<or>
        l = 0 \<or> r = 0 \<or> l = r \<or> nr \<le> nl \<or>
        (p ! NODE_TYPE_OFFSET \<noteq> NODE_INTERNAL \<or> p ! IS_ROOT_OFFSET = 0 \<or>
          rd32 INTERNAL_NODE_NUM_KEYS_OFFSET p \<noteq> INTERNAL_NODE_MAX_KEYS \<or> \<not> parent_stage_validate p)"
      unfolding internal_offsets node_offsets INTERNAL_NODE_MAX_KEYS_eq num_keys_rd [symmetric] PAGE_SIZE_def not_less [symmetric]
      using False by linarith
    then show ?thesis unfolding stage_full_root_def Let_def by (simp only: if_True split: if_split) blast
  qed (simp add: stage_full_root_def Let_def)
  ultimately show ?thesis by simp
next
  case True
  then have v: "parent_stage_validate p" and n: "internal_node_num_keys p = 509" and la: "4096 \<le> length a" "4096 \<le> length c"
    and r0: "r \<noteq> 0" "nl < nr" by simp_all
  note V = valid_nodeD [OF v]
  have g1: "\<not> (length p < PAGE_SIZE \<or> length a < PAGE_SIZE \<or> length c < PAGE_SIZE \<or> an = 0 \<or> bn = 0 \<or> pn = an \<or> pn = bn \<or> an = bn \<or>
      l = 0 \<or> r = 0 \<or> l = r \<or> nl \<ge> nr)"
    using True V(1) by (simp add: PAGE_SIZE_def)
  have g2: "\<not> (p ! 0 \<noteq> NODE_INTERNAL \<or> p ! 1 = 0 \<or> rd32 6 p \<noteq> 509 \<or> \<not> parent_stage_validate p)"
    using True V(2) n by (simp add: num_keys_rd)
  have g3: "\<not> ((509 + 1 + 1) div 2 < (2::nat) \<or> 509 + 1 + 1 - (509 + 1 + 1) div 2 < (2::nat) \<or> (509 + 1 + 1) div 2 - 1 > (509::nat) \<or>
      509 + 1 + 1 - (509 + 1 + 1) div 2 - 1 > (509::nat))" by simp
  have halves: "509 + 1 + 1 = (511::nat)" "511 div 2 = (255::nat)" "511 - 255 = (256::nat)" "511 - 1 = (510::nat)" "255 - 1 = (254::nat)"
    by simp_all
  let ?root = "\<lambda>ss. node_bytes 1 0 [an, bn] [ss ! 254] (slice 0 4096 p)"
  let ?bad = "\<lambda>ss. \<not> parent_stage_validate (?root ss) \<or> child_at (?root ss) 0 \<noteq> an \<or> child_at (?root ss) 1 \<noteq> bn \<or>
      internal_node_key (?root ss) 0 \<noteq> ss ! 254"
  let ?F = "\<lambda>i. case build_node (slice 0 4096 a) an pn (merged_children p i l r 511) (merged_keys p i nl nr 510) 255 of None \<Rightarrow> None
      | Some sl \<Rightarrow> (case build_node (slice 0 4096 c) bn pn (drop 255 (merged_children p i l r 511)) (drop 255 (merged_keys p i nl nr 510)) 256 of
          None \<Rightarrow> None
        | Some sr \<Rightarrow> if ?bad (merged_keys p i nl nr 510) then None
            else Some (published (?root (merged_keys p i nl nr 510)) p, published sl a, published sr c, 255::nat))"
  have e: "stage_full_root p pn a an c bn l r old nl nr = (case locate_child p (Some r) l (509 + 1) [0..<509 + 1] (509 + 1) of
      None \<Rightarrow> None | Some i \<Rightarrow>
      if i = 509 + 1 then None else if i \<noteq> 509 \<and> (internal_node_key p i \<noteq> old \<or> nr \<noteq> old) then None
      else if \<not> increasing_keys (merged_keys p i nl nr (509 + 1 + 1 - 1)) then None else ?F i)"
    unfolding stage_full_root_def if_not_P [OF g1] Let_def internal_offsets node_offsets INTERNAL_NODE_MAX_KEYS_eq if_not_P [OF g2]
      if_not_P [OF g3] stage_key_at_eq stage_child_at_eq published_def PAGE_USABLE_SIZE_eq unfolding PAGE_SIZE_def halves by (rule refl)
  have F: "?F i = Some (p', a', c', cc) \<longleftrightarrow> ?R i" if s: "splits_at p i l r old nl nr" for i
  proof -
    note M = merged_lists [OF s n b(1,2)]
    let ?ss = "put_at i nl (node_seps p)" and ?vs = "put_at (i + 1) r (node_kids p)"
    have ls: "length (slice 0 4096 p) = 4096" "length (slice 0 4096 a) = 4096" "length (slice 0 4096 c) = 4096"
      using scratch_usable V(1) la by blast+
    note B = build_halves [OF M(3,4,5,6,8,7,9) b(5)]
    have "?ss ! 254 < 2 ^ 32" using M(7) M(4) by (simp add: all_set_conv_all_nth)
    then have bs: "\<forall>k\<in>set [?ss ! 254]. k < 2 ^ 32" "\<forall>k\<in>set [an, bn]. k < 2 ^ 32" using b by simp_all
    have sz: "length [an, bn] = length [?ss ! 254] + 1" "length [?ss ! 254] \<le> 509" "[?ss ! 254] \<noteq> []" "(0::nat) < 2 ^ 32" by simp_all
    note R = node_bytes_spec [OF ls(1) sz(1,2) bs sz(4) refl, of 1] node_bytes_valid [OF ls(1) sz(1,2,3) bs sz(4), of 1]
    have num: "internal_node_num_keys (?root ?ss) = 1" using arg_cong [OF R(2), of length] by simp
    have "child_at (?root ?ss) 0 = an" "child_at (?root ?ss) 1 = bn" "internal_node_key (?root ?ss) 0 = ?ss ! 254"
      using nth_node_lists(2) [of 0 "?root ?ss"] nth_node_lists(2) [of 1 "?root ?ss"] nth_node_lists(1) [of 0 "?root ?ss"]
      unfolding num R(2,3) by simp_all
    then have good: "\<not> ?bad ?ss" using R(7) True by simp
    have "?F i = Some (p', a', c', cc) \<longleftrightarrow>
        (\<exists>sl sr. build_node (slice 0 4096 a) an pn ?vs ?ss 255 = Some sl \<and>
          build_node (slice 0 4096 c) bn pn (drop 255 ?vs) (drop 255 ?ss) 256 = Some sr \<and>
          (p', a', c', cc) = (published (?root ?ss) p, published sl a, published sr c, 255))"
      unfolding M(1,2) if_not_P [OF good] by (auto split: option.splits)
    then show ?thesis unfolding B(1) [OF ls(2)] B(2) [OF ls(3)] Let_def using B(3) [OF ls(1)] True s by auto
  qed
  show ?thesis unfolding e locate_and_merge [OF v n r0] using F by blast
qed

end
