(* ===== verification/StagedRoutes.thy ===== *)
theory StagedRoutes
  imports StagedOverflow
begin

text \<open>The child a key leads to, and how it changes when a child splits, a node is halved or a child is removed.\<close>

section \<open>The position of a key between separators\<close>

definition route_index :: "nat list \<Rightarrow> nat \<Rightarrow> nat" where
  "route_index ss k = length (takeWhile (\<lambda>s. s < k) ss)"

definition node_route :: "bytes \<Rightarrow> nat \<Rightarrow> nat" where
  "node_route p k = node_kids p ! route_index (node_seps p) k"

lemma route_index_eqI:
  assumes "j \<le> length ss" "\<And>x. x < j \<Longrightarrow> ss ! x < k" "j < length ss \<Longrightarrow> k \<le> ss ! j"
  shows "route_index ss k = j"
proof -
  have "takeWhile (\<lambda>s. s < k) ss = take j ss"
    by (rule takeWhile_eq_take_P_nth) (use assms in \<open>auto simp: not_less\<close>)
  then show ?thesis using assms(1) by (simp add: route_index_def)
qed

lemma route_indexD:
  "route_index ss k \<le> length ss" "x < route_index ss k \<Longrightarrow> ss ! x < k" "route_index ss k < length ss \<Longrightarrow> k \<le> ss ! route_index ss k"
proof -
  show "route_index ss k \<le> length ss" by (simp add: route_index_def length_takeWhile_le)
  show "ss ! x < k" if "x < route_index ss k"
  proof -
    have "takeWhile (\<lambda>s. s < k) ss ! x \<in> set (takeWhile (\<lambda>s. s < k) ss)" using that by (simp add: route_index_def)
    then have "takeWhile (\<lambda>s. s < k) ss ! x < k" by (auto dest: set_takeWhileD)
    moreover have "takeWhile (\<lambda>s. s < k) ss ! x = ss ! x" using that by (simp add: route_index_def takeWhile_nth)
    ultimately show ?thesis by simp
  qed
  show "k \<le> ss ! route_index ss k" if "route_index ss k < length ss"
    using nth_length_takeWhile [of "\<lambda>s. s < k" ss] that by (simp add: route_index_def not_less)
qed

lemma route_put_at:
  assumes s: "sorted_wrt (<) (put_at i x ss)" and i: "i \<le> length ss"
  shows "route_index (put_at i x ss) k =
    (if route_index ss k < i then route_index ss k
     else if route_index ss k = i then if k \<le> x then i else i + 1 else route_index ss k + 1)"
proof -
  let ?j = "route_index ss k"
  note R = route_indexD [where ss = ss and k = k]
  have n: "put_at i x ss ! y = (if y < i then ss ! y else if y = i then x else ss ! (y - 1))" if "y \<le> length ss" for y
    using that i by (rule nth_put_at [rotated])
  have xs: "x < ss ! i" if "i < length ss"
    using sorted_wrt_nth_less [OF s, of i "i + 1"] that by (simp add: n)
  consider "?j < i" | "?j = i" "k \<le> x" | "?j = i" "x < k" | "i < ?j" by linarith
  then show ?thesis
  proof cases
    case 1
    then show ?thesis using R i by (intro route_index_eqI) (auto simp: n)
  next
    case 2
    have "route_index (put_at i x ss) k = i" by (rule route_index_eqI) (use R i 2 in \<open>auto simp: n\<close>)
    then show ?thesis using 2 by simp
  next
    case 3
    have "route_index (put_at i x ss) k = i + 1"
    proof (rule route_index_eqI)
      show "put_at i x ss ! y < k" if "y < i + 1" for y using that R(2) [of y] 3 i by (cases "y = i") (auto simp: n)
      show "k \<le> put_at i x ss ! (i + 1)" if "i + 1 < length (put_at i x ss)" using that R(3) 3 by (simp add: n)
    qed (use i in simp)
    then show ?thesis using 3 by simp
  next
    case 4
    have "route_index (put_at i x ss) k = ?j + 1"
    proof (rule route_index_eqI)
      show "put_at i x ss ! y < k" if "y < ?j + 1" for y
      proof -
        have y: "y \<le> length ss" using that R(1) by simp
        have "i < length ss" using 4 R(1) by simp
        then have "x < k" using xs R(2) [OF 4] by simp
        then show ?thesis using that R(2) [of y] R(2) [of "y - 1"] 4 unfolding n [OF y] by auto
      qed
      show "k \<le> put_at i x ss ! (?j + 1)" if "?j + 1 < length (put_at i x ss)" using that R(3) 4 by (simp add: n)
    qed (use R(1) in simp)
    then show ?thesis using 4 by simp
  qed
qed

lemma route_split_child:
  assumes s: "sorted_wrt (<) (put_at i nl ss)" and i: "i \<le> length ss" and l: "length vs = length ss + 1"
  shows "put_at (i + 1) r vs ! route_index (put_at i nl ss) k =
    (if route_index ss k = i then if k \<le> nl then vs ! i else r else vs ! route_index ss k)"
proof -
  note R = route_indexD(1) [where ss = ss and k = k]
  show ?thesis unfolding route_put_at [OF s i] using i l R by (auto simp: nth_put_at)
qed

lemma route_halves:
  assumes s: "sorted_wrt (<) ss" and c: "c < length ss" and l: "length vs = length ss + 1"
  shows "vs ! route_index ss k = (if k \<le> ss ! c then take (c + 1) vs ! route_index (take c ss) k
    else drop (c + 1) vs ! route_index (drop (c + 1) ss) k)"
proof -
  note R = route_indexD [where ss = ss and k = k]
  have mono: "ss ! x \<le> ss ! y" if "x \<le> y" "y < length ss" for x y
    using sorted_wrt_nth_less [OF s, of x y] that by (cases "x = y") auto
  show ?thesis
  proof (cases "k \<le> ss ! c")
    case True
    have j: "route_index ss k \<le> c"
    proof (rule ccontr)
      assume "\<not> route_index ss k \<le> c"
      then have "ss ! c < k" using R(2) [of c] by simp
      with True show False by simp
    qed
    have "route_index (take c ss) k = route_index ss k" by (rule route_index_eqI) (use j c R in auto)
    then show ?thesis using True j by simp
  next
    case False
    have j: "c < route_index ss k"
    proof (rule ccontr)
      assume "\<not> c < route_index ss k"
      then have "k \<le> ss ! route_index ss k" "ss ! route_index ss k \<le> ss ! c" using R(3) c mono [of "route_index ss k" c] by auto
      with False show False by simp
    qed
    have "route_index (drop (c + 1) ss) k = route_index ss k - (c + 1)"
    proof (rule route_index_eqI)
      show "drop (c + 1) ss ! y < k" if "y < route_index ss k - (c + 1)" for y
        using that R(2) [of "c + 1 + y"] j R(1) by (simp add: less_diff_conv)
    qed (use j c R in auto)
    moreover have "drop (c + 1) vs ! (route_index ss k - (c + 1)) = vs ! route_index ss k"
      using j R(1) l by simp
    ultimately show ?thesis using False by simp
  qed
qed

section \<open>The search of the tree goes there\<close>

lemma valid_node_ok: "parent_stage_validate p \<Longrightarrow> length p = 4096 \<Longrightarrow> node_ok p"
  using valid_nodeD(2,4,7) [of p] strict_sorted_imp_sorted [of "node_seps p"] unfolding node_ok_seps get_node_type_def node_offsets by blast

lemma search_routes:
  assumes "parent_stage_validate p" "length p = 4096"
  shows "find_child_loop p k 0 (internal_node_num_keys p) = route_index (node_seps p) k"
    "\<exists>off. internal_node_find_child p k = Inr off \<and> rd32 off p = node_route p k"
proof -
  note ok = valid_node_ok [OF assms]
  let ?j = "find_child_loop p k 0 (internal_node_num_keys p)"
  have j: "?j \<le> internal_node_num_keys p" "k \<in> route p ?j" using find_child_routes [OF ok] by blast+
  show e: "?j = route_index (node_seps p) k"
  proof (rule sym, rule route_index_eqI)
    show "node_seps p ! x < k" if "x < ?j" for x using j that by (simp add: route_def)
    show "k \<le> node_seps p ! ?j" if "?j < length (node_seps p)" using j that by (simp add: route_def)
  qed (use j in simp)
  have "child_at p ?j = node_route p k" using j(1) unfolding node_route_def e [symmetric] by simp
  then show "\<exists>off. internal_node_find_child p k = Inr off \<and> rd32 off p = node_route p k"
    using find_child_child_at [OF ok, of k] by simp
qed

section \<open>Published nodes\<close>

lemma published_node:
  assumes x: "4096 \<le> length x" and n: "length vs = length ss + 1" "length ss \<le> 509" "ss \<noteq> []"
    and b: "\<forall>k\<in>set ss. k < 2 ^ 32" "\<forall>v\<in>set vs. v < 2 ^ 32" and par: "par < 2 ^ 32"
    and p: "p = published (node_bytes root par vs ss (slice 0 4096 x)) x"
  shows "node_seps p = ss" "node_kids p = vs" "p ! 1 = root" "rd32 2 p = par" "length p = length x" "drop 4092 p = drop 4092 x"
    "parent_stage_validate p \<longleftrightarrow> 0 \<notin> set vs \<and> distinct vs \<and> sorted_wrt (<) ss"
proof -
  let ?q = "node_bytes root par vs ss (slice 0 4096 x)"
  have len: "length (slice 0 4096 x) = 4096" using scratch_usable [OF x] by blast
  note S = node_bytes_spec [OF len n(1,2) b par refl, of root]
  note P = published_spec [OF S(1) x, folded p]
  have num: "internal_node_num_keys ?q = length ss" using arg_cong [OF S(2), of length] by simp
  have nq: "internal_node_num_keys ?q \<le> 509" using num n by simp
  note U = same_usable_node [OF P(2) nq]
  show "node_seps p = ss" "node_kids p = vs" using U S by simp_all
  show "length p = length x" "drop 4092 p = drop 4092 x" by (rule P(1), rule P(3))
  have l4: "4096 \<le> length p" "4096 \<le> length ?q" using P(1) x S(1) by simp_all
  show "p ! 1 = root" using nth_usable [OF P(2), of 1] l4 S(5) by simp
  show "rd32 2 p = par" using rd32_cong_usable [OF P(2), of 2] S(6) by simp
  show "parent_stage_validate p \<longleftrightarrow> 0 \<notin> set vs \<and> distinct vs \<and> sorted_wrt (<) ss"
    using parent_stage_validate_cong [OF P(2) l4] node_bytes_valid [OF len n b par, of root] by blast
qed

text \<open>Where lookups go after one stage of a split.\<close>

definition split_route :: "bytes \<Rightarrow> nat \<Rightarrow> nat \<Rightarrow> nat \<Rightarrow> nat \<Rightarrow> nat \<Rightarrow> nat" where
  "split_route p i l r nl k = (if route_index (node_seps p) k = i then if k \<le> nl then l else r else node_route p k)"

lemma merged_route:
  assumes s: "splits_at p i l r old nl nr"
  shows "put_at (i + 1) r (node_kids p) ! route_index (put_at i nl (node_seps p)) k = split_route p i l r nl k"
proof -
  have A: "sorted_wrt (<) (put_at i nl (node_seps p))" "i \<le> length (node_seps p)" "node_kids p ! i = l"
    using s unfolding splits_at_def by simp_all
  have "length (node_kids p) = length (node_seps p) + 1" by simp
  from route_split_child [OF A(1,2) this] A(3) show ?thesis unfolding split_route_def node_route_def by simp
qed

lemma stage_parent_split_routes:
  assumes "stage_parent_split p l r old nl nr = Some (p', j)" "r < 2 ^ 32" "nl < 2 ^ 32"
  obtains i where "splits_at p i l r old nl nr" "parent_stage_validate p'" "length p' = length p" "p' ! 1 = p ! 1"
    "\<And>k. node_route p' k = split_route p i l r nl k"
proof -
  from stage_parent_split_Some [OF assms] obtain i where i: "splits_at p i l r old nl nr" "parent_stage_validate p'"
    "node_seps p' = put_at i nl (node_seps p)" "node_kids p' = put_at (i + 1) r (node_kids p)" "length p' = length p"
    "slice 0 6 p' = slice 0 6 p" by blast
  have "4096 \<le> length p" using splits_at_pages(1) [OF i(1)] valid_nodeD(1) by blast
  then have "p' ! 1 = p ! 1" using arg_cong [OF i(6), of "\<lambda>x. x ! 1"] i(5) by simp
  moreover have "node_route p' k = split_route p i l r nl k" for k
    unfolding node_route_def i(3,4) by (rule merged_route [OF i(1)])
  ultimately show thesis using that i by blast
qed

lemma halves_spec:
  assumes s: "splits_at p i l r old nl nr" and n: "internal_node_num_keys p = 509" and b: "r < 2 ^ 32" "nl < 2 ^ 32" "g < 2 ^ 32"
    and x: "4096 \<le> length x" "4096 \<le> length y"
    and p': "p' = published (node_bytes 0 g (take 255 (put_at (i + 1) r (node_kids p))) (take 254 (put_at i nl (node_seps p))) (slice 0 4096 x)) x"
    and q': "q' = published (node_bytes 0 g (drop 255 (put_at (i + 1) r (node_kids p))) (drop 255 (put_at i nl (node_seps p))) (slice 0 4096 y)) y"
  shows "parent_stage_validate p'" "parent_stage_validate q'" "length p' = length x" "length q' = length y"
    "drop 4092 p' = drop 4092 x" "drop 4092 q' = drop 4092 y" "p' ! 1 = 0" "q' ! 1 = 0" "rd32 2 p' = g" "rd32 2 q' = g"
    "node_route (if k \<le> put_at i nl (node_seps p) ! 254 then p' else q') k = split_route p i l r nl k"
    "put_at i nl (node_seps p) ! 254 < 2 ^ 32"
    "node_kids p' = take 255 (put_at (i + 1) r (node_kids p))" "node_kids q' = drop 255 (put_at (i + 1) r (node_kids p))"
    "node_seps p' = take 254 (put_at i nl (node_seps p))" "node_seps q' = drop 255 (put_at i nl (node_seps p))"
proof -
  let ?vs = "put_at (i + 1) r (node_kids p)" and ?ss = "put_at i nl (node_seps p)"
  note M = merged_lists [OF s n b(1,2)]
  have b1: "\<forall>k\<in>set (take 254 ?ss). k < 2 ^ 32" "\<forall>v\<in>set (take 255 ?vs). v < 2 ^ 32" using M(7,8) by (auto dest: in_set_takeD)
  have b2: "\<forall>k\<in>set (drop 255 ?ss). k < 2 ^ 32" "\<forall>v\<in>set (drop 255 ?vs). v < 2 ^ 32" using M(7,8) by (auto dest: in_set_dropD)
  have l1: "length (take 254 ?ss) = 254" "length (take 255 ?vs) = 255" using M(3,4) by simp_all
  have l2: "length (drop 255 ?ss) = 255" "length (drop 255 ?vs) = 256" using M(3,4) by simp_all
  have n1: "length (take 255 ?vs) = length (take 254 ?ss) + 1" "length (take 254 ?ss) \<le> 509" "take 254 ?ss \<noteq> []"
    using l1 by (simp, simp, metis list.size(3) zero_neq_numeral)
  have n2: "length (drop 255 ?vs) = length (drop 255 ?ss) + 1" "length (drop 255 ?ss) \<le> 509" "drop 255 ?ss \<noteq> []"
    using l2 by (simp, simp, metis list.size(3) zero_neq_numeral)
  note A = published_node [OF x(1) n1 b1 b(3) p'] and B = published_node [OF x(2) n2 b2 b(3) q']
  show "length p' = length x" "length q' = length y" "drop 4092 p' = drop 4092 x" "drop 4092 q' = drop 4092 y" "p' ! 1 = 0" "q' ! 1 = 0"
    "rd32 2 p' = g" "rd32 2 q' = g" "node_kids p' = take 255 ?vs" "node_kids q' = drop 255 ?vs"
    "node_seps p' = take 254 ?ss" "node_seps q' = drop 255 ?ss"
    using A B by simp_all
  show "parent_stage_validate p'"
    unfolding A(7) using M(5,6,9) set_drop_sub(2) [of 255 ?vs] by (auto intro: sorted_wrt_take)
  show "parent_stage_validate q'"
    unfolding B(7) using M(5,6,9) set_drop_sub(1) [of 255 ?vs] by (auto intro: sorted_wrt_drop distinct_drop)
  show "?ss ! 254 < 2 ^ 32" using M(7) M(4) by (simp add: all_set_conv_all_nth)
  have c: "254 < length ?ss" "length ?vs = length ?ss + 1" "254 + 1 = (255::nat)" using M(3,4) by simp_all
  show "node_route (if k \<le> ?ss ! 254 then p' else q') k = split_route p i l r nl k"
    unfolding merged_route [OF s, symmetric] route_halves [OF M(9) c(1,2), unfolded c(3)] node_route_def
    using A(1,2) B(1,2) by simp
qed

lemma stage_full_nonroot_routes:
  assumes st: "stage_full_nonroot p pn q qn l r old nl nr = Some (p', q', m, cc)" and b: "r < 2 ^ 32" "nl < 2 ^ 32"
  obtains i where "splits_at p i l r old nl nr" "parent_stage_validate p'" "parent_stage_validate q'" "length p' = length p"
    "length q' = length q" "m < 2 ^ 32" "pn \<noteq> qn" "qn \<noteq> 0" "p' ! 1 = 0" "q' ! 1 = 0"
    "\<And>k. node_route (if k \<le> m then p' else q') k = split_route p i l r nl k"
proof -
  from st obtain i where i: "splits_at p i l r old nl nr" "internal_node_num_keys p = 509" "4096 \<le> length q" "pn \<noteq> qn" "qn \<noteq> 0"
    "m = put_at i nl (node_seps p) ! 254"
    "p' = published (node_bytes 0 (rd32 2 p) (take 255 (put_at (i + 1) r (node_kids p))) (take 254 (put_at i nl (node_seps p))) (slice 0 4096 p)) p"
    "q' = published (node_bytes 0 (rd32 2 p) (drop 255 (put_at (i + 1) r (node_kids p))) (drop 255 (put_at i nl (node_seps p))) (slice 0 4096 q)) q"
    unfolding stage_full_nonroot_iff [OF b] Let_def by blast
  have g: "rd32 2 p < 2 ^ 32" unfolding rd32_def by (rule get_u32_less)
  have x: "4096 \<le> length p" using splits_at_pages(1) [OF i(1)] valid_nodeD(1) by blast
  note H = halves_spec [OF i(1,2) b g x i(3,7,8)]
  show thesis using that [OF i(1) H(1-4) _ i(4,5) H(7,8)] H(11,12) unfolding i(6) by blast
qed

lemma stage_full_root_routes:
  assumes st: "stage_full_root p pn a an c bn l r old nl nr = Some (p', a', c', cc)"
    and b: "r < 2 ^ 32" "nl < 2 ^ 32" "an < 2 ^ 32" "bn < 2 ^ 32" "pn < 2 ^ 32"
  obtains i m where "splits_at p i l r old nl nr" "parent_stage_validate p'" "parent_stage_validate a'" "parent_stage_validate c'"
    "length p' = length p" "length a' = length a" "length c' = length c" "an \<noteq> bn" "pn \<noteq> an" "pn \<noteq> bn" "p' ! 1 = 1"
    "\<And>k. node_route p' k = (if k \<le> m then an else bn)"
    "\<And>k. node_route (if k \<le> m then a' else c') k = split_route p i l r nl k"
proof -
  from st obtain i where i: "splits_at p i l r old nl nr" "internal_node_num_keys p = 509" "4096 \<le> length a" "4096 \<le> length c"
    "an \<noteq> 0" "bn \<noteq> 0" "an \<noteq> bn" "pn \<noteq> an" "pn \<noteq> bn"
    "p' = published (node_bytes 1 0 [an, bn] [put_at i nl (node_seps p) ! 254] (slice 0 4096 p)) p"
    "a' = published (node_bytes 0 pn (take 255 (put_at (i + 1) r (node_kids p))) (take 254 (put_at i nl (node_seps p))) (slice 0 4096 a)) a"
    "c' = published (node_bytes 0 pn (drop 255 (put_at (i + 1) r (node_kids p))) (drop 255 (put_at i nl (node_seps p))) (slice 0 4096 c)) c"
    unfolding stage_full_root_iff [OF b] Let_def by blast
  let ?m = "put_at i nl (node_seps p) ! 254"
  have x: "4096 \<le> length p" using splits_at_pages(1) [OF i(1)] valid_nodeD(1) by blast
  note H = halves_spec [OF i(1,2) b(1,2,5) i(3,4,11,12)]
  have sz: "length [an, bn] = length [?m] + 1" "length [?m] \<le> 509" "[?m] \<noteq> []" "(0::nat) < 2 ^ 32" by simp_all
  have bs: "\<forall>k\<in>set [?m]. k < 2 ^ 32" "\<forall>k\<in>set [an, bn]. k < 2 ^ 32" using b H(12) by simp_all
  note R = published_node [OF x sz(1,2,3) bs sz(4) i(10)]
  have "node_route p' k = (if k \<le> ?m then an else bn)" for k
    unfolding node_route_def R(1,2) by (simp add: route_index_def)
  moreover have "parent_stage_validate p'" unfolding R(7) using i by simp
  ultimately show thesis using that [OF i(1) _ H(1,2) R(5) H(3,4) i(7,8,9) R(3)] H(11) by blast
qed

end
