(* ===== verification/StagedCascade.thy ===== *)
theory StagedCascade
  imports StagedRoutes
begin

text \<open>
  A split moves upwards, after \<open>src/internal_split_cascade_stage.h\<close>: the ancestors of a split child from its
  parent upwards, with new pages for ancestors that are full. A lookup leads to the same leaf before and after,
  or, for the split leaf, to the half that has the key.
\<close>

section \<open>The stage\<close>

definition cascade_child_index :: "bytes \<Rightarrow> nat \<Rightarrow> nat option" where
  "cascade_child_index parent child_page_num =
     (if child_page_num = 0 \<or> \<not> parent_stage_validate parent then None
      else find (\<lambda>i. stage_child_at parent i = child_page_num) [0..<rd32 INTERNAL_NODE_NUM_KEYS_OFFSET parent + 1])"

definition page_num_available :: "nat list \<Rightarrow> nat list \<Rightarrow> nat \<Rightarrow> nat \<Rightarrow> nat \<Rightarrow> nat \<Rightarrow> bool" where
  "page_num_available ancestor_page_nums new_page_nums used_new_pages candidate split_left split_right \<longleftrightarrow>
     \<not> (candidate = 0 \<or> candidate = INVALID_PAGE_NUM \<or> candidate = split_left \<or> candidate = split_right) \<and>
     candidate \<notin> set ancestor_page_nums \<and> candidate \<notin> set (take used_new_pages new_page_nums)"

text \<open>One level after the other; the result has the level where the split stopped and whether the root grew.\<close>

fun cascade_levels :: "nat list \<Rightarrow> nat list \<Rightarrow> nat list \<Rightarrow> nat list \<Rightarrow> bytes list \<Rightarrow> bytes list \<Rightarrow> nat \<Rightarrow> nat \<Rightarrow> nat \<Rightarrow> nat \<Rightarrow> nat \<Rightarrow> nat \<Rightarrow>
    (bytes list \<times> bytes list \<times> nat \<times> nat \<times> bool) option" where
  "cascade_levels nums old_maxes new_nums [] ancestors new_pages used split_left split_right old_max new_left_max new_right_max = None"
| "cascade_levels nums old_maxes new_nums (level # levels) ancestors new_pages used split_left split_right old_max new_left_max new_right_max =
     (let current = ancestors ! level
      in if current ! NODE_TYPE_OFFSET \<noteq> NODE_INTERNAL \<or> \<not> parent_stage_validate current then None
         else
           let key_count = rd32 INTERNAL_NODE_NUM_KEYS_OFFSET current
           in if key_count = 0 \<or> key_count > INTERNAL_NODE_MAX_KEYS then None
              else case cascade_child_index current split_left of None \<Rightarrow> None
                | Some child_index \<Rightarrow>
                    if list_ex (\<lambda>i. stage_child_at current i = split_right) [0..<key_count + 1] then None
                    else
                      let child_was_rightmost = (child_index = key_count); is_root = (current ! IS_ROOT_OFFSET \<noteq> 0)
                      in if key_count < INTERNAL_NODE_MAX_KEYS then
                           (case stage_parent_split current split_left split_right old_max new_left_max new_right_max of None \<Rightarrow> None
                            | Some (current', _) \<Rightarrow> Some (ancestors[level := current'], new_pages, used, level, False))
                         else if is_root then
                           if used + 2 > length new_pages \<or> level + 1 \<noteq> length ancestors \<or>
                              \<not> page_num_available nums new_nums used (new_nums ! used) split_left split_right \<or>
                              \<not> page_num_available nums new_nums (used + 1) (new_nums ! (used + 1)) split_left split_right then None
                           else
                             (case stage_full_root current (nums ! level) (new_pages ! used) (new_nums ! used)
                                  (new_pages ! (used + 1)) (new_nums ! (used + 1)) split_left split_right old_max new_left_max new_right_max of
                                None \<Rightarrow> None
                              | Some (current', root_left, root_right, _) \<Rightarrow>
                                  Some (ancestors[level := current'], new_pages[used := root_left, used + 1 := root_right], used + 2, level, True))
                         else if level + 1 \<ge> length ancestors \<or> rd32 PARENT_POINTER_OFFSET current \<noteq> nums ! (level + 1) \<or>
                           old_maxes ! level = 0 \<or> used \<ge> length new_pages \<or>
                           \<not> page_num_available nums new_nums used (new_nums ! used) split_left split_right then None
                         else
                           (case stage_full_nonroot current (nums ! level) (new_pages ! used) (new_nums ! used) split_left split_right
                                old_max new_left_max new_right_max of
                              None \<Rightarrow> None
                            | Some (current', new_right, promoted_left_max, _) \<Rightarrow>
                                let old_current_max = old_maxes ! level;
                                    new_current_max = (if child_was_rightmost then new_right_max else old_current_max)
                                in if promoted_left_max = 0 \<or> new_current_max = 0 \<or> promoted_left_max \<ge> new_current_max then None
                                   else cascade_levels nums old_maxes new_nums levels (ancestors[level := current']) (new_pages[used := new_right])
                                          (used + 1) (nums ! level) (new_nums ! used) old_current_max promoted_left_max new_current_max))"

definition page_zero_root :: "bytes list \<Rightarrow> nat list \<Rightarrow> nat \<Rightarrow> bool" where
  "page_zero_root ancestors nums i \<longleftrightarrow> nums ! i = 0 \<and> i + 1 = length ancestors \<and> ancestors ! i ! NODE_TYPE_OFFSET = NODE_INTERNAL \<and>
     ancestors ! i ! IS_ROOT_OFFSET \<noteq> 0 \<and> rd32 PARENT_POINTER_OFFSET (ancestors ! i) = 0"

definition cascade_identity_ok :: "bytes list \<Rightarrow> nat list \<Rightarrow> nat \<Rightarrow> bool" where
  "cascade_identity_ok ancestors nums i \<longleftrightarrow>
     \<not> (nums ! i = INVALID_PAGE_NUM \<or> nums ! i = 0 \<and> \<not> page_zero_root ancestors nums i) \<and>
     \<not> list_ex (\<lambda>j. nums ! j = nums ! i) [0..<i]"

text \<open>The pages of both arrays, their page numbers, and the greatest keys of the ancestors are lists; every page of
  an array is as long as the stride of the array.\<close>

definition stage_split_cascade :: "bytes list \<Rightarrow> nat list \<Rightarrow> nat list \<Rightarrow> bytes list \<Rightarrow> nat list \<Rightarrow> nat \<Rightarrow> nat \<Rightarrow> nat \<Rightarrow> nat \<Rightarrow> nat \<Rightarrow>
    (bytes list \<times> bytes list \<times> nat \<times> nat \<times> bool) option" where
  "stage_split_cascade ancestors nums old_maxes new_pages new_nums split_left split_right old_left_max new_left_max new_right_max =
     (if ancestors = [] \<or> list_ex (\<lambda>p. length p < PAGE_SIZE) ancestors \<or> split_left = 0 \<or> split_right = 0 \<or> split_left = split_right \<or>
         old_left_max = 0 \<or> new_left_max = 0 \<or> new_right_max = 0 \<or> new_left_max \<ge> new_right_max \<or>
         list_ex (\<lambda>p. length p < PAGE_SIZE) new_pages then None
      else if \<not> list_all (cascade_identity_ok ancestors nums) [0..<length ancestors] then None
      else case cascade_levels nums old_maxes new_nums [0..<length ancestors] (map (slice 0 PAGE_SIZE) ancestors)
                  (map (slice 0 PAGE_SIZE) new_pages) 0 split_left split_right old_left_max new_left_max new_right_max of
             None \<Rightarrow> None
           | Some (scratch_ancestors, scratch_new, used, stopped, root_grew) \<Rightarrow>
               Some (map2 (\<lambda>scratch page. blit 0 (slice 0 PAGE_USABLE_SIZE scratch) page) scratch_ancestors ancestors,
                 map2 (\<lambda>scratch page. blit 0 (slice 0 PAGE_USABLE_SIZE scratch) page) (take used scratch_new) new_pages @ drop used new_pages,
                 used, stopped, root_grew))"

section \<open>Lookups through the levels of a tree\<close>

fun descend :: "(nat \<Rightarrow> bytes) \<Rightarrow> nat \<Rightarrow> nat \<Rightarrow> nat \<Rightarrow> nat" where
  "descend P k 0 n = n"
| "descend P k (Suc h) n = descend P k h (node_route (P n) k)"

fun tree_pages :: "(nat \<Rightarrow> bytes) \<Rightarrow> nat \<Rightarrow> nat \<Rightarrow> nat list" where
  "tree_pages P 0 n = [n]"
| "tree_pages P (Suc h) n = n # concat (map (tree_pages P h) (node_kids (P n)))"

text \<open>The cascade of splits keeps every lookup.\<close>

section \<open>Trees of pages\<close>

lemma node_route_kid: "node_route p k \<in> set (node_kids p)"
proof -
  have "route_index (node_seps p) k < length (node_kids p)"
    using route_indexD(1) [where ss = "node_seps p" and k = k] by simp
  then show ?thesis unfolding node_route_def by (rule nth_mem)
qed

lemma descend_in_tree: "descend P k h n \<in> set (tree_pages P h n)"
proof (induction h arbitrary: n)
  case (Suc h)
  have "descend P k h (node_route (P n) k) \<in> set (tree_pages P h (node_route (P n) k))" by (rule Suc.IH)
  then show ?case using node_route_kid [of "P n" k] by auto
qed simp

lemma descend_cong:
  assumes "\<And>x. x \<in> set (tree_pages P h n) \<Longrightarrow> P' x = P x"
  shows "descend P' k h n = descend P k h n"
  using assms
proof (induction h arbitrary: n)
  case (Suc h)
  have "P' n = P n" by (rule Suc.prems) simp
  moreover have "descend P' k h (node_route (P n) k) = descend P k h (node_route (P n) k)"
    by (rule Suc.IH, rule Suc.prems) (use node_route_kid [of "P n" k] in auto)
  ultimately show ?case by simp
qed simp

lemma subtree_pages:
  assumes "x \<in> set (node_kids (P n))"
  shows "set (tree_pages P h x) \<subseteq> set (tree_pages P (Suc h) n)"
    "distinct (tree_pages P (Suc h) n) \<Longrightarrow> distinct (tree_pages P h x) \<and> n \<notin> set (tree_pages P h x)"
  using assms by (auto simp: distinct_concat_iff)

lemma distinct_concat_disjoint:
  assumes "distinct (concat xss)" "i < length xss" "j < length xss" "i \<noteq> j"
  shows "set (xss ! i) \<inter> set (xss ! j) = {}"
  using assms
proof (induction xss arbitrary: i j)
  case (Cons xs xss)
  have apart: "set xs \<inter> set (xss ! m) = {}" if "m < length xss" for m
    using Cons.prems(1) nth_mem [OF that] by auto
  show ?case
  proof (cases i)
    case 0
    then obtain m where "j = Suc m" using Cons.prems(4) by (cases j) auto
    then show ?thesis using 0 apart [of m] Cons.prems(3) by simp
  next
    case (Suc i')
    show ?thesis
    proof (cases j)
      case 0
      then show ?thesis using Suc apart [of i'] Cons.prems(2) by auto
    next
      case (Suc j')
      with \<open>i = Suc i'\<close> show ?thesis using Cons.IH [of i' j'] Cons.prems by simp
    qed
  qed
qed simp

text \<open>One level: the child that splits leads to the new pages, every other child is as before.\<close>

lemma split_level:
  assumes s: "splits_at (P n) i l r old nl nr" and d: "distinct (tree_pages P (Suc h) n)"
    and same: "\<And>x. x \<in> set (tree_pages P (Suc h) n) \<Longrightarrow> x \<notin> set (tree_pages P h l) \<Longrightarrow> x \<noteq> n \<Longrightarrow> P' x = P x"
    and f: "\<And>c. c \<in> set (tree_pages P (Suc h) n) \<Longrightarrow> c \<notin> set (tree_pages P h l) \<Longrightarrow> f c = c"
    and E: "descend P' k h (if k \<le> nl then l else r) = f (descend P k h l)"
  shows "descend P' k h (split_route (P n) i l r nl k) = f (descend P k (Suc h) n)"
proof (cases "route_index (node_seps (P n)) k = i")
  case True
  then have "node_route (P n) k = l" using s unfolding splits_at_def node_route_def by simp
  then show ?thesis using True E by (simp add: split_route_def)
next
  case False
  let ?j = "route_index (node_seps (P n)) k" and ?vs = "node_kids (P n)"
  have j: "?j < length ?vs" using route_indexD(1) [where ss = "node_seps (P n)" and k = k] by simp
  have i: "i < length ?vs" "?vs ! i = l" using s unfolding splits_at_def by simp_all
  have x: "node_route (P n) k = ?vs ! ?j" "?vs ! ?j \<in> set ?vs" using j by (simp_all add: node_route_def del: nth_node_lists)
  have dc: "distinct (concat (map (tree_pages P h) ?vs))" using d by simp
  have apart: "set (tree_pages P h (?vs ! ?j)) \<inter> set (tree_pages P h l) = {}"
    using distinct_concat_disjoint [OF dc, of ?j i] i j False by simp
  note sub = subtree_pages [of "?vs ! ?j" P n h, OF x(2)]
  have n: "n \<notin> set (tree_pages P h (?vs ! ?j))" using sub(2) [OF d] by blast
  have "descend P' k h (?vs ! ?j) = descend P k h (?vs ! ?j)"
    by (rule descend_cong, rule same) (use sub(1) apart n in blast)+
  moreover have "f (descend P k h (?vs ! ?j)) = descend P k h (?vs ! ?j)"
    by (rule f) (use descend_in_tree [of P k h "?vs ! ?j"] sub(1) apart in blast)+
  ultimately show ?thesis using False x(1) by (simp add: split_route_def del: nth_node_lists)
qed

lemma tree_chain:
  assumes "level \<le> stop" "\<And>i. level \<le> i \<Longrightarrow> i < stop \<Longrightarrow> nums ! i \<in> set (node_kids (P (nums ! (i + 1))))"
  shows "set (tree_pages P (Suc h) (nums ! level)) \<subseteq> set (tree_pages P (h + (stop - level) + 1) (nums ! stop)) \<and>
    (distinct (tree_pages P (h + (stop - level) + 1) (nums ! stop)) \<longrightarrow> distinct (tree_pages P (Suc h) (nums ! level)))"
  using assms
proof (induction "stop - level" arbitrary: stop)
  case 0
  then show ?case by simp
next
  case (Suc d)
  then obtain s where s: "stop = Suc s" "level \<le> s" "d = s - level" by (cases stop) auto
  have kid: "nums ! s \<in> set (node_kids (P (nums ! stop)))" using Suc.prems(2) [of s] s by simp
  have I: "set (tree_pages P (Suc h) (nums ! level)) \<subseteq> set (tree_pages P (h + (s - level) + 1) (nums ! s)) \<and>
    (distinct (tree_pages P (h + (s - level) + 1) (nums ! s)) \<longrightarrow> distinct (tree_pages P (Suc h) (nums ! level)))"
    by (rule Suc.hyps(1) [OF s(3,2)]) (use Suc.prems(2) s in simp)
  have e: "h + (stop - level) + 1 = Suc (h + (s - level) + 1)" using s by simp
  show ?case unfolding e using I subtree_pages [of "nums ! s" P "nums ! stop" "h + (s - level) + 1", OF kid] by blast
qed

section \<open>The levels\<close>

lemma guardE: "(if c then None else x) = Some y \<Longrightarrow> (\<not> c \<Longrightarrow> x = Some y \<Longrightarrow> R) \<Longrightarrow> R"
  by (cases c) simp_all

lemma case_optionE: "(case m of None \<Rightarrow> None | Some z \<Rightarrow> f z) = Some y \<Longrightarrow> (\<And>z. m = Some z \<Longrightarrow> f z = Some y \<Longrightarrow> R) \<Longrightarrow> R"
  by (cases m) simp_all

lemma cascade_step:
  assumes "cascade_levels nums maxes new_nums (level # levels) anc new used l r old nl nr = Some (anc', new', used', stop, grew)"
  obtains
    (fits) p' j where "stage_parent_split (anc ! level) l r old nl nr = Some (p', j)" "anc' = anc[level := p']" "new' = new"
      "used' = used" "stop = level" "\<not> grew"
  | (root) p' a c cc where "used + 2 \<le> length new" "page_num_available nums new_nums used (new_nums ! used) l r"
      "page_num_available nums new_nums (used + 1) (new_nums ! (used + 1)) l r"
      "stage_full_root (anc ! level) (nums ! level) (new ! used) (new_nums ! used) (new ! (used + 1)) (new_nums ! (used + 1)) l r old nl nr
        = Some (p', a, c, cc)" "anc' = anc[level := p']" "new' = new[used := a, used + 1 := c]" "used' = used + 2" "stop = level" "grew"
  | (nonroot) p' q m cc nm where "level + 1 < length anc" "used < length new" "page_num_available nums new_nums used (new_nums ! used) l r"
      "stage_full_nonroot (anc ! level) (nums ! level) (new ! used) (new_nums ! used) l r old nl nr = Some (p', q, m, cc)"
      "cascade_levels nums maxes new_nums levels (anc[level := p']) (new[used := q]) (used + 1) (nums ! level) (new_nums ! used)
        (maxes ! level) m nm = Some (anc', new', used', stop, grew)"
proof -
  let ?cur = "anc ! level"
  let ?kc = "rd32 INTERNAL_NODE_NUM_KEYS_OFFSET ?cur"
  note A = assms [unfolded cascade_levels.simps(2) Let_def]
  from A show thesis
  proof (elim guardE case_optionE)
    fix ci
    assume B: "(if ?kc < INTERNAL_NODE_MAX_KEYS then
          (case stage_parent_split ?cur l r old nl nr of None \<Rightarrow> None
           | Some (current', _) \<Rightarrow> Some (anc[level := current'], new, used, level, False))
        else if ?cur ! IS_ROOT_OFFSET \<noteq> 0 then
          if used + 2 > length new \<or> level + 1 \<noteq> length anc \<or>
             \<not> page_num_available nums new_nums used (new_nums ! used) l r \<or>
             \<not> page_num_available nums new_nums (used + 1) (new_nums ! (used + 1)) l r then None
          else
            (case stage_full_root ?cur (nums ! level) (new ! used) (new_nums ! used)
                 (new ! (used + 1)) (new_nums ! (used + 1)) l r old nl nr of
               None \<Rightarrow> None
             | Some (current', root_left, root_right, _) \<Rightarrow>
                 Some (anc[level := current'], new[used := root_left, used + 1 := root_right], used + 2, level, True))
        else if level + 1 \<ge> length anc \<or> rd32 PARENT_POINTER_OFFSET ?cur \<noteq> nums ! (level + 1) \<or>
          maxes ! level = 0 \<or> used \<ge> length new \<or>
          \<not> page_num_available nums new_nums used (new_nums ! used) l r then None
        else
          (case stage_full_nonroot ?cur (nums ! level) (new ! used) (new_nums ! used) l r old nl nr of
             None \<Rightarrow> None
           | Some (current', new_right, promoted_left_max, _) \<Rightarrow>
               if promoted_left_max = 0 \<or> (if ci = ?kc then nr else maxes ! level) = 0 \<or>
                 promoted_left_max \<ge> (if ci = ?kc then nr else maxes ! level) then None
               else cascade_levels nums maxes new_nums levels (anc[level := current']) (new[used := new_right])
                      (used + 1) (nums ! level) (new_nums ! used) (maxes ! level) promoted_left_max
                      (if ci = ?kc then nr else maxes ! level))) = Some (anc', new', used', stop, grew)"
    show thesis
    proof (cases "?kc < INTERNAL_NODE_MAX_KEYS")
      case True
      note C = B [unfolded if_P [OF True]]
      show thesis
      proof (cases "stage_parent_split ?cur l r old nl nr")
        case None
        then show thesis using C by simp
      next
        case (Some x)
        obtain p' j where x: "x = (p', j)" by (cases x)
        show thesis using C Some unfolding x by (intro fits [of p' j]) auto
      qed
    next
      case False
      note C = B [unfolded if_not_P [OF False]]
      show thesis
      proof (cases "?cur ! IS_ROOT_OFFSET \<noteq> 0")
        case True
        note C1 = C [unfolded if_P [OF True]]
        from C1 show thesis
        proof (elim guardE case_optionE)
          fix z
          assume g: "\<not> (used + 2 > length new \<or> level + 1 \<noteq> length anc \<or>
             \<not> page_num_available nums new_nums used (new_nums ! used) l r \<or>
             \<not> page_num_available nums new_nums (used + 1) (new_nums ! (used + 1)) l r)"
            and z: "stage_full_root ?cur (nums ! level) (new ! used) (new_nums ! used)
                 (new ! (used + 1)) (new_nums ! (used + 1)) l r old nl nr = Some z"
            and D: "(case z of (current', root_left, root_right, _) \<Rightarrow>
                 Some (anc[level := current'], new[used := root_left, used + 1 := root_right], used + 2, level, True)) =
               Some (anc', new', used', stop, grew)"
          obtain p' a c cc where zz: "z = (p', a, c, cc)" by (cases z)
          show thesis by (rule root [of p' a c cc]) (use g z D zz in auto)
        qed
      next
        case False
        note C1 = C [unfolded if_not_P [OF False]]
        from C1 show thesis
        proof (elim guardE case_optionE)
          fix z
          let ?nm = "if ci = ?kc then nr else maxes ! level"
          assume g: "\<not> (level + 1 \<ge> length anc \<or> rd32 PARENT_POINTER_OFFSET ?cur \<noteq> nums ! (level + 1) \<or>
          maxes ! level = 0 \<or> used \<ge> length new \<or> \<not> page_num_available nums new_nums used (new_nums ! used) l r)"
            and z: "stage_full_nonroot ?cur (nums ! level) (new ! used) (new_nums ! used) l r old nl nr = Some z"
            and D: "(case z of (current', new_right, promoted_left_max, _) \<Rightarrow>
               if promoted_left_max = 0 \<or> ?nm = 0 \<or> promoted_left_max \<ge> ?nm then None
               else cascade_levels nums maxes new_nums levels (anc[level := current']) (new[used := new_right])
                      (used + 1) (nums ! level) (new_nums ! used) (maxes ! level) promoted_left_max ?nm) = Some (anc', new', used', stop, grew)"
          obtain p' q m cc where zz: "z = (p', q, m, cc)" by (cases z)
          have "cascade_levels nums maxes new_nums levels (anc[level := p']) (new[used := q])
                      (used + 1) (nums ! level) (new_nums ! used) (maxes ! level) m ?nm = Some (anc', new', used', stop, grew)"
            using D unfolding zz prod.case by (rule guardE)
          with g z zz show thesis by (intro nonroot [of p' q m cc ?nm]) (simp_all only: not_le de_Morgan_disj not_not)
        qed
      qed
    qed
  qed
qed

text \<open>Which pages a cascade of splits changes, and that every lookup leads where it should.\<close>

definition pages_ok :: "bytes list \<Rightarrow> bool" where
  "pages_ok ps \<longleftrightarrow> (\<forall>p\<in>set ps. length p = 4096)"

lemma pages_okD: "pages_ok ps \<Longrightarrow> i < length ps \<Longrightarrow> length (ps ! i) = 4096"
  by (simp add: pages_ok_def)

lemma pages_ok_update: "pages_ok ps \<Longrightarrow> length p = 4096 \<Longrightarrow> pages_ok (ps[i := p])"
  using set_update_subset_insert [of ps i p] by (auto simp: pages_ok_def)

text \<open>The pages that change, the chain of ancestors, and the page numbers that are used.\<close>

definition cascade_shape :: "nat list \<Rightarrow> nat list \<Rightarrow> nat \<Rightarrow> nat \<Rightarrow> nat \<Rightarrow> bytes list \<Rightarrow> bytes list \<Rightarrow> bytes list \<Rightarrow> bytes list \<Rightarrow> nat \<Rightarrow> nat \<Rightarrow> bool" where
  "cascade_shape nums new_nums level used l anc new anc' new' used' stop \<longleftrightarrow>
     level \<le> stop \<and> stop < length anc \<and> used \<le> used' \<and> used' \<le> length new \<and> length anc' = length anc \<and> length new' = length new \<and>
     pages_ok anc' \<and> pages_ok new' \<and>
     (\<forall>i. i < level \<or> stop < i \<longrightarrow> anc' ! i = anc ! i) \<and> (\<forall>i. i < used \<or> used' \<le> i \<longrightarrow> new' ! i = new ! i) \<and>
     (\<forall>i. level \<le> i \<and> i \<le> stop \<longrightarrow> parent_stage_validate (anc ! i) \<and> parent_stage_validate (anc' ! i)) \<and>
     (\<forall>i. used \<le> i \<and> i < used' \<longrightarrow> parent_stage_validate (new' ! i) \<and> new_nums ! i \<noteq> 0 \<and> new_nums ! i \<notin> set nums \<and> new_nums ! i \<notin> set (take i new_nums)) \<and>
     l \<in> set (node_kids (anc ! level)) \<and>
     (\<forall>i. level \<le> i \<and> i < stop \<longrightarrow> nums ! i \<in> set (node_kids (anc ! (i + 1))))"

lemma splits_at_kid: "splits_at p i l r old nl nr \<Longrightarrow> l \<in> set (node_kids p)"
  unfolding splits_at_def by (metis length_node_lists(2) less_add_one nth_mem order_le_less_trans)

lemma cascade_has_shape:
  assumes "cascade_levels nums maxes new_nums [level..<length anc] anc new used l r old nl nr = Some (anc', new', used', stop, grew)"
    and "length nums = length anc" "pages_ok anc" "pages_ok new" "length new = length new_nums"
    and "r < 2 ^ 32" "nl < 2 ^ 32" "\<forall>n\<in>set nums. n < 2 ^ 32" "\<forall>n\<in>set new_nums. n < 2 ^ 32" "used \<le> length new"
  shows "cascade_shape nums new_nums level used l anc new anc' new' used' stop"
  using assms
proof (induction "length anc - level" arbitrary: level anc new used l r old nl nr)
  case 0
  then show ?case by simp
next
  case (Suc d)
  then have lv: "level < length anc" and d: "d = length anc - Suc level" by simp_all
  have c: "cascade_levels nums maxes new_nums (level # [Suc level..<length anc]) anc new used l r old nl nr = Some (anc', new', used', stop, grew)"
    using Suc.prems(1) lv by (simp add: upt_conv_Cons)
  have lc: "length (anc ! level) = 4096" using pages_okD [OF Suc.prems(3) lv] .
  have num: "nums ! level < 2 ^ 32" using Suc.prems(2,8) lv by simp
  have nn: "new_nums ! i < 2 ^ 32" if "i < length new" for i using Suc.prems(5,9) that by simp
  from c show ?case
  proof (cases rule: cascade_step)
    case (fits p' j)
    from stage_parent_split_routes [OF fits(1) Suc.prems(6,7)] obtain i where i: "splits_at (anc ! level) i l r old nl nr"
      "parent_stage_validate p'" "length p' = length (anc ! level)" by blast
    have at_level: "anc' ! level = p'" "length anc' = length anc" "pages_ok anc'"
      using fits(2) lv i(3) lc Suc.prems(3) by (simp_all add: pages_ok_update)
    have "parent_stage_validate (anc ! x) \<and> parent_stage_validate (anc' ! x)" if "level \<le> x \<and> x \<le> level" for x
      using that at_level(1) i(2) splits_at_pages(1) [OF i(1)] by (metis le_antisym)
    moreover have "anc' ! x = anc ! x" if "x < level \<or> level < x" for x using that fits(2) by auto
    ultimately show ?thesis
      unfolding cascade_shape_def fits(3,4,5) using lv at_level(2,3) Suc.prems(4,10) splits_at_kid [OF i(1)] by auto
  next
    case (root p' a c cc)
    have u: "used < length new" "used + 1 < length new" using root(1) by simp_all
    from stage_full_root_routes [OF root(4) Suc.prems(6,7) nn [OF u(1)] nn [OF u(2)] num] obtain i m where
      i: "splits_at (anc ! level) i l r old nl nr" "parent_stage_validate p'" "parent_stage_validate a" "parent_stage_validate c"
      "length p' = length (anc ! level)" "length a = length (new ! used)" "length c = length (new ! (used + 1))" by blast
    have la: "length p' = 4096" "length a = 4096" "length c = 4096"
      using i lc pages_okD [OF Suc.prems(4) u(1)] pages_okD [OF Suc.prems(4) u(2)] by simp_all
    have "parent_stage_validate (new' ! x) \<and> new_nums ! x \<noteq> 0 \<and> new_nums ! x \<notin> set nums \<and> new_nums ! x \<notin> set (take x new_nums)"
      if "used \<le> x \<and> x < used'" for x
    proof -
      from that root(7) consider "x = used" | "x = used + 1" by linarith
      then show ?thesis
        by cases (use root(2,3,6) u i in \<open>auto simp: page_num_available_def\<close>)
    qed
    moreover have "pages_ok anc'" "pages_ok new'" unfolding root(5,6) using la Suc.prems(3,4) by (simp_all add: pages_ok_update)
    moreover have "parent_stage_validate (anc' ! level)" using root(5) i(2) lv by simp
    ultimately show ?thesis
      using root(1,5,6,7,8) lv splits_at_pages(1) [OF i(1)] splits_at_kid [OF i(1)] by (auto simp: cascade_shape_def)
  next
    case (nonroot p' q m cc nm)
    from stage_full_nonroot_routes [OF nonroot(4) Suc.prems(6,7)] obtain i where i: "splits_at (anc ! level) i l r old nl nr"
      "parent_stage_validate p'" "parent_stage_validate q" "length p' = length (anc ! level)" "length q = length (new ! used)" "m < 2 ^ 32"
      "nums ! level \<noteq> new_nums ! used" by blast
    have la: "length p' = 4096" "length q = 4096" using i lc pages_okD [OF Suc.prems(4) nonroot(2)] by simp_all
    let ?anc = "anc[level := p']" and ?new = "new[used := q]"
    have P: "pages_ok ?anc" "pages_ok ?new" using la Suc.prems(3,4) by (simp_all add: pages_ok_update)
    have "cascade_shape nums new_nums (Suc level) (used + 1) (nums ! level) ?anc ?new anc' new' used' stop"
    proof (rule Suc.hyps(1))
      show "cascade_levels nums maxes new_nums [Suc level..<length ?anc] ?anc ?new (used + 1) (nums ! level) (new_nums ! used) (maxes ! level) m nm =
        Some (anc', new', used', stop, grew)" using nonroot(5) by simp
    qed (use d P Suc.prems i(6) nn [OF nonroot(2)] nonroot(2) in simp_all)
    note S = this [unfolded cascade_shape_def]
    have at_level: "anc' ! level = p'" "new' ! used = q" using S lv nonroot(2) by simp_all
    have av: "new_nums ! used \<noteq> 0 \<and> new_nums ! used \<notin> set nums \<and> new_nums ! used \<notin> set (take used new_nums)"
      using nonroot(3) by (simp add: page_num_available_def)
    have A: "anc' ! x = anc ! x" if "x < level \<or> stop < x" for x
      using S that by (cases "x = level") auto
    have N: "new' ! x = new ! x" if "x < used \<or> used' \<le> x" for x
      using S that by (cases "x = used") auto
    have V: "parent_stage_validate (anc ! x) \<and> parent_stage_validate (anc' ! x)" if "level \<le> x \<and> x \<le> stop" for x
    proof (cases "x = level")
      case True
      then show ?thesis using at_level i(2) splits_at_pages(1) [OF i(1)] by simp
    next
      case False
      then have "Suc level \<le> x \<and> x \<le> stop" "?anc ! x = anc ! x" using that by auto
      then show ?thesis using S by metis
    qed
    have W: "parent_stage_validate (new' ! x) \<and> new_nums ! x \<noteq> 0 \<and> new_nums ! x \<notin> set nums \<and> new_nums ! x \<notin> set (take x new_nums)"
      if "used \<le> x \<and> x < used'" for x
    proof (cases "x = used")
      case True
      then show ?thesis using at_level av i(3) by simp
    next
      case False
      then have "used + 1 \<le> x \<and> x < used'" using that by simp
      then show ?thesis using S by blast
    qed
    have K: "nums ! x \<in> set (node_kids (anc ! (x + 1)))" if "level \<le> x \<and> x < stop" for x
    proof (cases "x = level")
      case True
      then show ?thesis using S by simp
    next
      case False
      then have "Suc level \<le> x \<and> x < stop" "?anc ! (x + 1) = anc ! (x + 1)" using that by auto
      then show ?thesis using S by metis
    qed
    have "level \<le> stop" "stop < length anc" "used \<le> used'" "used' \<le> length new" "length anc' = length anc" "length new' = length new"
      "pages_ok anc'" "pages_ok new'" using S by simp_all
    then show ?thesis unfolding cascade_shape_def using A N V W K splits_at_kid [OF i(1)] by blast
  qed
qed

section \<open>Lookups\<close>

lemma tree_chain_above:
  assumes "\<And>i. level \<le> i \<Longrightarrow> i < stop \<Longrightarrow> nums ! i \<in> set (node_kids (P (nums ! (i + 1))))" "level < i" "i \<le> stop"
    and "distinct (tree_pages P (h + (stop - level) + 1) (nums ! stop))"
  shows "nums ! i \<notin> set (tree_pages P (Suc h) (nums ! level))"
proof -
  obtain j where j: "i = Suc j" "level \<le> j" using assms(2) by (cases i) auto
  have e: "h + (i - level) + (stop - i) + 1 = h + (stop - level) + 1" "h + (i - level) = Suc (h + (j - level))"
    using assms(2,3) j by simp_all
  have "distinct (tree_pages P (Suc (h + (i - level))) (nums ! i))"
    using tree_chain [of i stop nums P "h + (i - level)"] assms unfolding e(1) by simp
  then have "nums ! i \<notin> set (tree_pages P (Suc (h + (j - level))) (nums ! j))"
    unfolding e(2) using subtree_pages(2) [of "nums ! j" P "nums ! i"] assms(1) [of j] assms(3) j by simp
  moreover have "set (tree_pages P (Suc h) (nums ! level)) \<subseteq> set (tree_pages P (h + (j - level) + 1) (nums ! j))"
    using tree_chain [of level j nums P h] assms(1,3) j by simp
  ultimately show ?thesis by auto
qed

lemma cascade_lookups:
  assumes "cascade_levels nums maxes new_nums [level..<length anc] anc new used l r old nl nr = Some (anc', new', used', stop, grew)"
    and "length nums = length anc" "pages_ok anc" "pages_ok new" "length new = length new_nums"
    and "r < 2 ^ 32" "nl < 2 ^ 32" "\<forall>n\<in>set nums. n < 2 ^ 32" "\<forall>n\<in>set new_nums. n < 2 ^ 32" "used \<le> length new"
    and "\<And>i. level \<le> i \<Longrightarrow> i \<le> stop \<Longrightarrow> P (nums ! i) = anc ! i" "\<And>i. level \<le> i \<Longrightarrow> i \<le> stop \<Longrightarrow> P' (nums ! i) = anc' ! i"
    and "\<And>i. used \<le> i \<Longrightarrow> i < used' \<Longrightarrow> P' (new_nums ! i) = new' ! i"
    and "distinct (tree_pages P (h + (stop - level) + 1) (nums ! stop))"
    and "\<And>x. x \<in> set (tree_pages P (h + (stop - level) + 1) (nums ! stop)) \<Longrightarrow> x \<notin> set (tree_pages P h l) \<Longrightarrow>
      (\<And>i. level \<le> i \<Longrightarrow> i \<le> stop \<Longrightarrow> x \<noteq> nums ! i) \<Longrightarrow> P' x = P x"
    and "\<And>c. c \<in> set (tree_pages P (h + (stop - level) + 1) (nums ! stop)) \<Longrightarrow> c \<notin> set (tree_pages P h l) \<Longrightarrow> f c = c"
    and "descend P' k h (if k \<le> nl then l else r) = f (descend P k h l)"
  shows "descend P' k (h + (stop - level) + 1 + (if grew then 1 else 0)) (nums ! stop) =
    f (descend P k (h + (stop - level) + 1) (nums ! stop))"
  using assms
proof (induction "length anc - level" arbitrary: level anc new used l r old nl nr h)
  case 0
  then show ?case by simp
next
  case (Suc d)
  note pr = Suc.prems
  then have lv: "level < length anc" and d: "d = length anc - Suc level" using Suc.hyps(2) by simp_all
  have shape: "cascade_shape nums new_nums level used l anc new anc' new' used' stop" by (rule cascade_has_shape [OF pr(1-10)])
  have c: "cascade_levels nums maxes new_nums (level # [Suc level..<length anc]) anc new used l r old nl nr = Some (anc', new', used', stop, grew)"
    using pr(1) lv by (simp add: upt_conv_Cons)
  have num: "nums ! level < 2 ^ 32" using pr(2,8) lv by simp
  have nn: "new_nums ! i < 2 ^ 32" if "i < length new" for i using pr(5,9) that by simp
  have st: "level \<le> stop" using shape unfolding cascade_shape_def by blast
  have here: "P (nums ! level) = anc ! level" "P' (nums ! level) = anc' ! level" using pr(11,12) st by simp_all
  have chain: "\<And>i. level \<le> i \<Longrightarrow> i < stop \<Longrightarrow> nums ! i \<in> set (node_kids (P (nums ! (i + 1))))"
    using shape pr(11) unfolding cascade_shape_def by simp
  have sub: "set (tree_pages P (Suc h) (nums ! level)) \<subseteq> set (tree_pages P (h + (stop - level) + 1) (nums ! stop))"
    "distinct (tree_pages P (Suc h) (nums ! level))"
    using tree_chain [of level stop nums P h, OF st chain] pr(14) by blast+
  have lev: "descend P' k h (split_route (anc ! level) i l r nl k) = f (descend P k (Suc h) (nums ! level))"
    if s: "splits_at (anc ! level) i l r old nl nr" for i
    unfolding here(1) [symmetric]
  proof (rule split_level [of P "nums ! level" i l r old nl nr h P' f])
    show "splits_at (P (nums ! level)) i l r old nl nr" using s here by simp
    show "P' x = P x" if "x \<in> set (tree_pages P (Suc h) (nums ! level))" "x \<notin> set (tree_pages P h l)" "x \<noteq> nums ! level" for x
    proof (rule pr(15))
      show "x \<noteq> nums ! i" if "level \<le> i" "i \<le> stop" for i
      proof (cases "i = level")
        case False
        then have "nums ! i \<notin> set (tree_pages P (Suc h) (nums ! level))"
          using tree_chain_above [OF chain _ _ pr(14), of i] that by simp
        then show ?thesis using \<open>x \<in> set (tree_pages P (Suc h) (nums ! level))\<close> by blast
      qed (use \<open>x \<noteq> nums ! level\<close> in simp)
    qed (use that sub(1) in blast)+
    show "f c = c" if "c \<in> set (tree_pages P (Suc h) (nums ! level))" "c \<notin> set (tree_pages P h l)" for c
      by (rule pr(16)) (use that sub(1) in blast)+
  qed (use sub(2) pr(17) in blast)+
  from c show ?case
  proof (cases rule: cascade_step)
    case (fits p' j)
    from stage_parent_split_routes [OF fits(1) pr(6,7)] obtain i where i: "splits_at (anc ! level) i l r old nl nr"
      "\<And>k. node_route p' k = split_route (anc ! level) i l r nl k" by blast
    have "P' (nums ! level) = p'" using here(2) fits(2) lv by simp
    then have "descend P' k (Suc h) (nums ! level) = descend P' k h (node_route p' k)" by simp
    also have "\<dots> = f (descend P k (Suc h) (nums ! level))" unfolding i(2) by (rule lev [OF i(1)])
    finally have fin: "descend P' k (Suc h) (nums ! level) = f (descend P k (Suc h) (nums ! level))" .
    have e: "h + (stop - level) + 1 = Suc h" "Suc h + (if grew then 1 else 0) = Suc h" using fits(5,6) by simp_all
    show ?thesis unfolding e unfolding fits(5) by (rule fin)
  next
    case (root p' a c cc)
    have u: "used < length new" "used + 1 < length new" using root(1) by simp_all
    obtain i m where
      i: "splits_at (anc ! level) i l r old nl nr"
      "\<And>k. node_route p' k = (if k \<le> m then new_nums ! used else new_nums ! (used + 1))"
      "\<And>k. node_route (if k \<le> m then a else c) k = split_route (anc ! level) i l r nl k"
      by (rule stage_full_root_routes [OF root(4) pr(6,7) nn [OF u(1)] nn [OF u(2)] num]; rule that; assumption)
    have P1: "P' (nums ! level) = p'" using here(2) root(5) lv by simp
    have P2: "P' (new_nums ! used) = a" "P' (new_nums ! (used + 1)) = c"
      using pr(13) [of used] pr(13) [of "used + 1"] root(6,7) u by simp_all
    have "descend P' k (Suc (Suc h)) (nums ! level) = descend P' k (Suc h) (if k \<le> m then new_nums ! used else new_nums ! (used + 1))"
      by (simp add: P1 i(2))
    also have "\<dots> = descend P' k h (node_route (if k \<le> m then a else c) k)" using P2 by simp
    also have "\<dots> = f (descend P k (Suc h) (nums ! level))" unfolding i(3) by (rule lev [OF i(1)])
    finally have fin: "descend P' k (Suc (Suc h)) (nums ! level) = f (descend P k (Suc h) (nums ! level))" .
    have e: "h + (stop - level) + 1 = Suc h" "Suc h + (if grew then 1 else 0) = Suc (Suc h)" using root(8,9) by simp_all
    show ?thesis unfolding e unfolding root(8) by (rule fin)
  next
    case (nonroot p' q m cc nm)
    from stage_full_nonroot_routes [OF nonroot(4) pr(6,7)] obtain i where i: "splits_at (anc ! level) i l r old nl nr"
      "length p' = length (anc ! level)" "length q = length (new ! used)" "m < 2 ^ 32"
      "\<And>k. node_route (if k \<le> m then p' else q) k = split_route (anc ! level) i l r nl k" by blast
    have la: "length p' = 4096" "length q = 4096"
      using i pages_okD [OF pr(3) lv] pages_okD [OF pr(4) nonroot(2)] by simp_all
    let ?anc = "anc[level := p']" and ?new = "new[used := q]"
    have Q: "pages_ok ?anc" "pages_ok ?new" using la pr(3,4) by (simp_all add: pages_ok_update)
    have c2: "cascade_levels nums maxes new_nums [Suc level..<length ?anc] ?anc ?new (used + 1) (nums ! level) (new_nums ! used) (maxes ! level) m nm =
        Some (anc', new', used', stop, grew)" using nonroot(5) by simp
    have sizes: "length nums = length ?anc" "length ?new = length new_nums" "used + 1 \<le> length ?new" "new_nums ! used < 2 ^ 32"
      using pr(2,5) nonroot(2) nn by simp_all
    have S: "cascade_shape nums new_nums (Suc level) (used + 1) (nums ! level) ?anc ?new anc' new' used' stop"
      by (rule cascade_has_shape [OF c2 sizes(1) Q sizes(2,4) i(4) pr(8,9) sizes(3)])
    have at_level: "anc' ! level = p'" "new' ! used = q" "Suc level \<le> stop" "used < used'"
      using S lv nonroot(2) unfolding cascade_shape_def by simp_all
    have P1: "P' (nums ! level) = p'" using here(2) at_level by simp
    have P2: "P' (new_nums ! used) = q" using pr(13) [of used] at_level by simp
    have hs: "Suc h + (stop - Suc level) + 1 = h + (stop - level) + 1" using at_level(3) by simp
    have E: "descend P' k (Suc h) (if k \<le> m then nums ! level else new_nums ! used) = f (descend P k (Suc h) (nums ! level))"
    proof -
      have "descend P' k (Suc h) (if k \<le> m then nums ! level else new_nums ! used) = descend P' k h (node_route (if k \<le> m then p' else q) k)"
        using P1 P2 by simp
      also have "\<dots> = f (descend P k (Suc h) (nums ! level))" unfolding i(5) by (rule lev [OF i(1)])
      finally show ?thesis .
    qed
    have l_sub: "set (tree_pages P h l) \<subseteq> set (tree_pages P (Suc h) (nums ! level))"
      by (rule subtree_pages(1)) (use here(1) splits_at_kid [OF i(1)] in simp)
    have "descend P' k (Suc h + (stop - Suc level) + 1 + (if grew then 1 else 0)) (nums ! stop) =
        f (descend P k (Suc h + (stop - Suc level) + 1) (nums ! stop))"
    proof (rule Suc.hyps(1) [OF _ c2 sizes(1) Q sizes(2,4) i(4) pr(8,9) sizes(3)])
      show "d = length ?anc - Suc level" using d by simp
      show "P (nums ! x) = ?anc ! x" if "Suc level \<le> x" "x \<le> stop" for x using pr(11) [of x] that by simp
      show "P' (nums ! x) = anc' ! x" if "Suc level \<le> x" "x \<le> stop" for x using pr(12) [of x] that by simp
      show "P' (new_nums ! x) = new' ! x" if "used + 1 \<le> x" "x < used'" for x using pr(13) [of x] that by simp
      show "distinct (tree_pages P (Suc h + (stop - Suc level) + 1) (nums ! stop))" unfolding hs by (rule pr(14))
      show "P' x = P x" if "x \<in> set (tree_pages P (Suc h + (stop - Suc level) + 1) (nums ! stop))"
        "x \<notin> set (tree_pages P (Suc h) (nums ! level))" "\<And>i. Suc level \<le> i \<Longrightarrow> i \<le> stop \<Longrightarrow> x \<noteq> nums ! i" for x
      proof (rule pr(15))
        show "x \<noteq> nums ! i" if "level \<le> i" "i \<le> stop" for i
          using \<open>x \<notin> set (tree_pages P (Suc h) (nums ! level))\<close> that \<open>\<And>i. Suc level \<le> i \<Longrightarrow> i \<le> stop \<Longrightarrow> x \<noteq> nums ! i\<close>
          by (cases "i = level") auto
      qed (use that(1) [unfolded hs] that(2) l_sub in blast)+
      show "f c = c" if "c \<in> set (tree_pages P (Suc h + (stop - Suc level) + 1) (nums ! stop))"
        "c \<notin> set (tree_pages P (Suc h) (nums ! level))" for c
        by (rule pr(16)) (use that(1) [unfolded hs] that(2) l_sub in blast)+
      show "descend P' k (Suc h) (if k \<le> m then nums ! level else new_nums ! used) = f (descend P k (Suc h) (nums ! level))" by (rule E)
    qed
    then show ?thesis unfolding hs .
  qed
qed

text \<open>The property of the cascade of splits, on the pages of a tree.\<close>

definition with_pages :: "(nat \<Rightarrow> bytes) \<Rightarrow> nat list \<Rightarrow> bytes list \<Rightarrow> nat \<Rightarrow> bytes" where
  "with_pages P ns ps n = (case map_of (zip ns ps) n of Some p \<Rightarrow> p | None \<Rightarrow> P n)"

lemma with_pages_nth: "distinct ns \<Longrightarrow> length ps = length ns \<Longrightarrow> i < length ns \<Longrightarrow> with_pages P ns ps (ns ! i) = ps ! i"
  by (simp add: with_pages_def map_of_zip_nth)

lemma with_pages_other:
  assumes "length ps = length ns" "n \<notin> set ns"
  shows "with_pages P ns ps n = P n"
proof -
  have "map_of (zip ns ps) n = None" using assms by (auto simp: map_of_eq_None_iff dest: set_zip_leftD)
  then show ?thesis by (simp add: with_pages_def)
qed

lemma descend_route_cong:
  assumes "\<And>n. node_route (P n) k = node_route (P' n) k"
  shows "descend P k h n = descend P' k h n"
  by (induction h arbitrary: n) (simp_all add: assms)

lemma same_usable_route:
  assumes "slice 0 4092 p = slice 0 4092 q" "internal_node_num_keys q \<le> 509"
  shows "node_route p k = node_route q k"
  using same_usable_node [OF assms] by (simp add: node_route_def)

lemma identity_distinct:
  assumes "list_all (cascade_identity_ok ancestors nums) [0..<length ancestors]" "length nums = length ancestors"
  shows "distinct nums"
proof -
  have "nums ! j \<noteq> nums ! i" if "j < i" "i < length nums" for i j
    using assms that unfolding list_all_iff cascade_identity_ok_def by (auto simp: list_ex_iff)
  then show ?thesis unfolding distinct_conv_nth by (metis linorder_neqE_nat)
qed

lemma stage_split_cascadeD:
  assumes ok: "stage_split_cascade ancestors nums maxes new_pages new_nums l r old nl nr = Some (ancestors', new_pages', used, stop, grew)"
    and len: "pages_ok ancestors" "pages_ok new_pages"
  obtains anc new where
    "cascade_levels nums maxes new_nums [0..<length ancestors] ancestors new_pages 0 l r old nl nr = Some (anc, new, used, stop, grew)"
    "ancestors' = map2 published anc ancestors" "new_pages' = map2 published (take used new) new_pages @ drop used new_pages"
    "list_all (cascade_identity_ok ancestors nums) [0..<length ancestors]"
proof -
  have m: "map (slice 0 PAGE_SIZE) ps = ps" if "pages_ok ps" for ps
    by (rule map_idI) (use that in \<open>simp add: pages_ok_def PAGE_SIZE_def\<close>)
  from ok show thesis
    unfolding stage_split_cascade_def m [OF len(1)] m [OF len(2)] PAGE_USABLE_SIZE_eq
    by (elim guardE case_optionE) (auto intro!: that simp: published_def [abs_def] simp del: upt_Suc)
qed

lemma cascade_lookups_kept:
  assumes ok: "stage_split_cascade ancestors nums maxes new_pages new_nums l r old nl nr = Some (ancestors', new_pages', used, stop, grew)"
    and len: "length nums = length ancestors" "length new_nums = length new_pages" "pages_ok ancestors" "pages_ok new_pages"
    and words: "\<forall>n\<in>set (r # nl # nums @ new_nums). n < 2 ^ 32"
    and shown: "\<forall>i<length ancestors. P (nums ! i) = ancestors ! i"
    and tree: "distinct (tree_pages P (Suc stop) (nums ! stop))"
    and fresh: "set (take used new_nums) \<inter> set (tree_pages P (Suc stop) (nums ! stop)) = {}"
  shows "descend (with_pages P (nums @ take used new_nums) (ancestors' @ take used new_pages')) k (if grew then stop + 2 else stop + 1) (nums ! stop) =
    (let c = descend P k (stop + 1) (nums ! stop) in if c = l then if k \<le> nl then l else r else c)"
proof -
  obtain anc new where c: "cascade_levels nums maxes new_nums [0..<length ancestors] ancestors new_pages 0 l r old nl nr = Some (anc, new, used, stop, grew)"
    and a': "ancestors' = map2 published anc ancestors" and n': "new_pages' = map2 published (take used new) new_pages @ drop used new_pages"
    and idok: "list_all (cascade_identity_ok ancestors nums) [0..<length ancestors]"
    by (rule stage_split_cascadeD [OF ok len(3,4)])
  have w: "r < 2 ^ 32" "nl < 2 ^ 32" "\<forall>n\<in>set nums. n < 2 ^ 32" "\<forall>n\<in>set new_nums. n < 2 ^ 32" using words by simp_all
  have shape: "cascade_shape nums new_nums 0 0 l ancestors new_pages anc new used stop"
    by (rule cascade_has_shape [OF c len(1,3,4) len(2) [symmetric] w le0])
  note S = shape [unfolded cascade_shape_def]
  have u: "used \<le> length new_pages" "stop < length ancestors" "length anc = length ancestors" "length new = length new_pages" using S by simp_all
  let ?ns = "nums @ take used new_nums"
  have d: "distinct ?ns"
  proof -
    have "distinct (take used new_nums)"
    proof -
      have "new_nums ! i \<noteq> new_nums ! j" if "i < j" "j < used" for i j
      proof -
        have "new_nums ! j \<notin> set (take j new_nums)" using S that by blast
        moreover have "new_nums ! i \<in> set (take j new_nums)"
          using that u len(2) by (auto simp: in_set_conv_nth intro!: exI [of _ i])
        ultimately show ?thesis by metis
      qed
      then show ?thesis unfolding distinct_conv_nth by (auto simp: nat_neq_iff)
    qed
    moreover have "set nums \<inter> set (take used new_nums) = {}"
      using S u len(2) by (auto simp: in_set_conv_nth) (metis nth_mem)
    ultimately show ?thesis using identity_distinct [OF idok len(1)] by simp
  qed
  define P' where "P' = with_pages P ?ns (anc @ take used new)"
  define P'' where "P'' = with_pages P ?ns (ancestors' @ take used new_pages')"
  have l: "length (anc @ take used new) = length ?ns" "length (ancestors' @ take used new_pages') = length ?ns"
    using u len a' n' by simp_all
  have at: "P' (nums ! i) = anc ! i" "P'' (nums ! i) = published (anc ! i) (ancestors ! i)" if "i < length ancestors" for i
    using with_pages_nth [OF d l(1), of i P] with_pages_nth [OF d l(2), of i P] that u len(1) a' by (simp_all add: P'_def P''_def nth_append)
  have at_new: "P' (new_nums ! i) = new ! i" "P'' (new_nums ! i) = published (new ! i) (new_pages ! i)" if "i < used" for i
    using with_pages_nth [OF d l(1), of "length nums + i" P] with_pages_nth [OF d l(2), of "length nums + i" P] that u len a' n'
    by (simp_all add: P'_def P''_def nth_append)
  have same: "descend P'' k h n = descend P' k h n" for h n
  proof (rule descend_route_cong)
    fix n
    have usable: "slice 0 4092 (published p q) = slice 0 4092 p" if "length p = 4096" "length q = 4096" for p q
      using published_spec(2) [of p q] that by simp
    consider i where "i < length ancestors" "n = nums ! i" | i where "i < used" "n = new_nums ! i" | "n \<notin> set ?ns"
      using len u by (auto simp: in_set_conv_nth)
    then show "node_route (P'' n) k = node_route (P' n) k"
    proof cases
      case 1
      have la: "length (anc ! i) = 4096" "length (ancestors ! i) = 4096" using S len(3) 1 by (simp_all add: pages_ok_def)
      show ?thesis
      proof (cases "i \<le> stop")
        case True
        then have "internal_node_num_keys (anc ! i) \<le> 509" using S valid_nodeD(4) by blast
        then show ?thesis unfolding 1(2) at [OF 1(1)] by (intro same_usable_route usable la)
      next
        case False
        then have "anc ! i = ancestors ! i" using S by simp
        then show ?thesis unfolding 1(2) at [OF 1(1)] using la by (simp add: published_def blit_def slice_def)
      qed
    next
      case 2
      have ln: "length (new ! i) = 4096" "length (new_pages ! i) = 4096" using S len(4) 2 u by (simp_all add: pages_ok_def)
      have "internal_node_num_keys (new ! i) \<le> 509" using S 2(1) valid_nodeD(4) by blast
      then show ?thesis unfolding 2(2) at_new [OF 2(1)] by (intro same_usable_route usable ln)
    next
      case 3
      then show ?thesis using with_pages_other [OF l(1)] with_pages_other [OF l(2)] by (simp add: P'_def P''_def)
    qed
  qed
  let ?f = "\<lambda>c. if c = l then if k \<le> nl then l else r else c"
  have z: "0 + (stop - 0) + 1 = stop + 1" by simp
  have "descend P' k (0 + (stop - 0) + 1 + (if grew then 1 else 0)) (nums ! stop) = ?f (descend P k (0 + (stop - 0) + 1) (nums ! stop))"
  proof (rule cascade_lookups [OF c len(1,3,4) len(2) [symmetric] w le0])
    show "P (nums ! i) = ancestors ! i" "P' (nums ! i) = anc ! i" if "i \<le> stop" for i using shown at(1) that u(2) by simp_all
    show "P' (new_nums ! i) = new ! i" if "i < used" for i by (rule at_new(1) [OF that])
    show "distinct (tree_pages P (0 + (stop - 0) + 1) (nums ! stop))" using tree by simp
    show "P' x = P x" if x: "x \<in> set (tree_pages P (0 + (stop - 0) + 1) (nums ! stop))" "\<And>i. 0 \<le> i \<Longrightarrow> i \<le> stop \<Longrightarrow> x \<noteq> nums ! i" for x
    proof (cases "x \<in> set ?ns")
      case True
      have "x \<notin> set (take used new_nums)" using x(1) fresh by (auto simp del: tree_pages.simps)
      then obtain i where i: "i < length ancestors" "x = nums ! i" using True len(1) by (auto simp: in_set_conv_nth)
      then have "stop < i" using x(2) [of i] by (cases "i \<le> stop") auto
      then show ?thesis unfolding i(2) at(1) [OF i(1)] using S shown i(1) by simp
    next
      case False
      then show ?thesis using with_pages_other [OF l(1)] by (simp add: P'_def)
    qed
    show "?f c = c" if "c \<notin> set (tree_pages P 0 l)" for c using that by simp
    show "descend P' k 0 (if k \<le> nl then l else r) = ?f (descend P k 0 l)" by simp
  qed
  then have "descend P' k (if grew then stop + 2 else stop + 1) (nums ! stop) = ?f (descend P k (stop + 1) (nums ! stop))"
    unfolding z by (cases grew) simp_all
  then show ?thesis unfolding P''_def [symmetric] same Let_def .
qed

text \<open>A split that moves upwards keeps every lookup. When the cascade of splits succeeds, a lookup of any key from
  the topmost page it reached (one level deeper when the root grew) ends at the page it ended at before, except
  that the lookups that ended at the split child now end at its left half for keys up to the greatest key of that
  half and at its right half for the others. This holds for any number of levels, with full nodes being halved on the way. The
  pages below the topmost page are each reached by one path only, and the new pages are not among them.\<close>

theorem cascade_keeps_lookups:
  assumes ok: "stage_split_cascade ancestors nums maxes new_pages new_nums l r old nl nr = Some (ancestors', new_pages', used, stop, grew)"
    and len: "length nums = length ancestors" "length new_nums = length new_pages" "pages_ok ancestors" "pages_ok new_pages"
    and words: "\<forall>n\<in>set (r # nl # nums @ new_nums). n < 2 ^ 32"
    and shown: "\<forall>i<length ancestors. P (nums ! i) = ancestors ! i"
    and tree: "distinct (tree_pages P (Suc stop) (nums ! stop))"
    and fresh: "set (take used new_nums) \<inter> set (tree_pages P (Suc stop) (nums ! stop)) = {}"
  shows "descend (with_pages P (nums @ take used new_nums) (ancestors' @ take used new_pages')) k (if grew then stop + 2 else stop + 1) (nums ! stop) =
    (let c = descend P k (stop + 1) (nums ! stop) in if c = l then if k \<le> nl then l else r else c)"
  by (rule cascade_lookups_kept [OF assms])

text \<open>A cascade tried on a full root with the children 2 to 511 and the separators 10, 20, ..., 5090: the child 5
  splits, the root is halved into the pages 600 and 601.\<close>

definition demo_keys :: "nat list" where "demo_keys = map (\<lambda>i. 10 * (i + 1)) [0..<509]"

definition demo_kids :: "nat list" where "demo_kids = map (\<lambda>i. i + 2) [0..<510]"

definition full_root :: bytes where
  "full_root = node_bytes 1 0 demo_kids demo_keys (replicate 4096 0)"

lemma demo_kids_simps: "length demo_kids = 510" "i < 510 \<Longrightarrow> demo_kids ! i = i + 2" "distinct demo_kids" "set demo_kids = {2..<512}"
proof -
  show "length demo_kids = 510" by (simp add: demo_kids_def del: upt_Suc)
  show "i < 510 \<Longrightarrow> demo_kids ! i = i + 2"
    unfolding demo_kids_def by (subst nth_map) (simp_all only: length_upt nth_upt diff_zero add_0)
  show "distinct demo_kids" unfolding demo_kids_def distinct_map by (simp only: distinct_upt inj_on_def) simp
  have "set demo_kids = (\<lambda>i. i + 2) ` {0..<510}" unfolding demo_kids_def by (simp only: set_map set_upt)
  also have "\<dots> = {2..<512}" using image_add_atLeastLessThan' [of 2 0 510] by (simp only: add_0 numeral_plus_numeral add_num_simps)
  finally show "set demo_kids = {2..<512}" .
qed

lemma demo_keys_simps: "length demo_keys = 509" "i < 509 \<Longrightarrow> demo_keys ! i = 10 * (i + 1)"
  by (simp_all add: demo_keys_def del: upt_Suc)

lemma sorted_demo_keys: "sorted_wrt (<) demo_keys"
  unfolding demo_keys_def sorted_wrt_map by (rule sorted_wrt_mono_rel [OF _ sorted_wrt_upt]) simp

lemma full_root_facts:
  "length full_root = 4096" "node_seps full_root = demo_keys" "node_kids full_root = demo_kids" "full_root ! 1 = 1"
  "internal_node_num_keys full_root = 509" "parent_stage_validate full_root" "rd32 2 full_root = 0"
proof -
  have len: "length (replicate 4096 (0::u8)) = 4096" by simp
  have n: "length demo_kids = length demo_keys + 1" "length demo_keys \<le> 509" "demo_keys \<noteq> []"
    using demo_keys_simps(1) demo_kids_simps(1) by (simp, simp, metis list.size(3) zero_neq_numeral)
  have b: "\<forall>k\<in>set demo_keys. k < 2 ^ 32" "\<forall>v\<in>set demo_kids. v < 2 ^ 32" "(0::nat) < 2 ^ 32"
    by (auto simp: demo_keys_def demo_kids_simps simp del: upt_Suc)
  note S = node_bytes_spec [OF len n(1,2) b refl, of 1, folded full_root_def]
  show "length full_root = 4096" "node_seps full_root = demo_keys" "node_kids full_root = demo_kids" "full_root ! 1 = 1" "rd32 2 full_root = 0"
    using S by simp_all
  show "internal_node_num_keys full_root = 509" using arg_cong [OF S(2), of length] demo_keys_simps(1) by simp
  show "parent_stage_validate full_root"
    unfolding full_root_def node_bytes_valid [OF len n b] using sorted_demo_keys demo_kids_simps by simp
qed

lemma full_root_kid: "i < 510 \<Longrightarrow> node_kids full_root ! i = i + 2"
  unfolding full_root_facts(3) by (rule demo_kids_simps(2))

lemma full_root_splits: "splits_at full_root 3 5 602 40 35 40"
proof -
  have "sorted_wrt (<) (put_at 3 35 demo_keys)"
    using sorted_put_at_iff [OF sorted_demo_keys, of 3 35] demo_keys_simps by simp
  then show ?thesis
    unfolding splits_at_def full_root_facts(2,5) using full_root_facts(6) full_root_kid [of 3] demo_keys_simps
    by (simp add: full_root_facts(3) demo_kids_simps del: nth_node_lists)
qed

lemma full_root_cascade:
  obtains p' a c where "stage_split_cascade [full_root] [1] [0] [replicate 4096 0, replicate 4096 0] [600, 601] 5 602 40 35 40 =
    Some ([p'], [a, c], 2, 0, True)"
proof -
  let ?z = "replicate 4096 (0::u8)"
  have b: "(602::nat) < 2 ^ 32" "(35::nat) < 2 ^ 32" "(600::nat) < 2 ^ 32" "(601::nat) < 2 ^ 32" "(1::nat) < 2 ^ 32" by simp_all
  have zero: "0 \<notin> set (put_at 3 35 (node_seps full_root))"
    unfolding full_root_facts(2) by (subst set_put_at) (auto simp: demo_keys_simps demo_keys_def simp del: upt_Suc)
  obtain p' a c where s: "stage_full_root full_root 1 ?z 600 ?z 601 5 602 40 35 40 = Some (p', a, c, 255)"
  proof -
    have "\<exists>p' a c. stage_full_root full_root 1 ?z 600 ?z 601 5 602 40 35 40 = Some (p', a, c, 255)"
      unfolding stage_full_root_iff [OF b] Let_def
      using full_root_splits full_root_facts(4,5) zero
      by (intro exI conjI) (assumption | simp)+
    then show thesis using that by blast
  qed
  have idx: "cascade_child_index full_root 5 \<noteq> None"
  proof -
    have "child_at full_root 3 = 5" using full_root_kid [of 3] nth_node_lists(2) [of 3 full_root] full_root_facts(5) by simp
    moreover have "rd32 6 full_root = 509" using full_root_facts(5) by (simp add: num_keys_rd)
    ultimately show ?thesis
      unfolding cascade_child_index_def using full_root_facts(6)
      by (auto simp: find_None_iff stage_child_at_eq intro!: exI [of _ 3] simp del: upt_Suc)
  qed
  then obtain ci where ci: "cascade_child_index full_root 5 = Some ci" by blast
  have no: "\<not> list_ex (\<lambda>i. stage_child_at full_root i = 602) [0..<509 + 1]"
  proof -
    have "stage_child_at full_root i \<noteq> 602" if "i < 510" for i
      using full_root_kid [OF that] nth_node_lists(2) [of i full_root] full_root_facts(5) that by (simp add: stage_child_at_eq)
    then show ?thesis by (auto simp: list_ex_iff simp del: upt_Suc)
  qed
  have n6: "rd32 6 full_root = 509" using full_root_facts(5) by (simp add: num_keys_rd)
  have lev: "cascade_levels [1] [0] [600, 601] [0] [full_root] [?z, ?z] 0 5 602 40 35 40 = Some ([p'], [a, c], 2, 0, True)"
    using full_root_facts(4,6) valid_nodeD(2) [OF full_root_facts(6)] ci no s
    by (simp add: n6 INTERNAL_NODE_MAX_KEYS_eq page_num_available_def INVALID_PAGE_NUM_def del: upt_Suc)
  have w: "length p' = 4096" "length a = 4096" "length c = 4096"
    using stage_full_root_routes [OF s b] full_root_facts(1) by (metis length_replicate)+
  have m: "slice 0 PAGE_SIZE full_root = full_root" "slice 0 PAGE_SIZE ?z = ?z"
    using full_root_facts(1) by (simp_all add: PAGE_SIZE_def)
  have "\<exists>p'' a' c'. stage_split_cascade [full_root] [1] [0] [?z, ?z] [600, 601] 5 602 40 35 40 = Some ([p''], [a', c'], 2, 0, True)"
    using lev full_root_facts(1,4,7) valid_nodeD(2) [OF full_root_facts(6)]
    by (simp add: stage_split_cascade_def m PAGE_SIZE_def cascade_identity_ok_def page_zero_root_def INVALID_PAGE_NUM_def)
  then show thesis using that by blast
qed

lemma cascade_keeps_lookups_witness:
  "\<exists>ps qs. stage_split_cascade [full_root] [1] [0] [replicate 4096 0, replicate 4096 0] [600, 601] 5 602 40 35 40 = Some (ps, qs, 2, 0, True) \<and>
     map (\<lambda>k. descend (with_pages (\<lambda>_. full_root) [1, 600, 601] (ps @ qs)) k 2 1) [35, 36, 41] = [5, 602, 6]"
proof -
  obtain p' a c where s: "stage_split_cascade [full_root] [1] [0] [replicate 4096 0, replicate 4096 0] [600, 601] 5 602 40 35 40 =
    Some ([p'], [a, c], 2, 0, True)" by (rule full_root_cascade)
  have ok: "pages_ok [full_root]" "pages_ok [replicate 4096 0, replicate 4096 0]" using full_root_facts(1) by (simp_all add: pages_ok_def)
  have tp: "tree_pages (\<lambda>_. full_root) (Suc 0) 1 = 1 # demo_kids"
  proof -
    have "concat (map (tree_pages (\<lambda>_. full_root) 0) xs) = xs" for xs by (induction xs) simp_all
    then show ?thesis by (simp add: full_root_facts(3))
  qed
  have tree: "distinct (tree_pages (\<lambda>_. full_root) (Suc 0) ([1] ! 0))"
    "set (take 2 [600, 601]) \<inter> set (tree_pages (\<lambda>_. full_root) (Suc 0) ([1] ! 0)) = {}"
    unfolding nth_Cons_0 tp using demo_kids_simps(3,4) by simp_all
  have other: "length [1] = length [full_root]" "length [600, 601::nat] = length [replicate 4096 (0::u8), replicate 4096 0]"
    "\<forall>n\<in>set (602 # 35 # [1] @ [600, 601]). n < (2::nat) ^ 32" "\<forall>i<length [full_root]. full_root = [full_root] ! i"
    by simp_all
  have T: "descend (with_pages (\<lambda>_. full_root) [1, 600, 601] [p', a, c]) k 2 1 =
      (let c = node_route full_root k in if c = 5 then if k \<le> 35 then 5 else 602 else c)" for k
  proof -
    have d: "descend (\<lambda>_. full_root) k (0 + 1) ([1] ! 0) = node_route full_root k" by simp
    have "[1] @ take 2 [600, 601] = [1, 600, 601::nat]" "[p'] @ take 2 [a, c] = [p', a, c]" "(if True then 0 + 2 else 0 + 1) = (2::nat)"
      "[1] ! 0 = (1::nat)" by simp_all
    with cascade_keeps_lookups [OF s other(1,2) ok other(3,4) tree, of k, unfolded d] show ?thesis by metis
  qed
  have r: "node_route full_root k = i + 2" if "i < 509" "10 * i < k" "k \<le> 10 * (i + 1)" for k i
  proof -
    have "route_index demo_keys k = i"
      by (rule route_index_eqI) (use that demo_keys_simps in auto)
    then show ?thesis using full_root_kid [of i] that by (simp add: node_route_def full_root_facts(2))
  qed
  have "map (\<lambda>k. descend (with_pages (\<lambda>_. full_root) [1, 600, 601] ([p'] @ [a, c])) k 2 1) [35, 36, 41] = [5, 602, 6]"
    using T [of 35] T [of 36] T [of 41] r [of 3 35] r [of 3 36] r [of 4 41] by (simp add: Let_def)
  then show ?thesis by (intro exI conjI) (rule s)
qed

end
