(* ===== verification/LeafSplits.thy ===== *)
theory LeafSplits
  imports StagedCascade
begin

text \<open>
  Splits of slotted leaves on copies of pages, after \<open>src/slotted_leaf_v2_split.h\<close>,
  \<open>src/slotted_leaf_v2_split_txn.h\<close>, \<open>src/slotted_leaf_v2_tree_split_stage.h\<close>,
  \<open>src/slotted_leaf_v2_tree_split_tail_stage.h\<close>, \<open>src/slotted_leaf_v2_root_split_stage.h\<close> and
  \<open>src/leaf_sibling_relink_stage.h\<close>. \<open>None\<close> is the return of false, after which every page of the caller is as before.
\<close>

section \<open>Where a leaf is split\<close>

definition split_slot_key :: "bytes \<Rightarrow> nat \<Rightarrow> nat" where
  "split_slot_key page index = s_key (read_slot page index)"

definition split_slot_length :: "bytes \<Rightarrow> nat \<Rightarrow> nat" where
  "split_slot_length page index = s_value_length (read_slot page index)"

primrec best_split_loop :: "bytes \<Rightarrow> nat \<Rightarrow> nat list \<Rightarrow> nat \<Rightarrow> nat \<Rightarrow> nat \<Rightarrow> nat" where
  "best_split_loop page total_bytes [] best_index prefix_bytes best_delta = best_index"
| "best_split_loop page total_bytes (i # is) best_index prefix_bytes best_delta =
     (let prefix_bytes = prefix_bytes + V2_SLOT_SIZE + split_slot_length page (i - 1);
          suffix_bytes = total_bytes - prefix_bytes;
          delta = (if prefix_bytes > suffix_bytes then prefix_bytes - suffix_bytes else suffix_bytes - prefix_bytes)
      in if delta < best_delta then best_split_loop page total_bytes is i prefix_bytes delta
         else best_split_loop page total_bytes is best_index prefix_bytes best_delta)"

definition choose_split_index :: "bytes \<Rightarrow> nat" where
  "choose_split_index page =
     (if \<not> slotted_validate page then 0
      else
        let count = slotted_count page
        in if count < 2 then 0
           else
             let total_bytes = fold (\<lambda>i total_bytes. total_bytes + (V2_SLOT_SIZE + split_slot_length page i)) [0..<count] 0
             in best_split_loop page total_bytes [1..<count] 1 0 UINT32_MAX)"

section \<open>The rows are divided\<close>

definition copy_common_identity :: "bytes \<Rightarrow> bytes \<Rightarrow> bytes" where
  "copy_common_identity destination src =
     blit V2_FLAGS_OFFSET (slice V2_FLAGS_OFFSET 2 src)
       (blit PARENT_POINTER_OFFSET (slice PARENT_POINTER_OFFSET PARENT_POINTER_SIZE src) (destination[IS_ROOT_OFFSET := 0]))"

fun divide_rows :: "bytes \<Rightarrow> nat \<Rightarrow> nat list \<Rightarrow> bytes \<times> bytes \<Rightarrow> bool \<times> bytes \<times> bytes" where
  "divide_rows src split_index [] (left, right) = (True, left, right)"
| "divide_rows src split_index (i # is) (left, right) =
     (let key = split_slot_key src i; value = slice (s_value_offset (read_slot src i)) (split_slot_length src i) src
      in if i < split_index then
           (let (ok, left') = slotted_insert left key value
            in if ok then divide_rows src split_index is (left', right) else (False, left', right))
         else
           (let (ok, right') = slotted_insert right key value
            in if ok then divide_rows src split_index is (left, right') else (False, left, right')))"

definition split_nonroot :: "bytes \<Rightarrow> nat \<Rightarrow> bytes \<Rightarrow> nat \<Rightarrow> (bytes \<times> bytes \<times> nat) option" where
  "split_nonroot left_page left_page_num right_page right_page_num =
     (if length left_page < PAGE_SIZE \<or> length right_page < PAGE_SIZE \<or> left_page_num = right_page_num \<or>
         \<not> slotted_validate left_page \<or> left_page ! IS_ROOT_OFFSET \<noteq> 0 then None
      else
        let split_index = choose_split_index left_page; count = slotted_count left_page
        in if split_index = 0 \<or> split_index \<ge> count then None
           else
             let (ok_left, scratch_left) = slotted_init (replicate PAGE_SIZE 0);
                 (ok_right, scratch_right) = slotted_init (replicate PAGE_SIZE 0)
             in if \<not> (ok_left \<and> ok_right) then None
                else
                  let scratch_left = wr32 V2_NEXT_LEAF_OFFSET right_page_num
                        (blit V2_PREV_LEAF_OFFSET (slice V2_PREV_LEAF_OFFSET 4 left_page)
                          (copy_common_identity scratch_left left_page));
                      scratch_right = blit V2_NEXT_LEAF_OFFSET (slice V2_NEXT_LEAF_OFFSET 4 left_page)
                        (wr32 V2_PREV_LEAF_OFFSET left_page_num (copy_common_identity scratch_right left_page));
                      (ok, scratch_left, scratch_right) = divide_rows left_page split_index [0..<count] (scratch_left, scratch_right);
                      ok = (ok \<and> slotted_validate scratch_left \<and> slotted_validate scratch_right \<and>
                            slotted_count scratch_left > 0 \<and> slotted_count scratch_right > 0)
                  in if ok then Some (blit 0 (slice 0 PAGE_USABLE_SIZE scratch_left) left_page,
                                      blit 0 (slice 0 PAGE_USABLE_SIZE scratch_right) right_page, split_index)
                     else None)"

text \<open>With the backward link of the old next sibling.\<close>

definition split_nonroot_with_next :: "bytes \<Rightarrow> nat \<Rightarrow> bytes \<Rightarrow> nat \<Rightarrow> bytes \<Rightarrow> nat \<Rightarrow> (bytes \<times> bytes \<times> bytes \<times> nat) option" where
  "split_nonroot_with_next left_page left_page_num right_page right_page_num old_next_page old_next_page_num =
     (if length left_page < PAGE_SIZE \<or> length right_page < PAGE_SIZE \<or> length old_next_page < PAGE_SIZE \<or>
         left_page_num = right_page_num \<or> left_page_num = old_next_page_num \<or> right_page_num = old_next_page_num \<or>
         \<not> slotted_validate left_page \<or> \<not> slotted_validate old_next_page \<or> left_page ! IS_ROOT_OFFSET \<noteq> 0 then None
      else if rd32 V2_NEXT_LEAF_OFFSET left_page \<noteq> old_next_page_num \<or> rd32 V2_PREV_LEAF_OFFSET old_next_page \<noteq> left_page_num then None
      else case split_nonroot (slice 0 PAGE_SIZE left_page) left_page_num (slice 0 PAGE_SIZE right_page) right_page_num of
             None \<Rightarrow> None
           | Some (scratch_left, scratch_right, split_index) \<Rightarrow>
               let scratch_next = wr32 V2_PREV_LEAF_OFFSET right_page_num (slice 0 PAGE_SIZE old_next_page)
               in if slotted_validate scratch_next \<and> rd32 V2_NEXT_LEAF_OFFSET scratch_left = right_page_num \<and>
                     rd32 V2_PREV_LEAF_OFFSET scratch_right = left_page_num \<and>
                     rd32 V2_NEXT_LEAF_OFFSET scratch_right = old_next_page_num \<and>
                     rd32 V2_PREV_LEAF_OFFSET scratch_next = right_page_num
                  then Some (blit 0 (slice 0 PAGE_USABLE_SIZE scratch_left) left_page,
                             blit 0 (slice 0 PAGE_USABLE_SIZE scratch_right) right_page,
                             blit 0 (slice 0 PAGE_USABLE_SIZE scratch_next) old_next_page, split_index)
                  else None)"

section \<open>Leaf and parent\<close>

text \<open>The greatest keys of the halves of a split leaf, or \<open>None\<close> when they do not fit the greatest key of the leaf.\<close>

definition halves_maxes :: "bytes \<Rightarrow> bytes \<Rightarrow> nat \<Rightarrow> (nat \<times> nat) option" where
  "halves_maxes scratch_left scratch_right old_left_max =
     (let left_count = slotted_count scratch_left; right_count = slotted_count scratch_right
      in if left_count = 0 \<or> right_count = 0 then None
         else
           let new_left_max = split_slot_key scratch_left (left_count - 1);
               new_right_max = split_slot_key scratch_right (right_count - 1)
           in if new_left_max < new_right_max \<and> new_right_max = old_left_max then Some (new_left_max, new_right_max) else None)"

definition stage_tree_split_with_next :: "bytes \<Rightarrow> nat \<Rightarrow> bytes \<Rightarrow> nat \<Rightarrow> bytes \<Rightarrow> nat \<Rightarrow> bytes \<Rightarrow>
    (bytes \<times> bytes \<times> bytes \<times> bytes \<times> nat \<times> nat) option" where
  "stage_tree_split_with_next left_page left_page_num right_page right_page_num old_next_page old_next_page_num parent_page =
     (if length left_page < PAGE_SIZE \<or> length right_page < PAGE_SIZE \<or> length old_next_page < PAGE_SIZE \<or>
         length parent_page < PAGE_SIZE \<or> left_page_num = 0 \<or> right_page_num = 0 \<or> old_next_page_num = 0 \<or>
         left_page_num = right_page_num \<or> left_page_num = old_next_page_num \<or> right_page_num = old_next_page_num \<or>
         \<not> slotted_validate left_page \<or> \<not> slotted_validate old_next_page \<or> \<not> parent_stage_validate parent_page then None
      else if left_page ! IS_ROOT_OFFSET \<noteq> 0 then None
      else
        let original_count = slotted_count left_page
        in if original_count < 2 then None
           else
             let old_left_max = split_slot_key left_page (original_count - 1)
             in case split_nonroot_with_next (slice 0 PAGE_SIZE left_page) left_page_num (slice 0 PAGE_SIZE right_page) right_page_num
                       (slice 0 PAGE_SIZE old_next_page) old_next_page_num of
                  None \<Rightarrow> None
                | Some (scratch_left, scratch_right, scratch_next, split_index) \<Rightarrow>
                    (case halves_maxes scratch_left scratch_right old_left_max of
                       None \<Rightarrow> None
                     | Some (new_left_max, new_right_max) \<Rightarrow>
                         (case stage_parent_split (slice 0 PAGE_SIZE parent_page) left_page_num right_page_num old_left_max
                                 new_left_max new_right_max of
                            None \<Rightarrow> None
                          | Some (scratch_parent, inserted_child_index) \<Rightarrow>
                              if slotted_validate scratch_left \<and> slotted_validate scratch_right \<and> slotted_validate scratch_next \<and>
                                 parent_stage_validate scratch_parent \<and>
                                 inserted_child_index \<le> rd32 INTERNAL_NODE_NUM_KEYS_OFFSET scratch_parent \<and>
                                 stage_child_at scratch_parent inserted_child_index = right_page_num \<and>
                                 rd32 V2_NEXT_LEAF_OFFSET scratch_left = right_page_num \<and>
                                 rd32 V2_PREV_LEAF_OFFSET scratch_right = left_page_num \<and>
                                 rd32 V2_NEXT_LEAF_OFFSET scratch_right = old_next_page_num \<and>
                                 rd32 V2_PREV_LEAF_OFFSET scratch_next = right_page_num
                              then Some (blit 0 (slice 0 PAGE_USABLE_SIZE scratch_left) left_page,
                                         blit 0 (slice 0 PAGE_USABLE_SIZE scratch_right) right_page,
                                         blit 0 (slice 0 PAGE_USABLE_SIZE scratch_next) old_next_page,
                                         blit 0 (slice 0 PAGE_USABLE_SIZE scratch_parent) parent_page,
                                         split_index, inserted_child_index)
                              else None)))"

definition stage_tree_split_tail :: "bytes \<Rightarrow> nat \<Rightarrow> bytes \<Rightarrow> nat \<Rightarrow> bytes \<Rightarrow> (bytes \<times> bytes \<times> bytes \<times> nat \<times> nat) option" where
  "stage_tree_split_tail left_page left_page_num right_page right_page_num parent_page =
     (if length left_page < PAGE_SIZE \<or> length right_page < PAGE_SIZE \<or> length parent_page < PAGE_SIZE \<or>
         left_page_num = 0 \<or> right_page_num = 0 \<or> left_page_num = right_page_num \<or>
         \<not> slotted_validate left_page \<or> \<not> parent_stage_validate parent_page then None
      else if left_page ! IS_ROOT_OFFSET \<noteq> 0 \<or> rd32 V2_NEXT_LEAF_OFFSET left_page \<noteq> 0 then None
      else
        let original_count = slotted_count left_page
        in if original_count < 2 then None
           else
             let old_left_max = split_slot_key left_page (original_count - 1)
             in case split_nonroot (slice 0 PAGE_SIZE left_page) left_page_num (slice 0 PAGE_SIZE right_page) right_page_num of
                  None \<Rightarrow> None
                | Some (scratch_left, scratch_right, split_index) \<Rightarrow>
                    (case halves_maxes scratch_left scratch_right old_left_max of
                       None \<Rightarrow> None
                     | Some (new_left_max, new_right_max) \<Rightarrow>
                         (case stage_parent_split (slice 0 PAGE_SIZE parent_page) left_page_num right_page_num old_left_max
                                 new_left_max new_right_max of
                            None \<Rightarrow> None
                          | Some (scratch_parent, inserted_child_index) \<Rightarrow>
                              if slotted_validate scratch_left \<and> slotted_validate scratch_right \<and>
                                 parent_stage_validate scratch_parent \<and>
                                 inserted_child_index = rd32 INTERNAL_NODE_NUM_KEYS_OFFSET scratch_parent \<and>
                                 stage_child_at scratch_parent inserted_child_index = right_page_num \<and>
                                 rd32 V2_NEXT_LEAF_OFFSET scratch_left = right_page_num \<and>
                                 rd32 V2_PREV_LEAF_OFFSET scratch_right = left_page_num \<and>
                                 rd32 V2_NEXT_LEAF_OFFSET scratch_right = 0
                              then Some (blit 0 (slice 0 PAGE_USABLE_SIZE scratch_left) left_page,
                                         blit 0 (slice 0 PAGE_USABLE_SIZE scratch_right) right_page,
                                         blit 0 (slice 0 PAGE_USABLE_SIZE scratch_parent) parent_page,
                                         split_index, inserted_child_index)
                              else None)))"

section \<open>The root is a leaf\<close>

definition stage_root_split :: "bytes \<Rightarrow> nat \<Rightarrow> bytes \<Rightarrow> nat \<Rightarrow> bytes \<Rightarrow> nat \<Rightarrow> (bytes \<times> bytes \<times> bytes \<times> nat) option" where
  "stage_root_split root_page root_page_num left_child_page left_child_page_num right_child_page right_child_page_num =
     (if length root_page < PAGE_SIZE \<or> length left_child_page < PAGE_SIZE \<or> length right_child_page < PAGE_SIZE \<or>
         left_child_page_num = 0 \<or> right_child_page_num = 0 \<or> left_child_page_num = right_child_page_num \<or>
         left_child_page_num = root_page_num \<or> right_child_page_num = root_page_num \<or>
         \<not> slotted_validate root_page \<or> root_page ! IS_ROOT_OFFSET = 0 then None
      else if rd32 V2_PREV_LEAF_OFFSET root_page \<noteq> 0 \<or> rd32 V2_NEXT_LEAF_OFFSET root_page \<noteq> 0 \<or> slotted_count root_page < 2 then None
      else
        let scratch_left = wr32 PARENT_POINTER_OFFSET root_page_num ((slice 0 PAGE_SIZE root_page)[IS_ROOT_OFFSET := 0])
        in case split_nonroot scratch_left left_child_page_num (slice 0 PAGE_SIZE right_child_page) right_child_page_num of
             None \<Rightarrow> None
           | Some (scratch_left, scratch_right, _) \<Rightarrow>
               let left_count = slotted_count scratch_left; right_count = slotted_count scratch_right
               in if left_count = 0 \<or> right_count = 0 then None
                  else case page_key_at scratch_left (left_count - 1) of
                         None \<Rightarrow> None
                       | Some separator \<Rightarrow>
                           let scratch_root = node_bytes 1 0 [left_child_page_num, right_child_page_num] [separator] (slice 0 PAGE_SIZE root_page)
                           in if \<not> parent_stage_validate scratch_root \<or> stage_child_at scratch_root 0 \<noteq> left_child_page_num \<or>
                                 stage_child_at scratch_root 1 \<noteq> right_child_page_num \<or> stage_key_at scratch_root 0 \<noteq> separator \<or>
                                 rd32 V2_PREV_LEAF_OFFSET scratch_left \<noteq> 0 \<or>
                                 rd32 V2_NEXT_LEAF_OFFSET scratch_left \<noteq> right_child_page_num \<or>
                                 rd32 V2_PREV_LEAF_OFFSET scratch_right \<noteq> left_child_page_num \<or>
                                 rd32 V2_NEXT_LEAF_OFFSET scratch_right \<noteq> 0 \<or>
                                 rd32 PARENT_POINTER_OFFSET scratch_left \<noteq> root_page_num \<or>
                                 rd32 PARENT_POINTER_OFFSET scratch_right \<noteq> root_page_num
                              then None
                              else Some (blit 0 (slice 0 PAGE_USABLE_SIZE scratch_root) root_page,
                                         blit 0 (slice 0 PAGE_USABLE_SIZE scratch_left) left_child_page,
                                         blit 0 (slice 0 PAGE_USABLE_SIZE scratch_right) right_child_page, separator))"

section \<open>A link of a leaf is replaced\<close>

definition stage_leaf_sibling_relink :: "bytes \<Rightarrow> bool \<Rightarrow> nat \<Rightarrow> nat \<Rightarrow> bytes option" where
  "stage_leaf_sibling_relink leaf_page replace_next expected_old_sibling new_sibling =
     (if length leaf_page < PAGE_SIZE \<or> expected_old_sibling = 0 \<or> expected_old_sibling = INVALID_PAGE_NUM \<or>
         new_sibling = INVALID_PAGE_NUM \<or> new_sibling = expected_old_sibling then None
      else
        let format = detect_page leaf_page
        in if format \<noteq> PAGE_FORMAT_FIXED_V1 \<and> format \<noteq> PAGE_FORMAT_SLOTTED_V2 then None
           else if (if replace_next then page_next leaf_page else page_prev leaf_page) \<noteq> Some expected_old_sibling then None
           else
             let off = (if format = PAGE_FORMAT_FIXED_V1 then
                          (if replace_next then LEAF_NODE_NEXT_LEAF_OFFSET else LEAF_NODE_PREV_LEAF_OFFSET)
                        else (if replace_next then V2_NEXT_LEAF_OFFSET else V2_PREV_LEAF_OFFSET));
                 scratch = wr32 off new_sibling (slice 0 PAGE_SIZE leaf_page)
             in if detect_page scratch \<noteq> format then None
                else if (if replace_next then page_next scratch else page_prev scratch) \<noteq> Some new_sibling then None
                else Some (blit 0 (slice 0 PAGE_USABLE_SIZE scratch) leaf_page))"

text \<open>What the split of a leaf does: where it divides the rows, and that it always succeeds on a leaf with two rows.\<close>

section \<open>The point of balance\<close>

text \<open>How far apart the bytes of the rows before and behind a position are.\<close>

definition imbalance :: "(nat \<times> bytes) list \<Rightarrow> nat \<Rightarrow> nat" where
  "imbalance es j =
     (let before = used_bytes (take j es); behind = used_bytes (drop j es)
      in if before > behind then before - behind else behind - before)"

lemma used_take_drop: "used_bytes (take j es) + used_bytes (drop j es) = used_bytes es"
  by (metis append_take_drop_id used_bytes_simps(3))

lemma entry_length:
  assumes "slotted_validate page" "i < raw_count page"
  shows "split_slot_length page i = length (snd (entries page ! i))"
  using slot_value_length [OF assms] assms(2) by (simp add: split_slot_length_def nth_entries)

lemma best_split_loop_spec:
  assumes v: "slotted_validate page" and es: "es = entries page" and i: "1 \<le> i" "i \<le> raw_count page"
    and r: "r = best_split_loop page (used_bytes es) [i..<raw_count page] best (used_bytes (take (i - 1) es)) delta"
  shows "r = best \<and> (\<forall>j. i \<le> j \<and> j < raw_count page \<longrightarrow> delta \<le> imbalance es j) \<or>
    i \<le> r \<and> r < raw_count page \<and> imbalance es r < delta \<and> (\<forall>j. i \<le> j \<and> j < raw_count page \<longrightarrow> imbalance es r \<le> imbalance es j)"
  using i r
proof (induction "raw_count page - i" arbitrary: i best delta)
  case 0
  then show ?case by simp
next
  case (Suc d)
  let ?n = "raw_count page"
  from Suc.hyps(2) have i: "i < ?n" by simp
  have up: "[i..<?n] = i # [Suc i..<?n]" using i by (rule upt_conv_Cons)
  have "take i es = take (i - 1) es @ [es ! (i - 1)]"
    using Suc.prems(1) i by (metis Suc_diff_le diff_Suc_1 es le_eq_less_or_eq length_entries less_imp_diff_less One_nat_def take_Suc_conv_app_nth)
  then have t: "used_bytes (take (i - 1) es) + V2_SLOT_SIZE + split_slot_length page (i - 1) = used_bytes (take i es)"
    using Suc.prems(1) i by (simp add: es entry_length [OF v])
  have s: "used_bytes es - used_bytes (take i es) = used_bytes (drop i es)" using used_take_drop [of i es] by simp
  have d: "d = ?n - Suc i" "1 \<le> Suc i" "Suc i \<le> ?n" using Suc.hyps(2) by simp_all
  have all: "(\<forall>j. i \<le> j \<and> j < ?n \<longrightarrow> P j) \<longleftrightarrow> P i \<and> (\<forall>j. Suc i \<le> j \<and> j < ?n \<longrightarrow> P j)" for P
    by (rule all_from [OF i])
  have step: "r = (if imbalance es i < delta then best_split_loop page (used_bytes es) [Suc i..<?n] i (used_bytes (take i es)) (imbalance es i)
      else best_split_loop page (used_bytes es) [Suc i..<?n] best (used_bytes (take i es)) delta)"
    unfolding Suc.prems(3) up best_split_loop.simps Let_def t s imbalance_def by simp
  show ?case
  proof (cases "imbalance es i < delta")
    case True
    with step have "r = best_split_loop page (used_bytes es) [Suc i..<?n] i (used_bytes (take (Suc i - 1) es)) (imbalance es i)" by simp
    from Suc.hyps(1) [OF d this] True i show ?thesis unfolding all by auto
  next
    case False
    with step have "r = best_split_loop page (used_bytes es) [Suc i..<?n] best (used_bytes (take (Suc i - 1) es)) delta" by simp
    from Suc.hyps(1) [OF d this] False show ?thesis unfolding all by auto
  qed
qed

lemma fold_total:
  assumes "slotted_validate page" "n \<le> raw_count page"
  shows "fold (\<lambda>i t. t + (V2_SLOT_SIZE + split_slot_length page i)) [0..<n] 0 = used_bytes (take n (entries page))"
  using assms(2)
proof (induction n)
  case (Suc n)
  then show ?case using entry_length [OF assms(1), of n] by (simp add: take_Suc_conv_app_nth)
qed simp

lemma choose_split_index_spec:
  assumes v: "slotted_validate page" and n: "2 \<le> raw_count page" and i: "i = choose_split_index page"
  shows "0 < i" "i < raw_count page" "\<And>j. 0 < j \<Longrightarrow> j < raw_count page \<Longrightarrow> imbalance (entries page) i \<le> imbalance (entries page) j"
proof -
  let ?es = "entries page"
  have "i = best_split_loop page (used_bytes ?es) [1..<raw_count page] 1 (used_bytes (take (1 - 1) ?es)) UINT32_MAX"
    using v n fold_total [OF v order_refl] by (simp add: i choose_split_index_def slotted_count_def Let_def)
  from best_split_loop_spec [OF v refl _ _ this] n
  consider "i = 1" "\<forall>j. 1 \<le> j \<and> j < raw_count page \<longrightarrow> UINT32_MAX \<le> imbalance ?es j"
    | "1 \<le> i" "i < raw_count page" "\<forall>j. 1 \<le> j \<and> j < raw_count page \<longrightarrow> imbalance ?es i \<le> imbalance ?es j" by auto
  moreover have "imbalance ?es j \<le> 4064" for j
    using valid_entries(1) [OF v] used_take_drop [of j ?es] by (simp add: entries_ok_def imbalance_def Let_def, arith)
  then have "\<not> UINT32_MAX \<le> imbalance ?es 1" by (simp add: UINT32_MAX_def not_le order.strict_trans1 [where b = 4064])
  ultimately show "0 < i" "i < raw_count page" "\<And>j. 0 < j \<Longrightarrow> j < raw_count page \<Longrightarrow> imbalance ?es i \<le> imbalance ?es j"
    using n by (metis One_nat_def Suc_le_eq less_le_trans numeral_2_eq_2 order_refl zero_less_one lessI)+
qed

lemma choose_split_index_small:
  "\<not> (slotted_validate page \<and> 2 \<le> raw_count page) \<Longrightarrow> choose_split_index page = 0"
  by (auto simp: choose_split_index_def slotted_count_def)

section \<open>The rows are divided\<close>

lemma entries_prefix_insert:
  assumes valid: "slotted_validate page" and es: "es = entries page" and i: "i < raw_count page" and s: "s \<le> i"
    and p: "slotted_validate p" "entries p = drop s (take i es)"
  shows "\<exists>p'. slotted_insert p (split_slot_key page i) (slice (s_value_offset (read_slot page i)) (split_slot_length page i) page) =
    (True, p') \<and> slotted_validate p' \<and> same_leaf p p' \<and> entries p' = drop s (take (Suc i) es)"
proof -
  have e: "split_slot_key page i = fst (es ! i)"
    "slice (s_value_offset (read_slot page i)) (split_slot_length page i) page = snd (es ! i)"
    using i by (simp_all add: es nth_entries split_slot_key_def split_slot_length_def)
  have ok: "sorted_wrt (<) (map fst es)" "\<forall>(k, v)\<in>set es. k < 2 ^ 32 \<and> v \<noteq> []" "used_bytes es \<le> 4064"
    using valid_entries(1) [OF valid] by (simp_all add: entries_ok_def es)
  have l: "length es = raw_count page" by (simp add: es)
  have mem: "es ! i \<in> set es" using i l by simp
  have ne: "snd (es ! i) \<noteq> []" "fst (es ! i) < 2 ^ 32" using ok(2) mem by (auto simp: split_beta)
  have tk: "take (Suc i) es = take i es @ [es ! i]" using i l by (simp add: take_Suc_conv_app_nth)
  then have dt: "drop s (take (Suc i) es) = drop s (take i es) @ [es ! i]" using s i l by simp
  have "fst a < fst (es ! i)" if "a \<in> set (drop s (take i es))" for a
  proof -
    have "a \<in> set (take i es)" using that by (rule in_set_dropD)
    then obtain j where "j < i" "a = es ! j" unfolding in_set_conv_nth by auto
    with ok(1) i l show ?thesis by (simp add: sorted_wrt_iff_nth_less)
  qed
  moreover have "used_bytes (drop s (take i es)) + 8 + length (snd (es ! i)) \<le> 4064"
    using used_take_drop [of s "take (Suc i) es"] used_take_drop [of "Suc i" es] ok(3) by (simp add: dt)
  ultimately have "spec_insert (entries p) (fst (es ! i)) (snd (es ! i)) = (True, drop s (take (Suc i) es))"
    using spec_insert_last [of "entries p" "fst (es ! i)" "snd (es ! i)"] ne(1) by (simp add: p(2) dt)
  then show ?thesis unfolding e using slotted_insert_spec [OF p(1) ne(2), of "snd (es ! i)"] by (metis fst_conv snd_conv)
qed

lemma divide_rows_spec:
  assumes valid: "slotted_validate page" and es: "es = entries page" and i: "i \<le> raw_count page" and s: "s \<le> raw_count page"
    and a: "slotted_validate a" "entries a = take (min i s) es" and b: "slotted_validate b" "entries b = drop s (take i es)"
  shows "\<exists>a' b'. divide_rows page s [i..<raw_count page] (a, b) = (True, a', b') \<and> slotted_validate a' \<and> slotted_validate b' \<and>
    same_leaf a a' \<and> same_leaf b b' \<and> entries a' = take s es \<and> entries b' = drop s es"
  using i a b
proof (induction "raw_count page - i" arbitrary: i a b)
  case 0
  then show ?case using s by (intro exI [of _ a] exI [of _ b]) (simp add: es min_absorb2)
next
  case (Suc d)
  let ?n = "raw_count page"
  from Suc.hyps(2) have i: "i < ?n" by simp
  have up: "[i..<?n] = i # [Suc i..<?n]" using i by (rule upt_conv_Cons)
  have d: "d = ?n - Suc i" "Suc i \<le> ?n" using Suc.hyps(2) by simp_all
  show ?case
  proof (cases "i < s")
    case True
    then have ea: "entries a = drop 0 (take i es)" using Suc.prems(3) by (simp add: min_absorb1)
    obtain a1 where a1: "slotted_insert a (split_slot_key page i) (slice (s_value_offset (read_slot page i)) (split_slot_length page i) page) =
        (True, a1)" "slotted_validate a1" "same_leaf a a1" "entries a1 = drop 0 (take (Suc i) es)"
      using entries_prefix_insert [OF valid es i le0 Suc.prems(2) ea] by blast
    have e1: "entries a1 = take (min (Suc i) s) es" using a1(4) True by (simp add: min_absorb1)
    have e2: "entries b = drop s (take (Suc i) es)" using Suc.prems(5) True by simp
    have st: "divide_rows page s [i..<?n] (a, b) = divide_rows page s [Suc i..<?n] (a1, b)"
      unfolding up divide_rows.simps Let_def if_P [OF True] a1(1) by simp
    from Suc.hyps(1) [OF d a1(2) e1 Suc.prems(4) e2] a1(3) same_leaf_trans [OF a1(3)] show ?thesis unfolding st by blast
  next
    case False
    then have "s \<le> i" by simp
    from entries_prefix_insert [OF valid es i this Suc.prems(4,5)]
    obtain b1 where b1: "slotted_insert b (split_slot_key page i) (slice (s_value_offset (read_slot page i)) (split_slot_length page i) page) =
        (True, b1)" "slotted_validate b1" "same_leaf b b1" "entries b1 = drop s (take (Suc i) es)" by blast
    have e1: "entries a = take (min (Suc i) s) es" using Suc.prems(3) \<open>s \<le> i\<close> by (simp add: min_absorb2)
    have st: "divide_rows page s [i..<?n] (a, b) = divide_rows page s [Suc i..<?n] (a, b1)"
      unfolding up divide_rows.simps Let_def if_not_P [OF False] b1(1) by simp
    from Suc.hyps(1) [OF d Suc.prems(2) e1 b1(2,4)] b1(3) same_leaf_trans [OF b1(3)] show ?thesis unfolding st by blast
  qed
qed

section \<open>The halves of a leaf\<close>

text \<open>What a caller reads of the two pages: rows, parent, links, flags; the checksum trailers are kept.\<close>

definition leaf_halves :: "bytes \<Rightarrow> nat \<Rightarrow> bytes \<Rightarrow> nat \<Rightarrow> bytes \<Rightarrow> bytes \<Rightarrow> nat \<Rightarrow> bool" where
  "leaf_halves L l R r L' R' i \<longleftrightarrow>
     0 < i \<and> i < raw_count L \<and> slotted_validate L' \<and> slotted_validate R' \<and>
     entries L' = take i (entries L) \<and> entries R' = drop i (entries L) \<and>
     L' ! 1 = 0 \<and> slice 2 4 L' = slice 2 4 L \<and> rd32 18 L' = r \<and> rd32 22 L' = rd32 22 L \<and> slice 26 2 L' = slice 26 2 L \<and>
     R' ! 1 = 0 \<and> slice 2 4 R' = slice 2 4 L \<and> rd32 18 R' = rd32 18 L \<and> rd32 22 R' = l \<and> slice 26 2 R' = slice 26 2 L \<and>
     length L' = length L \<and> length R' = length R \<and> drop 4092 L' = drop 4092 L \<and> drop 4092 R' = drop 4092 R"

lemma identity_slices:
  assumes "identity_fields p = identity_fields q"
  shows "p ! 1 = q ! 1" "slice 2 4 p = slice 2 4 q" "rd32 18 p = rd32 18 q" "rd32 22 p = rd32 22 q" "slice 26 2 p = slice 26 2 q"
proof -
  from assms have s: "slice 18 10 p = slice 18 10 q" by (simp add: identity_fields_def)
  show "p ! 1 = q ! 1" "slice 2 4 p = slice 2 4 q" using assms by (simp_all add: identity_fields_def)
  have sub: "slice (18 + a) n p = slice (18 + a) n q" if "a + n \<le> 10" for a n
    using slice_slice [of a n 10 18 p] slice_slice [of a n 10 18 q] s that by simp
  show "rd32 18 p = rd32 18 q" "rd32 22 p = rd32 22 q" "slice 26 2 p = slice 26 2 q"
    using sub [of 0 4] sub [of 4 4] sub [of 8 2] by (simp_all add: rd32_def)
qed

lemma fresh_like:
  assumes "header_ok p" "raw_count p = 0" "raw_free_start p = 28" "raw_free_end p = 4092"
    and "length q = length p" "q ! 0 = p ! 0" "slice 6 12 q = slice 6 12 p"
  shows "slotted_validate q" "entries q = []"
proof -
  have s: "slice (6 + a) n q = slice (6 + a) n p" if "a + n \<le> 12" for a n
    using slice_slice [of a n 12 6 p] slice_slice [of a n 12 6 q] assms(7) that by simp
  have "header_ok q" using assms(1,5,6) s [of 0 4] s [of 4 2] by (simp add: header_ok_def valid_page_def)
  moreover have "raw_count q = 0" "raw_free_start q = 28" "raw_free_end q = 4092"
    using assms(2-4) s [of 6 2] s [of 8 2] s [of 10 2] by (simp_all add: raw_count_def raw_free_start_def raw_free_end_def)
  ultimately show "slotted_validate q" "entries q = []" using empty_valid by blast+
qed

text \<open>The header of a page that is being built: identity from the leaf, the links given.\<close>

lemma wr32_any:
  assumes "off + 4 \<le> length p"
  shows "length (wr32 off v p) = length p" "v < 2 ^ 32 \<Longrightarrow> rd32 off (wr32 off v p) = v"
    and "a + n \<le> off \<or> off + 4 \<le> a \<Longrightarrow> slice a n (wr32 off v p) = slice a n p"
    and "j < off \<Longrightarrow> wr32 off v p ! j = p ! j"
  using assms by (simp_all add: wr32_def rd32_def n32.dec_enc slice_blit_other nth_blit)

lemma nth_slice_one: "i < length p \<Longrightarrow> i < length q \<Longrightarrow> slice i 1 p = slice i 1 q \<Longrightarrow> p ! i = q ! i"
proof -
  assume a: "i < length p" "i < length q" "slice i 1 p = slice i 1 q"
  from a(3) have "slice i 1 p ! 0 = slice i 1 q ! 0" by simp
  with a(1,2) show "p ! i = q ! i" by simp
qed

definition half_header :: "bytes \<Rightarrow> bytes \<Rightarrow> nat \<Rightarrow> nat \<Rightarrow> bool" where
  "half_header src p next_page prev_page \<longleftrightarrow>
     slotted_validate p \<and> entries p = [] \<and> length p = 4096 \<and> p ! 1 = 0 \<and> slice 2 4 p = slice 2 4 src \<and> rd32 18 p = next_page \<and>
     rd32 22 p = prev_page \<and> slice 26 2 p = slice 26 2 src"

lemma common_identity_spec:
  assumes f: "header_ok p" "raw_count p = 0" "raw_free_start p = 28" "raw_free_end p = 4092" "length p = 4096"
    and src: "28 \<le> length src" and q: "q = copy_common_identity p src"
    and r: "length r = 4096" "slice 0 18 r = slice 0 18 q" "slice 26 2 r = slice 26 2 q"
  shows "half_header src r (rd32 18 r) (rd32 22 r)"
proof -
  have ls: "length (slice 2 4 src) = 4" "length (slice 26 2 src) = 2" using src by simp_all
  define p1 where "p1 = blit 2 (slice 2 4 src) (p[1 := 0])"
  have q': "q = blit 26 (slice 26 2 src) p1" by (simp add: q copy_common_identity_def p1_def numeral_2_eq_2)
  have lp: "length p1 = 4096" "length q = 4096" using ls f(5) by (simp_all add: p1_def q')
  have rq: "slice a n r = slice a n q" if "a + n \<le> 18" for a n
    using slice_slice [of a n 18 0 r] slice_slice [of a n 18 0 q] r(2) that by simp
  have "slice 6 12 q = slice 6 12 p1" unfolding q' by (rule slice_blit_other) (use lp ls in simp_all)
  also have "\<dots> = slice 6 12 p" using ls f(5) by (simp add: p1_def slice_blit_other slice_update_other)
  finally have m: "slice 6 12 r = slice 6 12 p" using rq [of 6 12] by simp
  have z: "r ! 0 = q ! 0" "r ! 1 = q ! 1" using nth_slice_one [of 0 r q] nth_slice_one [of 1 r q] rq [of 0 1] rq [of 1 1] r(1) lp(2) by simp_all
  have "q ! 0 = p ! 0" "q ! 1 = 0" using ls f(5) by (simp_all add: q' p1_def nth_blit)
  with z have b: "r ! 0 = p ! 0" "r ! 1 = 0" by simp_all
  have "slice 2 4 q = slice 2 4 p1" unfolding q' by (rule slice_blit_other) (use lp ls in simp_all)
  then have "slice 2 4 r = slice 2 4 src" using rq [of 2 4] ls f(5) by (simp add: p1_def)
  moreover have "slice 26 2 r = slice 26 2 src" using r(3) ls lp(1) by (simp add: q')
  ultimately show ?thesis
    using fresh_like [OF f(1-4) _ b(1) m] f(5) r(1) b(2) by (simp add: half_header_def)
qed

lemma half_headers:
  assumes f: "header_ok p" "raw_count p = 0" "raw_free_start p = 28" "raw_free_end p = 4092" "length p = 4096"
    and src: "28 \<le> length src" and n: "n < 2 ^ 32"
  shows "half_header src (wr32 18 n (blit 22 (slice 22 4 src) (copy_common_identity p src))) n (rd32 22 src)"
    and "half_header src (blit 18 (slice 18 4 src) (wr32 22 n (copy_common_identity p src))) (rd32 18 src) n"
proof -
  define q where "q = copy_common_identity p src"
  have ls: "length (slice 2 4 src) = 4" "length (slice 26 2 src) = 2" "length (slice 22 4 src) = 4" "length (slice 18 4 src) = 4"
    using src by simp_all
  have lq: "length q = 4096" using ls f(5) by (simp add: q_def copy_common_identity_def numeral_2_eq_2)
  define a where "a = wr32 18 n (blit 22 (slice 22 4 src) q)"
  define b where "b = blit 18 (slice 18 4 src) (wr32 22 n q)"
  have la: "length a = 4096" and lb: "length b = 4096" using lq ls by (simp_all add: a_def b_def wr32_def)
  have sa: "slice 0 18 a = slice 0 18 q" "slice 26 2 a = slice 26 2 q" "rd32 18 a = n" "rd32 22 a = rd32 22 src"
    using lq ls n by (simp_all add: a_def wr32_def rd32_def slice_blit_other n32.dec_enc)
  have sb: "slice 0 18 b = slice 0 18 q" "slice 26 2 b = slice 26 2 q" "rd32 22 b = n" "rd32 18 b = rd32 18 src"
    using lq ls n by (simp_all add: b_def wr32_def rd32_def slice_blit_other n32.dec_enc)
  show "half_header src (wr32 18 n (blit 22 (slice 22 4 src) (copy_common_identity p src))) n (rd32 22 src)"
    using common_identity_spec [OF f src refl la, folded q_def, OF sa(1,2)] sa(3,4) by (simp add: a_def q_def)
  show "half_header src (blit 18 (slice 18 4 src) (wr32 22 n (copy_common_identity p src))) (rd32 18 src) n"
    using common_identity_spec [OF f src refl lb, folded q_def, OF sb(1,2)] sb(3,4) by (simp add: b_def q_def)
qed

section \<open>The split succeeds\<close>

lemma half_done:
  assumes h: "half_header src p n m" and s: "same_leaf p p'" and v: "slotted_validate p'" and len: "4096 \<le> length q"
    and q': "q' = blit 0 (slice 0 4092 p') q"
  shows "slotted_validate q'" "entries q' = entries p'" "length q' = length q" "drop 4092 q' = drop 4092 q"
    "q' ! 1 = 0" "slice 2 4 q' = slice 2 4 src" "rd32 18 q' = n" "rd32 22 q' = m" "slice 26 2 q' = slice 26 2 src"
proof -
  have l: "length p' = 4096" using h s by (simp add: half_header_def same_leaf_def)
  note C = validate_copy_usable [OF v l len q']
  show "slotted_validate q'" "entries q' = entries p'" "length q' = length q" "drop 4092 q' = drop 4092 q" using C by simp_all
  have "identity_fields q' = identity_fields p" using C(3) s by (simp add: same_leaf_def)
  from identity_slices [OF this] h show "q' ! 1 = 0" "slice 2 4 q' = slice 2 4 src" "rd32 18 q' = n" "rd32 22 q' = m"
    "slice 26 2 q' = slice 26 2 src" by (simp_all add: half_header_def)
qed

lemma split_nonroot_succeeds:
  assumes v: "slotted_validate L" and root: "L ! 1 = 0" and n: "2 \<le> raw_count L" and len: "4096 \<le> length R" and ne: "l \<noteq> r"
    and b: "l < 2 ^ 32" "r < 2 ^ 32"
  obtains L' R' where "split_nonroot L l R r = Some (L', R', choose_split_index L)" "leaf_halves L l R r L' R' (choose_split_index L)"
proof -
  note V = validD [OF v]
  define i where "i = choose_split_index L"
  note I = choose_split_index_spec [OF v n i_def]
  have vp: "valid_page (replicate PAGE_SIZE (0::u8))" by (simp add: valid_page_def)
  obtain s0 where s0: "slotted_init (replicate PAGE_SIZE 0) = (True, s0)" "header_ok s0" "raw_count s0 = 0" "raw_free_start s0 = 28"
    "raw_free_end s0 = 4092" "length s0 = 4096" using slotted_init_spec [OF vp] by (metis PAGE_SIZE_def length_replicate)
  have l28: "28 \<le> length L" using V(2) by simp
  define a where "a = wr32 18 r (blit 22 (slice 22 4 L) (copy_common_identity s0 L))"
  define c where "c = blit 18 (slice 18 4 L) (wr32 22 l (copy_common_identity s0 L))"
  have ha: "half_header L a r (rd32 22 L)" unfolding a_def by (rule half_headers(1) [OF s0(2-6) l28 b(2)])
  have hc: "half_header L c (rd32 18 L) l" unfolding c_def by (rule half_headers(2) [OF s0(2-6) l28 b(1)])
  have va: "slotted_validate a" "entries a = take (min 0 i) (entries L)" using ha by (simp_all add: half_header_def)
  have vc: "slotted_validate c" "entries c = drop i (take 0 (entries L))" using hc by (simp_all add: half_header_def)
  obtain a' c' where red: "divide_rows L i [0..<raw_count L] (a, c) = (True, a', c')" "slotted_validate a'" "slotted_validate c'"
    "same_leaf a a'" "same_leaf c c'" "entries a' = take i (entries L)" "entries c' = drop i (entries L)"
    using divide_rows_spec [OF v refl le0 less_imp_le [OF I(2)] va vc] by blast
  define L' where "L' = blit 0 (slice 0 4092 a') L"
  define R' where "R' = blit 0 (slice 0 4092 c') R"
  have "4096 \<le> length L" using V(1) by (simp add: PAGE_SIZE_def)
  note HL = half_done [OF ha red(4,2) this L'_def] and HR = half_done [OF hc red(5,3) len R'_def]
  have cnt: "raw_count a' = i" "raw_count c' = raw_count L - i"
    using arg_cong [OF red(6), of length] arg_cong [OF red(7), of length] I(2) by simp_all
  have g1: "\<not> (length L < PAGE_SIZE \<or> length R < PAGE_SIZE \<or> l = r \<or> \<not> slotted_validate L \<or> L ! IS_ROOT_OFFSET \<noteq> 0)"
    using V(1) v len ne root by (simp add: PAGE_SIZE_def)
  have cl: "slotted_count L = raw_count L" using v by (simp add: slotted_count_def)
  have g2: "\<not> (i = 0 \<or> i \<ge> slotted_count L)" using I cl by simp
  have "split_nonroot L l R r = Some (L', R', i)"
    unfolding split_nonroot_def if_not_P [OF g1] Let_def i_def [symmetric] if_not_P [OF g2] s0(1) case_prod_conv
    using red(1-3) cnt I(1,2) v by (simp add: a_def [symmetric] c_def [symmetric] cl slotted_count_def L'_def R'_def)
  moreover have "leaf_halves L l R r L' R' i"
    using I(1,2) HL HR red(6,7) by (simp add: leaf_halves_def)
  ultimately show thesis using that unfolding i_def by blast
qed

lemma split_nonroot_needs:
  assumes "split_nonroot L l R r = Some x"
  shows "slotted_validate L" "L ! 1 = 0" "2 \<le> raw_count L" "4096 \<le> length R" "l \<noteq> r"
proof -
  from assms have g: "\<not> (length L < PAGE_SIZE \<or> length R < PAGE_SIZE \<or> l = r \<or> \<not> slotted_validate L \<or> L ! IS_ROOT_OFFSET \<noteq> 0)"
    "choose_split_index L \<noteq> 0"
    unfolding split_nonroot_def Let_def by (metis option.distinct(1))+
  then show "slotted_validate L" "L ! 1 = 0" "4096 \<le> length R" "l \<noteq> r" by (simp_all add: PAGE_SIZE_def)
  show "2 \<le> raw_count L" using choose_split_index_small [of L] g(2) by (meson)
qed

lemma split_nonroot_Some:
  assumes s: "split_nonroot L l R r = Some (L', R', i)" and b: "l < 2 ^ 32" "r < 2 ^ 32"
  shows "leaf_halves L l R r L' R' i" "i = choose_split_index L"
  using split_nonroot_succeeds [OF split_nonroot_needs(1-5) [OF s] b] s by (metis option.inject prod.inject)+

end
