(* ===== verification/LeafSplitStages.thy ===== *)
theory LeafSplitStages
  imports LeafSplits
begin

text \<open>What the stages of a leaf split do to a tree of pages.\<close>

section \<open>Parts of a page that do not matter\<close>

lemma leaf_cong:
  assumes v: "slotted_validate p" and len: "4096 \<le> length q" and z: "q ! 0 = p ! 0"
    and h: "slice 6 12 q = slice 6 12 p" and b: "slice 28 4064 q = slice 28 4064 p"
  shows "slotted_validate q" "entries q = entries p" "raw_count q = raw_count p" "slots q = slots p"
proof -
  note V = validD [OF v]
  have s: "slice (6 + a) n q = slice (6 + a) n p" if "a + n \<le> 12" for a n
    using slice_slice [of a n 12 6 p] slice_slice [of a n 12 6 q] h that by simp
  have t: "slice a n q = slice a n p" if "28 \<le> a" "a + n \<le> 4092" for a n
    using slice_slice [of "a - 28" n 4064 28 p] slice_slice [of "a - 28" n 4064 28 q] b that by simp
  have c: "raw_count q = raw_count p" "raw_free_start q = raw_free_start p" "raw_free_end q = raw_free_end p"
    using s [of 6 2] s [of 8 2] s [of 10 2] by (simp_all add: raw_count_def raw_free_start_def raw_free_end_def)
  have hd: "header_ok q" using V(3) z s [of 0 4] s [of 4 2] len by (simp add: header_ok_def valid_page_def PAGE_SIZE_def)
  have "read_slot q i = read_slot p i" if "i < raw_count p" for i
    using t [of "28 + 8 * i" 8] V(5,7) that by (simp add: read_slot_dec)
  then have ss: "slots q = slots p" by (simp add: slots_def c)
  show "slotted_validate q" using v hd by (simp add: slotted_validate_iff c ss)
  show "raw_count q = raw_count p" "slots q = slots p" by (fact c(1) ss)+
  have "28 \<le> s_value_offset s" if "s \<in> set (slots p)" for s
    using V(5,6) that by (auto simp: slots_ok_def)
  then show "entries q = entries p"
    unfolding entries_def ss by (intro map_cong refl) (use V(6) t in \<open>auto simp: slots_ok_def\<close>)
qed

lemma leaf_usable_cong:
  assumes v: "slotted_validate p" and len: "4096 \<le> length q" and s: "slice 0 4092 q = slice 0 4092 p"
  shows "slotted_validate q" "entries q = entries p" "raw_count q = raw_count p"
proof -
  have sl: "slice a n q = slice a n p" if "a + n \<le> 4092" for a n
    using slice_slice [of a n 4092 0 p] slice_slice [of a n 4092 0 q] s that by simp
  have l: "4096 \<le> length p" using validD(1) [OF v] by (simp add: PAGE_SIZE_def)
  have "q ! 0 = p ! 0" by (rule nth_usable [OF s]) (use len l in simp_all)
  from leaf_cong [OF v len this sl sl] show "slotted_validate q" "entries q = entries p" "raw_count q = raw_count p" by simp_all
qed

lemma scratch_leaf:
  assumes "slotted_validate p"
  shows "slotted_validate (slice 0 4096 p)" "entries (slice 0 4096 p) = entries p" "raw_count (slice 0 4096 p) = raw_count p"
    "length (slice 0 4096 p) = 4096" "off + n \<le> 4096 \<Longrightarrow> slice off n (slice 0 4096 p) = slice off n p"
    "off + 4 \<le> 4096 \<Longrightarrow> rd32 off (slice 0 4096 p) = rd32 off p" "j < 4096 \<Longrightarrow> slice 0 4096 p ! j = p ! j"
proof -
  have l: "4096 \<le> length p" using validD(1) [OF assms] by (simp add: PAGE_SIZE_def)
  show "length (slice 0 4096 p) = 4096" using l by simp
  have s: "slice off n (slice 0 4096 p) = slice off n p" if "off + n \<le> 4096" for off n
    using slice_slice [of off n 4096 0 p] that by simp
  then show "off + n \<le> 4096 \<Longrightarrow> slice off n (slice 0 4096 p) = slice off n p"
    "off + 4 \<le> 4096 \<Longrightarrow> rd32 off (slice 0 4096 p) = rd32 off p" by (simp_all add: rd32_def)
  show "j < 4096 \<Longrightarrow> slice 0 4096 p ! j = p ! j" using l by simp
  from leaf_usable_cong [OF assms _ s [of 0 4092]] l
  show "slotted_validate (slice 0 4096 p)" "entries (slice 0 4096 p) = entries p" "raw_count (slice 0 4096 p) = raw_count p" by simp_all
qed

lemma link_write:
  assumes v: "slotted_validate p" and off: "off = 18 \<or> off = 22" and n: "n < 2 ^ 32" and q: "q = wr32 off n p"
  shows "slotted_validate q" "entries q = entries p" "length q = length p" "rd32 off q = n"
    "\<And>a m. a + m \<le> off \<or> off + 4 \<le> a \<Longrightarrow> slice a m q = slice a m p" "q ! 1 = p ! 1"
proof -
  have l: "4096 \<le> length p" using validD(1) [OF v] by (simp add: PAGE_SIZE_def)
  have o: "off + 4 \<le> length p" using off l by auto
  note W = wr32_any [OF o]
  show sl: "slice a m q = slice a m p" if "a + m \<le> off \<or> off + 4 \<le> a" for a m unfolding q by (rule W(3) [OF that])
  show lq: "length q = length p" "rd32 off q = n" using W(1,2) n by (simp_all add: q)
  have z: "q ! 0 = p ! 0" and "q ! 1 = p ! 1" using W(4) off by (auto simp: q)
  then show "q ! 1 = p ! 1" by simp
  have s: "slice 6 12 q = slice 6 12 p" "slice 28 4064 q = slice 28 4064 p" by (rule sl; use off in auto)+
  from leaf_cong [OF v _ z s] l lq show "slotted_validate q" "entries q = entries p" by simp_all
qed

section \<open>With the next sibling\<close>

text \<open>The old next sibling but for its link back.\<close>

definition relinked :: "bytes \<Rightarrow> nat \<Rightarrow> bytes \<Rightarrow> bool" where
  "relinked N r N' \<longleftrightarrow> slotted_validate N' \<and> entries N' = entries N \<and> rd32 22 N' = r \<and> rd32 18 N' = rd32 18 N \<and> N' ! 1 = N ! 1 \<and>
     slice 2 4 N' = slice 2 4 N \<and> slice 26 2 N' = slice 26 2 N \<and> length N' = length N \<and> drop 4092 N' = drop 4092 N"

lemma relinked_page:
  assumes v: "slotted_validate N" and r: "r < 2 ^ 32" and s: "s = wr32 22 r (slice 0 4096 N)"
  shows "slotted_validate s" "rd32 22 s = r" "relinked N r (blit 0 (slice 0 4092 s) N)" "length s = 4096"
proof -
  note S = scratch_leaf [OF v]
  note W = link_write [OF S(1) _ r s, simplified]
  show "slotted_validate s" "rd32 22 s = r" "length s = 4096" using W S(4) by simp_all
  have l: "length s = 4096" "4096 \<le> length N" using W S(4) validD(1) [OF v] by (simp_all add: PAGE_SIZE_def)
  note C = validate_copy_usable [OF W(1) l refl]
  note I = identity_slices [OF C(3)]
  show "relinked N r (blit 0 (slice 0 4092 s) N)"
    unfolding relinked_def using C I W S(2) S(5) [of 18 4] S(5) [of 2 4] S(5) [of 26 2] S(7) [of 1] W(5) [of 18 4] W(5) [of 2 4] W(5) [of 26 2]
    by (simp add: rd32_def)
qed

lemma halves_scratch:
  assumes h: "leaf_halves (slice 0 4096 L) l (slice 0 4096 R) r L' R' i" and v: "slotted_validate L" and R: "4096 \<le> length R"
  shows "leaf_halves L l R r (blit 0 (slice 0 4092 L') L) (blit 0 (slice 0 4092 R') R) i"
    "slotted_validate L'" "slotted_validate R'" "rd32 18 L' = r" "rd32 22 R' = l" "rd32 18 R' = rd32 18 L" "length L' = 4096" "length R' = 4096"
proof -
  note S = scratch_leaf [OF v]
  have L: "4096 \<le> length L" using validD(1) [OF v] by (simp add: PAGE_SIZE_def)
  have H: "slotted_validate L'" "slotted_validate R'" "entries L' = take i (entries L)" "entries R' = drop i (entries L)" "i < raw_count L" "0 < i"
    "L' ! 1 = 0" "slice 2 4 L' = slice 2 4 L" "rd32 18 L' = r" "rd32 22 L' = rd32 22 L" "slice 26 2 L' = slice 26 2 L"
    "R' ! 1 = 0" "slice 2 4 R' = slice 2 4 L" "rd32 18 R' = rd32 18 L" "rd32 22 R' = l" "slice 26 2 R' = slice 26 2 L"
    "length L' = 4096" "length R' = 4096"
    using h S R unfolding leaf_halves_def by simp_all
  note A = validate_copy_usable [OF H(1) H(17) L refl] and B = validate_copy_usable [OF H(2) H(18) R refl]
  show "leaf_halves L l R r (blit 0 (slice 0 4092 L') L) (blit 0 (slice 0 4092 R') R) i"
    unfolding leaf_halves_def using A B identity_slices [OF A(3)] identity_slices [OF B(3)] H by simp
  show "slotted_validate L'" "slotted_validate R'" "rd32 18 L' = r" "rd32 22 R' = l" "rd32 18 R' = rd32 18 L" "length L' = 4096" "length R' = 4096"
    by (fact H)+
qed

text \<open>The greatest key of a leaf.\<close>

definition leaf_max :: "bytes \<Rightarrow> nat" where
  "leaf_max page = fst (last (entries page))"

lemma split_slot_key_last:
  assumes "slotted_validate p" "0 < raw_count p"
  shows "split_slot_key p (raw_count p - 1) = leaf_max p"
proof -
  have "entries p \<noteq> []" using assms by (metis length_entries length_greater_0_conv)
  then show ?thesis using assms(2) by (simp add: split_slot_key_def leaf_max_def last_conv_nth nth_entries)
qed

lemma halves_counts:
  assumes h: "leaf_halves L l R r L' R' i"
  shows "raw_count L' = i" "raw_count R' = raw_count L - i" "0 < raw_count L'" "0 < raw_count R'"
proof -
  have e: "entries L' = take i (entries L)" "entries R' = drop i (entries L)" "0 < i" "i < raw_count L"
    using h by (simp_all add: leaf_halves_def)
  from arg_cong [OF e(1), of length] arg_cong [OF e(2), of length] e(3,4)
  show "raw_count L' = i" "raw_count R' = raw_count L - i" "0 < raw_count L'" "0 < raw_count R'" by simp_all
qed

lemma halves_leaf_max:
  assumes v: "slotted_validate L" and h: "leaf_halves L l R r L' R' i"
  shows "leaf_max R' = leaf_max L" "leaf_max L' < leaf_max L" "leaf_max L' < 2 ^ 32"
    "\<And>e. e \<in> set (entries L') \<Longrightarrow> fst e \<le> leaf_max L'" "\<And>e. e \<in> set (entries R') \<Longrightarrow> leaf_max L' < fst e"
proof -
  let ?es = "entries L"
  have e: "entries L' = take i ?es" "entries R' = drop i ?es" "0 < i" "i < length ?es"
    using h by (simp_all add: leaf_halves_def)
  have ok: "sorted_wrt (<) (map fst ?es)" "\<forall>(k, v)\<in>set ?es. k < 2 ^ 32 \<and> v \<noteq> []"
    using valid_entries(1) [OF v] by (simp_all add: entries_ok_def)
  have lt: "fst (?es ! a) < fst (?es ! b)" if "a < b" "b < length ?es" for a b
    using ok(1) that by (simp add: sorted_wrt_iff_nth_less)
  have ne: "?es \<noteq> []" using e(4) by (metis less_nat_zero_code list.size(3))
  have m: "leaf_max L' = fst (?es ! (i - 1))" using e ne unfolding leaf_max_def e(1) by (subst last_conv_nth) auto
  have mL: "leaf_max L = fst (?es ! (length ?es - 1))" using ne by (simp add: leaf_max_def last_conv_nth)
  show "leaf_max R' = leaf_max L" using e by (simp add: leaf_max_def)
  show "leaf_max L' < leaf_max L" unfolding m mL by (rule lt) (use e in simp_all)
  show "leaf_max L' < 2 ^ 32"
    using ok(2) nth_mem [of "i - 1" ?es] e(3,4) unfolding m by (auto simp: split_beta)
  show "fst x \<le> leaf_max L'" if x: "x \<in> set (entries L')" for x
  proof -
    from x obtain j where "j < i" "x = ?es ! j" using e unfolding e(1) in_set_conv_nth by auto
    have "fst (?es ! j) \<le> fst (?es ! (i - 1))"
    proof (cases "j = i - 1")
      case False
      with \<open>j < i\<close> have "j < i - 1" by linarith
      moreover have "i - 1 < length ?es" using e(4) by simp
      ultimately show ?thesis by (rule less_imp_le [OF lt])
    qed simp
    with \<open>x = ?es ! j\<close> show ?thesis unfolding m by simp
  qed
  show "leaf_max L' < fst x" if x: "x \<in> set (entries R')" for x
  proof -
    from x obtain j where "j < length ?es - i" "x = ?es ! (i + j)" using e unfolding e(2) in_set_conv_nth by auto
    with lt [of "i - 1" "i + j"] e show ?thesis unfolding m by simp
  qed
qed

lemma halves_maxes_eq:
  assumes v: "slotted_validate L" and h: "leaf_halves L l R r L' R' i"
  shows "halves_maxes L' R' (leaf_max L) = Some (leaf_max L', leaf_max L)"
proof -
  have V: "slotted_validate L'" "slotted_validate R'" using h by (simp_all add: leaf_halves_def)
  note C = halves_counts [OF h] and M = halves_leaf_max [OF v h]
  show ?thesis
    unfolding halves_maxes_def Let_def slotted_count_def using V C(3,4) M(1,2)
    by (simp add: split_slot_key_last [OF V(1) C(3), simplified] split_slot_key_last [OF V(2) C(4), simplified])
qed

text \<open>A row is in the half its key leads to.\<close>

lemma halves_lookup:
  assumes v: "slotted_validate L" and h: "leaf_halves L l R r L' R' i"
  shows "slotted_read (if k \<le> leaf_max L' then L' else R') k capacity = slotted_read L k capacity"
proof -
  let ?es = "entries L"
  have V: "slotted_validate L'" "slotted_validate R'" and e: "entries L' = take i ?es" "entries R' = drop i ?es"
    using h by (simp_all add: leaf_halves_def)
  note M = halves_leaf_max [OF v h]
  have app: "?es = entries L' @ entries R'" unfolding e by simp
  have "map_of (entries (if k \<le> leaf_max L' then L' else R')) k = map_of ?es k"
  proof (cases "k \<le> leaf_max L'")
    case True
    then have "map_of (entries R') k = None" using M(5) by (fastforce simp: map_of_eq_None_iff)
    then show ?thesis using True unfolding app map_of_append map_add_def by (simp split: option.split)
  next
    case False
    then have "map_of (entries L') k = None" using M(4) by (fastforce simp: map_of_eq_None_iff)
    then show ?thesis using False unfolding app map_of_append map_add_def by (simp split: option.split)
  qed
  then have "spec_read (entries (if k \<le> leaf_max L' then L' else R')) k capacity = spec_read ?es k capacity" by (simp add: spec_read_def)
  then show ?thesis using slotted_read_spec [OF v] slotted_read_spec [OF V(1)] slotted_read_spec [OF V(2)] by (simp split: if_splits)
qed

section \<open>The split with the next sibling\<close>

definition can_split :: "bytes \<Rightarrow> nat \<Rightarrow> bytes \<Rightarrow> nat \<Rightarrow> bool" where
  "can_split L l R r \<longleftrightarrow> slotted_validate L \<and> L ! 1 = 0 \<and> 2 \<le> raw_count L \<and> 4096 \<le> length R \<and> l \<noteq> r"

definition next_fits :: "bytes \<Rightarrow> nat \<Rightarrow> nat \<Rightarrow> bytes \<Rightarrow> nat \<Rightarrow> bool" where
  "next_fits L l r N n \<longleftrightarrow> slotted_validate N \<and> l \<noteq> n \<and> r \<noteq> n \<and> rd32 18 L = n \<and> rd32 22 N = l"

lemma can_split_scratch:
  assumes "can_split L l R r"
  shows "can_split (slice 0 4096 L) l (slice 0 4096 R) r"
  using assms scratch_leaf [of L] by (simp add: can_split_def)

lemma next_fits_scratch:
  assumes "next_fits L l r N n" "slotted_validate L"
  shows "next_fits (slice 0 4096 L) l r (slice 0 4096 N) n"
  using assms scratch_leaf [of L] scratch_leaf [of N] by (simp add: next_fits_def)

lemma can_split_nonroot:
  assumes c: "can_split L l R r" and b: "l < 2 ^ 32" "r < 2 ^ 32"
  obtains L' R' i where "split_nonroot L l R r = Some (L', R', i)" "leaf_halves L l R r L' R' i"
  using split_nonroot_succeeds [OF _ _ _ _ _ b, of L R] c that unfolding can_split_def by metis

lemma split_with_next_succeeds:
  assumes c: "can_split L l R r" and nx: "next_fits L l r N n" and b: "l < 2 ^ 32" "r < 2 ^ 32"
  obtains L' R' N' i where "split_nonroot_with_next L l R r N n = Some (L', R', N', i)" "leaf_halves L l R r L' R' i" "relinked N r N'"
proof -
  have v: "slotted_validate L" "slotted_validate N" and R: "4096 \<le> length R" using c nx by (simp_all add: can_split_def next_fits_def)
  obtain A B i where s: "split_nonroot (slice 0 4096 L) l (slice 0 4096 R) r = Some (A, B, i)"
    and h: "leaf_halves (slice 0 4096 L) l (slice 0 4096 R) r A B i"
    using can_split_nonroot [OF can_split_scratch [OF c] b] .
  note H = halves_scratch [OF h v(1) R]
  define t where "t = wr32 22 r (slice 0 4096 N)"
  note T = relinked_page [OF v(2) b(2) t_def]
  have len: "4096 \<le> length L" "4096 \<le> length N" using validD(1) [OF v(1)] validD(1) [OF v(2)] by (simp_all add: PAGE_SIZE_def)
  have "split_nonroot_with_next L l R r N n =
      Some (blit 0 (slice 0 4092 A) L, blit 0 (slice 0 4092 B) R, blit 0 (slice 0 4092 t) N, i)"
    using c nx len s H(2-6) T(1,2)
    by (simp add: split_nonroot_with_next_def can_split_def next_fits_def PAGE_SIZE_def t_def [symmetric] Let_def)
  with that H(1) T(3) show thesis by blast
qed

lemma split_with_next_needs:
  assumes "split_nonroot_with_next L l R r N n = Some x"
  shows "can_split L l R r" "next_fits L l r N n"
proof -
  from assms obtain y where g: "slotted_validate L" "slotted_validate N" "L ! 1 = 0" "4096 \<le> length R" "l \<noteq> r" "l \<noteq> n" "r \<noteq> n"
    "rd32 18 L = n" "rd32 22 N = l" and y: "split_nonroot (slice 0 4096 L) l (slice 0 4096 R) r = Some y"
    unfolding split_nonroot_with_next_def by (elim guardE case_optionE) (simp add: PAGE_SIZE_def)
  have "2 \<le> raw_count L" using split_nonroot_needs(3) [OF y] scratch_leaf(3) [OF g(1)] by simp
  with g show "can_split L l R r" "next_fits L l r N n" by (simp_all add: can_split_def next_fits_def)
qed

lemma split_with_next_Some:
  assumes s: "split_nonroot_with_next L l R r N n = Some (L', R', N', i)" and b: "l < 2 ^ 32" "r < 2 ^ 32"
  shows "leaf_halves L l R r L' R' i" "relinked N r N'"
  using split_with_next_succeeds [OF split_with_next_needs [OF s] b] s by (metis option.inject prod.inject)+

section \<open>Leaf and parent\<close>

text \<open>The node of the parent in which \<open>l\<close> splits at a key.\<close>

definition parent_splits :: "bytes \<Rightarrow> nat \<Rightarrow> nat \<Rightarrow> nat \<Rightarrow> nat \<Rightarrow> nat \<Rightarrow> bytes \<Rightarrow> bool" where
  "parent_splits P i l r old nl P' \<longleftrightarrow> splits_at P i l r old nl old \<and> internal_node_num_keys P < 509 \<and>
     parent_stage_validate P' \<and> node_seps P' = put_at i nl (node_seps P) \<and> node_kids P' = put_at (i + 1) r (node_kids P) \<and>
     slice 0 6 P' = slice 0 6 P \<and> length P' = length P \<and> drop 4092 P' = drop 4092 P"

lemma scratch_node:
  assumes "4096 \<le> length p"
  shows "parent_stage_validate (slice 0 4096 p) = parent_stage_validate p"
    and "parent_stage_validate p \<Longrightarrow> node_seps (slice 0 4096 p) = node_seps p"
    and "parent_stage_validate p \<Longrightarrow> node_kids (slice 0 4096 p) = node_kids p"
    and "parent_stage_validate p \<Longrightarrow> internal_node_num_keys (slice 0 4096 p) = internal_node_num_keys p"
proof -
  have s: "slice 0 4092 (slice 0 4096 p) = slice 0 4092 p" by (simp add: slice_slice)
  show "parent_stage_validate (slice 0 4096 p) = parent_stage_validate p"
    by (rule parent_stage_validate_cong [OF s]) (use assms in simp_all)
  assume "parent_stage_validate p"
  from same_usable_node [OF s valid_nodeD(4) [OF this]]
  show "node_seps (slice 0 4096 p) = node_seps p" "node_kids (slice 0 4096 p) = node_kids p"
    "internal_node_num_keys (slice 0 4096 p) = internal_node_num_keys p" by simp_all
qed

lemma splits_at_scratch:
  assumes "4096 \<le> length P"
  shows "splits_at (slice 0 4096 P) i l r old nl nr \<longleftrightarrow> splits_at P i l r old nl nr"
proof (cases "parent_stage_validate P")
  case True
  then show ?thesis using scratch_node [OF assms] by (simp add: splits_at_def)
next
  case False
  then show ?thesis using scratch_node(1) [OF assms] by (simp add: splits_at_def)
qed

lemma published_node_again:
  assumes v: "parent_stage_validate q" and l: "length q = 4096" "4096 \<le> length P" and p: "P' = blit 0 (slice 0 4092 q) P"
  shows "parent_stage_validate P'" "node_seps P' = node_seps q" "node_kids P' = node_kids q" "length P' = length P"
    "drop 4092 P' = drop 4092 P" "slice 0 6 P' = slice 0 6 q"
proof -
  note S = published_spec [OF l, unfolded published_def, folded p]
  have s: "slice 0 4092 P' = slice 0 4092 q" using S(2) .
  show "length P' = length P" "drop 4092 P' = drop 4092 P" using S by simp_all
  show "parent_stage_validate P'" using parent_stage_validate_cong [OF s] l S(1) v by simp
  show "node_seps P' = node_seps q" "node_kids P' = node_kids q" using same_usable_node [OF s valid_nodeD(4) [OF v]] by simp_all
  show "slice 0 6 P' = slice 0 6 q" using slice_slice [of 0 6 4092 0 P'] slice_slice [of 0 6 4092 0 q] s by simp
qed

lemma scratch_parent_split:
  assumes s: "stage_parent_split (slice 0 4096 P) l r old nl old = Some (q, j)" and b: "r < 2 ^ 32" "nl < 2 ^ 32"
    and len: "4096 \<le> length P" and p: "P' = blit 0 (slice 0 4092 q) P"
  shows "0 < j" "parent_splits P (j - 1) l r old nl P'" "parent_stage_validate q" "stage_child_at q j = r" "j \<le> internal_node_num_keys q"
    "internal_node_num_keys q = internal_node_num_keys P + 1" "length q = 4096"
proof -
  let ?S = "slice 0 4096 P"
  obtain i where i: "splits_at ?S i l r old nl old" "internal_node_num_keys ?S < 509" "j = i + 1" "parent_stage_validate q"
    "node_seps q = put_at i nl (node_seps ?S)" "node_kids q = put_at (i + 1) r (node_kids ?S)" "length q = length ?S"
    "slice 0 6 q = slice 0 6 ?S" by (rule stage_parent_split_Some [OF s b]; rule that; assumption)
  have sp: "splits_at P i l r old nl old" using i(1) splits_at_scratch [OF len] by simp
  then have v: "parent_stage_validate P" by (simp add: splits_at_def)
  note N = scratch_node(2-4) [OF len v]
  have lq: "length q = 4096" using i(7) len by simp
  note B = published_node_again [OF i(4) lq len p]
  have s6: "slice 0 6 ?S = slice 0 6 P" using slice_slice [of 0 6 4096 0 P] by simp
  show "0 < j" "parent_splits P (j - 1) l r old nl P'"
    using i B N sp s6 by (simp_all add: parent_splits_def)
  show "parent_stage_validate q" "length q = 4096" by (fact i(4) lq)+
  have le: "i \<le> internal_node_num_keys P" using sp by (simp add: splits_at_def)
  show n: "internal_node_num_keys q = internal_node_num_keys P + 1" using arg_cong [OF i(5), of length] N by simp
  show "j \<le> internal_node_num_keys q" using n le i(3) by simp
  have "node_kids q ! j = r" using i(3,6) N le by (simp add: nth_put_at)
  then show "stage_child_at q j = r" using \<open>j \<le> internal_node_num_keys q\<close> by (simp add: stage_child_at_eq)
qed

lemma scratch_parent_succeeds:
  assumes "splits_at P i l r old nl old" "internal_node_num_keys P < 509" "r < 2 ^ 32" "nl < 2 ^ 32" "4096 \<le> length P"
  obtains q where "stage_parent_split (slice 0 4096 P) l r old nl old = Some (q, i + 1)"
proof -
  have "parent_stage_validate P" using assms(1) by (simp add: splits_at_def)
  with assms show thesis using that stage_parent_split_succeeds [of "slice 0 4096 P" i l r old nl old] splits_at_scratch [OF assms(5)] scratch_node(4) [OF assms(5)]
    by fastforce
qed

lemma relinked_scratch:
  assumes v: "slotted_validate N" and h: "relinked (slice 0 4096 N) r T" and p: "N' = blit 0 (slice 0 4092 T) N"
  shows "relinked N r N'" "slotted_validate T" "rd32 22 T = r"
proof -
  note S = scratch_leaf [OF v]
  have l: "4096 \<le> length N" using validD(1) [OF v] by (simp add: PAGE_SIZE_def)
  have T: "slotted_validate T" "entries T = entries N" "rd32 22 T = r" "rd32 18 T = rd32 18 N" "T ! 1 = N ! 1"
    "slice 2 4 T = slice 2 4 N" "slice 26 2 T = slice 26 2 N" "length T = 4096"
    using h S unfolding relinked_def by simp_all
  note C = validate_copy_usable [OF T(1) T(8) l p]
  show "relinked N r N'" unfolding relinked_def using C identity_slices [OF C(3)] T by simp
  show "slotted_validate T" "rd32 22 T = r" by (fact T)+
qed

lemma leaf_max_cong: "entries p = entries q \<Longrightarrow> leaf_max p = leaf_max q"
  by (simp add: leaf_max_def)

lemma scratch_leaf_max: "slotted_validate L \<Longrightarrow> leaf_max (slice 0 4096 L) = leaf_max L"
  by (rule leaf_max_cong) (rule scratch_leaf(2))

lemma halves_of_scratch:
  assumes v: "slotted_validate L" and R: "4096 \<le> length R" and h: "leaf_halves (slice 0 4096 L) l (slice 0 4096 R) r A B i"
    and p: "L' = blit 0 (slice 0 4092 A) L" "R' = blit 0 (slice 0 4092 B) R"
  shows "leaf_halves L l R r L' R' i" "halves_maxes A B (leaf_max L) = Some (leaf_max L', leaf_max L)" "leaf_max L' < leaf_max L"
    "leaf_max L' < 2 ^ 32" "slotted_validate A" "slotted_validate B" "rd32 18 A = r" "rd32 22 B = l" "rd32 18 B = rd32 18 L"
proof -
  note H = halves_scratch [OF h v R, folded p]
  show "leaf_halves L l R r L' R' i" "slotted_validate A" "slotted_validate B" "rd32 18 A = r" "rd32 22 B = l" "rd32 18 B = rd32 18 L"
    by (fact H)+
  note M = halves_leaf_max [OF v H(1)]
  show "leaf_max L' < leaf_max L" "leaf_max L' < 2 ^ 32" by (fact M)+
  have "entries L' = entries A" using H(1) h scratch_leaf(2) [OF v] by (simp add: leaf_halves_def)
  then have "leaf_max L' = leaf_max A" by (rule leaf_max_cong)
  then show "halves_maxes A B (leaf_max L) = Some (leaf_max L', leaf_max L)"
    using halves_maxes_eq [OF scratch_leaf(1) [OF v] h] scratch_leaf_max [OF v] by simp
qed

section \<open>The stages of a leaf and its parent\<close>

lemma tree_split_with_next_Some:
  assumes s: "stage_tree_split_with_next L l R r N n P = Some (L', R', N', P', i, j)" and b: "l < 2 ^ 32" "r < 2 ^ 32"
  shows "can_split L l R r" "next_fits L l r N n" "leaf_halves L l R r L' R' i" "relinked N r N'" "0 < j"
    "parent_splits P (j - 1) l r (leaf_max L) (leaf_max L') P'" "l \<noteq> 0" "r \<noteq> 0"
proof -
  from s obtain A B T q x where v: "slotted_validate L" "slotted_validate N" "parent_stage_validate P" "4096 \<le> length R" "4096 \<le> length P"
    and z: "l \<noteq> 0" "r \<noteq> 0"
    and sp: "split_nonroot_with_next (slice 0 4096 L) l (slice 0 4096 R) r (slice 0 4096 N) n = Some (A, B, T, i)"
    and mx: "halves_maxes A B (split_slot_key L (slotted_count L - 1)) = Some x"
    and ps: "stage_parent_split (slice 0 4096 P) l r (split_slot_key L (slotted_count L - 1)) (fst x) (snd x) = Some (q, j)"
    and p: "L' = blit 0 (slice 0 4092 A) L" "R' = blit 0 (slice 0 4092 B) R" "N' = blit 0 (slice 0 4092 T) N" "P' = blit 0 (slice 0 4092 q) P"
    unfolding stage_tree_split_with_next_def Let_def
    by (elim guardE case_optionE) (auto simp: PAGE_SIZE_def split: prod.splits if_splits elim!: case_optionE)
  note N = split_with_next_needs [OF sp]
  have c: "can_split L l R r" using N(1) v(4) scratch_leaf [OF v(1)] v(1) by (simp add: can_split_def)
  show "can_split L l R r" "l \<noteq> 0" "r \<noteq> 0" by (fact c z)+
  show "next_fits L l r N n" using N(2) scratch_leaf(6) [OF v(1)] scratch_leaf(6) [OF v(2)] v(2) by (simp add: next_fits_def)
  note S = split_with_next_Some [OF sp b]
  note H = halves_of_scratch [OF v(1,4) S(1) p(1,2)]
  show "leaf_halves L l R r L' R' i" by (fact H(1))
  show "relinked N r N'" by (rule relinked_scratch(1) [OF v(2) S(2) p(3)])
  have "split_slot_key L (slotted_count L - 1) = leaf_max L"
    using split_slot_key_last [OF v(1)] c v(1) by (simp add: can_split_def slotted_count_def)
  with mx H(2) have x: "x = (leaf_max L', leaf_max L)" by simp
  have "stage_parent_split (slice 0 4096 P) l r (leaf_max L) (leaf_max L') (leaf_max L) = Some (q, j)"
    using ps \<open>split_slot_key L _ = _\<close> by (simp add: x)
  from scratch_parent_split [OF this b(2) H(4) v(5) p(4)]
  show "0 < j" "parent_splits P (j - 1) l r (leaf_max L) (leaf_max L') P'" by simp_all
qed

lemma tree_split_with_next_succeeds:
  assumes c: "can_split L l R r" and nx: "next_fits L l r N n" and z: "l \<noteq> 0" "r \<noteq> 0" "n \<noteq> 0"
    and sp: "\<And>L' R' i. leaf_halves L l R r L' R' i \<Longrightarrow> splits_at P j l r (leaf_max L) (leaf_max L') (leaf_max L)"
    and k: "internal_node_num_keys P < 509" and b: "l < 2 ^ 32" "r < 2 ^ 32"
  obtains L' R' N' P' i where "stage_tree_split_with_next L l R r N n P = Some (L', R', N', P', i, j + 1)"
proof -
  have v: "slotted_validate L" "slotted_validate N" and R: "4096 \<le> length R" and n: "rd32 18 L = n"
    using c nx by (simp_all add: can_split_def next_fits_def)
  obtain A B T i where s: "split_nonroot_with_next (slice 0 4096 L) l (slice 0 4096 R) r (slice 0 4096 N) n = Some (A, B, T, i)"
    and h: "leaf_halves (slice 0 4096 L) l (slice 0 4096 R) r A B i" and re: "relinked (slice 0 4096 N) r T"
    using split_with_next_succeeds [OF can_split_scratch [OF c] next_fits_scratch [OF nx v(1)] b] .
  define L' where "L' = blit 0 (slice 0 4092 A) L"
  note H = halves_of_scratch [OF v(1) R h L'_def refl]
  note T = relinked_scratch [OF v(2) re refl]
  from sp [OF H(1)] have sa: "splits_at P j l r (leaf_max L) (leaf_max L') (leaf_max L)" .
  then have vP: "parent_stage_validate P" by (simp add: splits_at_def)
  have len: "4096 \<le> length P" "4096 \<le> length L" "4096 \<le> length N"
    using valid_nodeD(1) [OF vP] validD(1) [OF v(1)] validD(1) [OF v(2)] by (simp_all add: PAGE_SIZE_def)
  obtain q where q: "stage_parent_split (slice 0 4096 P) l r (leaf_max L) (leaf_max L') (leaf_max L) = Some (q, j + 1)"
    using scratch_parent_succeeds [OF sa k b(2) H(4) len(1)] .
  note Q = scratch_parent_split [OF q b(2) H(4) len(1) refl]
  have ct: "slotted_count L = raw_count L" "\<not> raw_count L < 2" using c by (simp_all add: slotted_count_def can_split_def)
  have mx: "split_slot_key L (raw_count L - 1) = leaf_max L" using split_slot_key_last [OF v(1)] ct(2) by simp
  have g1: "\<not> (length L < PAGE_SIZE \<or> length R < PAGE_SIZE \<or> length N < PAGE_SIZE \<or> length P < PAGE_SIZE \<or> l = 0 \<or> r = 0 \<or> n = 0 \<or>
      l = r \<or> l = n \<or> r = n \<or> \<not> slotted_validate L \<or> \<not> slotted_validate N \<or> \<not> parent_stage_validate P)"
    using c nx z len R v vP by (simp add: can_split_def next_fits_def PAGE_SIZE_def)
  have g2: "\<not> L ! IS_ROOT_OFFSET \<noteq> 0" using c by (simp add: can_split_def)
  have fin: "slotted_validate A \<and> slotted_validate B \<and> slotted_validate T \<and> parent_stage_validate q \<and>
      j + 1 \<le> rd32 INTERNAL_NODE_NUM_KEYS_OFFSET q \<and> stage_child_at q (j + 1) = r \<and> rd32 V2_NEXT_LEAF_OFFSET A = r \<and>
      rd32 V2_PREV_LEAF_OFFSET B = l \<and> rd32 V2_NEXT_LEAF_OFFSET B = n \<and> rd32 V2_PREV_LEAF_OFFSET T = r"
    using H(5-9) T(2,3) Q(3-5) n by (simp add: num_keys_rd)
  have e: "stage_tree_split_with_next L l R r N n P = Some (L', blit 0 (slice 0 4092 B) R, blit 0 (slice 0 4092 T) N,
      blit 0 (slice 0 4092 q) P, i, j + 1)"
    unfolding stage_tree_split_with_next_def if_not_P [OF g1] if_not_P [OF g2] Let_def ct(1) if_not_P [OF ct(2)] mx
      s [folded PAGE_SIZE_def] option.case prod.case H(2) q [folded PAGE_SIZE_def] if_P [OF fin]
    unfolding L'_def PAGE_USABLE_SIZE_eq by (rule refl)
  then show thesis by (rule that)
qed

section \<open>The last leaf\<close>

lemma tree_split_tail_succeeds:
  assumes c: "can_split L l R r" and nx: "rd32 18 L = 0" and z: "l \<noteq> 0" "r \<noteq> 0"
    and sp: "\<And>L' R' i. leaf_halves L l R r L' R' i \<Longrightarrow>
      splits_at P (internal_node_num_keys P) l r (leaf_max L) (leaf_max L') (leaf_max L)"
    and k: "internal_node_num_keys P < 509" and b: "l < 2 ^ 32" "r < 2 ^ 32"
  obtains L' R' P' i where "stage_tree_split_tail L l R r P = Some (L', R', P', i, internal_node_num_keys P + 1)"
    "leaf_halves L l R r L' R' i" "parent_splits P (internal_node_num_keys P) l r (leaf_max L) (leaf_max L') P'"
proof -
  let ?j = "internal_node_num_keys P"
  have v: "slotted_validate L" and R: "4096 \<le> length R" using c by (simp_all add: can_split_def)
  obtain A B i where s: "split_nonroot (slice 0 4096 L) l (slice 0 4096 R) r = Some (A, B, i)"
    and h: "leaf_halves (slice 0 4096 L) l (slice 0 4096 R) r A B i"
    using can_split_nonroot [OF can_split_scratch [OF c] b] .
  define L' where "L' = blit 0 (slice 0 4092 A) L"
  note H = halves_of_scratch [OF v R h L'_def refl]
  from sp [OF H(1)] have sa: "splits_at P ?j l r (leaf_max L) (leaf_max L') (leaf_max L)" .
  then have vP: "parent_stage_validate P" by (simp add: splits_at_def)
  have len: "4096 \<le> length P" "4096 \<le> length L" using valid_nodeD(1) [OF vP] validD(1) [OF v] by (simp_all add: PAGE_SIZE_def)
  obtain q where q: "stage_parent_split (slice 0 4096 P) l r (leaf_max L) (leaf_max L') (leaf_max L) = Some (q, ?j + 1)"
    using scratch_parent_succeeds [OF sa k b(2) H(4) len(1)] .
  note Q = scratch_parent_split [OF q b(2) H(4) len(1) refl]
  have ct: "slotted_count L = raw_count L" "\<not> raw_count L < 2" using c by (simp_all add: slotted_count_def can_split_def)
  have mx: "split_slot_key L (raw_count L - 1) = leaf_max L" using split_slot_key_last [OF v] ct(2) by simp
  have g1: "\<not> (length L < PAGE_SIZE \<or> length R < PAGE_SIZE \<or> length P < PAGE_SIZE \<or> l = 0 \<or> r = 0 \<or> l = r \<or>
      \<not> slotted_validate L \<or> \<not> parent_stage_validate P)"
    using c z len R v vP by (simp add: can_split_def PAGE_SIZE_def)
  have g2: "\<not> (L ! IS_ROOT_OFFSET \<noteq> 0 \<or> rd32 V2_NEXT_LEAF_OFFSET L \<noteq> 0)" using c nx by (simp add: can_split_def)
  have fin: "slotted_validate A \<and> slotted_validate B \<and> parent_stage_validate q \<and>
      ?j + 1 = rd32 INTERNAL_NODE_NUM_KEYS_OFFSET q \<and> stage_child_at q (?j + 1) = r \<and> rd32 V2_NEXT_LEAF_OFFSET A = r \<and>
      rd32 V2_PREV_LEAF_OFFSET B = l \<and> rd32 V2_NEXT_LEAF_OFFSET B = 0"
    using H(5-9) Q(3-6) nx by (simp add: num_keys_rd)
  have e: "stage_tree_split_tail L l R r P = Some (L', blit 0 (slice 0 4092 B) R, blit 0 (slice 0 4092 q) P, i, ?j + 1)"
    unfolding stage_tree_split_tail_def if_not_P [OF g1] if_not_P [OF g2] Let_def ct(1) if_not_P [OF ct(2)] mx
      s [folded PAGE_SIZE_def] option.case prod.case H(2) q [folded PAGE_SIZE_def] if_P [OF fin]
    unfolding L'_def PAGE_USABLE_SIZE_eq by (rule refl)
  show thesis by (rule that [OF e H(1)]) (use Q(2) in simp)
qed

section \<open>The root\<close>

text \<open>The scratch copy of a root as a leaf below the new root.\<close>

lemma root_as_child:
  assumes v: "slotted_validate p" and n: "n < 2 ^ 32" and q: "q = wr32 2 n ((slice 0 4096 p)[1 := 0])"
  shows "slotted_validate q" "entries q = entries p" "raw_count q = raw_count p" "q ! 1 = 0" "rd32 2 q = n" "rd32 18 q = rd32 18 p"
    "rd32 22 q = rd32 22 p" "slice 26 2 q = slice 26 2 p" "length q = 4096"
proof -
  note S = scratch_leaf [OF v]
  define u where "u = (slice 0 4096 p)[1 := 0]"
  have lu: "length u = 4096" using S(4) by (simp add: u_def)
  then have o: "2 + 4 \<le> length u" by simp
  note W = wr32_any [OF o, where v = n, folded u_def q [folded u_def]]
  have sl: "slice a m q = slice a m p" if "6 \<le> a" "a + m \<le> 4096" for a m
  proof -
    have "slice a m q = slice a m u" unfolding q u_def [symmetric] by (rule wr32_any(3) [OF o]) (use that in simp)
    also have "\<dots> = slice a m (slice 0 4096 p)" unfolding u_def by (rule slice_update_other) (use that in simp)
    finally show ?thesis using S(5) that by simp
  qed
  show lq: "length q = 4096" using W(1) lu by simp
  have "q ! 0 = p ! 0" using W(4) [where j = 0] S(7) [of 0] by (simp add: u_def)
  moreover have l4: "4096 \<le> length q" using lq by simp
  ultimately show "slotted_validate q" "entries q = entries p" "raw_count q = raw_count p"
    using leaf_cong [OF v l4, OF _ sl sl] by simp_all
  show "q ! 1 = 0" using W(4) [where j = 1] S(4) by (simp add: u_def)
  show "rd32 2 q = n" using W(2) n by simp
  show "rd32 18 q = rd32 18 p" "rd32 22 q = rd32 22 p" "slice 26 2 q = slice 26 2 p" using sl by (simp_all add: rd32_def)
qed

lemma valid_page_access:
  assumes "slotted_validate p" "0 < raw_count p"
  shows "page_key_at p (raw_count p - 1) = Some (leaf_max p)"
proof -
  have d: "detect_page p = PAGE_FORMAT_SLOTTED_V2" using assms(1) by (simp add: detect_v2)
  have "page_rows p = entries p" by (rule page_rows_v2(1) [OF assms(1)])
  moreover have "entries p \<noteq> []" using assms by (metis length_entries length_greater_0_conv)
  ultimately show ?thesis using page_access(2) [of p "raw_count p - 1"] d assms(2) by (simp add: leaf_max_def last_conv_nth)
qed

text \<open>When the root can be split, and what becomes of it.\<close>

definition root_can_split :: "bytes \<Rightarrow> nat \<Rightarrow> bytes \<Rightarrow> nat \<Rightarrow> bytes \<Rightarrow> nat \<Rightarrow> bool" where
  "root_can_split T t L l R r \<longleftrightarrow> slotted_validate T \<and> T ! 1 \<noteq> 0 \<and> 2 \<le> raw_count T \<and> rd32 22 T = 0 \<and> rd32 18 T = 0 \<and>
     4096 \<le> length L \<and> 4096 \<le> length R \<and> l \<noteq> 0 \<and> r \<noteq> 0 \<and> distinct [t, l, r]"

lemma root_split_succeeds:
  assumes c: "root_can_split T t L l R r" and b: "t < 2 ^ 32" "l < 2 ^ 32" "r < 2 ^ 32"
  obtains T' L' R' where "stage_root_split T t L l R r = Some (T', L', R', leaf_max L')" "slotted_validate L'" "slotted_validate R'"
    "node_seps T' = [leaf_max L']" "node_kids T' = [l, r]" "parent_stage_validate T'" "T' ! 1 = 1" "length T' = length T"
    "0 < raw_count L'" "0 < raw_count R'" "entries L' @ entries R' = entries T" "rd32 22 L' = 0" "rd32 18 L' = r" "rd32 22 R' = l" "rd32 18 R' = 0"
    "rd32 2 L' = t" "rd32 2 R' = t" "L' ! 1 = 0" "R' ! 1 = 0"
    "\<And>k cap. slotted_read (if k \<le> leaf_max L' then L' else R') k cap = slotted_read T k cap"
proof -
  have v: "slotted_validate T" and len: "4096 \<le> length L" "4096 \<le> length R" and lk: "rd32 22 T = 0" "rd32 18 T = 0"
    and nz: "l \<noteq> 0" "r \<noteq> 0" "l \<noteq> r" "t \<noteq> l" "t \<noteq> r" and two: "2 \<le> raw_count T" and rt: "T ! 1 \<noteq> 0"
    using c by (simp_all add: root_can_split_def)
  have lT: "4096 \<le> length T" using validD(1) [OF v] by (simp add: PAGE_SIZE_def)
  define u where "u = wr32 2 t ((slice 0 4096 T)[1 := 0])"
  note U = root_as_child [OF v b(1) u_def]
  have lR: "length (slice 0 4096 R) = 4096" using len by simp
  have cu: "can_split u l (slice 0 4096 R) r" using U two nz lR by (simp add: can_split_def)
  obtain A B i where s: "split_nonroot u l (slice 0 4096 R) r = Some (A, B, i)" and h: "leaf_halves u l (slice 0 4096 R) r A B i"
    using can_split_nonroot [OF cu b(2,3)] .
  have H: "slotted_validate A" "slotted_validate B" "entries A @ entries B = entries T" "A ! 1 = 0" "B ! 1 = 0" "rd32 2 A = t" "rd32 2 B = t"
    "rd32 18 A = r" "rd32 22 A = 0" "rd32 18 B = 0" "rd32 22 B = l" "length A = 4096" "length B = 4096"
    using h U lR lk by (simp_all add: leaf_halves_def rd32_def)
  note M = halves_leaf_max [OF U(1) h] and C = halves_counts [OF h]
  define L' where "L' = blit 0 (slice 0 4092 A) L"
  define R' where "R' = blit 0 (slice 0 4092 B) R"
  note A = validate_copy_usable [OF H(1,12) len(1) L'_def] and B = validate_copy_usable [OF H(2,13) len(2) R'_def]
  note IA = identity_slices [OF A(3)] and IB = identity_slices [OF B(3)]
  define q where "q = node_bytes 1 0 [l, r] [leaf_max A] (slice 0 4096 T)"
  define T' where "T' = blit 0 (slice 0 4092 q) T"
  have sz: "length (slice 0 4096 T) = 4096" "length [l, r] = length [leaf_max A] + 1" "length [leaf_max A] \<le> 509" "[leaf_max A] \<noteq> []"
    "\<forall>k\<in>set [leaf_max A]. k < 2 ^ 32" "\<forall>v\<in>set [l, r]. v < 2 ^ 32" "(0::nat) < 2 ^ 32" using lT b M(3) by simp_all
  note Q = node_bytes_spec [OF sz(1,2,3,5,6,7) q_def]
  have vq: "parent_stage_validate q" unfolding q_def node_bytes_valid [OF sz(1-7)] using nz by simp
  have nq: "internal_node_num_keys q = 1" using arg_cong [OF Q(2), of length] by simp
  have "node_kids q ! 0 = l" "node_kids q ! 1 = r" "node_seps q ! 0 = leaf_max A" using Q(2,3) by simp_all
  then have ch: "stage_child_at q 0 = l" "stage_child_at q 1 = r" "stage_key_at q 0 = leaf_max A"
    using nq by (simp_all add: stage_child_at_eq stage_key_at_eq)
  note N = published_node_again [OF vq Q(1) lT T'_def]
  have p': "T' = published q T" by (simp add: T'_def published_def)
  have "T' ! 1 = q ! 1" by (rule nth_usable) (use N(4) published_spec(2) [OF Q(1) lT] lT Q(1) in \<open>simp_all add: p'\<close>)
  then have T1: "T' ! 1 = 1" using Q(5) by simp
  have mx: "leaf_max L' = leaf_max A" by (rule leaf_max_cong [OF A(2)])
  have g1: "\<not> (length T < PAGE_SIZE \<or> length L < PAGE_SIZE \<or> length R < PAGE_SIZE \<or> l = 0 \<or> r = 0 \<or> l = r \<or> l = t \<or> r = t \<or>
      \<not> slotted_validate T \<or> T ! IS_ROOT_OFFSET = 0)"
    using len lT nz v rt by (simp add: PAGE_SIZE_def)
  have ct: "slotted_count T = raw_count T" "slotted_count A = raw_count A" "slotted_count B = raw_count B"
    using v H(1,2) by (simp_all add: slotted_count_def)
  have g2: "\<not> (rd32 V2_PREV_LEAF_OFFSET T \<noteq> 0 \<or> rd32 V2_NEXT_LEAF_OFFSET T \<noteq> 0 \<or> slotted_count T < 2)"
    using lk two by (simp add: ct)
  have s': "split_nonroot (wr32 PARENT_POINTER_OFFSET t ((slice 0 PAGE_SIZE T)[IS_ROOT_OFFSET := 0])) l (slice 0 PAGE_SIZE R) r = Some (A, B, i)"
    using s by (simp add: u_def PAGE_SIZE_def numeral_2_eq_2)
  have g3: "\<not> (raw_count A = 0 \<or> raw_count B = 0)" using C(3,4) by simp
  have key: "page_key_at A (raw_count A - 1) = Some (leaf_max A)" by (rule valid_page_access [OF H(1) C(3)])
  have g4: "\<not> (\<not> parent_stage_validate q \<or> stage_child_at q 0 \<noteq> l \<or> stage_child_at q 1 \<noteq> r \<or> stage_key_at q 0 \<noteq> leaf_max A \<or>
      rd32 V2_PREV_LEAF_OFFSET A \<noteq> 0 \<or> rd32 V2_NEXT_LEAF_OFFSET A \<noteq> r \<or> rd32 V2_PREV_LEAF_OFFSET B \<noteq> l \<or>
      rd32 V2_NEXT_LEAF_OFFSET B \<noteq> 0 \<or> rd32 PARENT_POINTER_OFFSET A \<noteq> t \<or> rd32 PARENT_POINTER_OFFSET B \<noteq> t)"
    using vq ch H by (simp add: numeral_2_eq_2)
  have e: "stage_root_split T t L l R r = Some (T', L', R', leaf_max A)"
    unfolding stage_root_split_def if_not_P [OF g1] if_not_P [OF g2] Let_def s' option.case prod.case ct(2,3) if_not_P [OF g3] key
      q_def [symmetric, folded PAGE_SIZE_def] if_not_P [OF g4]
    unfolding T'_def L'_def R'_def PAGE_USABLE_SIZE_eq by (rule refl)
  have read: "slotted_read (if k \<le> leaf_max L' then L' else R') k cap = slotted_read T k cap" for k cap
    using halves_lookup [OF U(1) h, of k cap] slotted_read_spec [OF v] slotted_read_spec [OF U(1)] U(2)
      slotted_read_spec [OF A(1)] slotted_read_spec [OF B(1)] A(2) B(2) slotted_read_spec [OF H(1)] slotted_read_spec [OF H(2)] mx
    by (simp split: if_splits)
  have rc: "raw_count L' = raw_count A" "raw_count R' = raw_count B"
    using arg_cong [OF A(2), of length] arg_cong [OF B(2), of length] by simp_all
  have r2: "rd32 2 L' = t" "rd32 2 R' = t" using IA(2) IB(2) H(6,7) by (simp_all add: rd32_def)
  show thesis
    by (rule that [OF _ A(1) B(1) _ _ N(1) T1 N(4) _ _ _ _ _ _ _ r2 _ _ read])
      (use e mx N(2,3) Q(2,3) C(3,4) rc A(2) B(2) H IA IB in simp_all)
qed

section \<open>A link of a leaf is replaced\<close>

lemma relink_v2_spec:
  assumes v: "slotted_validate p" and off: "off = (if forward then 18 else 22)" and old: "rd32 off p = old" "old \<noteq> 0" "old \<noteq> INVALID_PAGE_NUM"
    and new: "new \<noteq> old" "new \<noteq> INVALID_PAGE_NUM" "new < 2 ^ 32"
  obtains p' where "stage_leaf_sibling_relink p forward old new = Some p'" "slotted_validate p'" "entries p' = entries p" "rd32 off p' = new"
    "length p' = length p" "drop 4092 p' = drop 4092 p"
proof -
  note S = scratch_leaf [OF v]
  have o: "off = 18 \<or> off = 22" using off by simp
  define s where "s = wr32 off new (slice 0 4096 p)"
  note W = link_write [OF S(1) o new(3) s_def]
  have len: "4096 \<le> length p" using validD(1) [OF v] by (simp add: PAGE_SIZE_def)
  have ls: "length s = 4096" using W(3) S(4) by simp
  define p' where "p' = blit 0 (slice 0 4092 s) p"
  note C = validate_copy_usable [OF W(1) ls len p'_def]
  have link: "(if forward then page_next q else page_prev q) = Some (rd32 off q)" if "slotted_validate q" for q
    using detect_v2 [of q] that off by (simp add: page_next_def page_prev_def sibling_page_def)
  have d: "detect_page p = PAGE_FORMAT_SLOTTED_V2" "detect_page s = PAGE_FORMAT_SLOTTED_V2" using v W(1) by (simp_all add: detect_v2)
  have "stage_leaf_sibling_relink p forward old new = Some p'"
    using link [OF v] link [OF W(1)] d len old new W(4) off
    by (simp add: stage_leaf_sibling_relink_def PAGE_SIZE_def Let_def s_def p'_def split: if_splits)
  moreover have "rd32 off p' = new" using identity_slices(3,4) [OF C(3)] o W(4) by auto
  ultimately show thesis using that C W(2) S(2) by simp
qed

end
