(* ===== verification/LeafSplitProperties.thy ===== *)
theory LeafSplitProperties
  imports LeafSplitStages
begin

text \<open>The rows of a tree before and after the split of a leaf.\<close>

section \<open>Room for the next row\<close>

lemma split_sides:
  assumes v: "slotted_validate L" and h: "leaf_halves L l r0 r L' R' i" and i: "i = choose_split_index L"
    and small: "\<And>e. e \<in> set (entries L) \<Longrightarrow> 8 + length (snd e) \<le> m"
  shows "used_bytes (entries L') \<le> used_bytes (entries R') + m" "used_bytes (entries R') \<le> used_bytes (entries L') + m"
proof -
  let ?es = "entries L"
  have e: "entries L' = take i ?es" "entries R' = drop i ?es" "0 < i" "i < length ?es"
    using h by (simp_all add: leaf_halves_def)
  then have n: "2 \<le> raw_count L" by simp
  note best = choose_split_index_spec(3) [OF v n i]
  define w where "w j = 8 + length (snd (?es ! j))" for j
  have w: "w j \<le> m" "0 < w j" if "j < length ?es" for j using small [OF nth_mem [OF that]] by (simp_all add: w_def)
  have step: "used_bytes (take (Suc j) ?es) = used_bytes (take j ?es) + w j" "used_bytes (drop j ?es) = w j + used_bytes (drop (Suc j) ?es)"
    if "j < length ?es" for j
    using that by (simp_all add: take_Suc_conv_app_nth w_def Cons_nth_drop_Suc [symmetric])
  have dif: "imbalance ?es i \<le> imbalance ?es j" if "0 < j" "j < length ?es" for j using best [of j] that by simp
  show "used_bytes (entries L') \<le> used_bytes (entries R') + m"
  proof (rule ccontr)
    assume a: "\<not> used_bytes (entries L') \<le> used_bytes (entries R') + m"
    obtain j where j: "i = Suc j" "j < length ?es" using e(3,4) by (cases i) simp_all
    show False
    proof (cases "j = 0")
      case True
      with step(1) [OF j(2)] w(1) [OF j(2)] a e(1) j(1) show False by simp
    next
      case False
      with dif [of j] step [OF j(2)] w [OF j(2)] a e(1,2) j show False by (simp add: imbalance_def Let_def split: if_splits)
    qed
  qed
  show "used_bytes (entries R') \<le> used_bytes (entries L') + m"
  proof (rule ccontr)
    assume a: "\<not> used_bytes (entries R') \<le> used_bytes (entries L') + m"
    note st = step [OF e(4)] w [OF e(4)]
    show False
    proof (cases "Suc i = length ?es")
      case True
      then have "drop (Suc i) ?es = []" by simp
      with st a e(1,2) show False by simp
    next
      case False
      with dif [of "Suc i"] st a e show False by (simp add: imbalance_def Let_def split: if_splits)
    qed
  qed
qed

text \<open>C20. After the split of a leaf there is room for one more row in both halves: when no value of the leaf and no
  new value is longer than 1346 bytes, the insertion of a new key succeeds in the left half and in the right half,
  wherever the split point was. (A third of the usable part of a page is 1354 bytes, 8 of which are the slot.)\<close>

theorem split_makes_room:
  assumes s: "split_nonroot L l R r = Some (L', R', i)" and b: "l < 2 ^ 32" "r < 2 ^ 32"
    and rows: "\<forall>e\<in>set (entries L). length (snd e) \<le> 1346"
    and new: "k < 2 ^ 32" "k \<notin> fst ` set (entries L)" "val \<noteq> []" "length val \<le> 1346"
  shows "\<forall>p\<in>{L', R'}. \<exists>p'. slotted_insert p k val = (True, p') \<and> slotted_validate p' \<and> entries p' = spec_put k val (entries p)"
proof -
  note h = split_nonroot_Some [OF s b]
  have v: "slotted_validate L" by (rule split_nonroot_needs(1) [OF s])
  have V: "slotted_validate L'" "slotted_validate R'" and e: "entries L' = take i (entries L)" "entries R' = drop i (entries L)"
    using h(1) by (simp_all add: leaf_halves_def)
  have m: "8 + length (snd x) \<le> 1354" if "x \<in> set (entries L)" for x using rows that by force
  note S = split_sides [OF v h m]
  have "used_bytes (entries L') + used_bytes (entries R') \<le> 4064"
    using valid_entries(1) [OF v] used_take_drop [of i "entries L"] by (simp add: entries_ok_def e)
  with S have room: "used_bytes (entries L') + 8 + length val \<le> 4064" "used_bytes (entries R') + 8 + length val \<le> 4064"
    using new(4) by simp_all
  have fresh: "k \<notin> fst ` set (entries L')" "k \<notin> fst ` set (entries R')"
    using new(2) by (auto simp: e dest: in_set_takeD in_set_dropD)
  have "\<exists>p'. slotted_insert p k val = (True, p') \<and> slotted_validate p' \<and> entries p' = spec_put k val (entries p)"
    if "slotted_validate p" "k \<notin> fst ` set (entries p)" "used_bytes (entries p) + 8 + length val \<le> 4064" for p
  proof -
    have "spec_insert (entries p) k val = (True, spec_put k val (entries p))" using that(2,3) new(3) by (simp add: spec_insert_def)
    then show ?thesis using slotted_insert_spec [OF that(1) new(1), of val] by (metis fst_conv snd_conv)
  qed
  then show ?thesis using V fresh room by blast
qed

section \<open>The root leaf splits\<close>

text \<open>C19. A root that is a leaf with at least two rows can always be split: the root becomes an internal node with two
  leaves, the root page keeps its number, a lookup through the new root reads what the old root gave, the leaves
  have the rows in order, each other as siblings, and the root as parent.\<close>

theorem root_leaf_split_keeps_rows:
  assumes "root_can_split T t L l R r" "t < 2 ^ 32" "l < 2 ^ 32" "r < 2 ^ 32"
  shows "\<exists>T' L' R' separator. stage_root_split T t L l R r = Some (T', L', R', separator) \<and>
    (\<forall>k capacity. slotted_read (with_pages P [l, r] [L', R'] (node_route T' k)) k capacity = slotted_read T k capacity) \<and>
    parent_stage_validate T' \<and> T' ! 1 = 1 \<and> node_kids T' = [l, r] \<and> entries L' @ entries R' = entries T \<and> entries L' \<noteq> [] \<and> entries R' \<noteq> [] \<and>
    rd32 22 L' = 0 \<and> rd32 18 L' = r \<and> rd32 22 R' = l \<and> rd32 18 R' = 0 \<and> rd32 2 L' = t \<and> rd32 2 R' = t"
proof -
  obtain T' L' R' where s: "stage_root_split T t L l R r = Some (T', L', R', leaf_max L')"
    and n: "node_seps T' = [leaf_max L']" "node_kids T' = [l, r]" "parent_stage_validate T'" "T' ! 1 = 1"
    and c: "0 < raw_count L'" "0 < raw_count R'"
    and f: "entries L' @ entries R' = entries T" "rd32 22 L' = 0" "rd32 18 L' = r" "rd32 22 R' = l" "rd32 18 R' = 0" "rd32 2 L' = t" "rd32 2 R' = t"
    and read: "\<And>k cap. slotted_read (if k \<le> leaf_max L' then L' else R') k cap = slotted_read T k cap"
    by (rule root_split_succeeds [OF assms]; rule that; assumption)
  have "l \<noteq> r" using assms(1) by (simp add: root_can_split_def)
  then have "slotted_read (with_pages P [l, r] [L', R'] (node_route T' k)) k cap = slotted_read T k cap" for k cap
    using read [of k cap] by (simp add: node_route_def n(1,2) route_index_def with_pages_def not_less split: if_splits)
  moreover have "entries L' \<noteq> []" "entries R' \<noteq> []" using c by (metis length_entries length_greater_0_conv)+
  ultimately show ?thesis using s n f by blast
qed

section \<open>A leaf below a node with room\<close>

lemma halves_splits_parent:
  assumes v: "slotted_validate L" and h: "leaf_halves L l R r L' R' i"
    and P: "parent_stage_validate P" "j \<le> internal_node_num_keys P" "node_kids P ! j = l" "r \<notin> set (node_kids P)" "r \<noteq> 0"
    and hi: "j < internal_node_num_keys P \<Longrightarrow> node_seps P ! j = leaf_max L"
    and lo: "0 < j \<Longrightarrow> node_seps P ! (j - 1) < fst (hd (entries L))"
  shows "splits_at P j l r (leaf_max L) (leaf_max L') (leaf_max L)"
proof -
  note M = halves_leaf_max [OF v h]
  have e: "entries L' = take i (entries L)" "0 < i" "i < length (entries L)" using h by (simp_all add: leaf_halves_def)
  then have "hd (entries L) \<in> set (entries L')" by (cases "entries L"; cases i) auto
  then have "fst (hd (entries L)) \<le> leaf_max L'" by (rule M(4))
  then have "sorted_wrt (<) (put_at j (leaf_max L') (node_seps P))"
    using sorted_put_at_iff [OF valid_nodeD(7) [OF P(1)], of j "leaf_max L'"] P(2) hi less_le_trans [OF lo] M(2) by simp
  then show ?thesis unfolding splits_at_def using P hi M(2) by simp
qed

lemma tree_leaf_lookup:
  assumes v: "slotted_validate L" and h: "leaf_halves L l R r L' R' i"
    and s: "splits_at P j l r (leaf_max L) (leaf_max L') (leaf_max L)"
    and P': "node_seps P' = put_at j (leaf_max L') (node_seps P)" "node_kids P' = put_at (j + 1) r (node_kids P)"
    and Q: "Q l = L" "Q' l = L'" "Q' r = R'"
    and other: "\<And>c. c \<in> set (node_kids P) \<Longrightarrow> c \<noteq> l \<Longrightarrow> slotted_read (Q' c) k capacity = slotted_read (Q c) k capacity"
  shows "slotted_read (Q' (node_route P' k)) k capacity = slotted_read (Q (node_route P k)) k capacity"
proof -
  have r: "node_route P' k = split_route P j l r (leaf_max L') k" unfolding node_route_def P' by (rule merged_route [OF s])
  have A: "node_kids P ! j = l" "j < length (node_kids P)" "distinct (node_kids P)"
    using s valid_nodeD(6) by (simp_all add: splits_at_def)
  let ?x = "route_index (node_seps P) k"
  have x: "?x < length (node_kids P)" using route_indexD(1) [where ss = "node_seps P" and k = k] by simp
  show ?thesis
  proof (cases "?x = j")
    case True
    then have "node_route P k = l" using A by (simp add: node_route_def)
    then show ?thesis using halves_lookup [OF v h, of k capacity] Q True by (simp add: r split_route_def split: if_splits)
  next
    case False
    then have "node_route P k \<noteq> l" using A x nth_eq_iff_index_eq [of "node_kids P" ?x j] by (simp add: node_route_def)
    moreover have "node_route P k \<in> set (node_kids P)" by (rule node_route_kid)
    ultimately show ?thesis using other False by (simp add: r split_route_def)
  qed
qed


section \<open>A leaf below full nodes\<close>

text \<open>C18. The split of a leaf below nodes that may be full: when the leaf is divided and the cascade of splits
  publishes the new separators, with the greatest keys of the leaf before and of its left half after, every lookup from
  the topmost page that changed ends in a leaf that gives what the lookup gave before.\<close>

theorem leaf_split_below_full_nodes:
  assumes leaf: "split_nonroot L l R r = Some (L', R', i)" "l < 2 ^ 32"
    and ok: "stage_split_cascade ancestors nums maxes new_pages new_nums l r (leaf_max L) (leaf_max L') (leaf_max L) =
      Some (ancestors', new_pages', used, stop, grew)"
    and len: "length nums = length ancestors" "length new_nums = length new_pages" "pages_ok ancestors" "pages_ok new_pages"
    and words: "\<forall>n\<in>set (r # nums @ new_nums). n < 2 ^ 32"
    and shown: "\<forall>i<length ancestors. P (nums ! i) = ancestors ! i" "P l = L"
    and tree: "distinct (tree_pages P (Suc stop) (nums ! stop))"
    and fresh: "set (r # take used new_nums) \<inter> set (tree_pages P (Suc stop) (nums ! stop)) = {}"
  shows "slotted_read (with_pages P [l, r] [L', R']
      (descend (with_pages P (nums @ take used new_nums) (ancestors' @ take used new_pages')) k (if grew then stop + 2 else stop + 1) (nums ! stop))) k capacity =
    slotted_read (P (descend P k (stop + 1) (nums ! stop))) k capacity"
proof -
  have r: "r < 2 ^ 32" using words by simp
  note h = split_nonroot_Some(1) [OF leaf(1,2) r]
  have v: "slotted_validate L" and lr: "l \<noteq> r" using split_nonroot_needs [OF leaf(1)] by simp_all
  note M = halves_leaf_max [OF v h]
  have w: "\<forall>n\<in>set (r # leaf_max L' # nums @ new_nums). n < 2 ^ 32" using words M(3) by simp
  have fr: "set (take used new_nums) \<inter> set (tree_pages P (Suc stop) (nums ! stop)) = {}" using fresh by (simp del: tree_pages.simps)
  let ?c = "descend P k (stop + 1) (nums ! stop)"
  have d: "descend (with_pages P (nums @ take used new_nums) (ancestors' @ take used new_pages')) k (if grew then stop + 2 else stop + 1) (nums ! stop) =
      (if ?c = l then if k \<le> leaf_max L' then l else r else ?c)"
    using cascade_lookups_kept [OF ok len w shown(1) tree fr, of k] by (simp add: Let_def del: descend.simps tree_pages.simps)
  show ?thesis
  proof (cases "?c = l")
    case True
    then show ?thesis unfolding d using halves_lookup [OF v h, of k capacity] lr shown(2) by (simp add: with_pages_def split: if_splits)
  next
    case False
    have "?c \<in> set (tree_pages P (Suc stop) (nums ! stop))" using descend_in_tree [of P k "Suc stop" "nums ! stop"] by simp
    then have "?c \<noteq> r" using fresh by auto
    with False show ?thesis unfolding d by (simp add: with_pages_def)
  qed
qed

text \<open>Concrete leaves for the splits.\<close>

text \<open>A page with the given header fields and rows.\<close>

definition leaf_source :: "u8 \<Rightarrow> nat \<Rightarrow> nat \<Rightarrow> nat \<Rightarrow> bytes" where
  "leaf_source is_root par nxt prv = wr32 22 prv (wr32 18 nxt (wr32 2 par ((replicate 28 0)[1 := is_root])))"

definition made_leaf :: "u8 \<Rightarrow> nat \<Rightarrow> nat \<Rightarrow> nat \<Rightarrow> (nat \<times> bytes) list \<Rightarrow> bytes" where
  "made_leaf is_root par nxt prv es =
     fold (\<lambda>(k, v) p. snd (slotted_insert p k v)) es
       (copy_page_identity (snd (slotted_init (replicate PAGE_SIZE 0))) (leaf_source is_root par nxt prv))"

lemma leaf_source_fields:
  assumes "par < 2 ^ 32" "nxt < 2 ^ 32" "prv < 2 ^ 32"
  shows "length (leaf_source rt par nxt prv) = 28" "leaf_source rt par nxt prv ! 1 = rt" "rd32 2 (leaf_source rt par nxt prv) = par"
    "rd32 18 (leaf_source rt par nxt prv) = nxt" "rd32 22 (leaf_source rt par nxt prv) = prv"
  using assms by (simp_all add: leaf_source_def wr32_def rd32_def n32.dec_enc slice_blit_other nth_blit)

lemma fold_insert:
  assumes "slotted_validate p" "sorted_wrt (<) (map fst (entries p @ es))" "\<forall>e\<in>set es. fst e < 2 ^ 32 \<and> snd e \<noteq> []"
    "used_bytes (entries p @ es) \<le> 4064" and q: "q = fold (\<lambda>(k, v) p. snd (slotted_insert p k v)) es p"
  shows "slotted_validate q \<and> entries q = entries p @ es \<and> same_leaf p q"
  using assms
proof (induction es arbitrary: p)
  case (Cons e es)
  obtain k v where e: "e = (k, v)" by (cases e)
  have "\<forall>x\<in>set (entries p). fst x < k" using Cons.prems(2) by (simp add: e sorted_wrt_append)
  moreover have "v \<noteq> []" "k < 2 ^ 32" "used_bytes (entries p) + 8 + length v \<le> 4064" using Cons.prems(3,4) by (simp_all add: e)
  ultimately have sp: "spec_insert (entries p) k v = (True, entries p @ [(k, v)])" by (simp add: spec_insert_last)
  obtain s where s: "slotted_insert p k v = (True, s)" "slotted_validate s" "same_leaf p s" "entries s = entries p @ [(k, v)]"
    using slotted_insert_spec [OF Cons.prems(1) \<open>k < 2 ^ 32\<close>, of v] sp by auto
  have q: "q = fold (\<lambda>(k, v) p. snd (slotted_insert p k v)) es s" using Cons.prems(5) s(1) by (simp add: e)
  have "slotted_validate q \<and> entries q = entries s @ es \<and> same_leaf s q"
    by (rule Cons.IH [OF s(2) _ _ _ q]) (use Cons.prems(2-4) s(4) in \<open>simp_all add: e\<close>)
  then show ?case using same_leaf_trans [OF s(3)] s(4) by (simp add: e)
qed simp

lemma made_leaf_facts:
  assumes es: "entries_ok es" and w: "par < 2 ^ 32" "nxt < 2 ^ 32" "prv < 2 ^ 32" and q: "q = made_leaf rt par nxt prv es"
  shows "slotted_validate q" "entries q = es" "raw_count q = length es" "length q = 4096" "q ! 1 = rt" "rd32 2 q = par" "rd32 18 q = nxt" "rd32 22 q = prv"
proof -
  note F = leaf_source_fields [OF w, of rt]
  have vp: "valid_page (replicate PAGE_SIZE (0::u8))" by (simp add: valid_page_def)
  obtain s0 where s0: "slotted_init (replicate PAGE_SIZE 0) = (True, s0)" "length s0 = length (replicate PAGE_SIZE (0::u8))" "header_ok s0"
    "raw_count s0 = 0" "raw_free_start s0 = 28" "raw_free_end s0 = 4092" using slotted_init_spec [OF vp] by metis
  define s1 where "s1 = copy_page_identity s0 (leaf_source rt par nxt prv)"
  have "28 \<le> length (leaf_source rt par nxt prv)" using F by simp
  note C = copy_page_identity_spec [OF s0(3-6) this s1_def]
  have qs: "q = fold (\<lambda>(k, v) p. snd (slotted_insert p k v)) es s1" using s0(1) by (simp add: q made_leaf_def s1_def)
  have A: "slotted_validate q" "entries q = es" "same_leaf s1 q"
    using fold_insert [OF C(1) _ _ _ qs] es C(2) by (fastforce simp: entries_ok_def split_beta)+
  show "slotted_validate q" "entries q = es" by (fact A)+
  show "raw_count q = length es" using arg_cong [OF A(2), of length] by simp
  show "length q = 4096" using A(3) C(4) s0(2) by (simp add: same_leaf_def PAGE_SIZE_def)
  have "identity_fields q = identity_fields (leaf_source rt par nxt prv)" using A(3) C(3) by (simp add: same_leaf_def)
  note I = identity_slices [OF this]
  show "q ! 1 = rt" "rd32 18 q = nxt" "rd32 22 q = prv" using I F by simp_all
  show "rd32 2 q = par" using I(2) F(3) by (simp add: rd32_def)
qed

lemma leaf_max_entries: "entries p = es \<Longrightarrow> leaf_max p = fst (last es)"
  by (simp add: leaf_max_def)

definition empty_page :: bytes where "empty_page = replicate 4096 0"

lemma length_empty_page [simp]: "length empty_page = 4096"
  by (simp add: empty_page_def)

section \<open>Examples\<close>

text \<open>A leaf with three rows that fill it.\<close>

definition big :: bytes where "big = replicate 1346 7"

lemma big_facts: "length big = 1346" "big \<noteq> []" by (simp_all add: big_def)

lemma split_makes_room_witness:
  "\<exists>L' R' i. split_nonroot (made_leaf 0 1 0 0 [(5, big), (7, big), (9, big)]) 2 empty_page 3 = Some (L', R', i) \<and>
     fst (slotted_insert L' 6 big) \<and> fst (slotted_insert R' 6 big)"
proof -
  let ?es = "[(5, big), (7, big), (9, big)] :: (nat \<times> bytes) list"
  have ok: "entries_ok ?es" by (simp add: entries_ok_def big_facts)
  have w: "(1::nat) < 2 ^ 32" "(0::nat) < 2 ^ 32" "(2::nat) < 2 ^ 32" "(3::nat) < 2 ^ 32" by simp_all
  define L where "L = made_leaf 0 1 0 0 ?es"
  note F = made_leaf_facts [OF ok w(1,2,2) L_def]
  have "can_split L 2 empty_page 3" using F by (simp add: can_split_def)
  then obtain L' R' i where s: "split_nonroot L 2 empty_page 3 = Some (L', R', i)" by (rule can_split_nonroot [OF _ w(3,4)])
  have "\<forall>p\<in>{L', R'}. \<exists>p'. slotted_insert p 6 big = (True, p') \<and> slotted_validate p' \<and> entries p' = spec_put 6 big (entries p)"
    by (rule split_makes_room [OF s w(3,4)]) (simp_all add: F(2) big_facts)
  then show ?thesis using s unfolding L_def by fastforce
qed

lemma root_leaf_split_keeps_rows_witness:
  "\<exists>T' L' R' s. stage_root_split (made_leaf 1 0 0 0 [(5, [1]), (7, [2])]) 1 empty_page 2 empty_page 3 = Some (T', L', R', s) \<and>
     map (\<lambda>k. slotted_read (with_pages (\<lambda>_. []) [2, 3] [L', R'] (node_route T' k)) k 10) [5, 6, 7] = [Some [1], None, Some [2]]"
proof -
  let ?es = "[(5, [1]), (7, [2])] :: (nat \<times> bytes) list"
  have ok: "entries_ok ?es" by (simp add: entries_ok_def)
  have w: "(0::nat) < 2 ^ 32" "(1::nat) < 2 ^ 32" "(2::nat) < 2 ^ 32" "(3::nat) < 2 ^ 32" by simp_all
  define T where "T = made_leaf 1 0 0 0 ?es"
  note F = made_leaf_facts [OF ok w(1,1,1) T_def]
  have "root_can_split T 1 empty_page 2 empty_page 3" using F by (simp add: root_can_split_def)
  from root_leaf_split_keeps_rows [OF this w(2-4), of "\<lambda>_. []"] obtain T' L' R' s where
    s: "stage_root_split T 1 empty_page 2 empty_page 3 = Some (T', L', R', s)"
    and read: "\<And>k capacity. slotted_read (with_pages (\<lambda>_. []) [2, 3] [L', R'] (node_route T' k)) k capacity = slotted_read T k capacity" by blast
  have "map (\<lambda>k. slotted_read T k 10) [5, 6, 7] = [Some [1], None, Some [2]]"
    by (simp add: slotted_read_spec [OF F(1)] F(2) spec_read_def)
  with s read show ?thesis unfolding T_def by simp
qed


text \<open>Below the full root a leaf splits, and the root grows.\<close>

lemma leaf_split_below_full_nodes_witness:
  "\<exists>L L' R' i ps qs. split_nonroot L 5 empty_page 602 = Some (L', R', i) \<and> entries L = [(35, [1]), (40, [2])] \<and>
     stage_split_cascade [full_root] [1] [0] [replicate 4096 0, replicate 4096 0] [600, 601] 5 602 40 35 40 = Some (ps, qs, 2, 0, True) \<and>
     map (\<lambda>k. slotted_read (with_pages (\<lambda>n. if n = 5 then L else full_root) [5, 602] [L', R']
       (descend (with_pages (\<lambda>n. if n = 5 then L else full_root) [1, 600, 601] (ps @ qs)) k 2 1)) k 10) [35, 36, 40] = [Some [1], None, Some [2]]"
proof -
  let ?es = "[(35, [1]), (40, [2])] :: (nat \<times> bytes) list"
  have ok: "entries_ok ?es" by (simp add: entries_ok_def)
  have w: "(0::nat) < 2 ^ 32" "(1::nat) < 2 ^ 32" "(5::nat) < 2 ^ 32" "(602::nat) < 2 ^ 32" by simp_all
  define L where "L = made_leaf 0 1 0 0 ?es"
  note F = made_leaf_facts [OF ok w(2,1,1) L_def]
  have "can_split L 5 empty_page 602" using F by (simp add: can_split_def)
  then obtain L' R' i where s: "split_nonroot L 5 empty_page 602 = Some (L', R', i)" and h: "leaf_halves L 5 empty_page 602 L' R' i"
    by (rule can_split_nonroot [OF _ w(3,4)])
  have "i = 1" using h F(3) by (simp add: leaf_halves_def)
  then have "entries L' = [(35, [1])]" using h F(2) by (simp add: leaf_halves_def)
  then have mx: "leaf_max L = 40" "leaf_max L' = 35" using leaf_max_entries F(2) by fastforce+
  let ?z = "replicate 4096 (0::u8)"
  obtain p' a c where cs: "stage_split_cascade [full_root] [1] [0] [?z, ?z] [600, 601] 5 602 40 35 40 = Some ([p'], [a, c], 2, 0, True)"
    by (rule full_root_cascade)
  define P where "P = (\<lambda>n::nat. if n = 5 then L else full_root)"
  have okp: "pages_ok [full_root]" "pages_ok [?z, ?z]" using full_root_facts(1) by (simp_all add: pages_ok_def)
  have tp: "tree_pages P (Suc 0) 1 = 1 # demo_kids"
  proof -
    have "concat (map (tree_pages P 0) xs) = xs" for xs by (induction xs) simp_all
    then show ?thesis by (simp add: P_def full_root_facts(3))
  qed
  have tree: "distinct (tree_pages P (Suc 0) ([1] ! 0))" "set (602 # take 2 [600, 601]) \<inter> set (tree_pages P (Suc 0) ([1] ! 0)) = {}"
    unfolding nth_Cons_0 tp using demo_kids_simps(3,4) by simp_all
  have other: "length [1::nat] = length [full_root]" "length [600, 601::nat] = length [?z, ?z]" "\<forall>n\<in>set (602 # [1] @ [600, 601]). n < (2::nat) ^ 32"
    "\<forall>i<length [full_root]. P ([1] ! i) = [full_root] ! i" "P 5 = L" by (simp_all add: P_def)
  have cs': "stage_split_cascade [full_root] [1] [0] [?z, ?z] [600, 601] 5 602 (leaf_max L) (leaf_max L') (leaf_max L) = Some ([p'], [a, c], 2, 0, True)"
    using cs unfolding mx .
  have T: "slotted_read (with_pages P [5, 602] [L', R'] (descend (with_pages P [1, 600, 601] [p', a, c]) k 2 1)) k 10 =
      slotted_read (P (node_route full_root k)) k 10" for k
  proof -
    have d: "descend P k (0 + 1) ([1] ! 0) = node_route full_root k" by (simp add: P_def)
    have "[1] @ take 2 [600, 601] = [1, 600, 601::nat]" "[p'] @ take 2 [a, c] = [p', a, c]" "(if True then 0 + 2 else 0 + 1) = (2::nat)"
      "[1] ! 0 = (1::nat)" by simp_all
    with leaf_split_below_full_nodes [OF s w(3) cs' other(1,2) okp other(3-5) tree, of k 10, unfolded d] show ?thesis by metis
  qed
  have r: "node_route full_root k = 5" if "30 < k" "k \<le> 40" for k
  proof -
    have "route_index demo_keys k = 3" by (rule route_index_eqI) (use that demo_keys_simps in auto)
    then show ?thesis using full_root_kid [of 3] by (simp add: node_route_def full_root_facts(2))
  qed
  have "map (\<lambda>k. slotted_read (P (node_route full_root k)) k 10) [35, 36, 40] = [Some [1], None, Some [2]]"
    using r [of 35] r [of 36] r [of 40] by (simp add: P_def slotted_read_spec [OF F(1)] F(2) spec_read_def)
  with T have "map (\<lambda>k. slotted_read (with_pages P [5, 602] [L', R'] (descend (with_pages P [1, 600, 601] ([p'] @ [a, c])) k 2 1)) k 10) [35, 36, 40] =
    [Some [1], None, Some [2]]" by simp
  with s F(2) cs show ?thesis unfolding P_def by - (intro exI conjI; assumption)
qed

end
