(* ===== verification/TreeShrink.thy ===== *)
theory TreeShrink
  imports LeafSplitProperties
begin

text \<open>
  Stages that shrink a tree whose leaves lose rows, after \<open>src/internal_max_decrease_cascade_stage.h\<close> and
  \<open>src/internal_root_collapse_stage.h\<close>. \<open>None\<close> is the return of false, after which every page of the caller is as
  before. The lemmas say what is read from pages of both leaf formats after the writes of the stages.
\<close>

section \<open>A smaller greatest key moves upwards\<close>

fun decrease_levels :: "nat list \<Rightarrow> nat list \<Rightarrow> bytes list \<Rightarrow> nat \<Rightarrow> nat \<Rightarrow> nat \<Rightarrow> (bytes list \<times> nat \<times> bool) option" where
  "decrease_levels nums [] ancestors child old_max new_max = None"
| "decrease_levels nums (level # levels) ancestors child old_max new_max =
     (let current = ancestors ! level
      in if \<not> parent_stage_validate current then None
         else
           let num_keys = rd32 INTERNAL_NODE_NUM_KEYS_OFFSET current
           in case locate_child current None child (num_keys + 1) [0..<num_keys + 1] (num_keys + 1) of
                None \<Rightarrow> None
              | Some child_index \<Rightarrow>
                  if child_index = num_keys + 1 then None
                  else
                    let is_root = (current ! IS_ROOT_OFFSET \<noteq> 0)
                    in if is_root \<and> level + 1 \<noteq> length ancestors then None
                       else if child_index < num_keys then
                         (case stage_child_max_decrease current child old_max new_max of
                            None \<Rightarrow> None
                          | Some (staged_index, current', separator_changed) \<Rightarrow>
                              if staged_index \<noteq> child_index \<or> \<not> separator_changed then None
                              else Some (ancestors[level := current'], level, True))
                       else if is_root then Some (ancestors, level, False)
                       else if level + 1 \<ge> length ancestors \<or> nums ! level = 0 \<or>
                               rd32 PARENT_POINTER_OFFSET current \<noteq> nums ! (level + 1) then None
                       else decrease_levels nums levels ancestors (nums ! level) old_max new_max)"

definition stage_max_decrease_cascade :: "bytes list \<Rightarrow> nat list \<Rightarrow> nat \<Rightarrow> nat \<Rightarrow> nat \<Rightarrow> (bytes list \<times> nat \<times> bool) option" where
  "stage_max_decrease_cascade ancestors nums changed_child old_max new_max =
     (if ancestors = [] \<or> list_ex (\<lambda>p. length p < PAGE_SIZE) ancestors \<or> changed_child = 0 \<or> changed_child = INVALID_PAGE_NUM \<or>
         new_max \<ge> old_max then None
      else if list_ex (\<lambda>i. nums ! i = INVALID_PAGE_NUM \<or> list_ex (\<lambda>j. nums ! j = nums ! i) [0..<i]) [0..<length ancestors] then None
      else case decrease_levels nums [0..<length ancestors] (map (slice 0 PAGE_SIZE) ancestors) changed_child old_max new_max of
             None \<Rightarrow> None
           | Some (scratch, stopped, changed) \<Rightarrow>
               Some (map2 (\<lambda>scratch page. blit 0 (slice 0 PAGE_USABLE_SIZE scratch) page) scratch ancestors, stopped, changed))"

section \<open>The root loses its second child\<close>

text \<open>The smallest and the greatest key of a page.\<close>

definition page_key_range :: "bytes \<Rightarrow> nat \<Rightarrow> (nat \<times> nat) option" where
  "page_key_range page count =
     (case page_key_at page 0 of None \<Rightarrow> None
      | Some min_key \<Rightarrow>
          (case page_key_at page (count - 1) of None \<Rightarrow> None | Some max_key \<Rightarrow> Some (min_key, max_key)))"

definition promoted_root :: "bytes \<Rightarrow> bytes \<Rightarrow> bytes" where
  "promoted_root root_page surviving =
     wr32 PARENT_POINTER_OFFSET 0
       ((blit 0 (slice 0 PAGE_USABLE_SIZE surviving) (slice 0 PAGE_SIZE root_page))[IS_ROOT_OFFSET := 1])"

definition collapse_to_leaf :: "bytes \<Rightarrow> nat \<Rightarrow> bytes \<Rightarrow> nat \<Rightarrow> nat \<Rightarrow> nat \<Rightarrow> (bytes \<times> nat) option" where
  "collapse_to_leaf root_page root_page_num surviving surviving_num removed_num removed_max =
     (if length root_page < PAGE_SIZE \<or> length surviving < PAGE_SIZE \<or> surviving_num = 0 \<or> surviving_num = INVALID_PAGE_NUM \<or>
         removed_num = 0 \<or> removed_num = INVALID_PAGE_NUM \<or> surviving_num = removed_num \<or> surviving_num = root_page_num \<or>
         removed_num = root_page_num then None
      else if root_page ! NODE_TYPE_OFFSET \<noteq> NODE_INTERNAL \<or> root_page ! IS_ROOT_OFFSET = 0 \<or> rd32 PARENT_POINTER_OFFSET root_page \<noteq> 0 \<or>
         \<not> parent_stage_validate root_page \<or> rd32 INTERNAL_NODE_NUM_KEYS_OFFSET root_page \<noteq> 1 \<or> \<not> slotted_validate surviving \<or>
         surviving ! IS_ROOT_OFFSET \<noteq> 0 \<or> rd32 PARENT_POINTER_OFFSET surviving \<noteq> root_page_num then None
      else if page_prev surviving \<noteq> Some 0 \<or> page_next surviving \<noteq> Some 0 then None
      else case page_count surviving of None \<Rightarrow> None
        | Some survivor_count \<Rightarrow>
            if survivor_count = 0 then None
            else case page_key_range surviving survivor_count of None \<Rightarrow> None
              | Some (survivor_min, survivor_max) \<Rightarrow>
                  if survivor_min > survivor_max then None
                  else
                    let left_child = stage_child_at root_page 0; right_child = stage_child_at root_page 1;
                        separator = stage_key_at root_page 0;
                        removed_left = (left_child = removed_num \<and> right_child = surviving_num);
                        removed_right = (right_child = removed_num \<and> left_child = surviving_num)
                    in if removed_left = removed_right then None
                       else if removed_left \<and> (separator \<noteq> removed_max \<or> removed_max \<ge> survivor_min) then None
                       else if \<not> removed_left \<and> (separator \<noteq> survivor_max \<or> removed_max \<le> survivor_max) then None
                       else
                         let scratch = promoted_root root_page surviving
                         in if \<not> slotted_validate scratch \<or> scratch ! IS_ROOT_OFFSET = 0 \<or> rd32 PARENT_POINTER_OFFSET scratch \<noteq> 0 then None
                            else if page_prev scratch \<noteq> Some 0 \<or> page_next scratch \<noteq> Some 0 \<or> page_count scratch \<noteq> Some survivor_count \<or>
                               page_key_range scratch survivor_count \<noteq> Some (survivor_min, survivor_max) then None
                            else Some (blit 0 (slice 0 PAGE_USABLE_SIZE scratch) root_page, surviving_num))"

definition direct_child_valid :: "bytes \<Rightarrow> nat \<Rightarrow> bool" where
  "direct_child_valid page expected_parent \<longleftrightarrow>
     \<not> (length page < PAGE_SIZE \<or> page ! IS_ROOT_OFFSET \<noteq> 0 \<or> rd32 PARENT_POINTER_OFFSET page \<noteq> expected_parent) \<and>
     (if get_node_type page = NODE_INTERNAL then parent_stage_validate page
      else if get_node_type page \<noteq> NODE_LEAF then False
      else case detect_page page of
             PAGE_FORMAT_SLOTTED_V2 \<Rightarrow> slotted_validate page
           | PAGE_FORMAT_FIXED_V1 \<Rightarrow> page_is_fixed_v1 page \<and> (case page_count page of None \<Rightarrow> False | Some count \<Rightarrow> count > 0)
           | PAGE_FORMAT_UNKNOWN \<Rightarrow> False)"

definition collapse_child_ok :: "bytes \<Rightarrow> nat \<Rightarrow> nat \<Rightarrow> nat \<Rightarrow> bytes list \<Rightarrow> nat list \<Rightarrow> nat \<Rightarrow> bool" where
  "collapse_child_ok surviving root_page_num surviving_num removed_num children nums i \<longleftrightarrow>
     \<not> (nums ! i = 0 \<or> nums ! i = INVALID_PAGE_NUM \<or> nums ! i = root_page_num \<or> nums ! i = surviving_num \<or> nums ! i = removed_num \<or>
        nums ! i \<noteq> stage_child_at surviving i \<or> \<not> direct_child_valid (children ! i) surviving_num) \<and>
     \<not> list_ex (\<lambda>j. nums ! i = nums ! j) [0..<i]"

definition collapse_to_internal :: "bytes \<Rightarrow> nat \<Rightarrow> bytes \<Rightarrow> nat \<Rightarrow> nat \<Rightarrow> nat \<Rightarrow> nat \<Rightarrow> bytes list \<Rightarrow> nat list \<Rightarrow> (bytes \<times> bytes list \<times> nat) option" where
  "collapse_to_internal root_page root_page_num surviving surviving_num surviving_max removed_num removed_max children nums =
     (if length root_page < PAGE_SIZE \<or> length surviving < PAGE_SIZE \<or> surviving_num = 0 \<or> surviving_num = INVALID_PAGE_NUM \<or>
         removed_num = 0 \<or> removed_num = INVALID_PAGE_NUM \<or> surviving_num = removed_num \<or> surviving_num = root_page_num \<or>
         removed_num = root_page_num then None
      else if \<not> parent_stage_validate root_page \<or> root_page ! IS_ROOT_OFFSET = 0 \<or> rd32 PARENT_POINTER_OFFSET root_page \<noteq> 0 \<or>
         rd32 INTERNAL_NODE_NUM_KEYS_OFFSET root_page \<noteq> 1 \<or> \<not> parent_stage_validate surviving \<or>
         surviving ! IS_ROOT_OFFSET \<noteq> 0 \<or> rd32 PARENT_POINTER_OFFSET surviving \<noteq> root_page_num then None
      else
        let survivor_key_count = rd32 INTERNAL_NODE_NUM_KEYS_OFFSET surviving
        in if survivor_key_count = 0 \<or> survivor_key_count > INTERNAL_NODE_MAX_KEYS \<or> length children \<noteq> survivor_key_count + 1 \<or>
              children = [] \<or> length children > INTERNAL_NODE_MAX_KEYS + 1 then None
           else
             let root_left = stage_child_at root_page 0; root_right = stage_child_at root_page 1; root_separator = stage_key_at root_page 0;
                 removed_left = (root_left = removed_num \<and> root_right = surviving_num);
                 removed_right = (root_right = removed_num \<and> root_left = surviving_num)
             in if removed_left = removed_right then None
                else if removed_left \<and> (root_separator \<noteq> removed_max \<or> removed_max \<ge> surviving_max) \<or>
                   removed_right \<and> (root_separator \<noteq> surviving_max \<or> removed_max \<le> surviving_max) then None
                else if \<not> list_all (collapse_child_ok surviving root_page_num surviving_num removed_num children nums) [0..<length children] then None
                else
                  let root_scratch = promoted_root root_page surviving;
                      staged = map (\<lambda>page. wr32 PARENT_POINTER_OFFSET root_page_num (slice 0 PAGE_SIZE page)) children
                  in if parent_stage_validate root_scratch \<and> root_scratch ! IS_ROOT_OFFSET \<noteq> 0 \<and> rd32 PARENT_POINTER_OFFSET root_scratch = 0 \<and>
                        rd32 INTERNAL_NODE_NUM_KEYS_OFFSET root_scratch = survivor_key_count \<and>
                        list_all (\<lambda>i. direct_child_valid (staged ! i) root_page_num \<and> stage_child_at root_scratch i = nums ! i) [0..<length children]
                     then Some (blit 0 (slice 0 PAGE_USABLE_SIZE root_scratch) root_page,
                                map2 (\<lambda>scratch page. blit 0 (slice 0 PAGE_USABLE_SIZE scratch) page) staged children, surviving_num)
                     else None)"

section \<open>What the stages read from a leaf\<close>

text \<open>Smallest and greatest key, previous and next page of a leaf with rows; both files have this function.\<close>

definition merge_leaf_info :: "bytes \<Rightarrow> nat \<Rightarrow> (nat \<times> nat \<times> nat \<times> nat) option" where
  "merge_leaf_info page expected_parent =
     (if length page < PAGE_SIZE \<or> page ! NODE_TYPE_OFFSET \<noteq> NODE_LEAF \<or> page ! IS_ROOT_OFFSET \<noteq> 0 \<or>
         rd32 PARENT_POINTER_OFFSET page \<noteq> expected_parent then None
      else if \<not> (case detect_page page of PAGE_FORMAT_SLOTTED_V2 \<Rightarrow> slotted_validate page
               | PAGE_FORMAT_FIXED_V1 \<Rightarrow> page_is_fixed_v1 page | PAGE_FORMAT_UNKNOWN \<Rightarrow> False) then None
      else case page_count page of None \<Rightarrow> None
        | Some count \<Rightarrow>
            if count = 0 then None
            else case page_key_range page count of None \<Rightarrow> None
              | Some (min_key, max_key) \<Rightarrow>
                  if min_key > max_key then None
                  else case page_prev page of None \<Rightarrow> None
                    | Some prev_page \<Rightarrow>
                        (case page_next page of None \<Rightarrow> None
                         | Some next_page \<Rightarrow>
                             if prev_page = INVALID_PAGE_NUM \<or> next_page = INVALID_PAGE_NUM then None
                             else Some (min_key, max_key, prev_page, next_page)))"

section \<open>A smaller greatest key and the lookups\<close>

lemma route_index_lowered:
  assumes s: "sorted_wrt (<) ss" and i: "i < length ss" "ss ! i = old" "new < old" "0 < i \<longrightarrow> ss ! (i - 1) < new" and k: "k \<le> new \<or> old < k"
  shows "route_index (ss[i := new]) k = route_index ss k"
proof -
  let ?j = "route_index ss k"
  note R = route_indexD [where ss = ss and k = k]
  show ?thesis
  proof (rule route_index_eqI)
    show "?j \<le> length (ss[i := new])" using R(1) by simp
    show "ss[i := new] ! x < k" if x: "x < ?j" for x
    proof (cases "x = i")
      case True
      have "old < k" using R(2) [of i] x i True by simp
      then show ?thesis using True i by simp
    next
      case False
      then show ?thesis using R(2) [OF x] by simp
    qed
    assume j: "?j < length (ss[i := new])"
    show "k \<le> ss[i := new] ! ?j"
    proof (cases "?j = i")
      case True
      then have "k \<le> old" using R(3) j i by simp
      with k have "k \<le> new" by simp
      then show ?thesis using True i by simp
    next
      case False
      then show ?thesis using R(3) j by simp
    qed
  qed
qed

text \<open>The path of a smaller greatest key: below the level where it stops the child is the right child.\<close>

definition path_child :: "nat list \<Rightarrow> nat \<Rightarrow> nat \<Rightarrow> nat \<Rightarrow> nat" where
  "path_child nums c level j = (if j = level then c else nums ! (j - 1))"

definition decrease_done :: "nat list \<Rightarrow> nat \<Rightarrow> bytes list \<Rightarrow> nat \<Rightarrow> nat \<Rightarrow> nat \<Rightarrow> bytes list \<Rightarrow> nat \<Rightarrow> bool \<Rightarrow> bool" where
  "decrease_done nums level anc c old new anc' stop changed \<longleftrightarrow> level \<le> stop \<and> stop < length anc \<and>
     (\<forall>j. level \<le> j \<and> j < stop \<longrightarrow> parent_stage_validate (anc ! j) \<and> last (node_kids (anc ! j)) = path_child nums c level j) \<and>
     parent_stage_validate (anc ! stop) \<and>
     (if changed then \<exists>i<internal_node_num_keys (anc ! stop). decreases_at (anc ! stop) i (path_child nums c level stop) old new \<and>
        anc' = anc[stop := published (wr32 (14 + i * 8 + 4) new (slice 0 4096 (anc ! stop))) (anc ! stop)]
      else anc' = anc \<and> last (node_kids (anc ! stop)) = path_child nums c level stop)"

lemma last_node_kids: "last (node_kids p) = node_kids p ! internal_node_num_keys p"
proof -
  have "node_kids p \<noteq> []" by (metis length_node_lists(2) length_greater_0_conv zero_less_Suc Suc_eq_plus1)
  then show ?thesis by (simp add: last_conv_nth)
qed

lemma decrease_levels_spec:
  assumes new: "new < 2 ^ 32" and s: "decrease_levels nums [level..<length anc] anc c old new = Some (anc', stop, changed)"
  shows "decrease_done nums level anc c old new anc' stop changed"
  using s
proof (induction "length anc - level" arbitrary: level c)
  case 0
  then show ?case by simp
next
  case (Suc d)
  let ?p = "anc ! level"
  let ?n = "internal_node_num_keys ?p"
  from Suc.hyps(2) have lv: "level < length anc" by simp
  have up: "[level..<length anc] = level # [Suc level..<length anc]" using lv by (rule upt_conv_Cons)
  have n6: "rd32 6 q = internal_node_num_keys q" for q by (simp add: num_keys_rd)
  from Suc.prems obtain i where v: "parent_stage_validate ?p"
    and loc: "locate_child ?p None c (?n + 1) [0..<?n + 1] (?n + 1) = Some i" "i \<noteq> ?n + 1"
    and rest: "(if i < ?n then
        (case stage_child_max_decrease ?p c old new of None \<Rightarrow> None
         | Some (staged_index, current', separator_changed) \<Rightarrow>
             if staged_index \<noteq> i \<or> \<not> separator_changed then None else Some (anc[level := current'], level, True))
      else if ?p ! IS_ROOT_OFFSET \<noteq> 0 then Some (anc, level, False)
      else if level + 1 \<ge> length anc \<or> nums ! level = 0 \<or> rd32 PARENT_POINTER_OFFSET ?p \<noteq> nums ! (level + 1) then None
      else decrease_levels nums [Suc level..<length anc] anc (nums ! level) old new) = Some (anc', stop, changed)"
    unfolding up decrease_levels.simps Let_def internal_offsets n6 by (elim guardE case_optionE) simp
  have i: "i \<le> ?n" "node_kids ?p ! i = c"
    using locate_child_iff [OF valid_nodeD(6) [OF v] refl refl, of None c i] loc by simp_all
  show ?case
  proof (cases "i < ?n")
    case True
    obtain z where z: "stage_child_max_decrease ?p c old new = Some z"
      and b: "(case z of (staged_index, current', separator_changed) \<Rightarrow>
          if staged_index \<noteq> i \<or> \<not> separator_changed then None else Some (anc[level := current'], level, True)) = Some (anc', stop, changed)"
      by (rule case_optionE [OF rest [unfolded if_P [OF True]]])
    obtain si p' ch where zz: "z = (si, p', ch)" by (cases z)
    from b have r: "anc' = anc[level := p']" "stop = level" "changed" and sc: "si = i" "ch"
      unfolding zz case_prod_conv by (auto split: if_splits)
    have st: "stage_child_max_decrease ?p c old new = Some (i, p', ch)" using z zz sc by simp
    from st [unfolded stage_child_max_decrease_spec [OF new]] True
    have "decreases_at ?p i c old new" "p' = published (wr32 (14 + i * 8 + 4) new (slice 0 4096 ?p)) ?p" by simp_all
    then have "\<exists>i<?n. decreases_at ?p i (path_child nums c level level) old new \<and>
        anc' = anc[level := published (wr32 (14 + i * 8 + 4) new (slice 0 4096 ?p)) ?p]"
      by (intro exI [of _ i] conjI) (use True r(1) in \<open>simp_all only: path_child_def if_True refl\<close>)
    moreover have "changed = True" using r(3) by simp
    ultimately show ?thesis unfolding decrease_done_def r(2) using lv v by (simp only: if_True) auto
  next
    case False
    with i have c: "last (node_kids ?p) = c" by (simp add: last_node_kids)
    show ?thesis
    proof (cases "?p ! IS_ROOT_OFFSET \<noteq> 0")
      case True
      with rest False have "anc' = anc" "stop = level" "\<not> changed" by simp_all
      then show ?thesis using lv v c by (auto simp: decrease_done_def path_child_def)
    next
      case nr: False
      with rest False have go: "decrease_levels nums [Suc level..<length anc] anc (nums ! level) old new = Some (anc', stop, changed)"
        by (simp split: if_splits)
      have "decrease_done nums (Suc level) anc (nums ! level) old new anc' stop changed"
        by (rule Suc.hyps(1) [OF _ go]) (use Suc.hyps(2) in simp)
      note D = this [unfolded decrease_done_def]
      have pc: "path_child nums (nums ! level) (Suc level) j = path_child nums c level j" if "Suc level \<le> j" for j
        using that by (auto simp: path_child_def)
      have sl: "Suc level \<le> stop" using D by blast
      show ?thesis unfolding decrease_done_def
      proof (intro conjI allI impI)
        fix j assume j: "level \<le> j \<and> j < stop"
        show "parent_stage_validate (anc ! j)" using D v j by (cases "j = level") simp_all
        show "last (node_kids (anc ! j)) = path_child nums c level j"
        proof (cases "j = level")
          case True
          then show ?thesis using c by (simp add: path_child_def)
        next
          case False
          then have "Suc level \<le> j" using j by simp
          with D j pc [OF this] show ?thesis by simp
        qed
      next
        show "level \<le> stop" using sl by simp
        show "stop < length anc" by (rule D [THEN conjunct2, THEN conjunct1])
        show "parent_stage_validate (anc ! stop)" by (rule D [THEN conjunct2, THEN conjunct2, THEN conjunct2, THEN conjunct1])
        show "if changed then \<exists>i<internal_node_num_keys (anc ! stop). decreases_at (anc ! stop) i (path_child nums c level stop) old new \<and>
            anc' = anc[stop := published (wr32 (14 + i * 8 + 4) new (slice 0 4096 (anc ! stop))) (anc ! stop)]
          else anc' = anc \<and> last (node_kids (anc ! stop)) = path_child nums c level stop"
          by (rule D [THEN conjunct2, THEN conjunct2, THEN conjunct2, THEN conjunct2, unfolded pc [OF sl]])
      qed
    qed
  qed
qed

section \<open>Headers of leaves of both formats\<close>

lemma v1_layout: "LEAF_NODE_NUM_CELLS_OFFSET = 6" "LEAF_NODE_NEXT_LEAF_OFFSET = 10" "LEAF_NODE_PREV_LEAF_OFFSET = 14"
  by (simp_all add: node_layout LEAF_NODE_HEADER_SIZE_def COMMON_NODE_HEADER_SIZE_def)

lemma rows_cong_v1:
  assumes d: "detect_page p = PAGE_FORMAT_FIXED_V1" and len: "4096 \<le> length q" and z: "q ! 0 = p ! 0"
    and h: "slice 6 4 q = slice 6 4 p" and b: "slice 18 4064 q = slice 18 4064 p"
  shows "detect_page q = PAGE_FORMAT_FIXED_V1" "page_rows q = page_rows p"
proof -
  have n: "leaf_node_num_cells q = leaf_node_num_cells p" using h by (simp add: leaf_node_num_cells_def v1_layout rd32_def)
  have D: "get_node_type p = NODE_LEAF" "leaf_node_num_cells p \<le> 13" using d by (simp_all add: detect_v1)
  show dq: "detect_page q = PAGE_FORMAT_FIXED_V1" using D n z len by (simp add: detect_v1 get_node_type_def leaf_header_offsets)
  have s: "slice a m q = slice a m p" if "18 \<le> a" "a + m \<le> 4082" for a m
    using slice_slice [of "a - 18" m 4064 18 p] slice_slice [of "a - 18" m 4064 18 q] b that by simp
  have "map (\<lambda>i. (leaf_node_key q i, slice (leaf_node_value i) 293 q)) [0..<leaf_node_num_cells p] =
      map (\<lambda>i. (leaf_node_key p i, slice (leaf_node_value i) 293 p)) [0..<leaf_node_num_cells p]"
    by (rule map_cong [OF refl]) (use D(2) in \<open>simp add: leaf_node_key_def rd32_def s\<close>)
  then show "page_rows q = page_rows p" unfolding page_rows_v1(1) [OF d] page_rows_v1(1) [OF dq] n .
qed

text \<open>What the stages look at in a leaf but for its rows.\<close>

definition leaf_links :: "bytes \<Rightarrow> nat option \<times> nat option" where
  "leaf_links p = (page_prev p, page_next p)"

lemma page_links:
  "detect_page p = PAGE_FORMAT_FIXED_V1 \<Longrightarrow> leaf_links p = (Some (rd32 14 p), Some (rd32 10 p))"
  "slotted_validate p \<Longrightarrow> leaf_links p = (Some (rd32 22 p), Some (rd32 18 p))"
  by (simp_all add: leaf_links_def page_prev_def page_next_def sibling_page_def v1_layout detect_v2 [symmetric])

text \<open>Writing the parent of a leaf.\<close>

lemma parent_write:
  assumes d: "detect_page p \<noteq> PAGE_FORMAT_UNKNOWN" and n: "n < 2 ^ 32" and q: "q = wr32 2 n p"
  shows "detect_page q = detect_page p" "page_rows q = page_rows p" "leaf_links q = leaf_links p" "rd32 2 q = n" "q ! 1 = p ! 1"
    "length q = length p" "drop 4092 q = drop 4092 p"
proof -
  have len: "4096 \<le> length p" using d by (auto simp: detect_page_def PAGE_SIZE_def split: if_splits)
  then have o: "2 + 4 \<le> length p" by simp
  note W = wr32_any [OF o, where v = n, folded q]
  show "length q = length p" "rd32 2 q = n" using W(1,2) n by simp_all
  show "q ! 1 = p ! 1" by (rule W(4)) simp
  show "drop 4092 q = drop 4092 p" using len by (simp add: q wr32_def drop_blit)
  have s: "slice a m q = slice a m p" if "6 \<le> a" for a m by (rule W(3)) (use that in simp)
  have z: "q ! 0 = p ! 0" by (rule W(4)) simp
  have lq: "4096 \<le> length q" using len W(1) by simp
  from d show "detect_page q = detect_page p" "page_rows q = page_rows p" "leaf_links q = leaf_links p"
  proof (atomize (full), cases rule: detect_cases)
    case 1
    note R = rows_cong_v1 [OF 1 lq z s s]
    show "detect_page q = detect_page p \<and> page_rows q = page_rows p \<and> leaf_links q = leaf_links p"
      using R 1 s by (simp add: page_links rd32_def)
  next
    case 2
    note R = leaf_cong [OF 2 lq z s s]
    then show "detect_page q = detect_page p \<and> page_rows q = page_rows p \<and> leaf_links q = leaf_links p"
      using 2 s detect_v2 [of p] detect_v2 [of q] by (simp add: page_links rd32_def page_rows_v2)
  qed
qed

text \<open>Publishing a scratch copy of a leaf.\<close>

lemma usable_leaf:
  assumes d: "detect_page p \<noteq> PAGE_FORMAT_UNKNOWN" and len: "4096 \<le> length q" and u: "slice 0 4092 q = slice 0 4092 p"
  shows "detect_page q = detect_page p" "page_rows q = page_rows p" "leaf_links q = leaf_links p" "rd32 2 q = rd32 2 p" "q ! 1 = p ! 1" "q ! 0 = p ! 0"
proof -
  have lp: "4096 \<le> length p" using d by (auto simp: detect_page_def PAGE_SIZE_def split: if_splits)
  have s: "slice a n q = slice a n p" if "a + n \<le> 4092" for a n
    using slice_slice [of a n 4092 0 p] slice_slice [of a n 4092 0 q] u that by simp
  show z: "q ! 0 = p ! 0" and "q ! 1 = p ! 1" by (rule nth_usable [OF u]; use lp len in simp)+
  show "rd32 2 q = rd32 2 p" using s by (simp add: rd32_def)
  from d show "detect_page q = detect_page p" "page_rows q = page_rows p" "leaf_links q = leaf_links p"
  proof (atomize (full), cases rule: detect_cases)
    case 1
    note R = rows_cong_v1 [OF 1 len z s s]
    show "detect_page q = detect_page p \<and> page_rows q = page_rows p \<and> leaf_links q = leaf_links p"
      using R 1 s by (simp add: page_links rd32_def)
  next
    case 2
    note R = leaf_usable_cong [OF 2 len u]
    then show "detect_page q = detect_page p \<and> page_rows q = page_rows p \<and> leaf_links q = leaf_links p"
      using 2 s detect_v2 [of p] detect_v2 [of q] by (simp add: page_links rd32_def page_rows_v2)
  qed
qed

lemma scratch_any_leaf:
  assumes "detect_page p \<noteq> PAGE_FORMAT_UNKNOWN"
  shows "detect_page (slice 0 4096 p) = detect_page p" "page_rows (slice 0 4096 p) = page_rows p" "leaf_links (slice 0 4096 p) = leaf_links p"
    "rd32 2 (slice 0 4096 p) = rd32 2 p" "slice 0 4096 p ! 1 = p ! 1" "slice 0 4096 p ! 0 = p ! 0" "length (slice 0 4096 p) = 4096"
proof -
  have len: "4096 \<le> length p" using assms by (auto simp: detect_page_def PAGE_SIZE_def split: if_splits)
  then show l: "length (slice 0 4096 p) = 4096" by simp
  have u: "slice 0 4092 (slice 0 4096 p) = slice 0 4092 p" by (simp add: slice_slice)
  have l': "4096 \<le> length (slice 0 4096 p)" using l by simp
  show "detect_page (slice 0 4096 p) = detect_page p" "page_rows (slice 0 4096 p) = page_rows p" "leaf_links (slice 0 4096 p) = leaf_links p"
    "rd32 2 (slice 0 4096 p) = rd32 2 p" "slice 0 4096 p ! 1 = p ! 1" "slice 0 4096 p ! 0 = p ! 0"
    by (fact usable_leaf [OF assms l' u])+
qed

lemma published_leaf:
  assumes d: "detect_page p \<noteq> PAGE_FORMAT_UNKNOWN" and l: "length p = 4096" "4096 \<le> length x" and q: "q = blit 0 (slice 0 4092 p) x"
  shows "detect_page q = detect_page p" "page_rows q = page_rows p" "leaf_links q = leaf_links p" "rd32 2 q = rd32 2 p" "q ! 1 = p ! 1" "q ! 0 = p ! 0"
    "length q = length x" "drop 4092 q = drop 4092 x"
proof -
  note P = published_spec [OF l, unfolded published_def, folded q]
  show "length q = length x" "drop 4092 q = drop 4092 x" using P by simp_all
  have "4096 \<le> length q" using P l by simp
  from usable_leaf [OF d this P(2)]
  show "detect_page q = detect_page p" "page_rows q = page_rows p" "leaf_links q = leaf_links p" "rd32 2 q = rd32 2 p" "q ! 1 = p ! 1" "q ! 0 = p ! 0"
    by simp_all
qed

section \<open>A replaced link\<close>

lemma link_written:
  assumes d: "detect_page p \<noteq> PAGE_FORMAT_UNKNOWN" and n: "new < 2 ^ 32"
    and off_def: "off = (if detect_page p = PAGE_FORMAT_FIXED_V1 then (if forward then 10 else 14) else (if forward then 18 else (22::nat)))"
    and c_def: "c = wr32 off new (slice 0 4096 p)"
  shows "detect_page c = detect_page p" "page_rows c = page_rows p"
    "leaf_links c = (if forward then (page_prev p, Some new) else (Some new, page_next p))"
    "length c = 4096" "rd32 2 c = rd32 2 p" "c ! 1 = p ! 1"
proof -
  note S = scratch_any_leaf [OF d]
  have offs: "10 \<le> off" "off \<le> 22" by (simp_all add: off_def)
  then have o: "off + 4 \<le> length (slice 0 4096 p)" unfolding S(7) by simp
  note W = wr32_any [OF o, where v = new, folded c_def]
  show lc: "length c = 4096" using W(1) S(7) by simp
  have sl: "slice a m c = slice a m (slice 0 4096 p)" if "a + m \<le> off \<or> off + 4 \<le> a" for a m by (rule W(3) [OF that])
  have z: "c ! 0 = slice 0 4096 p ! 0" "c ! 1 = slice 0 4096 p ! 1" by (rule W(4); use offs in simp)+
  then show "c ! 1 = p ! 1" using S(5) by simp
  show "rd32 2 c = rd32 2 p" using sl [of 2 4] offs S(4) by (simp add: rd32_def)
  have len: "4096 \<le> length p" using d by (auto simp: detect_page_def PAGE_SIZE_def split: if_splits)
  have ro: "rd32 off c = new" using W(2) n by simp
  have D: "detect_page (slice 0 4096 p) \<noteq> PAGE_FORMAT_UNKNOWN" using d S(1) by simp
  then have "detect_page c = detect_page p \<and> page_rows c = page_rows p \<and>
      leaf_links c = (if forward then (page_prev p, Some new) else (Some new, page_next p))"
  proof (cases rule: detect_cases)
    case 1
    then have o': "off = (if forward then 10 else 14)" using S(1) by (simp add: off_def)
    have "slice 6 4 c = slice 6 4 (slice 0 4096 p)" "slice 18 4064 c = slice 18 4064 (slice 0 4096 p)" by (rule sl; simp add: o')+
    note R = rows_cong_v1 [OF 1 _ z(1) this]
    have "leaf_links c = (if forward then (Some (rd32 14 (slice 0 4096 p)), Some new) else (Some new, Some (rd32 10 (slice 0 4096 p))))"
      using page_links(1) [of c] R lc ro sl [of 14 4] sl [of 10 4] by (simp add: o' rd32_def split: if_splits)
    moreover have "leaf_links p = (Some (rd32 14 (slice 0 4096 p)), Some (rd32 10 (slice 0 4096 p)))" using page_links(1) [OF 1] S(3) by simp
    ultimately show ?thesis using R lc S(1,2) 1 by (simp add: leaf_links_def)
  next
    case 2
    then have v: "slotted_validate p" using S(1) by (metis detect_v2)
    then have o': "off = (if forward then 18 else 22)" using detect_v2 [of p] by (simp add: off_def)
    then have oo: "off = 18 \<or> off = 22" by simp
    note R = link_write [OF 2 oo n c_def]
    have "leaf_links c = (if forward then (Some (rd32 22 (slice 0 4096 p)), Some new) else (Some new, Some (rd32 18 (slice 0 4096 p))))"
      using page_links(2) [OF R(1)] ro sl [of 22 4] sl [of 18 4] by (simp add: o' rd32_def split: if_splits)
    moreover have "leaf_links p = (Some (rd32 22 (slice 0 4096 p)), Some (rd32 18 (slice 0 4096 p)))" using page_links(2) [OF 2] S(3) by simp
    ultimately show ?thesis
      using R(1,2) v detect_v2 [of c] detect_v2 [of p] page_rows_v2(1) [OF v] page_rows_v2(1) [OF R(1)] scratch_leaf(2) [OF v] by (simp add: leaf_links_def)
  qed
  then show "detect_page c = detect_page p" "page_rows c = page_rows p"
    "leaf_links c = (if forward then (page_prev p, Some new) else (Some new, page_next p))" by blast+
qed

lemma relink_Some:
  assumes s: "stage_leaf_sibling_relink p forward old new = Some q" and n: "new < 2 ^ 32"
  shows "detect_page p \<noteq> PAGE_FORMAT_UNKNOWN" "detect_page q = detect_page p" "page_rows q = page_rows p"
    "leaf_links q = (if forward then (page_prev p, Some new) else (Some new, page_next p))"
    "rd32 2 q = rd32 2 p" "q ! 1 = p ! 1" "length q = length p" "drop 4092 q = drop 4092 p"
    "(if forward then page_next p else page_prev p) = Some old"
proof -
  from s have d: "detect_page p \<noteq> PAGE_FORMAT_UNKNOWN" and old: "(if forward then page_next p else page_prev p) = Some old"
    unfolding stage_leaf_sibling_relink_def Let_def by (cases "detect_page p"; elim guardE; simp)+
  show "detect_page p \<noteq> PAGE_FORMAT_UNKNOWN" "(if forward then page_next p else page_prev p) = Some old" by (fact d old)+
  define off where "off = (if detect_page p = PAGE_FORMAT_FIXED_V1 then (if forward then 10 else 14) else (if forward then 18 else (22::nat)))"
  define c where "c = wr32 off new (slice 0 4096 p)"
  from s have q: "q = blit 0 (slice 0 4092 c) p"
    unfolding stage_leaf_sibling_relink_def Let_def c_def off_def by (elim guardE) (simp add: v1_layout PAGE_SIZE_def split: if_splits)
  note C = link_written [OF d n off_def c_def]
  have len: "4096 \<le> length p" using d by (auto simp: detect_page_def PAGE_SIZE_def split: if_splits)
  have dc: "detect_page c \<noteq> PAGE_FORMAT_UNKNOWN" using C d by simp
  note P = published_leaf [OF dc C(4) len q]
  show "detect_page q = detect_page p" "page_rows q = page_rows p" "leaf_links q = (if forward then (page_prev p, Some new) else (Some new, page_next p))"
    "rd32 2 q = rd32 2 p" "q ! 1 = p ! 1" "length q = length p" "drop 4092 q = drop 4092 p"
    using P C by simp_all
qed

lemma relink_succeeds:
  assumes d: "detect_page p \<noteq> PAGE_FORMAT_UNKNOWN" and old: "(if forward then page_next p else page_prev p) = Some old"
    and n: "old \<notin> {0, INVALID_PAGE_NUM}" "new \<notin> {old, INVALID_PAGE_NUM}" "new < 2 ^ 32"
  shows "\<exists>q. stage_leaf_sibling_relink p forward old new = Some q"
proof -
  define off where "off = (if detect_page p = PAGE_FORMAT_FIXED_V1 then (if forward then 10 else 14) else (if forward then 18 else (22::nat)))"
  define c where "c = wr32 off new (slice 0 4096 p)"
  note C = link_written [OF d n(3) off_def c_def]
  have e: "wr32 (if detect_page p = PAGE_FORMAT_FIXED_V1 then (if forward then LEAF_NODE_NEXT_LEAF_OFFSET else LEAF_NODE_PREV_LEAF_OFFSET)
      else (if forward then V2_NEXT_LEAF_OFFSET else V2_PREV_LEAF_OFFSET)) new (slice 0 PAGE_SIZE p) = c"
    by (simp add: c_def off_def v1_layout PAGE_SIZE_def)
  have g: "\<not> (length p < PAGE_SIZE \<or> old = 0 \<or> old = INVALID_PAGE_NUM \<or> new = INVALID_PAGE_NUM \<or> new = old)"
    using n d by (auto simp: detect_page_def split: if_splits)
  have f: "\<not> (detect_page p \<noteq> PAGE_FORMAT_FIXED_V1 \<and> detect_page p \<noteq> PAGE_FORMAT_SLOTTED_V2)" using d by (cases "detect_page p") simp_all
  have o: "\<not> (if forward then page_next p else page_prev p) \<noteq> Some old" using old by simp
  have o': "\<not> (if forward then page_next c else page_prev c) \<noteq> Some new" using C(3) by (cases forward) (simp_all add: leaf_links_def)
  have dc: "\<not> detect_page c \<noteq> detect_page p" using C(1) by simp
  show ?thesis unfolding stage_leaf_sibling_relink_def Let_def e if_not_P [OF g] if_not_P [OF f] if_not_P [OF o] if_not_P [OF dc] if_not_P [OF o'] by blast
qed

section \<open>What is read from a leaf\<close>

lemma page_key_range_rows:
  assumes d: "detect_page p \<noteq> PAGE_FORMAT_UNKNOWN" and ne: "page_rows p \<noteq> []"
  shows "page_key_range p (length (page_rows p)) = Some (fst (hd (page_rows p)), fst (last (page_rows p)))"
proof -
  have "page_key_at p 0 = Some (fst (hd (page_rows p)))" "page_key_at p (length (page_rows p) - 1) = Some (fst (last (page_rows p)))"
    using page_access(2) [OF d] ne by (simp_all add: hd_conv_nth last_conv_nth)
  then show ?thesis by (simp add: page_key_range_def)
qed

lemma merge_leaf_info_iff:
  "merge_leaf_info p par = Some (mn, mx, pv, nx) \<longleftrightarrow>
    p ! 0 = NODE_LEAF \<and> p ! 1 = 0 \<and> rd32 2 p = par \<and> detect_page p \<noteq> PAGE_FORMAT_UNKNOWN \<and> page_rows p \<noteq> [] \<and>
    mn = fst (hd (page_rows p)) \<and> mx = fst (last (page_rows p)) \<and> mn \<le> mx \<and> leaf_links p = (Some pv, Some nx) \<and>
    pv \<noteq> INVALID_PAGE_NUM \<and> nx \<noteq> INVALID_PAGE_NUM"
proof (cases "detect_page p = PAGE_FORMAT_UNKNOWN")
  case True
  then show ?thesis by (simp add: merge_leaf_info_def)
next
  case False
  then have len: "\<not> length p < PAGE_SIZE" by (auto simp: detect_page_def split: if_splits)
  have f: "(case detect_page p of PAGE_FORMAT_SLOTTED_V2 \<Rightarrow> slotted_validate p
               | PAGE_FORMAT_FIXED_V1 \<Rightarrow> page_is_fixed_v1 p | PAGE_FORMAT_UNKNOWN \<Rightarrow> False)"
    using False by (cases "detect_page p") (simp_all add: page_is_fixed_v1_def detect_v2 [symmetric])
  note A = page_access(1) [OF False]
  have li: "\<exists>a b. leaf_links p = (Some a, Some b)"
    using False by (cases rule: detect_cases) (simp_all add: page_links)
  then obtain a b where ab: "page_prev p = Some a" "page_next p = Some b" by (auto simp: leaf_links_def)
  show ?thesis
  proof (cases "page_rows p = []")
    case True
    then show ?thesis using A by (simp add: merge_leaf_info_def)
  next
    case ne: False
    note R = page_key_range_rows [OF False ne]
    show ?thesis using f len A R ab ne False by (auto simp: merge_leaf_info_def leaf_links_def leaf_header_offsets numeral_2_eq_2)
  qed
qed

section \<open>A child becomes the root\<close>

lemma node_body_cong:
  assumes s: "slice 6 4086 p = slice 6 4086 q" and n: "internal_node_num_keys q \<le> 509"
  shows "internal_node_num_keys p = internal_node_num_keys q" "node_seps p = node_seps q" "node_kids p = node_kids q"
proof -
  have r: "rd32 off p = rd32 off q" if "6 \<le> off" "off + 4 \<le> 4092" for off
    using slice_slice [of "off - 6" 4 4086 6 p] slice_slice [of "off - 6" 4 4086 6 q] s that by (simp add: rd32_def)
  show num: "internal_node_num_keys p = internal_node_num_keys q" unfolding num_keys_rd by (rule r) simp_all
  have "node_seps p = node_seps q \<and> node_kids p = node_kids q"
  proof (rule node_lists_eqI)
    fix j assume "j < length (node_seps q)"
    then have j: "j < internal_node_num_keys q" by simp
    then have e: "14 + j * 8 + 8 \<le> 4092" using n by simp
    have "internal_node_key p j = internal_node_key q j"
      unfolding stage_key_at_eq [symmetric] stage_key_at_def node_offsets by (rule r) (use e in simp_all)
    then show "internal_node_key p j = node_seps q ! j" using j by simp
    have "rd32 (14 + j * 8) p = rd32 (14 + j * 8) q" by (rule r) (use e in simp_all)
    then show "rd32 (14 + j * 8) p = node_kids q ! j" using child_at_cell [OF j] by simp
  next
    have "rd32 10 p = rd32 10 q" by (rule r) simp_all
    then show "rd32 10 p = node_kids q ! length (node_seps q)" using right_child_kid [of q] by simp
  qed (use num in simp_all)
  then show "node_seps p = node_seps q" "node_kids p = node_kids q" by simp_all
qed

lemma node_body_valid:
  assumes s: "slice 6 4086 p = slice 6 4086 q" "p ! 0 = q ! 0" "4096 \<le> length p" "4096 \<le> length q"
  shows "parent_stage_validate p = parent_stage_validate q"
proof -
  have "internal_node_num_keys p = internal_node_num_keys q"
    using slice_slice [of 0 4 4086 6 p] slice_slice [of 0 4 4086 6 q] s(1) by (simp add: num_keys_rd rd32_def)
  then show ?thesis
    unfolding parent_stage_validate_iff using node_body_cong [OF s(1)] s(2-4) by (cases "internal_node_num_keys q \<le> 509") auto
qed

lemma promoted_root_spec:
  assumes len: "4096 \<le> length T" "4096 \<le> length S" and q: "q = promoted_root T S"
  shows "length q = 4096" "q ! 0 = S ! 0" "q ! 1 = 1" "rd32 2 q = 0" "\<And>a n. 6 \<le> a \<Longrightarrow> a + n \<le> 4092 \<Longrightarrow> slice a n q = slice a n S"
proof -
  have l4: "length (slice 0 4092 S) = 4092" "length (slice 0 4096 T) = 4096" using len by simp_all
  define u where "u = (blit 0 (slice 0 4092 S) (slice 0 4096 T))[1 := 1]"
  have lb: "length (blit 0 (slice 0 4092 S) (slice 0 4096 T)) = 4096" using l4 by simp
  then have lu: "length u = 4096" by (simp add: u_def)
  then have o: "2 + 4 \<le> length u" by simp
  have q': "q = wr32 2 0 u" by (simp add: q promoted_root_def u_def numeral_2_eq_2 PAGE_SIZE_def)
  note W = wr32_any [OF o, where v = 0, folded q']
  show "length q = 4096" "rd32 2 q = 0" using W(1,2) lu by simp_all
  have "blit 0 (slice 0 4092 S) (slice 0 4096 T) ! 0 = S ! 0"
    using nth_blit [of 0 "slice 0 4092 S" "slice 0 4096 T" 0] l4 len by simp
  then show "q ! 0 = S ! 0" using W(4) [where j = 0] by (simp add: u_def)
  show "q ! 1 = 1" using W(4) [where j = 1] lb by (simp add: u_def)
  fix a n :: nat assume a: "6 \<le> a" "a + n \<le> 4092"
  have "slice a n q = slice a n u" by (rule W(3)) (use a in simp)
  also have "\<dots> = slice a n (blit 0 (slice 0 4092 S) (slice 0 4096 T))" unfolding u_def by (rule slice_update_other) (use a in simp)
  also have "\<dots> = slice (a - 0) n (slice 0 4092 S)" by (rule slice_blit_inside) (use a l4 in simp_all)
  also have "\<dots> = slice a n S" using slice_slice [of a n 4092 0 S] a by simp
  finally show "slice a n q = slice a n S" .
qed

lemma promoted_leaf:
  assumes v: "slotted_validate S" and len: "4096 \<le> length T" and q: "q = promoted_root T S"
  shows "slotted_validate q" "entries q = entries S" "rd32 18 q = rd32 18 S" "rd32 22 q = rd32 22 S"
proof -
  have lS: "4096 \<le> length S" using validD(1) [OF v] by (simp add: PAGE_SIZE_def)
  note Q = promoted_root_spec [OF len lS q]
  have l: "4096 \<le> length q" using Q(1) by simp
  show "slotted_validate q" "entries q = entries S" using leaf_cong [OF v l Q(2) Q(5) Q(5)] by simp_all
  show "rd32 18 q = rd32 18 S" "rd32 22 q = rd32 22 S" using Q(5) by (simp_all add: rd32_def)
qed

section \<open>The last leaf becomes the root\<close>

definition leaf_collapse_fits :: "bytes \<Rightarrow> nat \<Rightarrow> bytes \<Rightarrow> nat \<Rightarrow> nat \<Rightarrow> nat \<Rightarrow> bool" where
  "leaf_collapse_fits T t S s x removed_max \<longleftrightarrow>
     parent_stage_validate T \<and> T ! 1 \<noteq> 0 \<and> rd32 2 T = 0 \<and> slotted_validate S \<and> S ! 1 = 0 \<and> rd32 2 S = t \<and> rd32 22 S = 0 \<and> rd32 18 S = 0 \<and>
     entries S \<noteq> [] \<and> distinct [t, s, x] \<and> s \<notin> {0, INVALID_PAGE_NUM} \<and> x \<notin> {0, INVALID_PAGE_NUM} \<and>
     (node_kids T = [x, s] \<and> node_seps T = [removed_max] \<and> removed_max < fst (hd (entries S)) \<or>
      node_kids T = [s, x] \<and> node_seps T = [leaf_max S] \<and> leaf_max S < removed_max)"

lemma entries_range:
  assumes "slotted_validate S" "e \<in> set (entries S)"
  shows "fst (hd (entries S)) \<le> fst e" "fst e \<le> leaf_max S"
proof -
  have s: "sorted_wrt (<) (map fst (entries S))" using valid_entries(1) [OF assms(1)] by (simp add: entries_ok_def)
  obtain i where i: "i < length (entries S)" "e = entries S ! i" using assms(2) by (metis in_set_conv_nth)
  then have ne: "entries S \<noteq> []" by (metis list.size(3) not_less_zero)
  have le: "fst (entries S ! a) \<le> fst (entries S ! b)" if "a \<le> b" "b < length (entries S)" for a b
    using s that by (cases "a = b") (simp_all add: sorted_wrt_iff_nth_less less_imp_le)
  show "fst (hd (entries S)) \<le> fst e" using le [of 0 i] i ne by (simp add: hd_conv_nth)
  show "fst e \<le> leaf_max S" using le [of i "length (entries S) - 1"] i ne by (simp add: leaf_max_def last_conv_nth)
qed

lemma two_children:
  assumes "node_kids T = [a, b]" "node_seps T = [c]"
  shows "child_at T 0 = a" "child_at T 1 = b" "internal_node_key T 0 = c" "internal_node_num_keys T = 1"
proof -
  from arg_cong [OF assms(2), of length] show n: "internal_node_num_keys T = 1" by simp
  have "node_kids T ! 0 = a" "node_kids T ! 1 = b" "node_seps T ! 0 = c" by (simp_all only: assms nth_Cons_0 nth_Cons_Suc One_nat_def)
  then show "child_at T 0 = a" "child_at T 1 = b" "internal_node_key T 0 = c" using n by simp_all
qed

section \<open>An internal child becomes the root\<close>

lemma direct_childD:
  assumes "direct_child_valid c par"
  shows "4096 \<le> length c" "rd32 2 c = par" "parent_stage_validate c \<or> get_node_type c = NODE_LEAF \<and> detect_page c \<noteq> PAGE_FORMAT_UNKNOWN"
proof -
  show "4096 \<le> length c" "rd32 2 c = par" using assms by (simp_all add: direct_child_valid_def PAGE_SIZE_def numeral_2_eq_2)
  show "parent_stage_validate c \<or> get_node_type c = NODE_LEAF \<and> detect_page c \<noteq> PAGE_FORMAT_UNKNOWN"
    using assms unfolding direct_child_valid_def by (auto split: if_splits)
qed

text \<open>A child with another parent.\<close>

lemma adopted_child:
  assumes v: "direct_child_valid c s" and t: "t < 2 ^ 32" and q: "q = blit 0 (slice 0 4092 (wr32 2 t (slice 0 4096 c))) c"
  shows "rd32 2 q = t" "length q = length c" "get_node_type q = get_node_type c" "drop 4092 q = drop 4092 c"
    "parent_stage_validate c \<Longrightarrow> node_route q k = node_route c k"
    "get_node_type c = NODE_LEAF \<Longrightarrow> page_rows q = page_rows c \<and> leaf_links q = leaf_links c"
proof -
  note D = direct_childD [OF v]
  have ls: "length (slice 0 4096 c) = 4096" using D(1) by simp
  define u where "u = wr32 2 t (slice 0 4096 c)"
  have o: "2 + 4 \<le> length (slice 0 4096 c)" using ls by simp
  note W = wr32_any [OF o, where v = t, folded u_def]
  have lu: "length u = 4096" using W(1) ls by simp
  note P = published_spec [OF lu D(1), unfolded published_def, folded u_def, folded q [folded u_def]]
  show "length q = length c" "drop 4092 q = drop 4092 c" using P by simp_all
  have sq: "slice a n q = slice a n u" if "a + n \<le> 4092" for a n
    using slice_slice [of a n 4092 0 q] slice_slice [of a n 4092 0 u] P(2) that by simp
  have sc: "slice a n u = slice a n c" if "6 \<le> a" "a + n \<le> 4096" for a n
  proof -
    have "slice a n u = slice a n (slice 0 4096 c)" by (rule W(3)) (use that in simp)
    then show ?thesis using slice_slice [of a n 4096 0 c] that by simp
  qed
  show "rd32 2 q = t" using sq [of 2 4] W(2) t by (simp add: rd32_def)
  have lq: "4096 \<le> length q" using P(1) D(1) by simp
  have "q ! 0 = u ! 0" by (rule nth_usable [OF P(2)]) (use lq lu in simp_all)
  then have z: "q ! 0 = c ! 0" using W(4) [where j = 0] D(1) by simp
  then show "get_node_type q = get_node_type c" by (simp add: get_node_type_def)
  show "node_route q k = node_route c k" if "parent_stage_validate c"
  proof -
    have "slice 6 4086 q = slice 6 4086 c" using sq [of 6 4086] sc [of 6 4086] by simp
    from node_body_cong [OF this valid_nodeD(4) [OF that]] show ?thesis by (simp add: node_route_def)
  qed
  show "page_rows q = page_rows c \<and> leaf_links q = leaf_links c" if leaf: "get_node_type c = NODE_LEAF"
  proof -
    have "\<not> parent_stage_validate c" using leaf valid_nodeD(2) [of c] by (auto simp: get_node_type_def NODE_LEAF_def NODE_INTERNAL_def)
    with D(3) have d: "detect_page c \<noteq> PAGE_FORMAT_UNKNOWN" by blast
    note S = scratch_any_leaf [OF d]
    have "detect_page (slice 0 4096 c) \<noteq> PAGE_FORMAT_UNKNOWN" using d S(1) by simp
    note U = parent_write [OF this t u_def]
    have "detect_page u \<noteq> PAGE_FORMAT_UNKNOWN" using U(1) S(1) d by simp
    from published_leaf [OF this lu D(1) q [folded u_def]] U S show ?thesis by simp
  qed
qed

lemma promoted_node:
  assumes v: "parent_stage_validate S" and len: "4096 \<le> length T" and q: "q = promoted_root T S"
  shows "parent_stage_validate q" "node_seps q = node_seps S" "node_kids q = node_kids S" "internal_node_num_keys q = internal_node_num_keys S"
proof -
  note V = valid_nodeD [OF v]
  note Q = promoted_root_spec [OF len V(1) q]
  have s: "slice 6 4086 q = slice 6 4086 S" by (rule Q(5)) simp_all
  show "node_seps q = node_seps S" "node_kids q = node_kids S" "internal_node_num_keys q = internal_node_num_keys S"
    using node_body_cong [OF s V(4)] by simp_all
  have "4096 \<le> length q" using Q(1) by simp
  from node_body_valid [OF s Q(2) this V(1)] v show "parent_stage_validate q" by simp
qed

lemma descend_routes:
  assumes "\<And>x. x \<in> set (tree_pages P h n) \<Longrightarrow> node_route (P' x) k = node_route (P x) k"
  shows "descend P' k h n = descend P k h n"
  using assms
proof (induction h arbitrary: n)
  case (Suc h)
  have "node_route (P' n) k = node_route (P n) k" by (rule Suc.prems) simp
  moreover have "descend P' k h (node_route (P n) k) = descend P k h (node_route (P n) k)"
    by (rule Suc.IH, rule Suc.prems) (use node_route_kid [of "P n" k] in auto)
  ultimately show ?case by simp
qed simp

lemma collapse_to_internal_Some:
  assumes ok: "collapse_to_internal T t S s surviving_max x removed_max children nums = Some (T', children', p)"
  obtains q staged where "q = promoted_root T S" "staged = map (\<lambda>page. wr32 2 t (slice 0 4096 page)) children"
    "parent_stage_validate T" "parent_stage_validate S" "length children = internal_node_num_keys S + 1"
    "list_all (collapse_child_ok S t s x children nums) [0..<length children]"
    "T' = blit 0 (slice 0 4092 q) T" "children' = map2 (\<lambda>scratch page. blit 0 (slice 0 4092 scratch) page) staged children" "p = s"
  using ok unfolding collapse_to_internal_def Let_def
proof (elim guardE)
  assume "(if parent_stage_validate (promoted_root T S) \<and> promoted_root T S ! IS_ROOT_OFFSET \<noteq> 0 \<and> rd32 PARENT_POINTER_OFFSET (promoted_root T S) = 0 \<and>
        rd32 INTERNAL_NODE_NUM_KEYS_OFFSET (promoted_root T S) = rd32 INTERNAL_NODE_NUM_KEYS_OFFSET S \<and>
        list_all (\<lambda>i. direct_child_valid (map (\<lambda>page. wr32 PARENT_POINTER_OFFSET t (slice 0 PAGE_SIZE page)) children ! i) t \<and>
          stage_child_at (promoted_root T S) i = nums ! i) [0..<length children]
      then Some (blit 0 (slice 0 PAGE_USABLE_SIZE (promoted_root T S)) T,
        map2 (\<lambda>scratch page. blit 0 (slice 0 PAGE_USABLE_SIZE scratch) page)
          (map (\<lambda>page. wr32 PARENT_POINTER_OFFSET t (slice 0 PAGE_SIZE page)) children) children, s)
      else None) = Some (T', children', p)"
  then have r: "T' = blit 0 (slice 0 4092 (promoted_root T S)) T" "p = s"
    "children' = map2 (\<lambda>scratch page. blit 0 (slice 0 4092 scratch) page) (map (\<lambda>page. wr32 2 t (slice 0 4096 page)) children) children"
    by (simp_all add: numeral_2_eq_2 PAGE_SIZE_def split: if_split_asm)
  assume "\<not> (\<not> parent_stage_validate T \<or> T ! IS_ROOT_OFFSET = 0 \<or> rd32 PARENT_POINTER_OFFSET T \<noteq> 0 \<or>
         rd32 INTERNAL_NODE_NUM_KEYS_OFFSET T \<noteq> 1 \<or> \<not> parent_stage_validate S \<or>
         S ! IS_ROOT_OFFSET \<noteq> 0 \<or> rd32 PARENT_POINTER_OFFSET S \<noteq> t)"
    "\<not> (rd32 INTERNAL_NODE_NUM_KEYS_OFFSET S = 0 \<or> rd32 INTERNAL_NODE_NUM_KEYS_OFFSET S > INTERNAL_NODE_MAX_KEYS \<or>
       length children \<noteq> rd32 INTERNAL_NODE_NUM_KEYS_OFFSET S + 1 \<or> children = [] \<or> length children > INTERNAL_NODE_MAX_KEYS + 1)"
    "\<not> \<not> list_all (collapse_child_ok S t s x children nums) [0..<length children]"
  then show thesis using that [OF refl refl _ _ _ _ r(1,3,2)] by (simp only: num_keys_rd) simp
qed

end
