(* ===== verification/TreeMerge.thy ===== *)
theory TreeMerge
  imports TreeShrink
begin

text \<open>
  Stages that merge two nodes of two leaves, after \<open>src/internal_root_merge_stage.h\<close> and
  \<open>src/internal_nonroot_merge_stage.h\<close>: their definitions, what their checks ensure, and where lookups go afterwards.
\<close>

section \<open>Two nodes of two leaves become one of three\<close>

text \<open>The links around the removed leaf, between the two survivors at \<open>i\<close> and \<open>i + 1\<close>, on scratch copies.\<close>

definition relink_around :: "bytes list \<Rightarrow> nat list \<Rightarrow> nat \<Rightarrow> nat \<Rightarrow> bytes list option" where
  "relink_around leaves nums removed_num i =
     (case stage_leaf_sibling_relink (leaves ! i) True removed_num (nums ! (i + 1)) of None \<Rightarrow> None
      | Some left_leaf \<Rightarrow>
          (case stage_leaf_sibling_relink (leaves ! (i + 1)) False removed_num (nums ! i) of None \<Rightarrow> None
           | Some right_leaf \<Rightarrow> Some (leaves[i := left_leaf, i + 1 := right_leaf])))"

text \<open>The arrays of the smallest and greatest keys and of the links of the three leaves that stay.\<close>

definition merge_infos :: "bytes list \<Rightarrow> nat list \<Rightarrow> (nat \<times> nat \<times> nat \<times> nat) list option" where
  "merge_infos leaves parents = those (map (\<lambda>i. merge_leaf_info (leaves ! i) (parents ! i)) [0, 1, 2])"

definition root_merge_chain_ok :: "bool \<Rightarrow> nat \<Rightarrow> nat \<Rightarrow> nat \<Rightarrow> nat list \<Rightarrow> nat \<Rightarrow> nat \<Rightarrow> (nat \<times> nat \<times> nat \<times> nat) list \<Rightarrow> nat \<times> nat \<Rightarrow> bool" where
  "root_merge_chain_ok from_left right_separator root_separator removed_key nums removed_num left_separator infos removed_links =
     (let min_key = map fst infos; max_key = map (fst \<circ> snd) infos; prv = map (fst \<circ> snd \<circ> snd) infos; nxt = map (snd \<circ> snd \<circ> snd) infos
      in if left_separator \<noteq> max_key ! 0 then False
         else if from_left then
           \<not> (right_separator \<noteq> max_key ! 1 \<or> root_separator \<noteq> removed_key \<or> prv ! 0 \<noteq> 0 \<or> nxt ! 0 \<noteq> removed_num \<or>
              fst removed_links \<noteq> nums ! 0 \<or> snd removed_links \<noteq> nums ! 1 \<or> prv ! 1 \<noteq> removed_num \<or> nxt ! 1 \<noteq> nums ! 2 \<or>
              prv ! 2 \<noteq> nums ! 1 \<or> nxt ! 2 \<noteq> 0 \<or> max_key ! 0 \<ge> removed_key \<or> removed_key \<ge> min_key ! 1)
         else
           \<not> (right_separator \<noteq> removed_key \<or> root_separator \<noteq> max_key ! 1 \<or> prv ! 0 \<noteq> 0 \<or> nxt ! 0 \<noteq> nums ! 1 \<or>
              prv ! 1 \<noteq> nums ! 0 \<or> nxt ! 1 \<noteq> removed_num \<or> fst removed_links \<noteq> nums ! 1 \<or> snd removed_links \<noteq> nums ! 2 \<or>
              prv ! 2 \<noteq> removed_num \<or> nxt ! 2 \<noteq> 0 \<or> max_key ! 1 \<ge> removed_key \<or> removed_key \<ge> min_key ! 2))"

definition stage_root_merge :: "bytes \<Rightarrow> nat \<Rightarrow> bytes \<Rightarrow> nat \<Rightarrow> bytes \<Rightarrow> nat \<Rightarrow> bytes \<Rightarrow> nat \<Rightarrow> nat \<Rightarrow> bytes list \<Rightarrow> nat list \<Rightarrow> (bytes \<times> bytes list) option" where
  "stage_root_merge root_page root_num left_page left_num right_page right_num removed removed_num removed_key leaves nums =
     (if length root_page < PAGE_SIZE \<or> length left_page < PAGE_SIZE \<or> length right_page < PAGE_SIZE \<or> length removed < PAGE_SIZE \<or>
         root_num = INVALID_PAGE_NUM \<or> left_num = 0 \<or> left_num = INVALID_PAGE_NUM \<or> right_num = 0 \<or> right_num = INVALID_PAGE_NUM \<or>
         left_num = right_num \<or> left_num = root_num \<or> right_num = root_num \<or> removed_num = 0 \<or> removed_num = INVALID_PAGE_NUM \<or>
         removed_num = root_num \<or> removed_num = left_num \<or> removed_num = right_num then None
      else if \<not> parent_stage_validate root_page \<or> root_page ! IS_ROOT_OFFSET = 0 \<or> rd32 PARENT_POINTER_OFFSET root_page \<noteq> 0 \<or>
         rd32 INTERNAL_NODE_NUM_KEYS_OFFSET root_page \<noteq> 1 \<or> stage_child_at root_page 0 \<noteq> left_num \<or> stage_child_at root_page 1 \<noteq> right_num \<or>
         \<not> parent_stage_validate left_page \<or> left_page ! IS_ROOT_OFFSET \<noteq> 0 \<or> rd32 PARENT_POINTER_OFFSET left_page \<noteq> root_num \<or>
         rd32 INTERNAL_NODE_NUM_KEYS_OFFSET left_page \<noteq> 1 \<or>
         \<not> parent_stage_validate right_page \<or> right_page ! IS_ROOT_OFFSET \<noteq> 0 \<or> rd32 PARENT_POINTER_OFFSET right_page \<noteq> root_num \<or>
         rd32 INTERNAL_NODE_NUM_KEYS_OFFSET right_page \<noteq> 1 then None
      else
        let left0 = stage_child_at left_page 0; left1 = stage_child_at left_page 1;
            right0 = stage_child_at right_page 0; right1 = stage_child_at right_page 1
        in if left0 = 0 \<or> left1 = 0 \<or> right0 = 0 \<or> right1 = 0 \<or> left0 = INVALID_PAGE_NUM \<or> left1 = INVALID_PAGE_NUM \<or>
              right0 = INVALID_PAGE_NUM \<or> right1 = INVALID_PAGE_NUM \<or> left0 = left1 \<or> left0 = right0 \<or> left0 = right1 \<or>
              left1 = right0 \<or> left1 = right1 \<or> right0 = right1 then None
           else
             let from_left = (left1 = removed_num); from_right = (right0 = removed_num)
             in if from_left = from_right \<or> left0 = removed_num \<or> right1 = removed_num then None
                else
                  let expected = (if from_left then [left0, right0, right1] else [left0, left1, right1]);
                      parents = (if from_left then [left_num, right_num, right_num] else [left_num, left_num, right_num])
                  in if list_ex (\<lambda>i. nums ! i \<noteq> expected ! i \<or> nums ! i = root_num \<or> nums ! i = left_num \<or> nums ! i = right_num \<or>
                         nums ! i = removed_num \<or> list_ex (\<lambda>j. nums ! i = nums ! j) [0..<i]) [0, 1, 2] then None
                     else case merge_infos leaves parents of None \<Rightarrow> None
                       | Some infos \<Rightarrow>
                           if list_ex (\<lambda>i. fst (snd (infos ! i)) \<ge> fst (infos ! (i + 1))) [0, 1] then None
                           else if detect_page removed \<noteq> PAGE_FORMAT_SLOTTED_V2 \<or> \<not> slotted_validate removed then None
                           else case merge_leaf_info removed (if from_left then left_num else right_num) of None \<Rightarrow> None
                             | Some (removed_min, removed_max, removed_links) \<Rightarrow>
                                 if removed_min \<noteq> removed_key \<or> removed_max \<noteq> removed_key then None
                                 else if \<not> root_merge_chain_ok from_left (stage_key_at right_page 0) (stage_key_at root_page 0) removed_key nums
                                       removed_num (stage_key_at left_page 0) infos removed_links then None
                                 else case relink_around (map (slice 0 PAGE_SIZE) leaves) nums removed_num (if from_left then 0 else 1) of
                                     None \<Rightarrow> None
                                   | Some chained \<Rightarrow>
                                       let staged = map (wr32 PARENT_POINTER_OFFSET root_num) chained;
                                           max_key = map (fst \<circ> snd) infos; min_key = map fst infos;
                                           root_scratch = node_bytes 1 0 nums (take 2 max_key) (slice 0 PAGE_SIZE root_page)
                                       in if \<not> parent_stage_validate root_scratch \<or> root_scratch ! IS_ROOT_OFFSET = 0 \<or>
                                             rd32 PARENT_POINTER_OFFSET root_scratch \<noteq> 0 then None
                                          else if merge_infos staged [root_num, root_num, root_num] \<noteq>
                                             Some [(min_key ! 0, max_key ! 0, 0, nums ! 1), (min_key ! 1, max_key ! 1, nums ! 0, nums ! 2),
                                                   (min_key ! 2, max_key ! 2, nums ! 1, 0)] then None
                                          else Some (blit 0 (slice 0 PAGE_USABLE_SIZE root_scratch) root_page,
                                            map2 (\<lambda>scratch page. blit 0 (slice 0 PAGE_USABLE_SIZE scratch) page) staged leaves))"

section \<open>A merge below a node that is not the root\<close>

definition build_three_child :: "bytes \<Rightarrow> nat \<Rightarrow> nat list \<Rightarrow> nat list \<Rightarrow> bytes option" where
  "build_three_child page ancestor_num children maxes =
     (if ancestor_num = INVALID_PAGE_NUM \<or> children ! 0 = 0 \<or> children ! 1 = 0 \<or> children ! 2 = 0 \<or>
         children ! 0 = INVALID_PAGE_NUM \<or> children ! 1 = INVALID_PAGE_NUM \<or> children ! 2 = INVALID_PAGE_NUM \<or>
         children ! 0 = children ! 1 \<or> children ! 0 = children ! 2 \<or> children ! 1 = children ! 2 \<or>
         maxes ! 0 \<ge> maxes ! 1 \<or> maxes ! 1 \<ge> maxes ! 2 then None
      else
        let page' = node_bytes 0 ancestor_num children (take 2 maxes) page
        in if parent_stage_validate page' then Some page' else None)"

text \<open>The loop that looks for the target and its sibling among the children of the ancestor.\<close>

fun locate_two :: "bytes \<Rightarrow> nat \<Rightarrow> nat \<Rightarrow> nat \<Rightarrow> nat list \<Rightarrow> nat \<times> nat \<Rightarrow> (nat \<times> nat) option" where
  "locate_two page target sibling unset [] (t, s) = Some (t, s)"
| "locate_two page target sibling unset (i # is) (t, s) =
     (let child = stage_child_at page i
      in if child = target \<and> t \<noteq> unset then None
         else let t = (if child = target then i else t)
              in if child = sibling \<and> s \<noteq> unset then None
                 else locate_two page target sibling unset is (t, if child = sibling then i else s))"

text \<open>The loop that looks for the kept child among the children of the new ancestor.\<close>

fun kept_found :: "bytes \<Rightarrow> nat \<Rightarrow> nat \<Rightarrow> nat \<Rightarrow> nat list \<Rightarrow> bool \<Rightarrow> bool option" where
  "kept_found page kept new_key_count max_key [] seen = Some seen"
| "kept_found page kept new_key_count max_key (i # is) seen =
     (if stage_child_at page i = kept then
        (if seen then None
         else if i < new_key_count \<and> stage_key_at page i \<noteq> max_key then None
         else kept_found page kept new_key_count max_key is True)
      else kept_found page kept new_key_count max_key is seen)"

definition nonroot_merge_chain_ok :: "bool \<Rightarrow> bytes \<Rightarrow> bytes \<Rightarrow> bytes \<Rightarrow> nat \<Rightarrow> nat \<Rightarrow> nat list \<Rightarrow> nat \<Rightarrow> nat \<Rightarrow> nat \<Rightarrow> (nat \<times> nat \<times> nat \<times> nat) list \<Rightarrow> nat \<times> nat \<Rightarrow> bool" where
  "nonroot_merge_chain_ok rightmost ancestor target sibling target_index sibling_index nums removed_num removed_key obsolete_max infos removed_links =
     (let min_keys = map fst infos; max_keys = map (fst \<circ> snd) infos; prevs = map (fst \<circ> snd \<circ> snd) infos; nexts = map (snd \<circ> snd \<circ> snd) infos;
          ancestor_key_count = rd32 INTERNAL_NODE_NUM_KEYS_OFFSET ancestor
      in if rightmost then
           \<not> (max_keys ! 0 \<noteq> stage_key_at target 0 \<or> max_keys ! 1 \<noteq> stage_key_at sibling 0 \<or> fst removed_links \<noteq> nums ! 0 \<or>
              snd removed_links \<noteq> nums ! 1 \<or> nexts ! 0 \<noteq> removed_num \<or> prevs ! 1 \<noteq> removed_num \<or> nexts ! 1 \<noteq> nums ! 2 \<or>
              prevs ! 2 \<noteq> nums ! 1 \<or> max_keys ! 0 \<ge> removed_key \<or> removed_key \<ge> min_keys ! 1) \<and>
           \<not> (sibling_index < ancestor_key_count \<and> stage_key_at ancestor sibling_index \<noteq> max_keys ! 2)
         else
           \<not> (max_keys ! 0 \<noteq> stage_key_at sibling 0 \<or> max_keys ! 1 \<noteq> obsolete_max \<or> fst removed_links \<noteq> nums ! 1 \<or>
              snd removed_links \<noteq> nums ! 2 \<or> nexts ! 0 \<noteq> nums ! 1 \<or> prevs ! 1 \<noteq> nums ! 0 \<or> nexts ! 1 \<noteq> removed_num \<or>
              prevs ! 2 \<noteq> removed_num \<or> max_keys ! 1 \<ge> removed_key \<or> removed_key \<ge> min_keys ! 2) \<and>
           \<not> (target_index < ancestor_key_count \<and> stage_key_at ancestor target_index \<noteq> max_keys ! 2))"

text \<open>The result has the pages of the ancestor, of the kept parent (first component of the pair of page numbers) and
  of the leaves.\<close>

definition stage_nonroot_merge :: "bytes \<Rightarrow> nat \<Rightarrow> bytes \<Rightarrow> nat \<Rightarrow> bytes \<Rightarrow> nat \<Rightarrow> bytes \<Rightarrow> nat \<Rightarrow> nat \<Rightarrow> bytes list \<Rightarrow> nat list \<Rightarrow>
    (bytes \<times> bytes \<times> bytes list \<times> nat \<times> nat) option" where
  "stage_nonroot_merge ancestor ancestor_num target target_num sibling sibling_num removed removed_num removed_key leaves nums =
     (if length ancestor < PAGE_SIZE \<or> length target < PAGE_SIZE \<or> length sibling < PAGE_SIZE \<or> length removed < PAGE_SIZE \<or>
         ancestor_num = 0 \<or> ancestor_num = INVALID_PAGE_NUM \<or> target_num = 0 \<or> target_num = INVALID_PAGE_NUM \<or>
         sibling_num = 0 \<or> sibling_num = INVALID_PAGE_NUM \<or> removed_num = 0 \<or> removed_num = INVALID_PAGE_NUM \<or>
         target_num = sibling_num \<or> ancestor_num = target_num \<or> ancestor_num = sibling_num \<or> ancestor_num = removed_num \<or>
         target_num = removed_num \<or> sibling_num = removed_num then None
      else if \<not> parent_stage_validate ancestor \<or> ancestor ! IS_ROOT_OFFSET \<noteq> 0 \<or>
         \<not> parent_stage_validate target \<or> target ! IS_ROOT_OFFSET \<noteq> 0 \<or> rd32 PARENT_POINTER_OFFSET target \<noteq> ancestor_num \<or>
         rd32 INTERNAL_NODE_NUM_KEYS_OFFSET target \<noteq> 1 \<or>
         \<not> parent_stage_validate sibling \<or> sibling ! IS_ROOT_OFFSET \<noteq> 0 \<or> rd32 PARENT_POINTER_OFFSET sibling \<noteq> ancestor_num \<or>
         rd32 INTERNAL_NODE_NUM_KEYS_OFFSET sibling \<noteq> 1 \<or>
         detect_page removed \<noteq> PAGE_FORMAT_SLOTTED_V2 \<or> \<not> slotted_validate removed then None
      else
        let ancestor_key_count = rd32 INTERNAL_NODE_NUM_KEYS_OFFSET ancestor
        in if ancestor_key_count < 2 \<or> ancestor_key_count > INTERNAL_NODE_MAX_KEYS then None
           else case locate_two ancestor target_num sibling_num (ancestor_key_count + 1) [0..<ancestor_key_count + 1]
                       (ancestor_key_count + 1, ancestor_key_count + 1) of None \<Rightarrow> None
             | Some (target_index, sibling_index) \<Rightarrow>
                 if target_index > ancestor_key_count \<or> sibling_index > ancestor_key_count then None
                 else
                   let target_left = stage_child_at target 0; target_right = stage_child_at target 1;
                       rightmost = (target_right = removed_num); leftmost = (target_left = removed_num)
                   in if rightmost = leftmost then None
                      else if rightmost \<and>
                         (sibling_index \<noteq> target_index + 1 \<or> target_index \<ge> ancestor_key_count \<or>
                          stage_key_at ancestor target_index \<noteq> removed_key \<or> stage_key_at target 0 \<ge> removed_key) then None
                      else if \<not> rightmost \<and>
                         (target_index = 0 \<or> sibling_index + 1 \<noteq> target_index \<or> stage_key_at target 0 \<noteq> removed_key) then None
                      else
                        let kept = (if rightmost then sibling_num else target_num);
                            obsolete = (if rightmost then target_num else sibling_num);
                            obsolete_max = (if rightmost then removed_key else stage_key_at ancestor sibling_index);
                            survivors = (if rightmost then [target_left, stage_child_at sibling 0, stage_child_at sibling 1]
                                         else [stage_child_at sibling 0, stage_child_at sibling 1, target_right]);
                            parents = (if rightmost then [target_num, sibling_num, sibling_num] else [sibling_num, sibling_num, target_num])
                        in if list_ex (\<lambda>i. nums ! i \<noteq> survivors ! i \<or> survivors ! i = 0 \<or> survivors ! i = INVALID_PAGE_NUM \<or>
                                survivors ! i = ancestor_num \<or> survivors ! i = target_num \<or> survivors ! i = sibling_num \<or>
                                survivors ! i = removed_num \<or> list_ex (\<lambda>j. survivors ! i = survivors ! j) [0..<i]) [0, 1, 2] then None
                           else case merge_infos leaves parents of None \<Rightarrow> None
                             | Some infos \<Rightarrow>
                                 if list_ex (\<lambda>i. fst (snd (infos ! i)) \<ge> fst (infos ! (i + 1))) [0, 1] then None
                                 else case merge_leaf_info removed target_num of None \<Rightarrow> None
                                   | Some (removed_min, removed_max, removed_links) \<Rightarrow>
                                       if removed_min \<noteq> removed_key \<or> removed_max \<noteq> removed_key then None
                                       else if \<not> nonroot_merge_chain_ok rightmost ancestor target sibling target_index sibling_index survivors
                                             removed_num removed_key obsolete_max infos removed_links then None
                                       else case relink_around (map (slice 0 PAGE_SIZE) leaves) survivors removed_num (if rightmost then 0 else 1) of
                                           None \<Rightarrow> None
                                         | Some chained \<Rightarrow>
                                             let staged = map (wr32 PARENT_POINTER_OFFSET kept) chained; min_keys = map fst infos;
                                                 max_keys = map (fst \<circ> snd) infos
                                             in case build_three_child (replicate PAGE_SIZE 0) ancestor_num survivors max_keys of None \<Rightarrow> None
                                                | Some kept_scratch \<Rightarrow>
                                                    (case stage_child_remove (slice 0 PAGE_SIZE ancestor) obsolete obsolete_max of None \<Rightarrow> None
                                                     | Some (ancestor_scratch, removed_index, new_max) \<Rightarrow>
                                                         if new_max \<noteq> None \<or> removed_index \<noteq> (if rightmost then target_index else sibling_index) then None
                                                         else
                                                           let new_key_count = rd32 INTERNAL_NODE_NUM_KEYS_OFFSET ancestor_scratch
                                                           in if kept_found ancestor_scratch kept new_key_count (max_keys ! 2) [0..<new_key_count + 1] False \<noteq> Some True \<or>
                                                                 \<not> parent_stage_validate ancestor_scratch \<or> ancestor_scratch ! IS_ROOT_OFFSET \<noteq> ancestor ! IS_ROOT_OFFSET \<or>
                                                                 rd32 PARENT_POINTER_OFFSET ancestor_scratch \<noteq> rd32 PARENT_POINTER_OFFSET ancestor then None
                                                              else if (case merge_infos staged [kept, kept, kept] of None \<Rightarrow> True
                                                                  | Some checked \<Rightarrow> map fst checked \<noteq> min_keys \<or> map (fst \<circ> snd) checked \<noteq> max_keys \<or>
                                                                      fst (snd (snd (checked ! 1))) \<noteq> survivors ! 0 \<or> fst (snd (snd (checked ! 2))) \<noteq> survivors ! 1 \<or>
                                                                      snd (snd (snd (checked ! 0))) \<noteq> survivors ! 1 \<or> snd (snd (snd (checked ! 1))) \<noteq> survivors ! 2) then None
                                                              else Some (blit 0 (slice 0 PAGE_USABLE_SIZE ancestor_scratch) ancestor,
                                                                blit 0 (slice 0 PAGE_USABLE_SIZE kept_scratch) (if rightmost then sibling else target),
                                                                map2 (\<lambda>scratch page. blit 0 (slice 0 PAGE_USABLE_SIZE scratch) page) staged leaves, kept, obsolete)))"

section \<open>The leaves of a merge\<close>

lemma case_prodE3: "(case z of (a, b, c) \<Rightarrow> f a b c) = Some y \<Longrightarrow> (\<And>a b c. z = (a, b, c) \<Longrightarrow> f a b c = Some y \<Longrightarrow> R) \<Longrightarrow> R"
  by (cases z) simp

lemma merge_infosD:
  assumes "merge_infos leaves parents = Some infos"
  shows "length infos = 3" "i < 3 \<Longrightarrow> merge_leaf_info (leaves ! i) (parents ! i) = Some (infos ! i)"
proof -
  from assms obtain u v w where e: "merge_leaf_info (leaves ! 0) (parents ! 0) = Some u" "merge_leaf_info (leaves ! 1) (parents ! 1) = Some v"
    "merge_leaf_info (leaves ! 2) (parents ! 2) = Some w" "infos = [u, v, w]"
    by (auto simp: merge_infos_def split: option.splits)
  show "length infos = 3" by (simp add: e(4))
  show "merge_leaf_info (leaves ! i) (parents ! i) = Some (infos ! i)" if i: "i < 3"
  proof -
    have "i = 0 \<or> i = 1 \<or> i = 2" using i by auto
    then show ?thesis using e by (elim disjE) simp_all
  qed
qed

lemma merge_leaf_infoD:
  assumes "merge_leaf_info p par = Some u"
  shows "detect_page p \<noteq> PAGE_FORMAT_UNKNOWN" "page_rows p \<noteq> []" "fst u = fst (hd (page_rows p))" "fst (snd u) = fst (last (page_rows p))"
    "fst u \<le> fst (snd u)" "leaf_links p = (Some (fst (snd (snd u))), Some (snd (snd (snd u))))" "rd32 2 p = par" "p ! 1 = 0"
  using assms by (cases u; simp add: merge_leaf_info_iff)+

text \<open>The links after the chain goes past the removed leaf.\<close>

definition chain_links :: "bytes list \<Rightarrow> nat list \<Rightarrow> nat \<Rightarrow> nat \<Rightarrow> nat option \<times> nat option" where
  "chain_links leaves nums j i = (if i = j + 1 then Some (nums ! j) else fst (leaf_links (leaves ! i)),
     if i = j then Some (nums ! (j + 1)) else snd (leaf_links (leaves ! i)))"

lemma chained_leaves:
  assumes inf: "merge_infos leaves parents = Some infos" and len: "length leaves = 3"
    and rl: "relink_around (map (slice 0 4096) leaves) nums x j = Some chained" "j \<le> 1"
    and b: "nums ! j < 2 ^ 32" "nums ! (j + 1) < 2 ^ 32"
  shows "length chained = 3" "i < 3 \<Longrightarrow> detect_page (chained ! i) = detect_page (leaves ! i) \<and> page_rows (chained ! i) = page_rows (leaves ! i) \<and>
    length (chained ! i) = 4096 \<and> leaf_links (chained ! i) = chain_links leaves nums j i \<and> chained ! i ! 1 = 0"
proof -
  from rl(1) obtain lf rf where rel: "stage_leaf_sibling_relink (map (slice 0 4096) leaves ! j) True x (nums ! (j + 1)) = Some lf"
    "stage_leaf_sibling_relink (map (slice 0 4096) leaves ! (j + 1)) False x (nums ! j) = Some rf"
    and ch: "chained = (map (slice 0 4096) leaves)[j := lf, j + 1 := rf]"
    unfolding relink_around_def by (elim case_optionE) simp
  note RL = relink_Some [OF rel(1) b(2)] and RR = relink_Some [OF rel(2) b(1)]
  show "length chained = 3" using ch len by simp
  assume i: "i < 3"
  note I = merge_leaf_infoD [OF merge_infosD(2) [OF inf i]]
  note S = scratch_any_leaf [OF I(1)]
  have mi: "map (slice 0 4096) leaves ! i = slice 0 4096 (leaves ! i)" using i len by simp
  consider "i = j" | "i = j + 1" | "i \<noteq> j" "i \<noteq> j + 1" by blast
  then show "detect_page (chained ! i) = detect_page (leaves ! i) \<and> page_rows (chained ! i) = page_rows (leaves ! i) \<and>
    length (chained ! i) = 4096 \<and> leaf_links (chained ! i) = chain_links leaves nums j i \<and> chained ! i ! 1 = 0"
  proof cases
    case 1
    then have "chained ! i = lf" using ch i len by simp
    then show ?thesis using RL(2,3,4,6,7) mi S I(8) 1 by (simp add: leaf_links_def chain_links_def)
  next
    case 2
    then have "chained ! i = rf" using ch i len by simp
    then show ?thesis using RR(2,3,4,6,7) mi S I(8) 2 by (simp add: leaf_links_def chain_links_def)
  next
    case 3
    then have "chained ! i = slice 0 4096 (leaves ! i)" using ch mi by simp
    then show ?thesis using S I(8) 3 by (simp add: chain_links_def)
  qed
qed

lemma staged_leaves:
  assumes inf: "merge_infos leaves parents = Some infos" and len: "length leaves = 3"
    and rl: "relink_around (map (slice 0 4096) leaves) nums x j = Some chained" "j \<le> 1"
    and b: "nums ! j < 2 ^ 32" "nums ! (j + 1) < 2 ^ 32" "par < 2 ^ 32"
    and st: "staged = map (wr32 2 par) chained"
    and L: "leaves' = map2 (\<lambda>scratch page. blit 0 (slice 0 4092 scratch) page) staged leaves"
  shows "length leaves' = 3" "i < 3 \<Longrightarrow> page_rows (leaves' ! i) = page_rows (leaves ! i) \<and> rd32 2 (leaves' ! i) = par \<and>
      leaf_links (leaves' ! i) = chain_links leaves nums j i \<and> drop 4092 (leaves' ! i) = drop 4092 (leaves ! i)"
    "i < 3 \<Longrightarrow> page_rows (staged ! i) = page_rows (leaves ! i) \<and> rd32 2 (staged ! i) = par \<and>
      leaf_links (staged ! i) = chain_links leaves nums j i \<and> detect_page (staged ! i) = detect_page (leaves ! i) \<and> staged ! i ! 1 = 0"
proof -
  note C = chained_leaves [OF inf len rl b(1,2)]
  show "length leaves' = 3" using L st len C(1) by simp
  assume i: "i < 3"
  note I = merge_leaf_infoD [OF merge_infosD(2) [OF inf i]]
  have dc: "detect_page (chained ! i) \<noteq> PAGE_FORMAT_UNKNOWN" using C(2) [OF i] I(1) by simp
  have si: "staged ! i = wr32 2 par (chained ! i)" using st C(1) i by simp
  note W = parent_write [OF dc b(3) si]
  show "page_rows (staged ! i) = page_rows (leaves ! i) \<and> rd32 2 (staged ! i) = par \<and>
      leaf_links (staged ! i) = chain_links leaves nums j i \<and> detect_page (staged ! i) = detect_page (leaves ! i) \<and> staged ! i ! 1 = 0"
    using W C(2) [OF i] by simp
  have ds: "detect_page (staged ! i) \<noteq> PAGE_FORMAT_UNKNOWN" and ls: "length (staged ! i) = 4096" using W C(2) [OF i] dc by simp_all
  have ll: "4096 \<le> length (leaves ! i)" using I(1) by (auto simp: detect_page_def PAGE_SIZE_def split: if_splits)
  have li: "leaves' ! i = blit 0 (slice 0 4092 (staged ! i)) (leaves ! i)" using L st C(1) len i by simp
  show "page_rows (leaves' ! i) = page_rows (leaves ! i) \<and> rd32 2 (leaves' ! i) = par \<and>
      leaf_links (leaves' ! i) = chain_links leaves nums j i \<and> drop 4092 (leaves' ! i) = drop 4092 (leaves ! i)"
    using published_leaf [OF ds ls ll li] W C(2) [OF i] by simp
qed

text \<open>The check of the three staged leaves reads back the keys and the new links.\<close>

lemma staged_infos:
  assumes inf: "merge_infos leaves parents = Some infos" and len: "length leaves = 3"
    and rl: "relink_around (map (slice 0 4096) leaves) nums x j = Some chained" "j \<le> 1"
    and b: "nums ! j < 2 ^ 32" "nums ! (j + 1) < 2 ^ 32" "par < 2 ^ 32" "nums ! j \<noteq> INVALID_PAGE_NUM" "nums ! (j + 1) \<noteq> INVALID_PAGE_NUM"
  shows "merge_infos (map (wr32 2 par) chained) [par, par, par] =
    Some (map (\<lambda>i. (fst (infos ! i), fst (snd (infos ! i)), the (fst (chain_links leaves nums j i)), the (snd (chain_links leaves nums j i)))) [0, 1, 2])"
proof -
  let ?l = "chain_links leaves nums j"
  have one: "merge_leaf_info (map (wr32 2 par) chained ! i) ([par, par, par] ! i) =
      Some (fst (infos ! i), fst (snd (infos ! i)), the (fst (?l i)), the (snd (?l i)))" if i: "i < 3" for i
  proof -
    note S = staged_leaves(3) [OF inf len rl b(1-3) refl refl i]
    note D = merge_infosD(2) [OF inf i]
    note I = merge_leaf_infoD [OF D]
    obtain mn mx pv nx where u: "infos ! i = (mn, mx, pv, nx)" by (cases "infos ! i")
    then have nx: "pv \<noteq> INVALID_PAGE_NUM" "nx \<noteq> INVALID_PAGE_NUM" using D by (simp_all add: merge_leaf_info_iff)
    have z: "(map (wr32 2 par) chained ! i) ! 0 = NODE_LEAF"
    proof -
      have "detect_page (map (wr32 2 par) chained ! i) \<noteq> PAGE_FORMAT_UNKNOWN" using S I(1) by simp
      then show ?thesis by (auto simp: detect_page_def get_node_type_def leaf_header_offsets split: if_splits)
    qed
    have l: "?l i = (Some (the (fst (?l i))), Some (the (snd (?l i))))" "the (fst (?l i)) \<noteq> INVALID_PAGE_NUM" "the (snd (?l i)) \<noteq> INVALID_PAGE_NUM"
      using I(6) u nx b(4,5) by (simp_all add: chain_links_def)
    have p: "[par, par, par] ! i = par" using i by (auto simp: less_Suc_eq numeral_3_eq_3)
    show ?thesis unfolding merge_leaf_info_iff p using S z l I by simp
  qed
  show ?thesis unfolding merge_infos_def using one [of 0] one [of 1] one [of 2] by simp
qed

section \<open>Nodes of two and three children\<close>

lemma two_lists:
  assumes "internal_node_num_keys p = 1"
  shows "node_kids p = [child_at p 0, child_at p 1]" "node_seps p = [internal_node_key p 0]"
proof -
  have "length (node_kids p) = 2" "length (node_seps p) = 1" using assms by simp_all
  then show "node_seps p = [internal_node_key p 0]" using assms by (intro nth_equalityI) simp_all
  show "node_kids p = [child_at p 0, child_at p 1]"
  proof (rule nth_equalityI)
    fix i assume "i < length (node_kids p)"
    then have "i = 0 \<or> i = 1" using assms by auto
    then show "node_kids p ! i = [child_at p 0, child_at p 1] ! i" using assms by (elim disjE) simp_all
  qed (use assms in simp)
qed

lemma route_two: "node_kids p = [a, b] \<Longrightarrow> node_seps p = [c] \<Longrightarrow> node_route p k = (if k \<le> c then a else b)"
  by (simp add: node_route_def route_index_def)

lemma route_three: "node_kids p = [a, b, d] \<Longrightarrow> node_seps p = [c, e] \<Longrightarrow> node_route p k = (if k \<le> c then a else if k \<le> e then b else d)"
  by (simp add: node_route_def route_index_def numeral_2_eq_2)

text \<open>The row of a key in a tree of \<open>h\<close> levels of nodes.\<close>

definition tree_row :: "(nat \<Rightarrow> bytes) \<Rightarrow> nat \<Rightarrow> nat \<Rightarrow> nat \<Rightarrow> bytes option" where
  "tree_row P h n k = map_of (page_rows (P (descend P k h n))) k"

lemma outside_rows:
  assumes s: "sorted_wrt (<) (map fst (rs :: (nat \<times> 'a) list))" and k: "k < fst (hd rs)"
  shows "map_of rs k = None"
proof (cases rs)
  case (Cons e es)
  then show ?thesis using s k by (auto simp: map_of_eq_None_iff)
qed simp

lemma only_row:
  assumes s: "sorted_wrt (<) (map fst (rs :: (nat \<times> 'a) list))" and k: "fst (hd rs) = key" "fst (last rs) = key" "k \<noteq> key"
  shows "map_of rs k = None"
proof (cases rs)
  case (Cons e es)
  show ?thesis
  proof (cases es)
    case Nil
    then show ?thesis using Cons k by (cases e) simp
  next
    case (Cons e' es')
    then have "last rs \<in> set es" using \<open>rs = e # es\<close> by simp
    then have "fst e < fst (last rs)" using s \<open>rs = e # es\<close> by simp
    then show ?thesis using k \<open>rs = e # es\<close> by simp
  qed
qed simp

text \<open>What two nodes of two leaves find, and what the node of the three leaves that stay finds.\<close>

lemma merged_rows:
  fixes rw :: "nat \<Rightarrow> nat \<Rightarrow> 'a option"
  assumes C: "if fl then sA = m0 \<and> sB = m1 \<and> sR = key \<and> m0 < key \<and> key < min1 else sA = m0 \<and> sB = key \<and> sR = m1 \<and> m1 < key \<and> key < min2"
    and ord: "m0 < m1" "min1 \<le> m1"
    and E: "A0 = n0" "B1 = n2" "if fl then A1 = x \<and> B0 = n1 else A1 = n1 \<and> B0 = x"
    and rows: "\<And>k. k \<noteq> key \<Longrightarrow> rw x k = None" "\<And>k. k < min1 \<Longrightarrow> rw n1 k = None" "\<And>k. k < min2 \<Longrightarrow> rw n2 k = None"
  shows "rw (if k \<le> m0 then n0 else if k \<le> m1 then n1 else n2) k =
    (if k = key then None else rw (if k \<le> sR then if k \<le> sA then A0 else A1 else if k \<le> sB then B0 else B1) k)"
proof (cases fl)
  case True
  then have K: "sA = m0" "sB = m1" "sR = key" "m0 < key" "key < min1" "A1 = x" "B0 = n1" using C E by simp_all
  consider "k \<le> m0" | "m0 < k" "k \<le> key" | "key < k" by linarith
  then show ?thesis by cases (use K ord E(1,2) rows in simp_all)
next
  case False
  then have K: "sA = m0" "sB = key" "sR = m1" "m1 < key" "key < min2" "A1 = n1" "B0 = x" using C E by simp_all
  consider "k \<le> m1" | "m1 < k" "k \<le> key" | "key < k" by linarith
  then show ?thesis by cases (use K ord E(1,2) rows in simp_all)
qed

lemma root_merge_Some:
  assumes "stage_root_merge R r A a B b X x key leaves nums = Some (R', leaves')"
  obtains fl infos lk chained staged where "fl = (child_at A 1 = x)" "fl \<noteq> (child_at B 0 = x)" "child_at A 0 \<noteq> x" "child_at B 1 \<noteq> x" "a \<noteq> b" "a \<noteq> r" "b \<noteq> r"
    "parent_stage_validate R" "internal_node_num_keys R = 1" "child_at R 0 = a" "child_at R 1 = b"
    "parent_stage_validate A" "internal_node_num_keys A = 1" "parent_stage_validate B" "internal_node_num_keys B = 1"
    "\<forall>i\<in>{0, 1, 2}. nums ! i = (if fl then [child_at A 0, child_at B 0, child_at B 1] else [child_at A 0, child_at A 1, child_at B 1]) ! i \<and>
      nums ! i \<notin> {r, a, b, x} \<and> (\<forall>j<i. nums ! i \<noteq> nums ! j)"
    "merge_infos leaves (if fl then [a, b, b] else [a, a, b]) = Some infos" "fst (snd (infos ! 0)) < fst (infos ! 1)" "fst (snd (infos ! 1)) < fst (infos ! 2)"
    "slotted_validate X" "merge_leaf_info X (if fl then a else b) = Some (key, key, lk)"
    "root_merge_chain_ok fl (internal_node_key B 0) (internal_node_key R 0) key nums x (internal_node_key A 0) infos lk"
    "relink_around (map (slice 0 4096) leaves) nums x (if fl then 0 else 1) = Some chained" "staged = map (wr32 2 r) chained"
    "R' = published (node_bytes 1 0 nums (take 2 (map (fst \<circ> snd) infos)) (slice 0 4096 R)) R"
    "leaves' = map2 (\<lambda>scratch page. blit 0 (slice 0 4092 scratch) page) staged leaves"
    "parent_stage_validate (node_bytes 1 0 nums (take 2 (map (fst \<circ> snd) infos)) (slice 0 4096 R))"
    "merge_infos staged [r, r, r] = Some [(fst (infos ! 0), fst (snd (infos ! 0)), 0, nums ! 1),
      (fst (infos ! 1), fst (snd (infos ! 1)), nums ! 0, nums ! 2), (fst (infos ! 2), fst (snd (infos ! 2)), nums ! 1, 0)]"
  using assms unfolding stage_root_merge_def Let_def stage_child_at_eq stage_key_at_eq
proof (elim guardE case_optionE case_prodE3, goal_cases)
  case (1 infos z mn mx lk chained)
  have n: "internal_node_num_keys R = 1" "internal_node_num_keys A = 1" "internal_node_num_keys B = 1"
    using 1(3) by (simp_all add: num_keys_rd)
  have v: "parent_stage_validate R" "child_at R 0 = a" "child_at R 1 = b" "parent_stage_validate A" "parent_stage_validate B"
    using 1(3) by simp_all
  have ne: "a \<noteq> b" "a \<noteq> r" "b \<noteq> r" using 1(2) by simp_all
  have f: "(child_at A 1 = x) \<noteq> (child_at B 0 = x)" "child_at A 0 \<noteq> x" "child_at B 1 \<noteq> x" using 1(5) by blast+
  have e: "\<forall>i\<in>{0, 1, 2}. nums ! i = (if child_at A 1 = x then [child_at A 0, child_at B 0, child_at B 1] else [child_at A 0, child_at A 1, child_at B 1]) ! i \<and>
      nums ! i \<notin> {r, a, b, x} \<and> (\<forall>j<i. nums ! i \<noteq> nums ! j)"
    using 1(6) by (auto simp: list_ex_iff)
  have mm: "fst (snd (infos ! 0)) < fst (infos ! 1)" "fst (snd (infos ! 1)) < fst (infos ! 2)" using 1(8) by (simp_all add: numeral_2_eq_2)
  have x: "slotted_validate X" "merge_leaf_info X (if child_at A 1 = x then a else b) = Some (key, key, lk)" using 1(9-12) by simp_all
  have len: "length infos = 3" by (rule merge_infosD(1) [OF 1(7)])
  have mx: "map (fst \<circ> snd) infos ! i = fst (snd (infos ! i))" "map fst infos ! i = fst (infos ! i)" if "i < 3" for i using that len by simp_all
  have chk: "merge_infos (map (wr32 2 r) chained) [r, r, r] = Some [(fst (infos ! 0), fst (snd (infos ! 0)), 0, nums ! 1),
      (fst (infos ! 1), fst (snd (infos ! 1)), nums ! 0, nums ! 2), (fst (infos ! 2), fst (snd (infos ! 2)), nums ! 1, 0)]"
    using 1(16) mx by (simp add: numeral_2_eq_2)
  show ?case
    by (rule that [OF refl f ne v(1) n(1) v(2,3,4) n(2) v(5) n(3) e 1(7) mm x _ _ refl _ _ _ chk])
      (use 1(13-15,17) in \<open>simp_all add: PAGE_SIZE_def published_def numeral_2_eq_2\<close>)
qed

section \<open>A child that is not the last one is removed\<close>

lemma drop_at_nth: "i < length xs \<Longrightarrow> j < length xs - 1 \<Longrightarrow> drop_at i xs ! j = (if j < i then xs ! j else xs ! Suc j)"
  by (simp add: drop_at_def nth_append min_def)

lemma route_drop_at:
  assumes s: "sorted_wrt (<) ss" and i: "i < length ss"
  shows "route_index (drop_at i ss) k = (if route_index ss k \<le> i then route_index ss k else route_index ss k - 1)"
proof (rule route_index_eqI)
  let ?j = "route_index ss k"
  note R = route_indexD [where ss = ss and k = k]
  have l: "length (drop_at i ss) = length ss - 1" by (rule length_drop_at [OF i])
  show "(if ?j \<le> i then ?j else ?j - 1) \<le> length (drop_at i ss)" using R(1) i l by (cases "?j \<le> i") simp_all
  fix y assume y: "y < (if ?j \<le> i then ?j else ?j - 1)"
  then have "y < length ss - 1" using R(1) i by (simp split: if_splits)
  then show "drop_at i ss ! y < k" using drop_at_nth [OF i] R(2) y by (simp split: if_splits)
next
  let ?j = "route_index ss k"
  note R = route_indexD [where ss = ss and k = k]
  have l: "length (drop_at i ss) = length ss - 1" by (rule length_drop_at [OF i])
  assume a: "(if ?j \<le> i then ?j else ?j - 1) < length (drop_at i ss)"
  show "k \<le> drop_at i ss ! (if ?j \<le> i then ?j else ?j - 1)"
  proof (cases "?j \<le> i")
    case True
    then have j: "?j < length ss - 1" using a l by simp
    then have "k \<le> ss ! ?j" using R(3) by simp
    moreover have "ss ! ?j < ss ! Suc ?j" using s j by (simp add: sorted_wrt_iff_nth_less)
    ultimately show ?thesis using True j drop_at_nth [OF i j] by (cases "?j = i") simp_all
  next
    case False
    then have j: "?j - 1 < length ss - 1" "?j < length ss" using a l by simp_all
    have "\<not> ?j - 1 < i" "Suc (?j - 1) = ?j" using False by simp_all
    then show ?thesis using False R(3) j drop_at_nth [OF i j(1)] by simp
  qed
qed

lemma removed_child_route:
  assumes s: "sorted_wrt (<) (node_seps p)" and i: "i < internal_node_num_keys p"
    and q: "node_kids q = drop_at i (node_kids p)" "node_seps q = drop_at i (node_seps p)"
  shows "node_route q k = (if route_index (node_seps p) k = i then child_at p (i + 1) else node_route p k)"
proof -
  let ?j = "route_index (node_seps p) k"
  have il: "i < length (node_seps p)" "i < length (node_kids p)" using i by simp_all
  have j: "?j \<le> internal_node_num_keys p" using route_indexD(1) [of "node_seps p" k] by simp
  have kid: "drop_at i (node_kids p) ! y = (if y < i then child_at p y else child_at p (Suc y))" if "y < internal_node_num_keys p" for y
    using drop_at_nth [OF il(2)] that by simp
  show ?thesis unfolding node_route_def q route_drop_at [OF s il(1)] using kid i j by auto
qed

lemma locate_two_Some:
  "locate_two page target sibling unset is (t, s) = Some (t', s') \<Longrightarrow>
    (t' = t \<or> t' \<in> set is \<and> stage_child_at page t' = target) \<and> (s' = s \<or> s' \<in> set is \<and> stage_child_at page s' = sibling)"
proof (induction "is" arbitrary: t s)
  case (Cons i "is")
  let ?c = "stage_child_at page i"
  have "locate_two page target sibling unset is (if ?c = target then i else t, if ?c = sibling then i else s) = Some (t', s')"
    using Cons.prems unfolding locate_two.simps Let_def by (elim guardE)
  from Cons.IH [OF this] show ?case by (auto split: if_splits)
qed simp

section \<open>The merge below a node that is not the root\<close>

lemma case_prodE2: "(case z of (a, b) \<Rightarrow> f a b) = Some y \<Longrightarrow> (\<And>a b. z = (a, b) \<Longrightarrow> f a b = Some y \<Longrightarrow> R) \<Longrightarrow> R"
  by (cases z) simp

lemma three_list: "length xs = 3 \<Longrightarrow> xs = [xs ! 0, xs ! 1, xs ! 2]"
  by (rule nth_equalityI) (auto simp: less_Suc_eq numeral_2_eq_2 numeral_3_eq_3)

text \<open>The checks of the stage: \<open>rightmost\<close> tells that the removed leaf is the right child of the target, \<open>i\<close> is the place of the
  node that is given up, next to which the kept node is.\<close>

lemma nonroot_merge_Some:
  assumes ok: "stage_nonroot_merge G g T t S s X x key leaves nums = Some (G', K', leaves', kept, obsolete)" and n3: "length nums = 3"
  obtains rightmost i infos lk chained staged G1 K1 m2 where
    "rightmost \<longleftrightarrow> child_at T 1 = x" "rightmost \<noteq> (child_at T 0 = x)" "distinct [g, t, s, x]"
    "kept = (if rightmost then s else t)" "obsolete = (if rightmost then t else s)"
    "i < internal_node_num_keys G" "child_at G i = obsolete" "child_at G (i + 1) = kept"
    "parent_stage_validate G" "parent_stage_validate T" "internal_node_num_keys T = 1" "parent_stage_validate S" "internal_node_num_keys S = 1"
    "nums = (if rightmost then [child_at T 0, child_at S 0, child_at S 1] else [child_at S 0, child_at S 1, child_at T 1])"
    "merge_infos leaves (if rightmost then [t, s, s] else [s, s, t]) = Some infos" "fst (snd (infos ! 0)) < fst (infos ! 1)" "fst (snd (infos ! 1)) < fst (infos ! 2)"
    "slotted_validate X" "merge_leaf_info X t = Some (key, key, lk)"
    "if rightmost then internal_node_key T 0 = fst (snd (infos ! 0)) \<and> internal_node_key S 0 = fst (snd (infos ! 1)) \<and>
        internal_node_key G i = key \<and> fst (snd (infos ! 0)) < key \<and> key < fst (infos ! 1)
     else internal_node_key S 0 = fst (snd (infos ! 0)) \<and> internal_node_key T 0 = key \<and>
        internal_node_key G i = fst (snd (infos ! 1)) \<and> fst (snd (infos ! 1)) < key \<and> key < fst (infos ! 2)"
    "distinct (g # t # s # nums)" "if rightmost then snd (snd (snd (infos ! 1))) = nums ! 2 \<and> fst (snd (snd (infos ! 2))) = nums ! 1
     else snd (snd (snd (infos ! 0))) = nums ! 1 \<and> fst (snd (snd (infos ! 1))) = nums ! 0"
    "\<not> rightmost \<longrightarrow> i + 1 < internal_node_num_keys G \<longrightarrow> internal_node_key G (i + 1) = fst (snd (infos ! 2))"
    "relink_around (map (slice 0 4096) leaves) nums x (if rightmost then 0 else 1) = Some chained" "staged = map (wr32 2 kept) chained"
    "K1 = node_bytes 0 g nums (take 2 (map (fst \<circ> snd) infos)) (replicate 4096 0)" "parent_stage_validate K1"
    "stage_child_remove (slice 0 4096 G) obsolete (internal_node_key G i) = Some (G1, i, None)"
    "G' = blit 0 (slice 0 4092 G1) G" "K' = blit 0 (slice 0 4092 K1) (if rightmost then S else T)"
    "leaves' = map2 (\<lambda>scratch page. blit 0 (slice 0 4092 scratch) page) staged leaves"
proof -
  note U = ok [unfolded stage_nonroot_merge_def Let_def stage_child_at_eq stage_key_at_eq]
  show thesis using U
  proof (elim guardE case_optionE case_prodE2, goal_cases)
    case (1 z ti si infos w mn w2 mx lk chained K1 u G1 u2 ri nm)
    have n: "internal_node_num_keys T = 1" "internal_node_num_keys S = 1" using 1(2) by (simp_all add: num_keys_rd)
    have v: "parent_stage_validate G" "parent_stage_validate T" "parent_stage_validate S" "slotted_validate X" using 1(2) by simp_all
    have d: "distinct [g, t, s, x]" using 1(1) by simp
    let ?rm = "child_at T 1 = x"
    define i where "i = (if ?rm then ti else si)"
    have G6: "rd32 6 G = internal_node_num_keys G" by (simp add: num_keys_rd)
    have loc: "ti \<le> internal_node_num_keys G" "si \<le> internal_node_num_keys G" "child_at G ti = t" "child_at G si = s"
      using locate_two_Some [OF 1(4) [unfolded 1(5)]] 1(6) G6 by (auto simp: stage_child_at_eq)
    have I: "i < internal_node_num_keys G" "child_at G i = (if ?rm then t else s)" "child_at G (i + 1) = (if ?rm then s else t)"
      using 1(8,9) loc G6 by (cases ?rm; force simp: i_def)+
    have survivors: "nums = (if ?rm then [child_at T 0, child_at S 0, child_at S 1] else [child_at S 0, child_at S 1, child_at T 1])" (is "_ = ?sv")
    proof (rule nth_equalityI)
      fix j assume "j < length nums"
      then have "j = 0 \<or> j = 1 \<or> j = 2" using n3 by auto
      then show "nums ! j = ?sv ! j" using 1(10) by (elim disjE) simp_all
    qed (use n3 in simp)
    have dn: "distinct (g # t # s # nums)"
      using 1(1,10) survivors by (cases ?rm) (auto simp: upt_rec [of 0 2] upt_rec [of 1 2] numeral_2_eq_2)
    have mm: "fst (snd (infos ! 0)) < fst (infos ! 1)" "fst (snd (infos ! 1)) < fst (infos ! 2)" using 1(12) by (simp_all add: numeral_2_eq_2)
    have x: "merge_leaf_info X t = Some (key, key, lk)" using 1(13-16) by simp
    have li: "length infos = 3" by (rule merge_infosD(1) [OF 1(11)])
    have C: "if ?rm then internal_node_key T 0 = fst (snd (infos ! 0)) \<and> internal_node_key S 0 = fst (snd (infos ! 1)) \<and>
        internal_node_key G i = key \<and> fst (snd (infos ! 0)) < key \<and> key < fst (infos ! 1)
     else internal_node_key S 0 = fst (snd (infos ! 0)) \<and> internal_node_key T 0 = key \<and>
        internal_node_key G i = fst (snd (infos ! 1)) \<and> fst (snd (infos ! 1)) < key \<and> key < fst (infos ! 2)"
      "\<not> ?rm \<longrightarrow> i + 1 < internal_node_num_keys G \<longrightarrow> internal_node_key G (i + 1) = fst (snd (infos ! 2))"
      using 1(17) 1(8,9) li G6 unfolding nonroot_merge_chain_ok_def Let_def stage_key_at_eq i_def
      by (simp_all split: if_split_asm)
    have ln: "if ?rm then snd (snd (snd (infos ! 1))) = nums ! 2 \<and> fst (snd (snd (infos ! 2))) = nums ! 1
     else snd (snd (snd (infos ! 0))) = nums ! 1 \<and> fst (snd (snd (infos ! 1))) = nums ! 0"
      using 1(17) li unfolding nonroot_merge_chain_ok_def Let_def survivors [symmetric] by (simp_all split: if_split_asm)
    have om: "(if ?rm then key else internal_node_key G si) = internal_node_key G i" using C(1) by (simp add: i_def split: if_splits)
    have ri: "ri = i" "nm = None" using 1(23) by (simp_all add: i_def)
    have K1: "K1 = node_bytes 0 g nums (take 2 (map (fst \<circ> snd) infos)) (replicate 4096 0)" "parent_stage_validate K1"
      using 1(19) survivors unfolding build_three_child_def Let_def by (auto simp: PAGE_SIZE_def split: if_split_asm)
    have rem: "stage_child_remove (slice 0 4096 G) (if ?rm then t else s) (internal_node_key G i) = Some (G1, i, None)"
      using 1(20-22) ri om by (simp add: PAGE_SIZE_def)
    have rel: "relink_around (map (slice 0 4096) leaves) nums x (if ?rm then 0 else 1) = Some chained"
      using 1(18) survivors by (simp add: PAGE_SIZE_def)
    have R: "kept = (if ?rm then s else t)" "obsolete = (if ?rm then t else s)" "G' = blit 0 (slice 0 4092 G1) G"
      "K' = blit 0 (slice 0 4092 K1) (if ?rm then S else T)"
      "leaves' = map2 (\<lambda>scratch page. blit 0 (slice 0 4092 scratch) page) (map (wr32 2 kept) chained) leaves"
      using 1(26) by (auto simp: numeral_2_eq_2 PAGE_USABLE_SIZE_eq)
    show ?case
      by (rule that [OF refl 1(7) d R(1,2) I(1) I(2,3) [folded R(2) R(1)] v(1,2) n(1) v(3) n(2) survivors 1(11) mm v(4) x C(1) dn ln C(2) rel refl K1
        rem [folded R(2)] R(3,4,5)])
  qed
qed

lemma drop_at_unlisted:
  assumes "distinct xs" "i < length xs"
  shows "drop_at i xs = filter (\<lambda>c. c \<noteq> xs ! i) xs"
proof -
  have e: "xs = take i xs @ xs ! i # drop (Suc i) xs" by (rule id_take_nth_drop [OF assms(2)])
  then have "distinct (take i xs @ xs ! i # drop (Suc i) xs)" using assms(1) by simp
  then have "filter (\<lambda>c. c \<noteq> xs ! i) (take i xs) = take i xs" "filter (\<lambda>c. c \<noteq> xs ! i) (drop (Suc i) xs) = drop (Suc i) xs"
    by (auto intro!: filter_True)
  then show ?thesis unfolding drop_at_def by (subst (3) e) simp
qed

lemma removed_published:
  assumes v: "parent_stage_validate G" and r: "stage_child_remove (slice 0 4096 G) c m = Some (G1, i, None)" and G': "G' = blit 0 (slice 0 4092 G1) G"
  shows "parent_stage_validate G'" "node_kids G' = drop_at i (node_kids G)" "node_seps G' = drop_at i (node_seps G)" "i < internal_node_num_keys G"
    "slice 0 6 G' = slice 0 6 G1" "G1 ! 1 = G ! 1" "rd32 2 G1 = rd32 2 G" "drop 4092 G' = drop 4092 G"
proof -
  note V = valid_nodeD [OF v]
  have sl: "length (slice 0 4096 G) = 4096" "slice 0 4092 (slice 0 4096 G) = slice 0 4092 G" using scratch_usable [OF V(1)] by blast+
  note U = same_usable_node [OF sl(2) V(4)]
  have num: "internal_node_num_keys (slice 0 4096 G) = internal_node_num_keys G" by (rule U(1))
  note R = stage_child_remove_Some [OF r]
  have i: "i < internal_node_num_keys G" using R(5) num by (simp split: if_splits)
  have l1: "length G1 = 4096" using R(6) sl by simp
  note B = published_node_again [OF R(2) l1 V(1) G']
  show "parent_stage_validate G'" "slice 0 6 G' = slice 0 6 G1" "drop 4092 G' = drop 4092 G" using B by simp_all
  show "node_kids G' = drop_at i (node_kids G)" using B(3) R(3) U by simp
  show "node_seps G' = drop_at i (node_seps G)" using B(2) R(4) U num i by simp
  show "i < internal_node_num_keys G" by (rule i)
  show "G1 ! 1 = G ! 1" using R(7) V(1) by simp
  show "rd32 2 G1 = rd32 2 G" using R(8) rd32_cong_usable [OF sl(2), of 2] by simp
qed

lemma sibling_trees:
  assumes "distinct (tree_pages P (Suc h) n)" "i < length (node_kids (P n))" "j < length (node_kids (P n))" "i \<noteq> j"
  shows "set (tree_pages P h (node_kids (P n) ! i)) \<inter> set (tree_pages P h (node_kids (P n) ! j)) = {}"
  using distinct_concat_disjoint [of "map (tree_pages P h) (node_kids (P n))" i j] assms by simp

text \<open>A lookup that goes through another child than the two that change.\<close>

lemma far_lookup:
  assumes tree: "distinct (tree_pages P (Suc h) g)" and j: "route_index (node_seps (P g)) k \<notin> {i, i'}"
    and i: "i < length (node_kids (P g))" "i' < length (node_kids (P g))" and r: "node_route (P' g) k = node_route (P g) k"
    and same: "\<And>y. y \<noteq> g \<Longrightarrow> y \<notin> set (tree_pages P h (node_kids (P g) ! i)) \<Longrightarrow> y \<notin> set (tree_pages P h (node_kids (P g) ! i')) \<Longrightarrow> P' y = P y"
  shows "tree_row P' (Suc h) g k = tree_row P (Suc h) g k"
proof -
  let ?c = "node_route (P g) k" and ?j = "route_index (node_seps (P g)) k"
  have j': "?j < length (node_kids (P g))" "node_kids (P g) ! ?j = ?c"
    using route_indexD(1) [of "node_seps (P g)" k] by (simp_all add: node_route_def)
  have eq: "P' y = P y" if y: "y \<in> set (tree_pages P h ?c)" for y
  proof (rule same)
    show "y \<noteq> g" using subtree_pages(2) [OF node_route_kid tree, of k] y by blast
    show "y \<notin> set (tree_pages P h (node_kids (P g) ! i))" "y \<notin> set (tree_pages P h (node_kids (P g) ! i'))"
      using sibling_trees [OF tree j'(1) i(1)] sibling_trees [OF tree j'(1) i(2)] j y unfolding j'(2) by blast+
  qed
  have "descend P' k h ?c = descend P k h ?c" by (rule descend_cong [OF eq])
  then show ?thesis using r eq [OF descend_in_tree] by (simp add: tree_row_def)
qed

lemma route_at_key:
  assumes s: "sorted_wrt (<) ss" and i: "i < length ss" "ss ! i = key \<or> ss ! i < key \<and> (i + 1 < length ss \<longrightarrow> key \<le> ss ! (i + 1))"
  shows "route_index ss key \<in> {i, i + 1}"
proof -
  have below: "ss ! y < ss ! i" if "y < i" for y using s i(1) that by (simp add: sorted_wrt_iff_nth_less)
  have "route_index ss key = (if ss ! i = key then i else i + 1)"
    by (rule route_index_eqI) (use i below in \<open>auto simp: less_Suc_eq split: if_splits dest: below\<close>)
  then show ?thesis by simp
qed

end
