(* ===== verification/TreeShrinkProperties.thy ===== *)
theory TreeShrinkProperties
  imports TreeMerge
begin

text \<open>
  What the stages that shrink a tree keep: lookups when a bound becomes smaller, when a child becomes the root, and
  when two nodes of two leaves become one of three, with examples on concrete pages.
\<close>

section \<open>Example pages\<close>

lemma made_node:
  assumes "length vs = length ss + 1" "length ss \<le> 509" "ss \<noteq> []" "\<forall>k\<in>set ss. k < 2 ^ 32" "\<forall>v\<in>set vs. v < 2 ^ 32" "par < 2 ^ 32"
    and "0 \<notin> set vs" "distinct vs" "sorted_wrt (<) ss" and q: "q = node_bytes rt par vs ss empty_page"
  shows "length q = 4096" "parent_stage_validate q" "node_seps q = ss" "node_kids q = vs" "q ! 0 = NODE_INTERNAL" "q ! 1 = rt" "rd32 2 q = par"
    "internal_node_num_keys q = length ss"
proof -
  note B = node_bytes_spec [OF length_empty_page assms(1,2,4,5,6) q]
  show "length q = 4096" "node_seps q = ss" "node_kids q = vs" "q ! 0 = NODE_INTERNAL" "q ! 1 = rt" "rd32 2 q = par" by (fact B)+
  show "parent_stage_validate q" unfolding q node_bytes_valid [OF length_empty_page assms(1-6)] using assms(7-9) by blast
  show "internal_node_num_keys q = length ss" using arg_cong [OF B(2), of length] by simp
qed

lemma made_leaf_rows:
  assumes "entries_ok es" "par < 2 ^ 32" "nxt < 2 ^ 32" "prv < 2 ^ 32"
  shows "slotted_validate (made_leaf rt par nxt prv es)" "page_rows (made_leaf rt par nxt prv es) = es" "length (made_leaf rt par nxt prv es) = 4096"
    "detect_page (made_leaf rt par nxt prv es) = PAGE_FORMAT_SLOTTED_V2" "leaf_links (made_leaf rt par nxt prv es) = (Some prv, Some nxt)"
proof -
  note F = made_leaf_facts [OF assms refl, of rt]
  show v: "slotted_validate (made_leaf rt par nxt prv es)" "length (made_leaf rt par nxt prv es) = 4096" by (fact F)+
  show "page_rows (made_leaf rt par nxt prv es) = es" using page_rows_v2(1) [OF F(1)] F(2) by simp
  show "detect_page (made_leaf rt par nxt prv es) = PAGE_FORMAT_SLOTTED_V2" using F(1) by (simp add: detect_v2)
  show "leaf_links (made_leaf rt par nxt prv es) = (Some prv, Some nxt)" using page_links(2) [OF F(1)] F by simp
qed

lemma made_leaf_info:
  assumes "entries_ok es" "par < 2 ^ 32" "nxt < 2 ^ 32" "prv < 2 ^ 32" "es \<noteq> []" "prv \<noteq> INVALID_PAGE_NUM" "nxt \<noteq> INVALID_PAGE_NUM"
  shows "merge_leaf_info (made_leaf 0 par nxt prv es) par = Some (fst (hd es), fst (last es), prv, nxt)"
proof -
  note F = made_leaf_facts [OF assms(1-4) refl, of 0] and R = made_leaf_rows [OF assms(1-4), of 0]
  have z: "made_leaf 0 par nxt prv es ! 0 = NODE_LEAF"
    using R(4) by (auto simp: detect_page_def get_node_type_def leaf_header_offsets split: if_splits)
  have "fst (hd es) \<le> fst (last es)" using entries_range(2) [OF F(1), of "hd es"] assms(5) F(2) by (simp add: leaf_max_def)
  then show ?thesis unfolding merge_leaf_info_iff using R F z assms(5-7) by simp
qed

text \<open>Four leaves below two nodes.\<close>

definition demo_left :: "nat \<Rightarrow> bytes" where "demo_left par = node_bytes 0 par [4, 9] [10] empty_page"
definition demo_right :: "nat \<Rightarrow> bytes" where "demo_right par = node_bytes 0 par [5, 6] [30] empty_page"
definition demo_leaf :: "nat \<Rightarrow> bytes" where
  "demo_leaf n = (if n = 4 then made_leaf 0 2 9 0 [(10, [1])] else if n = 9 then made_leaf 0 2 5 4 [(20, [2])]
     else if n = 5 then made_leaf 0 3 6 9 [(30, [3])] else made_leaf 0 3 0 5 [(40, [4])])"

lemma demo_nodes:
  assumes "par < 2 ^ 32"
  shows "length (demo_left par) = 4096" "parent_stage_validate (demo_left par)" "demo_left par ! 1 = 0" "rd32 2 (demo_left par) = par"
    "internal_node_num_keys (demo_left par) = 1" "child_at (demo_left par) 0 = 4" "child_at (demo_left par) 1 = 9" "internal_node_key (demo_left par) 0 = 10"
    "length (demo_right par) = 4096" "parent_stage_validate (demo_right par)" "demo_right par ! 1 = 0" "rd32 2 (demo_right par) = par"
    "internal_node_num_keys (demo_right par) = 1" "child_at (demo_right par) 0 = 5" "child_at (demo_right par) 1 = 6" "internal_node_key (demo_right par) 0 = 30"
proof -
  have sz: "length [a, b::nat] = length [c::nat] + 1" "length [c::nat] \<le> 509" "[c::nat] \<noteq> []" "sorted_wrt (<) [c]" for a b c :: nat by simp_all
  have L: "\<forall>k\<in>set [10]. k < (2::nat) ^ 32" "\<forall>k\<in>set [4, 9]. k < (2::nat) ^ 32" "0 \<notin> set [4, 9::nat]" "distinct [4, 9::nat]" by simp_all
  have R: "\<forall>k\<in>set [30]. k < (2::nat) ^ 32" "\<forall>k\<in>set [5, 6]. k < (2::nat) ^ 32" "0 \<notin> set [5, 6::nat]" "distinct [5, 6::nat]" by simp_all
  note A = made_node [OF sz(1-3) L(1,2) assms L(3,4) sz(4) demo_left_def] and B = made_node [OF sz(1-3) R(1,2) assms R(3,4) sz(4) demo_right_def]
  show "length (demo_left par) = 4096" "parent_stage_validate (demo_left par)" "demo_left par ! 1 = 0" "rd32 2 (demo_left par) = par"
    "internal_node_num_keys (demo_left par) = 1" "child_at (demo_left par) 0 = 4" "child_at (demo_left par) 1 = 9" "internal_node_key (demo_left par) 0 = 10"
    using A two_children [OF A(4,3)] by simp_all
  show "length (demo_right par) = 4096" "parent_stage_validate (demo_right par)" "demo_right par ! 1 = 0" "rd32 2 (demo_right par) = par"
    "internal_node_num_keys (demo_right par) = 1" "child_at (demo_right par) 0 = 5" "child_at (demo_right par) 1 = 6" "internal_node_key (demo_right par) 0 = 30"
    using B two_children [OF B(4,3)] by simp_all
qed

lemma demo_leaves:
  "merge_leaf_info (demo_leaf 4) 2 = Some (10, 10, 0, 9)" "merge_leaf_info (demo_leaf 9) 2 = Some (20, 20, 4, 5)"
  "merge_leaf_info (demo_leaf 5) 3 = Some (30, 30, 9, 6)" "merge_leaf_info (demo_leaf 6) 3 = Some (40, 40, 5, 0)"
  "slotted_validate (demo_leaf 9)" "detect_page (demo_leaf 9) = PAGE_FORMAT_SLOTTED_V2" "length (demo_leaf 9) = 4096"
  "page_rows (demo_leaf 4) = [(10, [1])]" "page_rows (demo_leaf 9) = [(20, [2])]" "page_rows (demo_leaf 5) = [(30, [3])]" "page_rows (demo_leaf 6) = [(40, [4])]"
proof -
  have ok: "entries_ok [(k, [v])]" if "k < 2 ^ 32" for k and v :: u8 using that by (simp add: entries_ok_def)
  show "merge_leaf_info (demo_leaf 4) 2 = Some (10, 10, 0, 9)" "merge_leaf_info (demo_leaf 9) 2 = Some (20, 20, 4, 5)"
    "merge_leaf_info (demo_leaf 5) 3 = Some (30, 30, 9, 6)" "merge_leaf_info (demo_leaf 6) 3 = Some (40, 40, 5, 0)"
    by (simp_all add: demo_leaf_def made_leaf_info ok INVALID_PAGE_NUM_def)
  show "slotted_validate (demo_leaf 9)" "detect_page (demo_leaf 9) = PAGE_FORMAT_SLOTTED_V2" "length (demo_leaf 9) = 4096"
    "page_rows (demo_leaf 4) = [(10, [1])]" "page_rows (demo_leaf 9) = [(20, [2])]" "page_rows (demo_leaf 5) = [(30, [3])]" "page_rows (demo_leaf 6) = [(40, [4])]"
    by (simp_all add: demo_leaf_def made_leaf_rows ok)
qed

definition demo_root :: bytes where "demo_root = node_bytes 1 0 [2, 3] [20] empty_page"

lemma demo_root_facts:
  "length demo_root = 4096" "parent_stage_validate demo_root" "demo_root ! 1 = 1" "rd32 2 demo_root = 0" "internal_node_num_keys demo_root = 1"
  "node_kids demo_root = [2, 3]" "node_seps demo_root = [20]" "child_at demo_root 0 = 2" "child_at demo_root 1 = 3" "internal_node_key demo_root 0 = 20"
proof -
  have sz: "length [2, 3::nat] = length [20::nat] + 1" "length [20::nat] \<le> 509" "[20::nat] \<noteq> []" "\<forall>k\<in>set [20]. k < (2::nat) ^ 32"
    "\<forall>k\<in>set [2, 3]. k < (2::nat) ^ 32" "(0::nat) < 2 ^ 32" "0 \<notin> set [2, 3::nat]" "distinct [2, 3::nat]" "sorted_wrt (<) [20::nat]" by simp_all
  note T = made_node [OF sz demo_root_def]
  show "length demo_root = 4096" "parent_stage_validate demo_root" "demo_root ! 1 = 1" "rd32 2 demo_root = 0" "internal_node_num_keys demo_root = 1"
    "node_kids demo_root = [2, 3]" "node_seps demo_root = [20]" "child_at demo_root 0 = 2" "child_at demo_root 1 = 3" "internal_node_key demo_root 0 = 20"
    using T two_children [OF T(4,3)] by simp_all
qed

definition demo_tree :: "bytes \<Rightarrow> nat \<Rightarrow> nat \<Rightarrow> bytes" where
  "demo_tree page t n = (if n = t then page else if n = 2 then demo_left t else if n = 3 then demo_right t else demo_leaf n)"

lemma upt_two: "[0..<2] = [0, 1::nat]"
  by (simp add: numeral_2_eq_2)

section \<open>A smaller bound\<close>

text \<open>C25. When the greatest key below a child becomes smaller and the new bound is published upwards, a lookup of any
  key that is not between the new and the old bound goes where it went before, from every page and through any number of levels; the new
  bound is the separator in front of the path at the level where the stage stopped, and below that level
  the path has no separator.\<close>

theorem lowered_bound_keeps_lookups:
  assumes ok: "stage_max_decrease_cascade ancestors nums c old new = Some (ancestors', stop, changed)"
    and len: "length nums = length ancestors" "pages_ok ancestors" and new: "new < 2 ^ 32"
    and shown: "\<forall>i<length ancestors. P (nums ! i) = ancestors ! i"
  shows "(\<forall>k h n. k \<le> new \<or> old < k \<longrightarrow> descend (with_pages P nums ancestors') k h n = descend P k h n) \<and>
    (\<forall>j < stop. last (node_kids (ancestors ! j)) = path_child nums c 0 j) \<and>
    (if changed then \<exists>i<internal_node_num_keys (ancestors ! stop). node_kids (ancestors ! stop) ! i = path_child nums c 0 stop \<and>
       node_seps (ancestors ! stop) ! i = old \<and> node_seps (ancestors' ! stop) = (node_seps (ancestors ! stop))[i := new]
     else ancestors' = ancestors \<and> last (node_kids (ancestors ! stop)) = path_child nums c 0 stop)"
proof -
  have m: "map (slice 0 PAGE_SIZE) ancestors = ancestors"
    by (rule map_idI) (use len(2) in \<open>simp add: pages_ok_def PAGE_SIZE_def\<close>)
  from ok obtain anc where lev: "decrease_levels nums [0..<length ancestors] ancestors c old new = Some (anc, stop, changed)"
    and a': "ancestors' = map2 published anc ancestors"
    and idok: "\<not> list_ex (\<lambda>i. nums ! i = INVALID_PAGE_NUM \<or> list_ex (\<lambda>j. nums ! j = nums ! i) [0..<i]) [0..<length ancestors]"
    unfolding stage_max_decrease_cascade_def m PAGE_USABLE_SIZE_eq
    by (elim guardE case_optionE) (auto simp: published_def [abs_def] simp del: upt_Suc)
  have d: "distinct nums"
  proof -
    have "nums ! j \<noteq> nums ! i" if "j < i" "i < length nums" for i j
      using idok that len(1) by (auto simp: list_ex_iff)
    then show ?thesis unfolding distinct_conv_nth by (metis linorder_neqE_nat)
  qed
  note D = decrease_levels_spec [OF new lev, unfolded decrease_done_def]
  then have st: "stop < length ancestors" by simp
  have self: "published p p = p" if "length p = 4096" for p :: bytes
    using that by (simp add: published_def blit_def slice_def)
  have l4: "length p = 4096" if "p \<in> set ancestors" for p using len(2) that by (simp add: pages_ok_def)
  have below: "\<forall>j < stop. last (node_kids (ancestors ! j)) = path_child nums c 0 j" using D by simp
  show ?thesis
  proof (cases changed)
    case False
    with D have "anc = ancestors" and l: "last (node_kids (ancestors ! stop)) = path_child nums c 0 stop" by simp_all
    then have e: "ancestors' = ancestors" using a' self l4 by (simp add: map2_map_map [symmetric] map_idI zip_same_conv_map)
    have "node_route (with_pages P nums ancestors n) k = node_route (P n) k" for n k
    proof (cases "n \<in> set nums")
      case True
      then obtain i where "i < length nums" "n = nums ! i" by (metis in_set_conv_nth)
      then show ?thesis using with_pages_nth [OF d _ \<open>i < length nums\<close>, of ancestors P] len(1) shown by simp
    next
      case False
      then show ?thesis using with_pages_other [OF len(1) [symmetric] False, of P] by simp
    qed
    then have "descend (with_pages P nums ancestors) k h n = descend P k h n" for k h n by (rule descend_route_cong)
    then show ?thesis using e below l False by simp
  next
    case True
    with D obtain i where i: "i < internal_node_num_keys (ancestors ! stop)" "decreases_at (ancestors ! stop) i (path_child nums c 0 stop) old new"
      and anc: "anc = ancestors[stop := published (wr32 (14 + i * 8 + 4) new (slice 0 4096 (ancestors ! stop))) (ancestors ! stop)]" by auto
    define p where "p = ancestors ! stop"
    define q where "q = published (wr32 (14 + i * 8 + 4) new (slice 0 4096 p)) p"
    note N = decreased_node [OF i(2,1) new, folded p_def, OF q_def]
    have lp: "length p = 4096" using l4 st by (simp add: p_def)
    have lq: "length q = 4096" using N(4) lp by simp
    have q': "published q p = q"
    proof -
      have "take 4092 q @ drop 4092 p = q" using N(6) append_take_drop_id by metis
      then show ?thesis unfolding published_def blit_def slice_def using lq by simp
    qed
    have at: "ancestors' ! j = (if j = stop then q else ancestors ! j)" if "j < length ancestors" for j
      using that q' self l4 by (auto simp: a' anc p_def q_def)
    have S: "node_seps p ! i = old" "0 < i \<longrightarrow> node_seps p ! (i - 1) < new" "new < old" "parent_stage_validate p" "node_kids p ! i = path_child nums c 0 stop"
      using i unfolding decreases_at_def p_def by simp_all
    have route: "node_route (with_pages P nums ancestors' n) k = node_route (P n) k" if k: "k \<le> new \<or> old < k" for n k
    proof (cases "n \<in> set nums")
      case True
      then obtain j where j: "j < length nums" "n = nums ! j" by (metis in_set_conv_nth)
      have la: "length ancestors' = length nums" using a' anc len(1) by simp
      have "with_pages P nums ancestors' n = (if j = stop then q else ancestors ! j)"
        using with_pages_nth [OF d la j(1)] j len(1) at by simp
      moreover have "node_route q k = node_route p k"
        unfolding node_route_def N(2,3)
        by (subst route_index_lowered [OF valid_nodeD(7) [OF S(4)] _ S(1,3,2) k]) (use i in \<open>simp_all add: p_def\<close>)
      ultimately show ?thesis using shown j len(1) by (simp add: p_def)
    next
      case False
      have "length ancestors' = length nums" using a' anc len(1) by simp
      from with_pages_other [OF this False, of P] show ?thesis by simp
    qed
    have "\<forall>k h n. k \<le> new \<or> old < k \<longrightarrow> descend (with_pages P nums ancestors') k h n = descend P k h n"
      using route by (auto intro: descend_route_cong)
    moreover have "node_seps (ancestors' ! stop) = (node_seps (ancestors ! stop))[i := new]" using at [OF st] N(2) by (simp add: p_def)
    ultimately show ?thesis using True below i S by (auto simp: p_def)
  qed
qed

lemma lowered_bound_keeps_lookups_witness:
  "\<exists>ps. stage_max_decrease_cascade [demo_left 1, demo_root] [2, 1] 9 20 15 = Some (ps, 1, True) \<and>
     map (\<lambda>k. descend (with_pages (demo_tree demo_root 1) [2, 1] ps) k 2 1) [10, 15, 21] = [4, 9, 5]"
proof -
  have one: "(1::nat) < 2 ^ 32" by simp
  note D = demo_root_facts and N = demo_nodes [OF one]
  have "decreases_at demo_root 0 2 20 15" using D by (simp add: decreases_at_def)
  then obtain R' where r: "stage_child_max_decrease demo_root 2 20 15 = Some (0, R', True)" using D by (simp add: stage_child_max_decrease_spec)
  have lev: "decrease_levels [2, 1] [0, 1] [demo_left 1, demo_root] 9 20 15 = Some ([demo_left 1, R'], 1, True)"
    unfolding decrease_levels.simps Let_def internal_offsets using D N r by (simp add: num_keys_rd stage_child_at_eq)
  then have "\<exists>ps. stage_max_decrease_cascade [demo_left 1, demo_root] [2, 1] 9 20 15 = Some (ps, 1, True)"
    using D(1) N(1) unfolding stage_max_decrease_cascade_def by (simp add: PAGE_SIZE_def INVALID_PAGE_NUM_def upt_two numeral_2_eq_2 del: decrease_levels.simps)
  then obtain ps where s: "stage_max_decrease_cascade [demo_left 1, demo_root] [2, 1] 9 20 15 = Some (ps, 1, True)" by blast
  let ?P = "demo_tree demo_root 1"
  have o: "length [2, 1::nat] = length [demo_left 1, demo_root]" "pages_ok [demo_left 1, demo_root]" "(15::nat) < 2 ^ 32"
    "\<forall>i<length [demo_left 1, demo_root]. ?P ([2, 1] ! i) = [demo_left 1, demo_root] ! i"
    using D(1) N(1) by (auto simp: pages_ok_def demo_tree_def less_Suc_eq)
  have R: "descend (with_pages ?P [2, 1] ps) k 2 1 = descend ?P k 2 1" if "k \<le> 15 \<or> 20 < k" for k
    using lowered_bound_keeps_lookups [OF s o] that by blast
  have "descend ?P k 2 1 = node_route (?P (node_route (?P 1) k)) k" for k by (simp add: numeral_2_eq_2)
  then have "map (\<lambda>k. descend ?P k 2 1) [10, 15, 21] = [4, 9, 5]"
    using route_two [OF D(6,7)] route_two [OF two_lists [OF N(5)]] route_two [OF two_lists [OF N(13)]] N by (simp add: demo_tree_def)
  with s R show ?thesis by simp
qed

section \<open>A child becomes the root\<close>

text \<open>C24. When one of two leaves below the root is given up, the other one becomes the root. The stage succeeds on
  every such tree whose separator fits the rows; the new root has the rows of the leaf that stays, so a lookup gives what it gave before
  when it went to that leaf, and nothing when it went to the leaf that is given up.\<close>

theorem root_collapse_keeps_rows:
  assumes fits: "leaf_collapse_fits T t S s x removed_max"
  shows "\<exists>T'. collapse_to_leaf T t S s x removed_max = Some (T', s) \<and> slotted_validate T' \<and> entries T' = entries S \<and> T' ! 1 = 1 \<and>
    rd32 2 T' = 0 \<and> rd32 18 T' = 0 \<and> rd32 22 T' = 0 \<and> drop 4092 T' = drop 4092 T \<and>
    (\<forall>k capacity. slotted_read T' k capacity = (if node_route T k = s then slotted_read S k capacity else None))"
proof -
  have vT: "parent_stage_validate T" "T ! 1 \<noteq> 0" "rd32 2 T = 0" and v: "slotted_validate S" "S ! 1 = 0" "rd32 2 S = t" "rd32 22 S = 0" "rd32 18 S = 0"
    and ne: "entries S \<noteq> []" and d: "distinct [t, s, x]" "s \<notin> {0, INVALID_PAGE_NUM}" "x \<notin> {0, INVALID_PAGE_NUM}"
    and side: "node_kids T = [x, s] \<and> node_seps T = [removed_max] \<and> removed_max < fst (hd (entries S)) \<or>
      node_kids T = [s, x] \<and> node_seps T = [leaf_max S] \<and> leaf_max S < removed_max"
    using fits unfolding leaf_collapse_fits_def by blast+
  note V = valid_nodeD [OF vT(1)]
  have lS: "4096 \<le> length S" using validD(1) [OF v(1)] by (simp add: PAGE_SIZE_def)
  obtain a where "node_seps T = [a]" using side by blast
  from arg_cong [OF this, of length] have one: "internal_node_num_keys T = 1" by simp
  define q where "q = promoted_root T S"
  note Q = promoted_root_spec [OF V(1) lS q_def] and L = promoted_leaf [OF v(1) V(1) q_def]
  define T' where "T' = blit 0 (slice 0 4092 q) T"
  have dq: "detect_page q \<noteq> PAGE_FORMAT_UNKNOWN" and dS: "detect_page S \<noteq> PAGE_FORMAT_UNKNOWN"
    using L(1) v(1) by (simp_all add: detect_v2 [symmetric])
  have rows: "page_rows S = entries S" "page_rows q = entries S" using page_rows_v2 v(1) L by simp_all
  have cnt: "page_count S = Some (length (entries S))" "page_count q = Some (length (entries S))"
    using page_access(1) [OF dS] page_access(1) [OF dq] rows by simp_all
  have range: "page_key_range S (length (entries S)) = Some (fst (hd (entries S)), leaf_max S)"
    "page_key_range q (length (entries S)) = Some (fst (hd (entries S)), leaf_max S)"
    using page_key_range_rows [OF dS] page_key_range_rows [OF dq] rows ne by (simp_all add: leaf_max_def)
  have links: "page_prev S = Some 0" "page_next S = Some 0" "page_prev q = Some 0" "page_next q = Some 0"
    using page_links(2) [OF v(1)] page_links(2) [OF L(1)] L v by (simp_all add: leaf_links_def)
  have mm: "\<not> fst (hd (entries S)) > leaf_max S" using entries_range(2) [OF v(1), of "hd (entries S)"] ne by simp
  have g: "\<not> (length T < PAGE_SIZE \<or> length S < PAGE_SIZE \<or> s = 0 \<or> s = INVALID_PAGE_NUM \<or> x = 0 \<or> x = INVALID_PAGE_NUM \<or> s = x \<or> s = t \<or> x = t)"
    "\<not> (T ! NODE_TYPE_OFFSET \<noteq> NODE_INTERNAL \<or> T ! IS_ROOT_OFFSET = 0 \<or> rd32 PARENT_POINTER_OFFSET T \<noteq> 0 \<or> \<not> parent_stage_validate T \<or>
      rd32 INTERNAL_NODE_NUM_KEYS_OFFSET T \<noteq> 1 \<or> \<not> slotted_validate S \<or> S ! IS_ROOT_OFFSET \<noteq> 0 \<or> rd32 PARENT_POINTER_OFFSET S \<noteq> t)"
    "\<not> (page_prev S \<noteq> Some 0 \<or> page_next S \<noteq> Some 0)"
    using V(1,2) lS d vT v links one by (auto simp: PAGE_SIZE_def num_keys_rd numeral_2_eq_2)
  have g4: "\<not> length (entries S) = 0" using ne by (simp del: length_entries)
  have gq: "\<not> (\<not> slotted_validate q \<or> q ! IS_ROOT_OFFSET = 0 \<or> rd32 PARENT_POINTER_OFFSET q \<noteq> 0)"
    using L(1) Q(3,4) by (simp add: numeral_2_eq_2)
  have gl: "\<not> (page_prev q \<noteq> Some 0 \<or> page_next q \<noteq> Some 0 \<or> page_count q \<noteq> Some (length (entries S)) \<or>
      page_key_range q (length (entries S)) \<noteq> Some (fst (hd (entries S)), leaf_max S))"
    using links cnt range by blast
  have e: "collapse_to_leaf T t S s x removed_max = Some (T', s)"
    if c: "\<not> ((child_at T 0 = x \<and> child_at T 1 = s) = (child_at T 1 = x \<and> child_at T 0 = s))"
      "\<not> ((child_at T 0 = x \<and> child_at T 1 = s) \<and> (internal_node_key T 0 \<noteq> removed_max \<or> removed_max \<ge> fst (hd (entries S))))"
      "\<not> (\<not> (child_at T 0 = x \<and> child_at T 1 = s) \<and> (internal_node_key T 0 \<noteq> leaf_max S \<or> removed_max \<le> leaf_max S))"
    unfolding collapse_to_leaf_def if_not_P [OF g(1)] if_not_P [OF g(2)] if_not_P [OF g(3)] cnt(1) option.case if_not_P [OF g4] range(1) prod.case
      if_not_P [OF mm] Let_def stage_child_at_eq stage_key_at_eq q_def [symmetric] if_not_P [OF c(1)] if_not_P [OF c(2)] if_not_P [OF c(3)]
      if_not_P [OF gq] if_not_P [OF gl] T'_def PAGE_USABLE_SIZE_eq by (rule refl)
  have e: "collapse_to_leaf T t S s x removed_max = Some (T', s)"
  proof (use side in \<open>elim disjE conjE\<close>)
    assume a: "node_kids T = [x, s]" "node_seps T = [removed_max]" "removed_max < fst (hd (entries S))"
    show ?thesis by (rule e) (use two_children [OF a(1,2)] a(3) d in simp_all)
  next
    assume a: "node_kids T = [s, x]" "node_seps T = [leaf_max S]" "leaf_max S < removed_max"
    show ?thesis by (rule e) (use two_children [OF a(1,2)] a(3) d in simp_all)
  qed
  have l4: "length q = 4096" by (rule Q(1))
  note C = validate_copy_usable [OF L(1) l4 V(1) T'_def]
  note I = identity_slices [OF C(3)]
  have sorted: "entries T' = entries S" using C(2) L(2) by simp
  have "slotted_read T' k cap = (if node_route T k = s then slotted_read S k cap else None)" for k cap
  proof (cases "node_route T k = s")
    case True
    then show ?thesis using slotted_read_spec [OF C(1)] slotted_read_spec [OF v(1)] sorted by simp
  next
    case False
    have "k \<notin> fst ` set (entries S)"
    proof
      assume "k \<in> fst ` set (entries S)"
      then have "fst (hd (entries S)) \<le> k" "k \<le> leaf_max S" using entries_range [OF v(1)] by auto
      with side have "node_route T k = s" by (auto simp: node_route_def route_index_def)
      with False show False by simp
    qed
    then have "map_of (entries S) k = None" by (simp add: map_of_eq_None_iff)
    then show ?thesis using slotted_read_spec [OF C(1)] sorted False by (simp add: spec_read_def)
  qed
  moreover have "rd32 2 T' = 0" "T' ! 1 = 1" using I Q(3,4) by (simp_all add: rd32_def)
  moreover have "rd32 18 T' = 0" "rd32 22 T' = 0" using I L(3,4) v by simp_all
  ultimately show ?thesis using e C(1,5) sorted by blast
qed

lemma root_collapse_keeps_rows_witness:
  "\<exists>T'. collapse_to_leaf (node_bytes 1 0 [4, 9] [10] empty_page) 1 (made_leaf 0 1 0 0 [(20, [2])]) 9 4 10 = Some (T', 9) \<and>
     map (\<lambda>k. slotted_read T' k 10) [10, 20] = [None, Some [2]]"
proof -
  have sz: "length [4, 9::nat] = length [10::nat] + 1" "length [10::nat] \<le> 509" "[10::nat] \<noteq> []" "\<forall>k\<in>set [10]. k < (2::nat) ^ 32"
    "\<forall>k\<in>set [4, 9]. k < (2::nat) ^ 32" "(0::nat) < 2 ^ 32" "0 \<notin> set [4, 9::nat]" "distinct [4, 9::nat]" "sorted_wrt (<) [10::nat]" by simp_all
  define T where "T = node_bytes 1 0 [4, 9] [10] empty_page"
  define S where "S = made_leaf 0 1 0 0 [(20, [2])]"
  note F = made_node [OF sz T_def]
  have ok: "entries_ok [(20, [2 :: u8])]" "(1::nat) < 2 ^ 32" by (simp_all add: entries_ok_def)
  note G = made_leaf_facts [OF ok sz(6,6) S_def]
  have d: "distinct [1, 9, 4::nat]" "9 \<notin> {0, INVALID_PAGE_NUM}" "4 \<notin> {0, INVALID_PAGE_NUM}" by (simp_all add: INVALID_PAGE_NUM_def)
  have i: "T ! 1 \<noteq> 0" "entries S \<noteq> []" "(10::nat) < fst (hd (entries S))" unfolding F(6) G(2) by simp_all
  have "leaf_collapse_fits T 1 S 9 4 10"
    unfolding leaf_collapse_fits_def using F(2,3,4,7) G(1,5-8) d i by blast
  from root_collapse_keeps_rows [OF this] obtain T' where T': "collapse_to_leaf T 1 S 9 4 10 = Some (T', 9)"
    and rd: "\<forall>k capacity. slotted_read T' k capacity = (if node_route T k = 9 then slotted_read S k capacity else None)"
    by (elim exE conjE) (rule that)
  have "map (\<lambda>k. slotted_read T' k 10) [10, 20] = [None, Some [2]]"
    using rd route_two [OF F(4,3)] slotted_read_spec [OF G(1)] by (simp add: G(2) spec_read_def)
  then show ?thesis using T' unfolding T_def [symmetric] S_def [symmetric] by (intro exI conjI)
qed

text \<open>C23. When one of two internal children of the root is given up, the other one becomes the root: every
  lookup that went through it ends at the same page, one level higher; the new root has its children, each of them with the
  root as parent, and leaves among them keep rows and links.\<close>

theorem root_collapse_keeps_lookups:
  assumes ok: "collapse_to_internal T t S s surviving_max x removed_max children nums = Some (T', children', p)"
    and len: "length nums = length children" "t < 2 ^ 32"
    and shown: "P t = T" "P s = S" "\<forall>i<length children. P (nums ! i) = children ! i"
    and tree: "t \<notin> set (concat (map (tree_pages P h) (node_kids S)))" "h = 0 \<or> list_all parent_stage_validate children"
  shows "p = s \<and> T' ! 1 = 1 \<and> rd32 2 T' = 0 \<and> parent_stage_validate T' \<and> node_kids T' = node_kids S \<and>
    (\<forall>k. node_route T k = s \<longrightarrow> descend (with_pages P (t # nums) (T' # children')) k (Suc h) t = descend P k (Suc (Suc h)) t) \<and>
    (\<forall>i<length children. rd32 2 (children' ! i) = t \<and>
      (get_node_type (children ! i) = NODE_LEAF \<longrightarrow> page_rows (children' ! i) = page_rows (children ! i) \<and> leaf_links (children' ! i) = leaf_links (children ! i)))"
proof -
  obtain q staged where q_def: "q = promoted_root T S" and staged_def: "staged = map (\<lambda>page. wr32 2 t (slice 0 4096 page)) children"
    and v: "parent_stage_validate T" "parent_stage_validate S" and n: "length children = internal_node_num_keys S + 1"
    and cs: "list_all (collapse_child_ok S t s x children nums) [0..<length children]"
    and r: "T' = blit 0 (slice 0 4092 q) T" "children' = map2 (\<lambda>scratch page. blit 0 (slice 0 4092 scratch) page) staged children" "p = s"
    by (rule collapse_to_internal_Some [OF ok]; rule that; assumption)
  have C: "nums ! i \<noteq> t" "nums ! i = stage_child_at S i" "direct_child_valid (children ! i) s" if "i < length children" for i
    using cs that unfolding list_all_iff collapse_child_ok_def by (auto simp: list_ex_iff)
  note VT = valid_nodeD [OF v(1)] and VS = valid_nodeD [OF v(2)]
  have kids: "nums = node_kids S"
  proof (rule nth_equalityI)
    show "length nums = length (node_kids S)" using len n by simp
    fix i assume "i < length nums"
    then show "nums ! i = node_kids S ! i" using C(2) [of i] len n by (simp add: stage_child_at_eq)
  qed
  have d: "distinct (t # nums)" using VS(6) C(1) len kids by (auto simp: in_set_conv_nth)
  note N = promoted_node [OF v(2) VT(1) q_def] and Q = promoted_root_spec [OF VT(1) VS(1) q_def]
  note B = published_node_again [OF N(1) Q(1) VT(1) r(1)]
  have "T' ! 1 = q ! 1" "rd32 2 T' = rd32 2 q"
  proof -
    note U = published_spec [OF Q(1) VT(1), unfolded published_def, folded r(1)]
    show "T' ! 1 = q ! 1" by (rule nth_usable [OF U(2)]) (use U(1) VT(1) Q(1) in simp_all)
    have "slice 2 4 T' = slice 2 4 q" using slice_slice [of 2 4 4092 0 T'] slice_slice [of 2 4 4092 0 q] U(2) by (simp add: numeral_2_eq_2)
    then show "rd32 2 T' = rd32 2 q" unfolding rd32_def by (rule arg_cong)
  qed
  then have id: "T' ! 1 = 1" "rd32 2 T' = 0" using Q(3,4) by simp_all
  have ch: "children' ! i = blit 0 (slice 0 4092 (wr32 2 t (slice 0 4096 (children ! i)))) (children ! i)" if "i < length children" for i
    using that by (simp add: r(2) staged_def)
  have lc: "length (T' # children') = length (t # nums)" using len by (simp add: r(2) staged_def)
  let ?P = "with_pages P (t # nums) (T' # children')"
  have at: "?P t = T'" "?P (nums ! i) = children' ! i" if "i < length nums" for i
    using with_pages_nth [OF d lc, of 0 P] with_pages_nth [OF d lc, of "Suc i" P] that by simp_all
  have T't: "?P t = T'" using with_pages_nth [OF d lc, of 0 P] by simp
  have route: "node_route (?P c) k = node_route (P c) k" if c: "c \<noteq> t" "list_all parent_stage_validate children" for c k
  proof (cases "c \<in> set nums")
    case True
    then obtain i where i: "i < length nums" "c = nums ! i" by (metis in_set_conv_nth)
    then have pc: "P c = children ! i" "?P c = children' ! i" using shown len at by simp_all
    have "parent_stage_validate (children ! i)" using c(2) i len by (simp add: list_all_length)
    with pc show ?thesis using adopted_child(5) [OF C(3) len(2) ch] i len by simp
  next
    case False
    then show ?thesis using with_pages_other [OF lc, of c P] c(1) by simp
  qed
  have down: "descend ?P k h c = descend P k h c" if c: "c \<in> set (node_kids S)" for k c
  proof (cases "h = 0")
    case False
    then have va: "list_all parent_stage_validate children" using tree(2) by simp
    show ?thesis
    proof (rule descend_routes)
      fix y assume "y \<in> set (tree_pages P h c)"
      then have "y \<noteq> t" using tree(1) c by auto
      then show "node_route (?P y) k = node_route (P y) k" using va by (rule route)
    qed
  qed simp
  have lists: "node_kids T' = node_kids S" "node_seps T' = node_seps S" using B(2,3) N(2,3) by simp_all
  have "descend ?P k (Suc h) t = descend P k (Suc (Suc h)) t" if "node_route T k = s" for k
  proof -
    have "node_route T' k = node_route S k" using lists by (simp add: node_route_def)
    then show ?thesis using T't shown(1,2) that down [OF node_route_kid] by simp
  qed
  moreover have "rd32 2 (children' ! i) = t \<and> (get_node_type (children ! i) = NODE_LEAF \<longrightarrow>
      page_rows (children' ! i) = page_rows (children ! i) \<and> leaf_links (children' ! i) = leaf_links (children ! i))" if i: "i < length children" for i
    using adopted_child(1,6) [OF C(3) [OF i] len(2) ch [OF i]] by blast
  ultimately show ?thesis using id B(1) lists(1) r(3) by blast
qed

lemma direct_leaf:
  assumes "slotted_validate p" "p ! 1 = 0" "rd32 2 p = par"
  shows "direct_child_valid p par"
proof -
  have d: "detect_page p = PAGE_FORMAT_SLOTTED_V2" using assms(1) by (simp add: detect_v2)
  then have "\<not> length p < PAGE_SIZE" "get_node_type p = NODE_LEAF"
    by (auto simp: detect_page_def get_node_type_def leaf_header_offsets split: if_splits)
  moreover have "NODE_LEAF \<noteq> NODE_INTERNAL" by (simp add: NODE_LEAF_def NODE_INTERNAL_def)
  ultimately show ?thesis using assms d unfolding direct_child_valid_def by (simp add: numeral_2_eq_2)
qed

lemma adopted_scratch:
  assumes v: "slotted_validate p" and z: "p ! 1 = 0" and t: "t < 2 ^ 32"
  shows "direct_child_valid (wr32 2 t (slice 0 4096 p)) t"
proof -
  have d: "detect_page p \<noteq> PAGE_FORMAT_UNKNOWN" using v by (simp add: detect_v2 [symmetric])
  note S = scratch_any_leaf [OF d]
  have ds: "detect_page (slice 0 4096 p) \<noteq> PAGE_FORMAT_UNKNOWN" using S(1) d by simp
  note W = parent_write [OF ds t refl]
  show ?thesis by (rule direct_leaf) (use W S v z in \<open>simp_all add: detect_v2 [symmetric]\<close>)
qed

lemma root_collapse_keeps_lookups_witness:
  "\<exists>T' children'. collapse_to_internal demo_root 1 (demo_right 1) 3 40 2 20 [demo_leaf 5, demo_leaf 6] [5, 6] = Some (T', children', 3) \<and>
     map (\<lambda>k. descend (with_pages (demo_tree demo_root 1) [1, 5, 6] (T' # children')) k 1 1) [25, 30, 31] = [5, 5, 6]"
proof -
  have one: "(1::nat) < 2 ^ 32" by simp
  note D = demo_root_facts and N = demo_nodes [OF one]
  define q where "q = promoted_root demo_root (demo_right 1)"
  have l: "4096 \<le> length demo_root" "4096 \<le> length (demo_right 1)" using D(1) N(9) by simp_all
  note A = promoted_node [OF N(10) l(1) q_def] and B = promoted_root_spec [OF l q_def]
  note K = two_lists [OF N(13)]
  have q: "child_at q 0 = 5" "child_at q 1 = 6" using two_children [of q] A(2,3) K N by simp_all
  have leaf: "slotted_validate (demo_leaf n)" "demo_leaf n ! 1 = 0" "rd32 2 (demo_leaf n) = 3" if "n \<in> {5, 6}" for n
    using that made_leaf_facts [OF _ _ _ _ refl, of "[(30, [3])]" 3 6 9 0] made_leaf_facts [OF _ _ _ _ refl, of "[(40, [4])]" 3 0 5 0]
    by (auto simp: demo_leaf_def entries_ok_def)
  have dc: "direct_child_valid (demo_leaf n) 3" "direct_child_valid (wr32 2 1 (slice 0 4096 (demo_leaf n))) 1" if "n \<in> {5, 6}" for n
    using direct_leaf [OF leaf [OF that]] adopted_scratch [OF leaf(1,2) [OF that] one] .
  have "\<exists>T' children'. collapse_to_internal demo_root 1 (demo_right 1) 3 40 2 20 [demo_leaf 5, demo_leaf 6] [5, 6] = Some (T', children', 3)"
    unfolding collapse_to_internal_def Let_def internal_offsets stage_child_at_eq stage_key_at_eq num_keys_rd [symmetric] PAGE_SIZE_def q_def [symmetric]
    using D N A(1,4) B(3,4) q dc [of 5] dc [of 6]
    by (simp add: collapse_child_ok_def stage_child_at_eq INVALID_PAGE_NUM_def num_keys_rd upt_two)
  then obtain T' children' where s: "collapse_to_internal demo_root 1 (demo_right 1) 3 40 2 20 [demo_leaf 5, demo_leaf 6] [5, 6] = Some (T', children', 3)"
    by blast
  let ?P = "demo_tree demo_root 1"
  have o: "length [5, 6::nat] = length [demo_leaf 5, demo_leaf 6]" "?P 1 = demo_root" "?P 3 = demo_right 1"
    "\<forall>i<length [demo_leaf 5, demo_leaf 6]. ?P ([5, 6] ! i) = [demo_leaf 5, demo_leaf 6] ! i"
    "(0::nat) = 0 \<or> list_all parent_stage_validate [demo_leaf 5, demo_leaf 6]" by (auto simp: demo_tree_def less_Suc_eq)
  have tr: "1 \<notin> set (concat (map (tree_pages ?P 0) (node_kids (demo_right 1))))" using K(1) N by simp
  have R: "descend (with_pages ?P [1, 5, 6] (T' # children')) k (Suc 0) 1 = descend ?P k (Suc (Suc 0)) 1" if "node_route demo_root k = 3" for k
    using root_collapse_keeps_lookups [OF s o(1) one o(2-4) tr o(5)] that by blast
  have "map (\<lambda>k. descend ?P k (Suc (Suc 0)) 1) [25, 30, 31] = [5, 5, 6]"
    using route_two [OF D(6,7)] route_two [OF K] N by (simp add: demo_tree_def)
  moreover have "node_route demo_root k = 3" if "20 < k" for k using route_two [OF D(6,7), of k] that by simp
  ultimately show ?thesis using s R by simp
qed

section \<open>Merges\<close>

text \<open>C22. Two nodes of two leaves below the root become a root of three leaves when one of the four leaves, whose only
  row has the removed key, is given up: from the root, every lookup gives what it gave before, and the removed key is no longer found.
  The tree has one level less; the leaves that stay are children of the root and linked to each other.\<close>

theorem root_merge_removes_one_row:
  assumes ok: "stage_root_merge R r A a B b X x key leaves nums = Some (R', leaves')"
    and len: "length leaves = 3" "length nums = 3" "r < 2 ^ 32"
    and shown: "P r = R" "P a = A" "P b = B" "P x = X" "\<forall>i<3. P (nums ! i) = leaves ! i"
    and sorted: "\<forall>i<3. sorted_wrt (<) (map fst (page_rows (leaves ! i)))"
  shows "(\<forall>k. tree_row (with_pages P (r # nums) (R' # leaves')) 1 r k = (if k = key then None else tree_row P 2 r k)) \<and>
    parent_stage_validate R' \<and> R' ! 1 = 1 \<and> rd32 2 R' = 0 \<and> node_kids R' = nums \<and> drop 4092 R' = drop 4092 R \<and>
    (\<forall>i<3. rd32 2 (leaves' ! i) = r \<and> drop 4092 (leaves' ! i) = drop 4092 (leaves ! i)) \<and>
    map leaf_links leaves' = [(Some 0, Some (nums ! 1)), (Some (nums ! 0), Some (nums ! 2)), (Some (nums ! 1), Some 0)]"
proof -
  obtain fl infos lk chained staged where fl: "fl = (child_at A 1 = x)" "fl \<noteq> (child_at B 0 = x)" "child_at A 0 \<noteq> x" "child_at B 1 \<noteq> x"
    and ne: "a \<noteq> b" "a \<noteq> r" "b \<noteq> r"
    and R: "parent_stage_validate R" "internal_node_num_keys R = 1" "child_at R 0 = a" "child_at R 1 = b"
    and AB: "parent_stage_validate A" "internal_node_num_keys A = 1" "parent_stage_validate B" "internal_node_num_keys B = 1"
    and e: "\<forall>i\<in>{0, 1, 2}. nums ! i = (if fl then [child_at A 0, child_at B 0, child_at B 1] else [child_at A 0, child_at A 1, child_at B 1]) ! i \<and>
      nums ! i \<notin> {r, a, b, x} \<and> (\<forall>j<i. nums ! i \<noteq> nums ! j)"
    and inf: "merge_infos leaves (if fl then [a, b, b] else [a, a, b]) = Some infos"
    and mm: "fst (snd (infos ! 0)) < fst (infos ! 1)" "fst (snd (infos ! 1)) < fst (infos ! 2)"
    and X: "slotted_validate X" "merge_leaf_info X (if fl then a else b) = Some (key, key, lk)"
    and ch: "root_merge_chain_ok fl (internal_node_key B 0) (internal_node_key R 0) key nums x (internal_node_key A 0) infos lk"
    and rl: "relink_around (map (slice 0 4096) leaves) nums x (if fl then 0 else 1) = Some chained" "staged = map (wr32 2 r) chained"
    and R': "R' = published (node_bytes 1 0 nums (take 2 (map (fst \<circ> snd) infos)) (slice 0 4096 R)) R"
    and L: "leaves' = map2 (\<lambda>scratch page. blit 0 (slice 0 4092 scratch) page) staged leaves"
    and vq: "parent_stage_validate (node_bytes 1 0 nums (take 2 (map (fst \<circ> snd) infos)) (slice 0 4096 R))"
    and chk: "merge_infos staged [r, r, r] = Some [(fst (infos ! 0), fst (snd (infos ! 0)), 0, nums ! 1),
      (fst (infos ! 1), fst (snd (infos ! 1)), nums ! 0, nums ! 2), (fst (infos ! 2), fst (snd (infos ! 2)), nums ! 1, 0)]"
    by (rule root_merge_Some [OF ok]; rule that; assumption)
  have li: "length infos = 3" by (rule merge_infosD(1) [OF inf])
  note I = merge_leaf_infoD [OF merge_infosD(2) [OF inf]]
  have mxs: "take 2 (map (fst \<circ> snd) infos) = [fst (snd (infos ! 0)), fst (snd (infos ! 1))]"
    by (rule nth_equalityI) (use li in \<open>auto simp: less_Suc_eq numeral_2_eq_2\<close>)
  have nn: "nums = [nums ! 0, nums ! 1, nums ! 2]"
    by (rule nth_equalityI) (use len(2) in \<open>auto simp: less_Suc_eq numeral_2_eq_2 numeral_3_eq_3\<close>)
  define n0 n1 n2 m0 m1 where N: "n0 = nums ! 0" "n1 = nums ! 1" "n2 = nums ! 2" and M: "m0 = fst (snd (infos ! 0))" "m1 = fst (snd (infos ! 1))"
  have E: "n0 = child_at A 0" "n1 = (if fl then child_at B 0 else child_at A 1)" "n2 = child_at B 1" using e by (simp_all add: N)
  have d: "distinct [r, n0, n1, n2]" "a \<notin> {r, n0, n1, n2}" "b \<notin> {r, n0, n1, n2}" "x \<notin> {n0, n1, n2}" using e ne by (simp_all add: N All_less_Suc numeral_2_eq_2) auto
  have ord: "m0 < m1" "fst (infos ! 1) \<le> m1" using mm I(5) [of 1] by (simp_all add: M)
  have C: "if fl then internal_node_key A 0 = m0 \<and> internal_node_key B 0 = m1 \<and> internal_node_key R 0 = key \<and> m0 < key \<and> key < fst (infos ! 1)
    else internal_node_key A 0 = m0 \<and> internal_node_key B 0 = key \<and> internal_node_key R 0 = m1 \<and> m1 < key \<and> key < fst (infos ! 2)"
    using ch li unfolding root_merge_chain_ok_def Let_def M by (cases fl) (simp_all split: if_split_asm)
  note B = node_list_bounds [of A] node_list_bounds [of B] node_list_bounds [of R]
  note TA = two_lists [OF AB(2)] and TB = two_lists [OF AB(4)] and TR = two_lists [OF R(2)]
  have nb: "nums ! i < 2 ^ 32" if "i < 3" for i
  proof -
    have "i = 0 \<or> i = 1 \<or> i = 2" using that by auto
    then show ?thesis using B E unfolding TA TB N by (elim disjE) (auto split: if_splits)
  qed
  have vb: "\<forall>v\<in>set nums. v < 2 ^ 32" using nb len(2) by (auto simp: in_set_conv_nth)
  have mb: "m0 < 2 ^ 32" "m1 < 2 ^ 32" using B C unfolding TA TB TR by (cases fl; simp)+
  have ll: "4096 \<le> length R" by (rule valid_nodeD(1) [OF R(1)])
  have "length nums = length [m0, m1] + 1" "length [m0, m1] \<le> 509" "[m0, m1] \<noteq> []" "\<forall>k\<in>set [m0, m1]. k < 2 ^ 32"
    "\<forall>v\<in>set nums. v < 2 ^ 32" "(0::nat) < 2 ^ 32"
    using len vb mb by simp_all
  note Q = published_node [OF ll this R' [unfolded mxs, folded M]]
  have vR: "parent_stage_validate R'"
  proof -
    have sl: "length (slice 0 4096 R) = 4096" using scratch_usable [OF ll] by blast
    have "0 \<notin> set nums \<and> distinct nums \<and> sorted_wrt (<) [m0, m1]"
      using vq [unfolded mxs, folded M] node_bytes_valid [OF sl, of nums "[m0, m1]" 0 1] len vb mb by simp
    then show ?thesis using Q(7) by blast
  qed
  have jj: "(if fl then 0 else 1) \<le> (1::nat)" "nums ! (if fl then 0 else 1) < 2 ^ 32" "nums ! ((if fl then 0 else 1) + 1) < 2 ^ 32"
    using nb by simp_all
  note SL = staged_leaves [OF inf len(1) rl(1) jj len(3) rl(2) L]
  have S: "length leaves' = 3" "i < 3 \<Longrightarrow> page_rows (leaves' ! i) = page_rows (leaves ! i) \<and> rd32 2 (leaves' ! i) = r \<and>
      leaf_links (leaves' ! i) = leaf_links (staged ! i) \<and> drop 4092 (leaves' ! i) = drop 4092 (leaves ! i)" for i
    using SL(1) SL(2) [of i] SL(3) [of i] by simp_all
  have lc: "length (R' # leaves') = length (r # nums)" "distinct (r # nums)" using S(1) len d arg_cong [OF nn, of distinct] arg_cong [OF nn, of set] by (simp_all add: N)
  let ?P = "with_pages P (r # nums) (R' # leaves')"
  have at: "?P r = R'" "?P n0 = leaves' ! 0" "?P n1 = leaves' ! 1" "?P n2 = leaves' ! 2"
    using with_pages_nth [OF lc(2,1), of 0 P] with_pages_nth [OF lc(2,1), of 1 P] with_pages_nth [OF lc(2,1), of 2 P]
      with_pages_nth [OF lc(2,1), of 3 P] len by (simp_all add: N numeral_2_eq_2 numeral_3_eq_3)
  have P: "P n0 = leaves ! 0" "P n1 = leaves ! 1" "P n2 = leaves ! 2" using shown(5) by (simp_all add: N)
  have new: "node_route R' k = (if k \<le> m0 then n0 else if k \<le> m1 then n1 else n2)" for k
    by (rule route_three [OF _ Q(1)]) (use Q(2) nn in \<open>simp add: N\<close>)
  have old: "node_route R k = (if k \<le> internal_node_key R 0 then a else b)" "node_route A k = (if k \<le> internal_node_key A 0 then child_at A 0 else child_at A 1)"
    "node_route B k = (if k \<le> internal_node_key B 0 then child_at B 0 else child_at B 1)" for k
    using route_two [OF TA] route_two [OF TB] route_two [OF TR] R by simp_all
  have sX: "sorted_wrt (<) (map fst (page_rows X))" using valid_entries(1) [OF X(1)] page_rows_v2 [OF X(1)] by (simp add: entries_ok_def)
  have xr: "map_of (page_rows X) k = None" if "k \<noteq> key" for k
    by (rule only_row [OF sX _ _ that]) (use merge_leaf_infoD(3,4) [OF X(2)] in simp_all)
  have before: "map_of (page_rows (leaves ! i)) k = None" if "k < fst (infos ! i)" "i < 3" for i k
    by (rule outside_rows) (use that sorted I(3) in auto)
  have row: "tree_row ?P 1 r k = (if k = key then None else tree_row P 2 r k)" for k
  proof -
    let ?rw = "\<lambda>n. map_of (page_rows (P n))"
    have Ex: "if fl then child_at A 1 = x \<and> child_at B 0 = n1 else child_at A 1 = n1 \<and> child_at B 0 = x" using fl E by auto
    have now: "tree_row ?P 1 r k = ?rw (if k \<le> m0 then n0 else if k \<le> m1 then n1 else n2) k"
      using at P S(2) new by (simp add: tree_row_def)
    have then_: "tree_row P 2 r k = ?rw (if k \<le> internal_node_key R 0 then if k \<le> internal_node_key A 0 then child_at A 0 else child_at A 1
        else if k \<le> internal_node_key B 0 then child_at B 0 else child_at B 1) k"
      using shown old by (simp add: tree_row_def numeral_2_eq_2)
    show ?thesis unfolding now then_
      by (rule merged_rows [OF C ord E(1,3) [symmetric] Ex]) (use xr before P shown in simp_all)
  qed
  have links: "map leaf_links leaves' = [(Some 0, Some (nums ! 1)), (Some (nums ! 0), Some (nums ! 2)), (Some (nums ! 1), Some 0)]"
  proof (rule nth_equalityI)
    fix i assume "i < length (map leaf_links leaves')"
    then have i: "i < 3" using S(1) by simp
    then have "i = 0 \<or> i = 1 \<or> i = 2" by auto
    then show "map leaf_links leaves' ! i = [(Some 0, Some (nums ! 1)), (Some (nums ! 0), Some (nums ! 2)), (Some (nums ! 1), Some 0)] ! i"
      using merge_leaf_infoD(6) [OF merge_infosD(2) [OF chk i]] S(1,2) i by (elim disjE) simp_all
  qed (use S(1) in simp)
  show ?thesis using row vR Q(3,4,2,6) S(2) links by blast
qed

abbreviation demo_stay :: "bytes list" where "demo_stay \<equiv> [demo_leaf 4, demo_leaf 5, demo_leaf 6]"

lemma demo_infos: "merge_infos demo_stay [2, 3, 3] = Some [(10, 10, 0, 9), (30, 30, 9, 6), (40, 40, 5, 0)]"
  by (simp add: merge_infos_def demo_leaves)

lemma demo_chain:
  assumes par: "par < 2 ^ 32"
  obtains chained where "relink_around (map (slice 0 4096) demo_stay) [4, 5, 6] 9 0 = Some chained"
    "merge_infos (map (wr32 2 par) chained) [par, par, par] = Some [(10, 10, 0, 5), (30, 30, 4, 6), (40, 40, 5, 0)]"
proof -
  note A = merge_leaf_infoD [OF demo_leaves(1)] and B = merge_leaf_infoD [OF demo_leaves(3)]
  note SA = scratch_any_leaf [OF A(1)] and SB = scratch_any_leaf [OF B(1)]
  have "\<exists>q. stage_leaf_sibling_relink (slice 0 4096 (demo_leaf 4)) True 9 5 = Some q"
    by (rule relink_succeeds) (use A SA in \<open>simp_all add: leaf_links_def INVALID_PAGE_NUM_def\<close>)
  moreover have "\<exists>q. stage_leaf_sibling_relink (slice 0 4096 (demo_leaf 5)) False 9 4 = Some q"
    by (rule relink_succeeds) (use B SB in \<open>simp_all add: leaf_links_def INVALID_PAGE_NUM_def\<close>)
  ultimately obtain chained where c: "relink_around (map (slice 0 4096) demo_stay) [4, 5, 6] 9 0 = Some chained"
    by (auto simp: relink_around_def)
  have "length demo_stay = 3" "(0::nat) \<le> 1" by simp_all
  note S = staged_infos [OF demo_infos this(1) c this(2)]
  have "merge_infos (map (wr32 2 par) chained) [par, par, par] = Some [(10, 10, 0, 5), (30, 30, 4, 6), (40, 40, 5, 0)]"
    using S [OF _ _ par] A(6) B(6) merge_leaf_infoD(6) [OF demo_leaves(4)] by (simp add: chain_links_def INVALID_PAGE_NUM_def)
  with c that show thesis by blast
qed

lemma demo_sorted: "\<forall>i<3. sorted_wrt (<) (map fst (page_rows (demo_stay ! i)))"
proof (intro allI impI)
  fix i :: nat assume "i < 3"
  then have "i = 0 \<or> i = 1 \<or> i = 2" by auto
  then show "sorted_wrt (<) (map fst (page_rows (demo_stay ! i)))" using demo_leaves(8,10,11) by (elim disjE) simp_all
qed

lemma demo_rows:
  assumes "par < 2 ^ 32" and pg: "P par = top_page" "P 2 = demo_left par" "P 3 = demo_right par" "P 9 = demo_leaf 9" "\<forall>i<3. P ([4, 5, 6] ! i) = demo_stay ! i"
    and r: "node_route top_page k = (if k \<le> 20 then 2 else 3)"
  shows "tree_row P 2 par k = map_of [(10, [1]), (20, [2]), (30, [3]), (40, [4])] k"
proof -
  note N = demo_nodes [OF assms(1)]
  have l: "P 4 = demo_leaf 4" "P 5 = demo_leaf 5" "P 6 = demo_leaf 6"
    using pg(5) [rule_format, of 0] pg(5) [rule_format, of 1] pg(5) [rule_format, of 2] by simp_all
  have "descend P k 2 par = node_route (P (node_route (P par) k)) k" by (simp add: numeral_2_eq_2)
  also have "\<dots> = (if k \<le> 20 then if k \<le> 10 then 4 else 9 else if k \<le> 30 then 5 else 6)"
    using route_two [OF two_lists [OF N(5)], of k] route_two [OF two_lists [OF N(13)], of k] N pg(1-3) r by simp
  finally show ?thesis using l pg(4) demo_leaves(8-11) by (auto simp: tree_row_def)
qed

lemma root_merge_removes_one_row_witness:
  "\<exists>R' leaves'. stage_root_merge demo_root 1 (demo_left 1) 2 (demo_right 1) 3 (demo_leaf 9) 9 20 demo_stay [4, 5, 6] = Some (R', leaves') \<and>
     map (tree_row (with_pages (demo_tree demo_root 1) [1, 4, 5, 6] (R' # leaves')) 1 1) [10, 20, 30, 40] = [Some [1], None, Some [3], Some [4]]"
proof -
  have sz: "length [2, 3::nat] = length [20::nat] + 1" "length [20::nat] \<le> 509" "[20::nat] \<noteq> []" "\<forall>k\<in>set [20]. k < (2::nat) ^ 32"
    "\<forall>k\<in>set [2, 3]. k < (2::nat) ^ 32" "(0::nat) < 2 ^ 32" "0 \<notin> set [2, 3::nat]" "distinct [2, 3::nat]" "sorted_wrt (<) [20::nat]" by simp_all
  note T = made_node [OF sz demo_root_def]
  note TC = two_children [OF T(4,3)]
  note N = demo_nodes [of 1]
  obtain chained where c: "relink_around (map (slice 0 4096) demo_stay) [4, 5, 6] 9 0 = Some chained"
    "merge_infos (map (wr32 2 1) chained) [1, 1, 1] = Some [(10, 10, 0, 5), (30, 30, 4, 6), (40, 40, 5, 0)]"
    by (rule demo_chain [of 1]) simp_all
  define q where "q = node_bytes 1 0 [4, 5, 6] [10, 30] demo_root"
  have qs: "length [4, 5, 6::nat] = length [10, 30::nat] + 1" "length [10, 30::nat] \<le> 509" "[10, 30::nat] \<noteq> []" "\<forall>k\<in>set [10, 30]. k < (2::nat) ^ 32"
    "\<forall>k\<in>set [4, 5, 6]. k < (2::nat) ^ 32" by simp_all
  note Q = node_bytes_spec [OF T(1) qs(1,2,4,5) sz(6) q_def] node_bytes_valid [OF T(1) qs sz(6), of 1, folded q_def]
  have ex: "\<exists>R' leaves'. stage_root_merge demo_root 1 (demo_left 1) 2 (demo_right 1) 3 (demo_leaf 9) 9 20 demo_stay [4, 5, 6] = Some (R', leaves')"
    unfolding stage_root_merge_def Let_def internal_offsets stage_child_at_eq stage_key_at_eq num_keys_rd [symmetric]
    using T TC N demo_leaves demo_infos c Q
    by (simp add: root_merge_chain_ok_def q_def [symmetric] PAGE_SIZE_def INVALID_PAGE_NUM_def num_keys_rd upt_two)
  then obtain R' leaves' where s: "stage_root_merge demo_root 1 (demo_left 1) 2 (demo_right 1) 3 (demo_leaf 9) 9 20 demo_stay [4, 5, 6] = Some (R', leaves')"
    by blast
  let ?P = "demo_tree demo_root 1"
  have shown: "\<forall>i<3. ?P ([4, 5, 6] ! i) = demo_stay ! i" by (auto simp: less_Suc_eq numeral_3_eq_3 demo_tree_def)
  have pg: "?P 1 = demo_root" "?P 2 = demo_left 1" "?P 3 = demo_right 1" "?P 9 = demo_leaf 9" by (simp_all add: demo_tree_def)
  have len: "length demo_stay = 3" "length [4, 5, 6::nat] = 3" "(1::nat) < 2 ^ 32" by simp_all
  have R: "tree_row (with_pages ?P [1, 4, 5, 6] (R' # leaves')) 1 1 k = (if k = 20 then None else tree_row ?P 2 1 k)" for k
    using root_merge_removes_one_row [OF s len pg shown demo_sorted] by blast
  have "map (tree_row ?P 2 1) [10, 20, 30, 40] = [Some [1], Some [2], Some [3], Some [4]]"
    by (simp only: list.map demo_rows [OF len(3) pg shown route_two [OF T(4,3)]]) simp
  then show ?thesis using s R by simp
qed

text \<open>C21. Below a node that is not the root, two neighbours of two leaves become one node of three when one of the four leaves, whose
  only row has the removed key, is given up: from that node, every lookup gives what it gave before, and the removed key is no longer found.
  The node loses the child that is given up, the kept child has the three leaves, each with that parent,
  and the chain of leaves goes past the removed one.\<close>

theorem nonroot_merge_removes_one_row:
  assumes ok: "stage_nonroot_merge G g T t S s X x key leaves nums = Some (G', K', leaves', kept, obsolete)"
    and len: "length leaves = 3" "length nums = 3" "g < 2 ^ 32"
    and shown: "P g = G" "P t = T" "P s = S" "P x = X" "\<forall>i<3. P (nums ! i) = leaves ! i"
    and sorted: "\<forall>i<3. sorted_wrt (<) (map fst (page_rows (leaves ! i)))"
    and tree: "distinct (tree_pages P 2 g)"
  shows "(\<forall>k. tree_row (with_pages P (g # kept # nums) (G' # K' # leaves')) 2 g k = (if k = key then None else tree_row P 2 g k)) \<and>
    parent_stage_validate G' \<and> parent_stage_validate K' \<and> node_kids G' = filter (\<lambda>c. c \<noteq> obsolete) (node_kids G) \<and>
    node_kids K' = nums \<and> rd32 2 K' = g \<and> (\<forall>i<3. rd32 2 (leaves' ! i) = kept) \<and>
    map leaf_links leaves' = [(fst (leaf_links (leaves ! 0)), Some (nums ! 1)), (Some (nums ! 0), Some (nums ! 2)),
      (Some (nums ! 1), snd (leaf_links (leaves ! 2)))]"
proof -
  obtain rm i infos lk chained staged G1 K1 where x: "rm \<longleftrightarrow> child_at T 1 = x" "rm \<noteq> (child_at T 0 = x)"
    and kept: "kept = (if rm then s else t)" "obsolete = (if rm then t else s)"
    and i: "i < internal_node_num_keys G" "child_at G i = obsolete" "child_at G (i + 1) = kept"
    and v: "parent_stage_validate G" "parent_stage_validate T" "internal_node_num_keys T = 1" "parent_stage_validate S" "internal_node_num_keys S = 1"
    and E: "nums = (if rm then [child_at T 0, child_at S 0, child_at S 1] else [child_at S 0, child_at S 1, child_at T 1])"
    and inf: "merge_infos leaves (if rm then [t, s, s] else [s, s, t]) = Some infos"
    and mm: "fst (snd (infos ! 0)) < fst (infos ! 1)" "fst (snd (infos ! 1)) < fst (infos ! 2)"
    and X: "slotted_validate X" "merge_leaf_info X t = Some (key, key, lk)"
    and C: "if rm then internal_node_key T 0 = fst (snd (infos ! 0)) \<and> internal_node_key S 0 = fst (snd (infos ! 1)) \<and>
        internal_node_key G i = key \<and> fst (snd (infos ! 0)) < key \<and> key < fst (infos ! 1)
     else internal_node_key S 0 = fst (snd (infos ! 0)) \<and> internal_node_key T 0 = key \<and>
        internal_node_key G i = fst (snd (infos ! 1)) \<and> fst (snd (infos ! 1)) < key \<and> key < fst (infos ! 2)"
    and d: "distinct (g # t # s # nums)"
    and ln: "if rm then snd (snd (snd (infos ! 1))) = nums ! 2 \<and> fst (snd (snd (infos ! 2))) = nums ! 1
     else snd (snd (snd (infos ! 0))) = nums ! 1 \<and> fst (snd (snd (infos ! 1))) = nums ! 0"
    and up: "\<not> rm \<longrightarrow> i + 1 < internal_node_num_keys G \<longrightarrow> internal_node_key G (i + 1) = fst (snd (infos ! 2))"
    and rl: "relink_around (map (slice 0 4096) leaves) nums x (if rm then 0 else 1) = Some chained" "staged = map (wr32 2 kept) chained"
    and K1: "K1 = node_bytes 0 g nums (take 2 (map (fst \<circ> snd) infos)) (replicate 4096 0)" "parent_stage_validate K1"
    and rem: "stage_child_remove (slice 0 4096 G) obsolete (internal_node_key G i) = Some (G1, i, None)"
    and R: "G' = blit 0 (slice 0 4092 G1) G" "K' = blit 0 (slice 0 4092 K1) (if rm then S else T)"
      "leaves' = map2 (\<lambda>scratch page. blit 0 (slice 0 4092 scratch) page) staged leaves"
    by (rule nonroot_merge_Some [OF ok len(2)]; rule that; assumption)
  define m0 m1 where M: "m0 = fst (snd (infos ! 0))" "m1 = fst (snd (infos ! 1))"
  define A B where AB: "A = (if rm then T else S)" "B = (if rm then S else T)"
  have li: "length infos = 3" by (rule merge_infosD(1) [OF inf])
  note I = merge_leaf_infoD [OF merge_infosD(2) [OF inf]]
  have ord: "m0 < m1" "fst (infos ! 1) \<le> m1" "fst (infos ! 2) \<le> fst (snd (infos ! 2))" using mm I(5) [of 1] I(5) [of 2] by (simp_all add: M)
  have mxs: "take 2 (map (fst \<circ> snd) infos) = [m0, m1]" unfolding M by (subst three_list [OF li]) (simp add: numeral_2_eq_2)
  have n: "internal_node_num_keys A = 1" "internal_node_num_keys B = 1" using v by (simp_all add: AB)
  have TG: "node_kids T = [child_at T 0, child_at T 1]" "node_seps T = [internal_node_key T 0]"
    "node_kids S = [child_at S 0, child_at S 1]" "node_seps S = [internal_node_key S 0]" using two_lists v by blast+
  have vb: "\<forall>v\<in>set nums. v < 2 ^ 32" using node_list_bounds(2) [of T] node_list_bounds(2) [of S] E unfolding TG by (cases rm) simp_all
  have gs: "internal_node_key G i < 2 ^ 32" using node_list_bounds(1) [of G] i(1) by (metis length_node_lists(1) nth_mem nth_node_lists(1))
  have mb: "\<forall>k\<in>set [m0, m1]. k < 2 ^ 32"
    using node_list_bounds(1) [of T] node_list_bounds(1) [of S] C gs unfolding TG M by (cases rm) simp_all
  have kb: "kept < 2 ^ 32" using nth_mem [of "i + 1" "node_kids G"] node_list_bounds(2) [of G] i by simp
  note P1 = removed_published [OF v(1) rem R(1)]
  note VG = valid_nodeD [OF v(1)]
  have sz: "length (replicate 4096 (0::u8)) = 4096" "length nums = length [m0, m1] + 1" "length [m0, m1] \<le> 509" using len by simp_all
  note Q = node_bytes_spec [OF sz mb vb len(3) K1(1) [unfolded mxs]]
  have lK: "4096 \<le> length (if rm then S else T)" using valid_nodeD(1) [OF v(2)] valid_nodeD(1) [OF v(4)] by simp
  note PK = published_node_again [OF K1(2) Q(1) lK R(2)]
  have K': "node_seps K' = [m0, m1]" "node_kids K' = nums" using PK(2,3) Q(2,3) by simp_all
  have K'g: "rd32 2 K' = g"
  proof -
    have "slice 2 4 K' = slice 2 4 K1" using slice_slice [of 2 4 6 0 K'] slice_slice [of 2 4 6 0 K1] PK(6) by (simp add: numeral_2_eq_2)
    then have "rd32 2 K' = rd32 2 K1" unfolding rd32_def by (rule arg_cong)
    then show ?thesis using Q(6) by simp
  qed
  have nb: "nums ! j < 2 ^ 32" if "j < 3" for j using vb len(2) that by simp
  have jj: "(if rm then 0 else 1) \<le> (1::nat)" "nums ! (if rm then 0 else 1) < 2 ^ 32" "nums ! ((if rm then 0 else 1) + 1) < 2 ^ 32"
    using nb by simp_all
  note SL = staged_leaves [OF inf len(1) rl(1) jj kb rl(2) R(3)]
  have S: "length leaves' = 3" "j < 3 \<Longrightarrow> page_rows (leaves' ! j) = page_rows (leaves ! j) \<and> rd32 2 (leaves' ! j) = kept \<and>
      leaf_links (leaves' ! j) = chain_links leaves nums (if rm then 0 else 1) j" for j
    using SL by blast+
  have links: "map leaf_links leaves' = [(fst (leaf_links (leaves ! 0)), Some (nums ! 1)), (Some (nums ! 0), Some (nums ! 2)),
      (Some (nums ! 1), snd (leaf_links (leaves ! 2)))]"
  proof (rule nth_equalityI)
    fix j assume "j < length (map leaf_links leaves')"
    then have j: "j < 3" using S(1) by simp
    then have "j = 0 \<or> j = 1 \<or> j = 2" by auto
    then show "map leaf_links leaves' ! j = [(fst (leaf_links (leaves ! 0)), Some (nums ! 1)), (Some (nums ! 0), Some (nums ! 2)),
      (Some (nums ! 1), snd (leaf_links (leaves ! 2)))] ! j"
      using S(2) [OF j] I(6) [OF j] S(1) ln by (cases rm; elim disjE) (simp_all add: chain_links_def numeral_2_eq_2)
  qed (use S(1) in simp)
  have kd: "distinct (node_kids G)" "sorted_wrt (<) (node_seps G)" "length (node_kids G) = Suc (internal_node_num_keys G)" using VG(6,7) by simp_all
  have kids: "node_kids G' = filter (\<lambda>c. c \<noteq> obsolete) (node_kids G)"
    using drop_at_unlisted [OF kd(1), of i] i P1(2) by simp
  define ns where "ns = g # kept # nums"
  have lc: "length (G' # K' # leaves') = length ns" "distinct ns" using S(1) len d kept by (auto simp: ns_def)
  let ?P = "with_pages P ns (G' # K' # leaves')"
  define n0 n1 n2 where N: "n0 = nums ! 0" "n1 = nums ! 1" "n2 = nums ! 2"
  have nn: "nums = [n0, n1, n2]" using three_list [OF len(2)] by (simp add: N)
  have at: "?P g = G'" "?P kept = K'" "?P n0 = leaves' ! 0" "?P n1 = leaves' ! 1" "?P n2 = leaves' ! 2"
  proof -
    have w: "?P (ns ! j) = (G' # K' # leaves') ! j" if "j < 5" for j
      by (rule with_pages_nth [OF lc(2,1)]) (use that len in \<open>simp add: ns_def\<close>)
    have e: "ns = [g, kept, n0, n1, n2]" by (simp add: ns_def nn)
    show "?P g = G'" "?P kept = K'" "?P n0 = leaves' ! 0" "?P n1 = leaves' ! 1" "?P n2 = leaves' ! 2"
      using w [of 0] w [of 1] w [of 2] w [of 3] w [of 4] unfolding e by (simp_all add: numeral_2_eq_2 numeral_3_eq_3 eval_nat_numeral)
  qed
  have P: "P n0 = leaves ! 0" "P n1 = leaves ! 1" "P n2 = leaves ! 2" "P obsolete = A" "P kept = B"
    using shown kept by (simp_all add: N AB)
  have same: "?P c = P c" if "c \<notin> set ns" for c using with_pages_other [OF lc(1) that] .
  have route': "node_route G' k = (if route_index (node_seps G) k = i then kept else node_route G k)" for k
    using removed_child_route [OF kd(2) i(1) P1(2,3), of k] i(3) by simp
  have routeK: "node_route K' k = (if k \<le> m0 then n0 else if k \<le> m1 then n1 else n2)" for k
    by (rule route_three [OF _ K'(1)]) (use K'(2) nn in simp)
  have routes: "node_route A k = (if k \<le> internal_node_key A 0 then child_at A 0 else child_at A 1)"
    "node_route B k = (if k \<le> internal_node_key B 0 then child_at B 0 else child_at B 1)" for k
    using route_two [OF two_lists [OF n(1)]] route_two [OF two_lists [OF n(2)]] by blast+
  have sX: "sorted_wrt (<) (map fst (page_rows X))" using valid_entries(1) [OF X(1)] page_rows_v2 [OF X(1)] by (simp add: entries_ok_def)
  have xr: "map_of (page_rows X) k = None" if "k \<noteq> key" for k
    by (rule only_row [OF sX _ _ that]) (use merge_leaf_infoD(3,4) [OF X(2)] in simp_all)
  have before: "map_of (page_rows (leaves ! j)) k = None" if "k < fst (infos ! j)" "j < 3" for j k
    by (rule outside_rows) (use that sorted I(3) in auto)
  have D: "if rm then internal_node_key A 0 = m0 \<and> internal_node_key B 0 = m1 \<and> internal_node_key G i = key \<and> m0 < key \<and> key < fst (infos ! 1)
    else internal_node_key A 0 = m0 \<and> internal_node_key B 0 = key \<and> internal_node_key G i = m1 \<and> m1 < key \<and> key < fst (infos ! 2)"
    using C by (cases rm) (simp_all add: M AB)
  have E': "child_at A 0 = n0" "child_at B 1 = n2" "if rm then child_at A 1 = x \<and> child_at B 0 = n1 else child_at A 1 = n1 \<and> child_at B 0 = x"
    using E x by (cases rm; simp add: N AB numeral_2_eq_2)+
  have near: "tree_row ?P 2 g k = (if k = key then None else tree_row P 2 g k)" if j: "route_index (node_seps G) k \<in> {i, i + 1}" for k
  proof -
    let ?rw = "\<lambda>n. map_of (page_rows (P n))"
    have le: "route_index (node_seps G) k = i \<longleftrightarrow> k \<le> internal_node_key G i"
      using route_indexD(2) [where ss = "node_seps G" and k = k and x = i] route_indexD(3) [where ss = "node_seps G" and k = k] j i(1) by auto
    have r: "node_route G k = (if k \<le> internal_node_key G i then obsolete else kept)"
      using le j i by (auto simp: node_route_def)
    have now: "tree_row ?P 2 g k = ?rw (if k \<le> m0 then n0 else if k \<le> m1 then n1 else n2) k"
      using at P S(2) routeK route' [of k] r le by (simp add: tree_row_def numeral_2_eq_2)
    have then_: "tree_row P 2 g k = ?rw (if k \<le> internal_node_key G i then if k \<le> internal_node_key A 0 then child_at A 0 else child_at A 1
        else if k \<le> internal_node_key B 0 then child_at B 0 else child_at B 1) k"
      using shown(1) P routes r by (simp add: tree_row_def numeral_2_eq_2)
    show ?thesis unfolding now then_
      by (rule merged_rows [OF D ord(1,2) E']) (use xr before P shown in simp_all)
  qed
  have at_key: "route_index (node_seps G) key \<in> {i, i + 1}"
    by (rule route_at_key [OF kd(2)]) (use i(1) D up ord(3) in \<open>cases rm; simp\<close>)+
  have far: "tree_row ?P 2 g k = tree_row P 2 g k" if j: "route_index (node_seps G) k \<notin> {i, i + 1}" for k
  proof -
    have dG: "distinct (tree_pages P (Suc 1) g)" using tree by (simp add: numeral_2_eq_2)
    have kid: "node_kids (P g) ! i = obsolete" "node_kids (P g) ! (i + 1) = kept" using i shown(1) by simp_all
    have sub: "set (kept # nums) \<subseteq> set (tree_pages P 1 obsolete) \<union> set (tree_pages P 1 kept)"
      using P two_lists(1) [OF n(1)] two_lists(1) [OF n(2)] E' nn by (cases rm) auto
    have "tree_row ?P (Suc 1) g k = tree_row P (Suc 1) g k"
    proof (rule far_lookup [OF dG, of k i "i + 1"])
      fix y assume "y \<noteq> g" "y \<notin> set (tree_pages P 1 (node_kids (P g) ! i))" "y \<notin> set (tree_pages P 1 (node_kids (P g) ! (i + 1)))"
      then show "?P y = P y" unfolding kid using same [of y] sub by (auto simp: ns_def simp del: tree_pages.simps)
    qed (use j i(1) kd(3) shown(1) at(1) route' in simp_all)
    then show ?thesis by (simp add: numeral_2_eq_2)
  qed
  have row: "tree_row ?P 2 g k = (if k = key then None else tree_row P 2 g k)" for k
  proof (cases "route_index (node_seps G) k \<in> {i, i + 1}")
    case False
    with at_key have "k \<noteq> key" by blast
    then show ?thesis using far [OF False] by simp
  qed (rule near)
  show ?thesis using row P1(1) PK(1) kids K'(2) K'g S(2) links unfolding ns_def by blast
qed

definition demo_parent :: bytes where "demo_parent = node_bytes 0 100 [2, 3, 7] [20, 40] empty_page"
definition demo_other :: bytes where "demo_other = node_bytes 0 8 [11, 12] [50] empty_page"

lemma demo_parent_facts:
  "length demo_parent = 4096" "parent_stage_validate demo_parent" "demo_parent ! 1 = 0" "rd32 2 demo_parent = 100" "internal_node_num_keys demo_parent = 2"
  "node_kids demo_parent = [2, 3, 7]" "node_seps demo_parent = [20, 40]" "child_at demo_parent 0 = 2" "child_at demo_parent 1 = 3" "child_at demo_parent 2 = 7"
  "internal_node_key demo_parent 0 = 20" "internal_node_key demo_parent 1 = 40" "node_kids demo_other = [11, 12]"
proof -
  have sz: "length [2, 3, 7::nat] = length [20, 40::nat] + 1" "length [20, 40::nat] \<le> 509" "[20, 40::nat] \<noteq> []" "\<forall>k\<in>set [20, 40]. k < (2::nat) ^ 32"
    "\<forall>k\<in>set [2, 3, 7]. k < (2::nat) ^ 32" "(100::nat) < 2 ^ 32" "0 \<notin> set [2, 3, 7::nat]" "distinct [2, 3, 7::nat]" "sorted_wrt (<) [20, 40::nat]" by simp_all
  note T = made_node [OF sz demo_parent_def]
  show "length demo_parent = 4096" "parent_stage_validate demo_parent" "demo_parent ! 1 = 0" "rd32 2 demo_parent = 100" "internal_node_num_keys demo_parent = 2"
    "node_kids demo_parent = [2, 3, 7]" "node_seps demo_parent = [20, 40]" using T by simp_all
  have "node_kids demo_parent ! 0 = 2" "node_kids demo_parent ! 1 = 3" "node_kids demo_parent ! 2 = 7" "node_seps demo_parent ! 0 = 20" "node_seps demo_parent ! 1 = 40"
    using T(3,4) by simp_all
  then show "child_at demo_parent 0 = 2" "child_at demo_parent 1 = 3" "child_at demo_parent 2 = 7"
    "internal_node_key demo_parent 0 = 20" "internal_node_key demo_parent 1 = 40" using T(8) by simp_all
  have so: "length [11, 12::nat] = length [50::nat] + 1" "length [50::nat] \<le> 509" "[50::nat] \<noteq> []" "\<forall>k\<in>set [50]. k < (2::nat) ^ 32"
    "\<forall>k\<in>set [11, 12]. k < (2::nat) ^ 32" "(8::nat) < 2 ^ 32" "0 \<notin> set [11, 12::nat]" "distinct [11, 12::nat]" "sorted_wrt (<) [50::nat]" by simp_all
  show "node_kids demo_other = [11, 12]" using made_node [OF so demo_other_def] by simp
qed

lemma demo_parent_remove:
  obtains G1 where "stage_child_remove demo_parent 2 20 = Some (G1, 0, None)" "parent_stage_validate G1" "G1 ! 1 = 0" "rd32 2 G1 = 100"
    "internal_node_num_keys G1 = 1" "child_at G1 0 = 3" "child_at G1 1 = 7" "internal_node_key G1 0 = 40"
proof -
  note D = demo_parent_facts
  have "removes_at demo_parent 0 2 20" using D by (simp add: removes_at_def INVALID_PAGE_NUM_def)
  then obtain G1 where r: "stage_child_remove demo_parent 2 20 = Some (G1, 0, None)" using D(5) by (auto simp: stage_child_remove_spec)
  note R = stage_child_remove_Some [OF r]
  have "node_kids G1 = [3, 7]" "node_seps G1 = [40]" using R(3,4) D by (simp_all add: drop_at_def)
  from two_children [OF this] R D that r show thesis by simp
qed

lemma nonroot_merge_removes_one_row_witness:
  "\<exists>G' K' leaves'. stage_nonroot_merge demo_parent 8 (demo_left 8) 2 (demo_right 8) 3 (demo_leaf 9) 9 20 demo_stay [4, 5, 6] = Some (G', K', leaves', 3, 2) \<and>
     map (tree_row (with_pages ((demo_tree demo_parent 8)(7 := demo_other)) [8, 3, 4, 5, 6] (G' # K' # leaves')) 2 8) [10, 20, 30, 40] =
       [Some [1], None, Some [3], Some [4]]"
proof -
  note D = demo_parent_facts
  note N = demo_nodes [of 8]
  obtain G1 where G1: "stage_child_remove demo_parent 2 20 = Some (G1, 0, None)" "parent_stage_validate G1" "G1 ! 1 = 0" "rd32 2 G1 = 100"
    "internal_node_num_keys G1 = 1" "child_at G1 0 = 3" "child_at G1 1 = 7" "internal_node_key G1 0 = 40" by (rule demo_parent_remove)
  obtain chained where c: "relink_around (map (slice 0 4096) demo_stay) [4, 5, 6] 9 0 = Some chained"
    "merge_infos (map (wr32 2 3) chained) [3, 3, 3] = Some [(10, 10, 0, 5), (30, 30, 4, 6), (40, 40, 5, 0)]"
    by (rule demo_chain [of 3]) simp_all
  define q where "q = node_bytes 0 8 [4, 5, 6] [10, 30] empty_page"
  have qs: "length [4, 5, 6::nat] = length [10, 30::nat] + 1" "length [10, 30::nat] \<le> 509" "[10, 30::nat] \<noteq> []" "\<forall>k\<in>set [10, 30]. k < (2::nat) ^ 32"
    "\<forall>k\<in>set [4, 5, 6]. k < (2::nat) ^ 32" "(8::nat) < 2 ^ 32" "0 \<notin> set [4, 5, 6::nat]" "distinct [4, 5, 6::nat]" "sorted_wrt (<) [10, 30::nat]" by simp_all
  note Q = made_node [OF qs q_def]
  have bt: "build_three_child (replicate 4096 0) 8 [4, 5, 6] [10, 30, 40] = Some q"
    using Q(2) by (simp add: build_three_child_def Let_def INVALID_PAGE_NUM_def q_def empty_page_def numeral_2_eq_2)
  have up3: "[0..<3] = [0, 1, 2::nat]" by (simp add: upt_rec numeral_3_eq_3)
  have lt: "locate_two demo_parent 2 3 3 [0..<3] (3, 3) = Some (0, 1)" unfolding up3 using D by (simp add: stage_child_at_eq)
  have kf: "kept_found G1 3 1 40 [0..<2] False = Some True" unfolding upt_two using G1 by (simp add: stage_child_at_eq stage_key_at_eq)
  have "\<exists>G' K' leaves'. stage_nonroot_merge demo_parent 8 (demo_left 8) 2 (demo_right 8) 3 (demo_leaf 9) 9 20 demo_stay [4, 5, 6] = Some (G', K', leaves', 3, 2)"
    unfolding stage_nonroot_merge_def Let_def internal_offsets stage_child_at_eq stage_key_at_eq num_keys_rd [symmetric] PAGE_SIZE_def
    using D N demo_leaves demo_infos c Q G1 bt lt kf
    by (simp add: nonroot_merge_chain_ok_def stage_key_at_eq INVALID_PAGE_NUM_def num_keys_rd upt_two)
  then obtain G' K' leaves' where s: "stage_nonroot_merge demo_parent 8 (demo_left 8) 2 (demo_right 8) 3 (demo_leaf 9) 9 20 demo_stay [4, 5, 6] =
      Some (G', K', leaves', 3, 2)" by blast
  define Q where "Q = (demo_tree demo_parent 8)(7 := demo_other)"
  have shown: "\<forall>i<3. Q ([4, 5, 6] ! i) = demo_stay ! i" by (auto simp: less_Suc_eq numeral_3_eq_3 demo_tree_def Q_def)
  have pg: "Q 8 = demo_parent" "Q 2 = demo_left 8" "Q 3 = demo_right 8" "Q 9 = demo_leaf 9" "Q 7 = demo_other" by (simp_all add: demo_tree_def Q_def)
  have len: "length demo_stay = 3" "length [4, 5, 6::nat] = 3" "(8::nat) < 2 ^ 32" by simp_all
  have kids: "node_kids (Q 8) = [2, 3, 7]" "node_kids (Q 2) = [4, 9]" "node_kids (Q 3) = [5, 6]" "node_kids (Q 7) = [11, 12]"
    using D N two_lists(1) [OF N(5)] two_lists(1) [OF N(13)] pg by simp_all
  have tree: "distinct (tree_pages Q 2 8)"
  proof -
    have lv: "tree_pages Q (Suc h) n = n # concat (map (tree_pages Q h) (node_kids (Q n)))" for h n by simp
    have "tree_pages Q 2 8 = tree_pages Q (Suc (Suc 0)) 8" by (simp only: numeral_2_eq_2)
    also have "\<dots> = [8, 2, 4, 9, 3, 5, 6, 7, 11, 12]"
      unfolding lv kids list.map concat.simps append.simps by (simp only: tree_pages.simps(1) append.simps)
    finally show ?thesis by simp
  qed
  have R: "tree_row (with_pages Q [8, 3, 4, 5, 6] (G' # K' # leaves')) 2 8 k = (if k = 20 then None else tree_row Q 2 8 k)" for k
    using nonroot_merge_removes_one_row [OF s len pg(1-4) shown demo_sorted tree] by blast
  have r: "node_route demo_parent k = (if k \<le> 20 then 2 else 3)" if "k \<le> 40" for k
    using route_three [OF D(6,7), of k] that by simp
  have v: "tree_row Q 2 8 k = map_of [(10, [1]), (20, [2]), (30, [3]), (40, [4])] k" if "k \<le> 40" for k
    by (rule demo_rows [OF len(3) pg(1-4) shown r [OF that]])
  have "map (tree_row Q 2 8) [10, 20, 30, 40] = [Some [1], Some [2], Some [3], Some [4]]"
    using v [of 10] v [of 20] v [of 30] v [of 40] by simp
  then show ?thesis using s R unfolding Q_def [symmetric] by simp
qed

end
