(* ===== verification/Spec2Isabelle.thy ===== *)
theory Spec2Isabelle
  imports PagerHandles SqlWhere ColumnTypes LeafProperties RecordReadProperties StoredValues TreeShrinkProperties
begin

text \<open>
A verification development for tinydb-c, an embedded database written in C (\<open>src/src\<close>).

\<^bold>\<open>The program.\<close> A database is a file of 4096-byte pages with two companions, a write-ahead log
and a list of free pages (\<open>pager.c\<close>, \<open>pager.h\<close>, \<open>pager_checkpoint_order.c\<close>). A table is a B+ tree
over pages: internal nodes and fixed-size V1 leaves in \<open>table.c\<close>, slotted V2 leaves with values of
varying length in \<open>slotted_leaf_v2.c\<close>. Rows are encoded by the schema of their table (\<open>record.c\<close>,
\<open>record_payload.c\<close>); a V2 leaf wraps a row into an envelope (\<open>row_envelope.h\<close>). \<open>record.c\<close> offers
the operations on rows, over the checks of \<open>leaf_mutation_policy.c\<close>; \<open>record_read_v2.c\<close> and
\<open>leaf_cursor_read.c\<close> read rows from trees with leaves of both formats. The SQL layers parse text
(\<open>generic_predicate.c\<close>, \<open>generic_boolean.c\<close>, \<open>column_type.c\<close>), choose a route and call the
operations on rows. The build renames functions so that files can be stacked: the functions of
\<open>record.c\<close> are compiled as \<open>..._base\<close> or \<open>..._v1_base\<close> and reached through the routes for V2 leaves,
and the cursor functions of \<open>table.c\<close> are reached through \<open>leaf_cursor_read.c\<close>. The definitions here
keep the name a function has in its file.

\<^bold>\<open>Conventions\<close> (\<open>Prelude\<close>, \<open>Bytes\<close>, \<open>Checksum\<close>, \<open>CText\<close>). A buffer is a list of bytes and
\<open>memcpy\<close> is \<open>blit\<close>; integers of the C code are words of their width, or naturals where the code
compares them after widening; \<open>'a result\<close> is a value or the message with which the process exits;
a function that reports failure gives \<open>None\<close> or its status. Loops over an index range are
\<open>for_each\<close>, other loops recursive functions with their measure, loops whose end depends on the
data \<open>partial_function (option)\<close>, with a theorem that says when they end. The C locale is "C";
text is NUL-terminated in lists of characters.

\<^bold>\<open>Pager.\<close> \<open>PageFile\<close>, \<open>Wal\<close> and \<open>FreeList\<close> hold the three files: writing a log record, the scan of
the log, recovery, and the publication of a free list with its crash points. \<open>LruQueue\<close> and
\<open>PagerState\<close> have the record \<open>pager\<close> (frames, LRU links, page table, dirty flags, spills, committed
shadows) with every operation of \<open>pager.c\<close> on it; \<open>PagerTxn\<close> has open, both checkpoints,
transactions and savepoints; \<open>PagerOrder\<close> the ordered checkpoint; \<open>PagerPins\<close>, \<open>PagerHandles\<close> the
handles of \<open>pager.h\<close>, with interleavings of their steps. \<open>PagerCache\<close>, \<open>PagerFetch\<close> and \<open>PagerOps\<close>
prove the invariant of the pool and the contract of each operation; \<open>PagerRefinement\<close> shows that
the pool is an array of pages; \<open>PagerCommit\<close>, \<open>PagerDurable\<close> and \<open>PagerRollback\<close> show durability,
atomicity and undoing; \<open>PagerLiveness\<close> when operations return; \<open>PagerPointers\<close> when a pointer into
a page stays good; \<open>PagerProperties\<close> collects the promises to callers with their witnesses.

\<^bold>\<open>Slotted leaves.\<close> \<open>SlottedLeaf\<close> translates \<open>slotted_leaf_v2.c\<close> on the bytes of the page.
\<open>SlottedLeafValid\<close>, \<open>SlottedLeafInsert\<close>, \<open>SlottedLeafRebuild\<close> read a valid page as a sorted list
of entries; \<open>SlottedLeafMap\<close> shows that any sequence of operations is the sequence
on a sorted map of bounded size.

\<^bold>\<open>Trees of \<open>table.c\<close>.\<close> \<open>NodeLayout\<close>, \<open>BTreeNode\<close> and \<open>BTree\<close> translate every accessor, search, cursor
and change of the tree on the pages that the pager shows. \<open>BTreeCells\<close> and \<open>BTreeInternal\<close> read
pages as arrays of cells; \<open>BTreeSearch\<close>, \<open>BTreeScan\<close>, \<open>BTreeUpdate\<close>, \<open>BTreeSplitBytes\<close>,
\<open>BTreeRootSplit\<close>, \<open>BTreeParent\<close>, \<open>BTreeLeafSplit\<close> and \<open>BTreeTable\<close> prove search,
scan, insertion and deletion right on the trees the code can build: at most two levels, because the
insertion into a full internal node ends the process. That and the loss of rows behind a stale
separator (\<open>BTreeStale\<close>) are theorems; \<open>BTreeProperties\<close> and \<open>BTreeDemo\<close> hold the properties and
concrete trees.

\<^bold>\<open>Stages of the V2 tree.\<close> A change of a tree with V2 leaves is first made on copies of its pages by
the functions of the \<open>..._stage.h\<close> headers, which check everything and write only when all checks
pass. \<open>StagedNodes\<close> and \<open>StagedOverflow\<close> translate the stages of internal nodes that grow (a child
splits, a full node or root splits), \<open>StagedNodeShrink\<close> says what writing and removing cells does,
\<open>StagedRoutes\<close> where a lookup goes afterwards, and \<open>StagedCascade\<close> follows a split over any number
of levels: \<open>descend\<close> walks through pages, \<open>tree_pages\<close> lists a tree. \<open>LeafSplits\<close> and
\<open>LeafSplitStages\<close> have the division of a leaf and its publication with links and parent,
\<open>LeafSplitProperties\<close> what it keeps. \<open>TreeShrink\<close> has the bound that becomes smaller upwards and the
root that takes over its last child, \<open>TreeMerge\<close> the merges after a leaf lost its last row, and
\<open>TreeShrinkProperties\<close> shows that lookups (\<open>tree_row\<close>) change in the removed key only, with
examples.

\<^bold>\<open>Rows.\<close> \<open>Schema\<close>, \<open>RecordCodec\<close>, \<open>RowEnvelope\<close> and \<open>ColumnTypes\<close> translate the schema checks, the
codecs of rows, both envelopes and the column types of SQL; \<open>RowEnvelopeRead\<close> and \<open>RecordDemo\<close> prove
and try their round trips. \<open>RecordTable\<close> has the values of leaf cells and the operations of
\<open>record.c\<close>; \<open>RecordMap\<close> and \<open>RecordRefinement\<close> show that they are operations on a map from keys to
rows. \<open>LeafPages\<close>, \<open>LeafPolicy\<close>, \<open>LeafCursor\<close>, \<open>RecordReads\<close> translate the reading of both leaf
formats; \<open>RecordReadSpec\<close>, \<open>LeafProperties\<close>, \<open>StoredValues\<close>, \<open>RecordReadProperties\<close> and
\<open>RecordTableDemo\<close> hold what they promise.

\<^bold>\<open>SQL text.\<close> \<open>SqlPredicate\<close> has the scanner, comparisons and LIKE; \<open>SqlBoolean\<close> the parser, the
evaluator and the writer of Boolean expressions; \<open>SqlBooleanRead\<close> and \<open>SqlWhere\<close> prove that the
parser ends on every text, that written expressions are read back, and what they mean.

\<^bold>\<open>Interfaces.\<close> \<open>cell_array\<close>, \<open>step_refinement\<close> and the other locales state what one layer relies on;
each is interpreted on the model's own functions in the theory that provides them.

\<^bold>\<open>Bounds and fuel.\<close> The parser of expressions takes fuel, one more than the length of the text,
which is shown to be enough for every text. The insertion into internal nodes takes fuel for its
ascent; trees of at most two levels ascend once. Walks over leaves and trees are partial
functions, total on well-formed tables. Where the code keeps counters in 32 bits the models count
with words unless the note of the definition says otherwise.

\<^bold>\<open>Not modelled.\<close> Failing system calls and allocations (the process exits or the call is refused),
latches between threads (handles record the mode they hold), message texts of the non-fatal calls,
foreign keys and index roots of a schema, evictions between two uses of a page in one tree
operation (\<open>PagerPointers\<close> has the bound below which there are none). Of the parser only the
result is kept where its callers give up. The removal of an emptied V1 leaf is translated but not
verified, nor is anything about trees deeper than the code can build. The update of a row as a
payload is left out since it first writes a side file of the generic indexes. The routes that find
a path, claim pages and publish the staged images of the V2 tree are left out, and of the stages
those that combine merges with borrowing on three levels. Catalogs, side
files, migration, the statement compiler, the virtual machine, SQL routes, statistics and
diagnostics are left out: they are sequences of file I/O and printing over the parts modelled.
\<close>

end
